(* ===== verification/Larbin_Prelude.thy ===== *)
theory Larbin_Prelude
  imports Main "HOL-Library.Word" "HOL-Library.Sublist"
begin

unbundle bit_operations_syntax

section \<open>Prelude: characters, C strings, decimal numbers, machine integers\<close>

text \<open>
  What every component shares. A C string is the list of its characters up to, and without,
  the terminating NUL; \<open>at_nul s i\<close> is the read \<open>s[i]\<close> for an index that is at most the
  length (the terminator itself is readable). A \<open>char\<close> of the source is signed, so
  \<open>schar\<close> is the value that takes part in arithmetic. Character classes are those of the
  C locale. Decimal printing (\<open>%u\<close>) and the digit loops that read it back are here, with
  their round trip, because the URL parser, the URL printer and the persistent fifo all
  rest on it. The other theories import this one.
\<close>

named_theorems norm_simps \<open>evaluation rules of small character predicates\<close>

subsection \<open>Characters\<close>

abbreviation cc :: "char \<Rightarrow> nat" where
  "cc c \<equiv> of_char c"

definition NUL :: char where
  "NUL = CHR 0x00"

definition NL :: char where
  "NL = CHR 0x0A"

definition CR :: char where
  "CR = CHR 0x0D"

definition TAB :: char where
  "TAB = CHR 0x09"

definition schar :: "char \<Rightarrow> int" where
  "schar c = (if cc c < 128 then int (cc c) else int (cc c) - 256)"

definition is_digit :: "char \<Rightarrow> bool" where
  "is_digit c \<longleftrightarrow> 48 \<le> cc c \<and> cc c \<le> 57"

definition is_upper :: "char \<Rightarrow> bool" where
  "is_upper c \<longleftrightarrow> 65 \<le> cc c \<and> cc c \<le> 90"

definition is_lower :: "char \<Rightarrow> bool" where
  "is_lower c \<longleftrightarrow> 97 \<le> cc c \<and> cc c \<le> 122"

definition is_alnum :: "char \<Rightarrow> bool" where
  "is_alnum c \<longleftrightarrow> is_digit c \<or> is_upper c \<or> is_lower c"

definition is_graph :: "char \<Rightarrow> bool" where
  "is_graph c \<longleftrightarrow> 33 \<le> cc c \<and> cc c \<le> 126"

definition is_space :: "char \<Rightarrow> bool" where
  "is_space c \<longleftrightarrow> cc c = 32 \<or> (9 \<le> cc c \<and> cc c \<le> 13)"

definition chr :: "nat \<Rightarrow> char" where
  "chr n = char_of n"

lemma cc_less [simp]: "cc c < 256"
proof -
  have "of_char c mod (256::nat) = of_char c" by (rule of_char_mod_256)
  then show ?thesis by (metis mod_less_divisor zero_less_numeral)
qed

lemma cc_chr [simp]: "n < 256 \<Longrightarrow> cc (chr n) = n"
  by (simp add: chr_def of_char_of)

lemma chr_cc [simp]: "chr (cc c) = c"
  by (simp add: chr_def)

lemma cc_inj: "cc a = cc b \<longleftrightarrow> a = b"
  by (metis chr_cc)

lemma schar_range: "-128 \<le> schar c \<and> schar c \<le> 127"
proof -
  have "int (cc c) < 256" using cc_less [of c] by linarith
  then show ?thesis by (simp only: schar_def split: if_split) linarith
qed

text \<open>tolower of the C locale, and the bit that the source sets to ignore case.\<close>

definition tolower :: "char \<Rightarrow> char" where
  "tolower c = (if is_upper c then chr (cc c + 32) else c)"

definition or32 :: "char \<Rightarrow> char" where
  "or32 c = chr (cc c OR 32)"

lemma cc_tolower: "cc (tolower c) = (if is_upper c then cc c + 32 else cc c)"
  by (auto simp: tolower_def is_upper_def)

lemma tolower_not_upper [simp]: "\<not> is_upper (tolower c)"
  by (auto simp: tolower_def is_upper_def)

lemma tolower_idem [simp]: "tolower (tolower c) = tolower c"
  using tolower_not_upper [of c] by (simp add: tolower_def [of "tolower c"])

text \<open>strcasecmp (0 when equal) and strncasecmp on whole strings, C locale.\<close>

definition streq_nocase :: "string \<Rightarrow> string \<Rightarrow> bool" where
  "streq_nocase a b \<longleftrightarrow> map tolower a = map tolower b"

subsection \<open>C strings\<close>

definition at_nul :: "string \<Rightarrow> nat \<Rightarrow> char" where
  "at_nul s i = (if i < length s then s ! i else NUL)"

definition no_nul :: "string \<Rightarrow> bool" where
  "no_nul s \<longleftrightarrow> NUL \<notin> set s"

text \<open>strchr: what starts at the first occurrence of a character (which may be the
  terminator), or nothing.\<close>

definition strchr :: "string \<Rightarrow> char \<Rightarrow> string option" where
  "strchr s c =
     (if c = NUL then Some []
      else (case dropWhile (\<lambda>x. x \<noteq> c) s of [] \<Rightarrow> None | r \<Rightarrow> Some r))"

lemma strchr_Nil [simp]: "strchr [] c = (if c = NUL then Some [] else None)"
  by (simp add: strchr_def)

lemma strchr_Cons:
  "c \<noteq> NUL \<Longrightarrow> strchr (x # s) c = (if x = c then Some (x # s) else strchr s c)"
  by (simp add: strchr_def)

lemma strchr_None: "c \<noteq> NUL \<Longrightarrow> strchr s c = None \<longleftrightarrow> c \<notin> set s"
  by (induction s) (auto simp: strchr_Cons)

lemma strchr_Some_split:
  "c \<noteq> NUL \<Longrightarrow> strchr s c = Some r \<Longrightarrow> \<exists>u r'. s = u @ r \<and> r = c # r' \<and> c \<notin> set u"
proof (induction s)
  case Nil
  then show ?case by simp
next
  case (Cons x s)
  show ?case
  proof (cases "x = c")
    case True
    with Cons.prems show ?thesis by (auto simp: strchr_Cons)
  next
    case False
    with Cons obtain u r' where "s = u @ r" "r = c # r'" "c \<notin> set u"
      by (auto simp: strchr_Cons)
    with False show ?thesis by (metis append_Cons set_ConsD)
  qed
qed

subsection \<open>Decimal numbers\<close>

text \<open>Printing with \<open>%u\<close> and the loops \<open>while ('0' <= c && c <= '9') n = 10*n + c - '0'\<close>.
  \<open>digits_of\<close> splits off the digit run; \<open>dec_val\<close> is its value.\<close>

definition digit_val :: "char \<Rightarrow> nat" where
  "digit_val c = cc c - 48"

definition digit_chr :: "nat \<Rightarrow> char" where
  "digit_chr d = chr (48 + d)"

fun dec :: "nat \<Rightarrow> string" where
  "dec n = (if n < 10 then [digit_chr n] else dec (n div 10) @ [digit_chr (n mod 10)])"

declare dec.simps [simp del]

definition dec_val :: "string \<Rightarrow> nat" where
  "dec_val s = foldl (\<lambda>n c. 10 * n + digit_val c) 0 s"

definition digits_of :: "string \<Rightarrow> string" where
  "digits_of s = takeWhile is_digit s"

definition after_digits :: "string \<Rightarrow> string" where
  "after_digits s = dropWhile is_digit s"

lemma is_digit_digit_chr [simp]: "d < 10 \<Longrightarrow> is_digit (digit_chr d)"
  by (simp add: is_digit_def digit_chr_def)

lemma digit_val_digit_chr [simp]: "d < 10 \<Longrightarrow> digit_val (digit_chr d) = d"
  by (simp add: digit_val_def digit_chr_def)

lemma dec_val_snoc: "dec_val (s @ [c]) = 10 * dec_val s + digit_val c"
  by (simp add: dec_val_def)

lemma dec_all_digits: "\<forall>c \<in> set (dec n). is_digit c"
proof (induction n rule: dec.induct)
  case (1 n)
  then show ?case by (subst dec.simps) (auto split: if_splits)
qed

lemma dec_nonempty: "dec n \<noteq> []"
  by (subst dec.simps) simp

lemma dec_val_dec [simp]: "dec_val (dec n) = n"
proof (induction n rule: dec.induct)
  case (1 n)
  show ?case
  proof (cases "n < 10")
    case True
    then show ?thesis by (subst dec.simps) (simp add: dec_val_def)
  next
    case False
    with 1 have "dec_val (dec (n div 10)) = n div 10" by simp
    with False show ?thesis by (subst dec.simps) (simp add: dec_val_snoc)
  qed
qed

lemma digits_of_dec:
  "\<not> is_digit (at_nul r 0) \<Longrightarrow> digits_of (dec n @ r) = dec n"
  "\<not> is_digit (at_nul r 0) \<Longrightarrow> after_digits (dec n @ r) = r"
  using dec_all_digits [of n]
  by (cases r; auto simp: digits_of_def after_digits_def at_nul_def takeWhile_append dropWhile_append)+

lemma dec_length_le: "0 < k \<Longrightarrow> n < 10 ^ k \<Longrightarrow> length (dec n) \<le> k"
proof (induction k arbitrary: n)
  case 0
  then show ?case by simp
next
  case (Suc k)
  show ?case
  proof (cases "n < 10")
    case True
    then show ?thesis by (subst dec.simps) simp
  next
    case False
    then have k: "0 < k" using Suc.prems by (cases k) auto
    have "n div 10 < 10 ^ k" using Suc.prems(2)
      by (simp add: mult.commute less_mult_imp_div_less)
    then have "length (dec (n div 10)) \<le> k" by (rule Suc.IH [OF k])
    with False show ?thesis by (subst dec.simps) simp
  qed
qed

lemma dec_length_ge: "10 ^ k \<le> n \<Longrightarrow> k < length (dec n)"
proof (induction k arbitrary: n)
  case 0
  then show ?case by (subst dec.simps) simp
next
  case (Suc k)
  then have "10 ^ k \<le> n div 10" by (simp add: less_eq_div_iff_mult_less_eq mult.commute)
  then have "k < length (dec (n div 10))" by (rule Suc.IH)
  moreover have "10 \<le> n" using Suc.prems by (metis le_trans one_le_numeral power_increasing_iff self_le_power zero_less_Suc)
  ultimately show ?case by (subst dec.simps) simp
qed

subsection \<open>32-bit signed results\<close>

text \<open>A computation in a C \<open>int\<close>, with the wrap-around that the compiled code has.\<close>

definition s32 :: "int \<Rightarrow> int" where
  "s32 x = signed_take_bit 31 x"

lemma s32_id: "- (2 ^ 31) \<le> x \<Longrightarrow> x < 2 ^ 31 \<Longrightarrow> s32 x = x"
  unfolding s32_def by (rule signed_take_bit_int_eq_self) auto

end
