(* ===== verification/CText.thy ===== *)
theory CText
  imports Larbin_Prelude
begin

section \<open>String predicates and tokens (src/utils/text.cxx)\<close>

text \<open>
  The helper functions of \<open>src/src/utils/text.cxx\<close>: prefix and suffix tests, the wildcard
  match used on robots.txt entries, the tokenizer shared by the robots.txt and the
  configuration parsers, and the file reader. Each loop over \<open>a[i]\<close>, \<open>b[j]\<close> is a recursion
  over the two strings; the terminator of a string is the empty list. A read past the
  terminator of a string is the value \<open>None\<close>.
\<close>

definition lowerCase :: "char \<Rightarrow> char" where
  "lowerCase a = (if is_upper a then chr (cc a - 65 + 97) else a)"

lemma lowerCase_tolower: "lowerCase = tolower"
  by (rule ext) (auto simp: lowerCase_def tolower_def is_upper_def add.commute)

fun startWith :: "string \<Rightarrow> string \<Rightarrow> bool" where
  "startWith [] b = True"
| "startWith (x # a) [] = False"
| "startWith (x # a) (y # b) = (x = y \<and> startWith a b)"

lemma startWith_prefix: "startWith a b = prefix a b"
  by (induction a b rule: startWith.induct) auto

text \<open>In \<open>robotsMatch\<close> a star jumps to the first occurrence of the character after it
  (of the terminator, when it is the last one), and there is no way back.\<close>

function robotsMatch :: "string \<Rightarrow> string \<Rightarrow> bool" where
  "robotsMatch [] b = True"
| "robotsMatch (x # a) b =
     (if x = CHR ''*'' then
        (case strchr b (at_nul a 0) of None \<Rightarrow> False | Some b' \<Rightarrow> robotsMatch a b')
      else (case b of [] \<Rightarrow> False | y # b' \<Rightarrow> x = y \<and> robotsMatch a b'))"
  by pat_completeness auto
termination by (relation "measure (\<lambda>(a, b). length a)") auto

text \<open>The comparison \<open>amin[i] != (b[i] | 0x20)\<close>: the terminator of \<open>b\<close> reads as a space, so
  a pattern with a space in its middle runs past the end of \<open>b\<close>.\<close>

fun startWithIgnoreCase :: "string \<Rightarrow> string \<Rightarrow> bool option" where
  "startWithIgnoreCase [] b = Some True"
| "startWithIgnoreCase (x # a) [] =
     (if x \<noteq> or32 NUL then Some False else if a = [] then Some True else None)"
| "startWithIgnoreCase (x # a) (y # b) =
     (if x \<noteq> or32 y then Some False else startWithIgnoreCase a b)"

definition endWith :: "string \<Rightarrow> string \<Rightarrow> bool" where
  "endWith a b \<longleftrightarrow> length a \<le> length b \<and> a = drop (length b - length a) b"

lemma endWith_suffix: "endWith a b = suffix a b"
proof
  assume "endWith a b"
  then show "suffix a b" by (metis endWith_def suffix_drop)
next
  assume "suffix a b"
  then obtain u where "b = u @ a" by (auto simp: suffix_def)
  then show "endWith a b" by (simp add: endWith_def)
qed

fun ewic_loop :: "string \<Rightarrow> string \<Rightarrow> bool" where
  "ewic_loop [] b = True"
| "ewic_loop (x # a) [] = False"
| "ewic_loop (x # a) (y # b) = (x = or32 y \<and> ewic_loop a b)"

definition endWithIgnoreCase :: "string \<Rightarrow> string \<Rightarrow> nat \<Rightarrow> bool" where
  "endWithIgnoreCase amin b lb =
     (let la = length amin in
      if la \<le> lb then ewic_loop amin (drop (lb - la) b) else False)"

text \<open>\<open>for (i = strlen(b) - la; i >= 0; i--)\<close> with \<open>strncasecmp(a, b + i, la)\<close>.\<close>

fun caseContain_from :: "string \<Rightarrow> string \<Rightarrow> nat \<Rightarrow> bool" where
  "caseContain_from a b i =
     (if streq_nocase a (take (length a) (drop i b)) then True
      else (case i of 0 \<Rightarrow> False | Suc j \<Rightarrow> caseContain_from a b j))"

declare caseContain_from.simps [simp del]

definition caseContain :: "string \<Rightarrow> string \<Rightarrow> bool" where
  "caseContain a b =
     (if length b < length a then False else caseContain_from a b (length b - length a))"

subsection \<open>The tokenizer\<close>

definition is_sep :: "char \<Rightarrow> char \<Rightarrow> bool" where
  "is_sep c x \<longleftrightarrow> x = c \<or> x = CHR '' '' \<or> x = TAB \<or> x = CR \<or> x = NL"

lemma dropWhile_length: "dropWhile P s = y # s' \<Longrightarrow> length s' < length s"
  by (metis length_Cons length_dropWhile_le Suc_le_eq)

text \<open>The first loop of \<open>nextToken\<close>: skip separators and comments; \<open>None\<close> when a comment
  runs to the end of the text.\<close>

function skip_seps :: "char \<Rightarrow> string \<Rightarrow> string option" where
  "skip_seps c [] = Some []"
| "skip_seps c (x # s) =
     (if is_sep c x then skip_seps c s
      else if x = CHR ''#'' then
        (case dropWhile (\<lambda>y. y \<noteq> NL) s of [] \<Rightarrow> None | _ # s' \<Rightarrow> skip_seps c s')
      else Some (x # s))"
  by pat_completeness auto

termination
  by (relation "measure (\<lambda>(c, s). length s)") (auto dest: dropWhile_length)

text \<open>The whole function: the token and what \<open>*posParse\<close> is left at, or NULL.\<close>

definition nextToken :: "char \<Rightarrow> string \<Rightarrow> (string \<times> string) option" where
  "nextToken c s =
     (case skip_seps c s of
        None \<Rightarrow> None
      | Some [] \<Rightarrow> None
      | Some (x # r) \<Rightarrow>
          if x = CHR ''\"'' then
            (let e = dropWhile (\<lambda>y. y \<noteq> CHR ''\"'') r
             in Some (takeWhile (\<lambda>y. y \<noteq> CHR ''\"'') r, drop 1 e))
          else
            (let e = dropWhile (\<lambda>y. \<not> is_sep c y) (x # r)
             in Some (takeWhile (\<lambda>y. \<not> is_sep c y) (x # r), drop 1 e)))"

text \<open>All the tokens of a text, as the two parsers' loops see them.\<close>

lemma skip_seps_length: "skip_seps c s = Some r \<Longrightarrow> length r \<le> length s"
proof (induction c s rule: skip_seps.induct)
  case (1 c)
  then show ?case by simp
next
  case (2 c x s)
  then show ?case
    by (fastforce split: if_splits list.splits dest: dropWhile_length)
qed

lemma skip_seps_suffix: "skip_seps c s = Some r \<Longrightarrow> suffix r s"
proof (induction c s rule: skip_seps.induct)
  case (1 c)
  then show ?case by simp
next
  case (2 c x s)
  show ?case
  proof (cases "is_sep c x \<or> x \<noteq> CHR ''#''")
    case True
    with 2 show ?thesis by (auto split: if_splits intro: suffix_ConsI)
  next
    case False
    with "2.prems" obtain y s' where d: "dropWhile (\<lambda>y. y \<noteq> NL) s = y # s'"
      and r: "skip_seps c s' = Some r" by (auto split: list.splits)
    from 2 False d r have "suffix r s'" by blast
    moreover have "suffix (y # s') s" using d suffix_dropWhile by metis
    ultimately show ?thesis by (meson suffix_ConsI suffix_order.trans)
  qed
qed

lemma skip_seps_head: "skip_seps c s = Some (x # r) \<Longrightarrow> \<not> is_sep c x \<and> x \<noteq> CHR ''#''"
  by (induction c s rule: skip_seps.induct) (auto split: if_splits list.splits)

lemma nextToken_shorter: "nextToken c s = Some (t, r) \<Longrightarrow> length r < length s"
proof -
  assume nt: "nextToken c s = Some (t, r)"
  then obtain x u where sk: "skip_seps c s = Some (x # u)"
    by (auto simp: nextToken_def split: option.splits list.splits)
  have ns: "\<not> is_sep c x" using skip_seps_head [OF sk] by simp
  have "length r \<le> length u"
  proof (cases "x = CHR ''\"''")
    case True
    with nt sk have "r = drop 1 (dropWhile (\<lambda>y. y \<noteq> CHR ''\"'') u)"
      by (simp add: nextToken_def Let_def)
    then show ?thesis using length_dropWhile_le [of "\<lambda>y. y \<noteq> CHR ''\"''" u] by simp
  next
    case False
    with nt sk ns have "r = drop 1 (dropWhile (\<lambda>y. \<not> is_sep c y) u)"
      by (simp add: nextToken_def Let_def)
    then show ?thesis using length_dropWhile_le [of "\<lambda>y. \<not> is_sep c y" u] by simp
  qed
  with skip_seps_length [OF sk] show ?thesis by simp
qed

function tokens :: "char \<Rightarrow> string \<Rightarrow> string list" where
  "tokens c s = (case nextToken c s of None \<Rightarrow> [] | Some (t, r) \<Rightarrow> t # tokens c r)"
  by pat_completeness auto
termination
  by (relation "measure (\<lambda>(c, s). length s)") (auto dest: nextToken_shorter)

declare tokens.simps [simp del]

subsection \<open>Configured extensions and content types\<close>

definition matchPrivExt :: "bool \<Rightarrow> string list \<Rightarrow> string \<Rightarrow> bool" where
  "matchPrivExt specificSearch privilegedExts file =
     (if \<not> specificSearch then False
      else list_ex (\<lambda>e. endWithIgnoreCase e file (length file)) privilegedExts)"

fun matchContentType_from :: "int \<Rightarrow> string list \<Rightarrow> string \<Rightarrow> int" where
  "matchContentType_from i [] ct = -1"
| "matchContentType_from i (t # ts) ct =
     (if startWithIgnoreCase t ct = Some True then i else matchContentType_from (i + 1) ts ct)"

definition matchContentType :: "bool \<Rightarrow> string list \<Rightarrow> string \<Rightarrow> int" where
  "matchContentType specificSearch contentTypes ct =
     (if \<not> specificSearch then 0 else matchContentType_from 0 contentTypes ct)"

subsection \<open>Reading a whole file\<close>

text \<open>One \<open>read(fds, &buf, 500)\<close>: data (at most 500 bytes), the end of the file, an error
  that is tried again (EINTR, EIO) or another error. \<open>readfile\<close> keeps the bytes read and the
  allocated size; the last component says whether the terminator was stored in bounds.\<close>

datatype read_result = RData string | REof | RRetry | RFail

record rf_state =
  rf_text :: string
  rf_size :: nat

definition readfile_add :: "rf_state \<Rightarrow> string \<Rightarrow> rf_state" where
  "readfile_add st d =
     (let st' = (if length (rf_text st) + length d \<ge> rf_size st
                 then st\<lparr>rf_size := 2 * rf_size st\<rparr> else st)
      in st'\<lparr>rf_text := rf_text st @ d\<rparr>)"

fun readfile_loop :: "rf_state \<Rightarrow> read_result list \<Rightarrow> rf_state" where
  "readfile_loop st [] = st"
| "readfile_loop st (REof # rs) = st"
| "readfile_loop st (RFail # rs) = st"
| "readfile_loop st (RRetry # rs) = readfile_loop st rs"
| "readfile_loop st (RData d # rs) = readfile_loop (readfile_add st d) rs"

definition readfile :: "read_result list \<Rightarrow> rf_state" where
  "readfile rs = readfile_loop \<lparr>rf_text = [], rf_size = 512\<rparr> rs"

subsection \<open>What the predicates mean\<close>

text \<open>The reference meaning of a robots.txt pattern: a star stands for any run of
  characters and the pattern has to match a prefix of the file name.\<close>

fun glob_prefix :: "string \<Rightarrow> string \<Rightarrow> bool" where
  "glob_prefix [] b = True"
| "glob_prefix (x # a) b =
     (if x = CHR ''*'' then list_ex (\<lambda>k. glob_prefix a (drop k b)) [0..<Suc (length b)]
      else (case b of [] \<Rightarrow> False | y # b' \<Rightarrow> x = y \<and> glob_prefix a b'))"

lemma strchr_drop: "strchr b c = Some b' \<Longrightarrow> \<exists>k \<le> length b. b' = drop k b"
proof (cases "c = NUL")
  case True
  assume "strchr b c = Some b'"
  with True show ?thesis by (intro exI [of _ "length b"]) (simp add: strchr_def)
next
  case False
  assume "strchr b c = Some b'"
  with False obtain u where "b = u @ b'" using strchr_Some_split by blast
  then show ?thesis by (intro exI [of _ "length u"]) simp
qed

lemma robotsMatch_glob: "robotsMatch a b \<Longrightarrow> glob_prefix a b"
proof (induction a b rule: robotsMatch.induct)
  case (1 b)
  then show ?case by simp
next
  case (2 x a b)
  show ?case
  proof (cases "x = CHR ''*''")
    case True
    with "2.prems" obtain b' where b': "strchr b (at_nul a 0) = Some b'" "robotsMatch a b'"
      by (auto split: option.splits)
    then have g: "glob_prefix a b'" using "2.IH"(1) [OF True] by blast
    obtain k where "k \<le> length b" "b' = drop k b" using strchr_drop [OF b'(1)] by blast
    with g True show ?thesis
      by (auto simp: list_ex_iff simp del: upt_Suc intro!: bexI [of _ k])
  next
    case False
    with 2 show ?thesis by (auto split: list.splits)
  qed
qed

lemma glob_robotsMatch:
  "CHR ''*'' \<notin> set (butlast a) \<Longrightarrow> glob_prefix a b \<Longrightarrow> robotsMatch a b"
proof (induction a b rule: robotsMatch.induct)
  case (1 b)
  then show ?case by simp
next
  case (2 x a b)
  show ?case
  proof (cases "x = CHR ''*''")
    case True
    with "2.prems"(1) have "a = []" by (cases a) auto
    with True show ?thesis by (simp add: at_nul_def strchr_def)
  next
    case False
    with "2.prems" obtain y b' where "b = y # b'" "x = y" "glob_prefix a b'"
      by (auto split: list.splits)
    moreover have "CHR ''*'' \<notin> set (butlast a)" using "2.prems"(1) by (cases a) auto
    ultimately show ?thesis using "2.IH"(2) [OF False] False by simp
  qed
qed

lemma robotsMatch_no_star:
  "CHR ''*'' \<notin> set a \<Longrightarrow> robotsMatch a b \<longleftrightarrow> prefix a b"
  by (induction a b rule: robotsMatch.induct) (auto split: list.splits)

lemma caseContain_from_iff:
  "caseContain_from a b i \<longleftrightarrow> (\<exists>j \<le> i. streq_nocase a (take (length a) (drop j b)))"
proof (induction i)
  case 0
  then show ?case by (subst caseContain_from.simps) simp
next
  case (Suc i)
  then show ?case by (subst caseContain_from.simps) (auto simp: le_Suc_eq)
qed

lemma streq_nocase_take:
  "streq_nocase a (take (length a) (drop j b)) \<longleftrightarrow>
   (\<exists>u v. map tolower b = u @ map tolower a @ v \<and> length u = j)"
  if "j + length a \<le> length b"
proof
  assume s: "streq_nocase a (take (length a) (drop j b))"
  have "b = take j b @ take (length a) (drop j b) @ drop (length a) (drop j b)"
    by (metis append_take_drop_id)
  then have "map tolower b = map tolower (take j b) @ map tolower (take (length a) (drop j b))
      @ map tolower (drop (length a) (drop j b))"
    by (metis map_append)
  with s that show "\<exists>u v. map tolower b = u @ map tolower a @ v \<and> length u = j"
    unfolding streq_nocase_def
    by (intro exI [of _ "map tolower (take j b)"]
        exI [of _ "map tolower (drop (length a) (drop j b))"]) simp
next
  assume "\<exists>u v. map tolower b = u @ map tolower a @ v \<and> length u = j"
  then obtain u v where uv: "map tolower b = u @ map tolower a @ v" "length u = j" by blast
  have "map tolower (take (length a) (drop j b)) = take (length a) (drop j (map tolower b))"
    by (simp add: take_map drop_map)
  also have "\<dots> = map tolower a" using uv by simp
  finally show "streq_nocase a (take (length a) (drop j b))" by (simp add: streq_nocase_def)
qed

lemma caseContain_sublist: "caseContain a b \<longleftrightarrow> sublist (map tolower a) (map tolower b)"
proof (cases "length b < length a")
  case True
  have "\<not> sublist (map tolower a) (map tolower b)"
    using True sublist_length_le [of "map tolower a" "map tolower b"] by auto
  with True show ?thesis by (simp add: caseContain_def)
next
  case False
  let ?n = "length b - length a"
  have eq: "streq_nocase a (take (length a) (drop j b)) \<longleftrightarrow>
      (\<exists>u v. map tolower b = u @ map tolower a @ v \<and> length u = j)" if "j \<le> ?n" for j
    using False that by (intro streq_nocase_take) linarith
  have "caseContain a b \<longleftrightarrow>
      (\<exists>j \<le> ?n. \<exists>u v. map tolower b = u @ map tolower a @ v \<and> length u = j)"
    using False eq by (simp add: caseContain_def caseContain_from_iff cong: conj_cong)
  also have "\<dots> \<longleftrightarrow> (\<exists>u v. map tolower b = u @ map tolower a @ v)"
  proof -
    have "length u \<le> ?n" if "map tolower b = u @ map tolower a @ v" for u v
      using arg_cong [OF that, of length] by simp
    then show ?thesis by blast
  qed
  finally show ?thesis by (auto simp: sublist_def)
qed

lemma nextToken_content:
  "nextToken c s = Some (t, r) \<Longrightarrow>
   (CHR ''\"'' \<in> set s) \<or> (t \<noteq> [] \<and> (\<forall>x \<in> set t. \<not> is_sep c x))"
proof -
  assume nt: "nextToken c s = Some (t, r)"
  then obtain x u where sk: "skip_seps c s = Some (x # u)"
    by (auto simp: nextToken_def split: option.splits list.splits)
  have ns: "\<not> is_sep c x" using skip_seps_head [OF sk] by simp
  have sub: "set (x # u) \<subseteq> set s" using skip_seps_suffix [OF sk] by (rule set_mono_suffix)
  show ?thesis
  proof (cases "x = CHR ''\"''")
    case True
    with sub show ?thesis by auto
  next
    case False
    with nt sk ns have "t = takeWhile (\<lambda>y. \<not> is_sep c y) (x # u)"
      by (simp add: nextToken_def Let_def)
    with ns show ?thesis by (auto dest: set_takeWhileD)
  qed
qed

definition rf_ok :: "rf_state \<Rightarrow> bool" where
  "rf_ok st \<longleftrightarrow> 512 \<le> rf_size st \<and> length (rf_text st) < rf_size st"

lemma readfile_add_ok:
  "rf_ok st \<Longrightarrow> length d \<le> 500 \<Longrightarrow> rf_ok (readfile_add st d)"
  by (auto simp: rf_ok_def readfile_add_def Let_def)

lemma readfile_loop_ok:
  "rf_ok st \<Longrightarrow> \<forall>d. RData d \<in> set rs \<longrightarrow> length d \<le> 500 \<Longrightarrow> rf_ok (readfile_loop st rs)"
  by (induction st rs rule: readfile_loop.induct) (auto intro: readfile_add_ok)

subsection \<open>Properties\<close>

text \<open>A file that \<open>robotsMatch\<close> reports as forbidden really starts with a match of the
  pattern, reading a star as any run of characters; for a pattern whose only star, if any, is
  its last character the answer is exactly that. (The search does not backtrack, so with an
  inner star it can miss a match.)\<close>

theorem robotsMatch_correct:
  "(robotsMatch a b \<longrightarrow> glob_prefix a b) \<and>
   (CHR ''*'' \<notin> set (butlast a) \<longrightarrow> robotsMatch a b = glob_prefix a b)"
  using robotsMatch_glob glob_robotsMatch by blast

theorem robotsMatch_correct_witness:
  "robotsMatch ''/priv*'' ''/private/x'' \<and> glob_prefix ''/priv*'' ''/private/x''"
proof -
  have "robotsMatch ''/priv*'' ''/private/x''"
    by (simp add: at_nul_def strchr_def)
  then show ?thesis using robotsMatch_correct [of "''/priv*''" "''/private/x''"] by blast
qed

text \<open>The wildcard search commits to the first occurrence of the character after the star,
  so the entry \<open>/*ab\<close> does not forbid \<open>/xaab\<close> although the pattern matches it.\<close>

theorem robotsMatch_no_backtrack:
  "glob_prefix ''/*ab'' ''/xaab'' \<and> \<not> robotsMatch ''/*ab'' ''/xaab''"
  by (simp add: at_nul_def strchr_def NUL_def upt_rec)

subsection \<open>Words in a text\<close>

definition plain_token :: "char \<Rightarrow> string \<Rightarrow> bool" where
  "plain_token c w \<longleftrightarrow> w \<noteq> [] \<and> hd w \<noteq> CHR 0x22 \<and> hd w \<noteq> CHR ''#'' \<and> (\<forall>x\<in>set w. \<not> is_sep c x)"

lemma tokens_blank: "is_sep c x \<Longrightarrow> tokens c (x # s) = tokens c s"
  by (subst (1 2) tokens.simps) (simp add: nextToken_def)

lemma tokens_blanks: "\<forall>x\<in>set bl. is_sep c x \<Longrightarrow> tokens c (bl @ s) = tokens c s"
  by (induction bl) (simp_all add: tokens_blank)

lemma tokens_token:
  assumes "plain_token c w" "is_sep c x"
  shows "tokens c (w @ x # s) = w # tokens c s"
proof -
  obtain y ys where y: "w = y # ys" using assms(1) by (cases w) (auto simp: plain_token_def)
  have ns: "\<forall>z\<in>set w. \<not> is_sep c z" and yq: "y \<noteq> CHR 0x22" "y \<noteq> CHR ''#''"
    using assms(1) by (auto simp: plain_token_def y)
  have "takeWhile (\<lambda>z. \<not> is_sep c z) (w @ x # s) = w" "dropWhile (\<lambda>z. \<not> is_sep c z) (w @ x # s) = x # s"
    using ns assms(2) by (simp_all add: takeWhile_tail)
  then have "nextToken c (w @ x # s) = Some (w, s)"
    using ns yq by (simp add: nextToken_def y Let_def)
  then show ?thesis by (subst tokens.simps) simp
qed

lemma tokens_comment:
  assumes "\<not> is_sep c (CHR ''#'')" "NL \<notin> set com"
  shows "tokens c (CHR ''#'' # com @ NL # s) = tokens c s"
proof -
  have "dropWhile (\<lambda>y. y \<noteq> NL) (com @ NL # s) = NL # s" using assms(2) by (induction com) auto
  then have "nextToken c (CHR ''#'' # com @ NL # s) = nextToken c s" using assms(1) by (simp add: nextToken_def)
  then show ?thesis by (subst (1 2) tokens.simps) simp
qed

text \<open>\<open>caseContain\<close>, used to look for the robot's own name in a User-agent line, holds
  exactly when the first string occurs in the second up to the case of letters, for any
  lengths, the empty and the too long pattern included.\<close>

theorem caseContain_correct:
  "caseContain a b = sublist (map tolower a) (map tolower b)"
  by (rule caseContain_sublist)

text \<open>Each call of \<open>nextToken\<close> that returns a token consumes at least one character of the
  text, so the parsers' loops end, and in a text without quotes the token is not empty and
  holds no separator.\<close>

theorem nextToken_correct:
  "nextToken c s = Some (t, r) \<Longrightarrow>
   length r < length s \<and>
   (CHR ''\"'' \<in> set s \<or> (t \<noteq> [] \<and> (\<forall>x \<in> set t. \<not> is_sep c x)))"
  using nextToken_shorter nextToken_content by blast

theorem nextToken_correct_witness:
  "nextToken CHR '':'' ''Disallow: /x'' = Some (''Disallow'', '' /x'') \<and>
   length '' /x'' < length ''Disallow: /x''"
proof -
  have "nextToken CHR '':'' ''Disallow: /x'' = Some (''Disallow'', '' /x'')"
    by (simp add: nextToken_def is_sep_def TAB_def CR_def NL_def)
  from this nextToken_correct [OF this] show ?thesis by blast
qed

text \<open>\<open>readfile\<close> doubles its array at most once per read, yet for reads of at most 500 bytes
  the array always has room for the data and the terminator, whatever the sequence of
  short reads and retried errors.\<close>

theorem readfile_in_bounds:
  assumes "\<forall>d. RData d \<in> set rs \<longrightarrow> length d \<le> 500"
  shows "length (rf_text (readfile rs)) < rf_size (readfile rs)"
  using readfile_loop_ok [OF _ assms, of "\<lparr>rf_text = [], rf_size = 512\<rparr>"]
  by (simp add: readfile_def rf_ok_def)

theorem readfile_in_bounds_witness:
  "length (rf_text (readfile [RData ''ab'', RRetry, RData ''c'', REof]))
   < rf_size (readfile [RData ''ab'', RRetry, RData ''c'', REof])"
  by (rule readfile_in_bounds) auto

end
