(* ===== verification/Punycode.thy ===== *)
theory Punycode
  imports Larbin_Prelude
begin

section \<open>Internationalised host names (src/utils/punycode.cxx)\<close>

text \<open>
  The encoder of RFC 3492 as \<open>src/src/utils/punycode.cxx\<close> has it: bias adaptation, the
  variable-length integers, the decoding of the bytes of a label into 16-bit code units, the
  encoder and the walk over the labels of a host. Counters are \<open>nat\<close>; the places where the
  source tests for overflow of a \<open>uint32_t\<close> keep that test. Code units are \<open>nat\<close> below 2^16.
  A run outside an array is \<open>None\<close>.
\<close>

subsection \<open>Bias adaptation and digits\<close>

fun adapt_loop :: "nat \<Rightarrow> nat \<Rightarrow> nat \<times> nat" where
  "adapt_loop delta k =
     (if delta > ((36 - 1) * 26) div 2 then adapt_loop (delta div (36 - 1)) (k + 36)
      else (delta, k))"

declare adapt_loop.simps [simp del]

definition adapt_bias :: "nat \<Rightarrow> nat \<Rightarrow> bool \<Rightarrow> nat" where
  "adapt_bias delta n_points is_first =
     (let d1 = delta div (if is_first then 700 else 2);
          d2 = d1 + d1 div n_points;
          (d, k) = adapt_loop d2 0
      in k + ((36 - 1 + 1) * d) div (d + 38))"

text \<open>The assertion \<open>c <= BASE - TMIN\<close> holds for every digit (\<open>var_int_digits\<close> below).\<close>

definition encode_digit :: "nat \<Rightarrow> char" where
  "encode_digit c = (if c > 25 then chr (c + 22) else chr (c + 97))"

definition threshold :: "nat \<Rightarrow> nat \<Rightarrow> nat" where
  "threshold bias k = (if k \<le> bias then 1 else if k \<ge> bias + 26 then 26 else k - bias)"

lemma threshold_range: "1 \<le> threshold bias k \<and> threshold bias k \<le> 26"
  by (auto simp: threshold_def)

text \<open>The digits that the loop of \<open>encode_var_int\<close> produces; \<open>room\<close> is \<open>dstlen - i\<close>.\<close>

fun var_int_digits :: "nat \<Rightarrow> nat \<Rightarrow> nat \<Rightarrow> nat \<Rightarrow> nat list" where
  "var_int_digits bias q k 0 = []"
| "var_int_digits bias q k (Suc room) =
     (let t = threshold bias k in
      if q < t then [q]
      else (t + (q - t) mod (36 - t)) #
             var_int_digits bias ((q - t) div (36 - t)) (k + 36) room)"

definition encode_var_int :: "nat \<Rightarrow> nat \<Rightarrow> nat \<Rightarrow> string" where
  "encode_var_int bias delta dstlen = map encode_digit (var_int_digits bias delta 36 dstlen)"

subsection \<open>Bytes to code units\<close>

text \<open>\<open>unicode[di] = src[si]\<close> stores a signed char in a \<open>uint16_t\<close>.\<close>

definition char_unit :: "char \<Rightarrow> nat" where
  "char_unit c = nat (schar c mod 65536)"

definition utf8_3 :: "char \<Rightarrow> char \<Rightarrow> char \<Rightarrow> nat" where
  "utf8_3 a b c =
     (let u0 = cc a mod 16;
          u1 = (u0 * 64 + cc b mod 64) mod 65536
      in (u1 * 64 + cc c mod 64) mod 65536)"

fun utf8_loop :: "string \<Rightarrow> nat list" where
  "utf8_loop (a # b # c # r) =
     (if cc a div 16 = 14 then utf8_3 a b c # utf8_loop r
      else char_unit a # utf8_loop (b # c # r))"
| "utf8_loop [a, b] = [char_unit a, char_unit b]"
| "utf8_loop [a] = [char_unit a, char_unit NUL]"
| "utf8_loop [] = []"

text \<open>The bound \<open>srclen - 2\<close> is unsigned: for a label of fewer than two bytes it wraps and the
  loop runs off the array.\<close>

definition utf8_to_unicode :: "string \<Rightarrow> nat list option" where
  "utf8_to_unicode src = (if length src < 2 then None else Some (utf8_loop src))"

subsection \<open>The encoder\<close>

record enc_state =
  e_delta :: nat
  e_bias :: nat
  e_h :: nat
  e_dst :: string

text \<open>One pass over the label for the code unit \<open>n\<close>; \<open>b\<close> is the number of basic units.
  \<open>None\<close> is the overflow \<open>++delta == 0\<close>.\<close>

fun enc_pass :: "nat \<Rightarrow> nat \<Rightarrow> nat \<Rightarrow> nat list \<Rightarrow> enc_state \<Rightarrow> enc_state option" where
  "enc_pass n b dstlen [] st = Some st"
| "enc_pass n b dstlen (u # us) st =
     (if u < n then
        (let d = (e_delta st + 1) mod 2 ^ 32 in
         if d = 0 then None else enc_pass n b dstlen us (st\<lparr>e_delta := d\<rparr>))
      else if u = n then
        enc_pass n b dstlen us
          \<lparr>e_delta = 0,
           e_bias = adapt_bias (e_delta st) (e_h st + 1) (e_h st = b),
           e_h = e_h st + 1,
           e_dst = e_dst st @ encode_var_int (e_bias st) (e_delta st)
                                (dstlen - length (e_dst st))\<rparr>
      else enc_pass n b dstlen us st)"

text \<open>The outer loop: the least code unit that is at least \<open>n\<close> is next. When \<open>h < srclen\<close>
  there is one.\<close>

function enc_outer :: "nat list \<Rightarrow> nat \<Rightarrow> nat \<Rightarrow> nat \<Rightarrow> enc_state \<Rightarrow> enc_state option" where
  "enc_outer src b dstlen n st =
     (if e_h st < length src \<and> length (e_dst st) < dstlen - 4 then
        (case filter (\<lambda>u. n \<le> u) src of
           [] \<Rightarrow> None
         | v # vs \<Rightarrow>
             (let m = fold min vs v in
              if m - n > (2 ^ 32 - 1 - e_delta st) div (e_h st + 1) then None
              else (case enc_pass m b dstlen src
                           (st\<lparr>e_delta := e_delta st + (m - n) * (e_h st + 1)\<rparr>) of
                      None \<Rightarrow> None
                    | Some st' \<Rightarrow>
                        enc_outer src b dstlen (m + 1) (st'\<lparr>e_delta := e_delta st' + 1\<rparr>))))
      else Some st)"
  by pat_completeness auto
termination
proof (relation "measure (\<lambda>(src, b, dstlen, n, st). length (filter (\<lambda>u. n \<le> u) src))", simp,
    goal_cases)
  case (1 src b dstlen n st v vs m st')
  have m: "m \<in> set (v # vs)" and le: "n \<le> m"
  proof -
    have "fold min vs v = Min (set (v # vs))" by (simp only: Min.set_eq_fold)
    moreover have "Min (set (v # vs)) \<in> set (v # vs)" by (intro Min_in) auto
    ultimately show "m \<in> set (v # vs)" using 1 by metis
    moreover have "set (v # vs) \<subseteq> {u. n \<le> u}" using 1(2) by (metis filter_is_subset set_filter mem_Collect_eq subsetI)
    ultimately show "n \<le> m" by auto
  qed
  have "length (filter (\<lambda>u. m + 1 \<le> u) src) < length (filter (\<lambda>u. n \<le> u) src)"
  proof -
    have "filter (\<lambda>u. m + 1 \<le> u) src = filter (\<lambda>u. m + 1 \<le> u) (filter (\<lambda>u. n \<le> u) src)"
      using le by (auto intro: filter_cong)
    also have "length \<dots> < length (filter (\<lambda>u. n \<le> u) src)"
      using m 1(2) by (intro length_filter_less [of m]) auto
    finally show ?thesis .
  qed
  then show ?case by simp
qed

declare enc_outer.simps [simp del]

definition punycode_encode :: "string \<Rightarrow> string option option" where
  "punycode_encode src_str =
     (case utf8_to_unicode src_str of
        None \<Rightarrow> None
      | Some src \<Rightarrow>
          (let dstlen = 8 * length src + 8;
               basic = map chr (filter (\<lambda>u. u < 128) src);
               b = length basic;
               dst0 = (if b \<noteq> 0 then basic @ ''-'' else basic)
           in Some (map_option (\<lambda>st. ''xn--'' @ e_dst st)
                (enc_outer src b dstlen 128
                   \<lparr>e_delta = 0, e_bias = 72, e_h = b, e_dst = dst0\<rparr>))))"

subsection \<open>The labels of a host\<close>

definition have_unicode :: "string \<Rightarrow> bool" where
  "have_unicode s = list_ex (\<lambda>c. cc c \<ge> 128) s"

text \<open>What one label adds to the output, before the separator; a label whose encoding
  overflows adds nothing, not even the separator. The outer \<open>None\<close> is a run outside an
  array.\<close>

definition puny_label :: "string \<Rightarrow> char \<Rightarrow> string option" where
  "puny_label l flag =
     (if have_unicode l then
        (case punycode_encode l of
           None \<Rightarrow> None
         | Some None \<Rightarrow> Some []
         | Some (Some e) \<Rightarrow> Some (e @ [flag]))
      else Some (l @ [flag]))"

text \<open>\<open>lab\<close> is the label so far. The separators are the full stop and the ideographic full
  stop, whose three bytes are skipped by \<open>start = end + size\<close>.\<close>

fun puny_walk :: "string \<Rightarrow> string \<Rightarrow> string option" where
  "puny_walk lab [] = puny_label lab NUL"
| "puny_walk lab (x # r) =
     (if x = CHR ''.'' then
        (case puny_label lab CHR ''.'' of None \<Rightarrow> None
         | Some a \<Rightarrow> map_option (\<lambda>z. a @ z) (puny_walk [] r))
      else if x = CHR 0xE3 \<and> take 2 r = [CHR 0x80, CHR 0x82] then
        (case puny_label lab CHR ''.'' of None \<Rightarrow> None
         | Some a \<Rightarrow> map_option (\<lambda>z. a @ z) (puny_walk [] (drop 2 r)))
      else puny_walk (lab @ [x]) r)"

text \<open>The C string in \<open>pchost\<close> ends at its first NUL.\<close>

definition punycode_host :: "string \<Rightarrow> string option" where
  "punycode_host host =
     (if \<not> have_unicode host then Some host
      else map_option (takeWhile (\<lambda>c. c \<noteq> NUL)) (puny_walk [] host))"


subsection \<open>The decoder of RFC 3492\<close>

text \<open>The reference, with nothing from the encoder: the parameters of section 5, the bias
  adaptation of section 6.1 and the decoding procedure of section 6.2, on the digits of the
  extended string.\<close>

definition rfc_base :: nat where "rfc_base = 36"
definition rfc_tmin :: nat where "rfc_tmin = 1"
definition rfc_tmax :: nat where "rfc_tmax = 26"
definition rfc_skew :: nat where "rfc_skew = 38"
definition rfc_damp :: nat where "rfc_damp = 700"
definition rfc_initial_bias :: nat where "rfc_initial_bias = 72"
definition rfc_initial_n :: nat where "rfc_initial_n = 128"

lemmas rfc_parameters = rfc_base_def rfc_tmin_def rfc_tmax_def rfc_skew_def rfc_damp_def
  rfc_initial_bias_def rfc_initial_n_def

definition rfc_threshold :: "nat \<Rightarrow> nat \<Rightarrow> nat" where
  "rfc_threshold bias k =
     (if k \<le> bias then rfc_tmin else if k \<ge> bias + rfc_tmax then rfc_tmax else k - bias)"

function rfc_scale :: "nat \<Rightarrow> nat \<Rightarrow> nat" where
  "rfc_scale k delta =
     (if delta > (rfc_base - rfc_tmin) * rfc_tmax div 2
      then rfc_scale (k + rfc_base) (delta div (rfc_base - rfc_tmin))
      else k + (rfc_base - rfc_tmin + 1) * delta div (delta + rfc_skew))"
  by pat_completeness auto
termination
  by (relation "measure (\<lambda>(k, delta). delta)") (simp_all add: rfc_parameters)

declare rfc_scale.simps [simp del]

definition rfc_adapt :: "nat \<Rightarrow> nat \<Rightarrow> bool \<Rightarrow> nat" where
  "rfc_adapt delta numpoints firsttime =
     (let d = (if firsttime then delta div rfc_damp else delta div 2)
      in rfc_scale 0 (d + d div numpoints))"

definition decode_digit :: "char \<Rightarrow> nat" where
  "decode_digit c = (if 97 \<le> cc c then cc c - 97 else cc c - 48 + 26)"

fun decode_var_int :: "nat \<Rightarrow> nat \<Rightarrow> nat \<Rightarrow> nat \<Rightarrow> string \<Rightarrow> (nat \<times> string) option" where
  "decode_var_int bias i w k [] = None"
| "decode_var_int bias i w k (c # cs) =
     (let d = decode_digit c; t = rfc_threshold bias k in
      if d < t then Some (i + d * w, cs)
      else decode_var_int bias (i + d * w) (w * (rfc_base - t)) (k + rfc_base) cs)"

lemma decode_var_int_length: "decode_var_int bias i w k cs = Some (j, r) \<Longrightarrow> length r < length cs"
proof (induction cs arbitrary: i w k)
  case (Cons c cs)
  then show ?case by (fastforce simp: Let_def split: if_splits)
qed simp

function decode_loop :: "nat \<Rightarrow> nat \<Rightarrow> nat \<Rightarrow> nat \<Rightarrow> nat list \<Rightarrow> string \<Rightarrow> nat list option" where
  "decode_loop b n i bias out s =
     (if s = [] then Some out
      else (case decode_var_int bias i 1 rfc_base s of
              None \<Rightarrow> None
            | Some (j, r) \<Rightarrow>
                (let len = length out + 1; n' = n + j div len; p = j mod len in
                 decode_loop b n' (p + 1) (rfc_adapt (j - i) len (length out = b))
                   (take p out @ n' # drop p out) r)))"
  by pat_completeness auto
termination
  by (relation "measure (\<lambda>(b, n, i, bias, out, s). length s)") (auto dest: decode_var_int_length)

declare decode_loop.simps [simp del]

text \<open>The basic code points stand before the last delimiter.\<close>

definition puny_decode :: "string \<Rightarrow> nat list option" where
  "puny_decode s =
     (let ext = rev (takeWhile (\<lambda>c. c \<noteq> CHR ''-'') (rev s));
          basic = (if CHR ''-'' \<in> set s then take (length s - length ext - 1) s else [])
      in decode_loop (length basic) rfc_initial_n 0 rfc_initial_bias (map cc basic) ext)"

text \<open>The encoder uses the same thresholds and the same bias.\<close>

lemma rfc_threshold_eq: "rfc_threshold bias k = threshold bias k"
  by (simp add: rfc_threshold_def threshold_def rfc_parameters)

lemma rfc_scale_eq: "rfc_scale k delta = (case adapt_loop delta k of (d, k') \<Rightarrow> k' + 36 * d div (d + 38))"
proof (induction k delta rule: rfc_scale.induct)
  case (1 k delta)
  then show ?case by (subst rfc_scale.simps, subst adapt_loop.simps) (simp add: rfc_parameters)
qed

lemma rfc_adapt_eq: "rfc_adapt delta numpoints firsttime = adapt_bias delta numpoints firsttime"
  by (simp add: rfc_adapt_def adapt_bias_def rfc_scale_eq Let_def rfc_damp_def)

subsection \<open>Variable-length integers\<close>

lemma digit_code: "d < 36 \<Longrightarrow> decode_digit (encode_digit d) = d"
  by (auto simp: decode_digit_def encode_digit_def)

lemma digit_not_hyphen: "d < 36 \<Longrightarrow> encode_digit d \<noteq> CHR ''-''"
proof -
  assume d: "d < 36"
  then have "cc (encode_digit d) \<noteq> cc CHR ''-''" by (auto simp: encode_digit_def)
  then show ?thesis by metis
qed

lemma var_int_step:
  "0 < room \<Longrightarrow> var_int_digits bias q k room =
     (if q < threshold bias k then [q]
      else (threshold bias k + (q - threshold bias k) mod (36 - threshold bias k)) #
             var_int_digits bias ((q - threshold bias k) div (36 - threshold bias k)) (k + 36) (room - 1))"
  by (cases room) (simp_all add: Let_def)

lemma var_int_quotient:
  assumes "q < 10 ^ Suc n" "threshold bias k \<le> q"
  shows "(q - threshold bias k) div (36 - threshold bias k) < 10 ^ n"
proof -
  have t: "10 \<le> 36 - threshold bias k" using threshold_range [of bias k] by linarith
  have "q - threshold bias k < (36 - threshold bias k) * 10 ^ n"
  proof -
    have "10 * 10 ^ n \<le> (36 - threshold bias k) * 10 ^ n" using t by (rule mult_le_mono1)
    moreover have "q - threshold bias k < 10 * 10 ^ n" using assms(1) by simp
    ultimately show ?thesis by (rule less_le_trans [rotated])
  qed
  then show ?thesis by (simp add: less_mult_imp_div_less mult.commute)
qed

lemma var_int_digits_range:
  "q < 10 ^ n \<Longrightarrow> n < room \<Longrightarrow>
   \<forall>d \<in> set (var_int_digits bias q k room). d < 36 \<and> length (var_int_digits bias q k room) \<le> n + 1"
proof (induction n arbitrary: q k room)
  case 0
  then have "q < threshold bias k" using threshold_range [of bias k] by simp
  with 0 threshold_range [of bias k] show ?case by (simp add: var_int_step)
next
  case (Suc n)
  let ?t = "threshold bias k"
  have t: "1 \<le> ?t" "?t \<le> 26" using threshold_range [of bias k] by auto
  show ?case
  proof (cases "q < ?t")
    case True
    with t Suc.prems show ?thesis by (simp add: var_int_step)
  next
    case False
    have m: "?t + (q - ?t) mod (36 - ?t) < 36"
      using mod_less_divisor [of "36 - ?t" "q - ?t"] t by linarith
    from False have "(q - ?t) div (36 - ?t) < 10 ^ n" by (intro var_int_quotient [OF Suc.prems(1)]) simp
    from Suc.IH [OF this, of "room - 1" "k + 36"] m False Suc.prems show ?thesis
      by (cases "var_int_digits bias ((q - ?t) div (36 - ?t)) (k + 36) (room - 1)")
        (auto simp: var_int_step)
  qed
qed

lemma horner: "d + a * b = (q :: nat) \<Longrightarrow> i + q * w = i + d * w + a * (w * b)"
  by (auto simp: algebra_simps)

lemma decode_var_int_encode:
  "q < 10 ^ n \<Longrightarrow> n < room \<Longrightarrow>
   decode_var_int bias i w k (map encode_digit (var_int_digits bias q k room) @ r) = Some (i + q * w, r)"
proof (induction n arbitrary: q k room i w)
  case 0
  then have "q < threshold bias k" "q < 36" using threshold_range [of bias k] by auto
  with 0 show ?case by (simp add: var_int_step digit_code rfc_threshold_eq)
next
  case (Suc n)
  let ?t = "threshold bias k"
  let ?b = "36 - ?t"
  have t: "1 \<le> ?t" "?t \<le> 26" using threshold_range [of bias k] by auto
  show ?case
  proof (cases "q < ?t")
    case True
    with t Suc.prems show ?thesis by (simp add: var_int_step digit_code rfc_threshold_eq)
  next
    case False
    let ?d = "?t + (q - ?t) mod ?b" and ?q = "(q - ?t) div ?b"
    have d: "?d < 36" using mod_less_divisor [of ?b "q - ?t"] t by linarith
    from False have q: "?q < 10 ^ n" by (intro var_int_quotient [OF Suc.prems(1)]) simp
    have "?d + ?q * ?b = q" using False by (simp add: mult.commute)
    then have "i + q * w = i + ?d * w + ?q * (w * ?b)" by (rule horner)
    with Suc.IH [OF q, of "room - 1" "i + ?d * w" "w * ?b" "k + 36"] Suc.prems False d show ?thesis
      by (simp add: var_int_step digit_code Let_def rfc_threshold_eq rfc_base_def)
  qed
qed


subsection \<open>The decoder follows the encoder\<close>

text \<open>Decoder state \<open>(nd, i)\<close> with the code units \<open>out\<close> already placed, encoder state \<open>st\<close> at
  the code unit \<open>m\<close> with \<open>pos\<close> placed units behind it.\<close>

lemma room_bound:
  fixes x b h n :: nat
  assumes "x \<le> (if b = 0 then 0 else b + 1) + 8 * (h - b)" "b \<le> h" "h < n"
  shows "7 < 8 * n + 8 - x"
proof -
  have "x \<le> 8 * h + 1" using assms(1,2) by (cases "b = 0") auto
  then show ?thesis using assms(3) by linarith
qed

definition synced :: "nat \<Rightarrow> nat \<Rightarrow> nat \<Rightarrow> nat list \<Rightarrow> enc_state \<Rightarrow> nat \<Rightarrow> nat \<Rightarrow> bool" where
  "synced b nd i out st m pos \<longleftrightarrow>
     e_delta st + i = (m - nd) * (length out + 1) + pos \<and> nd \<le> m \<and> e_h st = length out \<and>
     b \<le> e_h st \<and> length (e_dst st) \<le> (if b = 0 then 0 else b + 1) + 8 * (e_h st - b)"

lemma synced_delta:
  assumes "synced b nd i out st m pos" "m \<le> 65536" "length out \<le> 63" "pos \<le> 63"
  shows "e_delta st < 10 ^ 7"
proof -
  have "(m - nd) * (length out + 1) \<le> 65536 * 64"
    using assms by (intro mult_le_mono) auto
  moreover have "e_delta st \<le> (m - nd) * (length out + 1) + pos"
    using assms(1) unfolding synced_def by linarith
  ultimately have "e_delta st \<le> 65536 * 64 + 63" using assms(4) by linarith
  then show ?thesis by simp
qed

lemma div_mod_parts: "p < c \<Longrightarrow> (a * c + p) div c = a \<and> (a * c + p) mod c = (p :: nat)"
  by simp

lemma synced_skip:
  "synced b nd i out st m pos \<Longrightarrow> synced b nd i out (st\<lparr>e_delta := e_delta st + 1\<rparr>) m (pos + 1)"
  by (auto simp: synced_def)

lemma synced_emit:
  "synced b nd i out st m pos \<Longrightarrow> length E \<le> 8 \<Longrightarrow> length out' = length out + 1 \<Longrightarrow>
   synced b m (pos + 1) out' \<lparr>e_delta = 0, e_bias = bs, e_h = e_h st + 1, e_dst = e_dst st @ E\<rparr> m (pos + 1)"
  by (auto simp: synced_def)

lemma enc_pass_decode:
  "src = pre @ suf \<Longrightarrow> length src \<le> 63 \<Longrightarrow> m < 65536 \<Longrightarrow>
   synced b nd i (filter (\<lambda>u. u \<le> m) pre @ filter (\<lambda>u. u < m) suf) st m (length (filter (\<lambda>u. u \<le> m) pre)) \<Longrightarrow>
   \<exists>st' D nd' i'. enc_pass m b (8 * length src + 8) suf st = Some st' \<and> e_dst st' = e_dst st @ D \<and>
     CHR ''-'' \<notin> set D \<and>
     synced b nd' i' (filter (\<lambda>u. u \<le> m) src) st' m (length (filter (\<lambda>u. u \<le> m) src)) \<and>
     (\<forall>R. decode_loop b nd i (e_bias st) (filter (\<lambda>u. u \<le> m) pre @ filter (\<lambda>u. u < m) suf) (D @ R) =
          decode_loop b nd' i' (e_bias st') (filter (\<lambda>u. u \<le> m) src) R)"
proof (induction suf arbitrary: pre st nd i)
  case Nil
  then show ?case by (intro exI [of _ st] exI [of _ "[]"] exI [of _ nd] exI [of _ i]) auto
next
  case (Cons u suf)
  let ?le = "filter (\<lambda>u. u \<le> m)" and ?lt = "filter (\<lambda>u. u < m)"
  let ?out = "?le pre @ ?lt (u # suf)"
  have lens: "length (?le pre) \<le> length pre" "length (?lt suf) \<le> length suf" by simp_all
  have src: "src = (pre @ [u]) @ suf" using Cons.prems(1) by simp
  note IH = Cons.IH [OF src Cons.prems(2,3)]
  have d7: "e_delta st < 10 ^ 7"
  proof (rule synced_delta [OF Cons.prems(4)])
    show "m \<le> 65536" using Cons.prems(3) by simp
    show "length (?le pre) \<le> 63"
      by (rule le_trans [OF length_filter_le]) (use Cons.prems(1,2) in simp)
    show "length ?out \<le> 63"
      unfolding length_append
      by (rule le_trans [OF add_le_mono [OF length_filter_le length_filter_le]])
        (use Cons.prems(1,2) in simp)
  qed
  consider (lt) "u < m" | (eq) "u = m" | (gt) "m < u" by linarith
  then show ?case
  proof cases
    case lt
    have "(e_delta st + 1) mod 2 ^ 32 = e_delta st + 1" using d7 by simp
    then have step: "enc_pass m b dl (u # suf) st = enc_pass m b dl suf (st\<lparr>e_delta := e_delta st + 1\<rparr>)" for dl
      using lt by (simp add: Let_def)
    have o: "?le (pre @ [u]) @ ?lt suf = ?out" using lt by simp
    have "synced b nd i ?out (st\<lparr>e_delta := e_delta st + 1\<rparr>) m (length (?le (pre @ [u])))"
      using synced_skip [OF Cons.prems(4)] lt by (simp del: filter.simps(2))
    from IH [of nd i "st\<lparr>e_delta := e_delta st + 1\<rparr>", unfolded o, OF this] show ?thesis
      unfolding step by simp
  next
    case gt
    have o: "?le (pre @ [u]) @ ?lt suf = ?out" using gt by simp
    have "synced b nd i ?out st m (length (?le (pre @ [u])))"
      using Cons.prems(4) gt by (simp del: filter.simps(2))
    from IH [of nd i st, unfolded o, OF this] gt show ?thesis by simp
  next
    case eq
    let ?h = "length ?out"
    let ?room = "8 * length src + 8 - length (e_dst st)"
    let ?E = "encode_var_int (e_bias st) (e_delta st) ?room"
    have sy: "e_delta st + i = (m - nd) * (?h + 1) + length (?le pre)" "nd \<le> m" "e_h st = ?h"
      "b \<le> e_h st" "length (e_dst st) \<le> (if b = 0 then 0 else b + 1) + 8 * (e_h st - b)"
      using Cons.prems(4) by (auto simp: synced_def)
    have "length (?lt (u # suf)) \<le> length suf" using eq by simp
    then have hl: "?h < length src"
      unfolding length_append Cons.prems(1) using lens(1) by (simp del: length_filter_le)
    have room: "7 < ?room" using room_bound [OF sy(5,4)] hl sy(3) by simp
    note dg = var_int_digits_range [OF d7 room, of "e_bias st" 36]
    have E: "length ?E \<le> 8" "CHR ''-'' \<notin> set ?E"
      using dg digit_not_hyphen
      by (cases "var_int_digits (e_bias st) (e_delta st) 36 ?room", auto simp: encode_var_int_def)
        (metis image_eqI)?
    have Ene: "?E \<noteq> []" using room by (auto simp: encode_var_int_def var_int_step)
    let ?st = "\<lparr>e_delta = 0, e_bias = adapt_bias (e_delta st) (e_h st + 1) (e_h st = b),
        e_h = e_h st + 1, e_dst = e_dst st @ ?E\<rparr>"
    have step: "enc_pass m b (8 * length src + 8) (u # suf) st = enc_pass m b (8 * length src + 8) suf ?st"
      using eq by simp
    have o: "?le (pre @ [u]) @ ?lt suf = take (length (?le pre)) ?out @ m # drop (length (?le pre)) ?out"
      using eq by simp
    have "synced b m (length (?le pre) + 1) (?le (pre @ [u]) @ ?lt suf) ?st m (length (?le (pre @ [u])))"
      using synced_emit [OF Cons.prems(4) E(1), of "?le (pre @ [u]) @ ?lt suf"] eq by simp
    from IH [OF this] obtain st' D nd' i' where ih:
      "enc_pass m b (8 * length src + 8) suf ?st = Some st'" "e_dst st' = e_dst ?st @ D" "CHR ''-'' \<notin> set D"
      "synced b nd' i' (?le src) st' m (length (?le src))"
      "\<forall>R. decode_loop b m (length (?le pre) + 1) (e_bias ?st) (?le (pre @ [u]) @ ?lt suf) (D @ R) =
           decode_loop b nd' i' (e_bias st') (?le src) R" by blast
    have dec: "decode_loop b nd i (e_bias st) ?out ((?E @ D) @ R) =
        decode_loop b m (length (?le pre) + 1) (e_bias ?st) (?le (pre @ [u]) @ ?lt suf) (D @ R)" for R
    proof -
      let ?j = "i + e_delta st"
      have v: "decode_var_int (e_bias st) i 1 rfc_base (?E @ (D @ R)) = Some (?j, D @ R)"
        using decode_var_int_encode [OF d7 room, of "e_bias st" i 1 36 "D @ R"]
        by (simp add: encode_var_int_def rfc_base_def)
      have j: "?j = (m - nd) * (?h + 1) + length (?le pre)" using sy(1) by simp
      have p: "length (?le pre) < ?h + 1" by simp
      have dm: "?j div (?h + 1) = m - nd" "?j mod (?h + 1) = length (?le pre)"
        unfolding j by (rule div_mod_parts [OF p, THEN conjunct1])
        (rule div_mod_parts [OF p, THEN conjunct2])
      have ad: "rfc_adapt (?j - i) (?h + 1) (?h = b) = e_bias ?st" using sy(3) by (simp add: rfc_adapt_eq)
      show ?thesis
        unfolding append.assoc
        by (subst decode_loop.simps)
          (use Ene sy(2) in \<open>simp only: v option.case prod.case Let_def dm ad o if_False append_is_Nil_conv
            simp_thms le_add_diff_inverse\<close>)
    qed
    show ?thesis
      unfolding step
      by (intro exI [of _ st'] exI [of _ "?E @ D"] exI [of _ nd'] exI [of _ i'])
        (use ih E(2) dec in auto)
  qed
qed


lemma synced_jump:
  assumes "synced b nd i out st n 0" "n \<le> m"
  shows "synced b nd i out (st\<lparr>e_delta := e_delta st + (m - n) * (e_h st + 1)\<rparr>) m 0"
proof -
  have s: "e_delta st + i = (n - nd) * (length out + 1)" "nd \<le> n" "e_h st = length out"
    using assms(1) by (auto simp: synced_def)
  have "(m - nd) * (length out + 1) = (n - nd) * (length out + 1) + (m - n) * (length out + 1)"
  proof -
    have "m - nd = (n - nd) + (m - n)" using s(2) assms(2) by simp
    then show ?thesis by (simp only: add_mult_distrib)
  qed
  from this [unfolded s(3) [symmetric]] s(1) [unfolded s(3) [symmetric]]
  have "e_delta st + (m - n) * (e_h st + 1) + i = (m - nd) * (e_h st + 1)" by linarith
  then show ?thesis using assms s by (simp add: synced_def)
qed

lemma synced_next:
  assumes "synced b nd i out st m (length out)"
  shows "synced b nd i out (st\<lparr>e_delta := e_delta st + 1\<rparr>) (m + 1) 0"
proof -
  have s: "e_delta st + i = (m - nd) * (length out + 1) + length out" "nd \<le> m"
    using assms by (auto simp: synced_def)
  have "(m + 1 - nd) * (length out + 1) = (m - nd) * (length out + 1) + (length out + 1)"
    using s(2) by (simp add: Suc_diff_le)
  then show ?thesis using assms s by (auto simp: synced_def)
qed

lemma enc_outer_decode:
  "length src \<le> 63 \<Longrightarrow> \<forall>u \<in> set src. u < 65536 \<Longrightarrow> n \<le> 65536 \<Longrightarrow>
   synced b nd i (filter (\<lambda>u. u < n) src) st n 0 \<Longrightarrow>
   \<exists>st' D. enc_outer src b (8 * length src + 8) n st = Some st' \<and> e_dst st' = e_dst st @ D \<and>
     CHR ''-'' \<notin> set D \<and> length (e_dst st') \<le> (if b = 0 then 0 else b + 1) + 8 * (length src - b) \<and>
     decode_loop b nd i (e_bias st) (filter (\<lambda>u. u < n) src) D = Some src"
proof (induction "length (filter (\<lambda>u. n \<le> u) src)" arbitrary: n st nd i rule: less_induct)
  case less
  note src = less.prems(1,2) and sy = less.prems(4)
  let ?dl = "8 * length src + 8"
  let ?out = "filter (\<lambda>u. u < n) src"
  have s: "e_h st = length ?out" "b \<le> e_h st" "length (e_dst st) \<le> (if b = 0 then 0 else b + 1) + 8 * (e_h st - b)"
    using sy by (auto simp: synced_def)
  have hl: "length ?out \<le> length src" by simp
  show ?case
  proof (cases "e_h st < length src")
    case False
    then have "length ?out = length src" using s(1) hl by linarith
    then have "?out = src" by (metis length_filter_less less_irrefl filter_True)
    moreover have "enc_outer src b ?dl n st = Some st" using False by (subst enc_outer.simps) simp
    ultimately show ?thesis using s False
      by (intro exI [of _ st] exI [of _ "[]"]) (auto simp: decode_loop.simps)
  next
    case True
    then have dst: "length (e_dst st) < ?dl - 4" using room_bound [OF s(3,2) True] by linarith
    obtain v vs where vs: "filter (\<lambda>u. n \<le> u) src = v # vs"
    proof (cases "filter (\<lambda>u. n \<le> u) src")
      case Nil
      then have "?out = src" by (auto simp: filter_empty_conv filter_id_conv not_le)
      with True s(1) show ?thesis by simp
    qed blast
    define m where "m = fold min vs v"
    have mMin: "m = Min (set (filter (\<lambda>u. n \<le> u) src))" unfolding vs m_def by (simp only: Min.set_eq_fold)
    have "finite (set (filter (\<lambda>u. n \<le> u) src))" "set (filter (\<lambda>u. n \<le> u) src) \<noteq> {}"
      using vs by auto
    then have "m \<in> set (filter (\<lambda>u. n \<le> u) src)" "\<forall>u \<in> set (filter (\<lambda>u. n \<le> u) src). m \<le> u"
      unfolding mMin using Min_in Min_le by blast+
    then have m: "m \<in> set src" "n \<le> m" "\<forall>u \<in> set src. n \<le> u \<longrightarrow> m \<le> u" by auto
    have m16: "m < 65536" using m(1) src(2) by blast
    let ?st0 = "st\<lparr>e_delta := e_delta st + (m - n) * (e_h st + 1)\<rparr>"
    have d7: "e_delta st < 10 ^ 7"
      by (rule synced_delta [OF sy less.prems(3)]) (use le_trans [OF length_filter_le src(1)] in simp_all)
    have over: "\<not> m - n > (2 ^ 32 - 1 - e_delta st) div (e_h st + 1)"
    proof -
      have "(m - n) * (e_h st + 1) \<le> 65536 * 64" using m16 True src(1) by (intro mult_le_mono) auto
      then have "(m - n) * (e_h st + 1) \<le> 2 ^ 32 - 1 - e_delta st" using d7 by simp
      then show ?thesis by (simp add: less_eq_div_iff_mult_less_eq not_less)
    qed
    have o: "filter (\<lambda>u. u < m) src = ?out"
      using m(2,3) by (intro filter_cong) (auto simp: not_le [symmetric])
    have sy0: "synced b nd i (filter (\<lambda>u. u \<le> m) [] @ filter (\<lambda>u. u < m) src) ?st0 m
        (length (filter (\<lambda>u. u \<le> m) ([] :: nat list)))"
      using synced_jump [OF sy m(2)] by (simp add: o)
    from enc_pass_decode [OF append_Nil [symmetric] src(1) m16 sy0] obtain st1 D nd' i' where
      p: "enc_pass m b ?dl src ?st0 = Some st1" "e_dst st1 = e_dst st @ D" "CHR ''-'' \<notin> set D"
      "synced b nd' i' (filter (\<lambda>u. u \<le> m) src) st1 m (length (filter (\<lambda>u. u \<le> m) src))"
      "\<forall>R. decode_loop b nd i (e_bias st) ?out (D @ R) =
           decode_loop b nd' i' (e_bias st1) (filter (\<lambda>u. u \<le> m) src) R"
      by (auto simp: o)
    have le: "filter (\<lambda>u. u \<le> m) src = filter (\<lambda>u. u < m + 1) src" by (intro filter_cong) auto
    have dec: "length (filter (\<lambda>u. m + 1 \<le> u) src) < length (filter (\<lambda>u. n \<le> u) src)"
    proof -
      have "filter (\<lambda>u. m + 1 \<le> u) src = filter (\<lambda>u. m + 1 \<le> u) (filter (\<lambda>u. n \<le> u) src)"
        using m(2) by (auto intro: filter_cong)
      also have "length \<dots> < length (filter (\<lambda>u. n \<le> u) src)"
        using m(1,2) by (intro length_filter_less [of m]) auto
      finally show ?thesis .
    qed
    from less.hyps [OF dec src _ synced_next [OF p(4), unfolded le]] m16 obtain st' D' where
      q: "enc_outer src b ?dl (m + 1) (st1\<lparr>e_delta := e_delta st1 + 1\<rparr>) = Some st'"
      "e_dst st' = e_dst st1 @ D'" "CHR ''-'' \<notin> set D'"
      "length (e_dst st') \<le> (if b = 0 then 0 else b + 1) + 8 * (length src - b)"
      "decode_loop b nd' i' (e_bias st1) (filter (\<lambda>u. u < m + 1) src) D' = Some src" by auto
    have "enc_outer src b ?dl n st = Some st'"
      using True dst over p(1) q(1)
      by (subst enc_outer.simps) (simp add: vs Let_def flip: m_def)
    then show ?thesis using p q le by (intro exI [of _ st'] exI [of _ "D @ D'"]) simp
  qed
qed

lemma utf8_units: "\<forall>u \<in> set (utf8_loop s). u < 65536"
  by (induction s rule: utf8_loop.induct) (auto simp: utf8_3_def char_unit_def nat_less_iff)

subsection \<open>Properties\<close>

lemma after_last_dash:
  assumes "CHR ''-'' \<notin> set D"
  shows "rev (takeWhile (\<lambda>c. c \<noteq> CHR ''-'') (rev (p @ CHR ''-'' # D))) = D"
    "rev (takeWhile (\<lambda>c. c \<noteq> CHR ''-'') (rev D)) = D"
proof -
  have "takeWhile (\<lambda>c. c \<noteq> CHR ''-'') (rev D @ CHR ''-'' # rev p) = rev D"
    using assms by (subst takeWhile_append2) auto
  then show "rev (takeWhile (\<lambda>c. c \<noteq> CHR ''-'') (rev (p @ CHR ''-'' # D))) = D" by simp
  have "\<forall>c \<in> set (rev D). c \<noteq> CHR ''-''" using assms by auto
  then have "takeWhile (\<lambda>c. c \<noteq> CHR ''-'') (rev D) = rev D" by (simp only: takeWhile_eq_all_conv)
  then show "rev (takeWhile (\<lambda>c. c \<noteq> CHR ''-'') (rev D)) = D" by (simp only: rev_rev_ident)
qed

text \<open>The decoder finds the ASCII letters before the last dash and the rest behind it.\<close>

lemma puny_decode_parts:
  fixes src :: "nat list"
  defines "basic \<equiv> map chr (filter (\<lambda>u. u < 128) src)"
  assumes "CHR ''-'' \<notin> set D"
    "decode_loop (length basic) 128 0 72 (filter (\<lambda>u. u < 128) src) D = Some src"
  shows "puny_decode ((if length basic \<noteq> 0 then basic @ ''-'' else basic) @ D) = Some src"
proof (cases "length basic = 0")
  case True
  then have "filter (\<lambda>u. u < 128) src = []" unfolding basic_def by (simp only: length_map length_0_conv)
  then show ?thesis using assms(3) True after_last_dash(2) [OF assms(2)] assms(2)
    by (simp add: puny_decode_def rfc_parameters)
next
  case False
  have cb: "map cc basic = filter (\<lambda>u. u < 128) src"
    unfolding basic_def by (simp add: comp_def) (rule map_idI, simp add: chr_def)
  have t: "(if length basic \<noteq> 0 then basic @ ''-'' else basic) @ D = basic @ CHR ''-'' # D" using False by simp
  have tk: "take (length (basic @ CHR ''-'' # D) - length D - 1) (basic @ CHR ''-'' # D) = basic" by simp
  have h: "CHR ''-'' \<in> set (basic @ CHR ''-'' # D)" by simp
  show ?thesis by (simp only: t puny_decode_def Let_def after_last_dash(1) [OF assms(2)] h if_True tk cb assms(3)
        rfc_initial_n_def rfc_initial_bias_def)
qed

text \<open>C21: Whatever the label (of at most 63 code units), the encoder finds no overflow, RFC
  3492's decoder gives the code units back from what follows \<open>xn--\<close>, and the whole, prefix
  and terminator included, fits the array of \<open>8 * srclen + 8\<close> bytes.\<close>

theorem punycode_encode_decode:
  assumes "utf8_to_unicode l = Some src" "length src \<le> 63"
  shows "\<exists>t. punycode_encode l = Some (Some (''xn--'' @ t)) \<and> puny_decode t = Some src \<and>
     length (''xn--'' @ t) + 1 \<le> 8 * length src + 8"
proof -
  let ?basic = "map chr (filter (\<lambda>u. u < 128) src)"
  let ?b = "length ?basic"
  let ?st = "\<lparr>e_delta = 0, e_bias = 72, e_h = ?b,
      e_dst = (if ?b \<noteq> 0 then ?basic @ ''-'' else ?basic)\<rparr>"
  have u: "\<forall>u \<in> set src. u < 65536"
    using assms(1) utf8_units by (auto simp: utf8_to_unicode_def split: if_splits)
  have "synced ?b 128 0 (filter (\<lambda>u. u < 128) src) ?st 128 0" by (simp add: synced_def)
  from enc_outer_decode [OF assms(2) u _ this] obtain st' D where
    d: "enc_outer src ?b (8 * length src + 8) 128 ?st = Some st'" "e_dst st' = e_dst ?st @ D"
    "CHR ''-'' \<notin> set D" "length (e_dst st') \<le> (if ?b = 0 then 0 else ?b + 1) + 8 * (length src - ?b)"
    "decode_loop ?b 128 0 72 (filter (\<lambda>u. u < 128) src) D = Some src" by auto
  have enc: "punycode_encode l = Some (Some (''xn--'' @ e_dst st'))"
    using assms(1) d(1) by (simp add: punycode_encode_def Let_def)
  have dec: "puny_decode (e_dst st') = Some src" using puny_decode_parts [OF d(3,5)] d(2) by simp
  have "length (''xn--'' @ e_dst st') + 1 \<le> 8 * length src + 8"
  proof (cases "?b = 0")
    case True
    show ?thesis using d(4) True by simp
  next
    case False
    have "?b \<le> length src" by simp
    moreover have "length (e_dst st') \<le> ?b + 1 + 8 * (length src - ?b)"
      using d(4) unfolding if_not_P [OF False] .
    ultimately have "length (e_dst st') \<le> 3 + 8 * length src" by linarith
    then show ?thesis by simp
  qed
  with enc dec show ?thesis by blast
qed

lemma chinese_units: "utf8_to_unicode [CHR 0xE4, CHR 0xB8, CHR 0xAD] = Some [20013]"
  by (simp add: utf8_to_unicode_def utf8_3_def char_unit_def schar_def NUL_def)

lemma chinese_units_letter:
  "utf8_to_unicode [CHR 0xE4, CHR 0xB8, CHR 0xAD, CHR ''a''] = Some [20013, 97, 0]"
  by (simp add: utf8_to_unicode_def utf8_3_def char_unit_def schar_def NUL_def)

lemma chinese_pass:
  "enc_outer [20013] 0 16 128 \<lparr>e_delta = 0, e_bias = 72, e_h = 0, e_dst = []\<rparr> =
   Some \<lparr>e_delta = 1, e_bias = 21, e_h = 1, e_dst = ''fiq''\<rparr>"
  by (subst enc_outer.simps, simp add: encode_var_int_def threshold_def var_int_step
      encode_digit_def chr_def char_of_def bit_iff_odd, subst enc_outer.simps,
      simp add: adapt_bias_def adapt_loop.simps)

theorem punycode_encode_decode_witness:
  "\<exists>t. punycode_encode [CHR 0xE4, CHR 0xB8, CHR 0xAD] = Some (Some (''xn--'' @ t)) \<and>
     puny_decode t = Some [20013] \<and> length (''xn--'' @ t) + 1 \<le> 8 * length [20013 :: nat] + 8"
  by (rule punycode_encode_decode [OF chinese_units]) simp

text \<open>One ASCII character after a Chinese one, at the end of a label, is taken with a NUL
  beside it: the encoder then copies the NUL as a basic character, and the label of the host ends
  there for whoever reads the C string.\<close>

theorem puny_label_truncated:
  "\<exists>e. puny_label [CHR 0xE4, CHR 0xB8, CHR 0xAD, CHR ''a''] NUL = Some (''xn--a'' @ NUL # e)"
  by (simp add: puny_label_def have_unicode_def punycode_encode_def chinese_units_letter,
      subst enc_outer.simps, simp add: encode_var_int_def threshold_def var_int_step
      encode_digit_def chr_def char_of_def bit_iff_odd, subst enc_outer.simps,
      simp add: adapt_bias_def adapt_loop.simps NUL_def)

end
