(* ===== verification/Larbin_Types.thy ===== *)
theory Larbin_Types
  imports Larbin_Prelude
begin

section \<open>Sizes, error codes and switches (src/types.h, src/global.h)\<close>

text \<open>
  The limits of \<open>src/src/types.h\<close> that the code's tests use, the reasons for which a fetch
  can end, and the switches of \<open>src/src/global.h\<close> that the other components read.
\<close>

definition hashSize :: nat where "hashSize = 64000000"
definition namedSiteListSize :: nat where "namedSiteListSize = 20000"
definition IPSiteListSize :: nat where "IPSiteListSize = 10000"
definition ramUrls :: int where "ramUrls = 100000"
definition maxIPUrls :: int where "maxIPUrls = 80000"
definition maxUrlsBySite :: nat where "maxUrlsBySite = 64"
definition timeoutPage :: int where "timeoutPage = 30"
definition timeoutIncr :: int where "timeoutIncr = 2000"
definition dnsValidTime :: int where "dnsValidTime = 2 * 24 * 3600"
definition maxPageSize :: nat where "maxPageSize = 8 * 1024 * 1024"
definition nearlyFullPage :: nat where "nearlyFullPage = 8 * 1024 * 1024 - 512 * 1024"
definition maxRobotsSize :: nat where "maxRobotsSize = 64 * 1024"
definition maxRobotsItem :: nat where "maxRobotsItem = 256"
definition BUF_SIZE :: nat where "BUF_SIZE = 64 * 1024"
definition STRING_SIZE :: nat where "STRING_SIZE = 1024"
definition maxUrlSize :: nat where "maxUrlSize = 1024"
definition maxSiteSize :: nat where "maxSiteSize = 256"
definition maxCookieSize :: nat where "maxCookieSize = 128"
definition urlByFile :: nat where "urlByFile = 100000"

lemmas size_defs =
  hashSize_def namedSiteListSize_def IPSiteListSize_def ramUrls_def maxIPUrls_def
  maxUrlsBySite_def maxUrlSize_def maxSiteSize_def maxCookieSize_def

datatype FetchError =
    success | noDNS | noConnection | forbiddenRobots | timeout | badType | tooBig | err30X
  | err40X | earlyStop | duplicate | fastRobots | fastNoConn | fastNoDns | tooDeep | urlDup
  | outSite

definition fetch_code :: "FetchError \<Rightarrow> nat" where
  "fetch_code e =
     (case e of success \<Rightarrow> 0 | noDNS \<Rightarrow> 1 | noConnection \<Rightarrow> 2 | forbiddenRobots \<Rightarrow> 3
      | timeout \<Rightarrow> 4 | badType \<Rightarrow> 5 | tooBig \<Rightarrow> 6 | err30X \<Rightarrow> 7 | err40X \<Rightarrow> 8
      | earlyStop \<Rightarrow> 9 | duplicate \<Rightarrow> 10 | fastRobots \<Rightarrow> 11 | fastNoConn \<Rightarrow> 12
      | fastNoDns \<Rightarrow> 13 | tooDeep \<Rightarrow> 14 | urlDup \<Rightarrow> 15 | outSite \<Rightarrow> 16)"

definition nbAnswers :: nat where "nbAnswers = 16"

record config =
  g_externalLinks :: bool
  g_ignoreRobots :: bool
  g_depthInSite :: int
  g_depthBySite :: bool
  g_lockSite :: bool
  g_useCookies :: bool
  g_getImage :: bool
  g_getCGI :: bool
  g_anyType :: bool
  g_punycode :: bool
  g_pageNoDuplicate :: bool
  g_specificSearch :: bool
  g_closeLevel :: int
  g_userAgent :: string
  g_headers :: string
  g_headersRobots :: string
  g_proxyAddr :: "nat option"
  g_domains :: "string list option"
  g_forbExt :: "string list"
  g_contentTypes :: "string list"
  g_privilegedExts :: "string list"
  g_waitDuration :: int
  g_nb_conn :: nat
  g_dnsConn :: nat
  g_limitBand :: int

text \<open>The values before the configuration file is read.\<close>

definition default_config :: config where
  "default_config =
     \<lparr>g_externalLinks = True, g_ignoreRobots = False, g_depthInSite = 5, g_depthBySite = False,
      g_lockSite = False, g_useCookies = False, g_getImage = False, g_getCGI = False,
      g_anyType = False, g_punycode = False, g_pageNoDuplicate = False,
      g_specificSearch = False, g_closeLevel = 0, g_userAgent = ''larbin'', g_headers = [],
      g_headersRobots = [], g_proxyAddr = None, g_domains = None, g_forbExt = [],
      g_contentTypes = [], g_privilegedExts = [], g_waitDuration = 60, g_nb_conn = 20,
      g_dnsConn = 3, g_limitBand = 0\<rparr>"

end
