(* ===== verification/Url.thy ===== *)
theory Url
  imports CText Punycode Larbin_Types
begin

section \<open>Urls (src/utils/url.cxx)\<close>

text \<open>
  The class \<open>url\<close>: normalisation of file names, the three constructors that parse, the
  printers, the hash codes, the cookies. A pointer that may be NULL is an \<open>option\<close>. The
  port is a 16-bit word, the depth a C \<open>int\<close>. Wherever the source can leave an array, the
  model answers with a value of its own: \<open>Underflow\<close> in \<open>fileNormalize\<close>, \<open>None\<close> in the
  constructor that reads a serialised line.
\<close>

subsection \<open>Small functions\<close>

definition host_hash_step :: "32 word \<Rightarrow> char \<Rightarrow> 32 word" where
  "host_hash_step h c = 37 * h + word_of_int (schar c)"

definition siteHashCode :: "string \<Rightarrow> nat" where
  "siteHashCode host = unat (foldl host_hash_step 0 host) mod namedSiteListSize"

definition hexToInt :: "char \<Rightarrow> nat option" where
  "hexToInt c =
     (if is_digit c then Some (cc c - 48)
      else if 97 \<le> cc c \<and> cc c \<le> 102 then Some (cc c - 97 + 10)
      else if 65 \<le> cc c \<and> cc c \<le> 70 then Some (cc c - 65 + 10)
      else None)"

definition setHexStr :: "char \<Rightarrow> string" where
  "setHexStr c =
     (let lc = cc c AND 15; hc = drop_bit 4 (cc c) AND 15
      in [if hc > 9 then chr (hc - 10 + 97) else chr (hc + 48),
          if lc > 9 then chr (lc - 10 + 97) else chr (lc + 48)])"

subsection \<open>fileNormalize\<close>

text \<open>
  The loop edits the array in place around the index \<open>i\<close>. Here \<open>pre\<close> is the text before
  \<open>i\<close>, reversed, and the second argument the text from \<open>i\<close> on, so \<open>i--\<close> moves along \<open>pre\<close>.
  \<open>Underflow\<close> is \<open>while (file[i] != '/') i--\<close> leaving the array. After \<open>%\<close> the source reads
  \<open>file[i + 2]\<close> even when \<open>file[i + 1]\<close> is the terminator; the answer is the same.
\<close>

datatype norm_result = Underflow | Rejected | Normal string

lemma take_eq_length: "take n r = s \<Longrightarrow> length s \<le> length r"
  by (metis length_take min.cobounded1)

function file_norm :: "string \<Rightarrow> string \<Rightarrow> norm_result" where
  "file_norm pre [] = Normal (rev pre)"
| "file_norm pre (x # r) =
     (if x = CHR ''#'' then Normal (rev pre)
      else if x = CHR ''/'' then
        (if take 2 r = ''./'' then file_norm pre (CHR ''/'' # drop 2 r)
         else if take 1 r = ''/'' then file_norm pre (CHR ''/'' # drop 1 r)
         else if take 3 r = ''../'' then
           (if pre = [] then Rejected
            else (case dropWhile (\<lambda>y. y \<noteq> CHR ''/'') pre of
                    [] \<Rightarrow> Underflow
                  | _ # p \<Rightarrow> file_norm p (CHR ''/'' # drop 3 r)))
         else if r = ''.'' then Normal (rev pre @ ''/'')
         else if r = ''..'' then
           (if pre = [] then Rejected
            else (case dropWhile (\<lambda>y. y \<noteq> CHR ''/'') pre of
                    [] \<Rightarrow> Underflow
                  | _ # p \<Rightarrow> Normal (rev p @ ''/'')))
         else file_norm (x # pre) r)
      else if x = CHR ''%'' then
        (case (hexToInt (at_nul r 0), hexToInt (at_nul r 1)) of
           (Some v1, Some v2) \<Rightarrow>
             (let c = chr (16 * v1 + v2) in
              if is_graph c then file_norm (c # pre) (drop 2 r)
              else if c = CHR '' '' \<or> c = CHR ''/'' then
                file_norm (rev (x # take 2 r) @ pre) (drop 2 r)
              else Rejected)
         | _ \<Rightarrow> Rejected)
      else file_norm (x # pre) r)"
  by pat_completeness auto

termination
  by (relation "measure (\<lambda>(pre, r). length r)") (auto dest!: take_eq_length)

declare file_norm.simps(2) [simp del]

definition fileNormalize :: "string \<Rightarrow> norm_result" where
  "fileNormalize file = file_norm [] file"

subsection \<open>The class url\<close>

record url =
  u_host :: "string option"
  u_puny :: "string option"
  u_file :: "string option"
  u_port :: "16 word"
  u_depth :: int
  u_addr :: nat
  u_cookie :: "string option"

definition url_init :: "int \<Rightarrow> url" where
  "url_init depth =
     \<lparr>u_host = None, u_puny = None, u_file = None, u_port = 80, u_depth = depth, u_addr = 0,
      u_cookie = None\<rparr>"

text \<open>\<open>port = port * 10 + arg[fin] - '0'\<close> in a \<open>uint16_t\<close>.\<close>

definition read_port :: "string \<Rightarrow> 16 word" where
  "read_port s = foldl (\<lambda>p c. p * 10 + word_of_nat (digit_val c)) 0 (digits_of s)"

definition host_part :: "string \<Rightarrow> string" where
  "host_part arg = takeWhile (\<lambda>c. c \<noteq> CHR ''/'' \<and> c \<noteq> CHR '':'') arg"

definition parse :: "string \<Rightarrow> url \<Rightarrow> url" where
  "parse arg u =
     (let h = host_part arg; r = drop (length h) arg in
      if h = [] then u
      else
        let u1 = u\<lparr>u_host := Some (map lowerCase h)\<rparr>;
            (u2, r2) = (if at_nul r 0 = CHR '':''
                        then (u1\<lparr>u_port := read_port (drop 1 r)\<rparr>, after_digits (drop 1 r))
                        else (u1, r))
        in if at_nul r2 0 \<noteq> CHR ''/'' then u2\<lparr>u_file := Some ''/''\<rparr>
           else u2\<lparr>u_file := Some r2\<rparr>)"

text \<open>\<open>url::normalize\<close>: then every byte above 127 is written \<open>%xx\<close>.\<close>

definition encode_bytes :: "string \<Rightarrow> string" where
  "encode_bytes s = concat (map (\<lambda>c. if schar c < 0 then CHR ''%'' # setHexStr c else [c]) s)"

definition normalize :: "string \<Rightarrow> norm_result" where
  "normalize file =
     (case fileNormalize file of
        Normal f \<Rightarrow> Normal (if list_all (\<lambda>c. 0 \<le> schar c) f then f else encode_bytes f)
      | e \<Rightarrow> e)"

definition isProtocol :: "string \<Rightarrow> bool" where
  "isProtocol s \<longleftrightarrow> at_nul (dropWhile is_alnum s) 0 = CHR '':''"

text \<open>The file and the host are deleted when the file name is refused. \<open>None\<close> is an underflow in
  \<open>fileNormalize\<close> or a base without a file.\<close>

definition normalize_abs :: "url \<Rightarrow> url option" where
  "normalize_abs u =
     (case u_file u of
        None \<Rightarrow> Some u
      | Some f \<Rightarrow>
          (case normalize f of
             Underflow \<Rightarrow> None
           | Rejected \<Rightarrow> Some (u\<lparr>u_file := None, u_host := None\<rparr>)
           | Normal f' \<Rightarrow> Some (u\<lparr>u_file := Some f'\<rparr>)))"

definition parseWithBase :: "string \<Rightarrow> url \<Rightarrow> url \<Rightarrow> url option" where
  "parseWithBase u base self =
     (case (if at_nul u 0 = CHR ''/'' then Some u else map_option (\<lambda>bf. bf @ u) (u_file base)) of
        None \<Rightarrow> None
      | Some f \<Rightarrow>
          (case normalize f of
             Underflow \<Rightarrow> None
           | Rejected \<Rightarrow> Some (self\<lparr>u_file := None\<rparr>)
           | Normal f' \<Rightarrow>
               Some (self\<lparr>u_file := Some f', u_host := u_host base, u_port := u_port base\<rparr>)))"

text \<open>Constructor from a link of a page (\<open>base\<close> may be NULL).\<close>

definition url_link :: "string \<Rightarrow> int \<Rightarrow> url option \<Rightarrow> url option" where
  "url_link u depth base =
     (let self = url_init depth in
      if startWith ''http://'' u then normalize_abs (parse (drop 7 u) self)
      else (case base of
              None \<Rightarrow> Some self
            | Some b \<Rightarrow>
                if startWith ''http:'' u then parseWithBase (drop 5 u) b self
                else if isProtocol u then Some self
                else parseWithBase u b self))"

text \<open>Constructor used by input.\<close>

definition url_line :: "string \<Rightarrow> int \<Rightarrow> url option" where
  "url_line line depth =
     (let self = url_init depth in
      if startWith ''http://'' line then normalize_abs (parse (drop 7 line) self)
      else Some self)"

subsection \<open>Serialisation\<close>

text \<open>\<open>depth = 10 * depth + line[i] - '0'\<close> in an \<open>int\<close>.\<close>

definition read_int :: "string \<Rightarrow> int" where
  "read_int s = foldl (\<lambda>n c. s32 (10 * n + int (digit_val c))) 0 (digits_of s)"

text \<open>Constructor that reads a serialised url; \<open>None\<close>: the scan for the colon, or the copy
  of the cookie, leaves its array.\<close>

definition url_read :: "bool \<Rightarrow> string \<Rightarrow> url option" where
  "url_read useCookies line =
     (let r = after_digits line in
      if r = [] \<or> CHR '':'' \<notin> set (drop 1 r) then None
      else
        let h = takeWhile (\<lambda>c. c \<noteq> CHR '':'') (drop 1 r);
            p = drop (Suc (length h)) (drop 1 r);
            f = after_digits p;
            self = (url_init (read_int line))\<lparr>u_host := Some h, u_port := read_port p\<rparr>
        in if \<not> useCookies then Some (self\<lparr>u_file := Some f\<rparr>)
           else (case strchr f CHR '' '' of
                   None \<Rightarrow> Some (self\<lparr>u_file := Some f\<rparr>)
                 | Some c \<Rightarrow>
                     if length (drop 1 c) \<ge> maxCookieSize then None
                     else Some (self\<lparr>u_file := Some (takeWhile (\<lambda>x. x \<noteq> CHR '' '') f),
                                     u_cookie := Some (drop 1 c)\<rparr>)))"

definition print_uint :: "int \<Rightarrow> string" where
  "print_uint d = dec (nat (d mod 2 ^ 32))"

definition host_str :: "url \<Rightarrow> string" where
  "host_str u = (case u_host u of None \<Rightarrow> [] | Some h \<Rightarrow> h)"

definition file_str :: "url \<Rightarrow> string" where
  "file_str u = (case u_file u of None \<Rightarrow> [] | Some f \<Rightarrow> f)"

definition port_str :: "url \<Rightarrow> string" where
  "port_str u = CHR '':'' # dec (unat (u_port u))"

definition serialize :: "bool \<Rightarrow> url \<Rightarrow> string" where
  "serialize useCookies u =
     print_uint (u_depth u) @ '' '' @ host_str u @ port_str u @ file_str u
       @ (case (useCookies, u_cookie u) of (True, Some c) \<Rightarrow> CHR '' '' # c | _ \<Rightarrow> []) @ [NL]"

definition getUrl :: "url \<Rightarrow> string" where
  "getUrl u = ''http://'' @ host_str u @ port_str u @ file_str u"

definition giveUrl :: "url \<Rightarrow> string" where
  "giveUrl u =
     ''http://'' @ host_str u @ (if u_port u \<noteq> 80 then port_str u else []) @ file_str u"

text \<open>\<open>writeUrl\<close> prints into a buffer of \<open>maxUrlSize\<close> bytes; its result is the length.\<close>

definition writeUrl :: "url \<Rightarrow> string \<times> nat" where
  "writeUrl u =
     (let s = (if u_port u = 80 then ''http://'' @ host_str u @ file_str u
               else ''http://'' @ host_str u @ port_str u @ file_str u)
      in (s, length s))"

definition isValid :: "url \<Rightarrow> bool" where
  "isValid u =
     (case u_host u of
        None \<Rightarrow> False
      | Some h \<Rightarrow>
          (case u_file u of
             None \<Rightarrow> False
           | Some f \<Rightarrow> length h < maxSiteSize \<and> length h + length f + 18 < maxUrlSize))"

text \<open>\<open>giveBase\<close> asserts that the file starts with a slash. The constructor it uses leaves the
  depth unset: it is the argument \<open>d\<close>.\<close>

definition giveBase :: "int \<Rightarrow> url \<Rightarrow> url option" where
  "giveBase d u =
     (if at_nul (file_str u) 0 \<noteq> CHR ''/'' then None
      else Some ((url_init d)\<lparr>
        u_host := u_host u, u_port := u_port u,
        u_file := Some (rev (dropWhile (\<lambda>c. c \<noteq> CHR ''/'') (rev (file_str u))))\<rparr>))"

definition getPunycode :: "bool \<Rightarrow> url \<Rightarrow> (string \<times> url) option" where
  "getPunycode use u =
     (if \<not> use then Some (host_str u, u)
      else (case u_puny u of
              Some p \<Rightarrow> Some (p, u)
            | None \<Rightarrow> map_option (\<lambda>p. (p, u\<lparr>u_puny := Some p\<rparr>)) (punycode_host (host_str u))))"

definition hostHashCode :: "url \<Rightarrow> nat" where
  "hostHashCode u = siteHashCode (host_str u)"

definition hash_step :: "32 word \<Rightarrow> char \<Rightarrow> 32 word" where
  "hash_step h c = 31 * h + word_of_int (schar c)"

definition hashCode :: "url \<Rightarrow> nat" where
  "hashCode u =
     unat (foldl hash_step (foldl hash_step (ucast (u_port u)) (host_str u)) (file_str u))
       mod hashSize"

subsection \<open>Cookies\<close>

text \<open>\<open>strncpy(cookie + len, s, maxCookieSize - len); cookie[maxCookieSize - 1] = 0\<close>.\<close>

definition addToCookie :: "string \<Rightarrow> string \<Rightarrow> string" where
  "addToCookie s cookie = take (maxCookieSize - 1) (cookie @ s)"

definition addCookie :: "string \<Rightarrow> url \<Rightarrow> url" where
  "addCookie header u =
     (if startWithIgnoreCase ''set-cookie: '' header = Some True then
        (case strchr (drop 12 header) CHR '';'' of
           None \<Rightarrow> u
         | Some _ \<Rightarrow>
             (let c0 = (case u_cookie u of None \<Rightarrow> [] | Some c \<Rightarrow> addToCookie ''; '' c)
              in u\<lparr>u_cookie :=
                     Some (addToCookie (takeWhile (\<lambda>x. x \<noteq> CHR '';'') (drop 12 header)) c0)\<rparr>))
      else u)"


subsection \<open>fileNormalize resolves path segments\<close>

text \<open>The reference: split the path at the slashes and resolve the segments on a stack (kept
  reversed). A segment \<open>..\<close> with nothing before it is refused, and a last segment that is
  empty, \<open>.\<close> or \<open>..\<close> leaves a final slash.\<close>

fun segs :: "string \<Rightarrow> string list" where
  "segs [] = [[]]"
| "segs (c # s) = (if c = CHR ''/'' then [] # segs s else (c # hd (segs s)) # tl (segs s))"

fun resolve :: "string list \<Rightarrow> string list \<Rightarrow> string list option" where
  "resolve st [] = Some (rev st)"
| "resolve st (x # xs) =
     (let end = (\<lambda>st. if xs = [] then Some (rev ([] # st)) else resolve st xs) in
      if x = [] \<or> x = ''.'' then end st
      else if x = ''..'' then (case st of [] \<Rightarrow> None | _ # st' \<Rightarrow> end st')
      else resolve (x # st) xs)"

definition path_str :: "string list \<Rightarrow> string" where
  "path_str ss = concat (map (\<lambda>x. CHR ''/'' # x) ss)"

definition plain :: "string \<Rightarrow> bool" where
  "plain s \<longleftrightarrow> CHR ''%'' \<notin> set s \<and> CHR ''#'' \<notin> set s"

lemma segs_slashfree: "CHR ''/'' \<notin> set x \<Longrightarrow> segs x = [x]"
  by (induction x) auto

lemma segs_split: "CHR ''/'' \<notin> set x \<Longrightarrow> segs (x @ CHR ''/'' # s) = x # segs s"
  by (induction x) auto

lemma segs_nonempty: "segs s \<noteq> []"
  by (induction s) auto

lemma file_norm_other:
  "c \<noteq> CHR ''#'' \<Longrightarrow> c \<noteq> CHR ''/'' \<Longrightarrow> c \<noteq> CHR ''%'' \<Longrightarrow>
   file_norm pre (c # r) = file_norm (c # pre) r"
  by (subst file_norm.simps(2)) (simp only: if_False)

lemma file_norm_skip:
  "plain x \<Longrightarrow> CHR ''/'' \<notin> set x \<Longrightarrow> file_norm pre (x @ r) = file_norm (rev x @ pre) r"
proof (induction x arbitrary: pre)
  case Nil
  then show ?case by simp
next
  case (Cons c x)
  then have "c \<noteq> CHR ''#''" "c \<noteq> CHR ''/''" "c \<noteq> CHR ''%''" "plain x" "CHR ''/'' \<notin> set x"
    by (auto simp: plain_def)
  with Cons.IH [of "c # pre"] show ?case by (simp add: file_norm_other)
qed

lemma path_str_snoc: "path_str (ss @ [x]) = path_str ss @ CHR ''/'' # x"
  by (simp add: path_str_def)

lemma drop_seg:
  "CHR ''/'' \<notin> set t \<Longrightarrow>
   dropWhile (\<lambda>y. y \<noteq> CHR ''/'') (rev (path_str (ss @ [t]))) = CHR ''/'' # rev (path_str ss)"
proof -
  assume t: "CHR ''/'' \<notin> set t"
  have "dropWhile (\<lambda>y. y \<noteq> CHR ''/'') (rev t @ CHR ''/'' # p) = CHR ''/'' # p" for p
    using t by (subst dropWhile_append2) auto
  then show ?thesis by (simp add: path_str_snoc)
qed

lemma file_norm_slash:
  "file_norm pre [CHR ''/''] = Normal (rev pre @ ''/'')"
  "file_norm pre (CHR ''/'' # CHR ''.'' # CHR ''/'' # r) = file_norm pre (CHR ''/'' # r)"
  "file_norm pre (CHR ''/'' # CHR ''/'' # r) = file_norm pre (CHR ''/'' # r)"
  "file_norm pre ''/.'' = Normal (rev pre @ ''/'')"
  by (simp_all add: file_norm.simps(2))

lemma file_norm_up:
  "file_norm [] (CHR ''/'' # CHR ''.'' # CHR ''.'' # CHR ''/'' # r) = Rejected"
  "file_norm [] ''/..'' = Rejected"
  "pre \<noteq> [] \<Longrightarrow> dropWhile (\<lambda>y. y \<noteq> CHR ''/'') pre = CHR ''/'' # p \<Longrightarrow>
     file_norm pre (CHR ''/'' # CHR ''.'' # CHR ''.'' # CHR ''/'' # r) = file_norm p (CHR ''/'' # r)"
  "pre \<noteq> [] \<Longrightarrow> dropWhile (\<lambda>y. y \<noteq> CHR ''/'') pre = CHR ''/'' # p \<Longrightarrow>
     file_norm pre ''/..'' = Normal (rev p @ ''/'')"
  by (simp_all add: file_norm.simps(2) numeral_3_eq_3)

lemma file_norm_go:
  assumes "take 2 r \<noteq> ''./''" "take 1 r \<noteq> ''/''" "take 3 r \<noteq> ''../''" "r \<noteq> ''.''" "r \<noteq> ''..''"
  shows "file_norm pre (CHR ''/'' # r) = file_norm (CHR ''/'' # pre) r"
  using assms by (simp add: file_norm.simps(2) del: take_Suc_Cons)

lemma seg_take:
  assumes "c \<notin> set x" "x \<noteq> []" "x \<noteq> [d]" "x \<noteq> [d, d]" "r = [] \<or> hd r = c" "c \<noteq> d"
  shows "take 2 (x @ r) \<noteq> [d, c]" "take 1 (x @ r) \<noteq> [c]" "take 3 (x @ r) \<noteq> [d, d, c]"
    "x @ r \<noteq> [d]" "x @ r \<noteq> [d, d]"
proof -
  obtain a x1 where x: "x = a # x1" using assms(2) by (cases x) auto
  consider "x1 = []" | b where "x1 = [b]" | b e x2 where "x1 = b # e # x2"
    by (metis neq_Nil_conv)
  then have "take 2 (x @ r) \<noteq> [d, c] \<and> take 1 (x @ r) \<noteq> [c] \<and> take 3 (x @ r) \<noteq> [d, d, c] \<and>
    x @ r \<noteq> [d] \<and> x @ r \<noteq> [d, d]"
    by cases (use assms x in \<open>auto simp: numeral_2_eq_2 numeral_3_eq_3 Cons_eq_append_conv\<close>)
  then show "take 2 (x @ r) \<noteq> [d, c]" "take 1 (x @ r) \<noteq> [c]" "take 3 (x @ r) \<noteq> [d, d, c]"
    "x @ r \<noteq> [d]" "x @ r \<noteq> [d, d]" by blast+
qed

lemma seg_forward:
  assumes "CHR ''/'' \<notin> set x" "plain x" "x \<noteq> []" "x \<noteq> ''.''" "x \<noteq> ''..''"
    and r: "r = [] \<or> hd r = CHR ''/''"
  shows "file_norm pre (CHR ''/'' # x @ r) = file_norm (rev x @ CHR ''/'' # pre) r"
proof -
  have "file_norm pre (CHR ''/'' # x @ r) = file_norm (CHR ''/'' # pre) (x @ r)"
    using seg_take [OF assms(1,3,4,5) r] by (intro file_norm_go) auto
  also have "\<dots> = file_norm (rev x @ CHR ''/'' # pre) r"
    by (rule file_norm_skip [OF assms(2,1)])
  finally show ?thesis .
qed

lemma resolve_simps:
  "resolve st [[]] = Some (rev st @ [[]])"
  "resolve st [''.''] = Some (rev st @ [[]])"
  "resolve [] (''..'' # xs) = None"
  "resolve (t # st) [''..''] = Some (rev st @ [[]])"
  "xs \<noteq> [] \<Longrightarrow> resolve st ([] # xs) = resolve st xs"
  "xs \<noteq> [] \<Longrightarrow> resolve st (''.'' # xs) = resolve st xs"
  "xs \<noteq> [] \<Longrightarrow> resolve (t # st) (''..'' # xs) = resolve st xs"
  "x \<noteq> [] \<Longrightarrow> x \<noteq> ''.'' \<Longrightarrow> x \<noteq> ''..'' \<Longrightarrow> resolve st (x # xs) = resolve (x # st) xs"
  by (simp_all add: Let_def)

declare resolve.simps(2) [simp del]

lemma file_norm_resolve:
  "plain s \<Longrightarrow> \<forall>t \<in> set st. CHR ''/'' \<notin> set t \<Longrightarrow>
   file_norm (rev (path_str (rev st))) (CHR ''/'' # s) =
     (case resolve st (segs s) of None \<Rightarrow> Rejected | Some ss \<Rightarrow> Normal (path_str ss))"
proof (induction "length s" arbitrary: s st rule: less_induct)
  case less
  let ?pre = "rev (path_str (rev st))"
  define x where "x = takeWhile (\<lambda>c. c \<noteq> CHR ''/'') s"
  define r where "r = dropWhile (\<lambda>c. c \<noteq> CHR ''/'') s"
  have s: "s = x @ r" by (simp add: x_def r_def)
  have x: "CHR ''/'' \<notin> set x" by (auto simp: x_def dest: set_takeWhileD)
  have p: "plain x" "plain r" using less.prems(1) by (auto simp: s plain_def)
  have pop: "?pre \<noteq> []" "dropWhile (\<lambda>y. y \<noteq> CHR ''/'') ?pre = CHR ''/'' # rev (path_str (rev st'))"
    if "st = t # st'" for t st'
    using that less.prems(2) drop_seg [of t "rev st'"] by (auto simp: path_str_snoc)
  consider (e) "x = []" | (d) "x = ''.''" | (u) "x = ''..''"
    | (n) "x \<noteq> []" "x \<noteq> ''.''" "x \<noteq> ''..''" by blast
  note cs = this
  show ?case
  proof (cases r)
    case Nil
    then have sx: "s = x" "segs s = [x]" using s x by (auto simp: segs_slashfree)
    show ?thesis
    proof (cases rule: cs)
      case u
      show ?thesis
      proof (cases st)
        case Nil
        with u sx show ?thesis by (simp add: file_norm_up resolve_simps path_str_def)
      next
        case (Cons t st')
        note pp = pop [OF Cons]
        show ?thesis using file_norm_up(4) [OF pp] u sx Cons
          by (simp add: resolve_simps path_str_snoc)
      qed
    next
      case n
      with seg_forward [of x "[]" ?pre] x p sx show ?thesis
        by (simp add: path_str_snoc resolve_simps)
    next
      case e
      with sx show ?thesis
        by (simp add: file_norm_slash(1) resolve_simps(1) path_str_snoc)
    next
      case d
      with sx show ?thesis
        by (simp add: file_norm_slash(4) resolve_simps(2) path_str_snoc)
    qed
  next
    case (Cons y s')
    have y: "y = CHR ''/''"
      using hd_dropWhile [of "\<lambda>c. c \<noteq> CHR ''/''" s] Cons by (simp flip: r_def)
    have s2: "s = x @ CHR ''/'' # s'" using s Cons y by simp
    have sg: "segs s = x # segs s'" using s2 x by (simp add: segs_split)
    have l: "length s' < length s" "plain s'" using s Cons p by (auto simp: plain_def)
    note IH = less.hyps [OF l(1) l(2)]
    show ?thesis
    proof (cases rule: cs)
      case u
      show ?thesis
      proof (cases st)
        case Nil
        with u s2 sg show ?thesis by (simp add: file_norm_up resolve_simps path_str_def)
      next
        case (Cons t st')
        note pp = pop [OF Cons]
        show ?thesis using file_norm_up(3) [OF pp, of s'] u s2 sg Cons IH [of st'] less.prems(2)
          by (simp add: resolve_simps segs_nonempty)
      qed
    next
      case n
      have "file_norm ?pre (CHR ''/'' # s) = file_norm (rev (path_str (rev (x # st)))) (CHR ''/'' # s')"
        using seg_forward [OF x p(1) n, of "CHR ''/'' # s'" ?pre] s2
        by (simp add: path_str_snoc)
      also have "\<dots> = (case resolve (x # st) (segs s') of None \<Rightarrow> Rejected | Some ss \<Rightarrow> Normal (path_str ss))"
        using IH [of "x # st"] x less.prems(2) by simp
      finally show ?thesis using n sg by (simp add: resolve_simps)
    next
      case e
      with s2 sg IH [OF less.prems(2)] segs_nonempty [of s'] show ?thesis
        by (simp add: file_norm_slash(3) resolve_simps(5))
    next
      case d
      with s2 sg IH [OF less.prems(2)] segs_nonempty [of s'] show ?thesis
        by (simp add: file_norm_slash(2) resolve_simps(6))
    qed
  qed
qed


text \<open>A normal path: every segment is a name, the last one may be empty.\<close>

definition name_seg :: "string \<Rightarrow> bool" where
  "name_seg x \<longleftrightarrow> x \<noteq> [] \<and> x \<noteq> ''.'' \<and> x \<noteq> ''..'' \<and> CHR ''/'' \<notin> set x"

definition normal_path :: "string list \<Rightarrow> bool" where
  "normal_path ss \<longleftrightarrow> ss \<noteq> [] \<and> (\<forall>x \<in> set (butlast ss). name_seg x) \<and> (last ss = [] \<or> name_seg (last ss))"

text \<open>One step of the reference.\<close>

lemma resolve_step:
  assumes "resolve st (x # xs) = Some ss"
  obtains (drop) "x = [] \<or> x = ''.''" "xs \<noteq> []" "resolve st xs = Some ss"
  | (up) t st' where "st = t # st'" "xs \<noteq> []" "resolve st' xs = Some ss"
  | (finish) st' where "xs = []" "set st' \<subseteq> set st" "ss = rev st' @ [[]]"
  | (push) "x \<noteq> []" "x \<noteq> ''.''" "x \<noteq> ''..''" "resolve (x # st) xs = Some ss"
proof -
  consider (e) "x = [] \<or> x = ''.''" | (u) "x = ''..''"
    | (n) "x \<noteq> []" "x \<noteq> ''.''" "x \<noteq> ''..''" by blast
  then show thesis
  proof cases
    case e
    then have "resolve st (x # xs) = (if xs = [] then Some (rev st @ [[]]) else resolve st xs)"
      by (auto simp: resolve_simps)
    with e assms drop finish [of st] show thesis by (cases "xs = []") auto
  next
    case u
    show thesis
    proof (cases st)
      case Nil
      with u assms show thesis by (simp add: resolve_simps)
    next
      case (Cons t st')
      with u assms up [of t st'] finish [of st'] show thesis
        by (cases "xs = []") (auto simp: resolve_simps)
    qed
  next
    case n
    with assms push show thesis by (simp add: resolve_simps)
  qed
qed

lemma resolve_normal:
  "resolve st xs = Some ss \<Longrightarrow> xs \<noteq> [] \<Longrightarrow> \<forall>x \<in> set st. name_seg x \<Longrightarrow>
   \<forall>x \<in> set xs. CHR ''/'' \<notin> set x \<Longrightarrow> normal_path ss"
proof (induction xs arbitrary: st)
  case Nil
  then show ?case by simp
next
  case (Cons x xs)
  from Cons.prems(1) show ?case
  proof (cases rule: resolve_step)
    case drop
    with Cons show ?thesis by simp
  next
    case (up t st')
    with Cons show ?thesis by simp
  next
    case (finish st')
    with Cons.prems(3) show ?thesis by (auto simp: normal_path_def)
  next
    case push
    then have "name_seg x" using Cons.prems(4) by (simp add: name_seg_def)
    show ?thesis
    proof (cases "xs = []")
      case True
      with push(4) Cons.prems(3) \<open>name_seg x\<close> show ?thesis by (auto simp: normal_path_def)
    next
      case False
      show ?thesis
        by (rule Cons.IH [OF push(4) False]) (use \<open>name_seg x\<close> Cons.prems(3,4) in simp_all)
    qed
  qed
qed

lemma segs_no_slash: "x \<in> set (segs s) \<Longrightarrow> CHR ''/'' \<notin> set x"
proof (induction s arbitrary: x)
  case Nil
  then show ?case by simp
next
  case (Cons c s)
  have "segs s = hd (segs s) # tl (segs s)" using segs_nonempty [of s] by simp
  then have "hd (segs s) \<in> set (segs s)" "set (tl (segs s)) \<subseteq> set (segs s)"
    by (metis list.set_intros(1), metis set_subset_Cons)
  with Cons show ?case by (auto split: if_splits)
qed

lemma resolve_chars:
  "resolve st xs = Some ss \<Longrightarrow> \<forall>x \<in> set st \<union> set xs. set x \<subseteq> A \<Longrightarrow> \<forall>x \<in> set ss. set x \<subseteq> A"
proof (induction xs arbitrary: st)
  case Nil
  then show ?case by auto
next
  case (Cons x xs)
  from Cons.prems(1) show ?case
  proof (cases rule: resolve_step)
    case drop
    with Cons show ?thesis by simp
  next
    case (up t st')
    with Cons show ?thesis by simp
  next
    case (finish st')
    with Cons.prems(2) show ?thesis by auto
  next
    case push
    show ?thesis by (rule Cons.IH [OF push(4)]) (use Cons.prems(2) in auto)
  qed
qed

lemma segs_chars: "\<Union> (set ` set (segs s)) \<subseteq> set s"
proof (induction s)
  case (Cons c s)
  have "segs s = hd (segs s) # tl (segs s)" using segs_nonempty [of s] by simp
  then have "\<Union> (set ` set (segs s)) = set (hd (segs s)) \<union> \<Union> (set ` set (tl (segs s)))"
    by (metis UN_insert list.simps(15))
  with Cons show ?case by auto
qed auto

lemma segs_path: "\<forall>x \<in> set (x # xs). CHR ''/'' \<notin> set x \<Longrightarrow> segs (x @ path_str xs) = x # xs"
  by (induction xs arbitrary: x) (auto simp: path_str_def segs_slashfree segs_split)

lemma resolve_id:
  "(\<forall>x \<in> set xs. name_seg x) \<Longrightarrow> l = [] \<or> name_seg l \<Longrightarrow>
   resolve st (xs @ [l]) = Some (rev st @ xs @ [l])"
  by (induction xs arbitrary: st) (auto simp: name_seg_def resolve_simps)

lemma normalize_plain:
  assumes "plain s" "fileNormalize (CHR ''/'' # s) = Normal f"
  obtains ss where "resolve [] (segs s) = Some ss" "f = path_str ss" "normal_path ss"
    "fileNormalize f = Normal f"
proof -
  from assms file_norm_resolve [of s "[]"] obtain ss where
    ss: "resolve [] (segs s) = Some ss" "f = path_str ss"
    by (auto simp: fileNormalize_def path_str_def split: option.splits)
  have np: "normal_path ss"
    by (rule resolve_normal [OF ss(1) segs_nonempty]) (auto dest: segs_no_slash)
  then obtain x xs where x: "ss = x # xs" by (cases ss) (auto simp: normal_path_def)
  have sub: "\<Union> (set ` set ss) \<subseteq> set s"
    using resolve_chars [OF ss(1), of "set s"] segs_chars [of s] by auto
  have noslash: "\<forall>x \<in> set ss. CHR ''/'' \<notin> set x"
    using np append_butlast_last_id [of ss]
    by (metis (no_types, lifting) empty_iff empty_set name_seg_def normal_path_def
        rotate1.simps(2) set_ConsD set_rotate1)
  have "set (x @ path_str xs) \<subseteq> {CHR ''/''} \<union> set s"
    using sub by (auto simp: x path_str_def)
  then have "plain (x @ path_str xs)" using assms(1) by (auto simp: plain_def)
  from file_norm_resolve [OF this, of "[]"] have
    "fileNormalize f = (case resolve [] ss of None \<Rightarrow> Rejected | Some ss \<Rightarrow> Normal (path_str ss))"
    using segs_path [of x xs] noslash by (simp add: fileNormalize_def ss(2) x path_str_def)
  also have "resolve [] ss = Some ss"
    using resolve_id [of "butlast ss" "last ss" "[]"] np
    by (simp add: normal_path_def)
  finally have "fileNormalize f = Normal f" by (simp add: ss(2))
  with ss np that show ?thesis by blast
qed

subsection \<open>No run before the array\<close>

definition anchored :: "string \<Rightarrow> string \<Rightarrow> bool" where
  "anchored pre r \<longleftrightarrow> (if pre = [] then at_nul r 0 = CHR ''/'' else last pre = CHR ''/'')"

lemma anchored_push: "anchored pre (x # r) \<Longrightarrow> anchored (x # pre) r'"
  by (auto simp: anchored_def at_nul_def)

lemma anchored_pop:
  assumes "anchored pre r" "pre \<noteq> []"
  obtains p where "dropWhile (\<lambda>y. y \<noteq> CHR ''/'') pre = CHR ''/'' # p"
    "anchored p (CHR ''/'' # r')"
proof -
  have "CHR ''/'' \<in> set pre" using assms by (metis anchored_def last_in_set)
  then obtain u v where uv: "pre = u @ CHR ''/'' # v" "CHR ''/'' \<notin> set u"
    by (meson split_list_first)
  then have "dropWhile (\<lambda>y. y \<noteq> CHR ''/'') pre = CHR ''/'' # v"
    by (subst uv(1), subst dropWhile_append2) auto
  moreover have "anchored v (CHR ''/'' # r')"
    using assms uv by (auto simp: anchored_def at_nul_def)
  ultimately show ?thesis by (rule that)
qed

definition norm_ok :: "nat \<Rightarrow> norm_result \<Rightarrow> bool" where
  "norm_ok n res =
     (case res of Underflow \<Rightarrow> False | Rejected \<Rightarrow> True
      | Normal f \<Rightarrow> at_nul f 0 = CHR ''/'' \<and> length f \<le> n)"

lemma norm_ok_mono: "norm_ok n r \<Longrightarrow> n \<le> m \<Longrightarrow> norm_ok m r"
  by (auto simp: norm_ok_def split: norm_result.splits)

lemma at_nul_rev: "pre \<noteq> [] \<Longrightarrow> at_nul (rev pre @ x) 0 = last pre"
  by (auto simp: at_nul_def nth_append rev_nth last_conv_nth)

lemma file_norm_ok: "anchored pre r \<Longrightarrow> norm_ok (length pre + length r) (file_norm pre r)"
proof (induction pre r rule: file_norm.induct)
  case (1 pre)
  then show ?case by (auto simp: anchored_def norm_ok_def at_nul_def rev_nth last_conv_nth)
next
  case (2 pre x r)
  note anch = 2(8)
  have fwd: "anchored (x # pre) r'" for r' using anch by (rule anchored_push)
  have full: "norm_ok (length pre + k) (Normal (rev pre @ y))"
    if "pre \<noteq> [] \<or> at_nul y 0 = CHR ''/''" "length y \<le> k" for y k
    using anch that by (cases "pre = []") (auto simp: anchored_def norm_ok_def at_nul_rev)
  consider (hash) "x = CHR ''#''" | (slash) "x = CHR ''/''" | (pct) "x = CHR ''%''"
    | (other) "x \<noteq> CHR ''#''" "x \<noteq> CHR ''/''" "x \<noteq> CHR ''%''" by blast
  then show ?case
  proof cases
    case hash
    then have "pre \<noteq> []" using anch by (auto simp: anchored_def at_nul_def)
    with hash full [of "[]" "length (x # r)"] show ?thesis by (simp add: file_norm.simps(2))
  next
    case other
    with 2(7) fwd show ?thesis by (simp add: file_norm_other)
  next
    case pct
    then have ne: "pre \<noteq> []" using anch by (auto simp: anchored_def at_nul_def)
    then have push: "anchored (y @ pre) r'" for y r'
      using anch by (auto simp: anchored_def)
    show ?thesis
    proof (cases "hexToInt (at_nul r 0)"; cases "hexToInt (at_nul r 1)")
      fix v1 v2 assume v: "hexToInt (at_nul r 0) = Some v1" "hexToInt (at_nul r 1) = Some v2"
      let ?c = "chr (16 * v1 + v2)"
      from v(2) have r2: "2 \<le> length r" by (auto simp: at_nul_def hexToInt_def NUL_def is_digit_def split: if_splits)
      consider (g) "is_graph ?c" | (k) "\<not> is_graph ?c" "?c = CHR '' '' \<or> ?c = CHR ''/''"
        | (bad) "\<not> is_graph ?c" "?c \<noteq> CHR '' ''" "?c \<noteq> CHR ''/''" by blast
      then show ?thesis
      proof cases
        case g
        have "norm_ok (length (?c # pre) + length (drop 2 r)) (file_norm (?c # pre) (drop 2 r))"
          using 2(5) [OF _ _ pct refl v refl g] push [of "[?c]"] pct by simp
        then have "norm_ok (length pre + length (x # r)) (file_norm (?c # pre) (drop 2 r))"
          by (rule norm_ok_mono) (use r2 in auto)
        with g v pct show ?thesis by (simp add: file_norm.simps(2))
      next
        case k
        let ?p = "rev (x # take 2 r) @ pre"
        have "norm_ok (length ?p + length (drop 2 r)) (file_norm ?p (drop 2 r))"
          using 2(6) [OF _ _ pct refl v refl k] push [of "rev (x # take 2 r)"] pct by simp
        then have "norm_ok (length pre + length (x # r)) (file_norm ?p (drop 2 r))"
          by (rule norm_ok_mono) (use r2 in auto)
        with k v pct show ?thesis by (auto simp: file_norm.simps(2))
      next
        case bad
        with v pct show ?thesis by (simp add: file_norm.simps(2) norm_ok_def)
      qed
    qed (use pct in \<open>simp_all add: file_norm.simps(2) norm_ok_def\<close>)
  next
    case slash
    then have nh: "x \<noteq> CHR ''#''" by simp
    have same: "anchored pre (CHR ''/'' # r')" for r'
      using anch slash by (auto simp: anchored_def at_nul_def)
    consider (a) "take 2 r = ''./''" | (b) "take 2 r \<noteq> ''./''" "take 1 r = ''/''"
      | (c) "take 2 r \<noteq> ''./''" "take 1 r \<noteq> ''/''" "take 3 r = ''../''"
      | (d) "r = ''.''" | (e) "r = ''..''"
      | (f) "take 2 r \<noteq> ''./''" "take 1 r \<noteq> ''/''" "take 3 r \<noteq> ''../''" "r \<noteq> ''.''" "r \<noteq> ''..''"
      by blast
    then show ?thesis
    proof cases
      case a
      then obtain r' where "r = CHR ''.'' # CHR ''/'' # r'"
        by (cases r; cases "tl r") (auto simp: numeral_2_eq_2)
      with 2(1) [OF nh slash a] same slash show ?thesis
        by (auto simp: file_norm_slash intro: norm_ok_mono)
    next
      case b
      then obtain r' where "r = CHR ''/'' # r'" by (cases r) auto
      with 2(2) [OF nh slash b] same slash show ?thesis
        by (auto simp: file_norm_slash intro: norm_ok_mono)
    next
      case c
      then obtain r' where r: "r = CHR ''.'' # CHR ''.'' # CHR ''/'' # r'"
        by (cases r; cases "tl r"; cases "tl (tl r)") (auto simp: numeral_3_eq_3)
      show ?thesis
      proof (cases "pre = []")
        case True
        with r slash show ?thesis by (simp add: file_norm_up norm_ok_def)
      next
        case False
        from anchored_pop [OF anch False] obtain p where
          p: "dropWhile (\<lambda>y. y \<noteq> CHR ''/'') pre = CHR ''/'' # p" "anchored p (CHR ''/'' # r')"
          by blast
        have "length p \<le> length pre" by (metis p(1) length_dropWhile_le length_Cons Suc_leD)
        moreover have "norm_ok (length p + length (CHR ''/'' # r')) (file_norm p (CHR ''/'' # r'))"
          using 2(3) [OF nh slash c False p(1)] p(2) r by simp
        ultimately show ?thesis using r slash file_norm_up(3) [OF False p(1)]
          by (auto intro: norm_ok_mono)
      qed
    next
      case d
      with slash full [of "''/''" "length (x # r)"] show ?thesis
        by (simp add: file_norm_slash at_nul_def)
    next
      case e
      show ?thesis
      proof (cases "pre = []")
        case True
        with e slash show ?thesis by (simp add: file_norm_up norm_ok_def)
      next
        case False
        from anchored_pop [OF anch False] obtain p where
          p: "dropWhile (\<lambda>y. y \<noteq> CHR ''/'') pre = CHR ''/'' # p" "anchored p ''/''"
          by blast
        have "length p \<le> length pre" by (metis p(1) length_dropWhile_le length_Cons Suc_leD)
        moreover have "at_nul (rev p @ ''/'') 0 = CHR ''/''"
          using p(2) at_nul_rev [of p "''/''"] by (cases "p = []") (simp_all add: anchored_def at_nul_def)
        ultimately show ?thesis using e slash file_norm_up(4) [OF False p(1)]
          by (simp add: norm_ok_def)
      qed
    next
      case f
      with 2(4) [OF nh slash f] fwd slash file_norm_go [OF f] show ?thesis by simp
    qed
  qed
qed


lemma fileNormalize_ok: "at_nul f 0 = CHR ''/'' \<Longrightarrow> norm_ok (length f) (fileNormalize f)"
  using file_norm_ok [of "[]" f] by (simp add: fileNormalize_def anchored_def)

lemma setHexStr_ascii: "\<forall>c \<in> set (setHexStr x). 0 \<le> schar c"
proof -
  have "n AND 15 < 16" for n :: nat
    using take_bit_nat_less_exp [of 4 n] by (simp add: take_bit_eq_mask mask_eq_exp_minus_1)
  then have "drop_bit 4 (cc x) AND 15 < 16" "cc x AND 15 < 16" by blast+
  then show ?thesis by (auto simp: setHexStr_def Let_def schar_def)
qed

subsection \<open>Reading back what was printed\<close>

lemma read_port_word:
  "foldl (\<lambda>p c. p * 10 + word_of_nat (digit_val c)) (word_of_nat n :: 16 word) s =
   word_of_nat (foldl (\<lambda>n c. 10 * n + digit_val c) n s)"
proof (induction s arbitrary: n)
  case (Cons c s)
  then show ?case using Cons [of "10 * n + digit_val c"] by (simp add: mult.commute)
qed simp

lemma read_port_dec:
  "\<not> is_digit (at_nul r 0) \<Longrightarrow> read_port (dec (unat p) @ r) = p"
  using read_port_word [of 0 "dec (unat p)"] digits_of_dec [of r "unat p"]
    dec_val_dec [of "unat p"]
  by (simp add: read_port_def dec_val_def)

lemma mod_lin: "x mod m = y mod m \<Longrightarrow> (10 * x + b) mod m = (10 * y + b) mod (m :: int)"
  by (intro mod_add_cong mod_mult_cong refl)

lemma s32_step: "s32 (10 * s32 a + b) = s32 (10 * a + b)"
proof -
  have "signed_take_bit 31 a mod 2 ^ 32 = a mod 2 ^ 32"
    using take_bit_signed_take_bit [of 32 31 a] by (simp add: take_bit_eq_mod)
  then have "(10 * signed_take_bit 31 a + b) mod 2 ^ 32 = (10 * a + b) mod 2 ^ 32"
    by (rule mod_lin)
  then show ?thesis
    unfolding s32_def by (simp only: signed_take_bit_eq_iff_take_bit_eq take_bit_eq_mod) simp
qed

lemma read_int_foldl:
  "foldl (\<lambda>n c. s32 (10 * n + int (digit_val c))) (s32 (int n)) s =
   s32 (int (foldl (\<lambda>n c. 10 * n + digit_val c) n s))"
proof (induction s arbitrary: n)
  case (Cons c s)
  then show ?case using Cons [of "10 * n + digit_val c"] by (simp add: s32_step)
qed simp

lemma read_int_print:
  assumes "\<not> is_digit (at_nul r 0)" "- (2 ^ 31) \<le> d" "d < 2 ^ 31"
  shows "read_int (print_uint d @ r) = d"
proof -
  have "read_int (print_uint d @ r) = s32 (int (nat (d mod 2 ^ 32)))"
    using digits_of_dec [OF assms(1), of "nat (d mod 2 ^ 32)"] read_int_foldl [of 0]
      dec_val_dec [of "nat (d mod 2 ^ 32)"]
    by (simp add: read_int_def print_uint_def dec_val_def s32_id)
  also have "\<dots> = s32 (d mod 2 ^ 32)" by simp
  also have "\<dots> = s32 d"
    unfolding s32_def
    by (subst signed_take_bit_eq_iff_take_bit_eq) (simp add: take_bit_eq_mod)
  finally show ?thesis using assms by (simp add: s32_id)
qed


lemma print_uint_not_nil: "print_uint d \<noteq> []"
  by (simp add: print_uint_def dec_nonempty)

lemma print_uint_digits: "\<not> is_digit (at_nul r 0) \<Longrightarrow> after_digits (print_uint d @ r) = r"
  by (simp add: print_uint_def digits_of_dec)

lemma print_uint_length: "length (print_uint d) \<le> 10"
proof -
  have "nat (d mod 2 ^ 32) < 10 ^ 10"
    using pos_mod_bound [of "2 ^ 32" d] by (simp add: nat_less_iff)
  then show ?thesis unfolding print_uint_def by (rule dec_length_le [rotated]) simp
qed

lemma port_str_length: "length (port_str u) \<le> 6"
proof -
  have "unat (u_port u) < 2 ^ LENGTH(16)" by (rule unsigned_less)
  then have "unat (u_port u) < 10 ^ 5" by simp
  then have "length (dec (unat (u_port u))) \<le> 5" by (rule dec_length_le [rotated]) simp
  then show ?thesis by (simp add: port_str_def)
qed

lemma not_digit_punct:
  "\<not> is_digit CHR '' ''" "\<not> is_digit CHR '':''" "\<not> is_digit CHR ''/''" "\<not> is_digit NUL"
  by (simp_all add: is_digit_def NUL_def)

lemma url_read_parts:
  assumes h: "CHR '':'' \<notin> set h" and f: "at_nul f 0 = CHR ''/''"
    and d: "- (2 ^ 31) \<le> d" "d < 2 ^ 31"
    and r: "r = f \<or> (\<exists>c. r = f @ CHR '' '' # c)"
  shows "url_read uc (print_uint d @ '' '' @ h @ CHR '':'' # dec (unat p) @ r) =
     (let self = (url_init d)\<lparr>u_host := Some h, u_port := p\<rparr> in
      if \<not> uc then Some (self\<lparr>u_file := Some r\<rparr>)
      else (case strchr r CHR '' '' of
              None \<Rightarrow> Some (self\<lparr>u_file := Some r\<rparr>)
            | Some c \<Rightarrow>
                if length (drop 1 c) \<ge> maxCookieSize then None
                else Some (self\<lparr>u_file := Some (takeWhile (\<lambda>x. x \<noteq> CHR '' '') r),
                                u_cookie := Some (drop 1 c)\<rparr>)))"
proof -
  let ?t = "h @ CHR '':'' # dec (unat p) @ r"
  have r0: "at_nul r 0 = CHR ''/''" "\<not> is_digit (at_nul r 0)"
    using r f by (auto simp: at_nul_def NUL_def is_digit_def nth_append split: if_splits)
  have a: "after_digits (print_uint d @ '' '' @ ?t) = CHR '' '' # ?t"
    by (subst print_uint_digits) (simp_all add: at_nul_def not_digit_punct)
  have i: "read_int (print_uint d @ '' '' @ ?t) = d"
    by (rule read_int_print) (use d in \<open>simp_all add: at_nul_def not_digit_punct\<close>)
  have t: "takeWhile (\<lambda>c. c \<noteq> CHR '':'') ?t = h"
    using h by (subst takeWhile_append2) auto
  have p: "after_digits (dec (unat p) @ r) = r" "read_port (dec (unat p) @ r) = p"
    using digits_of_dec(2) [OF r0(2)] read_port_dec [OF r0(2)] by auto
  have e: "drop (Suc (length h)) ?t = dec (unat p) @ r" by (simp add: Suc_diff_le)
  have d1: "drop 1 (CHR '' '' # ?t) = ?t" by simp
  have c: "CHR '':'' \<in> set ?t" by simp
  show ?thesis
    unfolding url_read_def a i d1 Let_def t e p using c by simp
qed

lemma strchr_append: "c \<notin> set f \<Longrightarrow> c \<noteq> NUL \<Longrightarrow> strchr (f @ c # r) c = Some (c # r)"
  by (induction f) (auto simp: strchr_Cons)

definition cookie_fits :: "url \<Rightarrow> bool" where
  "cookie_fits u \<longleftrightarrow> (\<forall>c. u_cookie u = Some c \<longrightarrow> length c < maxCookieSize)"

lemma addCookie_frame:
  "u_host (addCookie x v) = u_host v" "u_file (addCookie x v) = u_file v"
  "cookie_fits v \<Longrightarrow> cookie_fits (addCookie x v)"
  by (auto simp: cookie_fits_def addCookie_def addToCookie_def Let_def maxCookieSize_def
      split: option.splits)

lemma addCookies_frame:
  "u_host (fold addCookie hs v) = u_host v \<and> u_file (fold addCookie hs v) = u_file v \<and>
   (cookie_fits v \<longrightarrow> cookie_fits (fold addCookie hs v))"
  by (induction hs arbitrary: v) (simp_all add: addCookie_frame)

lemma url_read_back:
  assumes host: "u_host u = Some h" "CHR '':'' \<notin> set h"
    and fil: "u_file u = Some f" "at_nul f 0 = CHR ''/''"
    and depth: "- (2 ^ 31) \<le> u_depth u" "u_depth u < 2 ^ 31"
    and fresh: "u_puny u = None" "u_addr u = 0"
    and cookie: "if useCookies
        then CHR '' '' \<notin> set f \<and> (\<forall>c. u_cookie u = Some c \<longrightarrow> length c < maxCookieSize)
        else u_cookie u = None"
  shows "url_read useCookies (butlast (serialize useCookies u)) = Some u"
proof -
  let ?r = "f @ (case (useCookies, u_cookie u) of (True, Some c) \<Rightarrow> CHR '' '' # c | _ \<Rightarrow> [])"
  have s: "butlast (serialize useCookies u) =
      print_uint (u_depth u) @ '' '' @ h @ CHR '':'' # dec (unat (u_port u)) @ ?r"
    by (simp add: serialize_def host fil host_str_def file_str_def port_str_def butlast_append)
  have r: "?r = f \<or> (\<exists>c. ?r = f @ CHR '' '' # c)" by (auto split: option.splits bool.splits)
  have u: "u = (url_init (u_depth u))\<lparr>u_host := Some h, u_port := u_port u, u_file := Some f,
      u_cookie := u_cookie u\<rparr>"
    using host(1) fil(1) fresh by (cases u) (simp add: url_init_def)
  have sp: "strchr f CHR '' '' = None" "strchr (f @ CHR '' '' # c) CHR '' '' = Some (CHR '' '' # c)"
    "takeWhile (\<lambda>x. x \<noteq> CHR '' '') (f @ CHR '' '' # c) = f" if "CHR '' '' \<notin> set f" for c
  proof -
    show "strchr f CHR '' '' = None" using that by (subst strchr_None) (simp_all add: NUL_def)
    show "strchr (f @ CHR '' '' # c) CHR '' '' = Some (CHR '' '' # c)"
      using that by (subst strchr_append) (simp_all add: NUL_def)
    show "takeWhile (\<lambda>x. x \<noteq> CHR '' '') (f @ CHR '' '' # c) = f"
      using that by (subst takeWhile_append2) auto
  qed
  show ?thesis
    unfolding s url_read_parts [OF host(2) fil(2) depth r]
    using cookie sp u
    by (cases useCookies; cases "u_cookie u") (auto simp: Let_def url_init_def)
qed

subsection \<open>Properties\<close>

text \<open>C24: On a path without percent signs and fragments \<open>fileNormalize\<close> is exactly path
  resolution: split at the slashes, empty and \<open>.\<close> segments dropped, \<open>..\<close> removing the name
  before it, refused when there is none.\<close>

theorem fileNormalize_resolves_path:
  assumes "plain s"
  shows "fileNormalize (CHR ''/'' # s) =
     (case resolve [] (segs s) of None \<Rightarrow> Rejected | Some ss \<Rightarrow> Normal (path_str ss))"
  using file_norm_resolve [OF assms, of "[]"] by (simp add: fileNormalize_def path_str_def)

theorem fileNormalize_resolves_path_witness:
  "fileNormalize ''/a/./b//../c/..'' = Normal ''/a/'' \<and> fileNormalize ''/a/../../b'' = Rejected"
  using fileNormalize_resolves_path [of "''a/./b//../c/..''"]
    fileNormalize_resolves_path [of "''a/../../b''"]
  by (simp_all add: plain_def path_str_def resolve.simps(2))

text \<open>What \<open>fileNormalize\<close> accepts among such paths is in normal form (every segment a
  name, the last one possibly empty), and normalising it again changes nothing.\<close>

theorem fileNormalize_idempotent:
  assumes "plain s" "fileNormalize (CHR ''/'' # s) = Normal f"
  shows "fileNormalize f = Normal f \<and> (\<exists>ss. f = path_str ss \<and> normal_path ss)"
  using normalize_plain [OF assms] by metis

theorem fileNormalize_idempotent_witness:
  "fileNormalize ''/b/'' = Normal ''/b/''"
proof -
  have "fileNormalize (CHR ''/'' # ''a/../b/.'') = Normal ''/b/''"
    by (simp add: fileNormalize_def file_norm.simps(2))
  from fileNormalize_idempotent [OF _ this] show ?thesis by (simp add: plain_def)
qed

text \<open>C23: For any name that starts with a slash, percent escapes and fragments included, the
  scans of \<open>fileNormalize\<close> for the slash before never leave the array; the result starts
  with a slash and is no longer than the name; \<open>normalize\<close> then makes it pure ASCII and at
  most three times as long.\<close>

theorem normalize_safe:
  assumes "at_nul file 0 = CHR ''/''"
  shows "fileNormalize file \<noteq> Underflow \<and> normalize file \<noteq> Underflow \<and>
    (\<forall>f. fileNormalize file = Normal f \<longrightarrow> at_nul f 0 = CHR ''/'' \<and> length f \<le> length file) \<and>
    (\<forall>f. normalize file = Normal f \<longrightarrow>
       at_nul f 0 = CHR ''/'' \<and> length f \<le> 3 * length file \<and> (\<forall>c \<in> set f. 0 \<le> schar c))"
proof -
  have enc: "length (encode_bytes f) \<le> 3 * length f" "\<forall>c \<in> set (encode_bytes f). 0 \<le> schar c"
    "at_nul f 0 = CHR ''/'' \<Longrightarrow> at_nul (encode_bytes f) 0 = CHR ''/''" for f
  proof -
    show "length (encode_bytes f) \<le> 3 * length f"
      by (induction f) (auto simp: encode_bytes_def setHexStr_def Let_def)
    show "\<forall>c \<in> set (encode_bytes f). 0 \<le> schar c"
    proof
      fix c assume "c \<in> set (encode_bytes f)"
      then have "\<exists>x. c \<in> set (if schar x < 0 then CHR ''%'' # setHexStr x else [x])"
        unfolding encode_bytes_def set_concat set_map by blast
      then obtain x where "c \<in> set (if schar x < 0 then CHR ''%'' # setHexStr x else [x])" ..
      moreover have "0 \<le> schar CHR ''%''" by (simp add: schar_def)
      ultimately show "0 \<le> schar c" using setHexStr_ascii [of x] by (auto split: if_splits)
    qed
    show "at_nul (encode_bytes f) 0 = CHR ''/''" if "at_nul f 0 = CHR ''/''"
      using that by (cases f) (auto simp: encode_bytes_def at_nul_def NUL_def schar_def)
  qed
  from fileNormalize_ok [OF assms] show ?thesis
  proof (cases "fileNormalize file")
    case (Normal f)
    with fileNormalize_ok [OF assms] have f: "at_nul f 0 = CHR ''/''" "length f \<le> length file"
      by (auto simp: norm_ok_def)
    have "length (encode_bytes f) \<le> 3 * length file" using enc(1) [of f] f(2) by linarith
    with Normal f enc(2,3) [of f] show ?thesis by (auto simp: normalize_def list_all_iff)
  qed (auto simp: norm_ok_def normalize_def)
qed

theorem normalize_safe_witness:
  "fileNormalize ''/a%2e/%20/../x#y'' \<noteq> Underflow"
  using normalize_safe [of "''/a%2e/%20/../x#y''"] by (simp add: at_nul_def)

text \<open>The percent decoder runs after the slash test, so escaped dots escape path
  resolution: the name that is kept still climbs, and normalising it again gives another
  file.\<close>

theorem fileNormalize_escaped_dots:
  "fileNormalize ''/a/%2e%2e/b'' = Normal ''/a/../b'' \<and> fileNormalize ''/a/../b'' = Normal ''/b''"
  by (simp add: fileNormalize_def file_norm.simps(2) at_nul_def hexToInt_def is_digit_def is_graph_def
      chr_def Let_def char_of_def bit_iff_odd)

text \<open>C22: A url that the persistent fifo writes with \<open>serialize\<close> is read back unchanged, its
  depth (also a negative one), port and cookies included.\<close>

theorem url_read_serialize:
  assumes host: "u_host u = Some h" "CHR '':'' \<notin> set h"
    and fil: "u_file u = Some f" "at_nul f 0 = CHR ''/''"
    and depth: "- (2 ^ 31) \<le> u_depth u" "u_depth u < 2 ^ 31"
    and fresh: "u_puny u = None" "u_addr u = 0"
    and cookie: "if useCookies
        then CHR '' '' \<notin> set f \<and> (\<forall>c. u_cookie u = Some c \<longrightarrow> length c < maxCookieSize)
        else u_cookie u = None"
  shows "url_read useCookies (butlast (serialize useCookies u)) = Some u"
  using assms by (rule url_read_back)

theorem url_read_serialize_witness:
  "url_read True (butlast (serialize True ((url_init (- 1))\<lparr>u_host := Some ''h'', u_port := 8080,
      u_file := Some ''/a'', u_cookie := Some ''k=v; l''\<rparr>))) =
   Some ((url_init (- 1))\<lparr>u_host := Some ''h'', u_port := 8080, u_file := Some ''/a'',
      u_cookie := Some ''k=v; l''\<rparr>)"
  by (rule url_read_serialize [of _ "''h''" "''/a''"])
    (simp_all add: url_init_def at_nul_def maxCookieSize_def)

text \<open>C34: Parsing what \<open>giveUrl\<close> or \<open>writeUrl\<close> prints gives the url back, from a page or from
  the input, provided its host is in lower case and its file is in the form \<open>normalize\<close>
  leaves.\<close>

theorem url_parse_giveUrl:
  assumes host: "u_host u = Some h" "h \<noteq> []" "map lowerCase h = h"
      "CHR '':'' \<notin> set h" "CHR ''/'' \<notin> set h"
    and fil: "u_file u = Some f" "at_nul f 0 = CHR ''/''" "normalize f = Normal f"
    and fresh: "u_puny u = None" "u_addr u = 0" "u_cookie u = None"
  shows "url_link (giveUrl u) (u_depth u) base = Some u \<and>
    url_line (fst (writeUrl u)) (u_depth u) = Some u"
proof -
  let ?arg = "h @ (if u_port u = 80 then [] else port_str u) @ f"
  have hp: "host_part ?arg = h"
  proof -
    have "takeWhile (\<lambda>c. c \<noteq> CHR ''/'' \<and> c \<noteq> CHR '':'') f = []"
      using fil(2) by (cases f) (auto simp: at_nul_def NUL_def)
    moreover have "\<And>r. takeWhile (\<lambda>c. c \<noteq> CHR ''/'' \<and> c \<noteq> CHR '':'') (h @ r) =
        h @ takeWhile (\<lambda>c. c \<noteq> CHR ''/'' \<and> c \<noteq> CHR '':'') r"
      using host(4,5) by (subst takeWhile_append2) auto
    ultimately show ?thesis by (simp add: host_part_def port_str_def)
  qed
  have p: "read_port (dec (unat (u_port u)) @ f) = u_port u"
    "after_digits (dec (unat (u_port u)) @ f) = f"
    using read_port_dec [of f "u_port u"] digits_of_dec(2) [of f "unat (u_port u)"] fil(2)
    by (auto simp: is_digit_def)
  have "parse ?arg (url_init (u_depth u)) =
      (url_init (u_depth u))\<lparr>u_host := Some h, u_port := u_port u, u_file := Some f\<rparr>"
    unfolding parse_def hp using host(2,3) fil(2) p
    by (auto simp: Let_def port_str_def at_nul_def url_init_def)
  also have "\<dots> = u" using host(1) fil(1) fresh by (cases u) (simp add: url_init_def)
  finally have pu: "parse ?arg (url_init (u_depth u)) = u" .
  have nu: "normalize_abs u = Some u"
    using fil by (cases u) (simp add: normalize_abs_def)
  have g: "giveUrl u = ''http://'' @ ?arg" "fst (writeUrl u) = ''http://'' @ ?arg"
    by (auto simp: giveUrl_def writeUrl_def host fil host_str_def file_str_def)
  show ?thesis
    unfolding g url_line_def url_link_def using pu nu by (simp add: Let_def)
qed


theorem url_parse_giveUrl_witness:
  "url_link (giveUrl ((url_init 3)\<lparr>u_host := Some ''h.org'', u_port := 8080, u_file := Some ''/a/b''\<rparr>))
     3 None = Some ((url_init 3)\<lparr>u_host := Some ''h.org'', u_port := 8080, u_file := Some ''/a/b''\<rparr>)"
proof -
  have n: "normalize ''/a/b'' = Normal ''/a/b''"
    by (simp add: normalize_def fileNormalize_def file_norm.simps(2) schar_def)
  show ?thesis
    using url_parse_giveUrl [of "(url_init 3)\<lparr>u_host := Some ''h.org'', u_port := 8080,
        u_file := Some ''/a/b''\<rparr>" "''h.org''" "''/a/b''" None] n
    by (simp add: url_init_def at_nul_def lowerCase_def is_upper_def)
qed

text \<open>A valid url, whatever \<open>Set-Cookie\<close> headers were added to it, fits every buffer it is
  printed into: \<open>writeUrl\<close>, \<open>giveUrl\<close>, \<open>getUrl\<close> and \<open>serialize\<close> (the terminator included),
  and its cookie fits the array that \<open>initOK\<close> and the reader copy it into.\<close>

theorem url_fits_buffers:
  assumes "isValid u0" "u_cookie u0 = None" "u = fold addCookie headers u0"
  shows "length (fst (writeUrl u)) < maxUrlSize \<and> snd (writeUrl u) = length (fst (writeUrl u)) \<and>
    length (giveUrl u) < 18 + length (file_str u) + length (host_str u) \<and>
    length (getUrl u) < maxUrlSize + 40 \<and>
    length (serialize useCookies u) < maxUrlSize + 40 + maxCookieSize \<and>
    (\<forall>c. u_cookie u = Some c \<longrightarrow> length c < maxCookieSize)"
proof -
  from addCookies_frame [of headers u0] assms(2,3) have s: "u_host u = u_host u0"
    "u_file u = u_file u0" "\<forall>c. u_cookie u = Some c \<longrightarrow> length c < maxCookieSize"
    by (simp_all add: cookie_fits_def)
  with assms(1) have b: "length (host_str u) < maxSiteSize"
    "length (host_str u) + length (file_str u) + 18 < maxUrlSize"
    by (auto simp: isValid_def host_str_def file_str_def split: option.splits)
  have "length (case (useCookies, u_cookie u) of (True, Some c) \<Rightarrow> CHR '' '' # c | _ \<Rightarrow> []) \<le> maxCookieSize"
    using s(3) by (auto split: option.splits bool.splits)
  then have "length (serialize useCookies u) < maxUrlSize + 40 + maxCookieSize"
    using b print_uint_length [of "u_depth u"] port_str_length [of u] by (simp add: serialize_def)
  with s b port_str_length [of u] show ?thesis
    by (auto simp: writeUrl_def giveUrl_def getUrl_def Let_def)
qed

theorem url_fits_buffers_witness:
  "length (getUrl (fold addCookie [''Set-Cookie: a=b; path=/'']
      ((url_init 3)\<lparr>u_host := Some ''h'', u_file := Some ''/''\<rparr>))) < maxUrlSize + 40"
proof -
  let ?u = "(url_init 3)\<lparr>u_host := Some ''h'', u_file := Some ''/''\<rparr>"
  have "isValid ?u" "u_cookie ?u = None" by (simp_all add: isValid_def url_init_def size_defs)
  from url_fits_buffers [OF this refl] show ?thesis by blast
qed

end
