(* ===== verification/SeenTable.thy ===== *)
theory SeenTable
  imports Url
begin

section \<open>The tables of seen urls and seen pages
  (src/fetch/hash_table.cxx, src/utils/hash_duplicate.cxx)\<close>

text \<open>
  Both tables are arrays of bytes used as bit sets, indexed by a hash code: \<open>hashTable\<close> by the
  hash of a url, \<open>hashDup\<close> by a hash of the letters of a page. The array is a function from
  indices to bytes (\<open>hashSize / 8\<close> and \<open>size / 8\<close> of them). Saving writes the array to a
  file, and the constructors read it back with as many calls of \<open>read\<close> as the system needs:
  the list \<open>ks\<close> says how many bytes each call is willing to return (all that was asked when
  the list is used up).
\<close>

type_synonym bytes = "nat \<Rightarrow> 8 word"

definition list_of_bytes :: "nat \<Rightarrow> bytes \<Rightarrow> 8 word list" where
  "list_of_bytes n t = map t [0..<n]"

definition bytes_of_list :: "8 word list \<Rightarrow> bytes" where
  "bytes_of_list l = (\<lambda>i. if i < length l then l ! i else 0)"

subsection \<open>Bits\<close>

definition test_bit :: "nat \<Rightarrow> bytes \<Rightarrow> bool" where
  "test_bit code t \<longleftrightarrow> t (code div 8) AND push_bit (code mod 8) 1 \<noteq> 0"

definition set_bit_at :: "nat \<Rightarrow> bytes \<Rightarrow> bytes" where
  "set_bit_at code t = t(code div 8 := t (code div 8) OR push_bit (code mod 8) 1)"

lemma and_push_bit_iff: "n < 8 \<Longrightarrow> (w :: 8 word) AND push_bit n 1 \<noteq> 0 \<longleftrightarrow> bit w n"
proof -
  assume n: "n < 8"
  have "w AND push_bit n 1 = (if bit w n then push_bit n 1 else 0)"
    using n by (intro bit_word_eqI) (auto simp: bit_simps)
  moreover have "(push_bit n 1 :: 8 word) \<noteq> 0"
  proof -
    have "bit (push_bit n 1 :: 8 word) n" using n by (simp add: bit_simps)
    then show ?thesis using n by auto
  qed
  ultimately show ?thesis by simp
qed

lemma test_bit_iff: "test_bit code t \<longleftrightarrow> bit (t (code div 8)) (code mod 8)"
  unfolding test_bit_def by (rule and_push_bit_iff) simp

lemma test_set_bit: "test_bit c (set_bit_at code t) \<longleftrightarrow> test_bit c t \<or> c = code"
proof -
  have "c = code \<longleftrightarrow> c div 8 = code div 8 \<and> c mod 8 = code mod 8"
    by (metis div_mult_mod_eq)
  then show ?thesis by (auto simp: test_bit_iff set_bit_at_def bit_simps)
qed

subsection \<open>hashTable\<close>

definition hashTable_empty :: bytes where
  "hashTable_empty = (\<lambda>_. 0)"

definition hashTable_test :: "url \<Rightarrow> bytes \<Rightarrow> bool" where
  "hashTable_test u t = test_bit (hashCode u) t"

definition hashTable_set :: "url \<Rightarrow> bytes \<Rightarrow> bytes" where
  "hashTable_set u t = set_bit_at (hashCode u) t"

definition hashTable_testSet :: "url \<Rightarrow> bytes \<Rightarrow> bool \<times> bytes" where
  "hashTable_testSet u t = (\<not> test_bit (hashCode u) t, set_bit_at (hashCode u) t)"

datatype load_result = Loaded "8 word list" | Load_error | Overrun

text \<open>How many bytes a call of \<open>read\<close> that asks for \<open>want\<close> may return.\<close>

definition read_limit :: "nat list \<Rightarrow> nat \<Rightarrow> nat" where
  "read_limit ks want = (case ks of [] \<Rightarrow> want | k # _ \<Rightarrow> min k want)"

function hashTable_load :: "nat \<Rightarrow> 8 word list \<Rightarrow> nat list \<Rightarrow> 8 word list \<Rightarrow> load_result" where
  "hashTable_load len f ks acc =
     (if length acc < len then
        (let d = take (read_limit ks (len - length acc)) f in
         if d = [] then Load_error
         else hashTable_load len (drop (length d) f) (tl ks) (acc @ d))
      else Loaded acc)"
  by pat_completeness auto

termination
  by (relation "measure (\<lambda>(len, f, ks, acc). length f)") auto

declare hashTable_load.simps [simp del]

definition hashTable_save :: "bytes \<Rightarrow> 8 word list" where
  "hashTable_save t = list_of_bytes (hashSize div 8) t"

text \<open>The constructor: from scratch, or from the file when there is one.\<close>

definition hashTable_new :: "bool \<Rightarrow> 8 word list option \<Rightarrow> nat list \<Rightarrow> load_result" where
  "hashTable_new create hashFile ks =
     (let len = hashSize div 8 in
      if create then Loaded (replicate len 0)
      else (case hashFile of
              None \<Rightarrow> Loaded (replicate len 0)
            | Some f \<Rightarrow> hashTable_load len f ks []))"

subsection \<open>hashDup\<close>

text \<open>The hash of a page, up to its first NUL; the terminator ends it.\<close>

definition dup_step :: "nat \<Rightarrow> nat \<Rightarrow> char \<Rightarrow> nat" where
  "dup_step sz code c = (if 65 < cc c \<and> cc c < 122 then (code * 23 + cc c) mod sz else code)"

definition dup_code :: "nat \<Rightarrow> string \<Rightarrow> nat" where
  "dup_code sz doc = foldl (dup_step sz) 0 (takeWhile (\<lambda>c. c \<noteq> NUL) doc)"

definition hashDup_testSet :: "nat \<Rightarrow> string \<Rightarrow> bytes \<Rightarrow> bool \<times> bytes" where
  "hashDup_testSet sz doc t =
     (let code = dup_code sz doc in (\<not> test_bit code t, set_bit_at code t))"

definition hashDup_save :: "nat \<Rightarrow> bytes \<Rightarrow> 8 word list" where
  "hashDup_save sz t = list_of_bytes (sz div 8) t"

text \<open>The loop of the constructor asks for \<open>size - sr\<close> bytes at \<open>table + sr\<close>, and counts eight
  for each byte read.\<close>

function hashDup_load :: "nat \<Rightarrow> 8 word list \<Rightarrow> nat list \<Rightarrow> 8 word list \<Rightarrow> nat \<Rightarrow> load_result" where
  "hashDup_load sz f ks tab sr =
     (if sr < sz then
        (let d = take (read_limit ks (sz - sr)) f in
         if d = [] then Load_error
         else if sr + length d > length tab then Overrun
         else hashDup_load sz (drop (length d) f) (tl ks)
                (take sr tab @ d @ drop (sr + length d) tab) (sr + 8 * length d))
      else Loaded tab)"
  by pat_completeness auto

termination
  by (relation "measure (\<lambda>(sz, f, ks, tab, sr). length f)") auto

declare hashDup_load.simps [simp del]

text \<open>\<open>tab\<close> is what \<open>new char[size / 8]\<close> happens to hold.\<close>

definition hashDup_new ::
    "nat \<Rightarrow> 8 word list option \<Rightarrow> bool \<Rightarrow> nat list \<Rightarrow> 8 word list \<Rightarrow> load_result" where
  "hashDup_new sz initf scratch ks tab =
     (if scratch then Loaded (replicate (sz div 8) 0)
      else (case initf of
              None \<Rightarrow> Loaded (replicate (sz div 8) 0)
            | Some f \<Rightarrow> hashDup_load sz f ks tab 0))"

subsection \<open>The contract of a table of seen things\<close>

fun test_all :: "('k \<Rightarrow> 't \<Rightarrow> bool \<times> 't) \<Rightarrow> 'k list \<Rightarrow> 't \<Rightarrow> bool list \<times> 't" where
  "test_all f [] t = ([], t)"
| "test_all f (k # ks) t =
     (let (b, t1) = f k t; (bs, t2) = test_all f ks t1 in (b # bs, t2))"

locale seen_table =
  fixes testSet :: "'k \<Rightarrow> 't \<Rightarrow> bool \<times> 't"
    and mem :: "nat \<Rightarrow> 't \<Rightarrow> bool"
    and code :: "'k \<Rightarrow> nat"
  assumes test_new: "fst (testSet k t) \<longleftrightarrow> \<not> mem (code k) t"
    and set_mem: "mem c (snd (testSet k t)) \<longleftrightarrow> mem c t \<or> c = code k"
begin

lemma test_all_mem:
  "mem c (snd (test_all testSet ks t)) \<longleftrightarrow> mem c t \<or> c \<in> code ` set ks"
proof (induction ks arbitrary: t)
  case (Cons k ks)
  then show ?case by (auto simp: set_mem split_beta Let_def)
qed simp

lemma test_all_flags:
  "fst (test_all testSet ks t) =
   map (\<lambda>i. \<not> mem (code (ks ! i)) t \<and> code (ks ! i) \<notin> code ` set (take i ks)) [0..<length ks]"
proof (induction ks arbitrary: t)
  case (Cons k ks)
  have "[0..<length (k # ks)] = 0 # map Suc [0..<length ks]"
    by (simp only: map_Suc_upt length_Cons upt_conv_Cons zero_less_Suc)
  then show ?case
    using Cons by (auto simp: split_beta Let_def test_new set_mem)
qed simp

text \<open>From an empty table: something is reported new exactly at its first occurrence.\<close>

lemma first_occurrence:
  assumes "\<forall>c. \<not> mem c t"
  shows "fst (test_all testSet ks t) =
    map (\<lambda>i. code (ks ! i) \<notin> code ` set (take i ks)) [0..<length ks]"
  using assms by (simp add: test_all_flags)

end

interpretation urls: seen_table hashTable_testSet test_bit hashCode
  by unfold_locales (auto simp: hashTable_testSet_def test_set_bit)

interpretation pages: seen_table "hashDup_testSet sz" test_bit "dup_code sz" for sz
  by unfold_locales (auto simp: hashDup_testSet_def Let_def test_set_bit)

subsection \<open>Loading\<close>

lemma read_limit_le: "read_limit ks want \<le> want"
  by (auto simp: read_limit_def split: list.splits)

lemma read_limit_pos: "0 \<notin> set ks \<Longrightarrow> 0 < want \<Longrightarrow> 0 < read_limit ks want"
  by (auto simp: read_limit_def split: list.splits)

lemma hashTable_load_all:
  "0 \<notin> set ks \<Longrightarrow> len \<le> length acc + length f \<Longrightarrow> length acc \<le> len \<Longrightarrow>
   hashTable_load len f ks acc = Loaded (take len (acc @ f))"
proof (induction len f ks acc rule: hashTable_load.induct)
  case (1 len f ks acc)
  show ?case
  proof (cases "length acc < len")
    case True
    let ?n = "read_limit ks (len - length acc)"
    let ?d = "take ?n f"
    have n: "0 < ?n" "?n \<le> len - length acc"
      using read_limit_pos [OF 1(2)] read_limit_le True by auto
    have d: "?d \<noteq> []" "acc @ f = (acc @ ?d) @ drop (length ?d) f"
      using n 1(3) True by (auto simp: min_def)
    have "0 \<notin> set (tl ks)" using 1(2) by (metis list.sel(2) list.set_sel(2))
    then have "hashTable_load len (drop (length ?d) f) (tl ks) (acc @ ?d) =
        Loaded (take len ((acc @ ?d) @ drop (length ?d) f))"
      using n 1(3,4) by (intro 1(1) [OF True refl d(1)]) auto
    with True d show ?thesis by (subst hashTable_load.simps) (simp add: Let_def)
  next
    case False
    with 1(4) show ?thesis by (subst hashTable_load.simps) simp
  qed
qed

lemma bytes_list_id: "bytes_of_list (list_of_bytes n t) i = (if i < n then t i else 0)"
  by (simp add: bytes_of_list_def list_of_bytes_def)

lemma hashCode_less: "hashCode u < hashSize"
  by (simp add: hashCode_def hashSize_def)

subsection \<open>Properties\<close>

text \<open>Over any sequence of urls, a fresh \<open>hashTable\<close> reports a url as new exactly when no
  earlier url had its hash code, and the byte that it touches lies in the array.\<close>

theorem hashTable_first_occurrence:
  "fst (test_all hashTable_testSet us hashTable_empty) =
     map (\<lambda>i. hashCode (us ! i) \<notin> hashCode ` set (take i us)) [0..<length us] \<and>
   (\<forall>u. hashCode u div 8 < hashSize div 8)"
proof
  show "fst (test_all hashTable_testSet us hashTable_empty) =
     map (\<lambda>i. hashCode (us ! i) \<notin> hashCode ` set (take i us)) [0..<length us]"
    by (rule urls.first_occurrence) (simp add: test_bit_iff hashTable_empty_def)
  show "\<forall>u. hashCode u div 8 < hashSize div 8"
    using hashCode_less by (simp add: hashSize_def less_mult_imp_div_less)
qed

text \<open>A saved \<open>hashTable\<close> is reloaded exactly, however the system cuts the file into
  reads: every url tests the same in the reloaded table.\<close>

theorem hashTable_save_reload:
  assumes "0 \<notin> set ks"
  shows "\<exists>l. hashTable_new False (Some (hashTable_save t)) ks = Loaded l \<and>
           length l = hashSize div 8 \<and>
           (\<forall>u. hashTable_test u (bytes_of_list l) = hashTable_test u t)"
proof (intro exI conjI allI)
  let ?l = "list_of_bytes (hashSize div 8) t"
  have "hashTable_load (hashSize div 8) ?l ks [] = Loaded (take (hashSize div 8) ([] @ ?l))"
    by (rule hashTable_load_all [OF assms]) (simp_all add: list_of_bytes_def)
  then show "hashTable_new False (Some (hashTable_save t)) ks = Loaded ?l"
    by (simp add: hashTable_new_def hashTable_save_def Let_def list_of_bytes_def)
  show "length ?l = hashSize div 8" by (simp add: list_of_bytes_def)
  fix u
  have "hashCode u div 8 < hashSize div 8"
    using hashCode_less [of u] by (simp add: hashSize_def less_mult_imp_div_less)
  then show "hashTable_test u (bytes_of_list ?l) = hashTable_test u t"
    by (simp add: hashTable_test_def test_bit_iff bytes_list_id)
qed

theorem hashTable_save_reload_witness:
  "\<exists>l. hashTable_new False (Some (hashTable_save (\<lambda>_. 5))) [1, 512] = Loaded l \<and>
     length l = hashSize div 8 \<and>
     (\<forall>u. hashTable_test u (bytes_of_list l) = hashTable_test u (\<lambda>_. 5))"
  by (rule hashTable_save_reload) simp

text \<open>Over any sequence of pages, a fresh \<open>hashDup\<close> reports a page as new exactly when no
  earlier page had the same hash; the hash reads only the bytes strictly between \<open>A\<close> and
  \<open>z\<close>, so pages that differ elsewhere are duplicates.\<close>

theorem hashDup_first_occurrence:
  "fst (test_all (hashDup_testSet sz) docs (\<lambda>_. 0)) =
     map (\<lambda>i. dup_code sz (docs ! i) \<notin> dup_code sz ` set (take i docs)) [0..<length docs] \<and>
   dup_code sz doc = dup_code sz (filter (\<lambda>c. 65 < cc c \<and> cc c < 122) (takeWhile (\<lambda>c. c \<noteq> NUL) doc))"
proof
  show "fst (test_all (hashDup_testSet sz) docs (\<lambda>_. 0)) =
     map (\<lambda>i. dup_code sz (docs ! i) \<notin> dup_code sz ` set (take i docs)) [0..<length docs]"
    by (rule pages.first_occurrence) (simp add: test_bit_iff)
  have "foldl (dup_step sz) n (filter (\<lambda>c. 65 < cc c \<and> cc c < 122) s) = foldl (dup_step sz) n s" for n s
    by (induction s arbitrary: n) (auto simp: dup_step_def)
  moreover have "takeWhile (\<lambda>c. c \<noteq> NUL) (filter (\<lambda>c. 65 < cc c \<and> cc c < 122) s) =
      filter (\<lambda>c. 65 < cc c \<and> cc c < 122) s" for s
    by (induction s) (auto simp: NUL_def)
  ultimately show "dup_code sz doc =
      dup_code sz (filter (\<lambda>c. 65 < cc c \<and> cc c < 122) (takeWhile (\<lambda>c. c \<noteq> NUL) doc))"
    unfolding dup_code_def by metis
qed

text \<open>Reloading \<open>hashDup\<close> works only when the first \<open>read\<close> returns the whole file: the
  offset is counted in bits, so a shorter first read is followed by a write outside the
  array.\<close>

theorem hashDup_reload_one_read:
  assumes "sz = 8 * n" and "length f = n" and "length tab = n" and "0 < n"
    and "0 < k" and "k < n"
  shows "hashDup_new sz (Some f) False [] tab = Loaded f \<and>
         hashDup_new sz (Some f) False [k] tab = Overrun"
proof
  have "take sz f = f" "f \<noteq> []" using assms by auto
  then show "hashDup_new sz (Some f) False [] tab = Loaded f"
    using assms by (simp add: hashDup_new_def hashDup_load.simps Let_def read_limit_def)
  have f: "drop k f \<noteq> []" "length (take k f) = k" "length (drop k f) = n - k" using assms by auto
  have "take (sz - 8 * k) (drop k f) = drop k f" using assms by auto
  then have "hashDup_load sz (drop k f) [] tab' (8 * k) = Overrun" if "length tab' = n" for tab'
    using that assms f by (simp add: hashDup_load.simps Let_def read_limit_def)
  moreover have "length (take k f @ drop k tab) = n" using assms by simp
  ultimately show "hashDup_new sz (Some f) False [k] tab = Overrun"
    using assms f \<open>f \<noteq> []\<close>
    by (subst hashDup_new_def, subst hashDup_load.simps) (simp add: Let_def read_limit_def)
qed

theorem hashDup_reload_one_read_witness:
  "hashDup_new 16 (Some [1, 2]) False [1] [0, 0] = Overrun"
  using hashDup_reload_one_read [of 16 2 "[1, 2]" "[0, 0]" 1] by simp

end
