(* ===== verification/Fifos.thy ===== *)
theory Fifos
  imports Larbin_Prelude
begin

section \<open>The queues in memory (fifo.h, sync_fifo.h, constant_fifo.h) and Interval\<close>

text \<open>
  Three circular arrays: \<open>Fifo\<close> (grows, one thread), \<open>SyncFifo\<close> (grows, locks) and
  \<open>ConstantSizedFifo\<close> (never grows). The build (options.h) leaves THREAD_OUTPUT undefined, so
  the lock and wait macros of thread.h are no-ops and the operations are the sequential
  bodies. An array cell is \<open>None\<close> until it is written: \<open>new T*[size]\<close> does not initialise.
  Indices are \<open>nat\<close>: they stay below the array size, which doubles and would need 2^31
  pointers before \<open>uint\<close> wraps. A failed \<open>assert\<close> is the value \<open>None\<close>.

  The locale \<open>bounded_fifo\<close> is the contract that the crawler relies on: put appends when there
  is room, tryGet takes from the front, getLength counts. It is interpreted on the three
  classes here and on the array of a NamedSite in the theory Site.
\<close>

record 'a ring =
  r_in :: nat
  r_out :: nat
  r_size :: nat
  r_tab :: "'a option list"

subsection \<open>Fifo\<close>

definition Fifo_new :: "nat \<Rightarrow> 'a ring" where
  "Fifo_new sz = \<lparr>r_in = 0, r_out = 0, r_size = sz, r_tab = replicate sz None\<rparr>"

definition Fifo_isEmpty :: "'a ring \<Rightarrow> bool" where
  "Fifo_isEmpty q \<longleftrightarrow> r_in q = r_out q"

definition Fifo_tryRead :: "'a ring \<Rightarrow> 'a option" where
  "Fifo_tryRead q = (if r_in q = r_out q then None else r_tab q ! r_out q)"

definition Fifo_get :: "'a ring \<Rightarrow> ('a option \<times> 'a ring) option" where
  "Fifo_get q =
     (if r_in q = r_out q then None
      else Some (r_tab q ! r_out q, q\<lparr>r_out := (r_out q + 1) mod r_size q\<rparr>))"

definition Fifo_tryGet :: "'a ring \<Rightarrow> 'a option \<times> 'a ring" where
  "Fifo_tryGet q =
     (if r_in q \<noteq> r_out q
      then (r_tab q ! r_out q, q\<lparr>r_out := (r_out q + 1) mod r_size q\<rparr>)
      else (None, q))"

text \<open>The two copy loops of a growing put: the cells from \<open>out\<close> keep their place, those before
  \<open>in\<close> move behind them.\<close>

definition ring_grow :: "'a ring \<Rightarrow> 'a ring" where
  "ring_grow q =
     \<lparr>r_in = r_in q + r_size q, r_out = r_out q, r_size = 2 * r_size q,
      r_tab = map (\<lambda>i. if r_out q \<le> i \<and> i < r_size q then r_tab q ! i
                       else if r_size q \<le> i \<and> i < r_size q + r_in q
                         then r_tab q ! (i - r_size q)
                       else None) [0..<2 * r_size q]\<rparr>"

definition Fifo_put :: "'a \<Rightarrow> 'a ring \<Rightarrow> 'a ring" where
  "Fifo_put x q =
     (let q1 = q\<lparr>r_tab := (r_tab q)[r_in q := Some x], r_in := (r_in q + 1) mod r_size q\<rparr>
      in if r_in q1 = r_out q1 then ring_grow q1 else q1)"

definition Fifo_rePut :: "'a \<Rightarrow> 'a ring \<Rightarrow> 'a ring" where
  "Fifo_rePut x q =
     (let o' = (r_out q + r_size q - 1) mod r_size q
      in q\<lparr>r_out := o', r_tab := (r_tab q)[o' := Some x]\<rparr>)"

definition Fifo_getLength :: "'a ring \<Rightarrow> nat" where
  "Fifo_getLength q = (r_in q + r_size q - r_out q) mod r_size q"

subsection \<open>SyncFifo\<close>

definition SyncFifo_new :: "nat \<Rightarrow> 'a ring" where
  "SyncFifo_new sz = \<lparr>r_in = 0, r_out = 0, r_size = sz, r_tab = replicate sz None\<rparr>"

text \<open>\<open>get\<close> has no test of its own: without threads the wait is a no-op.\<close>

definition SyncFifo_get :: "'a ring \<Rightarrow> 'a option \<times> 'a ring" where
  "SyncFifo_get q = (r_tab q ! r_out q, q\<lparr>r_out := (r_out q + 1) mod r_size q\<rparr>)"

definition SyncFifo_tryGet :: "'a ring \<Rightarrow> 'a option \<times> 'a ring" where
  "SyncFifo_tryGet q =
     (if r_in q \<noteq> r_out q
      then (r_tab q ! r_out q, q\<lparr>r_out := (r_out q + 1) mod r_size q\<rparr>)
      else (None, q))"

definition SyncFifo_put :: "'a \<Rightarrow> 'a ring \<Rightarrow> 'a ring" where
  "SyncFifo_put x q =
     (let q1 = q\<lparr>r_tab := (r_tab q)[r_in q := Some x], r_in := (r_in q + 1) mod r_size q\<rparr>
      in if r_in q1 = r_out q1 then ring_grow q1 else q1)"

definition SyncFifo_getLength :: "'a ring \<Rightarrow> nat" where
  "SyncFifo_getLength q = (r_in q + r_size q - r_out q) mod r_size q"

subsection \<open>ConstantSizedFifo\<close>

definition ConstFifo_new :: "nat \<Rightarrow> 'a ring" where
  "ConstFifo_new sz =
     \<lparr>r_in = 0, r_out = 0, r_size = sz + 1, r_tab = replicate (sz + 1) None\<rparr>"

definition ConstFifo_get :: "'a ring \<Rightarrow> 'a option \<times> 'a ring" where
  "ConstFifo_get q = (r_tab q ! r_out q, q\<lparr>r_out := (r_out q + 1) mod r_size q\<rparr>)"

definition ConstFifo_tryGet :: "'a ring \<Rightarrow> 'a option \<times> 'a ring" where
  "ConstFifo_tryGet q =
     (if r_in q \<noteq> r_out q
      then (r_tab q ! r_out q, q\<lparr>r_out := (r_out q + 1) mod r_size q\<rparr>)
      else (None, q))"

definition ConstFifo_put :: "'a \<Rightarrow> 'a ring \<Rightarrow> 'a ring option" where
  "ConstFifo_put x q =
     (let q1 = q\<lparr>r_tab := (r_tab q)[r_in q := Some x], r_in := (r_in q + 1) mod r_size q\<rparr>
      in if r_in q1 \<noteq> r_out q1 then Some q1 else None)"

definition ConstFifo_getLength :: "'a ring \<Rightarrow> nat" where
  "ConstFifo_getLength q = (r_in q + r_size q - r_out q) mod r_size q"

definition ConstFifo_isNonEmpty :: "'a ring \<Rightarrow> bool" where
  "ConstFifo_isNonEmpty q \<longleftrightarrow> r_in q \<noteq> r_out q"

subsection \<open>What a circular array holds\<close>

definition ring_count :: "'a ring \<Rightarrow> nat" where
  "ring_count q = (r_in q + r_size q - r_out q) mod r_size q"

definition ring_cells :: "'a ring \<Rightarrow> 'a option list" where
  "ring_cells q = map (\<lambda>k. r_tab q ! ((r_out q + k) mod r_size q)) [0..<ring_count q]"

definition ring_items :: "'a ring \<Rightarrow> 'a list" where
  "ring_items q = map the (ring_cells q)"

definition ring_inv :: "'a ring \<Rightarrow> bool" where
  "ring_inv q \<longleftrightarrow>
     r_in q < r_size q \<and> r_out q < r_size q \<and> length (r_tab q) = r_size q \<and>
     (\<forall>c \<in> set (ring_cells q). c \<noteq> None)"

lemma ring_mod: "a < s \<Longrightarrow> k < s \<Longrightarrow> (a + k) mod s = (if a + k < s then a + k else a + k - s)"
  for a k s :: nat
  by (simp add: mod_if)

lemma ring_count_eq:
  "r_in q < r_size q \<Longrightarrow> r_out q < r_size q \<Longrightarrow>
   ring_count q = (if r_out q \<le> r_in q then r_in q - r_out q
                   else r_in q + r_size q - r_out q)"
  by (simp add: ring_count_def mod_if)

lemma ring_cells_nth:
  "k < ring_count q \<Longrightarrow> ring_cells q ! k = r_tab q ! ((r_out q + k) mod r_size q)"
  by (simp add: ring_cells_def)

lemma ring_cells_length [simp]: "length (ring_cells q) = ring_count q"
  by (simp add: ring_cells_def)

lemma ring_cells_items: "ring_inv q \<Longrightarrow> ring_cells q = map Some (ring_items q)"
  by (auto simp: ring_items_def ring_inv_def map_idI)

lemma ring_invI:
  "r_in q < r_size q \<Longrightarrow> r_out q < r_size q \<Longrightarrow> length (r_tab q) = r_size q \<Longrightarrow>
   ring_cells q = map Some xs \<Longrightarrow> ring_inv q \<and> ring_items q = xs"
  by (auto simp: ring_inv_def ring_items_def comp_def)

text \<open>The three steps that the operations are made of: store at \<open>in\<close>, grow, and take at
  \<open>out\<close>.\<close>

lemma ring_store_cells:
  fixes q x
  defines "q1 \<equiv> q\<lparr>r_tab := (r_tab q)[r_in q := Some x], r_in := (r_in q + 1) mod r_size q\<rparr>"
  assumes inv: "ring_inv q" and room: "ring_count q + 1 < r_size q"
  shows "r_in q1 \<noteq> r_out q1 \<and> ring_inv q1 \<and> ring_items q1 = ring_items q @ [x]"
proof -
  from inv have b: "r_in q < r_size q" "r_out q < r_size q" "length (r_tab q) = r_size q"
    by (auto simp: ring_inv_def)
  have n: "ring_count q1 = ring_count q + 1" "r_in q1 \<noteq> r_out q1" "r_in q1 < r_size q1"
    using b room by (auto simp: ring_count_eq q1_def mod_if split: if_splits)
  have "ring_cells q1 = ring_cells q @ [Some x]"
  proof (rule nth_equalityI)
    show "length (ring_cells q1) = length (ring_cells q @ [Some x])" using n by simp
  next
    fix k assume "k < length (ring_cells q1)"
    then have k: "k < ring_count q + 1" using n by simp
    have c: "ring_count q < r_size q" using b by (auto simp: ring_count_def)
    have ri: "r_in q = (r_out q + ring_count q) mod r_size q"
      using b by (auto simp: ring_count_eq ring_mod split: if_splits)
    show "ring_cells q1 ! k = (ring_cells q @ [Some x]) ! k"
    proof (cases "k < ring_count q")
      case True
      then have "(r_out q + k) mod r_size q \<noteq> r_in q"
        using b c by (auto simp: ring_mod ri split: if_splits)
      with True n show ?thesis
        by (simp add: ring_cells_nth nth_append) (simp add: q1_def)
    next
      case False
      with k have "k = ring_count q" by simp
      with n b show ?thesis
        by (simp add: ring_cells_nth nth_append) (simp add: q1_def flip: ri)
    qed
  qed
  then have "ring_cells q1 = map Some (ring_items q @ [x])"
    by (simp add: ring_cells_items [OF inv])
  from ring_invI [OF _ _ _ this] n b show ?thesis by (auto simp: q1_def)
qed

lemma ring_store_grow:
  fixes q x
  defines "q1 \<equiv> q\<lparr>r_tab := (r_tab q)[r_in q := Some x], r_in := (r_in q + 1) mod r_size q\<rparr>"
  assumes inv: "ring_inv q" and full: "ring_count q + 1 = r_size q"
  shows "r_in q1 = r_out q1 \<and> ring_inv (ring_grow q1) \<and>
         ring_items (ring_grow q1) = ring_items q @ [x]"
proof -
  from inv have b: "r_in q < r_size q" "r_out q < r_size q" "length (r_tab q) = r_size q"
    by (auto simp: ring_inv_def)
  have io: "r_in q1 = r_out q1" "r_size q1 = r_size q" "r_out q1 = r_out q"
    using b full by (auto simp: ring_count_eq q1_def mod_if split: if_splits)
  let ?g = "ring_grow q1"
  have g: "r_in ?g = r_out q + r_size q" "r_out ?g = r_out q" "r_size ?g = 2 * r_size q"
    using io by (auto simp: ring_grow_def)
  have cg: "ring_count ?g = r_size q"
    using b g by (simp add: ring_count_eq)
  have ri: "r_in q = (r_out q + ring_count q) mod r_size q"
    using b by (auto simp: ring_count_eq ring_mod split: if_splits)
  have "ring_cells ?g = ring_cells q @ [Some x]"
  proof (rule nth_equalityI)
    show "length (ring_cells ?g) = length (ring_cells q @ [Some x])" using cg full by simp
  next
    fix k assume "k < length (ring_cells ?g)"
    then have k: "k < r_size q" using cg by simp
    have "ring_cells ?g ! k = r_tab ?g ! (r_out q + k)"
      using k cg g b by (simp add: ring_cells_nth)
    also have "\<dots> = r_tab q1 ! ((r_out q + k) mod r_size q)"
      using k b io by (auto simp: ring_grow_def ring_mod)
    also have "\<dots> = (ring_cells q @ [Some x]) ! k"
    proof (cases "k < ring_count q")
      case True
      then have "(r_out q + k) mod r_size q \<noteq> r_in q"
        using b k full by (auto simp: ring_mod ri split: if_splits)
      with True show ?thesis
        by (simp add: ring_cells_nth nth_append) (simp add: q1_def)
    next
      case False
      with k full have "k = ring_count q" by simp
      with b show ?thesis
        by (simp add: ring_cells_nth nth_append) (simp add: q1_def flip: ri)
    qed
    finally show "ring_cells ?g ! k = (ring_cells q @ [Some x]) ! k" .
  qed
  then have "ring_cells ?g = map Some (ring_items q @ [x])"
    by (simp add: ring_cells_items [OF inv])
  from ring_invI [OF _ _ _ this] g b io show ?thesis by (auto simp: ring_grow_def)
qed

lemma ring_take:
  assumes inv: "ring_inv q" and ne: "r_in q \<noteq> r_out q"
  shows "\<exists>x xs. ring_items q = x # xs \<and> r_tab q ! r_out q = Some x \<and>
           ring_inv (q\<lparr>r_out := (r_out q + 1) mod r_size q\<rparr>) \<and>
           ring_items (q\<lparr>r_out := (r_out q + 1) mod r_size q\<rparr>) = xs"
proof -
  let ?q = "q\<lparr>r_out := (r_out q + 1) mod r_size q\<rparr>"
  from inv have b: "r_in q < r_size q" "r_out q < r_size q" "length (r_tab q) = r_size q"
    by (auto simp: ring_inv_def)
  have n: "ring_count q = Suc (ring_count ?q)" "r_out ?q < r_size ?q"
    using b ne by (auto simp: ring_count_eq mod_if split: if_splits)
  have c: "ring_count q < r_size q" using b by (auto simp: ring_count_def)
  have "ring_cells q = r_tab q ! r_out q # ring_cells ?q"
  proof (rule nth_equalityI)
    show "length (ring_cells q) = length (r_tab q ! r_out q # ring_cells ?q)" using n by simp
  next
    fix k assume k: "k < length (ring_cells q)"
    show "ring_cells q ! k = (r_tab q ! r_out q # ring_cells ?q) ! k"
    proof (cases k)
      case 0
      with k b show ?thesis by (simp add: ring_cells_nth)
    next
      case (Suc j)
      then have "j < ring_count ?q" using k n by simp
      with Suc k b c show ?thesis
        by (simp add: ring_cells_nth mod_Suc_eq flip: add_Suc_right)
          (simp add: mod_add_left_eq flip: add_Suc)
    qed
  qed
  moreover obtain x xs where xs: "ring_items q = x # xs"
    using n by (cases "ring_items q") (auto simp: ring_items_def simp flip: length_0_conv)
  ultimately have "r_tab q ! r_out q = Some x" "ring_cells ?q = map Some xs"
    using ring_cells_items [OF inv] by auto
  with ring_invI [OF _ _ _ this(2)] xs b n show ?thesis by auto
qed

lemma ring_items_empty: "ring_inv q \<Longrightarrow> ring_items q = [] \<longleftrightarrow> r_in q = r_out q"
  by (auto simp: ring_items_def ring_cells_def ring_inv_def ring_count_eq split: if_splits)

lemma ring_items_length: "length (ring_items q) = ring_count q"
  by (simp add: ring_items_def)

subsection \<open>The contract\<close>

fun put_all :: "('a \<Rightarrow> 'q \<Rightarrow> 'q option) \<Rightarrow> 'a list \<Rightarrow> 'q \<Rightarrow> 'q option" where
  "put_all put [] q = Some q"
| "put_all put (x # xs) q = (case put x q of None \<Rightarrow> None | Some q' \<Rightarrow> put_all put xs q')"

fun drain :: "('q \<Rightarrow> ('a option \<times> 'q) option) \<Rightarrow> nat \<Rightarrow> 'q \<Rightarrow> 'a option list option" where
  "drain tryGet 0 q = Some []"
| "drain tryGet (Suc n) q =
     (case tryGet q of
        None \<Rightarrow> None
      | Some (x, q') \<Rightarrow> map_option (\<lambda>xs. x # xs) (drain tryGet n q'))"

text \<open>\<open>ok\<close> says which objects may be put; a result \<open>None\<close> is a failed assertion or a run
  that does not end. The in-memory queues take every object and their \<open>tryGet\<close> always
  returns; the queue on disk (theory PersFifo) satisfies the same contract.\<close>

locale bounded_fifo =
  fixes put :: "'a \<Rightarrow> 'q \<Rightarrow> 'q option"
    and tryGet :: "'q \<Rightarrow> ('a option \<times> 'q) option"
    and getLength :: "'q \<Rightarrow> nat"
    and items :: "'q \<Rightarrow> 'a list"
    and inv :: "'q \<Rightarrow> bool"
    and cap :: "'q \<Rightarrow> nat option"
    and ok :: "'a \<Rightarrow> bool"
  assumes put_room: "inv q \<Longrightarrow> ok x \<Longrightarrow> (\<forall>c. cap q = Some c \<longrightarrow> length (items q) < c) \<Longrightarrow>
      \<exists>q'. put x q = Some q' \<and> inv q' \<and> items q' = items q @ [x] \<and> cap q = cap q'"
    and put_full: "inv q \<Longrightarrow> cap q = Some (length (items q)) \<Longrightarrow> put x q = None"
    and get_empty: "inv q \<Longrightarrow> items q = [] \<Longrightarrow> tryGet q = Some (None, q)"
    and get_front: "inv q \<Longrightarrow> items q = x # xs \<Longrightarrow>
      \<exists>q'. tryGet q = Some (Some x, q') \<and> inv q' \<and> items q' = xs \<and> cap q' = cap q"
    and getLength_items: "inv q \<Longrightarrow> getLength q = length (items q)"
begin

lemma put_all_items:
  "inv q \<Longrightarrow> list_all ok xs \<Longrightarrow> (\<forall>c. cap q = Some c \<longrightarrow> length (items q) + length xs \<le> c) \<Longrightarrow>
   \<exists>q'. put_all put xs q = Some q' \<and> inv q' \<and> items q' = items q @ xs \<and> cap q = cap q'"
proof (induction xs arbitrary: q)
  case Nil
  then show ?case by simp
next
  case (Cons x xs)
  from Cons.prems obtain q1 where q1: "put x q = Some q1" "inv q1" "items q1 = items q @ [x]"
    "cap q1 = cap q" using put_room [of q x] by fastforce
  with Cons.prems Cons.IH [of q1] show ?case by fastforce
qed

lemma drain_items:
  "inv q \<Longrightarrow> n \<le> length (items q) \<Longrightarrow> drain tryGet n q = Some (map Some (take n (items q)))"
proof (induction n arbitrary: q)
  case 0
  then show ?case by simp
next
  case (Suc n)
  then obtain x xs where xs: "items q = x # xs" by (cases "items q") auto
  with get_front [OF Suc.prems(1) xs] Suc show ?case by auto
qed

lemma first_in_first_out:
  assumes "inv q" and "items q = []" and "list_all ok xs"
    and "\<forall>c. cap q = Some c \<longrightarrow> length xs \<le> c"
  shows "\<exists>q'. put_all put xs q = Some q' \<and> getLength q' = length xs \<and>
           drain tryGet (length xs) q' = Some (map Some xs)"
proof -
  obtain q' where q': "put_all put xs q = Some q'" "inv q'" "items q' = xs"
    using put_all_items [of q xs] assms by auto
  with drain_items [of q' "length xs"] getLength_items [of q'] show ?thesis by auto
qed

end

definition ring_capacity :: "'a ring \<Rightarrow> nat option" where
  "ring_capacity q = Some (r_size q - 1)"

lemma Fifo_put_ok:
  assumes inv: "ring_inv q"
  shows "ring_inv (Fifo_put x q) \<and> ring_items (Fifo_put x q) = ring_items q @ [x]"
proof -
  have "ring_count q < r_size q" using inv by (auto simp: ring_inv_def ring_count_def)
  then consider "ring_count q + 1 < r_size q" | "ring_count q + 1 = r_size q" by linarith
  then show ?thesis
  proof cases
    case 1
    from ring_store_cells [OF inv 1, of x] show ?thesis by (simp add: Fifo_put_def Let_def)
  next
    case 2
    from ring_store_grow [OF inv 2, of x] show ?thesis by (auto simp: Fifo_put_def Let_def)
  qed
qed

lemma tryGet_front:
  "ring_inv q \<Longrightarrow> ring_items q = x # xs \<Longrightarrow>
   \<exists>q'. Fifo_tryGet q = (Some x, q') \<and> ring_inv q' \<and> ring_items q' = xs \<and>
     r_size q' = r_size q"
  using ring_take [of q] ring_items_empty [of q] by (auto simp: Fifo_tryGet_def)

lemma SyncFifo_same:
  "SyncFifo_put = Fifo_put" "SyncFifo_tryGet = Fifo_tryGet" "ConstFifo_tryGet = Fifo_tryGet"
  by (auto simp: SyncFifo_put_def Fifo_put_def SyncFifo_tryGet_def Fifo_tryGet_def
      ConstFifo_tryGet_def fun_eq_iff)

lemma ConstFifo_put_ok:
  assumes inv: "ring_inv q"
  shows "if length (ring_items q) < r_size q - 1
         then \<exists>q'. ConstFifo_put x q = Some q' \<and> ring_inv q' \<and>
                ring_items q' = ring_items q @ [x] \<and> r_size q' = r_size q
         else ConstFifo_put x q = None"
proof -
  have "ring_count q < r_size q" using inv by (auto simp: ring_inv_def ring_count_def)
  then consider "ring_count q + 1 < r_size q" | "ring_count q + 1 = r_size q" by linarith
  then show ?thesis
  proof cases
    case 1
    from ring_store_cells [OF inv 1, of x] 1 show ?thesis
      by (auto simp: ConstFifo_put_def Let_def ring_items_length)
  next
    case 2
    from ring_store_grow [OF inv 2, of x] 2 show ?thesis
      by (auto simp: ConstFifo_put_def Let_def ring_items_length)
  qed
qed

interpretation fifo: bounded_fifo "\<lambda>x q. Some (Fifo_put x q)" "\<lambda>q. Some (Fifo_tryGet q)"
    Fifo_getLength ring_items ring_inv "\<lambda>_. None" "\<lambda>_. True"
proof (unfold_locales, goal_cases)
  case (1 q x) then show ?case using Fifo_put_ok [of q x] by simp
next
  case (2 q x) then show ?case by simp
next
  case (3 q) then show ?case by (simp add: ring_items_empty Fifo_tryGet_def)
next
  case (4 q x xs) then show ?case using tryGet_front [of q x xs] by auto
next
  case (5 q) then show ?case by (simp add: Fifo_getLength_def ring_items_length ring_count_def)
qed

interpretation sync: bounded_fifo "\<lambda>x q. Some (SyncFifo_put x q)"
    "\<lambda>q. Some (SyncFifo_tryGet q)" SyncFifo_getLength ring_items ring_inv "\<lambda>_. None" "\<lambda>_. True"
proof (unfold_locales, goal_cases)
  case (1 q x) then show ?case using Fifo_put_ok [of q x] by (simp add: SyncFifo_same)
next
  case (2 q x) then show ?case by simp
next
  case (3 q) then show ?case by (simp add: ring_items_empty SyncFifo_tryGet_def)
next
  case (4 q x xs) then show ?case using tryGet_front [of q x xs] by (auto simp: SyncFifo_same)
next
  case (5 q)
  then show ?case by (simp add: SyncFifo_getLength_def ring_items_length ring_count_def)
qed

interpretation const: bounded_fifo ConstFifo_put "\<lambda>q. Some (ConstFifo_tryGet q)"
    ConstFifo_getLength ring_items ring_inv ring_capacity "\<lambda>_. True"
proof (unfold_locales, goal_cases)
  case (1 q x)
  then show ?case using ConstFifo_put_ok [of q x] by (auto simp: ring_capacity_def)
next
  case (2 q x)
  then show ?case using ConstFifo_put_ok [of q x] by (auto simp: ring_capacity_def)
next
  case (3 q) then show ?case by (simp add: ring_items_empty ConstFifo_tryGet_def)
next
  case (4 q x xs)
  then show ?case using tryGet_front [of q x xs] by (auto simp: SyncFifo_same ring_capacity_def)
next
  case (5 q)
  then show ?case by (simp add: ConstFifo_getLength_def ring_items_length ring_count_def)
qed

lemma ring_new:
  "0 < n \<Longrightarrow> ring_inv (Fifo_new n) \<and> ring_items (Fifo_new n) = []"
  "0 < n \<Longrightarrow> ring_inv (SyncFifo_new n) \<and> ring_items (SyncFifo_new n) = []"
  "ring_inv (ConstFifo_new n) \<and> ring_items (ConstFifo_new n) = []"
  by (auto simp: ring_inv_def ring_items_def ring_cells_def ring_count_def Fifo_new_def
      SyncFifo_new_def ConstFifo_new_def)

text \<open>\<open>rePut\<close> undoes a \<open>get\<close>: the cell that \<open>get\<close> left is free again.\<close>

lemma Fifo_rePut_get:
  assumes inv: "ring_inv q" and get: "Fifo_get q = Some (Some x, q')"
  shows "ring_inv (Fifo_rePut x q') \<and> ring_items (Fifo_rePut x q') = ring_items q"
proof -
  from get have ne: "r_in q \<noteq> r_out q" and x: "r_tab q ! r_out q = Some x"
    and q': "q' = q\<lparr>r_out := (r_out q + 1) mod r_size q\<rparr>"
    by (auto simp: Fifo_get_def split: if_splits)
  from inv have b: "r_in q < r_size q" "r_out q < r_size q" "length (r_tab q) = r_size q"
    by (auto simp: ring_inv_def)
  have "Fifo_rePut x q' = q"
  proof -
    have o: "((r_out q + 1) mod r_size q + r_size q - 1) mod r_size q = r_out q"
      using b by (auto simp: mod_if)
    have t: "(r_tab q)[r_out q := Some x] = r_tab q" using x by (metis list_update_id)
    show ?thesis unfolding Fifo_rePut_def Let_def q' using o t by simp
  qed
  with inv show ?thesis by simp
qed

subsection \<open>Interval: how many urls fit in memory\<close>

text \<open>The two counters are unsigned in the source; they are integers here, and that \<open>getOne\<close>
  never takes \<open>pos\<close> below zero is part of the accounting of the theory Site.\<close>

record interval =
  iv_pos :: int
  iv_size :: int

definition Interval_new :: "int \<Rightarrow> interval" where
  "Interval_new sz = \<lparr>iv_pos = 0, iv_size = sz\<rparr>"

definition Interval_putAll :: "interval \<Rightarrow> int \<times> interval" where
  "Interval_putAll i = (iv_size i - iv_pos i, i\<lparr>iv_pos := iv_size i\<rparr>)"

definition Interval_getOne :: "interval \<Rightarrow> interval" where
  "Interval_getOne i = i\<lparr>iv_pos := iv_pos i - 1\<rparr>"

subsection \<open>Properties\<close>

text \<open>A new \<open>Fifo\<close> of any positive size gives back every list of objects put into it in
  order, however often the array wrapped round or was doubled on the way, and \<open>getLength\<close>
  is their number.\<close>

theorem Fifo_first_in_first_out:
  assumes "0 < n"
  shows "\<exists>q'. put_all (\<lambda>x q. Some (Fifo_put x q)) xs (Fifo_new n) = Some q' \<and>
           Fifo_getLength q' = length xs \<and>
           drain (\<lambda>q. Some (Fifo_tryGet q)) (length xs) q' = Some (map Some xs)"
  using ring_new(1) [OF assms] by (intro fifo.first_in_first_out) (auto simp: list_all_iff)

theorem Fifo_first_in_first_out_witness:
  "\<exists>q'. put_all (\<lambda>x q. Some (Fifo_put x q)) [1, 2, 3 :: nat] (Fifo_new 1) = Some q' \<and>
     Fifo_getLength q' = length [1, 2, 3 :: nat] \<and>
     drain (\<lambda>q. Some (Fifo_tryGet q)) (length [1, 2, 3 :: nat]) q' = Some (map Some [1, 2, 3])"
  by (rule Fifo_first_in_first_out) simp

text \<open>Any put on a well formed \<open>Fifo\<close>, growing or not, appends to what the fifo holds and
  keeps it well formed, and putting an object back right after a \<open>get\<close> restores the queue.\<close>

theorem Fifo_put_rePut_refine:
  assumes "ring_inv q"
  shows "ring_inv (Fifo_put x q) \<and> ring_items (Fifo_put x q) = ring_items q @ [x] \<and>
         (\<forall>y q'. Fifo_get q = Some (Some y, q') \<longrightarrow>
            ring_inv (Fifo_rePut y q') \<and> ring_items (Fifo_rePut y q') = ring_items q)"
  using Fifo_put_ok [OF assms, of x] Fifo_rePut_get [OF assms] by blast

theorem Fifo_put_rePut_refine_witness:
  "ring_items (Fifo_put (5::nat) (Fifo_new 1)) = [5]"
proof -
  have n: "ring_inv (Fifo_new 1 :: nat ring)" "ring_items (Fifo_new 1 :: nat ring) = []"
    using ring_new(1) [of 1] by auto
  from Fifo_put_rePut_refine [OF n(1), of 5] n(2) show ?thesis by (metis append_Nil)
qed

text \<open>The assertion in \<open>ConstantSizedFifo::put\<close> fails exactly when the fifo already holds
  the number of objects it was created for, so the connections of the crawler, which are
  as many as the size of \<open>freeConns\<close>, can always be put back.\<close>

theorem ConstFifo_put_assert:
  assumes "ring_inv q" and "r_size q = n + 1"
  shows "(ConstFifo_put x q = None \<longleftrightarrow> length (ring_items q) \<ge> n) \<and>
         (\<forall>q'. ConstFifo_put x q = Some q' \<longrightarrow>
            ring_inv q' \<and> ring_items q' = ring_items q @ [x] \<and> r_size q' = n + 1)"
  using ConstFifo_put_ok [OF assms(1), of x] assms(2) by (auto split: if_splits)

theorem ConstFifo_put_assert_witness:
  "ConstFifo_put (7::nat) (ConstFifo_new 1) \<noteq> None"
proof -
  have n: "ring_inv (ConstFifo_new 1 :: nat ring)" "ring_items (ConstFifo_new 1 :: nat ring) = []"
    using ring_new(3) [of 1] by auto
  have "r_size (ConstFifo_new 1 :: nat ring) = 1 + 1" by (simp add: ConstFifo_new_def)
  from ConstFifo_put_assert [OF n(1) this, of 7] n(2) show ?thesis
    by (metis list.size(3) not_one_le_zero)
qed

end
