(* ===== verification/PersFifo.thy ===== *)
theory PersFifo
  imports SeenTable Fifos
begin

section \<open>The queue on disk (src/utils/persistent_fifo.cxx)\<close>

text \<open>
  Urls that do not fit in memory are written, one line each, to numbered files of
  \<open>urlByFile\<close> lines; \<open>fin\<close> is the number of the file being written, \<open>fout\<close> that of the file
  being read. Writes go through \<open>outbuf\<close>, reads through \<open>buf\<close>, whose unread part is
  \<open>pf_unread\<close> (it starts at \<open>bufPos\<close> and ends at \<open>bufEnd\<close>). \<open>pf_files\<close> maps a number to the
  content of its file, \<open>pf_rpos\<close> is the offset of the read descriptor, and \<open>pf_reads\<close> says
  how many bytes each \<open>read\<close> to come may return. \<open>pf_saves\<close> counts the times
  \<open>updateWrite\<close> saved the tables of seen urls. \<open>None\<close> is a failed assertion, a read error, a
  line that is no url, or the endless loop on an empty file.
\<close>

subsection \<open>File names\<close>

definition digit_at :: "nat \<Rightarrow> nat \<Rightarrow> char" where
  "digit_at nb k = digit_chr (nb div 10 ^ k mod 10)"

definition makeName :: "string \<Rightarrow> nat \<Rightarrow> string" where
  "makeName base nb = base @ map (digit_at nb) [5, 4, 3, 2, 1, 0]"

text \<open>The last six characters; a shorter name is read before its start.\<close>

definition getNumber :: "string \<Rightarrow> int option" where
  "getNumber name =
     (if length name < 6 then None
      else Some (foldl (\<lambda>n c. n * 10 + (schar c - 48)) 0 (drop (length name - 6) name)))"

text \<open>The scan of the directory: greatest and smallest number of the names that start with the
  base name; \<open>-1\<close> stands for none yet.\<close>

fun scan_dir :: "string \<Rightarrow> string list \<Rightarrow> int \<times> int \<Rightarrow> (int \<times> int) option" where
  "scan_dir base [] (fin, fout) = Some (fin, fout)"
| "scan_dir base (n # ns) (fin, fout) =
     (if startWith base n then
        (case getNumber n of
           None \<Rightarrow> None
         | Some t \<Rightarrow>
             if fin = - 1 then scan_dir base ns (t, t)
             else scan_dir base ns (if t > fin then t else fin, if t < fout then t else fout))
      else scan_dir base ns (fin, fout))"

subsection \<open>State and operations\<close>

record pfifo =
  pf_in :: nat
  pf_out :: nat
  pf_fin :: nat
  pf_fout :: nat
  pf_files :: "nat \<Rightarrow> string option"
  pf_rpos :: nat
  pf_outbuf :: string
  pf_bufPos :: nat
  pf_unread :: string
  pf_reads :: "nat list"
  pf_saves :: nat

definition file_text :: "pfifo \<Rightarrow> nat \<Rightarrow> string" where
  "file_text q k = (case pf_files q k of None \<Rightarrow> [] | Some s \<Rightarrow> s)"

text \<open>\<open>flushOut\<close> appends to the file \<open>fin\<close>.\<close>

definition flushOut :: "pfifo \<Rightarrow> pfifo" where
  "flushOut q = q\<lparr>pf_files := (pf_files q)(pf_fin q \<mapsto> file_text q (pf_fin q) @ pf_outbuf q),
                  pf_outbuf := []\<rparr>"

definition pf_writeUrl :: "string \<Rightarrow> pfifo \<Rightarrow> pfifo option" where
  "pf_writeUrl s q =
     (if length s \<ge> maxUrlSize + 40 + maxCookieSize then None
      else if length (pf_outbuf q) + length s < BUF_SIZE then
        Some (q\<lparr>pf_outbuf := pf_outbuf q @ s\<rparr>)
      else Some ((flushOut q)\<lparr>pf_outbuf := s\<rparr>))"

definition updateWrite :: "bool \<Rightarrow> pfifo \<Rightarrow> pfifo" where
  "updateWrite canReload q =
     (if pf_in q mod urlByFile = 0 then
        (let q1 = flushOut q;
             q2 = q1\<lparr>pf_fin := pf_fin q1 + 1, pf_files := (pf_files q1)(pf_fin q1 + 1 \<mapsto> [])\<rparr>
         in if canReload then q2\<lparr>pf_saves := pf_saves q2 + 1\<rparr> else q2)
      else q)"

text \<open>The assertion \<open>bufPos == bufEnd\<close> is that nothing is left unread.\<close>

definition updateRead :: "pfifo \<Rightarrow> pfifo option" where
  "updateRead q =
     (if pf_out q mod urlByFile = 0 then
        (if pf_unread q \<noteq> [] then None
         else Some (q\<lparr>pf_files := (pf_files q)(pf_fout q := None), pf_fout := pf_fout q + 1,
                      pf_rpos := 0, pf_in := pf_in q - pf_out q, pf_out := 0\<rparr>))
      else Some q)"

text \<open>The loop of \<open>readLine\<close>. A \<open>read\<close> that returns nothing flushes the output and tries
  again; when there was nothing to flush it never ends.\<close>

definition make_room :: "pfifo \<Rightarrow> pfifo" where
  "make_room q = (if pf_bufPos q * 2 > BUF_SIZE then q\<lparr>pf_bufPos := 0\<rparr> else q)"

definition read_chunk :: "pfifo \<Rightarrow> string" where
  "read_chunk q =
     take (read_limit (pf_reads q) (BUF_SIZE - 1 - (pf_bufPos q + length (pf_unread q))))
       (drop (pf_rpos q) (file_text q (pf_fout q)))"

definition take_chunk :: "pfifo \<Rightarrow> pfifo" where
  "take_chunk q =
     q\<lparr>pf_unread := pf_unread q @ read_chunk q, pf_rpos := pf_rpos q + length (read_chunk q),
       pf_reads := tl (pf_reads q)\<rparr>"

function readLine_loop :: "pfifo \<Rightarrow> (string \<times> pfifo) option" where
  "readLine_loop q =
     (if NL \<in> set (pf_unread q) then
        (let l = takeWhile (\<lambda>c. c \<noteq> NL) (pf_unread q) in
         Some (l, q\<lparr>pf_bufPos := pf_bufPos q + Suc (length l),
                    pf_unread := drop (Suc (length l)) (pf_unread q)\<rparr>))
      else
        (let q1 = make_room q in
         if pf_files q1 (pf_fout q1) = None then None
         else if read_chunk q1 = [] then
           (if pf_outbuf q1 = [] then None else readLine_loop (flushOut q1))
         else readLine_loop (take_chunk q1)))"
  by pat_completeness auto

termination
proof (relation "measures [\<lambda>q. length (pf_outbuf q),
    \<lambda>q. length (file_text q (pf_fout q)) - pf_rpos q]", simp, goal_cases)
  case (1 q q1)
  then show ?case by (simp add: flushOut_def make_room_def split: if_splits)
next
  case (2 q q1)
  have "pf_outbuf q1 = pf_outbuf q" "pf_fout q1 = pf_fout q" "pf_rpos q1 = pf_rpos q"
    "\<And>k. file_text q1 k = file_text q k"
    using 2(2) by (auto simp: make_room_def file_text_def)
  then show ?case using 2 by (auto simp: take_chunk_def file_text_def read_chunk_def)
qed

declare readLine_loop.simps [simp del]

definition readLine :: "pfifo \<Rightarrow> (string \<times> pfifo) option" where
  "readLine q = readLine_loop (if pf_unread q = [] then q\<lparr>pf_bufPos := 0\<rparr> else q)"

definition pf_get :: "bool \<Rightarrow> pfifo \<Rightarrow> (url \<times> pfifo) option" where
  "pf_get uc q =
     (case readLine q of
        None \<Rightarrow> None
      | Some (line, q1) \<Rightarrow>
          (case url_read uc line of
             None \<Rightarrow> None
           | Some u \<Rightarrow> map_option (\<lambda>q2. (u, q2)) (updateRead (q1\<lparr>pf_out := pf_out q1 + 1\<rparr>))))"

definition pf_tryGet :: "bool \<Rightarrow> pfifo \<Rightarrow> (url option \<times> pfifo) option" where
  "pf_tryGet uc q =
     (if pf_in q \<noteq> pf_out q then map_option (\<lambda>(u, q'). (Some u, q')) (pf_get uc q)
      else Some (None, q))"

definition pf_put :: "bool \<Rightarrow> bool \<Rightarrow> url \<Rightarrow> pfifo \<Rightarrow> pfifo option" where
  "pf_put uc canReload u q =
     map_option (\<lambda>q1. updateWrite canReload (q1\<lparr>pf_in := pf_in q1 + 1\<rparr>))
       (pf_writeUrl (serialize uc u) q)"

definition pf_getLength :: "pfifo \<Rightarrow> nat" where
  "pf_getLength q = pf_in q - pf_out q"

text \<open>The two ways to start: from scratch, the old files deleted, or from what is on disk.
  \<open>None\<close> is the exit on a crawl that was too small.\<close>

definition pf_open :: "nat \<Rightarrow> nat \<Rightarrow> (nat \<Rightarrow> string option) \<Rightarrow> nat list \<Rightarrow> pfifo" where
  "pf_open fin fout files reads =
     \<lparr>pf_in = (fin - fout) * urlByFile, pf_out = 0, pf_fin = fin, pf_fout = fout,
      pf_files = files(fin \<mapsto> []), pf_rpos = 0, pf_outbuf = [], pf_bufPos = 0, pf_unread = [],
      pf_reads = reads, pf_saves = 0\<rparr>"

definition pf_scratch :: "nat list \<Rightarrow> pfifo" where
  "pf_scratch reads = pf_open 0 0 (\<lambda>_. None) reads"

definition pf_reload ::
    "string \<Rightarrow> string list \<Rightarrow> (nat \<Rightarrow> string option) \<Rightarrow> nat list \<Rightarrow> pfifo option" where
  "pf_reload base names files reads =
     (case scan_dir base names (- 1, - 1) of
        None \<Rightarrow> None
      | Some (fin, fout) \<Rightarrow>
          (let (i, out) = (if fin = - 1 then (0, 0) else (fin, fout)) in
           if i = out \<and> i \<noteq> 0 then None else Some (pf_open (nat i) (nat out) files reads)))"


subsection \<open>Lines\<close>

definition unl :: "string list \<Rightarrow> string" where
  "unl ls = concat (map (\<lambda>l. l @ [NL]) ls)"

lemma unl_simps [simp]:
  "unl [] = []" "unl (l # ls) = l @ NL # unl ls" "unl (xs @ ys) = unl xs @ unl ys"
  by (simp_all add: unl_def)

fun lines_from :: "string \<Rightarrow> string \<Rightarrow> string list" where
  "lines_from acc [] = (if acc = [] then [] else [acc])"
| "lines_from acc (c # s) = (if c = NL then acc # lines_from [] s else lines_from (acc @ [c]) s)"

lemma lines_from_line: "NL \<notin> set l \<Longrightarrow> lines_from acc (l @ NL # s) = (acc @ l) # lines_from [] s"
  by (induction l arbitrary: acc) auto

lemma lines_from_unl: "\<forall>l \<in> set ls. NL \<notin> set l \<Longrightarrow> lines_from [] (unl ls) = ls"
  by (induction ls) (auto simp: lines_from_line)

lemma unl_nth:
  "c < length A \<Longrightarrow> unl A = unl (take c A) @ A ! c @ NL # unl (drop (Suc c) A)"
  by (metis Cons_nth_drop_Suc append_take_drop_id unl_simps(2,3))

lemma unl_Suc: "c < length A \<Longrightarrow> unl (take (Suc c) A) = unl (take c A) @ A ! c @ [NL]"
  by (simp add: take_Suc_conv_app_nth)

lemma unl_blocks:
  "n * k \<le> length B \<Longrightarrow>
   concat (map (\<lambda>i. unl (take k (drop (i * k) B))) [0..<n]) @ unl (drop (n * k) B) = unl B"
proof (induction n)
  case (Suc n)
  have "unl (drop (n * k) B) = unl (take k (drop (n * k) B)) @ unl (drop (Suc n * k) B)"
    by (metis append_take_drop_id drop_drop mult_Suc unl_simps(3))
  with Suc show ?case by simp
qed simp

subsection \<open>The lines a state stands for\<close>

definition line_ok :: "string \<Rightarrow> bool" where
  "line_ok l \<longleftrightarrow> NL \<notin> set l \<and> length l + 1 < maxUrlSize + 40 + maxCookieSize"

text \<open>\<open>A\<close> is every line since the start of the file being read, \<open>c\<close> of which were consumed.\<close>

definition pf_rel :: "pfifo \<Rightarrow> string list \<Rightarrow> nat \<Rightarrow> bool" where
  "pf_rel q A c \<longleftrightarrow>
     list_all line_ok A \<and> c \<le> length A \<and> c \<le> urlByFile \<and>
     pf_fin q = pf_fout q + length A div urlByFile \<and>
     (\<forall>i < length A div urlByFile.
        pf_files q (pf_fout q + i) = Some (unl (take urlByFile (drop (i * urlByFile) A)))) \<and>
     pf_files q (pf_fin q) \<noteq> None \<and>
     file_text q (pf_fin q) @ pf_outbuf q = unl (drop (length A div urlByFile * urlByFile) A) \<and>
     pf_rpos q \<le> length (file_text q (pf_fout q)) \<and>
     take (pf_rpos q) (file_text q (pf_fout q)) = unl (take c A) @ pf_unread q \<and>
     pf_bufPos q + length (pf_unread q) < BUF_SIZE \<and> length (pf_outbuf q) < BUF_SIZE \<and>
     0 \<notin> set (pf_reads q)"

definition pf_inv :: "pfifo \<Rightarrow> bool" where
  "pf_inv q \<longleftrightarrow>
     (\<exists>A. pf_rel q A (pf_out q) \<and> pf_in q = length A \<and> pf_out q < urlByFile)"

lemma urlByFile_pos: "0 < urlByFile"
  by (simp add: urlByFile_def)

lemma file_text_upd:
  "file_text (q\<lparr>pf_in := i\<rparr>) k = file_text q k"
  "file_text (q\<lparr>pf_out := i\<rparr>) k = file_text q k"
  "file_text (q\<lparr>pf_saves := i\<rparr>) k = file_text q k"
  "file_text (q\<lparr>pf_bufPos := i\<rparr>) k = file_text q k"
  "file_text (q\<lparr>pf_outbuf := b\<rparr>) k = file_text q k"
  "file_text (q\<lparr>pf_unread := b\<rparr>) k = file_text q k"
  "file_text (q\<lparr>pf_rpos := i\<rparr>) k = file_text q k"
  "file_text (q\<lparr>pf_reads := r\<rparr>) k = file_text q k"
  by (simp_all add: file_text_def)

lemma pf_rel_frame:
  "pf_rel q A c \<Longrightarrow> pf_rel (q\<lparr>pf_in := i\<rparr>) A c"
  "pf_rel q A c \<Longrightarrow> pf_rel (q\<lparr>pf_out := i\<rparr>) A c"
  "pf_rel q A c \<Longrightarrow> pf_rel (q\<lparr>pf_saves := i\<rparr>) A c"
  "pf_rel q A c \<Longrightarrow> pf_rel (make_room q) A c"
  "pf_rel q A c \<Longrightarrow> pf_unread q = [] \<Longrightarrow> pf_rel (q\<lparr>pf_bufPos := 0\<rparr>) A c"
  unfolding pf_rel_def make_room_def by (auto simp: file_text_upd)

lemma pf_rel_flush:
  assumes "pf_rel q A c"
  shows "pf_rel (flushOut q) A c"
proof -
  have t: "file_text (flushOut q) k =
      (if k = pf_fin q then file_text q k @ pf_outbuf q else file_text q k)" for k
    by (simp add: flushOut_def file_text_def)
  have b: "0 < BUF_SIZE" by (simp add: BUF_SIZE_def)
  have f: "pf_fin (flushOut q) = pf_fin q" "pf_fout (flushOut q) = pf_fout q"
    "pf_outbuf (flushOut q) = []" "pf_rpos (flushOut q) = pf_rpos q"
    "pf_unread (flushOut q) = pf_unread q" "pf_bufPos (flushOut q) = pf_bufPos q"
    "pf_reads (flushOut q) = pf_reads q"
    "pf_files (flushOut q) = (pf_files q)(pf_fin q \<mapsto> file_text q (pf_fin q) @ pf_outbuf q)"
    by (simp_all add: flushOut_def)
  show ?thesis using assms b unfolding pf_rel_def f t by auto
qed

lemma pf_rel_chunk:
  assumes "pf_rel q A c"
  shows "pf_rel (take_chunk q) A c"
proof -
  let ?F = "file_text q (pf_fout q)" and ?d = "read_chunk q"
  have "length ?d \<le> BUF_SIZE - 1 - (pf_bufPos q + length (pf_unread q))"
    using read_limit_le [of "pf_reads q"] by (simp add: read_chunk_def) (meson le_trans min.cobounded2)
  moreover have "take (pf_rpos q + length ?d) ?F = take (pf_rpos q) ?F @ ?d"
    unfolding read_chunk_def take_add by (simp add: min_def)
  moreover have "pf_rpos q + length ?d \<le> length ?F"
    using assms by (auto simp: read_chunk_def pf_rel_def)
  moreover have "0 \<notin> set (tl (pf_reads q))"
    using assms unfolding pf_rel_def by (metis list.sel(2) list.set_sel(2))
  ultimately show ?thesis
    using assms by (auto simp: pf_rel_def take_chunk_def file_text_def)
qed

lemma cancel_read:
  "t @ d = F \<Longrightarrow> t = a @ u \<Longrightarrow> F @ b = a @ r \<Longrightarrow> u @ d @ b = r"
  by auto

lemma line_unique:
  "u @ x # v = l @ x # w \<Longrightarrow> x \<notin> set u \<Longrightarrow> x \<notin> set l \<Longrightarrow> u = l \<and> v = w"
proof (induction u arbitrary: l)
  case Nil
  then show ?case by (cases l) auto
next
  case (Cons y u)
  then show ?case by (cases l) auto
qed

lemma line_prefix: "u @ r = l @ x # w \<Longrightarrow> x \<notin> set u \<Longrightarrow> length u \<le> length l"
proof (induction u arbitrary: l)
  case (Cons y u)
  then show ?case by (cases l) auto
qed simp

lemma pf_rel_pending:
  assumes "pf_rel q A c"
  shows "pf_unread q @ drop (pf_rpos q) (file_text q (pf_fout q)) @
           (if pf_fout q = pf_fin q then pf_outbuf q else []) = unl (drop c (if length A < urlByFile then A else take urlByFile A))"
proof -
  let ?F = "file_text q (pf_fout q)"
  have p: "take (pf_rpos q) ?F @ drop (pf_rpos q) ?F = ?F"
    "take (pf_rpos q) ?F = unl (take c A) @ pf_unread q"
    by (rule append_take_drop_id) (use assms in \<open>simp only: pf_rel_def\<close>)
  show ?thesis
  proof (cases "length A < urlByFile")
    case True
    then have "?F @ pf_outbuf q = unl A" "pf_fout q = pf_fin q"
      using assms by (auto simp: pf_rel_def)
    moreover have "unl A = unl (take c A) @ unl (drop c A)"
      by (metis append_take_drop_id unl_simps(3))
    ultimately show ?thesis using cancel_read [OF p, of "pf_outbuf q"] True by auto
  next
    case False
    then have n: "0 < length A div urlByFile" using urlByFile_pos by (simp add: div_greater_zero_iff)
    then have "pf_files q (pf_fout q) = Some (unl (take urlByFile A))" "pf_fout q \<noteq> pf_fin q"
      using assms unfolding pf_rel_def by fastforce+
    then have F: "?F @ [] = unl (take urlByFile A)" by (simp add: file_text_def)
    have "c \<le> urlByFile" using assms by (simp add: pf_rel_def)
    then have "unl (take urlByFile A) = unl (take c A) @ unl (drop c (take urlByFile A))"
      by (metis append_take_drop_id unl_simps(3) take_take min.absorb1)
    with cancel_read [OF p, of "[]"] F False \<open>pf_fout q \<noteq> pf_fin q\<close> show ?thesis by auto
  qed
qed

lemma readLine_loop_rel:
  "pf_rel q A c \<Longrightarrow> c < length A \<Longrightarrow> c < urlByFile \<Longrightarrow>
   \<exists>q'. readLine_loop q = Some (A ! c, q') \<and> pf_rel q' A (Suc c) \<and>
     pf_in q' = pf_in q \<and> pf_out q' = pf_out q"
proof (induction q rule: readLine_loop.induct)
  case (1 q)
  note rel = 1(3) and c = 1(4,5)
  let ?q1 = "make_room q"
  let ?X = "unl (drop (Suc c) (if length A < urlByFile then A else take urlByFile A))"
  have cB: "c < length (if length A < urlByFile then A else take urlByFile A)"
    "(if length A < urlByFile then A else take urlByFile A) ! c = A ! c"
    using c by auto
  have pend: "pf_unread q @ drop (pf_rpos q) (file_text q (pf_fout q)) @
      (if pf_fout q = pf_fin q then pf_outbuf q else []) = A ! c @ NL # ?X"
    unfolding pf_rel_pending [OF rel] using cB
    by (metis Cons_nth_drop_Suc unl_simps(2))
  have ok: "line_ok (A ! c)" using rel c by (simp add: pf_rel_def list_all_length)
  show ?case
  proof (cases "NL \<in> set (pf_unread q)")
    case True
    then obtain u v where uv: "pf_unread q = u @ NL # v" "NL \<notin> set u" by (meson split_list_first)
    have "u @ NL # (v @ drop (pf_rpos q) (file_text q (pf_fout q)) @
        (if pf_fout q = pf_fin q then pf_outbuf q else [])) = A ! c @ NL # ?X"
      using pend unfolding uv(1) by (simp only: append.assoc append_Cons)
    with line_unique [OF this uv(2)] ok have u: "u = A ! c" by (simp add: line_ok_def)
    have tw: "takeWhile (\<lambda>c. c \<noteq> NL) (pf_unread q) = A ! c"
      unfolding uv(1) u [symmetric] using uv(2) by (subst takeWhile_append2) auto
    let ?q' = "q\<lparr>pf_bufPos := pf_bufPos q + Suc (length (A ! c)), pf_unread := v\<rparr>"
    have "readLine_loop q = Some (A ! c, ?q')"
      using True tw uv u by (subst readLine_loop.simps) (simp add: Let_def)
    moreover have "pf_rel ?q' A (Suc c)"
      using rel uv u c unl_Suc [of c A] by (auto simp: pf_rel_def file_text_def)
    ultimately show ?thesis by simp
  next
    case False
    have pre: "length (pf_unread q) \<le> length (A ! c)"
      by (rule line_prefix [OF pend False])
    note rel1 = pf_rel_frame(4) [OF rel]
    have same: "pf_unread ?q1 = pf_unread q" "pf_rpos ?q1 = pf_rpos q" "pf_fout ?q1 = pf_fout q"
      "pf_fin ?q1 = pf_fin q" "pf_outbuf ?q1 = pf_outbuf q" "file_text ?q1 k = file_text q k"
      "pf_files ?q1 = pf_files q" "pf_in ?q1 = pf_in q" "pf_out ?q1 = pf_out q" "pf_reads ?q1 = pf_reads q" for k
      by (simp_all add: make_room_def file_text_def)
    have room: "0 < BUF_SIZE - 1 - (pf_bufPos ?q1 + length (pf_unread q))"
      using pre ok by (simp add: line_ok_def make_room_def BUF_SIZE_def maxUrlSize_def maxCookieSize_def)
    have some: "pf_files ?q1 (pf_fout ?q1) \<noteq> None"
    proof (cases "pf_fout q = pf_fin q")
      case True
      with rel show ?thesis by (simp add: same pf_rel_def)
    next
      case False
      with rel have "0 < length A div urlByFile" by (auto simp: pf_rel_def)
      with rel show ?thesis unfolding same pf_rel_def by (metis add.right_neutral option.distinct(1))
    qed
    have "0 < read_limit (pf_reads ?q1) (BUF_SIZE - 1 - (pf_bufPos ?q1 + length (pf_unread ?q1)))"
      using room rel by (intro read_limit_pos) (auto simp: same pf_rel_def)
    then have chunk: "read_chunk ?q1 = [] \<longleftrightarrow> drop (pf_rpos q) (file_text q (pf_fout q)) = []"
      by (auto simp: read_chunk_def same)
    show ?thesis
    proof (cases "read_chunk ?q1 = []")
      case True
      have "NL \<in> set (A ! c @ NL # ?X)" by simp
      then have o: "pf_outbuf ?q1 \<noteq> []"
        unfolding pend [symmetric] using False True chunk by (auto simp: same split: if_splits)
      from 1(1) [OF False refl some True o pf_rel_flush [OF rel1] c] obtain q' where
        "readLine_loop (flushOut ?q1) = Some (A ! c, q')" "pf_rel q' A (Suc c)"
        "pf_in q' = pf_in q" "pf_out q' = pf_out q" by (auto simp: flushOut_def same)
      with False some True o show ?thesis by (subst readLine_loop.simps) (simp add: Let_def)
    next
      case nonempty: False
      from 1(2) [OF False refl some nonempty pf_rel_chunk [OF rel1] c] obtain q' where
        "readLine_loop (take_chunk ?q1) = Some (A ! c, q')" "pf_rel q' A (Suc c)"
        "pf_in q' = pf_in q" "pf_out q' = pf_out q" by (auto simp: take_chunk_def same)
      with False some nonempty show ?thesis by (subst readLine_loop.simps) (simp add: Let_def)
    qed
  qed
qed


text \<open>Everything that is still to be read: the rest of the buffer and of the file being read,
  the files after it, the output buffer.\<close>

definition pf_text :: "pfifo \<Rightarrow> string" where
  "pf_text q =
     pf_unread q @ drop (pf_rpos q) (file_text q (pf_fout q)) @
     concat (map (file_text q) [Suc (pf_fout q)..<Suc (pf_fin q)]) @ pf_outbuf q"

definition pf_items :: "bool \<Rightarrow> pfifo \<Rightarrow> url list" where
  "pf_items uc q = List.map_filter (url_read uc) (lines_from [] (pf_text q))"

lemma all_line_ok: "list_all line_ok A \<Longrightarrow> \<forall>l \<in> set A. NL \<notin> set l"
  by (auto simp: list_all_iff line_ok_def)

lemma pf_rel_later:
  assumes "pf_rel q A c" "urlByFile \<le> length A"
  shows "concat (map (file_text q) [Suc (pf_fout q)..<Suc (pf_fin q)]) @ pf_outbuf q =
    unl (drop urlByFile A)"
proof -
  let ?n = "length A div urlByFile" and ?B = "drop urlByFile A"
  obtain m where n: "?n = Suc m"
    using assms(2) urlByFile_pos by (cases ?n) (auto simp: div_eq_0_iff)
  have fin: "pf_fin q = pf_fout q + ?n" using assms by (simp add: pf_rel_def)
  have "[Suc (pf_fout q)..<Suc (pf_fin q)] = map (\<lambda>i. i + Suc (pf_fout q)) [0..<m] @ [pf_fin q]"
  proof -
    have "[Suc (pf_fout q)..<Suc (pf_fin q)] = [Suc (pf_fout q)..<pf_fin q] @ [pf_fin q]"
      using fin n by (intro upt_Suc_append) simp
    moreover have "[Suc (pf_fout q)..<pf_fin q] = map (\<lambda>i. i + Suc (pf_fout q)) [0..<m]"
      using fin n by (subst map_add_upt) (simp add: add.commute)
    ultimately show ?thesis by simp
  qed
  moreover have "file_text q (i + Suc (pf_fout q)) = unl (take urlByFile (drop (i * urlByFile) ?B))"
    if "i < m" for i
  proof -
    have "\<forall>j < ?n. pf_files q (pf_fout q + j) = Some (unl (take urlByFile (drop (j * urlByFile) A)))"
      using assms(1) by (simp add: pf_rel_def)
    then have "pf_files q (pf_fout q + Suc i) = Some (unl (take urlByFile (drop (Suc i * urlByFile) A)))"
      using that n by (elim allE [of _ "Suc i"]) simp
    then show ?thesis by (simp add: file_text_def add.commute)
  qed
  then have "map (\<lambda>i. file_text q (i + Suc (pf_fout q))) [0..<m] =
      map (\<lambda>i. unl (take urlByFile (drop (i * urlByFile) ?B))) [0..<m]"
    by (intro map_cong) auto
  ultimately have "concat (map (file_text q) [Suc (pf_fout q)..<Suc (pf_fin q)]) =
      concat (map (\<lambda>i. unl (take urlByFile (drop (i * urlByFile) ?B))) [0..<m]) @ file_text q (pf_fin q)"
    by (simp only: map_append map_map comp_def concat_append list.map concat.simps append_Nil2)
  moreover have "file_text q (pf_fin q) @ pf_outbuf q = unl (drop (m * urlByFile) ?B)"
  proof -
    have "file_text q (pf_fin q) @ pf_outbuf q = unl (drop (?n * urlByFile) A)"
      using assms(1) unfolding pf_rel_def by blast
    then show ?thesis unfolding n by (simp add: add.commute)
  qed
  moreover have "m * urlByFile \<le> length ?B"
  proof -
    have "Suc m * urlByFile \<le> length A" by (metis n div_times_less_eq_dividend)
    then show ?thesis by simp
  qed
  ultimately show ?thesis using unl_blocks [of m urlByFile ?B] by simp
qed

lemma pf_rel_text:
  assumes "pf_rel q A c"
  shows "pf_text q = unl (drop c A)"
proof (cases "length A < urlByFile")
  case True
  then have "pf_fout q = pf_fin q" using assms by (simp add: pf_rel_def)
  with pf_rel_pending [OF assms] True show ?thesis by (simp add: pf_text_def)
next
  case False
  then have "0 < length A div urlByFile" using urlByFile_pos by (simp add: div_greater_zero_iff)
  then have "pf_fout q \<noteq> pf_fin q" using assms by (simp add: pf_rel_def)
  with pf_rel_pending [OF assms] False have
    "pf_unread q @ drop (pf_rpos q) (file_text q (pf_fout q)) = unl (drop c (take urlByFile A))" by simp
  moreover have "drop c (take urlByFile A) @ drop urlByFile A = drop c A"
    using assms by (simp add: pf_rel_def drop_take)
      (metis append_take_drop_id drop_drop le_add_diff_inverse2)
  ultimately show ?thesis
    using pf_rel_later [OF assms] False unfolding pf_text_def
    by (metis append.assoc linorder_not_less unl_simps(3))
qed

lemma pf_inv_items:
  assumes "pf_rel q A c" "list_all (\<lambda>l. url_read uc l \<noteq> None) A"
  shows "pf_items uc q = map (\<lambda>l. the (url_read uc l)) (drop c A)"
proof -
  have "\<forall>l \<in> set (drop c A). NL \<notin> set l"
    using assms(1) all_line_ok [of A] by (auto simp: pf_rel_def dest: in_set_dropD)
  then have "pf_items uc q = List.map_filter (url_read uc) (drop c A)"
    using pf_rel_text [OF assms(1)] by (simp add: pf_items_def lines_from_unl)
  moreover have "\<forall>l \<in> set (drop c A). url_read uc l \<noteq> None"
    using assms(2) by (auto simp: list_all_iff dest: in_set_dropD)
  ultimately show ?thesis
    by (auto simp: List.map_filter_def filter_id_conv)
qed

text \<open>The well formed states: every line is that of a url.\<close>

definition pf_good :: "bool \<Rightarrow> pfifo \<Rightarrow> bool" where
  "pf_good uc q \<longleftrightarrow>
     (\<exists>A. pf_rel q A (pf_out q) \<and> pf_in q = length A \<and> pf_out q < urlByFile \<and>
          list_all (\<lambda>l. url_read uc l \<noteq> None) A)"

text \<open>The urls that can be stored: they come back as they were, on one line.\<close>

definition storable :: "bool \<Rightarrow> url \<Rightarrow> bool" where
  "storable uc u \<longleftrightarrow>
     url_read uc (butlast (serialize uc u)) = Some u \<and> line_ok (butlast (serialize uc u))"

lemma serialize_line: "serialize uc u = butlast (serialize uc u) @ [NL]"
  by (simp add: serialize_def butlast_append)

subsection \<open>Writing\<close>

text \<open>As \<open>pf_rel\<close>, with a text \<open>t\<close> written after the lines.\<close>

definition pf_pre :: "pfifo \<Rightarrow> string list \<Rightarrow> nat \<Rightarrow> string \<Rightarrow> bool" where
  "pf_pre q A c t \<longleftrightarrow>
     list_all line_ok A \<and> c \<le> length A \<and> c \<le> urlByFile \<and>
     pf_fin q = pf_fout q + length A div urlByFile \<and>
     (\<forall>i < length A div urlByFile.
        pf_files q (pf_fout q + i) = Some (unl (take urlByFile (drop (i * urlByFile) A)))) \<and>
     pf_files q (pf_fin q) \<noteq> None \<and>
     file_text q (pf_fin q) @ pf_outbuf q = unl (drop (length A div urlByFile * urlByFile) A) @ t \<and>
     pf_rpos q \<le> length (file_text q (pf_fout q)) \<and>
     take (pf_rpos q) (file_text q (pf_fout q)) = unl (take c A) @ pf_unread q \<and>
     pf_bufPos q + length (pf_unread q) < BUF_SIZE \<and> length (pf_outbuf q) < BUF_SIZE \<and>
     0 \<notin> set (pf_reads q)"

lemma pf_rel_pre: "pf_rel q A c \<longleftrightarrow> pf_pre q A c []"
  by (simp only: pf_rel_def pf_pre_def append_Nil2)

lemma pf_pre_buffer:
  "pf_pre q A c [] \<Longrightarrow> length (pf_outbuf q @ t) < BUF_SIZE \<Longrightarrow>
   pf_pre (q\<lparr>pf_outbuf := pf_outbuf q @ t\<rparr>) A c t"
  unfolding pf_pre_def file_text_upd pfifo.simps append_Nil2 append.assoc [symmetric] by auto

lemma pf_rel_write:
  assumes rel: "pf_rel q A c" and l: "line_ok l"
  shows "\<exists>q1. pf_writeUrl (l @ [NL]) q = Some q1 \<and> pf_pre q1 A c (l @ [NL]) \<and>
    pf_in q1 = pf_in q \<and> pf_out q1 = pf_out q"
proof -
  have len: "length (l @ [NL]) < maxUrlSize + 40 + maxCookieSize" "length (l @ [NL]) < BUF_SIZE"
    using l by (simp_all add: line_ok_def BUF_SIZE_def maxUrlSize_def maxCookieSize_def)
  show ?thesis
  proof (cases "length (pf_outbuf q) + length (l @ [NL]) < BUF_SIZE")
    case True
    with len rel pf_pre_buffer [of q A c "l @ [NL]"] show ?thesis
      by (simp add: pf_writeUrl_def pf_rel_pre)
  next
    case False
    have fl: "pf_outbuf (flushOut q) = []" "pf_in (flushOut q) = pf_in q"
      "pf_out (flushOut q) = pf_out q" by (simp_all add: flushOut_def)
    have "pf_pre (flushOut q) A c []" using pf_rel_flush [OF rel] by (simp add: pf_rel_pre)
    from pf_pre_buffer [OF this, of "l @ [NL]"] len False fl show ?thesis
      by (simp add: pf_writeUrl_def)
  qed
qed

lemma pf_pre_roll:
  assumes pre: "pf_pre q A c (l @ [NL])" and l: "line_ok l"
    and q: "pf_in q = length (A @ [l])"
  shows "pf_rel (updateWrite cr q) (A @ [l]) c \<and> pf_in (updateWrite cr q) = pf_in q \<and>
    pf_out (updateWrite cr q) = pf_out q"
proof -
  let ?U = urlByFile
  let ?n = "length A div ?U"
  have U: "0 < ?U" by (rule urlByFile_pos)
  have nle: "?n * ?U \<le> length A" by simp
  have dn: "unl (drop (?n * ?U) (A @ [l])) = unl (drop (?n * ?U) A) @ l @ [NL]" using nle by simp
  have tk: "take c (A @ [l]) = take c A" using pre by (simp add: pf_pre_def)
  have bl: "take ?U (drop (i * ?U) (A @ [l])) = take ?U (drop (i * ?U) A)" if "i < ?n" for i
  proof -
    have "Suc i * ?U \<le> length A"
      using that nle by (meson Suc_leI le_trans mult_le_mono1)
    then show ?thesis by simp
  qed
  show ?thesis
  proof (cases "length (A @ [l]) mod ?U = 0")
    case False
    then have div: "length (A @ [l]) div ?U = ?n"
      using U by (simp add: div_Suc)
    have "pf_rel q (A @ [l]) c"
      unfolding pf_rel_def div dn tk
    proof (intro conjI allI impI)
      show "pf_files q (pf_fout q + i) = Some (unl (take ?U (drop (i * ?U) (A @ [l]))))"
        if "i < ?n" for i
        using pre that unfolding bl [OF that] by (simp only: pf_pre_def)
    qed (use pre l in \<open>auto simp: pf_pre_def\<close>)
    with False q show ?thesis by (simp add: updateWrite_def)
  next
    case True
    then have div: "length (A @ [l]) div ?U = Suc ?n" using U by (simp add: div_Suc)
    have len: "length (A @ [l]) = Suc ?n * ?U"
      using dvd_div_mult_self [of ?U "length (A @ [l])"] True
      unfolding div by (simp add: dvd_eq_mod_eq_0)
    let ?f = "flushOut q"
    let ?q2 = "?f\<lparr>pf_fin := pf_fin ?f + 1, pf_files := (pf_files ?f)(pf_fin ?f + 1 \<mapsto> [])\<rparr>"
    have files: "pf_files ?q2 = (pf_files q)(pf_fin q \<mapsto> file_text q (pf_fin q) @ pf_outbuf q,
        Suc (pf_fin q) \<mapsto> [])" by (simp add: flushOut_def)
    have ft: "file_text ?q2 k = (if k = Suc (pf_fin q) then [] else if k = pf_fin q
        then file_text q k @ pf_outbuf q else file_text q k)" for k
      unfolding file_text_def files by simp
    have last: "file_text q (pf_fin q) @ pf_outbuf q = unl (take ?U (drop (?n * ?U) (A @ [l])))"
    proof -
      have "take ?U (drop (?n * ?U) (A @ [l])) = drop (?n * ?U) (A @ [l])"
        by (rule take_all) (simp only: length_drop len, simp)
      moreover have "file_text q (pf_fin q) @ pf_outbuf q = unl (drop (?n * ?U) A) @ l @ [NL]"
        using pre unfolding pf_pre_def by blast
      ultimately show ?thesis using dn by simp
    qed
    have fin: "pf_fin q = pf_fout q + ?n" using pre by (simp add: pf_pre_def)
    have "pf_rel ?q2 (A @ [l]) c"
      unfolding pf_rel_def div
    proof (intro conjI allI impI)
      show "pf_files ?q2 (pf_fout ?q2 + i) = Some (unl (take ?U (drop (i * ?U) (A @ [l]))))"
        if "i < Suc ?n" for i
      proof (cases "i = ?n")
        case True
        then show ?thesis using last fin unfolding files by (simp add: flushOut_def)
      next
        case False
        with that have "i < ?n" by simp
        then have "pf_files q (pf_fout q + i) = Some (unl (take ?U (drop (i * ?U) A)))"
          using pre unfolding pf_pre_def by blast
        then show ?thesis using fin \<open>i < ?n\<close> unfolding files bl [OF \<open>i < ?n\<close>]
          by (simp add: flushOut_def)
      qed
      show "take (pf_rpos ?q2) (file_text ?q2 (pf_fout ?q2)) = unl (take c (A @ [l])) @ pf_unread ?q2"
        using pre fin unfolding ft tk by (auto simp: pf_pre_def flushOut_def)
      show "pf_rpos ?q2 \<le> length (file_text ?q2 (pf_fout ?q2))"
        using pre fin unfolding ft by (auto simp: pf_pre_def flushOut_def)
      show "file_text ?q2 (pf_fin ?q2) @ pf_outbuf ?q2 = unl (drop (Suc ?n * ?U) (A @ [l]))"
        unfolding ft len [symmetric] by (simp add: flushOut_def)
    qed (use pre l U in \<open>auto simp: pf_pre_def flushOut_def BUF_SIZE_def\<close>)
    then have "pf_rel (updateWrite cr q) (A @ [l]) c"
      using True q pf_rel_frame(3) [of ?q2] by (simp add: updateWrite_def Let_def)
    with True q show ?thesis by (simp add: updateWrite_def Let_def flushOut_def)
  qed
qed


lemma storable_put:
  assumes good: "pf_good uc q" and st: "storable uc u"
  shows "\<exists>q'. pf_put uc cr u q = Some q' \<and> pf_good uc q' \<and> pf_items uc q' = pf_items uc q @ [u]"
proof -
  let ?l = "butlast (serialize uc u)"
  from good obtain A where A: "pf_rel q A (pf_out q)" "pf_in q = length A" "pf_out q < urlByFile"
    "list_all (\<lambda>l. url_read uc l \<noteq> None) A" by (auto simp: pf_good_def)
  from st have l: "line_ok ?l" "url_read uc ?l = Some u" by (auto simp: storable_def)
  obtain q1 where q1: "pf_writeUrl (?l @ [NL]) q = Some q1" "pf_pre q1 A (pf_out q) (?l @ [NL])"
    "pf_in q1 = pf_in q" "pf_out q1 = pf_out q" using pf_rel_write [OF A(1) l(1)] by blast
  let ?q2 = "q1\<lparr>pf_in := pf_in q1 + 1\<rparr>"
  have "pf_pre ?q2 A (pf_out q) (?l @ [NL])"
    using q1(2) unfolding pf_pre_def by (auto simp: file_text_upd)
  from pf_pre_roll [OF this l(1), of cr] A(2) q1(3,4) have
    r: "pf_rel (updateWrite cr ?q2) (A @ [?l]) (pf_out q)" "pf_in (updateWrite cr ?q2) = length A + 1"
    "pf_out (updateWrite cr ?q2) = pf_out q" by auto
  have A': "list_all (\<lambda>l. url_read uc l \<noteq> None) (A @ [?l])" using A(4) l(2) by simp
  have "pf_put uc cr u q = Some (updateWrite cr ?q2)"
    using q1(1) serialize_line [of uc u] by (simp add: pf_put_def)
  moreover have "pf_good uc (updateWrite cr ?q2)"
    unfolding pf_good_def by (rule exI [of _ "A @ [?l]"]) (use r A' A(3) in auto)
  moreover have "pf_out q \<le> length A" using A(1) by (simp add: pf_rel_def)
  then have "pf_items uc (updateWrite cr ?q2) = pf_items uc q @ [u]"
    using pf_inv_items [OF r(1) A'] pf_inv_items [OF A(1,4)] l(2) by simp
  ultimately show ?thesis by blast
qed

lemma good_get:
  assumes good: "pf_good uc q" and it: "pf_items uc q = x # xs"
  shows "\<exists>q'. pf_tryGet uc q = Some (Some x, q') \<and> pf_good uc q' \<and> pf_items uc q' = xs"
proof -
  let ?U = urlByFile
  from good obtain A where A: "pf_rel q A (pf_out q)" "pf_in q = length A" "pf_out q < ?U"
    "list_all (\<lambda>l. url_read uc l \<noteq> None) A" by (auto simp: pf_good_def)
  let ?c = "pf_out q"
  have items: "map (\<lambda>l. the (url_read uc l)) (drop ?c A) = x # xs"
    using pf_inv_items [OF A(1,4)] it by simp
  then have c: "?c < length A" by (cases "?c < length A") simp_all
  then have x: "url_read uc (A ! ?c) = Some x" and xs: "map (\<lambda>l. the (url_read uc l)) (drop (Suc ?c) A) = xs"
    using items A(4) by (auto simp: Cons_nth_drop_Suc [symmetric] list_all_length)
  have "pf_rel (if pf_unread q = [] then q\<lparr>pf_bufPos := 0\<rparr> else q) A ?c"
    using A(1) pf_rel_frame(5) by auto
  from readLine_loop_rel [OF this c A(3)] obtain q1 where
    q1: "readLine q = Some (A ! ?c, q1)" "pf_rel q1 A (Suc ?c)" "pf_in q1 = length A" "pf_out q1 = ?c"
    using A(2) by (auto simp: readLine_def split: if_splits)
  let ?q2 = "q1\<lparr>pf_out := pf_out q1 + 1\<rparr>"
  have rel2: "pf_rel ?q2 A (Suc ?c)" by (rule pf_rel_frame(2) [OF q1(2)])
  have get: "pf_tryGet uc q = map_option (\<lambda>q2. (Some x, q2)) (updateRead ?q2)"
    using A(2) c q1(1) x by (simp add: pf_tryGet_def pf_get_def option.map_comp comp_def)
  show ?thesis
  proof (cases "Suc ?c = ?U")
    case False
    then have "updateRead ?q2 = Some ?q2" using A(3) q1(4) by (simp add: updateRead_def)
    moreover have "pf_good uc ?q2"
      unfolding pf_good_def by (rule exI [of _ A]) (use rel2 q1 A False in auto)
    moreover have "pf_items uc ?q2 = xs" using pf_inv_items [OF rel2 A(4)] xs by simp
    ultimately show ?thesis using get by simp
  next
    case True
    have UA: "?U \<le> length A" using c True by simp
    then obtain m where n: "length A div ?U = Suc m"
      using urlByFile_pos by (cases "length A div ?U") (auto simp: div_eq_0_iff)
    have B: "length (drop ?U A) div ?U = m" using le_div_geq [OF urlByFile_pos UA] n by simp
    let ?q3 = "?q2\<lparr>pf_files := (pf_files ?q2)(pf_fout ?q2 := None), pf_fout := pf_fout ?q2 + 1,
        pf_rpos := 0, pf_in := pf_in ?q2 - pf_out ?q2, pf_out := 0\<rparr>"
    have fin: "pf_fin q1 = pf_fout q1 + Suc m" using q1(2) n by (simp add: pf_rel_def)
    have blk: "pf_files q1 (pf_fout q1 + i) = Some (unl (take ?U (drop (i * ?U) A)))" if "i < Suc m" for i
      using q1(2) that n unfolding pf_rel_def by simp
    have unread: "pf_unread q1 = []"
    proof -
      have "file_text q1 (pf_fout q1) = unl (take ?U A)"
        using blk [of 0] by (simp add: file_text_def)
      moreover have "take (pf_rpos q1) (file_text q1 (pf_fout q1)) = unl (take ?U A) @ pf_unread q1"
        using q1(2) True by (simp add: pf_rel_def)
      ultimately have "length (unl (take ?U A) @ pf_unread q1) \<le> length (unl (take ?U A))"
        by (metis length_take min.cobounded1)
      then show ?thesis by simp
    qed
    have ft: "file_text ?q3 k = (if k = pf_fout q1 then [] else file_text q1 k)" for k
      by (simp add: file_text_def)
    have last: "file_text q1 (pf_fin q1) @ pf_outbuf q1 = unl (drop (Suc m * ?U) A)"
      using q1(2) n unfolding pf_rel_def by metis
    have rel3: "pf_rel ?q3 (drop ?U A) 0"
      unfolding pf_rel_def B
    proof (intro conjI allI impI)
      show "list_all line_ok (drop ?U A)"
        using q1(2) by (auto simp: pf_rel_def list_all_iff dest: in_set_dropD)
      show "pf_files ?q3 (pf_fout ?q3 + i) = Some (unl (take ?U (drop (i * ?U) (drop ?U A))))"
        if "i < m" for i using blk [of "Suc i"] that by (simp add: add.commute)
      show "pf_files ?q3 (pf_fin ?q3) \<noteq> None"
      proof -
        have "pf_files q1 (pf_fin q1) \<noteq> None" using q1(2) unfolding pf_rel_def by blast
        then show ?thesis using fin by simp
      qed
      show "file_text ?q3 (pf_fin ?q3) @ pf_outbuf ?q3 = unl (drop (m * ?U) (drop ?U A))"
        using last fin unfolding ft by (simp add: add.commute)
    qed (use q1(2) fin unread in \<open>auto simp: pf_rel_def ft\<close>)
    have A3: "list_all (\<lambda>l. url_read uc l \<noteq> None) (drop ?U A)"
      using A(4) by (auto simp: list_all_iff dest: in_set_dropD)
    have "updateRead ?q2 = Some ?q3" using True q1(4) unread by (simp add: updateRead_def)
    moreover have "pf_good uc ?q3"
      unfolding pf_good_def
      by (rule exI [of _ "drop ?U A"]) (use rel3 A3 q1 True urlByFile_pos in auto)
    moreover have "pf_items uc ?q3 = xs" using pf_inv_items [OF rel3 A3] xs True by simp
    ultimately show ?thesis using get by simp
  qed
qed


interpretation disk: bounded_fifo "pf_put uc cr" "pf_tryGet uc" pf_getLength "pf_items uc"
    "pf_good uc" "\<lambda>_. None" "storable uc" for uc cr
proof (unfold_locales, goal_cases)
  case (1 q x) then show ?case using storable_put by blast
next
  case (2 q x) then show ?case by simp
next
  case (3 q)
  then obtain A where A: "pf_rel q A (pf_out q)" "pf_in q = length A"
    "list_all (\<lambda>l. url_read uc l \<noteq> None) A" by (auto simp: pf_good_def)
  then have "length A \<le> pf_out q" using pf_inv_items [OF A(1,3)] 3(2) by simp
  then have "pf_in q = pf_out q" using A(1,2) by (simp add: pf_rel_def)
  then show ?case by (simp add: pf_tryGet_def)
next
  case (4 q x xs) then show ?case using good_get by blast
next
  case (5 q)
  then obtain A where A: "pf_rel q A (pf_out q)" "pf_in q = length A"
    "list_all (\<lambda>l. url_read uc l \<noteq> None) A" by (auto simp: pf_good_def)
  then show ?case using pf_inv_items [OF A(1,3)] by (simp add: pf_getLength_def)
qed

lemma pf_scratch_good: "0 \<notin> set reads \<Longrightarrow> pf_good uc (pf_scratch reads) \<and> pf_items uc (pf_scratch reads) = []"
proof -
  assume r: "0 \<notin> set reads"
  have "pf_rel (pf_scratch reads) [] 0"
    using r by (simp add: pf_rel_def pf_scratch_def pf_open_def file_text_def BUF_SIZE_def)
  moreover from this have "pf_items uc (pf_scratch reads) = []" using pf_inv_items by fastforce
  ultimately show ?thesis using urlByFile_pos
    by (auto simp: pf_good_def pf_scratch_def pf_open_def intro!: exI [of _ "[]"])
qed

subsection \<open>Starting again\<close>

lemma getNumber_makeName: "nb < 10 ^ 6 \<Longrightarrow> getNumber (makeName base nb) = Some (int nb)"
proof -
  assume nb: "nb < 10 ^ 6"
  have d: "schar (digit_at nb k) - 48 = int (nb div 10 ^ k mod 10)" for k
  proof -
    have "cc (digit_at nb k) = 48 + nb div 10 ^ k mod 10"
      by (simp add: digit_at_def digit_chr_def)
    moreover have "nb div 10 ^ k mod 10 < 10" by simp
    ultimately show ?thesis by (simp only: schar_def) auto
  qed
  have s: "int (nb div 10 ^ k) = int (nb div 10 ^ Suc k) * 10 + int (nb div 10 ^ k mod 10)" for k
  proof -
    have "nb div 10 ^ Suc k = nb div 10 ^ k div 10" by (metis div_mult2_eq mult.commute power_Suc)
    then have "nb div 10 ^ k = nb div 10 ^ Suc k * 10 + nb div 10 ^ k mod 10" by simp
    then show ?thesis by (metis of_nat_add of_nat_mult of_nat_numeral)
  qed
  have "nb div 10 ^ Suc 5 = 0" "nb div 10 ^ 5 mod 10 = nb div 10 ^ 5"
    using nb by (simp_all add: less_mult_imp_div_less)
  then have "foldl (\<lambda>n c. n * 10 + (schar c - 48)) 0 (map (digit_at nb) [5, 4, 3, 2, 1, 0]) = int nb"
    using s [of 5] s [of 4] s [of 3] s [of 2] s [of 1] s [of 0]
    by (simp only: list.map foldl.simps d) simp
  then show ?thesis by (simp add: getNumber_def makeName_def)
qed


lemma scan_dir_range:
  assumes "\<forall>n \<in> set names. startWith base n \<longrightarrow> (\<exists>k \<in> {fout..fin}. n = makeName base k)"
    and "fin < 10 ^ 6" and "f = - 1 \<and> o' = - 1 \<or> (int fout \<le> o' \<and> o' \<le> f \<and> f \<le> int fin)"
  shows "\<exists>f1 o1. scan_dir base names (f, o') = Some (f1, o1) \<and>
    (\<forall>k. makeName base k \<in> set names \<and> k \<in> {fout..fin} \<and> startWith base (makeName base k) \<longrightarrow>
        o1 \<le> int k \<and> int k \<le> f1) \<and>
    (f1 = - 1 \<and> o1 = - 1 \<and> f = - 1 \<or> int fout \<le> o1 \<and> o1 \<le> f1 \<and> f1 \<le> int fin \<and>
        (f \<noteq> - 1 \<longrightarrow> o1 \<le> o' \<and> f \<le> f1))"
  using assms(1,3)
proof (induction names arbitrary: f o')
  case Nil
  then show ?case by auto
next
  case (Cons n ns)
  show ?case
  proof (cases "startWith base n")
    case False
    with Cons show ?thesis by fastforce
  next
    case True
    then obtain k where k: "k \<in> {fout..fin}" "n = makeName base k" using Cons.prems(1) by auto
    then have g: "getNumber n = Some (int k)" using getNumber_makeName [of k base] assms(2) by auto
    have inj: "j = k" if "makeName base j = n" "j \<in> {fout..fin}" for j
      using g getNumber_makeName [of j base] that assms(2) by auto
    let ?f = "if f = - 1 then int k else if int k > f then int k else f"
    let ?o = "if f = - 1 then int k else if int k < o' then int k else o'"
    have "int fout \<le> ?o \<and> ?o \<le> ?f \<and> ?f \<le> int fin" using k(1) Cons.prems(2) by auto
    then obtain f1 o1 where ih: "scan_dir base ns (?f, ?o) = Some (f1, o1)"
      "\<forall>k. makeName base k \<in> set ns \<and> k \<in> {fout..fin} \<and> startWith base (makeName base k) \<longrightarrow>
        o1 \<le> int k \<and> int k \<le> f1"
      "int fout \<le> o1 \<and> o1 \<le> f1 \<and> f1 \<le> int fin \<and> o1 \<le> ?o \<and> ?f \<le> f1"
      using Cons.IH [of ?f ?o] Cons.prems(1) by fastforce
    have "scan_dir base (n # ns) (f, o') = Some (f1, o1)"
      using True g ih(1) Cons.prems(2) by (auto split: if_splits)
    moreover have "o1 \<le> int k \<and> int k \<le> f1" using ih(3) Cons.prems(2) by (auto split: if_splits)
    ultimately show ?thesis using ih(2,3) inj Cons.prems(2) by (auto split: if_splits)
  qed
qed

lemma scan_dir_own:
  assumes "\<forall>n \<in> set names. startWith base n \<longrightarrow> (\<exists>k \<in> {fout..fin}. n = makeName base k)"
    and "fin < 10 ^ 6" "fout \<le> fin" "makeName base fout \<in> set names" "makeName base fin \<in> set names"
  shows "scan_dir base names (- 1, - 1) = Some (int fin, int fout)"
proof -
  have sw: "startWith base (makeName base k)" for k by (simp add: startWith_prefix makeName_def)
  from scan_dir_range [OF assms(1,2), of "- 1" "- 1"] obtain f1 o1 where
    "scan_dir base names (- 1, - 1) = Some (f1, o1)"
    "o1 \<le> int fout" "int fin \<le> f1" "int fout \<le> o1" "f1 \<le> int fin"
    using assms(3,4,5) sw by fastforce
  then show ?thesis by auto
qed

subsection \<open>Properties\<close>

text \<open>C9: The queue on disk gives back the urls put into it in order, however many files they
  fill and however the system cuts the files into reads; \<open>getLength\<close> is their number, no
  assertion fails and every call returns.\<close>

theorem PersFifo_first_in_first_out:
  assumes "0 \<notin> set reads" and "list_all (storable uc) us"
  shows "\<exists>q'. put_all (pf_put uc cr) us (pf_scratch reads) = Some q' \<and>
           pf_getLength q' = length us \<and>
           drain (pf_tryGet uc) (length us) q' = Some (map Some us)"
  using pf_scratch_good [OF assms(1), of uc] assms(2)
  by (intro disk.first_in_first_out) auto

lemma storable_plain:
  assumes "u = (url_init d)\<lparr>u_host := Some h, u_port := p, u_file := Some f\<rparr>"
    and "CHR '':'' \<notin> set h" "at_nul f 0 = CHR ''/''" "NL \<notin> set h" "NL \<notin> set f" "isValid u"
    and "- (2 ^ 31) \<le> d" "d < 2 ^ 31"
  shows "storable False u"
proof -
  have "url_read False (butlast (serialize False u)) = Some u"
    using assms by (intro url_read_back [of _ h f]) (auto simp: url_init_def)
  moreover have "NL \<notin> set (dec n)" for n
    using dec_all_digits [of n] by (auto simp: NL_def is_digit_def)
  then have "NL \<notin> set (butlast (serialize False u))"
    using assms by (simp add: serialize_def butlast_append print_uint_def host_str_def file_str_def
        port_str_def NL_def)
  moreover have "length (butlast (serialize False u)) + 1 < maxUrlSize + 40 + maxCookieSize"
    using assms(1,6) print_uint_length [of "u_depth u"] port_str_length [of u]
    by (simp add: serialize_def butlast_append isValid_def host_str_def file_str_def size_defs)
  ultimately show ?thesis by (simp add: storable_def line_ok_def)
qed


theorem PersFifo_first_in_first_out_witness:
  "\<exists>q'. put_all (pf_put False False)
          (replicate 3 ((url_init 5)\<lparr>u_host := Some ''h'', u_port := 80, u_file := Some ''/''\<rparr>))
          (pf_scratch [7, 1]) = Some q' \<and>
     pf_getLength q' = 3"
proof -
  let ?u = "(url_init 5)\<lparr>u_host := Some ''h'', u_port := 80, u_file := Some ''/''\<rparr>"
  have "storable False ?u"
    by (rule storable_plain [OF refl]) (simp_all add: at_nul_def NL_def isValid_def url_init_def size_defs)
  then have "list_all (storable False) (replicate 3 ?u)" by (simp add: list_all_iff)
  from PersFifo_first_in_first_out [OF _ this, of "[7, 1]" False] show ?thesis by auto
qed

text \<open>After a stop, \<open>--reload\<close> restores the queue from the directory up to its last file:
  fewer than \<open>urlByFile\<close> of the last urls are lost (those of the unfinished file), and the
  urls already taken from the first file come again.\<close>

theorem PersFifo_reload:
  assumes good: "pf_good uc q" and ks: "0 \<notin> set ks" and f: "pf_fout q < pf_fin q" "pf_fin q < 10 ^ 6"
    and names: "\<forall>n \<in> set names. startWith base n \<longrightarrow> (\<exists>k \<in> {pf_fout q..pf_fin q}. n = makeName base k)"
      "makeName base (pf_fout q) \<in> set names" "makeName base (pf_fin q) \<in> set names"
  shows "\<exists>q' again kept lost. pf_reload base names (pf_files q) ks = Some q' \<and> pf_good uc q' \<and>
     pf_items uc q = kept @ lost \<and> length lost < urlByFile \<and>
     pf_items uc q' = again @ kept \<and> length again = pf_out q"
proof -
  let ?U = urlByFile and ?u = "\<lambda>l. the (url_read uc l)"
  from good obtain A where A: "pf_rel q A (pf_out q)" "pf_in q = length A" "pf_out q < ?U"
    "list_all (\<lambda>l. url_read uc l \<noteq> None) A" by (auto simp: pf_good_def)
  define n where "n = length A div ?U"
  let ?B = "take (n * ?U) A"
  let ?q = "pf_open (pf_fin q) (pf_fout q) (pf_files q) ks"
  have fin: "pf_fin q = pf_fout q + n" using A(1) by (simp add: pf_rel_def n_def)
  have lB: "length ?B = n * ?U" by (simp add: n_def)
  have dB: "length ?B div ?U = n" using urlByFile_pos unfolding lB by simp
  have ft: "file_text ?q k = (if k = pf_fin q then [] else file_text q k)" for k
    by (simp add: file_text_def pf_open_def)
  have rel: "pf_rel ?q ?B 0"
    unfolding pf_rel_def dB
  proof (intro conjI allI impI)
    show "list_all line_ok ?B"
      using A(1) by (auto simp: pf_rel_def list_all_iff dest: in_set_takeD)
    show "pf_files ?q (pf_fout ?q + i) = Some (unl (take ?U (drop (i * ?U) ?B)))" if "i < n" for i
    proof -
      have "Suc i * ?U \<le> n * ?U" using that by (intro mult_le_mono1) simp
      then have "take ?U (drop (i * ?U) ?B) = take ?U (drop (i * ?U) A)"
        by (simp add: drop_take min_def)
      moreover have "pf_files q (pf_fout q + i) = Some (unl (take ?U (drop (i * ?U) A)))"
        using A(1) that unfolding pf_rel_def n_def by blast
      ultimately show ?thesis using that fin by (simp add: pf_open_def)
    qed
    show "file_text ?q (pf_fin ?q) @ pf_outbuf ?q = unl (drop (n * ?U) ?B)"
      unfolding ft by (simp add: pf_open_def)
  qed (use fin ks in \<open>auto simp: pf_open_def BUF_SIZE_def\<close>)
  have okB: "list_all (\<lambda>l. url_read uc l \<noteq> None) ?B"
    using A(4) by (auto simp: list_all_iff dest: in_set_takeD)
  have "pf_good uc ?q"
    unfolding pf_good_def
    by (rule exI [of _ ?B]) (use rel okB lB fin urlByFile_pos in \<open>auto simp: pf_open_def\<close>)
  moreover have "scan_dir base names (- 1, - 1) = Some (int (pf_fin q), int (pf_fout q))"
    using scan_dir_own [OF names(1) f(2) _ names(2,3)] f by simp
  then have "pf_reload base names (pf_files q) ks = Some ?q"
    using f by (simp add: pf_reload_def)
  moreover have o: "pf_out q \<le> n * ?U"
  proof -
    have "?U \<le> n * ?U" using f fin by (cases n) auto
    then show ?thesis using A(3) by linarith
  qed
  have "drop (pf_out q) A = drop (pf_out q) ?B @ drop (n * ?U) A"
    using o by (metis append_take_drop_id drop_append diff_is_0_eq drop0 lB)
  then have "pf_items uc q = map ?u (drop (pf_out q) ?B) @ map ?u (drop (n * ?U) A)"
    using pf_inv_items [OF A(1,4)] by (metis map_append)
  moreover have "length (map ?u (drop (n * ?U) A)) < ?U"
    using urlByFile_pos by (simp add: n_def minus_div_mult_eq_mod)
  moreover have "pf_items uc ?q = map ?u (take (pf_out q) ?B) @ map ?u (drop (pf_out q) ?B)"
    using pf_inv_items [OF rel okB] by (metis append_take_drop_id drop0 map_append)
  moreover have "length (map ?u (take (pf_out q) ?B)) = pf_out q" using o lB by simp
  ultimately show ?thesis by blast
qed

theorem PersFifo_reload_witness:
  "\<exists>q'. pf_reload ''fifo'' [makeName ''fifo'' 1, ''x'', makeName ''fifo'' 0]
      (pf_files (pf_open 1 0 (\<lambda>_. Some (unl (replicate urlByFile ''5 h:80/''))) [])) [3] = Some q' \<and>
     pf_good False q'"
proof -
  let ?l = "''5 h:80/''"
  let ?A = "replicate urlByFile ?l"
  let ?q = "pf_open 1 0 (\<lambda>_. Some (unl ?A)) []"
  let ?u = "(url_init 5)\<lparr>u_host := Some ''h'', u_port := 80, u_file := Some ''/''\<rparr>"
  have p: "dec 5 = ''5''" "dec 80 = ''80''" by (simp_all add: dec.simps digit_chr_def chr_def char_of_def bit_iff_odd)
  have st: "storable False ?u"
    by (rule storable_plain [OF refl]) (simp_all add: at_nul_def NL_def isValid_def url_init_def size_defs)
  moreover have "butlast (serialize False ?u) = ?l"
    by (simp add: serialize_def url_init_def print_uint_def host_str_def file_str_def port_str_def p)
  ultimately have l: "line_ok ?l" "url_read False ?l = Some ?u" by (simp_all add: storable_def)
  have d: "length ?A div urlByFile = 1" using urlByFile_pos by simp
  have "pf_rel ?q ?A 0"
    unfolding pf_rel_def d using l(1)
    by (simp add: pf_open_def file_text_def list_all_iff BUF_SIZE_def)
  then have good: "pf_good False ?q"
    unfolding pf_good_def using l(2) urlByFile_pos
    by (intro exI [of _ ?A]) (simp add: pf_open_def list_all_iff)
  show ?thesis
    using PersFifo_reload [OF good, of "[3]" "[makeName ''fifo'' 1, ''x'', makeName ''fifo'' 0]" "''fifo''"]
    by (fastforce simp: pf_open_def)
qed

text \<open>A stop is refused when only one file exists that is not the first; and the base name
  of the main queue, \<open>fifo\<close>, is a prefix of the names of the other one, \<open>fifowait\<close>, so its
  scan counts their files as its own.\<close>

theorem PersFifo_reload_confusion:
  "scan_dir ''fifo'' [''fifo000000'', ''fifo000001'', ''fifowait000007''] (- 1, - 1) = Some (7, 0) \<and>
   map_option pf_getLength
     (pf_reload ''fifo'' [''fifo000000'', ''fifo000001'', ''fifowait000007''] files ks) =
     Some (7 * urlByFile) \<and>
   pf_reload ''fifo'' [''fifo000003''] files ks = None"
proof -
  have s: "scan_dir ''fifo'' [''fifo000000'', ''fifo000001'', ''fifowait000007''] (- 1, - 1) = Some (7, 0)"
    "scan_dir ''fifo'' [''fifo000003''] (- 1, - 1) = Some (3, 3)"
    by (simp_all add: getNumber_def schar_def numeral_3_eq_3)
  show ?thesis unfolding pf_reload_def s by (simp add: pf_getLength_def pf_open_def)
qed

end
