(* ===== verification/Buffers.thy ===== *)
theory Buffers
  imports Larbin_Types
begin

section \<open>Growing arrays (src/utils/string.cxx, src/utils/vector.h)\<close>

text \<open>
  \<open>LarbinString\<close>, in which requests and pages are built, and \<open>Vector\<close>, which holds the
  forbidden paths of a site and the lists of the configuration. The state has the allocated
  size beside the content; a write at or after the allocated size is \<open>None\<close>.
\<close>

subsection \<open>LarbinString\<close>

record lstring =
  ls_chars :: string
  ls_size :: nat

definition ls_store :: "string \<Rightarrow> nat \<Rightarrow> lstring option" where
  "ls_store s sz = (if length s < sz then Some \<lparr>ls_chars = s, ls_size = sz\<rparr> else None)"

definition LarbinString_new :: "nat \<Rightarrow> lstring option" where
  "LarbinString_new sz = ls_store [] sz"

definition ls_recycle :: "nat \<Rightarrow> lstring \<Rightarrow> lstring option" where
  "ls_recycle sz s = ls_store [] (if ls_size s > sz then sz else ls_size s)"

text \<open>\<open>addChar\<close> writes first and grows after, \<open>addBuffer\<close> grows first.\<close>

definition addChar :: "char \<Rightarrow> lstring \<Rightarrow> lstring option" where
  "addChar c s =
     (if length (ls_chars s) \<ge> ls_size s then None
      else ls_store (ls_chars s @ [c])
             (if length (ls_chars s) + 1 \<ge> ls_size s then ls_size s * 2 else ls_size s))"

definition addBuffer :: "string \<Rightarrow> lstring \<Rightarrow> lstring option" where
  "addBuffer b s =
     (let need = length (ls_chars s) + length b;
          sz = (if ls_size s \<le> need
                then (if ls_size s * 2 \<le> need then need + 1 else ls_size s * 2)
                else ls_size s)
      in ls_store (ls_chars s @ b) sz)"

definition addString :: "string \<Rightarrow> lstring \<Rightarrow> lstring option" where
  "addString b s = addBuffer (takeWhile (\<lambda>c. c \<noteq> NUL) b) s"

definition ls_setChar :: "nat \<Rightarrow> char \<Rightarrow> lstring \<Rightarrow> lstring" where
  "ls_setChar i c s = s\<lparr>ls_chars := (ls_chars s)[i := c]\<rparr>"

definition ls_inv :: "lstring \<Rightarrow> bool" where
  "ls_inv s \<longleftrightarrow> length (ls_chars s) < ls_size s"

lemma ls_new: "0 < sz \<Longrightarrow> \<exists>s. LarbinString_new sz = Some s \<and> ls_inv s \<and> ls_chars s = []"
  by (simp add: LarbinString_new_def ls_store_def ls_inv_def)

lemma addChar_ok:
  "ls_inv s \<Longrightarrow> \<exists>s'. addChar c s = Some s' \<and> ls_inv s' \<and> ls_chars s' = ls_chars s @ [c]"
  by (auto simp: addChar_def ls_store_def ls_inv_def)

lemma addBuffer_ok:
  "ls_inv s \<Longrightarrow> \<exists>s'. addBuffer b s = Some s' \<and> ls_inv s' \<and> ls_chars s' = ls_chars s @ b"
  by (auto simp: addBuffer_def ls_store_def ls_inv_def Let_def)

lemma addString_ok:
  "ls_inv s \<Longrightarrow> no_nul b \<Longrightarrow> \<exists>s'. addString b s = Some s' \<and> ls_inv s' \<and> ls_chars s' = ls_chars s @ b"
proof -
  assume a: "ls_inv s" "no_nul b"
  have "\<forall>c \<in> set b. c \<noteq> NUL" using a(2) by (auto simp: no_nul_def)
  then have "takeWhile (\<lambda>c. c \<noteq> NUL) b = b" by (simp only: takeWhile_eq_all_conv)
  then show ?thesis unfolding addString_def using addBuffer_ok [OF a(1), of b] by metis
qed

text \<open>A sequence of \<open>addString\<close>, as the request builders make them.\<close>

fun addStrings :: "string list \<Rightarrow> lstring \<Rightarrow> lstring option" where
  "addStrings [] s = Some s"
| "addStrings (b # bs) s = (case addString b s of None \<Rightarrow> None | Some s' \<Rightarrow> addStrings bs s')"

lemma addStrings_ok:
  "ls_inv s \<Longrightarrow> list_all no_nul bs \<Longrightarrow>
   \<exists>s'. addStrings bs s = Some s' \<and> ls_inv s' \<and> ls_chars s' = ls_chars s @ concat bs"
proof (induction bs arbitrary: s)
  case (Cons b bs)
  then obtain s1 where "addString b s = Some s1" "ls_inv s1" "ls_chars s1 = ls_chars s @ b"
    using addString_ok [of s b] by auto
  with Cons.IH [of s1] Cons.prems show ?case by auto
qed simp

subsection \<open>Vector\<close>

record 'a vector =
  v_tab :: "'a option list"
  v_pos :: nat

definition Vector_new :: "nat \<Rightarrow> 'a vector" where
  "Vector_new sz = \<lparr>v_tab = replicate sz None, v_pos = 0\<rparr>"

definition Vector_recycle :: "'a vector \<Rightarrow> 'a vector" where
  "Vector_recycle v = v\<lparr>v_pos := 0\<rparr>"

text \<open>The assertion \<open>pos <= size\<close>, then the array doubles when it is full. An array of size 0
  stays full, and the store after it is out of bounds.\<close>

definition Vector_addElement :: "'a \<Rightarrow> 'a vector \<Rightarrow> 'a vector option" where
  "Vector_addElement x v =
     (if v_pos v > length (v_tab v) then None
      else
        let tab = (if v_pos v = length (v_tab v)
                   then take (v_pos v) (v_tab v) @ replicate (2 * length (v_tab v) - v_pos v) None
                   else v_tab v)
        in if v_pos v < length tab
           then Some \<lparr>v_tab = tab[v_pos v := Some x], v_pos = v_pos v + 1\<rparr>
           else None)"

definition Vector_getLength :: "'a vector \<Rightarrow> nat" where
  "Vector_getLength v = v_pos v"

definition Vector_nth :: "'a vector \<Rightarrow> nat \<Rightarrow> 'a option" where
  "Vector_nth v i = (if i < v_pos v then v_tab v ! i else None)"

definition Vector_inv :: "'a vector \<Rightarrow> 'a list \<Rightarrow> bool" where
  "Vector_inv v xs \<longleftrightarrow> 0 < length (v_tab v) \<and> v_pos v = length xs \<and> v_pos v \<le> length (v_tab v) \<and>
     take (v_pos v) (v_tab v) = map Some xs"

lemma Vector_new_inv: "0 < sz \<Longrightarrow> Vector_inv (Vector_new sz) []"
  by (simp add: Vector_inv_def Vector_new_def)

lemma Vector_add_inv:
  assumes "Vector_inv v xs"
  shows "\<exists>v'. Vector_addElement x v = Some v' \<and> Vector_inv v' (xs @ [x])"
proof -
  from assms have v: "0 < length (v_tab v)" "v_pos v = length xs" "v_pos v \<le> length (v_tab v)"
    "take (length xs) (v_tab v) = map Some xs" by (auto simp: Vector_inv_def)
  let ?tab = "if v_pos v = length (v_tab v)
    then take (v_pos v) (v_tab v) @ replicate (2 * length (v_tab v) - v_pos v) None else v_tab v"
  have t: "take (length xs) ?tab = map Some xs" "length xs < length ?tab"
    using v by auto
  let ?v = "\<lparr>v_tab = ?tab[v_pos v := Some x], v_pos = v_pos v + 1\<rparr>"
  have "Vector_addElement x v = Some ?v"
    using v t(2) by (simp add: Vector_addElement_def Let_def)
  moreover have "take (Suc (length xs)) (?tab[length xs := Some x]) = map Some (xs @ [x])"
    using t by (simp add: take_Suc_conv_app_nth)
  then have "Vector_inv ?v (xs @ [x])" using v t(2) by (auto simp: Vector_inv_def)
  ultimately show ?thesis by blast
qed

lemma Vector_nth_inv:
  "Vector_inv v xs \<Longrightarrow> Vector_nth v i = (if i < length xs then Some (xs ! i) else None)"
proof -
  assume v: "Vector_inv v xs"
  have "v_tab v ! i = Some (xs ! i)" if "i < length xs"
  proof -
    have "take (length xs) (v_tab v) ! i = map Some xs ! i" using v unfolding Vector_inv_def by metis
    with that show ?thesis by simp
  qed
  with v show ?thesis by (auto simp: Vector_nth_def Vector_inv_def)
qed

fun vector_of :: "'a list \<Rightarrow> 'a vector \<Rightarrow> 'a vector option" where
  "vector_of [] v = Some v"
| "vector_of (x # xs) v = (case Vector_addElement x v of None \<Rightarrow> None | Some v' \<Rightarrow> vector_of xs v')"

lemma vector_of_inv:
  "Vector_inv v ys \<Longrightarrow> \<exists>v'. vector_of xs v = Some v' \<and> Vector_inv v' (ys @ xs)"
proof (induction xs arbitrary: v ys)
  case (Cons x xs)
  from Vector_add_inv [OF Cons.prems, of x] obtain v1 where
    "Vector_addElement x v = Some v1" "Vector_inv v1 (ys @ [x])" by blast
  with Cons.IH [of v1 "ys @ [x]"] show ?case by simp
qed simp

subsection \<open>Properties\<close>

text \<open>However many pieces a request or a page is built from, every write of \<open>LarbinString\<close>,
  terminator included, stays inside the array, and the content is their concatenation.\<close>

theorem LarbinString_builds:
  assumes "0 < sz" and "list_all no_nul bs"
  shows "\<exists>s s'. LarbinString_new sz = Some s \<and> addStrings bs s = Some s' \<and>
           ls_chars s' = concat bs \<and> length (ls_chars s') < ls_size s' \<and>
           (\<forall>c. \<exists>s''. addChar c s' = Some s'' \<and> ls_chars s'' = concat bs @ [c])"
proof -
  obtain s where s: "LarbinString_new sz = Some s" "ls_inv s" "ls_chars s = []"
    using ls_new [OF assms(1)] by blast
  with addStrings_ok [OF s(2) assms(2)] obtain s' where
    s': "addStrings bs s = Some s'" "ls_inv s'" "ls_chars s' = concat bs" by auto
  from addChar_ok [OF s'(2)] s s' show ?thesis by (fastforce simp: ls_inv_def)
qed

theorem LarbinString_builds_witness:
  "\<exists>s s'. LarbinString_new 4 = Some s \<and> addStrings [''GET /'', '' HTTP/1.0''] s = Some s' \<and>
     ls_chars s' = ''GET / HTTP/1.0''"
  using LarbinString_builds [of 4 "[''GET /'', '' HTTP/1.0'']"]
  by (fastforce simp: no_nul_def NUL_def)

text \<open>A \<open>Vector\<close> of any positive size never fails its assertion and answers an index with
  the element added there, and with NULL past the end.\<close>

theorem Vector_as_list:
  assumes "0 < sz"
  shows "\<exists>v. vector_of xs (Vector_new sz) = Some v \<and> Vector_getLength v = length xs \<and>
    (\<forall>i. Vector_nth v i = (if i < length xs then Some (xs ! i) else None))"
proof -
  from vector_of_inv [OF Vector_new_inv [OF assms], of xs] obtain v where
    v: "vector_of xs (Vector_new sz) = Some v" "Vector_inv v xs" by auto
  then show ?thesis using Vector_nth_inv [OF v(2)] by (auto simp: Vector_getLength_def Vector_inv_def)
qed

theorem Vector_as_list_witness:
  "\<exists>v. vector_of [10, 20, 30 :: nat] (Vector_new 1) = Some v \<and> Vector_nth v 2 = Some 30"
  using Vector_as_list [of 1 "[10, 20, 30 :: nat]"] by fastforce

end
