(* ===== verification/Site.thy ===== *)
theory Site
  imports PersFifo Buffers "HOL-Library.Monad_Syntax"
begin

section \<open>Sites (src/fetch/site.cxx, sequencer.cxx, fetch_open.cxx)\<close>

text \<open>
  The heart of the crawler: each url in memory belongs to a \<open>NamedSite\<close> (chosen by the hash of
  its host) until dns and robots.txt are known, then to an \<open>IPSite\<close> (chosen by its address)
  until it is fetched. The state of the process is one record; pointers to sites and
  connections are indices into their tables. A result \<open>None\<close> is a failed assertion, a store
  outside an array, or a call on an empty queue.

  The outside: \<open>w_sockets\<close> is what the next attempts to connect will give, \<open>w_answers\<close> the dns
  answers not yet collected; \<open>aton\<close> stands for the library function \<open>inet_aton\<close>.
  \<open>w_failed\<close> and \<open>w_loaded\<close> are the calls of the user's functions \<open>failure\<close> and \<open>loaded\<close>.
\<close>

datatype ConnState = emptyC | connectingC | writeC | openC

datatype DnsState = waitDns | doneDns | errorDns | noConnDns

datatype parser = No_parser | Robots_parser nat | Html_parser url

record connexion =
  c_state :: ConnState
  c_pos :: int
  c_err :: FetchError
  c_timeout :: int
  c_request :: string
  c_parser :: parser
  c_peer :: "nat \<times> nat"

record named_site =
  ns_cname :: "string option"
  ns_name :: string
  ns_port :: "16 word"
  ns_nburls :: int
  ns_fifo :: "url ring"
  ns_isInFifo :: bool
  ns_dnsState :: DnsState
  ns_addr :: nat
  ns_ipHash :: nat
  ns_dnsTimeout :: int
  ns_forbidden :: "string list"

record ip_site =
  ip_lastAccess :: int
  ip_isInFifo :: bool
  ip_tab :: "url ring"

datatype sock_result = No_socket | Connects | In_progress | Refused

datatype dns_answer = Prohibited_cname string | Dns_ok nat | Dns_fail

record stats =
  st_namedUrl :: int
  st_IPUrl :: int
  st_urls :: nat
  st_missUrl :: nat
  st_sites :: nat
  st_ipsites :: nat
  st_siteSeen :: nat
  st_siteDNS :: nat
  st_hashUrls :: nat
  st_interestingExtension :: nat
  st_extensionTreated :: nat
  st_pages :: nat
  st_interestingPage :: nat
  st_interestingSeen :: nat
  st_siteRobots :: nat
  st_robotsOK :: nat
  st_read :: nat
  st_written :: nat
  st_answers :: "nat list"

record world =
  w_now :: int
  w_ns :: "nat \<Rightarrow> named_site"
  w_ip :: "nat \<Rightarrow> ip_site"
  w_okSites :: "nat ring"
  w_dnsSites :: "nat ring"
  w_freeConns :: "nat ring"
  w_conns :: "nat \<Rightarrow> connexion"
  w_inter :: interval
  w_space :: int
  w_priority :: "url ring"
  w_priorityWait :: "url ring"
  w_readPriorityWait :: nat
  w_disk :: pfifo
  w_diskWait :: pfifo
  w_readWait :: nat
  w_seen :: bytes
  w_hDup :: bytes
  w_remainBand :: int
  w_next_call :: int
  w_nbDnsCalls :: int
  w_pending :: "(string \<times> nat) list"
  w_sockets :: "sock_result list"
  w_answers :: "(nat \<times> dns_answer) list"
  w_failed :: "(url \<times> FetchError) list"
  w_loaded :: "(url \<times> string) list"
  w_stats :: stats
  w_canReload :: bool
  w_printStats :: bool

subsection \<open>Updates of one site, one address, one connection, the counters\<close>

definition upd_ns :: "nat \<Rightarrow> (named_site \<Rightarrow> named_site) \<Rightarrow> world \<Rightarrow> world" where
  "upd_ns k f w = w\<lparr>w_ns := (w_ns w)(k := f (w_ns w k))\<rparr>"

definition upd_ip :: "nat \<Rightarrow> (ip_site \<Rightarrow> ip_site) \<Rightarrow> world \<Rightarrow> world" where
  "upd_ip j f w = w\<lparr>w_ip := (w_ip w)(j := f (w_ip w j))\<rparr>"

definition upd_conn :: "nat \<Rightarrow> (connexion \<Rightarrow> connexion) \<Rightarrow> world \<Rightarrow> world" where
  "upd_conn c f w = w\<lparr>w_conns := (w_conns w)(c := f (w_conns w c))\<rparr>"

definition upd_stats :: "(stats \<Rightarrow> stats) \<Rightarrow> world \<Rightarrow> world" where
  "upd_stats f w = w\<lparr>w_stats := f (w_stats w)\<rparr>"

definition inter_getOne :: "world \<Rightarrow> world" where
  "inter_getOne w = w\<lparr>w_inter := Interval_getOne (w_inter w)\<rparr>"

text \<open>\<open>answers[i]++\<close> on the array of \<open>nbAnswers\<close> counters.\<close>

definition answers_incr :: "FetchError \<Rightarrow> world \<Rightarrow> world option" where
  "answers_incr e w =
     (if fetch_code e < nbAnswers
      then Some (upd_stats (\<lambda>s. s\<lparr>st_answers :=
             (st_answers s)[fetch_code e := st_answers s ! fetch_code e + 1]\<rparr>) w)
      else None)"

text \<open>The user's \<open>failure\<close> is called, in a specific search only for urls of interest.\<close>

definition fetchFail :: "config \<Rightarrow> bool \<Rightarrow> url \<Rightarrow> FetchError \<Rightarrow> world \<Rightarrow> world" where
  "fetchFail g interesting u e w =
     (if g_specificSearch g \<longrightarrow> interesting \<or>
           (g_privilegedExts g \<noteq> [] \<and> matchPrivExt (g_specificSearch g) (g_privilegedExts g) (file_str u))
      then w\<lparr>w_failed := w_failed w @ [(u, e)]\<rparr> else w)"

definition dnsSites_put :: "nat \<Rightarrow> world \<Rightarrow> world" where
  "dnsSites_put k w = w\<lparr>w_dnsSites := Fifo_put k (w_dnsSites w)\<rparr>"

definition okSites_put :: "nat \<Rightarrow> world \<Rightarrow> world" where
  "okSites_put j w = w\<lparr>w_okSites := Fifo_put j (w_okSites w)\<rparr>"

definition okSites_rePut :: "nat \<Rightarrow> world \<Rightarrow> world" where
  "okSites_rePut j w = w\<lparr>w_okSites := Fifo_rePut j (w_okSites w)\<rparr>"

definition freeConns_get :: "world \<Rightarrow> (nat \<times> world) option" where
  "freeConns_get w =
     (case ConstFifo_tryGet (w_freeConns w) of
        (None, _) \<Rightarrow> None
      | (Some c, q) \<Rightarrow> Some (c, w\<lparr>w_freeConns := q\<rparr>))"

definition freeConns_put :: "nat \<Rightarrow> world \<Rightarrow> world option" where
  "freeConns_put c w = map_option (\<lambda>q. w\<lparr>w_freeConns := q\<rparr>) (ConstFifo_put c (w_freeConns w))"

text \<open>The name by which a url is known to its site: \<open>u->getPunycode()\<close>.\<close>

definition puny :: "config \<Rightarrow> url \<Rightarrow> string option" where
  "puny g u = map_option fst (getPunycode (g_punycode g) u)"

subsection \<open>Opening a socket\<close>

text \<open>\<open>verifMax\<close> belongs to the poll arrays and is left out here.\<close>

definition getFds :: "config \<Rightarrow> nat \<Rightarrow> nat \<Rightarrow> 16 word \<Rightarrow> world \<Rightarrow> ConnState \<times> world" where
  "getFds g c addr port w =
     (case w_sockets w of
        [] \<Rightarrow> (emptyC, w)
      | r # rs \<Rightarrow>
          (let w1 = w\<lparr>w_sockets := rs\<rparr>;
               peer = (case g_proxyAddr g of Some p \<Rightarrow> (p, 0) | None \<Rightarrow> (addr, unat port));
               w2 = upd_conn c (\<lambda>x. x\<lparr>c_peer := peer\<rparr>) w1
           in case r of
                No_socket \<Rightarrow> (emptyC, w1)
              | Connects \<Rightarrow> (writeC, w2)
              | In_progress \<Rightarrow> (connectingC, w2)
              | Refused \<Rightarrow> (emptyC, w2)))"

definition start_request :: "nat \<Rightarrow> string \<Rightarrow> parser \<Rightarrow> ConnState \<Rightarrow> world \<Rightarrow> world" where
  "start_request c req p st w =
     upd_conn c (\<lambda>x. x\<lparr>c_timeout := timeoutPage, c_request := c_request x @ req, c_parser := p,
                       c_pos := 0, c_err := success, c_state := st\<rparr>) w"

text \<open>\<open>pages()\<close>, in the constructor of class html\<close>

definition new_page :: "world \<Rightarrow> world" where
  "new_page w = upd_stats (\<lambda>s. s\<lparr>st_pages := st_pages s + 1\<rparr>) w"

definition CRNL :: string where
  "CRNL = [CR, NL]"

subsection \<open>IPSite\<close>

text \<open>\<open>getUrl\<close>: the url leaves the memory.\<close>

definition ip_getUrl :: "config \<Rightarrow> nat \<Rightarrow> world \<Rightarrow> (url \<times> world) option" where
  "ip_getUrl g j w =
     (case Fifo_get (ip_tab (w_ip w j)) of
        Some (Some u, t) \<Rightarrow>
          (let w1 = upd_ip j (\<lambda>s. s\<lparr>ip_tab := t\<rparr>) w;
               w2 = upd_stats (\<lambda>s. s\<lparr>st_IPUrl := st_IPUrl s - 1, st_urls := st_urls s + 1\<rparr>) w1;
               w3 = upd_ns (hostHashCode u) (\<lambda>s. s\<lparr>ns_nburls := ns_nburls s - 1\<rparr>) w2;
               w4 = inter_getOne w3
           in Some (u, if g_specificSearch g \<and> w_printStats w \<and> g_privilegedExts g \<noteq> []
                         \<and> matchPrivExt (g_specificSearch g) (g_privilegedExts g) (file_str u)
                       then upd_stats (\<lambda>s. s\<lparr>st_extensionTreated := st_extensionTreated s + 1\<rparr>) w4
                       else w4))
      | _ \<Rightarrow> None)"

definition page_request :: "config \<Rightarrow> url \<Rightarrow> string option" where
  "page_request g u =
     map_option (\<lambda>h.
       ''GET '' @ (if g_proxyAddr g \<noteq> None then getUrl u else file_str u) @ '' HTTP/1.0'' @ CRNL
         @ ''Host: '' @ h
         @ (case (g_useCookies g, u_cookie u) of
              (True, Some c) \<Rightarrow> CRNL @ ''Cookie: '' @ c
            | _ \<Rightarrow> [])
         @ g_headers g)
     (puny g u)"

text \<open>The recursion of \<open>IPSite::fetch\<close> after a failed connection ends when the queue is empty
  (\<open>fetch_returns\<close> below).\<close>

partial_function (option) ip_fetch :: "config \<Rightarrow> nat \<Rightarrow> world \<Rightarrow> (int \<times> world) option" where
  "ip_fetch g j w =
     (if Fifo_isEmpty (ip_tab (w_ip w j)) then
        Some (0, upd_ip j (\<lambda>s. s\<lparr>ip_isInFifo := False\<rparr>) w)
      else
        let next_call = ip_lastAccess (w_ip w j) + g_waitDuration g in
        if next_call > w_now w then Some (next_call, okSites_rePut j w)
        else do {
          (c, w1) \<leftarrow> freeConns_get w;
          (u, w2) \<leftarrow> ip_getUrl g j w1;
          let (res, w3) = getFds g c (u_addr u) (u_port u) w2;
          if res \<noteq> emptyC then do {
            req \<leftarrow> page_request g u;
            let w4 = upd_ip j (\<lambda>s. s\<lparr>ip_lastAccess := w_now w3\<rparr>) w3;
            let w5 = start_request c req (Html_parser u) res (new_page w4);
            Some (0, if Fifo_isEmpty (ip_tab (w_ip w5 j))
                     then upd_ip j (\<lambda>s. s\<lparr>ip_isInFifo := False\<rparr>) w5
                     else okSites_put j w5)
          } else do {
            w4 \<leftarrow> answers_incr noConnection (fetchFail g False u noConnection w3);
            w5 \<leftarrow> freeConns_put c w4;
            ip_fetch g j w5
          }
        })"

definition ip_putUrl :: "config \<Rightarrow> nat \<Rightarrow> url \<Rightarrow> world \<Rightarrow> world option" where
  "ip_putUrl g j u w =
     (let w1 = upd_ip j (\<lambda>s. s\<lparr>ip_tab := Fifo_put u (ip_tab s)\<rparr>) w;
          w2 = upd_stats (\<lambda>s. s\<lparr>st_IPUrl := st_IPUrl s + 1\<rparr>) w1
      in if \<not> ip_isInFifo (w_ip w2 j) then
           (let w3 = (if ip_lastAccess (w_ip w2 j) = 0
                      then upd_stats (\<lambda>s. s\<lparr>st_ipsites := st_ipsites s + 1\<rparr>) w2 else w2);
                w4 = upd_ip j (\<lambda>s. s\<lparr>ip_isInFifo := True\<rparr>) w3
            in if ip_lastAccess (w_ip w4 j) + g_waitDuration g \<le> w_now w4
                  \<and> ConstFifo_isNonEmpty (w_freeConns w4)
               then map_option snd (ip_fetch g j w4)
               else Some (okSites_put j w4))
         else Some w2)"

subsection \<open>NamedSite\<close>

definition ns_putInFifo :: "nat \<Rightarrow> url \<Rightarrow> world \<Rightarrow> world option" where
  "ns_putInFifo k u w =
     map_option (\<lambda>q. upd_ns k (\<lambda>s. s\<lparr>ns_fifo := q\<rparr>) w) (ConstFifo_put u (ns_fifo (w_ns w k)))"

definition ns_getInFifo :: "nat \<Rightarrow> world \<Rightarrow> (url \<times> world) option" where
  "ns_getInFifo k w =
     (case Fifo_get (ns_fifo (w_ns w k)) of
        Some (Some u, q) \<Rightarrow> Some (u, upd_ns k (\<lambda>s. s\<lparr>ns_fifo := q\<rparr>) w)
      | _ \<Rightarrow> None)"

definition ns_fifoLength :: "nat \<Rightarrow> world \<Rightarrow> nat" where
  "ns_fifoLength k w = Fifo_getLength (ns_fifo (w_ns w k))"

definition testRobots :: "config \<Rightarrow> named_site \<Rightarrow> string \<Rightarrow> bool" where
  "testRobots g s file \<longleftrightarrow> g_ignoreRobots g \<or> \<not> list_ex (\<lambda>f. robotsMatch f file) (ns_forbidden s)"

definition ns_forgetUrl :: "config \<Rightarrow> nat \<Rightarrow> url \<Rightarrow> FetchError \<Rightarrow> world \<Rightarrow> world option" where
  "ns_forgetUrl g k u reason w =
     map_option (\<lambda>w1. inter_getOne (upd_ns k (\<lambda>s. s\<lparr>ns_nburls := ns_nburls s - 1\<rparr>) w1))
       (answers_incr reason
          (fetchFail g False u reason (upd_stats (\<lambda>s. s\<lparr>st_urls := st_urls s + 1\<rparr>) w)))"

definition ns_transfer :: "config \<Rightarrow> nat \<Rightarrow> url \<Rightarrow> world \<Rightarrow> world option" where
  "ns_transfer g k u w =
     (let s = w_ns w k in
      if testRobots g s (file_str u) then
        ip_putUrl g (ns_ipHash s) (if g_proxyAddr g = None then u\<lparr>u_addr := ns_addr s\<rparr> else u) w
      else ns_forgetUrl g k u forbiddenRobots w)"

definition nburls_incr :: "nat \<Rightarrow> world \<Rightarrow> world" where
  "nburls_incr k w = upd_ns k (\<lambda>s. s\<lparr>ns_nburls := ns_nburls s + 1\<rparr>) w"

definition ns_enqueue :: "nat \<Rightarrow> url \<Rightarrow> world \<Rightarrow> world option" where
  "ns_enqueue k u w =
     do {
       w1 \<leftarrow> ns_putInFifo k u w;
       let w2 = upd_stats (\<lambda>s. s\<lparr>st_namedUrl := st_namedUrl s + 1\<rparr>) w1;
       Some (if \<not> ns_isInFifo (w_ns w2 k)
             then dnsSites_put k (upd_ns k (\<lambda>s. s\<lparr>ns_isInFifo := True\<rparr>) w2) else w2)
     }"

definition ns_putBack :: "config \<Rightarrow> url \<Rightarrow> bool \<Rightarrow> world \<Rightarrow> world option" where
  "ns_putBack g u prio w =
     (let w1 = inter_getOne (upd_stats (\<lambda>s. s\<lparr>st_missUrl := st_missUrl s + 1\<rparr>) w) in
      if prio then Some (w1\<lparr>w_priorityWait := SyncFifo_put u (w_priorityWait w1)\<rparr>)
      else map_option (\<lambda>q. w1\<lparr>w_diskWait := q\<rparr>)
             (pf_put (g_useCookies g) (w_canReload w1) u (w_diskWait w1)))"

definition putGenericUrl :: "config \<Rightarrow> nat \<Rightarrow> url \<Rightarrow> int \<Rightarrow> bool \<Rightarrow> world \<Rightarrow> world option" where
  "putGenericUrl g k u limit prio w =
     (let s = w_ns w k in
      if ns_nburls s > int maxUrlsBySite - limit then
        do {
          p \<leftarrow> puny g u;
          if p = ns_name s \<and> ns_dnsState s = errorDns then ns_forgetUrl g k u noDNS (nburls_incr k w)
          else if p = ns_name s \<and> ns_dnsState s = noConnDns then
            ns_forgetUrl g k u noConnection (nburls_incr k w)
          else if p = ns_name s \<and> u_port u = ns_port s \<and> ns_dnsState s = doneDns
                  \<and> \<not> testRobots g s (file_str u) then
            ns_forgetUrl g k u forbiddenRobots (nburls_incr k w)
          else ns_putBack g u prio w
        }
      else
        let w1 = nburls_incr k w in
        if ns_dnsState s = waitDns then ns_enqueue k u w1
        else do {
          p \<leftarrow> puny g u;
          if p \<noteq> ns_name s \<or> ns_port s \<noteq> u_port u \<or> w_now w > ns_dnsTimeout s
          then ns_enqueue k u w1
          else (case ns_dnsState s of
                  doneDns \<Rightarrow> ns_transfer g k u w1
                | errorDns \<Rightarrow> ns_forgetUrl g k u noDNS w1
                | _ \<Rightarrow> ns_forgetUrl g k u noConnection w1)
        })"

definition putUrl :: "config \<Rightarrow> nat \<Rightarrow> url \<Rightarrow> world \<Rightarrow> world option" where
  "putUrl g k u w = putGenericUrl g k u 15 False w"

definition putUrlWait :: "config \<Rightarrow> nat \<Rightarrow> url \<Rightarrow> world \<Rightarrow> world option" where
  "putUrlWait g k u w = putGenericUrl g k u 10 False w"

definition putPriorityUrl :: "config \<Rightarrow> nat \<Rightarrow> url \<Rightarrow> world \<Rightarrow> world option" where
  "putPriorityUrl g k u w = putGenericUrl g k u 5 True w"

definition putPriorityUrlWait :: "config \<Rightarrow> nat \<Rightarrow> url \<Rightarrow> world \<Rightarrow> world option" where
  "putPriorityUrlWait g k u w = putGenericUrl g k u 1 True w"

text \<open>\<open>strcpy(name, u->getPunycode())\<close> into an array of \<open>maxSiteSize\<close> characters.\<close>

definition ns_newId :: "config \<Rightarrow> nat \<Rightarrow> world \<Rightarrow> world option" where
  "ns_newId g k w =
     do {
       let w1 = (if ns_name (w_ns w k) = [] then upd_stats (\<lambda>s. s\<lparr>st_sites := st_sites s + 1\<rparr>) w else w);
       u \<leftarrow> Fifo_tryRead (ns_fifo (w_ns w1 k));
       p \<leftarrow> puny g u;
       if length p \<ge> maxSiteSize then None
       else Some (upd_ns k (\<lambda>s. s\<lparr>ns_name := p, ns_port := u_port u,
              ns_dnsTimeout := w_now w1 + dnsValidTime, ns_dnsState := waitDns\<rparr>) w1)
     }"

text \<open>The end shared by \<open>dnsErr\<close> and \<open>robotsResult\<close>.\<close>

definition ns_settle :: "nat \<Rightarrow> world \<Rightarrow> world" where
  "ns_settle k w =
     (if Fifo_isEmpty (ns_fifo (w_ns w k)) then upd_ns k (\<lambda>s. s\<lparr>ns_isInFifo := False\<rparr>) w
      else dnsSites_put k w)"

definition named_decr :: "world \<Rightarrow> world" where
  "named_decr w = upd_stats (\<lambda>s. s\<lparr>st_namedUrl := st_namedUrl s - 1\<rparr>) w"

fun dnsErr_scan :: "config \<Rightarrow> nat \<Rightarrow> FetchError \<Rightarrow> nat \<Rightarrow> world \<Rightarrow> world option" where
  "dnsErr_scan g k e 0 w = Some w"
| "dnsErr_scan g k e (Suc n) w =
     do {
       (u, w1) \<leftarrow> ns_getInFifo k w;
       p \<leftarrow> puny g u;
       w2 \<leftarrow> (if p = ns_name (w_ns w1 k) then ns_forgetUrl g k u e (named_decr w1)
               else ns_putInFifo k u w1);
       dnsErr_scan g k e n w2
     }"

definition ns_dnsErr :: "config \<Rightarrow> nat \<Rightarrow> world \<Rightarrow> world option" where
  "ns_dnsErr g k w =
     map_option (ns_settle k)
       (dnsErr_scan g k (if ns_dnsState (w_ns w k) = errorDns then noDNS else noConnection)
          (ns_fifoLength k w) w)"

definition robots_request :: "config \<Rightarrow> named_site \<Rightarrow> string" where
  "robots_request g s =
     (if g_proxyAddr g \<noteq> None
      then ''GET http://'' @ ns_name s @ CHR '':'' # dec (unat (ns_port s))
             @ ''/robots.txt HTTP/1.0'' @ CRNL @ ''Host: ''
      else ''GET /robots.txt HTTP/1.0'' @ CRNL @ ''Host: '')
     @ ns_name s @ g_headersRobots g"

definition ns_dnsOK :: "config \<Rightarrow> nat \<Rightarrow> world \<Rightarrow> world option" where
  "ns_dnsOK g k w =
     do {
       (c, w1) \<leftarrow> freeConns_get w;
       let (res, w2) = getFds g c (ns_addr (w_ns w1 k)) (ns_port (w_ns w1 k)) w1;
       if res \<noteq> emptyC
       then Some (start_request c (robots_request g (w_ns w2 k)) (Robots_parser k) res w2)
       else do {
         w3 \<leftarrow> freeConns_put c w2;
         ns_dnsErr g k (upd_ns k (\<lambda>s. s\<lparr>ns_dnsState := noConnDns\<rparr>) w3)
       }
     }"

definition site_seen :: "world \<Rightarrow> world" where
  "site_seen w = upd_stats (\<lambda>s. s\<lparr>st_siteSeen := st_siteSeen s + 1\<rparr>) w"

definition site_dns :: "world \<Rightarrow> world" where
  "site_dns w = upd_stats (\<lambda>s. s\<lparr>st_siteDNS := st_siteDNS s + 1\<rparr>) w"

definition submit_dns :: "string \<Rightarrow> nat \<Rightarrow> world \<Rightarrow> world" where
  "submit_dns name k w =
     w\<lparr>w_nbDnsCalls := w_nbDnsCalls w + 1, w_pending := w_pending w @ [(name, k)]\<rparr>"

definition ns_newQuery :: "config \<Rightarrow> (string \<Rightarrow> nat option) \<Rightarrow> nat \<Rightarrow> world \<Rightarrow> world option" where
  "ns_newQuery g aton k w =
     do {
       w1 \<leftarrow> ns_newId g k w;
       let name = ns_name (w_ns w1 k);
       if g_proxyAddr g \<noteq> None then ns_dnsOK g k (site_dns (site_seen w1))
       else if is_digit (at_nul name 0) then
         (case aton name of
            Some a \<Rightarrow> ns_dnsOK g k (upd_ns k (\<lambda>s. s\<lparr>ns_addr := a\<rparr>) (site_dns (site_seen w1)))
          | None \<Rightarrow> ns_dnsErr g k (upd_ns k (\<lambda>s. s\<lparr>ns_dnsState := errorDns\<rparr>) (site_seen w1)))
       else Some (submit_dns name k w1)
     }"

definition ns_dnsAns :: "config \<Rightarrow> nat \<Rightarrow> dns_answer \<Rightarrow> world \<Rightarrow> world option" where
  "ns_dnsAns g k ans w =
     (case ans of
        Prohibited_cname c \<Rightarrow>
          Some (submit_dns c k (upd_ns k (\<lambda>s. s\<lparr>ns_cname := Some c\<rparr>) w))
      | Dns_fail \<Rightarrow>
          ns_dnsErr g k (upd_ns k (\<lambda>s. s\<lparr>ns_cname := None, ns_dnsState := errorDns\<rparr>) (site_seen w))
      | Dns_ok a \<Rightarrow>
          ns_dnsOK g k (upd_ns k (\<lambda>s. s\<lparr>ns_cname := None, ns_addr := a\<rparr>)
            (site_dns (site_seen w))))"

text \<open>The hash of the four bytes of the address, in memory order.\<close>

definition addr_bytes :: "nat \<Rightarrow> char list" where
  "addr_bytes a = map (\<lambda>i. chr (a div 256 ^ i mod 256)) [0, 1, 2, 3]"

definition ip_hash :: "config \<Rightarrow> nat \<Rightarrow> nat \<Rightarrow> nat" where
  "ip_hash g k a =
     (if g_proxyAddr g = None then unat (foldl hash_step 0 (addr_bytes a)) else k)
       mod IPSiteListSize"

fun robots_scan :: "config \<Rightarrow> nat \<Rightarrow> bool \<Rightarrow> nat \<Rightarrow> world \<Rightarrow> world option" where
  "robots_scan g k ok 0 w = Some w"
| "robots_scan g k ok (Suc n) w =
     do {
       (u, w1) \<leftarrow> ns_getInFifo k w;
       p \<leftarrow> puny g u;
       w2 \<leftarrow> (if p = ns_name (w_ns w1 k) then
                 (let w2 = named_decr w1 in
                  if ok then (if ns_port (w_ns w1 k) = u_port u then ns_transfer g k u w2
                              else ns_putInFifo k u w2)
                  else ns_forgetUrl g k u noConnection w2)
               else ns_putInFifo k u w1);
       robots_scan g k ok n w2
     }"

definition robotsResult :: "config \<Rightarrow> nat \<Rightarrow> FetchError \<Rightarrow> world \<Rightarrow> world option" where
  "robotsResult g k res w =
     (let ok = (res \<noteq> noConnection);
          w1 = upd_ns k (\<lambda>s. if ok then s\<lparr>ns_dnsState := doneDns, ns_ipHash := ip_hash g k (ns_addr s)\<rparr>
                             else s\<lparr>ns_dnsState := noConnDns\<rparr>) w
      in map_option (ns_settle k) (robots_scan g k ok (ns_fifoLength k w1) w1))"

subsection \<open>The sequencer\<close>

definition maxPerCall :: int where
  "maxPerCall = 100"

text \<open>The url, the flag \<open>testPriority\<close> left, and whether one was got.\<close>

definition canGetUrl :: "config \<Rightarrow> bool \<Rightarrow> world \<Rightarrow> (bool \<times> bool \<times> world) option" where
  "canGetUrl g testPriority w =
     (if w_readPriorityWait w > 0 then
        (case SyncFifo_get (w_priorityWait w) of
           (Some u, q) \<Rightarrow>
             map_option (\<lambda>w'. (True, testPriority, w'))
               (putPriorityUrlWait g (hostHashCode u) u
                  (w\<lparr>w_readPriorityWait := w_readPriorityWait w - 1, w_priorityWait := q\<rparr>))
         | _ \<Rightarrow> None)
      else (case (if testPriority then SyncFifo_tryGet (w_priority w) else (None, w_priority w)) of
          (Some u, q) \<Rightarrow>
            map_option (\<lambda>w'. (True, testPriority, w'))
              (putPriorityUrl g (hostHashCode u) u (w\<lparr>w_priority := q\<rparr>))
        | (None, q) \<Rightarrow>
            (if w_readWait w > 0 then
               (case pf_get (g_useCookies g) (w_diskWait w) of
                  Some (u, d) \<Rightarrow>
                    map_option (\<lambda>w'. (True, False, w'))
                      (putUrlWait g (hostHashCode u) u
                         (w\<lparr>w_readWait := w_readWait w - 1, w_diskWait := d\<rparr>))
                | None \<Rightarrow> None)
             else (case pf_tryGet (g_useCookies g) (w_disk w) of
                     Some (Some u, d) \<Rightarrow>
                       map_option (\<lambda>w'. (True, False, w'))
                         (putUrl g (hostHashCode u) u (w\<lparr>w_disk := d\<rparr>))
                   | Some (None, d) \<Rightarrow> Some (False, False, w\<lparr>w_disk := d\<rparr>)
                   | None \<Rightarrow> None))))"

fun sequencer_loop :: "config \<Rightarrow> nat \<Rightarrow> bool \<Rightarrow> world \<Rightarrow> world option" where
  "sequencer_loop g 0 tp w = Some w"
| "sequencer_loop g (Suc still) tp w =
     (case canGetUrl g tp w of
        None \<Rightarrow> None
      | Some (True, tp', w') \<Rightarrow>
          sequencer_loop g still tp' (w'\<lparr>w_space := w_space w' - 1\<rparr>)
      | Some (False, tp', w') \<Rightarrow> Some w')"

definition sequencer :: "config \<Rightarrow> world \<Rightarrow> world option" where
  "sequencer g w =
     (let w1 = (if w_space w = 0
                then (let (n, i) = Interval_putAll (w_inter w) in w\<lparr>w_space := n, w_inter := i\<rparr>)
                else w);
          still = (if w_space w1 > maxPerCall then maxPerCall else w_space w1)
      in sequencer_loop g (nat still) True w1)"

subsection \<open>Opening connections\<close>

partial_function (option) fetchOpen_loop :: "config \<Rightarrow> world \<Rightarrow> world option" where
  "fetchOpen_loop g w =
     (if ConstFifo_isNonEmpty (w_freeConns w) then
        (case Fifo_tryGet (w_okSites w) of
           (None, q) \<Rightarrow> Some (w\<lparr>w_okSites := q\<rparr>)
         | (Some j, q) \<Rightarrow>
             do {
               (t, w1) \<leftarrow> ip_fetch g j (w\<lparr>w_okSites := q\<rparr>);
               let w2 = w1\<lparr>w_next_call := t\<rparr>;
               if t = 0 then fetchOpen_loop g w2 else Some w2
             })
      else Some w)"

definition fetchOpen :: "config \<Rightarrow> world \<Rightarrow> world option" where
  "fetchOpen g w = (if w_now w < w_next_call w then Some w else fetchOpen_loop g w)"

partial_function (option) submit_loop ::
    "config \<Rightarrow> (string \<Rightarrow> nat option) \<Rightarrow> world \<Rightarrow> world option" where
  "submit_loop g aton w =
     (if w_nbDnsCalls w < int (g_dnsConn g) \<and> ConstFifo_isNonEmpty (w_freeConns w)
         \<and> st_IPUrl (w_stats w) < maxIPUrls then
        (case Fifo_tryGet (w_dnsSites w) of
           (None, q) \<Rightarrow> Some (w\<lparr>w_dnsSites := q\<rparr>)
         | (Some k, q) \<Rightarrow>
             do {
               w1 \<leftarrow> ns_newQuery g aton k (w\<lparr>w_dnsSites := q\<rparr>);
               submit_loop g aton w1
             })
      else Some w)"

text \<open>\<open>adns_check\<close> hands out a completed query, or none.\<close>

partial_function (option) answer_loop :: "config \<Rightarrow> world \<Rightarrow> world option" where
  "answer_loop g w =
     (if w_nbDnsCalls w \<noteq> 0 \<and> ConstFifo_isNonEmpty (w_freeConns w) then
        (case w_answers w of
           [] \<Rightarrow> Some w
         | (k, ans) # as \<Rightarrow>
             do {
               w1 \<leftarrow> ns_dnsAns g k ans
                       (w\<lparr>w_answers := as, w_nbDnsCalls := w_nbDnsCalls w - 1\<rparr>);
               answer_loop g w1
             })
      else Some w)"

definition fetchDns :: "config \<Rightarrow> (string \<Rightarrow> nat option) \<Rightarrow> world \<Rightarrow> world option" where
  "fetchDns g aton w = do { w1 \<leftarrow> submit_loop g aton w; answer_loop g w1 }"

subsection \<open>Links: initOK, filter1 and check (src/utils/url.cxx, src/fetch/checker.cxx)\<close>

text \<open>\<open>Inr\<close> the url as it goes on, \<open>Inl\<close> the \<open>errno\<close> that forbids it.\<close>

definition initOK :: "config \<Rightarrow> url \<Rightarrow> url \<Rightarrow> world \<Rightarrow> FetchError + url" where
  "initOK g from u w =
     (let diff = host_str from \<noteq> host_str u;
          u1 = (if diff then (if g_depthBySite g then u\<lparr>u_depth := g_depthInSite g\<rparr> else u)
                else (if g_useCookies g \<and> u_cookie from \<noteq> None then u\<lparr>u_cookie := u_cookie from\<rparr> else u));
          ns = w_ns w (hostHashCode u1)
      in if diff \<and> g_lockSite g then Inl outSite
         else if u_depth u1 < 0 then Inl tooDeep
         else if ns_name ns = host_str u1 \<and> ns_port ns = u_port u1 then
           (case ns_dnsState ns of
              errorDns \<Rightarrow> Inl fastNoDns
            | noConnDns \<Rightarrow> Inl fastNoConn
            | doneDns \<Rightarrow> (if \<not> testRobots g ns (file_str u1) then Inl fastRobots else Inr u1)
            | waitDns \<Rightarrow> Inr u1)
         else Inr u1)"

definition filter1 :: "config \<Rightarrow> string \<Rightarrow> string \<Rightarrow> bool" where
  "filter1 g host file =
     (let domain_ok = (case g_domains g of None \<Rightarrow> True
                       | Some ds \<Rightarrow> list_ex (\<lambda>d. endWith d host) ds);
          l = length file
      in domain_ok \<and>
         (endWithIgnoreCase ''html'' file l \<or> endWithIgnoreCase ''htm'' file l
            \<or> at_nul file (l - 1) = CHR ''/''
            \<or> \<not> list_ex (\<lambda>e. endWithIgnoreCase e file l) (g_forbExt g)))"

definition check :: "config \<Rightarrow> url \<Rightarrow> world \<Rightarrow> world option" where
  "check g u w =
     (let (new, seen) = hashTable_testSet u (w_seen w); w1 = w\<lparr>w_seen := seen\<rparr> in
      if new then
        (let w2 = upd_stats (\<lambda>s. s\<lparr>st_hashUrls := st_hashUrls s + 1\<rparr>) w1 in
         if g_specificSearch g \<and> g_privilegedExts g \<noteq> []
            \<and> matchPrivExt (g_specificSearch g) (g_privilegedExts g) (file_str u) then
           (let w3 = upd_stats (\<lambda>s. s\<lparr>st_interestingExtension := st_interestingExtension s + 1\<rparr>) w2
            in Some (w3\<lparr>w_priority := SyncFifo_put u (w_priority w3)\<rparr>))
         else map_option (\<lambda>d. w2\<lparr>w_disk := d\<rparr>)
                (pf_put (g_useCookies g) (w_canReload w2) u (w_disk w2)))
      else answers_incr urlDup w1)"

definition manageUrl :: "config \<Rightarrow> url \<Rightarrow> url \<Rightarrow> bool \<Rightarrow> world \<Rightarrow> world option" where
  "manageUrl g here nouv isRedir w =
     (if isValid nouv \<and> filter1 g (host_str nouv) (file_str nouv)
         \<and> (g_externalLinks g \<or> isRedir \<or> host_str nouv = host_str here) then
        (case initOK g here nouv w of
           Inr u \<Rightarrow> check g u w
         | Inl e \<Rightarrow> answers_incr e w)
      else Some w)"

end
