(* ===== verification/Accounting.thy ===== *)
theory Accounting
  imports Site
begin

section \<open>Accounting of the urls in memory\<close>

text \<open>
  The invariant that the interval counter, the counters \<open>nburls\<close> of the named sites and the
  two kinds of queues agree: every url in memory is counted once in \<open>nburls\<close> of its named
  site, whether it waits there or in the queue of an address, and \<open>pos\<close> of the interval is
  \<open>space\<close> plus their number. While an operation holds a url in its hands the counters are off
  by known amounts: \<open>acc h b\<close> says by how much. Each operation of theory Site gets one lemma
  that tells how it changes \<open>h\<close> and \<open>b\<close>.
\<close>

subsection \<open>Counting\<close>

abbreviation fifo_items :: "world \<Rightarrow> nat \<Rightarrow> url list" where
  "fifo_items w k \<equiv> ring_items (ns_fifo (w_ns w k))"

abbreviation tab_items :: "world \<Rightarrow> nat \<Rightarrow> url list" where
  "tab_items w j \<equiv> ring_items (ip_tab (w_ip w j))"

definition cnt :: "nat \<Rightarrow> url list \<Rightarrow> int" where
  "cnt k us = int (length (filter (\<lambda>u. hostHashCode u = k) us))"

lemma cnt_simps [simp]:
  "cnt k [] = 0" "cnt k (u # us) = (if hostHashCode u = k then 1 else 0) + cnt k us"
  "cnt k (xs @ ys) = cnt k xs + cnt k ys"
  by (auto simp: cnt_def)

lemma cnt_nonneg: "0 \<le> cnt k us"
  by (simp add: cnt_def)

definition in_tabs :: "(nat \<Rightarrow> ip_site) \<Rightarrow> nat \<Rightarrow> int" where
  "in_tabs ip k = (\<Sum>j < IPSiteListSize. cnt k (ring_items (ip_tab (ip j))))"

definition total_nburls :: "(nat \<Rightarrow> named_site) \<Rightarrow> int" where
  "total_nburls ns = (\<Sum>k < namedSiteListSize. ns_nburls (ns k))"

definition queues_ok :: "world \<Rightarrow> bool" where
  "queues_ok w \<longleftrightarrow>
     (\<forall>k. ring_inv (ns_fifo (w_ns w k)) \<and> r_size (ns_fifo (w_ns w k)) = maxUrlsBySite \<and>
          (\<forall>u \<in> set (fifo_items w k). hostHashCode u = k) \<and>
          (ns_dnsState (w_ns w k) = doneDns \<longrightarrow> ns_ipHash (w_ns w k) < IPSiteListSize)) \<and>
     (\<forall>j. ring_inv (ip_tab (w_ip w j)) \<and> (IPSiteListSize \<le> j \<longrightarrow> tab_items w j = []))"

definition held :: "world \<Rightarrow> nat \<Rightarrow> int" where
  "held w k = ns_nburls (w_ns w k) - int (length (fifo_items w k)) - in_tabs (w_ip w) k"

definition balance :: "world \<Rightarrow> int" where
  "balance w = iv_pos (w_inter w) - w_space w - total_nburls (w_ns w)"

definition acc :: "(nat \<Rightarrow> int) \<Rightarrow> int \<Rightarrow> world \<Rightarrow> bool" where
  "acc h b w \<longleftrightarrow> queues_ok w \<and> held w = h \<and> balance w = b"

lemma sum_fun_upd:
  "(k :: nat) < n \<Longrightarrow> (\<Sum>i < n. f ((g(k := x)) i)) = (\<Sum>i < n. f (g i)) - f (g k) + (f x :: int)"
proof -
  assume k: "k < n"
  have "(\<Sum>i < n. f ((g(k := x)) i)) = f x + (\<Sum>i \<in> {..<n} - {k}. f (g i))"
    using k by (subst sum.remove [of "{..<n}" k]) (auto intro: sum.cong)
  moreover have "(\<Sum>i < n. f (g i)) = f (g k) + (\<Sum>i \<in> {..<n} - {k}. f (g i))"
    using k by (subst sum.remove [of "{..<n}" k]) auto
  ultimately show ?thesis by simp
qed

lemma hostHashCode_less: "hostHashCode u < namedSiteListSize"
  by (simp add: hostHashCode_def siteHashCode_def namedSiteListSize_def)

lemma hostHashCode_addr [simp]: "hostHashCode (u\<lparr>u_addr := a\<rparr>) = hostHashCode u"
  by (simp add: hostHashCode_def host_str_def)

subsection \<open>Steps that leave the accounts alone\<close>

lemma acc_frame:
  "w_ns w' = w_ns w \<Longrightarrow> w_ip w' = w_ip w \<Longrightarrow> w_inter w' = w_inter w \<Longrightarrow> w_space w' = w_space w \<Longrightarrow>
   acc h b w' = acc h b w"
proof -
  assume a: "w_ns w' = w_ns w" "w_ip w' = w_ip w" "w_inter w' = w_inter w" "w_space w' = w_space w"
  then have "held w' = held w" by (intro ext) (simp add: held_def)
  with a show ?thesis by (simp add: acc_def queues_ok_def balance_def)
qed

lemma acc_same [simp]:
  "acc h b (upd_stats f w) = acc h b w"
  "acc h b (upd_conn c fc w) = acc h b w"
  "acc h b (fetchFail g i u e w) = acc h b w"
  "acc h b (dnsSites_put k w) = acc h b w"
  "acc h b (okSites_put j w) = acc h b w"
  "acc h b (okSites_rePut j w) = acc h b w"
  "acc h b (start_request c req p st w) = acc h b w"
  "acc h b (site_seen w) = acc h b w"
  "acc h b (site_dns w) = acc h b w"
  "acc h b (submit_dns name k w) = acc h b w"
  "acc h b (named_decr w) = acc h b w"
  "acc h b (new_page w) = acc h b w"
  by (rule acc_frame; simp add: upd_stats_def upd_conn_def fetchFail_def dnsSites_put_def
      okSites_put_def okSites_rePut_def start_request_def site_seen_def site_dns_def
      submit_dns_def named_decr_def new_page_def)+

lemma acc_fields [simp]:
  "acc h b (w\<lparr>w_hDup := t1\<rparr>) = acc h b w" "acc h b (w\<lparr>w_remainBand := t2\<rparr>) = acc h b w"
  "acc h b (w\<lparr>w_loaded := t3\<rparr>) = acc h b w"
  "acc h b (w\<lparr>w_freeConns := q\<rparr>) = acc h b w" "acc h b (w\<lparr>w_sockets := ss\<rparr>) = acc h b w"
  "acc h b (w\<lparr>w_priority := pq\<rparr>) = acc h b w" "acc h b (w\<lparr>w_priorityWait := pq\<rparr>) = acc h b w"
  "acc h b (w\<lparr>w_disk := d\<rparr>) = acc h b w" "acc h b (w\<lparr>w_diskWait := d\<rparr>) = acc h b w"
  "acc h b (w\<lparr>w_okSites := q\<rparr>) = acc h b w" "acc h b (w\<lparr>w_dnsSites := q\<rparr>) = acc h b w"
  "acc h b (w\<lparr>w_readPriorityWait := n\<rparr>) = acc h b w" "acc h b (w\<lparr>w_readWait := n\<rparr>) = acc h b w"
  "acc h b (w\<lparr>w_next_call := t\<rparr>) = acc h b w" "acc h b (w\<lparr>w_now := t\<rparr>) = acc h b w"
  "acc h b (w\<lparr>w_seen := sn\<rparr>) = acc h b w" "acc h b (w\<lparr>w_answers := as\<rparr>) = acc h b w"
  "acc h b (w\<lparr>w_nbDnsCalls := t\<rparr>) = acc h b w"
  by (rule acc_frame; simp)+

lemma acc_answers: "answers_incr e w = Some w' \<Longrightarrow> acc h b w \<Longrightarrow> acc h b w'"
  by (auto simp: answers_incr_def split: if_splits)

lemma acc_conns:
  "freeConns_get w = Some (c, w') \<Longrightarrow> acc h b w \<Longrightarrow> acc h b w'"
  "freeConns_put c w = Some w' \<Longrightarrow> acc h b w \<Longrightarrow> acc h b w'"
  by (auto simp: freeConns_get_def freeConns_put_def split: option.splits prod.splits)

lemma acc_getFds: "getFds g c a p w = (r, w') \<Longrightarrow> acc h b w \<Longrightarrow> acc h b w'"
  by (auto simp: getFds_def Let_def split: list.splits sock_result.splits)

lemma acc_upd_ns:
  assumes "acc h b w"
    and "\<And>s. ns_nburls (f s) = ns_nburls s" "\<And>s. ns_fifo (f s) = ns_fifo s"
    and "ns_dnsState (f (w_ns w k)) = doneDns \<longrightarrow> ns_ipHash (f (w_ns w k)) < IPSiteListSize"
  shows "acc h b (upd_ns k f w)"
proof -
  have "total_nburls (w_ns (upd_ns k f w)) = total_nburls (w_ns w)"
    unfolding total_nburls_def by (rule sum.cong) (simp_all add: upd_ns_def assms(2))
  moreover have "held (upd_ns k f w) = held w"
    by (rule ext) (simp add: held_def upd_ns_def assms(2,3))
  moreover have "queues_ok (upd_ns k f w)"
    using assms by (auto simp: acc_def queues_ok_def upd_ns_def)
  ultimately show ?thesis using assms(1) by (simp add: acc_def balance_def upd_ns_def)
qed

lemma acc_upd_ip:
  assumes "acc h b w" and "\<And>s. ip_tab (f s) = ip_tab s"
  shows "acc h b (upd_ip j f w)"
proof -
  have "in_tabs (w_ip (upd_ip j f w)) k = in_tabs (w_ip w) k" for k
    unfolding in_tabs_def by (rule sum.cong) (simp_all add: upd_ip_def assms(2))
  then show ?thesis using assms
    by (auto simp: acc_def queues_ok_def held_def balance_def upd_ip_def fun_eq_iff)
qed

subsection \<open>Steps that move a url\<close>

lemma acc_nburls:
  assumes "acc h b w" "k < namedSiteListSize"
  shows "acc (h(k := h k + d)) (b - d) (upd_ns k (\<lambda>s. s\<lparr>ns_nburls := ns_nburls s + d\<rparr>) w)"
proof -
  let ?w = "upd_ns k (\<lambda>s. s\<lparr>ns_nburls := ns_nburls s + d\<rparr>) w"
  have "total_nburls (w_ns ?w) = total_nburls (w_ns w) + d"
    unfolding total_nburls_def upd_ns_def using sum_fun_upd [OF assms(2), of ns_nburls "w_ns w"
        "w_ns w k\<lparr>ns_nburls := ns_nburls (w_ns w k) + d\<rparr>"]
    by (simp del: fun_upd_apply)
  moreover have "held ?w = (held w)(k := held w k + d)"
    by (rule ext) (simp add: held_def upd_ns_def)
  moreover have "queues_ok ?w" using assms(1) by (auto simp: acc_def queues_ok_def upd_ns_def)
  ultimately show ?thesis using assms(1) by (auto simp: acc_def balance_def upd_ns_def)
qed

lemma acc_nburls_minus:
  assumes "acc h b w" "k < namedSiteListSize"
  shows "acc (h(k := h k - 1)) (b + 1) (upd_ns k (\<lambda>s. s\<lparr>ns_nburls := ns_nburls s - 1\<rparr>) w)"
  using acc_nburls [OF assms, of "- 1"] by simp

lemma acc_getOne: "acc h b w \<Longrightarrow> acc h (b - 1) (inter_getOne w)"
  by (simp add: acc_def queues_ok_def held_def balance_def inter_getOne_def Interval_getOne_def
      fun_eq_iff)

lemma acc_space: "acc h b w \<Longrightarrow> acc h (b + w_space w - n) (w\<lparr>w_space := n\<rparr>)"
  by (simp add: acc_def queues_ok_def held_def balance_def fun_eq_iff)

lemma acc_fifo:
  assumes "acc h b w" and "ring_inv q" "r_size q = maxUrlsBySite"
    and "\<forall>u \<in> set (ring_items q). hostHashCode u = k"
  shows "acc (h(k := h k + int (length (fifo_items w k)) - int (length (ring_items q)))) b
           (upd_ns k (\<lambda>s. s\<lparr>ns_fifo := q\<rparr>) w)"
proof -
  let ?w = "upd_ns k (\<lambda>s. s\<lparr>ns_fifo := q\<rparr>) w"
  have "total_nburls (w_ns ?w) = total_nburls (w_ns w)"
    unfolding total_nburls_def by (rule sum.cong) (simp_all add: upd_ns_def)
  moreover have "held ?w = (held w)(k := held w k + int (length (fifo_items w k)) - int (length (ring_items q)))"
    by (rule ext) (simp add: held_def upd_ns_def)
  moreover have "queues_ok ?w" using assms by (auto simp: acc_def queues_ok_def upd_ns_def)
  ultimately show ?thesis using assms(1) by (auto simp: acc_def balance_def upd_ns_def)
qed

lemma acc_tab:
  assumes "acc h b w" and "ring_inv q" "j < IPSiteListSize"
  shows "acc (\<lambda>k. h k + cnt k (tab_items w j) - cnt k (ring_items q)) b
           (upd_ip j (\<lambda>s. s\<lparr>ip_tab := q\<rparr>) w)"
proof -
  let ?w = "upd_ip j (\<lambda>s. s\<lparr>ip_tab := q\<rparr>) w"
  have "in_tabs (w_ip ?w) k = in_tabs (w_ip w) k - cnt k (tab_items w j) + cnt k (ring_items q)" for k
    unfolding in_tabs_def upd_ip_def
    using sum_fun_upd [OF assms(3), of "\<lambda>s. cnt k (ring_items (ip_tab s))" "w_ip w"
        "w_ip w j\<lparr>ip_tab := q\<rparr>"]
    by (simp del: fun_upd_apply)
  then have "held ?w = (\<lambda>k. held w k + cnt k (tab_items w j) - cnt k (ring_items q))"
    by (intro ext) (simp add: held_def upd_ip_def)
  moreover have "queues_ok ?w" using assms by (auto simp: acc_def queues_ok_def upd_ip_def)
  ultimately show ?thesis using assms(1) by (auto simp: acc_def balance_def upd_ip_def)
qed


lemma Fifo_get_items:
  assumes "ring_inv q" "Fifo_get q = Some (Some x, q')"
  shows "ring_inv q' \<and> ring_items q = x # ring_items q' \<and> r_size q' = r_size q"
proof -
  from assms(2) have ne: "r_in q \<noteq> r_out q" and x: "r_tab q ! r_out q = Some x"
    and q': "q' = q\<lparr>r_out := (r_out q + 1) mod r_size q\<rparr>"
    by (auto simp: Fifo_get_def split: if_splits)
  from ring_take [OF assms(1) ne] x q' show ?thesis by auto
qed

lemma acc_ns_put:
  assumes "acc h b w" "ns_putInFifo k u w = Some w'" "hostHashCode u = k"
  shows "acc (h(k := h k - 1)) b w'"
proof -
  from assms(1) have q: "ring_inv (ns_fifo (w_ns w k))" "r_size (ns_fifo (w_ns w k)) = maxUrlsBySite"
    "\<forall>u \<in> set (fifo_items w k). hostHashCode u = k" by (auto simp: acc_def queues_ok_def)
  from assms(2) obtain q' where q': "ConstFifo_put u (ns_fifo (w_ns w k)) = Some q'"
    "w' = upd_ns k (\<lambda>s. s\<lparr>ns_fifo := q'\<rparr>) w" by (auto simp: ns_putInFifo_def)
  then have "ring_inv q' \<and> ring_items q' = fifo_items w k @ [u] \<and> r_size q' = maxUrlsBySite"
    using ConstFifo_put_ok [OF q(1), of u] q(2) by (auto split: if_splits)
  with acc_fifo [OF assms(1), of q' k] q q' assms(3) show ?thesis by (auto simp: algebra_simps)
qed

lemma acc_ns_get:
  assumes "acc h b w" "ns_getInFifo k w = Some (u, w')"
  shows "acc (h(k := h k + 1)) b w' \<and> hostHashCode u = k \<and>
    ns_ipHash (w_ns w' k) = ns_ipHash (w_ns w k) \<and> ns_dnsState (w_ns w' k) = ns_dnsState (w_ns w k)"
proof -
  from assms(1) have q: "ring_inv (ns_fifo (w_ns w k))" "r_size (ns_fifo (w_ns w k)) = maxUrlsBySite"
    "\<forall>u \<in> set (fifo_items w k). hostHashCode u = k" by (auto simp: acc_def queues_ok_def)
  from assms(2) obtain q' where q': "Fifo_get (ns_fifo (w_ns w k)) = Some (Some u, q')"
    "w' = upd_ns k (\<lambda>s. s\<lparr>ns_fifo := q'\<rparr>) w"
    by (auto simp: ns_getInFifo_def split: option.splits prod.splits)
  with Fifo_get_items [OF q(1) q'(1)] acc_fifo [OF assms(1), of q' k] q show ?thesis
    by (auto simp: upd_ns_def algebra_simps)
qed

lemma acc_forget:
  assumes "acc h b w" "ns_forgetUrl g k u e w = Some w'" "k < namedSiteListSize"
  shows "acc (h(k := h k - 1)) b w'"
proof -
  from assms(2) obtain w1 where w1: "answers_incr e (fetchFail g False u e (upd_stats (\<lambda>s. s\<lparr>st_urls := st_urls s + 1\<rparr>) w)) = Some w1"
    "w' = inter_getOne (upd_ns k (\<lambda>s. s\<lparr>ns_nburls := ns_nburls s - 1\<rparr>) w1)"
    by (auto simp: ns_forgetUrl_def)
  have "acc h b w1" by (rule acc_answers [OF w1(1)]) (simp add: assms(1))
  from acc_getOne [OF acc_nburls_minus [OF this assms(3)]] w1(2) show ?thesis by simp
qed

lemma acc_ip_getUrl:
  assumes "acc h b w" "ip_getUrl g j w = Some (u, w')"
  shows "acc h b w'"
proof -
  from assms(2) obtain t where t: "Fifo_get (ip_tab (w_ip w j)) = Some (Some u, t)"
    by (auto simp: ip_getUrl_def Let_def split: option.splits prod.splits)
  from assms(1) have q: "ring_inv (ip_tab (w_ip w j))" "IPSiteListSize \<le> j \<longrightarrow> tab_items w j = []"
    by (auto simp: acc_def queues_ok_def)
  from Fifo_get_items [OF q(1) t] q(2) have t': "ring_inv t" "tab_items w j = u # ring_items t"
    "j < IPSiteListSize" by auto
  let ?k = "hostHashCode u"
  let ?w1 = "upd_ip j (\<lambda>s. s\<lparr>ip_tab := t\<rparr>) w"
  let ?w2 = "upd_stats (\<lambda>s. s\<lparr>st_IPUrl := st_IPUrl s - 1, st_urls := st_urls s + 1\<rparr>) ?w1"
  let ?w4 = "inter_getOne (upd_ns ?k (\<lambda>s. s\<lparr>ns_nburls := ns_nburls s - 1\<rparr>) ?w2)"
  have "acc (h(?k := h ?k + 1)) b ?w1"
  proof -
    have "(\<lambda>k. h k + cnt k (tab_items w j) - cnt k (ring_items t)) = h(?k := h ?k + 1)"
      using t'(2) by auto
    with acc_tab [OF assms(1) t'(1,3)] show ?thesis by simp
  qed
  then have "acc (h(?k := h ?k + 1)) b ?w2" by simp
  from acc_getOne [OF acc_nburls_minus [OF this hostHashCode_less [of u]]] have "acc h b ?w4" by simp
  then show ?thesis using assms(2) t by (auto simp: ip_getUrl_def Let_def)
qed


subsection \<open>Operations\<close>

lemmas bind_Some = Option.bind_eq_Some_conv

lemma acc_ip_lastAccess [simp]:
  "acc h b w \<Longrightarrow> acc h b (upd_ip j (\<lambda>s. s\<lparr>ip_lastAccess := t\<rparr>) w)"
  "acc h b w \<Longrightarrow> acc h b (upd_ip j (\<lambda>s. s\<lparr>ip_isInFifo := v\<rparr>) w)"
  by (rule acc_upd_ip; simp)+

lemma acc_ip_fetch:
  assumes "ip_fetch g j w = Some (t, w')"
  shows "acc h b w \<longrightarrow> acc h b w'"
proof -
  have "acc h b w \<longrightarrow> acc h b (snd r)" if "ip_fetch g j w = Some r" for r
    using that
  proof (rule ip_fetch.raw_induct [where P = "\<lambda>g j w r. acc h b w \<longrightarrow> acc h b (snd r)", rotated],
      goal_cases)
    case (1 self g j w r)
    note IH = 1(1) and step = 1(2)
    show ?case
    proof (intro impI)
      assume a: "acc h b w"
      show "acc h b (snd r)"
      proof (cases "Fifo_isEmpty (ip_tab (w_ip w j)) \<or> ip_lastAccess (w_ip w j) + g_waitDuration g > w_now w")
        case True
        with step a show ?thesis by (auto simp: Let_def split: if_splits)
      next
        case False
        obtain c w1 where w1: "freeConns_get w = Some (c, w1)"
          using step False by (cases "freeConns_get w") (auto simp: Let_def)
        obtain u w2 where w2: "ip_getUrl g j w1 = Some (u, w2)"
          using step False w1 by (cases "ip_getUrl g j w1") (auto simp: Let_def)
        obtain res w3 where w3: "getFds g c (u_addr u) (u_port u) w2 = (res, w3)" by force
        have rest: "(if res \<noteq> emptyC then do {
            req \<leftarrow> page_request g u;
            let w4 = upd_ip j (\<lambda>s. s\<lparr>ip_lastAccess := w_now w3\<rparr>) w3;
            let w5 = start_request c req (Html_parser u) res (new_page w4);
            Some (0, if Fifo_isEmpty (ip_tab (w_ip w5 j))
                     then upd_ip j (\<lambda>s. s\<lparr>ip_isInFifo := False\<rparr>) w5
                     else okSites_put j w5)
          } else do {
            w4 \<leftarrow> answers_incr noConnection (fetchFail g False u noConnection w3);
            w5 \<leftarrow> freeConns_put c w4;
            self g j w5
          }) = Some r"
          using step False w1 w2 w3 by (simp add: Let_def)
        have a3: "acc h b w3"
          by (rule acc_getFds [OF w3]) (rule acc_ip_getUrl [OF acc_conns(1) [OF w1 a] w2])
        show ?thesis
        proof (cases "res = emptyC")
          case True
          with rest obtain w4 w5 where
            w4: "answers_incr noConnection (fetchFail g False u noConnection w3) = Some w4"
            and w5: "freeConns_put c w4 = Some w5" and self: "self g j w5 = Some r"
            by (auto simp: bind_Some)
          have "acc h b w4" by (rule acc_answers [OF w4]) (simp add: a3)
          then have "acc h b w5" by (rule acc_conns(2) [OF w5])
          with IH [OF self] show ?thesis by simp
        next
          case False
          with rest a3 show ?thesis by (auto simp: Let_def bind_Some)
        qed
      qed
    qed
  qed
  with assms show ?thesis by fastforce
qed

lemma acc_ip_putUrl:
  assumes a: "acc h b w" and p: "ip_putUrl g j u w = Some w'" and j: "j < IPSiteListSize"
  shows "acc (h(hostHashCode u := h (hostHashCode u) - 1)) b w'"
proof -
  let ?k = "hostHashCode u"
  let ?w1 = "upd_ip j (\<lambda>s. s\<lparr>ip_tab := Fifo_put u (ip_tab s)\<rparr>) w"
  have q: "ring_inv (ip_tab (w_ip w j))" using a by (auto simp: acc_def queues_ok_def)
  have "?w1 = upd_ip j (\<lambda>s. s\<lparr>ip_tab := Fifo_put u (ip_tab (w_ip w j))\<rparr>) w"
    by (simp add: upd_ip_def)
  moreover have "acc (\<lambda>k. h k + cnt k (tab_items w j) - cnt k (tab_items w j @ [u])) b
      (upd_ip j (\<lambda>s. s\<lparr>ip_tab := Fifo_put u (ip_tab (w_ip w j))\<rparr>) w)"
    using acc_tab [OF a _ j, of "Fifo_put u (ip_tab (w_ip w j))"] Fifo_put_ok [OF q, of u] by auto
  moreover have "(\<lambda>k. h k + cnt k (tab_items w j) - cnt k (tab_items w j @ [u])) = h(?k := h ?k - 1)"
    by auto
  ultimately have w1: "acc (h(?k := h ?k - 1)) b ?w1" by simp
  show ?thesis
    using p w1 by (auto simp: ip_putUrl_def Let_def dest!: acc_ip_fetch split: if_splits)
qed

lemma acc_transfer:
  assumes "acc h b w" "ns_transfer g k u w = Some w'" "hostHashCode u = k"
    and "ns_dnsState (w_ns w k) = doneDns"
  shows "acc (h(k := h k - 1)) b w'"
proof -
  have ip: "ns_ipHash (w_ns w k) < IPSiteListSize"
    using assms(1,4) by (auto simp: acc_def queues_ok_def)
  have k: "k < namedSiteListSize" using assms(3) hostHashCode_less by auto
  show ?thesis
  proof (cases "testRobots g (w_ns w k) (file_str u)")
    case True
    define v where "v = (if g_proxyAddr g = None then u\<lparr>u_addr := ns_addr (w_ns w k)\<rparr> else u)"
    have "hostHashCode v = k" using assms(3) by (simp add: v_def)
    moreover have "ip_putUrl g (ns_ipHash (w_ns w k)) v w = Some w'"
      using assms(2) True by (simp add: ns_transfer_def Let_def v_def)
    ultimately show ?thesis using acc_ip_putUrl [OF assms(1) _ ip] by blast
  next
    case False
    with assms acc_forget [OF assms(1) _ k] show ?thesis by (simp add: ns_transfer_def Let_def)
  qed
qed

lemma acc_isInFifo [simp]:
  "acc h b w \<Longrightarrow> acc h b (upd_ns k (\<lambda>s. s\<lparr>ns_isInFifo := v\<rparr>) w)"
  by (rule acc_upd_ns) (auto simp: acc_def queues_ok_def)

lemma acc_enqueue:
  assumes "acc h b w" "ns_enqueue k u w = Some w'" "hostHashCode u = k"
  shows "acc (h(k := h k - 1)) b w'"
proof -
  from assms(2) obtain w1 where w1: "ns_putInFifo k u w = Some w1"
    and w': "w' = (let w2 = upd_stats (\<lambda>s. s\<lparr>st_namedUrl := st_namedUrl s + 1\<rparr>) w1 in
       if \<not> ns_isInFifo (w_ns w2 k)
             then dnsSites_put k (upd_ns k (\<lambda>s. s\<lparr>ns_isInFifo := True\<rparr>) w2) else w2)"
    by (auto simp: ns_enqueue_def bind_Some Let_def)
  from acc_ns_put [OF assms(1) w1 assms(3)] show ?thesis by (simp add: w' Let_def)
qed

lemma acc_putBack: "ns_putBack g u prio w = Some w' \<Longrightarrow> acc h b w \<Longrightarrow> acc h (b - 1) w'"
  using acc_getOne [of h b "upd_stats (\<lambda>s. s\<lparr>st_missUrl := st_missUrl s + 1\<rparr>) w"]
  by (auto simp: ns_putBack_def Let_def split: if_splits)

lemma acc_nburls_incr:
  "acc h b w \<Longrightarrow> k < namedSiteListSize \<Longrightarrow> acc (h(k := h k + 1)) (b - 1) (nburls_incr k w)"
  unfolding nburls_incr_def by (rule acc_nburls)

lemma acc_putGenericUrl:
  assumes a: "acc h b w" and p: "putGenericUrl g k u limit prio w = Some w'" and k: "hostHashCode u = k"
  shows "acc h (b - 1) w'"
proof -
  let ?s = "w_ns w k"
  have kN: "k < namedSiteListSize" using k hostHashCode_less by auto
  have a1: "acc (h(k := h k + 1)) (b - 1) (nburls_incr k w)" by (rule acc_nburls_incr [OF a kN])
  have st: "ns_dnsState (w_ns (nburls_incr k w) k) = ns_dnsState ?s"
    by (simp add: nburls_incr_def upd_ns_def)
  have fin: "acc h (b - 1) w'" if "acc ((h(k := h k + 1))(k := (h(k := h k + 1)) k - 1)) (b - 1) w'"
    using that by simp
  show ?thesis
  proof (cases "ns_nburls ?s > int maxUrlsBySite - limit")
    case True
    with p obtain pn where pn: "puny g u = Some pn" by (auto simp: putGenericUrl_def Let_def bind_Some)
    with p True have "(\<exists>e. ns_forgetUrl g k u e (nburls_incr k w) = Some w') \<or> ns_putBack g u prio w = Some w'"
      by (auto simp: putGenericUrl_def Let_def split: if_splits)
    then show ?thesis
    proof
      assume "\<exists>e. ns_forgetUrl g k u e (nburls_incr k w) = Some w'"
      then show ?thesis using acc_forget [OF a1 _ kN] fin by blast
    next
      assume "ns_putBack g u prio w = Some w'"
      then show ?thesis by (rule acc_putBack) (rule a)
    qed
  next
    case False
    with p have "ns_enqueue k u (nburls_incr k w) = Some w' \<or>
        (ns_dnsState ?s = doneDns \<and> ns_transfer g k u (nburls_incr k w) = Some w') \<or>
        (\<exists>e. ns_forgetUrl g k u e (nburls_incr k w) = Some w')"
      by (auto simp: putGenericUrl_def Let_def bind_Some split: if_splits DnsState.splits)
    then show ?thesis
      using acc_enqueue [OF a1 _ k] acc_transfer [OF a1 _ k] acc_forget [OF a1 _ kN] fin st by metis
  qed
qed


subsection \<open>The dns state of a site is not touched by the queues\<close>

definition dns_states :: "world \<Rightarrow> nat \<Rightarrow> DnsState" where
  "dns_states w k = ns_dnsState (w_ns w k)"

lemma dns_states_frame: "w_ns w' = w_ns w \<Longrightarrow> dns_states w' = dns_states w"
  by (simp add: dns_states_def fun_eq_iff)

lemma dns_states_same [simp]:
  "dns_states (upd_stats f w) = dns_states w" "dns_states (upd_conn c fc w) = dns_states w"
  "dns_states (upd_ip j fi w) = dns_states w"
  "dns_states (fetchFail g i u e w) = dns_states w" "dns_states (okSites_put j w) = dns_states w"
  "dns_states (okSites_rePut j w) = dns_states w" "dns_states (named_decr w) = dns_states w"
  "dns_states (start_request c req p st w) = dns_states w"
  "dns_states (inter_getOne w) = dns_states w" "dns_states (new_page w) = dns_states w"
  "dns_states (w\<lparr>w_sockets := ss\<rparr>) = dns_states w" "dns_states (w\<lparr>w_freeConns := q\<rparr>) = dns_states w"
  by (rule dns_states_frame; simp add: upd_stats_def upd_conn_def upd_ip_def fetchFail_def
      okSites_put_def okSites_rePut_def named_decr_def start_request_def inter_getOne_def new_page_def)+

lemma dns_states_upd [simp]:
  "dns_states (upd_ns k (\<lambda>s. s\<lparr>ns_nburls := f s\<rparr>) w) = dns_states w"
  "dns_states (upd_ns k (\<lambda>s. s\<lparr>ns_fifo := q\<rparr>) w) = dns_states w"
  by (auto simp: dns_states_def upd_ns_def fun_eq_iff)

lemma dns_states_ops:
  "answers_incr e w = Some w' \<Longrightarrow> dns_states w' = dns_states w"
  "freeConns_get w = Some (c, w') \<Longrightarrow> dns_states w' = dns_states w"
  "freeConns_put c w = Some w' \<Longrightarrow> dns_states w' = dns_states w"
  "getFds g c a p w = (r, w') \<Longrightarrow> dns_states w' = dns_states w"
  "ns_putInFifo k u w = Some w' \<Longrightarrow> dns_states w' = dns_states w"
  "ns_getInFifo k w = Some (u, w') \<Longrightarrow> dns_states w' = dns_states w"
  "ip_getUrl g j w = Some (u, w') \<Longrightarrow> dns_states w' = dns_states w"
  by (auto simp: answers_incr_def freeConns_get_def freeConns_put_def getFds_def ns_putInFifo_def
      ns_getInFifo_def ip_getUrl_def Let_def
      split: if_splits option.splits prod.splits list.splits sock_result.splits)

lemma dns_states_forget: "ns_forgetUrl g k u e w = Some w' \<Longrightarrow> dns_states w' = dns_states w"
  by (auto simp: ns_forgetUrl_def dest!: dns_states_ops)

lemma dns_states_fetch:
  assumes "ip_fetch g j w = Some r"
  shows "dns_states (snd r) = dns_states w"
  using assms
proof (rule ip_fetch.raw_induct [where P = "\<lambda>g j w r. dns_states (snd r) = dns_states w", rotated],
    goal_cases)
  case (1 self g j w r)
  note IH = 1(1) and step = 1(2)
  show ?case
  proof (cases "Fifo_isEmpty (ip_tab (w_ip w j)) \<or> ip_lastAccess (w_ip w j) + g_waitDuration g > w_now w")
    case True
    with step show ?thesis by (auto simp: Let_def split: if_splits)
  next
    case False
    obtain c w1 where w1: "freeConns_get w = Some (c, w1)"
      using step False by (cases "freeConns_get w") (auto simp: Let_def)
    obtain u w2 where w2: "ip_getUrl g j w1 = Some (u, w2)"
      using step False w1 by (cases "ip_getUrl g j w1") (auto simp: Let_def)
    obtain res w3 where w3: "getFds g c (u_addr u) (u_port u) w2 = (res, w3)" by force
    have d3: "dns_states w3 = dns_states w"
      using dns_states_ops(2) [OF w1] dns_states_ops(7) [OF w2] dns_states_ops(4) [OF w3] by simp
    show ?thesis
    proof (cases "res = emptyC")
      case True
      with step False w1 w2 w3 obtain w4 w5 where
        w4: "answers_incr noConnection (fetchFail g False u noConnection w3) = Some w4"
        and w5: "freeConns_put c w4 = Some w5" and self: "self g j w5 = Some r"
        by (auto simp: Let_def bind_Some)
      from IH [OF self] dns_states_ops(3) [OF w5] dns_states_ops(1) [OF w4] d3 show ?thesis by simp
    next
      case False': False
      with step False w1 w2 w3 d3 show ?thesis by (auto simp: Let_def bind_Some)
    qed
  qed
qed

lemma dns_states_transfer: "ns_transfer g k u w = Some w' \<Longrightarrow> dns_states w' = dns_states w"
  by (auto simp: ns_transfer_def ip_putUrl_def Let_def dest: dns_states_forget dns_states_fetch
      split: if_splits)

subsection \<open>Scans of the fifo\<close>

lemma acc_dnsErr_scan:
  "dnsErr_scan g k e n w = Some w' \<Longrightarrow> acc h b w \<Longrightarrow> acc h b w'"
proof (induction n arbitrary: w)
  case 0
  then show ?case by simp
next
  case (Suc n)
  from Suc.prems(1) obtain u w1 p w2 where
    w1: "ns_getInFifo k w = Some (u, w1)" and p: "puny g u = Some p"
    and w2: "(if p = ns_name (w_ns w1 k) then ns_forgetUrl g k u e (named_decr w1)
               else ns_putInFifo k u w1) = Some w2"
    and rest: "dnsErr_scan g k e n w2 = Some w'"
    by (auto simp: bind_Some)
  from acc_ns_get [OF Suc.prems(2) w1] have a1: "acc (h(k := h k + 1)) b w1" and k: "hostHashCode u = k"
    by auto
  have kN: "k < namedSiteListSize" using k hostHashCode_less by auto
  have "acc h b w2"
  proof (cases "p = ns_name (w_ns w1 k)")
    case True
    with w2 have f: "ns_forgetUrl g k u e (named_decr w1) = Some w2" by simp
    from acc_forget [OF _ f kN, of "h(k := h k + 1)" b] a1 show ?thesis by simp
  next
    case False
    with w2 acc_ns_put [OF a1 _ k] show ?thesis by simp
  qed
  with Suc.IH [OF rest] show ?case by simp
qed

lemma acc_settle: "acc h b w \<Longrightarrow> acc h b (ns_settle k w)"
  by (simp add: ns_settle_def)

lemma acc_dnsErr: "ns_dnsErr g k w = Some w' \<Longrightarrow> acc h b w \<Longrightarrow> acc h b w'"
  by (auto simp: ns_dnsErr_def intro!: acc_settle dest: acc_dnsErr_scan)

lemma acc_robots_scan:
  "robots_scan g k ok n w = Some w' \<Longrightarrow> acc h b w \<Longrightarrow> (ok \<longrightarrow> dns_states w k = doneDns) \<Longrightarrow> acc h b w'"
proof (induction n arbitrary: w)
  case 0
  then show ?case by simp
next
  case (Suc n)
  let ?step = "\<lambda>u p w1. if p = ns_name (w_ns w1 k) then
                 (let w2 = named_decr w1 in
                  if ok then (if ns_port (w_ns w1 k) = u_port u then ns_transfer g k u w2
                              else ns_putInFifo k u w2)
                  else ns_forgetUrl g k u noConnection w2)
               else ns_putInFifo k u w1"
  from Suc.prems(1) obtain u w1 p w2 where
    w1: "ns_getInFifo k w = Some (u, w1)" and w2: "?step u p w1 = Some w2"
    and rest: "robots_scan g k ok n w2 = Some w'"
    by (auto simp: bind_Some)
  from acc_ns_get [OF Suc.prems(2) w1] have a1: "acc (h(k := h k + 1)) b w1" and k: "hostHashCode u = k"
    by auto
  have kN: "k < namedSiteListSize" using k hostHashCode_less by auto
  have a1': "acc (h(k := h k + 1)) b (named_decr w1)" using a1 by simp
  have d1: "dns_states w1 = dns_states w" by (rule dns_states_ops(6) [OF w1])
  have w2': "ns_putInFifo k u w1 = Some w2 \<or> ns_putInFifo k u (named_decr w1) = Some w2 \<or>
      (ok \<and> ns_transfer g k u (named_decr w1) = Some w2) \<or>
      ns_forgetUrl g k u noConnection (named_decr w1) = Some w2"
    using w2 by (auto simp: Let_def split: if_splits)
  have d: "ok \<Longrightarrow> ns_dnsState (w_ns (named_decr w1) k) = doneDns"
    using Suc.prems(3) d1 by (metis dns_states_def dns_states_same(7))
  have "acc ((h(k := h k + 1))(k := (h(k := h k + 1)) k - 1)) b w2"
    using w2' acc_ns_put [OF a1 _ k] acc_ns_put [OF a1' _ k] acc_transfer [OF a1' _ k d]
      acc_forget [OF a1' _ kN] by blast
  then have "acc h b w2" by simp
  moreover have "dns_states w2 = dns_states w"
    using w2' d1 dns_states_ops(5) dns_states_transfer dns_states_forget
    by (metis dns_states_same(7))
  ultimately show ?case using Suc.IH [OF rest] Suc.prems(3) by simp
qed

lemma ip_hash_less: "ip_hash g k a < IPSiteListSize"
  by (simp add: ip_hash_def IPSiteListSize_def)

lemma acc_robotsResult:
  assumes "robotsResult g k res w = Some w'" "acc h b w"
  shows "acc h b w'"
proof -
  let ?w1 = "upd_ns k (\<lambda>s. if res \<noteq> noConnection
      then s\<lparr>ns_dnsState := doneDns, ns_ipHash := ip_hash g k (ns_addr s)\<rparr>
      else s\<lparr>ns_dnsState := noConnDns\<rparr>) w"
  have a1: "acc h b ?w1" by (rule acc_upd_ns [OF assms(2)]) (auto simp: ip_hash_less)
  from assms(1) obtain w2 where w2: "robots_scan g k (res \<noteq> noConnection) (ns_fifoLength k ?w1) ?w1 = Some w2"
    "w' = ns_settle k w2" by (auto simp: robotsResult_def Let_def)
  have "res \<noteq> noConnection \<longrightarrow> dns_states ?w1 k = doneDns" by (simp add: dns_states_def upd_ns_def)
  from acc_robots_scan [OF w2(1) a1 this] w2(2) show ?thesis by (simp add: acc_settle)
qed


subsection \<open>Queries and their answers\<close>

lemma acc_newId: "ns_newId g k w = Some w' \<Longrightarrow> acc h b w \<Longrightarrow> acc h b w'"
  by (auto simp: ns_newId_def Let_def bind_Some split: if_splits intro!: acc_upd_ns)

lemma acc_dns_state:
  "acc h b w \<Longrightarrow> st \<noteq> doneDns \<Longrightarrow> acc h b (upd_ns k (\<lambda>s. s\<lparr>ns_dnsState := st\<rparr>) w)"
  "acc h b w \<Longrightarrow> st \<noteq> doneDns \<Longrightarrow>
     acc h b (upd_ns k (\<lambda>s. s\<lparr>ns_cname := c, ns_dnsState := st\<rparr>) w)"
  by (rule acc_upd_ns; simp)+

lemma acc_ns_addr:
  "acc h b w \<Longrightarrow> acc h b (upd_ns k (\<lambda>s. s\<lparr>ns_addr := a\<rparr>) w)"
  "acc h b w \<Longrightarrow> acc h b (upd_ns k (\<lambda>s. s\<lparr>ns_cname := c\<rparr>) w)"
  "acc h b w \<Longrightarrow> acc h b (upd_ns k (\<lambda>s. s\<lparr>ns_cname := c, ns_addr := a\<rparr>) w)"
  by (rule acc_upd_ns; auto simp: acc_def queues_ok_def)+

lemma acc_dnsOK:
  assumes "ns_dnsOK g k w = Some w'" "acc h b w"
  shows "acc h b w'"
proof -
  obtain c w1 where w1: "freeConns_get w = Some (c, w1)"
    using assms(1) by (cases "freeConns_get w") (auto simp: ns_dnsOK_def)
  obtain res w2 where w2: "getFds g c (ns_addr (w_ns w1 k)) (ns_port (w_ns w1 k)) w1 = (res, w2)" by force
  have a2: "acc h b w2" by (rule acc_getFds [OF w2]) (rule acc_conns(1) [OF w1 assms(2)])
  show ?thesis
  proof (cases "res = emptyC")
    case False
    with assms(1) w1 w2 a2 show ?thesis by (auto simp: ns_dnsOK_def)
  next
    case True
    with assms(1) w1 w2 obtain w3 where w3: "freeConns_put c w2 = Some w3"
      and e: "ns_dnsErr g k (upd_ns k (\<lambda>s. s\<lparr>ns_dnsState := noConnDns\<rparr>) w3) = Some w'"
      by (auto simp: ns_dnsOK_def bind_Some)
    have "acc h b w3" by (rule acc_conns(2) [OF w3 a2])
    then show ?thesis by (intro acc_dnsErr [OF e] acc_dns_state) simp_all
  qed
qed

lemma acc_newQuery:
  assumes "ns_newQuery g aton k w = Some w'" "acc h b w"
  shows "acc h b w'"
proof -
  from assms(1) obtain w1 where w1: "ns_newId g k w = Some w1"
    and r: "(let name = ns_name (w_ns w1 k) in
       if g_proxyAddr g \<noteq> None then ns_dnsOK g k (site_dns (site_seen w1))
       else if is_digit (at_nul name 0) then
         (case aton name of
            Some a \<Rightarrow> ns_dnsOK g k (upd_ns k (\<lambda>s. s\<lparr>ns_addr := a\<rparr>) (site_dns (site_seen w1)))
          | None \<Rightarrow> ns_dnsErr g k (upd_ns k (\<lambda>s. s\<lparr>ns_dnsState := errorDns\<rparr>) (site_seen w1)))
       else Some (submit_dns name k w1)) = Some w'"
    unfolding ns_newQuery_def by (auto simp only: bind_Some)
  have a: "acc h b w1" by (rule acc_newId [OF w1 assms(2)])
  then have s: "acc h b (site_seen w1)" "acc h b (site_dns (site_seen w1))" by simp_all
  show ?thesis
    using r a acc_dnsOK [OF _ s(2)] acc_dnsOK [OF _ acc_ns_addr(1) [OF s(2)]]
      acc_dnsErr [OF _ acc_dns_state(1) [OF s(1), of errorDns]]
    by (auto simp: Let_def split: if_splits option.splits)
qed

lemma acc_dnsAns:
  assumes "ns_dnsAns g k ans w = Some w'" "acc h b w"
  shows "acc h b w'"
proof (cases ans)
  case (Prohibited_cname c)
  with assms acc_ns_addr(2) show ?thesis by (auto simp: ns_dnsAns_def)
next
  case (Dns_ok a)
  have "acc h b (site_dns (site_seen w))" using assms(2) by simp
  then show ?thesis using assms(1) Dns_ok acc_dnsOK acc_ns_addr(3)
    by (auto simp: ns_dnsAns_def)
next
  case Dns_fail
  have "acc h b (site_seen w)" using assms(2) by simp
  then show ?thesis using assms(1) Dns_fail acc_dnsErr acc_dns_state(2)
    by (auto simp: ns_dnsAns_def)
qed

subsection \<open>The main loop\<close>

lemma acc_canGetUrl:
  assumes "canGetUrl g tp w = Some (got, tp', w')" "acc h b w"
  shows "acc h (if got then b - 1 else b) w'"
proof -
  note put = acc_putGenericUrl [OF _ _ refl, of h b]
  have P: "putPriorityUrlWait g (hostHashCode u) u v = Some w' \<Longrightarrow> acc h b v \<Longrightarrow> acc h (b - 1) w'"
    "putPriorityUrl g (hostHashCode u) u v = Some w' \<Longrightarrow> acc h b v \<Longrightarrow> acc h (b - 1) w'"
    "putUrlWait g (hostHashCode u) u v = Some w' \<Longrightarrow> acc h b v \<Longrightarrow> acc h (b - 1) w'"
    "putUrl g (hostHashCode u) u v = Some w' \<Longrightarrow> acc h b v \<Longrightarrow> acc h (b - 1) w'" for u v
    using put unfolding putPriorityUrlWait_def putPriorityUrl_def putUrlWait_def putUrl_def by blast+
  show ?thesis
    using assms
    by (auto simp: canGetUrl_def split: if_splits prod.splits option.splits intro: P)
qed

lemma acc_sequencer_loop:
  "sequencer_loop g n tp w = Some w' \<Longrightarrow> acc h b w \<Longrightarrow> acc h b w'"
proof (induction n arbitrary: tp w)
  case 0
  then show ?case by simp
next
  case (Suc n)
  then obtain got tp' w1 where c: "canGetUrl g tp w = Some (got, tp', w1)"
    by (auto split: option.splits)
  note a = acc_canGetUrl [OF c Suc.prems(2)]
  show ?case
  proof (cases got)
    case True
    then have "acc h b (w1\<lparr>w_space := w_space w1 - 1\<rparr>)"
      using acc_space [of h "b - 1" w1 "w_space w1 - 1"] a by simp
    with Suc.IH Suc.prems(1) c True show ?thesis by auto
  next
    case False
    with Suc.prems(1) c a show ?thesis by simp
  qed
qed

lemma acc_sequencer:
  assumes "sequencer g w = Some w'" "acc h b w"
  shows "acc h b w'"
proof -
  let ?w1 = "if w_space w = 0
    then (let (n, i) = Interval_putAll (w_inter w) in w\<lparr>w_space := n, w_inter := i\<rparr>) else w"
  have "acc h b ?w1"
    using assms(2) by (auto simp: acc_def queues_ok_def held_def balance_def Interval_putAll_def fun_eq_iff)
  moreover obtain n where "sequencer_loop g n True ?w1 = Some w'"
    using assms(1) unfolding sequencer_def Let_def by blast
  ultimately show ?thesis using acc_sequencer_loop by blast
qed

lemma acc_fetchOpen_loop:
  assumes "fetchOpen_loop g w = Some w'"
  shows "acc h b w \<longrightarrow> acc h b w'"
  using assms
proof (rule fetchOpen_loop.raw_induct [where P = "\<lambda>g w r. acc h b w \<longrightarrow> acc h b r", rotated], goal_cases)
  case (1 self g w r)
  note IH = 1(1) and step = 1(2)
  show ?case
  proof (cases "Fifo_tryGet (w_okSites w)")
    case (Pair jo q)
    show ?thesis
    proof (cases "ConstFifo_isNonEmpty (w_freeConns w) \<and> jo \<noteq> None")
      case False
      with step Pair show ?thesis by (auto split: if_splits)
    next
      case True
      then obtain j where j: "jo = Some j" by auto
      from step True Pair j obtain t w1 where
        f: "ip_fetch g j (w\<lparr>w_okSites := q\<rparr>) = Some (t, w1)"
        and r: "(if t = 0 then self g (w1\<lparr>w_next_call := t\<rparr>) else Some (w1\<lparr>w_next_call := t\<rparr>)) = Some r"
        by (auto simp: bind_Some Let_def)
      from acc_ip_fetch [OF f, of h b] r IH [of g "w1\<lparr>w_next_call := t\<rparr>" r] show ?thesis
        by (auto split: if_splits)
    qed
  qed
qed

lemma acc_submit_loop:
  assumes "submit_loop g aton w = Some w'"
  shows "acc h b w \<longrightarrow> acc h b w'"
  using assms
proof (rule submit_loop.raw_induct [where P = "\<lambda>g a w r. acc h b w \<longrightarrow> acc h b r", rotated], goal_cases)
  case (1 self g aton w r)
  note IH = 1(1) and step = 1(2)
  show ?case
  proof (cases "Fifo_tryGet (w_dnsSites w)")
    case (Pair ko q)
    show ?thesis
    proof (cases ko)
      case None
      with step Pair show ?thesis by (auto split: if_splits)
    next
      case (Some k)
      with step Pair have "r = w \<or> (\<exists>w1. ns_newQuery g aton k (w\<lparr>w_dnsSites := q\<rparr>) = Some w1 \<and> self g aton w1 = Some r)"
        by (auto simp: bind_Some split: if_splits)
      then show ?thesis
      proof
        assume "\<exists>w1. ns_newQuery g aton k (w\<lparr>w_dnsSites := q\<rparr>) = Some w1 \<and> self g aton w1 = Some r"
        then obtain w1 where w1: "ns_newQuery g aton k (w\<lparr>w_dnsSites := q\<rparr>) = Some w1"
          and s: "self g aton w1 = Some r" by blast
        from acc_newQuery [OF w1, of h b] IH [OF s] show ?thesis by simp
      qed simp
    qed
  qed
qed

lemma acc_answer_loop:
  assumes "answer_loop g w = Some w'"
  shows "acc h b w \<longrightarrow> acc h b w'"
  using assms
proof (rule answer_loop.raw_induct [where P = "\<lambda>g w r. acc h b w \<longrightarrow> acc h b r", rotated], goal_cases)
  case (1 self g w r)
  note IH = 1(1) and step = 1(2)
  show ?case
  proof (cases "w_answers w")
    case Nil
    with step show ?thesis by (auto split: if_splits)
  next
    case (Cons a as)
    obtain k ans where a: "a = (k, ans)" by force
    let ?w = "w\<lparr>w_answers := as, w_nbDnsCalls := w_nbDnsCalls w - 1\<rparr>"
    from step Cons a have "r = w \<or> (\<exists>w1. ns_dnsAns g k ans ?w = Some w1 \<and> self g w1 = Some r)"
      by (auto simp: bind_Some split: if_splits)
    then show ?thesis
    proof
      assume "\<exists>w1. ns_dnsAns g k ans ?w = Some w1 \<and> self g w1 = Some r"
      then obtain w1 where w1: "ns_dnsAns g k ans ?w = Some w1" and s: "self g w1 = Some r" by blast
      from acc_dnsAns [OF w1, of h b] IH [OF s] show ?thesis by simp
    qed simp
  qed
qed

lemma acc_fetchDns: "fetchDns g aton w = Some w' \<Longrightarrow> acc h b w \<Longrightarrow> acc h b w'"
  using acc_submit_loop acc_answer_loop by (auto simp: fetchDns_def bind_Some)

lemma acc_fetchOpen: "fetchOpen g w = Some w' \<Longrightarrow> acc h b w \<Longrightarrow> acc h b w'"
  using acc_fetchOpen_loop by (auto simp: fetchOpen_def split: if_splits)

lemma acc_check: "check g u w = Some w' \<Longrightarrow> acc h b w \<Longrightarrow> acc h b w'"
  by (auto simp: check_def Let_def split: prod.splits if_splits dest: acc_answers)

lemma acc_manageUrl: "manageUrl g here u r w = Some w' \<Longrightarrow> acc h b w \<Longrightarrow> acc h b w'"
  by (auto simp: manageUrl_def split: sum.splits if_splits dest: acc_check acc_answers)


subsection \<open>The crawler as a state machine\<close>

definition NamedSite_new :: named_site where
  "NamedSite_new =
     \<lparr>ns_cname = None, ns_name = [], ns_port = 0, ns_nburls = 0, ns_fifo = ConstFifo_new (maxUrlsBySite - 1),
      ns_isInFifo = False, ns_dnsState = waitDns, ns_addr = 0, ns_ipHash = 0, ns_dnsTimeout = 0,
      ns_forbidden = []\<rparr>"

definition IPSite_new :: ip_site where
  "IPSite_new = \<lparr>ip_lastAccess = 0, ip_isInFifo = False, ip_tab = Fifo_new maxUrlsBySite\<rparr>"

definition Connexion_new :: connexion where
  "Connexion_new =
     \<lparr>c_state = emptyC, c_pos = 0, c_err = success, c_timeout = 0, c_request = [],
      c_parser = No_parser, c_peer = (0, 0)\<rparr>"

definition stats_new :: stats where
  "stats_new =
     \<lparr>st_namedUrl = 0, st_IPUrl = 0, st_urls = 0, st_missUrl = 0, st_sites = 0, st_ipsites = 0,
      st_siteSeen = 0, st_siteDNS = 0, st_hashUrls = 0, st_interestingExtension = 0,
      st_extensionTreated = 0, st_pages = 0, st_interestingPage = 0, st_interestingSeen = 0,
      st_siteRobots = 0, st_robotsOK = 0, st_read = 0, st_written = 0, st_answers = replicate nbAnswers 0\<rparr>"

text \<open>The state that the constructor of \<open>global\<close> leaves, from scratch.\<close>

definition world_new :: "config \<Rightarrow> int \<Rightarrow> world" where
  "world_new g now =
     \<lparr>w_now = now, w_ns = (\<lambda>_. NamedSite_new), w_ip = (\<lambda>_. IPSite_new),
      w_okSites = Fifo_new 2000, w_dnsSites = Fifo_new 2000,
      w_freeConns =
        (case put_all ConstFifo_put [0..<g_nb_conn g] (ConstFifo_new (g_nb_conn g)) of
           Some q \<Rightarrow> q | None \<Rightarrow> ConstFifo_new (g_nb_conn g)),
      w_conns = (\<lambda>_. Connexion_new), w_inter = Interval_new ramUrls, w_space = 0,
      w_priority = SyncFifo_new 100, w_priorityWait = SyncFifo_new 100, w_readPriorityWait = 0,
      w_disk = pf_scratch [], w_diskWait = pf_scratch [], w_readWait = 0,
      w_seen = hashTable_empty, w_hDup = hashTable_empty, w_remainBand = g_limitBand g, w_next_call = 0, w_nbDnsCalls = 0, w_pending = [],
      w_sockets = [], w_answers = [], w_failed = [], w_loaded = [], w_stats = stats_new, w_canReload = False,
      w_printStats = False\<rparr>"

text \<open>One turn of the main loop is a sequence of these steps. The paths that a \<open>robots.txt\<close> forbids come
  into its site, \<open>forbidden\<close>, before the result of the file is dealt with; \<open>outside\<close> is everything that
  the functions above only read: the clock, the network, the answers of the resolver, the
  counters that \<open>cron\<close> sets.\<close>

inductive crawl_step :: "config \<Rightarrow> (string \<Rightarrow> nat option) \<Rightarrow> world \<Rightarrow> world \<Rightarrow> bool"
  for g aton where
  step_sequencer: "sequencer g w = Some w' \<Longrightarrow> crawl_step g aton w w'"
| step_fetchOpen: "fetchOpen g w = Some w' \<Longrightarrow> crawl_step g aton w w'"
| step_fetchDns: "fetchDns g aton w = Some w' \<Longrightarrow> crawl_step g aton w w'"
| step_robots: "robotsResult g k res w = Some w' \<Longrightarrow> crawl_step g aton w w'"
| step_forbidden: "crawl_step g aton w (upd_ns k (\<lambda>s. s\<lparr>ns_forbidden := forb\<rparr>) w)"
| step_link: "manageUrl g here u isRedir w = Some w' \<Longrightarrow> crawl_step g aton w w'"
| step_free: "freeConns_put c w = Some w' \<Longrightarrow> crawl_step g aton w w'"
| step_outside: "crawl_step g aton w
    (w\<lparr>w_now := t, w_sockets := socks, w_answers := as, w_readPriorityWait := n, w_readWait := m\<rparr>)"

inductive reachable :: "config \<Rightarrow> (string \<Rightarrow> nat option) \<Rightarrow> world \<Rightarrow> bool" for g aton where
  reach_init: "reachable g aton (world_new g now)"
| reach_step: "reachable g aton w \<Longrightarrow> crawl_step g aton w w' \<Longrightarrow> reachable g aton w'"

inductive_cases crawl_stepE: "crawl_step g aton w w'"

lemma acc_init: "acc (\<lambda>_. 0) 0 (world_new g now)"
proof -
  let ?w = "world_new g now"
  have i: "w_ns ?w = (\<lambda>_. NamedSite_new)" "w_ip ?w = (\<lambda>_. IPSite_new)"
    "w_inter ?w = Interval_new ramUrls" "w_space ?w = 0" by (simp_all add: world_new_def)
  have r: "ring_inv (ConstFifo_new 63 :: url ring)" "ring_items (ConstFifo_new 63 :: url ring) = []"
    "ring_inv (Fifo_new 64 :: url ring)" "ring_items (Fifo_new 64 :: url ring) = []"
    using ring_new(3) [of 63] ring_new(1) [OF zero_less_numeral] by blast+
  have sz: "r_size (ConstFifo_new 63 :: url ring) = 64" by (simp add: ConstFifo_new_def)
  have "in_tabs (w_ip ?w) k = 0" for k
    unfolding i in_tabs_def using r by (simp add: IPSite_new_def maxUrlsBySite_def)
  then have "held ?w = (\<lambda>_. 0)"
    using r by (intro ext) (simp add: held_def i NamedSite_new_def maxUrlsBySite_def)
  moreover have "balance ?w = 0"
    unfolding balance_def i total_nburls_def by (simp add: NamedSite_new_def Interval_new_def)
  moreover have "queues_ok ?w"
    using r sz by (simp add: queues_ok_def i NamedSite_new_def IPSite_new_def maxUrlsBySite_def)
  ultimately show ?thesis by (simp add: acc_def)
qed

lemma acc_step: "crawl_step g aton w w' \<Longrightarrow> acc h b w \<Longrightarrow> acc h b w'"
proof (induction rule: crawl_step.induct)
  case (step_outside w t socks as n m)
  then show ?case by simp
next
  case (step_forbidden w k forb)
  then show ?case by (intro acc_upd_ns) (auto simp: acc_def queues_ok_def)
qed (auto dest: acc_sequencer acc_fetchOpen acc_fetchDns acc_robotsResult acc_manageUrl acc_conns)

lemma acc_reachable: "reachable g aton w \<Longrightarrow> acc (\<lambda>_. 0) 0 w"
  by (induction rule: reachable.induct) (auto intro: acc_init acc_step)

subsection \<open>Progress\<close>

lemma acc_nburls_fifo:
  assumes "acc (\<lambda>_. 0) b w"
  shows "ns_nburls (w_ns w k) = int (length (fifo_items w k)) + in_tabs (w_ip w) k"
    "int (length (fifo_items w k)) \<le> ns_nburls (w_ns w k)"
proof -
  have "held w k = 0" using assms by (simp add: acc_def fun_eq_iff)
  then show "ns_nburls (w_ns w k) = int (length (fifo_items w k)) + in_tabs (w_ip w) k"
    by (simp add: held_def)
  moreover have "0 \<le> in_tabs (w_ip w) k" by (simp add: in_tabs_def cnt_nonneg sum_nonneg)
  ultimately show "int (length (fifo_items w k)) \<le> ns_nburls (w_ns w k)" by simp
qed

lemma ns_put_room:
  assumes "acc h b w" "length (fifo_items w k) < maxUrlsBySite - 1"
  shows "ns_putInFifo k u w \<noteq> None"
proof -
  have q: "ring_inv (ns_fifo (w_ns w k))" "r_size (ns_fifo (w_ns w k)) = maxUrlsBySite"
    using assms(1) by (auto simp: acc_def queues_ok_def)
  show ?thesis using ConstFifo_put_ok [OF q(1), of u] q(2) assms(2)
    by (auto simp: ns_putInFifo_def split: if_splits)
qed

lemma ip_getUrl_some:
  assumes "ring_inv (ip_tab (w_ip w j))" "tab_items w j = u # us"
  shows "\<exists>w'. ip_getUrl g j w = Some (u, w') \<and> w_freeConns w' = w_freeConns w \<and>
    ring_inv (ip_tab (w_ip w' j)) \<and> tab_items w' j = us"
proof -
  have ne: "r_in (ip_tab (w_ip w j)) \<noteq> r_out (ip_tab (w_ip w j))"
    using assms ring_items_empty by fastforce
  from ring_take [OF assms(1) ne] assms(2) obtain q where
    q: "Fifo_get (ip_tab (w_ip w j)) = Some (Some u, q)" "ring_inv q" "ring_items q = us"
    using ne by (auto simp: Fifo_get_def)
  show ?thesis
    using q by (auto simp: ip_getUrl_def Let_def upd_ip_def upd_ns_def upd_stats_def inter_getOne_def)
qed

lemma freeConns_get_put:
  assumes "ring_inv (w_freeConns w)" "ring_items (w_freeConns w) = c # cs"
  shows "\<exists>w1. freeConns_get w = Some (c, w1) \<and> ring_inv (w_freeConns w1) \<and>
    ring_items (w_freeConns w1) = cs \<and> r_size (w_freeConns w1) = r_size (w_freeConns w) \<and>
    w_ip w1 = w_ip w"
proof -
  from tryGet_front [OF assms] obtain q where
    "Fifo_tryGet (w_freeConns w) = (Some c, q)" "ring_inv q" "ring_items q = cs" "r_size q = r_size (w_freeConns w)"
    by blast
  then show ?thesis by (auto simp: freeConns_get_def SyncFifo_same)
qed

lemma getFds_frame:
  "getFds g c a p w = (r, w') \<Longrightarrow> w_freeConns w' = w_freeConns w \<and> w_ip w' = w_ip w"
  by (auto simp: getFds_def Let_def upd_conn_def split: list.splits sock_result.splits)

lemma ip_fetch_some:
  "ring_inv (ip_tab (w_ip w j)) \<Longrightarrow> \<forall>u \<in> set (tab_items w j). puny g u \<noteq> None \<Longrightarrow>
   ring_inv (w_freeConns w) \<Longrightarrow> ring_items (w_freeConns w) \<noteq> [] \<Longrightarrow> \<exists>r. ip_fetch g j w = Some r"
proof (induction "tab_items w j" arbitrary: w)
  case Nil
  then have "Fifo_isEmpty (ip_tab (w_ip w j))"
    using ring_items_empty [OF Nil(2)] by (simp add: Fifo_isEmpty_def)
  then show ?case by (subst ip_fetch.simps) simp
next
  case (Cons u us)
  have ne: "\<not> Fifo_isEmpty (ip_tab (w_ip w j))"
    using ring_items_empty [OF Cons(3)] Cons(2) by (auto simp: Fifo_isEmpty_def)
  obtain c cs where cs: "ring_items (w_freeConns w) = c # cs" using Cons(6) by (cases "ring_items (w_freeConns w)") auto
  obtain w1 where w1: "freeConns_get w = Some (c, w1)" "ring_inv (w_freeConns w1)"
    "ring_items (w_freeConns w1) = cs" "r_size (w_freeConns w1) = r_size (w_freeConns w)" "w_ip w1 = w_ip w"
    using freeConns_get_put [OF Cons(5) cs] by blast
  obtain w2 where w2: "ip_getUrl g j w1 = Some (u, w2)" "w_freeConns w2 = w_freeConns w1"
    "ring_inv (ip_tab (w_ip w2 j))" "tab_items w2 j = us"
    using ip_getUrl_some [of w1 j u us g] Cons(2,3) w1(5) by auto
  obtain res w3 where w3: "getFds g c (u_addr u) (u_port u) w2 = (res, w3)" by force
  note f3 = getFds_frame [OF w3]
  have pu: "puny g u \<noteq> None" and pus: "\<forall>v \<in> set us. puny g v \<noteq> None"
    using Cons(2,4) by (metis list.set_intros(1), metis list.set_intros(2))
  show ?case
  proof (cases "ip_lastAccess (w_ip w j) + g_waitDuration g > w_now w \<or> res \<noteq> emptyC")
    case True
    with ne w1(1) w2(1) w3 pu show ?thesis
      by (subst ip_fetch.simps) (auto simp: Let_def page_request_def)
  next
    case False
    define w4 where "w4 = upd_stats (\<lambda>s. s\<lparr>st_answers :=
        (st_answers s)[2 := st_answers s ! 2 + 1]\<rparr>) (fetchFail g False u noConnection w3)"
    have w4: "answers_incr noConnection (fetchFail g False u noConnection w3) = Some w4"
      by (simp add: answers_incr_def w4_def fetch_code_def nbAnswers_def)
    have f4: "w_freeConns w4 = w_freeConns w3" "w_ip w4 = w_ip w3"
      by (simp_all add: w4_def upd_stats_def fetchFail_def)
    have room: "length (ring_items (w_freeConns w4)) < r_size (w_freeConns w4) - 1"
    proof -
      have "ring_count (w_freeConns w) < r_size (w_freeConns w)"
        using Cons(5) by (auto simp: ring_inv_def ring_count_def)
      then show ?thesis using cs w1 w2 f3 f4 ring_items_length [of "w_freeConns w"] by simp
    qed
    obtain q where q: "ConstFifo_put c (w_freeConns w4) = Some q" "ring_inv q"
      "ring_items q = ring_items (w_freeConns w4) @ [c]"
      using ConstFifo_put_ok [of "w_freeConns w4" c] room w1 w2 f3 f4 by auto
    let ?w5 = "w4\<lparr>w_freeConns := q\<rparr>"
    have "\<exists>r. ip_fetch g j ?w5 = Some r"
      using w2 f3 f4 pus q by (intro Cons(1)) auto
    moreover have "freeConns_put c w4 = Some ?w5" using q by (simp add: freeConns_put_def)
    ultimately show ?thesis using False ne w1(1) w2(1) w3 w4
      by (subst ip_fetch.simps) (auto simp: Let_def)
  qed
qed


subsection \<open>Properties\<close>

lemma sum_cnt: "(\<Sum>k < namedSiteListSize. cnt k us) = int (length us)"
proof (induction us)
  case (Cons u us)
  have "(\<Sum>k < namedSiteListSize. (if hostHashCode u = k then 1 else 0) :: int) = 1"
    using hostHashCode_less [of u] by (simp add: sum.delta)
  with Cons show ?case by (simp add: sum.distrib)
qed simp

lemma total_in_tabs:
  "(\<Sum>k < namedSiteListSize. in_tabs ip k) = (\<Sum>j < IPSiteListSize. int (length (ring_items (ip_tab (ip j)))))"
  unfolding in_tabs_def by (subst sum.swap) (simp add: sum_cnt)

text \<open>C1: In every state the crawler can reach, the interval counter is what the sequencer may
  still take plus the number of urls in memory, those in the queues of named sites and those
  in the queues of addresses, and \<open>nburls\<close> of a site is exactly the number of urls in memory
  whose host hashes to it.\<close>

theorem crawl_accounting:
  assumes "reachable g aton w"
  shows "iv_pos (w_inter w) = w_space w
       + (\<Sum>k < namedSiteListSize. int (length (fifo_items w k)))
       + (\<Sum>j < IPSiteListSize. int (length (tab_items w j))) \<and>
     (\<forall>k. ns_nburls (w_ns w k) = int (length (fifo_items w k))
        + (\<Sum>j < IPSiteListSize. cnt k (tab_items w j)) \<and> 0 \<le> ns_nburls (w_ns w k))"
proof -
  have a: "acc (\<lambda>_. 0) 0 w" by (rule acc_reachable [OF assms])
  then have n: "ns_nburls (w_ns w k) = int (length (fifo_items w k)) + in_tabs (w_ip w) k" for k
    by (rule acc_nburls_fifo(1))
  have "iv_pos (w_inter w) = w_space w + (\<Sum>k < namedSiteListSize. ns_nburls (w_ns w k))"
    using a by (simp add: acc_def balance_def total_nburls_def)
  also have "(\<Sum>k < namedSiteListSize. ns_nburls (w_ns w k)) =
      (\<Sum>k < namedSiteListSize. int (length (fifo_items w k))) + (\<Sum>j < IPSiteListSize. int (length (tab_items w j)))"
    by (simp add: n sum.distrib total_in_tabs)
  finally show ?thesis
    using n acc_nburls_fifo(2) [OF a] by (auto simp: in_tabs_def intro: order_trans [OF _ acc_nburls_fifo(2) [OF a]])
qed

theorem crawl_accounting_witness:
  "\<exists>w. reachable default_config (\<lambda>_. None) w \<and> ns_forbidden (w_ns w 5) = [''/private''] \<and>
     iv_pos (w_inter w) = w_space w
       + (\<Sum>k < namedSiteListSize. int (length (fifo_items w k)))
       + (\<Sum>j < IPSiteListSize. int (length (tab_items w j)))"
proof -
  let ?w = "upd_ns 5 (\<lambda>s. s\<lparr>ns_forbidden := [''/private'']\<rparr>) (world_new default_config 9)"
  have r: "reachable default_config (\<lambda>_. None) ?w" by (rule reach_step [OF reach_init step_forbidden])
  moreover have "ns_forbidden (w_ns ?w 5) = [''/private'']" by (simp add: upd_ns_def)
  ultimately show ?thesis using crawl_accounting [OF r] by blast
qed

text \<open>A url handed to its site with a limit of two or more never makes the assertion of
  \<open>putInFifo\<close> fail, in any state whose accounts are right (as in every reachable one).\<close>

theorem putInFifo_room:
  assumes "acc (\<lambda>_. 0) b w" and "hostHashCode u = k" and "2 \<le> limit"
    and "ns_nburls (w_ns w k) \<le> int maxUrlsBySite - limit"
  shows "ns_enqueue k u (nburls_incr k w) \<noteq> None"
proof -
  have k: "k < namedSiteListSize" using assms(2) hostHashCode_less by auto
  have "fifo_items (nburls_incr k w) k = fifo_items w k" by (simp add: nburls_incr_def upd_ns_def)
  moreover have "length (fifo_items w k) < maxUrlsBySite - 1"
    using acc_nburls_fifo(2) [OF assms(1), of k] assms(3,4) by (simp add: maxUrlsBySite_def)
  ultimately have "ns_putInFifo k u (nburls_incr k w) \<noteq> None"
    using ns_put_room [OF acc_nburls_incr [OF assms(1) k], of k u] by simp
  then show ?thesis by (auto simp: ns_enqueue_def Let_def)
qed

text \<open>A state with \<open>n\<close> urls waiting in the site of \<open>u\<close>, and nothing else.\<close>

definition crowded :: "nat \<Rightarrow> url \<Rightarrow> world \<Rightarrow> world" where
  "crowded n u w =
     w\<lparr>w_ns := (\<lambda>_. NamedSite_new)(hostHashCode u := NamedSite_new
          \<lparr>ns_nburls := int n,
           ns_fifo := \<lparr>r_in = n, r_out = 0, r_size = 64,
                       r_tab = replicate n (Some u) @ replicate (64 - n) None\<rparr>\<rparr>),
       w_ip := (\<lambda>_. IPSite_new)\<rparr>"

lemma crowded_ring:
  fixes u :: url
  assumes "n < 64"
  defines "q \<equiv> \<lparr>r_in = n, r_out = 0, r_size = 64,
      r_tab = replicate n (Some u) @ replicate (64 - n) None\<rparr>"
  shows "ring_inv q" "ring_items q = replicate n u"
proof -
  have "ring_count q = n" using assms(1) by (simp add: q_def ring_count_def)
  then have "ring_cells q = map Some (replicate n u)"
    using assms(1) by (intro nth_equalityI) (auto simp: ring_cells_def q_def nth_append)
  then show "ring_inv q" "ring_items q = replicate n u"
    using ring_invI [of q "replicate n u"] assms(1) by (auto simp: q_def)
qed

lemma crowded_acc: "n < 64 \<Longrightarrow> \<exists>b. acc (\<lambda>_. 0) b (crowded n u w)"
proof -
  assume n: "n < 64"
  have r: "ring_inv (ConstFifo_new 63 :: url ring)" "ring_items (ConstFifo_new 63 :: url ring) = []"
    "ring_inv (Fifo_new 64 :: url ring)" "ring_items (Fifo_new 64 :: url ring) = []"
    using ring_new(3) [of 63] ring_new(1) [OF zero_less_numeral] by blast+
  have sz: "r_size (ConstFifo_new 63 :: url ring) = 64" by (simp add: ConstFifo_new_def)
  have "in_tabs (w_ip (crowded n u w)) k = 0" for k
    using r by (simp add: in_tabs_def crowded_def IPSite_new_def maxUrlsBySite_def)
  then have "held (crowded n u w) = (\<lambda>_. 0)"
    using r crowded_ring(2) [OF n] by (intro ext) (auto simp: held_def crowded_def NamedSite_new_def maxUrlsBySite_def)
  moreover have "queues_ok (crowded n u w)"
    using r sz crowded_ring [OF n] by (auto simp: queues_ok_def crowded_def NamedSite_new_def
        IPSite_new_def maxUrlsBySite_def)
  ultimately show ?thesis by (simp add: acc_def)
qed

theorem putInFifo_room_witness:
  "ns_enqueue (hostHashCode (url_init 0)) (url_init 0)
     (nburls_incr (hostHashCode (url_init 0)) (crowded 62 (url_init 0) (world_new default_config 0))) \<noteq> None"
proof -
  obtain b where "acc (\<lambda>_. 0) b (crowded 62 (url_init 0) (world_new default_config 0))"
    using crowded_acc [of 62] by auto
  from putInFifo_room [OF this refl, of 2] show ?thesis
    by (simp add: crowded_def maxUrlsBySite_def)
qed

text \<open>With the limit 1 that \<open>putPriorityUrlWait\<close> uses the assertion can fail: the accounts
  may be right, 63 urls be waiting, and the one that comes is still accepted.\<close>

theorem putPriorityUrlWait_assertion:
  "(\<exists>b. acc (\<lambda>_. 0) b (crowded 63 u w)) \<and>
   putPriorityUrlWait g (hostHashCode u) u (crowded 63 u w) = None"
proof
  show "\<exists>b. acc (\<lambda>_. 0) b (crowded 63 u w)" by (rule crowded_acc) simp
  let ?k = "hostHashCode u" and ?w = "crowded 63 u w"
  have q: "ring_inv (ns_fifo (w_ns ?w ?k))" "fifo_items ?w ?k = replicate 63 u"
    "r_size (ns_fifo (w_ns ?w ?k)) = 64"
    using crowded_ring [of 63 u] by (auto simp: crowded_def)
  have "ConstFifo_put u (ns_fifo (w_ns ?w ?k)) = None"
    using ConstFifo_put_ok [OF q(1), of u] q(2,3) by simp
  then have "ns_enqueue ?k u (nburls_incr ?k ?w) = None"
    by (simp add: ns_enqueue_def ns_putInFifo_def nburls_incr_def upd_ns_def)
  then show "putPriorityUrlWait g ?k u ?w = None"
    by (simp add: putPriorityUrlWait_def putGenericUrl_def Let_def crowded_def NamedSite_new_def
        maxUrlsBySite_def)
qed

text \<open>\<open>IPSite::fetch\<close> returns: called with a free connection and urls whose names can be
  encoded, its recursion over failing connections ends without a failed assertion, whatever
  the network answers.\<close>

theorem ip_fetch_returns:
  assumes "ring_inv (ip_tab (w_ip w j))" "\<forall>u \<in> set (tab_items w j). puny g u \<noteq> None"
    and "ring_inv (w_freeConns w)" "ring_items (w_freeConns w) \<noteq> []"
  shows "\<exists>t w'. ip_fetch g j w = Some (t, w')"
  using ip_fetch_some [OF assms] by (metis surj_pair)

theorem ip_fetch_returns_witness:
  "\<exists>t w'. ip_fetch default_config 7
      ((world_new default_config 0)\<lparr>w_ip := (\<lambda>_. \<lparr>ip_lastAccess = 0, ip_isInFifo = True, ip_tab = Fifo_put (url_init 0) (Fifo_new 1)\<rparr>),
         w_freeConns := Fifo_put 3 (Fifo_new 2)\<rparr>) = Some (t, w')"
proof (rule ip_fetch_returns)
  let ?w = "(world_new default_config 0)\<lparr>w_ip := (\<lambda>_. \<lparr>ip_lastAccess = 0, ip_isInFifo = True, ip_tab = Fifo_put (url_init 0) (Fifo_new 1)\<rparr>),
         w_freeConns := Fifo_put 3 (Fifo_new 2)\<rparr>"
  have t: "ring_inv (Fifo_put (url_init 0) (Fifo_new 1))"
    "ring_items (Fifo_put (url_init 0) (Fifo_new 1)) = [url_init 0]"
    using Fifo_put_ok [of "Fifo_new 1" "url_init 0"] ring_new(1) [of 1, where ?'a = url] by auto
  have f: "ring_inv (Fifo_put (3 :: nat) (Fifo_new 2))" "ring_items (Fifo_put (3 :: nat) (Fifo_new 2)) = [3]"
    using Fifo_put_ok [of "Fifo_new 2" "3 :: nat"] ring_new(1) [of 2, where ?'a = nat] by auto
  show "ring_inv (ip_tab (w_ip ?w 7))" "ring_inv (w_freeConns ?w)" "ring_items (w_freeConns ?w) \<noteq> []"
    using t f by simp_all
  show "\<forall>u \<in> set (tab_items ?w 7). puny default_config u \<noteq> None"
    using t by (simp add: puny_def getPunycode_def default_config_def)
qed


text \<open>C32: With \<open>lockSite\<close> on, every link to another host stores outside the array of counters:
  \<open>outSite\<close> is number 16 and the array has \<open>nbAnswers = 16\<close> cells.\<close>

theorem manageUrl_lockSite_overrun:
  assumes "g_lockSite g" "isValid nouv" "filter1 g (host_str nouv) (file_str nouv)"
    and "g_externalLinks g \<or> isRedir" "host_str nouv \<noteq> host_str here"
  shows "manageUrl g here nouv isRedir w = None"
  using assms
  by (auto simp: manageUrl_def initOK_def answers_incr_def fetch_code_def nbAnswers_def)

theorem manageUrl_lockSite_overrun_witness:
  "manageUrl (default_config\<lparr>g_lockSite := True\<rparr>)
     ((url_init 5)\<lparr>u_host := Some ''a.org'', u_file := Some ''/''\<rparr>)
     ((url_init 4)\<lparr>u_host := Some ''b.org'', u_file := Some ''/''\<rparr>) False
     (world_new default_config 0) = None"
proof (rule manageUrl_lockSite_overrun)
  let ?g = "default_config\<lparr>g_lockSite := True\<rparr>"
    and ?v = "(url_init 4)\<lparr>u_host := Some ''b.org'', u_file := Some ''/''\<rparr>"
  show "g_lockSite ?g" "g_externalLinks ?g \<or> False" by (simp_all add: default_config_def)
  show "isValid ?v" by (simp add: isValid_def url_init_def maxSiteSize_def maxUrlSize_def)
  show "filter1 ?g (host_str ?v) (file_str ?v)" by (simp add: filter1_def default_config_def Let_def)
  show "host_str ?v \<noteq> host_str ((url_init 5)\<lparr>u_host := Some ''a.org'', u_file := Some ''/''\<rparr>)"
    by (simp add: host_str_def)
qed

text \<open>A host of \<open>n + 1\<close> labels, each one Chinese character.\<close>

definition chinese :: string where "chinese = [CHR 0xE4, CHR 0xB8, CHR 0xAD]"

definition chinese_host :: "nat \<Rightarrow> string" where
  "chinese_host n = concat (replicate n (chinese @ ''.'')) @ chinese"

lemma chinese_label: "puny_label chinese flag = Some (''xn--fiq'' @ [flag])"
  by (simp add: puny_label_def chinese_def have_unicode_def punycode_encode_def chinese_units
      chinese_pass)

lemma chinese_walk:
  "puny_walk [] (chinese_host n) = Some (concat (replicate n ''xn--fiq.'') @ ''xn--fiq'' @ [NUL])"
proof (induction n)
  case 0
  have "puny_walk [] chinese = puny_label chinese NUL" by (simp add: chinese_def)
  then show ?case by (simp add: chinese_host_def chinese_label)
next
  case (Suc n)
  have "puny_walk [] (chinese_host (Suc n)) = puny_walk chinese (CHR ''.'' # chinese_host n)"
    by (simp add: chinese_host_def chinese_def)
  then show ?case using Suc by (simp add: chinese_label)
qed

lemma takeWhile_prefix: "\<forall>c \<in> set p. P c \<Longrightarrow> \<not> P x \<Longrightarrow> takeWhile P (p @ x # r) = p"
  by (induction p) auto

lemma chinese_puny:
  "punycode_host (chinese_host n) = Some (concat (replicate n ''xn--fiq.'') @ ''xn--fiq'')"
proof -
  have "have_unicode (chinese_host n)" by (simp add: have_unicode_def chinese_host_def chinese_def)
  moreover have "\<forall>c \<in> set (concat (replicate n ''xn--fiq.'') @ ''xn--fiq''). c \<noteq> NUL"
    by (auto simp: NUL_def)
  note takeWhile_prefix [OF this, of NUL "[]"]
  ultimately show ?thesis by (simp add: punycode_host_def chinese_walk)
qed

lemma length_concat_replicate: "length (concat (replicate n xs)) = n * length xs"
  by (induction n) auto

text \<open>C33: The name of a valid url may become longer than the array \<open>name\<close> of its site when it is
  encoded: 64 labels of one Chinese character are 255 bytes, and 511 in punycode, copied with
  \<open>strcpy\<close> into 256.\<close>

theorem ns_newId_overflow:
  "\<exists>u. isValid u \<and> hostHashCode u < namedSiteListSize \<and>
     ns_newId (default_config\<lparr>g_punycode := True\<rparr>) (hostHashCode u) (crowded 1 u w) = None"
proof -
  define u where "u = (url_init 0)\<lparr>u_host := Some (chinese_host 63), u_file := Some ''/''\<rparr>"
  have len: "length (chinese_host 63) = 255"
    by (simp add: chinese_host_def chinese_def length_concat_replicate)
  have v: "isValid u" by (simp add: isValid_def u_def len maxSiteSize_def maxUrlSize_def)
  have p: "puny (default_config\<lparr>g_punycode := True\<rparr>) u =
      Some (concat (replicate 63 ''xn--fiq.'') @ ''xn--fiq'')"
    by (simp add: puny_def getPunycode_def u_def url_init_def host_str_def chinese_puny)
  have "Fifo_tryRead (ns_fifo (w_ns (crowded 1 u w) (hostHashCode u))) = Some u"
    by (simp add: crowded_def Fifo_tryRead_def)
  then have "ns_newId (default_config\<lparr>g_punycode := True\<rparr>) (hostHashCode u) (crowded 1 u w) = None"
    by (simp add: ns_newId_def Let_def p length_concat_replicate maxSiteSize_def upd_stats_def
        crowded_def NamedSite_new_def)
  with v hostHashCode_less show ?thesis by blast
qed

end
