(* ===== verification/Pool.thy ===== *)
theory Pool
  imports Accounting
begin

section \<open>The pool of connections\<close>

text \<open>
  What the scheduling of theory Site does to the connections, seen from them: a connection is
  taken from the queue of free ones and started on a request, or it is taken and put back
  because the socket could not be opened. Nothing else. The relation \<open>moves\<close> is that abstract
  machine, on the connections, the queue, the lists of forbidden names and the bandwidth left
  (which scheduling leaves alone) and the reports of failure (which only grow); every operation of theory Site
  refines it. A connection that the caller holds, neither in the queue nor started, is not
  touched: the set \<open>H\<close> of \<open>pool_ok\<close>.
\<close>

type_synonym pool =
  "(nat \<Rightarrow> connexion) \<times> nat ring \<times> ((nat \<Rightarrow> string list) \<times> int) \<times> (url \<times> FetchError) list"

definition pool :: "world \<Rightarrow> pool" where
  "pool w = (w_conns w, w_freeConns w, (\<lambda>k. ns_forbidden (w_ns w k), w_remainBand w), w_failed w)"

text \<open>The request belongs to the parser that will read the answer.\<close>

fun right_request :: "config \<Rightarrow> string \<Rightarrow> parser \<Rightarrow> bool" where
  "right_request g req (Html_parser u) \<longleftrightarrow> page_request g u = Some req"
| "right_request g req (Robots_parser k) \<longleftrightarrow> (\<exists>s. req = robots_request g s)"
| "right_request g req No_parser \<longleftrightarrow> False"

inductive moves :: "config \<Rightarrow> pool \<Rightarrow> pool \<Rightarrow> bool" for g where
  moves_refl: "moves g p p"
| moves_start: "moves g p (cs, q, fb, fl) \<Longrightarrow> ConstFifo_tryGet q = (Some c, q') \<Longrightarrow> st = connectingC \<or> st = writeC \<Longrightarrow>
    right_request g req pr \<Longrightarrow>
    moves g p (cs(c := (cs c)\<lparr>c_peer := peer, c_timeout := timeoutPage, c_request := c_request (cs c) @ req,
      c_parser := pr, c_pos := 0, c_err := success, c_state := st\<rparr>), q', fb, fl)"
| moves_giveup: "moves g p (cs, q, fb, fl) \<Longrightarrow> ConstFifo_tryGet q = (Some c, q1) \<Longrightarrow>
    ConstFifo_put c q1 = Some q2 \<Longrightarrow> moves g p (cs(c := (cs c)\<lparr>c_peer := peer\<rparr>), q2, fb, fl)"
| moves_fail: "moves g p (cs, q, fb, fl) \<Longrightarrow> moves g p (cs, q, fb, fl @ fs)"

lemma moves_trans: "moves g p' p'' \<Longrightarrow> moves g p p' \<Longrightarrow> moves g p p''"
  by (induction rule: moves.induct) (auto intro: moves.intros)

subsection \<open>Steps that leave the pool alone\<close>

lemma pool_frame:
  "w_conns w' = w_conns w \<Longrightarrow> w_freeConns w' = w_freeConns w \<Longrightarrow> w_ns w' = w_ns w \<Longrightarrow>
   w_remainBand w' = w_remainBand w \<Longrightarrow> w_failed w' = w_failed w \<Longrightarrow> pool w' = pool w"
  by (simp add: pool_def)

lemma pool_same [simp]:
  "pool (upd_stats f w) = pool w" "pool (dnsSites_put k w) = pool w"
  "pool (okSites_put j w) = pool w" "pool (okSites_rePut j w) = pool w" "pool (site_seen w) = pool w"
  "pool (site_dns w) = pool w" "pool (submit_dns name k w) = pool w" "pool (named_decr w) = pool w"
  "pool (new_page w) = pool w" "pool (inter_getOne w) = pool w" "pool (upd_ip j fi w) = pool w"
  by (rule pool_frame; simp add: upd_stats_def dnsSites_put_def okSites_put_def
      okSites_rePut_def site_seen_def site_dns_def submit_dns_def named_decr_def new_page_def
      inter_getOne_def upd_ip_def)+

lemma pool_fields [simp]:
  "pool (w\<lparr>w_hDup := t1\<rparr>) = pool w"
  "pool (w\<lparr>w_loaded := t3\<rparr>) = pool w" "pool (w\<lparr>w_sockets := ss\<rparr>) = pool w"
  "pool (w\<lparr>w_priority := pq\<rparr>) = pool w" "pool (w\<lparr>w_priorityWait := pq\<rparr>) = pool w"
  "pool (w\<lparr>w_disk := d\<rparr>) = pool w" "pool (w\<lparr>w_diskWait := d\<rparr>) = pool w"
  "pool (w\<lparr>w_okSites := sq\<rparr>) = pool w" "pool (w\<lparr>w_dnsSites := sq\<rparr>) = pool w"
  "pool (w\<lparr>w_readPriorityWait := n\<rparr>) = pool w" "pool (w\<lparr>w_readWait := n\<rparr>) = pool w"
  "pool (w\<lparr>w_next_call := t\<rparr>) = pool w" "pool (w\<lparr>w_now := t\<rparr>) = pool w"
  "pool (w\<lparr>w_seen := sn\<rparr>) = pool w" "pool (w\<lparr>w_answers := as\<rparr>) = pool w"
  "pool (w\<lparr>w_nbDnsCalls := t\<rparr>) = pool w" "pool (w\<lparr>w_space := t\<rparr>) = pool w" "pool (w\<lparr>w_inter := iv\<rparr>) = pool w"
  by (simp_all add: pool_def)

lemma pool_upd_ns: "(\<And>s. ns_forbidden (f s) = ns_forbidden s) \<Longrightarrow> pool (upd_ns k f w) = pool w"
  by (simp add: pool_def upd_ns_def fun_eq_iff)

lemma pool_ns [simp]:
  "pool (upd_ns k (\<lambda>s. s\<lparr>ns_nburls := n s\<rparr>) w) = pool w" "pool (upd_ns k (\<lambda>s. s\<lparr>ns_fifo := q\<rparr>) w) = pool w"
  "pool (upd_ns k (\<lambda>s. s\<lparr>ns_isInFifo := v\<rparr>) w) = pool w" "pool (upd_ns k (\<lambda>s. s\<lparr>ns_dnsState := d\<rparr>) w) = pool w"
  "pool (upd_ns k (\<lambda>s. s\<lparr>ns_addr := a\<rparr>) w) = pool w" "pool (upd_ns k (\<lambda>s. s\<lparr>ns_cname := c\<rparr>) w) = pool w"
  by (rule pool_upd_ns; simp)+

lemma pool_ops:
  "answers_incr e w = Some w' \<Longrightarrow> pool w' = pool w"
  "ns_putInFifo k u w = Some w' \<Longrightarrow> pool w' = pool w"
  "ns_getInFifo k w = Some (u, w') \<Longrightarrow> pool w' = pool w"
  "ip_getUrl g j w = Some (u, w') \<Longrightarrow> pool w' = pool w"
  "ns_newId g k w = Some w' \<Longrightarrow> pool w' = pool w"
  "ns_putBack g u prio w = Some w' \<Longrightarrow> pool w' = pool w"
  "ns_enqueue k u w = Some w' \<Longrightarrow> pool w' = pool w"
proof -
  show ans: "answers_incr e w = Some w' \<Longrightarrow> pool w' = pool w" for w w'
    by (auto simp: answers_incr_def split: if_splits)
  show put: "ns_putInFifo k u w = Some w' \<Longrightarrow> pool w' = pool w" for w w'
    by (auto simp: ns_putInFifo_def)
  show "ns_getInFifo k w = Some (u, w') \<Longrightarrow> pool w' = pool w"
    by (auto simp: ns_getInFifo_def split: option.splits prod.splits)
  show "ip_getUrl g j w = Some (u, w') \<Longrightarrow> pool w' = pool w"
    by (auto simp: ip_getUrl_def Let_def split: option.splits prod.splits)
  show "ns_newId g k w = Some w' \<Longrightarrow> pool w' = pool w"
    by (auto simp: ns_newId_def Let_def bind_Some pool_upd_ns split: if_splits)
  show "ns_putBack g u prio w = Some w' \<Longrightarrow> pool w' = pool w"
    by (auto simp: ns_putBack_def Let_def split: if_splits)
  show "ns_enqueue k u w = Some w' \<Longrightarrow> pool w' = pool w"
    by (auto simp: ns_enqueue_def Let_def bind_Some dest!: put split: if_splits)
qed

lemma pool_incr_settle [simp]: "pool (nburls_incr k w) = pool w" "pool (ns_settle k w) = pool w"
  by (simp_all add: nburls_incr_def ns_settle_def)

lemma moves_fetchFail: "moves g (pool w) (pool (fetchFail g i u e w))"
proof -
  have "moves g (pool w) (w_conns w, w_freeConns w, (\<lambda>k. ns_forbidden (w_ns w k), w_remainBand w), w_failed w)"
    using moves_refl [of g "pool w"] by (simp add: pool_def)
  from moves_fail [OF this] show ?thesis by (simp add: fetchFail_def pool_def moves_refl)
qed

lemma moves_forgetUrl: "ns_forgetUrl g k u e w = Some w' \<Longrightarrow> moves g (pool w) (pool w')"
  using moves_fetchFail [of g "upd_stats (\<lambda>s. s\<lparr>st_urls := st_urls s + 1\<rparr>) w" False u e]
  by (auto simp: ns_forgetUrl_def dest!: pool_ops(1))

subsection \<open>Taking a connection\<close>

lemma getFds_pool:
  assumes "getFds g c a p w = (r, w')"
  obtains peer where "pool w' = ((w_conns w)(c := (w_conns w c)\<lparr>c_peer := peer\<rparr>), snd (pool w))"
proof -
  have id: "(w_conns w)(c := (w_conns w c)\<lparr>c_peer := c_peer (w_conns w c)\<rparr>) = w_conns w" by simp
  let ?peer = "case g_proxyAddr g of Some p \<Rightarrow> (p, 0) | None \<Rightarrow> (a, unat p)"
  have "pool w' = pool w \<or> w' = upd_conn c (\<lambda>x. x\<lparr>c_peer := ?peer\<rparr>) (w\<lparr>w_sockets := tl (w_sockets w)\<rparr>)"
    using assms by (auto simp: getFds_def Let_def split: list.splits sock_result.splits)
  then show ?thesis
  proof
    assume "pool w' = pool w"
    with that [of "c_peer (w_conns w c)"] id show ?thesis by (simp add: pool_def)
  next
    assume "w' = upd_conn c (\<lambda>x. x\<lparr>c_peer := ?peer\<rparr>) (w\<lparr>w_sockets := tl (w_sockets w)\<rparr>)"
    with that [of ?peer] show ?thesis by (simp add: pool_def upd_conn_def)
  qed
qed

lemma moves_pool: "moves g (pool w) (w_conns w, w_freeConns w, (\<lambda>k. ns_forbidden (w_ns w k), w_remainBand w), w_failed w)"
  using moves_refl [of g "pool w"] by (simp add: pool_def)

lemma getFds_state: "getFds g c a p w = (r, w') \<Longrightarrow> r \<noteq> emptyC \<Longrightarrow> r = connectingC \<or> r = writeC"
  by (auto simp: getFds_def Let_def split: list.splits sock_result.splits)

lemma taken_started:
  assumes "freeConns_get w = Some (c, w1)" "pool w2 = pool w1" "getFds g c a p w2 = (r, w3)" "pool w4 = pool w3"
    and "r \<noteq> emptyC" "right_request g req pr" "pool w5 = pool (start_request c req pr r w4)"
  shows "moves g (pool w) (pool w5)"
proof -
  obtain q where q: "ConstFifo_tryGet (w_freeConns w) = (Some c, q)" "w1 = w\<lparr>w_freeConns := q\<rparr>"
    using assms(1) by (auto simp: freeConns_get_def split: option.splits prod.splits)
  obtain peer where p: "pool w3 = ((w_conns w2)(c := (w_conns w2 c)\<lparr>c_peer := peer\<rparr>), snd (pool w2))"
    using getFds_pool [OF assms(3)] .
  have "pool w5 = ((w_conns w)(c := (w_conns w c)\<lparr>c_peer := peer, c_timeout := timeoutPage,
      c_request := c_request (w_conns w c) @ req, c_parser := pr, c_pos := 0, c_err := success, c_state := r\<rparr>),
      q, (\<lambda>k. ns_forbidden (w_ns w k), w_remainBand w), w_failed w)"
    using p assms(2,4,7) q(2) by (simp add: pool_def start_request_def upd_conn_def)
  then show ?thesis using moves_start [OF moves_pool q(1) getFds_state [OF assms(3,5)] assms(6)] by simp
qed

lemma taken_put_back:
  assumes "freeConns_get w = Some (c, w1)" "pool w2 = pool w1" "getFds g c a p w2 = (r, w3)"
    and "w_conns w4 = w_conns w3" "w_freeConns w4 = w_freeConns w3" "w_ns w4 = w_ns w3"
    "w_remainBand w4 = w_remainBand w3" "w_failed w4 = w_failed w3 @ fl" "freeConns_put c w4 = Some w5"
  shows "moves g (pool w) (pool w5)"
proof -
  obtain q where q: "ConstFifo_tryGet (w_freeConns w) = (Some c, q)" "w1 = w\<lparr>w_freeConns := q\<rparr>"
    using assms(1) by (auto simp: freeConns_get_def split: option.splits prod.splits)
  obtain peer where p: "pool w3 = ((w_conns w2)(c := (w_conns w2 c)\<lparr>c_peer := peer\<rparr>), snd (pool w2))"
    using getFds_pool [OF assms(3)] .
  obtain q2 where q2: "ConstFifo_put c (w_freeConns w4) = Some q2" "w5 = w4\<lparr>w_freeConns := q2\<rparr>"
    using assms(9) by (auto simp: freeConns_put_def)
  have w3: "w_freeConns w3 = q" "w_conns w3 = (w_conns w)(c := (w_conns w c)\<lparr>c_peer := peer\<rparr>)"
    "(\<lambda>k. ns_forbidden (w_ns w3 k)) = (\<lambda>k. ns_forbidden (w_ns w k))" "w_failed w3 = w_failed w"
    "w_remainBand w3 = w_remainBand w"
    using p assms(2) q(2) by (simp_all add: pool_def)
  have "pool w5 = ((w_conns w)(c := (w_conns w c)\<lparr>c_peer := peer\<rparr>), q2, (\<lambda>k. ns_forbidden (w_ns w k), w_remainBand w), w_failed w @ fl)"
    using q2(2) w3 assms(4-8) by (simp add: pool_def)
  moreover have "ConstFifo_put c q = Some q2" using q2(1) assms(5) w3(1) by simp
  ultimately show ?thesis using moves_fail [OF moves_giveup [OF moves_pool q(1)]] by simp
qed

lemma answers_frame:
  "answers_incr e w = Some w' \<Longrightarrow> w_conns w' = w_conns w \<and> w_freeConns w' = w_freeConns w \<and>
     w_ns w' = w_ns w \<and> w_remainBand w' = w_remainBand w \<and> w_failed w' = w_failed w"
  by (auto simp: answers_incr_def upd_stats_def split: if_splits)

lemma fetchFail_frame:
  "\<exists>fl. w_conns (fetchFail g i u e w) = w_conns w \<and> w_freeConns (fetchFail g i u e w) = w_freeConns w \<and>
     w_ns (fetchFail g i u e w) = w_ns w \<and> w_remainBand (fetchFail g i u e w) = w_remainBand w \<and> w_failed (fetchFail g i u e w) = w_failed w @ fl"
  by (simp add: fetchFail_def)

subsection \<open>Operations\<close>

lemma moves_ip_fetch:
  assumes "ip_fetch g j w = Some r"
  shows "moves g (pool w) (pool (snd r))"
  using assms
proof (rule ip_fetch.raw_induct [where P = "\<lambda>g j w r. moves g (pool w) (pool (snd r))", rotated], goal_cases)
  case (1 self g j w r)
  note IH = 1(1) and step = 1(2)
  show ?case
  proof (cases "Fifo_isEmpty (ip_tab (w_ip w j)) \<or> ip_lastAccess (w_ip w j) + g_waitDuration g > w_now w")
    case True
    with step show ?thesis by (auto simp: Let_def moves_refl split: if_splits)
  next
    case False
    obtain c w1 where w1: "freeConns_get w = Some (c, w1)"
      using step False by (cases "freeConns_get w") (auto simp: Let_def)
    obtain u w2 where w2: "ip_getUrl g j w1 = Some (u, w2)"
      using step False w1 by (cases "ip_getUrl g j w1") (auto simp: Let_def)
    obtain res w3 where w3: "getFds g c (u_addr u) (u_port u) w2 = (res, w3)" by force
    note p2 = pool_ops(4) [OF w2]
    show ?thesis
    proof (cases "res = emptyC")
      case True
      with step False w1 w2 w3 obtain w4 w5 where
        w4: "answers_incr noConnection (fetchFail g False u noConnection w3) = Some w4"
        and w5: "freeConns_put c w4 = Some w5" and self: "self g j w5 = Some r"
        by (auto simp: Let_def bind_Some)
      obtain fl where "w_conns w4 = w_conns w3" "w_freeConns w4 = w_freeConns w3" "w_ns w4 = w_ns w3"
        "w_remainBand w4 = w_remainBand w3" "w_failed w4 = w_failed w3 @ fl"
        using answers_frame [OF w4] fetchFail_frame [of g False u noConnection w3] by auto
      from moves_trans [OF IH [OF self] taken_put_back [OF w1 p2 w3 this w5]] show ?thesis .
    next
      case False': False
      let ?w4 = "new_page (upd_ip j (\<lambda>s. s\<lparr>ip_lastAccess := w_now w3\<rparr>) w3)"
      obtain req where req: "page_request g u = Some req" and
        r: "pool (snd r) = pool (start_request c req (Html_parser u) res ?w4)"
        using step False w1 w2 w3 False' by (auto simp: Let_def bind_Some)
      have rr: "right_request g req (Html_parser u)" using req by simp
      have "pool ?w4 = pool w3" by simp
      from taken_started [OF w1 p2 w3 this False' rr r] show ?thesis .
    qed
  qed
qed

lemma moves_transfer: "ns_transfer g k u w = Some w' \<Longrightarrow> moves g (pool w) (pool w')"
  by (auto simp: ns_transfer_def ip_putUrl_def Let_def moves_refl dest: moves_forgetUrl dest!: moves_ip_fetch
      split: if_splits)

lemma moves_dnsErr_scan: "dnsErr_scan g k e n w = Some w' \<Longrightarrow> moves g (pool w) (pool w')"
proof (induction n arbitrary: w)
  case 0
  then show ?case by (simp add: moves_refl)
next
  case (Suc n)
  then obtain u w1 p w2 where w1: "ns_getInFifo k w = Some (u, w1)" and
    w2: "(if p = ns_name (w_ns w1 k) then ns_forgetUrl g k u e (named_decr w1) else ns_putInFifo k u w1) = Some w2"
    and rest: "dnsErr_scan g k e n w2 = Some w'"
    by (auto simp: bind_Some)
  have "moves g (pool w1) (pool w2)"
    using w2 pool_ops(2) [of k u w1 w2] moves_forgetUrl [of g k u e "named_decr w1" w2]
    by (auto simp: moves_refl split: if_splits)
  then show ?case using moves_trans [OF Suc.IH [OF rest]] pool_ops(3) [OF w1] by simp
qed

lemma moves_dnsErr: "ns_dnsErr g k w = Some w' \<Longrightarrow> moves g (pool w) (pool w')"
  by (auto simp: ns_dnsErr_def dest: moves_dnsErr_scan)

lemma moves_robots_scan: "robots_scan g k ok n w = Some w' \<Longrightarrow> moves g (pool w) (pool w')"
proof (induction n arbitrary: w)
  case 0
  then show ?case by (simp add: moves_refl)
next
  case (Suc n)
  let ?step = "\<lambda>u p w1. if p = ns_name (w_ns w1 k) then
                 (let w2 = named_decr w1 in
                  if ok then (if ns_port (w_ns w1 k) = u_port u then ns_transfer g k u w2
                              else ns_putInFifo k u w2)
                  else ns_forgetUrl g k u noConnection w2)
               else ns_putInFifo k u w1"
  from Suc.prems(1) obtain u w1 p w2 where
    w1: "ns_getInFifo k w = Some (u, w1)" and w2: "?step u p w1 = Some w2"
    and rest: "robots_scan g k ok n w2 = Some w'"
    by (auto simp: bind_Some)
  have "pool w2 = pool w1 \<or> moves g (pool w1) (pool w2)"
    using w2 pool_ops(2) [of k u _ w2] moves_forgetUrl [of g k u noConnection "named_decr w1" w2]
      moves_transfer [of g k u "named_decr w1" w2]
    by (auto simp: Let_def split: if_splits)
  then have "moves g (pool w) (pool w2)" using pool_ops(3) [OF w1] by (auto simp: moves_refl)
  then show ?case by (rule moves_trans [OF Suc.IH [OF rest]])
qed

lemma moves_robotsResult: "robotsResult g k res w = Some w' \<Longrightarrow> moves g (pool w) (pool w')"
proof -
  let ?w1 = "upd_ns k (\<lambda>s. if res \<noteq> noConnection
      then s\<lparr>ns_dnsState := doneDns, ns_ipHash := ip_hash g k (ns_addr s)\<rparr>
      else s\<lparr>ns_dnsState := noConnDns\<rparr>) w"
  assume "robotsResult g k res w = Some w'"
  then obtain w2 where w2: "robots_scan g k (res \<noteq> noConnection) (ns_fifoLength k ?w1) ?w1 = Some w2"
    "w' = ns_settle k w2" by (auto simp: robotsResult_def Let_def)
  have "pool ?w1 = pool w" by (rule pool_upd_ns) simp
  then show ?thesis using moves_robots_scan [OF w2(1)] w2(2) by simp
qed

lemma moves_dnsOK:
  assumes "ns_dnsOK g k w = Some w'"
  shows "moves g (pool w) (pool w')"
proof -
  obtain c w1 where w1: "freeConns_get w = Some (c, w1)"
    using assms(1) by (cases "freeConns_get w") (auto simp: ns_dnsOK_def)
  obtain res w2 where w2: "getFds g c (ns_addr (w_ns w1 k)) (ns_port (w_ns w1 k)) w1 = (res, w2)" by force
  show ?thesis
  proof (cases "res = emptyC")
    case False
    have "right_request g (robots_request g (w_ns w2 k)) (Robots_parser k)" by auto
    from taken_started [OF w1 refl w2 refl False this refl] show ?thesis
      using assms w1 w2 False by (simp add: ns_dnsOK_def)
  next
    case True
    with assms(1) w1 w2 obtain w3 where w3: "freeConns_put c w2 = Some w3"
      and e: "ns_dnsErr g k (upd_ns k (\<lambda>s. s\<lparr>ns_dnsState := noConnDns\<rparr>) w3) = Some w'"
      by (auto simp: ns_dnsOK_def bind_Some)
    have "w_failed w2 = w_failed w2 @ []" by simp
    from taken_put_back [OF w1 refl w2 refl refl refl refl this w3] moves_dnsErr [OF e] show ?thesis
      by (auto intro: moves_trans)
  qed
qed

lemma moves_newQuery: "ns_newQuery g aton k w = Some w' \<Longrightarrow> moves g (pool w) (pool w')"
proof -
  assume "ns_newQuery g aton k w = Some w'"
  then obtain w1 where w1: "ns_newId g k w = Some w1"
    and r: "(let name = ns_name (w_ns w1 k) in
       if g_proxyAddr g \<noteq> None then ns_dnsOK g k (site_dns (site_seen w1))
       else if is_digit (at_nul name 0) then
         (case aton name of
            Some a \<Rightarrow> ns_dnsOK g k (upd_ns k (\<lambda>s. s\<lparr>ns_addr := a\<rparr>) (site_dns (site_seen w1)))
          | None \<Rightarrow> ns_dnsErr g k (upd_ns k (\<lambda>s. s\<lparr>ns_dnsState := errorDns\<rparr>) (site_seen w1)))
       else Some (submit_dns name k w1)) = Some w'"
    unfolding ns_newQuery_def by (auto simp only: bind_Some)
  have "moves g (pool w1) (pool w')"
    using r by (auto simp: Let_def moves_refl dest!: moves_dnsOK moves_dnsErr split: if_splits option.splits)
  then show ?thesis using pool_ops(5) [OF w1] by simp
qed

lemma moves_dnsAns: "ns_dnsAns g k ans w = Some w' \<Longrightarrow> moves g (pool w) (pool w')"
  by (auto simp: ns_dnsAns_def moves_refl pool_upd_ns dest!: moves_dnsOK moves_dnsErr split: dns_answer.splits)

lemma moves_putGenericUrl: "putGenericUrl g k u limit prio w = Some w' \<Longrightarrow> moves g (pool w) (pool w')"
proof -
  assume p: "putGenericUrl g k u limit prio w = Some w'"
  have "(\<exists>e. ns_forgetUrl g k u e (nburls_incr k w) = Some w') \<or> ns_putBack g u prio w = Some w' \<or>
      ns_enqueue k u (nburls_incr k w) = Some w' \<or> ns_transfer g k u (nburls_incr k w) = Some w'"
    using p by (auto simp: putGenericUrl_def Let_def bind_Some split: if_splits DnsState.splits)
  then show ?thesis
    by (auto simp: moves_refl dest: pool_ops(6,7) dest!: moves_transfer moves_forgetUrl)
qed

lemma moves_canGetUrl: "canGetUrl g tp w = Some (got, tp', w') \<Longrightarrow> moves g (pool w) (pool w')"
  by (auto simp: canGetUrl_def putPriorityUrlWait_def putPriorityUrl_def putUrlWait_def putUrl_def moves_refl
      dest!: moves_putGenericUrl split: if_splits prod.splits option.splits)

lemma moves_sequencer_loop: "sequencer_loop g n tp w = Some w' \<Longrightarrow> moves g (pool w) (pool w')"
proof (induction n arbitrary: tp w)
  case 0
  then show ?case by (simp add: moves_refl)
next
  case (Suc n)
  then obtain got tp' w1 where c: "canGetUrl g tp w = Some (got, tp', w1)"
    by (auto split: option.splits)
  show ?case
  proof (cases got)
    case True
    then have "moves g (pool w1) (pool w')"
      using Suc.IH [of tp' "w1\<lparr>w_space := w_space w1 - 1\<rparr>"] Suc.prems c by simp
    then show ?thesis using moves_trans moves_canGetUrl [OF c] by blast
  next
    case False
    then show ?thesis using Suc.prems c moves_canGetUrl [OF c] by simp
  qed
qed

lemma moves_sequencer: "sequencer g w = Some w' \<Longrightarrow> moves g (pool w) (pool w')"
  by (auto simp: sequencer_def Let_def split: prod.splits if_splits dest: moves_sequencer_loop)

lemma moves_fetchOpen_loop:
  assumes "fetchOpen_loop g w = Some w'"
  shows "moves g (pool w) (pool w')"
  using assms
proof (rule fetchOpen_loop.raw_induct [where P = "\<lambda>g w r. moves g (pool w) (pool r)", rotated], goal_cases)
  case (1 self g w r)
  note IH = 1(1) and step = 1(2)
  consider "pool r = pool w" | j q t w1 where "ip_fetch g j (w\<lparr>w_okSites := q\<rparr>) = Some (t, w1)"
      "r = w1\<lparr>w_next_call := t\<rparr> \<or> self g (w1\<lparr>w_next_call := t\<rparr>) = Some r"
    using step by (auto simp: bind_Some Let_def split: if_splits prod.splits option.splits)
  then show ?case
  proof cases
    case 1
    then show ?thesis by (simp add: moves_refl)
  next
    case 2
    note m = moves_ip_fetch [OF 2(1), simplified]
    from 2(2) show ?thesis
    proof
      assume "self g (w1\<lparr>w_next_call := t\<rparr>) = Some r"
      from IH [OF this] show ?thesis using moves_trans m by simp
    qed (simp add: m)
  qed
qed

lemma moves_submit_loop:
  assumes "submit_loop g aton w = Some w'"
  shows "moves g (pool w) (pool w')"
  using assms
proof (rule submit_loop.raw_induct [where P = "\<lambda>g a w r. moves g (pool w) (pool r)", rotated], goal_cases)
  case (1 self g aton w r)
  note IH = 1(1) and step = 1(2)
  consider "pool r = pool w" | k q w1 where "ns_newQuery g aton k (w\<lparr>w_dnsSites := q\<rparr>) = Some w1"
      "self g aton w1 = Some r"
    using step by (auto simp: bind_Some split: if_splits prod.splits option.splits)
  then show ?case
  proof cases
    case 1
    then show ?thesis by (simp add: moves_refl)
  next
    case 2
    from moves_trans [OF IH [OF 2(2)] moves_newQuery [OF 2(1)]] show ?thesis by simp
  qed
qed

lemma moves_answer_loop:
  assumes "answer_loop g w = Some w'"
  shows "moves g (pool w) (pool w')"
  using assms
proof (rule answer_loop.raw_induct [where P = "\<lambda>g w r. moves g (pool w) (pool r)", rotated], goal_cases)
  case (1 self g w r)
  note IH = 1(1) and step = 1(2)
  consider "pool r = pool w" | k ans as n w1 where
      "ns_dnsAns g k ans (w\<lparr>w_answers := as, w_nbDnsCalls := n\<rparr>) = Some w1" "self g w1 = Some r"
    using step by (auto simp: bind_Some split: if_splits prod.splits list.splits)
  then show ?case
  proof cases
    case 1
    then show ?thesis by (simp add: moves_refl)
  next
    case 2
    from moves_trans [OF IH [OF 2(2)] moves_dnsAns [OF 2(1)]] show ?thesis by simp
  qed
qed

lemma moves_fetchOpen: "fetchOpen g w = Some w' \<Longrightarrow> moves g (pool w) (pool w')"
  by (auto simp: fetchOpen_def moves_refl dest: moves_fetchOpen_loop split: if_splits)

lemma moves_fetchDns: "fetchDns g aton w = Some w' \<Longrightarrow> moves g (pool w) (pool w')"
  by (auto simp: fetchDns_def bind_Some dest!: moves_submit_loop moves_answer_loop intro: moves_trans)

lemma pool_check: "check g u w = Some w' \<Longrightarrow> pool w' = pool w"
  by (auto simp: check_def Let_def split: prod.splits if_splits dest!: pool_ops(1))

lemma pool_manageUrl: "manageUrl g here u r w = Some w' \<Longrightarrow> pool w' = pool w"
  by (auto simp: manageUrl_def split: sum.splits if_splits dest: pool_check pool_ops(1))

subsection \<open>The invariant of the pool\<close>

text \<open>The queue holds each connection that is not in use, once; a connection in use has the
  request of its parser, one that is not has none.\<close>

definition conn_ok :: "config \<Rightarrow> nat \<Rightarrow> connexion \<Rightarrow> bool" where
  "conn_ok g c x \<longleftrightarrow>
     (if c_state x = emptyC then c_request x = [] \<and> c_parser x = No_parser
      else c < g_nb_conn g \<and> right_request g (c_request x) (c_parser x))"

definition idle :: "config \<Rightarrow> (nat \<Rightarrow> connexion) \<Rightarrow> nat set" where
  "idle g cs = {c. c < g_nb_conn g \<and> c_state (cs c) = emptyC}"

lemma idle_upd:
  "idle g (cs(c := x)) = (if c < g_nb_conn g \<and> c_state x = emptyC then insert c (idle g cs) else idle g cs - {c})"
  by (auto simp: idle_def)

definition pool_ok :: "config \<Rightarrow> nat set \<Rightarrow> pool \<Rightarrow> bool" where
  "pool_ok g H = (\<lambda>(cs, q, fb, fl).
     ring_inv q \<and> r_size q = g_nb_conn g + 1 \<and> distinct (ring_items q) \<and>
     set (ring_items q) = idle g cs - H \<and> (\<forall>c. c \<notin> H \<longrightarrow> conn_ok g c (cs c)))"

lemma tryGet_items:
  assumes "ring_inv q" "ConstFifo_tryGet q = (Some c, q')"
  shows "ring_inv q' \<and> ring_items q = c # ring_items q' \<and> r_size q' = r_size q"
proof -
  have ne: "r_in q \<noteq> r_out q" using assms(2) by (auto simp: ConstFifo_tryGet_def split: if_splits)
  obtain x xs where x: "ring_items q = x # xs" using ring_take [OF assms(1) ne] by blast
  from tryGet_front [OF assms(1) x] assms(2) x show ?thesis by (auto simp: SyncFifo_same)
qed

lemma put_room:
  assumes "ring_inv q" "distinct (ring_items q)" "set (ring_items q) \<subseteq> {..<n} - {c}" "c < n" "r_size q = n + 1"
  shows "\<exists>q'. ConstFifo_put c q = Some q' \<and> ring_inv q' \<and> ring_items q' = ring_items q @ [c] \<and> r_size q' = r_size q"
proof -
  have "length (ring_items q) = card (set (ring_items q))" using assms(2) by (simp add: distinct_card)
  also have "\<dots> \<le> card ({..<n} - {c})" using assms(3) by (intro card_mono) auto
  also have "\<dots> < n" using assms(4) by simp
  finally have "length (ring_items q) < r_size q - 1" using assms(5) by simp
  then show ?thesis using ConstFifo_put_ok [OF assms(1), of c] by simp
qed

lemma pool_ok_get:
  assumes "pool_ok g H (cs, q, fb, fl)" "ConstFifo_tryGet q = (Some c, q')"
  shows "c < g_nb_conn g" "c_state (cs c) = emptyC" "c_request (cs c) = []" "ring_inv q'"
    "r_size q' = g_nb_conn g + 1" "distinct (ring_items q')" "set (ring_items q') = idle g cs - H - {c}" "c \<notin> H"
proof -
  have ok: "ring_inv q" "set (ring_items q) = idle g cs - H" "distinct (ring_items q)"
    "r_size q = g_nb_conn g + 1"
    using assms(1) by (auto simp: pool_ok_def)
  note t = tryGet_items [OF ok(1) assms(2)]
  then have c: "c \<in> idle g cs" "c \<notin> H" using ok(2) by auto
  then have "conn_ok g c (cs c)" using assms(1) by (simp add: pool_ok_def)
  then show "c < g_nb_conn g" "c_state (cs c) = emptyC" "c_request (cs c) = []" "c \<notin> H"
    using c by (simp_all add: idle_def conn_ok_def)
  show "ring_inv q'" "r_size q' = g_nb_conn g + 1" "distinct (ring_items q')"
    "set (ring_items q') = idle g cs - H - {c}"
    using t ok by auto
qed

text \<open>A move keeps the invariant and leaves alone what is held or in use.\<close>

lemma moves_keep:
  "moves g p p' \<Longrightarrow> pool_ok g H p \<Longrightarrow>
   pool_ok g H p' \<and> (\<forall>c. c \<in> H \<or> c_state (fst p c) \<noteq> emptyC \<longrightarrow> fst p' c = fst p c)"
proof (induction rule: moves.induct)
  case (moves_start p cs q fb fl c q' st req pr peer)
  have ok: "pool_ok g H (cs, q, fb, fl)" and f: "\<forall>c. c \<in> H \<or> c_state (fst p c) \<noteq> emptyC \<longrightarrow> cs c = fst p c"
    using moves_start by auto
  note t = pool_ok_get [OF ok moves_start(2)]
  have "pool_ok g H (cs(c := (cs c)\<lparr>c_peer := peer, c_timeout := timeoutPage, c_request := c_request (cs c) @ req,
      c_parser := pr, c_pos := 0, c_err := success, c_state := st\<rparr>), q', fb, fl)"
    using ok t moves_start(3,4) by (auto simp: pool_ok_def idle_upd conn_ok_def)
  moreover have "\<not> (c \<in> H \<or> c_state (fst p c) \<noteq> emptyC)" using f t(2,8) by auto
  ultimately show ?case using f by auto
next
  case (moves_giveup p cs q fb fl c q1 q2 peer)
  have ok: "pool_ok g H (cs, q, fb, fl)" and f: "\<forall>c. c \<in> H \<or> c_state (fst p c) \<noteq> emptyC \<longrightarrow> cs c = fst p c"
    using moves_giveup by auto
  note t = pool_ok_get [OF ok moves_giveup(2)]
  have "set (ring_items q1) \<subseteq> {..<g_nb_conn g} - {c}" using t(7) by (auto simp: idle_def)
  from put_room [OF t(4,6) this t(1,5)] moves_giveup(3) have q2: "ring_inv q2"
    "ring_items q2 = ring_items q1 @ [c]" "r_size q2 = g_nb_conn g + 1" using t(5) by auto
  have "conn_ok g c (cs c)" using ok t(8) by (simp add: pool_ok_def)
  then have "conn_ok g c ((cs c)\<lparr>c_peer := peer\<rparr>)" by (simp add: conn_ok_def)
  moreover have "c \<in> idle g cs" using t(1,2) by (simp add: idle_def)
  ultimately have "pool_ok g H (cs(c := (cs c)\<lparr>c_peer := peer\<rparr>), q2, fb, fl)"
    using ok t q2 by (auto simp: pool_ok_def idle_upd)
  moreover have "\<not> (c \<in> H \<or> c_state (fst p c) \<noteq> emptyC)" using f t(2,8) by auto
  ultimately show ?case using f by auto
qed (auto simp: pool_ok_def)

lemma moves_forbidden: "moves g p p' \<Longrightarrow> fst (snd (snd p')) = fst (snd (snd p))"
  by (induction rule: moves.induct) auto

lemma moves_failed: "moves g p p' \<Longrightarrow> set (snd (snd (snd p))) \<subseteq> set (snd (snd (snd p')))"
  by (induction rule: moves.induct) auto

text \<open>A connection that a move has started is at the beginning of its request.\<close>

lemma moves_fresh:
  "moves g p p' \<Longrightarrow> pool_ok g H p \<Longrightarrow> c_state (fst p c) = emptyC \<Longrightarrow> c_state (fst p' c) \<noteq> emptyC \<Longrightarrow>
   c_pos (fst p' c) = 0 \<and> c_state (fst p' c) \<noteq> openC"
proof (induction rule: moves.induct)
  case (moves_start p cs q fb fl d q' st req pr peer)
  then show ?case by (cases "c = d") auto
next
  case (moves_giveup p cs q fb fl d q1 q2 peer)
  then show ?case by (cases "c = d") auto
qed auto

text \<open>\<open>recycle\<close> and \<open>freeConns->put\<close> at the end of a transfer.\<close>

lemma pool_ok_release:
  assumes "pool_ok g {c} (cs, q, fb, fl)" "c < g_nb_conn g" "c_state x = emptyC" "c_request x = []"
    "c_parser x = No_parser"
  shows "\<exists>q'. ConstFifo_put c q = Some q' \<and> pool_ok g {} (cs(c := x), q', fb', fl')"
proof -
  have ok: "ring_inv q" "set (ring_items q) = idle g cs - {c}" "distinct (ring_items q)"
    "r_size q = g_nb_conn g + 1" "\<forall>d. d \<noteq> c \<longrightarrow> conn_ok g d (cs d)"
    using assms(1) by (auto simp: pool_ok_def)
  have "set (ring_items q) \<subseteq> {..<g_nb_conn g} - {c}" using ok(2) by (auto simp: idle_def)
  from put_room [OF ok(1,3) this assms(2) ok(4)] obtain q' where q': "ConstFifo_put c q = Some q'" "ring_inv q'"
    "ring_items q' = ring_items q @ [c]" "r_size q' = r_size q" by blast
  have "conn_ok g c x" using assms(3-5) by (simp add: conn_ok_def)
  then have "pool_ok g {} (cs(c := x), q', fb', fl')"
    using ok q' assms(2,3) by (auto simp: pool_ok_def idle_upd)
  with q'(1) show ?thesis by blast
qed

lemma pool_ok_hold:
  assumes "pool_ok g {} (cs, q, fb, fl)" "c_state (cs c) \<noteq> emptyC"
  shows "pool_ok g {c} (cs(c := x), q, fb', fl')" "c < g_nb_conn g"
proof -
  have "conn_ok g c (cs c)" using assms(1) by (simp add: pool_ok_def)
  then show "c < g_nb_conn g" using assms(2) by (simp add: conn_ok_def)
  have "idle g (cs(c := x)) - {c} = idle g cs" using assms(2) by (auto simp: idle_def)
  then show "pool_ok g {c} (cs(c := x), q, fb', fl')" using assms(1) by (simp add: pool_ok_def)
qed

lemma pool_ok_init: "pool_ok g {} (pool (world_new g now))"
proof -
  let ?n = "g_nb_conn g"
  have r: "ring_inv (ConstFifo_new ?n :: nat ring)" "ring_items (ConstFifo_new ?n :: nat ring) = []"
    using ring_new(3) [of ?n] by auto
  have sz: "r_size (ConstFifo_new ?n :: nat ring) = ?n + 1" by (simp add: ConstFifo_new_def)
  have "ring_capacity (ConstFifo_new ?n :: nat ring) = Some ?n" using sz by (simp add: ring_capacity_def)
  then obtain q where q: "put_all ConstFifo_put [0..<?n] (ConstFifo_new ?n) = Some q" "ring_inv q"
    "ring_items q = [0..<?n]" "ring_capacity q = Some ?n"
    using const.put_all_items [of "ConstFifo_new ?n" "[0..<?n]"] r by (auto simp: list_all_iff)
  have "r_size q = ?n + 1" using q(2,4) by (auto simp: ring_capacity_def ring_inv_def)
  then show ?thesis using q
    by (auto simp: pool_ok_def pool_def world_new_def Connexion_new_def idle_def conn_ok_def)
qed

end
