(* ===== verification/Robots.thy ===== *)
theory Robots
  imports Site
begin

section \<open>robots.txt (the class robots of src/fetch/file.cxx)\<close>

text \<open>
  The answer of a server to a request for robots.txt arrives in the buffer of its connection, an
  array that is not cleared between two uses; \<open>pos\<close> is how much of it this answer has filled.
  A result \<open>None\<close> of a function that reads the buffer is a read past its end. The items of the
  file are the successive results of \<open>nextToken\<close>, \<open>tokens\<close> of \<open>CText\<close>; writing a NUL or a slash
  in front of a token changes nothing that is read later.
\<close>

record robots_state =
  rb_server :: nat
  rb_pos :: nat
  rb_answerCode :: bool

definition robots_new :: "nat \<Rightarrow> robots_state" where
  "robots_new server = \<lparr>rb_server = server, rb_pos = 0, rb_answerCode = False\<rparr>"

text \<open>\<open>Some e\<close> is the result 1 with \<open>errno = e\<close>.\<close>

definition robots_inputHeaders ::
    "nat \<Rightarrow> string \<Rightarrow> robots_state \<Rightarrow> FetchError option \<times> robots_state" where
  "robots_inputHeaders sz buf r =
     (let r1 = r\<lparr>rb_pos := rb_pos r + sz\<rparr> in
      if \<not> rb_answerCode r1 \<and> rb_pos r1 > 12 \<and> buf ! 9 \<noteq> CHR ''2'' then (Some err40X, r1)
      else
        let r2 = (if \<not> rb_answerCode r1 \<and> rb_pos r1 > 12 then r1\<lparr>rb_answerCode := True\<rparr> else r1) in
        if rb_pos r2 > maxRobotsSize then (Some tooBig, r2) else (None, r2))"

definition robots_endInput :: "FetchError option" where
  "robots_endInput = None"

subsection \<open>The end of the headers\<close>

definition blank_line :: "string \<Rightarrow> nat \<Rightarrow> bool" where
  "blank_line buf p \<longleftrightarrow>
     buf ! p = NL \<and> (buf ! (p + 1) = NL \<or> buf ! (p + 2) = NL) \<or>
     buf ! p = CR \<and> (buf ! (p + 1) = CR \<or> buf ! (p + 2) = CR)"

text \<open>\<open>Some None\<close>: a NUL was met first.\<close>

function robots_parseHeaders :: "string \<Rightarrow> nat \<Rightarrow> nat option option" where
  "robots_parseHeaders buf p =
     (if p + 3 \<ge> length buf then None
      else if buf ! (p + 3) = NUL then Some None
      else if blank_line buf p then Some (Some p)
      else robots_parseHeaders buf (p + 1))"
  by pat_completeness auto

termination
  by (relation "measure (\<lambda>(buf, p). length buf - p)") auto

declare robots_parseHeaders.simps [simp del]

subsection \<open>The items\<close>

definition is_agent :: "string \<Rightarrow> bool" where
  "is_agent t \<longleftrightarrow> streq_nocase t ''useragent'' \<or> streq_nocase t ''user-agent''"

definition is_disallow :: "string \<Rightarrow> bool" where
  "is_disallow t \<longleftrightarrow> streq_nocase t ''disallow''"

text \<open>The names after \<open>User-agent\<close>: the state and what is left.\<close>

fun agents_loop :: "string \<Rightarrow> nat \<Rightarrow> string list \<Rightarrow> nat \<times> string list" where
  "agents_loop ua st [] = (st, [])"
| "agents_loop ua st (t # ts) =
     (if is_agent t \<or> is_disallow t then (st, t # ts)
      else agents_loop ua
        (if caseContain t ua then 2 else if st = 0 \<and> t = ''*'' then 1 else st) ts)"

definition good_token :: "string \<Rightarrow> string" where
  "good_token t =
     (case t of [] \<Rightarrow> ''/''
      | c # cs \<Rightarrow> if c = CHR ''*'' then CHR ''/'' # cs
                  else if c \<noteq> CHR ''/'' then CHR ''/'' # t else t)"

definition robots_item :: "string \<Rightarrow> string option" where
  "robots_item t = (case fileNormalize (good_token t) of Normal f \<Rightarrow> Some f | _ \<Rightarrow> None)"

fun disallow_loop :: "nat \<Rightarrow> string list \<Rightarrow> string list \<Rightarrow> nat \<times> string list \<times> string list" where
  "disallow_loop items forb [] = (items, forb, [])"
| "disallow_loop items forb (t # ts) =
     (if is_agent t \<or> is_disallow t then (items, forb, t # ts)
      else disallow_loop (items + 1)
        (if items < maxRobotsItem
         then (case robots_item t of None \<Rightarrow> forb | Some f \<Rightarrow> forb @ [f]) else forb) ts)"

lemma agents_loop_length: "agents_loop ua st ts = (st', r) \<Longrightarrow> length r \<le> length ts"
  by (induction ua st ts arbitrary: st' r rule: agents_loop.induct) (fastforce split: if_splits)+

lemma disallow_loop_length: "disallow_loop n forb ts = (n', forb', r) \<Longrightarrow> length r \<le> length ts"
  by (induction n forb ts arbitrary: n' forb' r rule: disallow_loop.induct) (fastforce split: if_splits)+

lemma agents_loop_dropWhile:
  "(st', r) = agents_loop ua st ts \<Longrightarrow> length (dropWhile P r) \<le> length ts"
  using agents_loop_length [of ua st ts st' r] length_dropWhile_le [of P r] by simp

text \<open>The whole loop; the state is 0 for a record that does not concern us, 1 for one that is for
  everybody, 2 for one that names us. The result is \<open>forbidden\<close> and whether the file is good.\<close>

function parse_loop ::
    "string \<Rightarrow> bool \<Rightarrow> nat \<Rightarrow> nat \<Rightarrow> string list \<Rightarrow> bool \<Rightarrow> string list \<Rightarrow> string list \<times> bool" where
  "parse_loop ua printStats st items forb good [] = (forb, good)"
| "parse_loop ua printStats st items forb good (t # ts) =
     (if is_agent t then
        (if st = 2 then (forb, good)
         else
           let (st1, r) = agents_loop ua 0 ts in
           if st1 \<noteq> 0 then parse_loop ua printStats st1 0 [] good r
           else parse_loop ua printStats st1 items forb good (dropWhile (\<lambda>t. \<not> is_agent t) r))
      else if is_disallow t then
        let (items1, forb1, r) = disallow_loop items forb ts in
        parse_loop ua printStats st items1 forb1 good r
      else parse_loop ua printStats st items forb (if printStats then False else good) ts)"
  by pat_completeness auto

termination
  by (relation "measure (\<lambda>(ua, ps, st, items, forb, good, ts). length ts)")
    (auto simp: less_Suc_eq_le agents_loop_dropWhile
      dest: agents_loop_length [OF sym] disallow_loop_length [OF sym])

definition parseRobots :: "string \<Rightarrow> bool \<Rightarrow> string \<Rightarrow> string list \<times> bool" where
  "parseRobots ua printStats text = parse_loop ua printStats 1 0 [] True (tokens (CHR '':'') text)"

subsection \<open>The whole file\<close>

text \<open>After an error the last, perhaps incomplete, word is blanked.\<close>

fun blank_last :: "string \<Rightarrow> nat \<Rightarrow> string" where
  "blank_last buf 0 = buf"
| "blank_last buf (Suc i) =
     (if is_space (buf ! Suc i) then buf else blank_last (buf[Suc i := CHR '' '']) i)"

definition c_string :: "string \<Rightarrow> nat \<Rightarrow> string" where
  "c_string buf p = takeWhile (\<lambda>c. c \<noteq> NUL) (drop p buf)"

text \<open>\<open>Some None\<close>: the file is not parsed. Otherwise the new list of forbidden names, and whether
  \<open>robotsOK\<close> was left incremented.\<close>

definition robots_parse ::
    "string \<Rightarrow> bool \<Rightarrow> bool \<Rightarrow> string \<Rightarrow> robots_state \<Rightarrow> (string list \<times> bool) option option" where
  "robots_parse ua printStats isError buf r =
     (if \<not> rb_answerCode r then Some None
      else (case robots_parseHeaders buf 9 of
              None \<Rightarrow> None
            | Some None \<Rightarrow> Some None
            | Some (Some p) \<Rightarrow>
                let buf1 = buf[rb_pos r := NUL];
                    buf2 = (if isError then blank_last buf1 (rb_pos r - 1) else buf1)
                in Some (Some (parseRobots ua printStats (c_string buf2 p)))))"

declare parse_loop.simps(2) [simp del]

subsection \<open>What the loop computes\<close>

text \<open>A record as the reference sees it: the names of one \<open>User-agent\<close> line, and the items of
  each of its \<open>Disallow\<close> lines.\<close>

type_synonym robots_record = "string list \<times> string list list"

definition plain_tokens :: "string list \<Rightarrow> bool" where
  "plain_tokens ts \<longleftrightarrow> list_all (\<lambda>t. \<not> is_agent t \<and> \<not> is_disallow t) ts"

definition rule_tokens :: "string list list \<Rightarrow> string list" where
  "rule_tokens gs = concat (map (\<lambda>g. ''Disallow'' # g) gs)"

definition record_tokens :: "robots_record \<Rightarrow> string list" where
  "record_tokens r = ''User-agent'' # fst r @ rule_tokens (snd r)"

definition record_ok :: "robots_record \<Rightarrow> bool" where
  "record_ok r \<longleftrightarrow> plain_tokens (fst r) \<and> list_all plain_tokens (snd r)"

text \<open>How much a record concerns the crawler, and what it forbids.\<close>

definition concern :: "string \<Rightarrow> string list \<Rightarrow> nat" where
  "concern ua as =
     (if list_ex (\<lambda>a. caseContain a ua) as then 2 else if ''*'' \<in> set as then 1 else 0)"

definition rules :: "string list list \<Rightarrow> string list" where
  "rules gs = List.map_filter robots_item (take maxRobotsItem (concat gs))"

text \<open>The first record that names us; else the last one that is for everybody; else the lines
  before the first record.\<close>

definition robots_select :: "string \<Rightarrow> string list list \<Rightarrow> robots_record list \<Rightarrow> string list" where
  "robots_select ua pre rs =
     (case find (\<lambda>r. concern ua (fst r) = 2) rs of
        Some r \<Rightarrow> rules (snd r)
      | None \<Rightarrow>
          (case filter (\<lambda>r. concern ua (fst r) = 1) rs of
             [] \<Rightarrow> rules pre
           | ws \<Rightarrow> rules (snd (last ws))))"

lemma keyword_simps [simp]:
  "is_agent ''User-agent''" "\<not> is_disallow ''User-agent''" "is_disallow ''Disallow''"
  "\<not> is_agent ''Disallow''"
  by (simp_all add: is_agent_def is_disallow_def streq_nocase_def tolower_def is_upper_def chr_def
      char_of_def bit_iff_odd)

definition stops :: "string list \<Rightarrow> bool" where
  "stops ts \<longleftrightarrow> (case ts of [] \<Rightarrow> True | t # _ \<Rightarrow> is_agent t \<or> is_disallow t)"

lemma stops_simps [simp]: "stops []" "stops (t # ts) = (is_agent t \<or> is_disallow t)"
  by (simp_all add: stops_def)

lemma agents_loop_names:
  "plain_tokens as \<Longrightarrow> stops r \<Longrightarrow>
   agents_loop ua st (as @ r) =
   (if list_ex (\<lambda>a. caseContain a ua) as then 2 else if st = 0 \<and> ''*'' \<in> set as then 1 else st, r)"
proof (induction as arbitrary: st)
  case Nil
  then show ?case by (cases r) auto
next
  case (Cons a as)
  then show ?case by (auto simp: plain_tokens_def)
qed

lemma map_filter_take_Cons:
  "List.map_filter f (take n (x # xs)) =
   (if n = 0 then [] else (case f x of None \<Rightarrow> [] | Some y \<Rightarrow> [y]) @ List.map_filter f (take (n - 1) xs))"
  by (cases n) (auto simp: List.map_filter_def split: option.splits)

lemma map_filter_append:
  "List.map_filter f (xs @ ys) = List.map_filter f xs @ List.map_filter f ys"
  by (simp add: List.map_filter_def)

lemma disallow_loop_items:
  "plain_tokens g \<Longrightarrow> stops r \<Longrightarrow>
   disallow_loop n forb (g @ r) =
   (n + length g, forb @ List.map_filter robots_item (take (maxRobotsItem - n) g), r)"
proof (induction g arbitrary: n forb)
  case Nil
  then show ?case by (cases r) (auto simp: List.map_filter_def)
next
  case (Cons t g)
  then show ?case
    by (auto simp: plain_tokens_def map_filter_take_Cons split: option.splits)
qed

lemma parse_loop_rules:
  "list_all plain_tokens gs \<Longrightarrow> stops r \<Longrightarrow>
   parse_loop ua ps st n forb good (rule_tokens gs @ r) =
   parse_loop ua ps st (n + length (concat gs))
     (forb @ List.map_filter robots_item (take (maxRobotsItem - n) (concat gs))) good r"
proof (induction gs arbitrary: n forb)
  case Nil
  then show ?case by (simp add: rule_tokens_def List.map_filter_def)
next
  case (Cons g gs)
  have st: "stops (rule_tokens gs @ r)" using Cons.prems(2) by (cases gs) (simp_all add: rule_tokens_def)
  have "parse_loop ua ps st n forb good (rule_tokens (g # gs) @ r) =
      parse_loop ua ps st (n + length g)
        (forb @ List.map_filter robots_item (take (maxRobotsItem - n) g)) good (rule_tokens gs @ r)"
    using disallow_loop_items [OF _ st, of g n forb] Cons.prems(1)
    by (simp add: rule_tokens_def parse_loop.simps(2))
  also have "\<dots> = parse_loop ua ps st (n + length g + length (concat gs))
      ((forb @ List.map_filter robots_item (take (maxRobotsItem - n) g)) @
        List.map_filter robots_item (take (maxRobotsItem - (n + length g)) (concat gs))) good r"
    using Cons by simp
  finally show ?case
    by (simp add: map_filter_append add.assoc)
qed

lemma concern_cases: "concern ua as = 0 \<or> concern ua as = 1 \<or> concern ua as = 2"
  by (simp add: concern_def)

lemma agents_loop_concern:
  "plain_tokens as \<Longrightarrow> stops r \<Longrightarrow> agents_loop ua 0 (as @ r) = (concern ua as, r)"
  by (simp add: agents_loop_names concern_def)

lemma skip_rules:
  assumes "list_all plain_tokens gs" "r = [] \<or> is_agent (hd r)"
  shows "dropWhile (\<lambda>t. \<not> is_agent t) (rule_tokens gs @ r) = r"
proof -
  have "\<forall>t \<in> set (rule_tokens gs). \<not> is_agent t"
    using assms(1) by (induction gs) (auto simp: rule_tokens_def plain_tokens_def list_all_iff)
  then show ?thesis using assms(2) by (cases r) (auto simp: dropWhile_append2)
qed

lemma parse_loop_records:
  "list_all record_ok rs \<Longrightarrow> st \<noteq> 2 \<Longrightarrow>
   fst (parse_loop ua ps st n forb good (concat (map record_tokens rs))) =
   (case find (\<lambda>r. concern ua (fst r) = 2) rs of
      Some r \<Rightarrow> rules (snd r)
    | None \<Rightarrow> (case filter (\<lambda>r. concern ua (fst r) = 1) rs of
                [] \<Rightarrow> forb | ws \<Rightarrow> rules (snd (last ws))))"
proof (induction rs arbitrary: st n forb)
  case (Cons r rs)
  let ?rest = "concat (map record_tokens rs)"
  have rest: "?rest = [] \<or> is_agent (hd ?rest)" by (cases rs) (simp_all add: record_tokens_def)
  have st': "stops ?rest" by (cases rs) (simp_all add: record_tokens_def)
  have ok: "plain_tokens (fst r)" "list_all plain_tokens (snd r)" "list_all record_ok rs"
    using Cons.prems(1) by (auto simp: record_ok_def [of r])
  have "stops (rule_tokens (snd r) @ ?rest)" using st' by (cases "snd r") (simp_all add: rule_tokens_def)
  then have a: "agents_loop ua 0 (fst r @ rule_tokens (snd r) @ ?rest) =
      (concern ua (fst r), rule_tokens (snd r) @ ?rest)"
    using agents_loop_concern ok(1) by blast
  let ?next = "\<lambda>st1. parse_loop ua ps st1 (length (concat (snd r))) (rules (snd r)) good ?rest"
  have p: "parse_loop ua ps st n forb good (concat (map record_tokens (r # rs))) =
      (if concern ua (fst r) \<noteq> 0 then ?next (concern ua (fst r)) else parse_loop ua ps 0 n forb good ?rest)"
    using a Cons.prems(2) parse_loop_rules [OF ok(2) st', of ua ps _ 0 "[]" good]
      skip_rules [OF ok(2) rest]
    by (simp add: record_tokens_def parse_loop.simps(2) rules_def)
  consider "concern ua (fst r) = 0" | "concern ua (fst r) = 1" | "concern ua (fst r) = 2"
    by (rule disjE [OF concern_cases [of ua "fst r"]]) (assumption | erule disjE)+
  then show ?case
  proof cases
    case 1
    then show ?thesis using p Cons.IH [OF ok(3), of 0] by (simp split: list.splits option.splits)
  next
    case 2
    then show ?thesis using p Cons.IH [OF ok(3), of 1] by (simp split: list.splits option.splits)
  next
    case 3
    have "?next 2 = (rules (snd r), good)"
      by (cases rs) (simp_all add: record_tokens_def parse_loop.simps(2))
    then show ?thesis using p 3 by simp
  qed
qed simp

lemma parse_loop_selects:
  assumes "list_all plain_tokens pre" "list_all record_ok rs"
  shows "fst (parse_loop ua ps 1 0 [] True (rule_tokens pre @ concat (map record_tokens rs))) =
    robots_select ua pre rs"
proof -
  have "stops (concat (map record_tokens rs))" by (cases rs) (simp_all add: record_tokens_def)
  from parse_loop_rules [OF assms(1) this, of ua ps 1 0 "[]" True]
  have "parse_loop ua ps 1 0 [] True (rule_tokens pre @ concat (map record_tokens rs)) =
      parse_loop ua ps 1 (length (concat pre)) (rules pre) True (concat (map record_tokens rs))"
    by (simp add: rules_def)
  then show ?thesis using parse_loop_records [OF assms(2), of 1] by (simp add: robots_select_def)
qed

subsection \<open>A file of the standard\<close>

text \<open>A file as the standard of 1994 has it: records of one \<open>User-agent\<close> line and its \<open>Disallow\<close>
  lines, whose value may be empty, with blank lines between them and comments at the ends of lines.\<close>

type_synonym std_rule = "string option \<times> string option"
type_synonym std_record = "string \<times> std_rule list"

definition line_end :: "string option \<Rightarrow> string" where
  "line_end com = (case com of None \<Rightarrow> [NL] | Some c \<Rightarrow> '' #'' @ c @ [NL])"

definition rule_line :: "std_rule \<Rightarrow> string" where
  "rule_line r =
     ''Disallow: '' @ (case fst r of None \<Rightarrow> [] | Some p \<Rightarrow> p) @ line_end (snd r)"

definition robots_txt :: "std_record list \<Rightarrow> string" where
  "robots_txt rs =
     concat (map (\<lambda>(name, rls).
       ''User-agent: '' @ name @ [NL] @ concat (map rule_line rls) @ [NL]) rs)"

text \<open>What the standard asks of a crawler: the record whose value occurs in its name, letters in
  capitals or not, else the record of everybody, else nothing is forbidden.\<close>

definition std_paths :: "std_rule list \<Rightarrow> string list" where
  "std_paths rls =
     List.map_filter (\<lambda>p. case fileNormalize p of Normal f \<Rightarrow> Some f | _ \<Rightarrow> None)
       (List.map_filter fst rls)"

definition std_forbidden :: "string \<Rightarrow> std_record list \<Rightarrow> string list" where
  "std_forbidden ua rs =
     (case find (\<lambda>r. sublist (map tolower (fst r)) (map tolower ua)) rs of
        Some r \<Rightarrow> std_paths (snd r)
      | None \<Rightarrow> (case find (\<lambda>r. fst r = ''*'') rs of Some r \<Rightarrow> std_paths (snd r) | None \<Rightarrow> []))"

text \<open>Names and paths are words, no name is a keyword, paths begin with a slash, there is at
  most one record for everybody, and a record has at most \<open>maxRobotsItem\<close> paths.\<close>

definition std_record_ok :: "std_record \<Rightarrow> bool" where
  "std_record_ok r \<longleftrightarrow>
     plain_token (CHR '':'') (fst r) \<and> \<not> is_agent (fst r) \<and> \<not> is_disallow (fst r) \<and>
     length (snd r) \<le> maxRobotsItem \<and>
     (\<forall>(p, com) \<in> set (snd r).
        (case p of None \<Rightarrow> True | Some x \<Rightarrow> plain_token (CHR '':'') x \<and> hd x = CHR ''/'') \<and>
        (case com of None \<Rightarrow> True | Some c \<Rightarrow> NL \<notin> set c))"

definition std_file_ok :: "std_record list \<Rightarrow> bool" where
  "std_file_ok rs \<longleftrightarrow> list_all std_record_ok rs \<and> length (filter (\<lambda>r. fst r = ''*'') rs) \<le> 1"

text \<open>The records of the loop for a file.\<close>

definition loop_record :: "std_record \<Rightarrow> robots_record" where
  "loop_record r = ([fst r], map (\<lambda>p. case fst p of None \<Rightarrow> [] | Some x \<Rightarrow> [x]) (snd r))"

lemma sep_colon:
  "is_sep (CHR '':'') (CHR '':'')" "is_sep (CHR '':'') (CHR '' '')" "is_sep (CHR '':'') NL"
  "\<not> is_sep (CHR '':'') (CHR ''#'')"
  by (simp_all add: is_sep_def NL_def TAB_def CR_def)

lemma tokens_line_end:
  assumes "\<forall>c. com = Some c \<longrightarrow> NL \<notin> set c"
  shows "tokens (CHR '':'') (line_end com @ s) = tokens (CHR '':'') s"
    "x \<in> {[]} \<or> plain_token (CHR '':'') x \<Longrightarrow>
      tokens (CHR '':'') (x @ line_end com @ s) = (if x = [] then [] else [x]) @ tokens (CHR '':'') s"
proof -
  show 1: "tokens (CHR '':'') (line_end com @ s) = tokens (CHR '':'') s"
    using assms by (simp add: line_end_def tokens_blank tokens_comment sep_colon split: option.splits)
  assume x: "x \<in> {[]} \<or> plain_token (CHR '':'') x"
  obtain b t where b: "line_end com = b # t" "is_sep (CHR '':'') b"
    using sep_colon by (cases com) (simp_all add: line_end_def)
  have "tokens (CHR '':'') (t @ s) = tokens (CHR '':'') s" using 1 b by (simp add: tokens_blank)
  then show "tokens (CHR '':'') (x @ line_end com @ s) = (if x = [] then [] else [x]) @ tokens (CHR '':'') s"
    using x 1 b tokens_token [of "CHR '':''" x b "t @ s"] by (auto simp: plain_token_def)
qed

lemma keyword_tokens:
  "plain_token (CHR '':'') ''Disallow''" "plain_token (CHR '':'') ''User-agent''"
  by (simp_all add: plain_token_def is_sep_def NL_def TAB_def CR_def)

lemma tokens_rules:
  assumes "\<forall>(p, com) \<in> set rls. (\<forall>x. p = Some x \<longrightarrow> plain_token (CHR '':'') x) \<and> (\<forall>c. com = Some c \<longrightarrow> NL \<notin> set c)"
  shows "tokens (CHR '':'') (concat (map rule_line rls) @ s) =
    rule_tokens (map (\<lambda>p. case fst p of None \<Rightarrow> [] | Some x \<Rightarrow> [x]) rls) @ tokens (CHR '':'') s"
  using assms
proof (induction rls)
  case (Cons r rls)
  obtain p com where r: "r = (p, com)" by (cases r)
  let ?v = "case p of None \<Rightarrow> [] | Some x \<Rightarrow> x" and ?s = "concat (map rule_line rls) @ s"
  have c: "\<forall>c. com = Some c \<longrightarrow> NL \<notin> set c" and v: "?v \<in> {[]} \<or> plain_token (CHR '':'') ?v"
    using Cons.prems r by (auto split: option.splits)
  have ne: "p = Some [] \<longrightarrow> False" using Cons.prems r by (auto simp: plain_token_def)
  have "tokens (CHR '':'') (rule_line r @ ?s) = ''Disallow'' # tokens (CHR '':'') (?v @ line_end com @ ?s)"
    using tokens_token [OF keyword_tokens(1) sep_colon(1), of "'' '' @ ?v @ line_end com @ ?s"]
    by (simp add: rule_line_def r tokens_blank sep_colon)
  also have "tokens (CHR '':'') (?v @ line_end com @ ?s) = (if ?v = [] then [] else [?v]) @ tokens (CHR '':'') ?s"
    by (rule tokens_line_end(2) [OF c v])
  also have "(if ?v = [] then [] else [?v]) = (case p of None \<Rightarrow> [] | Some x \<Rightarrow> [x])"
    using ne by (auto split: option.splits)
  finally show ?case using Cons by (simp add: rule_tokens_def r)
qed (simp add: rule_tokens_def)

lemma tokens_robots_txt:
  "list_all std_record_ok rs \<Longrightarrow>
    tokens (CHR '':'') (robots_txt rs) = concat (map record_tokens (map loop_record rs))"
proof (induction rs)
  case Nil
  then show ?case by (simp add: robots_txt_def tokens.simps nextToken_def)
next
  case (Cons r rs)
  obtain name rls where r: "r = (name, rls)" by (cases r)
  let ?t = "concat (map rule_line rls) @ [NL] @ robots_txt rs"
  have ok: "plain_token (CHR '':'') name"
    "\<forall>(p, com) \<in> set rls. (\<forall>x. p = Some x \<longrightarrow> plain_token (CHR '':'') x) \<and> (\<forall>c. com = Some c \<longrightarrow> NL \<notin> set c)"
    using Cons.prems by (auto simp: std_record_ok_def r)
  have "robots_txt (r # rs) = ''User-agent'' @ CHR '':'' # CHR '' '' # name @ NL # ?t" by (simp add: robots_txt_def r)
  then have "tokens (CHR '':'') (robots_txt (r # rs)) = ''User-agent'' # name # tokens (CHR '':'') ?t"
    using tokens_token [OF keyword_tokens(2) sep_colon(1), of "CHR '' '' # name @ NL # ?t"]
      tokens_token [OF ok(1) sep_colon(3), of ?t] by (simp add: tokens_blank sep_colon)
  also have "tokens (CHR '':'') ?t = rule_tokens (snd (loop_record r)) @ tokens (CHR '':'') (robots_txt rs)"
    using tokens_rules [OF ok(2), of "[NL] @ robots_txt rs"] by (simp add: loop_record_def r tokens_blank sep_colon)
  finally show ?case using Cons by (simp add: record_tokens_def loop_record_def r)
qed

lemma loop_record_ok: "std_record_ok r \<Longrightarrow> record_ok (loop_record r)"
proof -
  have "\<not> is_agent x \<and> \<not> is_disallow x" if "hd x = CHR ''/''" "x \<noteq> []" for x
    using that by (cases x) (auto simp: is_agent_def is_disallow_def streq_nocase_def tolower_def is_upper_def)
  then show "std_record_ok r \<Longrightarrow> record_ok (loop_record r)"
    by (fastforce simp: std_record_ok_def record_ok_def loop_record_def plain_tokens_def list_all_iff plain_token_def split: option.splits)
qed

lemma map_filter_cong: "(\<And>x. x \<in> set xs \<Longrightarrow> f x = g x) \<Longrightarrow> List.map_filter f xs = List.map_filter g xs"
  by (induction xs) (auto simp: List.map_filter_def)

lemma loop_rules:
  assumes "std_record_ok r"
  shows "rules (snd (loop_record r)) = std_paths (snd r)"
proof -
  let ?ps = "List.map_filter fst (snd r)"
  have "concat (map (\<lambda>p. case fst p of None \<Rightarrow> [] | Some x \<Rightarrow> [x]) rls) = List.map_filter fst rls" for rls :: "std_rule list"
    by (induction rls) (auto simp: List.map_filter_def split: option.splits)
  then have c: "concat (snd (loop_record r)) = ?ps" by (simp add: loop_record_def)
  have l: "length ?ps \<le> maxRobotsItem"
    using assms le_trans [OF length_filter_le [of "(\<lambda>x. x \<noteq> None) \<circ> fst" "snd r"]]
    by (simp add: std_record_ok_def List.map_filter_def comp_def)
  have "\<forall>p \<in> set ?ps. hd p = CHR ''/'' \<and> p \<noteq> []"
    using assms by (fastforce simp: std_record_ok_def List.map_filter_def plain_token_def)
  then have "\<forall>p \<in> set ?ps. robots_item p = (case fileNormalize p of Normal f \<Rightarrow> Some f | _ \<Rightarrow> None)"
    by (auto simp: robots_item_def good_token_def neq_Nil_conv split: list.splits)
  then have "List.map_filter robots_item ?ps = std_paths (snd r)"
    unfolding std_paths_def by (intro map_filter_cong) auto
  then show ?thesis using l by (simp add: rules_def c)
qed

text \<open>The star is no part of a name, and at most one record is for everyone.\<close>

lemma tolower_star: "tolower c = CHR ''*'' \<Longrightarrow> c = CHR ''*''"
proof (rule ccontr)
  assume "tolower c = CHR ''*''" "c \<noteq> CHR ''*''"
  then have c: "65 \<le> cc c" "cc c \<le> 90" "chr (cc c + 32) = CHR ''*''"
    by (auto simp: tolower_def is_upper_def split: if_splits)
  have "cc c + 32 = cc (chr (cc c + 32))" using c(2) by simp
  also have "\<dots> = 42" unfolding c(3) by simp
  finally show False using c(1) by simp
qed

lemma concern_loop_record:
  assumes "CHR ''*'' \<notin> set ua"
  shows "concern ua (fst (loop_record r)) = 2 \<longleftrightarrow> sublist (map tolower (fst r)) (map tolower ua)"
    "concern ua (fst (loop_record r)) = 1 \<longleftrightarrow> fst r = ''*''"
proof -
  have "\<not> sublist (map tolower ''*'') (map tolower ua)"
  proof
    assume "sublist (map tolower ''*'') (map tolower ua)"
    then have "tolower (CHR ''*'') \<in> tolower ` set ua" by (auto simp: sublist_def map_eq_append_conv)
    moreover have "tolower (CHR ''*'') = CHR ''*''" by (simp add: tolower_def is_upper_def)
    ultimately show False using assms tolower_star by fastforce
  qed
  then show "concern ua (fst (loop_record r)) = 2 \<longleftrightarrow> sublist (map tolower (fst r)) (map tolower ua)"
    "concern ua (fst (loop_record r)) = 1 \<longleftrightarrow> fst r = ''*''"
    by (cases "fst r = ''*''"; auto simp: concern_def loop_record_def caseContain_sublist)+
qed

lemma star_once:
  assumes "length (filter P rs) \<le> 1"
  shows "filter P rs = (case find P rs of None \<Rightarrow> [] | Some r \<Rightarrow> [r])"
proof -
  have "filter P rs \<noteq> [] \<Longrightarrow> find P rs = Some (hd (filter P rs))" "filter P rs = [] \<Longrightarrow> find P rs = None"
    by (induction rs) auto
  then show ?thesis using assms by (cases "filter P rs") auto
qed

text \<open>C20: A \<open>robots.txt\<close> of the standard is obeyed: with records of one \<open>User-agent\<close> line and \<open>Disallow\<close>
  lines only, empty values, blank lines and comments included, what the crawler takes for forbidden are the paths of the
  record that names it, else those of the record for everybody, else none, each in its normal form. (Names and paths have no
  blank and no colon, there are at most \<open>maxRobotsItem\<close> paths in a record, and no star in the name of the crawler.)\<close>

theorem parseRobots_standard:
  assumes "std_file_ok rs" "CHR ''*'' \<notin> set ua"
  shows "fst (parseRobots ua ps (robots_txt rs)) = std_forbidden ua rs"
proof -
  have ok: "list_all std_record_ok rs" using assms(1) by (simp add: std_file_ok_def)
  have rec: "list_all record_ok (map loop_record rs)" using ok loop_record_ok by (auto simp: list_all_iff)
  note c = concern_loop_record [OF assms(2)]
  have e: "fst (parseRobots ua ps (robots_txt rs)) = robots_select ua [] (map loop_record rs)"
    using parse_loop_selects [OF _ rec, of "[]" ua ps]
    by (simp add: parseRobots_def tokens_robots_txt [OF ok] rule_tokens_def)
  have mem: "rules (snd (loop_record r)) = std_paths (snd r)" if "r \<in> set rs" for r
    using ok that loop_rules by (simp add: list_all_iff)
  have f: "find P (map loop_record rs) = map_option loop_record (find (P \<circ> loop_record) rs)" for P
    by (induction rs) auto
  let ?ws = "filter (\<lambda>r. fst r = ''*'') rs"
  have w: "filter (\<lambda>r. concern ua (fst r) = 1) (map loop_record rs) = map loop_record ?ws"
    by (simp add: filter_map comp_def c(2) del: One_nat_def)
  have one: "?ws = (case find (\<lambda>r. fst r = ''*'') rs of None \<Rightarrow> [] | Some r \<Rightarrow> [r])"
    using assms(1) by (intro star_once) (simp add: std_file_ok_def)
  have r0: "rules [] = []" by (simp add: rules_def List.map_filter_def)
  have mem': "rules (snd (loop_record r)) = std_paths (snd r)" if "find P rs = Some r" for P r
    using that mem by (metis find_Some_iff nth_mem)
  show ?thesis unfolding e robots_select_def std_forbidden_def f w one
    using mem' r0 by (auto simp: comp_def c(1) split: option.splits)
qed

definition std_file :: "std_record list" where
  "std_file =
     [(''other'', [(Some ''/'', None)]), (''*'', [(Some ''/private'', Some ''not this''), (None, None)]),
      (''Larbin'', [(Some ''/a/./b'', None), (Some ''/c'', None)])]"

theorem parseRobots_standard_witness:
  "fst (parseRobots ''my-larbin'' True (robots_txt std_file)) = [''/a/b'', ''/c''] \<and>
   fst (parseRobots ''nobody'' True (robots_txt std_file)) = [''/private'']"
proof -
  have ok: "std_file_ok std_file" by code_simp
  have "CHR ''*'' \<notin> set ''my-larbin''" "CHR ''*'' \<notin> set ''nobody''" by simp_all
  note p = parseRobots_standard [OF ok this(1), of True] parseRobots_standard [OF ok this(2), of True]
  have "std_forbidden ''my-larbin'' std_file = [''/a/b'', ''/c'']" "std_forbidden ''nobody'' std_file = [''/private'']"
    by (code_simp, code_simp)
  then show ?thesis using p by simp
qed


subsection \<open>What can be forbidden\<close>

lemma robots_item_slash: "robots_item t = Some f \<Longrightarrow> at_nul f 0 = CHR ''/'' \<and> length f \<le> length t + 1"
proof -
  assume "robots_item t = Some f"
  then have n: "fileNormalize (good_token t) = Normal f"
    by (auto simp: robots_item_def split: norm_result.splits)
  have g: "at_nul (good_token t) 0 = CHR ''/''" "length (good_token t) \<le> length t + 1"
    by (auto simp: good_token_def at_nul_def split: list.splits)
  show ?thesis using fileNormalize_ok [OF g(1)] n g(2) by (simp add: norm_ok_def)
qed

definition forbidden_ok :: "nat \<Rightarrow> string list \<Rightarrow> bool" where
  "forbidden_ok n forb \<longleftrightarrow>
     length forb \<le> min n maxRobotsItem \<and> list_all (\<lambda>f. at_nul f 0 = CHR ''/'') forb"

lemma disallow_loop_ok:
  "disallow_loop n forb ts = (n', forb', r) \<Longrightarrow> forbidden_ok n forb \<Longrightarrow> forbidden_ok n' forb'"
proof (induction n forb ts arbitrary: n' forb' r rule: disallow_loop.induct)
  case (2 items forb t ts)
  show ?case
  proof (cases "is_agent t \<or> is_disallow t")
    case True
    then show ?thesis using 2 by simp
  next
    case False
    have "forbidden_ok (items + 1) (if items < maxRobotsItem
        then (case robots_item t of None \<Rightarrow> forb | Some f \<Rightarrow> forb @ [f]) else forb)"
      using "2.prems"(2) robots_item_slash [of t]
      by (auto simp: forbidden_ok_def split: option.splits)
    then show ?thesis using 2 False by simp
  qed
qed simp

lemma parse_loop_ok:
  "forbidden_ok n forb \<Longrightarrow> \<exists>m. forbidden_ok m (fst (parse_loop ua ps st n forb good ts))"
proof (induction ua ps st n forb good ts rule: parse_loop.induct)
  case (2 ua ps st n forb good t ts)
  have e: "forbidden_ok 0 []" by (simp add: forbidden_ok_def)
  obtain st1 r where a: "agents_loop ua 0 ts = (st1, r)" by force
  obtain n1 forb1 r1 where d: "disallow_loop n forb ts = (n1, forb1, r1)" by (cases "disallow_loop n forb ts")
  consider (stop) "is_agent t" "st = 2" | (own) "is_agent t" "st \<noteq> 2" "st1 \<noteq> 0"
    | (other) "is_agent t" "st \<noteq> 2" "st1 = 0" | (dis) "\<not> is_agent t" "is_disallow t"
    | (junk) "\<not> is_agent t" "\<not> is_disallow t" by blast
  then show ?case
  proof cases
    case stop
    then show ?thesis using 2 by (auto simp: parse_loop.simps(2))
  next
    case own
    have "\<exists>m. forbidden_ok m (fst (parse_loop ua ps st1 0 [] good r))"
      using "2.IH"(1) [OF own(1,2) a [symmetric] refl own(3) e] by blast
    then show ?thesis using own a by (simp add: parse_loop.simps(2))
  next
    case other
    then have "\<exists>m. forbidden_ok m
        (fst (parse_loop ua ps st1 n forb good (dropWhile (\<lambda>t. \<not> is_agent t) r)))"
      using "2.IH"(2) [OF other(1,2) a [symmetric] refl] "2.prems" by simp
    then show ?thesis using other a by (simp add: parse_loop.simps(2))
  next
    case dis
    have "\<exists>m. forbidden_ok m (fst (parse_loop ua ps st n1 forb1 good r1))"
      using "2.IH"(3) [OF dis d [symmetric] refl refl disallow_loop_ok [OF d "2.prems"]] by blast
    then show ?thesis using dis d by (simp add: parse_loop.simps(2))
  next
    case junk
    then show ?thesis using "2.IH"(4) "2.prems" by (simp add: parse_loop.simps(2))
  qed
qed auto

text \<open>Whatever a server sends as robots.txt, at most \<open>maxRobotsItem\<close> names are forbidden, and
  each of them starts with a slash, as the names that they are compared with do.\<close>

theorem parseRobots_bounds:
  "length (fst (parseRobots ua ps text)) \<le> maxRobotsItem \<and>
   (\<forall>f \<in> set (fst (parseRobots ua ps text)). at_nul f 0 = CHR ''/'')"
proof -
  have "forbidden_ok 0 []" by (simp add: forbidden_ok_def)
  then obtain m where "forbidden_ok m (fst (parseRobots ua ps text))"
    using parse_loop_ok unfolding parseRobots_def by blast
  then show ?thesis by (simp add: forbidden_ok_def list_all_iff)
qed

lemma parseRobots_bounds_witness:
  "length (fst (parseRobots ''larbin'' False ''Disallow: /a /b'')) \<le> maxRobotsItem"
  using parseRobots_bounds [of "''larbin''" False "''Disallow: /a /b''"] by blast

definition allow_file :: string where
  "allow_file = ''User-agent: *'' @ [NL] @ ''Disallow: /private'' @ [NL] @ ''Allow: /'' @ [NL]"

text \<open>An \<open>Allow\<close> line after a \<open>Disallow\<close> line is taken for more forbidden names: a file that
  forbids one directory to everybody and allows the rest forbids the whole site.\<close>

theorem parseRobots_allow:
  "fst (parseRobots ''larbin'' False allow_file) = [''/private'', ''/Allow'', ''/''] \<and>
   testRobots g (s\<lparr>ns_forbidden := fst (parseRobots ''larbin'' False allow_file)\<rparr>) (CHR ''/'' # name) =
     g_ignoreRobots g"
proof -
  have f: "fst (parseRobots ''larbin'' False allow_file) = [''/private'', ''/Allow'', ''/'']"
    by code_simp
  then show ?thesis by (simp add: testRobots_def)
qed

text \<open>A record with two \<open>User-agent\<close> lines is not understood: the second line ends the record
  of the first, so what is forbidden to everybody in the last record here is allowed.\<close>

theorem parseRobots_two_agents:
  "fst (parseRobots ''larbin'' False
     (''User-agent: *'' @ [NL] @ ''User-agent: other'' @ [NL] @ ''Disallow: /'' @ [NL])) = []"
  by code_simp

subsection \<open>The rest of the buffer\<close>

definition short_answer :: string where
  "short_answer = ''HTTP/1.0 200 OK'' @ [CR, NL]"

definition old_page :: string where
  "old_page = ''end'' @ [NL, NL] @ ''Disallow: /'' @ [NL] @ replicate 9 NUL"

text \<open>The scan for the end of the headers does not stop at the end of what was received. With
  the same status line received and nothing else, the rest of the buffer, left there by an
  earlier page of the connection, decides what is forbidden.\<close>

theorem robots_parse_stale:
  "(let r = \<lparr>rb_server = k, rb_pos = length short_answer, rb_answerCode = True\<rparr> in
    robots_parse ''larbin'' False False (short_answer @ replicate 24 NUL) r = Some None \<and>
    robots_parse ''larbin'' False False (short_answer @ old_page) r = Some (Some ([''/''], True)))"
proof -
  have "robots_parseHeaders (short_answer @ replicate 24 NUL) 9 = Some None"
    "robots_parseHeaders (short_answer @ old_page) 9 = Some (Some 20)" by (code_simp, code_simp)
  moreover have "length short_answer = 17" by code_simp
  moreover have "parseRobots ''larbin'' False
      (c_string ((short_answer @ old_page)[17 := NUL]) 20) = ([''/''], True)" by code_simp
  ultimately show ?thesis by (simp add: robots_parse_def Let_def)
qed

end
