(* ===== verification/Html.thy ===== *)
theory Html
  imports Robots "HOL-Library.Sublist"
begin

section \<open>Pages (the class html of src/fetch/file.cxx)\<close>

text \<open>
  A page arrives in the buffer of its connection: the status line, the headers, the content.
  \<open>h_parse\<close>, \<open>h_area\<close> and \<open>h_content\<close> are the pointers \<open>posParse\<close>, \<open>area\<close>, \<open>contentStart\<close> as
  indices of the array \<open>h_buf\<close>, of which this page has filled \<open>h_pos\<close> characters; the rest is what
  an earlier page left. A result \<open>None\<close> is a read past the end of the array or a failed
  assertion. In the state \<open>SPECIFIC\<close> the content goes to a file, \<open>h_spec\<close>
  (\<open>fetch/save_specific_buffer.cxx\<close>; the numbering of those files is left out).
\<close>

datatype html_phase = ANSWER | HEADERS | HEADERS30X | HTML | SPECIFIC

datatype action = LINK | BASE

record html_state =
  h_here :: url
  h_base :: "url option"
  h_phase :: html_phase
  h_buf :: string
  h_pos :: nat
  h_parse :: nat
  h_area :: nat
  h_content :: nat
  h_interesting :: bool
  h_extIndex :: int
  h_nbSpec :: int
  h_spec :: string

definition maxSpecSize :: int where "maxSpecSize = 32 * 1024 * 1024"

text \<open>\<open>d\<close> is the depth of the base, which its constructor leaves unset.\<close>

definition html_new :: "int \<Rightarrow> url \<Rightarrow> string \<Rightarrow> html_state option" where
  "html_new d here buf =
     map_option (\<lambda>b.
       \<lparr>h_here = here, h_base = Some b, h_phase = ANSWER, h_buf = buf, h_pos = 0, h_parse = 0,
        h_area = 0, h_content = 0, h_interesting = False, h_extIndex = 0, h_nbSpec = 0, h_spec = []\<rparr>)
     (giveBase d here)"

subsection \<open>Reading the array\<close>

definition rd :: "string \<Rightarrow> nat \<Rightarrow> char option" where
  "rd buf p = (if p < length buf then Some (buf ! p) else None)"

text \<open>\<open>strchr(buf + p, c)\<close>: \<open>Some None\<close> when the NUL comes first.\<close>

function strchr_at :: "string \<Rightarrow> nat \<Rightarrow> char \<Rightarrow> nat option option" where
  "strchr_at buf p c =
     (if p \<ge> length buf then None
      else if buf ! p = c then Some (Some p)
      else if buf ! p = NUL then Some None
      else strchr_at buf (p + 1) c)"
  by pat_completeness auto

termination
  by (relation "measure (\<lambda>(buf, p, c). length buf - p)") auto

declare strchr_at.simps [simp del]

text \<open>\<open>while (P (*p)) p++\<close>\<close>

function skip_chars :: "(char \<Rightarrow> bool) \<Rightarrow> string \<Rightarrow> nat \<Rightarrow> nat option" where
  "skip_chars P buf p =
     (if p \<ge> length buf then None
      else if P (buf ! p) then skip_chars P buf (p + 1)
      else Some p)"
  by pat_completeness auto

termination
  by (relation "measure (\<lambda>(P, buf, p). length buf - p)") auto

declare skip_chars.simps [simp del]

definition is_blank :: "char \<Rightarrow> bool" where
  "is_blank c \<longleftrightarrow> c = CHR '' '' \<or> c = NL \<or> c = CR \<or> c = TAB"

definition skipSpace :: "string \<Rightarrow> nat \<Rightarrow> nat option" where
  "skipSpace = skip_chars is_blank"

definition skipText :: "string \<Rightarrow> nat \<Rightarrow> nat option" where
  "skipText = skip_chars (\<lambda>c. \<not> is_blank c \<and> c \<noteq> CHR ''>'' \<and> c \<noteq> NUL)"

definition notCgiChar :: "config \<Rightarrow> char \<Rightarrow> bool" where
  "notCgiChar g c \<longleftrightarrow> g_getCGI g \<or> (c \<noteq> CHR ''?'' \<and> c \<noteq> CHR ''='' \<and> c \<noteq> CHR ''*'')"

subsection \<open>Headers\<close>

text \<open>The results are the \<open>errno\<close> of a return 1, or \<open>None\<close> for a return 0.\<close>

definition parseCmdline :: "html_state \<Rightarrow> FetchError option \<times> html_state" where
  "parseCmdline h =
     (if h_parse h \<ge> 12 then
        (if h_buf h ! 9 = CHR ''2'' then (None, h\<lparr>h_phase := HEADERS\<rparr>)
         else if h_buf h ! 9 = CHR ''3'' then (None, h\<lparr>h_phase := HEADERS30X\<rparr>)
         else (Some err40X, h))
      else (Some earlyStop, h))"

definition content_type :: string where "content_type = ''content-type: ''"

definition verifType ::
    "config \<Rightarrow> html_state \<Rightarrow> world \<Rightarrow> FetchError option \<times> html_state \<times> world" where
  "verifType g h w =
     (let line = c_string (h_buf h) (h_area h); t = drop 14 line in
      if startWithIgnoreCase content_type line = Some True
         \<and> startWithIgnoreCase ''text/html'' t \<noteq> Some True then
        (let i = matchContentType (g_specificSearch g) (g_contentTypes g) t in
         if g_specificSearch g \<and> i \<noteq> - 1 then
           (None, h\<lparr>h_extIndex := i, h_interesting := True\<rparr>,
            upd_stats (\<lambda>s. s\<lparr>st_interestingSeen := st_interestingSeen s + 1\<rparr>) w)
         else
           (let h1 = (if g_specificSearch g then h\<lparr>h_extIndex := i\<rparr> else h) in
            if g_anyType g then (None, h1, w)
            else if g_getImage g \<and> startWithIgnoreCase ''image'' t = Some True then (None, h1, w)
            else (Some badType, h1, w)))
      else (None, h, w))"

definition content_length :: string where "content_length = ''content-length: ''"

text \<open>\<open>len = len * 10 + *p - '0'\<close> in an \<open>int\<close>.\<close>

definition length_value :: "string \<Rightarrow> int" where
  "length_value s = foldl (\<lambda>n c. s32 (n * 10 + int (digit_val c))) 0 (takeWhile is_digit s)"

definition verifLength :: "config \<Rightarrow> html_state \<Rightarrow> FetchError option" where
  "verifLength g h =
     (let line = c_string (h_buf h) (h_area h) in
      if \<not> g_specificSearch g \<and> startWithIgnoreCase content_length line = Some True
         \<and> length_value (drop 16 line) > int maxPageSize
      then Some tooBig else None)"

definition parseHeader ::
    "config \<Rightarrow> html_state \<Rightarrow> world \<Rightarrow> FetchError option \<times> html_state \<times> world" where
  "parseHeader g h w =
     (if h_parse h - h_area h < 2 then
        (let ph = (if g_specificSearch g \<and> h_interesting h then SPECIFIC else HTML);
             h1 = h\<lparr>h_phase := ph, h_content := h_parse h + 1,
                    h_buf := (h_buf h)[h_parse h - 1 := NUL]\<rparr>
         in (None, if ph = SPECIFIC then h1\<lparr>h_nbSpec := 0, h_spec := []\<rparr> else h1, w))
      else
        (let line = c_string ((h_buf h)[h_parse h := NUL]) (h_area h);
             h1 = h\<lparr>h_here := (if g_useCookies g then addCookie line (h_here h) else h_here h),
                    h_buf := (h_buf h)[h_parse h := NL]\<rparr>
         in case verifType g h1 w of
              (Some e, h2, w2) \<Rightarrow> (Some e, h2, w2)
            | (None, h2, w2) \<Rightarrow> (verifLength g h2, h2, w2)))"

definition parseHeader30X ::
    "config \<Rightarrow> html_state \<Rightarrow> world \<Rightarrow> (FetchError option \<times> html_state \<times> world) option" where
  "parseHeader30X g h w =
     (if h_parse h - h_area h < 2 then Some (Some err40X, h, w)
      else if startWithIgnoreCase ''location: '' (c_string (h_buf h) (h_area h)) = Some True then
        do {
          e \<leftarrow> skip_chars (\<lambda>c. c \<noteq> CHR '' '' \<and> c \<noteq> NL \<and> c \<noteq> CR \<and> notCgiChar g c) (h_buf h) (h_area h + 10);
          if notCgiChar g (h_buf h ! e) then do {
            let h1 = h\<lparr>h_buf := (h_buf h)[e := NUL]\<rparr>;
            nouv \<leftarrow> url_link (c_string (h_buf h1) (h_area h + 10)) (u_depth (h_here h)) (h_base h);
            w1 \<leftarrow> manageUrl g (h_here h1) nouv True w;
            Some (Some err30X, h1, w1)
          } else Some (Some err30X, h, w)
        }
      else Some (None, h, w))"

text \<open>\<open>pipeSpec\<close>: the new part goes to the file and is dropped from the buffer.\<close>

definition pipeSpec :: "html_state \<Rightarrow> FetchError option \<times> html_state" where
  "pipeSpec h =
     (let nb = h_pos h - h_parse h; h1 = h\<lparr>h_nbSpec := h_nbSpec h + int nb\<rparr> in
      if h_nbSpec h1 \<ge> maxSpecSize then (Some tooBig, h1)
      else (None, h1\<lparr>h_spec := h_spec h @ take nb (drop (h_parse h) (h_buf h)), h_pos := h_parse h\<rparr>))"

definition next_line :: "nat \<Rightarrow> html_state \<Rightarrow> html_state" where
  "next_line q h = h\<lparr>h_parse := q + 1, h_area := q + 1\<rparr>"

text \<open>The cases of the \<open>switch\<close> that read a line.\<close>

definition header_line ::
    "config \<Rightarrow> html_state \<Rightarrow> world \<Rightarrow> (FetchError option \<times> html_state \<times> world) option" where
  "header_line g h w =
     (case h_phase h of
        ANSWER \<Rightarrow> (case parseCmdline h of (e, h1) \<Rightarrow> Some (e, h1, w))
      | HEADERS \<Rightarrow> Some (parseHeader g h w)
      | _ \<Rightarrow> parseHeader30X g h w)"

partial_function (option) headers_loop ::
    "config \<Rightarrow> html_state \<Rightarrow> world \<Rightarrow> (FetchError option \<times> html_state \<times> world) option" where
  "headers_loop g h w =
     (if h_parse h < h_pos h then
        (case h_phase h of
           HTML \<Rightarrow> Some (None, h, w)
         | SPECIFIC \<Rightarrow> (case pipeSpec h of (e, h1) \<Rightarrow> Some (e, h1, w))
         | _ \<Rightarrow>
             (case strchr_at (h_buf h) (h_parse h) NL of
                None \<Rightarrow> None
              | Some None \<Rightarrow> Some (None, h, w)
              | Some (Some q) \<Rightarrow> do {
                  (e, h1, w1) \<leftarrow> header_line g (h\<lparr>h_parse := q\<rparr>) w;
                  if e \<noteq> None then Some (e, h1, w1) else headers_loop g (next_line q h1) w1
                }))
      else Some (None, h, w))"

definition html_inputHeaders ::
    "config \<Rightarrow> nat \<Rightarrow> html_state \<Rightarrow> world \<Rightarrow> (FetchError option \<times> html_state \<times> world) option" where
  "html_inputHeaders g sz h w =
     (let p = h_pos h + sz in
      headers_loop g (h\<lparr>h_pos := p, h_buf := (h_buf h)[p := NUL]\<rparr>) w)"

subsection \<open>Content\<close>

text \<open>\<open>thisCharIs\<close>, character by character as \<open>&&\<close> does; the tests of a tag name start at 1.\<close>

fun chars_are :: "string \<Rightarrow> nat \<Rightarrow> string \<Rightarrow> bool option" where
  "chars_are buf p [] = Some True"
| "chars_are buf p (c # cs) =
     (case rd buf p of None \<Rightarrow> None
      | Some x \<Rightarrow> if or32 x = c then chars_are buf (p + 1) cs else Some False)"

text \<open>How much of the parameter name is there.\<close>

fun match_param :: "string \<Rightarrow> nat \<Rightarrow> string \<Rightarrow> nat option" where
  "match_param buf p [] = Some 0"
| "match_param buf p (c # cs) =
     (case rd buf p of None \<Rightarrow> None
      | Some x \<Rightarrow> if or32 x = c then map_option Suc (match_param buf (p + 1) cs) else Some 0)"

text \<open>\<open>Some (Some t)\<close> is the parameter, the action and the length of the name.\<close>

definition read_tag ::
    "config \<Rightarrow> string \<Rightarrow> nat \<Rightarrow> (string \<times> action \<times> nat) option option" where
  "read_tag g buf p =
     (case rd buf p of
        None \<Rightarrow> None
      | Some x \<Rightarrow>
          let c = or32 x;
              istag = (\<lambda>rest t. map_option (\<lambda>b. if b then Some t else None) (chars_are buf (p + 1) rest))
          in if c = CHR ''a'' then Some (Some (''href'', LINK, 1))
             else if c = CHR ''l'' then istag ''ink'' (''href'', LINK, 4)
             else if c = CHR ''b'' then istag ''ase'' (''href'', BASE, 4)
             else if c = CHR ''f'' then istag ''rame'' (''src'', LINK, 5)
             else if g_getImage g \<and> c = CHR ''i'' then istag ''mg'' (''src'', LINK, 3)
             else Some None)"

definition known_tag :: "config \<Rightarrow> char \<Rightarrow> bool" where
  "known_tag g c \<longleftrightarrow> or32 c \<in> set ''albf'' \<or> g_getImage g \<and> or32 c = CHR ''i''"

text \<open>The characters of a url; a backslash becomes a slash.\<close>

function read_url :: "config \<Rightarrow> nat \<Rightarrow> string \<Rightarrow> nat \<Rightarrow> (string \<times> nat) option" where
  "read_url g e buf p =
     (if p < e then
        (if p \<ge> length buf then None
         else if buf ! p \<notin> {CHR 0x22, CHR 0x27, NL, CHR '' '', CHR ''>'', CR, TAB} \<and> notCgiChar g (buf ! p)
         then read_url g e (if buf ! p = CHR 0x5C then buf[p := CHR ''/''] else buf) (p + 1)
         else Some (buf, p))
      else Some (buf, p))"
  by pat_completeness auto

termination
  by (relation "measure (\<lambda>(g, e, buf, p). e - p)") auto

declare read_url.simps [simp del]

text \<open>\<open>while (end > 7 && area[end] != '/') end--\<close>\<close>

fun base_end :: "string \<Rightarrow> nat \<Rightarrow> nat \<Rightarrow> nat" where
  "base_end buf area 0 = 0"
| "base_end buf area (Suc n) =
     (if Suc n > 7 \<and> buf ! (area + Suc n) \<noteq> CHR ''/'' then base_end buf area n else Suc n)"

definition set_base :: "html_state \<Rightarrow> nat \<Rightarrow> nat \<Rightarrow> html_state option" where
  "set_base h area q =
     (if q = area then Some h
      else
        let e = base_end (h_buf h) area (q - area - 1) in
        if e > 7 then
          map_option (\<lambda>b. h\<lparr>h_base := (if isValid b then Some b else None)\<rparr>)
            (url_link (c_string ((h_buf h)[area + (e + 1) := NUL]) area) 0 None)
        else Some h)"

definition parseContent :: "config \<Rightarrow> action \<Rightarrow> html_state \<Rightarrow> world \<Rightarrow> (html_state \<times> world) option" where
  "parseContent g act h w =
     do {
       a0 \<leftarrow> skip_chars (\<lambda>c. c = CHR '' '' \<or> c = CHR ''='') (h_buf h) (h_parse h + 1);
       c \<leftarrow> rd (h_buf h) a0;
       let area = (if c = CHR 0x22 \<or> c = CHR 0x27 then a0 + 1 else a0);
       let e = min (area + maxUrlSize) (h_pos h);
       (buf, q) \<leftarrow> read_url g e (h_buf h) area;
       let h1 = h\<lparr>h_buf := buf, h_area := area, h_parse := q\<rparr>;
       if q = h_pos h then Some (h1, w)
       else if q < e \<and> notCgiChar g (buf ! q) then do {
         let h2 = h1\<lparr>h_buf := buf[q := NUL]\<rparr>;
         (h3, w3) \<leftarrow>
           (case act of
              LINK \<Rightarrow> do {
                nouv \<leftarrow> url_link (c_string (h_buf h2) area) (u_depth (h_here h2) - 1) (h_base h2);
                w2 \<leftarrow> manageUrl g (h_here h2) nouv False w;
                Some (h2, w2) }
            | BASE \<Rightarrow> map_option (\<lambda>h'. (h', w)) (set_base h2 area q));
         Some (h3\<lparr>h_buf := (h_buf h3)[q := buf ! q], h_parse := q + 1\<rparr>, w3)
       } else Some (h1\<lparr>h_parse := q + 1\<rparr>, w)
     }"

partial_function (option) param_loop ::
    "config \<Rightarrow> string \<Rightarrow> action \<Rightarrow> html_state \<Rightarrow> world \<Rightarrow> (html_state \<times> world) option" where
  "param_loop g param act h w =
     do {
       i \<leftarrow> match_param (h_buf h) (h_parse h) param;
       p \<leftarrow> skipSpace (h_buf h) (h_parse h + i);
       x \<leftarrow> rd (h_buf h) (p + i);
       if x = CHR ''>'' \<or> x = NUL then Some (h\<lparr>h_parse := p\<rparr>, w)
       else if i = length param then parseContent g act (h\<lparr>h_parse := p\<rparr>) w
       else do {
         t \<leftarrow> skipText (h_buf h) p;
         q \<leftarrow> skipSpace (h_buf h) t;
         param_loop g param act (h\<lparr>h_parse := q\<rparr>) w
       }
     }"

definition parseTag :: "config \<Rightarrow> html_state \<Rightarrow> world \<Rightarrow> (html_state \<times> world) option" where
  "parseTag g h w =
     do {
       p \<leftarrow> skipSpace (h_buf h) (h_parse h);
       t \<leftarrow> read_tag g (h_buf h) p;
       (case t of
          None \<Rightarrow> do {
            x \<leftarrow> rd (h_buf h) p;
            Some (h\<lparr>h_parse := (if known_tag g x then p + 1 else p)\<rparr>, w) }
        | Some (param, act, n) \<Rightarrow> do {
            q \<leftarrow> skipSpace (h_buf h) (p + n);
            param_loop g param act (h\<lparr>h_parse := q\<rparr>) w })
     }"

text \<open>\<open>posParse[1] == ... && posParse[2] == ...\<close>\<close>

fun exact_at :: "string \<Rightarrow> nat \<Rightarrow> string \<Rightarrow> bool option" where
  "exact_at buf p [] = Some True"
| "exact_at buf p (c # cs) =
     (case rd buf p of None \<Rightarrow> None
      | Some x \<Rightarrow> if x = c then exact_at buf (p + 1) cs else Some False)"

lemma strchr_at_bounds: "strchr_at buf p c = Some (Some q) \<Longrightarrow> p \<le> q \<and> q < length buf \<and> buf ! q = c"
proof (induction buf p c rule: strchr_at.induct)
  case (1 buf p c)
  then show ?case by (subst (asm) (2) strchr_at.simps) (auto split: if_splits)
qed

text \<open>The index after the comment.\<close>

function parseComment :: "string \<Rightarrow> nat \<Rightarrow> nat \<Rightarrow> nat option" where
  "parseComment buf pos p =
     (case strchr_at buf p (CHR ''-'') of
        None \<Rightarrow> None
      | Some None \<Rightarrow> Some pos
      | Some (Some q) \<Rightarrow>
          (case exact_at buf (q + 1) ''->'' of
             None \<Rightarrow> None
           | Some b \<Rightarrow> if b then Some (q + 3) else parseComment buf pos (q + 1)))"
  by pat_completeness auto

termination
  by (relation "measure (\<lambda>(buf, pos, p). length buf - p)") (auto dest: strchr_at_bounds)

declare parseComment.simps [simp del]

partial_function (option) parseHtml :: "config \<Rightarrow> html_state \<Rightarrow> world \<Rightarrow> (html_state \<times> world) option" where
  "parseHtml g h w =
     (case strchr_at (h_buf h) (h_parse h) (CHR ''<'') of
        None \<Rightarrow> None
      | Some None \<Rightarrow> Some (h, w)
      | Some (Some p) \<Rightarrow> do {
          x \<leftarrow> rd (h_buf h) (p + 1);
          (h1, w1) \<leftarrow>
            (if x = CHR ''!'' then do {
               c \<leftarrow> exact_at (h_buf h) (p + 2) ''--'';
               q \<leftarrow> (if c then parseComment (h_buf h) (h_pos h) (p + 4) else Some (p + 2));
               Some (h\<lparr>h_parse := q\<rparr>, w) }
             else parseTag g (h\<lparr>h_parse := p + 1\<rparr>) w);
          parseHtml g h1 w1
        })"

definition html_endInput ::
    "config \<Rightarrow> html_state \<Rightarrow> world \<Rightarrow> (FetchError option \<times> html_state \<times> world) option" where
  "html_endInput g h w =
     (if h_phase h = ANSWER \<or> h_phase h = HEADERS then Some (Some earlyStop, h, w)
      else if h_phase h = HEADERS30X then Some (Some err40X, h, w)
      else
        let (new, t) = hashDup_testSet hashSize (c_string (h_buf h) (h_parse h)) (w_hDup w);
            w1 = (if g_pageNoDuplicate g then w\<lparr>w_hDup := t\<rparr> else w) in
        if g_pageNoDuplicate g \<and> \<not> new then Some (Some duplicate, h, w1)
        else
          let h1 = h\<lparr>h_buf := (h_buf h)[h_pos h := NUL]\<rparr> in
          if h_phase h1 = SPECIFIC then Some (None, h1, w1)
          else map_option (\<lambda>(h2, w2). (None, h2, w2)) (parseHtml g h1 w1))"

text \<open>What the output gets.\<close>

definition getPage :: "html_state \<Rightarrow> string" where
  "getPage h = (if h_phase h = SPECIFIC then h_spec h else c_string (h_buf h) (h_content h))"

definition getLength :: "html_state \<Rightarrow> int" where
  "getLength h = (if h_phase h = SPECIFIC then h_nbSpec h else int (h_pos h) - int (h_content h))"

subsection \<open>Reading known text\<close>

text \<open>\<open>text_at buf p s\<close>: the text \<open>s\<close> lies in the array from \<open>p\<close> on.\<close>

definition text_at :: "string \<Rightarrow> nat \<Rightarrow> string \<Rightarrow> bool" where
  "text_at buf p s \<longleftrightarrow> prefix s (drop p buf)"

lemma text_at_append: "text_at buf p (s @ t) \<longleftrightarrow> text_at buf p s \<and> text_at buf (p + length s) t"
proof -
  have "prefix (s @ t) L \<longleftrightarrow> prefix s L \<and> prefix t (drop (length s) L)" for L
    by (auto simp: prefix_def)
  then show ?thesis by (simp add: text_at_def add.commute)
qed

lemma text_at_Nil [simp]: "text_at buf p []"
  by (simp add: text_at_def)

lemma text_at_Cons [simp]: "text_at buf p (c # s) \<longleftrightarrow> rd buf p = Some c \<and> text_at buf (Suc p) s"
proof (cases "p < length buf")
  case True
  then show ?thesis by (auto simp: text_at_def rd_def Cons_nth_drop_Suc [symmetric])
next
  case False
  then show ?thesis by (simp add: text_at_def rd_def)
qed

lemma rd_Some: "rd buf p = Some c \<longleftrightarrow> p < length buf \<and> buf ! p = c"
  by (simp add: rd_def)

lemma strchr_at_text:
  "text_at buf p (s @ [c]) \<Longrightarrow> c \<notin> set s \<Longrightarrow> NUL \<notin> set s \<Longrightarrow>
   strchr_at buf p c = Some (Some (p + length s))"
proof (induction s arbitrary: p)
  case Nil
  then show ?case by (subst strchr_at.simps) (simp add: rd_Some)
next
  case (Cons x s)
  then have "strchr_at buf (Suc p) c = Some (Some (Suc p + length s))" by simp
  with Cons.prems show ?case by (subst strchr_at.simps) (auto simp: rd_Some)
qed

lemma skip_chars_text:
  "text_at buf p (s @ [c]) \<Longrightarrow> list_all P s \<Longrightarrow> \<not> P c \<Longrightarrow>
   skip_chars P buf p = Some (p + length s)"
proof (induction s arbitrary: p)
  case Nil
  then show ?case by (subst skip_chars.simps) (simp add: rd_Some)
next
  case (Cons x s)
  then have "skip_chars P buf (Suc p) = Some (Suc p + length s)" by simp
  with Cons.prems show ?case by (subst skip_chars.simps) (auto simp: rd_Some)
qed

definition url_end :: "char set" where
  "url_end = {CHR 0x22, CHR 0x27, NL, CHR '' '', CHR ''>'', CR, TAB}"

definition url_text :: "config \<Rightarrow> string \<Rightarrow> bool" where
  "url_text g u \<longleftrightarrow>
     list_all (\<lambda>c. c \<notin> url_end \<and> notCgiChar g c \<and> c \<noteq> CHR 0x5C \<and> c \<noteq> NUL) u"

lemma read_url_text:
  "text_at buf p (u @ [c]) \<Longrightarrow> url_text g u \<Longrightarrow> c \<in> url_end \<Longrightarrow> p + length u < e \<Longrightarrow>
   read_url g e buf p = Some (buf, p + length u)"
proof (induction u arbitrary: p)
  case Nil
  then show ?case by (subst read_url.simps) (auto simp: rd_Some url_end_def)
next
  case (Cons x u)
  then have "read_url g e buf (Suc p) = Some (buf, Suc p + length u)" by (simp add: url_text_def)
  with Cons.prems show ?case
    by (subst read_url.simps) (auto simp: rd_Some url_text_def url_end_def)
qed

lemma c_string_text:
  assumes "text_at buf p u" "NUL \<notin> set u" "p + length u < length buf"
  shows "c_string (buf[p + length u := NUL]) p = u"
proof -
  from assms(1) obtain r where r: "drop p buf = u @ r" by (auto simp: text_at_def prefix_def)
  have "drop p (buf[p + length u := NUL]) = (drop p buf)[length u := NUL]"
    by (simp add: drop_update_swap)
  moreover have "r \<noteq> []" using r assms(3) by (metis append_Nil2 length_drop less_diff_conv add.commute less_irrefl)
  ultimately show ?thesis
    using assms(2) r by (cases r) (auto simp: c_string_def takeWhile_append2 takeWhile_tail)
qed

subsection \<open>A link\<close>

abbreviation QUOTE :: char where "QUOTE \<equiv> CHR 0x22"

lemma parseContent_link:
  assumes t: "text_at (h_buf h) (h_parse h) (c # QUOTE # u @ [QUOTE])" and u: "url_text g u"
    and fits: "length u < maxUrlSize" "h_parse h + 2 + length u < h_pos h"
  shows "parseContent g LINK h w =
    do { nouv \<leftarrow> url_link u (u_depth (h_here h) - 1) (h_base h);
         w2 \<leftarrow> manageUrl g (h_here h) nouv False w;
         Some (h\<lparr>h_area := h_parse h + 2, h_parse := h_parse h + 3 + length u\<rparr>, w2) }"
proof -
  let ?b = "h_buf h" and ?p = "h_parse h"
  have t1: "rd ?b (Suc ?p) = Some QUOTE" "text_at ?b (?p + 2) (u @ [QUOTE])"
    using t by (simp_all add: numeral_2_eq_2)
  have s: "skip_chars (\<lambda>c. c = CHR '' '' \<or> c = CHR ''='') ?b (Suc ?p) = Some (Suc ?p)"
    using skip_chars_text [of ?b "Suc ?p" "[]" QUOTE] t1(1) by simp
  have r: "read_url g (min (?p + 2 + maxUrlSize) (h_pos h)) ?b (?p + 2) = Some (?b, ?p + 2 + length u)"
    using fits by (intro read_url_text [OF t1(2) u]) (simp_all add: url_end_def)
  have q: "?b ! (?p + 2 + length u) = QUOTE" "?p + 2 + length u < length ?b" "text_at ?b (?p + 2) u"
    using t1(2) by (auto simp: text_at_append rd_Some)
  have n: "NUL \<notin> set u" using u by (auto simp: url_text_def list_all_iff)
  have "?b[?p + 2 + length u := NUL, ?p + 2 + length u := QUOTE] = ?b"
    using q(1) by (metis list_update_id list_update_overwrite)
  then show ?thesis
    using s r q c_string_text [OF q(3) n q(2)] fits t1(1)
    by (simp add: parseContent_def notCgiChar_def numeral_2_eq_2 numeral_3_eq_3 Let_def)
qed

text \<open>From \<open>a href=\<close> on, with any four characters after it; the test of \<open>posParse[i]\<close> after
  \<open>posParse += i\<close> looks at the fourth of them.\<close>

lemma parseTag_href:
  assumes t: "text_at (h_buf h) (h_parse h) (''a href='' @ [x, y, z, v])"
  shows "parseTag g h w =
    (if v = CHR ''>'' \<or> v = NUL then Some (h\<lparr>h_parse := h_parse h + 6\<rparr>, w)
     else parseContent g LINK (h\<lparr>h_parse := h_parse h + 6\<rparr>) w)"
proof -
  let ?b = "h_buf h" and ?p = "h_parse h"
  have ne: "\<not> is_blank (CHR ''a'')" "\<not> is_blank (CHR ''h'')" "\<not> is_blank (CHR ''='')"
    "is_blank (CHR '' '')"
    by (simp_all add: is_blank_def NL_def CR_def TAB_def)
  have o: "or32 (CHR ''a'') = CHR ''a''" "or32 (CHR ''h'') = CHR ''h''" "or32 (CHR ''r'') = CHR ''r''"
    "or32 (CHR ''e'') = CHR ''e''" "or32 (CHR ''f'') = CHR ''f''" by code_simp+
  have s1: "skipSpace ?b ?p = Some ?p"
    using skip_chars_text [of ?b ?p "[]" "CHR ''a''" is_blank] t ne by (simp add: skipSpace_def)
  have s2: "skipSpace ?b (Suc ?p) = Some (?p + 2)"
    using skip_chars_text [of ?b "Suc ?p" "[CHR '' '']" "CHR ''h''" is_blank] t ne
    by (simp add: skipSpace_def)
  have s3: "skipSpace ?b (?p + 6) = Some (?p + 6)"
    using skip_chars_text [of ?b "?p + 6" "[]" "CHR ''=''" is_blank] t ne
    by (simp add: skipSpace_def numeral_eq_Suc)
  have r: "read_tag g ?b ?p = Some (Some (''href'', LINK, 1))"
    using t o by (simp add: read_tag_def)
  have m: "match_param ?b (?p + 2) ''href'' = Some 4"
    using t o by (simp add: numeral_eq_Suc)
  have c: "rd ?b (?p + 10) = Some v" using t by (simp add: numeral_eq_Suc)
  have "param_loop g ''href'' LINK (h\<lparr>h_parse := ?p + 2\<rparr>) w =
      (if v = CHR ''>'' \<or> v = NUL then Some (h\<lparr>h_parse := ?p + 6\<rparr>, w)
       else parseContent g LINK (h\<lparr>h_parse := ?p + 6\<rparr>) w)"
    using m by (subst param_loop.simps) (simp add: s3 c add.commute [of _ "?p"] del: match_param.simps)
  then show ?thesis using s1 s2 r by (simp add: parseTag_def)
qed

lemma parseHtml_tag:
  assumes t: "text_at (h_buf h) (h_parse h) (pre @ ''<a href='' @ [x, y, z, v])"
    and pre: "CHR ''<'' \<notin> set pre" "NUL \<notin> set pre"
  shows "parseHtml g h w =
    (if v = CHR ''>'' \<or> v = NUL then parseHtml g (h\<lparr>h_parse := h_parse h + length pre + 7\<rparr>) w
     else do { (h1, w1) \<leftarrow> parseContent g LINK (h\<lparr>h_parse := h_parse h + length pre + 7\<rparr>) w;
               parseHtml g h1 w1 })"
proof -
  let ?b = "h_buf h" and ?a = "h_parse h + length pre"
  have s: "strchr_at ?b (h_parse h) (CHR ''<'') = Some (Some ?a)"
    using t by (intro strchr_at_text [OF _ pre]) (simp add: text_at_append)
  have tag: "text_at ?b (Suc ?a) (''a href='' @ [x, y, z, v])"
    using t by (simp add: text_at_append)
  then have c: "rd ?b (Suc ?a) = Some (CHR ''a'')" by simp
  have e: "Suc ?a + 6 = ?a + 7" by simp
  have "parseTag g (h\<lparr>h_parse := Suc ?a\<rparr>) w =
    (if v = CHR ''>'' \<or> v = NUL then Some (h\<lparr>h_parse := ?a + 7\<rparr>, w)
     else parseContent g LINK (h\<lparr>h_parse := ?a + 7\<rparr>) w)"
    using parseTag_href [of "h\<lparr>h_parse := Suc ?a\<rparr>" x y z v g w] tag unfolding e [symmetric] by simp
  with s c show ?thesis by (subst parseHtml.simps) simp
qed

text \<open>C25: A link is found wherever it stands in a page: for \<open><a href="u">\<close>, \<open>u\<close> of at least two
  characters none of which ends a url, the scanner builds the url from \<open>u\<close> and the base of the
  page, one less deep, hands it to \<open>manageUrl\<close>, and goes on after the closing quote with the
  buffer as it was.\<close>

theorem parseHtml_link:
  assumes t: "text_at (h_buf h) (h_parse h) (pre @ ''<a href='' @ QUOTE # u @ [QUOTE])"
    and pre: "CHR ''<'' \<notin> set pre" "NUL \<notin> set pre"
    and u: "url_text g u" "2 \<le> length u" "length u < maxUrlSize"
    and fits: "h_parse h + length pre + 9 + length u < h_pos h"
  shows "parseHtml g h w =
    do { nouv \<leftarrow> url_link u (u_depth (h_here h) - 1) (h_base h);
         w2 \<leftarrow> manageUrl g (h_here h) nouv False w;
         parseHtml g (h\<lparr>h_area := h_parse h + length pre + 9,
                        h_parse := h_parse h + length pre + 10 + length u\<rparr>) w2 }"
proof -
  obtain y z r where q: "u = y # z # r" using u(2) by (cases u; cases "tl u") auto
  obtain v where v: "text_at (h_buf h) (h_parse h) (pre @ ''<a href='' @ [QUOTE, y, z, v])"
    "v \<noteq> CHR ''>''" "v \<noteq> NUL"
  proof (cases r)
    case Nil
    then have "text_at (h_buf h) (h_parse h) (pre @ ''<a href='' @ [QUOTE, y, z, QUOTE])"
      using t q by simp
    then show ?thesis using that by (simp add: NUL_def)
  next
    case (Cons v r')
    have "text_at (h_buf h) (h_parse h) ((pre @ ''<a href='' @ [QUOTE, y, z, v]) @ r' @ [QUOTE])"
      using t q Cons by simp
    then have "text_at (h_buf h) (h_parse h) (pre @ ''<a href='' @ [QUOTE, y, z, v])"
      unfolding text_at_append by blast
    moreover have "v \<noteq> CHR ''>''" "v \<noteq> NUL" using u(1) q Cons by (auto simp: url_text_def url_end_def)
    ultimately show ?thesis using that by blast
  qed
  let ?h = "h\<lparr>h_parse := h_parse h + length pre + 7\<rparr>"
  have "text_at (h_buf h) (h_parse h + length pre + 7) (CHR ''='' # QUOTE # u @ [QUOTE])"
  proof -
    have "text_at (h_buf h) (h_parse h) ((pre @ ''<a href'') @ CHR ''='' # QUOTE # u @ [QUOTE])"
      using t by simp
    then show ?thesis unfolding text_at_append [of _ _ "pre @ ''<a href''"] by (simp add: numeral_eq_Suc)
  qed
  then have "parseContent g LINK ?h w =
    do { nouv \<leftarrow> url_link u (u_depth (h_here ?h) - 1) (h_base ?h);
         w2 \<leftarrow> manageUrl g (h_here ?h) nouv False w;
         Some (?h\<lparr>h_area := h_parse ?h + 2, h_parse := h_parse ?h + 3 + length u\<rparr>, w2) }"
    using u fits by (intro parseContent_link) simp_all
  then show ?thesis
    using parseHtml_tag [OF v(1) pre, of g w] v(2,3)
    by (simp add: Option.bind_assoc add.assoc add.left_commute add.commute split: bind_splits)
qed

definition link_page :: html_state where
  "link_page = \<lparr>h_here = url_init 5, h_base = None, h_phase = HTML,
     h_buf = ''go <a href='' @ QUOTE # ''http://b.org/'' @ QUOTE # ''> <a href='' @ QUOTE # ''x'' @ QUOTE # ''> '' @ [NUL],
     h_pos = 43, h_parse = 0, h_area = 0, h_content = 0, h_interesting = False, h_extIndex = 0,
     h_nbSpec = 0, h_spec = []\<rparr>"

theorem parseHtml_link_witness:
  "\<forall>w. parseHtml default_config link_page w =
    do { nouv \<leftarrow> url_link ''http://b.org/'' 4 None;
         w2 \<leftarrow> manageUrl default_config (url_init 5) nouv False w;
         parseHtml default_config (link_page\<lparr>h_area := 12, h_parse := 26\<rparr>) w2 }"
proof
  fix w
  show "parseHtml default_config link_page w =
    do { nouv \<leftarrow> url_link ''http://b.org/'' 4 None;
         w2 \<leftarrow> manageUrl default_config (url_init 5) nouv False w;
         parseHtml default_config (link_page\<lparr>h_area := 12, h_parse := 26\<rparr>) w2 }"
    using parseHtml_link [of link_page "''go ''" "''http://b.org/''" default_config w]
    by (simp add: link_page_def text_at_def url_text_def url_end_def notCgiChar_def default_config_def url_init_def
        maxUrlSize_def NUL_def NL_def CR_def TAB_def)
qed

text \<open>A link of one character is lost: when the parameter has been found, the end of the tag is
  looked for four characters too far, and there it is.\<close>

theorem parseHtml_short_link:
  assumes "text_at (h_buf h) (h_parse h) (pre @ ''<a href='' @ [QUOTE, c, QUOTE, CHR ''>''])"
    and "CHR ''<'' \<notin> set pre" "NUL \<notin> set pre"
  shows "parseHtml g h w = parseHtml g (h\<lparr>h_parse := h_parse h + length pre + 7\<rparr>) w"
  using parseHtml_tag [OF assms, of g w] by simp

theorem parseHtml_short_link_witness:
  "\<forall>w. parseHtml default_config (link_page\<lparr>h_parse := 26\<rparr>) w =
     parseHtml default_config (link_page\<lparr>h_parse := 35\<rparr>) w"
proof
  fix w
  show "parseHtml default_config (link_page\<lparr>h_parse := 26\<rparr>) w =
     parseHtml default_config (link_page\<lparr>h_parse := 35\<rparr>) w"
    using parseHtml_short_link [of "link_page\<lparr>h_parse := 26\<rparr>" "''> ''" "CHR ''x''" default_config w]
    by (simp add: link_page_def text_at_def NUL_def)
qed

subsection \<open>Headers in pieces\<close>

text \<open>\<open>read(fd, buf + pos, n)\<close> in \<open>pipeRead\<close> puts the bytes that have come into the array.\<close>

definition overwrite :: "string \<Rightarrow> nat \<Rightarrow> string \<Rightarrow> string" where
  "overwrite buf p d = take p buf @ d @ drop (p + length d) buf"

definition html_receive ::
    "config \<Rightarrow> string \<Rightarrow> html_state \<Rightarrow> world \<Rightarrow> (FetchError option \<times> html_state \<times> world) option" where
  "html_receive g d h w =
     html_inputHeaders g (length d) (h\<lparr>h_buf := overwrite (h_buf h) (h_pos h) d\<rparr>) w"

text \<open>The same state with more of the answer received.\<close>

definition more :: "nat \<Rightarrow> string \<Rightarrow> html_state \<Rightarrow> html_state" where
  "more p d h = h\<lparr>h_buf := (overwrite (h_buf h) p d)[p + length d := NUL], h_pos := p + length d\<rparr>"

lemma length_overwrite: "p + length d \<le> length b \<Longrightarrow> length (overwrite b p d) = length b"
  by (simp add: overwrite_def)

lemma nth_overwrite: "i < p \<Longrightarrow> p \<le> length b \<Longrightarrow> overwrite b p d ! i = b ! i"
  by (simp add: overwrite_def nth_append)

lemma overwrite_update:
  "i < p \<Longrightarrow> p \<le> length b \<Longrightarrow> overwrite (b[i := x]) p d = (overwrite b p d)[i := x]"
  by (simp add: overwrite_def take_update_swap list_update_append)

lemma more_simps [simp]:
  "h_here (more p d h) = h_here h" "h_base (more p d h) = h_base h" "h_phase (more p d h) = h_phase h"
  "h_parse (more p d h) = h_parse h" "h_area (more p d h) = h_area h"
  "h_interesting (more p d h) = h_interesting h" "h_pos (more p d h) = p + length d"
  by (simp_all add: more_def)

lemma nth_more: "i < p \<Longrightarrow> p \<le> length (h_buf h) \<Longrightarrow> h_buf (more p d h) ! i = h_buf h ! i"
  by (simp add: more_def nth_overwrite)

lemma strchr_at_iff:
  "strchr_at b i c = Some (Some q) \<longleftrightarrow>
   i \<le> q \<and> q < length b \<and> b ! q = c \<and> (\<forall>j. i \<le> j \<longrightarrow> j < q \<longrightarrow> b ! j \<noteq> c \<and> b ! j \<noteq> NUL)"
proof (induction b i c rule: strchr_at.induct)
  case (1 b i c)
  show ?case
  proof (cases "i < length b \<and> b ! i \<noteq> c \<and> b ! i \<noteq> NUL")
    case True
    then have "strchr_at b i c = strchr_at b (i + 1) c" by (subst strchr_at.simps) simp
    also have "strchr_at b (i + 1) c = Some (Some q) \<longleftrightarrow> i + 1 \<le> q \<and> q < length b \<and> b ! q = c \<and>
        (\<forall>j. i + 1 \<le> j \<longrightarrow> j < q \<longrightarrow> b ! j \<noteq> c \<and> b ! j \<noteq> NUL)"
      using 1 True by simp
    finally show ?thesis using True by (metis Suc_eq_plus1 Suc_leD Suc_leI le_less_Suc_eq not_less)
  next
    case False
    then show ?thesis by (subst strchr_at.simps) (auto simp: le_less)
  qed
qed

text \<open>The text of a line, up to its newline and whatever follows.\<close>

lemma line_text:
  assumes "strchr_at b a NL = Some (Some q)"
  obtains l where "length l = q - a" "NL \<notin> set l" "NUL \<notin> set l"
    "\<And>b'. (\<forall>j \<le> q. b' ! j = b ! j) \<Longrightarrow> q < length b' \<Longrightarrow> \<exists>x. c_string b' a = l @ NL # x"
    "\<And>b'. (\<forall>j < q. b' ! j = b ! j) \<Longrightarrow> q < length b' \<Longrightarrow> b' ! q = NUL \<Longrightarrow> c_string b' a = l"
proof
  let ?l = "take (q - a) (drop a b)"
  note q = assms [unfolded strchr_at_iff]
  have nth: "?l ! j = b ! (a + j)" if "j < q - a" for j using that q by simp
  show len: "length ?l = q - a" using q by auto
  show "NL \<notin> set ?l" "NUL \<notin> set ?l"
    using q len nth by (auto simp: in_set_conv_nth)
  have split: "drop a b' = ?l @ drop q b'" if "\<forall>j < q. b' ! j = b ! j" "q < length b'" for b'
  proof -
    have "take (q - a) (drop a b') = ?l" using that q by (intro nth_equalityI) auto
    then show ?thesis using q by (metis append_take_drop_id drop_drop le_add_diff_inverse2)
  qed
  have nul: "\<forall>x \<in> set ?l. x \<noteq> NUL" using \<open>NUL \<notin> set ?l\<close> by metis
  show "\<exists>x. c_string b' a = ?l @ NL # x" if "\<forall>j \<le> q. b' ! j = b ! j" "q < length b'" for b'
    using split [of b'] that q nul
    by (simp add: c_string_def Cons_nth_drop_Suc [symmetric] takeWhile_append2 NL_def NUL_def)
  show "c_string b' a = ?l" if "\<forall>j < q. b' ! j = b ! j" "q < length b'" "b' ! q = NUL" for b'
    using split [OF that(1,2)] that nul
    by (simp add: c_string_def Cons_nth_drop_Suc [symmetric] takeWhile_append2)
qed

text \<open>A comparison with a prefix does not look behind a newline, which the source folds to a star.\<close>

lemma startWith_line:
  "CHR ''*'' \<notin> set pat \<Longrightarrow>
   startWithIgnoreCase pat (l @ NL # x) = startWithIgnoreCase pat (l @ NL # y)"
proof (induction pat "l @ NL # x" arbitrary: l rule: startWithIgnoreCase.induct)
  case (3 c pat d b)
  have nl: "or32 NL = CHR ''*''" by code_simp
  show ?case
  proof (cases l)
    case Nil
    then show ?thesis using 3 nl by auto
  next
    case (Cons e l')
    then show ?thesis using 3 by simp
  qed
qed auto

lemma startWith_line_length:
  "startWithIgnoreCase pat (l @ NL # x) = Some True \<Longrightarrow> CHR ''*'' \<notin> set pat \<Longrightarrow> length pat \<le> length l"
proof (induction pat "l @ NL # x" arbitrary: l rule: startWithIgnoreCase.induct)
  case (3 c pat d b)
  have nl: "or32 NL = CHR ''*''" by code_simp
  show ?case
  proof (cases l)
    case Nil
    then show ?thesis using 3 nl by (auto split: if_splits)
  next
    case (Cons e l')
    then show ?thesis using 3 by (auto split: if_splits)
  qed
qed auto

lemma length_value_line: "length_value (l @ NL # x) = length_value (l @ NL # y)"
proof -
  have "takeWhile is_digit (l @ NL # x) = takeWhile is_digit (l @ NL # y)"
    by (induction l) (simp_all add: is_digit_def NL_def)
  then show ?thesis by (simp add: length_value_def)
qed

definition in_headers :: "nat \<Rightarrow> html_state \<Rightarrow> bool" where
  "in_headers p h \<longleftrightarrow>
     h_pos h = p \<and> p < length (h_buf h) \<and> h_buf h ! p = NUL \<and> h_phase h \<noteq> SPECIFIC \<and>
     (h_phase h = HEADERS \<or> h_phase h = HEADERS30X \<longrightarrow> h_area h = h_parse h)"

text \<open>What is known of a line that ends at \<open>q\<close> in both arrays.\<close>

lemma line_more:
  assumes h: "in_headers p h" "h_parse h < p" and d: "p + length d < length (h_buf h)"
    and q: "strchr_at (h_buf h) (h_parse h) NL = Some (Some q)"
  shows "q < p" "strchr_at (h_buf (more p d h)) (h_parse h) NL = Some (Some q)"
    "q < length (h_buf (more p d h))" "\<forall>j \<le> q. h_buf (more p d h) ! j = h_buf h ! j"
proof -
  note q' = q [unfolded strchr_at_iff]
  have "p < length (h_buf h)" "h_buf h ! p = NUL" using h by (simp_all add: in_headers_def)
  moreover have "NUL \<noteq> NL" by (simp add: NL_def NUL_def)
  ultimately have "\<not> p < q" "p \<noteq> q" using q' h(2) by auto
  then show "q < p" by simp
  then show e: "\<forall>j \<le> q. h_buf (more p d h) ! j = h_buf h ! j"
    using d by (auto intro: nth_more)
  show len: "q < length (h_buf (more p d h))"
    using q' d by (simp add: more_def length_overwrite)
  then show "strchr_at (h_buf (more p d h)) (h_parse h) NL = Some (Some q)"
    using q' e by (auto simp: strchr_at_iff)
qed

lemma more_update:
  assumes "i < p" "p \<le> length (h_buf h)"
  shows "more p d (h\<lparr>h_buf := (h_buf h)[i := x]\<rparr>) = (more p d h)\<lparr>h_buf := (h_buf (more p d h))[i := x]\<rparr>"
  using assms by (simp add: more_def overwrite_update list_update_swap)

lemma more_fields:
  "more p d (h\<lparr>h_parse := q\<rparr>) = (more p d h)\<lparr>h_parse := q\<rparr>"
  "more p d (h\<lparr>h_phase := ph\<rparr>) = (more p d h)\<lparr>h_phase := ph\<rparr>"
  "more p d (next_line q h) = next_line q (more p d h)"
  by (simp_all add: more_def next_line_def)

lemma parseCmdline_more:
  assumes "parseCmdline (h\<lparr>h_parse := q\<rparr>) = (None, h')" "q < p" "p \<le> length (h_buf h)"
  shows "parseCmdline (more p d (h\<lparr>h_parse := q\<rparr>)) = (None, more p d h')"
    "h_buf h' = h_buf h" "h_pos h' = h_pos h" "h_phase h' = HEADERS \<or> h_phase h' = HEADERS30X"
  using assms nth_more [of 9 p "h\<lparr>h_parse := q\<rparr>" d]
  by (auto simp: parseCmdline_def more_fields split: if_splits)

lemma verif_more:
  assumes l: "c_string (h_buf h) (h_area h) = l @ NL # x" "c_string (h_buf k) (h_area k) = l @ NL # y"
  shows "\<not> g_specificSearch g \<Longrightarrow> verifType g k w = (fst (verifType g h w), k, w) \<and>
      verifType g h w = (fst (verifType g h w), h, w)"
    "verifLength g k = verifLength g h"
proof -
  have st: "CHR ''*'' \<notin> set content_type" "CHR ''*'' \<notin> set content_length"
    "length content_type = 14" "length content_length = 16"
    by (simp_all add: content_type_def content_length_def)
  have e: "startWithIgnoreCase content_type (l @ NL # x) = startWithIgnoreCase content_type (l @ NL # y)"
    "startWithIgnoreCase content_length (l @ NL # x) = startWithIgnoreCase content_length (l @ NL # y)"
    using st startWith_line by blast+
  show "verifLength g k = verifLength g h"
  proof (cases "startWithIgnoreCase content_length (l @ NL # x) = Some True")
    case True
    then have "16 \<le> length l" using startWith_line_length st by metis
    then have "drop 16 (l @ NL # z) = drop 16 l @ NL # z" for z by simp
    then show ?thesis
      using l e length_value_line [of "drop 16 l" x y] by (simp add: verifLength_def Let_def)
  next
    case False
    then show ?thesis using l e by (simp add: verifLength_def Let_def)
  qed
  assume ns: "\<not> g_specificSearch g"
  show "verifType g k w = (fst (verifType g h w), k, w) \<and> verifType g h w = (fst (verifType g h w), h, w)"
  proof (cases "startWithIgnoreCase content_type (l @ NL # x) = Some True")
    case True
    then have "14 \<le> length l" using startWith_line_length st by metis
    then have "drop 14 (l @ NL # z) = drop 14 l @ NL # z" for z by simp
    moreover have "startWithIgnoreCase ''text/html'' (drop 14 l @ NL # x) = startWithIgnoreCase ''text/html'' (drop 14 l @ NL # y)"
      "startWithIgnoreCase ''image'' (drop 14 l @ NL # x) = startWithIgnoreCase ''image'' (drop 14 l @ NL # y)"
      by (rule startWith_line; simp)+
    ultimately show ?thesis using l e ns by (simp add: verifType_def Let_def)
  next
    case False
    then show ?thesis using l e ns by (simp add: verifType_def Let_def)
  qed
qed

lemma in_headersD:
  "in_headers p h \<Longrightarrow> p < length (h_buf h)" "in_headers p h \<Longrightarrow> h_buf h ! p = NUL"
  "in_headers p h \<Longrightarrow> h_pos h = p"
  by (simp_all add: in_headers_def)

lemma parseHeader_more:
  assumes h: "in_headers p h" "h_parse h < p" "h_phase h = HEADERS" and d: "p + length d < length (h_buf h)"
    and ns: "\<not> g_specificSearch g"
    and q: "strchr_at (h_buf h) (h_parse h) NL = Some (Some q)"
    and r: "parseHeader g (h\<lparr>h_parse := q\<rparr>) w = (None, h', w')"
  shows "parseHeader g (more p d (h\<lparr>h_parse := q\<rparr>)) w = (None, more p d h', w')"
    "in_headers p (next_line q h')" "length (h_buf h') = length (h_buf h)"
proof -
  note l = line_more [OF h(1,2) d q]
  have area: "h_area h = h_parse h" using h by (simp add: in_headers_def)
  have pos: "p < length (h_buf h)" "h_buf h ! p = NUL" "h_pos h = p"
    using h(1) by (simp_all add: in_headersD)
  have "parseHeader g (more p d (h\<lparr>h_parse := q\<rparr>)) w = (None, more p d h', w') \<and>
    in_headers p (next_line q h') \<and> length (h_buf h') = length (h_buf h)"
  proof (cases "q - h_area h < 2")
    case True
    then have h': "h' = (h\<lparr>h_parse := q, h_phase := HTML, h_content := q + 1\<rparr>)\<lparr>h_buf := (h_buf h)[q - 1 := NUL]\<rparr>"
      "w' = w" using r ns by (simp_all add: parseHeader_def Let_def)
    have "q - 1 < p" using l(1) by simp
    note u = more_update [OF this, of "h\<lparr>h_parse := q, h_phase := HTML, h_content := q + 1\<rparr>" d NUL]
    have e: "h_buf (more p d (h\<lparr>h_parse := q, h_phase := HTML, h_content := q + 1\<rparr>)) = h_buf (more p d h)"
      by (simp add: more_def)
    have "parseHeader g (more p d (h\<lparr>h_parse := q\<rparr>)) w =
        (None, (more p d (h\<lparr>h_parse := q, h_phase := HTML, h_content := q + 1\<rparr>))
           \<lparr>h_buf := (h_buf (more p d h))[q - 1 := NUL]\<rparr>, w)"
      using True ns by (simp add: parseHeader_def Let_def) (simp add: more_def)
    also have "\<dots> = (None, more p d h', w')"
      unfolding h' using u pos(1) e by simp
    finally have "parseHeader g (more p d (h\<lparr>h_parse := q\<rparr>)) w = (None, more p d h', w')" .
    moreover have "in_headers p (next_line q h')"
      unfolding h' using l(1) pos by (simp add: in_headers_def next_line_def)
    ultimately show ?thesis using h' by simp
  next
    case False
    obtain t where t: "\<And>b'. (\<forall>j \<le> q. b' ! j = h_buf h ! j) \<Longrightarrow> q < length b' \<Longrightarrow> \<exists>x. c_string b' (h_parse h) = t @ NL # x"
      "\<And>b'. (\<forall>j < q. b' ! j = h_buf h ! j) \<Longrightarrow> q < length b' \<Longrightarrow> b' ! q = NUL \<Longrightarrow> c_string b' (h_parse h) = t"
      by (rule line_text [OF q]) (rule that; simp)
    have nlq: "h_buf h ! q = NL" "q < length (h_buf h)" using q by (simp_all add: strchr_at_iff)
    let ?k = "more p d h"
    have nlk: "(h_buf ?k)[q := NL] = h_buf ?k" "(h_buf h)[q := NL] = h_buf h"
      using nlq l(3,4) by (metis list_update_id order_refl)+
    have t0: "c_string ((h_buf h)[q := NUL]) (h_parse h) = t" "c_string ((h_buf ?k)[q := NUL]) (h_parse h) = t"
      using nlq l(3,4) by (auto intro!: t(2))
    obtain x where x: "c_string (h_buf h) (h_parse h) = t @ NL # x" using t(1) [of "h_buf h"] nlq by auto
    obtain y where y: "c_string (h_buf ?k) (h_parse h) = t @ NL # y" using t(1) [of "h_buf ?k"] l(3,4) by auto
    let ?here = "if g_useCookies g then addCookie t (h_here h) else h_here h"
    let ?h1 = "h\<lparr>h_parse := q, h_here := ?here\<rparr>" and ?k1 = "?k\<lparr>h_parse := q, h_here := ?here\<rparr>"
    have c: "c_string (h_buf ?h1) (h_area ?h1) = t @ NL # x" "c_string (h_buf ?k1) (h_area ?k1) = t @ NL # y"
      using x y area by simp_all
    note v = verif_more(1) [OF c ns, of w] verif_more(2) [OF c, of g]
    have p1: "parseHeader g (h\<lparr>h_parse := q\<rparr>) w =
        (case verifType g ?h1 w of (Some e, h2, w2) \<Rightarrow> (Some e, h2, w2)
         | (None, h2, w2) \<Rightarrow> (verifLength g h2, h2, w2))"
      using False t0 nlk area by (simp add: parseHeader_def Let_def)
    have p2: "parseHeader g (more p d (h\<lparr>h_parse := q\<rparr>)) w =
        (case verifType g ?k1 w of (Some e, h2, w2) \<Rightarrow> (Some e, h2, w2)
         | (None, h2, w2) \<Rightarrow> (verifLength g h2, h2, w2))"
      using False t0 nlk area by (simp add: parseHeader_def Let_def more_fields)
    have ok: "verifType g ?h1 w = (None, ?h1, w)" "verifLength g ?h1 = None" "h' = ?h1" "w' = w"
      using r v unfolding p1 by (auto split: prod.splits option.splits)
    then have "verifType g ?k1 w = (None, ?k1, w)" "verifLength g ?k1 = None" using v by simp_all
    then have "parseHeader g (more p d (h\<lparr>h_parse := q\<rparr>)) w = (None, more p d h', w')"
      unfolding p2 ok(3,4) by (simp add: more_def)
    moreover have "in_headers p (next_line q h')"
      unfolding ok(3) using h pos by (simp add: in_headers_def next_line_def)
    ultimately show ?thesis using ok(3) by simp
  qed
  then show "parseHeader g (more p d (h\<lparr>h_parse := q\<rparr>)) w = (None, more p d h', w')"
    "in_headers p (next_line q h')" "length (h_buf h') = length (h_buf h)" by simp_all
qed

lemma parseHeader30X_more:
  assumes h: "in_headers p h" "h_parse h < p" "h_phase h = HEADERS30X" and d: "p + length d < length (h_buf h)"
    and q: "strchr_at (h_buf h) (h_parse h) NL = Some (Some q)"
    and r: "parseHeader30X g (h\<lparr>h_parse := q\<rparr>) w = Some (None, h', w')"
  shows "parseHeader30X g (more p d (h\<lparr>h_parse := q\<rparr>)) w = Some (None, more p d h', w')"
    "h' = h\<lparr>h_parse := q\<rparr>"
proof -
  note l = line_more [OF h(1,2) d q]
  have area: "h_area h = h_parse h" using h by (simp add: in_headers_def)
  obtain t where t: "\<And>b'. (\<forall>j \<le> q. b' ! j = h_buf h ! j) \<Longrightarrow> q < length b' \<Longrightarrow> \<exists>x. c_string b' (h_parse h) = t @ NL # x"
    by (rule line_text [OF q]) blast
  have nlq: "q < length (h_buf h)" using q by (simp add: strchr_at_iff)
  obtain x where x: "c_string (h_buf h) (h_parse h) = t @ NL # x" using t [of "h_buf h"] nlq by auto
  obtain y where y: "c_string (h_buf (more p d h)) (h_parse h) = t @ NL # y"
    using t [of "h_buf (more p d h)"] l(3,4) by auto
  have e: "startWithIgnoreCase ''location: '' (t @ NL # x) = startWithIgnoreCase ''location: '' (t @ NL # y)"
    by (rule startWith_line) simp
  have n: "\<not> q - h_area h < 2" "startWithIgnoreCase ''location: '' (t @ NL # x) \<noteq> Some True"
    "h' = h\<lparr>h_parse := q\<rparr>" "w' = w"
    using r x area by (auto simp: parseHeader30X_def split: if_splits bind_splits)
  then show "h' = h\<lparr>h_parse := q\<rparr>" by simp
  show "parseHeader30X g (more p d (h\<lparr>h_parse := q\<rparr>)) w = Some (None, more p d h', w')"
    using n e y area by (simp add: parseHeader30X_def more_fields)
qed

lemma header_line_more:
  assumes h: "in_headers p h" "h_parse h < p" "h_phase h \<noteq> HTML" and d: "p + length d < length (h_buf h)"
    and ns: "\<not> g_specificSearch g"
    and q: "strchr_at (h_buf h) (h_parse h) NL = Some (Some q)"
    and r: "header_line g (h\<lparr>h_parse := q\<rparr>) w = Some (None, h', w')"
  shows "header_line g (more p d (h\<lparr>h_parse := q\<rparr>)) w = Some (None, more p d h', w') \<and>
    in_headers p (next_line q h') \<and> length (h_buf h') = length (h_buf h)"
proof -
  note l = line_more [OF h(1,2) d q]
  have pos: "p < length (h_buf h)" "h_buf h ! p = NUL" "h_pos h = p"
    using h(1) by (simp_all add: in_headersD)
  consider "h_phase h = ANSWER" | "h_phase h = HEADERS" | "h_phase h = HEADERS30X"
    using h by (cases "h_phase h") (auto simp: in_headers_def)
  then show ?thesis
  proof cases
    case 1
    then have c: "parseCmdline (h\<lparr>h_parse := q\<rparr>) = (None, h')" "w' = w"
      using r by (simp_all add: header_line_def split: prod.splits)
    have "p \<le> length (h_buf h)" using pos(1) by simp
    note m = parseCmdline_more [OF c(1) l(1) this]
    then show ?thesis
      using 1 c(2) pos by (auto simp: header_line_def in_headers_def next_line_def)
  next
    case 2
    then have c: "parseHeader g (h\<lparr>h_parse := q\<rparr>) w = (None, h', w')"
      using r by (simp add: header_line_def)
    show ?thesis
      using parseHeader_more [OF h(1,2) 2 d ns q c] 2 by (simp add: header_line_def)
  next
    case 3
    then have c: "parseHeader30X g (h\<lparr>h_parse := q\<rparr>) w = Some (None, h', w')"
      using r by (simp add: header_line_def)
    show ?thesis
      using parseHeader30X_more [OF h(1,2) 3 d q c] 3 pos
      by (simp add: header_line_def in_headers_def next_line_def)
  qed
qed

lemma headers_loop_more:
  assumes "headers_loop g h w = Some r"
  shows "fst r = None \<longrightarrow> in_headers p h \<longrightarrow> p + length d < length (h_buf h) \<longrightarrow> \<not> g_specificSearch g \<longrightarrow>
    h_pos (fst (snd r)) = p \<and> length (h_buf (fst (snd r))) = length (h_buf h) \<and>
    headers_loop g (more p d h) w = headers_loop g (more p d (fst (snd r))) (snd (snd r))"
  using assms
proof (rule headers_loop.raw_induct [where P = "\<lambda>g h w r. fst r = None \<longrightarrow> in_headers p h \<longrightarrow>
    p + length d < length (h_buf h) \<longrightarrow> \<not> g_specificSearch g \<longrightarrow>
    h_pos (fst (snd r)) = p \<and> length (h_buf (fst (snd r))) = length (h_buf h) \<and>
    headers_loop g (more p d h) w = headers_loop g (more p d (fst (snd r))) (snd (snd r))", rotated], goal_cases)
  case (1 self g h w r)
  note IH = 1(1) and step = 1(2)
  show ?case
  proof (intro impI)
    assume a: "fst r = None" "in_headers p h" "p + length d < length (h_buf h)" "\<not> g_specificSearch g"
    have pos: "h_pos h = p" using a(2) by (simp add: in_headersD)
    consider "r = (None, h, w)" | (line) q h1 w1 where "h_parse h < p" "h_phase h \<noteq> HTML"
        "strchr_at (h_buf h) (h_parse h) NL = Some (Some q)"
        "header_line g (h\<lparr>h_parse := q\<rparr>) w = Some (None, h1, w1)" "self g (next_line q h1) w1 = Some r"
      using step a pos by (cases "h_phase h"; auto split: if_splits option.splits bind_splits simp: in_headers_def)
    then show "h_pos (fst (snd r)) = p \<and> length (h_buf (fst (snd r))) = length (h_buf h) \<and>
        headers_loop g (more p d h) w = headers_loop g (more p d (fst (snd r))) (snd (snd r))"
    proof cases
      case 1
      then show ?thesis using pos by simp
    next
      case line
      note m = header_line_more [OF a(2) line(1,2) a(3,4) line(3,4)]
      note l = line_more [OF a(2) line(1) a(3) line(3)]
      have "h_buf (next_line q h1) = h_buf h1" by (simp add: next_line_def)
      then have "h_pos (fst (snd r)) = p \<and> length (h_buf (fst (snd r))) = length (h_buf h) \<and>
        headers_loop g (more p d (next_line q h1)) w1 = headers_loop g (more p d (fst (snd r))) (snd (snd r))"
        using IH [OF line(5)] a m by simp
      moreover have "headers_loop g (more p d h) w = headers_loop g (more p d (next_line q h1)) w1"
        using m l line(1,2) a(2)
        by (subst headers_loop.simps) (auto simp: more_fields in_headers_def split: html_phase.splits)
      ultimately show ?thesis by simp
    qed
  qed
qed

lemma html_receive_more: "html_receive g d h w = headers_loop g (more (h_pos h) d h) w"
proof -
  have "h\<lparr>h_pos := h_pos h + length d,
      h_buf := (overwrite (h_buf h) (h_pos h) d)[h_pos h + length d := NUL]\<rparr> = more (h_pos h) d h"
    by (simp add: more_def)
  then show ?thesis by (simp add: html_receive_def html_inputHeaders_def Let_def)
qed

lemma more_more:
  assumes "p + length d + length e < length (h_buf h)"
  shows "more (p + length d) e (more p d h) = more p (d @ e) h"
proof (cases "e = []")
  case True
  have "overwrite b q [] = b" for b q by (simp add: overwrite_def)
  with True show ?thesis by (simp add: more_def)
next
  case False
  have "(overwrite (h_buf h) p d)[p + length d := NUL] = take p (h_buf h) @ d @ (drop (p + length d) (h_buf h))[0 := NUL]"
    using assms by (simp add: overwrite_def list_update_append)
  then have "overwrite ((overwrite (h_buf h) p d)[p + length d := NUL]) (p + length d) e = overwrite (h_buf h) p (d @ e)"
    using assms False by (simp add: overwrite_def drop_update_cancel add.assoc add.commute add.left_commute)
  then show ?thesis by (simp add: more_def add.assoc)
qed

text \<open>C18: How the answer is cut into pieces does not matter: as long as the headers go on (no error), to
  receive \<open>d1\<close> and then \<open>d2\<close> is to receive \<open>d1 @ d2\<close> at once.\<close>

theorem html_receive_pieces:
  assumes "html_receive g d1 h w = Some (None, h1, w1)" "h_pos h + length d1 + length d2 < length (h_buf h)"
    "h_phase h \<noteq> SPECIFIC" "h_phase h = HEADERS \<or> h_phase h = HEADERS30X \<longrightarrow> h_area h = h_parse h"
    "\<not> g_specificSearch g"
  shows "html_receive g d2 h1 w1 = html_receive g (d1 @ d2) h w"
proof -
  let ?s = "more (h_pos h) d1 h" and ?p = "h_pos h + length d1"
  have "in_headers ?p ?s"
    using assms by (simp add: in_headers_def) (simp add: more_def length_overwrite)
  moreover have "?p + length d2 < length (h_buf ?s)"
    using assms by (simp add: more_def length_overwrite)
  ultimately have "h_pos h1 = ?p \<and>
      headers_loop g (more ?p d2 ?s) w = headers_loop g (more ?p d2 h1) w1"
    using headers_loop_more [of g ?s w "(None, h1, w1)" ?p d2] assms(1,5) by (simp add: html_receive_more)
  then show ?thesis using assms(2) by (simp add: html_receive_more more_more)
qed

text \<open>A type that comes in two reads is still refused.\<close>

definition first_piece :: string where
  "first_piece = ''HTTP/1.0 200 OK'' @ [NL] @ ''Content-Ty''"

definition second_piece :: string where
  "second_piece = ''pe: application/pdf'' @ [NL]"

definition fresh_page :: "string \<Rightarrow> html_state" where
  "fresh_page buf = \<lparr>h_here = url_init 5, h_base = None, h_phase = ANSWER, h_buf = buf, h_pos = 0, h_parse = 0,
     h_area = 0, h_content = 0, h_interesting = False, h_extIndex = 0, h_nbSpec = 0, h_spec = []\<rparr>"

definition after_first :: html_state where
  "after_first = (fresh_page (first_piece @ replicate 54 NUL))
     \<lparr>h_phase := HEADERS, h_pos := 26, h_parse := 16, h_area := 16\<rparr>"

theorem html_receive_pieces_witness:
  "\<forall>w. html_receive default_config second_piece after_first w =
     html_receive default_config (first_piece @ second_piece) (fresh_page (replicate 80 NUL)) w"
proof
  fix w
  let ?h = "(fresh_page (first_piece @ replicate 54 NUL))\<lparr>h_pos := 26\<rparr>"
  have m: "more 0 first_piece (fresh_page (replicate 80 NUL)) = ?h" by code_simp
  have q: "strchr_at (h_buf ?h) 0 NL = Some (Some 15)" "strchr_at (h_buf ?h) 16 NL = Some None"
    "h_buf ?h ! 9 = CHR ''2''" by (code_simp, code_simp, code_simp)
  have "headers_loop default_config ?h w = headers_loop default_config after_first w"
    using q by (subst headers_loop.simps)
      (simp add: header_line_def parseCmdline_def next_line_def after_first_def fresh_page_def)
  also have "\<dots> = Some (None, after_first, w)"
    using q(2) by (subst headers_loop.simps) (simp add: after_first_def fresh_page_def)
  finally have "html_receive default_config first_piece (fresh_page (replicate 80 NUL)) w = Some (None, after_first, w)"
    by (simp add: html_receive_more m [unfolded fresh_page_def] fresh_page_def)
  then show "html_receive default_config second_piece after_first w =
     html_receive default_config (first_piece @ second_piece) (fresh_page (replicate 80 NUL)) w"
    by (rule html_receive_pieces)
      (simp_all add: fresh_page_def default_config_def first_piece_def second_piece_def)
qed

end
