(* ===== verification/Pages.thy ===== *)
theory Pages
  imports Pool Html
begin

section \<open>What a page can do to the rest of the crawler\<close>

text \<open>
  Reading a page changes the world outside it through \<open>manageUrl\<close>, the table of pages seen and
  counters only (\<open>page_steps\<close>), keeps the size of its array, never makes it longer than what
  was received, and keeps its url but for the cookie (\<open>kept\<close>). One lemma for each function of
  theory Html.
\<close>

inductive page_steps :: "config \<Rightarrow> world \<Rightarrow> world \<Rightarrow> bool" for g where
  ps_refl: "page_steps g w w"
| ps_link: "page_steps g w w1 \<Longrightarrow> manageUrl g here u r w1 = Some w2 \<Longrightarrow> page_steps g w w2"
| ps_stats: "page_steps g w w1 \<Longrightarrow> page_steps g w (upd_stats f w1)"
| ps_seen: "page_steps g w w1 \<Longrightarrow> page_steps g w (w1\<lparr>w_hDup := t\<rparr>)"

lemma page_steps_trans: "page_steps g w1 w2 \<Longrightarrow> page_steps g w w1 \<Longrightarrow> page_steps g w w2"
  by (induction rule: page_steps.induct) (auto intro: page_steps.intros)

lemma page_steps_pool: "page_steps g w w' \<Longrightarrow> pool w' = pool w"
  by (induction rule: page_steps.induct) (auto dest: pool_manageUrl)

lemma page_steps_acc: "page_steps g w w' \<Longrightarrow> acc h b w \<Longrightarrow> acc h b w'"
  by (induction rule: page_steps.induct) (auto dest: acc_manageUrl)

definition kept :: "html_state \<Rightarrow> html_state \<Rightarrow> bool" where
  "kept h h' \<longleftrightarrow> length (h_buf h') = length (h_buf h) \<and> h_pos h' \<le> h_pos h \<and>
     (\<exists>ck. h_here h' = (h_here h)\<lparr>u_cookie := ck\<rparr>)"

lemma kept_same: "h_here h' = h_here h \<Longrightarrow> length (h_buf h') = length (h_buf h) \<Longrightarrow> h_pos h' \<le> h_pos h \<Longrightarrow> kept h h'"
  by (auto simp: kept_def intro: exI [of _ "u_cookie (h_here h)"])

lemma kept_trans: "kept h h' \<Longrightarrow> kept h' h'' \<Longrightarrow> kept h h''"
  by (auto simp: kept_def)

definition page_effect :: "config \<Rightarrow> html_state \<Rightarrow> world \<Rightarrow> html_state \<Rightarrow> world \<Rightarrow> bool" where
  "page_effect g h w h' w' \<longleftrightarrow> kept h h' \<and> page_steps g w w'"

lemma page_effect_trans:
  "page_effect g h w h1 w1 \<Longrightarrow> page_effect g h1 w1 h' w' \<Longrightarrow> page_effect g h w h' w'"
  unfolding page_effect_def using kept_trans page_steps_trans by blast

lemma page_effect_refl [simp]: "page_effect g h w h w"
  by (simp add: page_effect_def kept_same ps_refl)

lemma page_effect_eq:
  assumes "h_here h1 = h_here h" "length (h_buf h1) = length (h_buf h)" "h_pos h1 = h_pos h"
    and "page_effect g h1 w h' w'"
  shows "page_effect g h w h' w'"
  using assms by (simp add: page_effect_def kept_def)

subsection \<open>Content\<close>

lemma read_url_length: "read_url g e buf p = Some (buf', q) \<Longrightarrow> length buf' = length buf"
proof (induction g e buf p rule: read_url.induct)
  case (1 g e buf p)
  from 1(2) show ?case by (subst (asm) read_url.simps) (auto split: if_splits dest: 1(1))
qed

lemma set_base_kept: "set_base h area q = Some h' \<Longrightarrow> kept h h' \<and> h_buf h' = h_buf h"
  by (auto simp: set_base_def Let_def kept_same split: if_splits)

lemma parseContent_effect:
  assumes "parseContent g act h w = Some (h', w')"
  shows "page_effect g h w h' w'"
proof -
  obtain a0 c where a0: "skip_chars (\<lambda>c. c = CHR '' '' \<or> c = CHR ''='') (h_buf h) (h_parse h + 1) = Some a0"
      "rd (h_buf h) a0 = Some c"
    using assms by (cases "skip_chars (\<lambda>c. c = CHR '' '' \<or> c = CHR ''='') (h_buf h) (h_parse h + 1)";
        cases "rd (h_buf h) (the (skip_chars (\<lambda>c. c = CHR '' '' \<or> c = CHR ''='') (h_buf h) (h_parse h + 1)))")
      (simp_all add: parseContent_def)
  define area where "area = (if c = CHR 0x22 \<or> c = CHR 0x27 then a0 + 1 else a0)"
  define e where "e = min (area + maxUrlSize) (h_pos h)"
  obtain buf q where r: "read_url g e (h_buf h) area = Some (buf, q)"
    using assms a0 by (cases "read_url g e (h_buf h) area") (auto simp: parseContent_def Let_def area_def e_def)
  define h1 where h1: "h1 = h\<lparr>h_buf := buf, h_area := area, h_parse := q\<rparr>"
  let ?h2 = "h1\<lparr>h_buf := buf[q := NUL]\<rparr>"
  have rest: "(if q = h_pos h then Some (h1, w)
       else if q < e \<and> notCgiChar g (buf ! q) then do {
         (h3, w3) \<leftarrow>
           (case act of
              LINK \<Rightarrow> do {
                nouv \<leftarrow> url_link (c_string (h_buf ?h2) area) (u_depth (h_here ?h2) - 1) (h_base ?h2);
                w2 \<leftarrow> manageUrl g (h_here ?h2) nouv False w;
                Some (?h2, w2) }
            | BASE \<Rightarrow> map_option (\<lambda>h'. (h', w)) (set_base ?h2 area q));
         Some (h3\<lparr>h_buf := (h_buf h3)[q := buf ! q], h_parse := q + 1\<rparr>, w3)
       } else Some (h1\<lparr>h_parse := q + 1\<rparr>, w)) = Some (h', w')"
    using assms a0 r unfolding parseContent_def Let_def h1 area_def e_def by simp
  have c: "(h', w') = (h1, w) \<or> (h', w') = (h1\<lparr>h_parse := q + 1\<rparr>, w) \<or>
      (\<exists>nouv w3. manageUrl g (h_here h) nouv False w = Some w3 \<and>
        (h', w') = (h1\<lparr>h_buf := (buf[q := NUL])[q := buf ! q], h_parse := q + 1\<rparr>, w3)) \<or>
      (\<exists>h3. set_base (h1\<lparr>h_buf := buf[q := NUL]\<rparr>) area q = Some h3 \<and>
        (h', w') = (h3\<lparr>h_buf := (h_buf h3)[q := buf ! q], h_parse := q + 1\<rparr>, w))"
  proof (cases act)
    case LINK
    with rest show ?thesis by (auto simp: bind_Some h1 split: if_splits)
  next
    case BASE
    with rest show ?thesis by (auto simp: bind_Some split: if_splits)
  qed
  have l: "length buf = length (h_buf h)" by (rule read_url_length [OF r])
  from c show ?thesis
  proof (elim disjE exE conjE)
    fix nouv w3
    assume "manageUrl g (h_here h) nouv False w = Some w3"
      "(h', w') = (h1\<lparr>h_buf := (buf[q := NUL])[q := buf ! q], h_parse := q + 1\<rparr>, w3)"
    then show ?thesis using l h1 by (auto simp: page_effect_def intro!: kept_same ps_link [OF ps_refl])
  next
    fix h3
    assume "set_base (h1\<lparr>h_buf := buf[q := NUL]\<rparr>) area q = Some h3"
      and e: "(h', w') = (h3\<lparr>h_buf := (h_buf h3)[q := buf ! q], h_parse := q + 1\<rparr>, w)"
    from set_base_kept [OF this(1)] show ?thesis
      using l h1 e by (auto simp: page_effect_def kept_def ps_refl)
  qed (use l h1 in \<open>auto simp: page_effect_def ps_refl intro!: kept_same\<close>)
qed

lemma param_loop_effect:
  assumes "param_loop g param act h w = Some r"
  shows "page_effect g h w (fst r) (snd r)"
  using assms
proof (rule param_loop.raw_induct [where P = "\<lambda>g param act h w r. page_effect g h w (fst r) (snd r)", rotated], goal_cases)
  case (1 self g param act h w r)
  note IH = 1(1) and step = 1(2)
  from step obtain i p x where
    rest: "(if x = CHR ''>'' \<or> x = NUL then Some (h\<lparr>h_parse := p\<rparr>, w)
       else if i = length param then parseContent g act (h\<lparr>h_parse := p\<rparr>) w
       else do {
         t \<leftarrow> skipText (h_buf h) p;
         q \<leftarrow> skipSpace (h_buf h) t;
         self g param act (h\<lparr>h_parse := q\<rparr>) w
       }) = Some r" unfolding bind_Some by blast
  consider (stop) p where "r = (h\<lparr>h_parse := p\<rparr>, w)"
    | (content) p where "parseContent g act (h\<lparr>h_parse := p\<rparr>) w = Some r"
    | (again) q where "self g param act (h\<lparr>h_parse := q\<rparr>) w = Some r"
  proof (cases "x = CHR ''>'' \<or> x = NUL")
    case True
    with rest have "r = (h\<lparr>h_parse := p\<rparr>, w)" by simp
    then show ?thesis by (rule that(1))
  next
    case x: False
    show ?thesis
    proof (cases "i = length param")
      case True
      with rest x that(2) show ?thesis by simp
    next
      case False
      with rest x that(3) show ?thesis by (auto simp: bind_Some)
    qed
  qed
  then show ?case
  proof cases
    case stop
    then show ?thesis by (auto intro!: page_effect_eq [of "h\<lparr>h_parse := p\<rparr>" h])
  next
    case content
    then have "page_effect g (h\<lparr>h_parse := p\<rparr>) w (fst r) (snd r)"
      by (intro parseContent_effect) simp
    then show ?thesis by (rule page_effect_eq [rotated 3]) simp_all
  next
    case again
    from IH [OF this] show ?thesis by (rule page_effect_eq [rotated 3]) simp_all
  qed
qed

lemma parseTag_effect:
  assumes "parseTag g h w = Some (h', w')"
  shows "page_effect g h w h' w'"
proof -
  from assms obtain p t where p: "skipSpace (h_buf h) (h_parse h) = Some p" "read_tag g (h_buf h) p = Some t"
    by (auto simp: parseTag_def bind_Some)
  consider (skip) p where "h' = h\<lparr>h_parse := p\<rparr>" "w' = w"
    | (loop) param act q where "param_loop g param act (h\<lparr>h_parse := q\<rparr>) w = Some (h', w')"
  proof (cases t)
    case None
    then show ?thesis using assms p that(1) by (auto simp: parseTag_def bind_Some)
  next
    case (Some a)
    obtain param act n where "a = (param, act, n)" by (cases a)
    then show ?thesis using assms p Some that(2) by (auto simp: parseTag_def bind_Some)
  qed
  then show ?thesis
  proof cases
    case skip
    then show ?thesis by (auto intro!: page_effect_eq [of "h\<lparr>h_parse := p\<rparr>" h])
  next
    case loop
    from param_loop_effect [OF this] have "page_effect g (h\<lparr>h_parse := q\<rparr>) w h' w'" by simp
    then show ?thesis by (rule page_effect_eq [rotated 3]) simp_all
  qed
qed

lemma parseHtml_effect:
  assumes "parseHtml g h w = Some r"
  shows "page_effect g h w (fst r) (snd r)"
  using assms
proof (rule parseHtml.raw_induct [where P = "\<lambda>g h w r. page_effect g h w (fst r) (snd r)", rotated], goal_cases)
  case (1 self g h w r)
  note IH = 1(1) and step = 1(2)
  consider (stop) "r = (h, w)"
    | (comment) q where "self g (h\<lparr>h_parse := q\<rparr>) w = Some r"
    | (tag) q h1 w1 where "parseTag g (h\<lparr>h_parse := q\<rparr>) w = Some (h1, w1)" "self g h1 w1 = Some r"
  proof (cases "strchr_at (h_buf h) (h_parse h) (CHR ''<'')")
    case None
    with step show ?thesis by simp
  next
    case (Some po)
    show ?thesis
    proof (cases po)
      case None
      with step Some that(1) show ?thesis by simp
    next
      case (Some p)
      from step obtain x where x: "rd (h_buf h) (p + 1) = Some x"
        using \<open>strchr_at _ _ _ = Some po\<close> Some by (auto simp: bind_Some)
      show ?thesis
      proof (cases "x = CHR ''!''")
        case True
        with step x \<open>strchr_at _ _ _ = Some po\<close> Some that(2) show ?thesis by (auto simp: bind_Some)
      next
        case False
        with step x \<open>strchr_at _ _ _ = Some po\<close> Some that(3) show ?thesis by (auto simp: bind_Some)
      qed
    qed
  qed
  then show ?case
  proof cases
    case stop
    then show ?thesis by simp
  next
    case comment
    from IH [OF this] show ?thesis by (rule page_effect_eq [rotated 3]) simp_all
  next
    case tag
    have "page_effect g h w h1 w1"
      by (rule page_effect_eq [OF _ _ _ parseTag_effect [OF tag(1)]]) simp_all
    from page_effect_trans [OF this IH [OF tag(2)]] show ?thesis .
  qed
qed

lemma html_endInput_effect:
  assumes "html_endInput g h w = Some (e, h', w')"
  shows "page_effect g h w h' w'"
proof -
  let ?t = "snd (hashDup_testSet hashSize (c_string (h_buf h) (h_parse h)) (w_hDup w))"
  let ?w = "if g_pageNoDuplicate g then w\<lparr>w_hDup := ?t\<rparr> else w"
  have s: "page_steps g w ?w" by (simp add: ps_refl ps_seen)
  let ?h = "h\<lparr>h_buf := (h_buf h)[h_pos h := NUL]\<rparr>"
  have "(h', w') = (h, w) \<or> (h', w') = (h, ?w) \<or> (h', w') = (?h, ?w) \<or> parseHtml g ?h ?w = Some (h', w')"
  proof -
    obtain new t where t: "hashDup_testSet hashSize (c_string (h_buf h) (h_parse h)) (w_hDup w) = (new, t)"
      by force
    consider "h_phase h \<in> {ANSWER, HEADERS, HEADERS30X}" | "g_pageNoDuplicate g" "\<not> new" "h_phase h \<in> {HTML, SPECIFIC}"
      | "h_phase h \<in> {HTML, SPECIFIC}" "g_pageNoDuplicate g \<longrightarrow> new" by (cases "h_phase h") auto
    then show ?thesis
    proof cases
      case 1
      with assms show ?thesis by (auto simp: html_endInput_def)
    next
      case 2
      with assms t show ?thesis by (auto simp: html_endInput_def Let_def)
    next
      case 3
      with assms t show ?thesis by (cases "h_phase h = SPECIFIC") (auto simp: html_endInput_def Let_def)
    qed
  qed
  then show ?thesis
  proof (elim disjE)
    assume "parseHtml g ?h ?w = Some (h', w')"
    from parseHtml_effect [OF this] have "page_effect g ?h ?w h' w'" by simp
    then have "page_effect g h ?w h' w'" by (rule page_effect_eq [rotated 3]) simp_all
    then show ?thesis using s by (auto simp: page_effect_def intro: page_steps_trans)
  qed (use s in \<open>auto simp: page_effect_def ps_refl intro!: kept_same\<close>)
qed

subsection \<open>Headers\<close>

lemma addCookie_url: "\<exists>ck. addCookie l u = u\<lparr>u_cookie := ck\<rparr>"
  by (auto simp: addCookie_def Let_def split: option.splits intro: exI [of _ "u_cookie u"])

lemma verifType_effect: "verifType g h w = (e, h', w') \<Longrightarrow> page_effect g h w h' w'"
  by (auto simp: verifType_def Let_def page_effect_def split: if_splits
      intro!: kept_same ps_refl ps_stats [OF ps_refl])

lemma parseHeader_effect:
  assumes "parseHeader g h w = (e, h', w')"
  shows "page_effect g h w h' w'"
proof (cases "h_parse h - h_area h < 2")
  case True
  then show ?thesis using assms
    by (auto simp: parseHeader_def Let_def page_effect_def ps_refl split: if_splits intro!: kept_same)
next
  case False
  let ?line = "c_string ((h_buf h)[h_parse h := NUL]) (h_area h)"
  let ?h = "h\<lparr>h_here := (if g_useCookies g then addCookie ?line (h_here h) else h_here h),
      h_buf := (h_buf h)[h_parse h := NL]\<rparr>"
  obtain e1 where "verifType g ?h w = (e1, h', w')"
    using assms False by (auto simp: parseHeader_def Let_def split: prod.splits option.splits)
  from verifType_effect [OF this] have "page_effect g ?h w h' w'" .
  moreover have "page_effect g h w ?h w"
    using addCookie_url [of ?line "h_here h"]
    by (auto simp: page_effect_def kept_def ps_refl intro: exI [of _ "u_cookie (h_here h)"])
  ultimately show ?thesis by (rule page_effect_trans [rotated])
qed

lemma parseHeader30X_effect:
  assumes "parseHeader30X g h w = Some (e, h', w')"
  shows "page_effect g h w h' w'"
  using assms
  by (auto simp: parseHeader30X_def Let_def bind_Some page_effect_def split: if_splits
      intro!: kept_same ps_refl ps_link [OF ps_refl])

lemma header_line_effect:
  assumes "header_line g h w = Some (e, h', w')"
  shows "page_effect g h w h' w'"
proof -
  have "parseCmdline h = (e, h') \<Longrightarrow> kept h h'"
    by (auto simp: parseCmdline_def split: if_splits intro!: kept_same)
  then show ?thesis
    using assms parseHeader_effect parseHeader30X_effect
    by (auto simp: header_line_def page_effect_def ps_refl split: html_phase.splits prod.splits)
qed

lemma headers_loop_effect:
  assumes "headers_loop g h w = Some r"
  shows "page_effect g h w (fst (snd r)) (snd (snd r))"
  using assms
proof (rule headers_loop.raw_induct [where P = "\<lambda>g h w r. page_effect g h w (fst (snd r)) (snd (snd r))", rotated], goal_cases)
  case (1 self g h w r)
  note IH = 1(1) and step = 1(2)
  consider (stop) "snd r = (h, w)"
    | (pipe) e h1 where "pipeSpec h = (e, h1)" "snd r = (h1, w)" "h_parse h < h_pos h"
    | (err) q where "header_line g (h\<lparr>h_parse := q\<rparr>) w = Some r"
    | (again) q e h1 w1 where "header_line g (h\<lparr>h_parse := q\<rparr>) w = Some (e, h1, w1)"
        "self g (next_line q h1) w1 = Some r"
  proof (cases "h_parse h < h_pos h")
    case False
    with step have "(None, h, w) = r" by simp
    then show ?thesis using that(1) by auto
  next
    case True
    consider "h_phase h = HTML" | "h_phase h = SPECIFIC" | "h_phase h \<noteq> HTML" "h_phase h \<noteq> SPECIFIC" by blast
    then show ?thesis
    proof cases
      case 1
      with step True have "(None, h, w) = r" by simp
      then show ?thesis using that(1) by auto
    next
      case 2
      obtain e h1 where "pipeSpec h = (e, h1)" by force
      moreover from this have "(e, h1, w) = r" using step True 2 by simp
      ultimately show ?thesis using that(2) True by auto
    next
      case 3
      then have l: "(case strchr_at (h_buf h) (h_parse h) NL of
                None \<Rightarrow> None
              | Some None \<Rightarrow> Some (None, h, w)
              | Some (Some q) \<Rightarrow> do {
                  (e, h1, w1) \<leftarrow> header_line g (h\<lparr>h_parse := q\<rparr>) w;
                  if e \<noteq> None then Some (e, h1, w1) else self g (next_line q h1) w1
                }) = Some r"
        using step True by (cases "h_phase h") simp_all
      show ?thesis
      proof (cases "strchr_at (h_buf h) (h_parse h) NL")
        case None
        with l show ?thesis by simp
      next
        case (Some qo)
        show ?thesis
        proof (cases qo)
          case None
          with l Some have "(None, h, w) = r" by simp
          then show ?thesis using that(1) by auto
        next
          case q: (Some q)
          with l Some obtain e h1 w1 where hl: "header_line g (h\<lparr>h_parse := q\<rparr>) w = Some (e, h1, w1)"
            and n: "(if e \<noteq> None then Some (e, h1, w1) else self g (next_line q h1) w1) = Some r"
            by (auto simp: bind_Some)
          show ?thesis
          proof (cases "e = None")
            case True
            with hl n show ?thesis by (intro that(4)) auto
          next
            case False
            with hl n show ?thesis by (intro that(3)) auto
          qed
        qed
      qed
    qed
  qed
  then show ?case
  proof cases
    case stop
    then show ?thesis by (cases r) simp
  next
    case pipe
    then have "kept h h1" by (auto simp: pipeSpec_def Let_def split: if_splits intro!: kept_same)
    then show ?thesis using pipe(2) by (cases r) (simp add: page_effect_def ps_refl)
  next
    case err
    obtain e h1 w1 where r: "r = (e, h1, w1)" by (cases r)
    from header_line_effect [OF err [unfolded r]] have "page_effect g h w h1 w1"
      by (rule page_effect_eq [rotated 3]) auto
    then show ?thesis using r by simp
  next
    case again
    from header_line_effect [OF again(1)] have "page_effect g h w h1 w1"
      by (rule page_effect_eq [rotated 3]) auto
    moreover have "page_effect g h1 w1 (fst (snd r)) (snd (snd r))"
      by (rule page_effect_eq [OF _ _ _ IH [OF again(2)]]) (simp_all add: next_line_def)
    ultimately show ?thesis by (rule page_effect_trans)
  qed
qed

lemma html_receive_effect:
  assumes "html_receive g d h w = Some (e, h', w')" "h_pos h + length d < length (h_buf h)"
  shows "length (h_buf h') = length (h_buf h) \<and> h_pos h' \<le> h_pos h + length d \<and>
    (\<exists>ck. h_here h' = (h_here h)\<lparr>u_cookie := ck\<rparr>) \<and> page_steps g w w'"
proof -
  have "page_effect g (more (h_pos h) d h) w h' w'"
    using headers_loop_effect [OF assms(1) [unfolded html_receive_more]] by simp
  then show ?thesis using assms(2)
    by (auto simp: page_effect_def kept_def) (simp_all add: more_def length_overwrite)
qed

end
