(* ===== verification/Pipe.thy ===== *)
theory Pipe
  imports Pages
begin

section \<open>Transfers (src/fetch/fetch_pipe.cxx, src/io/output.cxx)\<close>

text \<open>
  The open connections: requests are written, answers read into the array of the connection and
  given to its parser, ends and time-outs reported. The state adds to that of theory Site the
  array of each connection, the parser objects, and what was written to each socket.
  The constructor of a parser runs when the connection is started; as nothing happens to the
  array before the first read, the object is made here when it is first used (\<open>conn_object\<close>).
  The results of the system calls are arguments; \<open>io_left\<close> is what the tokenizer of robots.txt
  leaves in the array, \<open>p_unset\<close> a field that the constructor of a base leaves unset. The output
  is the one without a thread.
\<close>

datatype write_result = Wrote_bytes nat | Write_again | Write_fails

datatype read_result = Got string | Read_again | Read_fails

record io =
  io_ready :: "nat \<Rightarrow> bool"
  io_refused :: "nat \<Rightarrow> bool"
  io_write :: "nat \<Rightarrow> write_result"
  io_read :: "nat \<Rightarrow> read_result"
  io_left :: "nat \<Rightarrow> string"

datatype conn_obj = Robots_obj robots_state | Html_obj html_state

record pipes =
  p_world :: world
  p_buf :: "nat \<Rightarrow> string"
  p_obj :: "nat \<Rightarrow> conn_obj option"
  p_sent :: "nat \<Rightarrow> string"
  p_unset :: int

definition pconn :: "pipes \<Rightarrow> nat \<Rightarrow> connexion" where
  "pconn p c = w_conns (p_world p) c"

definition set_conn :: "nat \<Rightarrow> (connexion \<Rightarrow> connexion) \<Rightarrow> pipes \<Rightarrow> pipes" where
  "set_conn c f p = p\<lparr>p_world := upd_conn c f (p_world p)\<rparr>"

definition set_err :: "nat \<Rightarrow> FetchError \<Rightarrow> pipes \<Rightarrow> pipes" where
  "set_err c e p = set_conn c (\<lambda>x. x\<lparr>c_err := e\<rparr>) p"

definition set_obj :: "nat \<Rightarrow> conn_obj \<Rightarrow> pipes \<Rightarrow> pipes" where
  "set_obj c ob p = p\<lparr>p_obj := (p_obj p)(c := Some ob)\<rparr>"

definition conn_object :: "pipes \<Rightarrow> nat \<Rightarrow> conn_obj option" where
  "conn_object p c =
     (case p_obj p c of
        Some ob \<Rightarrow> Some ob
      | None \<Rightarrow>
          (case c_parser (pconn p c) of
             Robots_parser k \<Rightarrow> Some (Robots_obj (robots_new k))
           | Html_parser u \<Rightarrow> map_option Html_obj (html_new (p_unset p) u (p_buf p c))
           | No_parser \<Rightarrow> None))"

subsection \<open>The end of a transfer\<close>

definition loaded :: "html_state \<Rightarrow> world \<Rightarrow> world" where
  "loaded h w = w\<lparr>w_loaded := w_loaded w @ [(h_here h, getPage h)]\<rparr>"

definition endOfLoad :: "config \<Rightarrow> html_state \<Rightarrow> FetchError \<Rightarrow> world \<Rightarrow> world option" where
  "endOfLoad g h e w =
     do {
       w1 \<leftarrow> answers_incr e w;
       Some (if e = success then
               (if g_specificSearch g then
                  (if h_interesting h
                   then loaded h (upd_stats (\<lambda>s. s\<lparr>st_interestingPage := st_interestingPage s + 1\<rparr>) w1)
                   else w1)
                else loaded h w1)
             else fetchFail g (h_interesting h) (h_here h) e w1)
     }"

text \<open>\<open>parse\<close> on its server: the new list, \<open>siteRobots\<close> and \<open>robotsOK\<close>.\<close>

definition robots_parsed :: "nat \<Rightarrow> (string list \<times> bool) option \<Rightarrow> world \<Rightarrow> world" where
  "robots_parsed k res w =
     (case res of
        None \<Rightarrow> w
      | Some (forb, good) \<Rightarrow>
          upd_stats (\<lambda>s. s\<lparr>st_siteRobots := st_siteRobots s + 1,
                          st_robotsOK := st_robotsOK s + (if good then 1 else 0)\<rparr>)
            (upd_ns k (\<lambda>s. s\<lparr>ns_forbidden := forb\<rparr>) w))"

text \<open>\<open>conn->recycle()\<close> and \<open>freeConns->put(conn)\<close>; the socket has been closed.\<close>

definition conn_recycle :: "nat \<Rightarrow> pipes \<Rightarrow> pipes" where
  "conn_recycle c p =
     (set_conn c (\<lambda>x. x\<lparr>c_request := [], c_parser := No_parser\<rparr>) p)
       \<lparr>p_obj := (p_obj p)(c := None), p_sent := (p_sent p)(c := [])\<rparr>"

definition conn_release :: "nat \<Rightarrow> pipes \<Rightarrow> pipes option" where
  "conn_release c p =
     (let p1 = conn_recycle c p in map_option (\<lambda>w. p1\<lparr>p_world := w\<rparr>) (freeConns_put c (p_world p1)))"

definition endOfFile :: "config \<Rightarrow> io \<Rightarrow> nat \<Rightarrow> pipes \<Rightarrow> pipes option" where
  "endOfFile g io c p =
     (let e = c_err (pconn p c); p1 = set_conn c (\<lambda>x. x\<lparr>c_state := emptyC\<rparr>) p in
      case conn_object p c of
        None \<Rightarrow> None
      | Some (Robots_obj r) \<Rightarrow>
          do {
            res \<leftarrow> robots_parse (g_userAgent g) (w_printStats (p_world p1)) (e \<noteq> success) (p_buf p1 c) r;
            w \<leftarrow> robotsResult g (rb_server r) e (robots_parsed (rb_server r) res (p_world p1));
            let buf = overwrite (p_buf p1 c) 0 (take (length (p_buf p1 c)) (io_left io c));
            conn_release c (p1\<lparr>p_world := w, p_buf := (p_buf p1)(c := buf)\<rparr>)
          }
      | Some (Html_obj h) \<Rightarrow>
          do {
            w \<leftarrow> endOfLoad g h e (p_world p1);
            conn_release c (p1\<lparr>p_world := w, p_buf := (p_buf p1)(c := h_buf h)\<rparr>)
          })"

definition failed :: "config \<Rightarrow> io \<Rightarrow> nat \<Rightarrow> FetchError \<Rightarrow> pipes \<Rightarrow> pipes option" where
  "failed g io c e p = endOfFile g io c (set_err c e p)"

subsection \<open>Writing and reading\<close>

definition band :: "config \<Rightarrow> nat \<Rightarrow> world \<Rightarrow> world" where
  "band g n w = (if g_limitBand g \<noteq> 0 then w\<lparr>w_remainBand := w_remainBand w - int n\<rparr> else w)"

definition write_request :: "config \<Rightarrow> io \<Rightarrow> nat \<Rightarrow> pipes \<Rightarrow> pipes option" where
  "write_request g io c p =
     (let req = c_string (c_request (pconn p c)) 0; pos = nat (c_pos (pconn p c)) in
      case io_write io c of
        Wrote_bytes k \<Rightarrow>
          let n = min k (length req - pos);
              w1 = band g n (upd_stats (\<lambda>s. s\<lparr>st_written := st_written s + n\<rparr>) (p_world p));
              p1 = (set_conn c (\<lambda>x. x\<lparr>c_pos := c_pos x + int n\<rparr>) (p\<lparr>p_world := w1\<rparr>))
                     \<lparr>p_sent := (p_sent p)(c := p_sent p c @ take n (drop pos req))\<rparr>
          in if pos + n < length req then Some p1 else Some (set_conn c (\<lambda>x. x\<lparr>c_state := openC\<rparr>) p1)
      | Write_again \<Rightarrow> Some p
      | Write_fails \<Rightarrow> failed g io c earlyStop p)"

definition pipeWrite :: "config \<Rightarrow> io \<Rightarrow> nat \<Rightarrow> pipes \<Rightarrow> pipes option" where
  "pipeWrite g io c p =
     (case c_state (pconn p c) of
        connectingC \<Rightarrow>
          if io_refused io c then failed g io c noConnection p
          else write_request g io c (set_conn c (\<lambda>x. x\<lparr>c_state := writeC\<rparr>) p)
      | writeC \<Rightarrow> write_request g io c p
      | _ \<Rightarrow> Some p)"

fun obj_pos :: "conn_obj \<Rightarrow> nat" where
  "obj_pos (Robots_obj r) = rb_pos r"
| "obj_pos (Html_obj h) = h_pos h"

text \<open>\<open>endInput\<close> and \<open>inputHeaders\<close> are virtual: the result, the object, the array, the world.\<close>

definition obj_endInput ::
    "config \<Rightarrow> conn_obj \<Rightarrow> world \<Rightarrow> (FetchError option \<times> conn_obj \<times> world) option" where
  "obj_endInput g ob w =
     (case ob of
        Robots_obj r \<Rightarrow> Some (robots_endInput, ob, w)
      | Html_obj h \<Rightarrow> map_option (\<lambda>(e, h', w'). (e, Html_obj h', w')) (html_endInput g h w))"

definition obj_receive ::
    "config \<Rightarrow> string \<Rightarrow> conn_obj \<Rightarrow> string \<Rightarrow> world \<Rightarrow>
       (FetchError option \<times> conn_obj \<times> string \<times> world) option" where
  "obj_receive g d ob buf w =
     (case ob of
        Robots_obj r \<Rightarrow>
          let buf1 = overwrite buf (rb_pos r) d in
          (case robots_inputHeaders (length d) buf1 r of (e, r') \<Rightarrow> Some (e, Robots_obj r', buf1, w))
      | Html_obj h \<Rightarrow> map_option (\<lambda>(e, h', w'). (e, Html_obj h', buf, w')) (html_receive g d h w))"

definition pipeRead :: "config \<Rightarrow> io \<Rightarrow> nat \<Rightarrow> pipes \<Rightarrow> pipes option" where
  "pipeRead g io c p =
     do {
       ob \<leftarrow> conn_object p c;
       (case io_read io c of
          Got bytes \<Rightarrow>
            (let d = take (maxPageSize - obj_pos ob - 1) bytes in
             if d = [] then do {
               (e, ob1, w1) \<leftarrow> obj_endInput g ob (p_world p);
               let p1 = set_obj c ob1 (p\<lparr>p_world := w1\<rparr>);
               endOfFile g io c (case e of Some err \<Rightarrow> set_err c err p1 | None \<Rightarrow> p1)
             } else do {
               let w1 = band g (length d) (upd_stats (\<lambda>s. s\<lparr>st_read := st_read s + length d\<rparr>)
                     (upd_conn c (\<lambda>x. x\<lparr>c_timeout := c_timeout x + int (length d) div timeoutIncr\<rparr>) (p_world p)));
               (e, ob1, buf1, w2) \<leftarrow> obj_receive g d ob (p_buf p c) w1;
               let p1 = set_obj c ob1 (p\<lparr>p_world := w2, p_buf := (p_buf p)(c := buf1)\<rparr>);
               case e of
                 None \<Rightarrow> if obj_pos ob1 \<ge> maxPageSize - 1 then failed g io c tooBig p1 else Some p1
               | Some err \<Rightarrow> failed g io c err p1
             })
        | Read_again \<Rightarrow> Some p
        | Read_fails \<Rightarrow> failed g io c earlyStop p)
     }"

subsection \<open>All connections\<close>

fun for_conns :: "(nat \<Rightarrow> pipes \<Rightarrow> pipes option) \<Rightarrow> nat list \<Rightarrow> pipes \<Rightarrow> pipes option" where
  "for_conns f [] p = Some p"
| "for_conns f (c # cs) p = Option.bind (f c p) (for_conns f cs)"

definition check_timeout :: "config \<Rightarrow> io \<Rightarrow> nat \<Rightarrow> pipes \<Rightarrow> pipes option" where
  "check_timeout g io c p =
     (if c_state (pconn p c) \<noteq> emptyC then
        (if c_timeout (pconn p c) > 0 then
           Some (set_conn c (\<lambda>x. x\<lparr>c_timeout :=
             if c_timeout x > timeoutPage then timeoutPage else c_timeout x - 1\<rparr>) p)
         else failed g io c timeout p)
      else Some p)"

definition checkTimeout :: "config \<Rightarrow> io \<Rightarrow> pipes \<Rightarrow> pipes option" where
  "checkTimeout g io p = for_conns (check_timeout g io) [0..<g_nb_conn g] p"

definition check_conn :: "config \<Rightarrow> io \<Rightarrow> nat \<Rightarrow> pipes \<Rightarrow> pipes option" where
  "check_conn g io c p =
     (case c_state (pconn p c) of
        emptyC \<Rightarrow> Some p
      | openC \<Rightarrow> if io_ready io c then pipeRead g io c p else Some p
      | _ \<Rightarrow> if io_ready io c then pipeWrite g io c p else Some p)"

datatype poll_event = POLLOUT nat | POLLIN nat

definition poll_event :: "nat \<Rightarrow> connexion \<Rightarrow> poll_event list" where
  "poll_event c x =
     (case c_state x of emptyC \<Rightarrow> [] | openC \<Rightarrow> [POLLIN c] | _ \<Rightarrow> [POLLOUT c])"

text \<open>The events asked for are the second component.\<close>

definition checkAll :: "config \<Rightarrow> io \<Rightarrow> pipes \<Rightarrow> (pipes \<times> poll_event list) option" where
  "checkAll g io p =
     map_option (\<lambda>p1. (p1, concat (map (\<lambda>c. poll_event c (pconn p1 c)) [0..<g_nb_conn g])))
       (for_conns (check_conn g io) [0..<g_nb_conn g] p)"

subsection \<open>The invariant\<close>

text \<open>A connection that is not in use has no parser and an empty socket; while the request is
  written, what was sent is the part of it before the position; then the whole request was
  sent, and the parser belongs to the connection and has room in the array.\<close>

fun obj_ok :: "parser \<Rightarrow> conn_obj \<Rightarrow> bool" where
  "obj_ok pr (Robots_obj r) \<longleftrightarrow> pr = Robots_parser (rb_server r) \<and> rb_pos r \<le> maxRobotsSize"
| "obj_ok pr (Html_obj h) \<longleftrightarrow> (\<exists>u ck. pr = Html_parser u \<and> h_here h = u\<lparr>u_cookie := ck\<rparr>) \<and>
     length (h_buf h) = maxPageSize \<and> h_pos h < maxPageSize - 1"

definition the_request :: "connexion \<Rightarrow> string" where
  "the_request x = c_string (c_request x) 0"

definition conn_link :: "connexion \<Rightarrow> string \<Rightarrow> conn_obj option \<Rightarrow> string \<Rightarrow> bool" where
  "conn_link x buf obj sent \<longleftrightarrow> length buf = maxPageSize \<and>
     (case c_state x of
        emptyC \<Rightarrow> obj = None \<and> sent = []
      | connectingC \<Rightarrow> obj = None \<and> sent = [] \<and> c_pos x = 0
      | writeC \<Rightarrow> obj = None \<and> 0 \<le> c_pos x \<and> nat (c_pos x) \<le> length (the_request x) \<and>
          sent = take (nat (c_pos x)) (the_request x)
      | openC \<Rightarrow> sent = the_request x \<and> (case obj of None \<Rightarrow> True | Some ob \<Rightarrow> obj_ok (c_parser x) ob))"

definition link_ok :: "pipes \<Rightarrow> nat \<Rightarrow> bool" where
  "link_ok p c \<longleftrightarrow> conn_link (pconn p c) (p_buf p c) (p_obj p c) (p_sent p c)"

definition pipes_ok :: "config \<Rightarrow> pipes \<Rightarrow> bool" where
  "pipes_ok g p \<longleftrightarrow> pool_ok g {} (pool (p_world p)) \<and> acc (\<lambda>_. 0) 0 (p_world p) \<and> (\<forall>c. link_ok p c)"

text \<open>What an operation on one connection leaves alone.\<close>

definition others_same :: "nat \<Rightarrow> pipes \<Rightarrow> pipes \<Rightarrow> bool" where
  "others_same c p p' \<longleftrightarrow>
     (\<forall>d. d \<noteq> c \<longrightarrow> c_state (pconn p d) \<noteq> emptyC \<longrightarrow> pconn p' d = pconn p d \<and> p_obj p' d = p_obj p d) \<and>
     set (w_failed (p_world p)) \<subseteq> set (w_failed (p_world p'))"

lemma fst_pool [simp]: "fst (pool w) = w_conns w"
  by (simp add: pool_def)

lemma pconn_simps [simp]:
  "pconn (set_conn c f p) d = (if d = c then f (pconn p c) else pconn p d)"
  "pconn (set_obj c ob p) d = pconn p d" "pconn (p\<lparr>p_world := w\<rparr>) d = w_conns w d"
  "pconn (p\<lparr>p_buf := b\<rparr>) d = pconn p d" "pconn (p\<lparr>p_obj := ob'\<rparr>) d = pconn p d"
  "pconn (p\<lparr>p_sent := s\<rparr>) d = pconn p d"
  by (simp_all add: pconn_def set_conn_def set_obj_def upd_conn_def)

lemma set_conn_simps [simp]:
  "p_buf (set_conn c f p) = p_buf p" "p_obj (set_conn c f p) = p_obj p" "p_sent (set_conn c f p) = p_sent p"
  "p_buf (set_obj c ob p) = p_buf p" "p_obj (set_obj c ob p) = (p_obj p)(c := Some ob)"
  "p_sent (set_obj c ob p) = p_sent p" "p_world (set_obj c ob p) = p_world p"
  "p_world (set_conn c f p) = upd_conn c f (p_world p)"
  "p_unset (set_conn c f p) = p_unset p" "p_unset (set_obj c ob p) = p_unset p"
  by (simp_all add: set_conn_def set_obj_def)

lemma link_ok_frame:
  "pconn p' d = pconn p d \<Longrightarrow> p_buf p' d = p_buf p d \<Longrightarrow> p_obj p' d = p_obj p d \<Longrightarrow>
   p_sent p' d = p_sent p d \<Longrightarrow> link_ok p' d = link_ok p d"
  by (simp add: link_ok_def)

lemma link_ok_moves:
  assumes "moves g (pool (p_world p)) (pool w')" "pool_ok g H (pool (p_world p))" "link_ok p d"
  shows "link_ok (p\<lparr>p_world := w'\<rparr>) d"
proof (cases "c_state (pconn p d) = emptyC")
  case False
  then have "w_conns w' d = pconn p d" using moves_keep [OF assms(1,2)] by (simp add: pconn_def)
  then show ?thesis using assms(3) by (simp add: link_ok_def)
next
  case True
  then have e: "p_obj p d = None" "p_sent p d = []" "length (p_buf p d) = maxPageSize"
    using assms(3) by (simp_all add: link_ok_def conn_link_def)
  show ?thesis
    using e True moves_fresh [OF assms(1,2), of d] by (cases "c_state (w_conns w' d)")
      (simp_all add: link_ok_def conn_link_def pconn_def)
qed

subsection \<open>The end of a transfer keeps the invariant\<close>

lemma conn_release_ok:
  assumes "pool_ok g {c} (pool (p_world p))" "c < g_nb_conn g" "c_state (pconn p c) = emptyC"
    and "\<forall>d. d \<noteq> c \<longrightarrow> link_ok p d" "length (p_buf p c) = maxPageSize" "acc (\<lambda>_. 0) 0 (p_world p)"
  shows "\<exists>p'. conn_release c p = Some p' \<and> pipes_ok g p' \<and> others_same c p p' \<and>
    c_state (pconn p' c) = emptyC \<and> w_failed (p_world p') = w_failed (p_world p) \<and>
    w_loaded (p_world p') = w_loaded (p_world p) \<and> w_ns (p_world p') = w_ns (p_world p)"
proof -
  let ?w = "p_world p" and ?p1 = "conn_recycle c p"
  let ?x = "(pconn p c)\<lparr>c_request := [], c_parser := No_parser\<rparr>"
  let ?fb = "(\<lambda>k. ns_forbidden (w_ns ?w k), w_remainBand ?w)"
  have "pool_ok g {c} (w_conns ?w, w_freeConns ?w, ?fb, w_failed ?w)" using assms(1) by (simp add: pool_def)
  from pool_ok_release [OF this assms(2), of ?x ?fb "w_failed ?w"] assms(3) obtain q where
    q: "ConstFifo_put c (w_freeConns ?w) = Some q" "pool_ok g {} ((w_conns ?w)(c := ?x), q, ?fb, w_failed ?w)"
    by auto
  let ?p' = "?p1\<lparr>p_world := (p_world ?p1)\<lparr>w_freeConns := q\<rparr>\<rparr>"
  have w: "w_conns (p_world ?p') = (w_conns ?w)(c := ?x)" "w_freeConns (p_world ?p') = q"
    "w_ns (p_world ?p') = w_ns ?w" "w_failed (p_world ?p') = w_failed ?w" "w_loaded (p_world ?p') = w_loaded ?w"
    "w_remainBand (p_world ?p') = w_remainBand ?w"
    by (simp_all add: conn_recycle_def set_conn_def upd_conn_def pconn_def)
  have rel: "conn_release c p = Some ?p'"
    using q(1) by (simp add: conn_release_def Let_def freeConns_put_def conn_recycle_def set_conn_def upd_conn_def)
  have c': "pconn ?p' d = (if d = c then ?x else pconn p d)" "p_buf ?p' = p_buf p"
    "p_obj ?p' = (p_obj p)(c := None)" "p_sent ?p' = (p_sent p)(c := [])" for d
    using w(1) by (simp_all add: pconn_def conn_recycle_def)
  have "link_ok ?p' d" for d
  proof (cases "d = c")
    case True
    then show ?thesis using c' assms(3,5) by (simp add: link_ok_def conn_link_def)
  next
    case False
    then have "link_ok ?p' d = link_ok p d" using c' by (intro link_ok_frame) simp_all
    then show ?thesis using assms(4) False by simp
  qed
  moreover have "pool_ok g {} (pool (p_world ?p'))" using q(2) w by (simp add: pool_def)
  moreover have "acc (\<lambda>_. 0) 0 (p_world ?p')" using assms(6) by (simp add: conn_recycle_def)
  moreover have "others_same c p ?p'" using c' w(4) by (simp add: others_same_def)
  ultimately have "pipes_ok g ?p' \<and> others_same c p ?p'" by (simp add: pipes_ok_def)
  moreover have "c_state (pconn ?p' c) = emptyC" using c' assms(3) by simp
  ultimately show ?thesis using rel w(3-6) by blast
qed

lemma others_same_trans: "others_same c p p1 \<Longrightarrow> others_same c p1 p2 \<Longrightarrow> others_same c p p2"
  unfolding others_same_def by (metis subset_trans)

text \<open>The state before a transfer is ended: the invariant but for the connection \<open>c\<close> itself.\<close>

definition almost :: "config \<Rightarrow> nat \<Rightarrow> pipes \<Rightarrow> bool" where
  "almost g c p \<longleftrightarrow> pool_ok g {} (pool (p_world p)) \<and> acc (\<lambda>_. 0) 0 (p_world p) \<and>
     c_state (pconn p c) \<noteq> emptyC \<and> (\<forall>d. d \<noteq> c \<longrightarrow> link_ok p d) \<and> length (p_buf p c) = maxPageSize \<and>
     (\<forall>h. p_obj p c = Some (Html_obj h) \<longrightarrow> length (h_buf h) = maxPageSize)"

lemma almost_obj:
  "almost g c p \<Longrightarrow> conn_object p c = Some (Html_obj h) \<Longrightarrow> length (h_buf h) = maxPageSize"
  by (auto simp: almost_def conn_object_def html_new_def split: option.splits parser.splits)

lemma pool_endOfLoad: "endOfLoad g h e w = Some w' \<Longrightarrow> moves g (pool w) (pool w')"
proof -
  assume a: "endOfLoad g h e w = Some w'"
  then obtain w1 where w1: "answers_incr e w = Some w1" by (auto simp: endOfLoad_def bind_Some)
  have "moves g (pool w1) (pool w')"
    using a w1 moves_fetchFail by (auto simp: endOfLoad_def loaded_def moves_refl)
  then show ?thesis using pool_ops(1) [OF w1] by simp
qed

lemma acc_endOfLoad: "endOfLoad g h e w = Some w' \<Longrightarrow> acc a b w \<Longrightarrow> acc a b w'"
  by (auto simp: endOfLoad_def bind_Some loaded_def dest: acc_answers split: if_splits)

lemma endOfLoad_failed:
  "endOfLoad g h e w = Some w' \<Longrightarrow> e \<noteq> success \<Longrightarrow> \<not> g_specificSearch g \<Longrightarrow> (h_here h, e) \<in> set (w_failed w')"
  by (auto simp: endOfLoad_def bind_Some fetchFail_def)

lemma acc_robots_parsed: "acc h b w \<Longrightarrow> acc h b (robots_parsed k res w)"
proof -
  assume a: "acc h b w"
  then have "acc h b (upd_ns k (\<lambda>s. s\<lparr>ns_forbidden := f\<rparr>) w)" for f
    by (rule acc_upd_ns) (use a in \<open>auto simp: acc_def queues_ok_def\<close>)
  then show ?thesis using a by (simp add: robots_parsed_def split: option.splits)
qed

lemma robots_parsed_pool:
  "w_conns (robots_parsed k res w) = w_conns w" "w_freeConns (robots_parsed k res w) = w_freeConns w"
  "w_failed (robots_parsed k res w) = w_failed w"
  by (simp_all add: robots_parsed_def upd_stats_def upd_ns_def split: option.splits)

text \<open>The common part: while \<open>c\<close> is held, the world moves from \<open>w\<close> to \<open>w'\<close>.\<close>

lemma held_release:
  assumes a: "almost g c p"
    and w: "w_conns w = (w_conns (p_world p))(c := (pconn p c)\<lparr>c_state := emptyC\<rparr>)"
      "w_freeConns w = w_freeConns (p_world p)" "w_failed w = w_failed (p_world p)"
    and m: "moves g (pool w) (pool w')" and ac: "acc (\<lambda>_. 0) 0 w'" and buf: "length buf = maxPageSize"
  shows "\<exists>p'. conn_release c ((set_conn c (\<lambda>x. x\<lparr>c_state := emptyC\<rparr>) p)\<lparr>p_world := w', p_buf := (p_buf p)(c := buf)\<rparr>) = Some p' \<and>
    pipes_ok g p' \<and> others_same c p p' \<and> w_failed (p_world p') = w_failed w' \<and>
    w_ns (p_world p') = w_ns w' \<and> w_loaded (p_world p') = w_loaded w'"
proof -
  have ok: "pool_ok g {} (w_conns (p_world p), w_freeConns (p_world p), (\<lambda>k. ns_forbidden (w_ns (p_world p) k), w_remainBand (p_world p)), w_failed (p_world p))"
    using a by (simp add: almost_def pool_def)
  have busy: "c_state (w_conns (p_world p) c) \<noteq> emptyC" using a by (simp add: almost_def pconn_def)
  have h: "pool_ok g {c} (pool w)" "c < g_nb_conn g"
    using pool_ok_hold [OF ok busy] w by (simp_all add: pool_def)
  note k = moves_keep [OF m h(1)]
  let ?p1 = "(set_conn c (\<lambda>x. x\<lparr>c_state := emptyC\<rparr>) p)\<lparr>p_world := w', p_buf := (p_buf p)(c := buf)\<rparr>"
  let ?p0 = "p\<lparr>p_world := w\<rparr>"
  have link: "link_ok ?p1 d" if "d \<noteq> c" for d
  proof -
    have "link_ok ?p0 d = link_ok p d" using w(1) that by (intro link_ok_frame) (simp_all add: pconn_def)
    then have "link_ok ?p0 d" using a that by (simp add: almost_def)
    moreover have "pool_ok g {c} (pool (p_world ?p0))" "moves g (pool (p_world ?p0)) (pool w')" using h m by simp_all
    ultimately have "link_ok (?p0\<lparr>p_world := w'\<rparr>) d" using link_ok_moves by blast
    then show ?thesis using that by (subst (asm) link_ok_frame [of ?p1 d, symmetric]) simp_all
  qed
  have st: "c_state (pconn ?p1 c) = emptyC" using k w(1) by simp
  from conn_release_ok [of g c ?p1] k h link st buf ac obtain p' where r: "conn_release c ?p1 = Some p'"
    and e: "pipes_ok g p'" "others_same c ?p1 p'" "w_failed (p_world p') = w_failed w'"
    "w_loaded (p_world p') = w_loaded w'" "w_ns (p_world p') = w_ns w'"
    by auto
  have "others_same c p ?p1"
    using k w moves_failed [OF m] by (auto simp: others_same_def pconn_def pool_def)
  from others_same_trans [OF this e(2)] e r show ?thesis by blast
qed

lemma endOfFile_ok:
  assumes a: "almost g c p" and e: "endOfFile g io c p = Some p'"
  shows "pipes_ok g p' \<and> others_same c p p' \<and>
    (\<forall>h. conn_object p c = Some (Html_obj h) \<longrightarrow> c_err (pconn p c) \<noteq> success \<longrightarrow> \<not> g_specificSearch g \<longrightarrow>
       (h_here h, c_err (pconn p c)) \<in> set (w_failed (p_world p')))"
proof -
  let ?e = "c_err (pconn p c)"
  let ?p1 = "set_conn c (\<lambda>x. x\<lparr>c_state := emptyC\<rparr>) p"
  have w1: "w_conns (p_world ?p1) = (w_conns (p_world p))(c := (pconn p c)\<lparr>c_state := emptyC\<rparr>)"
    "w_freeConns (p_world ?p1) = w_freeConns (p_world p)" "w_failed (p_world ?p1) = w_failed (p_world p)"
    by (simp_all add: upd_conn_def pconn_def)
  have a1: "acc (\<lambda>_. 0) 0 (p_world ?p1)" using a by (simp add: almost_def)
  have lb: "length (p_buf p c) = maxPageSize" using a by (simp add: almost_def)
  from e obtain ob where ob: "conn_object p c = Some ob" by (auto simp: endOfFile_def Let_def split: option.splits)
  show ?thesis
  proof (cases ob)
    case (Robots_obj r)
    let ?w = "\<lambda>res. robots_parsed (rb_server r) res (p_world ?p1)"
    from e ob Robots_obj obtain res w where w: "robotsResult g (rb_server r) ?e (?w res) = Some w"
      and rel: "conn_release c (?p1\<lparr>p_world := w, p_buf := (p_buf ?p1)(c :=
          overwrite (p_buf ?p1 c) 0 (take (length (p_buf ?p1 c)) (io_left io c)))\<rparr>) = Some p'"
      by (auto simp: endOfFile_def Let_def bind_Some)
    have "length (overwrite (p_buf p c) 0 (take (length (p_buf p c)) (io_left io c))) = maxPageSize"
      using lb by (simp add: length_overwrite)
    note lb' = this
    have "w_conns (?w res) = (w_conns (p_world p))(c := (pconn p c)\<lparr>c_state := emptyC\<rparr>)"
      "w_freeConns (?w res) = w_freeConns (p_world p)" "w_failed (?w res) = w_failed (p_world p)"
      using w1 by (simp_all only: robots_parsed_pool)
    from held_release [OF a this moves_robotsResult [OF w] acc_robotsResult [OF w acc_robots_parsed [OF a1]] lb'] rel
    have "pipes_ok g p' \<and> others_same c p p'" by simp
    then show ?thesis using ob Robots_obj by simp
  next
    case (Html_obj h)
    from e ob Html_obj obtain w where w: "endOfLoad g h ?e (p_world ?p1) = Some w"
      and rel: "conn_release c (?p1\<lparr>p_world := w, p_buf := (p_buf ?p1)(c := h_buf h)\<rparr>) = Some p'"
      by (auto simp: endOfFile_def Let_def bind_Some)
    have "length (h_buf h) = maxPageSize" using almost_obj [OF a] ob Html_obj by simp
    from held_release [OF a w1 pool_endOfLoad [OF w] acc_endOfLoad [OF w a1] this] rel
    have "pipes_ok g p'" "others_same c p p'" "w_failed (p_world p') = w_failed w" by simp_all
    then show ?thesis using ob Html_obj endOfLoad_failed [OF w] by auto
  qed
qed

text \<open>The end of a transfer does not touch the bandwidth.\<close>

lemma endOfFile_remainBand:
  assumes "endOfFile g io c p = Some p'"
  shows "w_remainBand (p_world p') = w_remainBand (p_world p)"
proof -
  let ?p1 = "set_conn c (\<lambda>x. x\<lparr>c_state := emptyC\<rparr>) p"
  have parsed: "w_remainBand (robots_parsed k res w) = w_remainBand w" for k res w
    by (simp add: robots_parsed_def upd_stats_def upd_ns_def split: option.splits)
  have rel: "w_remainBand (p_world p') = w_remainBand (p_world q)" if "conn_release c q = Some p'" for q
    using that by (auto simp: conn_release_def conn_recycle_def freeConns_put_def Let_def upd_conn_def)
  have p1: "w_remainBand (p_world ?p1) = w_remainBand (p_world p)" by (simp add: upd_conn_def)
  from assms obtain ob where ob: "conn_object p c = Some ob" by (auto simp: endOfFile_def Let_def split: option.splits)
  show ?thesis
  proof (cases ob)
    case (Robots_obj r)
    with assms ob obtain res w buf where w: "robotsResult g (rb_server r) (c_err (pconn p c))
        (robots_parsed (rb_server r) res (p_world ?p1)) = Some w"
      and q: "conn_release c (?p1\<lparr>p_world := w, p_buf := buf\<rparr>) = Some p'"
      by (auto simp: endOfFile_def Let_def bind_Some)
    from moves_forbidden [OF moves_robotsResult [OF w]] rel [OF q] p1 parsed show ?thesis by (simp add: pool_def)
  next
    case (Html_obj h)
    with assms ob obtain w buf where w: "endOfLoad g h (c_err (pconn p c)) (p_world ?p1) = Some w"
      and q: "conn_release c (?p1\<lparr>p_world := w, p_buf := buf\<rparr>) = Some p'"
      by (auto simp: endOfFile_def Let_def bind_Some)
    from moves_forbidden [OF pool_endOfLoad [OF w]] rel [OF q] p1 show ?thesis by (simp add: pool_def)
  qed
qed

lemma for_conns_remainBand:
  assumes "\<And>c p p'. f c p = Some p' \<Longrightarrow> w_remainBand (p_world p') = w_remainBand (p_world p)"
  shows "for_conns f cs p = Some p' \<Longrightarrow> w_remainBand (p_world p') = w_remainBand (p_world p)"
  by (induction cs arbitrary: p) (auto simp: bind_Some dest: assms)

lemma checkTimeout_remainBand:
  "checkTimeout g io p = Some p' \<Longrightarrow> w_remainBand (p_world p') = w_remainBand (p_world p)"
  unfolding checkTimeout_def
proof (rule for_conns_remainBand)
  fix c q q' assume "check_timeout g io c q = Some q'"
  then show "w_remainBand (p_world q') = w_remainBand (p_world q)"
    by (auto simp: check_timeout_def failed_def set_err_def upd_conn_def dest!: endOfFile_remainBand split: if_splits)
qed

subsection \<open>Writing and reading keep the invariant\<close>

lemma pipes_ok_link: "pipes_ok g p \<Longrightarrow> conn_link (pconn p c) (p_buf p c) (p_obj p c) (p_sent p c)"
  by (simp add: pipes_ok_def link_ok_def)

lemma pipes_ok_almost:
  assumes "pipes_ok g p" "c_state (pconn p c) \<noteq> emptyC"
  shows "almost g c p"
proof -
  note pipes_ok_link [OF assms(1), of c]
  then show ?thesis using assms
    by (cases "c_state (pconn p c)") (auto simp: conn_link_def almost_def pipes_ok_def split: option.splits)
qed

text \<open>A step of one connection that stays in use.\<close>

definition conn_change :: "config \<Rightarrow> nat \<Rightarrow> pipes \<Rightarrow> pipes \<Rightarrow> bool" where
  "conn_change g c p p' \<longleftrightarrow>
     (\<forall>d. d \<noteq> c \<longrightarrow> pconn p' d = pconn p d \<and> p_buf p' d = p_buf p d \<and> p_obj p' d = p_obj p d \<and> p_sent p' d = p_sent p d) \<and>
     c_state (pconn p' c) \<noteq> emptyC \<and> c_request (pconn p' c) = c_request (pconn p c) \<and>
     c_parser (pconn p' c) = c_parser (pconn p c) \<and>
     w_freeConns (p_world p') = w_freeConns (p_world p) \<and> w_failed (p_world p') = w_failed (p_world p) \<and>
     (acc (\<lambda>_. 0) 0 (p_world p) \<longrightarrow> acc (\<lambda>_. 0) 0 (p_world p'))"

lemma conn_change_almost:
  assumes "almost g c p" "conn_change g c p p'" "length (p_buf p' c) = maxPageSize"
    "\<forall>h. p_obj p' c = Some (Html_obj h) \<longrightarrow> length (h_buf h) = maxPageSize"
  shows "almost g c p'" "others_same c p p'"
proof -
  have eq: "w_conns (p_world p') = (w_conns (p_world p))(c := pconn p' c)"
    using assms(2) by (auto simp: conn_change_def pconn_def fun_eq_iff)
  have ok: "pool_ok g {} (w_conns (p_world p), w_freeConns (p_world p), (\<lambda>k. ns_forbidden (w_ns (p_world p) k), w_remainBand (p_world p)), w_failed (p_world p))"
    and busy: "c_state (w_conns (p_world p) c) \<noteq> emptyC"
    using assms(1) by (simp_all add: almost_def pool_def pconn_def)
  have "idle g ((w_conns (p_world p))(c := pconn p' c)) = idle g (w_conns (p_world p))"
    using busy assms(2) by (auto simp: idle_def conn_change_def)
  moreover have "conn_ok g c (w_conns (p_world p) c)" using ok by (simp add: pool_ok_def)
  then have "conn_ok g c (pconn p' c)" using assms(2) busy by (simp add: conn_ok_def conn_change_def pconn_def)
  ultimately have "pool_ok g {} (pool (p_world p'))"
    using ok assms(2) eq by (simp add: pool_ok_def pool_def conn_change_def)
  moreover have "link_ok p' d" if "d \<noteq> c" for d
    using assms(1,2) that link_ok_frame [of p' d p] by (simp add: almost_def conn_change_def)
  ultimately show "almost g c p'" using assms by (simp add: almost_def conn_change_def)
  show "others_same c p p'" using assms(2) by (simp add: others_same_def conn_change_def)
qed

lemma conn_change_ok:
  assumes "almost g c p" "conn_change g c p p'" "link_ok p' c"
  shows "pipes_ok g p' \<and> others_same c p p'"
proof -
  have l: "conn_link (pconn p' c) (p_buf p' c) (p_obj p' c) (p_sent p' c)" using assms(3) by (simp add: link_ok_def)
  then have "length (p_buf p' c) = maxPageSize" "\<forall>h. p_obj p' c = Some (Html_obj h) \<longrightarrow> length (h_buf h) = maxPageSize"
    using assms(2) by (cases "c_state (pconn p' c)"; auto simp: conn_link_def conn_change_def split: option.splits)+
  note a = conn_change_almost [OF assms(1,2) this]
  from a(1) have "pool_ok g {} (pool (p_world p'))" "acc (\<lambda>_. 0) 0 (p_world p')" "\<forall>d. d \<noteq> c \<longrightarrow> link_ok p' d"
    by (simp_all add: almost_def)
  then have "pipes_ok g p'" using assms(3) by (auto simp: pipes_ok_def)
  with a(2) show ?thesis by blast
qed

lemma band_frame [simp]:
  "w_conns (band g n w) = w_conns w" "w_freeConns (band g n w) = w_freeConns w"
  "w_failed (band g n w) = w_failed w" "acc h b (band g n w) = acc h b w"
  by (simp_all add: band_def)

lemma upd_stats_frame [simp]:
  "w_conns (upd_stats f w) = w_conns w" "w_freeConns (upd_stats f w) = w_freeConns w"
  "w_failed (upd_stats f w) = w_failed w"
  by (simp_all add: upd_stats_def)

lemma upd_conn_frame [simp]:
  "w_freeConns (upd_conn c f w) = w_freeConns w" "w_failed (upd_conn c f w) = w_failed w"
  "w_conns (upd_conn c f w) = (w_conns w)(c := f (w_conns w c))"
  by (simp_all add: upd_conn_def)

lemma failed_ok:
  assumes "almost g c p" "failed g io c e p = Some p'"
  shows "pipes_ok g p' \<and> others_same c p p' \<and>
    (\<forall>h. conn_object p c = Some (Html_obj h) \<longrightarrow> e \<noteq> success \<longrightarrow> \<not> g_specificSearch g \<longrightarrow>
       (h_here h, e) \<in> set (w_failed (p_world p')))"
proof -
  have ch: "conn_change g c p (set_err c e p)"
    using assms(1) by (simp add: conn_change_def set_err_def almost_def)
  have l: "length (p_buf (set_err c e p) c) = maxPageSize"
      "\<forall>h. p_obj (set_err c e p) c = Some (Html_obj h) \<longrightarrow> length (h_buf h) = maxPageSize"
    using assms(1) by (simp_all add: almost_def set_err_def)
  note a = conn_change_almost [OF assms(1) ch l]
  have ob: "conn_object (set_err c e p) c = conn_object p c"
    by (simp add: conn_object_def set_err_def cong: option.case_cong parser.case_cong)
  have er: "c_err (pconn (set_err c e p) c) = e" by (simp add: set_err_def)
  from endOfFile_ok [OF a(1) assms(2) [unfolded failed_def]] others_same_trans [OF a(2)]
  show ?thesis unfolding ob er by blast
qed

lemma write_request_ok:
  assumes ok: "pipes_ok g p" and st: "c_state (pconn p c) = writeC" and w: "write_request g io c p = Some p'"
  shows "pipes_ok g p' \<and> others_same c p p'"
proof -
  have a: "almost g c p" using pipes_ok_almost [OF ok] st by simp
  have l: "length (p_buf p c) = maxPageSize" "p_obj p c = None" "0 \<le> c_pos (pconn p c)"
    "nat (c_pos (pconn p c)) \<le> length (the_request (pconn p c))"
    "p_sent p c = take (nat (c_pos (pconn p c))) (the_request (pconn p c))"
    using pipes_ok_link [OF ok, of c] st by (simp_all add: conn_link_def)
  let ?req = "the_request (pconn p c)" and ?pos = "nat (c_pos (pconn p c))"
  show ?thesis
  proof (cases "io_write io c")
    case (Wrote_bytes k)
    define n where "n = min k (length ?req - ?pos)"
    define p1 where "p1 = (set_conn c (\<lambda>x. x\<lparr>c_pos := c_pos x + int n\<rparr>) (p\<lparr>p_world :=
        band g n (upd_stats (\<lambda>s. s\<lparr>st_written := st_written s + n\<rparr>) (p_world p))\<rparr>))
          \<lparr>p_sent := (p_sent p)(c := p_sent p c @ take n (drop ?pos ?req))\<rparr>"
    have p': "p' = (if ?pos + n < length ?req then p1 else set_conn c (\<lambda>x. x\<lparr>c_state := openC\<rparr>) p1)"
      using w Wrote_bytes by (simp add: write_request_def Let_def n_def p1_def the_request_def split: if_splits)
    have pc: "pconn p1 d = (if d = c then (pconn p c)\<lparr>c_pos := c_pos (pconn p c) + int n\<rparr> else pconn p d)" for d
      by (simp add: p1_def pconn_def)
    have sent: "p_sent p1 c = take (?pos + n) ?req" using l(5) by (simp add: p1_def take_add)
    have rest: "p_buf p1 = p_buf p" "p_obj p1 = p_obj p" "\<forall>d. d \<noteq> c \<longrightarrow> p_sent p1 d = p_sent p d"
      "w_freeConns (p_world p1) = w_freeConns (p_world p)" "w_failed (p_world p1) = w_failed (p_world p)"
      "acc (\<lambda>_. 0) 0 (p_world p1) = acc (\<lambda>_. 0) 0 (p_world p)"
      by (simp_all add: p1_def)
    have le: "?pos + n \<le> length ?req" using l(4) by (simp add: n_def)
    have rq: "the_request ((pconn p c)\<lparr>c_pos := t\<rparr>) = ?req" "the_request ((pconn p c)\<lparr>c_pos := t, c_state := s\<rparr>) = ?req" for t s
      by (simp_all add: the_request_def)
    have nn: "nat (c_pos (pconn p c) + int n) = ?pos + n" using l(3) by simp
    have "conn_change g c p p'"
      using p' pc rest st by (auto simp: conn_change_def)
    moreover have "link_ok p' c"
    proof (cases "?pos + n < length ?req")
      case True
      then show ?thesis using p' pc rest st l le sent rq nn by (simp add: link_ok_def conn_link_def)
    next
      case False
      then have "take (?pos + n) ?req = ?req" by simp
      then show ?thesis using p' pc rest l sent rq False by (simp add: link_ok_def conn_link_def)
    qed
    ultimately show ?thesis using conn_change_ok [OF a] by blast
  next
    case Write_again
    then show ?thesis using w ok by (simp add: write_request_def Let_def others_same_def)
  next
    case Write_fails
    then show ?thesis using w failed_ok [OF a] by (simp add: write_request_def Let_def)
  qed
qed

lemma pipeWrite_ok:
  assumes ok: "pipes_ok g p" and w: "pipeWrite g io c p = Some p'"
  shows "pipes_ok g p' \<and> others_same c p p'"
proof (cases "c_state (pconn p c)")
  case connectingC
  have a: "almost g c p" using pipes_ok_almost [OF ok] connectingC by simp
  show ?thesis
  proof (cases "io_refused io c")
    case True
    then show ?thesis using w connectingC failed_ok [OF a] by (simp add: pipeWrite_def)
  next
    case False
    let ?p = "set_conn c (\<lambda>x. x\<lparr>c_state := writeC\<rparr>) p"
    have "link_ok ?p c" using pipes_ok_link [OF ok, of c] connectingC by (simp add: link_ok_def conn_link_def)
    moreover have "conn_change g c p ?p" using connectingC by (simp add: conn_change_def)
    ultimately have c: "pipes_ok g ?p" "others_same c p ?p" using conn_change_ok [OF a] by blast+
    have "write_request g io c ?p = Some p'" using w connectingC False by (simp add: pipeWrite_def)
    from write_request_ok [OF c(1) _ this] c(2) show ?thesis by (auto intro: others_same_trans)
  qed
next
  case writeC
  then show ?thesis using w write_request_ok [OF ok] by (simp add: pipeWrite_def)
qed (use w ok in \<open>auto simp: pipeWrite_def others_same_def\<close>)

lemma conn_object_ok:
  assumes "pipes_ok g p" "c_state (pconn p c) = openC" "conn_object p c = Some ob"
  shows "obj_ok (c_parser (pconn p c)) ob"
proof (cases "p_obj p c")
  case None
  have l: "length (p_buf p c) = maxPageSize" using pipes_ok_link [OF assms(1), of c] by (simp add: conn_link_def)
  show ?thesis
  proof (cases "c_parser (pconn p c)")
    case (Robots_parser k)
    then show ?thesis using assms(3) None by (auto simp: conn_object_def robots_new_def)
  next
    case (Html_parser u)
    then have "\<exists>b. ob = Html_obj \<lparr>h_here = u, h_base = Some b, h_phase = ANSWER, h_buf = p_buf p c, h_pos = 0, h_parse = 0,
        h_area = 0, h_content = 0, h_interesting = False, h_extIndex = 0, h_nbSpec = 0, h_spec = []\<rparr>"
      using assms(3) None by (auto simp: conn_object_def html_new_def)
    moreover have "\<exists>ck. u = u\<lparr>u_cookie := ck\<rparr>" by (rule exI [of _ "u_cookie u"]) simp
    ultimately show ?thesis using l Html_parser by (auto simp: maxPageSize_def)
  qed (use assms(3) None in \<open>simp add: conn_object_def\<close>)
next
  case (Some a)
  then show ?thesis using pipes_ok_link [OF assms(1), of c] assms(2,3) by (simp add: conn_link_def conn_object_def)
qed

lemma pool_parts: "pool w' = pool w \<Longrightarrow> w_conns w' = w_conns w \<and> w_freeConns w' = w_freeConns w \<and> w_failed w' = w_failed w"
  by (simp add: pool_def)

lemma obj_endInput_effect:
  assumes "obj_endInput g ob w = Some (e, ob', w')" "obj_ok pr ob"
  shows "page_steps g w w' \<and> (\<forall>h. ob' = Html_obj h \<longrightarrow> length (h_buf h) = maxPageSize)"
proof (cases ob)
  case (Robots_obj r)
  then show ?thesis using assms(1) by (auto simp: obj_endInput_def ps_refl)
next
  case (Html_obj h)
  then obtain h' where h': "html_endInput g h w = Some (e, h', w')" "ob' = Html_obj h'"
    using assms(1) by (auto simp: obj_endInput_def)
  from html_endInput_effect [OF h'(1)] h'(2) assms(2) Html_obj show ?thesis
    by (simp add: page_effect_def kept_def)
qed

lemma obj_receive_effect:
  assumes r: "obj_receive g d ob buf w = Some (e, ob', buf', w')" and ok: "obj_ok pr ob"
    and d: "length d \<le> maxPageSize - obj_pos ob - 1" "length buf = maxPageSize"
  shows "page_steps g w w' \<and> length buf' = maxPageSize \<and> (\<forall>h. ob' = Html_obj h \<longrightarrow> length (h_buf h) = maxPageSize) \<and>
    (e = None \<longrightarrow> obj_pos ob' < maxPageSize - 1 \<longrightarrow> obj_ok pr ob')"
proof (cases ob)
  case (Robots_obj rb)
  have pos: "rb_pos rb + length d \<le> maxPageSize"
  proof -
    have "rb_pos rb \<le> 65536" using Robots_obj ok by (simp add: maxRobotsSize_def)
    moreover have "length d \<le> 8388607 - rb_pos rb" using d(1) Robots_obj by (simp add: maxPageSize_def)
    ultimately show ?thesis unfolding maxPageSize_def by linarith
  qed
  obtain r' where r': "robots_inputHeaders (length d) (overwrite buf (rb_pos rb) d) rb = (e, r')"
    "ob' = Robots_obj r'" "buf' = overwrite buf (rb_pos rb) d" "w' = w"
    using r Robots_obj by (auto simp: obj_receive_def Let_def split: prod.splits)
  have "length buf' = maxPageSize" using pos d(2) r'(3) by (simp add: length_overwrite)
  moreover have "e = None \<Longrightarrow> rb_pos r' \<le> maxRobotsSize \<and> rb_server r' = rb_server rb"
    using r'(1) by (auto simp: robots_inputHeaders_def Let_def split: if_splits)
  ultimately show ?thesis using r' ok Robots_obj by (simp add: ps_refl)
next
  case (Html_obj h)
  then obtain h' where h': "html_receive g d h w = Some (e, h', w')" "ob' = Html_obj h'" "buf' = buf"
    using r by (auto simp: obj_receive_def)
  have "h_pos h + length d < length (h_buf h)"
  proof -
    have "h_pos h < 8388607" "length (h_buf h) = 8388608" using Html_obj ok by (simp_all add: maxPageSize_def)
    moreover have "length d \<le> 8388607 - h_pos h" using d(1) Html_obj by (simp add: maxPageSize_def)
    ultimately show ?thesis by linarith
  qed
  from html_receive_effect [OF h'(1) this] h'(2,3) d(2) ok Html_obj show ?thesis by auto
qed

lemma pipeRead_ok:
  assumes ok: "pipes_ok g p" and st: "c_state (pconn p c) = openC" and r: "pipeRead g io c p = Some p'"
  shows "pipes_ok g p' \<and> others_same c p p'"
proof -
  have a: "almost g c p" using pipes_ok_almost [OF ok] st by simp
  have l: "length (p_buf p c) = maxPageSize" "p_sent p c = the_request (pconn p c)"
    using pipes_ok_link [OF ok, of c] st by (simp_all add: conn_link_def)
  obtain ob where ob: "conn_object p c = Some ob" using r by (auto simp: pipeRead_def bind_Some)
  note obk = conn_object_ok [OF ok st ob]
  have ends: "pipes_ok g p' \<and> others_same c p p'" if "failed g io c e p1 = Some p'" "almost g c p1" "others_same c p p1" for e p1
    using failed_ok [OF that(2,1)] that(3) by (auto intro: others_same_trans)
  show ?thesis
  proof (cases "io_read io c")
    case (Got bytes)
    let ?d = "take (maxPageSize - obj_pos ob - 1) bytes"
    show ?thesis
    proof (cases "?d = []")
      case True
      with r ob Got obtain e ob1 w1 where e: "obj_endInput g ob (p_world p) = Some (e, ob1, w1)"
        and f: "endOfFile g io c (case e of Some err \<Rightarrow> set_err c err (set_obj c ob1 (p\<lparr>p_world := w1\<rparr>))
            | None \<Rightarrow> set_obj c ob1 (p\<lparr>p_world := w1\<rparr>)) = Some p'"
        by (auto simp: pipeRead_def bind_Some Let_def)
      let ?p1 = "set_obj c ob1 (p\<lparr>p_world := w1\<rparr>)"
      note ef = obj_endInput_effect [OF e obk]
      note w1 = pool_parts [OF page_steps_pool [OF conjunct1 [OF ef]]]
      have "conn_change g c p ?p1"
        using w1 st page_steps_acc [OF conjunct1 [OF ef]] by (simp add: conn_change_def pconn_def)
      moreover have "length (p_buf ?p1 c) = maxPageSize" "\<forall>h. p_obj ?p1 c = Some (Html_obj h) \<longrightarrow> length (h_buf h) = maxPageSize"
        using l ef by simp_all
      ultimately have p1: "almost g c ?p1" "others_same c p ?p1" using conn_change_almost [OF a] by blast+
      show ?thesis
      proof (cases e)
        case None
        then show ?thesis using endOfFile_ok [OF p1(1)] f p1(2) by (auto intro: others_same_trans)
      next
        case (Some err)
        then show ?thesis using ends [OF _ p1] f by (simp add: failed_def)
      qed
    next
      case False
      let ?w1 = "band g (length ?d) (upd_stats (\<lambda>s. s\<lparr>st_read := st_read s + length ?d\<rparr>)
                     (upd_conn c (\<lambda>x. x\<lparr>c_timeout := c_timeout x + int (length ?d) div timeoutIncr\<rparr>) (p_world p)))"
      have "(do { (e, ob1, buf1, w2) \<leftarrow> obj_receive g ?d ob (p_buf p c) ?w1;
          let p1 = set_obj c ob1 (p\<lparr>p_world := w2, p_buf := (p_buf p)(c := buf1)\<rparr>);
          case e of None \<Rightarrow> if obj_pos ob1 \<ge> maxPageSize - 1 then failed g io c tooBig p1 else Some p1
               | Some err \<Rightarrow> failed g io c err p1 }) = Some p'"
        using r ob Got False unfolding pipeRead_def Let_def by simp
      then obtain e ob1 buf1 w2 where rc: "obj_receive g ?d ob (p_buf p c) ?w1 = Some (e, ob1, buf1, w2)"
        and n: "(case e of None \<Rightarrow> if obj_pos ob1 \<ge> maxPageSize - 1
              then failed g io c tooBig (set_obj c ob1 (p\<lparr>p_world := w2, p_buf := (p_buf p)(c := buf1)\<rparr>))
              else Some (set_obj c ob1 (p\<lparr>p_world := w2, p_buf := (p_buf p)(c := buf1)\<rparr>))
            | Some err \<Rightarrow> failed g io c err (set_obj c ob1 (p\<lparr>p_world := w2, p_buf := (p_buf p)(c := buf1)\<rparr>))) = Some p'"
        unfolding Let_def bind_Some by auto
      let ?p1 = "set_obj c ob1 (p\<lparr>p_world := w2, p_buf := (p_buf p)(c := buf1)\<rparr>)"
      have "length ?d \<le> maxPageSize - obj_pos ob - 1" by simp
      note ef = obj_receive_effect [OF rc obk this l(1)]
      note w2 = pool_parts [OF page_steps_pool [OF conjunct1 [OF ef]]]
      have acc: "acc (\<lambda>_. 0) 0 (p_world p) \<Longrightarrow> acc (\<lambda>_. 0) 0 w2"
        using page_steps_acc [OF conjunct1 [OF ef], of "\<lambda>_. 0" 0] by simp
      have pc: "pconn ?p1 c = (pconn p c)\<lparr>c_timeout := c_timeout (pconn p c) + int (length ?d) div timeoutIncr\<rparr>"
        using w2 by (simp add: pconn_def)
      have "conn_change g c p ?p1"
        using w2 st acc by (simp add: conn_change_def pconn_def)
      note ch = this
      moreover have "length (p_buf ?p1 c) = maxPageSize" "\<forall>h. p_obj ?p1 c = Some (Html_obj h) \<longrightarrow> length (h_buf h) = maxPageSize"
        using ef by simp_all
      ultimately have p1: "almost g c ?p1" "others_same c p ?p1" using conn_change_almost [OF a] by blast+
      show ?thesis
      proof (cases "e = None \<and> obj_pos ob1 < maxPageSize - 1")
        case True
        have "the_request (pconn ?p1 c) = the_request (pconn p c)" unfolding pc by (simp add: the_request_def)
        moreover have "c_state (pconn ?p1 c) = openC" "c_parser (pconn ?p1 c) = c_parser (pconn p c)"
          unfolding pc using st by simp_all
        ultimately have "link_ok ?p1 c" using ef True l(2) by (simp add: link_ok_def conn_link_def)
        then show ?thesis using conn_change_ok [OF a ch] n True by simp
      next
        case False
        then obtain err where "failed g io c err ?p1 = Some p'" using n by (cases e) auto
        from ends [OF this p1] show ?thesis .
      qed
    qed
  next
    case Read_again
    then show ?thesis using r ok ob by (simp add: pipeRead_def others_same_def)
  next
    case Read_fails
    then show ?thesis using r ob failed_ok [OF a] by (simp add: pipeRead_def)
  qed
qed

subsection \<open>All connections keep the invariant\<close>

lemma for_conns_ok:
  assumes "\<And>c p p'. pipes_ok g p \<Longrightarrow> f c p = Some p' \<Longrightarrow> pipes_ok g p'"
  shows "for_conns f cs p = Some p' \<Longrightarrow> pipes_ok g p \<Longrightarrow> pipes_ok g p'"
proof (induction cs arbitrary: p)
  case (Cons c cs)
  then obtain p1 where "f c p = Some p1" "for_conns f cs p1 = Some p'" by (auto simp: bind_Some)
  with Cons.IH assms Cons.prems(2) show ?case by blast
qed simp

lemma check_timeout_ok:
  assumes ok: "pipes_ok g p" and t: "check_timeout g io c p = Some p'"
  shows "pipes_ok g p' \<and> others_same c p p'"
proof (cases "c_state (pconn p c) = emptyC")
  case True
  then show ?thesis using ok t by (simp add: check_timeout_def others_same_def)
next
  case st: False
  note a = pipes_ok_almost [OF ok st]
  show ?thesis
  proof (cases "c_timeout (pconn p c) > 0")
    case True
    let ?f = "\<lambda>x. x\<lparr>c_timeout := if c_timeout x > timeoutPage then timeoutPage else c_timeout x - 1\<rparr>"
    have p': "p' = set_conn c ?f p" using t st True by (simp add: check_timeout_def)
    have "the_request (?f x) = the_request x" for x by (simp add: the_request_def)
    then have "link_ok p' c" using pipes_ok_link [OF ok, of c] unfolding p'
      by (cases "c_state (pconn p c)") (simp_all add: link_ok_def conn_link_def split: option.splits)
    moreover have "conn_change g c p p'" using st unfolding p' by (simp add: conn_change_def)
    ultimately show ?thesis using conn_change_ok [OF a] by blast
  next
    case False
    then show ?thesis using t st failed_ok [OF a] by (simp add: check_timeout_def)
  qed
qed

lemma check_conn_ok:
  assumes "pipes_ok g p" "check_conn g io c p = Some p'"
  shows "pipes_ok g p' \<and> others_same c p p'"
  using assms pipeWrite_ok [OF assms(1)] pipeRead_ok [OF assms(1)]
  by (cases "c_state (pconn p c)") (auto simp: check_conn_def others_same_def split: if_splits)

lemma pipes_ok_world:
  assumes "pipes_ok g p" "moves g (pool (p_world p)) (pool w')" "acc (\<lambda>_. 0) 0 (p_world p) \<Longrightarrow> acc (\<lambda>_. 0) 0 w'"
  shows "pipes_ok g (p\<lparr>p_world := w'\<rparr>)"
  using assms moves_keep [OF assms(2), of "{}"] link_ok_moves [OF assms(2), of "{}"] by (simp add: pipes_ok_def)

text \<open>The whole program: the functions that the main loop calls, in any order, with whatever
  the network, the resolver, the clock and the disk answer; what comes to the queues from outside
  (the configuration, clients) is left open.\<close>

definition pipes_new :: "config \<Rightarrow> int \<Rightarrow> int \<Rightarrow> pipes" where
  "pipes_new g now d =
     \<lparr>p_world = world_new g now, p_buf = (\<lambda>_. replicate maxPageSize NUL), p_obj = (\<lambda>_. None),
      p_sent = (\<lambda>_. []), p_unset = d\<rparr>"

inductive sched_step :: "config \<Rightarrow> (string \<Rightarrow> nat option) \<Rightarrow> world \<Rightarrow> world \<Rightarrow> bool"
  for g aton where
  sched_sequencer: "sequencer g w = Some w' \<Longrightarrow> sched_step g aton w w'"
| sched_fetchOpen: "fetchOpen g w = Some w' \<Longrightarrow> sched_step g aton w w'"
| sched_fetchDns: "fetchDns g aton w = Some w' \<Longrightarrow> sched_step g aton w w'"
| sched_check: "check g u w = Some w' \<Longrightarrow> sched_step g aton w w'"
| sched_outside: "sched_step g aton w
    (w\<lparr>w_now := t, w_sockets := socks, w_answers := as, w_readPriorityWait := n, w_readWait := m\<rparr>)"
| sched_queues: "sched_step g aton w
    (w\<lparr>w_priority := q, w_disk := d, w_diskWait := dw, w_seen := seen, w_hDup := dup, w_stats := s,
       w_canReload := cr, w_printStats := ps\<rparr>)"

inductive larbin_step :: "config \<Rightarrow> (string \<Rightarrow> nat option) \<Rightarrow> pipes \<Rightarrow> pipes \<Rightarrow> bool"
  for g aton where
  larbin_sched: "sched_step g aton (p_world p) w \<Longrightarrow> larbin_step g aton p (p\<lparr>p_world := w\<rparr>)"
| larbin_checkTimeout: "checkTimeout g io p = Some p' \<Longrightarrow> larbin_step g aton p p'"
| larbin_checkAll: "checkAll g io p = Some (p', evs) \<Longrightarrow> larbin_step g aton p p'"
| larbin_band: "larbin_step g aton p (p\<lparr>p_world := (p_world p)\<lparr>w_remainBand := b\<rparr>\<rparr>)"

inductive larbin_reaches :: "config \<Rightarrow> (string \<Rightarrow> nat option) \<Rightarrow> pipes \<Rightarrow> bool" for g aton where
  larbin_init: "larbin_reaches g aton (pipes_new g now d)"
| larbin_next: "larbin_reaches g aton p \<Longrightarrow> larbin_step g aton p p' \<Longrightarrow> larbin_reaches g aton p'"

inductive_cases sched_stepE: "sched_step g aton w w'"

lemma queues_frame:
  "pool (w\<lparr>w_priority := q, w_disk := d, w_diskWait := dw, w_seen := seen, w_hDup := dup, w_stats := s,
       w_canReload := cr, w_printStats := ps\<rparr>) = pool w"
  "acc h b (w\<lparr>w_priority := q, w_disk := d, w_diskWait := dw, w_seen := seen, w_hDup := dup, w_stats := s,
       w_canReload := cr, w_printStats := ps\<rparr>) = acc h b w"
  by (simp add: pool_def) (rule acc_frame; simp)

lemma sched_moves: "sched_step g aton w w' \<Longrightarrow> moves g (pool w) (pool w')"
  by (induction rule: sched_step.induct)
    (auto intro: moves_sequencer moves_fetchOpen moves_fetchDns simp: pool_check moves_refl queues_frame)

lemma sched_acc: "sched_step g aton w w' \<Longrightarrow> acc h b w \<Longrightarrow> acc h b w'"
  by (induction rule: sched_step.induct) (auto dest: acc_sequencer acc_fetchOpen acc_fetchDns acc_check simp: queues_frame)

lemma checkTimeout_ok: "pipes_ok g p \<Longrightarrow> checkTimeout g io p = Some p' \<Longrightarrow> pipes_ok g p'"
  using for_conns_ok [of g "check_timeout g io"] check_timeout_ok unfolding checkTimeout_def by blast

lemma checkAll_ok: "pipes_ok g p \<Longrightarrow> checkAll g io p = Some (p', evs) \<Longrightarrow> pipes_ok g p'"
  using for_conns_ok [of g "check_conn g io"] check_conn_ok unfolding checkAll_def by blast

lemma sched_ok: "pipes_ok g p \<Longrightarrow> sched_step g aton (p_world p) w \<Longrightarrow> pipes_ok g (p\<lparr>p_world := w\<rparr>)"
  using pipes_ok_world sched_moves sched_acc by blast

lemma band_ok: "pipes_ok g p \<Longrightarrow> pipes_ok g (p\<lparr>p_world := (p_world p)\<lparr>w_remainBand := b\<rparr>\<rparr>)"
  by (simp add: pipes_ok_def pool_ok_def pool_def link_ok_def pconn_def)

lemma pipes_ok_step: "larbin_step g aton p p' \<Longrightarrow> pipes_ok g p \<Longrightarrow> pipes_ok g p'"
  by (induction rule: larbin_step.induct) (auto intro: sched_ok checkTimeout_ok checkAll_ok band_ok)

lemma pipes_ok_init: "pipes_ok g (pipes_new g now d)"
proof -
  have "c_state (w_conns (world_new g now) c) = emptyC" for c by (simp add: world_new_def Connexion_new_def)
  then have "link_ok (pipes_new g now d) c" for c
    by (simp add: link_ok_def conn_link_def pipes_new_def pconn_def)
  moreover have "p_world (pipes_new g now d) = world_new g now" by (simp add: pipes_new_def)
  ultimately show ?thesis using pool_ok_init acc_init by (simp add: pipes_ok_def)
qed

lemma pipes_ok_reachable: "larbin_reaches g aton p \<Longrightarrow> pipes_ok g p"
  by (induction rule: larbin_reaches.induct) (auto intro: pipes_ok_init pipes_ok_step)

subsection \<open>A silent server\<close>

text \<open>A run in which nothing is ready on connection \<open>c\<close>; the number counts the calls of
  \<open>checkTimeout\<close>.\<close>

inductive silent_run :: "config \<Rightarrow> (string \<Rightarrow> nat option) \<Rightarrow> nat \<Rightarrow> pipes \<Rightarrow> nat \<Rightarrow> pipes \<Rightarrow> bool"
  for g aton c p where
  silent_start: "silent_run g aton c p 0 p"
| silent_tick: "silent_run g aton c p n p1 \<Longrightarrow> checkTimeout g io p1 = Some p2 \<Longrightarrow> silent_run g aton c p (Suc n) p2"
| silent_all: "silent_run g aton c p n p1 \<Longrightarrow> checkAll g io p1 = Some (p2, evs) \<Longrightarrow> \<not> io_ready io c \<Longrightarrow>
    silent_run g aton c p n p2"
| silent_sched: "silent_run g aton c p n p1 \<Longrightarrow> sched_step g aton (p_world p1) w \<Longrightarrow>
    silent_run g aton c p n (p1\<lparr>p_world := w\<rparr>)"
| silent_band: "silent_run g aton c p n p1 \<Longrightarrow>
    silent_run g aton c p n (p1\<lparr>p_world := (p_world p1)\<lparr>w_remainBand := b\<rparr>\<rparr>)"

definition same_conn :: "nat \<Rightarrow> pipes \<Rightarrow> pipes \<Rightarrow> bool" where
  "same_conn c p p' \<longleftrightarrow>
     (c_state (pconn p c) \<noteq> emptyC \<longrightarrow> pconn p' c = pconn p c \<and> p_obj p' c = p_obj p c) \<and>
     set (w_failed (p_world p)) \<subseteq> set (w_failed (p_world p'))"

lemma same_conn_refl [simp]: "same_conn c p p"
  by (simp add: same_conn_def)

lemma same_conn_trans: "same_conn c p p1 \<Longrightarrow> same_conn c p1 p2 \<Longrightarrow> same_conn c p p2"
  by (auto simp: same_conn_def)

lemma others_same_conn: "others_same d p p' \<Longrightarrow> d \<noteq> c \<Longrightarrow> same_conn c p p'"
  by (auto simp: others_same_def same_conn_def)

lemma sched_same: "pipes_ok g p \<Longrightarrow> sched_step g aton (p_world p) w \<Longrightarrow> same_conn c p (p\<lparr>p_world := w\<rparr>)"
  using moves_keep [OF sched_moves, of g aton "p_world p" w "{}"] moves_failed [OF sched_moves, of g aton "p_world p" w]
  by (auto simp: same_conn_def pipes_ok_def pconn_def pool_def)

lemma for_conns_same:
  assumes "\<And>d p p'. d \<in> set cs \<Longrightarrow> pipes_ok g p \<Longrightarrow> f d p = Some p' \<Longrightarrow> pipes_ok g p' \<and> same_conn c p p'"
  shows "for_conns f cs p = Some p' \<Longrightarrow> pipes_ok g p \<Longrightarrow> pipes_ok g p' \<and> same_conn c p p'"
  using assms
proof (induction cs arbitrary: p)
  case (Cons d cs)
  then obtain p1 where p1: "f d p = Some p1" "for_conns f cs p1 = Some p'" by (auto simp: bind_Some)
  have "pipes_ok g p1 \<and> same_conn c p p1" using Cons.prems(3) [OF _ Cons.prems(2) p1(1)] by simp
  then show ?case using Cons.IH [OF p1(2)] Cons.prems(3) same_conn_trans by (metis list.set_intros(2))
qed simp

lemma for_conns_append: "for_conns f (xs @ ys) p = Option.bind (for_conns f xs p) (for_conns f ys)"
proof (induction xs arbitrary: p)
  case (Cons x xs)
  then show ?case by (cases "f x p") simp_all
qed simp

lemma checkAll_silent:
  assumes "pipes_ok g p" "checkAll g io p = Some (p', evs)" "\<not> io_ready io c"
  shows "same_conn c p p'"
proof -
  have "for_conns (check_conn g io) [0..<g_nb_conn g] p = Some p'" using assms(2) by (auto simp: checkAll_def)
  moreover have "pipes_ok g q' \<and> same_conn c q q'" if "pipes_ok g q" "check_conn g io d q = Some q'" for d q q'
  proof (cases "d = c")
    case True
    then have "q' = q" using that(2) assms(3) by (auto simp: check_conn_def split: ConnState.splits)
    then show ?thesis using that(1) by simp
  next
    case False
    then show ?thesis using check_conn_ok [OF that] others_same_conn by blast
  qed
  ultimately show ?thesis using for_conns_same assms(1) by blast
qed

definition tick :: "int \<Rightarrow> int" where
  "tick t = (if t > timeoutPage then timeoutPage else t - 1)"

text \<open>One round: the time-out of a busy connection goes down, or its page is reported.\<close>

lemma parser_object:
  assumes "pipes_ok g p" "c_state (pconn p c) \<noteq> emptyC" "c_parser (pconn p c) = Html_parser u" "conn_object p c = Some ob"
  shows "\<exists>h ck. ob = Html_obj h \<and> h_here h = u\<lparr>u_cookie := ck\<rparr>"
proof (cases "p_obj p c")
  case None
  then obtain h where "ob = Html_obj h" "h_here h = u"
    using assms(3,4) by (auto simp: conn_object_def html_new_def)
  moreover have "u = u\<lparr>u_cookie := u_cookie u\<rparr>" by simp
  ultimately show ?thesis by metis
next
  case (Some a)
  have "c_state (pconn p c) = openC"
    using pipes_ok_link [OF assms(1), of c] Some assms(2) by (cases "c_state (pconn p c)") (simp_all add: conn_link_def)
  from conn_object_ok [OF assms(1) this assms(4)] assms(3) show ?thesis by (cases ob) auto
qed

lemma checkTimeout_round:
  assumes ok: "pipes_ok g p" and t: "checkTimeout g io p = Some p'" and st: "c_state (pconn p c) \<noteq> emptyC"
    and u: "c_parser (pconn p c) = Html_parser u" and ns: "\<not> g_specificSearch g"
  shows "if c_timeout (pconn p c) > 0
    then pconn p' c = (pconn p c)\<lparr>c_timeout := tick (c_timeout (pconn p c))\<rparr> \<and> p_obj p' c = p_obj p c
    else \<exists>ck. (u\<lparr>u_cookie := ck\<rparr>, timeout) \<in> set (w_failed (p_world p'))"
proof -
  have c: "c < g_nb_conn g" using pipes_ok_almost [OF ok st] ok st
    by (auto simp: pipes_ok_def pool_ok_def pool_def conn_ok_def pconn_def split: if_splits)
  let ?f = "check_timeout g io"
  have split: "[0..<g_nb_conn g] = [0..<c] @ c # [Suc c..<g_nb_conn g]"
    using c upt_conv_Cons [OF c] upt_add_eq_append [of 0 c "g_nb_conn g - c"] by simp
  from t obtain p1 p2 where p1: "for_conns ?f [0..<c] p = Some p1" and p2: "?f c p1 = Some p2"
    and p': "for_conns ?f [Suc c..<g_nb_conn g] p2 = Some p'"
    unfolding checkTimeout_def split for_conns_append by (auto simp: bind_Some)
  have one: "pipes_ok g q' \<and> same_conn c q q'" if "d \<noteq> c" "pipes_ok g q" "?f d q = Some q'" for d q q'
    using check_timeout_ok [OF that(2,3)] others_same_conn that(1) by blast
  have s1: "pipes_ok g p1 \<and> same_conn c p p1"
  proof (rule for_conns_same [OF _ p1 ok])
    fix d q q' assume "d \<in> set [0..<c]" "pipes_ok g q" "?f d q = Some q'"
    then show "pipes_ok g q' \<and> same_conn c q q'" by (intro one [of d]) auto
  qed
  have ok2: "pipes_ok g p2" using check_timeout_ok s1 p2 by blast
  have s2: "same_conn c p2 p'"
  proof -
    have "pipes_ok g q' \<and> same_conn c q q'" if "d \<in> set [Suc c..<g_nb_conn g]" "pipes_ok g q" "?f d q = Some q'" for d q q'
      using that by (intro one [of d]) auto
    from for_conns_same [OF this p' ok2] show ?thesis by simp
  qed
  have c1: "pconn p1 c = pconn p c" "p_obj p1 c = p_obj p c" using s1 st by (simp_all add: same_conn_def)
  show ?thesis
  proof (cases "c_timeout (pconn p c) > 0")
    case True
    then have e: "p2 = set_conn c (\<lambda>x. x\<lparr>c_timeout := tick (c_timeout x)\<rparr>) p1"
      using p2 c1 st by (simp add: check_timeout_def tick_def)
    have "pconn p2 c = (pconn p c)\<lparr>c_timeout := tick (c_timeout (pconn p c))\<rparr>" "p_obj p2 c = p_obj p c"
      unfolding e using c1 by simp_all
    then show ?thesis using s2 st True by (simp add: same_conn_def)
  next
    case False
    then have f: "failed g io c timeout p1 = Some p2" using p2 c1 st by (simp add: check_timeout_def)
    have ok1: "pipes_ok g p1" and st1: "c_state (pconn p1 c) \<noteq> emptyC" using s1 c1 st by simp_all
    from f obtain ob where "conn_object (set_err c timeout p1) c = Some ob"
      by (auto simp: failed_def endOfFile_def Let_def split: option.splits)
    then have ob: "conn_object p1 c = Some ob"
      by (simp add: conn_object_def set_err_def cong: option.case_cong parser.case_cong)
    obtain h ck where h: "ob = Html_obj h" "h_here h = u\<lparr>u_cookie := ck\<rparr>"
      using parser_object [OF ok1 st1 _ ob] u c1 by auto
    have "(h_here h, timeout) \<in> set (w_failed (p_world p2))"
      using failed_ok [OF pipes_ok_almost [OF ok1 st1] f] ob h ns by auto
    then show ?thesis using s2 h False by (auto simp: same_conn_def)
  qed
qed

lemma checkTimeout_failed:
  assumes "pipes_ok g p" "checkTimeout g io p = Some p'"
  shows "set (w_failed (p_world p)) \<subseteq> set (w_failed (p_world p'))"
proof -
  have "pipes_ok g q' \<and> same_conn (g_nb_conn g) q q'" if "d \<in> set [0..<g_nb_conn g]" "pipes_ok g q"
      "check_timeout g io d q = Some q'" for d q q'
    using check_timeout_ok [OF that(2,3)] others_same_conn [of d q q' "g_nb_conn g"] that(1) by simp
  from for_conns_same [OF this assms(2) [unfolded checkTimeout_def] assms(1)]
  show ?thesis by (simp add: same_conn_def)
qed

text \<open>After \<open>n\<close> rounds the page is reported, or the time-out was positive \<open>n\<close> times.\<close>

lemma silent_run_inv:
  assumes "silent_run g aton c p n p'" "pipes_ok g p" "c_state (pconn p c) \<noteq> emptyC"
    "c_parser (pconn p c) = Html_parser u" "\<not> g_specificSearch g"
  shows "pipes_ok g p' \<and> ((\<exists>ck. (u\<lparr>u_cookie := ck\<rparr>, timeout) \<in> set (w_failed (p_world p'))) \<or>
    (pconn p' c = (pconn p c)\<lparr>c_timeout := (tick ^^ n) (c_timeout (pconn p c))\<rparr> \<and>
     (\<forall>m < n. (tick ^^ m) (c_timeout (pconn p c)) > 0)))"
  using assms
proof (induction rule: silent_run.induct)
  case silent_start
  then show ?case by simp
next
  case (silent_tick n p1 io p2)
  note IH = silent_tick.IH [OF silent_tick.prems]
  have ok2: "pipes_ok g p2" using checkTimeout_ok IH silent_tick(2) by blast
  from IH show ?case
  proof (elim conjE disjE)
    assume ok1: "pipes_ok g p1" and r: "\<exists>ck. (u\<lparr>u_cookie := ck\<rparr>, timeout) \<in> set (w_failed (p_world p1))"
    then show ?thesis using checkTimeout_failed [OF ok1 silent_tick(2)] ok2 by blast
  next
    assume ok1: "pipes_ok g p1"
      and e: "pconn p1 c = (pconn p c)\<lparr>c_timeout := (tick ^^ n) (c_timeout (pconn p c))\<rparr>"
      and pos: "\<forall>m < n. (tick ^^ m) (c_timeout (pconn p c)) > 0"
    have "c_state (pconn p1 c) \<noteq> emptyC" "c_parser (pconn p1 c) = Html_parser u"
      unfolding e using silent_tick.prems by simp_all
    from checkTimeout_round [OF ok1 silent_tick(2) this silent_tick.prems(4)]
    show ?thesis using e pos ok2 by (auto simp: less_Suc_eq split: if_splits)
  qed
next
  case (silent_all n p1 io p2 evs)
  note IH = silent_all.IH [OF silent_all.prems]
  have "pipes_ok g p2" using checkAll_ok IH silent_all(2) by blast
  moreover have "same_conn c p1 p2" using checkAll_silent IH silent_all(2,3) by blast
  moreover have "c_state (pconn p c) \<noteq> emptyC" by (rule silent_all.prems)
  ultimately show ?case using IH by (auto simp: same_conn_def)
next
  case (silent_sched n p1 w)
  note IH = silent_sched.IH [OF silent_sched.prems]
  have "pipes_ok g (p1\<lparr>p_world := w\<rparr>)" using sched_ok IH silent_sched(2) by blast
  moreover have "same_conn c p1 (p1\<lparr>p_world := w\<rparr>)" using sched_same IH silent_sched(2) by blast
  ultimately show ?case using IH silent_sched.prems(2) by (auto simp: same_conn_def)
next
  case (silent_band n p1 b)
  note IH = silent_band.IH [OF silent_band.prems]
  then show ?case using band_ok by (auto simp: pconn_def)
qed

definition rounds_left :: "int \<Rightarrow> nat" where
  "rounds_left t = (if t > timeoutPage then nat timeoutPage + 1 else nat t)"

lemma tick_small: "t \<le> timeoutPage \<Longrightarrow> (tick ^^ m) t = t - int m"
  by (induction m) (auto simp: tick_def timeoutPage_def)

lemma tick_reaches: "(tick ^^ rounds_left t) t \<le> 0"
proof (cases "t > timeoutPage")
  case True
  then have "rounds_left t = Suc (nat timeoutPage)" by (simp add: rounds_left_def)
  then have "(tick ^^ rounds_left t) t = (tick ^^ nat timeoutPage) (tick t)"
    by (simp only: funpow_Suc_right comp_apply)
  then show ?thesis using True tick_small [of timeoutPage "nat timeoutPage"] by (simp add: tick_def timeoutPage_def)
next
  case False
  then show ?thesis using tick_small [of t "nat t"] by (simp add: rounds_left_def)
qed

text \<open>The assertion of \<open>freeConns->put\<close> holds at the end of every page.\<close>

lemma page_release:
  assumes a: "almost g c p" and ob: "conn_object p c = Some (Html_obj h)" and e: "c_err (pconn p c) \<noteq> outSite"
  shows "\<exists>p'. endOfFile g io c p = Some p'"
proof -
  let ?e = "c_err (pconn p c)" and ?p1 = "set_conn c (\<lambda>x. x\<lparr>c_state := emptyC\<rparr>) p"
  have "fetch_code ?e < nbAnswers" using e by (cases ?e) (simp_all add: fetch_code_def nbAnswers_def)
  then obtain w where w: "endOfLoad g h ?e (p_world ?p1) = Some w" by (auto simp: endOfLoad_def answers_incr_def)
  have w1: "w_conns (p_world ?p1) = (w_conns (p_world p))(c := (pconn p c)\<lparr>c_state := emptyC\<rparr>)"
    "w_freeConns (p_world ?p1) = w_freeConns (p_world p)" "w_failed (p_world ?p1) = w_failed (p_world p)"
    by (simp_all add: pconn_def)
  have a1: "acc (\<lambda>_. 0) 0 (p_world ?p1)" using a by (simp add: almost_def)
  have l: "length (h_buf h) = maxPageSize" using almost_obj [OF a ob] .
  from held_release [OF a w1 pool_endOfLoad [OF w] acc_endOfLoad [OF w a1] l]
  show ?thesis using ob w by (auto simp: endOfFile_def Let_def)
qed

subsection \<open>A small crawler\<close>

definition ex_g :: config where "ex_g = default_config\<lparr>g_nb_conn := 1\<rparr>"

definition ex_url :: url where "ex_url = (url_init 5)\<lparr>u_host := Some ''a.org'', u_file := Some ''/''\<rparr>"

definition ex_io :: io where
  "ex_io = \<lparr>io_ready = (\<lambda>_. False), io_refused = (\<lambda>_. False), io_write = (\<lambda>_. Write_again),
     io_read = (\<lambda>_. Read_again), io_left = (\<lambda>_. [])\<rparr>"

definition ex_world :: world where
  "ex_world = (world_new ex_g 0)\<lparr>w_freeConns := \<lparr>r_in = 1, r_out = 1, r_size = 2, r_tab = [Some 0, None]\<rparr>\<rparr>"

text \<open>The page of \<open>ex_url\<close> is being fetched, with \<open>t\<close> left of its time.\<close>

definition ex_busy :: "int \<Rightarrow> pipes" where
  "ex_busy t = set_conn 0 (\<lambda>x. x\<lparr>c_timeout := t\<rparr>) ((pipes_new ex_g 0 0)
     \<lparr>p_world := start_request 0 (the (page_request ex_g ex_url)) (Html_parser ex_url) writeC ex_world\<rparr>)"

lemma ex_world_get: "freeConns_get (world_new ex_g 0) = Some (0, ex_world)"
  by (simp add: freeConns_get_def world_new_def ex_world_def ex_g_def ConstFifo_new_def ConstFifo_put_def
      ConstFifo_tryGet_def)

lemma ex_request: "page_request ex_g ex_url = Some (the (page_request ex_g ex_url))"
  by (simp add: page_request_def puny_def getPunycode_def ex_g_def default_config_def)

lemma ex_busy_conn:
  "pconn (ex_busy t) 0 = \<lparr>c_state = writeC, c_pos = 0, c_err = success, c_timeout = t,
     c_request = the (page_request ex_g ex_url), c_parser = Html_parser ex_url, c_peer = (0, 0)\<rparr>"
  by (simp add: ex_busy_def pconn_def start_request_def ex_world_def world_new_def Connexion_new_def)

lemma ex_busy_ok: "pipes_ok ex_g (ex_busy t)"
proof -
  let ?req = "the (page_request ex_g ex_url)"
  let ?w = "start_request 0 ?req (Html_parser ex_url) writeC ex_world"
  let ?p = "(pipes_new ex_g 0 0)\<lparr>p_world := ?w\<rparr>"
  obtain q where q: "ConstFifo_tryGet (w_freeConns (world_new ex_g 0)) = (Some 0, q)"
    "ex_world = (world_new ex_g 0)\<lparr>w_freeConns := q\<rparr>"
    using ex_world_get by (auto simp: freeConns_get_def split: prod.splits option.splits)
  have "right_request ex_g ?req (Html_parser ex_url)" using ex_request by simp
  from moves_start [OF moves_pool q(1) _ this, of writeC "(0, 0)"]
  moreover have "w_conns (world_new ex_g 0) = (\<lambda>_. Connexion_new)" by (simp add: world_new_def)
  ultimately have "moves ex_g (pool (world_new ex_g 0)) (pool ?w)"
    unfolding q(2) by (simp add: pool_def start_request_def upd_conn_def Connexion_new_def)
  moreover have "acc (\<lambda>_. 0) 0 ?w" unfolding q(2) by (simp add: acc_init)
  moreover have "p_world (pipes_new ex_g 0 0) = world_new ex_g 0" by (simp add: pipes_new_def)
  ultimately have ok: "pipes_ok ex_g ?p" using pipes_ok_world [OF pipes_ok_init, of ex_g 0 0] by simp
  have c: "pconn ?p 0 = \<lparr>c_state = writeC, c_pos = 0, c_err = success, c_timeout = timeoutPage,
     c_request = ?req, c_parser = Html_parser ex_url, c_peer = (0, 0)\<rparr>"
    by (simp add: start_request_def ex_world_def world_new_def Connexion_new_def)
  have a: "almost ex_g 0 ?p" by (rule pipes_ok_almost [OF ok]) (simp only: c; simp)
  have "conn_change ex_g 0 ?p (ex_busy t)"
    using c by (simp add: conn_change_def ex_busy_def)
  moreover have "link_ok (ex_busy t) 0"
    using pipes_ok_link [OF ok, of 0] unfolding link_ok_def ex_busy_conn c
    by (simp add: conn_link_def ex_busy_def the_request_def)
  ultimately show ?thesis using conn_change_ok [OF a] by blast
qed

subsection \<open>Properties\<close>

text \<open>C3: In every state the crawler can reach, the queue of free connections holds each connection
  that is not in use, once and nothing else, and each one in use has a parser and the
  request that belongs to it.\<close>

theorem connections_conserved:
  assumes "larbin_reaches g aton p"
  shows "distinct (ring_items (w_freeConns (p_world p))) \<and>
    set (ring_items (w_freeConns (p_world p))) = {c. c < g_nb_conn g \<and> c_state (pconn p c) = emptyC} \<and>
    (\<forall>c. c_state (pconn p c) = emptyC \<or>
       c < g_nb_conn g \<and> right_request g (c_request (pconn p c)) (c_parser (pconn p c)))"
  using pipes_ok_reachable [OF assms]
  by (auto simp: pipes_ok_def pool_ok_def pool_def idle_def conn_ok_def pconn_def)

theorem connections_conserved_witness:
  "set (ring_items (w_freeConns (p_world (pipes_new default_config 0 0)))) =
    {c. c < 20 \<and> c_state (pconn (pipes_new default_config 0 0) c) = emptyC}"
  using connections_conserved [OF larbin_init [of default_config "\<lambda>_. None" 0 0]]
  by (simp add: default_config_def)

text \<open>C10: The server receives the request and nothing else: in every state the crawler can reach,
  what was written to the socket of a connection is a prefix of its request, and all of it
  when the answer is being read.\<close>

theorem request_sent:
  assumes "larbin_reaches g aton p"
  shows "case c_state (pconn p c) of
      emptyC \<Rightarrow> p_sent p c = []
    | openC \<Rightarrow> p_sent p c = the_request (pconn p c)
    | _ \<Rightarrow> p_sent p c = take (nat (c_pos (pconn p c))) (the_request (pconn p c))"
  using pipes_ok_link [OF pipes_ok_reachable [OF assms], of c]
  by (auto simp: conn_link_def split: ConnState.splits)

theorem request_sent_witness:
  "case c_state (pconn (pipes_new default_config 0 0) 3) of
      emptyC \<Rightarrow> p_sent (pipes_new default_config 0 0) 3 = []
    | openC \<Rightarrow> p_sent (pipes_new default_config 0 0) 3 = the_request (pconn (pipes_new default_config 0 0) 3)
    | _ \<Rightarrow> p_sent (pipes_new default_config 0 0) 3 =
        take (nat (c_pos (pconn (pipes_new default_config 0 0) 3))) (the_request (pconn (pipes_new default_config 0 0) 3))"
  by (rule request_sent [OF larbin_init [of default_config "\<lambda>_. None" 0 0]])

text \<open>C30: The end of a page always succeeds: a connection in use can be given back (the assertion
  of \<open>freeConns->put\<close> holds), whatever happened to its page.\<close>

theorem page_end_returns:
  assumes "pipes_ok g p" "c_state (pconn p c) \<noteq> emptyC" "conn_object p c = Some (Html_obj h)"
    "c_err (pconn p c) \<noteq> outSite"
  shows "\<exists>p'. endOfFile g io c p = Some p'"
  using page_release [OF pipes_ok_almost [OF assms(1,2)] assms(3,4)] .

lemma ex_busy_object: "\<exists>h. conn_object (ex_busy t) 0 = Some (Html_obj h)"
proof -
  have "p_obj (ex_busy t) 0 = None" by (simp add: ex_busy_def pipes_new_def)
  then show ?thesis unfolding conn_object_def ex_busy_conn
    by (simp add: html_new_def giveBase_def ex_url_def file_str_def at_nul_def)
qed

theorem page_end_returns_witness: "\<exists>p'. endOfFile ex_g ex_io 0 (ex_busy 7) = Some p'"
proof -
  obtain h where "conn_object (ex_busy 7) 0 = Some (Html_obj h)" using ex_busy_object by blast
  from page_end_returns [OF ex_busy_ok _ this] show ?thesis by (simp add: ex_busy_conn)
qed

text \<open>C11: A server that falls silent does not keep its connection: whatever else the crawler does
  in between, after as many calls of \<open>checkTimeout\<close> as its time-out says (at most 32) the page has
  been reported as timed out.\<close>

theorem timeout_reported:
  assumes "pipes_ok g p" "c_state (pconn p c) \<noteq> emptyC" "c_parser (pconn p c) = Html_parser u"
    "\<not> g_specificSearch g" "silent_run g aton c p n p'" "rounds_left (c_timeout (pconn p c)) < n"
  shows "\<exists>ck. (u\<lparr>u_cookie := ck\<rparr>, timeout) \<in> set (w_failed (p_world p'))"
proof -
  have "\<not> (\<forall>m < n. (tick ^^ m) (c_timeout (pconn p c)) > 0)"
    using assms(6) tick_reaches [of "c_timeout (pconn p c)"] by (auto simp: not_less)
  then show ?thesis using silent_run_inv [OF assms(5,1,2,3,4)] by blast
qed


theorem timeout_reported_witness:
  "\<exists>p' ck. checkTimeout ex_g ex_io (ex_busy 0) = Some p' \<and>
     (ex_url\<lparr>u_cookie := ck\<rparr>, timeout) \<in> set (w_failed (p_world p'))"
proof -
  let ?p = "ex_busy 0"
  have a: "almost ex_g 0 ?p" by (rule pipes_ok_almost [OF ex_busy_ok]) (simp add: ex_busy_conn)
  have l: "length (p_buf (set_err 0 timeout ?p) 0) = maxPageSize"
    "\<forall>h. p_obj (set_err 0 timeout ?p) 0 = Some (Html_obj h) \<longrightarrow> length (h_buf h) = maxPageSize"
    using a by (simp_all add: almost_def set_err_def)
  have "conn_change ex_g 0 ?p (set_err 0 timeout ?p)"
    by (simp add: conn_change_def set_err_def ex_busy_conn)
  note a1 = conn_change_almost(1) [OF a this l]
  obtain h where "conn_object ?p 0 = Some (Html_obj h)" using ex_busy_object by blast
  then have "conn_object (set_err 0 timeout ?p) 0 = Some (Html_obj h)"
    by (simp add: conn_object_def set_err_def cong: option.case_cong parser.case_cong)
  from page_release [OF a1 this] obtain p' where "failed ex_g ex_io 0 timeout ?p = Some p'"
    by (auto simp: failed_def set_err_def)
  then have t: "checkTimeout ex_g ex_io ?p = Some p'"
    by (simp add: checkTimeout_def check_timeout_def ex_g_def ex_busy_conn)
  have "silent_run ex_g (\<lambda>_. None) 0 ?p 1 p'"
    using silent_tick [OF silent_start t] by simp
  from timeout_reported [OF ex_busy_ok _ _ _ this, of ex_url] t show ?thesis
    by (simp add: ex_busy_conn rounds_left_def timeoutPage_def ex_g_def default_config_def)
qed

text \<open>The forbidden names of a site are not reset: neither when the site is given to another host
  (\<open>newId\<close>), nor when robots.txt is missing or its answer was an error. The rules of the previous
  host of the same hash then apply to the new one.\<close>

theorem forbidden_not_reset:
  assumes "conn_object p c = Some (Robots_obj r)" "\<not> rb_answerCode r" "endOfFile g io c p = Some p'"
  shows "map_option (\<lambda>w1. ns_forbidden (w_ns w1 k)) (ns_newId g k w) =
      map_option (\<lambda>_. ns_forbidden (w_ns w k)) (ns_newId g k w) \<and>
    testRobots g (w_ns (p_world p') k) name = testRobots g (w_ns (p_world p) k) name"
proof
  have n: "ns_forbidden (w_ns w1 k) = ns_forbidden (w_ns w k)" if "ns_newId g k w = Some w1" for w1
    using pool_ops(5) [OF that] by (auto simp: pool_def dest: fun_cong)
  show "map_option (\<lambda>w1. ns_forbidden (w_ns w1 k)) (ns_newId g k w) =
      map_option (\<lambda>_. ns_forbidden (w_ns w k)) (ns_newId g k w)"
    using n by (cases "ns_newId g k w") simp_all
  let ?w = "p_world (set_conn c (\<lambda>x. x\<lparr>c_state := emptyC\<rparr>) p)"
  obtain w' buf where w': "robotsResult g (rb_server r) (c_err (pconn p c)) ?w = Some w'"
    and rel: "conn_release c ((set_conn c (\<lambda>x. x\<lparr>c_state := emptyC\<rparr>) p)\<lparr>p_world := w', p_buf := buf\<rparr>) = Some p'"
    using assms by (auto simp: endOfFile_def Let_def bind_Some robots_parse_def robots_parsed_def)
  have "ns_forbidden (w_ns w' k) = ns_forbidden (w_ns (p_world p) k)"
    using moves_forbidden [OF moves_robotsResult [OF w']] by (auto simp: pool_def upd_conn_def dest: fun_cong)
  moreover have "w_ns (p_world p') = w_ns w'"
    using rel by (auto simp: conn_release_def conn_recycle_def freeConns_put_def Let_def upd_conn_def)
  ultimately show "testRobots g (w_ns (p_world p') k) name = testRobots g (w_ns (p_world p) k) name"
    by (simp add: testRobots_def)
qed

definition ex_robots :: pipes where
  "ex_robots = (pipes_new ex_g 0 0)\<lparr>p_world := (upd_conn 0 (\<lambda>x. x\<lparr>c_state := openC, c_err := err40X, c_parser := Robots_parser 7\<rparr>)
      (upd_ns 7 (\<lambda>s. s\<lparr>ns_forbidden := [''/'']\<rparr>) ex_world))\<rparr>"

theorem forbidden_not_reset_witness:
  "\<exists>p'. endOfFile ex_g ex_io 0 ex_robots = Some p' \<and>
     \<not> testRobots ex_g (w_ns (p_world p') 7) ''/index.html''"
proof -
  have o: "conn_object ex_robots 0 = Some (Robots_obj (robots_new 7))"
    by (simp add: conn_object_def ex_robots_def pipes_new_def pconn_def)
  have f: "Fifo_isEmpty (ConstFifo_new 63 :: url ring)" "Fifo_getLength (ConstFifo_new 63 :: url ring) = 0"
    by (simp_all add: ConstFifo_new_def Fifo_isEmpty_def Fifo_getLength_def)
  have "\<exists>p'. endOfFile ex_g ex_io 0 ex_robots = Some p'"
    unfolding endOfFile_def o using f
    by (simp add: ex_robots_def Let_def robots_parse_def robots_new_def robots_parsed_def robotsResult_def
        ns_fifoLength_def ns_settle_def upd_ns_def ex_world_def world_new_def NamedSite_new_def maxUrlsBySite_def
        conn_release_def conn_recycle_def freeConns_put_def ConstFifo_put_def upd_conn_def)
  then obtain p' where p': "endOfFile ex_g ex_io 0 ex_robots = Some p'" by blast
  have "\<not> testRobots ex_g (w_ns (p_world ex_robots) 7) ''/index.html''"
    by (simp add: testRobots_def ex_robots_def upd_ns_def upd_conn_def ex_g_def default_config_def robotsMatch.simps)
  with forbidden_not_reset [OF o _ p', of 7 ex_world "''/index.html''"] p' show ?thesis
    by (auto simp: robots_new_def)
qed

end
