(* ===== verification/Input.thy ===== *)
theory Input
  imports Pipe
begin

section \<open>Urls from outside (src/io/input.cxx)\<close>

text \<open>
  Clients connect to a port and send lines, the first one with the parameters of the others.
  An input connection keeps what it has read in an array: \<open>in_pos\<close> is the beginning of the
  current line, \<open>in_end_pos\<close> the end of the bytes read, \<open>in_end_posp\<close> how far they have been
  searched for a newline. What the sockets give is an argument. A result \<open>None\<close> is a failed
  assertion or an access outside the array.
\<close>

record input_conn =
  in_fds :: nat
  in_pos :: nat
  in_end_pos :: nat
  in_end_posp :: nat
  in_priority :: int
  in_depth :: nat
  in_test :: nat
  in_buf :: string

definition maxInput :: nat where "maxInput = 5"

definition INIT :: int where "INIT = - 1"

definition END :: int where "END = - 2"

subsection \<open>Bytes and lines\<close>

definition shift_buffer :: "input_conn \<Rightarrow> input_conn" where
  "shift_buffer i =
     (if 2 * in_pos i > BUF_SIZE then
        (let n = in_end_pos i - in_pos i in
         i\<lparr>in_end_pos := n, in_end_posp := n,
           in_buf := overwrite (in_buf i) 0 (take n (drop (in_pos i) (in_buf i))), in_pos := 0\<rparr>)
      else i)"

definition readMore :: "read_result \<Rightarrow> input_conn \<Rightarrow> (bool \<times> input_conn) option" where
  "readMore res i =
     (if in_end_posp i \<noteq> in_end_pos i then None
      else if in_end_posp i - in_pos i > maxUrlSize + 100 then Some (False, i\<lparr>in_priority := END\<rparr>)
      else
        (let i1 = shift_buffer i in
         case res of
           Read_again \<Rightarrow> Some (False, i1)
         | Read_fails \<Rightarrow> Some (False, i1\<lparr>in_priority := END\<rparr>)
         | Got bytes \<Rightarrow>
             let d = take (BUF_SIZE - in_end_pos i1) bytes in
             if d = [] then Some (False, i1\<lparr>in_priority := END\<rparr>)
             else Some (True, i1\<lparr>in_buf := overwrite (in_buf i1) (in_end_pos i1) d,
                                 in_end_pos := in_end_pos i1 + length d\<rparr>)))"

function find_newline :: "string \<Rightarrow> nat \<Rightarrow> nat \<Rightarrow> nat" where
  "find_newline buf e p = (if p < e \<and> buf ! p \<noteq> NL then find_newline buf e (p + 1) else p)"
  by pat_completeness auto

termination
  by (relation "measure (\<lambda>(buf, e, p). e - p)") auto

declare find_newline.simps [simp del]

definition readline :: "input_conn \<Rightarrow> (string option \<times> input_conn) option" where
  "readline i =
     (let p = find_newline (in_buf i) (in_end_pos i) (in_end_posp i) in
      if p = in_end_pos i then Some (None, i\<lparr>in_end_posp := p\<rparr>)
      else if p = 0 then None
      else
        let buf = (if in_buf i ! (p - 1) = CR then (in_buf i)[p - 1 := NUL] else (in_buf i)[p := NUL]) in
        Some (Some (c_string buf (in_pos i)), i\<lparr>in_buf := buf, in_pos := p + 1, in_end_posp := p + 1\<rparr>))"

subsection \<open>The first line\<close>

text \<open>\<open>sscanf\<close>: a blank of the format skips any blanks, \<open>%d\<close> and \<open>%u\<close> skip them too and take a
  sign.\<close>

definition scan_lit :: "string \<Rightarrow> string \<Rightarrow> string option" where
  "scan_lit l s = (if take (length l) s = l then Some (drop (length l) s) else None)"

definition scan_num :: "string \<Rightarrow> (int \<times> string) option" where
  "scan_num s =
     (let t = dropWhile is_space s;
          neg = (t \<noteq> [] \<and> hd t = CHR ''-'');
          u = (if t \<noteq> [] \<and> hd t \<in> {CHR ''-'', CHR ''+''} then tl t else t);
          ds = takeWhile is_digit u
      in if ds = [] then None
         else Some (if neg then - int (dec_val ds) else int (dec_val ds), dropWhile is_digit u))"

definition scan_params :: "string \<Rightarrow> (int \<times> nat \<times> nat) option" where
  "scan_params s =
     do {
       s1 \<leftarrow> scan_lit ''priority:'' s;
       (p, s2) \<leftarrow> scan_num s1;
       s3 \<leftarrow> scan_lit ''depth:'' (dropWhile is_space s2);
       (d, s4) \<leftarrow> scan_num s3;
       s5 \<leftarrow> scan_lit ''test:'' (dropWhile is_space s4);
       (t, s6) \<leftarrow> scan_num s5;
       Some (s32 p, nat (d mod 2 ^ 32), nat (t mod 2 ^ 32))
     }"

subsection \<open>A url\<close>

definition count_url :: "world \<Rightarrow> world" where
  "count_url w = upd_stats (\<lambda>s. s\<lparr>st_hashUrls := st_hashUrls s + 1\<rparr>) w"

definition keep_url :: "config \<Rightarrow> int \<Rightarrow> url \<Rightarrow> world \<Rightarrow> world option" where
  "keep_url g priority u w =
     (if priority \<noteq> 0 then Some (w\<lparr>w_priority := SyncFifo_put u (w_priority w)\<rparr>)
      else map_option (\<lambda>d. w\<lparr>w_disk := d\<rparr>) (pf_put (g_useCookies g) (w_canReload w) u (w_disk w)))"

definition submit_url :: "config \<Rightarrow> int \<Rightarrow> nat \<Rightarrow> nat \<Rightarrow> string \<Rightarrow> world \<Rightarrow> world option" where
  "submit_url g priority depth test line w =
     do {
       u \<leftarrow> url_line line (s32 (int depth));
       if isValid u then
         (if test \<noteq> 0 then
            (case hashTable_testSet u (w_seen w) of
               (new, t) \<Rightarrow>
                 let w1 = w\<lparr>w_seen := t\<rparr> in
                 if new then keep_url g priority u (count_url w1) else Some w1)
          else keep_url g priority u ((count_url w)\<lparr>w_seen := hashTable_set u (w_seen w)\<rparr>))
       else Some w
     }"

text \<open>What is done with a line; the flag says whether to read another one.\<close>

definition input_line :: "config \<Rightarrow> string \<Rightarrow> input_conn \<Rightarrow> world \<Rightarrow> (bool \<times> input_conn \<times> world) option" where
  "input_line g line i w =
     (if in_priority i = INIT then
        (case scan_params line of
           Some (p, d, t) \<Rightarrow> Some (True, i\<lparr>in_priority := p, in_depth := d, in_test := t\<rparr>, w)
         | None \<Rightarrow> Some (False, i\<lparr>in_priority := END\<rparr>, w))
      else map_option (\<lambda>w'. (True, i, w')) (submit_url g (in_priority i) (in_depth i) (in_test i) line w))"

partial_function (option) lines_loop :: "config \<Rightarrow> input_conn \<Rightarrow> world \<Rightarrow> (input_conn \<times> world) option" where
  "lines_loop g i w =
     do {
       (l, i1) \<leftarrow> readline i;
       (case l of
          None \<Rightarrow> Some (i1, w)
        | Some line \<Rightarrow> do {
            (more, i2, w2) \<leftarrow> input_line g line i1 w;
            if more then lines_loop g i2 w2 else Some (i2, w2) })
     }"

definition input_conn_step ::
    "config \<Rightarrow> bool \<Rightarrow> read_result \<Rightarrow> input_conn \<Rightarrow> world \<Rightarrow> (input_conn \<times> world) option" where
  "input_conn_step g ready res i w =
     (if ready then do { (got, i1) \<leftarrow> readMore res i; if got then lines_loop g i1 w else Some (i1, w) }
      else Some (i, w))"

subsection \<open>All input connections\<close>

text \<open>\<open>nbInput\<close> connections of the array are open; \<open>None\<close> stands for the negative value of a
  disabled input.\<close>

record inputs =
  i_conns :: "input_conn list"
  i_nb :: "nat option"

record input_io =
  ii_accept :: "nat option"
  ii_ready :: "nat \<Rightarrow> bool"
  ii_read :: "nat \<Rightarrow> read_result"

definition fresh_input :: "nat \<Rightarrow> input_conn \<Rightarrow> input_conn" where
  "fresh_input fd c = c\<lparr>in_fds := fd, in_pos := 0, in_end_pos := 0, in_end_posp := 0, in_priority := INIT\<rparr>"

definition initInput :: "bool \<Rightarrow> input_conn list \<Rightarrow> inputs" where
  "initInput port cs = \<lparr>i_conns = cs, i_nb = (if port then Some 0 else None)\<rparr>"

definition accept_input :: "input_io \<Rightarrow> nat \<Rightarrow> input_conn list \<Rightarrow> nat \<times> input_conn list" where
  "accept_input io nb cs =
     (case ii_accept io of
        Some fd \<Rightarrow>
          (if nb < maxInput - 1 then
             (nb + 1, cs[nb := fresh_input fd (cs ! nb)])
           else (nb, cs))
      | None \<Rightarrow> (nb, cs))"

function input_loop ::
    "config \<Rightarrow> input_io \<Rightarrow> nat \<Rightarrow> nat \<Rightarrow> input_conn list \<Rightarrow> world \<Rightarrow> nat list \<Rightarrow>
       (nat \<times> input_conn list \<times> world \<times> nat list) option" where
  "input_loop g io k nb cs w polls =
     (if k < nb then
        (case input_conn_step g (ii_ready io (in_fds (cs ! k))) (ii_read io (in_fds (cs ! k))) (cs ! k) w of
           None \<Rightarrow> None
         | Some (i, w1) \<Rightarrow>
             if in_priority i = END then
               input_loop g io k (nb - 1) (cs[k := (cs[k := i]) ! (nb - 1), nb - 1 := i]) w1 polls
             else input_loop g io (k + 1) nb (cs[k := i]) w1 (polls @ [in_fds i]))
      else Some (nb, cs, w, polls))"
  by pat_completeness auto

termination
  by (relation "measure (\<lambda>(g, io, k, nb, cs, w, polls). nb - k)") auto

declare input_loop.simps [simp del]

text \<open>The descriptors to poll for reading; \<open>listener\<close> is \<open>inputFds\<close>.\<close>

definition input ::
    "config \<Rightarrow> nat \<Rightarrow> input_io \<Rightarrow> inputs \<Rightarrow> world \<Rightarrow> (inputs \<times> world \<times> nat list) option" where
  "input g listener io s w =
     (case i_nb s of
        None \<Rightarrow> Some (s, w, [])
      | Some nb \<Rightarrow>
          (case accept_input io nb (i_conns s) of (nb1, cs1) \<Rightarrow>
             map_option (\<lambda>(nb2, cs2, w2, polls). (\<lparr>i_conns = cs2, i_nb = Some nb2\<rparr>, w2, polls))
               (input_loop g io 0 nb1 cs1 w (if nb1 < maxInput - 1 then [listener] else []))))"

subsection \<open>The bytes not yet given out\<close>

definition in_rest :: "input_conn \<Rightarrow> string" where
  "in_rest i = take (in_end_pos i - in_pos i) (drop (in_pos i) (in_buf i))"

lemma in_rest_frame [simp]:
  "in_rest (i\<lparr>in_priority := p\<rparr>) = in_rest i" "in_rest (i\<lparr>in_depth := d\<rparr>) = in_rest i"
  "in_rest (i\<lparr>in_test := t\<rparr>) = in_rest i" "in_rest (i\<lparr>in_end_posp := e\<rparr>) = in_rest i"
  by (simp_all add: in_rest_def)

text \<open>The byte before the line is the end of the line before, not a carriage return.\<close>

definition in_inv :: "input_conn \<Rightarrow> bool" where
  "in_inv i \<longleftrightarrow> length (in_buf i) = BUF_SIZE \<and> in_pos i \<le> in_end_posp i \<and> in_end_posp i \<le> in_end_pos i \<and>
     in_end_pos i \<le> BUF_SIZE \<and> NL \<notin> set (take (in_end_posp i - in_pos i) (in_rest i)) \<and>
     (in_pos i > 0 \<longrightarrow> in_buf i ! (in_pos i - 1) \<noteq> CR)"

lemma in_inv_frame [simp]:
  "in_inv (i\<lparr>in_priority := p\<rparr>) = in_inv i" "in_inv (i\<lparr>in_depth := d\<rparr>) = in_inv i"
  "in_inv (i\<lparr>in_test := t\<rparr>) = in_inv i"
  by (simp_all add: in_inv_def)

lemma length_in_rest: "in_inv i \<Longrightarrow> length (in_rest i) = in_end_pos i - in_pos i"
  by (auto simp: in_inv_def in_rest_def)

lemma find_newline_takeWhile:
  "p \<le> e \<Longrightarrow> e \<le> length buf \<Longrightarrow>
     find_newline buf e p = p + length (takeWhile (\<lambda>c. c \<noteq> NL) (take (e - p) (drop p buf)))"
proof (induction buf e p rule: find_newline.induct)
  case (1 buf e p)
  show ?case
  proof (cases "p < e")
    case True
    then have "drop p buf = buf ! p # drop (Suc p) buf" using "1.prems" by (simp add: Cons_nth_drop_Suc)
    moreover have "e - p = Suc (e - Suc p)" using True by simp
    ultimately show ?thesis using 1 True by (subst find_newline.simps) simp
  next
    case False
    then show ?thesis using "1.prems" by (subst find_newline.simps) simp
  qed
qed

lemma takeWhile_skip:
  "\<forall>x\<in>set (take n xs). P x \<Longrightarrow> n + length (takeWhile P (drop n xs)) = length (takeWhile P xs)"
  if "n \<le> length xs"
  using that
proof (induction n arbitrary: xs)
  case (Suc n)
  then show ?case by (cases xs) auto
qed simp

lemma in_inv_newline:
  assumes "in_inv i"
  shows "find_newline (in_buf i) (in_end_pos i) (in_end_posp i) =
    in_pos i + length (takeWhile (\<lambda>c. c \<noteq> NL) (in_rest i))"
proof -
  let ?n = "in_end_posp i - in_pos i"
  have "?n \<le> length (in_rest i)" using assms by (auto simp: in_inv_def in_rest_def)
  moreover have "\<forall>x\<in>set (take ?n (in_rest i)). x \<noteq> NL" using assms by (auto simp: in_inv_def)
  ultimately have "?n + length (takeWhile (\<lambda>c. c \<noteq> NL) (drop ?n (in_rest i))) =
      length (takeWhile (\<lambda>c. c \<noteq> NL) (in_rest i))" by (rule takeWhile_skip)
  moreover have d: "drop ?n (in_rest i) = take (in_end_pos i - in_end_posp i) (drop (in_end_posp i) (in_buf i))"
    using assms by (simp add: in_inv_def in_rest_def drop_take)
  have "find_newline (in_buf i) (in_end_pos i) (in_end_posp i) = in_end_posp i +
      length (takeWhile (\<lambda>c. c \<noteq> NL) (drop ?n (in_rest i)))"
    unfolding d using assms by (intro find_newline_takeWhile) (auto simp: in_inv_def)
  moreover have "in_pos i \<le> in_end_posp i" using assms by (simp add: in_inv_def)
  ultimately show ?thesis by linarith
qed

lemma takeWhile_stop: "\<not> P y \<Longrightarrow> takeWhile P (xs @ y # ys) = takeWhile P xs"
  by (induction xs) auto

text \<open>What the url parser sees of a line.\<close>

definition clean :: "string \<Rightarrow> string" where
  "clean l = takeWhile (\<lambda>c. c \<noteq> NUL) (if l \<noteq> [] \<and> last l = CR then butlast l else l)"

lemma readline_none:
  assumes "in_inv i" "NL \<notin> set (in_rest i)"
  shows "readline i = Some (None, i\<lparr>in_end_posp := in_end_pos i\<rparr>)"
    and "in_inv (i\<lparr>in_end_posp := in_end_pos i\<rparr>)"
proof -
  have w: "takeWhile (\<lambda>c. c \<noteq> NL) (in_rest i) = in_rest i" using assms(2) by (auto simp: takeWhile_eq_all_conv)
  have "in_pos i \<le> in_end_pos i" using assms(1) by (simp add: in_inv_def)
  then have "find_newline (in_buf i) (in_end_pos i) (in_end_posp i) = in_end_pos i"
    unfolding in_inv_newline [OF assms(1)] w length_in_rest [OF assms(1)] by simp
  then show "readline i = Some (None, i\<lparr>in_end_posp := in_end_pos i\<rparr>)" by (simp add: readline_def Let_def)
  show "in_inv (i\<lparr>in_end_posp := in_end_pos i\<rparr>)"
    using assms by (auto simp: in_inv_def in_rest_def dest: in_set_takeD)
qed


lemma readline_some:
  assumes "in_inv i" "in_rest i = l @ NL # r" "NL \<notin> set l" "l \<noteq> [] \<or> in_pos i > 0"
  obtains i' where "readline i = Some (Some (clean l), i')" "in_inv i'" "in_rest i' = r"
    "in_priority i' = in_priority i" "in_depth i' = in_depth i" "in_test i' = in_test i"
    "in_end_pos i' = in_end_pos i" "in_pos i' > 0"
proof -
  let ?b = "in_buf i" let ?q = "in_pos i + length l"
  define b where "b = (if ?b ! (?q - 1) = CR then ?b[?q - 1 := NUL] else ?b[?q := NUL])"
  define i' where "i' = i\<lparr>in_buf := b, in_pos := ?q + 1, in_end_posp := ?q + 1\<rparr>"
  have "takeWhile (\<lambda>c. c \<noteq> NL) (in_rest i) = l"
    unfolding assms(2) using assms(3) by (subst takeWhile_append2) auto
  then have nl: "find_newline ?b (in_end_pos i) (in_end_posp i) = ?q" using in_inv_newline [OF assms(1)] by simp
  have len: "in_end_pos i - in_pos i = length l + 1 + length r"
    using length_in_rest [OF assms(1)] unfolding assms(2) by simp
  have inv: "length ?b = BUF_SIZE" "in_end_pos i \<le> BUF_SIZE" "in_pos i > 0 \<longrightarrow> ?b ! (in_pos i - 1) \<noteq> CR"
    "in_pos i \<le> in_end_pos i" using assms(1) by (auto simp: in_inv_def)
  have d: "take (in_end_pos i - in_pos i) (drop (in_pos i) ?b) = l @ NL # r" using assms(2) by (simp add: in_rest_def)
  then obtain e where e: "drop (in_pos i) ?b = l @ NL # r @ e"
    by (metis append.assoc append_Cons append_take_drop_id)
  then have b: "?b = take (in_pos i) ?b @ l @ NL # r @ e" by (metis append_take_drop_id)
  have q: "?q < in_end_pos i" using len inv(4) by linarith
  have p: "length (take (in_pos i) ?b) = in_pos i" using inv q by simp
  have at_q: "?b ! ?q = NL" using p by (subst b) (simp add: nth_append)
  have r1: "drop (?q + 1) b = r @ e"
    by (auto simp: b_def) (subst b, use p in simp)+
  have rd: "readline i = Some (Some (c_string b (in_pos i)), i')"
    using q assms(4) by (auto simp: readline_def nl Let_def b_def i'_def)
  have upd: "?b[in_pos i + k := y] = take (in_pos i) ?b @ (l @ NL # r @ e)[k := y]" for k y
    using p by (subst b) (simp add: list_update_append)
  have c: "c_string b (in_pos i) = clean l"
  proof (cases "l = []")
    case True
    then have "b = ?b[?q := NUL]" using inv(3) assms(4) by (simp add: b_def)
    also have "\<dots> = take (in_pos i) ?b @ NUL # r @ e"
      using True p by (subst b) (simp add: list_update_append)
    finally show ?thesis using True p by (simp add: c_string_def clean_def)
  next
    case False
    then obtain l' x where l: "l = l' @ [x]" by (metis rev_exhaust)
    have "?b ! (?q - 1) = x" using p by (subst b) (simp add: l nth_append)
    then have "b = take (in_pos i) ?b @ (if x = CR then l' @ [NUL, NL] else l @ [NUL]) @ r @ e"
      using upd [of "length l'" NUL] upd [of "length l" NUL] by (auto simp: b_def l list_update_append)
    then show ?thesis using p by (simp add: c_string_def clean_def l takeWhile_stop takeWhile_stop [of _ NUL "l' @ [x]", simplified])
  qed
  have "length b = BUF_SIZE" using inv(1) by (simp add: b_def)
  moreover have "in_rest i' = r" using len r1 by (simp add: i'_def in_rest_def)
  have ends: "NUL \<noteq> CR" "NL \<noteq> CR" by (simp_all add: NUL_def NL_def CR_def)
  moreover have "b ! ?q \<noteq> CR" using at_q q inv ends by (auto simp: b_def nth_list_update)
  ultimately have "in_inv i'" using q inv(2) by (simp add: in_inv_def i'_def)
  then show thesis using that [of i'] rd c \<open>in_rest i' = r\<close> by (simp add: i'_def)
qed

subsection \<open>The stream of a client\<close>

text \<open>What a client means: lines, the first one with the parameters. Whatever the pieces in which
  it arrives.\<close>

fun split_lines :: "string \<Rightarrow> string list \<times> string" where
  "split_lines [] = ([], [])"
| "split_lines (c # cs) =
     (case split_lines cs of (ls, r) \<Rightarrow>
        if c = NL then ([] # ls, r)
        else (case ls of [] \<Rightarrow> ([], c # r) | l # ls' \<Rightarrow> ((c # l) # ls', r)))"

fun feed_lines :: "config \<Rightarrow> string list \<Rightarrow> int \<times> nat \<times> nat \<Rightarrow> world \<Rightarrow> ((int \<times> nat \<times> nat) \<times> world) option" where
  "feed_lines g [] st w = Some (st, w)"
| "feed_lines g (l # ls) (p, d, t) w =
     (if p = INIT then
        (case scan_params l of
           Some st \<Rightarrow> feed_lines g ls st w
         | None \<Rightarrow> Some ((END, d, t), w))
      else Option.bind (submit_url g p d t l w) (feed_lines g ls (p, d, t)))"

definition in_params :: "input_conn \<Rightarrow> int \<times> nat \<times> nat" where
  "in_params i = (in_priority i, in_depth i, in_test i)"

lemma fst_in_params: "fst (in_params i) = in_priority i"
  by (simp add: in_params_def)

lemma split_lines_no: "NL \<notin> set s \<Longrightarrow> split_lines s = ([], s)"
  by (induction s) auto

lemma split_lines_line: "NL \<notin> set l \<Longrightarrow> split_lines (l @ NL # r) = (l # fst (split_lines r), snd (split_lines r))"
  by (induction l) (auto split: prod.splits)

lemma split_lines_glue:
  "NL \<notin> set t \<Longrightarrow> split_lines (t @ s) =
     (case split_lines s of (ls, r) \<Rightarrow> (case ls of [] \<Rightarrow> ([], t @ r) | l # ls' \<Rightarrow> ((t @ l) # ls', r)))"
  by (induction t) (auto split: prod.splits list.splits)

lemma split_lines_append:
  "split_lines (s @ t) = (case split_lines s of (ls, r) \<Rightarrow>
     case split_lines (r @ t) of (ls2, r2) \<Rightarrow> (ls @ ls2, r2))"
  by (induction s) (auto split: prod.splits list.splits)

lemma split_lines_rest: "NL \<notin> set (snd (split_lines s))"
  by (induction s) (auto split: prod.splits list.splits)

definition quiet :: "input_conn \<Rightarrow> bool" where
  "quiet i \<longleftrightarrow> in_end_posp i = in_end_pos i"

lemma quiet_rest: "in_inv i \<Longrightarrow> quiet i \<Longrightarrow> NL \<notin> set (in_rest i)"
  using length_in_rest [of i] by (simp add: in_inv_def quiet_def)

lemma lines_loop_feed:
  assumes "in_inv i" "[] \<notin> set (fst (split_lines (in_rest i)))"
  shows "map_option (\<lambda>(i', w'). (in_params i', w')) (lines_loop g i w) =
      feed_lines g (map clean (fst (split_lines (in_rest i)))) (in_params i) w \<and>
    (\<forall>i' w'. lines_loop g i w = Some (i', w') \<longrightarrow> in_inv i' \<and>
       (in_priority i' = END \<or> quiet i' \<and> in_rest i' = snd (split_lines (in_rest i))))"
  using assms
proof (induction "length (in_rest i)" arbitrary: i w rule: less_induct)
  case less
  show ?case
  proof (cases "NL \<in> set (in_rest i)")
    case False
    have "in_rest (i\<lparr>in_end_posp := in_end_pos i\<rparr>) = in_rest i" by (simp add: in_rest_def)
    with readline_none [OF less.prems(1) False] show ?thesis
      by (subst (1 2) lines_loop.simps)
        (simp add: split_lines_no [OF False] quiet_def in_params_def)
  next
    case True
    then obtain l r where r: "in_rest i = l @ NL # r" "NL \<notin> set l" by (meson split_list_first)
    then have "l \<noteq> [] \<or> in_pos i > 0" using less.prems(2) by (auto simp: split_lines_line)
    from readline_some [OF less.prems(1) r this] obtain i1 where i1: "readline i = Some (Some (clean l), i1)"
      "in_inv i1" "in_rest i1 = r" and pr: "in_priority i1 = in_priority i" "in_depth i1 = in_depth i"
      "in_test i1 = in_test i" by metis
    have prm: "in_params i1 = in_params i" by (simp add: in_params_def pr)
    have sp: "split_lines (in_rest i) = (l # fst (split_lines r), snd (split_lines r))"
      using r by (simp add: split_lines_line)
    have IH: "map_option (\<lambda>(i', w'). (in_params i', w')) (lines_loop g i2 w2) =
        feed_lines g (map clean (fst (split_lines r))) (in_params i2) w2 \<and>
      (\<forall>i' w'. lines_loop g i2 w2 = Some (i', w') \<longrightarrow> in_inv i' \<and>
         (in_priority i' = END \<or> quiet i' \<and> in_rest i' = snd (split_lines r)))"
      if "in_rest i2 = r" "in_inv i2" for i2 w2
      using less.hyps [of i2 w2] that less.prems(2) r(1) sp by simp
    show ?thesis
    proof (cases "in_priority i = INIT")
      case True
      show ?thesis
      proof (cases "scan_params (clean l)")
        case None
        show ?thesis using True None i1(1,2) pr
          by (subst (1 2) lines_loop.simps) (simp add: sp input_line_def in_params_def)
      next
        case (Some st)
        obtain p d t where st: "st = (p, d, t)" by (cases st)
        let ?i2 = "i1\<lparr>in_priority := p, in_depth := d, in_test := t\<rparr>"
        have "in_rest ?i2 = r" "in_inv ?i2" "in_params ?i2 = st"
          using i1(2,3) by (simp_all add: in_params_def st)
        with IH [of ?i2 w] show ?thesis using True Some i1(1) pr
          by (subst (1 2) lines_loop.simps) (simp add: sp input_line_def in_params_def st)
      qed
    next
      case False
      show ?thesis
      proof (cases "submit_url g (in_priority i) (in_depth i) (in_test i) (clean l) w")
        case None
        then show ?thesis using False i1(1) pr
          by (subst (1 2) lines_loop.simps) (simp add: sp input_line_def in_params_def)
      next
        case (Some w1)
        with IH [OF i1(3,2), of w1] show ?thesis using False i1(1) pr
          by (subst (1 2) lines_loop.simps) (simp add: sp input_line_def in_params_def)
      qed
    qed
  qed
qed

lemma readMore_take:
  assumes "in_inv i" "quiet i" "length (in_rest i) \<le> maxUrlSize + 100" "d \<noteq> []"
  obtains i' n where "readMore (Got d) i = Some (True, i')" "in_inv i'" "in_rest i' = in_rest i @ take n d"
    "in_params i' = in_params i" "30000 \<le> n"
proof -
  let ?j = "shift_buffer i"
  have inv: "length (in_buf i) = BUF_SIZE" "in_pos i \<le> in_end_pos i" "in_end_pos i \<le> BUF_SIZE"
    "in_end_posp i = in_end_pos i" "in_pos i > 0 \<longrightarrow> in_buf i ! (in_pos i - 1) \<noteq> CR"
    using assms(1,2) by (auto simp: in_inv_def quiet_def)
  have n: "in_end_pos i - in_pos i = length (in_rest i)" using length_in_rest [OF assms(1)] by simp
  have j: "length (in_buf ?j) = BUF_SIZE" "in_rest ?j = in_rest i" "in_pos ?j \<le> in_end_pos ?j"
    "in_end_posp ?j = in_end_pos ?j" "in_pos ?j > 0 \<longrightarrow> in_buf ?j ! (in_pos ?j - 1) \<noteq> CR"
    using inv by (auto simp: shift_buffer_def Let_def length_overwrite in_rest_def) (simp add: overwrite_def)
  have room: "in_end_pos ?j + 30000 \<le> BUF_SIZE"
    using inv n assms(3) by (auto simp: shift_buffer_def Let_def BUF_SIZE_def maxUrlSize_def)
  define d' where "d' = take (BUF_SIZE - in_end_pos ?j) d"
  let ?i' = "?j\<lparr>in_buf := overwrite (in_buf ?j) (in_end_pos ?j) d', in_end_pos := in_end_pos ?j + length d'\<rparr>"
  have d': "in_end_pos ?j + length d' \<le> BUF_SIZE" using room by (simp add: d'_def)
  have r: "readMore (Got d) i = Some (True, ?i')"
    using assms(3,4) inv n room by (simp add: readMore_def Let_def d'_def)
  have rest: "in_rest ?i' = in_rest ?j @ d'"
    using j(1,3) room d' by (simp add: in_rest_def overwrite_def drop_take)
  have "NL \<notin> set (in_rest i)" by (rule quiet_rest [OF assms(1,2)])
  moreover have "length (in_rest i) = in_end_pos ?j - in_pos ?j"
    unfolding j(2) [symmetric] using j(1,3) room by (simp add: in_rest_def)
  ultimately have "in_inv ?i'"
    unfolding in_inv_def rest using j d' by (auto simp: length_overwrite nth_overwrite)
  then show thesis
    using that [OF r, of "BUF_SIZE - in_end_pos ?j"] rest j(2) room
    by (simp add: in_params_def shift_buffer_def Let_def d'_def)
qed

lemma readMore_got:
  assumes "in_inv i" "quiet i" "length (in_rest i) \<le> maxUrlSize + 100" "d \<noteq> []" "length d \<le> 30000"
  obtains i' where "readMore (Got d) i = Some (True, i')" "in_inv i'" "in_rest i' = in_rest i @ d"
    "in_params i' = in_params i"
  by (rule readMore_take [OF assms(1-4)]) (use assms(5) that in simp)

lemma shift_buffer_inv: "in_inv i \<Longrightarrow> quiet i \<Longrightarrow> in_inv (shift_buffer i) \<and> quiet (shift_buffer i)"
  using quiet_rest [of i]
  by (auto simp: shift_buffer_def Let_def in_inv_def quiet_def in_rest_def length_overwrite)
    (auto simp: overwrite_def)

lemma readMore_returns:
  assumes "in_inv i" "quiet i"
  shows "\<exists>got i1. readMore res i = Some (got, i1) \<and> in_inv i1 \<and> (got \<or> quiet i1)"
proof (cases "length (in_rest i) \<le> maxUrlSize + 100")
  case False
  then have "in_end_posp i - in_pos i > maxUrlSize + 100"
    using assms length_in_rest [OF assms(1)] by (simp add: quiet_def)
  then have "readMore res i = Some (False, i\<lparr>in_priority := END\<rparr>)"
    using assms(2) by (simp add: readMore_def quiet_def)
  then show ?thesis using assms by (intro exI [of _ False]) (simp add: quiet_def)
next
  case True
  note s = shift_buffer_inv [OF assms]
  have n: "\<not> in_end_posp i - in_pos i > maxUrlSize + 100"
    using True assms length_in_rest [OF assms(1)] by (simp add: quiet_def)
  show ?thesis
  proof (cases res)
    case (Got d)
    show ?thesis
    proof (cases "d = []")
      case True
      then show ?thesis using Got s assms(2) n
        by (intro exI [of _ False]) (simp add: readMore_def quiet_def Let_def)
    next
      case False
      from readMore_take [OF assms True False] Got show ?thesis by metis
    qed
  qed (use s assms(2) n in \<open>intro exI [of _ False], simp add: readMore_def quiet_def Let_def\<close>)+
qed

lemma lines_loop_inv:
  "in_inv i \<Longrightarrow> lines_loop g i w = Some (i', w') \<Longrightarrow> in_inv i' \<and> (in_priority i' = END \<or> quiet i')"
proof (induction "length (in_rest i)" arbitrary: i w rule: less_induct)
  case less
  show ?case
  proof (cases "NL \<in> set (in_rest i)")
    case False
    from readline_none [OF less.prems(1) False] less.prems(2) show ?thesis
      by (subst (asm) lines_loop.simps) (auto simp: quiet_def)
  next
    case True
    then obtain l r where r: "in_rest i = l @ NL # r" "NL \<notin> set l" by (meson split_list_first)
    show ?thesis
    proof (cases "l \<noteq> [] \<or> in_pos i > 0")
      case False
      then have "find_newline (in_buf i) (in_end_pos i) (in_end_posp i) = 0" "in_end_pos i \<noteq> 0"
        using in_inv_newline [OF less.prems(1)] length_in_rest [OF less.prems(1)] r by auto
      then have "readline i = None" by (simp add: readline_def Let_def)
      with less.prems(2) show ?thesis by (subst (asm) lines_loop.simps) simp
    next
      case True
      from readline_some [OF less.prems(1) r this] obtain i1 where i1: "readline i = Some (Some (clean l), i1)"
        "in_inv i1" "in_rest i1 = r" by metis
      from less.prems(2) i1(1) obtain more i2 w2 where i2: "input_line g (clean l) i1 w = Some (more, i2, w2)"
        "(if more then lines_loop g i2 w2 else Some (i2, w2)) = Some (i', w')"
        by (subst (asm) lines_loop.simps) (auto simp: bind_Some split: prod.splits)
      have i2': "in_inv i2" "in_rest i2 = r" "more \<or> in_priority i2 = END"
        using i2(1) i1(2,3) by (auto simp: input_line_def split: if_splits option.splits)
      then show ?thesis
        using less.hyps [of i2 w2] i2(2) r(1) by (cases more) auto
    qed
  qed
qed

lemma input_conn_step_inv:
  assumes "in_inv i" "quiet i" "input_conn_step g ready res i w = Some (i', w')"
  shows "in_inv i' \<and> (in_priority i' = END \<or> quiet i')"
proof -
  obtain got i1 where r: "readMore res i = Some (got, i1)" "in_inv i1" "got \<or> quiet i1"
    using readMore_returns [OF assms(1,2)] by blast
  then show ?thesis
    using assms lines_loop_inv [of i1 g w i' w'] by (auto simp: input_conn_step_def split: if_splits)
qed

subsection \<open>The array of connections\<close>

definition conns_ok :: "nat \<Rightarrow> input_conn list \<Rightarrow> bool" where
  "conns_ok nb cs \<longleftrightarrow> length cs = maxInput \<and> nb \<le> maxInput - 1 \<and> (\<forall>c\<in>set cs. length (in_buf c) = BUF_SIZE) \<and>
     (\<forall>k < nb. in_inv (cs ! k) \<and> quiet (cs ! k))"

lemma in_inv_length: "in_inv i \<Longrightarrow> length (in_buf i) = BUF_SIZE"
  by (simp add: in_inv_def)

lemma conns_ok_close:
  assumes "conns_ok nb cs" "k < nb" "in_inv i"
  shows "conns_ok (nb - 1) (cs[k := (cs[k := i]) ! (nb - 1), nb - 1 := i])"
proof -
  have l: "nb \<le> 4" "length cs = 5" "nb - 1 < length cs" using assms(1,2) by (auto simp: conns_ok_def maxInput_def)
  have m: "(cs[k := i]) ! (nb - 1) = (if k = nb - 1 then i else cs ! (nb - 1))" using l assms(2) by simp
  have "cs ! (nb - 1) \<in> set cs" using l by simp
  then have b: "\<forall>c\<in>set (cs[k := (cs[k := i]) ! (nb - 1), nb - 1 := i]). length (in_buf c) = BUF_SIZE"
    unfolding m using assms(1,3) in_inv_length
    by (auto simp: conns_ok_def dest!: set_update_subset_insert [THEN subsetD])
  show ?thesis
    using assms l b by (auto simp: conns_ok_def m nth_list_update maxInput_def)
qed

lemma conns_ok_next:
  assumes "conns_ok nb cs" "k < nb" "in_inv i" "quiet i"
  shows "conns_ok nb (cs[k := i])"
proof -
  have "k < length cs" using assms(1,2) by (auto simp: conns_ok_def)
  then have "cs[k := i] ! m = (if m = k then i else cs ! m)" for m by simp
  then show ?thesis
    using assms in_inv_length [of i]
    by (auto simp: conns_ok_def dest!: set_update_subset_insert [THEN subsetD])
qed

lemma input_loop_inv:
  "conns_ok nb cs \<Longrightarrow> k \<le> nb \<Longrightarrow> input_loop g io k nb cs w polls = Some (nb', cs', w', polls') \<Longrightarrow>
     conns_ok nb' cs' \<and> length polls' + k = length polls + nb'"
proof (induction g io k nb cs w polls rule: input_loop.induct)
  case (1 g io k nb cs w polls)
  show ?case
  proof (cases "k < nb")
    case False
    then show ?thesis using "1.prems" by (subst (asm) input_loop.simps) auto
  next
    case True
    note st = "1.prems"(3)
    show ?thesis
    proof (cases "input_conn_step g (ii_ready io (in_fds (cs ! k))) (ii_read io (in_fds (cs ! k))) (cs ! k) w")
      case None
      then show ?thesis using st True by (subst (asm) input_loop.simps) simp
    next
      case (Some iw)
      then obtain i w1 where iw: "iw = (i, w1)" by (cases iw)
      have inv: "in_inv i \<and> (in_priority i = END \<or> quiet i)"
        using input_conn_step_inv [OF _ _ Some [unfolded iw]] "1.prems"(1) True by (simp add: conns_ok_def)
      show ?thesis
      proof (cases "in_priority i = END")
        case e: True
        have "input_loop g io k (nb - 1) (cs[k := (cs[k := i]) ! (nb - 1), nb - 1 := i]) w1 polls = Some (nb', cs', w', polls')"
          using st True Some iw e by (subst (asm) input_loop.simps) simp
        from "1.IH"(1) [OF True Some iw [symmetric] e conns_ok_close [OF "1.prems"(1) True] _ this] inv True
        show ?thesis by auto
      next
        case e: False
        have "input_loop g io (k + 1) nb (cs[k := i]) w1 (polls @ [in_fds i]) = Some (nb', cs', w', polls')"
          using st True Some iw e by (subst (asm) input_loop.simps) simp
        from "1.IH"(2) [OF True Some iw [symmetric] e conns_ok_next [OF "1.prems"(1) True] _ this] inv e True
        show ?thesis by auto
      qed
    qed
  qed
qed

text \<open>One piece after the other, as long as the connection is open.\<close>

fun input_session :: "config \<Rightarrow> string list \<Rightarrow> input_conn \<Rightarrow> world \<Rightarrow> (input_conn \<times> world) option" where
  "input_session g [] i w = Some (i, w)"
| "input_session g (d # ds) i w =
     (if in_priority i = END then Some (i, w)
      else Option.bind (input_conn_step g True (Got d) i w) (\<lambda>(i1, w1). input_session g ds i1 w1))"

definition keeps_open :: "string \<Rightarrow> bool" where
  "keeps_open l \<longleftrightarrow> (case scan_params l of Some (p, _) \<Rightarrow> p \<noteq> END | None \<Rightarrow> True)"

lemma feed_lines_append:
  "\<forall>l\<in>set ls. keeps_open l \<Longrightarrow> fst st \<noteq> END \<Longrightarrow>
     feed_lines g (ls @ ls2) st w =
       Option.bind (feed_lines g ls st w) (\<lambda>(st', w'). if fst st' = END then Some (st', w') else feed_lines g ls2 st' w')"
proof (induction g ls st w rule: feed_lines.induct)
  case (2 g l ls p d t w)
  show ?case
  proof (cases "p = INIT")
    case True
    then show ?thesis using 2 by (cases "scan_params l") (auto simp: keeps_open_def)
  next
    case False
    then show ?thesis using 2 by (cases "submit_url g p d t l w") auto
  qed
qed simp

lemma input_session_feed:
  assumes "in_inv i" "quiet i" "in_priority i \<noteq> END" "split_lines (in_rest i @ concat ds) = (ls, r)"
    "\<forall>d\<in>set ds. d \<noteq> [] \<and> length d \<le> 30000"
    "\<forall>l\<in>set ls. l \<noteq> [] \<and> length l \<le> maxUrlSize + 100 \<and> keeps_open (clean l)" "length r \<le> maxUrlSize + 100"
  shows "map_option (\<lambda>(i', w'). (in_params i', w')) (input_session g ds i w) =
    feed_lines g (map clean ls) (in_params i) w"
  using assms
proof (induction ds arbitrary: i ls w)
  case Nil
  then show ?case using split_lines_no [OF quiet_rest [OF Nil(1,2)]] by auto
next
  case (Cons d ds)
  have nl: "NL \<notin> set (in_rest i)" by (rule quiet_rest [OF Cons.prems(1,2)])
  have "length (in_rest i) \<le> maxUrlSize + 100"
    using Cons.prems(4,6,7) unfolding split_lines_glue [OF nl]
    by (auto split: prod.splits list.splits)
  then obtain i1 where i1: "readMore (Got d) i = Some (True, i1)" "in_inv i1" "in_rest i1 = in_rest i @ d"
    "in_params i1 = in_params i" using readMore_got [OF Cons.prems(1,2)] Cons.prems(5) by (metis list.set_intros(1))
  obtain ls1 t where sp1: "split_lines (in_rest i @ d) = (ls1, t)" by fastforce
  obtain ls2 r2 where sp2: "split_lines (t @ concat ds) = (ls2, r2)" by fastforce
  have ls: "ls = ls1 @ ls2" "r2 = r"
    using Cons.prems(4) sp1 sp2 split_lines_append [of "in_rest i @ d" "concat ds"] by simp_all
  have step: "input_conn_step g True (Got d) i w = lines_loop g i1 w"
    using i1(1) by (simp add: input_conn_step_def)
  have "[] \<notin> set (fst (split_lines (in_rest i1)))" using Cons.prems(6) ls sp1 i1(3) by auto
  note L = lines_loop_feed [OF i1(2) this, of g w, unfolded i1(3) sp1 i1(4) fst_conv snd_conv]
  have app: "feed_lines g (map clean ls) (in_params i) w = Option.bind (feed_lines g (map clean ls1) (in_params i) w)
      (\<lambda>(st', w'). if fst st' = END then Some (st', w') else feed_lines g (map clean ls2) st' w')"
    unfolding ls map_append using Cons.prems(3,6) ls by (intro feed_lines_append) (auto simp: in_params_def)
  show ?case
  proof (cases "lines_loop g i1 w")
    case None
    then show ?thesis using L Cons.prems(3) by (simp add: step app)
  next
    case (Some iw)
    then obtain i2 w2 where i2: "lines_loop g i1 w = Some (i2, w2)" by (cases iw) simp
    have f: "feed_lines g (map clean ls1) (in_params i) w = Some (in_params i2, w2)" using L i2 by simp
    show ?thesis
    proof (cases "in_priority i2 = END")
      case True
      have "input_session g ds i2 w2 = Some (i2, w2)" using True by (cases ds) simp_all
      then show ?thesis using Cons.prems(3) True by (simp add: step app f i2 fst_in_params)
    next
      case False
      then have "in_inv i2" "quiet i2" "in_rest i2 = t" using L i2 by auto
      from Cons.IH [OF this(1,2) False _ _ _ Cons.prems(7), of ls2 w2] this(3) Cons.prems(5,6) ls sp2
      have "map_option (\<lambda>(i', w'). (in_params i', w')) (input_session g ds i2 w2) =
          feed_lines g (map clean ls2) (in_params i2) w2" by simp
      then show ?thesis using False Cons.prems(3) by (simp add: step app f i2 fst_in_params)
    qed
  qed
qed


definition inputs_ok :: "inputs \<Rightarrow> bool" where
  "inputs_ok s \<longleftrightarrow> (case i_nb s of None \<Rightarrow> True | Some nb \<Rightarrow> conns_ok nb (i_conns s))"

lemma accept_input_ok:
  assumes "conns_ok nb cs" "accept_input io nb cs = (nb1, cs1)"
  shows "conns_ok nb1 cs1"
proof (cases "ii_accept io \<noteq> None \<and> nb < maxInput - 1")
  case True
  then obtain fd where fd: "ii_accept io = Some fd" by blast
  let ?c = "fresh_input fd (cs ! nb)"
  have n: "nb < length cs" using assms(1) True by (auto simp: conns_ok_def)
  then have "length (in_buf ?c) = BUF_SIZE" using assms(1) by (simp add: conns_ok_def fresh_input_def)
  then have c: "in_inv ?c" "quiet ?c" by (simp_all add: in_inv_def in_rest_def quiet_def fresh_input_def)
  have "nb1 = nb + 1" "cs1 = cs[nb := ?c]" using assms(2) fd True by (simp_all add: accept_input_def)
  moreover have "cs[nb := ?c] ! m = (if m = nb then ?c else cs ! m)" for m using n by simp
  ultimately show ?thesis using assms(1) True c in_inv_length [OF c(1)]
    by (auto simp: conns_ok_def less_Suc_eq dest!: set_update_subset_insert [THEN subsetD])
next
  case False
  then have "nb1 = nb" "cs1 = cs" using assms(2) by (auto simp: accept_input_def split: option.splits if_splits)
  then show ?thesis using assms(1) by simp
qed

text \<open>Seen from the rest of the crawler, urls come to the two queues.\<close>

definition queued :: "world \<Rightarrow> world \<Rightarrow> bool" where
  "queued w w' \<longleftrightarrow> (\<exists>q d t n. w' = w\<lparr>w_priority := q, w_disk := d, w_seen := t, w_stats := (w_stats w)\<lparr>st_hashUrls := n\<rparr>\<rparr>)"

lemma queued_refl: "queued w w"
  unfolding queued_def by (intro exI [of _ "w_priority w"] exI [of _ "w_disk w"] exI [of _ "w_seen w"]
    exI [of _ "st_hashUrls (w_stats w)"]) simp

lemma queued_trans: "queued w w1 \<Longrightarrow> queued w1 w2 \<Longrightarrow> queued w w2"
  unfolding queued_def by (elim exE) (simp, blast)

lemma queuedI: "w' = w\<lparr>w_priority := q, w_disk := d, w_seen := t, w_stats := (w_stats w)\<lparr>st_hashUrls := n\<rparr>\<rparr> \<Longrightarrow>
    queued w w'"
  by (auto simp: queued_def)

lemma keep_url_queued: "keep_url g pr u w = Some w' \<Longrightarrow> queued w w'"
  by (rule queuedI [where q = "w_priority w'" and d = "w_disk w'" and t = "w_seen w'" and n = "st_hashUrls (w_stats w')"])
    (auto simp: keep_url_def split: if_splits)

lemma submit_url_queued: "submit_url g pr d t l w = Some w' \<Longrightarrow> queued w w'"
proof -
  assume s: "submit_url g pr d t l w = Some w'"
  have q: "queued w (w\<lparr>w_seen := x\<rparr>)" "queued w (count_url (w\<lparr>w_seen := x\<rparr>))"
    "queued w ((count_url w)\<lparr>w_seen := x\<rparr>)" for x
    by (rule queuedI [where q = "w_priority w" and d = "w_disk w" and t = x and n = "st_hashUrls (w_stats w)"], simp)
      (rule queuedI [where q = "w_priority w" and d = "w_disk w" and t = x and n = "st_hashUrls (w_stats w) + 1"],
        simp add: count_url_def upd_stats_def)+
  from s show ?thesis
    by (auto simp: submit_url_def bind_Some Let_def split: if_splits prod.splits
        dest!: keep_url_queued intro: q queued_refl queued_trans [OF q(2)] queued_trans [OF q(3)])
qed

lemma lines_loop_queued:
  assumes "lines_loop g i w = Some r"
  shows "queued w (snd r)"
  using assms
proof (rule lines_loop.raw_induct [where P = "\<lambda>g i w r. queued w (snd r)", rotated], goal_cases)
  case (1 self g i w r)
  note IH = 1(1) and step = 1(2)
  from step obtain l i1 where rd: "readline i = Some (l, i1)" by (auto simp: bind_Some)
  show ?case
  proof (cases l)
    case None
    then show ?thesis using step rd by (auto simp: queued_refl)
  next
    case (Some line)
    then obtain more i2 w2 where il: "input_line g line i1 w = Some (more, i2, w2)"
      "(if more then self g i2 w2 else Some (i2, w2)) = Some r"
      using step rd by (auto simp: bind_Some)
    have "queued w w2" using il(1)
      by (auto simp: input_line_def queued_refl split: if_splits option.splits dest: submit_url_queued)
    moreover have "queued w2 (snd r)" using il(2) IH by (auto simp: queued_refl split: if_splits)
    ultimately show ?thesis by (rule queued_trans)
  qed
qed

lemma input_conn_step_queued: "input_conn_step g ready res i w = Some (i', w') \<Longrightarrow> queued w w'"
  by (auto simp: input_conn_step_def bind_Some simp: queued_refl dest!: lines_loop_queued split: if_splits)

lemma input_loop_queued: "input_loop g io k nb cs w polls = Some (nb', cs', w', polls') \<Longrightarrow> queued w w'"
proof (induction g io k nb cs w polls rule: input_loop.induct)
  case (1 g io k nb cs w polls)
  note st = "1.prems"
  show ?case
  proof (cases "k < nb")
    case False
    then show ?thesis using st by (subst (asm) input_loop.simps) (simp add: queued_refl)
  next
    case True
    then obtain i w1 where c: "input_conn_step g (ii_ready io (in_fds (cs ! k))) (ii_read io (in_fds (cs ! k))) (cs ! k) w
        = Some (i, w1)" using st by (subst (asm) input_loop.simps) (auto split: option.splits)
    have "queued w1 w'"
    proof (cases "in_priority i = END")
      case e: True
      show ?thesis by (rule "1.IH"(1) [OF True c refl e]) (use st True c e in \<open>subst (asm) input_loop.simps, simp\<close>)
    next
      case e: False
      show ?thesis by (rule "1.IH"(2) [OF True c refl e]) (use st True c e in \<open>subst (asm) input_loop.simps, simp\<close>)
    qed
    then show ?thesis using input_conn_step_queued [OF c] queued_trans by blast
  qed
qed

lemma input_sched: "input g listener io s w = Some (s', w', polls) \<Longrightarrow> sched_step g aton w w'"
proof -
  assume "input g listener io s w = Some (s', w', polls)"
  then have "queued w w'"
    by (auto simp: input_def queued_refl split: option.splits prod.splits dest: input_loop_queued)
  then obtain q d t n where "w' = w\<lparr>w_priority := q, w_disk := d, w_seen := t, w_stats := (w_stats w)\<lparr>st_hashUrls := n\<rparr>\<rparr>"
    by (auto simp: queued_def)
  then show ?thesis
    using sched_queues [of g aton w "w_printStats w" "w_canReload w" "(w_stats w)\<lparr>st_hashUrls := n\<rparr>" "w_hDup w" t
        "w_diskWait w" d q] by simp
qed

subsection \<open>Properties\<close>

text \<open>C19: What a client sends does not depend on the pieces in which it arrives: from the first
  byte on, the crawler does what the lines of the stream say, the first one giving the
  parameters of the others. (No line is empty or longer than what fits beside a url, and the first one does
  not ask for the priority that closes the connection.)\<close>

theorem input_session_lines:
  assumes "length (in_buf c) = BUF_SIZE" "split_lines (concat ds) = (ls, r)"
    "\<forall>d\<in>set ds. d \<noteq> [] \<and> length d \<le> 30000"
    "\<forall>l\<in>set ls. l \<noteq> [] \<and> length l \<le> maxUrlSize + 100 \<and> keeps_open (clean l)" "length r \<le> maxUrlSize + 100"
  shows "map_option (\<lambda>(i', w'). (in_params i', w')) (input_session g ds (fresh_input fd c) w) =
    feed_lines g (map clean ls) (INIT, in_depth c, in_test c) w"
proof -
  have "in_inv (fresh_input fd c)" "quiet (fresh_input fd c)" "in_rest (fresh_input fd c) = []"
    using assms(1) by (simp_all add: in_inv_def quiet_def fresh_input_def in_rest_def)
  from input_session_feed [OF this(1,2) _ _ assms(3-5)] assms(2) this(3) show ?thesis
    by (simp add: fresh_input_def in_params_def INIT_def END_def)
qed

definition ex_conn :: input_conn where
  "ex_conn = \<lparr>in_fds = 0, in_pos = 9, in_end_pos = 9, in_end_posp = 9, in_priority = 0, in_depth = 0, in_test = 0,
     in_buf = replicate BUF_SIZE (CHR ''x'')\<rparr>"

definition ex_stream :: "string list" where
  "ex_stream = [''priority:1 dep'', ''th:3 test:0'' @ [CR], NL # ''http://a.org/'', [NL]]"

theorem input_session_lines_witness:
  "map_option (\<lambda>(i', w'). (in_params i', w'))
     (input_session default_config ex_stream (fresh_input 7 ex_conn) (world_new default_config 0)) =
   feed_lines default_config [''http://a.org/''] (1, 3, 0) (world_new default_config 0)"
proof -
  have sp: "split_lines (concat ex_stream) = ([''priority:1 depth:3 test:0'' @ [CR], ''http://a.org/''], [])"
    by (simp add: ex_stream_def NL_def CR_def)
  have sc: "scan_params ''priority:1 depth:3 test:0'' = Some (1, 3, 0)"
    by (simp add: scan_params_def scan_lit_def scan_num_def is_space_def is_digit_def dec_val_def digit_val_def s32_def Let_def)
  have cl: "clean (''priority:1 depth:3 test:0'' @ [CR]) = ''priority:1 depth:3 test:0''"
    "clean ''http://a.org/'' = ''http://a.org/''" by (simp_all add: clean_def CR_def NUL_def)
  have k: "keeps_open ''priority:1 depth:3 test:0''" "keeps_open ''http://a.org/''"
    by (simp_all add: keeps_open_def sc END_def) (simp add: scan_params_def scan_lit_def)
  have "\<forall>l\<in>set [''priority:1 depth:3 test:0'' @ [CR], ''http://a.org/'']. l \<noteq> [] \<and>
      length l \<le> maxUrlSize + 100 \<and> keeps_open (clean l)"
    by (simp add: cl [simplified] k maxUrlSize_def)
  moreover have "\<forall>d\<in>set ex_stream. d \<noteq> [] \<and> length d \<le> 30000" by (simp add: ex_stream_def)
  ultimately show ?thesis
    using input_session_lines [OF _ sp, of ex_conn default_config 7 "world_new default_config 0"]
    by (simp add: ex_conn_def cl [simplified] sc INIT_def)
qed

text \<open>C31: Every call of \<open>input\<close> keeps the arrays and positions of the open connections in range,
  there are at most four of them and never more than \<open>maxInput\<close> descriptors to poll. Whatever a
  read returns, the assertion of \<open>readMore\<close> holds.\<close>

theorem input_keeps:
  assumes "inputs_ok s" "input g listener io s w = Some (s', w', polls)"
  shows "inputs_ok s' \<and> length polls \<le> maxInput \<and>
    (case i_nb s' of None \<Rightarrow> polls = []
     | Some nb \<Rightarrow> list_all (\<lambda>c. readMore res c \<noteq> None) (take nb (i_conns s')))"
proof (cases "i_nb s")
  case None
  then show ?thesis using assms by (simp add: input_def)
next
  case (Some nb)
  obtain nb1 cs1 where a: "accept_input io nb (i_conns s) = (nb1, cs1)" by fastforce
  let ?p = "if nb1 < maxInput - 1 then [listener] else []"
  from assms(2) Some a obtain nb2 cs2 where
    l: "input_loop g io 0 nb1 cs1 w ?p = Some (nb2, cs2, w', polls)" and s': "s' = \<lparr>i_conns = cs2, i_nb = Some nb2\<rparr>"
    by (auto simp: input_def)
  have "conns_ok nb1 cs1" using accept_input_ok [OF _ a] assms(1) Some by (simp add: inputs_ok_def)
  from input_loop_inv [OF this _ l] have ok: "conns_ok nb2 cs2" "length polls = length ?p + nb2" by auto
  then have "length polls \<le> maxInput" by (auto simp: conns_ok_def maxInput_def)
  moreover have "list_all (\<lambda>c. readMore res c \<noteq> None) (take nb2 cs2)"
    using ok(1) readMore_returns [of _ res] by (fastforce simp: list_all_length conns_ok_def)
  ultimately show ?thesis using ok(1) by (simp add: s' inputs_ok_def)
qed


theorem input_keeps_witness:
  "let s = initInput True (replicate 5 ex_conn);
       io = \<lparr>ii_accept = Some 7, ii_ready = (\<lambda>_. False), ii_read = (\<lambda>_. Read_again)\<rparr>
   in \<exists>s' polls. input default_config 3 io s (world_new default_config 0) = Some (s', world_new default_config 0, polls) \<and>
        inputs_ok s' \<and> length polls \<le> maxInput"
proof -
  let ?s = "initInput True (replicate 5 ex_conn)"
  let ?io = "\<lparr>ii_accept = Some 7, ii_ready = (\<lambda>_. False), ii_read = (\<lambda>_. Read_again)\<rparr>"
  have s: "inputs_ok ?s"
    by (auto simp: inputs_ok_def initInput_def conns_ok_def maxInput_def ex_conn_def nth_Cons split: nat.splits)
  have "\<exists>s' polls. input default_config 3 ?io ?s (world_new default_config 0) = Some (s', world_new default_config 0, polls)"
    by (simp add: input_def initInput_def accept_input_def fresh_input_def maxInput_def input_loop.simps input_conn_step_def INIT_def END_def)
  then show ?thesis using input_keeps [OF s] by (simp add: Let_def) blast
qed

end
