(* ===== verification/Connection.thy ===== *)
theory Connection
  imports Larbin_Types
begin

section \<open>Writing to a descriptor (src/utils/connection.cxx)\<close>

text \<open>
  \<open>ecrire\<close>, \<open>ecrireBuff\<close> and \<open>ecrireChar\<close> repeat \<open>write\<close> until everything is out. What the
  system answers to each call is a list; the functions return what was sent and the result
  of the C function (\<open>True\<close> stands for 1, a failure), or \<open>None\<close> when the answers are used up
  before the loop ends (the caller is blocked).
\<close>

datatype write_answer = Wrote nat | Interrupted | Write_error

fun ecrireBuff :: "string \<Rightarrow> write_answer list \<Rightarrow> (string \<times> bool) option" where
  "ecrireBuff [] as = Some ([], False)"
| "ecrireBuff (c # s) [] = None"
| "ecrireBuff (c # s) (Interrupted # as) = ecrireBuff (c # s) as"
| "ecrireBuff (c # s) (Write_error # as) = Some ([], True)"
| "ecrireBuff (c # s) (Wrote k # as) =
     map_option (\<lambda>(out, r). (take k (c # s) @ out, r)) (ecrireBuff (drop k (c # s)) as)"

definition ecrire :: "string \<Rightarrow> write_answer list \<Rightarrow> (string \<times> bool) option" where
  "ecrire buf as = ecrireBuff (takeWhile (\<lambda>c. c \<noteq> NUL) buf) as"

definition ecrireChar :: "char \<Rightarrow> write_answer list \<Rightarrow> (string \<times> bool) option" where
  "ecrireChar c as = ecrireBuff [c] as"

definition print_int :: "int \<Rightarrow> string" where
  "print_int i = (if i < 0 then CHR ''-'' # dec (nat (- i)) else dec (nat i))"

definition ecrireInt :: "int \<Rightarrow> write_answer list \<Rightarrow> (string \<times> bool) option" where
  "ecrireInt i as = ecrire (print_int i) as"

text \<open>\<open>i / 10\<close> and \<open>i % 10 + '0'\<close> with the truncating division of C.\<close>

definition ecrireInt2 :: "int \<Rightarrow> write_answer list \<Rightarrow> (string \<times> bool) option" where
  "ecrireInt2 i as =
     ecrire (print_int (sgn i * (abs i div 10)) @
             [chr (nat ((sgn i * (abs i mod 10) + 48) mod 256))]) as"

lemma ecrireBuff_prefix:
  "ecrireBuff s as = Some (out, r) \<Longrightarrow> \<exists>rest. s = out @ rest \<and> (r \<longleftrightarrow> rest \<noteq> [])"
proof (induction s as arbitrary: out rule: ecrireBuff.induct)
  case (5 c s k as)
  then obtain out' where o: "ecrireBuff (drop k (c # s)) as = Some (out', r)"
    "out = take k (c # s) @ out'" by auto
  from 5(1) [OF o(1)] o(2) show ?case by (metis append.assoc append_take_drop_id)
qed auto

lemma ecrireBuff_enough:
  "\<forall>a \<in> set as. \<exists>k. a = Wrote k \<and> 0 < k \<Longrightarrow> length s \<le> length as \<Longrightarrow> ecrireBuff s as = Some (s, False)"
proof (induction s as rule: ecrireBuff.induct)
  case (5 c s k as)
  then have "0 < k" by auto
  moreover have "length (drop k (c # s)) \<le> length as" using 5(3) \<open>0 < k\<close> by auto
  ultimately show ?case using 5(1,2) by (simp del: drop_Suc_Cons take_Suc_Cons)
qed auto

lemma dec_no_nul: "NUL \<notin> set (dec n)"
  using dec_all_digits [of n] by (auto simp: NUL_def is_digit_def)

subsection \<open>Properties\<close>

text \<open>What was sent when \<open>ecrireBuff\<close> returns is a prefix of the buffer, the whole of it
  exactly when the result is 0; and if every \<open>write\<close> takes at least one byte it does return
  0, however the bytes are cut.\<close>

theorem ecrireBuff_sends_all:
  "(\<forall>out r. ecrireBuff s as = Some (out, r) \<longrightarrow> prefix out s \<and> (r \<longleftrightarrow> out \<noteq> s)) \<and>
   (list_all (\<lambda>a. \<exists>k. a = Wrote k \<and> 0 < k) as \<and> length s \<le> length as \<longrightarrow>
    ecrireBuff s as = Some (s, False))"
proof (intro conjI allI impI)
  show "ecrireBuff s as = Some (s, False)"
    if "list_all (\<lambda>a. \<exists>k. a = Wrote k \<and> 0 < k) as \<and> length s \<le> length as"
    using that ecrireBuff_enough [of as s] by (simp add: list_all_iff)
next
  fix out r assume "ecrireBuff s as = Some (out, r)"
  from ecrireBuff_prefix [OF this] obtain rest where "s = out @ rest" "r \<longleftrightarrow> rest \<noteq> []" by blast
  then show "prefix out s" and "r \<longleftrightarrow> out \<noteq> s" by auto
qed

theorem ecrireBuff_sends_all_witness:
  "ecrireBuff ''abc'' [Wrote 2, Wrote 9, Wrote 1] = Some (''abc'', False)"
  using ecrireBuff_sends_all [of "''abc''" "[Wrote 2, Wrote 9, Wrote 1]"] by simp

end
