(* ===== verification/Histogram.thy ===== *)
theory Histogram
  imports Connection
begin

section \<open>Histograms (src/utils/histogram.cxx)\<close>

text \<open>
  The pages of the last intervals of a second, a minute, an hour: circular arrays of \<open>SIZE\<close> sums,
  \<open>tab1\<close> for all answers and \<open>tab2\<close> for successes. \<open>tick\<close> counts the intervals that are over; it
  is taken not to reach 2^31.
\<close>

definition SIZE :: nat where "SIZE = 256"

record histogram =
  hi_tab1 :: "int list"
  hi_tab2 :: "int list"
  hi_beg :: nat
  hi_end :: nat
  hi_tick :: nat
  hi_period :: int
  hi_count :: int
  hi_beg_time :: int

definition Histogram_new :: "int \<Rightarrow> int \<Rightarrow> histogram" where
  "Histogram_new period now =
     \<lparr>hi_tab1 = replicate SIZE 0, hi_tab2 = replicate SIZE 0, hi_beg = 0, hi_end = 0, hi_tick = 0,
      hi_period = period, hi_count = 0, hi_beg_time = now\<rparr>"

definition incrementEnd :: "histogram \<Rightarrow> histogram" where
  "incrementEnd h =
     (let e = (if hi_end h + 1 \<ge> SIZE then 0 else hi_end h + 1);
          h1 = (if e \<le> hi_beg h
                then h\<lparr>hi_beg := if hi_beg h + 1 \<ge> SIZE then 0 else hi_beg h + 1,
                       hi_beg_time := hi_beg_time h + hi_period h\<rparr>
                else h)
      in h1\<lparr>hi_end := e, hi_tab1 := (hi_tab1 h)[e := 0], hi_tab2 := (hi_tab2 h)[e := 0]\<rparr>)"

definition pageHit :: "int \<Rightarrow> int \<Rightarrow> histogram \<Rightarrow> histogram" where
  "pageHit x y h =
     (let e = hi_end h;
          h1 = h\<lparr>hi_tab1 := (hi_tab1 h)[e := hi_tab1 h ! e + x], hi_tab2 := (hi_tab2 h)[e := hi_tab2 h ! e + y],
                 hi_count := hi_count h + 1\<rparr>
      in if hi_count h1 \<ge> hi_period h1
         then incrementEnd (h1\<lparr>hi_tick := hi_tick h1 + 1, hi_count := 0\<rparr>) else h1)"

text \<open>The three histograms and the last values of the two counters.\<close>

record histograms =
  hs_lastx :: nat
  hs_lasty :: nat
  hs_heure :: histogram
  hs_minute :: histogram
  hs_seconde :: histogram

definition histograms_new :: "int \<Rightarrow> histograms" where
  "histograms_new now = \<lparr>hs_lastx = 0, hs_lasty = 0, hs_heure = Histogram_new 3600 now,
     hs_minute = Histogram_new 60 now, hs_seconde = Histogram_new 1 now\<rparr>"

definition histoHit :: "nat \<Rightarrow> nat \<Rightarrow> histograms \<Rightarrow> histograms" where
  "histoHit x y hs =
     (let tmpx = s32 (int x - int (hs_lastx hs)); tmpy = s32 (int y - int (hs_lasty hs)) in
      \<lparr>hs_lastx = x, hs_lasty = y, hs_heure = pageHit tmpx tmpy (hs_heure hs),
       hs_minute = pageHit tmpx tmpy (hs_minute hs), hs_seconde = pageHit tmpx tmpx (hs_seconde hs)\<rparr>)"

text \<open>The rows that \<open>write\<close> prints: number, successes, answers.\<close>

function write_rows :: "histogram \<Rightarrow> nat \<Rightarrow> nat \<Rightarrow> (nat \<times> int \<times> int) list" where
  "write_rows h i c =
     (if c < SIZE \<and> c \<le> hi_tick h \<or> c < 10 then
        (let j = (if i = SIZE then 0 else i) in
         (c, hi_tab2 h ! j, hi_tab1 h ! j) # write_rows h (j + 1) (c + 1))
      else [])"
  by pat_completeness auto

termination
  by (relation "measure (\<lambda>(h, i, c). SIZE - c)") (auto simp: SIZE_def)

declare write_rows.simps [simp del]

definition histogram_row :: "nat \<times> int \<times> int \<Rightarrow> string" where
  "histogram_row r =
     (case r of (c, y, x) \<Rightarrow>
        [CHR 0x22] @ print_int (int c) @ '', '' @ print_int y @ '', '' @ print_int x @
        [CHR 0x5C] @ ''n'' @ [CHR 0x22] @ '' +'' @ [NL])"

definition histogram_write :: "histogram \<Rightarrow> string" where
  "histogram_write h =
     ''<script type='' @ [CHR 0x22] @ ''text/javascript'' @ [CHR 0x22] @ ''>'' @ [NL] @
     ''g = new Dygraph('' @ [NL] @
     ''document.getElementById('' @ [CHR 0x22] @ ''graphdiv'' @ print_int (hi_period h) @ [CHR 0x22] @ ''),'' @ [NL] @
     [CHR 0x22] @ ''Time, Success, Total'' @ [CHR 0x5C] @ ''n'' @ [CHR 0x22] @ '' +'' @ [NL] @
     concat (map histogram_row (write_rows h (hi_beg h) 0)) @
     [CHR 0x22, CHR 0x22] @ '','' @ [NL] @
     ''{title: '' @ [CHR 0x27] @ ''Pages per '' @ print_int (hi_period h) @ ''s'' @ [CHR 0x27] @ '', '' @
     ''ylabel: '' @ [CHR 0x27] @ ''Pages'' @ [CHR 0x27] @ ''}'' @ [NL] @ '');'' @ [NL] @ ''</script>'' @ [NL]"

definition histoWrite :: "histograms \<Rightarrow> string" where
  "histoWrite hs = histogram_write (hs_heure hs) @ histogram_write (hs_minute hs) @ histogram_write (hs_seconde hs)"

subsection \<open>The last intervals\<close>

text \<open>The hits that a histogram has received, one a second, cut into intervals.\<close>

definition interval_sum :: "nat \<Rightarrow> int list \<Rightarrow> nat \<Rightarrow> int" where
  "interval_sum p xs j = sum_list (take p (drop (j * p) xs))"

definition hits :: "(int \<times> int) list \<Rightarrow> histogram \<Rightarrow> histogram" where
  "hits xys h = fold (\<lambda>(x, y). pageHit x y) xys h"

definition holds_last :: "nat \<Rightarrow> nat \<Rightarrow> int list \<Rightarrow> int list \<Rightarrow> bool" where
  "holds_last p n xs tab \<longleftrightarrow> length tab = SIZE \<and>
     (\<forall>j. j \<le> n \<and> n < j + SIZE \<longrightarrow> tab ! (j mod SIZE) = interval_sum p xs j) \<and>
     (\<forall>j. n < j \<and> j < SIZE \<longrightarrow> tab ! j = 0)"

definition hist_inv :: "nat \<Rightarrow> int \<Rightarrow> (int \<times> int) list \<Rightarrow> histogram \<Rightarrow> bool" where
  "hist_inv p t xys h \<longleftrightarrow>
     (let n = length xys div p in
      hi_period h = int p \<and> hi_tick h = n \<and> hi_count h = int (length xys mod p) \<and> hi_end h = n mod SIZE \<and>
      hi_beg h = (if n < SIZE then 0 else (n + 1) mod SIZE) \<and>
      hi_beg_time h = t + int p * int (n + 1 - SIZE) \<and>
      holds_last p n (map fst xys) (hi_tab1 h) \<and> holds_last p n (map snd xys) (hi_tab2 h))"

lemma interval_sum_snoc:
  assumes "0 < p"
  shows "interval_sum p (xs @ [x]) j = interval_sum p xs j + (if j = length xs div p then x else 0)"
proof -
  let ?m = "length xs"
  consider "j * p > ?m" | "j * p \<le> ?m" "?m < j * p + p" | "j * p + p \<le> ?m" by linarith
  then show ?thesis
  proof cases
    case 1
    then have "j \<noteq> ?m div p" using assms by (metis div_times_less_eq_dividend not_le)
    with 1 show ?thesis by (simp add: interval_sum_def)
  next
    case 2
    then have "?m div p = j" using assms by (simp add: div_nat_eqI mult.commute)
    with 2 show ?thesis by (simp add: interval_sum_def)
  next
    case 3
    then have "j < ?m div p" using assms by (metis add.commute less_eq_div_iff_mult_less_eq mult_Suc Suc_le_eq)
    with 3 show ?thesis by (simp add: interval_sum_def)
  qed
qed

lemma holds_last_add:
  assumes "0 < p" "holds_last p n xs tab" "n = length xs div p"
  shows "holds_last p n (xs @ [x]) (tab[n mod SIZE := tab ! (n mod SIZE) + x])"
proof -
  have l: "length tab = SIZE" "n mod SIZE < SIZE" using assms(2) by (simp_all add: holds_last_def SIZE_def)
  have "tab[n mod SIZE := tab ! (n mod SIZE) + x] ! (j mod SIZE) = interval_sum p (xs @ [x]) j"
    if j: "j \<le> n" "n < j + SIZE" for j
  proof (cases "j = n")
    case True
    then show ?thesis using assms l by (simp add: holds_last_def interval_sum_snoc SIZE_def)
  next
    case False
    have "j mod SIZE \<noteq> n mod SIZE"
    proof
      assume "j mod SIZE = n mod SIZE"
      then have "SIZE dvd n - j" using j by (metis mod_eq_dvd_iff_nat)
      then show False using j False by (auto dest: dvd_imp_le)
    qed
    then show ?thesis using assms l j False by (simp add: holds_last_def interval_sum_snoc)
  qed
  moreover have "tab[n mod SIZE := tab ! (n mod SIZE) + x] ! j = 0" if "n < j" "j < SIZE" for j
    using that assms(2) by (simp add: holds_last_def)
  ultimately show ?thesis using l by (simp add: holds_last_def)
qed

lemma holds_last_next:
  assumes "0 < p" "holds_last p n xs tab" "length xs = (n + 1) * p"
  shows "holds_last p (n + 1) xs (tab[(n + 1) mod SIZE := 0])"
proof -
  have l: "length tab = SIZE" "(n + 1) mod SIZE < SIZE" using assms(2) by (simp_all add: holds_last_def SIZE_def)
  have "tab[(n + 1) mod SIZE := 0] ! (j mod SIZE) = interval_sum p xs j" if j: "j \<le> n + 1" "n + 1 < j + SIZE" for j
  proof (cases "j = n + 1")
    case True
    then show ?thesis using l assms(3) by (simp add: interval_sum_def SIZE_def)
  next
    case False
    have "j mod SIZE \<noteq> (n + 1) mod SIZE"
    proof
      assume "j mod SIZE = (n + 1) mod SIZE"
      then have "SIZE dvd n + 1 - j" using j by (metis mod_eq_dvd_iff_nat)
      then show False using j False by (auto dest: dvd_imp_le)
    qed
    then show ?thesis using assms(2) l j False by (simp add: holds_last_def)
  qed
  moreover have "tab[(n + 1) mod SIZE := 0] ! j = 0" if "n + 1 < j" "j < SIZE" for j
    using that assms(2) by (simp add: holds_last_def)
  ultimately show ?thesis using l by (simp add: holds_last_def)
qed

lemma incrementEnd_at:
  assumes "hi_end h = n mod SIZE" "hi_beg h = (if n < SIZE then 0 else (n + 1) mod SIZE)"
  shows "hi_end (incrementEnd h) = (n + 1) mod SIZE"
    "hi_beg (incrementEnd h) = (if n + 1 < SIZE then 0 else (n + 2) mod SIZE)"
    "hi_beg_time (incrementEnd h) = hi_beg_time h + (if SIZE \<le> n + 1 then hi_period h else 0)"
    "hi_tab1 (incrementEnd h) = (hi_tab1 h)[(n + 1) mod SIZE := 0]"
    "hi_tab2 (incrementEnd h) = (hi_tab2 h)[(n + 1) mod SIZE := 0]"
    "hi_tick (incrementEnd h) = hi_tick h" "hi_count (incrementEnd h) = hi_count h"
    "hi_period (incrementEnd h) = hi_period h"
proof -
  have e: "(if hi_end h + 1 \<ge> SIZE then 0 else hi_end h + 1) = (n + 1) mod SIZE"
    unfolding assms(1) by (auto simp: mod_Suc SIZE_def)
  have b: "(n + 1) mod SIZE \<le> hi_beg h \<longleftrightarrow> SIZE \<le> n + 1"
  proof (cases "n < SIZE")
    case True
    then show ?thesis unfolding assms(2) by (cases "n + 1 = SIZE") (auto simp: SIZE_def)
  qed (simp add: assms(2))
  have c: "(if hi_beg h + 1 \<ge> SIZE then 0 else hi_beg h + 1) = (n + 2) mod SIZE" if "SIZE \<le> n + 1"
  proof (cases "n < SIZE")
    case True
    then have "n = 255" using that by (simp add: SIZE_def)
    then show ?thesis unfolding assms(2) by (simp add: SIZE_def)
  next
    case False
    then show ?thesis unfolding assms(2) by (auto simp: mod_Suc SIZE_def)
  qed
  show "hi_end (incrementEnd h) = (n + 1) mod SIZE" unfolding incrementEnd_def Let_def e by simp
  show "hi_tab1 (incrementEnd h) = (hi_tab1 h)[(n + 1) mod SIZE := 0]"
    "hi_tab2 (incrementEnd h) = (hi_tab2 h)[(n + 1) mod SIZE := 0]"
    "hi_tick (incrementEnd h) = hi_tick h" "hi_count (incrementEnd h) = hi_count h"
    "hi_period (incrementEnd h) = hi_period h"
    unfolding incrementEnd_def Let_def e by simp_all
  show "hi_beg_time (incrementEnd h) = hi_beg_time h + (if SIZE \<le> n + 1 then hi_period h else 0)"
    unfolding incrementEnd_def Let_def e b by simp
  show "hi_beg (incrementEnd h) = (if n + 1 < SIZE then 0 else (n + 2) mod SIZE)"
  proof (cases "SIZE \<le> n + 1")
    case True
    have "hi_beg (incrementEnd h) = (if hi_beg h + 1 \<ge> SIZE then 0 else hi_beg h + 1)"
      unfolding incrementEnd_def Let_def e b using True by simp
    then show ?thesis using c [OF True] True by simp
  next
    case False
    then have "hi_beg (incrementEnd h) = hi_beg h" unfolding incrementEnd_def Let_def e b by simp
    then show ?thesis using False assms(2) by simp
  qed
qed

lemma hist_inv_hit:
  assumes "0 < p" "hist_inv p t xys h"
  shows "hist_inv p t (xys @ [(x, y)]) (pageHit x y h)"
proof -
  let ?m = "length xys" let ?n = "?m div p"
  define h1 where "h1 = h\<lparr>hi_tab1 := (hi_tab1 h)[?n mod SIZE := hi_tab1 h ! (?n mod SIZE) + x],
    hi_tab2 := (hi_tab2 h)[?n mod SIZE := hi_tab2 h ! (?n mod SIZE) + y], hi_count := hi_count h + 1\<rparr>"
  note i = assms(2) [unfolded hist_inv_def Let_def]
  have tabs: "holds_last p ?n (map fst xys) (hi_tab1 h)" "holds_last p ?n (map snd xys) (hi_tab2 h)"
    using i by blast+
  have t: "holds_last p ?n (map fst xys @ [x]) (hi_tab1 h1)" "holds_last p ?n (map snd xys @ [y]) (hi_tab2 h1)"
    unfolding h1_def using holds_last_add [OF assms(1) tabs(1)] holds_last_add [OF assms(1) tabs(2)] by simp_all
  have hit: "pageHit x y h = (if int (?m mod p) + 1 \<ge> int p
      then incrementEnd (h1\<lparr>hi_tick := ?n + 1, hi_count := 0\<rparr>) else h1)"
    using i by (simp add: pageHit_def h1_def Let_def)
  show ?thesis
  proof (cases "?m mod p + 1 = p")
    case False
    then have "?m mod p + 1 < p" using assms(1) by (metis Suc_eq_plus1 Suc_lessI mod_less_divisor)
    then have "(?m + 1) div p = ?n" "(?m + 1) mod p = ?m mod p + 1"
      by (simp_all add: div_Suc mod_Suc)
    then show ?thesis using False i t \<open>?m mod p + 1 < p\<close>
      by (simp add: hist_inv_def hit) (simp add: h1_def)
  next
    case True
    then have d: "(?m + 1) div p = ?n + 1" "(?m + 1) mod p = 0" by (simp_all add: div_Suc mod_Suc)
    have "?m + 1 = (?n + 1) * p" using True div_mult_mod_eq [of ?m p] unfolding add_mult_distrib by linarith
    then have l: "length (map fst xys @ [x]) = (?n + 1) * p" "length (map snd xys @ [y]) = (?n + 1) * p" by simp_all
    note s = holds_last_next [OF assms(1) t(1) l(1)] holds_last_next [OF assms(1) t(2) l(2)]
    let ?h = "h1\<lparr>hi_tick := ?n + 1, hi_count := 0\<rparr>"
    have "hi_end ?h = ?n mod SIZE" "hi_beg ?h = (if ?n < SIZE then 0 else (?n + 1) mod SIZE)"
      using i by (simp_all add: h1_def)
    note inc = incrementEnd_at [OF this]
    have bt: "t + int p * int (?n + 2 - SIZE) = t + int p * int (?n + 1 - SIZE) + (if SIZE \<le> ?n + 1 then int p else 0)"
      by (simp add: Suc_diff_le algebra_simps)
    have "hi_beg_time h1 = t + int p * int (?n + 1 - SIZE)" "hi_period h1 = int p" using i by (simp_all add: h1_def)
    moreover have "pageHit x y h = incrementEnd ?h" using True hit by simp
    ultimately show ?thesis using d s inc bt by (simp add: hist_inv_def)
  qed
qed

lemma hist_inv_hits: "0 < p \<Longrightarrow> hist_inv p t xys (hits xys (Histogram_new (int p) t))"
proof (induction xys rule: rev_induct)
  case Nil
  then show ?case
    by (auto simp: hist_inv_def hits_def Histogram_new_def holds_last_def interval_sum_def SIZE_def)
next
  case (snoc xy xys)
  obtain x y where xy: "xy = (x, y)" by (cases xy)
  from hist_inv_hit [OF snoc.prems snoc.IH [OF snoc.prems], of x y] show ?case by (simp add: hits_def xy)
qed

lemma write_rows_from:
  assumes "\<And>c. c < m \<Longrightarrow> hi_tab1 h ! ((b + c) mod SIZE) = f1 c \<and> hi_tab2 h ! ((b + c) mod SIZE) = f2 c"
    "m = max 10 (min SIZE (hi_tick h + 1))" "c \<le> m" "b < SIZE"
    "i = (b + c) mod SIZE \<or> i = SIZE \<and> (b + c) mod SIZE = 0"
  shows "write_rows h i c = map (\<lambda>c. (c, f2 c, f1 c)) [c..<m]"
  using assms(3,5)
proof (induction "m - c" arbitrary: c i)
  case 0
  then have "\<not> (c < SIZE \<and> c \<le> hi_tick h \<or> c < 10)" using assms(2) by (auto simp: SIZE_def)
  then show ?case using 0 by (subst write_rows.simps) auto
next
  case (Suc d)
  then have c: "c < m" by simp
  then have g: "c < SIZE \<and> c \<le> hi_tick h \<or> c < 10" using assms(2) by auto
  have j: "(if i = SIZE then 0 else i) = (b + c) mod SIZE" using Suc.prems(2) by (auto simp: SIZE_def)
  have "(b + c) mod SIZE + 1 = (b + (c + 1)) mod SIZE \<or> (b + c) mod SIZE + 1 = SIZE \<and> (b + (c + 1)) mod SIZE = 0"
    by (auto simp: mod_Suc SIZE_def)
  from Suc.hyps(1) [OF _ _ this] Suc.hyps(2) c
  have "write_rows h ((b + c) mod SIZE + 1) (c + 1) = map (\<lambda>c. (c, f2 c, f1 c)) [c + 1..<m]" by simp
  then show ?case using g c assms(1) [OF c] by (subst write_rows.simps) (simp add: j upt_conv_Cons)
qed

text \<open>A histogram shows what it should: after any number of seconds the rows that are printed
  are the sums of the last 256 intervals, oldest first, the current one last (and zeros up to ten
  rows).\<close>

theorem histogram_last_intervals:
  assumes "0 < p"
  shows "let h = hits xys (Histogram_new (int p) t);
             first = length xys div p + 1 - SIZE
         in write_rows h (hi_beg h) 0 =
            map (\<lambda>c. (c, interval_sum p (map snd xys) (first + c), interval_sum p (map fst xys) (first + c)))
              [0..<max 10 (min SIZE (length xys div p + 1))] \<and>
            hi_beg_time h = t + int p * int first"
proof -
  let ?h = "hits xys (Histogram_new (int p) t)" let ?n = "length xys div p" let ?f = "?n + 1 - SIZE"
  note i = hist_inv_hits [OF assms, of t xys, unfolded hist_inv_def Let_def]
  have b: "hi_beg ?h = ?f mod SIZE"
  proof (cases "?n < SIZE")
    case False
    then have "?n + 1 = ?f + SIZE" by simp
    then have "(?n + 1) mod SIZE = ?f mod SIZE" by (metis mod_add_self2)
    then show ?thesis using i False by simp
  qed (use i in simp)
  have z: "interval_sum p xs j = 0" if "length xs div p < j" for xs j
  proof -
    have "length xs \<le> j * p" using that assms by (metis dividend_less_times_div less_or_eq_imp_le mult.commute mult_le_mono1 order.trans Suc_leI mult_Suc_right add.commute)
    then show ?thesis by (simp add: interval_sum_def)
  qed
  have tab: "tab ! ((?f mod SIZE + c) mod SIZE) = interval_sum p xs (?f + c)"
    if "holds_last p ?n xs tab" "length xs = length xys" "c < max 10 (min SIZE (?n + 1))" for tab xs c
  proof -
    have m: "(?f mod SIZE + c) mod SIZE = (?f + c) mod SIZE" by (simp add: mod_add_left_eq)
    show ?thesis
    proof (cases "?f + c \<le> ?n")
      case True
      then show ?thesis using that(1) m by (simp add: holds_last_def)
    next
      case False
      then have "?f = 0" using that(3) by (auto simp: SIZE_def max_def min_def split: if_splits)
      then show ?thesis using that m False z [of xs c] by (auto simp: holds_last_def SIZE_def)
    qed
  qed
  have "write_rows ?h (hi_beg ?h) 0 = map (\<lambda>c. (c, interval_sum p (map snd xys) (?f + c), interval_sum p (map fst xys) (?f + c)))
      [0..<max 10 (min SIZE (?n + 1))]"
  proof (rule write_rows_from [where b = "?f mod SIZE"])
    show "hi_tab1 ?h ! ((?f mod SIZE + c) mod SIZE) = interval_sum p (map fst xys) (?f + c) \<and>
      hi_tab2 ?h ! ((?f mod SIZE + c) mod SIZE) = interval_sum p (map snd xys) (?f + c)"
      if "c < max 10 (min SIZE (?n + 1))" for c using tab that i by simp
  qed (use i b in \<open>auto simp: SIZE_def\<close>)
  then show ?thesis using i by (simp add: Let_def)
qed

theorem histogram_last_intervals_witness:
  "write_rows (hits [(3, 1), (4, 2), (5, 5)] (Histogram_new 2 100)) 0 0 =
     [(0, 3, 7), (1, 5, 5), (2, 0, 0), (3, 0, 0), (4, 0, 0), (5, 0, 0), (6, 0, 0), (7, 0, 0), (8, 0, 0), (9, 0, 0)]"
proof -
  let ?h = "hits [(3, 1), (4, 2), (5, 5)] (Histogram_new 2 100)"
  have "hi_beg ?h = 0" by (simp add: hits_def Histogram_new_def pageHit_def incrementEnd_def SIZE_def Let_def)
  moreover have "[0..<10] = [0, 1, 2, 3, 4, 5, 6, 7, 8, 9 :: nat]" by (simp add: upt_rec)
  ultimately show ?thesis
    using histogram_last_intervals [of 2 "[(3, 1), (4, 2), (5, 5)]" 100]
    by (simp add: Let_def SIZE_def interval_sum_def)
qed

end
