(* ===== verification/Control.thy ===== *)
theory Control
  imports Input Histogram
begin

section \<open>The main loop (src/main.cxx, src/utils/level.cxx, limit_time.cxx, limit_page.cxx)\<close>

text \<open>
  Every turn of the main loop looks at the clock, once a second runs \<open>cron\<close>, waits while the
  bandwidth is used up, and then calls the parts of the crawler one after the other. What the
  clock, the network and the resolver say in a turn is the argument \<open>turn_io\<close>; \<open>deb\<close> is the number
  of url objects in memory, \<open>debUrl\<close>. The threads that watch the limits are given as the test that
  they make each second.
\<close>

record settings =
  se_histograms :: bool
  se_highLevelWebServer :: bool
  se_limitTime :: nat
  se_limitPage :: nat
  se_debug :: bool

record rates =
  ra_urls :: "32 word"
  ra_urlsPrev :: "32 word"
  ra_pages :: "32 word"
  ra_pagesPrev :: "32 word"
  ra_success :: "32 word"
  ra_successPrev :: "32 word"
  ra_siteSeen :: "32 word"
  ra_siteSeenPrev :: "32 word"
  ra_siteDNS :: "32 word"
  ra_siteDNSPrev :: "32 word"
  ra_read :: "64 word"
  ra_readPrev :: "64 word"
  ra_write :: "64 word"
  ra_writePrev :: "64 word"

definition rates_new :: rates where
  "rates_new = \<lparr>ra_urls = 0, ra_urlsPrev = 0, ra_pages = 0, ra_pagesPrev = 0, ra_success = 0, ra_successPrev = 0,
     ra_siteSeen = 0, ra_siteSeenPrev = 0, ra_siteDNS = 0, ra_siteDNSPrev = 0, ra_read = 0, ra_readPrev = 0,
     ra_write = 0, ra_writePrev = 0\<rparr>"

record control =
  k_pipes :: pipes
  k_inputs :: inputs
  k_old :: int
  k_closeLevel :: int
  k_searchOn :: bool
  k_webServerOn :: bool
  k_histo :: histograms
  k_rates :: rates

subsection \<open>Closing\<close>

definition LEVEL_ALL :: int where "LEVEL_ALL = - 1"

definition LEVEL_SEARCH :: int where "LEVEL_SEARCH = 0"

definition LEVEL_WEBSERVER :: int where "LEVEL_WEBSERVER = 1"

definition close_search :: "settings \<Rightarrow> control \<Rightarrow> control" where
  "close_search se k =
     (if k_searchOn k
      then k\<lparr>k_webServerOn := k_webServerOn k \<and> se_highLevelWebServer se, k_searchOn := False\<rparr> else k)"

definition closeLevelUp :: "settings \<Rightarrow> int \<Rightarrow> control \<Rightarrow> control" where
  "closeLevelUp se l k =
     (let k1 = (if k_closeLevel k = LEVEL_SEARCH then close_search se k
                else if k_closeLevel k = LEVEL_WEBSERVER then k\<lparr>k_webServerOn := False\<rparr>
                else k)
      in if l < 0 \<or> l \<ge> k_closeLevel k1 then k1\<lparr>k_closeLevel := k_closeLevel k1 + 1\<rparr> else k1)"

text \<open>What the two threads do after each second: the new state and whether the thread ends.\<close>

definition limitTime_second :: "settings \<Rightarrow> int \<Rightarrow> int \<Rightarrow> control \<Rightarrow> control \<times> bool" where
  "limitTime_second se startTime endTime k =
     (if \<not> k_searchOn k then (k, True)
      else if unat (word_of_int (endTime - startTime) :: 32 word) \<ge> se_limitTime se
      then (closeLevelUp se LEVEL_SEARCH k, True) else (k, False))"

definition passTime :: "settings \<Rightarrow> int \<Rightarrow> int \<Rightarrow> int" where
  "passTime se startTime endTime =
     (let tmp = endTime - startTime in if tmp > int (se_limitTime se) then int (se_limitTime se) else tmp)"

definition limitPage_second :: "settings \<Rightarrow> control \<Rightarrow> control \<times> bool" where
  "limitPage_second se k =
     (if \<not> k_searchOn k then (k, True)
      else if st_answers (w_stats (p_world (k_pipes k))) ! fetch_code success \<ge> se_limitPage se
      then (closeLevelUp se LEVEL_SEARCH k, True) else (k, False))"

text \<open>Days, hours and minutes.\<close>

definition transTime :: "nat \<Rightarrow> nat \<times> nat \<times> nat" where
  "transTime t =
     (let tm = t div 60; th = 0; td = 0;
          (th, tm) = (if tm \<ge> 60 then (tm div 60, tm mod 60) else (th, tm));
          (td, th) = (if th \<ge> 24 then (th div 24, th mod 24) else (td, th))
      in (td, th, tm))"

text \<open>The array of poll results, long enough for a descriptor.\<close>

definition verifMax :: "nat \<Rightarrow> int list \<Rightarrow> int list" where
  "verifMax fd ansPoll =
     (let maxFds = length ansPoll in
      if fd \<ge> maxFds then
        (let n = (if fd \<ge> 2 * maxFds then fd + maxFds else 2 * maxFds)
         in ansPoll @ replicate (n - maxFds) 0)
      else ansPoll)"

subsection \<open>Once a second\<close>

definition set_world :: "(world \<Rightarrow> world) \<Rightarrow> control \<Rightarrow> control" where
  "set_world f k = k\<lparr>k_pipes := (k_pipes k)\<lparr>p_world := f (p_world (k_pipes k))\<rparr>\<rparr>"

definition k_world :: "control \<Rightarrow> world" where
  "k_world k = p_world (k_pipes k)"

definition read_again :: "world \<Rightarrow> world" where
  "read_again w =
     (if w_now w mod 300 = 0 then
        w\<lparr>w_readPriorityWait := SyncFifo_getLength (w_priorityWait w), w_readWait := pf_getLength (w_diskWait w)\<rparr>
      else if w_now w mod 300 = 150 then w\<lparr>w_readPriorityWait := 0, w_readWait := 0\<rparr>
      else w)"

definition refill_band :: "config \<Rightarrow> world \<Rightarrow> world" where
  "refill_band g w =
     (if g_limitBand g \<noteq> 0 then
        w\<lparr>w_remainBand := if w_remainBand w > 0 then g_limitBand g else w_remainBand w + g_limitBand g\<rparr>
      else w)"

definition rate :: "nat \<Rightarrow> 'a::len word \<Rightarrow> 'a word" where
  "rate n prev = drop_bit 3 (of_nat n - prev)"

definition update_rates :: "settings \<Rightarrow> stats \<Rightarrow> rates \<Rightarrow> rates" where
  "update_rates se s r =
     (let ok = st_answers s ! fetch_code success;
          r1 = r\<lparr>ra_urls := rate (st_urls s) (ra_urlsPrev r), ra_urlsPrev := of_nat (st_urls s),
                 ra_pages := rate (st_pages s) (ra_pagesPrev r), ra_pagesPrev := of_nat (st_pages s),
                 ra_success := rate ok (ra_successPrev r), ra_successPrev := of_nat ok,
                 ra_siteSeen := rate (st_siteSeen s) (ra_siteSeenPrev r), ra_siteSeenPrev := of_nat (st_siteSeen s),
                 ra_siteDNS := rate (st_siteDNS s) (ra_siteDNSPrev r), ra_siteDNSPrev := of_nat (st_siteDNS s)\<rparr>
      in if se_debug se
         then r1\<lparr>ra_read := rate (st_read s) (ra_readPrev r), ra_readPrev := of_nat (st_read s),
                 ra_write := rate (st_written s) (ra_writePrev r), ra_writePrev := of_nat (st_written s)\<rparr>
         else r1)"

definition cron_stats :: "settings \<Rightarrow> control \<Rightarrow> control" where
  "cron_stats se k =
     (let s = w_stats (k_world k);
          k1 = (if se_histograms se
                then k\<lparr>k_histo := histoHit (st_pages s) (st_answers s ! fetch_code success) (k_histo k)\<rparr> else k)
      in if w_printStats (k_world k) \<and> w_now (k_world k) mod 8 = 0
         then k1\<lparr>k_rates := update_rates se s (k_rates k1)\<rparr> else k1)"

definition cron :: "settings \<Rightarrow> config \<Rightarrow> nat \<Rightarrow> io \<Rightarrow> control \<Rightarrow> (bool \<times> control) option" where
  "cron se g deb io k =
     (if pf_getLength (w_disk (k_world k)) = 0 \<and> pf_getLength (w_diskWait (k_world k)) = 0 \<and> deb = 0
      then Some (False, k)
      else do {
        p \<leftarrow> checkTimeout g io (k_pipes k);
        Some (True, cron_stats se (set_world (\<lambda>w. refill_band g (read_again w)) (k\<lparr>k_pipes := p\<rparr>)))
      })"

subsection \<open>The bandwidth\<close>

text \<open>One element for each round of the loop: the time, the number of urls, the network.
  \<open>Still_waiting\<close>: the rounds are used up and the loop goes on.\<close>

datatype wait_result = Waited control | Still_waiting control | Wait_crash

fun waitBandwidth :: "settings \<Rightarrow> config \<Rightarrow> (int \<times> nat \<times> io) list \<Rightarrow> control \<Rightarrow> wait_result" where
  "waitBandwidth se g [] k = (if w_remainBand (k_world k) < 0 then Still_waiting k else Waited k)"
| "waitBandwidth se g ((t, deb, io) # obs) k =
     (if w_remainBand (k_world k) < 0 then
        (let k1 = set_world (\<lambda>w. w\<lparr>w_now := t\<rparr>) k in
         if k_old k \<noteq> t then
           (case cron se g deb io (k1\<lparr>k_old := t\<rparr>) of
              None \<Rightarrow> Wait_crash
            | Some (_, k2) \<Rightarrow> waitBandwidth se g obs k2)
         else waitBandwidth se g obs k1)
      else Waited k)"

subsection \<open>A turn\<close>

record turn_io =
  ti_now :: int
  ti_deb :: nat
  ti_cron :: io
  ti_wait :: "(int \<times> nat \<times> io) list"
  ti_input :: input_io
  ti_sockets :: "sock_result list"
  ti_answers :: "(nat \<times> dns_answer) list"
  ti_io :: io

datatype turn_result =
    Next control "nat list" "poll_event list"
  | Finished control
  | Bandwidth control
  | Crashed

definition crawl :: "config \<Rightarrow> (string \<Rightarrow> nat option) \<Rightarrow> nat \<Rightarrow> turn_io \<Rightarrow> control \<Rightarrow>
    (control \<times> nat list \<times> poll_event list) option" where
  "crawl g aton listener t k =
     do {
       let w = (k_world k)\<lparr>w_sockets := ti_sockets t, w_answers := ti_answers t\<rparr>;
       (ins, w1, polls) \<leftarrow> input g listener (ti_input t) (k_inputs k) w;
       w2 \<leftarrow> sequencer g w1;
       w3 \<leftarrow> fetchDns g aton w2;
       w4 \<leftarrow> fetchOpen g w3;
       (p, evs) \<leftarrow> checkAll g (ti_io t) ((k_pipes k)\<lparr>p_world := w4\<rparr>);
       Some (k\<lparr>k_inputs := ins, k_pipes := p\<rparr>, polls, evs)
     }"

definition rest_of_turn :: "settings \<Rightarrow> config \<Rightarrow> (string \<Rightarrow> nat option) \<Rightarrow> nat \<Rightarrow> turn_io \<Rightarrow> control \<Rightarrow> turn_result" where
  "rest_of_turn se g aton listener t k =
     (case (if g_limitBand g \<noteq> 0 then waitBandwidth se g (ti_wait t) k else Waited k) of
        Still_waiting k1 \<Rightarrow> Bandwidth k1
      | Wait_crash \<Rightarrow> Crashed
      | Waited k1 \<Rightarrow> (case crawl g aton listener t k1 of
            None \<Rightarrow> Crashed
          | Some (k2, polls, evs) \<Rightarrow> Next k2 polls evs))"

definition turn :: "settings \<Rightarrow> config \<Rightarrow> (string \<Rightarrow> nat option) \<Rightarrow> nat \<Rightarrow> turn_io \<Rightarrow> control \<Rightarrow> turn_result" where
  "turn se g aton listener t k =
     (let k1 = set_world (\<lambda>w. w\<lparr>w_now := ti_now t\<rparr>) k in
      if k_old k \<noteq> ti_now t then
        (case cron se g (ti_deb t) (ti_cron t) (k1\<lparr>k_old := ti_now t\<rparr>) of
           None \<Rightarrow> Crashed
         | Some (busy, k2) \<Rightarrow>
             if busy then rest_of_turn se g aton listener t k2
             else Finished (closeLevelUp se LEVEL_SEARCH k2))
      else rest_of_turn se g aton listener t k1)"

fun main_loop :: "settings \<Rightarrow> config \<Rightarrow> (string \<Rightarrow> nat option) \<Rightarrow> nat \<Rightarrow> turn_io list \<Rightarrow> control \<Rightarrow>
    nat list \<Rightarrow> poll_event list \<Rightarrow> turn_result" where
  "main_loop se g aton listener [] k polls evs = (if k_searchOn k then Next k polls evs else Finished k)"
| "main_loop se g aton listener (t # ts) k polls evs =
     (if k_searchOn k then
        (case turn se g aton listener t k of
           Next k1 polls1 evs1 \<Rightarrow> main_loop se g aton listener ts k1 polls1 evs1
         | r \<Rightarrow> r)
      else Finished k)"

subsection \<open>A turn is a sequence of steps of the crawler\<close>

definition k_ok :: "config \<Rightarrow> (string \<Rightarrow> nat option) \<Rightarrow> control \<Rightarrow> bool" where
  "k_ok g aton k \<longleftrightarrow> larbin_reaches g aton (k_pipes k) \<and> inputs_ok (k_inputs k)"

lemma set_world_simps [simp]:
  "k_world (set_world f k) = f (k_world k)" "k_inputs (set_world f k) = k_inputs k"
  "k_pipes (set_world f k) = (k_pipes k)\<lparr>p_world := f (k_world k)\<rparr>" "k_old (set_world f k) = k_old k"
  by (simp_all add: set_world_def k_world_def)

lemma k_ok_sched: "k_ok g aton k \<Longrightarrow> sched_step g aton (k_world k) (f (k_world k)) \<Longrightarrow> k_ok g aton (set_world f k)"
  by (auto simp: k_ok_def k_world_def intro: larbin_next [OF _ larbin_sched])

lemma k_ok_now: "k_ok g aton k \<Longrightarrow> k_ok g aton (set_world (\<lambda>w. w\<lparr>w_now := t\<rparr>) k)"
  by (rule k_ok_sched, assumption)
    (use sched_outside [where w = "k_world k" and t = t and socks = "w_sockets (k_world k)" and as = "w_answers (k_world k)"
        and n = "w_readPriorityWait (k_world k)" and m = "w_readWait (k_world k)"] in simp)

lemma k_ok_same: "k_pipes k' = k_pipes k \<Longrightarrow> k_inputs k' = k_inputs k \<Longrightarrow> k_ok g aton k' = k_ok g aton k"
  by (simp add: k_ok_def)

lemma read_again_sched: "sched_step g aton w (read_again w)"
proof -
  have "read_again w = w\<lparr>w_now := w_now w, w_sockets := w_sockets w, w_answers := w_answers w,
      w_readPriorityWait := w_readPriorityWait (read_again w), w_readWait := w_readWait (read_again w)\<rparr>"
    by (simp add: read_again_def)
  then show ?thesis using sched_outside by metis
qed

lemma refill_band_step: "larbin_step g aton p (p\<lparr>p_world := refill_band g (p_world p)\<rparr>)"
proof -
  have "refill_band g w = w\<lparr>w_remainBand := w_remainBand (refill_band g w)\<rparr>" for w by (simp add: refill_band_def)
  then show ?thesis using larbin_band by metis
qed

lemma cron_stats_frame:
  "k_pipes (cron_stats se k) = k_pipes k" "k_inputs (cron_stats se k) = k_inputs k" "k_old (cron_stats se k) = k_old k"
  by (simp_all add: cron_stats_def Let_def)

lemma cron_busy:
  assumes "\<not> (pf_getLength (w_disk (k_world k)) = 0 \<and> pf_getLength (w_diskWait (k_world k)) = 0 \<and> deb = 0)"
    "cron se g deb io k = Some (b, k')"
  shows "b \<and> (\<exists>p. checkTimeout g io (k_pipes k) = Some p \<and>
    k_pipes k' = p\<lparr>p_world := refill_band g (read_again (p_world p))\<rparr> \<and> k_inputs k' = k_inputs k \<and> k_old k' = k_old k)"
proof -
  obtain p where p: "checkTimeout g io (k_pipes k) = Some p"
    using assms by (cases "checkTimeout g io (k_pipes k)") (auto simp: cron_def)
  then have "b" "k' = cron_stats se (set_world (\<lambda>w. refill_band g (read_again w)) (k\<lparr>k_pipes := p\<rparr>))"
    using assms unfolding cron_def by (auto split: if_splits)
  then show ?thesis using p by (simp add: cron_stats_frame) (simp add: k_world_def)
qed

lemma cron_ok:
  assumes "k_ok g aton k" "cron se g deb io k = Some (b, k')"
  shows "k_ok g aton k' \<and> k_old k' = k_old k"
proof (cases "pf_getLength (w_disk (k_world k)) = 0 \<and> pf_getLength (w_diskWait (k_world k)) = 0 \<and> deb = 0")
  case True
  then show ?thesis using assms by (simp add: cron_def)
next
  case False
  from cron_busy [OF this assms(2)] obtain p where p: "checkTimeout g io (k_pipes k) = Some p"
    and k': "k_pipes k' = p\<lparr>p_world := refill_band g (read_again (p_world p))\<rparr>" "k_inputs k' = k_inputs k" "k_old k' = k_old k"
    by blast
  have r: "larbin_reaches g aton p" using assms(1) larbin_next larbin_checkTimeout [OF p] by (auto simp: k_ok_def)
  let ?q = "p\<lparr>p_world := read_again (p_world p)\<rparr>"
  have "larbin_reaches g aton ?q" using r larbin_next larbin_sched read_again_sched by blast
  then have "larbin_reaches g aton (?q\<lparr>p_world := refill_band g (p_world ?q)\<rparr>)"
    using larbin_next refill_band_step by blast
  then show ?thesis using assms(1) k' by (simp add: k_ok_def)
qed

lemma k_ok_old: "k_ok g aton (k\<lparr>k_old := t\<rparr>) = k_ok g aton k"
  by (simp add: k_ok_def)

lemma waitBandwidth_ok:
  "k_ok g aton k \<Longrightarrow> waitBandwidth se g obs k = Waited k' \<Longrightarrow> k_ok g aton k'"
proof (induction se g obs k rule: waitBandwidth.induct)
  case (2 se g t deb io obs k)
  let ?k1 = "set_world (\<lambda>w. w\<lparr>w_now := t\<rparr>) k"
  have ok1: "k_ok g aton ?k1" by (rule k_ok_now [OF "2.prems"(1)])
  show ?case
  proof (cases "w_remainBand (k_world k) < 0")
    case neg: True
    show ?thesis
    proof (cases "k_old k = t")
      case True
      with "2.IH"(2) [OF neg refl _ ok1] "2.prems"(2) neg show ?thesis by simp
    next
      case False
      then obtain b k2 where c: "cron se g deb io (?k1\<lparr>k_old := t\<rparr>) = Some (b, k2)"
        using "2.prems"(2) neg by (auto simp: Let_def split: option.splits)
      have "k_ok g aton k2" using cron_ok [OF _ c] ok1 by (simp add: k_ok_old)
      with "2.IH"(1) [OF neg refl False c refl] "2.prems"(2) neg False c show ?thesis by (simp add: Let_def)
    qed
  next
    case False
    then show ?thesis using "2.prems" by simp
  qed
qed (simp split: if_splits)

lemma poll_event_length: "length (poll_event c x) \<le> 1"
  by (simp add: poll_event_def split: ConnState.split)

lemma events_length: "length (concat (map (\<lambda>c. poll_event c (f c)) cs)) \<le> length cs"
proof (induction cs)
  case (Cons c cs)
  then show ?case using poll_event_length [of c "f c"] by simp
qed simp

lemma crawl_ok:
  assumes "k_ok g aton k" "crawl g aton listener t k = Some (k', polls, evs)"
  shows "k_ok g aton k' \<and> length polls \<le> maxInput \<and> length evs \<le> g_nb_conn g \<and>
    evs = concat (map (\<lambda>c. poll_event c (pconn (k_pipes k') c)) [0..<g_nb_conn g])"
proof -
  let ?w = "(k_world k)\<lparr>w_sockets := ti_sockets t, w_answers := ti_answers t\<rparr>"
  obtain ins w1 w2 w3 w4 p where
    i: "input g listener (ti_input t) (k_inputs k) ?w = Some (ins, w1, polls)"
    and s: "sequencer g w1 = Some w2" and d: "fetchDns g aton w2 = Some w3" and o: "fetchOpen g w3 = Some w4"
    and c: "checkAll g (ti_io t) ((k_pipes k)\<lparr>p_world := w4\<rparr>) = Some (p, evs)"
    and k': "k' = k\<lparr>k_inputs := ins, k_pipes := p\<rparr>"
    using assms(2) by (auto simp: crawl_def bind_Some)
  have r: "larbin_reaches g aton (k_pipes k)" "inputs_ok (k_inputs k)" using assms(1) by (simp_all add: k_ok_def)
  have step: "larbin_reaches g aton ((k_pipes k)\<lparr>p_world := b\<rparr>)"
    if "larbin_reaches g aton ((k_pipes k)\<lparr>p_world := a\<rparr>)" "sched_step g aton a b" for a b
    using larbin_next [OF that(1) larbin_sched, of b] that(2) by simp
  have "larbin_reaches g aton ((k_pipes k)\<lparr>p_world := ?w\<rparr>)"
    using larbin_next [OF r(1) larbin_sched, of ?w] sched_outside [where w = "k_world k" and t = "w_now (k_world k)" and
        socks = "ti_sockets t" and as = "ti_answers t" and n = "w_readPriorityWait (k_world k)" and
        m = "w_readWait (k_world k)"] by (simp add: k_world_def)
  note r1 = step [OF this input_sched [OF i]]
  note r4 = step [OF step [OF step [OF r1 sched_sequencer [OF s]] sched_fetchDns [OF d]] sched_fetchOpen [OF o]]
  have "larbin_reaches g aton p" by (rule larbin_next [OF r4 larbin_checkAll [OF c]])
  moreover have e: "evs = concat (map (\<lambda>c. poll_event c (pconn p c)) [0..<g_nb_conn g])"
    using c by (auto simp: checkAll_def)
  moreover have "length evs \<le> g_nb_conn g" unfolding e using events_length [of _ "[0..<g_nb_conn g]"] by simp
  moreover have "inputs_ok ins \<and> length polls \<le> maxInput" using input_keeps [OF r(2) i] by blast
  ultimately show ?thesis by (simp add: k' k_ok_def)
qed

lemma turn_ok:
  assumes "k_ok g aton k" "turn se g aton listener t k = Next k' polls evs"
  shows "k_ok g aton k' \<and> length polls \<le> maxInput \<and> length evs \<le> g_nb_conn g \<and>
    evs = concat (map (\<lambda>c. poll_event c (pconn (k_pipes k') c)) [0..<g_nb_conn g])"
proof -
  let ?k1 = "set_world (\<lambda>w. w\<lparr>w_now := ti_now t\<rparr>) k"
  have k1: "k_ok g aton ?k1" by (rule k_ok_now [OF assms(1)])
  have "\<exists>k2. k_ok g aton k2 \<and> rest_of_turn se g aton listener t k2 = Next k' polls evs"
  proof (cases "k_old k = ti_now t")
    case True
    then show ?thesis using assms(2) k1 by (auto simp: turn_def Let_def)
  next
    case False
    then obtain k2 where "cron se g (ti_deb t) (ti_cron t) (?k1\<lparr>k_old := ti_now t\<rparr>) = Some (True, k2)"
      "rest_of_turn se g aton listener t k2 = Next k' polls evs"
      using assms(2) by (auto simp: turn_def Let_def split: option.splits if_splits)
    then show ?thesis using cron_ok k1 k_ok_old by blast
  qed
  then obtain k2 where k2: "k_ok g aton k2" "rest_of_turn se g aton listener t k2 = Next k' polls evs" by blast
  then obtain k3 where "k_ok g aton k3" "crawl g aton listener t k3 = Some (k', polls, evs)"
    by (auto simp: rest_of_turn_def split: wait_result.splits option.splits if_splits dest: waitBandwidth_ok)
  then show ?thesis by (rule crawl_ok)
qed

lemma main_loop_ok:
  "k_ok g aton k \<Longrightarrow> main_loop se g aton listener ts k polls evs = Next k' polls' evs' \<Longrightarrow>
   length polls \<le> maxInput \<Longrightarrow> length evs \<le> g_nb_conn g \<Longrightarrow>
   k_ok g aton k' \<and> length polls' \<le> maxInput \<and> length evs' \<le> g_nb_conn g"
proof (induction ts arbitrary: k polls evs)
  case (Cons t ts)
  then obtain k1 polls1 evs1 where "turn se g aton listener t k = Next k1 polls1 evs1"
    "main_loop se g aton listener ts k1 polls1 evs1 = Next k' polls' evs'"
    by (auto split: if_splits turn_result.splits)
  with Cons.IH turn_ok [OF Cons.prems(1)] show ?case by blast
qed (simp split: if_splits)

subsection \<open>Properties\<close>

text \<open>C2: The main loop is a run of the crawler: after any number of turns, whatever the clock, the
  network, the resolver and the clients did, the state is one that the steps of the crawler reach (so that
  all its invariants hold), the input connections are in order, and the array of polls, of
  \<open>nb_conn + maxInput\<close> elements, has not been overrun.\<close>

theorem main_loop_runs:
  assumes "larbin_reaches g aton (k_pipes k)" "inputs_ok (k_inputs k)"
    "main_loop se g aton listener ts k [] [] = Next k' polls evs"
  shows "larbin_reaches g aton (k_pipes k') \<and> inputs_ok (k_inputs k') \<and>
    length polls + length evs \<le> g_nb_conn g + maxInput"
  using main_loop_ok [of g aton k se listener ts "[]" "[]" k' polls evs] assms by (auto simp: k_ok_def)

lemma cron_remainBand:
  assumes "cron se g deb io k = Some (b, k')" "0 < deb" "g_limitBand g \<noteq> 0"
  shows "w_remainBand (k_world k') = (if w_remainBand (k_world k) > 0 then g_limitBand g
    else w_remainBand (k_world k) + g_limitBand g)" "k_old k' = k_old k"
proof -
  obtain p where p: "checkTimeout g io (k_pipes k) = Some p"
    "k_pipes k' = p\<lparr>p_world := refill_band g (read_again (p_world p))\<rparr>" "k_old k' = k_old k"
    using cron_busy [OF _ assms(1)] assms(2) by blast
  moreover have "w_remainBand (read_again w) = w_remainBand w" for w by (simp add: read_again_def)
  ultimately show "w_remainBand (k_world k') = (if w_remainBand (k_world k) > 0 then g_limitBand g
    else w_remainBand (k_world k) + g_limitBand g)"
    using assms(3) checkTimeout_remainBand [OF p(1)] by (simp add: k_world_def refill_band_def)
  show "k_old k' = k_old k" by (rule p(3))
qed

text \<open>How often the clock shows another second.\<close>

fun seconds :: "int \<Rightarrow> int list \<Rightarrow> nat" where
  "seconds old [] = 0"
| "seconds old (t # ts) = (if t = old then 0 else 1) + seconds t ts"

text \<open>What a wait from \<open>debt\<close> and the second \<open>old\<close> ends with, as the property below reads it.\<close>

definition paid :: "int \<Rightarrow> int \<Rightarrow> int \<Rightarrow> int list \<Rightarrow> int \<Rightarrow> bool" where
  "paid perSec debt old ts now \<longleftrightarrow> (\<exists>n \<le> length ts.
    now = debt + int (seconds old (take n ts)) * perSec \<and> 0 \<le> now \<and>
    (\<forall>m < n. debt + int (seconds old (take m ts)) * perSec < 0))"

definition wait_outcome :: "settings \<Rightarrow> config \<Rightarrow> (string \<Rightarrow> nat option) \<Rightarrow> (int \<times> nat \<times> io) list \<Rightarrow> control \<Rightarrow> wait_result \<Rightarrow> bool" where
  "wait_outcome se g aton obs k r = (case r of
      Waited k' \<Rightarrow> paid (g_limitBand g) (w_remainBand (k_world k)) (k_old k) (map fst obs) (w_remainBand (k_world k'))
    | Still_waiting k' \<Rightarrow> w_remainBand (k_world k) + int (seconds (k_old k) (map fst obs)) * g_limitBand g < 0
    | Wait_crash \<Rightarrow> \<exists>n < length obs. \<exists>k'. waitBandwidth se g (take n obs) k = Still_waiting k' \<and>
        (case obs ! n of (t, deb, io) \<Rightarrow> let p = k_pipes (set_world (\<lambda>w. w\<lparr>w_now := t\<rparr>) k') in
          t \<noteq> k_old k' \<and> larbin_reaches g aton p \<and> checkTimeout g io p = None))"

lemma paid_now: "0 \<le> debt \<Longrightarrow> paid perSec debt old ts debt"
  by (auto simp: paid_def intro!: exI [of _ 0])

lemma paid_later:
  assumes "debt < 0" "paid perSec (debt + (if t = old then 0 else perSec)) t ts now"
  shows "paid perSec debt old (t # ts) now"
proof -
  have sec: "debt + (if t = old then 0 else perSec) + int (seconds t us) * perSec = debt + int (seconds old (t # us)) * perSec" for us
    by (simp add: algebra_simps)
  from assms(2) [unfolded paid_def sec] obtain n where n: "n \<le> length ts"
    "now = debt + int (seconds old (t # take n ts)) * perSec" "0 \<le> now"
    "\<forall>m < n. debt + int (seconds old (t # take m ts)) * perSec < 0"
    by auto
  then have "\<forall>m < Suc n. debt + int (seconds old (take m (t # ts))) * perSec < 0"
    using assms(1) by (auto simp: less_Suc_eq_0_disj)
  then show ?thesis unfolding paid_def using n(1-3) by (intro exI [of _ "Suc n"]) auto
qed

text \<open>One round of the loop: it goes on from a state that owes what the second left over.\<close>

lemma outcome_later:
  assumes "wait_outcome se g aton obs k2 (waitBandwidth se g obs k2)" "k_old k2 = t" "w_remainBand (k_world k) < 0"
    "w_remainBand (k_world k2) = w_remainBand (k_world k) + (if t = k_old k then 0 else g_limitBand g)"
    "\<And>os. waitBandwidth se g ((t, deb, io) # os) k = waitBandwidth se g os k2"
  shows "wait_outcome se g aton ((t, deb, io) # obs) k (waitBandwidth se g obs k2)"
proof (cases "waitBandwidth se g obs k2")
  case (Waited k')
  then show ?thesis using assms(1-4) paid_later by (simp add: wait_outcome_def)
next
  case (Still_waiting k')
  then show ?thesis using assms(1,2,4) by (auto simp: wait_outcome_def algebra_simps split: if_splits)
next
  case Wait_crash
  from assms(1) [unfolded Wait_crash wait_outcome_def wait_result.case] obtain n k' where
    "n < length obs" "waitBandwidth se g (take n obs) k2 = Still_waiting k'"
    "case obs ! n of (t, deb, io) \<Rightarrow> let p = k_pipes (set_world (\<lambda>w. w\<lparr>w_now := t\<rparr>) k') in
      t \<noteq> k_old k' \<and> larbin_reaches g aton p \<and> checkTimeout g io p = None" by (elim exE conjE)
  then show ?thesis unfolding Wait_crash wait_outcome_def wait_result.case
    by (intro exI [of _ "Suc n"] conjI exI [of _ k']) (simp_all only: list.size add_Suc_right Suc_less_eq add_0_right
        take_Suc_Cons nth_Cons_Suc assms(5) simp_thms)
qed

lemma waitBandwidth_round:
  assumes "0 < g_limitBand g" "0 < deb" "k_ok g aton k" "w_remainBand (k_world k) < 0"
  shows "((\<forall>obs. waitBandwidth se g ((t, deb, io) # obs) k = Wait_crash) \<and> t \<noteq> k_old k \<and>
      larbin_reaches g aton (k_pipes (set_world (\<lambda>w. w\<lparr>w_now := t\<rparr>) k)) \<and>
      checkTimeout g io (k_pipes (set_world (\<lambda>w. w\<lparr>w_now := t\<rparr>) k)) = None) \<or>
    (\<exists>k2. (\<forall>obs. waitBandwidth se g ((t, deb, io) # obs) k = waitBandwidth se g obs k2) \<and> k_old k2 = t \<and>
      k_ok g aton k2 \<and>
      w_remainBand (k_world k2) = w_remainBand (k_world k) + (if t = k_old k then 0 else g_limitBand g))"
proof (cases "k_old k = t")
  case True
  have "k_ok g aton (set_world (\<lambda>w. w\<lparr>w_now := t\<rparr>) k)" by (rule k_ok_now [OF assms(3)])
  then show ?thesis using True assms(4)
    by (intro disjI2 exI [of _ "set_world (\<lambda>w. w\<lparr>w_now := t\<rparr>) k"]) (simp add: Let_def k_world_def)
next
  case False
  let ?k = "(set_world (\<lambda>w. w\<lparr>w_now := t\<rparr>) k)\<lparr>k_old := t\<rparr>"
  have ok: "k_ok g aton (set_world (\<lambda>w. w\<lparr>w_now := t\<rparr>) k)" by (rule k_ok_now [OF assms(3)])
  show ?thesis
  proof (cases "cron se g deb io ?k")
    case None
    then have "checkTimeout g io (k_pipes ?k) = None"
      using assms(2) by (cases "checkTimeout g io (k_pipes ?k)") (auto simp: cron_def)
    then show ?thesis using None assms(4) False ok by (auto simp: Let_def k_ok_def)
  next
    case (Some bk)
    then obtain b k2 where c: "cron se g deb io ?k = Some (b, k2)" by (cases bk) simp
    have w: "k_world ?k = (k_world k)\<lparr>w_now := t\<rparr>" by (simp add: k_world_def)
    have "w_remainBand (k_world k2) = w_remainBand (k_world k) + g_limitBand g"
      using cron_remainBand [OF c assms(2)] assms(1,4) unfolding w by simp
    moreover have "k_ok g aton k2" "k_old k2 = t" using cron_ok [OF _ c] ok by (simp_all add: k_ok_old)
    ultimately show ?thesis using assms(4) False c by (intro disjI2 exI [of _ k2]) (simp add: Let_def)
  qed
qed

lemma waitBandwidth_outcome:
  assumes "0 < g_limitBand g" "list_all (\<lambda>(t, deb, io). 0 < deb) obs" "k_ok g aton k"
  shows "wait_outcome se g aton obs k (waitBandwidth se g obs k)"
  using assms(2,3)
proof (induction obs arbitrary: k)
  case Nil
  then show ?case by (simp add: wait_outcome_def paid_now)
next
  case (Cons ob obs)
  obtain t deb io where ob: "ob = (t, deb, io)" by (cases ob)
  show ?case
  proof (cases "w_remainBand (k_world k) < 0")
    case True
    have "0 < deb" using Cons.prems(1) by (simp add: ob)
    from waitBandwidth_round [OF assms(1) this Cons.prems(2) True, of se t io] show ?thesis
    proof (elim disjE exE conjE)
      assume "\<forall>obs. waitBandwidth se g ((t, deb, io) # obs) k = Wait_crash" "t \<noteq> k_old k"
        "larbin_reaches g aton (k_pipes (set_world (\<lambda>w. w\<lparr>w_now := t\<rparr>) k))"
        "checkTimeout g io (k_pipes (set_world (\<lambda>w. w\<lparr>w_now := t\<rparr>) k)) = None"
      then show ?thesis using True unfolding wait_outcome_def ob
        by (auto intro!: exI [of _ 0] simp: Let_def simp del: waitBandwidth.simps(2))
    next
      fix k2
      assume k2: "\<forall>obs. waitBandwidth se g ((t, deb, io) # obs) k = waitBandwidth se g obs k2" "k_old k2 = t" "k_ok g aton k2"
        "w_remainBand (k_world k2) = w_remainBand (k_world k) + (if t = k_old k then 0 else g_limitBand g)"
      have "wait_outcome se g aton obs k2 (waitBandwidth se g obs k2)" using Cons.IH k2(3) Cons.prems(1) by simp
      from outcome_later [OF this k2(2) True k2(4) spec [OF k2(1)]] show ?thesis by (simp only: ob k2(1))
    qed
  qed (simp add: wait_outcome_def paid_now ob)
qed

text \<open>C12: Waiting for bandwidth, in rounds that come many to a second: as long as there are urls in
  memory, each new second, and nothing else, gives \<open>limitBand\<close> bytes back; the loop ends in the first round
  in which the debt is paid, and goes on only while the seconds are not enough for the debt. (The other way
  out is a failure inside the handling of the time-outs, in the state that the rounds before left.)\<close>

theorem waitBandwidth_returns:
  assumes "0 < g_limitBand g" "list_all (\<lambda>(t, deb, io). 0 < deb) obs" "k_ok g aton k"
  shows "case waitBandwidth se g obs k of
      Waited k' \<Rightarrow> \<exists>n \<le> length obs.
        w_remainBand (k_world k') = w_remainBand (k_world k) + int (seconds (k_old k) (take n (map fst obs))) * g_limitBand g \<and>
        0 \<le> w_remainBand (k_world k') \<and>
        (\<forall>m < n. w_remainBand (k_world k) + int (seconds (k_old k) (take m (map fst obs))) * g_limitBand g < 0)
    | Still_waiting k' \<Rightarrow> w_remainBand (k_world k) + int (seconds (k_old k) (map fst obs)) * g_limitBand g < 0
    | Wait_crash \<Rightarrow> \<exists>n < length obs. \<exists>k'. waitBandwidth se g (take n obs) k = Still_waiting k' \<and>
        (case obs ! n of (t, deb, io) \<Rightarrow> let p = k_pipes (set_world (\<lambda>w. w\<lparr>w_now := t\<rparr>) k') in
          t \<noteq> k_old k' \<and> larbin_reaches g aton p \<and> checkTimeout g io p = None)"
  by (rule waitBandwidth_outcome [OF assms, of se, unfolded wait_outcome_def paid_def length_map])

text \<open>Without work the waiting does not end: when the last page has used up the bandwidth and no url is
  left, \<open>cron\<close> returns before it gives bytes back, so the crawler neither goes on nor ends, however
  often the loop looks at the clock.\<close>

theorem waitBandwidth_stuck:
  assumes "pf_getLength (w_disk (k_world k)) = 0" "pf_getLength (w_diskWait (k_world k)) = 0"
    "w_remainBand (k_world k) < 0" "list_all (\<lambda>(t, deb, io). deb = 0) obs"
  shows "\<exists>k'. waitBandwidth se g obs k = Still_waiting k'"
  using assms
proof (induction obs arbitrary: k)
  case (Cons ob obs)
  obtain t deb io where ob: "ob = (t, deb, io)" by (cases ob)
  let ?k1 = "set_world (\<lambda>w. w\<lparr>w_now := t\<rparr>) k"
  have w: "k_world (?k1\<lparr>k_old := t\<rparr>) = (k_world k)\<lparr>w_now := t\<rparr>" by (simp add: k_world_def)
  have "cron se g deb io (?k1\<lparr>k_old := t\<rparr>) = Some (False, ?k1\<lparr>k_old := t\<rparr>)"
    using Cons.prems unfolding cron_def w by (simp add: ob)
  moreover have "\<exists>k'. waitBandwidth se g obs (?k1\<lparr>k_old := t\<rparr>) = Still_waiting k'"
    using Cons.IH [of "?k1\<lparr>k_old := t\<rparr>"] Cons.prems unfolding w by simp
  moreover have "\<exists>k'. waitBandwidth se g obs ?k1 = Still_waiting k'"
    using Cons.IH [of ?k1] Cons.prems by simp
  ultimately show ?case using Cons.prems(3) by (simp add: ob Let_def)
qed simp

text \<open>The search is closed with the web server unless that is to stay; a second interrupt closes
  the web server too.\<close>

lemma closeLevelUp_closes:
  assumes "k_closeLevel k = 0" "k_searchOn k"
  shows "\<not> k_searchOn (closeLevelUp se l k)"
    "k_webServerOn (closeLevelUp se l k) \<longleftrightarrow> k_webServerOn k \<and> se_highLevelWebServer se"
    "\<not> k_webServerOn (closeLevelUp se l' (closeLevelUp se l k))"
  using assms
  by (auto simp: closeLevelUp_def close_search_def LEVEL_SEARCH_def LEVEL_WEBSERVER_def Let_def)

text \<open>A time in seconds is split into days, hours below 24 and minutes below 60.\<close>

lemma transTime_correct:
  "case transTime t of (d, h, m) \<Rightarrow> m < 60 \<and> h < 24 \<and> (d * 24 + h) * 60 + m = t div 60"
proof -
  define m where "m = t div 60"
  define h where "h = m div 60"
  have e: "h * 60 + m mod 60 = m" "h div 24 * 24 + h mod 24 = h" unfolding h_def by (rule div_mult_mod_eq)+
  have tr: "transTime t = (if m < 60 then (0, 0, m) else if h < 24 then (0, h, m mod 60) else (h div 24, h mod 24, m mod 60))"
    by (simp add: transTime_def Let_def m_def h_def)
  have "1440 * (h div 24) + h mod 24 * 60 + m mod 60 = m" using e by linarith
  then show ?thesis unfolding tr m_def [symmetric] using e(1) by simp
qed

text \<open>The array of poll results always has room for a new descriptor, and growing it changes no
  result.\<close>

lemma verifMax_room:
  assumes "ansPoll \<noteq> []"
  shows "fd < length (verifMax fd ansPoll) \<and> take (length ansPoll) (verifMax fd ansPoll) = ansPoll"
  using assms by (auto simp: verifMax_def Let_def)

subsection \<open>Small crawlers\<close>

definition ex_settings :: settings where
  "ex_settings = \<lparr>se_histograms = True, se_highLevelWebServer = True, se_limitTime = 0, se_limitPage = 0, se_debug = False\<rparr>"

text \<open>The state before the first turn, \<open>debt\<close> bytes over the bandwidth.\<close>

definition ex_control :: "config \<Rightarrow> int \<Rightarrow> control" where
  "ex_control g debt =
     \<lparr>k_pipes = (pipes_new g 0 0)\<lparr>p_world := (world_new g 0)\<lparr>w_remainBand := - debt\<rparr>\<rparr>,
      k_inputs = initInput True (replicate 5 ex_conn), k_old = 0, k_closeLevel = 0, k_searchOn = True,
      k_webServerOn = False, k_histo = histograms_new 0, k_rates = rates_new\<rparr>"

definition ex_turn :: turn_io where
  "ex_turn = \<lparr>ti_now = 0, ti_deb = 1, ti_cron = ex_io, ti_wait = [],
     ti_input = \<lparr>ii_accept = Some 7, ii_ready = (\<lambda>_. False), ii_read = (\<lambda>_. Read_again)\<rparr>,
     ti_sockets = [], ti_answers = [], ti_io = ex_io\<rparr>"

definition ex_band :: config where "ex_band = ex_g\<lparr>g_limitBand := 100\<rparr>"

definition ex_polls :: "(int \<times> nat \<times> io) list" where
  "ex_polls = [(0, 1, ex_io), (0, 1, ex_io), (1, 1, ex_io), (1, 1, ex_io), (2, 1, ex_io), (3, 1, ex_io), (3, 1, ex_io)]"

lemma ex_control_ok: "k_ok g aton (ex_control g debt)"
proof -
  have "larbin_reaches g aton (k_pipes (ex_control g debt))"
    using larbin_next [OF larbin_init larbin_band] by (simp add: ex_control_def pipes_new_def)
  then show ?thesis
    by (auto simp: k_ok_def ex_control_def inputs_ok_def initInput_def conns_ok_def maxInput_def ex_conn_def nth_Cons split: nat.splits)
qed

text \<open>With no connection in use there is nothing to time out.\<close>

definition idle :: "control \<Rightarrow> bool" where
  "idle k \<longleftrightarrow> (\<forall>c. c_state (w_conns (k_world k) c) = emptyC)"

lemma idle_checkTimeout: "idle k \<Longrightarrow> checkTimeout g io (k_pipes (set_world (\<lambda>w. w\<lparr>w_now := t\<rparr>) k)) =
    Some (k_pipes (set_world (\<lambda>w. w\<lparr>w_now := t\<rparr>) k))"
proof -
  assume "idle k"
  then have "for_conns (check_timeout g io) cs (k_pipes (set_world (\<lambda>w. w\<lparr>w_now := t\<rparr>) k)) =
      Some (k_pipes (set_world (\<lambda>w. w\<lparr>w_now := t\<rparr>) k))" for cs
    by (induction cs) (simp_all add: check_timeout_def idle_def pconn_def k_world_def set_world_def)
  then show ?thesis by (simp add: checkTimeout_def)
qed

lemma idle_wait: "waitBandwidth se g obs k = Still_waiting k' \<Longrightarrow> idle k \<Longrightarrow> idle k'"
proof (induction se g obs k rule: waitBandwidth.induct)
  case (2 se g t deb io obs k)
  let ?k1 = "set_world (\<lambda>w. w\<lparr>w_now := t\<rparr>) k"
  have i: "idle ?k1" "idle (?k1\<lparr>k_old := t\<rparr>)" using "2.prems"(2) by (simp_all add: idle_def k_world_def set_world_def)
  have "idle k2" if "cron se g deb io (?k1\<lparr>k_old := t\<rparr>) = Some (b, k2)" for b k2
    using that i(2) idle_checkTimeout [OF "2.prems"(2), of g io t]
    by (auto simp: cron_def idle_def k_world_def cron_stats_frame refill_band_def read_again_def set_world_def split: if_splits)
  then show ?case using 2 i by (fastforce simp: Let_def split: if_splits option.splits prod.splits)
qed (auto split: if_splits)

theorem waitBandwidth_returns_witness:
  "case waitBandwidth ex_settings ex_band ex_polls (ex_control ex_band 250) of
     Waited k' \<Rightarrow> w_remainBand (k_world k') = 50
   | Still_waiting k' \<Rightarrow> False | Wait_crash \<Rightarrow> False"
proof -
  let ?r = "waitBandwidth ex_settings ex_band ex_polls (ex_control ex_band 250)"
  have g: "g_limitBand ex_band = 100" "0 < g_limitBand ex_band" by (simp_all add: ex_band_def)
  have k: "w_remainBand (k_world (ex_control ex_band 250)) = - 250" "k_old (ex_control ex_band 250) = 0"
    by (simp_all add: ex_control_def k_world_def)
  have deb: "list_all (\<lambda>(t, deb, io). 0 < deb) ex_polls" by (simp add: ex_polls_def)
  note r = waitBandwidth_returns [OF g(2) deb ex_control_ok [where debt = 250 and aton = "\<lambda>_. None"], where se = ex_settings, unfolded k g(1)]
  have L: "length ex_polls = 7" "map fst ex_polls = [0, 0, 1, 1, 2, 3, 3]" by (simp_all add: ex_polls_def)
  show ?thesis
  proof (cases ?r)
    case (Waited k')
    from r [unfolded Waited wait_result.case L] obtain n where n: "n \<le> 7"
      "w_remainBand (k_world k') = - 250 + int (seconds 0 (take n [0, 0, 1, 1, 2, 3, 3])) * 100"
      "0 \<le> w_remainBand (k_world k')" "\<forall>m < n. - 250 + int (seconds 0 (take m [0, 0, 1, 1, 2, 3, 3])) * 100 < 0"
      by auto
    have "n \<le> 6"
    proof (rule ccontr)
      assume "\<not> n \<le> 6"
      then have "6 < n" by simp
      then show False using n(4) by (auto dest!: spec [of _ 6])
    qed
    moreover have "\<not> n \<le> 5"
    proof
      assume "n \<le> 5"
      then have "n \<in> {0, 1, 2, 3, 4, 5}" by auto
      then show False using n(2,3) by auto
    qed
    ultimately have "n = 6" by simp
    then show ?thesis using Waited n(2) by simp
  next
    case (Still_waiting k')
    then show ?thesis using r [unfolded Still_waiting wait_result.case L] by simp
  next
    case Wait_crash
    from r [unfolded Wait_crash wait_result.case] obtain n k' where
      "waitBandwidth ex_settings ex_band (take n ex_polls) (ex_control ex_band 250) = Still_waiting k'"
      "case ex_polls ! n of (t, deb, io) \<Rightarrow> checkTimeout ex_band io (k_pipes (set_world (\<lambda>w. w\<lparr>w_now := t\<rparr>) k')) = None"
      by (auto simp: Let_def)
    moreover have "idle (ex_control ex_band 250)"
      by (simp add: idle_def ex_control_def k_world_def world_new_def Connexion_new_def)
    ultimately have False using idle_wait idle_checkTimeout by (fastforce split: prod.splits)
    then show ?thesis ..
  qed
qed

theorem waitBandwidth_stuck_witness:
  "\<exists>k'. waitBandwidth ex_settings ex_band (map (\<lambda>t. (int t, 0, ex_io)) [0..<1000]) (ex_control ex_band 1) = Still_waiting k'"
proof (rule waitBandwidth_stuck)
  show "pf_getLength (w_disk (k_world (ex_control ex_band 1))) = 0"
    "pf_getLength (w_diskWait (k_world (ex_control ex_band 1))) = 0"
    by (simp_all add: ex_control_def k_world_def world_new_def pf_scratch_def pf_open_def pf_getLength_def)
qed (simp_all add: ex_control_def k_world_def list_all_iff)


text \<open>A turn without work.\<close>

lemma idle_turn:
  fixes w :: world
  assumes "w_readPriorityWait w = 0" "w_readWait w = 0" "SyncFifo_tryGet (w_priority w) = (None, q)"
    "pf_tryGet (g_useCookies g) (w_disk w) = Some (None, d)" "Fifo_tryGet (w_dnsSites w) = (None, w_dnsSites w)"
    "w_nbDnsCalls w = 0" "Fifo_tryGet (w_okSites w) = (None, w_okSites w)"
  shows "\<exists>w2 w3 w4. sequencer g w = Some w2 \<and> fetchDns g aton w2 = Some w3 \<and> fetchOpen g w3 = Some w4 \<and>
    w_conns w4 = w_conns w"
proof -
  define w1 where "w1 = (if w_space w = 0 then (let (n, i) = Interval_putAll (w_inter w) in w\<lparr>w_space := n, w_inter := i\<rparr>) else w)"
  have f: "w_readPriorityWait w1 = 0" "w_readWait w1 = 0" "w_priority w1 = w_priority w" "w_disk w1 = w_disk w"
    "w_dnsSites w1 = w_dnsSites w" "w_nbDnsCalls w1 = 0" "w_okSites w1 = w_okSites w" "w_conns w1 = w_conns w"
    using assms(1,2,6) by (auto simp: w1_def Let_def split: prod.splits)
  have "canGetUrl g True w1 = Some (False, False, w1\<lparr>w_disk := d\<rparr>)"
    using f assms(3,4) by (simp add: canGetUrl_def)
  then have l: "\<exists>x. sequencer_loop g n True w1 = Some (w1\<lparr>w_disk := x\<rparr>)" for n
    by (cases n) (auto intro: exI [of _ "w_disk w1"])
  have "sequencer g w = sequencer_loop g (nat (if w_space w1 > maxPerCall then maxPerCall else w_space w1)) True w1"
    by (simp add: sequencer_def w1_def Let_def)
  with l obtain x where "sequencer g w = Some (w1\<lparr>w_disk := x\<rparr>)" by metis
  moreover have "fetchDns g aton (w1\<lparr>w_disk := x\<rparr>) = Some (w1\<lparr>w_disk := x\<rparr>)"
    unfolding fetchDns_def using f(5,6) assms(5)
    by (subst submit_loop.simps) (simp add: answer_loop.simps)
  moreover have "fetchOpen g (w1\<lparr>w_disk := x\<rparr>) = Some (w1\<lparr>w_disk := x\<rparr>)"
    unfolding fetchOpen_def using f(7) assms(7) by (subst fetchOpen_loop.simps) simp
  ultimately show ?thesis using f(8) by auto
qed

theorem main_loop_runs_witness:
  "\<exists>k' polls evs. main_loop ex_settings ex_g (\<lambda>_. None) 3 [ex_turn] (ex_control ex_g 0) [] [] = Next k' polls evs \<and>
     larbin_reaches ex_g (\<lambda>_. None) (k_pipes k') \<and> length polls + length evs \<le> 6"
proof -
  let ?k = "ex_control ex_g 0"
  have g: "g_limitBand ex_g = 0" "g_nb_conn ex_g = 1" by (simp_all add: ex_g_def default_config_def)
  have reach: "larbin_reaches ex_g (\<lambda>_. None) (k_pipes ?k)"
    using larbin_next [OF larbin_init larbin_band] by (simp add: ex_control_def pipes_new_def)
  have ins: "inputs_ok (k_inputs ?k)"
    by (auto simp: ex_control_def inputs_ok_def initInput_def conns_ok_def maxInput_def ex_conn_def nth_Cons split: nat.splits)
  let ?w = "(k_world (set_world (\<lambda>w. w\<lparr>w_now := 0\<rparr>) ?k))\<lparr>w_sockets := [], w_answers := []\<rparr>"
  have inp: "\<exists>s' polls. input ex_g 3 (ti_input ex_turn) (k_inputs ?k) ?w = Some (s', ?w, polls)"
    by (simp add: ex_turn_def ex_control_def input_def initInput_def accept_input_def fresh_input_def maxInput_def
        input_loop.simps input_conn_step_def INIT_def END_def)
  have "w_readPriorityWait ?w = 0" "w_readWait ?w = 0" "w_nbDnsCalls ?w = 0"
    "SyncFifo_tryGet (w_priority ?w) = (None, w_priority ?w)"
    "Fifo_tryGet (w_dnsSites ?w) = (None, w_dnsSites ?w)" "Fifo_tryGet (w_okSites ?w) = (None, w_okSites ?w)"
    "w_disk ?w = pf_scratch []" "w_conns ?w = (\<lambda>_. Connexion_new)"
    by (simp_all add: ex_control_def k_world_def world_new_def SyncFifo_new_def SyncFifo_tryGet_def Fifo_new_def Fifo_tryGet_def)
  moreover have "pf_tryGet c (pf_scratch []) = Some (None, pf_scratch [])" for c
    by (simp add: pf_tryGet_def pf_scratch_def pf_open_def)
  ultimately obtain w2 w3 w4 where seq: "sequencer ex_g ?w = Some w2" "fetchDns ex_g (\<lambda>_. None) w2 = Some w3"
    "fetchOpen ex_g w3 = Some w4" "w_conns w4 = (\<lambda>_. Connexion_new)"
    using idle_turn [of ?w _ ex_g _ "\<lambda>_. None"] by metis
  have "\<exists>p evs. checkAll ex_g (ti_io ex_turn) ((k_pipes (set_world (\<lambda>w. w\<lparr>w_now := 0\<rparr>) ?k))\<lparr>p_world := w4\<rparr>) = Some (p, evs)"
    using seq(4) by (simp add: checkAll_def g check_conn_def pconn_def Connexion_new_def)
  with inp seq(1-3) obtain k' polls evs where
    c: "crawl ex_g (\<lambda>_. None) 3 ex_turn (set_world (\<lambda>w. w\<lparr>w_now := 0\<rparr>) ?k) = Some (k', polls, evs)"
    by (auto simp: crawl_def ex_turn_def)
  have "k_old ?k = ti_now ex_turn" "ti_now ex_turn = 0" "k_searchOn ?k" by (simp_all add: ex_control_def ex_turn_def)
  with c have t: "main_loop ex_settings ex_g (\<lambda>_. None) 3 [ex_turn] ?k [] [] =
      (if k_searchOn k' then Next k' polls evs else Finished k')"
    by (simp add: turn_def Let_def rest_of_turn_def g)
  have "k_searchOn k'" using c by (auto simp: crawl_def bind_Some ex_control_def set_world_def)
  with t main_loop_runs [OF reach ins, of ex_settings 3 "[ex_turn]"] show ?thesis by (simp add: g maxInput_def)
qed

end
