(* ===== verification/Config.thy ===== *)
theory Config
  imports Control
begin

section \<open>Start-up and the configuration file (src/global.cxx)\<close>

text \<open>
  The constructor of \<open>global\<close> reads the arguments and the configuration file, builds the headers of
  the requests and the connections. The file is a sequence of words (\<open>tokens\<close>); a word names an
  option, whose arguments are the words after it. The options act when they are read: a start url is checked
  with the limits that have been read before it. A result \<open>Inl\<close> is the exit after a message or
  the use of a word that is missing (a NULL pointer); numbers that do not fit an \<open>int\<close>
  wrap. \<open>lookup\<close> is \<open>gethostbyname\<close>.
\<close>

datatype start_error = Bad_config | Null_word | Assert_fails

record startup =
  su_g :: config
  su_world :: world
  su_sender :: string
  su_proxyPort :: nat
  su_httpPort :: nat
  su_inputPort :: nat
  su_fetchInfo :: bool
  su_outputMode :: nat
  su_set :: settings

subsection \<open>Arguments\<close>

text \<open>The file and whether to reload; \<open>None\<close> is the message about the usage.\<close>

fun parse_args :: "string list \<Rightarrow> string \<times> bool \<Rightarrow> (string \<times> bool) option" where
  "parse_args [] st = Some st"
| "parse_args (a # as) (file, reload) =
     (if a = ''-c'' \<and> as \<noteq> [] then parse_args (tl as) (hd as, reload)
      else if a = ''--scratch'' then parse_args as (file, False)
      else if a = ''--reload'' then parse_args as (file, True)
      else None)"

subsection \<open>Words\<close>

fun strip_comments :: "bool \<Rightarrow> string \<Rightarrow> string" where
  "strip_comments eff [] = []"
| "strip_comments eff (c # cs) =
     (if c = NL then c # strip_comments False cs
      else if c = CHR ''#'' then CHR '' '' # strip_comments True cs
      else (if eff then CHR '' '' else c) # strip_comments eff cs)"

definition atoi :: "string \<Rightarrow> int" where
  "atoi t = (case scan_num t of None \<Rightarrow> 0 | Some (n, _) \<Rightarrow> s32 n)"

definition uint :: "int \<Rightarrow> nat" where
  "uint n = nat (n mod 2 ^ 32)"

definition ushort :: "int \<Rightarrow> nat" where
  "ushort n = nat (n mod 2 ^ 16)"

text \<open>\<open>manageDomain\<close>, \<open>manageExt\<close> and \<open>manageSpec\<close> read words up to \<open>end\<close>; the last one reads pairs.\<close>

definition is_end :: "string \<Rightarrow> bool" where
  "is_end t \<longleftrightarrow> streq_nocase t ''end''"

fun take_end :: "string list \<Rightarrow> (string list \<times> string list) option" where
  "take_end [] = None"
| "take_end (t # ts) =
     (if is_end t then Some ([], ts) else map_option (\<lambda>(ds, r). (t # ds, r)) (take_end ts))"

fun take_pairs :: "string list \<Rightarrow> ((string \<times> string) list \<times> string list) option" where
  "take_pairs (t # e # ts) =
     (if is_end t \<or> is_end e then Some ([], ts) else map_option (\<lambda>(ps, r). ((t, e) # ps, r)) (take_pairs ts))"
| "take_pairs _ = None"

definition add_domains :: "string list \<Rightarrow> config \<Rightarrow> config" where
  "add_domains ds g = g\<lparr>g_domains := Some ((case g_domains g of None \<Rightarrow> [] | Some xs \<Rightarrow> xs) @ ds)\<rparr>"

definition add_ext :: "string \<Rightarrow> config \<Rightarrow> config" where
  "add_ext t g =
     (let e = map tolower t in
      if matchPrivExt (g_specificSearch g) (g_privilegedExts g) e then g else g\<lparr>g_forbExt := g_forbExt g @ [e]\<rparr>)"

definition add_spec :: "string \<times> string \<Rightarrow> config \<Rightarrow> config" where
  "add_spec p g = g\<lparr>g_contentTypes := g_contentTypes g @ [fst p], g_privilegedExts := g_privilegedExts g @ [snd p]\<rparr>"

subsection \<open>Options\<close>

definition upd_g :: "(config \<Rightarrow> config) \<Rightarrow> startup \<Rightarrow> startup" where
  "upd_g f st = st\<lparr>su_g := f (su_g st)\<rparr>"

definition upd_set :: "(settings \<Rightarrow> settings) \<Rightarrow> startup \<Rightarrow> startup" where
  "upd_set f st = st\<lparr>su_set := f (su_set st)\<rparr>"

definition upd_world :: "(world \<Rightarrow> world) \<Rightarrow> startup \<Rightarrow> startup" where
  "upd_world f st = st\<lparr>su_world := f (su_world st)\<rparr>"

text \<open>The options without an argument.\<close>

definition flags :: "(string \<times> (startup \<Rightarrow> startup)) list" where
  "flags =
     [(''noExternalLinks'', upd_g (\<lambda>g. g\<lparr>g_externalLinks := False\<rparr>)),
      (''ignoreRobots'', upd_g (\<lambda>g. g\<lparr>g_ignoreRobots := True\<rparr>)),
      (''highLevelWebServer'', upd_set (\<lambda>s. s\<lparr>se_highLevelWebServer := True\<rparr>)),
      (''printStats'', upd_world (\<lambda>w. w\<lparr>w_printStats := True\<rparr>)),
      (''histograms'', upd_set (\<lambda>s. s\<lparr>se_histograms := True\<rparr>)),
      (''fetchInfo'', \<lambda>st. st\<lparr>su_fetchInfo := True\<rparr>),
      (''depthBySite'', upd_g (\<lambda>g. g\<lparr>g_depthBySite := True\<rparr>)),
      (''debug'', upd_set (\<lambda>s. s\<lparr>se_debug := True\<rparr>)),
      (''useCookies'', upd_g (\<lambda>g. g\<lparr>g_useCookies := True\<rparr>)),
      (''getImage'', upd_g (\<lambda>g. g\<lparr>g_getImage := True\<rparr>)),
      (''getCGI'', upd_g (\<lambda>g. g\<lparr>g_getCGI := True\<rparr>)),
      (''anyType'', upd_g (\<lambda>g. g\<lparr>g_anyType := True\<rparr>)),
      (''punycode'', upd_g (\<lambda>g. g\<lparr>g_punycode := True\<rparr>)),
      (''pageNoDuplicate'', upd_g (\<lambda>g. g\<lparr>g_pageNoDuplicate := True\<rparr>)),
      (''specificSearch'', upd_g (\<lambda>g. g\<lparr>g_specificSearch := True\<rparr>)),
      (''lockSite'', upd_g (\<lambda>g. g\<lparr>g_lockSite := True\<rparr>)),
      (''canReload'', upd_world (\<lambda>w. w\<lparr>w_canReload := True\<rparr>))]"

text \<open>The options with a number.\<close>

definition numbers :: "(string \<times> (int \<Rightarrow> startup \<Rightarrow> startup)) list" where
  "numbers =
     [(''waitduration'', \<lambda>n. upd_g (\<lambda>g. g\<lparr>g_waitDuration := n\<rparr>)),
      (''pagesConnexions'', \<lambda>n. upd_g (\<lambda>g. g\<lparr>g_nb_conn := uint n\<rparr>)),
      (''dnsConnexions'', \<lambda>n. upd_g (\<lambda>g. g\<lparr>g_dnsConn := uint n\<rparr>)),
      (''httpPort'', \<lambda>n st. st\<lparr>su_httpPort := ushort n\<rparr>),
      (''inputPort'', \<lambda>n st. st\<lparr>su_inputPort := ushort n\<rparr>),
      (''depthInSite'', \<lambda>n. upd_g (\<lambda>g. g\<lparr>g_depthInSite := n\<rparr>)),
      (''limitPage'', \<lambda>n. upd_set (\<lambda>s. s\<lparr>se_limitPage := uint n\<rparr>)),
      (''outputMode'', \<lambda>n st. st\<lparr>su_outputMode := uint n\<rparr>),
      (''limitTime'', \<lambda>n. upd_set (\<lambda>s. s\<lparr>se_limitTime := uint (s32 (n * 60))\<rparr>)),
      (''bondWidth'', \<lambda>n st. upd_world (\<lambda>w. w\<lparr>w_remainBand := n\<rparr>) (upd_g (\<lambda>g. g\<lparr>g_limitBand := n\<rparr>) st))]"

fun option_named :: "string \<Rightarrow> (string \<times> 'a) list \<Rightarrow> 'a option" where
  "option_named t [] = None"
| "option_named t ((n, x) # os) = (if streq_nocase t n then Some x else option_named t os)"

definition startUrl :: "string \<Rightarrow> startup \<Rightarrow> start_error + startup" where
  "startUrl t st =
     (case url_link t (g_depthInSite (su_g st)) None of
        None \<Rightarrow> Inl Assert_fails
      | Some u \<Rightarrow>
          if isValid u then
            (case check (su_g st) u (su_world st) of
               None \<Rightarrow> Inl Assert_fails
             | Some w \<Rightarrow> Inr (st\<lparr>su_world := w\<rparr>))
          else Inl Bad_config)"

definition proxy :: "(string \<Rightarrow> nat option) \<Rightarrow> string \<Rightarrow> string \<Rightarrow> startup \<Rightarrow> startup option" where
  "proxy lookup host port st =
     (case lookup host of
        None \<Rightarrow> None
      | Some a \<Rightarrow> Some ((upd_g (\<lambda>g. g\<lparr>g_proxyAddr := Some a\<rparr>) st)\<lparr>su_proxyPort := ushort (atoi port)\<rparr>))"

text \<open>One option: the words left and the new state. With \<open>proxy\<close> the host is looked up before the
  port is read.\<close>

definition read_option ::
    "(string \<Rightarrow> nat option) \<Rightarrow> string \<Rightarrow> string list \<Rightarrow> startup \<Rightarrow> start_error + string list \<times> startup" where
  "read_option lookup tok ts st =
     (if streq_nocase tok ''UserAgent'' then
        (case ts of [] \<Rightarrow> Inl Null_word | t # r \<Rightarrow> Inr (r, upd_g (\<lambda>g. g\<lparr>g_userAgent := t\<rparr>) st))
      else if streq_nocase tok ''From'' then
        (case ts of [] \<Rightarrow> Inl Null_word | t # r \<Rightarrow> Inr (r, st\<lparr>su_sender := t\<rparr>))
      else if streq_nocase tok ''startUrl'' then
        (case ts of [] \<Rightarrow> Inl Null_word
         | t # r \<Rightarrow> (case startUrl t st of Inl e \<Rightarrow> Inl e | Inr st' \<Rightarrow> Inr (r, st')))
      else if streq_nocase tok ''proxy'' then
        (case ts of [] \<Rightarrow> Inl Null_word
         | [t] \<Rightarrow> if lookup t = None then Inl Bad_config else Inl Null_word
         | t # p # r \<Rightarrow> (case proxy lookup t p st of None \<Rightarrow> Inl Bad_config | Some st' \<Rightarrow> Inr (r, st')))
      else if streq_nocase tok ''limitToDomain'' then
        (case take_end ts of None \<Rightarrow> Inl Bad_config | Some (ds, r) \<Rightarrow> Inr (r, upd_g (add_domains ds) st))
      else if streq_nocase tok ''forbiddenExtensions'' then
        (case take_end ts of None \<Rightarrow> Inl Bad_config | Some (es, r) \<Rightarrow> Inr (r, upd_g (fold add_ext es) st))
      else if streq_nocase tok ''specificSet'' then
        (case take_pairs ts of None \<Rightarrow> Inl Bad_config | Some (ps, r) \<Rightarrow> Inr (r, upd_g (fold add_spec ps) st))
      else
        (case option_named tok numbers of
           Some f \<Rightarrow> (case ts of [] \<Rightarrow> Inl Null_word | t # r \<Rightarrow> Inr (r, f (atoi t) st))
         | None \<Rightarrow>
             (case option_named tok flags of
                Some f \<Rightarrow> Inr (ts, f st)
              | None \<Rightarrow> Inl Bad_config)))"

lemma take_end_length: "take_end ts = Some (ds, r) \<Longrightarrow> length r \<le> length ts"
  by (induction ts arbitrary: ds r) (fastforce split: if_splits)+

lemma take_pairs_length: "take_pairs ts = Some (ps, r) \<Longrightarrow> length r \<le> length ts"
  by (induction ts arbitrary: ps r rule: take_pairs.induct) (fastforce split: if_splits)+

lemma read_option_length: "read_option lookup tok ts st = Inr (r, st') \<Longrightarrow> length r \<le> length ts"
  unfolding read_option_def
  by (auto dest: take_end_length take_pairs_length split: if_splits list.splits option.splits sum.splits prod.splits)

function parse_words :: "(string \<Rightarrow> nat option) \<Rightarrow> string list \<Rightarrow> startup \<Rightarrow> start_error + startup" where
  "parse_words lookup [] st = Inr st"
| "parse_words lookup (tok # ts) st =
     (case read_option lookup tok ts st of
        Inl e \<Rightarrow> Inl e
      | Inr (r, st') \<Rightarrow> parse_words lookup r st')"
  by pat_completeness auto

termination
  by (relation "measure (\<lambda>(lookup, ts, st). length ts)") (auto simp: less_Suc_eq_le intro: read_option_length)

definition parseFile :: "(string \<Rightarrow> nat option) \<Rightarrow> string \<Rightarrow> startup \<Rightarrow> start_error + startup" where
  "parseFile lookup text st = parse_words lookup (tokens (CHR '' '') (strip_comments False text)) st"

subsection \<open>The constructor\<close>

definition build_headers :: "string \<Rightarrow> config \<Rightarrow> string" where
  "build_headers sender g =
     CRNL @ ''User-Agent: '' @ g_userAgent g @ '' '' @ sender @
     (if g_specificSearch g then CRNL @ ''Accept: text/html'' @ concat (map (\<lambda>t. '', '' @ t) (g_contentTypes g)) else []) @
     (if \<not> g_anyType g then CRNL @ ''Accept: text/html'' else []) @ CRNL @ CRNL"

definition build_headersRobots :: "string \<Rightarrow> config \<Rightarrow> string" where
  "build_headersRobots sender g =
     CRNL @ ''User-Agent: '' @ g_userAgent g @ '' ('' @ sender @ '')'' @ CRNL @ CRNL"

text \<open>The state when the file is read; the arguments are what the constructors of the two queues on
  disk and of the table of urls give, from scratch or reloaded.\<close>

definition startup_new :: "int \<Rightarrow> pfifo \<Rightarrow> pfifo \<Rightarrow> bytes \<Rightarrow> startup" where
  "startup_new now disk diskWait seen =
     \<lparr>su_g = default_config,
      su_world = (world_new default_config now)\<lparr>w_disk := disk, w_diskWait := diskWait, w_seen := seen\<rparr>,
      su_sender = ''larbin@unspecified.mail'', su_proxyPort = 0, su_httpPort = 0, su_inputPort = 0,
      su_fetchInfo = False, su_outputMode = 0,
      su_set = \<lparr>se_histograms = False, se_highLevelWebServer = False, se_limitTime = 0, se_limitPage = 0,
        se_debug = False\<rparr>\<rparr>"

text \<open>After the file: the headers, the connections and the queue of the free ones, the table of
  pages.\<close>

definition final_config :: "startup \<Rightarrow> config" where
  "final_config st =
     (su_g st)\<lparr>g_headers := build_headers (su_sender st) (su_g st),
               g_headersRobots := build_headersRobots (su_sender st) (su_g st)\<rparr>"

definition init_connections :: "config \<Rightarrow> world \<Rightarrow> world option" where
  "init_connections g w =
     map_option (\<lambda>q. w\<lparr>w_freeConns := q, w_conns := (\<lambda>_. Connexion_new)\<rparr>)
       (put_all ConstFifo_put [0..<g_nb_conn g] (ConstFifo_new (g_nb_conn g)))"

definition global_new ::
    "(string \<Rightarrow> nat option) \<Rightarrow> int \<Rightarrow> pfifo \<Rightarrow> pfifo \<Rightarrow> bytes \<Rightarrow> bytes \<Rightarrow> string \<Rightarrow> start_error + startup" where
  "global_new lookup now disk diskWait seen dup text =
     (case parseFile lookup text (startup_new now disk diskWait seen) of
        Inl e \<Rightarrow> Inl e
      | Inr st \<Rightarrow>
          (let g = final_config st; w = (if g_pageNoDuplicate g then (su_world st)\<lparr>w_hDup := dup\<rparr> else su_world st) in
           case init_connections g w of
             None \<Rightarrow> Inl Assert_fails
           | Some w' \<Rightarrow> Inr (st\<lparr>su_g := g, su_world := w'\<rparr>)))"

text \<open>The state in which the main loop begins.\<close>

definition control_new :: "startup \<Rightarrow> int \<Rightarrow> input_conn list \<Rightarrow> control" where
  "control_new st d conns =
     \<lparr>k_pipes = \<lparr>p_world = su_world st, p_buf = (\<lambda>_. replicate maxPageSize NUL), p_obj = (\<lambda>_. None),
        p_sent = (\<lambda>_. []), p_unset = d\<rparr>,
      k_inputs = initInput (su_inputPort st \<noteq> 0) conns, k_old = w_now (su_world st), k_closeLevel = 0,
      k_searchOn = True, k_webServerOn = su_httpPort st \<noteq> 0, k_histo = histograms_new (w_now (su_world st)),
      k_rates = rates_new\<rparr>"

subsection \<open>Reading the file changes the queues only\<close>

definition begun :: "world \<Rightarrow> world \<Rightarrow> bool" where
  "begun w w' \<longleftrightarrow> (\<exists>q d t s cr ps b. w' = w\<lparr>w_priority := q, w_disk := d, w_seen := t, w_stats := s,
     w_canReload := cr, w_printStats := ps, w_remainBand := b\<rparr>)"

lemma begun_refl: "begun w w"
  unfolding begun_def by (intro exI [of _ "w_priority w"] exI [of _ "w_disk w"] exI [of _ "w_seen w"] exI [of _ "w_stats w"]
    exI [of _ "w_canReload w"] exI [of _ "w_printStats w"] exI [of _ "w_remainBand w"]) simp

lemma begun_trans: "begun w w1 \<Longrightarrow> begun w1 w2 \<Longrightarrow> begun w w2"
  unfolding begun_def by (elim exE) (simp, blast)

lemma begunI:
  "w' = w\<lparr>w_priority := w_priority w', w_disk := w_disk w', w_seen := w_seen w', w_stats := w_stats w',
     w_canReload := w_canReload w', w_printStats := w_printStats w', w_remainBand := w_remainBand w'\<rparr> \<Longrightarrow> begun w w'"
  unfolding begun_def by blast

lemma check_begun: "check g u w = Some w' \<Longrightarrow> begun w w'"
  by (rule begunI)
    (auto simp: check_def Let_def upd_stats_def answers_incr_def split: prod.splits if_splits)

lemma option_named_set: "option_named t os = Some f \<Longrightarrow> f \<in> snd ` set os"
  by (induction t os rule: option_named.induct) (auto split: if_splits)

lemma flags_begun: "f \<in> snd ` set flags \<Longrightarrow> begun (su_world st) (su_world (f st))"
  by (rule begunI) (auto simp: flags_def upd_g_def upd_set_def upd_world_def)

lemma numbers_begun: "f \<in> snd ` set numbers \<Longrightarrow> begun (su_world st) (su_world (f n st))"
  by (rule begunI) (auto simp: numbers_def upd_g_def upd_set_def upd_world_def)

lemma startUrl_begun: "startUrl t st = Inr st' \<Longrightarrow> begun (su_world st) (su_world st')"
  by (auto simp: startUrl_def split: option.splits if_splits dest: check_begun)

lemma read_option_begun:
  assumes "read_option lookup tok ts st = Inr (r, st')"
  shows "begun (su_world st) (su_world st')"
  using assms unfolding read_option_def proxy_def
  by (auto simp: upd_g_def begun_refl split: if_splits list.splits option.splits sum.splits prod.splits
      dest: startUrl_begun intro: flags_begun numbers_begun dest!: option_named_set)

lemma parse_words_begun: "parse_words lookup ts st = Inr st' \<Longrightarrow> begun (su_world st) (su_world st')"
proof (induction lookup ts st rule: parse_words.induct)
  case (2 lookup tok ts st)
  then obtain r st1 where r: "read_option lookup tok ts st = Inr (r, st1)" "parse_words lookup r st1 = Inr st'"
    by (auto split: sum.splits)
  from "2.IH" [OF r(1) refl r(2)] read_option_begun [OF r(1)] show ?case using begun_trans by blast
qed (simp add: begun_refl)

lemma global_new_world:
  assumes "global_new lookup now disk diskWait seen dup text = Inr st"
  shows "\<exists>q d t s cr ps b h. su_world st = (world_new (su_g st) now)\<lparr>w_priority := q, w_disk := d, w_diskWait := diskWait,
    w_seen := t, w_hDup := h, w_stats := s, w_canReload := cr, w_printStats := ps, w_remainBand := b\<rparr>"
proof -
  obtain st1 where p: "parseFile lookup text (startup_new now disk diskWait seen) = Inr st1"
    and i: "(case init_connections (final_config st1)
        (if g_pageNoDuplicate (final_config st1) then (su_world st1)\<lparr>w_hDup := dup\<rparr> else su_world st1) of
      None \<Rightarrow> Inl Assert_fails | Some w' \<Rightarrow> Inr (st1\<lparr>su_g := final_config st1, su_world := w'\<rparr>)) = (Inr st :: start_error + startup)"
    using assms by (auto simp: global_new_def Let_def split: sum.splits)
  obtain q where q: "put_all ConstFifo_put [0..<g_nb_conn (final_config st1)] (ConstFifo_new (g_nb_conn (final_config st1))) = Some q"
    using i by (auto simp: init_connections_def split: option.splits)
  have g: "su_g st = final_config st1" using i by (auto split: option.splits)
  have w: "su_world st = (if g_pageNoDuplicate (final_config st1) then (su_world st1)\<lparr>w_hDup := dup\<rparr> else su_world st1)
      \<lparr>w_freeConns := q, w_conns := (\<lambda>_. Connexion_new)\<rparr>"
    using i q by (auto simp: init_connections_def)
  obtain pq d t s cr ps b where "su_world st1 = (su_world (startup_new now disk diskWait seen))
      \<lparr>w_priority := pq, w_disk := d, w_seen := t, w_stats := s, w_canReload := cr, w_printStats := ps, w_remainBand := b\<rparr>"
    using parse_words_begun [OF p [unfolded parseFile_def]] by (auto simp: begun_def)
  then have st1: "su_world st1 = (world_new default_config now)\<lparr>w_disk := d, w_diskWait := diskWait,
      w_priority := pq, w_seen := t, w_stats := s, w_canReload := cr, w_printStats := ps, w_remainBand := b\<rparr>"
    by (simp add: startup_new_def)
  have "su_world st = (world_new (su_g st) now)\<lparr>w_priority := pq, w_disk := d, w_diskWait := diskWait,
    w_seen := t, w_hDup := (if g_pageNoDuplicate (final_config st1) then dup else hashTable_empty), w_stats := s,
    w_canReload := cr, w_printStats := ps, w_remainBand := b\<rparr>"
    unfolding w g st1 using q by (simp add: world_new_def)
  then show ?thesis by blast
qed

subsection \<open>The text of a configuration\<close>

text \<open>A file gives settings, one after the other.\<close>

text \<open>What a file can say and what it means, told without the tables of the reader: the
  switches and the quantities, their words and the fields that they set.\<close>

datatype switch =
    NoExternalLinks | IgnoreRobots | HighLevelWebServer | PrintStats | Histograms | FetchInfo
  | DepthBySite | Debug | UseCookies | GetImage | GetCGI | AnyType | Punycode | PageNoDuplicate
  | SpecificSearch | LockSite | CanReload

datatype quantity =
    WaitDuration | PagesConnexions | DnsConnexions | HttpPort | InputPort | DepthInSite
  | LimitPage | OutputMode | LimitTime | BondWidth

fun switch_word :: "switch \<Rightarrow> string" where
  "switch_word NoExternalLinks = ''noExternalLinks''"
| "switch_word IgnoreRobots = ''ignoreRobots''"
| "switch_word HighLevelWebServer = ''highLevelWebServer''"
| "switch_word PrintStats = ''printStats''"
| "switch_word Histograms = ''histograms''"
| "switch_word FetchInfo = ''fetchInfo''"
| "switch_word DepthBySite = ''depthBySite''"
| "switch_word Debug = ''debug''"
| "switch_word UseCookies = ''useCookies''"
| "switch_word GetImage = ''getImage''"
| "switch_word GetCGI = ''getCGI''"
| "switch_word AnyType = ''anyType''"
| "switch_word Punycode = ''punycode''"
| "switch_word PageNoDuplicate = ''pageNoDuplicate''"
| "switch_word SpecificSearch = ''specificSearch''"
| "switch_word LockSite = ''lockSite''"
| "switch_word CanReload = ''canReload''"

fun switch_on :: "switch \<Rightarrow> startup \<Rightarrow> startup" where
  "switch_on NoExternalLinks st = st\<lparr>su_g := (su_g st)\<lparr>g_externalLinks := False\<rparr>\<rparr>"
| "switch_on IgnoreRobots st = st\<lparr>su_g := (su_g st)\<lparr>g_ignoreRobots := True\<rparr>\<rparr>"
| "switch_on HighLevelWebServer st = st\<lparr>su_set := (su_set st)\<lparr>se_highLevelWebServer := True\<rparr>\<rparr>"
| "switch_on PrintStats st = st\<lparr>su_world := (su_world st)\<lparr>w_printStats := True\<rparr>\<rparr>"
| "switch_on Histograms st = st\<lparr>su_set := (su_set st)\<lparr>se_histograms := True\<rparr>\<rparr>"
| "switch_on FetchInfo st = st\<lparr>su_fetchInfo := True\<rparr>"
| "switch_on DepthBySite st = st\<lparr>su_g := (su_g st)\<lparr>g_depthBySite := True\<rparr>\<rparr>"
| "switch_on Debug st = st\<lparr>su_set := (su_set st)\<lparr>se_debug := True\<rparr>\<rparr>"
| "switch_on UseCookies st = st\<lparr>su_g := (su_g st)\<lparr>g_useCookies := True\<rparr>\<rparr>"
| "switch_on GetImage st = st\<lparr>su_g := (su_g st)\<lparr>g_getImage := True\<rparr>\<rparr>"
| "switch_on GetCGI st = st\<lparr>su_g := (su_g st)\<lparr>g_getCGI := True\<rparr>\<rparr>"
| "switch_on AnyType st = st\<lparr>su_g := (su_g st)\<lparr>g_anyType := True\<rparr>\<rparr>"
| "switch_on Punycode st = st\<lparr>su_g := (su_g st)\<lparr>g_punycode := True\<rparr>\<rparr>"
| "switch_on PageNoDuplicate st = st\<lparr>su_g := (su_g st)\<lparr>g_pageNoDuplicate := True\<rparr>\<rparr>"
| "switch_on SpecificSearch st = st\<lparr>su_g := (su_g st)\<lparr>g_specificSearch := True\<rparr>\<rparr>"
| "switch_on LockSite st = st\<lparr>su_g := (su_g st)\<lparr>g_lockSite := True\<rparr>\<rparr>"
| "switch_on CanReload st = st\<lparr>su_world := (su_world st)\<lparr>w_canReload := True\<rparr>\<rparr>"

fun quantity_word :: "quantity \<Rightarrow> string" where
  "quantity_word WaitDuration = ''waitduration''"
| "quantity_word PagesConnexions = ''pagesConnexions''"
| "quantity_word DnsConnexions = ''dnsConnexions''"
| "quantity_word HttpPort = ''httpPort''"
| "quantity_word InputPort = ''inputPort''"
| "quantity_word DepthInSite = ''depthInSite''"
| "quantity_word LimitPage = ''limitPage''"
| "quantity_word OutputMode = ''outputMode''"
| "quantity_word LimitTime = ''limitTime''"
| "quantity_word BondWidth = ''bondWidth''"

text \<open>The counts are unsigned, the ports have 16 bits, the time is given in minutes, and a limit of the
  bandwidth is also the first allowance.\<close>

fun set_quantity :: "quantity \<Rightarrow> int \<Rightarrow> startup \<Rightarrow> startup" where
  "set_quantity WaitDuration i st = st\<lparr>su_g := (su_g st)\<lparr>g_waitDuration := i\<rparr>\<rparr>"
| "set_quantity PagesConnexions i st = st\<lparr>su_g := (su_g st)\<lparr>g_nb_conn := nat (i mod 4294967296)\<rparr>\<rparr>"
| "set_quantity DnsConnexions i st = st\<lparr>su_g := (su_g st)\<lparr>g_dnsConn := nat (i mod 4294967296)\<rparr>\<rparr>"
| "set_quantity HttpPort i st = st\<lparr>su_httpPort := nat (i mod 65536)\<rparr>"
| "set_quantity InputPort i st = st\<lparr>su_inputPort := nat (i mod 65536)\<rparr>"
| "set_quantity DepthInSite i st = st\<lparr>su_g := (su_g st)\<lparr>g_depthInSite := i\<rparr>\<rparr>"
| "set_quantity LimitPage i st = st\<lparr>su_set := (su_set st)\<lparr>se_limitPage := nat (i mod 4294967296)\<rparr>\<rparr>"
| "set_quantity OutputMode i st = st\<lparr>su_outputMode := nat (i mod 4294967296)\<rparr>"
| "set_quantity LimitTime i st = st\<lparr>su_set := (su_set st)\<lparr>se_limitTime := nat (60 * i mod 4294967296)\<rparr>\<rparr>"
| "set_quantity BondWidth i st =
     st\<lparr>su_g := (su_g st)\<lparr>g_limitBand := i\<rparr>, su_world := (su_world st)\<lparr>w_remainBand := i\<rparr>\<rparr>"

text \<open>A switch and a quantity come with their spelling, since letters in capitals do not count.\<close>

datatype setting =
    Agent string
  | Sender string
  | Start string
  | Proxy string int
  | Domains "string list"
  | Extensions "string list"
  | Specific "(string \<times> string) list"
  | Number quantity string int
  | Flag switch string

fun words :: "setting \<Rightarrow> string list" where
  "words (Agent t) = [''UserAgent'', t]"
| "words (Sender t) = [''From'', t]"
| "words (Start t) = [''startUrl'', t]"
| "words (Proxy h i) = [''proxy'', h, print_int i]"
| "words (Domains ds) = ''limitToDomain'' # ds @ [''end'']"
| "words (Extensions es) = ''forbiddenExtensions'' # es @ [''end'']"
| "words (Specific ps) = ''specificSet'' # concat (map (\<lambda>(t, e). [t, e]) ps) @ [''end'', ''end'']"
| "words (Number q w i) = [w, print_int i]"
| "words (Flag f w) = [w]"

fun meaning :: "(string \<Rightarrow> nat option) \<Rightarrow> setting \<Rightarrow> startup \<Rightarrow> start_error + startup" where
  "meaning lookup (Agent t) st = Inr (st\<lparr>su_g := (su_g st)\<lparr>g_userAgent := t\<rparr>\<rparr>)"
| "meaning lookup (Sender t) st = Inr (st\<lparr>su_sender := t\<rparr>)"
| "meaning lookup (Start t) st =
     (case url_link t (g_depthInSite (su_g st)) None of
        None \<Rightarrow> Inl Assert_fails
      | Some u \<Rightarrow>
          if \<not> isValid u then Inl Bad_config
          else (case check (su_g st) u (su_world st) of
                  None \<Rightarrow> Inl Assert_fails
                | Some w \<Rightarrow> Inr (st\<lparr>su_world := w\<rparr>)))"
| "meaning lookup (Proxy h i) st =
     (case lookup h of
        None \<Rightarrow> Inl Bad_config
      | Some a \<Rightarrow> Inr (st\<lparr>su_g := (su_g st)\<lparr>g_proxyAddr := Some a\<rparr>, su_proxyPort := nat (i mod 65536)\<rparr>))"
| "meaning lookup (Domains ds) st =
     Inr (st\<lparr>su_g := (su_g st)\<lparr>g_domains :=
       (case g_domains (su_g st) of None \<Rightarrow> Some ds | Some xs \<Rightarrow> Some (xs @ ds))\<rparr>\<rparr>)"
| "meaning lookup (Extensions es) st =
     Inr (st\<lparr>su_g := (su_g st)\<lparr>g_forbExt := g_forbExt (su_g st) @
       filter (\<lambda>e. \<not> matchPrivExt (g_specificSearch (su_g st)) (g_privilegedExts (su_g st)) e) (map (map tolower) es)\<rparr>\<rparr>)"
| "meaning lookup (Specific ps) st =
     Inr (st\<lparr>su_g := (su_g st)\<lparr>g_contentTypes := g_contentTypes (su_g st) @ map fst ps,
       g_privilegedExts := g_privilegedExts (su_g st) @ map snd ps\<rparr>\<rparr>)"
| "meaning lookup (Number q w i) st = Inr (set_quantity q i st)"
| "meaning lookup (Flag f w) st = Inr (switch_on f st)"

fun meanings :: "(string \<Rightarrow> nat option) \<Rightarrow> setting list \<Rightarrow> startup \<Rightarrow> start_error + startup" where
  "meanings lookup [] st = Inr st"
| "meanings lookup (s # ss) st =
     (case meaning lookup s st of Inl e \<Rightarrow> Inl e | Inr st' \<Rightarrow> meanings lookup ss st')"

fun setting_ok :: "setting \<Rightarrow> bool" where
  "setting_ok (Domains ds) \<longleftrightarrow> (\<forall>d\<in>set ds. \<not> is_end d)"
| "setting_ok (Extensions es) \<longleftrightarrow> (\<forall>e\<in>set es. \<not> is_end e)"
| "setting_ok (Specific ps) \<longleftrightarrow> (\<forall>(t, e)\<in>set ps. \<not> is_end t \<and> \<not> is_end e)"
| "setting_ok (Proxy h i) \<longleftrightarrow> - (2 ^ 31) \<le> i \<and> i < 2 ^ 31"
| "setting_ok (Number q w i) \<longleftrightarrow> streq_nocase w (quantity_word q) \<and> - (2 ^ 31) \<le> i \<and> i < 2 ^ 31"
| "setting_ok (Flag f w) \<longleftrightarrow> streq_nocase w (switch_word f)"
| "setting_ok _ \<longleftrightarrow> True"

lemma is_end_end: "is_end ''end''"
  by (simp add: is_end_def streq_nocase_def)

lemma take_end_all: "\<forall>d\<in>set ds. \<not> is_end d \<Longrightarrow> take_end (ds @ ''end'' # r) = Some (ds, r)"
  by (induction ds) (simp_all add: is_end_end)

lemma take_pairs_all:
  "\<forall>(t, e)\<in>set ps. \<not> is_end t \<and> \<not> is_end e \<Longrightarrow>
     take_pairs (concat (map (\<lambda>(t, e). [t, e]) ps) @ ''end'' # ''end'' # r) = Some (ps, r)"
  by (induction ps) (auto simp: is_end_end)

lemma streq_nocase_refl: "streq_nocase s s"
  by (simp add: streq_nocase_def)

lemma atoi_print_int:
  assumes "- (2 ^ 31) \<le> i" "i < 2 ^ 31"
  shows "atoi (print_int i) = i"
proof -
  have digit: "is_digit c \<Longrightarrow> \<not> is_space c \<and> c \<noteq> CHR ''-'' \<and> c \<noteq> CHR ''+''" for c
    by (auto simp: is_digit_def is_space_def)
  have scan: "scan_num (dec n) = Some (int n, [])" "scan_num (CHR ''-'' # dec n) = Some (- int n, [])" for n
  proof -
    obtain c cs where c: "dec n = c # cs" using dec_nonempty by (cases "dec n") auto
    have "\<forall>x\<in>set (dec n). is_digit x" by (rule dec_all_digits)
    then have tw: "takeWhile is_digit (dec n) = dec n" "dropWhile is_digit (dec n) = []" "is_digit c"
      "takeWhile is_digit cs = cs" "dropWhile is_digit cs = []"
      by (simp_all add: c takeWhile_eq_all_conv)
    have v: "dec_val (dec n) = n" by simp
    show "scan_num (dec n) = Some (int n, [])"
      using v tw(3) digit [OF tw(3)] by (simp add: scan_num_def c Let_def tw(4,5))
    show "scan_num (CHR ''-'' # dec n) = Some (- int n, [])"
      using v tw(3) digit [OF tw(3)] by (simp add: scan_num_def c Let_def tw(4,5) is_space_def)
  qed
  have "s32 i = i" by (rule s32_id [OF assms])
  then show ?thesis using scan [of "nat i"] scan [of "nat (- i)"] by (simp add: atoi_def print_int_def)
qed

lemmas char_case = streq_nocase_def tolower_def is_upper_def

lemma option_named_cong: "streq_nocase t n \<Longrightarrow> option_named t os = option_named n os"
  by (induction t os rule: option_named.induct) (auto simp: streq_nocase_def)

lemma streq_nocase_subst: "streq_nocase t n \<Longrightarrow> streq_nocase t x = streq_nocase n x"
  by (simp add: streq_nocase_def)

lemma fold_add_ext:
  "fold add_ext es g = g\<lparr>g_forbExt := g_forbExt g @
     filter (\<lambda>e. \<not> matchPrivExt (g_specificSearch g) (g_privilegedExts g) e) (map (map tolower) es)\<rparr>"
  by (induction es arbitrary: g) (simp_all add: add_ext_def Let_def)

lemma fold_add_spec:
  "fold add_spec ps g = g\<lparr>g_contentTypes := g_contentTypes g @ map fst ps, g_privilegedExts := g_privilegedExts g @ map snd ps\<rparr>"
  by (induction ps arbitrary: g) (simp_all add: add_spec_def)

lemma uint_s32: "uint (s32 n) = nat (n mod 4294967296)"
proof -
  have "take_bit 32 (signed_take_bit 31 n) = take_bit 32 n" by (rule take_bit_signed_take_bit) simp
  then show ?thesis by (simp add: uint_def s32_def take_bit_eq_mod)
qed

lemma low_words:
  "map tolower ''UserAgent'' = ''useragent''"
  "map tolower ''From'' = ''from''"
  "map tolower ''startUrl'' = ''starturl''"
  "map tolower ''proxy'' = ''proxy''"
  "map tolower ''limitToDomain'' = ''limittodomain''"
  "map tolower ''forbiddenExtensions'' = ''forbiddenextensions''"
  "map tolower ''specificSet'' = ''specificset''"
  "map tolower ''end'' = ''end''"
  "map tolower ''noExternalLinks'' = ''noexternallinks''"
  "map tolower ''ignoreRobots'' = ''ignorerobots''"
  "map tolower ''highLevelWebServer'' = ''highlevelwebserver''"
  "map tolower ''printStats'' = ''printstats''"
  "map tolower ''histograms'' = ''histograms''"
  "map tolower ''fetchInfo'' = ''fetchinfo''"
  "map tolower ''depthBySite'' = ''depthbysite''"
  "map tolower ''debug'' = ''debug''"
  "map tolower ''useCookies'' = ''usecookies''"
  "map tolower ''getImage'' = ''getimage''"
  "map tolower ''getCGI'' = ''getcgi''"
  "map tolower ''anyType'' = ''anytype''"
  "map tolower ''punycode'' = ''punycode''"
  "map tolower ''pageNoDuplicate'' = ''pagenoduplicate''"
  "map tolower ''specificSearch'' = ''specificsearch''"
  "map tolower ''lockSite'' = ''locksite''"
  "map tolower ''canReload'' = ''canreload''"
  "map tolower ''waitduration'' = ''waitduration''"
  "map tolower ''pagesConnexions'' = ''pagesconnexions''"
  "map tolower ''dnsConnexions'' = ''dnsconnexions''"
  "map tolower ''httpPort'' = ''httpport''"
  "map tolower ''inputPort'' = ''inputport''"
  "map tolower ''depthInSite'' = ''depthinsite''"
  "map tolower ''limitPage'' = ''limitpage''"
  "map tolower ''outputMode'' = ''outputmode''"
  "map tolower ''limitTime'' = ''limittime''"
  "map tolower ''bondWidth'' = ''bondwidth''"
  by code_simp+

lemma option_named_low:
  "option_named t [] = None"
  "option_named t ((n, x) # os) = (if map tolower t = map tolower n then Some x else option_named t os)"
  by (simp_all add: streq_nocase_def)

text \<open>Each word finds its row of the tables, and is no other word.\<close>

lemma number_row:
  "option_named (quantity_word q) numbers \<noteq> None \<and> the (option_named (quantity_word q) numbers) i st = set_quantity q i st"
  by (cases q; simp only: quantity_word.simps numbers_def option_named_low low_words set_quantity.simps)
    (simp_all add: upd_g_def upd_set_def upd_world_def uint_s32 mult.commute, simp_all add: uint_def ushort_def)

lemma flag_row:
  "option_named (switch_word f) numbers = None \<and> option_named (switch_word f) flags \<noteq> None \<and>
   the (option_named (switch_word f) flags) st = switch_on f st"
  by (cases f; simp only: switch_word.simps numbers_def flags_def option_named_low low_words switch_on.simps)
    (simp_all add: upd_g_def upd_set_def upd_world_def)

definition list_words :: "string list" where
  "list_words = [''UserAgent'', ''From'', ''startUrl'', ''proxy'', ''limitToDomain'', ''forbiddenExtensions'', ''specificSet'']"

lemma number_not_word: "list_all (\<lambda>x. \<not> streq_nocase (quantity_word q) x) list_words"
  by (cases q; simp only: quantity_word.simps list_words_def list.pred_inject streq_nocase_def low_words) simp_all

lemma flag_not_word: "list_all (\<lambda>x. \<not> streq_nocase (switch_word f) x) list_words"
  by (cases f; simp only: switch_word.simps list_words_def list.pred_inject streq_nocase_def low_words) simp_all

lemma read_option_words:
  assumes "setting_ok s"
  shows "read_option lookup (hd (words s)) (tl (words s) @ r) st =
    (case meaning lookup s st of Inl e \<Rightarrow> Inl e | Inr st' \<Rightarrow> Inr (r, st'))"
proof (cases s)
  case (Number q w i)
  then have w: "streq_nocase w (quantity_word q)" and i: "- (2 ^ 31) \<le> i" "i < 2 ^ 31" using assms by auto
  note no = number_not_word [of q, unfolded list_words_def list.pred_inject]
  obtain f where f: "option_named w numbers = Some f" "f i st = set_quantity q i st"
    using number_row [of q i st] option_named_cong [OF w, of numbers] by auto
  show ?thesis using Number f atoi_print_int [OF i] no
    by (simp add: read_option_def streq_nocase_subst [OF w])
next
  case (Flag f w)
  then have w: "streq_nocase w (switch_word f)" using assms by auto
  note no = flag_not_word [of f, unfolded list_words_def list.pred_inject]
  obtain h where h: "option_named w numbers = None" "option_named w flags = Some h" "h st = switch_on f st"
    using flag_row [of f st] option_named_cong [OF w, of numbers] option_named_cong [OF w, of flags] by auto
  show ?thesis using Flag h no by (simp add: read_option_def streq_nocase_subst [OF w])
next
  case (Proxy h i)
  then have "atoi (print_int i) = i" using assms atoi_print_int by auto
  then show ?thesis using Proxy
    by (simp add: read_option_def streq_nocase_refl proxy_def upd_g_def ushort_def split: option.splits)
      (simp add: char_case)
next
  case (Domains ds)
  then show ?thesis using assms take_end_all [of ds r]
    by (simp add: read_option_def streq_nocase_refl add_domains_def upd_g_def split: option.splits) (simp add: char_case)
next
  case (Extensions es)
  then show ?thesis using assms take_end_all [of es r]
    by (simp add: read_option_def streq_nocase_refl fold_add_ext upd_g_def) (simp add: char_case)
next
  case (Specific ps)
  then show ?thesis using assms take_pairs_all [of ps r]
    by (simp add: read_option_def streq_nocase_refl fold_add_spec upd_g_def) (simp add: char_case)
next
  case (Start t)
  have "\<not> streq_nocase ''startUrl'' ''UserAgent''" "\<not> streq_nocase ''startUrl'' ''From''" by (simp_all add: char_case)
  then show ?thesis using Start
    by (simp add: read_option_def streq_nocase_refl startUrl_def split: option.splits)
qed (simp_all add: read_option_def streq_nocase_refl upd_g_def, simp add: char_case)

lemma parse_words_words:
  "list_all setting_ok ss \<Longrightarrow> parse_words lookup (concat (map words ss)) st = meanings lookup ss st"
proof (induction ss arbitrary: st)
  case (Cons s ss)
  obtain w ws where w: "words s = w # ws" by (cases s) simp_all
  then show ?case using Cons read_option_words [of s lookup "concat (map words ss)" st]
    by (auto split: sum.splits)
qed simp

subsection \<open>Words in a text\<close>

text \<open>Words between blanks, comments at the ends of lines.\<close>

definition plain_word :: "string \<Rightarrow> bool" where
  "plain_word w \<longleftrightarrow> w \<noteq> [] \<and> hd w \<noteq> CHR 0x22 \<and> CHR ''#'' \<notin> set w \<and> (\<forall>c\<in>set w. \<not> is_sep (CHR '' '') c)"

fun config_text :: "(string list \<times> string option) list \<Rightarrow> string" where
  "config_text [] = []"
| "config_text ((ws, com) # ls) =
     concat (map (\<lambda>w. w @ '' '') ws) @ (case com of None \<Rightarrow> [] | Some c \<Rightarrow> CHR ''#'' # c) @ NL # config_text ls"

lemma strip_word: "CHR ''#'' \<notin> set w \<Longrightarrow> NL \<notin> set w \<Longrightarrow> strip_comments False (w @ r) = w @ strip_comments False r"
  by (induction w) auto

lemma strip_comment:
  "NL \<notin> set c \<Longrightarrow> \<exists>bl. strip_comments True (c @ NL # r) = bl @ NL # strip_comments False r \<and> set bl \<subseteq> {CHR '' ''}"
proof (induction c)
  case (Cons x c)
  then obtain bl where "strip_comments True (c @ NL # r) = bl @ NL # strip_comments False r" "set bl \<subseteq> {CHR '' ''}" by auto
  then show ?case using Cons.prems by (intro exI [of _ "CHR '' '' # bl"]) auto
qed auto

lemma tokens_word:
  assumes "plain_word w" "is_sep (CHR '' '') x"
  shows "tokens (CHR '' '') (w @ x # s) = w # tokens (CHR '' '') s"
proof -
  have "hd w \<noteq> CHR ''#''" using assms(1) by (cases w) (auto simp: plain_word_def)
  then show ?thesis using assms by (intro tokens_token) (simp_all add: plain_word_def plain_token_def)
qed

lemma tokens_config_text:
  assumes "\<forall>(ws, com)\<in>set ls. (\<forall>w\<in>set ws. plain_word w) \<and> (\<forall>c. com = Some c \<longrightarrow> NL \<notin> set c)"
  shows "tokens (CHR '' '') (strip_comments False (config_text ls)) = concat (map fst ls)"
  using assms
proof (induction ls)
  case Nil
  then show ?case by (simp add: tokens.simps nextToken_def)
next
  case (Cons l ls)
  obtain ws com where l: "l = (ws, com)" by (cases l)
  have sep: "is_sep (CHR '' '') NL" "is_sep (CHR '' '') (CHR '' '')" by (simp_all add: is_sep_def)
  have ws: "\<forall>w\<in>set ws. plain_word w" and com: "\<forall>c. com = Some c \<longrightarrow> NL \<notin> set c" using Cons.prems by (auto simp: l)
  let ?t = "(case com of None \<Rightarrow> [] | Some c \<Rightarrow> CHR ''#'' # c) @ NL # config_text ls"
  obtain bl where bl: "strip_comments False ?t = bl @ NL # strip_comments False (config_text ls)" "set bl \<subseteq> {CHR '' ''}"
  proof (cases com)
    case None
    then show thesis using that [of "[]"] by simp
  next
    case (Some c)
    then obtain bl where "strip_comments True (c @ NL # config_text ls) = bl @ NL # strip_comments False (config_text ls)"
      "set bl \<subseteq> {CHR '' ''}" using strip_comment com by blast
    then show thesis using that [of "CHR '' '' # bl"] Some by (simp add: NL_def)
  qed
  have "tokens (CHR '' '') (strip_comments False ?t) = concat (map fst ls)"
    unfolding bl(1) using bl(2) sep Cons by (subst tokens_blanks) (auto simp: tokens_blank)
  moreover have "tokens (CHR '' '') (strip_comments False (concat (map (\<lambda>w. w @ '' '') ws) @ t)) =
      ws @ tokens (CHR '' '') (strip_comments False t)" for t
    using ws
  proof (induction ws)
    case (Cons w ws)
    have pw: "plain_word w" using Cons.prems by simp
    then have "CHR ''#'' \<notin> set w" "NL \<notin> set w" using sep(1) by (auto simp: plain_word_def)
    then have "strip_comments False (w @ CHR '' '' # r) = w @ CHR '' '' # strip_comments False r" for r
      by (simp add: strip_word NL_def)
    then show ?case using Cons tokens_word [OF pw sep(2)] by simp
  qed simp
  ultimately show ?case by (simp add: l)
qed

subsection \<open>Properties\<close>

text \<open>C13: A configuration file does what its settings say, in their order, however they are broken into
  lines and whatever is in the comments. (Words without blanks and number signs, lists without
  the word \<open>end\<close>, numbers of 32 bits.)\<close>

theorem parseFile_settings:
  assumes "list_all setting_ok ss" "concat (map fst ls) = concat (map words ss)"
    "\<forall>(ws, com)\<in>set ls. (\<forall>w\<in>set ws. plain_word w) \<and> (\<forall>c. com = Some c \<longrightarrow> NL \<notin> set c)"
  shows "parseFile lookup (config_text ls) st = meanings lookup ss st"
  by (simp add: parseFile_def tokens_config_text [OF assms(3)] assms(2) parse_words_words [OF assms(1)])

definition ex_lines :: "(string list \<times> string option) list" where
  "ex_lines = [([], Some '' my # configuration''), ([''depthinsite''], Some ''how deep''), ([''3'', ''LockSite'', ''limitToDomain''], None),
     ([''.org'', ''.net''], None), ([''end''], Some []), ([''UserAgent'', ''bot''], None)]"

definition ex_settings_list :: "setting list" where
  "ex_settings_list = [Number DepthInSite ''depthinsite'' 3, Flag LockSite ''LockSite'', Domains [''.org'', ''.net''], Agent ''bot'']"

lemma print_int_small: "print_int 3 = ''3''" "print_int 1 = ''1''"
  by (simp_all add: print_int_def dec.simps digit_chr_def chr_def char_of_def bit_Suc_0_iff)

theorem parseFile_settings_witness:
  "\<exists>st'. parseFile (\<lambda>_. None) (config_text ex_lines) (startup_new 0 (pf_scratch []) (pf_scratch []) hashTable_empty) = Inr st' \<and>
     g_depthInSite (su_g st') = 3 \<and> g_lockSite (su_g st') \<and> g_domains (su_g st') = Some [''.org'', ''.net''] \<and>
     g_userAgent (su_g st') = ''bot''"
proof -
  have ok: "list_all setting_ok ex_settings_list"
    by (simp add: ex_settings_list_def is_end_def char_case chr_def char_of_def bit_Suc_0_iff numbers_def flags_def)
  have words: "concat (map fst ex_lines) = concat (map words ex_settings_list)"
    by (simp add: ex_lines_def ex_settings_list_def print_int_small)
  have plain: "\<forall>(ws, com)\<in>set ex_lines. (\<forall>w\<in>set ws. plain_word w) \<and> (\<forall>c. com = Some c \<longrightarrow> NL \<notin> set c)"
    by (simp add: ex_lines_def plain_word_def is_sep_def TAB_def NL_def CR_def)
  show ?thesis
    using parseFile_settings [OF ok words plain, of "\<lambda>_. None" "startup_new 0 (pf_scratch []) (pf_scratch []) hashTable_empty"]
    by (simp add: ex_settings_list_def char_case chr_def char_of_def bit_Suc_0_iff numbers_def flags_def upd_g_def add_domains_def startup_new_def default_config_def)
qed

text \<open>What the constructor of \<open>global\<close> leaves is a state of the crawler that its steps can reach, whatever
  the configuration file says and whatever was reloaded; with it the main loop starts.\<close>

theorem startup_reaches:
  assumes "global_new lookup now disk diskWait seen dup text = Inr st"
    "length conns = maxInput" "\<forall>c\<in>set conns. length (in_buf c) = BUF_SIZE"
  shows "larbin_reaches (su_g st) aton (k_pipes (control_new st d conns)) \<and>
    inputs_ok (k_inputs (control_new st d conns))"
proof
  obtain q di t s cr ps b h where w: "su_world st = (world_new (su_g st) now)\<lparr>w_priority := q, w_disk := di,
    w_diskWait := diskWait, w_seen := t, w_hDup := h, w_stats := s, w_canReload := cr, w_printStats := ps, w_remainBand := b\<rparr>"
    using global_new_world [OF assms(1)] by blast
  let ?p = "pipes_new (su_g st) now d"
  have "larbin_reaches (su_g st) aton (?p\<lparr>p_world := (world_new (su_g st) now)\<lparr>w_priority := q, w_disk := di,
    w_diskWait := diskWait, w_seen := t, w_hDup := h, w_stats := s, w_canReload := cr, w_printStats := ps\<rparr>\<rparr>)"
    by (rule larbin_next [OF larbin_init larbin_sched]) (simp add: pipes_new_def sched_queues)
  from larbin_next [OF this larbin_band [where b = b]]
  show "larbin_reaches (su_g st) aton (k_pipes (control_new st d conns))"
    by (simp add: control_new_def w pipes_new_def)
  show "inputs_ok (k_inputs (control_new st d conns))"
    using assms(2,3) by (simp add: control_new_def inputs_ok_def initInput_def conns_ok_def)
qed

theorem startup_reaches_witness:
  "\<exists>st. global_new (\<lambda>_. None) 0 (pf_scratch []) (pf_scratch []) hashTable_empty hashTable_empty
       (config_text [([''pagesConnexions'', ''1''], Some ''one only'')]) = Inr st \<and>
     larbin_reaches (su_g st) (\<lambda>_. None) (k_pipes (control_new st 0 (replicate 5 ex_conn)))"
proof -
  let ?ls = "[([''pagesConnexions'', ''1''], Some ''one only'')] :: (string list \<times> string option) list"
  let ?st = "startup_new 0 (pf_scratch []) (pf_scratch []) hashTable_empty"
  have "tokens (CHR '' '') (strip_comments False (config_text ?ls)) = [''pagesConnexions'', ''1'']"
    by (subst tokens_config_text) (simp_all add: plain_word_def is_sep_def TAB_def NL_def CR_def)
  moreover have "atoi ''1'' = 1" using atoi_print_int [of 1] by (simp add: print_int_small)
  ultimately have p: "parseFile (\<lambda>_. None) (config_text ?ls) ?st = Inr (upd_g (\<lambda>g. g\<lparr>g_nb_conn := 1\<rparr>) ?st)"
    by (simp add: parseFile_def read_option_def char_case numbers_def uint_def)
  have "\<exists>st. global_new (\<lambda>_. None) 0 (pf_scratch []) (pf_scratch []) hashTable_empty hashTable_empty (config_text ?ls) = Inr st"
    unfolding global_new_def p
    by (simp add: final_config_def upd_g_def startup_new_def init_connections_def ConstFifo_new_def ConstFifo_put_def Let_def)
  then obtain st where st: "global_new (\<lambda>_. None) 0 (pf_scratch []) (pf_scratch []) hashTable_empty hashTable_empty (config_text ?ls) = Inr st"
    by blast
  with startup_reaches [OF st, of "replicate 5 ex_conn" "\<lambda>_. None" 0] show ?thesis
    by (simp add: maxInput_def ex_conn_def)
qed

end
