(* ===== verification/AdnsTypes.thy ===== *)
theory AdnsTypes
  imports Larbin_Prelude "HOL-Library.Multiset"
begin

section \<open>Statuses, record types and tables of adns (adns/adns.h, adns/general.c, adns/types.c)\<close>

text \<open>
  The resolver library that the crawler is built with. This theory holds its status codes, record
  types, flags and limits, the binary search by which its three tables are read
  (\<open>bsearch\<close> in \<open>general.c\<close>, and the same loop written out in \<open>adns__findtype\<close>), and the
  insertion sort \<open>adns__isort\<close>. Memory allocation is assumed to succeed throughout the adns
  theories.
\<close>

subsection \<open>Limits (adns/internal.h)\<close>

definition MAXSERVERS :: nat where "MAXSERVERS = 5"
definition MAXSORTLIST :: nat where "MAXSORTLIST = 15"
definition UDPMAXRETRIES :: nat where "UDPMAXRETRIES = 15"
definition MAXTTLBELIEVE :: nat where "MAXTTLBELIEVE = 7 * 86400"
definition DNS_MAXUDP :: nat where "DNS_MAXUDP = 512"
definition DNS_MAXLABEL :: nat where "DNS_MAXLABEL = 63"
definition DNS_MAXDOMAIN :: nat where "DNS_MAXDOMAIN = 255"
definition DNS_HDRSIZE :: nat where "DNS_HDRSIZE = 12"
definition DNS_CLASS_IN :: nat where "DNS_CLASS_IN = 1"

lemmas dns_sizes = DNS_MAXUDP_def DNS_MAXLABEL_def DNS_MAXDOMAIN_def DNS_HDRSIZE_def
  DNS_CLASS_IN_def MAXTTLBELIEVE_def

subsection \<open>Statuses\<close>

datatype adns_status =
    s_ok | s_nomemory | s_unknownrrtype | s_systemfail
  | s_timeout | s_allservfail | s_norecurse | s_invalidresponse | s_unknownformat
  | s_rcodeservfail | s_rcodeformaterror | s_rcodenotimplemented | s_rcoderefused | s_rcodeunknown
  | s_inconsistent | s_prohibitedcname | s_answerdomaininvalid | s_answerdomaintoolong
  | s_invaliddata
  | s_querydomainwrong | s_querydomaininvalid | s_querydomaintoolong
  | s_nxdomain | s_nodata

definition status_code :: "adns_status \<Rightarrow> nat" where
  "status_code s =
     (case s of s_ok \<Rightarrow> 0 | s_nomemory \<Rightarrow> 1 | s_unknownrrtype \<Rightarrow> 2 | s_systemfail \<Rightarrow> 3
      | s_timeout \<Rightarrow> 30 | s_allservfail \<Rightarrow> 31 | s_norecurse \<Rightarrow> 32 | s_invalidresponse \<Rightarrow> 33
      | s_unknownformat \<Rightarrow> 34
      | s_rcodeservfail \<Rightarrow> 60 | s_rcodeformaterror \<Rightarrow> 61 | s_rcodenotimplemented \<Rightarrow> 62
      | s_rcoderefused \<Rightarrow> 63 | s_rcodeunknown \<Rightarrow> 64
      | s_inconsistent \<Rightarrow> 100 | s_prohibitedcname \<Rightarrow> 101 | s_answerdomaininvalid \<Rightarrow> 102
      | s_answerdomaintoolong \<Rightarrow> 103 | s_invaliddata \<Rightarrow> 104
      | s_querydomainwrong \<Rightarrow> 200 | s_querydomaininvalid \<Rightarrow> 201 | s_querydomaintoolong \<Rightarrow> 202
      | s_nxdomain \<Rightarrow> 300 | s_nodata \<Rightarrow> 301)"

definition max_localfail :: nat where "max_localfail = 29"
definition max_remotefail :: nat where "max_remotefail = 59"
definition max_tempfail :: nat where "max_tempfail = 99"
definition max_misconfig :: nat where "max_misconfig = 199"
definition max_misquery :: nat where "max_misquery = 299"
definition max_permfail :: nat where "max_permfail = 499"

lemmas status_maxes = max_localfail_def max_remotefail_def max_tempfail_def max_misconfig_def
  max_misquery_def max_permfail_def

lemma status_code_inj: "status_code a = status_code b \<longleftrightarrow> a = b"
  by (cases a; cases b) (simp_all add: status_code_def)

text \<open>The enumeration is ordered by its codes.\<close>

instantiation adns_status :: linorder
begin

definition less_eq_adns_status :: "adns_status \<Rightarrow> adns_status \<Rightarrow> bool" where
  "less_eq_adns_status a b \<longleftrightarrow> status_code a \<le> status_code b"

definition less_adns_status :: "adns_status \<Rightarrow> adns_status \<Rightarrow> bool" where
  "less_adns_status a b \<longleftrightarrow> status_code a < status_code b"

instance
  by standard (auto simp: less_eq_adns_status_def less_adns_status_def status_code_inj)

end

subsection \<open>Binary search\<close>

text \<open>\<open>cmp x\<close> is negative when the key comes before \<open>x\<close>; \<open>l\<close> and \<open>u\<close> are the bounds of what
  is left.\<close>

function bsearch :: "('a \<Rightarrow> int) \<Rightarrow> 'a list \<Rightarrow> nat \<Rightarrow> nat \<Rightarrow> 'a option" where
  "bsearch cmp xs l u =
     (if l < u then
        (let mid = l + (u - l) div 2 in
         if cmp (xs ! mid) = 0 then Some (xs ! mid)
         else if cmp (xs ! mid) > 0 then bsearch cmp xs (mid + 1) u
         else bsearch cmp xs l mid)
      else None)"
  by pat_completeness auto

termination
  by (relation "measure (\<lambda>(cmp, xs, l, u). u - l)") auto

declare bsearch.simps [simp del]

text \<open>What a table promises to its searches: what lies before an entry not above the key is
  below the key.\<close>

locale bsearch_table =
  fixes cmp :: "'a \<Rightarrow> int" and tab :: "'a list"
  assumes ordered: "i < j \<Longrightarrow> j < length tab \<Longrightarrow> 0 \<le> cmp (tab ! j) \<Longrightarrow> 0 < cmp (tab ! i)"
begin

lemma bsearch_range:
  "u \<le> length tab \<Longrightarrow> \<forall>i < l. 0 < cmp (tab ! i) \<Longrightarrow> l \<le> u \<Longrightarrow>
   \<forall>i. u \<le> i \<longrightarrow> i < length tab \<longrightarrow> cmp (tab ! i) < 0 \<Longrightarrow>
   bsearch cmp tab l u = find (\<lambda>x. cmp x = 0) tab"
proof (induction "u - l" arbitrary: l u rule: less_induct)
  case less
  show ?case
  proof (cases "l < u")
    case False
    then have "\<forall>i < length tab. cmp (tab ! i) \<noteq> 0"
      using less.prems by (metis less_irrefl not_le_imp_less order_less_le_trans)
    then have "\<forall>x \<in> set tab. cmp x \<noteq> 0" by (simp add: all_set_conv_all_nth)
    then have "find (\<lambda>x. cmp x = 0) tab = None" by (simp add: find_None_iff)
    then show ?thesis using False by (subst bsearch.simps) simp
  next
    case True
    let ?m = "l + (u - l) div 2"
    have m: "?m < u" "l \<le> ?m" "?m < length tab" using True less.prems(1) by auto
    consider (eq) "cmp (tab ! ?m) = 0" | (gt) "0 < cmp (tab ! ?m)" | (lt) "cmp (tab ! ?m) < 0"
      by linarith
    then show ?thesis
    proof cases
      case eq
      have "\<forall>i < ?m. cmp (tab ! i) \<noteq> 0" using ordered [OF _ m(3)] eq by fastforce
      then have "find (\<lambda>x. cmp x = 0) tab = Some (tab ! ?m)"
        using eq m(3) by (auto simp: find_Some_iff)
      then show ?thesis using eq True by (subst bsearch.simps) (simp add: Let_def)
    next
      case gt
      have "0 < cmp (tab ! i)" if "i < ?m + 1" for i
        using that gt ordered [of i ?m] m(3) by (cases "i = ?m") auto
      then have "bsearch cmp tab (?m + 1) u = find (\<lambda>x. cmp x = 0) tab"
        using less.prems m True by (intro less.hyps) auto
      then show ?thesis using gt True by (subst bsearch.simps) (simp add: Let_def)
    next
      case lt
      have "cmp (tab ! i) < 0" if "?m \<le> i" "i < length tab" for i
        using that lt ordered [of ?m i] by (cases "i = ?m") (auto simp: not_less [symmetric])
      then have "bsearch cmp tab l ?m = find (\<lambda>x. cmp x = 0) tab"
        using less.prems m by (intro less.hyps) auto
      then show ?thesis using lt True by (subst bsearch.simps) (simp add: Let_def)
    qed
  qed
qed

lemma bsearch_find: "bsearch cmp tab 0 (length tab) = find (\<lambda>x. cmp x = 0) tab"
  by (rule bsearch_range) auto

end

subsection \<open>Texts of the statuses\<close>

definition sinfos :: "(adns_status \<times> string \<times> string) list" where
  "sinfos =
    [(s_ok, ''ok'', ''OK''),
     (s_nomemory, ''nomemory'', ''Out of memory''),
     (s_unknownrrtype, ''unknownrrtype'', ''Query not implemented in DNS library''),
     (s_systemfail, ''systemfail'', ''General resolver or system failure''),
     (s_timeout, ''timeout'', ''DNS query timed out''),
     (s_allservfail, ''allservfail'', ''All nameservers failed''),
     (s_norecurse, ''norecurse'', ''Recursion denied by nameserver''),
     (s_invalidresponse, ''invalidresponse'', ''Nameserver sent bad response''),
     (s_unknownformat, ''unknownformat'', ''Nameserver used unknown format''),
     (s_rcodeservfail, ''rcodeservfail'', ''Nameserver reports failure''),
     (s_rcodeformaterror, ''rcodeformaterror'', ''Query not understood by nameserver''),
     (s_rcodenotimplemented, ''rcodenotimplemented'', ''Query not implemented by nameserver''),
     (s_rcoderefused, ''rcoderefused'', ''Query refused by nameserver''),
     (s_rcodeunknown, ''rcodeunknown'', ''Nameserver sent unknown response code''),
     (s_inconsistent, ''inconsistent'', ''Inconsistent resource records in DNS''),
     (s_prohibitedcname, ''prohibitedcname'', ''DNS alias found where canonical name wanted''),
     (s_answerdomaininvalid, ''answerdomaininvalid'', ''Found syntactically invalid domain name''),
     (s_answerdomaintoolong, ''answerdomaintoolong'', ''Found overly-long domain name''),
     (s_invaliddata, ''invaliddata'', ''Found invalid DNS data''),
     (s_querydomainwrong, ''querydomainwrong'', ''Domain invalid for particular DNS query type''),
     (s_querydomaininvalid, ''querydomaininvalid'', ''Domain name is syntactically invalid''),
     (s_querydomaintoolong, ''querydomaintoolong'', ''Domain name or component is too long''),
     (s_nxdomain, ''nxdomain'', ''No such domain''),
     (s_nodata, ''nodata'', ''No such data'')]"

definition si_compar :: "adns_status \<Rightarrow> adns_status \<times> string \<times> string \<Rightarrow> int" where
  "si_compar st si = (if st < fst si then - 1 else if st > fst si then 1 else 0)"

definition findsinfo :: "adns_status \<Rightarrow> (adns_status \<times> string \<times> string) option" where
  "findsinfo st = bsearch (si_compar st) sinfos 0 (length sinfos)"

definition adns_strerror :: "adns_status \<Rightarrow> string option" where
  "adns_strerror st = map_option (\<lambda>si. snd (snd si)) (findsinfo st)"

definition adns_errabbrev :: "adns_status \<Rightarrow> string option" where
  "adns_errabbrev st = map_option (\<lambda>si. fst (snd si)) (findsinfo st)"

definition stinfos :: "(nat \<times> string) list" where
  "stinfos =
    [(0, ''ok''), (max_localfail, ''localfail''), (max_remotefail, ''remotefail''),
     (max_tempfail, ''tempfail''), (max_misconfig, ''misconfig''), (max_misquery, ''misquery''),
     (max_permfail, ''permfail'')]"

text \<open>The comparison looks at the entry before: here each entry carries its least code.\<close>

definition stinfo_ranges :: "(nat \<times> nat \<times> string) list" where
  "stinfo_ranges =
     map (\<lambda>i. (if i = 0 then 0 else fst (stinfos ! (i - 1)) + 1, stinfos ! i)) [0..<length stinfos]"

definition sti_compar :: "nat \<Rightarrow> nat \<times> nat \<times> string \<Rightarrow> int" where
  "sti_compar here sti =
     (if here < fst sti then - 1 else if here > fst (snd sti) then 1 else 0)"

definition adns_errtypeabbrev :: "nat \<Rightarrow> string option" where
  "adns_errtypeabbrev here =
     map_option (\<lambda>sti. snd (snd sti))
       (bsearch (sti_compar here) stinfo_ranges 0 (length stinfo_ranges))"

lemma sorted_pairs: "sorted_wrt R xs \<Longrightarrow> i < j \<Longrightarrow> j < length xs \<Longrightarrow> R (xs ! i) (xs ! j)"
  by (simp add: sorted_wrt_iff_nth_less)

lemma sinfos_sorted: "sorted_wrt (\<lambda>x y. fst x < fst y) sinfos"
  by (simp add: sinfos_def less_adns_status_def status_code_def)

lemma stinfos_sorted: "sorted_wrt (\<lambda>x y. fst (snd x) < fst y) stinfo_ranges"
  by (simp add: stinfo_ranges_def stinfos_def status_maxes upt_rec)

lemma stinfos_range: "x \<in> set stinfo_ranges \<Longrightarrow> fst x \<le> fst (snd x)"
  by (auto simp: stinfo_ranges_def stinfos_def status_maxes upt_rec)

interpretation sinfo: bsearch_table "si_compar st" sinfos for st
proof
  fix i j
  assume "i < j" "j < length sinfos" "0 \<le> si_compar st (sinfos ! j)"
  then show "0 < si_compar st (sinfos ! i)"
    using sorted_pairs [OF sinfos_sorted, of i j] by (auto simp: si_compar_def split: if_splits)
qed

interpretation stinfo: bsearch_table "sti_compar here" stinfo_ranges for here
proof
  fix i j
  assume a: "i < j" "j < length stinfo_ranges" "0 \<le> sti_compar here (stinfo_ranges ! j)"
  then have "fst (snd (stinfo_ranges ! i)) < fst (stinfo_ranges ! j)"
    using sorted_pairs [OF stinfos_sorted, of i j] by auto
  moreover have "fst (stinfo_ranges ! i) \<le> fst (snd (stinfo_ranges ! i))"
    using a by (intro stinfos_range) simp
  ultimately show "0 < sti_compar here (stinfo_ranges ! i)"
    using a by (auto simp: sti_compar_def split: if_splits)
qed


subsection \<open>Record types and flags\<close>

text \<open>A record type is its 16-bit code, with bits above it for the processed variants.\<close>

definition rrt_typemask :: "nat \<Rightarrow> nat" where "rrt_typemask t = t mod 0x10000"
definition qtf_deref :: nat where "qtf_deref = 0x10000"
definition qtf_mail822 :: nat where "qtf_mail822 = 0x20000"
definition r_unknown :: nat where "r_unknown = 0x40000"
definition r_none :: nat where "r_none = 0"
definition r_a :: nat where "r_a = 1"
definition r_ns_raw :: nat where "r_ns_raw = 2"
definition r_ns :: nat where "r_ns = r_ns_raw + qtf_deref"
definition r_cname :: nat where "r_cname = 5"
definition r_soa_raw :: nat where "r_soa_raw = 6"
definition r_soa :: nat where "r_soa = r_soa_raw + qtf_mail822"
definition r_ptr_raw :: nat where "r_ptr_raw = 12"
definition r_ptr :: nat where "r_ptr = r_ptr_raw + qtf_deref"
definition r_hinfo :: nat where "r_hinfo = 13"
definition r_mx_raw :: nat where "r_mx_raw = 15"
definition r_mx :: nat where "r_mx = r_mx_raw + qtf_deref"
definition r_txt :: nat where "r_txt = 16"
definition r_rp_raw :: nat where "r_rp_raw = 17"
definition r_rp :: nat where "r_rp = r_rp_raw + qtf_mail822"
definition r_srv_raw :: nat where "r_srv_raw = 33"
definition r_srv :: nat where "r_srv = r_srv_raw + qtf_deref"
definition r_addr :: nat where "r_addr = r_a + qtf_deref"

lemmas rrtypes = rrt_typemask_def qtf_deref_def qtf_mail822_def r_unknown_def r_none_def r_a_def
  r_ns_raw_def r_ns_def r_cname_def r_soa_raw_def r_soa_def r_ptr_raw_def r_ptr_def r_hinfo_def
  r_mx_raw_def r_mx_def r_txt_def r_rp_raw_def r_rp_def r_srv_raw_def r_srv_def r_addr_def

text \<open>The flags of a query, one field for each bit.\<close>

record queryflags =
  qf_search :: bool
  qf_usevc :: bool
  qf_owner :: bool
  qf_quoteok_query :: bool
  qf_quoteok_anshost :: bool
  qf_quotefail_cname :: bool
  qf_cname_loose :: bool
  qf_cname_forbid :: bool

definition qf_none :: queryflags where
  "qf_none =
     \<lparr>qf_search = False, qf_usevc = False, qf_owner = False, qf_quoteok_query = False,
      qf_quoteok_anshost = False, qf_quotefail_cname = False, qf_cname_loose = False,
      qf_cname_forbid = False\<rparr>"

subsection \<open>Insertion sort\<close>

fun isort_place :: "('a \<Rightarrow> 'a \<Rightarrow> bool) \<Rightarrow> 'a list \<Rightarrow> 'a \<Rightarrow> nat \<Rightarrow> nat" where
  "isort_place needswap xs x 0 = 0"
| "isort_place needswap xs x (Suc p) =
     (if needswap (xs ! p) x then isort_place needswap xs x p else Suc p)"

text \<open>The element at \<open>i\<close> is saved, the block from its place up to \<open>i\<close> moves up by one.\<close>

definition isort_step :: "('a \<Rightarrow> 'a \<Rightarrow> bool) \<Rightarrow> 'a list \<Rightarrow> nat \<Rightarrow> 'a list" where
  "isort_step needswap xs i =
     (let place = isort_place needswap xs (xs ! i) i
      in take place xs @ [xs ! i] @ take (i - place) (drop place xs) @ drop (Suc i) xs)"

definition isort :: "('a \<Rightarrow> 'a \<Rightarrow> bool) \<Rightarrow> 'a list \<Rightarrow> 'a list" where
  "isort needswap xs = foldl (isort_step needswap) xs [0..<length xs]"

lemma isort_place_le: "isort_place ns xs x i \<le> i"
  by (induction i) (auto simp: le_SucI)

lemma isort_place_above:
  "isort_place ns xs x i \<le> j \<Longrightarrow> j < i \<Longrightarrow> ns (xs ! j) x"
proof (induction i)
  case (Suc i)
  show ?case
  proof (cases "ns (xs ! i) x")
    case True
    then show ?thesis using Suc by (cases "j = i") auto
  next
    case False
    then show ?thesis using Suc.prems by simp
  qed
qed simp

lemma isort_place_below: "isort_place ns xs x i = Suc p \<Longrightarrow> \<not> ns (xs ! p) x"
  by (induction i) (auto split: if_splits)

lemma isort_step_split:
  fixes ns :: "'a \<Rightarrow> 'a \<Rightarrow> bool"
  assumes "i < length xs"
  defines "place \<equiv> isort_place ns xs (xs ! i) i"
  shows "isort_step ns xs i =
    take place (take i xs) @ xs ! i # drop place (take i xs) @ drop (Suc i) xs"
  using isort_place_le [of ns xs "xs ! i" i]
  by (simp add: isort_step_def place_def Let_def min_def drop_take)

lemma isort_step_parts:
  fixes ns :: "'a \<Rightarrow> 'a \<Rightarrow> bool"
  assumes "i < length xs"
  defines "place \<equiv> isort_place ns xs (xs ! i) i"
  shows "take (Suc i) (isort_step ns xs i) =
      take place (take i xs) @ xs ! i # drop place (take i xs)"
    "drop (Suc i) (isort_step ns xs i) = drop (Suc i) xs"
proof -
  let ?A = "take place (take i xs) @ xs ! i # drop place (take i xs)"
  have "place \<le> i" by (simp add: place_def isort_place_le)
  then have "length ?A = Suc i" using assms(1) by simp
  moreover have "isort_step ns xs i = ?A @ drop (Suc i) xs"
    using isort_step_split [OF assms(1), of ns] by (simp add: place_def)
  ultimately show "take (Suc i) (isort_step ns xs i) = ?A"
    "drop (Suc i) (isort_step ns xs i) = drop (Suc i) xs"
    by (metis append_eq_conv_conj)+
qed

lemma isort_step_mset:
  assumes "i < length xs"
  shows "mset (isort_step ns xs i) = mset xs" "length (isort_step ns xs i) = length xs"
    "drop (Suc i) (isort_step ns xs i) = drop (Suc i) xs"
proof -
  let ?p = "isort_place ns xs (xs ! i) i"
  have "mset (take ?p (take i xs)) + mset (drop ?p (take i xs)) = mset (take i xs)"
    by (metis append_take_drop_id mset_append)
  moreover have "mset xs = mset (take i xs) + add_mset (xs ! i) (mset (drop (Suc i) xs))"
    by (metis append_take_drop_id assms Cons_nth_drop_Suc mset.simps(2) mset_append)
  ultimately show "mset (isort_step ns xs i) = mset xs"
    by (simp add: isort_step_split [OF assms])
  then show "length (isort_step ns xs i) = length xs" by (metis size_mset)
  show "drop (Suc i) (isort_step ns xs i) = drop (Suc i) xs"
    by (rule isort_step_parts(2) [OF assms])
qed

lemma isort_prefix:
  "n \<le> length xs \<Longrightarrow>
   mset (foldl (isort_step ns) xs [0..<n]) = mset xs \<and>
   length (foldl (isort_step ns) xs [0..<n]) = length xs \<and>
   drop n (foldl (isort_step ns) xs [0..<n]) = drop n xs"
proof (induction n)
  case (Suc n)
  let ?ys = "foldl (isort_step ns) xs [0..<n]"
  have ys: "n < length ?ys" "mset ?ys = mset xs" "length ?ys = length xs" "drop n ?ys = drop n xs"
    using Suc by auto
  have "drop (Suc n) ?ys = drop (Suc n) xs" using ys(4) by (metis drop_Suc tl_drop)
  then show ?case using isort_step_mset [OF ys(1), of ns] ys by simp
qed simp

text \<open>With a strict order given by a key, the sorted prefix is the stable sort of the prefix.\<close>

lemma isort_step_key:
  assumes i: "i < length ys" and s: "sorted (map key (take i ys))"
    and st: "\<And>k. filter (\<lambda>x. k = key x) (take i ys) = filter (\<lambda>x. k = key x) zs"
  shows "sorted (map key (take (Suc i) (isort_step (\<lambda>a b. key b < (key a :: 'k :: linorder)) ys i)))"
    "filter (\<lambda>x. k = key x) (take (Suc i) (isort_step (\<lambda>a b. key b < key a) ys i)) =
     filter (\<lambda>x. k = key x) (zs @ [ys ! i])"
proof -
  let ?ns = "\<lambda>a b. key b < key a" and ?x = "ys ! i" and ?p = "take i ys"
  let ?pl = "isort_place ?ns ys ?x i"
  have e: "take (Suc i) (isort_step ?ns ys i) = take ?pl ?p @ ?x # drop ?pl ?p"
    by (rule isort_step_parts(1) [OF i])
  have hi: "key ?x < key y" if "y \<in> set (drop ?pl ?p)" for y
  proof -
    from that obtain j where j: "j < length (drop ?pl ?p)" "y = drop ?pl ?p ! j"
      by (auto simp only: in_set_conv_nth)
    then have "?pl + j < i" "y = ys ! (?pl + j)" using i by simp_all
    then show ?thesis using isort_place_above [of ?ns ys ?x i "?pl + j"] by simp
  qed
  have lo: "key y \<le> key ?x" if "y \<in> set (take ?pl ?p)" for y
  proof -
    from that obtain j where "j < length (take ?pl ?p)" "y = take ?pl ?p ! j"
      by (auto simp only: in_set_conv_nth)
    then have j: "j < ?pl" "j < i" "y = ys ! j" using i by simp_all
    obtain q where q: "?pl = Suc q" using j(1) by (cases ?pl) auto
    have "key (ys ! q) \<le> key ?x" using isort_place_below [OF q] by simp
    moreover have "q < i" using isort_place_le [of ?ns ys ?x i] q by simp
    then have "key (ys ! j) \<le> key (ys ! q)"
      using s i j q by (auto simp: sorted_iff_nth_mono)
    ultimately show ?thesis using j(3) by simp
  qed
  have "sorted (map key (take ?pl ?p)) \<and> sorted (map key (drop ?pl ?p))"
    using s by (metis append_take_drop_id map_append sorted_append)
  then show "sorted (map key (take (Suc i) (isort_step ?ns ys i)))"
    using hi lo unfolding e by (fastforce simp: sorted_append)
  have f: "filter (\<lambda>x. k = key x) (take ?pl ?p) @ filter (\<lambda>x. k = key x) (drop ?pl ?p) =
      filter (\<lambda>x. k = key x) zs"
    using st [of k] by (metis append_take_drop_id filter_append)
  show "filter (\<lambda>x. k = key x) (take (Suc i) (isort_step ?ns ys i)) =
     filter (\<lambda>x. k = key x) (zs @ [ys ! i])"
  proof (cases "k = key ?x")
    case True
    then have "\<forall>y \<in> set (drop ?pl ?p). k \<noteq> key y" using hi by (metis less_irrefl)
    then have "filter (\<lambda>x. k = key x) (drop ?pl ?p) = []" by (simp only: filter_empty_conv)
    then show ?thesis using f True unfolding e by simp
  next
    case False
    then show ?thesis using f unfolding e by simp
  qed
qed

lemma isort_prefix_key:
  fixes key :: "'a \<Rightarrow> 'k :: linorder"
  shows "n \<le> length xs \<Longrightarrow>
   sorted (map key (take n (foldl (isort_step (\<lambda>a b. key b < key a)) xs [0..<n]))) \<and>
   (\<forall>k. filter (\<lambda>x. k = key x) (take n (foldl (isort_step (\<lambda>a b. key b < key a)) xs [0..<n])) =
        filter (\<lambda>x. k = key x) (take n xs))"
proof (induction n)
  case (Suc n)
  let ?ns = "\<lambda>a b. key b < key a"
  let ?ys = "foldl (isort_step ?ns) xs [0..<n]"
  have p: "length ?ys = length xs" "drop n ?ys = drop n xs"
    using isort_prefix [of n xs ?ns] Suc.prems by simp_all
  then have n: "n < length ?ys" "?ys ! n = xs ! n"
    using Suc.prems by (simp_all, metis Suc_le_lessD hd_drop_conv_nth)
  have t: "take (Suc n) xs = take n xs @ [?ys ! n]"
    using Suc.prems n(2) by (simp add: take_Suc_conv_app_nth)
  from Suc have s: "sorted (map key (take n ?ys))"
    "\<And>k. filter (\<lambda>x. k = key x) (take n ?ys) = filter (\<lambda>x. k = key x) (take n xs)" by simp_all
  show ?case
    using isort_step_key [OF n(1) s] unfolding t by simp
qed simp

lemma isort_mset: "mset (isort ns xs) = mset xs"
  using isort_prefix [of "length xs" xs ns] by (simp add: isort_def)

lemma isort_sort_key:
  fixes key :: "'a \<Rightarrow> 'k :: linorder"
  shows "isort (\<lambda>a b. key b < key a) xs = sort_key key xs"
proof (rule sym, rule properties_for_sort_key)
  let ?r = "isort (\<lambda>a b. key b < key a) xs"
  have l: "length ?r = length xs" by (metis isort_mset size_mset)
  note p = isort_prefix_key [of "length xs" xs key, folded isort_def]
  then show "sorted (map key ?r)" using l by simp
  show "mset ?r = mset xs" by (rule isort_mset)
  show "filter (\<lambda>x. key k = key x) ?r = filter (\<lambda>x. key k = key x) xs" for k
    using p l by simp
qed

end
