(* ===== verification/AdnsMsg.thy ===== *)
theory AdnsMsg
  imports AdnsTypes
begin

section \<open>Domains inside datagrams (adns/parse.c, the vbufs of adns/general.c)\<close>

text \<open>
  A datagram is the list of its bytes (\<open>unsigned char\<close>, read by \<open>get_b\<close>, \<open>get_w\<close>, \<open>get_l\<close>).
  A domain is a sequence of labels, with pointers to labels elsewhere; \<open>findlabel_next\<close> walks it.
  Its inner loop follows pointers as long as it finds them, so it need not end: it is a partial
  function, and \<open>None\<close> is a call that does not return. A status is \<open>Inl\<close>.
\<close>

subsection \<open>Buffers\<close>

record vbuf =
  vb_data :: string
  vb_avail :: nat

definition vbuf_init :: vbuf where
  "vbuf_init = \<lparr>vb_data = [], vb_avail = 0\<rparr>"

definition vbuf_ensure :: "nat \<Rightarrow> vbuf \<Rightarrow> vbuf" where
  "vbuf_ensure want vb = (if vb_avail vb \<ge> want then vb else vb\<lparr>vb_avail := want\<rparr>)"

text \<open>\<open>appendq\<close> copies without a test: \<open>None\<close> is a copy that does not fit.\<close>

definition vbuf_appendq :: "string \<Rightarrow> vbuf \<Rightarrow> vbuf option" where
  "vbuf_appendq data vb =
     (if length (vb_data vb) + length data \<le> vb_avail vb
      then Some (vb\<lparr>vb_data := vb_data vb @ data\<rparr>) else None)"

definition vbuf_append :: "string \<Rightarrow> vbuf \<Rightarrow> vbuf option" where
  "vbuf_append data vb =
     (let newlen = length (vb_data vb) + length data
      in vbuf_appendq data
           (if vb_avail vb < newlen
            then vb\<lparr>vb_avail := 2 * (if newlen < 20 then 20 else newlen)\<rparr> else vb))"

lemma vbuf_append_ok:
  "\<exists>vb'. vbuf_append data vb = Some vb' \<and> vb_data vb' = vb_data vb @ data \<and>
     length (vb_data vb') \<le> vb_avail vb'"
  by (auto simp: vbuf_append_def vbuf_appendq_def Let_def)

subsection \<open>Reading a datagram\<close>

definition get_b :: "string \<Rightarrow> nat \<Rightarrow> nat" where
  "get_b d i = cc (d ! i)"

definition get_w :: "string \<Rightarrow> nat \<Rightarrow> nat" where
  "get_w d i = get_b d i * 256 + get_b d (i + 1)"

definition get_l :: "string \<Rightarrow> nat \<Rightarrow> nat" where
  "get_l d i = get_w d i * 65536 + get_w d (i + 2)"

definition ctype_alpha :: "char \<Rightarrow> bool" where
  "ctype_alpha c \<longleftrightarrow> is_lower c \<or> is_upper c"

definition ctype_domainunquoted :: "char \<Rightarrow> bool" where
  "ctype_domainunquoted c \<longleftrightarrow> ctype_alpha c \<or> is_digit c \<or> c \<in> set ''-_/+'' \<or> c = NUL"

definition ctype_822special :: "char \<Rightarrow> bool" where
  "ctype_822special c \<longleftrightarrow> c \<in> set (''()<>@,;:'' @ [CHR 0x5C, CHR 0x22] @ ''.[]'') \<or> c = NUL"

text \<open>\<open>sprintf("\\%03o")\<close>: the code in octal.\<close>

definition oct3 :: "nat \<Rightarrow> string" where
  "oct3 n = map digit_chr [n div 64 mod 8, n div 8 mod 8, n mod 8]"

definition BACKSLASH :: char where "BACKSLASH = CHR 0x5C"

definition quote1035 :: "char \<Rightarrow> string" where
  "quote1035 c =
     (if cc c \<le> 32 \<or> cc c \<ge> 127 then BACKSLASH # oct3 (cc c)
      else if \<not> ctype_domainunquoted c then [BACKSLASH, c]
      else [c])"

definition append_quoted1035 :: "string \<Rightarrow> string \<Rightarrow> string" where
  "append_quoted1035 out lab = out @ concat (map quote1035 lab)"

subsection \<open>Labels\<close>

text \<open>\<open>fl_dmend\<close> is what was stored through \<open>dmend_r\<close>, which is null afterwards.\<close>

record fls =
  fl_cbyte :: nat
  fl_max :: nat
  fl_namelen :: nat
  fl_dmend :: "nat option"

definition findlabel_start :: "nat \<Rightarrow> nat \<Rightarrow> fls" where
  "findlabel_start mx dmbegin =
     \<lparr>fl_cbyte = dmbegin, fl_max = mx, fl_namelen = 0, fl_dmend = None\<rparr>"

definition set_dmend :: "nat \<Rightarrow> fls \<Rightarrow> fls" where
  "set_dmend e f = (if fl_dmend f = None then f\<lparr>fl_dmend := Some e\<rparr> else f)"

text \<open>The loop over pointers. \<open>Inr (None, _)\<close> is truncation.\<close>

partial_function (option) findlabel_seek ::
    "string \<Rightarrow> fls \<Rightarrow> (adns_status + nat option \<times> fls) option" where
  "findlabel_seek d f =
     (if fl_cbyte f \<ge> length d then Some (Inr (None, f))
      else if fl_cbyte f \<ge> fl_max f then Some (Inl s_invalidresponse)
      else
        let lablen = get_b d (fl_cbyte f); f1 = f\<lparr>fl_cbyte := fl_cbyte f + 1\<rparr> in
        if lablen < 64 then Some (Inr (Some lablen, f1))
        else if lablen < 192 then Some (Inl s_unknownformat)
        else if fl_cbyte f1 \<ge> length d then Some (Inr (None, f1))
        else if fl_cbyte f1 \<ge> fl_max f1 then Some (Inl s_invalidresponse)
        else findlabel_seek d
          ((set_dmend (fl_cbyte f1 + 1) f1)
             \<lparr>fl_cbyte := (lablen mod 64) * 256 + get_b d (fl_cbyte f1), fl_max := length d + 1\<rparr>))"

datatype label = Truncated | Label nat nat

definition findlabel_next :: "string \<Rightarrow> fls \<Rightarrow> (adns_status + label \<times> fls) option" where
  "findlabel_next d f =
     (case findlabel_seek d f of
        None \<Rightarrow> None
      | Some (Inl e) \<Rightarrow> Some (Inl e)
      | Some (Inr (None, f1)) \<Rightarrow> Some (Inr (Truncated, f1))
      | Some (Inr (Some lablen, f1)) \<Rightarrow> Some (
          if lablen \<noteq> 0 then
            (let namelen = (if fl_namelen f1 \<noteq> 0 then fl_namelen f1 + 1 else 0) + lablen;
                 f2 = f1\<lparr>fl_namelen := namelen, fl_cbyte := fl_cbyte f1 + lablen\<rparr>
             in if namelen > DNS_MAXDOMAIN then Inl s_answerdomaintoolong
                else if fl_cbyte f2 > length d then Inr (Truncated, f2)
                else if fl_cbyte f2 > fl_max f2 then Inl s_invalidresponse
                else Inr (Label lablen (fl_cbyte f1), f2))
          else Inr (Label 0 (fl_cbyte f1), set_dmend (fl_cbyte f1) f1)))"

definition label_at :: "string \<Rightarrow> nat \<Rightarrow> nat \<Rightarrow> string" where
  "label_at d len start = take len (drop start d)"

definition host_label :: "string \<Rightarrow> bool" where
  "host_label l \<longleftrightarrow>
     (case l of [] \<Rightarrow> True
      | c # cs \<Rightarrow> (ctype_alpha c \<or> is_digit c) \<and>
                  list_all (\<lambda>c. c = CHR ''-'' \<or> ctype_alpha c \<or> is_digit c) cs)"

subsection \<open>Domains as text\<close>

text \<open>\<open>Inr (Some t, f)\<close>: the text \<open>t\<close>, which the source ends with a NUL; \<open>Inr (None, f)\<close>:
  truncated, \<open>vb->used\<close> is 0.\<close>

partial_function (option) parse_domain_more ::
    "string \<Rightarrow> bool \<Rightarrow> bool \<Rightarrow> fls \<Rightarrow> string \<Rightarrow> (adns_status + string option \<times> fls) option" where
  "parse_domain_more d quoteok first f out =
     (case findlabel_next d f of
        None \<Rightarrow> None
      | Some (Inl e) \<Rightarrow> Some (Inl e)
      | Some (Inr (Truncated, f1)) \<Rightarrow> Some (Inr (None, f1))
      | Some (Inr (Label len start, f1)) \<Rightarrow>
          if len = 0 then Some (Inr (Some out, f1))
          else
            let lab = label_at d len start; out1 = (if first then out else out @ ''.'') in
            if quoteok then parse_domain_more d quoteok False f1 (append_quoted1035 out1 lab)
            else if \<not> host_label lab then Some (Inl s_answerdomaininvalid)
            else parse_domain_more d quoteok False f1 (out1 @ lab))"

definition parse_domain ::
    "string \<Rightarrow> bool \<Rightarrow> nat \<Rightarrow> nat \<Rightarrow> (adns_status + string option \<times> fls) option" where
  "parse_domain d quoteok cbyte mx = parse_domain_more d quoteok True (findlabel_start mx cbyte) []"

text \<open>Where \<open>*cbyte_io\<close> is left.\<close>

definition domain_end :: "fls \<Rightarrow> nat \<Rightarrow> nat" where
  "domain_end f cbyte = (case fl_dmend f of None \<Rightarrow> cbyte | Some e \<Rightarrow> e)"

definition diag_domain :: "string \<Rightarrow> nat \<Rightarrow> string option" where
  "diag_domain d cbyte =
     (case parse_domain d True cbyte (length d) of
        None \<Rightarrow> None
      | Some (Inl e) \<Rightarrow>
          map_option (\<lambda>t. ''<bad format... '' @ t @ ''>'') (adns_strerror e)
      | Some (Inr (None, _)) \<Rightarrow> Some ''<truncated ...>''
      | Some (Inr (Some t, _)) \<Rightarrow> Some t)"

subsection \<open>Resource records\<close>

record rrinfo =
  rr_type :: nat
  rr_class :: nat
  rr_ttl :: nat
  rr_rdlen :: nat
  rr_rdstart :: nat
  rr_end :: nat
  rr_matched :: bool

definition upcase :: "char \<Rightarrow> char" where
  "upcase c = (if ctype_alpha c then chr (cc c AND 0xDF) else c)"

definition same_label :: "string \<Rightarrow> string \<Rightarrow> bool" where
  "same_label a b \<longleftrightarrow> map upcase a = map upcase b"

text \<open>The owner of the record against the expected owner, label by label. The other datagram
  must hold a valid domain: \<open>None\<close> is also the failure of that assertion.\<close>

partial_function (option) match_owner ::
    "string \<Rightarrow> fls \<Rightarrow> (string \<times> fls) option \<Rightarrow> (adns_status + (fls \<times> bool) option) option" where
  "match_owner d f eo =
     (case findlabel_next d f of
        None \<Rightarrow> None
      | Some (Inl e) \<Rightarrow> Some (Inl e)
      | Some (Inr (Truncated, _)) \<Rightarrow> Some (Inr None)
      | Some (Inr (Label len start, f1)) \<Rightarrow>
          (case eo of
             None \<Rightarrow> if len = 0 then Some (Inr (Some (f1, False))) else match_owner d f1 None
           | Some (ed, ef) \<Rightarrow>
               (case findlabel_next ed ef of
                  Some (Inr (Label elen estart, ef1)) \<Rightarrow>
                    let eo1 = (if len = elen \<and> same_label (label_at d len start) (label_at ed elen estart)
                               then Some (ed, ef1) else None)
                    in if len = 0 then Some (Inr (Some (f1, eo1 \<noteq> None))) else match_owner d f1 eo1
                | _ \<Rightarrow> None)))"

text \<open>\<open>Inr None\<close> is truncation.\<close>

definition findrr_anychk ::
    "string \<Rightarrow> nat \<Rightarrow> (string \<times> nat) option \<Rightarrow> (adns_status + rrinfo option) option" where
  "findrr_anychk d cbyte eo =
     (case match_owner d (findlabel_start (length d) cbyte)
             (map_option (\<lambda>(ed, ec). (ed, findlabel_start (length ed) ec)) eo) of
        None \<Rightarrow> None
      | Some (Inl e) \<Rightarrow> Some (Inl e)
      | Some (Inr None) \<Rightarrow> Some (Inr None)
      | Some (Inr (Some (f, m))) \<Rightarrow>
          (let c = domain_end f cbyte in
           if c + 10 > length d then Some (Inr None)
           else
             (let rdlen = get_w d (c + 8) in
              if c + 10 + rdlen > length d then Some (Inr None)
              else Some (Inr (Some
                \<lparr>rr_type = get_w d c, rr_class = get_w d (c + 2),
                 rr_ttl = min (get_l d (c + 4)) MAXTTLBELIEVE,
                 rr_rdlen = rdlen, rr_rdstart = c + 10, rr_end = c + 10 + rdlen,
                 rr_matched = m\<rparr>)))))"

text \<open>The expected owner is that of the query, or of the canonical name it was sent on to.\<close>

definition findrr ::
    "string \<Rightarrow> nat \<Rightarrow> bool \<Rightarrow> string \<Rightarrow> (string \<times> nat) option \<Rightarrow>
     (adns_status + rrinfo option) option" where
  "findrr d cbyte want query cname =
     findrr_anychk d cbyte
       (if \<not> want then None
        else (case cname of None \<Rightarrow> Some (query, DNS_HDRSIZE) | Some (cd, cb) \<Rightarrow> Some (cd, cb)))"

subsection \<open>Pointers\<close>

definition pointer_at :: "string \<Rightarrow> nat \<Rightarrow> bool" where
  "pointer_at d i \<longleftrightarrow> i + 1 < length d \<and> 192 \<le> get_b d i"

definition pointer_target :: "string \<Rightarrow> nat \<Rightarrow> nat" where
  "pointer_target d i = (get_b d i mod 64) * 256 + get_b d (i + 1)"

text \<open>The places where a walk over the name at \<open>c\<close> looks for the length of a label, and the name whose
  pointers lead to earlier places, as the format asks.\<close>

inductive reached :: "string \<Rightarrow> nat \<Rightarrow> nat \<Rightarrow> bool" for d c where
  reached_start: "reached d c c"
| reached_label: "reached d c i \<Longrightarrow> i < length d \<Longrightarrow> 0 < get_b d i \<Longrightarrow> get_b d i < 64 \<Longrightarrow> reached d c (i + 1 + get_b d i)"
| reached_jump: "reached d c i \<Longrightarrow> pointer_at d i \<Longrightarrow> reached d c (pointer_target d i)"

definition pointers_back :: "string \<Rightarrow> nat \<Rightarrow> bool" where
  "pointers_back d c \<longleftrightarrow> (\<forall>i. reached d c i \<longrightarrow> pointer_at d i \<longrightarrow> pointer_target d i < i)"

lemma get_b_less: "get_b d i < 256"
  by (simp add: get_b_def)

lemma set_dmend_simps [simp]:
  "fl_cbyte (set_dmend e f) = fl_cbyte f" "fl_max (set_dmend e f) = fl_max f"
  "fl_namelen (set_dmend e f) = fl_namelen f"
  "fl_dmend (set_dmend e f) = (case fl_dmend f of None \<Rightarrow> Some e | Some x \<Rightarrow> Some x)"
  by (auto simp: set_dmend_def split: option.splits)

lemma findlabel_seek_returns:
  "pointers_back d c \<Longrightarrow> reached d c (fl_cbyte f) \<Longrightarrow> findlabel_seek d f \<noteq> None"
proof (induction "fl_cbyte f" arbitrary: f rule: less_induct)
  case less
  let ?c = "fl_cbyte f"
  show ?case
  proof (cases "pointer_at d ?c")
    case False
    then show ?thesis
      by (subst findlabel_seek.simps) (auto simp: Let_def pointer_at_def)
  next
    case True
    then have "pointer_target d ?c < ?c" "reached d c (pointer_target d ?c)"
      using less.prems by (auto simp: pointers_back_def intro: reached_jump)
    then have "findlabel_seek d g \<noteq> None" if "fl_cbyte g = pointer_target d ?c" for g
      using less.hyps [of g] less.prems that by simp
    then show ?thesis
      by (subst findlabel_seek.simps) (auto simp: Let_def pointer_target_def)
  qed
qed

lemma findlabel_next_returns:
  "pointers_back d c \<Longrightarrow> reached d c (fl_cbyte f) \<Longrightarrow> findlabel_next d f \<noteq> None"
  using findlabel_seek_returns [of d c f]
  by (auto simp: findlabel_next_def split: option.splits sum.splits prod.splits)

text \<open>Induction over a walk that ends: it stops at a label, stops without one, or follows a
  pointer.\<close>

definition seek_jump :: "string \<Rightarrow> fls \<Rightarrow> fls" where
  "seek_jump d f =
     (set_dmend (fl_cbyte f + 2) (f\<lparr>fl_cbyte := fl_cbyte f + 1\<rparr>))
       \<lparr>fl_cbyte := pointer_target d (fl_cbyte f), fl_max := length d + 1\<rparr>"

lemma seek_jump_simps [simp]:
  "fl_cbyte (seek_jump d f) = pointer_target d (fl_cbyte f)"
  "fl_max (seek_jump d f) = length d + 1" "fl_namelen (seek_jump d f) = fl_namelen f"
  by (simp_all add: seek_jump_def)

lemma findlabel_seek_induct [consumes 1, case_names label stop jump]:
  assumes "findlabel_seek d f = Some r"
    and label: "\<And>g. fl_cbyte g < length d \<Longrightarrow> fl_cbyte g < fl_max g \<Longrightarrow> get_b d (fl_cbyte g) < 64 \<Longrightarrow>
      P g (Inr (Some (get_b d (fl_cbyte g)), g\<lparr>fl_cbyte := fl_cbyte g + 1\<rparr>))"
    and stop: "\<And>g x. \<not> (pointer_at d (fl_cbyte g) \<and> fl_cbyte g + 1 < fl_max g) \<Longrightarrow>
      (\<forall>l g'. x \<noteq> Inr (Some l, g')) \<Longrightarrow> P g x"
    and jump: "\<And>g x. pointer_at d (fl_cbyte g) \<Longrightarrow> fl_cbyte g + 1 < fl_max g \<Longrightarrow>
      P (seek_jump d g) x \<Longrightarrow> P g x"
  shows "P f r"
proof -
  have "d = d \<longrightarrow> P f r"
    using assms(1)
  proof (rule findlabel_seek.raw_induct [where P = "\<lambda>e g x. e = d \<longrightarrow> P g x", rotated], goal_cases)
    case (1 self e g x)
    note IH = 1(1) and step = 1(2)
    show ?case
    proof
      assume e: "e = d"
      show "P g x"
      proof (cases "pointer_at d (fl_cbyte g) \<and> fl_cbyte g + 1 < fl_max g")
        case True
        then have "self d (seek_jump d g) = Some x"
          using step e by (simp add: Let_def seek_jump_def pointer_target_def pointer_at_def)
        then show ?thesis using IH jump True e by blast
      next
        case False
        show ?thesis
        proof (cases "fl_cbyte g < length d \<and> fl_cbyte g < fl_max g \<and> get_b d (fl_cbyte g) < 64")
          case True
          then have "x = Inr (Some (get_b d (fl_cbyte g)), g\<lparr>fl_cbyte := fl_cbyte g + 1\<rparr>)"
            using step e by (simp add: Let_def)
          with label True show ?thesis by simp
        next
          case no: False
          have "\<forall>l g'. x \<noteq> Inr (Some l, g')"
            using step e no False by (auto simp: Let_def pointer_at_def split: if_splits)
          with stop False show ?thesis by blast
        qed
      qed
    qed
  qed
  then show ?thesis by simp
qed

lemma findlabel_seek_self:
  assumes "pointer_at d p" "pointer_target d p = p" "fl_cbyte f = p" "p + 1 < fl_max f"
  shows "findlabel_seek d f = None"
proof (rule ccontr)
  assume "findlabel_seek d f \<noteq> None"
  then obtain r where "findlabel_seek d f = Some r" by blast
  then have "\<not> (fl_cbyte f = p \<and> p + 1 < fl_max f)"
    using assms(1,2) by (induction rule: findlabel_seek_induct) (auto simp: pointer_at_def)
  with assms(3,4) show False by simp
qed

lemma findlabel_seek_bounds:
  assumes "findlabel_seek d f = Some (Inr (Some l, f1))"
  shows "l < 64" "fl_namelen f1 = fl_namelen f" "fl_cbyte f1 \<le> length d"
proof -
  have "case r of Inr (Some l, f1) \<Rightarrow> l < 64 \<and> fl_namelen f1 = fl_namelen f \<and> fl_cbyte f1 \<le> length d | _ \<Rightarrow> True"
    if "findlabel_seek d f = Some r" for r
    using that
    by (induction rule: findlabel_seek_induct) (auto split: sum.splits option.splits)
  from this [OF assms] show "l < 64" "fl_namelen f1 = fl_namelen f" "fl_cbyte f1 \<le> length d"
    by simp_all
qed

lemma findlabel_seek_reached:
  assumes "findlabel_seek d f = Some (Inr (Some l, f1))" "reached d c (fl_cbyte f)"
  shows "\<exists>i. reached d c i \<and> i < length d \<and> get_b d i = l \<and> l < 64 \<and> fl_cbyte f1 = i + 1"
proof -
  have "reached d c (fl_cbyte f) \<longrightarrow> (\<forall>l f1. r = Inr (Some l, f1) \<longrightarrow>
      (\<exists>i. reached d c i \<and> i < length d \<and> get_b d i = l \<and> l < 64 \<and> fl_cbyte f1 = i + 1))"
    if "findlabel_seek d f = Some r" for r
    using that by (induction rule: findlabel_seek_induct) (auto intro: reached_jump)
  with assms show ?thesis by blast
qed

lemma findlabel_next_reached:
  assumes "findlabel_next d f = Some (Inr (Label len start, f1))" "len \<noteq> 0" "reached d c (fl_cbyte f)"
  shows "reached d c (fl_cbyte f1)"
proof -
  obtain g where g: "findlabel_seek d f = Some (Inr (Some len, g))" "fl_cbyte f1 = fl_cbyte g + len"
    using assms(1,2) by (auto simp: findlabel_next_def Let_def split: option.splits sum.splits if_splits)
  obtain i where i: "reached d c i" "i < length d" "get_b d i = len" "len < 64" "fl_cbyte g = i + 1"
    using findlabel_seek_reached [OF g(1) assms(3)] by blast
  show ?thesis using reached_label [OF i(1,2)] i g(2) assms(2) by simp
qed

text \<open>What a label that is found promises: it lies in the datagram, and the name stays within
  its limit.\<close>

lemma findlabel_next_label:
  assumes "findlabel_next d f = Some (Inr (Label len start, f1))"
  shows "len < 64" "start + len \<le> length d"
    "len \<noteq> 0 \<Longrightarrow> fl_namelen f1 = (if fl_namelen f = 0 then 0 else fl_namelen f + 1) + len"
    "len \<noteq> 0 \<Longrightarrow> fl_namelen f1 \<le> DNS_MAXDOMAIN"
    "len = 0 \<Longrightarrow> fl_namelen f1 = fl_namelen f"
proof -
  obtain g where g: "findlabel_seek d f = Some (Inr (Some len, g))" and
    st: "start = fl_cbyte g" and
    n: "len \<noteq> 0 \<Longrightarrow> start + len \<le> length d \<and>
        fl_namelen f1 = (if fl_namelen g = 0 then 0 else fl_namelen g + 1) + len \<and>
        fl_namelen f1 \<le> DNS_MAXDOMAIN"
      "len = 0 \<Longrightarrow> fl_namelen f1 = fl_namelen g"
    using assms
    by (auto simp: findlabel_next_def Let_def split: option.splits sum.splits if_splits)
  note b = findlabel_seek_bounds [OF g]
  show "len < 64" by (rule b(1))
  show "start + len \<le> length d" using n(1) b(3) st by (cases "len = 0") auto
  show "len \<noteq> 0 \<Longrightarrow> fl_namelen f1 = (if fl_namelen f = 0 then 0 else fl_namelen f + 1) + len"
    "len \<noteq> 0 \<Longrightarrow> fl_namelen f1 \<le> DNS_MAXDOMAIN" "len = 0 \<Longrightarrow> fl_namelen f1 = fl_namelen f"
    using n b(2) by auto
qed

text \<open>Each label makes the name longer, so a walk has at most \<open>DNS_MAXDOMAIN\<close> of them.\<close>

lemma parse_domain_more_returns:
  "pointers_back d c \<Longrightarrow> reached d c (fl_cbyte f) \<Longrightarrow> fl_namelen f \<le> DNS_MAXDOMAIN \<Longrightarrow> parse_domain_more d q first f out \<noteq> None"
proof (induction "DNS_MAXDOMAIN - fl_namelen f" arbitrary: f first out rule: less_induct)
  case less
  have ret: "findlabel_next d f \<noteq> None" by (rule findlabel_next_returns [OF less.prems(1,2)])
  show ?case
  proof (cases "\<exists>len start f1. findlabel_next d f = Some (Inr (Label len start, f1)) \<and> len \<noteq> 0")
    case True
    then obtain len start f1 where
      l: "findlabel_next d f = Some (Inr (Label len start, f1))" "len \<noteq> 0" by blast
    note b = findlabel_next_label [OF l(1)]
    have "DNS_MAXDOMAIN - fl_namelen f1 < DNS_MAXDOMAIN - fl_namelen f"
      using b(3,4) l(2) by (auto split: if_splits)
    then have "parse_domain_more d q first' f1 out' \<noteq> None" for first' out'
      using less.hyps less.prems(1) findlabel_next_reached [OF l less.prems(2)] b(4) l(2) by blast
    then show ?thesis using l by (subst parse_domain_more.simps, cases q) (simp_all add: Let_def)
  next
    case False
    then show ?thesis
      using ret by (subst parse_domain_more.simps)
        (auto split: option.splits sum.splits label.splits prod.splits)
  qed
qed

subsection \<open>Uncompressed names\<close>

text \<open>The wire form of a list of labels, and the state of a walk that has one before it.\<close>

definition enc_label :: "string \<Rightarrow> string" where
  "enc_label l = chr (length l) # l"

definition enc_name :: "string list \<Rightarrow> string" where
  "enc_name ls = concat (map enc_label ls) @ [NUL]"

definition name_size :: "string list \<Rightarrow> nat" where
  "name_size ls = sum_list (map (\<lambda>l. length l + 1) ls)"

lemma name_size_simps [simp]:
  "name_size [] = 0" "name_size (l # ls) = length l + 1 + name_size ls"
  by (simp_all add: name_size_def)

lemma enc_name_simps [simp]:
  "enc_name [] = [NUL]" "enc_name (l # ls) = chr (length l) # l @ enc_name ls"
  by (simp_all add: enc_name_def enc_label_def)

lemma length_enc_name: "length (enc_name ls) = name_size ls + 1"
  by (induction ls) auto

definition label_ok :: "string \<Rightarrow> bool" where
  "label_ok l \<longleftrightarrow> l \<noteq> [] \<and> length l < 64"

lemma drop_nth: "drop i d = x # r \<Longrightarrow> i < length d \<and> d ! i = x"
  by (metis drop_all hd_drop_conv_nth linorder_not_le list.distinct(1) list.sel(1))

lemma findlabel_next_plain:
  assumes "drop (fl_cbyte f) d = chr (length l) # l @ r" "label_ok l"
    and "fl_cbyte f + length l < fl_max f"
    and "(if fl_namelen f = 0 then 0 else fl_namelen f + 1) + length l \<le> DNS_MAXDOMAIN"
  shows "findlabel_next d f = Some (Inr (Label (length l) (fl_cbyte f + 1),
      f\<lparr>fl_cbyte := fl_cbyte f + 1 + length l,
        fl_namelen := (if fl_namelen f = 0 then 0 else fl_namelen f + 1) + length l\<rparr>))"
    "label_at d (length l) (fl_cbyte f + 1) = l"
    "drop (fl_cbyte f + 1 + length l) d = r"
proof -
  let ?n = "length l"
  have l: "0 < ?n" "?n < 64" using assms(2) by (auto simp: label_ok_def)
  have c: "fl_cbyte f < length d" "get_b d (fl_cbyte f) = ?n"
    using drop_nth [OF assms(1)] l(2) by (simp_all add: get_b_def)
  have t: "drop (fl_cbyte f + 1) d = l @ r"
    using assms(1) by (metis Suc_eq_plus1 drop_Suc list.sel(3) tl_drop)
  then have "length d - (fl_cbyte f + 1) = ?n + length r" by (metis length_append length_drop)
  then have e: "fl_cbyte f + 1 + ?n \<le> length d" using c(1) by linarith
  have "findlabel_seek d f = Some (Inr (Some ?n, f\<lparr>fl_cbyte := fl_cbyte f + 1\<rparr>))"
    using c l assms(3) by (subst findlabel_seek.simps) (simp add: Let_def)
  then show "findlabel_next d f = Some (Inr (Label ?n (fl_cbyte f + 1),
      f\<lparr>fl_cbyte := fl_cbyte f + 1 + ?n,
        fl_namelen := (if fl_namelen f = 0 then 0 else fl_namelen f + 1) + ?n\<rparr>))"
    using l e assms(3,4) by (auto simp: findlabel_next_def Let_def)
  show "label_at d ?n (fl_cbyte f + 1) = l" using t by (simp add: label_at_def)
  show "drop (fl_cbyte f + 1 + ?n) d = r"
    using t by (metis add.commute append_eq_conv_conj drop_drop)
qed

lemma findlabel_next_root:
  assumes "drop (fl_cbyte f) d = NUL # r" "fl_cbyte f < fl_max f"
  shows "findlabel_next d f =
    Some (Inr (Label 0 (fl_cbyte f + 1), set_dmend (fl_cbyte f + 1) (f\<lparr>fl_cbyte := fl_cbyte f + 1\<rparr>)))"
proof -
  have "fl_cbyte f < length d" "get_b d (fl_cbyte f) = 0"
    using drop_nth [OF assms(1)] by (simp_all add: get_b_def NUL_def)
  then have "findlabel_seek d f = Some (Inr (Some 0, f\<lparr>fl_cbyte := fl_cbyte f + 1\<rparr>))"
    using assms(2) by (subst findlabel_seek.simps) (simp add: Let_def)
  then show ?thesis by (simp add: findlabel_next_def)
qed

text \<open>The text of a name: its labels, quoted or not, with full stops between them.\<close>

definition label_text :: "bool \<Rightarrow> string \<Rightarrow> string" where
  "label_text quoteok l = (if quoteok then concat (map quote1035 l) else l)"

fun name_text :: "bool \<Rightarrow> bool \<Rightarrow> string list \<Rightarrow> string" where
  "name_text q first [] = []"
| "name_text q first (l # ls) =
     (if first then [] else ''.'') @ label_text q l @ name_text q False ls"

lemma parse_domain_more_plain:
  "drop (fl_cbyte f) d = enc_name ls @ r \<Longrightarrow> list_all label_ok ls \<Longrightarrow>
   q \<or> list_all host_label ls \<Longrightarrow> fl_cbyte f + name_size ls < fl_max f \<Longrightarrow> fl_dmend f = None \<Longrightarrow>
   fl_namelen f + name_size ls \<le> DNS_MAXDOMAIN + (if fl_namelen f = 0 then 1 else 0) \<Longrightarrow>
   \<exists>g. parse_domain_more d q first f out = Some (Inr (Some (out @ name_text q first ls), g)) \<and>
       fl_dmend g = Some (fl_cbyte f + name_size ls + 1) \<and> fl_cbyte g = fl_cbyte f + name_size ls + 1"
proof (induction ls arbitrary: f first out)
  case Nil
  then show ?case
    by (subst parse_domain_more.simps) (simp add: findlabel_next_root)
next
  case (Cons l ls)
  have d: "drop (fl_cbyte f) d = chr (length l) # l @ (enc_name ls @ r)" using Cons.prems(1) by simp
  have ok: "label_ok l" "l \<noteq> []" using Cons.prems(2) by (auto simp: label_ok_def)
  have mx: "fl_cbyte f + length l < fl_max f" using Cons.prems(4) by simp
  have nl: "(if fl_namelen f = 0 then 0 else fl_namelen f + 1) + length l \<le> DNS_MAXDOMAIN"
    using Cons.prems(6) by (simp split: if_splits)
  note p = findlabel_next_plain [OF d ok(1) mx nl]
  let ?g = "f\<lparr>fl_cbyte := fl_cbyte f + 1 + length l,
        fl_namelen := (if fl_namelen f = 0 then 0 else fl_namelen f + 1) + length l\<rparr>"
  have ih: "\<exists>g. parse_domain_more d q False ?g out' = Some (Inr (Some (out' @ name_text q False ls), g)) \<and>
       fl_dmend g = Some (fl_cbyte ?g + name_size ls + 1) \<and> fl_cbyte g = fl_cbyte ?g + name_size ls + 1" for out'
  proof (rule Cons.IH)
    show "drop (fl_cbyte ?g) d = enc_name ls @ r" using p(3) by simp
    show "list_all label_ok ls" "q \<or> list_all host_label ls" "fl_dmend ?g = None"
      using Cons.prems(2,3,5) by auto
    show "fl_cbyte ?g + name_size ls < fl_max ?g" using Cons.prems(4) by simp
    show "fl_namelen ?g + name_size ls \<le> DNS_MAXDOMAIN + (if fl_namelen ?g = 0 then 1 else 0)"
      using Cons.prems(6) ok(2) by (simp split: if_splits)
  qed
  have lab: "label_at d (length l) (Suc (fl_cbyte f)) = l" using p(2) by simp
  have step: "parse_domain_more d q first f out =
      parse_domain_more d q False ?g ((if first then out else out @ ''.'') @ label_text q l)"
    using Cons.prems(3) ok(2) by (subst parse_domain_more.simps, cases q)
      (simp_all add: p(1) lab Let_def append_quoted1035_def label_text_def)
  from ih [of "(if first then out else out @ ''.'') @ label_text q l"] obtain g where
    g: "parse_domain_more d q first f out =
        Some (Inr (Some (((if first then out else out @ ''.'') @ label_text q l) @ name_text q False ls), g))"
      "fl_dmend g = Some (fl_cbyte ?g + name_size ls + 1)" "fl_cbyte g = fl_cbyte ?g + name_size ls + 1"
    unfolding step by blast
  have "fl_cbyte ?g + name_size ls + 1 = fl_cbyte f + name_size (l # ls) + 1" by simp
  then show ?case using g by (intro exI [of _ g]) (simp del: name_size_simps)
qed

subsection \<open>Properties\<close>

text \<open>A datagram from the network in which a pointer leads to itself makes
  \<open>adns__findlabel_next\<close> loop for ever: nothing in the walk counts the jumps. So does every
  function that walks a name: \<open>adns__parse_domain\<close> and \<open>adns__findrr\<close> do not return.\<close>

theorem findlabel_pointer_loop:
  assumes "pointer_at d p" "pointer_target d p = p"
  shows "findlabel_next d (findlabel_start (length d) p) = None \<and>
    parse_domain d q p (length d) = None \<and> findrr d p w query cname = None"
proof -
  have n: "findlabel_next d (findlabel_start (length d) p) = None"
    using findlabel_seek_self [OF assms, of "findlabel_start (length d) p"] assms(1)
    by (simp add: findlabel_next_def findlabel_start_def pointer_at_def)
  moreover have "match_owner d (findlabel_start (length d) p) eo = None" for eo
    using n by (subst match_owner.simps) simp
  ultimately show ?thesis
    by (auto simp: parse_domain_def findrr_def findrr_anychk_def parse_domain_more.simps)
qed

theorem findlabel_pointer_loop_witness:
  "findrr (replicate 12 NUL @ [CHR 0xC0, CHR 0x0C]) 12 False [] None = None"
  using findlabel_pointer_loop [of "replicate 12 NUL @ [CHR 0xC0, CHR 0x0C]" 12 True False "[]" None]
  by (simp add: pointer_at_def pointer_target_def get_b_def nth_append)

text \<open>C36: When the pointers that a name goes through lead backwards, as the format demands, parsing the
  name returns, whatever the other bytes of the datagram are; and every label found on the way lies within
  the datagram and has fewer than 64 bytes.\<close>

theorem parse_domain_returns:
  assumes "pointers_back d cbyte"
  shows "parse_domain d q cbyte mx \<noteq> None \<and>
    (\<forall>f len start f1. findlabel_next d f = Some (Inr (Label len start, f1)) \<longrightarrow>
       len < 64 \<and> start + len \<le> length d)"
  using parse_domain_more_returns [OF assms] findlabel_next_label(1,2)
  by (simp add: parse_domain_def findlabel_start_def reached_start)

text \<open>A reply whose identifier and time to live have bytes that look like pointers.\<close>

definition ex_reply :: string where
  "ex_reply =
     [CHR 0xFF, CHR 0xFE, CHR 0x81, CHR 0x80, NUL, CHR 0x01, NUL, CHR 0x01, NUL, NUL, NUL, NUL] @
     [CHR 0x01, CHR ''a'', NUL, NUL, CHR 0x01, NUL, CHR 0x01] @
     [CHR 0x01, CHR ''b'', CHR 0xC0, CHR 0x0C, NUL, CHR 0x01, NUL, CHR 0x01, CHR 0xFF, CHR 0xFF, CHR 0xFF, CHR 0xFF,
      NUL, CHR 0x04, CHR 0xC0, CHR 0xA8, NUL, CHR 0x01]"

theorem parse_domain_returns_witness:
  "parse_domain ex_reply True 19 37 \<noteq> None"
proof -
  have "i \<in> {12, 14, 19, 21}" if "reached ex_reply 19 i" for i
    using that by (induction rule: reached.induct)
      (auto simp: ex_reply_def pointer_at_def pointer_target_def get_b_def NUL_def)
  then have "pointers_back ex_reply 19"
    unfolding pointers_back_def
    by (fastforce simp: ex_reply_def pointer_at_def pointer_target_def get_b_def NUL_def)
  from parse_domain_returns [OF this] show ?thesis by blast
qed

end
