(* ===== verification/AdnsMkquery.thy ===== *)
theory AdnsMkquery
  imports AdnsMsg
begin

section \<open>Building queries (adns/transmit.c)\<close>

text \<open>
  A query datagram is a header, the queried name in wire form and a footer. The name comes from
  text (\<open>mkquery\<close>, one label at a time through \<open>qdparselabel\<close> of the record type) or from
  another datagram (\<open>mkquery_frdgram\<close>). The result is what lies in the buffer; what the call
  of \<open>adns__vbuf_ensure\<close> reserved is \<open>mkquery_room\<close>.
\<close>

definition put_w :: "nat \<Rightarrow> string" where
  "put_w w = [chr (w div 256 mod 256), chr (w mod 256)]"

definition mkquery_header :: "nat \<Rightarrow> string" where
  "mkquery_header ident = put_w ident @ [CHR 0x01, NUL] @ put_w 1 @ put_w 0 @ put_w 0 @ put_w 0"

definition mkquery_footer :: "nat \<Rightarrow> string" where
  "mkquery_footer type = put_w (rrt_typemask type) @ put_w DNS_CLASS_IN"

definition mkquery_room :: "nat \<Rightarrow> nat" where
  "mkquery_room qdlen = DNS_HDRSIZE + qdlen + 4"

definition next_id :: "nat \<Rightarrow> nat" where
  "next_id nextid = nextid mod 0x10000"

subsection \<open>One label of text\<close>

text \<open>The text ends with a NUL, which is what a read at its end gives.\<close>

fun qdpl_loop :: "bool \<Rightarrow> nat \<Rightarrow> string \<Rightarrow> string \<Rightarrow> adns_status + string \<times> string" where
  "qdpl_loop quoteok sz [] lab = Inr (lab, [])"
| "qdpl_loop quoteok sz (c # p) lab =
     (if c = CHR ''.'' then Inr (lab, p)
      else if c = BACKSLASH then
        (if \<not> quoteok then Inl s_querydomaininvalid
         else (case p of
             [] \<Rightarrow> Inl s_querydomaininvalid
           | d # p1 \<Rightarrow>
               if is_digit d then
                 (case p1 of
                    d1 # d2 # p2 \<Rightarrow>
                      if is_digit d1 \<and> is_digit d2 then
                        (let v = digit_val d * 100 + digit_val d1 * 10 + digit_val d2 in
                         if v \<ge> 256 then Inl s_querydomaininvalid
                         else if length lab = sz then Inl s_querydomaininvalid
                         else qdpl_loop quoteok sz p2 (lab @ [chr v]))
                      else Inl s_querydomaininvalid
                  | _ \<Rightarrow> Inl s_querydomaininvalid)
               else if d = NUL then Inl s_querydomaininvalid
               else if length lab = sz then Inl s_querydomaininvalid
               else qdpl_loop quoteok sz p1 (lab @ [d])))
      else if \<not> quoteok \<and> (if c = CHR ''-'' then lab = [] else \<not> ctype_alpha c \<and> \<not> is_digit c)
        then Inl s_querydomaininvalid
      else if length lab = sz then Inl s_querydomaininvalid
      else qdpl_loop quoteok sz p (lab @ [c]))"

definition qdpl_normal :: "bool \<Rightarrow> nat \<Rightarrow> string \<Rightarrow> adns_status + string \<times> string" where
  "qdpl_normal quoteok sz p = qdpl_loop quoteok sz p []"

definition qdpl_srv :: "bool \<Rightarrow> nat \<Rightarrow> nat \<Rightarrow> string \<Rightarrow> adns_status + string \<times> string" where
  "qdpl_srv quoteok labelnum sz p =
     (let special = (labelnum < 2 \<and> \<not> quoteok) in
      case qdpl_normal (special \<or> quoteok) sz p of
        Inl e \<Rightarrow> Inl e
      | Inr (lab, rest) \<Rightarrow>
          if special \<and> (lab = [] \<or> hd lab \<noteq> CHR ''_'' \<or> BACKSLASH \<in> set (tl p))
          then Inl s_querydomaininvalid else Inr (lab, rest))"

definition qdparselabel :: "bool \<Rightarrow> bool \<Rightarrow> nat \<Rightarrow> string \<Rightarrow> adns_status + string \<times> string" where
  "qdparselabel srv quoteok labelnum p =
     (if srv then qdpl_srv quoteok labelnum 255 p else qdpl_normal quoteok 255 p)"

text \<open>Every step takes one character of the label from one or more of the text.\<close>

lemma qdpl_loop_step:
  assumes "qdpl_loop q sz (c # p) lab = Inr r"
  shows "c = CHR ''.'' \<and> r = (lab, p) \<or>
    (\<exists>x rest. length rest \<le> length p \<and> qdpl_loop q sz rest (lab @ [x]) = Inr r)"
proof (cases "c = CHR ''.''")
  case True
  then show ?thesis using assms by simp
next
  case nodot: False
  show ?thesis
  proof (cases "c = BACKSLASH")
    case False
    then have "qdpl_loop q sz p (lab @ [c]) = Inr r" using assms nodot by (simp split: if_splits)
    then show ?thesis by blast
  next
    case True
    then obtain d p1 where p: "p = d # p1" using assms nodot by (cases p) (auto split: if_splits)
    show ?thesis
    proof (cases "is_digit d")
      case True
      then obtain d1 d2 p2 where p1: "p1 = d1 # d2 # p2"
        using assms nodot \<open>c = BACKSLASH\<close> p by (auto split: if_splits list.splits)
      have "\<exists>x. qdpl_loop q sz p2 (lab @ [x]) = Inr r"
        using assms nodot \<open>c = BACKSLASH\<close> p p1 True by (auto simp: Let_def split: if_splits)
      then show ?thesis using p p1 by auto
    next
      case False
      have "qdpl_loop q sz p1 (lab @ [d]) = Inr r"
        using assms nodot \<open>c = BACKSLASH\<close> p False by (auto split: if_splits)
      then show ?thesis using p by auto
    qed
  qed
qed

lemma qdpl_loop_length:
  "qdpl_loop q sz p lab = Inr (lab', rest) \<Longrightarrow>
   length lab' + length rest + (if rest = [] then 0 else 1) \<le> length lab + length p \<and>
   (p \<noteq> [] \<longrightarrow> length rest < length p)"
proof (induction "length p" arbitrary: p lab rule: less_induct)
  case less
  show ?case
  proof (cases p)
    case Nil
    then show ?thesis using less.prems by simp
  next
    case (Cons c p1)
    from qdpl_loop_step [OF less.prems [unfolded Cons]] show ?thesis
    proof (elim disjE exE conjE)
      assume "c = CHR ''.''" "(lab', rest) = (lab, p1)"
      then show ?thesis using Cons by simp
    next
      fix x r
      assume r: "length r \<le> length p1" "qdpl_loop q sz r (lab @ [x]) = Inr (lab', rest)"
      have "length lab' + length rest + (if rest = [] then 0 else 1) \<le> length (lab @ [x]) + length r \<and>
         (r \<noteq> [] \<longrightarrow> length rest < length r)"
        using r Cons by (intro less.hyps) auto
      moreover have "r = [] \<Longrightarrow> rest = []" using r(2) by simp
      ultimately show ?thesis using r(1) Cons by (cases "r = []") auto
    qed
  qed
qed

lemma qdpl_loop_shorter:
  "qdpl_loop q sz p lab = Inr (lab', rest) \<Longrightarrow> p \<noteq> [] \<Longrightarrow> length rest < length p"
  using qdpl_loop_length by blast

lemma qdparselabel_shorter:
  "qdparselabel srv q n p = Inr (lab, rest) \<Longrightarrow> p \<noteq> [] \<Longrightarrow> length rest < length p"
  by (auto simp: qdparselabel_def qdpl_srv_def qdpl_normal_def Let_def split: if_splits sum.splits
      dest!: qdpl_loop_shorter)

subsection \<open>A query from text\<close>

function mkquery_labels ::
    "bool \<Rightarrow> bool \<Rightarrow> nat \<Rightarrow> nat \<Rightarrow> string \<Rightarrow> string list \<Rightarrow> adns_status + string list" where
  "mkquery_labels srv q labelnum nbytes p ls =
     (if p = [] then Inr ls
      else (case qdparselabel srv q labelnum p of
              Inl e \<Rightarrow> Inl e
            | Inr (lab, rest) \<Rightarrow>
                if lab = [] then Inl s_querydomaininvalid
                else if length lab > DNS_MAXLABEL then Inl s_querydomaintoolong
                else if nbytes + length lab + 1 \<ge> DNS_MAXDOMAIN then Inl s_querydomaintoolong
                else mkquery_labels srv q (labelnum + 1) (nbytes + length lab + 1) rest (ls @ [lab])))"
  by pat_completeness auto

termination
  by (relation "measure (\<lambda>(srv, q, n, b, p, ls). length p)") (auto dest: qdparselabel_shorter)

declare mkquery_labels.simps [simp del]

definition mkquery :: "nat \<Rightarrow> bool \<Rightarrow> bool \<Rightarrow> string \<Rightarrow> nat \<Rightarrow> adns_status + string" where
  "mkquery nextid srv q owner type =
     (case mkquery_labels srv q 0 0 owner [] of
        Inl e \<Rightarrow> Inl e
      | Inr ls \<Rightarrow> Inr (mkquery_header (next_id nextid) @ enc_name ls @ mkquery_footer type))"

subsection \<open>A query from a datagram\<close>

text \<open>\<open>None\<close> is a failed assertion, a copy of \<open>-1\<close> bytes, or a loop of pointers.\<close>

partial_function (option) frdgram_labels :: "string \<Rightarrow> fls \<Rightarrow> string list \<Rightarrow> string list option" where
  "frdgram_labels d f ls =
     (case findlabel_next d f of
        Some (Inr (Label len start, f1)) \<Rightarrow>
          if len = 0 then Some ls else frdgram_labels d f1 (ls @ [label_at d len start])
      | _ \<Rightarrow> None)"

text \<open>\<open>avail\<close> is the size that the buffer of the caller has already; \<open>adns__vbuf_ensure\<close> makes it the
  room asked for when it is smaller. A query that needs more is written past the end of the buffer
  before \<open>assert(vb->used <= vb->avail)\<close> stops the program.\<close>

definition mkquery_frdgram :: "nat \<Rightarrow> nat \<Rightarrow> string \<Rightarrow> nat \<Rightarrow> nat \<Rightarrow> string option" where
  "mkquery_frdgram avail nextid d begin type =
     (case frdgram_labels d (findlabel_start (length d) begin) [] of
        None \<Rightarrow> None
      | Some ls \<Rightarrow>
          let dg = mkquery_header (next_id nextid) @ enc_name ls @ mkquery_footer type in
          if length dg \<le> max avail (mkquery_room (length d)) then Some dg else None)"

subsection \<open>What the labels are\<close>

lemma length_header [simp]: "length (mkquery_header ident) = DNS_HDRSIZE"
  by (simp add: mkquery_header_def put_w_def DNS_HDRSIZE_def)

lemma length_footer [simp]: "length (mkquery_footer type) = 4"
  by (simp add: mkquery_footer_def put_w_def)

lemma mkquery_labels_spec:
  "mkquery_labels srv q n nb p ls = Inr ls' \<Longrightarrow> nb < DNS_MAXDOMAIN \<Longrightarrow>
   \<exists>new. ls' = ls @ new \<and> list_all label_ok new \<and> nb + name_size new < DNS_MAXDOMAIN \<and>
     name_size new \<le> (if p = [] then 0 else length p + 1)"
proof (induction "length p" arbitrary: n nb p ls rule: less_induct)
  case less
  show ?case
  proof (cases "p = []")
    case True
    then show ?thesis using less.prems by (simp add: mkquery_labels.simps)
  next
    case False
    obtain lab rest where r: "qdparselabel srv q n p = Inr (lab, rest)" "lab \<noteq> []"
      "length lab \<le> DNS_MAXLABEL" "nb + length lab + 1 < DNS_MAXDOMAIN"
      "mkquery_labels srv q (n + 1) (nb + length lab + 1) rest (ls @ [lab]) = Inr ls'"
      using less.prems(1) False by (subst (asm) mkquery_labels.simps) (auto split: sum.splits if_splits)
    obtain q' sz where "qdpl_loop q' sz p [] = Inr (lab, rest)"
      using r(1) by (auto simp: qdparselabel_def qdpl_srv_def qdpl_normal_def Let_def split: if_splits sum.splits)
    from qdpl_loop_length [OF this] False
    have len: "length lab + length rest + (if rest = [] then 0 else 1) \<le> length p" "length rest < length p"
      by simp_all
    from less.hyps [OF len(2) r(5,4)] obtain new where
      n: "ls' = (ls @ [lab]) @ new" "list_all label_ok new"
        "nb + length lab + 1 + name_size new < DNS_MAXDOMAIN"
        "name_size new \<le> (if rest = [] then 0 else length rest + 1)" by blast
    have "label_ok lab" using r(2,3) by (simp add: label_ok_def DNS_MAXLABEL_def)
    then show ?thesis
      using n len(1) False by (intro exI [of _ "lab # new"]) (auto split: if_splits)
  qed
qed

lemma qdpl_loop_plain:
  "qdpl_loop False sz p lab = Inr (lab', rest) \<Longrightarrow> host_label lab \<Longrightarrow>
   host_label lab' \<and> (\<exists>pre. lab' = lab @ pre \<and> (p = pre @ CHR ''.'' # rest \<or> p = pre \<and> rest = []))"
proof (induction p arbitrary: lab)
  case (Cons c p)
  show ?case
  proof (cases "c = CHR ''.''")
    case False
    then have c: "if c = CHR ''-'' then lab \<noteq> [] else ctype_alpha c \<or> is_digit c"
      and st: "qdpl_loop False sz p (lab @ [c]) = Inr (lab', rest)"
      using Cons.prems(1) by (auto split: if_splits)
    have "host_label (lab @ [c])"
      using Cons.prems(2) c by (cases lab) (auto simp: host_label_def split: if_splits)
    from Cons.IH [OF st this] obtain pre where
      "host_label lab'" "lab' = (lab @ [c]) @ pre" "p = pre @ CHR ''.'' # rest \<or> p = pre \<and> rest = []"
      by blast
    then show ?thesis by (intro conjI exI [of _ "c # pre"]) auto
  qed (use Cons.prems in auto)
qed (auto simp: host_label_def)

lemma mkquery_labels_plain:
  "mkquery_labels False False n nb p ls = Inr ls' \<Longrightarrow>
   \<exists>new. ls' = ls @ new \<and> list_all host_label new \<and>
     (p = name_text False True new \<or> new \<noteq> [] \<and> p = name_text False True new @ ''.'')"
proof (induction "length p" arbitrary: n nb p ls rule: less_induct)
  case less
  show ?case
  proof (cases "p = []")
    case True
    then show ?thesis using less.prems by (simp add: mkquery_labels.simps)
  next
    case False
    obtain lab rest where r: "qdpl_loop False 255 p [] = Inr (lab, rest)" "lab \<noteq> []"
      "mkquery_labels False False (n + 1) (nb + length lab + 1) rest (ls @ [lab]) = Inr ls'"
      using less.prems(1) False by (subst (asm) mkquery_labels.simps)
        (auto simp: qdparselabel_def qdpl_normal_def split: sum.splits if_splits)
    have len: "length rest < length p" using qdpl_loop_shorter [OF r(1) False] .
    from less.hyps [OF len r(3)] obtain new where
      n: "ls' = (ls @ [lab]) @ new" "list_all host_label new"
        "rest = name_text False True new \<or> new \<noteq> [] \<and> rest = name_text False True new @ ''.''"
      by blast
    have p: "host_label lab" "p = lab @ CHR ''.'' # rest \<or> p = lab \<and> rest = []"
      using qdpl_loop_plain [OF r(1)] by (auto simp: host_label_def)
    have t: "name_text False False new = (if new = [] then [] else CHR ''.'' # name_text False True new)"
      by (cases new) simp_all
    have e: "rest = [] \<Longrightarrow> new = []" using n(3) n(2) r(3) by (cases new) (auto simp: mkquery_labels.simps n(1))
    show ?thesis
      using n p t e by (intro exI [of _ "lab # new"]) (auto simp: label_text_def)
  qed
qed

lemma drop_header: "drop DNS_HDRSIZE (mkquery_header i @ r) = r"
  using length_header [of i] by (metis append_eq_conv_conj)

lemma parse_enc_name:
  assumes "list_all label_ok ls" "q \<or> list_all host_label ls" "name_size ls \<le> DNS_MAXDOMAIN + 1"
  shows "\<exists>g. parse_domain (mkquery_header i @ enc_name ls @ r) q DNS_HDRSIZE (length (mkquery_header i @ enc_name ls @ r)) =
      Some (Inr (Some (name_text q True ls), g)) \<and>
    domain_end g DNS_HDRSIZE = DNS_HDRSIZE + name_size ls + 1"
proof -
  let ?d = "mkquery_header i @ enc_name ls @ r" and ?f = "findlabel_start (length (mkquery_header i @ enc_name ls @ r)) DNS_HDRSIZE"
  have f: "fl_cbyte ?f = DNS_HDRSIZE" "fl_max ?f = length ?d" "fl_dmend ?f = None" "fl_namelen ?f = 0"
    by (simp_all add: findlabel_start_def)
  have "drop (fl_cbyte ?f) ?d = enc_name ls @ r" unfolding f by (rule drop_header)
  moreover have "fl_cbyte ?f + name_size ls < fl_max ?f" unfolding f by (simp add: length_enc_name)
  ultimately show ?thesis
    using parse_domain_more_plain [of ?f ?d ls r q True "[]"] assms f
    by (auto simp: parse_domain_def domain_end_def)
qed

lemma frdgram_labels_parse:
  "parse_domain_more d q first f out = Some (Inr (Some t, g)) \<Longrightarrow> fl_namelen f \<le> DNS_MAXDOMAIN \<Longrightarrow>
   \<exists>ls. (\<forall>acc. frdgram_labels d f acc = Some (acc @ ls)) \<and> t = out @ name_text q first ls \<and>
     list_all label_ok ls \<and> (q \<or> list_all host_label ls) \<and>
     fl_namelen f + name_size ls \<le> DNS_MAXDOMAIN + (if fl_namelen f = 0 then 1 else 0)"
proof (induction "DNS_MAXDOMAIN - fl_namelen f" arbitrary: f first out rule: less_induct)
  case less
  obtain len start f1 where l: "findlabel_next d f = Some (Inr (Label len start, f1))"
    using less.prems(1) by (subst (asm) parse_domain_more.simps)
      (auto split: option.splits sum.splits label.splits)
  note b = findlabel_next_label [OF l]
  show ?case
  proof (cases "len = 0")
    case True
    then have "t = out" using less.prems(1) l by (subst (asm) parse_domain_more.simps) simp
    moreover have "frdgram_labels d f acc = Some (acc @ [])" for acc
      using l True by (subst frdgram_labels.simps) simp
    ultimately show ?thesis using less.prems(2) by (intro exI [of _ "[]"]) simp
  next
    case False
    let ?lab = "label_at d len start"
    have st: "parse_domain_more d q False f1 ((if first then out else out @ ''.'') @ label_text q ?lab) =
        Some (Inr (Some t, g))" and h: "q \<or> host_label ?lab"
      using less.prems(1) l False by (subst (asm) parse_domain_more.simps,
        auto simp: Let_def append_quoted1035_def label_text_def split: if_splits)+
    have "DNS_MAXDOMAIN - fl_namelen f1 < DNS_MAXDOMAIN - fl_namelen f"
      using b(3,4) False by (auto split: if_splits)
    from less.hyps [OF this st b(4) [OF False]] obtain ls where
      ls: "\<forall>acc. frdgram_labels d f1 acc = Some (acc @ ls)"
        "t = ((if first then out else out @ ''.'') @ label_text q ?lab) @ name_text q False ls"
        "list_all label_ok ls" "q \<or> list_all host_label ls"
        "fl_namelen f1 + name_size ls \<le> DNS_MAXDOMAIN + (if fl_namelen f1 = 0 then 1 else 0)" by blast
    have ok: "label_ok ?lab" "length ?lab = len"
      using b(1,2) False by (auto simp: label_ok_def label_at_def)
    have "frdgram_labels d f acc = Some (acc @ ?lab # ls)" for acc
      using l False ls(1) by (subst frdgram_labels.simps) simp
    moreover have "fl_namelen f1 \<noteq> 0" using b(3) False by auto
    ultimately show ?thesis
      using ls h ok b(3) False by (intro exI [of _ "?lab # ls"]) (auto split: if_splits)
  qed
qed

subsection \<open>Properties\<close>

text \<open>A query made from text that needs no quotes reads back: the parser finds at the end of
  the header the name that was asked for (without its final full stop, if it had one) and then
  the four bytes of the footer; the header holds the identifier of the query.\<close>

theorem mkquery_parse_domain:
  assumes "mkquery nextid False False owner type = Inr dg"
  shows "\<exists>t g. parse_domain dg False DNS_HDRSIZE (length dg) = Some (Inr (Some t, g)) \<and>
     (owner = t \<or> owner = t @ ''.'') \<and> domain_end g DNS_HDRSIZE + 4 = length dg \<and>
     get_w dg 0 = nextid mod 0x10000 \<and>
     get_w dg (domain_end g DNS_HDRSIZE) = type mod 0x10000"
proof -
  obtain ls where ls: "mkquery_labels False False 0 0 owner [] = Inr ls"
    and dg: "dg = mkquery_header (next_id nextid) @ enc_name ls @ mkquery_footer type"
    using assms by (auto simp: mkquery_def split: sum.splits)
  have ok: "list_all label_ok ls" "name_size ls < DNS_MAXDOMAIN"
    using mkquery_labels_spec [OF ls] by (auto simp: DNS_MAXDOMAIN_def)
  have pl: "list_all host_label ls" "owner = name_text False True ls \<or> owner = name_text False True ls @ ''.''"
    using mkquery_labels_plain [OF ls] by auto
  obtain g where g: "parse_domain dg False DNS_HDRSIZE (length dg) = Some (Inr (Some (name_text False True ls), g))"
    "domain_end g DNS_HDRSIZE = DNS_HDRSIZE + name_size ls + 1"
    unfolding dg using parse_enc_name [of ls False "next_id nextid" "mkquery_footer type"] ok pl(1) by auto
  have "get_w dg 0 = nextid mod 0x10000"
    by (simp add: dg mkquery_header_def put_w_def get_w_def get_b_def next_id_def)
  moreover have "get_w dg (DNS_HDRSIZE + name_size ls + 1) = type mod 0x10000"
  proof -
    have "length (mkquery_header (next_id nextid) @ enc_name ls) = DNS_HDRSIZE + name_size ls + 1"
      by (simp add: length_enc_name)
    then have "dg ! (DNS_HDRSIZE + name_size ls + 1 + k) = mkquery_footer type ! k" for k
      unfolding dg append_assoc [symmetric] by (metis nth_append_length_plus)
    from this [of 0] this [of 1]
    have "dg ! (DNS_HDRSIZE + name_size ls + 1) = mkquery_footer type ! 0"
      "dg ! (DNS_HDRSIZE + name_size ls + 1 + 1) = mkquery_footer type ! 1" by simp_all
    then show ?thesis
      by (simp add: get_w_def get_b_def mkquery_footer_def put_w_def rrt_typemask_def)
  qed
  ultimately show ?thesis
    using g pl(2) by (intro exI [of _ "name_text False True ls"] exI [of _ g]) (simp add: dg length_enc_name)
qed

lemma frdgram_footer:
  "get_w (mkquery_header n @ enc_name ls @ mkquery_footer type)
     (length (mkquery_header n @ enc_name ls @ mkquery_footer type) - 4) = rrt_typemask type"
  "get_w (mkquery_header n @ enc_name ls @ mkquery_footer type)
     (length (mkquery_header n @ enc_name ls @ mkquery_footer type) - 2) = DNS_CLASS_IN"
proof -
  have e: "get_w ((mkquery_header n @ enc_name ls) @ mkquery_footer type) (length (mkquery_header n @ enc_name ls) + k) =
      get_w (mkquery_footer type) k" for k
    unfolding get_w_def get_b_def add.assoc by (simp only: nth_append_length_plus)
  have l: "length (mkquery_header n @ enc_name ls @ mkquery_footer type) - 4 = length (mkquery_header n @ enc_name ls) + 0"
    "length (mkquery_header n @ enc_name ls @ mkquery_footer type) - 2 = length (mkquery_header n @ enc_name ls) + 2"
    by simp_all
  have f: "get_w (mkquery_footer type) 0 = rrt_typemask type" "get_w (mkquery_footer type) 2 = DNS_CLASS_IN"
    by (simp_all add: get_w_def get_b_def mkquery_footer_def put_w_def DNS_CLASS_IN_def rrt_typemask_def)
  show "get_w (mkquery_header n @ enc_name ls @ mkquery_footer type)
     (length (mkquery_header n @ enc_name ls @ mkquery_footer type) - 4) = rrt_typemask type"
    "get_w (mkquery_header n @ enc_name ls @ mkquery_footer type)
     (length (mkquery_header n @ enc_name ls @ mkquery_footer type) - 2) = DNS_CLASS_IN"
    unfolding l using e [of 0] e [of 2] f by (simp_all only: append_assoc)
qed

text \<open>Whatever the text, the record type and the flags, the query fits what was reserved for
  it, and one UDP datagram.\<close>

theorem mkquery_fits:
  assumes "mkquery nextid srv q owner type = Inr dg"
  shows "length dg \<le> mkquery_room (length owner + 2) \<and> length dg \<le> DNS_MAXUDP"
proof -
  obtain ls where ls: "mkquery_labels srv q 0 0 owner [] = Inr ls"
    and dg: "dg = mkquery_header (next_id nextid) @ enc_name ls @ mkquery_footer type"
    using assms by (auto simp: mkquery_def split: sum.splits)
  then show ?thesis
    using mkquery_labels_spec [OF ls]
    by (auto simp: mkquery_room_def length_enc_name dns_sizes split: if_splits)
qed

text \<open>C35: A query made from a name found in another datagram, with its pointers, asks for that name: when
  the buffer has room for it the query is made, the parser gives the same text for both names, and the
  type and the class are the last four bytes. When the name does not fit, nothing is sent: the program
  stops at the assertion of the footer.\<close>

theorem mkquery_frdgram_same_name:
  assumes "parse_domain d q begin (length d) = Some (Inr (Some t, f))"
  shows "\<exists>ls. t = name_text q True ls \<and> list_all label_ok ls \<and> name_size ls \<le> DNS_MAXDOMAIN + 1 \<and>
    (if DNS_HDRSIZE + name_size ls + 5 \<le> max avail (mkquery_room (length d)) then
       (\<exists>dg g. mkquery_frdgram avail nextid d begin type = Some dg \<and>
          length dg = DNS_HDRSIZE + name_size ls + 5 \<and>
          parse_domain dg q DNS_HDRSIZE (length dg) = Some (Inr (Some t, g)) \<and>
          domain_end g DNS_HDRSIZE + 4 = length dg \<and>
          get_w dg (length dg - 4) = rrt_typemask type \<and> get_w dg (length dg - 2) = DNS_CLASS_IN)
     else mkquery_frdgram avail nextid d begin type = None)"
proof -
  have "fl_namelen (findlabel_start (length d) begin) \<le> DNS_MAXDOMAIN" by (simp add: findlabel_start_def)
  from frdgram_labels_parse [OF assms [unfolded parse_domain_def] this] obtain ls where
    ls: "frdgram_labels d (findlabel_start (length d) begin) [] = Some ls"
      "t = name_text q True ls" "list_all label_ok ls" "q \<or> list_all host_label ls"
      "name_size ls \<le> DNS_MAXDOMAIN + 1"
    by (auto simp: findlabel_start_def)
  let ?dg = "mkquery_header (next_id nextid) @ enc_name ls @ mkquery_footer type"
  have len: "length ?dg = DNS_HDRSIZE + name_size ls + 5" by (simp add: length_enc_name)
  have run: "mkquery_frdgram avail nextid d begin type =
      (if DNS_HDRSIZE + name_size ls + 5 \<le> max avail (mkquery_room (length d)) then Some ?dg else None)"
    using ls(1) len by (simp add: mkquery_frdgram_def Let_def)
  note foot = frdgram_footer [of "next_id nextid" ls type]
  obtain g where "parse_domain ?dg q DNS_HDRSIZE (length ?dg) = Some (Inr (Some t, g))"
    "domain_end g DNS_HDRSIZE + 4 = length ?dg"
    using parse_enc_name [OF ls(3-5), of "next_id nextid" "mkquery_footer type"] ls(2)
    by (auto simp: length_enc_name)
  then show ?thesis using ls(2,3,5) run len foot by (intro exI [of _ ls]) (simp del: length_append)
qed

theorem mkquery_parse_domain_witness:
  "\<exists>dg t g. mkquery 0x311f False False ''a-b.org.'' r_a = Inr dg \<and>
     parse_domain dg False DNS_HDRSIZE (length dg) = Some (Inr (Some t, g)) \<and>
     (''a-b.org.'' = t \<or> ''a-b.org.'' = t @ ''.'')"
proof -
  have "\<exists>dg. mkquery 0x311f False False ''a-b.org.'' r_a = Inr dg"
    by (simp add: mkquery_def mkquery_labels.simps qdparselabel_def qdpl_normal_def BACKSLASH_def
        ctype_alpha_def is_digit_def is_lower_def is_upper_def dns_sizes)
  then obtain dg where "mkquery 0x311f False False ''a-b.org.'' r_a = Inr dg" by blast
  with mkquery_parse_domain [OF this] show ?thesis by blast
qed

theorem mkquery_fits_witness:
  "\<exists>dg. mkquery 0 False False ''org'' r_addr = Inr dg \<and> length dg \<le> mkquery_room (length ''org'' + 2) \<and> length dg \<le> DNS_MAXUDP"
proof -
  have "\<exists>dg. mkquery 0 False False ''org'' r_addr = Inr dg"
    by (simp add: mkquery_def mkquery_labels.simps qdparselabel_def qdpl_normal_def BACKSLASH_def
        ctype_alpha_def is_digit_def is_lower_def is_upper_def dns_sizes)
  then obtain dg where "mkquery 0 False False ''org'' r_addr = Inr dg" by blast
  with mkquery_fits [OF this] show ?thesis by blast
qed

text \<open>A name whose labels overlap: 49 bytes \<open>0\<close> are a label of length 48 from wherever they
  are entered, and the pointer after them enters them again two bytes further on.\<close>

definition crafted :: string where
  "crafted = replicate 12 NUL @ replicate 49 (CHR ''0'') @ [CHR 0xC0, CHR 0x0E, NUL]"

lemma crafted_bytes:
  "length crafted = 64" "get_b crafted 12 = 48" "get_b crafted 14 = 48" "get_b crafted 61 = 192"
  "get_b crafted 62 = 14" "get_b crafted 63 = 0"
  by (simp_all add: crafted_def get_b_def nth_append NUL_def)

lemma crafted_walk:
  "findlabel_next crafted (findlabel_start 64 12) =
     Some (Inr (Label 48 13, \<lparr>fl_cbyte = 61, fl_max = 64, fl_namelen = 48, fl_dmend = None\<rparr>))"
  "findlabel_next crafted \<lparr>fl_cbyte = 61, fl_max = 64, fl_namelen = 48, fl_dmend = None\<rparr> =
     Some (Inr (Label 48 15, \<lparr>fl_cbyte = 63, fl_max = 65, fl_namelen = 97, fl_dmend = Some 63\<rparr>))"
  "findlabel_next crafted \<lparr>fl_cbyte = 63, fl_max = 65, fl_namelen = 97, fl_dmend = Some 63\<rparr> =
     Some (Inr (Label 0 64, \<lparr>fl_cbyte = 64, fl_max = 65, fl_namelen = 97, fl_dmend = Some 63\<rparr>))"
    apply (simp add: findlabel_next_def findlabel_start_def, subst findlabel_seek.simps,
      simp add: crafted_bytes Let_def DNS_MAXDOMAIN_def)
   apply (simp add: findlabel_next_def, subst findlabel_seek.simps,
      simp add: crafted_bytes Let_def, subst findlabel_seek.simps,
      simp add: crafted_bytes Let_def set_dmend_def DNS_MAXDOMAIN_def)
  apply (simp add: findlabel_next_def, subst findlabel_seek.simps,
      simp add: crafted_bytes Let_def set_dmend_def)
  done

lemma crafted_parse: "\<exists>t. parse_domain crafted True 12 64 = Some (Inr (Some t,
    \<lparr>fl_cbyte = 64, fl_max = 65, fl_namelen = 97, fl_dmend = Some 63\<rparr>))"
  by (simp add: parse_domain_def parse_domain_more.simps [of crafted True] crafted_walk Let_def)

lemma crafted_frdgram: "\<exists>a b. frdgram_labels crafted (findlabel_start 64 12) [] = Some [a, b] \<and>
    length a = 48 \<and> length b = 48"
  by (simp add: frdgram_labels.simps [of crafted] crafted_walk label_at_def crafted_bytes)

text \<open>The room that \<open>adns__mkquery_frdgram\<close> reserves, the size of the datagram, is not enough
  for every name that \<open>adns__parse_domain\<close> accepts: with overlapping labels a name can be longer
  than the datagram it comes from. Unless the buffer was larger already the query is written beyond its
  end, by 35 bytes in this case, and the program is stopped by the assertion that follows.\<close>

theorem mkquery_frdgram_overflow:
  "\<exists>d t g ls. parse_domain d True DNS_HDRSIZE (length d) = Some (Inr (Some t, g)) \<and>
     frdgram_labels d (findlabel_start (length d) DNS_HDRSIZE) [] = Some ls \<and>
     mkquery_room (length d) + 34 <
       length (mkquery_header (next_id nextid) @ enc_name ls @ mkquery_footer type) \<and>
     (\<forall>avail \<le> mkquery_room (length d). mkquery_frdgram avail nextid d DNS_HDRSIZE type = None)"
proof -
  obtain t where "parse_domain crafted True DNS_HDRSIZE (length crafted) =
      Some (Inr (Some t, \<lparr>fl_cbyte = 64, fl_max = 65, fl_namelen = 97, fl_dmend = Some 63\<rparr>))"
    using crafted_parse by (auto simp: crafted_bytes DNS_HDRSIZE_def)
  moreover obtain a b where l: "frdgram_labels crafted (findlabel_start (length crafted) DNS_HDRSIZE) [] = Some [a, b]"
    "length a = 48" "length b = 48" using crafted_frdgram by (auto simp: crafted_bytes DNS_HDRSIZE_def)
  moreover have long: "mkquery_room (length crafted) + 34 <
      length (mkquery_header (next_id nextid) @ enc_name [a, b] @ mkquery_footer type)"
    using l(2,3) by (simp add: mkquery_room_def crafted_bytes DNS_HDRSIZE_def)
  moreover have "mkquery_frdgram avail nextid crafted DNS_HDRSIZE type = None"
    if "avail \<le> mkquery_room (length crafted)" for avail
    using l(1) long that by (simp add: mkquery_frdgram_def Let_def del: length_append)
  ultimately show ?thesis by blast
qed

text \<open>The name of the record in a reply of one question: a label and a pointer.\<close>

lemma ex_reply_bytes:
  "length ex_reply = 37" "get_b ex_reply 19 = 1" "get_b ex_reply 21 = 192" "get_b ex_reply 22 = 12"
  "get_b ex_reply 12 = 1" "get_b ex_reply 14 = 0"
  by (simp_all add: ex_reply_def get_b_def NUL_def)

lemma ex_reply_walk:
  "findlabel_next ex_reply (findlabel_start 37 19) =
     Some (Inr (Label 1 20, \<lparr>fl_cbyte = 21, fl_max = 37, fl_namelen = 1, fl_dmend = None\<rparr>))"
  "findlabel_next ex_reply \<lparr>fl_cbyte = 21, fl_max = 37, fl_namelen = 1, fl_dmend = None\<rparr> =
     Some (Inr (Label 1 13, \<lparr>fl_cbyte = 14, fl_max = 38, fl_namelen = 3, fl_dmend = Some 23\<rparr>))"
  "findlabel_next ex_reply \<lparr>fl_cbyte = 14, fl_max = 38, fl_namelen = 3, fl_dmend = Some 23\<rparr> =
     Some (Inr (Label 0 15, \<lparr>fl_cbyte = 15, fl_max = 38, fl_namelen = 3, fl_dmend = Some 23\<rparr>))"
    apply (simp add: findlabel_next_def findlabel_start_def, subst findlabel_seek.simps,
      simp add: ex_reply_bytes Let_def DNS_MAXDOMAIN_def)
   apply (simp add: findlabel_next_def, subst findlabel_seek.simps,
      simp add: ex_reply_bytes Let_def, subst findlabel_seek.simps,
      simp add: ex_reply_bytes Let_def set_dmend_def DNS_MAXDOMAIN_def)
  apply (simp add: findlabel_next_def, subst findlabel_seek.simps,
      simp add: ex_reply_bytes Let_def set_dmend_def)
  done

lemma ex_reply_parse: "\<exists>t f. parse_domain ex_reply True 19 37 = Some (Inr (Some t, f))"
  by (simp add: parse_domain_def parse_domain_more.simps [of ex_reply True] ex_reply_walk Let_def del: One_nat_def)

lemma ex_reply_labels: "frdgram_labels ex_reply (findlabel_start 37 19) [] = Some [''b'', ''a'']"
  by (simp add: frdgram_labels.simps [of ex_reply] ex_reply_walk label_at_def del: One_nat_def, simp add: ex_reply_def)

theorem mkquery_frdgram_same_name_witness:
  "\<exists>t dg g. mkquery_frdgram 0 7 ex_reply 19 r_addr = Some dg \<and>
     parse_domain dg True DNS_HDRSIZE (length dg) = Some (Inr (Some t, g))"
proof -
  obtain t f where "parse_domain ex_reply True 19 (length ex_reply) = Some (Inr (Some t, f))"
    using ex_reply_parse by (auto simp: ex_reply_bytes)
  from mkquery_frdgram_same_name [OF this, of 0 7 r_addr]
  have "mkquery_frdgram 0 7 ex_reply 19 r_addr \<noteq> None \<Longrightarrow> ?thesis" by (auto split: if_splits)
  moreover have "mkquery_frdgram 0 7 ex_reply 19 r_addr \<noteq> None"
    using ex_reply_labels by (simp add: mkquery_frdgram_def Let_def ex_reply_bytes mkquery_room_def DNS_HDRSIZE_def)
  ultimately show ?thesis by simp
qed

subsection \<open>Quoted text\<close>

lemma qdpl_quoted:
  assumes "list_all is_graph lab" "length (acc @ lab) \<le> sz"
  shows "qdpl_loop True sz (label_text True lab @ rest) acc = qdpl_loop True sz rest (acc @ lab)"
  using assms
proof (induction lab arbitrary: acc)
  case (Cons c lab)
  have g: "33 \<le> cc c" "cc c \<le> 126" using Cons.prems(1) by (auto simp: is_graph_def)
  have n: "c \<noteq> NUL" using g by (auto simp: NUL_def)
  have IH: "qdpl_loop True sz (label_text True lab @ rest) (acc @ [c]) = qdpl_loop True sz rest (acc @ c # lab)"
    using Cons.IH [of "acc @ [c]"] Cons.prems by simp
  show ?case
  proof (cases "ctype_domainunquoted c")
    case True
    then have "c \<noteq> CHR ''.''" "c \<noteq> BACKSLASH"
      by (auto simp: ctype_domainunquoted_def ctype_alpha_def BACKSLASH_def NUL_def is_digit_def
          is_lower_def is_upper_def)
    then show ?thesis using IH Cons.prems(2) g True by (simp add: label_text_def quote1035_def)
  next
    case False
    then have "\<not> is_digit c" by (simp add: ctype_domainunquoted_def)
    then show ?thesis using IH Cons.prems(2) g n False
      by (simp add: label_text_def quote1035_def BACKSLASH_def)
  qed
qed (simp add: label_text_def)

text \<open>Text printed with quotes is read back, as long as the labels hold printing characters
  only. Others are printed in octal and read in decimal: the byte 8 comes back as the byte 10,
  and 200 is refused.\<close>

theorem quoted1035_read_back:
  assumes "list_all is_graph lab" "length lab \<le> 255"
  shows "qdpl_normal True 255 (label_text True lab) = Inr (lab, []) \<and>
     qdpl_normal True 255 (label_text True lab @ CHR ''.'' # rest) = Inr (lab, rest) \<and>
     qdpl_normal True 255 (label_text True [chr 8]) = Inr ([chr 10], []) \<and>
     qdpl_normal True 255 (label_text True [chr 200]) = Inl s_querydomaininvalid"
proof (intro conjI)
  show "qdpl_normal True 255 (label_text True lab) = Inr (lab, [])"
    "qdpl_normal True 255 (label_text True lab @ CHR ''.'' # rest) = Inr (lab, rest)"
    using qdpl_quoted [of lab "[]" 255 "[]"] qdpl_quoted [of lab "[]" 255 "CHR ''.'' # rest"] assms
    by (simp_all add: qdpl_normal_def)
  show "qdpl_normal True 255 (label_text True [chr 8]) = Inr ([chr 10], [])"
    "qdpl_normal True 255 (label_text True [chr 200]) = Inl s_querydomaininvalid"
    by (simp_all add: qdpl_normal_def label_text_def quote1035_def oct3_def digit_chr_def
        is_digit_def digit_val_def BACKSLASH_def Let_def)
qed

theorem quoted1035_read_back_witness:
  "qdpl_normal True 255 (label_text True ''a_b@c'') = Inr (''a_b@c'', [])"
  using quoted1035_read_back [of "''a_b@c''" "[]"] by (simp add: is_graph_def)

end
