(* ===== verification/AdnsRR.thy ===== *)
theory AdnsRR
  imports AdnsMkquery
begin

section \<open>Resource records (adns/types.c)\<close>

text \<open>
  One group of functions for each kind of record: \<open>pa\<close> parses its data in a datagram, \<open>di\<close>
  compares two records for the sort, \<open>cs\<close> prints one; \<open>pap\<close>, \<open>dip\<close>, \<open>csp\<close> are their parts.
  An address is the 32-bit word that its four bytes write, most significant first. The outer
  option of a parse is \<open>None\<close> when it does not return (a loop of pointers) or reads a variable
  that was never set; \<open>Inl\<close> is a status. Child queries are collected in the state of the parse;
  sending them is part of the query machine. The \<open>mf\<close> functions, which move an answer into one
  block of memory, have no counterpart.
\<close>

type_synonym 'a parse_result = "(adns_status + 'a) option"

definition rbind :: "('e + 'a) option \<Rightarrow> ('a \<Rightarrow> ('e + 'b) option) \<Rightarrow> ('e + 'b) option" where
  "rbind r k = (case r of None \<Rightarrow> None | Some (Inl e) \<Rightarrow> Some (Inl e) | Some (Inr x) \<Rightarrow> k x)"

lemma rbind_simps [simp]:
  "rbind None k = None" "rbind (Some (Inl e)) k = Some (Inl e)" "rbind (Some (Inr x)) k = k x"
  by (simp_all add: rbind_def)

record hostaddr =
  ha_host :: string
  ha_astatus :: adns_status
  ha_naddrs :: int
  ha_addrs :: "32 word list"

datatype rr =
    RR_inaddr "32 word" | RR_addr "32 word" | RR_str string | RR_intstr nat string
  | RR_manyistr "string list" | RR_intstrpair string string | RR_strpair string string
  | RR_hostaddr hostaddr | RR_inthostaddr nat hostaddr | RR_soa string string "nat list"
  | RR_srvraw nat nat nat string | RR_srvha nat nat nat hostaddr | RR_byteblock string

datatype child_kind = Child_hostaddr nat | Child_ptr

record child =
  ch_dgram :: string
  ch_id :: nat
  ch_flags :: queryflags
  ch_kind :: child_kind

text \<open>What a parse reads: the datagram and its sections, the query; and what it changes.\<close>

record parseinfo =
  pai_dgram :: string
  pai_nsstart :: nat
  pai_nscount :: nat
  pai_arcount :: nat
  pai_now :: int
  pai_flags :: queryflags
  pai_typekey :: nat
  pai_query :: string
  pai_sortlist :: "(32 word \<times> 32 word) list"
  pai_slot :: nat
  pai_avail :: "nat \<Rightarrow> nat"

record pstate =
  ps_expires :: int
  ps_nextid :: nat
  ps_children :: "child list"
  ps_ptr :: "32 word option"

text \<open>The parsers that look up addresses change the query before they fail: their errors keep
  the state they stopped in.\<close>

type_synonym 'a parse_step = "(adns_status \<times> pstate + 'a) option"

definition at_state :: "pstate \<Rightarrow> 'a parse_result \<Rightarrow> 'a parse_step" where
  "at_state ps r = map_option (map_sum (\<lambda>e. (e, ps)) id) r"

definition keeping ::
    "(parseinfo \<Rightarrow> pstate \<Rightarrow> nat \<Rightarrow> nat \<Rightarrow> 'a parse_result) \<Rightarrow>
     parseinfo \<Rightarrow> pstate \<Rightarrow> nat \<Rightarrow> nat \<Rightarrow> 'a parse_step" where
  "keeping p pai ps cbyte mx = at_state ps (p pai ps cbyte mx)"

definition update_expires :: "nat \<Rightarrow> int \<Rightarrow> pstate \<Rightarrow> pstate" where
  "update_expires ttl now ps =
     (let mx = now + int ttl in if ps_expires ps < mx then ps else ps\<lparr>ps_expires := mx\<rparr>)"

subsection \<open>Strings\<close>

definition pap_qstring :: "string \<Rightarrow> nat \<Rightarrow> nat \<Rightarrow> adns_status + string \<times> nat" where
  "pap_qstring d cbyte mx =
     (if cbyte \<ge> mx then Inl s_invaliddata
      else let l = get_b d cbyte in
        if cbyte + 1 + l > mx then Inl s_invaliddata
        else Inr (label_at d l (cbyte + 1), cbyte + 1 + l))"

definition hex_chr :: "nat \<Rightarrow> char" where
  "hex_chr n = (if n < 10 then chr (48 + n) else chr (87 + n))"

definition hex2 :: "nat \<Rightarrow> string" where
  "hex2 n = [hex_chr (n div 16), hex_chr (n mod 16)]"

definition DQUOTE :: char where "DQUOTE = CHR 0x22"

definition qstring_char :: "char \<Rightarrow> string" where
  "qstring_char c =
     (if c = BACKSLASH then [BACKSLASH, BACKSLASH]
      else if c = DQUOTE then [BACKSLASH, DQUOTE]
      else if 32 \<le> cc c \<and> cc c \<le> 126 then [c]
      else BACKSLASH # CHR ''x'' # hex2 (cc c))"

definition csp_qstring :: "string \<Rightarrow> string" where
  "csp_qstring s = DQUOTE # concat (map qstring_char s) @ [DQUOTE]"

text \<open>The first loop of \<open>pa_txt\<close> counts the strings, the second reads them.\<close>

function txt_count :: "string \<Rightarrow> nat \<Rightarrow> nat \<Rightarrow> nat \<Rightarrow> nat \<times> nat" where
  "txt_count d cbyte mx tc =
     (if cbyte < mx then txt_count d (cbyte + 1 + get_b d cbyte) mx (tc + 1) else (cbyte, tc))"
  by pat_completeness auto

termination
  by (relation "measure (\<lambda>(d, c, m, t). m - c)") auto

declare txt_count.simps [simp del]

fun txt_read :: "nat \<Rightarrow> string \<Rightarrow> nat \<Rightarrow> nat \<Rightarrow> adns_status + string list \<times> nat" where
  "txt_read 0 d cbyte mx = Inr ([], cbyte)"
| "txt_read (Suc n) d cbyte mx =
     (case pap_qstring d cbyte mx of
        Inl e \<Rightarrow> Inl e
      | Inr (s, c) \<Rightarrow>
          (case txt_read n d c mx of Inl e \<Rightarrow> Inl e | Inr (ss, c') \<Rightarrow> Inr (s # ss, c')))"

text \<open>\<open>None\<close> is the failure of the assertion that the second loop ends at \<open>max\<close>.\<close>

definition pa_txt :: "parseinfo \<Rightarrow> pstate \<Rightarrow> nat \<Rightarrow> nat \<Rightarrow> (rr \<times> pstate) parse_result" where
  "pa_txt pai ps cbyte mx =
     (if cbyte \<ge> mx then Some (Inl s_invaliddata)
      else
        let (c, tc) = txt_count (pai_dgram pai) cbyte mx 0 in
        if c \<noteq> mx \<or> tc = 0 then Some (Inl s_invaliddata)
        else (case txt_read tc (pai_dgram pai) cbyte mx of
                Inl e \<Rightarrow> Some (Inl e)
              | Inr (ss, c') \<Rightarrow> if c' = mx then Some (Inr (RR_manyistr ss, ps)) else None))"

definition pa_hinfo :: "parseinfo \<Rightarrow> pstate \<Rightarrow> nat \<Rightarrow> nat \<Rightarrow> (rr \<times> pstate) parse_result" where
  "pa_hinfo pai ps cbyte mx = Some (
     case txt_read 2 (pai_dgram pai) cbyte mx of
       Inl e \<Rightarrow> Inl e
     | Inr (ss, c) \<Rightarrow>
         if c \<noteq> mx then Inl s_invaliddata else Inr (RR_intstrpair (ss ! 0) (ss ! 1), ps))"

subsection \<open>Addresses\<close>

definition get_addr :: "string \<Rightarrow> nat \<Rightarrow> 32 word" where
  "get_addr d i = of_nat (get_l d i)"

definition pa_inaddr :: "parseinfo \<Rightarrow> pstate \<Rightarrow> nat \<Rightarrow> nat \<Rightarrow> (rr \<times> pstate) parse_result" where
  "pa_inaddr pai ps cbyte mx = Some (
     if int mx - int cbyte \<noteq> 4 then Inl s_invaliddata
     else Inr (RR_inaddr (get_addr (pai_dgram pai) cbyte), ps))"

definition pa_addr :: "parseinfo \<Rightarrow> pstate \<Rightarrow> nat \<Rightarrow> nat \<Rightarrow> (rr \<times> pstate) parse_result" where
  "pa_addr pai ps cbyte mx = Some (
     if int mx - int cbyte \<noteq> 4 then Inl s_invaliddata
     else Inr (RR_addr (get_addr (pai_dgram pai) cbyte), ps))"

fun search_sortlist :: "(32 word \<times> 32 word) list \<Rightarrow> 32 word \<Rightarrow> nat" where
  "search_sortlist [] a = 0"
| "search_sortlist ((base, msk) # sl) a =
     (if a AND msk = base then 0 else Suc (search_sortlist sl a))"

definition dip_inaddr :: "(32 word \<times> 32 word) list \<Rightarrow> 32 word \<Rightarrow> 32 word \<Rightarrow> bool" where
  "dip_inaddr sl a b =
     (if sl = [] then False else search_sortlist sl b < search_sortlist sl a)"

fun di_addr :: "(32 word \<times> 32 word) list \<Rightarrow> rr \<Rightarrow> rr \<Rightarrow> bool" where
  "di_addr sl (RR_inaddr a) (RR_inaddr b) = dip_inaddr sl a b"
| "di_addr sl (RR_addr a) (RR_addr b) = dip_inaddr sl a b"
| "di_addr sl _ _ = False"

definition inet_ntoa :: "32 word \<Rightarrow> string" where
  "inet_ntoa w =
     (let n = unat w in
      dec (n div 2 ^ 24) @ ''.'' @ dec (n div 2 ^ 16 mod 256) @ ''.'' @ dec (n div 2 ^ 8 mod 256)
        @ ''.'' @ dec (n mod 256))"

definition csp_addr :: "32 word \<Rightarrow> string" where
  "csp_addr a = ''INET '' @ inet_ntoa a"

subsection \<open>Domains and hosts\<close>

definition pap_domain :: "parseinfo \<Rightarrow> nat \<Rightarrow> nat \<Rightarrow> bool \<Rightarrow> (string \<times> nat) parse_result" where
  "pap_domain pai cbyte mx quoteok =
     rbind (parse_domain (pai_dgram pai) quoteok cbyte mx) (\<lambda>(t, f).
       case t of None \<Rightarrow> Some (Inl s_invaliddata)
       | Some s \<Rightarrow> Some (Inr (s, domain_end f cbyte)))"

definition csp_domain :: "string \<Rightarrow> string" where
  "csp_domain s = (if s = [] then ''.'' else s)"

definition quoteok_anshost :: "parseinfo \<Rightarrow> bool" where
  "quoteok_anshost pai = qf_quoteok_anshost (pai_flags pai)"

definition pa_dom :: "bool \<Rightarrow> parseinfo \<Rightarrow> pstate \<Rightarrow> nat \<Rightarrow> nat \<Rightarrow> (rr \<times> pstate) parse_result" where
  "pa_dom quoteok pai ps cbyte mx =
     rbind (pap_domain pai cbyte mx quoteok) (\<lambda>(s, c).
       if c \<noteq> mx then Some (Inl s_invaliddata) else Some (Inr (RR_str s, ps)))"

definition pa_dom_raw :: "parseinfo \<Rightarrow> pstate \<Rightarrow> nat \<Rightarrow> nat \<Rightarrow> (rr \<times> pstate) parse_result" where
  "pa_dom_raw pai ps cbyte mx = pa_dom True pai ps cbyte mx"

definition pa_host_raw :: "parseinfo \<Rightarrow> pstate \<Rightarrow> nat \<Rightarrow> nat \<Rightarrow> (rr \<times> pstate) parse_result" where
  "pa_host_raw pai ps cbyte mx = pa_dom (quoteok_anshost pai) pai ps cbyte mx"

subsection \<open>Hosts with their addresses\<close>

text \<open>A truncated record has type \<open>-1\<close> and leaves \<open>*cbyte_io\<close> alone.\<close>

fun findaddrs_loop ::
    "nat \<Rightarrow> parseinfo \<Rightarrow> pstate \<Rightarrow> nat \<Rightarrow> nat \<Rightarrow> 32 word list option \<Rightarrow>
     (32 word list option \<times> nat \<times> pstate) parse_step" where
  "findaddrs_loop 0 pai ps cbyte dmstart found = Some (Inr (found, cbyte, ps))"
| "findaddrs_loop (Suc n) pai ps cbyte dmstart found =
     rbind (at_state ps (findrr_anychk (pai_dgram pai) cbyte (Some (pai_dgram pai, dmstart)))) (\<lambda>r.
       let some = (found \<noteq> None \<and> found \<noteq> Some []) in
       case r of
         None \<Rightarrow> if some then Some (Inr (found, cbyte, ps))
                 else findaddrs_loop n pai ps cbyte dmstart found
       | Some x \<Rightarrow>
           if \<not> rr_matched x \<or> rr_class x \<noteq> DNS_CLASS_IN \<or> rr_type x \<noteq> r_a then
             (if some then Some (Inr (found, rr_end x, ps))
              else findaddrs_loop n pai ps (rr_end x) dmstart found)
           else
             let ps1 = update_expires (rr_ttl x) (pai_now pai) ps in
             if rr_rdlen x \<noteq> 4 then Some (Inl (s_invaliddata, ps1))
             else findaddrs_loop n pai ps1 (rr_end x) dmstart
               (Some ((case found of None \<Rightarrow> [] | Some as \<Rightarrow> as)
                        @ [get_addr (pai_dgram pai) (rr_rdstart x)])))"

definition pap_findaddrs ::
    "parseinfo \<Rightarrow> pstate \<Rightarrow> hostaddr \<Rightarrow> nat \<Rightarrow> nat \<Rightarrow> nat \<Rightarrow> (hostaddr \<times> nat \<times> pstate) parse_step" where
  "pap_findaddrs pai ps ha cbyte cnt dmstart =
     rbind (findaddrs_loop cnt pai ps cbyte dmstart None) (\<lambda>(found, c, ps1). Some (Inr (
       (case found of
          None \<Rightarrow> ha
        | Some as \<Rightarrow>
            ha\<lparr>ha_addrs := isort (dip_inaddr (pai_sortlist pai)) as, ha_naddrs := int (length as),
               ha_astatus := s_ok\<rparr>), c, ps1)))"

definition child_flags :: "parseinfo \<Rightarrow> queryflags" where
  "child_flags pai =
     qf_none\<lparr>qf_quoteok_query := True, qf_cname_forbid := \<not> qf_cname_loose (pai_flags pai)\<rparr>"

text \<open>No address in the authority and additional sections: a child query asks for them.\<close>

definition submit_child ::
    "parseinfo \<Rightarrow> pstate \<Rightarrow> nat \<Rightarrow> queryflags \<Rightarrow> child_kind \<Rightarrow> pstate option" where
  "submit_child pai ps dmstart flags kind =
     map_option (\<lambda>dg. ps\<lparr>ps_nextid := ps_nextid ps + 1,
         ps_children := ps_children ps @
           [\<lparr>ch_dgram = dg, ch_id = next_id (ps_nextid ps), ch_flags = flags, ch_kind = kind\<rparr>]\<rparr>)
       (mkquery_frdgram (pai_avail pai (ps_nextid ps)) (ps_nextid ps) (pai_dgram pai) dmstart r_addr)"

definition pap_hostaddr ::
    "parseinfo \<Rightarrow> pstate \<Rightarrow> nat \<Rightarrow> nat \<Rightarrow> (hostaddr \<times> nat \<times> pstate) parse_step" where
  "pap_hostaddr pai ps dmstart mx =
     rbind (at_state ps (pap_domain pai dmstart mx (quoteok_anshost pai))) (\<lambda>(host, cend).
       let ha = \<lparr>ha_host = host, ha_astatus = s_ok, ha_naddrs = - 1, ha_addrs = []\<rparr> in
       rbind (pap_findaddrs pai ps ha (pai_nsstart pai) (pai_nscount pai) dmstart) (\<lambda>(ha1, c1, ps1).
         if ha_naddrs ha1 \<noteq> - 1 then Some (Inr (ha1, cend, ps1))
         else rbind (pap_findaddrs pai ps1 ha1 c1 (pai_arcount pai) dmstart) (\<lambda>(ha2, c2, ps2).
           if ha_naddrs ha2 \<noteq> - 1 then Some (Inr (ha2, cend, ps2))
           else (case submit_child pai ps2 dmstart (child_flags pai) (Child_hostaddr (pai_slot pai)) of
                   None \<Rightarrow> None
                 | Some ps3 \<Rightarrow> Some (Inr (ha2, cend, ps3))))))"

definition pa_hostaddr :: "parseinfo \<Rightarrow> pstate \<Rightarrow> nat \<Rightarrow> nat \<Rightarrow> (rr \<times> pstate) parse_step" where
  "pa_hostaddr pai ps cbyte mx =
     rbind (pap_hostaddr pai ps cbyte mx) (\<lambda>(ha, c, ps1).
       if c \<noteq> mx then Some (Inl (s_invaliddata, ps1)) else Some (Inr (RR_hostaddr ha, ps1)))"

definition dip_hostaddr :: "(32 word \<times> 32 word) list \<Rightarrow> hostaddr \<Rightarrow> hostaddr \<Rightarrow> bool" where
  "dip_hostaddr sl a b =
     (if ha_astatus a \<noteq> ha_astatus b then ha_astatus a \<noteq> s_ok
      else if ha_astatus a \<noteq> s_ok then False
      else dip_inaddr sl (hd (ha_addrs a)) (hd (ha_addrs b)))"

definition print_status :: "adns_status \<Rightarrow> string" where
  "print_status st = (case adns_strerror st of None \<Rightarrow> [] | Some s \<Rightarrow> s)"

definition csp_hostaddr :: "hostaddr \<Rightarrow> string" where
  "csp_hostaddr h =
     csp_domain (ha_host h) @ '' ''
       @ (case adns_errtypeabbrev (status_code (ha_astatus h)) of None \<Rightarrow> [] | Some s \<Rightarrow> s)
       @ '' '' @ dec (status_code (ha_astatus h)) @ '' ''
       @ (case adns_errabbrev (ha_astatus h) of None \<Rightarrow> [] | Some s \<Rightarrow> s)
       @ '' '' @ csp_qstring (print_status (ha_astatus h))
       @ (if ha_naddrs h \<ge> 0
          then '' ('' @ concat (map (\<lambda>a. '' '' @ csp_addr a) (ha_addrs h)) @ '' )''
          else '' ?'')"

text \<open>The callback of a child query: \<open>st\<close>, \<open>nrrs\<close> and \<open>addrs\<close> are those of its answer.\<close>

definition icb_hostaddr :: "adns_status \<Rightarrow> 32 word list \<Rightarrow> hostaddr \<Rightarrow> hostaddr" where
  "icb_hostaddr st addrs h =
     h\<lparr>ha_astatus := st,
       ha_naddrs := (if status_code st > 0 \<and> status_code st \<le> max_tempfail then - 1
                     else int (length addrs)),
       ha_addrs := addrs\<rparr>"

subsection \<open>MX\<close>

definition pa_mx_raw :: "parseinfo \<Rightarrow> pstate \<Rightarrow> nat \<Rightarrow> nat \<Rightarrow> (rr \<times> pstate) parse_result" where
  "pa_mx_raw pai ps cbyte mx =
     (if cbyte + 2 > mx then Some (Inl s_invaliddata)
      else rbind (pap_domain pai (cbyte + 2) mx (quoteok_anshost pai)) (\<lambda>(s, c).
        if c \<noteq> mx then Some (Inl s_invaliddata)
        else Some (Inr (RR_intstr (get_w (pai_dgram pai) cbyte) s, ps))))"

fun di_mx_raw :: "(32 word \<times> 32 word) list \<Rightarrow> rr \<Rightarrow> rr \<Rightarrow> bool" where
  "di_mx_raw sl (RR_intstr i _) (RR_intstr j _) = (j < i)"
| "di_mx_raw sl _ _ = False"

definition pa_mx :: "parseinfo \<Rightarrow> pstate \<Rightarrow> nat \<Rightarrow> nat \<Rightarrow> (rr \<times> pstate) parse_step" where
  "pa_mx pai ps cbyte mx =
     (if cbyte + 2 > mx then Some (Inl (s_invaliddata, ps))
      else rbind (pap_hostaddr pai ps (cbyte + 2) mx) (\<lambda>(ha, c, ps1).
        if c \<noteq> mx then Some (Inl (s_invaliddata, ps1))
        else Some (Inr (RR_inthostaddr (get_w (pai_dgram pai) cbyte) ha, ps1))))"

fun di_mx :: "(32 word \<times> 32 word) list \<Rightarrow> rr \<Rightarrow> rr \<Rightarrow> bool" where
  "di_mx sl (RR_inthostaddr i h) (RR_inthostaddr j k) =
     (if i < j then False else if i > j then True else dip_hostaddr sl h k)"
| "di_mx sl _ _ = False"

fun di_hostaddr :: "(32 word \<times> 32 word) list \<Rightarrow> rr \<Rightarrow> rr \<Rightarrow> bool" where
  "di_hostaddr sl (RR_hostaddr h) (RR_hostaddr k) = dip_hostaddr sl h k"
| "di_hostaddr sl _ _ = False"

subsection \<open>PTR\<close>

text \<open>\<open>strtoul\<close> in base 10 on the bytes of a label, which end with a NUL: blanks, a sign, digits.
  When there is no digit, \<open>ep\<close> is the beginning. A negated value wraps; only its last byte
  is kept.\<close>

definition strtoul_byte :: "string \<Rightarrow> nat \<times> string" where
  "strtoul_byte s =
     (let t = dropWhile is_space s;
          neg = (t \<noteq> [] \<and> hd t = CHR ''-'');
          u = (if t \<noteq> [] \<and> (hd t = CHR ''-'' \<or> hd t = CHR ''+'') then tl t else t);
          ds = takeWhile is_digit u
      in if ds = [] then (0, s)
         else let v = dec_val ds
              in (nat ((if neg then - int v else int v) mod 256), dropWhile is_digit u))"

text \<open>One of the four labels of the address: \<open>None\<close> is \<open>adns_s_querydomainwrong\<close>.\<close>

definition ptr_byte :: "string \<Rightarrow> nat option" where
  "ptr_byte lab =
     (if lab = [] \<or> length lab > 3 then None
      else let (v, ep) = strtoul_byte lab in
        if at_nul ep 0 \<noteq> NUL then None
        else if length lab > 1 \<and> hd lab = CHR ''0'' then None
        else Some v)"

text \<open>The labels of the query, in the order of the loop: least significant byte first, then the
  two of \<open>in-addr.arpa\<close>, then the end. A datagram that the library made has no pointers.\<close>

definition ptr_query_addr :: "string list \<Rightarrow> 32 word option" where
  "ptr_query_addr ls =
     (case ls of
        [a, b, c, d, e, f] \<Rightarrow>
          (case (ptr_byte a, ptr_byte b, ptr_byte c, ptr_byte d) of
             (Some v0, Some v1, Some v2, Some v3) \<Rightarrow>
               if e = ''in-addr'' \<and> f = ''arpa''
               then Some (of_nat (v3 * 2 ^ 24 + v2 * 2 ^ 16 + v1 * 2 ^ 8 + v0))
               else None
           | _ \<Rightarrow> None)
      | _ \<Rightarrow> None)"

definition pa_ptr :: "parseinfo \<Rightarrow> pstate \<Rightarrow> nat \<Rightarrow> nat \<Rightarrow> (rr \<times> pstate) parse_step" where
  "pa_ptr pai ps dmstart mx =
     rbind (at_state ps (pap_domain pai dmstart mx (quoteok_anshost pai))) (\<lambda>(s, c).
       if c \<noteq> mx then Some (Inl (s_invaliddata, ps))
       else
         let addr = (case ps_ptr ps of
                       Some a \<Rightarrow> Some (Some a)
                     | None \<Rightarrow> map_option ptr_query_addr
                         (frdgram_labels (pai_query pai)
                            (findlabel_start (length (pai_query pai)) DNS_HDRSIZE) []))
         in case addr of
              None \<Rightarrow> None
            | Some None \<Rightarrow> Some (Inl (s_querydomainwrong, ps))
            | Some (Some a) \<Rightarrow>
                (case submit_child pai (ps\<lparr>ps_ptr := Some a\<rparr>) dmstart
                        (qf_none\<lparr>qf_quoteok_query := True\<rparr>) Child_ptr of
                   None \<Rightarrow> None
                 | Some ps1 \<Rightarrow> Some (Inr (RR_str s, ps1))))"

text \<open>What the callback of the child query makes of its answer.\<close>

definition icb_ptr :: "32 word \<Rightarrow> adns_status \<Rightarrow> 32 word list \<Rightarrow> adns_status" where
  "icb_ptr queried st found =
     (if st = s_nxdomain \<or> st = s_nodata then s_inconsistent
      else if st \<noteq> s_ok then st
      else if queried \<in> set found then s_ok
      else s_inconsistent)"

subsection \<open>Mailboxes, RP, SOA\<close>

definition mail_bad :: "char \<Rightarrow> bool" where
  "mail_bad c \<longleftrightarrow> cc c mod 128 < 32 \<or> cc c mod 128 = 127"

text \<open>The scan of the local part: whether it is bad, how many characters want quotes, and whether
  it must be quoted as a whole.\<close>

fun mail_scan :: "string \<Rightarrow> nat \<Rightarrow> bool \<Rightarrow> (nat \<times> bool) option" where
  "mail_scan [] needquote neednorm = Some (needquote, neednorm)"
| "mail_scan (c # s) needquote neednorm =
     (if mail_bad c then None
      else if c = CHR ''.'' \<and> \<not> neednorm then mail_scan s needquote True
      else if c = CHR '' '' \<or> cc c \<ge> 127 \<or> ctype_822special c then mail_scan s (needquote + 1) neednorm
      else mail_scan s needquote False)"

definition mail_quote :: "string \<Rightarrow> string" where
  "mail_quote l =
     DQUOTE # concat (map (\<lambda>c. if c = DQUOTE \<or> c = BACKSLASH then [BACKSLASH, c] else [c]) l) @ [DQUOTE]"

text \<open>The status of \<open>findlabel_next\<close> is dropped: after an error the code reads a length that was
  never set (\<open>None\<close>); after a truncation it is \<open>-1\<close>, and the local part is the empty quoted
  string.\<close>

definition pap_mailbox822 :: "parseinfo \<Rightarrow> nat \<Rightarrow> nat \<Rightarrow> (string \<times> nat) parse_result" where
  "pap_mailbox822 pai cbyte mx =
     (case findlabel_next (pai_dgram pai) (findlabel_start mx cbyte) of
        None \<Rightarrow> None
      | Some (Inl e) \<Rightarrow> None
      | Some (Inr (Label len start, f)) \<Rightarrow>
          if len = 0 then Some (Inr (''.'', domain_end f cbyte))
          else
            let l = label_at (pai_dgram pai) len start in
            (case mail_scan l 0 True of
               None \<Rightarrow> Some (Inl s_invaliddata)
             | Some (needquote, neednorm) \<Rightarrow>
                 rbind (parse_domain_more (pai_dgram pai) False True f
                     ((if needquote \<noteq> 0 \<or> neednorm then mail_quote l else l) @ ''@''))
                   (\<lambda>(t, g). Some (Inr (case t of None \<Rightarrow> [] | Some s \<Rightarrow> s, domain_end g cbyte))))
      | Some (Inr (Truncated, f)) \<Rightarrow>
          rbind (parse_domain_more (pai_dgram pai) False True f (mail_quote [] @ ''@''))
            (\<lambda>(t, g). Some (Inr (case t of None \<Rightarrow> [] | Some s \<Rightarrow> s, domain_end g cbyte))))"

definition pap_mailbox :: "parseinfo \<Rightarrow> nat \<Rightarrow> nat \<Rightarrow> (string \<times> nat) parse_result" where
  "pap_mailbox pai cbyte mx =
     (if bit (pai_typekey pai) 17 then pap_mailbox822 pai cbyte mx else pap_domain pai cbyte mx True)"

definition pa_rp :: "parseinfo \<Rightarrow> pstate \<Rightarrow> nat \<Rightarrow> nat \<Rightarrow> (rr \<times> pstate) parse_result" where
  "pa_rp pai ps cbyte mx =
     rbind (pap_mailbox pai cbyte mx) (\<lambda>(a, c). rbind (pap_domain pai c mx True) (\<lambda>(b, c').
       if c' \<noteq> mx then Some (Inl s_invaliddata) else Some (Inr (RR_strpair a b, ps))))"

text \<open>\<open>msw << 16\<close> is an int: from \<open>0x8000\<close> on it is negative, and is extended with ones when it
  becomes an unsigned long of 64 bits.\<close>

definition soa_word :: "nat \<Rightarrow> nat" where
  "soa_word v = (if v < 2 ^ 31 then v else v + (2 ^ 64 - 2 ^ 32))"

definition pa_soa :: "parseinfo \<Rightarrow> pstate \<Rightarrow> nat \<Rightarrow> nat \<Rightarrow> (rr \<times> pstate) parse_result" where
  "pa_soa pai ps cbyte mx =
     rbind (pap_domain pai cbyte mx (quoteok_anshost pai)) (\<lambda>(m, c).
     rbind (pap_mailbox pai c mx) (\<lambda>(r, c').
       if c' + 20 \<noteq> mx then Some (Inl s_invaliddata)
       else Some (Inr (RR_soa m r
              (map (\<lambda>i. soa_word (get_l (pai_dgram pai) (c' + 4 * i))) [0..<5]), ps))))"

subsection \<open>SRV\<close>

definition pa_srvraw :: "parseinfo \<Rightarrow> pstate \<Rightarrow> nat \<Rightarrow> nat \<Rightarrow> (rr \<times> pstate) parse_result" where
  "pa_srvraw pai ps cbyte mx =
     (if cbyte + 6 > mx then Some (Inl s_invaliddata)
      else rbind (pap_domain pai (cbyte + 6) mx (quoteok_anshost pai)) (\<lambda>(s, c).
        if c \<noteq> mx then Some (Inl s_invaliddata)
        else Some (Inr (RR_srvraw (get_w (pai_dgram pai) cbyte) (get_w (pai_dgram pai) (cbyte + 2))
               (get_w (pai_dgram pai) (cbyte + 4)) s, ps))))"

definition pa_srvha :: "parseinfo \<Rightarrow> pstate \<Rightarrow> nat \<Rightarrow> nat \<Rightarrow> (rr \<times> pstate) parse_step" where
  "pa_srvha pai ps cbyte mx =
     (if cbyte + 6 > mx then Some (Inl (s_invaliddata, ps))
      else rbind (pap_hostaddr pai ps (cbyte + 6) mx) (\<lambda>(ha, c, ps1).
        if c \<noteq> mx then Some (Inl (s_invaliddata, ps1))
        else Some (Inr (RR_srvha (get_w (pai_dgram pai) cbyte) (get_w (pai_dgram pai) (cbyte + 2))
               (get_w (pai_dgram pai) (cbyte + 4)) ha, ps1))))"

text \<open>Priority and weight are the same prefix of both kinds of record.\<close>

fun srv_priority :: "rr \<Rightarrow> nat" where
  "srv_priority (RR_srvraw p w _ _) = p"
| "srv_priority (RR_srvha p w _ _) = p"
| "srv_priority _ = 0"

fun srv_weight :: "rr \<Rightarrow> nat" where
  "srv_weight (RR_srvraw p w _ _) = w"
| "srv_weight (RR_srvha p w _ _) = w"
| "srv_weight _ = 0"

definition di_srv :: "(32 word \<times> 32 word) list \<Rightarrow> rr \<Rightarrow> rr \<Rightarrow> bool" where
  "di_srv sl a b = (srv_priority b < srv_priority a)"

text \<open>The search for the record that a random value selects; \<open>None\<close> is the failure of the
  assertion that it ends inside the array.\<close>

fun srv_search :: "nat \<Rightarrow> nat \<Rightarrow> rr list \<Rightarrow> nat option" where
  "srv_search runtotal randval [] = None"
| "srv_search runtotal randval (x # xs) =
     (if runtotal + srv_weight x < randval
      then map_option Suc (srv_search (runtotal + srv_weight x) randval xs)
      else Some 0)"

text \<open>\<open>arr\<close> is the array from \<open>workbegin\<close> on, \<open>n\<close> the number of records left in the group,
  \<open>rnd i\<close> the \<open>i\<close>-th value of the generator.\<close>

fun srv_group ::
    "(nat \<Rightarrow> nat) \<Rightarrow> nat \<Rightarrow> nat \<Rightarrow> nat \<Rightarrow> rr list \<Rightarrow> (rr list \<times> nat) option" where
  "srv_group rnd i 0 tot arr = Some (arr, i)"
| "srv_group rnd i (Suc 0) tot arr = Some (arr, i)"
| "srv_group rnd i (Suc (Suc n)) tot arr =
     (case srv_search 0 (rnd i mod (tot + 1)) arr of
        None \<Rightarrow> None
      | Some k \<Rightarrow>
          let arr1 = arr[0 := arr ! k, k := arr ! 0] in
          map_option (\<lambda>(rest, j). (hd arr1 # rest, j))
            (srv_group rnd (i + 1) (Suc n) (tot - srv_weight (arr ! k)) (tl arr1)))"

text \<open>What \<open>n\<close> counts at the head of the array: the records of its first priority.\<close>

definition srv_run :: "rr list \<Rightarrow> nat" where
  "srv_run arr = length (takeWhile (\<lambda>x. srv_priority x = srv_priority (hd arr)) arr)"

definition srv_total :: "rr list \<Rightarrow> nat" where
  "srv_total arr = sum_list (map srv_weight arr)"

lemma srv_search_bound: "srv_search rt r arr = Some k \<Longrightarrow> k < length arr"
  by (induction rt r arr arbitrary: k rule: srv_search.induct) (auto split: if_splits)

text \<open>One choice: the record at \<open>k\<close> changes places with the first one.\<close>

definition srv_swap :: "nat \<Rightarrow> rr list \<Rightarrow> rr list" where
  "srv_swap k arr = arr[0 := arr ! k, k := arr ! 0]"

lemma srv_group_step:
  assumes "srv_group rnd i (Suc (Suc n)) tot arr = Some (r, j)"
  obtains k rest where "srv_search 0 (rnd i mod (tot + 1)) arr = Some k" "k < length arr"
    "srv_group rnd (i + 1) (Suc n) (tot - srv_weight (arr ! k)) (tl (srv_swap k arr)) = Some (rest, j)"
    "r = arr ! k # rest"
proof -
  from assms obtain k rest where k: "srv_search 0 (rnd i mod (tot + 1)) arr = Some k"
    and r: "srv_group rnd (i + 1) (Suc n) (tot - srv_weight (arr ! k)) (tl (srv_swap k arr)) = Some (rest, j)"
      "r = hd (srv_swap k arr) # rest"
    by (auto simp: Let_def srv_swap_def split: option.splits)
  have "k < length arr" using k by (rule srv_search_bound)
  then have "hd (srv_swap k arr) = arr ! k"
    by (cases k; cases arr) (auto simp: srv_swap_def)
  with that k r \<open>k < length arr\<close> show ?thesis by simp
qed

lemma srv_group_length:
  "srv_group rnd i n tot arr = Some (r, j) \<Longrightarrow> length r = length arr"
proof (induction n arbitrary: i tot arr r)
  case (Suc n)
  show ?case
  proof (cases n)
    case 0
    then show ?thesis using Suc.prems by simp
  next
    case (Suc m)
    from srv_group_step [OF Suc.prems [unfolded Suc]] obtain k rest where
      "k < length arr" "r = arr ! k # rest"
      "srv_group rnd (i + 1) n (tot - srv_weight (arr ! k)) (tl (srv_swap k arr)) = Some (rest, j)"
      using Suc by metis
    then show ?thesis using Suc.IH by (fastforce simp: srv_swap_def)
  qed
qed simp

lemma srv_run_pos: "arr \<noteq> [] \<Longrightarrow> 0 < srv_run arr"
  by (cases arr) (simp_all add: srv_run_def)

function postsort_srv :: "(nat \<Rightarrow> nat) \<Rightarrow> nat \<Rightarrow> rr list \<Rightarrow> rr list option" where
  "postsort_srv rnd i arr =
     (if arr = [] then Some []
      else
        let n = srv_run arr in
        (case srv_group rnd i n (srv_total (take n arr)) arr of
           None \<Rightarrow> None
         | Some (arr1, j) \<Rightarrow>
             map_option (\<lambda>rest. take n arr1 @ rest) (postsort_srv rnd j (drop n arr1))))"
  by pat_completeness auto

termination
  by (relation "measure (\<lambda>(rnd, i, arr). length arr)")
    (auto dest: srv_group_length simp: srv_run_pos)

declare postsort_srv.simps [simp del]

subsection \<open>Opaque data\<close>

definition pa_opaque :: "parseinfo \<Rightarrow> pstate \<Rightarrow> nat \<Rightarrow> nat \<Rightarrow> (rr \<times> pstate) parse_result" where
  "pa_opaque pai ps cbyte mx =
     Some (Inr (RR_byteblock (label_at (pai_dgram pai) (mx - cbyte) cbyte), ps))"

fun opaque_groups :: "string \<Rightarrow> string" where
  "opaque_groups (a # b # c # d # p) =
     '' '' @ hex2 (cc a) @ hex2 (cc b) @ hex2 (cc c) @ hex2 (cc d) @ opaque_groups p"
| "opaque_groups p = concat (map (\<lambda>c. '' '' @ hex2 (cc c)) p)"

subsection \<open>Printing\<close>

text \<open>Each printer is called on records of its own kind only; on another it gives the empty
  text.\<close>

fun cs_txt :: "rr \<Rightarrow> string" where
  "cs_txt (RR_manyistr ss) =
     concat (map (\<lambda>i. (if i = 0 then [] else '' '') @ csp_qstring (ss ! i)) [0..<length ss])"
| "cs_txt _ = []"

fun cs_hinfo :: "rr \<Rightarrow> string" where
  "cs_hinfo (RR_intstrpair a b) = csp_qstring a @ '' '' @ csp_qstring b"
| "cs_hinfo _ = []"

fun cs_inaddr :: "rr \<Rightarrow> string" where
  "cs_inaddr (RR_inaddr a) = inet_ntoa a"
| "cs_inaddr _ = []"

fun cs_addr :: "rr \<Rightarrow> string" where
  "cs_addr (RR_addr a) = csp_addr a"
| "cs_addr _ = []"

fun cs_domain :: "rr \<Rightarrow> string" where
  "cs_domain (RR_str s) = csp_domain s"
| "cs_domain _ = []"

fun cs_hostaddr :: "rr \<Rightarrow> string" where
  "cs_hostaddr (RR_hostaddr h) = csp_hostaddr h"
| "cs_hostaddr _ = []"

fun cs_inthostaddr :: "rr \<Rightarrow> string" where
  "cs_inthostaddr (RR_inthostaddr i h) = dec i @ '' '' @ csp_hostaddr h"
| "cs_inthostaddr _ = []"

fun cs_inthost :: "rr \<Rightarrow> string" where
  "cs_inthost (RR_intstr i s) = dec i @ '' '' @ csp_domain s"
| "cs_inthost _ = []"

definition csp_mailbox :: "string \<Rightarrow> string" where
  "csp_mailbox m = csp_domain m"

fun cs_rp :: "rr \<Rightarrow> string" where
  "cs_rp (RR_strpair a b) = csp_mailbox a @ '' '' @ csp_domain b"
| "cs_rp _ = []"

fun cs_soa :: "rr \<Rightarrow> string" where
  "cs_soa (RR_soa m r vs) =
     csp_domain m @ '' '' @ csp_mailbox r @ concat (map (\<lambda>v. '' '' @ dec v) vs)"
| "cs_soa _ = []"

definition csp_srv_begin :: "nat \<Rightarrow> nat \<Rightarrow> nat \<Rightarrow> string" where
  "csp_srv_begin p w q = dec p @ '' '' @ dec w @ '' '' @ dec q @ '' ''"

fun cs_srvraw :: "rr \<Rightarrow> string" where
  "cs_srvraw (RR_srvraw p w q s) = csp_srv_begin p w q @ csp_domain s"
| "cs_srvraw _ = []"

fun cs_srvha :: "rr \<Rightarrow> string" where
  "cs_srvha (RR_srvha p w q h) = csp_srv_begin p w q @ csp_hostaddr h"
| "cs_srvha _ = []"

fun cs_opaque :: "rr \<Rightarrow> string" where
  "cs_opaque (RR_byteblock p) = [BACKSLASH] @ ''# '' @ dec (length p) @ opaque_groups p"
| "cs_opaque _ = []"

subsection \<open>The table of record types\<close>

text \<open>A row has the key, the two names, the parser, the comparison (if records are sorted), the
  printer, whether the labels of a query are those of a service, and whether the sorted answer
  is reordered by \<open>postsort_srv\<close>.\<close>

record typeinfo =
  ti_key :: nat
  ti_rrtname :: "string option"
  ti_fmtname :: "string option"
  ti_parse :: "parseinfo \<Rightarrow> pstate \<Rightarrow> nat \<Rightarrow> nat \<Rightarrow> (rr \<times> pstate) parse_step"
  ti_diff :: "((32 word \<times> 32 word) list \<Rightarrow> rr \<Rightarrow> rr \<Rightarrow> bool) option"
  ti_print :: "rr \<Rightarrow> string"
  ti_srv :: bool

definition plain_type ::
    "nat \<Rightarrow> string \<Rightarrow> string option \<Rightarrow>
     (parseinfo \<Rightarrow> pstate \<Rightarrow> nat \<Rightarrow> nat \<Rightarrow> (rr \<times> pstate) parse_step) \<Rightarrow>
     ((32 word \<times> 32 word) list \<Rightarrow> rr \<Rightarrow> rr \<Rightarrow> bool) option \<Rightarrow> (rr \<Rightarrow> string) \<Rightarrow> typeinfo" where
  "plain_type k n f p d c =
     \<lparr>ti_key = k, ti_rrtname = Some n, ti_fmtname = f, ti_parse = p, ti_diff = d, ti_print = c,
      ti_srv = False\<rparr>"

definition typeinfos :: "typeinfo list" where
  "typeinfos =
    [plain_type r_a ''A'' None (keeping pa_inaddr) (Some di_addr) cs_inaddr,
     plain_type r_ns_raw ''NS'' (Some ''raw'') (keeping pa_host_raw) None cs_domain,
     plain_type r_cname ''CNAME'' None (keeping pa_dom_raw) None cs_domain,
     plain_type r_soa_raw ''SOA'' (Some ''raw'') (keeping pa_soa) None cs_soa,
     plain_type r_ptr_raw ''PTR'' (Some ''raw'') (keeping pa_host_raw) None cs_domain,
     plain_type r_hinfo ''HINFO'' None (keeping pa_hinfo) None cs_hinfo,
     plain_type r_mx_raw ''MX'' (Some ''raw'') (keeping pa_mx_raw) (Some di_mx_raw) cs_inthost,
     plain_type r_txt ''TXT'' None (keeping pa_txt) None cs_txt,
     plain_type r_rp_raw ''RP'' (Some ''raw'') (keeping pa_rp) None cs_rp,
     (plain_type r_srv_raw ''SRV'' (Some ''raw'') (keeping pa_srvraw) (Some di_srv) cs_srvraw)\<lparr>ti_srv := True\<rparr>,
     plain_type r_addr ''A'' (Some ''addr'') (keeping pa_addr) (Some di_addr) cs_addr,
     plain_type r_ns ''NS'' (Some ''+addr'') pa_hostaddr (Some di_hostaddr) cs_hostaddr,
     plain_type r_ptr ''PTR'' (Some ''checked'') pa_ptr None cs_domain,
     plain_type r_mx ''MX'' (Some ''+addr'') pa_mx (Some di_mx) cs_inthostaddr,
     (plain_type r_srv ''SRV'' (Some ''+addr'') pa_srvha (Some di_srv) cs_srvha)\<lparr>ti_srv := True\<rparr>,
     plain_type r_soa ''SOA'' (Some ''822'') (keeping pa_soa) None cs_soa,
     plain_type r_rp ''RP'' (Some ''822'') (keeping pa_rp) None cs_rp]"

definition typeinfo_unknown :: typeinfo where
  "typeinfo_unknown =
     \<lparr>ti_key = r_unknown, ti_rrtname = None, ti_fmtname = Some ''unknown'', ti_parse = keeping pa_opaque,
      ti_diff = None, ti_print = cs_opaque, ti_srv = False\<rparr>"

definition ti_compar :: "nat \<Rightarrow> typeinfo \<Rightarrow> int" where
  "ti_compar type ti = int type - int (ti_key ti)"

definition findtype :: "nat \<Rightarrow> typeinfo option" where
  "findtype type =
     (if bit type 18 then Some typeinfo_unknown
      else bsearch (ti_compar type) typeinfos 0 (length typeinfos))"

lemma typeinfos_sorted: "sorted_wrt (\<lambda>x y. ti_key x < ti_key y) typeinfos"
  by (simp add: typeinfos_def plain_type_def rrtypes)

interpretation typeinfo: bsearch_table "ti_compar type" typeinfos for type
proof
  fix i j
  assume "i < j" "j < length typeinfos" "0 \<le> ti_compar type (typeinfos ! j)"
  then show "0 < ti_compar type (typeinfos ! i)"
    using sorted_pairs [OF typeinfos_sorted, of i j] by (simp add: ti_compar_def)
qed

lemma findtype_find:
  "findtype type = (if bit type 18 then Some typeinfo_unknown
                    else find (\<lambda>ti. ti_key ti = type) typeinfos)"
proof -
  have "(\<lambda>ti. ti_compar type ti = 0) = (\<lambda>ti. ti_key ti = type)"
    by (auto simp: ti_compar_def fun_eq_iff)
  then show ?thesis by (simp add: findtype_def typeinfo.bsearch_find)
qed

subsection \<open>The order of SRV records\<close>

lemma srv_search_within:
  "0 < n \<Longrightarrow> n \<le> length arr \<Longrightarrow> r \<le> rt + srv_total (take n arr) \<Longrightarrow>
   \<exists>k < n. srv_search rt r arr = Some k"
proof (induction rt r arr arbitrary: n rule: srv_search.induct)
  case (2 rt r x xs)
  show ?case
  proof (cases "rt + srv_weight x < r")
    case True
    obtain m where n: "n = Suc m" using "2.prems"(1) by (cases n) auto
    with "2.prems" True have "0 < m" by (cases m) (simp_all add: srv_total_def)
    then obtain k where "k < m" "srv_search (rt + srv_weight x) r xs = Some k"
      using "2.IH" [OF True, of m] "2.prems" n by (auto simp: srv_total_def)
    then show ?thesis using True n by simp
  next
    case False
    then show ?thesis using "2.prems" by simp
  qed
qed simp

text \<open>A record is chosen by the random values between the weights before it and those up to it.\<close>

lemma srv_search_range:
  "srv_search rt r arr = Some k \<longleftrightarrow>
   k < length arr \<and> (k = 0 \<or> rt + srv_total (take k arr) < r) \<and> r \<le> rt + srv_total (take (Suc k) arr)"
proof (induction rt r arr arbitrary: k rule: srv_search.induct)
  case (2 rt r x xs)
  show ?case
  proof (cases "rt + srv_weight x < r")
    case True
    then show ?thesis
      using "2.IH" [OF True, of "k - 1"] by (cases k) (auto simp: srv_total_def add.assoc)
  next
    case False
    then show ?thesis by (cases k) (auto simp: srv_total_def)
  qed
qed simp

lemma mset_srv_swap_take:
  assumes "k < n" "n \<le> length arr"
  shows "mset (take n (srv_swap k arr)) = mset (take n arr)"
    "drop n (srv_swap k arr) = drop n arr" "length (srv_swap k arr) = length arr"
    "srv_swap k arr = arr ! k # tl (srv_swap k arr)"
proof -
  have "take n (srv_swap k arr) = (take n arr)[0 := take n arr ! k, k := take n arr ! 0]"
    using assms by (simp add: srv_swap_def take_update_swap)
  then show "mset (take n (srv_swap k arr)) = mset (take n arr)"
    using mset_swap [of k "take n arr" 0] assms by simp
  show "drop n (srv_swap k arr) = drop n arr" "length (srv_swap k arr) = length arr"
    using assms by (simp_all add: srv_swap_def)
  show "srv_swap k arr = arr ! k # tl (srv_swap k arr)"
    using assms by (cases arr; cases k) (auto simp: srv_swap_def)
qed

lemma srv_group_spec:
  "n \<le> length arr \<Longrightarrow> tot = srv_total (take n arr) \<Longrightarrow>
   \<exists>r j. srv_group rnd i n tot arr = Some (r, j) \<and> mset (take n r) = mset (take n arr) \<and>
     drop n r = drop n arr"
proof (induction n arbitrary: i tot arr)
  case (Suc n)
  show ?case
  proof (cases n)
    case 0
    then show ?thesis by simp
  next
    case m: (Suc m)
    have "rnd i mod (tot + 1) \<le> tot" by simp
    then obtain k where k: "k < Suc n" "srv_search 0 (rnd i mod (tot + 1)) arr = Some k"
      using srv_search_within [of "Suc n" arr "rnd i mod (tot + 1)" 0] Suc.prems by auto
    note sw = mset_srv_swap_take [OF k(1) Suc.prems(1)]
    let ?t = "tl (srv_swap k arr)"
    have t: "take (Suc n) (srv_swap k arr) = arr ! k # take n ?t"
      "drop (Suc n) (srv_swap k arr) = drop n ?t"
      using sw(4) by (metis take_Suc_Cons drop_Suc_Cons)+
    have w: "srv_total (take (Suc n) arr) = srv_weight (arr ! k) + srv_total (take n ?t)"
      using arg_cong [OF sw(1), of "\<lambda>M. sum_mset (image_mset srv_weight M)"] unfolding t
      by (simp add: srv_total_def sum_mset_sum_list flip: mset_map)
    obtain r j where r: "srv_group rnd (i + 1) n (tot - srv_weight (arr ! k)) ?t = Some (r, j)"
      "mset (take n r) = mset (take n ?t)" "drop n r = drop n ?t"
    proof -
      have "n \<le> length ?t" using sw(3) Suc.prems(1) by simp
      moreover have "tot - srv_weight (arr ! k) = srv_total (take n ?t)" using w Suc.prems(2) by simp
      ultimately show ?thesis using Suc.IH [of ?t _ "i + 1"] that by blast
    qed
    have "srv_group rnd i (Suc n) tot arr = Some (arr ! k # r, j)"
      using k(2) r(1) sw(4) m by (simp add: Let_def flip: srv_swap_def) (metis list.sel(1))
    moreover have "mset (take (Suc n) (arr ! k # r)) = mset (take (Suc n) arr)"
      using sw(1) r(2) unfolding t by simp
    ultimately show ?thesis using r(3) sw(2) t(2) by auto
  qed
qed simp

lemma map_const_mset:
  "mset xs = mset ys \<Longrightarrow> \<forall>y \<in> set ys. f y = c \<Longrightarrow> map f xs = map f ys"
proof -
  assume a: "mset xs = mset ys" "\<forall>y \<in> set ys. f y = c"
  then have "length xs = length ys" "set xs = set ys" by (metis size_mset, metis set_mset_mset)
  with a(2) show ?thesis by (metis map_replicate_const map_cong)
qed

lemma postsort_srv_rearranges:
  "\<exists>out. postsort_srv rnd i arr = Some out \<and> mset out = mset arr \<and>
     map srv_priority out = map srv_priority arr"
proof (induction "length arr" arbitrary: i arr rule: less_induct)
  case less
  show ?case
  proof (cases "arr = []")
    case True
    then show ?thesis by (simp add: postsort_srv.simps)
  next
    case False
    let ?n = "srv_run arr"
    have n: "0 < ?n" "?n \<le> length arr"
      using srv_run_pos [OF False] by (auto simp: srv_run_def length_takeWhile_le)
    obtain r j where r: "srv_group rnd i ?n (srv_total (take ?n arr)) arr = Some (r, j)"
      "mset (take ?n r) = mset (take ?n arr)" "drop ?n r = drop ?n arr"
      using srv_group_spec [OF n(2) refl] by blast
    obtain out where out: "postsort_srv rnd j (drop ?n arr) = Some out"
      "mset out = mset (drop ?n arr)" "map srv_priority out = map srv_priority (drop ?n arr)"
    proof -
      have "length (drop ?n arr) < length arr" using n by simp
      then show ?thesis using less.hyps that by blast
    qed
    have "take ?n arr = takeWhile (\<lambda>x. srv_priority x = srv_priority (hd arr)) arr"
      unfolding srv_run_def by (rule takeWhile_eq_take [symmetric])
    then have "map srv_priority (take ?n r) = map srv_priority (take ?n arr)"
      by (intro map_const_mset [OF r(2), of _ "srv_priority (hd arr)"]) (auto dest: set_takeWhileD)
    moreover have "postsort_srv rnd i arr = Some (take ?n r @ out)"
      using r out(1) False by (subst postsort_srv.simps) (simp add: Let_def)
    ultimately show ?thesis
      using r(2) out by (metis append_take_drop_id map_append mset_append)
  qed
qed

text \<open>C37: \<open>postsort_srv\<close> always ends with its array rearranged: the assertion that the search for
  the selected record stays inside the array never fails, the records are a permutation of the
  ones before, and the sequence of their priorities is unchanged.\<close>

theorem postsort_srv_permutes:
  "\<exists>out. postsort_srv rnd i arr = Some out \<and> mset out = mset arr \<and>
     map srv_priority out = map srv_priority arr"
  by (rule postsort_srv_rearranges)

text \<open>Of the \<open>total + 1\<close> values that the random number can take, as many select a record as
  its weight says, and one more if it is the first of its group: a record of weight 0 that does
  not happen to be first is never selected, although RFC 2782, which the comment cites, asks to
  put the records of weight 0 first so that they have a chance.\<close>

theorem srv_search_weights:
  "k < length arr \<Longrightarrow>
   card {v. v \<le> srv_total arr \<and> srv_search 0 v arr = Some k} =
   srv_weight (arr ! k) + (if k = 0 then 1 else 0)"
proof -
  assume k: "k < length arr"
  have up: "srv_total (take (Suc k) arr) = srv_total (take k arr) + srv_weight (arr ! k)"
    using k by (simp add: srv_total_def take_Suc_conv_app_nth)
  have "srv_total arr = srv_total (take (Suc k) arr) + srv_total (drop (Suc k) arr)"
    by (metis append_take_drop_id map_append srv_total_def sum_list_append)
  then have "{v. v \<le> srv_total arr \<and> srv_search 0 v arr = Some k} =
      (if k = 0 then {..srv_total (take (Suc k) arr)}
       else {srv_total (take k arr)<..srv_total (take (Suc k) arr)})"
    using k by (auto simp: srv_search_range)
  then show ?thesis using up by (cases k) (simp_all add: srv_total_def)
qed

lemma srv_search_weights_witness:
  "card {v. v \<le> srv_total [RR_srvraw 1 3 80 ''a'', RR_srvraw 1 0 80 ''b'', RR_srvraw 1 2 80 ''c''] \<and>
     srv_search 0 v [RR_srvraw 1 3 80 ''a'', RR_srvraw 1 0 80 ''b'', RR_srvraw 1 2 80 ''c''] = Some 1} = 0"
  using srv_search_weights [of 1 "[RR_srvraw 1 3 80 ''a'', RR_srvraw 1 0 80 ''b'', RR_srvraw 1 2 80 ''c'']"]
  by simp

subsection \<open>Texts, addresses and numbers\<close>

text \<open>The lookup of a record type, a binary search, finds the row of the table with that key and
  no other; \<open>None\<close> means that there is none.\<close>

theorem findtype_correct:
  "findtype type =
   (if bit type 18 then Some typeinfo_unknown else find (\<lambda>ti. ti_key ti = type) typeinfos)"
  by (rule findtype_find)

text \<open>The class of a status, found by binary search over the upper bounds, is the one whose
  range holds its code; above the last bound there is none.\<close>

theorem adns_errtypeabbrev_ranges:
  "adns_errtypeabbrev n =
   (if n = 0 then Some ''ok'' else if n \<le> max_localfail then Some ''localfail''
    else if n \<le> max_remotefail then Some ''remotefail'' else if n \<le> max_tempfail then Some ''tempfail''
    else if n \<le> max_misconfig then Some ''misconfig'' else if n \<le> max_misquery then Some ''misquery''
    else if n \<le> max_permfail then Some ''permfail'' else None)"
  unfolding adns_errtypeabbrev_def stinfo.bsearch_find
  by (simp add: stinfo_ranges_def stinfos_def sti_compar_def status_maxes upt_rec)

lemma search_sortlist_le: "search_sortlist sl a \<le> length sl"
  by (induction sl a rule: search_sortlist.induct) auto

text \<open>The addresses of a host are put in the order of the sort list: the result of the
  insertion sort is the stable sort by the index of the first entry that matches.\<close>

theorem addrs_sorted:
  "isort (dip_inaddr sl) addrs = sort_key (search_sortlist sl) addrs"
proof -
  have "dip_inaddr sl = (\<lambda>a b. search_sortlist sl b < search_sortlist sl a)"
    by (auto simp: dip_inaddr_def fun_eq_iff)
  then show ?thesis by (simp add: isort_sort_key)
qed

subsection \<open>Strings of a record\<close>

definition enc_strings :: "string list \<Rightarrow> string" where
  "enc_strings ss = concat (map (\<lambda>s. chr (length s) # s) ss)"

lemma enc_strings_simps [simp]:
  "enc_strings [] = []" "enc_strings (s # ss) = chr (length s) # s @ enc_strings ss"
  by (simp_all add: enc_strings_def)

lemma enc_strings_inj:
  "enc_strings ss = enc_strings ts \<Longrightarrow> list_all (\<lambda>s. length s < 256) ss \<Longrightarrow>
   list_all (\<lambda>s. length s < 256) ts \<Longrightarrow> ss = ts"
proof (induction ss arbitrary: ts)
  case Nil
  then show ?case by (cases ts) simp_all
next
  case (Cons s ss)
  then obtain t ts' where ts: "ts = t # ts'" by (cases ts) simp_all
  have l: "length s < 256" "length t < 256" using Cons.prems(2,3) ts by simp_all
  have e: "cc (chr (length s)) = cc (chr (length t))" using Cons.prems(1) ts by simp
  have "length s = length t"
    by (rule e [unfolded cc_chr [OF l(1)] cc_chr [OF l(2)]])
  then show ?case using Cons ts by simp
qed

lemma pap_qstring_enc:
  "drop c d = chr (length s) # s @ r \<Longrightarrow> length s < 256 \<Longrightarrow> c + 1 + length s \<le> mx \<Longrightarrow>
   pap_qstring d c mx = Inr (s, c + 1 + length s)"
proof -
  assume d: "drop c d = chr (length s) # s @ r" and l: "length s < 256" "c + 1 + length s \<le> mx"
  have c: "c < length d" using d by (metis drop_all list.distinct(1) not_le_imp_less)
  then have "get_b d c = length s" "drop (c + 1) d = s @ r"
    using d l(1) by (simp_all add: get_b_def Cons_nth_drop_Suc [symmetric])
  then show ?thesis using l(2) by (simp add: pap_qstring_def label_at_def)
qed

lemma label_at_split: "a \<le> n \<Longrightarrow> label_at d n c = label_at d a c @ label_at d (n - a) (c + a)"
  unfolding label_at_def by (metis add.commute drop_drop le_add_diff_inverse take_add)

lemma label_at_Suc: "c < length d \<Longrightarrow> label_at d (Suc n) c = d ! c # label_at d n (Suc c)"
  by (simp add: label_at_def Cons_nth_drop_Suc [symmetric])

lemma length_label_at [simp]: "length (label_at d n c) = min n (length d - c)"
  by (simp add: label_at_def min.commute)

text \<open>Both loops of \<open>pa_txt\<close> agree: what the first one counts, the second one reads.\<close>

lemma txt_count_read:
  "txt_count d c mx tc = (mx, n) \<Longrightarrow> c \<le> mx \<Longrightarrow> mx \<le> length d \<Longrightarrow>
   tc \<le> n \<and> (\<exists>ss. txt_read (n - tc) d c mx = Inr (ss, mx) \<and> length ss = n - tc \<and>
     label_at d (mx - c) c = enc_strings ss \<and> list_all (\<lambda>s. length s < 256) ss)"
proof (induction d c mx tc rule: txt_count.induct)
  case (1 d c mx tc)
  show ?case
  proof (cases "c < mx")
    case False
    then show ?thesis
      using "1.prems" by (subst (asm) txt_count.simps) (simp add: label_at_def)
  next
    case True
    let ?l = "get_b d c" and ?c = "c + 1 + get_b d c"
    have st: "txt_count d ?c mx (tc + 1) = (mx, n)"
      using "1.prems"(1) True by (subst (asm) txt_count.simps) simp
    have le: "?c \<le> mx"
    proof (rule ccontr)
      assume "\<not> ?c \<le> mx"
      with st show False by (subst (asm) txt_count.simps) simp
    qed
    obtain ss where ss: "tc + 1 \<le> n" "txt_read (n - (tc + 1)) d ?c mx = Inr (ss, mx)"
      "length ss = n - (tc + 1)" "label_at d (mx - ?c) ?c = enc_strings ss"
      "list_all (\<lambda>s. length s < 256) ss"
      using "1.IH" [OF True st le "1.prems"(3)] by blast
    let ?s = "label_at d ?l (c + 1)"
    have ls: "length ?s = ?l" using le "1.prems"(3) by (simp add: label_at_def)
    have "pap_qstring d c mx = Inr (?s, ?c)" using True le by (simp add: pap_qstring_def Let_def)
    moreover have "n - tc = Suc (n - (tc + 1))" using ss(1) by simp
    ultimately have "txt_read (n - tc) d c mx = Inr (?s # ss, mx)" using ss(2) by simp
    moreover have "label_at d (mx - c) c = chr (length ?s) # ?s @ enc_strings ss"
    proof -
      have "label_at d (Suc (mx - (c + 1))) c = d ! c # label_at d (mx - (c + 1)) (Suc c)"
        using True "1.prems"(3) by (intro label_at_Suc) simp
      moreover have "Suc (mx - (c + 1)) = mx - c" using True by simp
      moreover have "label_at d (mx - (c + 1)) (Suc c) = ?s @ label_at d (mx - ?c) ?c"
        using label_at_split [of ?l "mx - (c + 1)" d "c + 1"] le by simp
      ultimately show ?thesis using ss(4) ls by (simp add: get_b_def)
    qed
    ultimately show ?thesis using ss ls by (auto simp: get_b_less)
  qed
qed

lemma txt_count_enc:
  "label_at d (mx - c) c = enc_strings ss \<Longrightarrow> list_all (\<lambda>s. length s < 256) ss \<Longrightarrow> c \<le> mx \<Longrightarrow>
   mx \<le> length d \<Longrightarrow> txt_count d c mx tc = (mx, tc + length ss)"
proof (induction ss arbitrary: c tc)
  case Nil
  then have "c = mx" by (auto simp: label_at_def)
  then show ?case by (subst txt_count.simps) simp
next
  case (Cons s ss)
  have "length (label_at d (mx - c) c) = mx - c" using Cons.prems(4) by simp
  then have l: "mx - c = Suc (length s + length (enc_strings ss))" using Cons.prems(1) by simp
  have "c < length d" using l Cons.prems(4) by simp
  from label_at_Suc [OF this, of "length s + length (enc_strings ss)"]
  have b: "d ! c = chr (length s)"
    "label_at d (length s + length (enc_strings ss)) (Suc c) = s @ enc_strings ss"
    using Cons.prems(1) l by simp_all
  have "length (label_at d (length s) (Suc c)) = length s" using l Cons.prems(4) by simp
  moreover have "mx - (c + 1 + length s) = length (enc_strings ss)" using l by simp
  ultimately have "label_at d (mx - (c + 1 + length s)) (c + 1 + length s) = enc_strings ss"
    using label_at_split [of "length s" "length s + length (enc_strings ss)" d "Suc c"] b(2) l by simp
  then have "txt_count d (c + 1 + length s) mx (tc + 1) = (mx, tc + 1 + length ss)"
    using Cons l by (intro Cons.IH) simp_all
  moreover have "get_b d c = length s" using b(1) Cons.prems(2) by (simp add: get_b_def)
  moreover have "c < mx" using l by simp
  ultimately show ?case by (subst txt_count.simps) simp
qed

text \<open>The data of a TXT record are read completely: the parser accepts them exactly when they
  are strings, at least one, each after a byte with its length, and returns those strings. In
  particular the assertion at its end never fails.\<close>

theorem pa_txt_strings:
  assumes "cbyte \<le> mx" "mx \<le> length (pai_dgram pai)"
  shows "pa_txt pai ps cbyte mx \<noteq> None \<and>
    (pa_txt pai ps cbyte mx = Some (Inr (RR_manyistr ss, ps)) \<longleftrightarrow>
     ss \<noteq> [] \<and> list_all (\<lambda>s. length s < 256) ss \<and>
     label_at (pai_dgram pai) (mx - cbyte) cbyte = enc_strings ss)"
proof -
  let ?d = "pai_dgram pai"
  show ?thesis
  proof (cases "cbyte < mx \<and> fst (txt_count ?d cbyte mx 0) = mx")
    case True
    then obtain n where n: "txt_count ?d cbyte mx 0 = (mx, n)" by (cases "txt_count ?d cbyte mx 0") auto
    obtain ss' where r: "txt_read n ?d cbyte mx = Inr (ss', mx)" "length ss' = n"
      "label_at ?d (mx - cbyte) cbyte = enc_strings ss'" "list_all (\<lambda>s. length s < 256) ss'"
      using txt_count_read [OF n assms] by auto
    have u: "ss' \<noteq> []"
      using arg_cong [OF r(3), of length] True assms by auto
    then have p: "pa_txt pai ps cbyte mx = Some (Inr (RR_manyistr ss', ps))"
      using True n r by (auto simp: pa_txt_def)
    have "ss = ss'" if "list_all (\<lambda>s. length s < 256) ss" "label_at ?d (mx - cbyte) cbyte = enc_strings ss"
    proof -
      have "enc_strings ss = enc_strings ss'" using that r(3) by simp
      then show ?thesis using that(1) r(4) by (rule enc_strings_inj)
    qed
    then show ?thesis using p u r by auto
  next
    case False
    then have "pa_txt pai ps cbyte mx = Some (Inl s_invaliddata)"
      by (auto simp: pa_txt_def split: prod.splits)
    moreover have "\<not> (ss \<noteq> [] \<and> list_all (\<lambda>s. length s < 256) ss \<and>
        label_at ?d (mx - cbyte) cbyte = enc_strings ss)"
    proof
      assume e: "ss \<noteq> [] \<and> list_all (\<lambda>s. length s < 256) ss \<and>
        label_at ?d (mx - cbyte) cbyte = enc_strings ss"
      have "enc_strings ss \<noteq> []" using e by (cases ss) simp_all
      then have "mx - cbyte \<noteq> 0" using e by (metis label_at_def take0)
      then have "cbyte < mx" by simp
      moreover have "txt_count ?d cbyte mx 0 = (mx, 0 + length ss)"
        using e assms by (intro txt_count_enc) simp_all
      ultimately show False using False by simp
    qed
    ultimately show ?thesis by simp
  qed
qed

lemma pa_txt_strings_witness:
  "let pai = \<lparr>pai_dgram = [CHR 0x01, CHR ''a'', CHR 0x00], pai_nsstart = 0, pai_nscount = 0,
       pai_arcount = 0, pai_now = 0, pai_flags = qf_none, pai_typekey = r_txt, pai_query = [],
       pai_sortlist = [], pai_slot = 0, pai_avail = (\<lambda>_. 0)\<rparr>;
     ps = \<lparr>ps_expires = 0, ps_nextid = 0, ps_children = [], ps_ptr = None\<rparr>
   in pa_txt pai ps 0 3 = Some (Inr (RR_manyistr [''a'', []], ps))"
proof -
  let ?pai = "\<lparr>pai_dgram = [CHR 0x01, CHR ''a'', CHR 0x00], pai_nsstart = 0, pai_nscount = 0,
       pai_arcount = 0, pai_now = 0, pai_flags = qf_none, pai_typekey = r_txt, pai_query = [],
       pai_sortlist = [], pai_slot = 0, pai_avail = (\<lambda>_. 0)\<rparr>"
  have "label_at (pai_dgram ?pai) (3 - 0) 0 = enc_strings [''a'', []]"
    by code_simp
  then show ?thesis using pa_txt_strings [of 0 3 ?pai _ "[''a'', []]"] by simp
qed

subsection \<open>Reverse names\<close>

lemma dec_hd: "10 \<le> n \<Longrightarrow> hd (dec n) \<noteq> CHR ''0''"
proof (induction n rule: dec.induct)
  case (1 n)
  have "dec n = dec (n div 10) @ [digit_chr (n mod 10)]" using "1.prems" by (subst dec.simps) simp
  then have e: "hd (dec n) = hd (dec (n div 10))" by (simp add: dec_nonempty)
  show ?case
  proof (cases "10 \<le> n div 10")
    case True
    then show ?thesis using 1 e by simp
  next
    case False
    then have "digit_val (hd (dec (n div 10))) \<noteq> 0"
      using "1.prems" by (subst dec.simps) simp
    then show ?thesis using e by (auto simp: digit_val_def)
  qed
qed

lemma strtoul_byte_dec: "strtoul_byte (dec n) = (n mod 256, [])"
proof -
  obtain c s where d: "dec n = c # s" using dec_nonempty [of n] by (cases "dec n") auto
  have c: "is_digit c" using dec_all_digits [of n] d by simp
  then have "\<not> is_space c" "c \<noteq> CHR ''-''" "c \<noteq> CHR ''+''" by (auto simp: is_digit_def is_space_def)
  then have "dropWhile is_space (dec n) = dec n" "hd (dec n) \<noteq> CHR ''-''" "hd (dec n) \<noteq> CHR ''+''"
    using d by simp_all
  moreover have tw: "takeWhile is_digit (dec n) = dec n" "dropWhile is_digit (dec n) = []"
    using dec_all_digits [of n] by (simp_all add: takeWhile_eq_all_conv dropWhile_eq_Nil_conv)
  ultimately show ?thesis
    by (simp add: strtoul_byte_def Let_def dec_nonempty nat_mod_distrib tw)
qed

lemma ptr_byte_dec: "n < 1000 \<Longrightarrow> ptr_byte (dec n) = Some (n mod 256)"
proof -
  assume n: "n < 1000"
  have "length (dec n) \<le> 3" using dec_length_le [of 3 n] n by simp
  moreover have "length (dec n) > 1 \<Longrightarrow> hd (dec n) \<noteq> CHR ''0''"
    using dec_hd [of n] by (cases "10 \<le> n") (subst (asm) dec.simps, auto)+
  ultimately show ?thesis
    by (auto simp: ptr_byte_def strtoul_byte_dec dec_nonempty at_nul_def)
qed

text \<open>The value of a label is only bounded by its three digits, and stored in a byte.\<close>

lemma ptr_query_addr_wraps:
  "a < 1000 \<Longrightarrow> b < 1000 \<Longrightarrow> c < 1000 \<Longrightarrow> d < 1000 \<Longrightarrow>
   ptr_query_addr [dec a, dec b, dec c, dec d, ''in-addr'', ''arpa''] =
   Some (of_nat ((d mod 256) * 2 ^ 24 + (c mod 256) * 2 ^ 16 + (b mod 256) * 2 ^ 8 + a mod 256))"
  by (simp add: ptr_query_addr_def ptr_byte_dec)

definition reverse_labels :: "32 word \<Rightarrow> string list" where
  "reverse_labels w =
     (let n = unat w in
      [dec (n mod 256), dec (n div 2 ^ 8 mod 256), dec (n div 2 ^ 16 mod 256), dec (n div 2 ^ 24)]
        @ [''in-addr'', ''arpa''])"

lemma bytes_of_32:
  "n div 16777216 * 16777216 + n div 65536 mod 256 * 65536 + n div 256 mod 256 * 256 + n mod 256 = (n::nat)"
proof -
  have "n div 65536 = n div 16777216 * 256 + n div 65536 mod 256"
    "n div 256 = n div 65536 * 256 + n div 256 mod 256"
    using div_mod_decomp [of "n div 65536" 256] div_mod_decomp [of "n div 256" 256]
    by (simp_all add: div_mult2_eq [symmetric])
  then show ?thesis using div_mod_decomp [of n 256] by linarith
qed

text \<open>The name under \<open>in-addr.arpa\<close> of an address, as adns and larbin print it, is read back as
  that address by the check of a PTR query. (Labels of three digits above 255 are accepted too
  and wrap, as \<open>ptr_query_addr_wraps\<close> shows.)\<close>

theorem ptr_query_addr_reverse:
  "ptr_query_addr (reverse_labels w) = Some w"
proof -
  let ?n = "unat w"
  have "?n < 2 ^ 32" using unsigned_less [of w] by simp
  then have "?n div 2 ^ 24 < 256" by (simp add: less_mult_imp_div_less)
  then have "ptr_query_addr (reverse_labels w) =
      Some (of_nat (?n div 2 ^ 24 * 2 ^ 24 + ?n div 2 ^ 16 mod 256 * 2 ^ 16 + ?n div 2 ^ 8 mod 256 * 2 ^ 8 + ?n mod 256))"
    using ptr_query_addr_wraps [of "?n mod 256" "?n div 2 ^ 8 mod 256" "?n div 2 ^ 16 mod 256" "?n div 2 ^ 24"]
    by (simp add: reverse_labels_def Let_def less_le_trans [OF mod_less_divisor])
  then show ?thesis using bytes_of_32 [of ?n] by simp
qed

subsection \<open>Numbers of an SOA record\<close>

text \<open>\<open>cs_soa\<close> prints each number into an array of 20 characters. A number of \<open>2\<^sup>3\<^sup>1\<close> or more
  has been extended with ones by \<open>pa_soa\<close>: its text, with the blank and the NUL, takes 22.
  Smaller ones fit and are printed as they were received.\<close>

theorem soa_number_overflow:
  assumes "v < 2 ^ 32"
  shows "length ('' '' @ dec (soa_word v)) + 1 = 22 \<and> 2 ^ 31 \<le> v \<or>
    length ('' '' @ dec (soa_word v)) + 1 \<le> 12 \<and> v < 2 ^ 31 \<and> soa_word v = v"
proof (cases "v < 2 ^ 31")
  case True
  then have "length (dec v) \<le> 10" by (intro dec_length_le) simp_all
  then show ?thesis using True by (simp add: soa_word_def)
next
  case False
  let ?x = "v + (2 ^ 64 - 2 ^ 32)"
  have "length (dec ?x) \<le> 20" using assms by (intro dec_length_le) simp_all
  moreover have "20 \<le> length (dec ?x)" using dec_length_ge [of 19 ?x] False by simp
  ultimately show ?thesis using False by (simp add: soa_word_def)
qed

lemma soa_number_overflow_witness: "length ('' '' @ dec (soa_word (2 ^ 31))) + 1 = 22"
  using soa_number_overflow [of "2 ^ 31"] by simp

end
