(* ===== verification/AdnsQuery.thy ===== *)
theory AdnsQuery
  imports AdnsRR "HOL-Library.Monad_Syntax"
begin

text \<open>
  The queries of adns and what moves them: src/adns/query.c, the sending half of
  src/adns/transmit.c and the TCP connection of src/adns/event.c.

  A query is an entry of the store, its handle the address it was allocated at; a freed query has
  no entry. The four lists of the library and the children of a query are lists of handles in the
  order of their links. \<open>None\<close> is a failed assertion, a use of a freed query, or the unlinking of a
  node that is not in the list. Allocations succeed, and the bookkeeping of the memory of an
  answer (\<open>adns__alloc_interim\<close> and its relatives) has no counterpart.

  The operating system is a parameter: what the n-th call answers.
\<close>

subsection \<open>Times\<close>

type_synonym timeval = "int \<times> int"

definition timevaladd :: "timeval \<Rightarrow> nat \<Rightarrow> timeval" where
  "timevaladd tv ms =
     (let u = snd tv + int (ms mod 1000) * 1000; s = fst tv + int (ms div 1000) in
      if u \<ge> 1000000 then (s + 1, u - 1000000) else (s, u))"

definition timer_gt :: "timeval \<Rightarrow> timeval \<Rightarrow> bool" where
  "timer_gt a b \<longleftrightarrow> (if fst a = fst b then snd a > snd b else fst a > fst b)"

definition UDPRETRYMS :: nat where "UDPRETRYMS = 2000"
definition TCPWAITMS :: nat where "TCPWAITMS = 30000"
definition TCPCONNMS :: nat where "TCPCONNMS = 14000"
definition TCPIDLEMS :: nat where "TCPIDLEMS = 30000"

subsection \<open>Queries and the state of the library\<close>

datatype qstate = Tosend | Tcpw | Childw | Done

record query =
  q_state :: qstate
  q_parent :: "nat option"
  q_children :: "nat list"
  q_type :: nat
  q_dgram :: string
  q_cname :: "(string \<times> nat) option"
  q_search :: string
  q_origlen :: nat
  q_pos :: nat
  q_doneabs :: int
  q_id :: int
  q_flags :: queryflags
  q_retries :: nat
  q_nextserver :: nat
  q_udpsent :: "64 word"
  q_timeout :: timeval
  q_expires :: int
  q_kind :: "child_kind option"
  q_ptr :: "32 word option"
  q_status :: adns_status
  q_cnametext :: "string option"
  q_owner :: "string option"
  q_rrs :: "rr list"
  q_ansexpires :: int

datatype submit_error = ENOSYS | EINVAL

datatype tcpstate = Disconnected | Connecting | Server_ok | Broken

record ads =
  a_query :: "nat \<Rightarrow> query option"
  a_fresh :: nat
  a_udpw :: "nat list"
  a_tcpw :: "nat list"
  a_childw :: "nat list"
  a_output :: "nat list"
  a_nextid :: nat
  a_servers :: "32 word list"
  a_searchlist :: "string list"
  a_searchndots :: nat
  a_sortlist :: "(32 word \<times> 32 word) list"
  a_tcpstate :: tcpstate
  a_tcpserver :: nat
  a_tcpsend :: string
  a_tcprecv :: string
  a_tcpavail :: nat
  a_tcpskip :: nat
  a_tcptimeout :: timeval
  a_calls :: nat
  a_sent :: "(nat \<times> string) list"
  a_wire :: string

abbreviation nservers :: "ads \<Rightarrow> nat" where
  "nservers a \<equiv> length (a_servers a)"

datatype send_result = Sent | Send_again | Send_msgsize | Send_error
datatype write_result = Wrote nat | Write_again | Write_error
datatype connect_result = Connected | In_progress | Refused | No_socket

text \<open>What the calls of the system answer, by the number of the call: a datagram sent, a write, a
  connection, the random numbers from their state on; and the size that the buffer of a query has from
  its earlier uses when a query is made in it, by the number of calls and the identifier to be taken.\<close>

record system =
  s_sendto :: "nat \<Rightarrow> send_result"
  s_writev :: "nat \<Rightarrow> write_result"
  s_connect :: "nat \<Rightarrow> connect_result"
  s_random :: "nat \<Rightarrow> nat \<Rightarrow> nat"
  s_avail :: "nat \<Rightarrow> nat \<Rightarrow> nat"

definition put_query :: "nat \<Rightarrow> query \<Rightarrow> ads \<Rightarrow> ads" where
  "put_query q qu a = a\<lparr>a_query := (a_query a)(q \<mapsto> qu)\<rparr>"

definition change_query :: "nat \<Rightarrow> (query \<Rightarrow> query) \<Rightarrow> ads \<Rightarrow> ads option" where
  "change_query q f a = do { qu \<leftarrow> a_query a q; Some (put_query q (f qu) a) }"

definition free_query :: "nat \<Rightarrow> ads \<Rightarrow> ads" where
  "free_query q a = a\<lparr>a_query := (a_query a)(q := None)\<rparr>"

definition unlink :: "nat \<Rightarrow> nat list \<Rightarrow> nat list option" where
  "unlink q l = (if q \<in> set l then Some (remove1 q l) else None)"

definition the_queue :: "qstate \<Rightarrow> ads \<Rightarrow> nat list" where
  "the_queue s a =
     (case s of Tosend \<Rightarrow> a_udpw a | Tcpw \<Rightarrow> a_tcpw a | Childw \<Rightarrow> a_childw a | Done \<Rightarrow> a_output a)"

definition set_queue :: "qstate \<Rightarrow> nat list \<Rightarrow> ads \<Rightarrow> ads" where
  "set_queue s l a =
     (case s of Tosend \<Rightarrow> a\<lparr>a_udpw := l\<rparr> | Tcpw \<Rightarrow> a\<lparr>a_tcpw := l\<rparr>
      | Childw \<Rightarrow> a\<lparr>a_childw := l\<rparr> | Done \<Rightarrow> a\<lparr>a_output := l\<rparr>)"

definition unlink_state :: "qstate \<Rightarrow> nat \<Rightarrow> ads \<Rightarrow> ads option" where
  "unlink_state s q a = map_option (\<lambda>l. set_queue s l a) (unlink q (the_queue s a))"

definition link_state :: "qstate \<Rightarrow> nat \<Rightarrow> ads \<Rightarrow> ads" where
  "link_state s q a = set_queue s (the_queue s a @ [q]) a"

definition query_alloc :: "nat \<Rightarrow> queryflags \<Rightarrow> timeval \<Rightarrow> query" where
  "query_alloc type flags now =
     \<lparr>q_state = Tosend, q_parent = None, q_children = [], q_type = type, q_dgram = [],
      q_cname = None, q_search = [], q_origlen = 0, q_pos = 0, q_doneabs = 0, q_id = - 2,
      q_flags = flags, q_retries = 0, q_nextserver = 0, q_udpsent = 0, q_timeout = (0, 0),
      q_expires = fst now + int MAXTTLBELIEVE, q_kind = None, q_ptr = None, q_status = s_ok,
      q_cnametext = None, q_owner = None, q_rrs = [], q_ansexpires = - 1\<rparr>"

text \<open>The row of the table for a query; one is only made for a type that has a row.\<close>

definition q_typei :: "query \<Rightarrow> typeinfo" where
  "q_typei qu = (case findtype (q_type qu) of Some ti \<Rightarrow> ti | None \<Rightarrow> typeinfo_unknown)"

subsection \<open>Cancelling\<close>

definition leave_parent :: "nat \<Rightarrow> query \<Rightarrow> ads \<Rightarrow> ads option" where
  "leave_parent q qu a =
     (case q_parent qu of
        None \<Rightarrow> Some a
      | Some p \<Rightarrow> do { pu \<leftarrow> a_query a p; cs \<leftarrow> unlink q (q_children pu);
                      Some (put_query p (pu\<lparr>q_children := cs\<rparr>) a) })"

text \<open>\<open>adns_cancel\<close> of each query of a list: \<open>cancel_children\<close> when the list is that of the
  children; the second call is the one in \<open>free_query_allocs\<close>.\<close>

partial_function (option) cancel_list :: "nat list \<Rightarrow> ads \<Rightarrow> ads option" where
  "cancel_list qs a =
     (case qs of
        [] \<Rightarrow> Some a
      | q # qs' \<Rightarrow> do {
          qu \<leftarrow> a_query a q;
          a1 \<leftarrow> leave_parent q qu a;
          a2 \<leftarrow> unlink_state (q_state qu) q a1;
          qu2 \<leftarrow> a_query a2 q;
          a3 \<leftarrow> cancel_list (q_children qu2) a2;
          cancel_list qs' (free_query q a3) })"

definition cancel_children :: "nat \<Rightarrow> ads \<Rightarrow> ads option" where
  "cancel_children q a = do { qu \<leftarrow> a_query a q; cancel_list (q_children qu) a }"

definition adns_cancel :: "nat \<Rightarrow> ads \<Rightarrow> ads option" where
  "adns_cancel q a = cancel_list [q] a"

text \<open>\<open>adns__reset_preserved\<close> begins with \<open>assert(!qu->final_allocspace)\<close>. The field is set in one place,
  \<open>makefinal_query\<close>, which \<open>adns__query_done\<close> calls for a query with no parent just before it makes the
  state \<open>query_done\<close>, and nothing clears it: it is set exactly in the queries in that state. As for
  every assertion of the library, \<open>None\<close> is the abort.\<close>

definition final_allocspace :: "query \<Rightarrow> bool" where
  "final_allocspace qu \<longleftrightarrow> q_state qu = Done"

definition reset_preserved :: "nat \<Rightarrow> ads \<Rightarrow> ads option" where
  "reset_preserved q a = do {
     qu \<leftarrow> a_query a q;
     if final_allocspace qu then None
     else do {
       a1 \<leftarrow> cancel_children q a;
       change_query q (\<lambda>qu. qu\<lparr>q_rrs := []\<rparr>) a1 } }"

subsection \<open>Finishing\<close>

text \<open>The owner of a searching query is what the last name was, the answer is sorted, and its time
  of expiry is fixed. The \<open>n\<close>-th call of the system is the state of the random numbers.\<close>

definition sort_answer :: "system \<Rightarrow> ads \<Rightarrow> query \<Rightarrow> rr list option" where
  "sort_answer sys a qu =
     (let rrs = (if q_rrs qu = [] then []
                 else case ti_diff (q_typei qu) of
                        None \<Rightarrow> q_rrs qu
                      | Some d \<Rightarrow> isort (d (a_sortlist a)) (q_rrs qu))
      in if rrs \<noteq> [] \<and> ti_srv (q_typei qu) then postsort_srv (s_random sys (a_calls a)) 0 rrs
         else Some rrs)"

definition save_owner :: "string \<Rightarrow> query \<Rightarrow> query option" where
  "save_owner owner qu =
     (if \<not> qf_owner (q_flags qu) then Some qu
      else if q_owner qu \<noteq> None then None
      else Some (qu\<lparr>q_owner := Some owner\<rparr>))"

definition finish_answer :: "system \<Rightarrow> ads \<Rightarrow> query \<Rightarrow> query option" where
  "finish_answer sys a qu = do {
     let qu1 = qu\<lparr>q_id := - 1\<rparr>;
     qu2 \<leftarrow> (if qf_search (q_flags qu1) \<and> q_status qu1 \<noteq> s_nomemory
             then save_owner (q_search qu1) qu1 else Some qu1);
     rrs \<leftarrow> sort_answer sys a qu2;
     Some (qu2\<lparr>q_rrs := rrs, q_ansexpires := q_expires qu2\<rparr>) }"

fun rr_ipv4 :: "rr \<Rightarrow> 32 word" where
  "rr_ipv4 (RR_addr w) = w"
| "rr_ipv4 _ = 0"

fun map_hostaddr :: "(hostaddr \<Rightarrow> hostaddr) \<Rightarrow> rr \<Rightarrow> rr" where
  "map_hostaddr f (RR_hostaddr h) = RR_hostaddr (f h)"
| "map_hostaddr f (RR_inthostaddr i h) = RR_inthostaddr i (f h)"
| "map_hostaddr f (RR_srvha p w t h) = RR_srvha p w t (f h)"
| "map_hostaddr f r = r"

text \<open>The hook of \<open>icb_hostaddr\<close>: the answer of the child goes into the record it was asked for,
  and bounds the expiry of the parent when it has addresses.\<close>

definition hostaddr_done :: "nat \<Rightarrow> query \<Rightarrow> query \<Rightarrow> query" where
  "hostaddr_done slot cu pu =
     pu\<lparr>q_rrs := (q_rrs pu)[slot := map_hostaddr
            (icb_hostaddr (q_status cu) (map rr_ipv4 (q_rrs cu))) (q_rrs pu ! slot)],
        q_expires := (if q_rrs cu \<noteq> [] then min (q_expires pu) (q_expires cu) else q_expires pu)\<rparr>"

definition ptr_verdict :: "query \<Rightarrow> query \<Rightarrow> adns_status" where
  "ptr_verdict cu pu =
     icb_ptr (case q_ptr pu of None \<Rightarrow> 0 | Some w \<Rightarrow> w) (q_status cu) (map rr_ipv4 (q_rrs cu))"

text \<open>What the completion of a child leaves of its parent: unlinked, and without the child.\<close>

definition leave_for_callback :: "nat \<Rightarrow> nat \<Rightarrow> ads \<Rightarrow> ads option" where
  "leave_for_callback q p a = do {
     pu \<leftarrow> a_query a p;
     cs \<leftarrow> unlink q (q_children pu);
     unlink_state Childw p (put_query p (pu\<lparr>q_children := cs\<rparr>) a) }"

datatype callback = Wait_more ads | Parent_done ads | Parent_fail adns_status ads

definition run_callback :: "query \<Rightarrow> nat \<Rightarrow> ads \<Rightarrow> callback option" where
  "run_callback cu p a = do {
     pu \<leftarrow> a_query a p;
     k \<leftarrow> q_kind cu;
     (case k of
        Child_hostaddr slot \<Rightarrow>
          let a1 = put_query p (hostaddr_done slot cu pu) a in
          Some (if q_children pu \<noteq> [] then Wait_more (link_state Childw p a1) else Parent_done a1)
      | Child_ptr \<Rightarrow>
          Some (if ptr_verdict cu pu \<noteq> s_ok then Parent_fail (ptr_verdict cu pu) a
                else if q_children pu = [] then Parent_done a else Wait_more (link_state Childw p a))) }"

definition set_status :: "nat \<Rightarrow> adns_status \<Rightarrow> ads \<Rightarrow> ads option" where
  "set_status q st a = change_query q (\<lambda>qu. qu\<lparr>q_status := st\<rparr>) a"

definition fail_with :: "nat \<Rightarrow> adns_status \<Rightarrow> ads \<Rightarrow> ads option" where
  "fail_with q st a = do { a1 \<leftarrow> reset_preserved q a; set_status q st a1 }"

partial_function (option) query_done :: "system \<Rightarrow> nat \<Rightarrow> ads \<Rightarrow> ads option" where
  "query_done sys q a = do {
     a1 \<leftarrow> cancel_children q a;
     qu \<leftarrow> a_query a1 q;
     fu \<leftarrow> finish_answer sys a1 qu;
     let a2 = (put_query q fu a1)\<lparr>a_calls := a_calls a1 + 1\<rparr>;
     (case q_parent fu of
        None \<Rightarrow> do {
          a3 \<leftarrow> cancel_children q a2;
          change_query q (\<lambda>u. u\<lparr>q_state := Done\<rparr>) (link_state Done q a3) }
      | Some p \<Rightarrow> do {
          a3 \<leftarrow> leave_for_callback q p a2;
          cb \<leftarrow> run_callback fu p a3;
          a4 \<leftarrow> (case cb of
                   Wait_more b \<Rightarrow> Some b
                 | Parent_done b \<Rightarrow> query_done sys p b
                 | Parent_fail st b \<Rightarrow> do { b1 \<leftarrow> fail_with p st b; query_done sys p b1 });
          a5 \<leftarrow> cancel_children q a4;
          Some (free_query q a5) }) }"

definition query_fail :: "system \<Rightarrow> nat \<Rightarrow> adns_status \<Rightarrow> ads \<Rightarrow> ads option" where
  "query_fail sys q st a = do { a1 \<leftarrow> fail_with q st a; query_done sys q a1 }"

subsection \<open>The TCP connection\<close>

definition call_done :: "ads \<Rightarrow> ads" where
  "call_done a = a\<lparr>a_calls := a_calls a + 1\<rparr>"

definition tcp_close :: "ads \<Rightarrow> ads" where
  "tcp_close a = a\<lparr>a_tcprecv := [], a_tcpskip := 0, a_tcpsend := [], a_wire := []\<rparr>"

definition retry_all :: "nat list \<Rightarrow> ads \<Rightarrow> ads" where
  "retry_all qs a =
     a\<lparr>a_query := (\<lambda>q. if q \<in> set qs
                       then map_option (\<lambda>qu. qu\<lparr>q_retries := q_retries qu + 1\<rparr>) (a_query a q)
                       else a_query a q)\<rparr>"

definition tcp_broken :: "ads \<Rightarrow> ads option" where
  "tcp_broken a =
     (if a_tcpstate a = Connecting \<or> a_tcpstate a = Server_ok then
        let a1 = (if a_tcpstate a = Connecting then retry_all (a_tcpw a) a else a)
        in Some ((tcp_close a1)\<lparr>a_tcpstate := Broken,
                   a_tcpserver := (a_tcpserver a + 1) mod nservers a\<rparr>)
      else None)"

text \<open>What \<open>adns__querysend_tcp\<close> appends to the buffer after \<open>writev\<close> took \<open>wr\<close> bytes of the two
  of the length and the datagram.\<close>

definition tcp_rest :: "nat \<Rightarrow> string \<Rightarrow> string" where
  "tcp_rest wr dgram =
     (let len = put_w (length dgram) in
      if wr < 2 then take (2 - wr) len @ dgram else drop (wr - 2) dgram)"

definition querysend_tcp :: "system \<Rightarrow> nat \<Rightarrow> ads \<Rightarrow> ads option" where
  "querysend_tcp sys q a =
     (if a_tcpstate a \<noteq> Server_ok then Some a
      else do {
        qu \<leftarrow> a_query a q;
        if q_state qu \<noteq> Tcpw then None
        else
          let dgram = q_dgram qu;
              a1 = (put_query q (qu\<lparr>q_retries := q_retries qu + 1\<rparr>) a)\<lparr>a_tcptimeout := (0, 0)\<rparr> in
          if a_tcpsend a \<noteq> [] then Some (a1\<lparr>a_tcpsend := a_tcpsend a @ tcp_rest 0 dgram\<rparr>)
          else
            (case s_writev sys (a_calls a) of
               Write_error \<Rightarrow> tcp_broken (call_done a1)
             | Write_again \<Rightarrow> Some ((call_done a1)\<lparr>a_tcpsend := tcp_rest 0 dgram\<rparr>)
             | Wrote n \<Rightarrow>
                 let wr = min n (2 + length dgram) in
                 Some ((call_done a1)\<lparr>a_tcpsend := tcp_rest wr dgram,
                         a_wire := a_wire a @ take wr (put_w (length dgram) @ dgram)\<rparr>)) })"

fun send_all :: "system \<Rightarrow> nat list \<Rightarrow> ads \<Rightarrow> ads option" where
  "send_all sys [] a = Some a"
| "send_all sys (q # qs) a =
     (if a_tcpstate a = Server_ok
      then do {
        qu \<leftarrow> a_query a q;
        if q_state qu \<noteq> Tcpw then None
        else do { a1 \<leftarrow> querysend_tcp sys q a; send_all sys qs a1 } }
      else Some a)"

definition tcp_connected :: "system \<Rightarrow> ads \<Rightarrow> ads option" where
  "tcp_connected sys a = send_all sys (a_tcpw a) (a\<lparr>a_tcpstate := Server_ok\<rparr>)"

text \<open>The next query is read from the link before the query fails: if it has been freed by then,
  the next turn uses a freed query. The ones after it are those still in the list.\<close>

function fail_broken :: "system \<Rightarrow> nat list \<Rightarrow> ads \<Rightarrow> ads option" where
  "fail_broken sys qs a =
     (case qs of
        [] \<Rightarrow> Some a
      | q # rest \<Rightarrow>
          (case a_query a q of
             None \<Rightarrow> None
           | Some qu \<Rightarrow>
               if q_state qu \<noteq> Tcpw then None
               else if q_retries qu > nservers a then
                 (case unlink_state Tcpw q a of
                    None \<Rightarrow> None
                  | Some b \<Rightarrow>
                      (case query_fail sys q s_allservfail b of
                         None \<Rightarrow> None
                       | Some a1 \<Rightarrow>
                           fail_broken sys
                             (take 1 rest @ filter (\<lambda>x. x \<in> set (a_tcpw a1)) (drop 1 rest)) a1))
               else fail_broken sys rest a))"
  by pat_completeness auto

termination
proof (relation "measure (\<lambda>(sys, qs, a). length qs)", goal_cases)
  case (2 sys qs a q rest qu b a1)
  show ?case using 2(1) by (cases rest) (simp_all add: le_imp_less_Suc)
qed simp_all

declare fail_broken.simps [simp del]

definition tcp_broken_events :: "system \<Rightarrow> ads \<Rightarrow> ads option" where
  "tcp_broken_events sys a =
     (if a_tcpstate a \<noteq> Broken then None
      else map_option (\<lambda>a1. a1\<lparr>a_tcpstate := Disconnected\<rparr>) (fail_broken sys (a_tcpw a) a))"

fun tcp_tries :: "system \<Rightarrow> timeval \<Rightarrow> nat \<Rightarrow> ads \<Rightarrow> ads option" where
  "tcp_tries sys now 0 a = Some a"
| "tcp_tries sys now (Suc k) a =
     (if a_tcpstate a \<noteq> Disconnected then Some a
      else if a_tcpsend a \<noteq> [] \<or> a_tcprecv a \<noteq> [] \<or> a_tcpskip a \<noteq> 0 then None
      else
        let a1 = (call_done a)\<lparr>a_tcpstate := Connecting\<rparr> in
        (case s_connect sys (a_calls a) of
           No_socket \<Rightarrow> Some (call_done a)
         | Connected \<Rightarrow> tcp_connected sys a1
         | In_progress \<Rightarrow> Some (a1\<lparr>a_tcptimeout := timevaladd now TCPCONNMS\<rparr>)
         | Refused \<Rightarrow> do {
             a2 \<leftarrow> tcp_broken a1;
             a3 \<leftarrow> tcp_broken_events sys a2;
             tcp_tries sys now k a3 }))"

definition tcp_tryconnect :: "system \<Rightarrow> timeval \<Rightarrow> ads \<Rightarrow> ads option" where
  "tcp_tryconnect sys now a = tcp_tries sys now (nservers a) a"

subsection \<open>Sending\<close>

definition query_usetcp :: "system \<Rightarrow> timeval \<Rightarrow> nat \<Rightarrow> ads \<Rightarrow> ads option" where
  "query_usetcp sys now q a = do {
     a1 \<leftarrow> change_query q (\<lambda>qu. qu\<lparr>q_state := Tcpw, q_timeout := timevaladd now TCPWAITMS\<rparr>) a;
     a2 \<leftarrow> querysend_tcp sys q (link_state Tcpw q a1);
     tcp_tryconnect sys now a2 }"

definition sent_udp :: "ads \<Rightarrow> timeval \<Rightarrow> query \<Rightarrow> query" where
  "sent_udp a now qu =
     qu\<lparr>q_timeout := timevaladd now UDPRETRYMS,
        q_udpsent := q_udpsent qu OR push_bit (q_nextserver qu) 1,
        q_nextserver := (q_nextserver qu + 1) mod nservers a,
        q_retries := q_retries qu + 1\<rparr>"

definition query_send :: "system \<Rightarrow> timeval \<Rightarrow> nat \<Rightarrow> ads \<Rightarrow> ads option" where
  "query_send sys now q a = do {
     qu \<leftarrow> a_query a q;
     if q_state qu \<noteq> Tosend then None
     else if qf_usevc (q_flags qu) \<or> length (q_dgram qu) > DNS_MAXUDP then query_usetcp sys now q a
     else if q_retries qu \<ge> UDPMAXRETRIES then query_fail sys q s_timeout a
     else
       let a1 = (call_done a)\<lparr>a_sent := a_sent a @ [(q_nextserver qu, q_dgram qu)]\<rparr> in
       if s_sendto sys (a_calls a) = Send_msgsize
       then query_usetcp sys now q (put_query q (qu\<lparr>q_retries := 0\<rparr>) a1)
       else
         Some (link_state Tosend q (put_query q (sent_udp a now qu) a1)) }"

definition query_submit :: "system \<Rightarrow> timeval \<Rightarrow> nat \<Rightarrow> string \<Rightarrow> nat \<Rightarrow> ads \<Rightarrow> ads option" where
  "query_submit sys now q dgram ident a = do {
     a1 \<leftarrow> change_query q (\<lambda>qu. qu\<lparr>q_dgram := dgram, q_id := int ident\<rparr>) a;
     query_send sys now q a1 }"

text \<open>A child query: allocated, sent, and only then hung below its parent.\<close>

definition internal_submit ::
    "system \<Rightarrow> timeval \<Rightarrow> nat \<Rightarrow> child \<Rightarrow> ads \<Rightarrow> ads option" where
  "internal_submit sys now p ch a =
     (let q = a_fresh a;
          a1 = (put_query q ((query_alloc r_addr (ch_flags ch) now)\<lparr>q_kind := Some (ch_kind ch)\<rparr>) a)
                 \<lparr>a_fresh := q + 1\<rparr>
      in do {
        a2 \<leftarrow> query_submit sys now q (ch_dgram ch) (ch_id ch) a1;
        a3 \<leftarrow> change_query q (\<lambda>qu. qu\<lparr>q_parent := Some p\<rparr>) a2;
        change_query p (\<lambda>pu. pu\<lparr>q_children := q_children pu @ [q]\<rparr>) a3 })"

subsection \<open>Submitting\<close>

text \<open>The datagram for a name; making it uses up an identifier even when it fails.\<close>

definition make_datagram :: "nat \<Rightarrow> query \<Rightarrow> string \<Rightarrow> adns_status + string" where
  "make_datagram nextid qu owner =
     mkquery nextid (ti_srv (q_typei qu)) (qf_quoteok_query (q_flags qu)) owner (q_type qu)"

definition take_id :: "ads \<Rightarrow> ads" where
  "take_id a = a\<lparr>a_nextid := a_nextid a + 1\<rparr>"

text \<open>The entry of the search list that is tried next: \<open>None\<close> when there is none, \<open>Some None\<close> for
  the name as it is.\<close>

definition search_entry :: "string list \<Rightarrow> query \<Rightarrow> (string option \<times> query) option" where
  "search_entry sl qu =
     (if q_doneabs qu < 0 then Some (None, qu\<lparr>q_doneabs := 1\<rparr>)
      else if q_pos qu \<ge> length sl then
        (if q_doneabs qu \<noteq> 0 then None else Some (None, qu\<lparr>q_doneabs := 1\<rparr>))
      else Some (Some (sl ! q_pos qu), qu\<lparr>q_pos := q_pos qu + 1\<rparr>))"

definition search_name :: "query \<Rightarrow> string option \<Rightarrow> string" where
  "search_name qu entry =
     take (q_origlen qu) (q_search qu) @ (case entry of None \<Rightarrow> [] | Some e \<Rightarrow> ''.'' @ e)"

text \<open>\<open>adns__search_next\<close> with the body of \<open>query_simple\<close>, which calls it back, written out;
  \<open>search_next_simple\<close> below puts the call back.\<close>

partial_function (option) search_next :: "system \<Rightarrow> timeval \<Rightarrow> nat \<Rightarrow> ads \<Rightarrow> ads option" where
  "search_next sys now q a = do {
     qu \<leftarrow> a_query a q;
     (case search_entry (a_searchlist a) qu of
        None \<Rightarrow>
          query_fail sys q s_nxdomain
            (put_query q (qu\<lparr>q_search := take (q_origlen qu) (q_search qu)\<rparr>) a)
      | Some (entry, qu1) \<Rightarrow>
          let qu2 = qu1\<lparr>q_search := search_name qu entry, q_dgram := []\<rparr>;
              a1 = take_id (put_query q qu2 a) in
          (case make_datagram (a_nextid a) qu2 (q_search qu2) of
             Inl st \<Rightarrow>
               if st = s_querydomaintoolong \<and> qf_search (q_flags qu2) then search_next sys now q a1
               else query_fail sys q st a1
           | Inr dgram \<Rightarrow> query_submit sys now q dgram (next_id (a_nextid a)) a1)) }"

definition query_simple :: "system \<Rightarrow> timeval \<Rightarrow> nat \<Rightarrow> string \<Rightarrow> ads \<Rightarrow> ads option" where
  "query_simple sys now q owner a = do {
     qu \<leftarrow> a_query a q;
     (case make_datagram (a_nextid a) qu owner of
        Inl st \<Rightarrow>
          if st = s_querydomaintoolong \<and> qf_search (q_flags qu) then search_next sys now q (take_id a)
          else query_fail sys q st (take_id a)
      | Inr dgram \<Rightarrow> query_submit sys now q dgram (next_id (a_nextid a)) (take_id a)) }"

definition absolute_dot :: "string \<Rightarrow> bool" where
  "absolute_dot owner \<longleftrightarrow>
     owner \<noteq> [] \<and> last owner = CHR ''.'' \<and>
     (length owner < 2 \<or> owner ! (length owner - 2) \<noteq> BACKSLASH)"

definition count_dots :: "string \<Rightarrow> nat" where
  "count_dots owner = length (filter (\<lambda>c. c = CHR ''.'') owner)"

text \<open>What \<open>adns_submit\<close> does with a query it has allocated, up to \<open>adns__autosys\<close>.\<close>

definition submit_query :: "system \<Rightarrow> timeval \<Rightarrow> nat \<Rightarrow> string \<Rightarrow> queryflags \<Rightarrow> ads \<Rightarrow> ads option" where
  "submit_query sys now q owner flags a =
     (if owner = [] then query_fail sys q s_querydomaininvalid a
      else if length owner > DNS_MAXDOMAIN + 1 then query_fail sys q s_querydomaintoolong a
      else
        let dot = absolute_dot owner;
            flags1 = (if dot then flags\<lparr>qf_search := False\<rparr> else flags);
            name = (if dot then butlast owner else owner) in do {
        a1 \<leftarrow> change_query q (\<lambda>qu. qu\<lparr>q_flags := flags1\<rparr>) a;
        if qf_search flags1 then do {
          a2 \<leftarrow> change_query q (\<lambda>qu. qu\<lparr>q_search := name, q_origlen := length name,
                  q_doneabs := (if count_dots owner \<ge> a_searchndots a1 then - 1 else 0)\<rparr>) a1;
          search_next sys now q a2 }
        else do {
          qu \<leftarrow> a_query a1 q;
          qu1 \<leftarrow> save_owner name qu;
          query_simple sys now q name (put_query q qu1 a1) } })"

text \<open>The result is the handle, or an error number.\<close>

definition submit_new ::
    "system \<Rightarrow> timeval \<Rightarrow> string \<Rightarrow> nat \<Rightarrow> queryflags \<Rightarrow> ads \<Rightarrow> (submit_error + nat \<times> ads) option" where
  "submit_new sys now owner type flags a =
     (case findtype type of
        None \<Rightarrow> Some (Inl ENOSYS)
      | Some ti \<Rightarrow>
          let q = a_fresh a in
          map_option (\<lambda>a1. Inr (q, a1))
            (submit_query sys now q owner flags
               ((put_query q (query_alloc type flags now) a)\<lparr>a_fresh := q + 1\<rparr>)))"

end
