(* ===== verification/AdnsInv.thy ===== *)
theory AdnsInv
  imports AdnsQuery
begin

text \<open>
  The consistency of the query machine: src/adns/check.c, and that the operations keep it.
\<close>

subsection \<open>The consistency checks\<close>

text \<open>\<open>local_ok\<close> is \<open>checkc_query\<close>, \<open>queue_ok\<close> the conditions of the four queues, \<open>global_ok\<close> is
  \<open>checkc_global\<close>; \<open>family_ok\<close> holds the links between parents and children. Some conditions are
  stronger than the assertions of the code: they are what makes them hold.\<close>

definition local_ok :: "ads \<Rightarrow> query \<Rightarrow> bool" where
  "local_ok a qu \<longleftrightarrow>
     q_nextserver qu < nservers a \<and> (\<forall>i. bit (q_udpsent qu) i \<longrightarrow> i < nservers a) \<and>
     q_pos qu \<le> length (a_searchlist a) \<and> distinct (q_children qu) \<and>
     (q_state qu \<noteq> Done \<longrightarrow> qf_search (q_flags qu) \<longrightarrow> q_owner qu = None)"

fun queue_ok :: "ads \<Rightarrow> qstate \<Rightarrow> query \<Rightarrow> bool" where
  "queue_ok a Tosend qu \<longleftrightarrow>
     q_state qu = Tosend \<and> q_children qu = [] \<and> q_retries qu \<le> UDPMAXRETRIES \<and> q_udpsent qu \<noteq> 0 \<and>
     0 \<le> q_id qu \<and> \<not> qf_usevc (q_flags qu) \<and> length (q_dgram qu) \<le> DNS_MAXUDP"
| "queue_ok a Tcpw qu \<longleftrightarrow>
     q_state qu = Tcpw \<and> q_children qu = [] \<and> 0 \<le> q_id qu \<and>
     q_retries qu \<le> nservers a + (if a_tcpstate a \<in> {Server_ok, Broken} then 1 else 0)"
| "queue_ok a Childw qu \<longleftrightarrow> q_state qu = Childw \<and> q_children qu \<noteq> [] \<and> 0 \<le> q_id qu"
| "queue_ok a Done qu \<longleftrightarrow>
     q_state qu = Done \<and> q_children qu = [] \<and> q_parent qu = None \<and> q_id qu = - 1"

definition family_ok :: "nat set \<Rightarrow> ads \<Rightarrow> nat \<Rightarrow> query \<Rightarrow> bool" where
  "family_ok Z a q qu \<longleftrightarrow>
     (\<forall>c \<in> set (q_children qu). c \<notin> Z \<and> (\<exists>cu. a_query a c = Some cu \<and> q_parent cu = Some q)) \<and>
     (\<forall>p. q_parent qu = Some p \<longrightarrow>
        p \<notin> Z \<and> q_children qu = [] \<and> q_kind qu \<noteq> None \<and> q_type qu = r_addr \<and>
        \<not> qf_search (q_flags qu) \<and> \<not> qf_owner (q_flags qu) \<and>
        (\<exists>pu. a_query a p = Some pu \<and> q \<in> set (q_children pu) \<and> q_parent pu = None))"

definition sortlist_ok :: "(32 word \<times> 32 word) list \<Rightarrow> bool" where
  "sortlist_ok sl \<longleftrightarrow> (\<forall>(base, netmask) \<in> set sl. base AND NOT netmask = 0)"

definition global_ok :: "ads \<Rightarrow> bool" where
  "global_ok a \<longleftrightarrow>
     0 < nservers a \<and> nservers a \<le> MAXSERVERS \<and> a_tcpserver a < nservers a \<and>
     sortlist_ok (a_sortlist a) \<and>
     (a_tcpstate a \<noteq> Server_ok \<longrightarrow> a_tcpsend a = [] \<and> a_tcprecv a = [] \<and> a_tcpskip a = 0) \<and>
     a_tcpskip a \<le> length (a_tcprecv a) \<and>
     (fst (a_tcptimeout a) = 0 \<longrightarrow> snd (a_tcptimeout a) = 0)"

text \<open>Of the conditions of \<open>checkc_global\<close> only those on the numbers of the descriptors, which the model
  does not have, are left out.\<close>

text \<open>\<open>X\<close> are the queries in no queue because they are being worked on, \<open>Z\<close> the ones about to be
  freed.\<close>

definition queues_ok :: "nat set \<Rightarrow> nat set \<Rightarrow> ads \<Rightarrow> bool" where
  "queues_ok X Z a \<longleftrightarrow>
     (\<forall>s. distinct (the_queue s a)) \<and>
     (\<forall>s s' q. q \<in> set (the_queue s a) \<longrightarrow> q \<in> set (the_queue s' a) \<longrightarrow> s = s') \<and>
     (\<forall>q. a_query a q \<noteq> None \<longleftrightarrow> q \<in> X \<or> q \<in> Z \<or> (\<exists>s. q \<in> set (the_queue s a))) \<and>
     (\<forall>s q. q \<in> set (the_queue s a) \<longrightarrow> q \<notin> X \<and> q \<notin> Z) \<and> X \<inter> Z = {} \<and>
     (\<forall>q. a_query a q \<noteq> None \<longrightarrow> q < a_fresh a)"

definition consistent :: "nat set \<Rightarrow> nat set \<Rightarrow> ads \<Rightarrow> bool" where
  "consistent X Z a \<longleftrightarrow>
     global_ok a \<and> queues_ok X Z a \<and>
     (\<forall>s. \<forall>q \<in> set (the_queue s a). \<forall>qu. a_query a q = Some qu \<longrightarrow> queue_ok a s qu) \<and>
     (\<forall>q qu. q \<notin> Z \<longrightarrow> a_query a q = Some qu \<longrightarrow> local_ok a qu \<and> family_ok Z a q qu)"

subsection \<open>Fields\<close>

lemma the_queue_simps [simp]:
  "the_queue Tosend a = a_udpw a" "the_queue Tcpw a = a_tcpw a"
  "the_queue Childw a = a_childw a" "the_queue Done a = a_output a"
  by (simp_all add: the_queue_def)

lemma set_queue_simps [simp]:
  "the_queue s (set_queue s' l a) = (if s = s' then l else the_queue s a)"
  "a_query (set_queue s l a) = a_query a" "a_fresh (set_queue s l a) = a_fresh a"
  "a_servers (set_queue s l a) = a_servers a" "a_searchlist (set_queue s l a) = a_searchlist a"
  "a_tcpstate (set_queue s l a) = a_tcpstate a" "a_tcpserver (set_queue s l a) = a_tcpserver a"
  "a_tcpsend (set_queue s l a) = a_tcpsend a" "a_tcprecv (set_queue s l a) = a_tcprecv a"
  "a_tcpskip (set_queue s l a) = a_tcpskip a" "a_tcptimeout (set_queue s l a) = a_tcptimeout a"
  "a_calls (set_queue s l a) = a_calls a" "a_nextid (set_queue s l a) = a_nextid a"
  "a_sortlist (set_queue s l a) = a_sortlist a" "a_sent (set_queue s l a) = a_sent a"
  "a_wire (set_queue s l a) = a_wire a" "a_tcpavail (set_queue s l a) = a_tcpavail a"
  "a_searchndots (set_queue s l a) = a_searchndots a"
  by (cases s; cases s'; simp add: set_queue_def the_queue_def)+

lemma set_queue_fields [simp]:
  "a_udpw (set_queue s l a) = (if s = Tosend then l else a_udpw a)"
  "a_tcpw (set_queue s l a) = (if s = Tcpw then l else a_tcpw a)"
  "a_childw (set_queue s l a) = (if s = Childw then l else a_childw a)"
  "a_output (set_queue s l a) = (if s = Done then l else a_output a)"
  by (cases s; simp add: set_queue_def)+

lemma the_queue_update [simp]:
  "the_queue s (a\<lparr>a_query := f\<rparr>) = the_queue s a" "the_queue s (a\<lparr>a_fresh := n\<rparr>) = the_queue s a"
  "the_queue s (a\<lparr>a_calls := n\<rparr>) = the_queue s a" "the_queue s (a\<lparr>a_nextid := n\<rparr>) = the_queue s a"
  "the_queue s (a\<lparr>a_tcpstate := t\<rparr>) = the_queue s a" "the_queue s (a\<lparr>a_tcpserver := n\<rparr>) = the_queue s a"
  "the_queue s (a\<lparr>a_tcpsend := x\<rparr>) = the_queue s a" "the_queue s (a\<lparr>a_tcprecv := x\<rparr>) = the_queue s a"
  "the_queue s (a\<lparr>a_tcpskip := n\<rparr>) = the_queue s a" "the_queue s (a\<lparr>a_tcptimeout := v\<rparr>) = the_queue s a"
  "the_queue s (a\<lparr>a_sent := y\<rparr>) = the_queue s a" "the_queue s (a\<lparr>a_wire := x\<rparr>) = the_queue s a"
  "the_queue s (a\<lparr>a_tcpavail := n\<rparr>) = the_queue s a"
  by (cases s; simp)+

lemma put_query_simps [simp]:
  "the_queue s (put_query q qu a) = the_queue s a"
  "a_query (put_query q qu a) = (a_query a)(q \<mapsto> qu)"
  "a_fresh (put_query q qu a) = a_fresh a" "a_servers (put_query q qu a) = a_servers a"
  "a_searchlist (put_query q qu a) = a_searchlist a" "a_tcpstate (put_query q qu a) = a_tcpstate a"
  "a_tcpserver (put_query q qu a) = a_tcpserver a" "a_tcpsend (put_query q qu a) = a_tcpsend a"
  "a_tcprecv (put_query q qu a) = a_tcprecv a" "a_tcpskip (put_query q qu a) = a_tcpskip a"
  "a_tcptimeout (put_query q qu a) = a_tcptimeout a" "a_calls (put_query q qu a) = a_calls a"
  "a_nextid (put_query q qu a) = a_nextid a" "a_sortlist (put_query q qu a) = a_sortlist a"
  "a_sent (put_query q qu a) = a_sent a" "a_wire (put_query q qu a) = a_wire a"
  "a_udpw (put_query q qu a) = a_udpw a" "a_tcpw (put_query q qu a) = a_tcpw a"
  "a_childw (put_query q qu a) = a_childw a" "a_output (put_query q qu a) = a_output a"
  "a_tcpavail (put_query q qu a) = a_tcpavail a" "a_searchndots (put_query q qu a) = a_searchndots a"
  by (simp_all add: put_query_def)

lemma free_query_simps [simp]:
  "the_queue s (free_query q a) = the_queue s a"
  "a_query (free_query q a) = (a_query a)(q := None)"
  "a_fresh (free_query q a) = a_fresh a" "a_servers (free_query q a) = a_servers a"
  "a_searchlist (free_query q a) = a_searchlist a" "a_tcpstate (free_query q a) = a_tcpstate a"
  "a_tcpserver (free_query q a) = a_tcpserver a" "a_tcpsend (free_query q a) = a_tcpsend a"
  "a_tcprecv (free_query q a) = a_tcprecv a" "a_tcpskip (free_query q a) = a_tcpskip a"
  "a_tcptimeout (free_query q a) = a_tcptimeout a" "a_calls (free_query q a) = a_calls a"
  "a_nextid (free_query q a) = a_nextid a" "a_sortlist (free_query q a) = a_sortlist a"
  "a_sent (free_query q a) = a_sent a" "a_wire (free_query q a) = a_wire a"
  "a_udpw (free_query q a) = a_udpw a" "a_tcpw (free_query q a) = a_tcpw a"
  "a_childw (free_query q a) = a_childw a" "a_output (free_query q a) = a_output a"
  "a_tcpavail (free_query q a) = a_tcpavail a" "a_searchndots (free_query q a) = a_searchndots a"
  by (simp_all add: free_query_def)

text \<open>The conditions only look at a few fields of the state.\<close>

definition same_globals :: "ads \<Rightarrow> ads \<Rightarrow> bool" where
  "same_globals a b \<longleftrightarrow>
     a_servers b = a_servers a \<and> a_searchlist b = a_searchlist a \<and> a_tcpstate b = a_tcpstate a \<and>
     a_tcpserver b = a_tcpserver a \<and> a_tcpsend b = a_tcpsend a \<and> a_tcprecv b = a_tcprecv a \<and>
     a_tcpskip b = a_tcpskip a \<and> a_tcptimeout b = a_tcptimeout a \<and> a_fresh b = a_fresh a \<and>
     a_sortlist b = a_sortlist a \<and> a_nextid b = a_nextid a \<and> a_sent b = a_sent a \<and>
     a_wire b = a_wire a \<and> a_tcpavail b = a_tcpavail a \<and> a_searchndots b = a_searchndots a"

lemma same_globals_refl [simp]: "same_globals a a"
  by (simp add: same_globals_def)

lemma same_globals_trans: "same_globals a b \<Longrightarrow> same_globals b c \<Longrightarrow> same_globals a c"
  by (simp add: same_globals_def)

lemma same_globals_ok:
  "same_globals a b \<Longrightarrow> global_ok b = global_ok a \<and> local_ok b = local_ok a \<and> queue_ok b = queue_ok a"
proof -
  assume s: "same_globals a b"
  have "queue_ok b s qu = queue_ok a s qu" for s qu
    using s by (cases s) (simp_all add: same_globals_def)
  then show ?thesis using s by (auto simp: same_globals_def global_ok_def local_ok_def fun_eq_iff)
qed

lemma family_ok_query: "a_query b = a_query a \<Longrightarrow> family_ok Z b = family_ok Z a"
  by (simp add: family_ok_def fun_eq_iff)

subsection \<open>Elementary changes\<close>

lemma wf_E:
  assumes "consistent X Z a"
  shows "global_ok a" "queues_ok X Z a"
    "\<And>s q qu. q \<in> set (the_queue s a) \<Longrightarrow> a_query a q = Some qu \<Longrightarrow> queue_ok a s qu"
    "\<And>q qu. q \<notin> Z \<Longrightarrow> a_query a q = Some qu \<Longrightarrow> local_ok a qu"
    "\<And>q qu. q \<notin> Z \<Longrightarrow> a_query a q = Some qu \<Longrightarrow> family_ok Z a q qu"
  using assms by (auto simp: consistent_def)

lemma consistent_I:
  assumes "global_ok a" "queues_ok X Z a"
    and "\<And>s q qu. q \<in> set (the_queue s a) \<Longrightarrow> a_query a q = Some qu \<Longrightarrow> queue_ok a s qu"
    and "\<And>q qu. q \<notin> Z \<Longrightarrow> a_query a q = Some qu \<Longrightarrow> local_ok a qu"
    and "\<And>q qu. q \<notin> Z \<Longrightarrow> a_query a q = Some qu \<Longrightarrow> family_ok Z a q qu"
  shows "consistent X Z a"
  using assms by (auto simp: consistent_def)

lemma wf_globals:
  assumes "consistent X Z a" "same_globals a b" "a_query b = a_query a" "\<And>s. the_queue s b = the_queue s a"
  shows "consistent X Z b"
  using assms same_globals_ok [OF assms(2)] family_ok_query [OF assms(3)]
  by (simp add: consistent_def queues_ok_def same_globals_def)

text \<open>A query that is being worked on exists.\<close>

lemma wf_get: "consistent X Z a \<Longrightarrow> q \<in> X \<or> q \<in> Z \<or> q \<in> set (the_queue s a) \<Longrightarrow> \<exists>qu. a_query a q = Some qu"
proof -
  assume "consistent X Z a" "q \<in> X \<or> q \<in> Z \<or> q \<in> set (the_queue s a)"
  then have "a_query a q \<noteq> None" by (metis queues_ok_def wf_E(2))
  then show ?thesis by blast
qed

text \<open>Its record changes, but not its place in the family.\<close>

lemma wf_put:
  assumes w: "consistent X Z a" and q: "q \<in> X" "a_query a q = Some qu"
    and l: "local_ok a qu'" and same: "q_children qu' = q_children qu" "q_parent qu' = q_parent qu"
      "q_kind qu' = q_kind qu" "q_type qu' = q_type qu"
      "q_parent qu \<noteq> None \<Longrightarrow> \<not> qf_search (q_flags qu') \<and> \<not> qf_owner (q_flags qu')"
  shows "consistent X Z (put_query q qu' a)"
proof -
  let ?b = "put_query q qu' a"
  have qz: "q \<notin> Z" "\<And>s. q \<notin> set (the_queue s a)" "q < a_fresh a"
    using wf_E(2) [OF w] q by (auto simp: queues_ok_def)
  have "global_ok ?b" "queues_ok X Z ?b"
    using wf_E(1,2) [OF w] q by (auto simp: global_ok_def queues_ok_def)
  moreover have "queue_ok ?b s u" if "x \<in> set (the_queue s ?b)" "a_query ?b x = Some u" for s x u
  proof -
    have "queue_ok a s u" using that qz(2) [of s] wf_E(3) [OF w, of x s u] by (simp split: if_splits)
    then show ?thesis by (cases s) simp_all
  qed
  moreover have "local_ok ?b u" if "x \<notin> Z" "a_query ?b x = Some u" for x u
    using that l wf_E(4) [OF w, of x u] by (simp add: local_ok_def split: if_splits)
  moreover have "family_ok Z ?b x u" if x: "x \<notin> Z" "a_query ?b x = Some u" for x u
  proof -
    have "family_ok Z a q qu" using wf_E(5) [OF w qz(1) q(2)] .
    then have f: "family_ok Z a x (if x = q then qu else u)"
      using x wf_E(5) [OF w x(1)] by (simp split: if_splits)
    show ?thesis
      using f x same q by (auto simp: family_ok_def split: if_splits)
  qed
  ultimately show ?thesis by (simp add: consistent_def)
qed

lemma unlink_Some: "q \<in> set l \<Longrightarrow> unlink q l = Some (remove1 q l)"
  by (simp add: unlink_def)

lemma wf_unlink:
  assumes w: "consistent X Z a" and q: "q \<in> set (the_queue s a)"
  shows "unlink_state s q a = Some (set_queue s (remove1 q (the_queue s a)) a)"
    "consistent (insert q X) Z (set_queue s (remove1 q (the_queue s a)) a)"
proof -
  let ?b = "set_queue s (remove1 q (the_queue s a)) a"
  show "unlink_state s q a = Some ?b" using q by (simp add: unlink_state_def unlink_Some)
  note Q = wf_E(2) [OF w, unfolded queues_ok_def]
  have sub: "x \<in> set (the_queue t ?b) \<longleftrightarrow> x \<in> set (the_queue t a) \<and> x \<noteq> q" for x t
    using Q q by (auto simp: set_remove1_eq)
  have sg: "same_globals a ?b" by (simp add: same_globals_def)
  have "queues_ok (insert q X) Z ?b"
    using Q q unfolding queues_ok_def sub by (auto simp: distinct_remove1)
  moreover have "family_ok Z ?b = family_ok Z a" by (rule family_ok_query) simp
  ultimately show "consistent (insert q X) Z ?b"
    using wf_E(1,3,4,5) [OF w] same_globals_ok [OF sg] sub by (intro consistent_I) auto
qed

lemma wf_link:
  assumes w: "consistent X Z a" and q: "q \<in> X" "a_query a q = Some qu" "queue_ok a s qu"
  shows "consistent (X - {q}) Z (link_state s q a)"
proof -
  let ?b = "link_state s q a"
  note Q = wf_E(2) [OF w, unfolded queues_ok_def]
  have sub: "x \<in> set (the_queue t ?b) \<longleftrightarrow> x \<in> set (the_queue t a) \<or> x = q \<and> t = s" for x t
    by (auto simp: link_state_def)
  have sg: "same_globals a ?b" by (simp add: same_globals_def link_state_def)
  have d: "distinct (the_queue t ?b)" for t using Q q by (auto simp: link_state_def)
  have ab: "a_query ?b = a_query a" "a_fresh ?b = a_fresh a" by (simp_all add: link_state_def)
  have n: "q \<notin> Z" "\<And>t. q \<notin> set (the_queue t a)" using Q q by auto
  have e: "a_query a x \<noteq> None \<longleftrightarrow> x \<in> X - {q} \<or> x \<in> Z \<or> (\<exists>t. x \<in> set (the_queue t a) \<or> x = q \<and> t = s)" for x
    using Q q by (cases "x = q") auto
  have "queues_ok (X - {q}) Z ?b"
    unfolding queues_ok_def sub ab
    using Q n d e by (intro conjI allI ballI impI) (auto simp: e)
  moreover have "family_ok Z ?b = family_ok Z a" by (rule family_ok_query [OF ab(1)])
  moreover have "queue_ok ?b t u" if "x \<in> set (the_queue t ?b)" "a_query ?b x = Some u" for t x u
    using that wf_E(3) [OF w, of x t u] same_globals_ok [OF sg] q unfolding sub ab by auto
  ultimately show ?thesis
    using wf_E(1,4,5) [OF w] same_globals_ok [OF sg] ab by (intro consistent_I) simp_all
qed

lemma wf_free:
  assumes w: "consistent X (insert q Z) a" "q \<notin> Z"
  shows "consistent X Z (free_query q a)"
proof -
  let ?b = "free_query q a"
  note Q = wf_E(2) [OF w(1), unfolded queues_ok_def]
  have qq: "\<And>s. q \<notin> set (the_queue s a)" "q \<notin> X" using Q by auto
  have "global_ok ?b" using wf_E(1) [OF w(1)] by (simp add: global_ok_def)
  moreover have "queues_ok X Z ?b"
    using Q qq w(2) unfolding queues_ok_def free_query_simps by auto
  moreover have "queue_ok ?b s u" if "x \<in> set (the_queue s ?b)" "a_query ?b x = Some u" for s x u
  proof -
    have "queue_ok a s u" using that wf_E(3) [OF w(1), of x s u] by (simp split: if_splits)
    then show ?thesis by (cases s) simp_all
  qed
  moreover have "local_ok ?b u \<and> family_ok Z ?b x u" if x: "x \<notin> Z" "a_query ?b x = Some u" for x u
  proof -
    have "x \<noteq> q" "a_query a x = Some u" using x by (auto split: if_splits)
    then have "local_ok a u" "family_ok (insert q Z) a x u" using wf_E(4,5) [OF w(1)] x(1) by auto
    then show ?thesis by (auto simp: local_ok_def family_ok_def)
  qed
  ultimately show ?thesis by (simp add: consistent_def)
qed

text \<open>A query with no children leaves its parent and is about to be freed.\<close>

lemma wf_leave_parent:
  assumes w: "consistent X Z a" and q: "q \<in> X" "a_query a q = Some qu" "q_children qu = []"
    and p: "\<And>p. q_parent qu = Some p \<Longrightarrow> p \<in> X"
  shows "\<exists>b. leave_parent q qu a = Some b \<and> consistent (X - {q}) (insert q Z) b \<and> same_globals a b \<and>
    (\<forall>s. the_queue s b = the_queue s a) \<and> a_query b q = Some qu \<and> a_calls b = a_calls a \<and>
    (\<forall>x. q_parent qu \<noteq> Some x \<longrightarrow> a_query b x = a_query a x) \<and>
    (\<forall>p pu. q_parent qu = Some p \<longrightarrow> a_query a p = Some pu \<longrightarrow>
       a_query b p = Some (pu\<lparr>q_children := remove1 q (q_children pu)\<rparr>))"
proof -
  note Q = wf_E(2) [OF w, unfolded queues_ok_def]
  have qz: "q \<notin> Z" "\<And>s. q \<notin> set (the_queue s a)" using Q q by auto
  note f = wf_E(5) [OF w qz(1) q(2), unfolded family_ok_def]
  show ?thesis
  proof (cases "q_parent qu")
    case None
    have "queues_ok (X - {q}) (insert q Z) a" using Q q unfolding queues_ok_def by blast
    moreover have "family_ok (insert q Z) a x u" if "x \<noteq> q" "x \<notin> Z" "a_query a x = Some u" for x u
      using wf_E(5) [OF w that(2,3)] q None that unfolding family_ok_def by auto
    ultimately have "consistent (X - {q}) (insert q Z) a" using wf_E(1,3,4) [OF w] by (intro consistent_I) auto
    then show ?thesis using None q by (simp add: leave_parent_def)
  next
    case (Some p)
    obtain pu where pu: "a_query a p = Some pu" "q \<in> set (q_children pu)" "q_parent pu = None" "p \<notin> Z"
      using f Some by auto
    have pq: "p \<noteq> q" using pu(3) q(2) pu(1) Some by auto
    have pX: "p \<in> X" using p Some by simp
    have d: "distinct (q_children pu)" using wf_E(4) [OF w pu(4,1)] by (simp add: local_ok_def)
    let ?pu = "pu\<lparr>q_children := remove1 q (q_children pu)\<rparr>"
    let ?b = "put_query p ?pu a"
    have pn: "\<And>s. p \<notin> set (the_queue s a)" using Q pX by auto
    have "global_ok ?b" using wf_E(1) [OF w] by (simp add: global_ok_def)
    moreover have "queues_ok (X - {q}) (insert q Z) ?b"
      using Q q pu(1) pX unfolding queues_ok_def put_query_simps by auto
    moreover have "queue_ok ?b s u" if "x \<in> set (the_queue s ?b)" "a_query ?b x = Some u" for s x u
    proof -
      have "queue_ok a s u" using that pn wf_E(3) [OF w, of x s u] by (auto split: if_splits)
      then show ?thesis by (cases s) simp_all
    qed
    moreover have "local_ok ?b u" if x: "x \<notin> insert q Z" "a_query ?b x = Some u" for x u
      using x d wf_E(4) [OF w, of x u] wf_E(4) [OF w pu(4,1)]
      by (cases "x = p") (auto simp: local_ok_def distinct_remove1)
    moreover have "family_ok (insert q Z) ?b x u" if x: "x \<notin> insert q Z" "a_query ?b x = Some u" for x u
    proof -
      define v where "v = (if x = p then pu else u)"
      have v: "a_query a x = Some v" "q_parent v = q_parent u"
        "set (q_children u) \<subseteq> set (q_children v)" "q_children v = [] \<longrightarrow> q_children u = []"
        "q_kind v = q_kind u" "q_type v = q_type u" "q_flags v = q_flags u"
        using x pu(1) by (auto simp: v_def dest: set_mp [OF set_remove1_subset] split: if_splits)
      have xZ: "x \<notin> Z" "x \<noteq> q" using x by auto
      note fx = wf_E(5) [OF w xZ(1) v(1), unfolded family_ok_def, THEN conjunct1, rule_format]
        and fp = wf_E(5) [OF w xZ(1) v(1), unfolded family_ok_def, THEN conjunct2, rule_format]
      have nq: "q \<notin> set (q_children u)"
      proof
        assume "q \<in> set (q_children u)"
        then have "q \<in> set (q_children v)" using v(3) by blast
        then have "\<exists>cu. a_query a q = Some cu \<and> q_parent cu = Some x" using fx [of q] by blast
        then have "x = p" using q(2) Some by simp
        then show False using \<open>q \<in> set (q_children u)\<close> x(2) d by (auto simp: set_remove1_eq)
      qed
      have "c \<notin> insert q Z \<and> (\<exists>cu. a_query ?b c = Some cu \<and> q_parent cu = Some x)"
        if "c \<in> set (q_children u)" for c
      proof -
        have "c \<in> set (q_children v)" using that v(3) by blast
        then obtain cu where c: "c \<notin> Z" "a_query a c = Some cu" "q_parent cu = Some x"
          using fx [of c] by blast
        have "c \<noteq> p" using c(2,3) pu(1,3) by auto
        then show ?thesis using c nq that by auto
      qed
      moreover have "pp \<notin> insert q Z \<and> (\<exists>ppu. a_query ?b pp = Some ppu \<and> x \<in> set (q_children ppu) \<and>
          q_parent ppu = None)" if "q_parent u = Some pp" for pp
      proof -
        have "q_parent v = Some pp" using that v(2) by simp
        then obtain ppu where c: "pp \<notin> Z" "a_query a pp = Some ppu" "x \<in> set (q_children ppu)" "q_parent ppu = None"
          using fp [of pp] by blast
        have "pp \<noteq> q" using c q Some by auto
        then show ?thesis using c xZ pu(1) d by (auto simp: set_remove1_eq)
      qed
      moreover have "q_children u = [] \<and> q_kind u \<noteq> None \<and> q_type u = r_addr \<and>
          \<not> qf_search (q_flags u) \<and> \<not> qf_owner (q_flags u)" if "q_parent u = Some pp" for pp
        using fp [of pp] v that by simp
      ultimately show ?thesis unfolding family_ok_def by simp
    qed
    ultimately have "consistent (X - {q}) (insert q Z) ?b" by (intro consistent_I) auto
    moreover have "same_globals a ?b" by (simp add: same_globals_def)
    ultimately show ?thesis using Some pu pq q by (simp add: leave_parent_def unlink_Some)
  qed
qed

lemma filter_neq: "filter (\<lambda>y. x \<noteq> y) l = filter (\<lambda>y. y \<noteq> x) l"
  by (rule filter_cong) auto

lemma set_queue_put: "set_queue s l (put_query q qu a) = put_query q qu (set_queue s l a)"
  by (cases s) (simp_all add: set_queue_def put_query_def)

lemma leave_parent_set_queue:
  "leave_parent q qu (set_queue s l a) = map_option (set_queue s l) (leave_parent q qu a)"
  by (auto simp: leave_parent_def unlink_def set_queue_put split: option.splits Option.bind_splits)

lemma leave_parent_queue: "leave_parent q qu a = Some b \<Longrightarrow> the_queue s b = the_queue s a"
  by (auto simp: leave_parent_def unlink_def split: option.splits Option.bind_splits if_splits)

text \<open>A queued query without children leaves its parent and its queue, and is about to be freed.\<close>

lemma wf_detach:
  assumes w: "consistent X Z a" and q: "q \<in> set (the_queue s a)" "a_query a q = Some qu" "q_children qu = []"
    and p: "\<And>p. q_parent qu = Some p \<Longrightarrow> p \<in> X"
  shows "\<exists>a1 b. leave_parent q qu a = Some a1 \<and> unlink_state s q a1 = Some b \<and> consistent X (insert q Z) b \<and>
    same_globals a b \<and> a_calls b = a_calls a \<and> a_query b q = Some qu \<and>
    (\<forall>t. the_queue t b = filter (\<lambda>x. x \<noteq> q) (the_queue t a)) \<and>
    (\<forall>x. q_parent qu \<noteq> Some x \<longrightarrow> a_query b x = a_query a x) \<and>
    (\<forall>p pu. q_parent qu = Some p \<longrightarrow> a_query a p = Some pu \<longrightarrow>
       a_query b p = Some (pu\<lparr>q_children := remove1 q (q_children pu)\<rparr>))"
proof -
  let ?a = "set_queue s (remove1 q (the_queue s a)) a"
  note Q = wf_E(2) [OF w, unfolded queues_ok_def]
  have w1: "consistent (insert q X) Z ?a" using wf_unlink(2) [OF w q(1)] .
  have qX: "q \<notin> X" using Q q(1) by auto
  obtain b where b: "leave_parent q qu ?a = Some b" "consistent (insert q X - {q}) (insert q Z) b"
    "same_globals ?a b" "\<forall>s. the_queue s b = the_queue s ?a" "a_query b q = Some qu"
    "a_calls b = a_calls ?a" "\<forall>x. q_parent qu \<noteq> Some x \<longrightarrow> a_query b x = a_query ?a x"
    "\<forall>p pu. q_parent qu = Some p \<longrightarrow> a_query ?a p = Some pu \<longrightarrow>
       a_query b p = Some (pu\<lparr>q_children := remove1 q (q_children pu)\<rparr>)"
    using wf_leave_parent [OF w1, of q qu] q p by (auto simp del: set_queue_simps(1))
  obtain a1 where a1: "leave_parent q qu a = Some a1" "b = set_queue s (remove1 q (the_queue s a)) a1"
    using b(1) by (auto simp: leave_parent_set_queue)
  have "unlink_state s q a1 = Some b"
    using a1 q(1) leave_parent_queue [OF a1(1)] by (simp add: unlink_state_def unlink_Some)
  moreover have "same_globals a b" using b(3) by (simp add: same_globals_def)
  moreover have "the_queue t b = filter (\<lambda>x. x \<noteq> q) (the_queue t a)" for t
  proof (cases "t = s")
    case True
    then show ?thesis using b(4) Q by (simp add: distinct_remove1_removeAll removeAll_filter_not_eq) metis
  next
    case False
    then have "q \<notin> set (the_queue t a)" using Q q(1) by blast
    then have "filter (\<lambda>x. x \<noteq> q) (the_queue t a) = the_queue t a" by (intro filter_True) auto
    then show ?thesis using b(4) False by simp
  qed
  ultimately show ?thesis using a1(1) b qX by (simp add: insert_Diff_if)
qed

lemma wf_one_queue:
  "consistent X Z a \<Longrightarrow> q \<in> set (the_queue s a) \<Longrightarrow> q \<in> set (the_queue t a) \<Longrightarrow> s = t"
  by (drule wf_E(2)) (auto simp: queues_ok_def)

lemma wf_floating:
  assumes "consistent X Z a" "q \<in> X \<or> q \<in> Z"
  shows "q \<notin> set (the_queue t a)" "q \<notin> set (a_udpw a)" "q \<notin> set (a_tcpw a)" "q \<notin> set (a_childw a)"
    "q \<notin> set (a_output a)"
proof -
  have n: "q \<notin> set (the_queue t a)" for t
    using wf_E(2) [OF assms(1)] assms(2) unfolding queues_ok_def by blast
  show "q \<notin> set (the_queue t a)" by (rule n)
  show "q \<notin> set (a_udpw a)" "q \<notin> set (a_tcpw a)" "q \<notin> set (a_childw a)" "q \<notin> set (a_output a)"
    using n [of Tosend] n [of Tcpw] n [of Childw] n [of Done] by simp_all
qed

lemma wf_queued:
  assumes "consistent X Z a" "a_query a q = Some qu" "q \<notin> X" "q \<notin> Z"
  shows "q \<in> set (the_queue (q_state qu) a)" "queue_ok a (q_state qu) qu"
proof -
  obtain s where s: "q \<in> set (the_queue s a)"
    using wf_E(2) [OF assms(1)] assms by (auto simp: queues_ok_def)
  have "queue_ok a s qu" using wf_E(3) [OF assms(1) s assms(2)] .
  moreover then have "q_state qu = s" by (cases s) simp_all
  ultimately show "q \<in> set (the_queue (q_state qu) a)" "queue_ok a (q_state qu) qu" using s by simp_all
qed

text \<open>Cancelling the children of a query that is being worked on.\<close>

definition kept :: "ads \<Rightarrow> ads \<Rightarrow> nat set \<Rightarrow> bool" where
  "kept a b G \<longleftrightarrow>
     same_globals a b \<and> (\<forall>t. the_queue t b = filter (\<lambda>x. x \<notin> G) (the_queue t a))"

lemma cancel_list_Nil: "cancel_list [] a = Some a"
  by (subst cancel_list.simps) simp

lemma cancel_list_children:
  assumes "consistent X Z a" "q \<in> X" "a_query a q = Some qu" "\<forall>c \<in> set (q_children qu). c \<notin> X"
  shows "\<exists>b. cancel_list (q_children qu) a = Some b \<and> consistent X Z b \<and> kept a b (set (q_children qu)) \<and>
    a_calls b = a_calls a \<and> a_query b q = Some (qu\<lparr>q_children := []\<rparr>) \<and>
    (\<forall>x. x \<noteq> q \<longrightarrow> x \<notin> set (q_children qu) \<longrightarrow> a_query b x = a_query a x)"
  using assms
proof (induction "q_children qu" arbitrary: a qu)
  case Nil
  have "qu\<lparr>q_children := []\<rparr> = qu" using Nil.hyps by (cases qu) simp
  then show ?case using Nil by (simp add: cancel_list_Nil kept_def flip: Nil.hyps)
next
  case (Cons c cs)
  have qZ: "q \<notin> Z" using wf_E(2) [OF Cons.prems(1)] Cons.prems(2) by (auto simp: queues_ok_def)
  note f = wf_E(5) [OF Cons.prems(1) qZ Cons.prems(3), unfolded family_ok_def]
  have d: "distinct (c # cs)"
    using wf_E(4) [OF Cons.prems(1) qZ Cons.prems(3)] Cons.hyps(2) by (simp add: local_ok_def)
  obtain cu where cu: "a_query a c = Some cu" "q_parent cu = Some q" "c \<notin> Z" "c \<notin> X"
    using f Cons.prems(4) Cons.hyps(2) [symmetric] by auto
  have leaf: "q_children cu = []"
    using wf_E(5) [OF Cons.prems(1) cu(3,1)] cu(2) by (simp add: family_ok_def)
  obtain a1 b where b: "leave_parent c cu a = Some a1" "unlink_state (q_state cu) c a1 = Some b"
    "consistent X (insert c Z) b" "same_globals a b" "a_calls b = a_calls a" "a_query b c = Some cu"
    "\<forall>t. the_queue t b = filter (\<lambda>x. x \<noteq> c) (the_queue t a)"
    "\<forall>x. q_parent cu \<noteq> Some x \<longrightarrow> a_query b x = a_query a x"
    "a_query b q = Some (qu\<lparr>q_children := remove1 c (q_children qu)\<rparr>)"
    using wf_detach [OF Cons.prems(1) wf_queued(1) [OF Cons.prems(1) cu(1,4,3)] cu(1) leaf] cu
      Cons.prems(2,3) by auto
  let ?qu = "qu\<lparr>q_children := cs\<rparr>"
  let ?b = "free_query c b"
  have cq: "c \<noteq> q" using cu(4) Cons.prems(2) by auto
  have step: "cancel_list (q_children qu) a = cancel_list cs ?b"
    unfolding Cons.hyps(2) [symmetric]
    by (subst cancel_list.simps) (simp add: cu(1) b(1,2,6) leaf cancel_list_Nil)
  have "consistent X Z ?b" using wf_free [OF b(3) cu(3)] .
  moreover have "a_query ?b q = Some ?qu" using b(9) Cons.hyps(2) [symmetric] cq by simp
  ultimately obtain b2 where b2: "cancel_list cs ?b = Some b2" "consistent X Z b2" "kept ?b b2 (set cs)"
    "a_calls b2 = a_calls ?b" "a_query b2 q = Some (?qu\<lparr>q_children := []\<rparr>)"
    "\<forall>x. x \<noteq> q \<longrightarrow> x \<notin> set cs \<longrightarrow> a_query b2 x = a_query ?b x"
    using Cons.hyps(1) [of ?qu ?b] Cons.prems(2,4) Cons.hyps(2) [symmetric] by auto
  have "same_globals a ?b" using b(4) by (simp add: same_globals_def)
  then have "kept a b2 (set (q_children qu))"
    using b2(3) b(7) same_globals_trans unfolding kept_def Cons.hyps(2) [symmetric]
    by (auto intro: filter_cong)
  then show ?case
    using b2 b(5,8) cu(2) step Cons.hyps(2) [symmetric] by auto
qed

subsection \<open>Finishing a query\<close>

lemma wf_calls [simp]: "consistent X Z (a\<lparr>a_calls := n\<rparr>) = consistent X Z a"
proof -
  have "consistent X Z (c\<lparr>a_calls := m\<rparr>)" if "consistent X Z c" for c m
    using that by (rule wf_globals) (simp_all add: same_globals_def)
  from this [of a n] this [of "a\<lparr>a_calls := n\<rparr>" "a_calls a"] show ?thesis by auto
qed

lemma put_put: "put_query q x (put_query q y a) = put_query q x a"
  by (simp add: put_query_def)

lemma put_calls: "(put_query q x a)\<lparr>a_calls := n\<rparr> = put_query q x (a\<lparr>a_calls := n\<rparr>)"
  by (simp add: put_query_def)

lemma link_put: "link_state s q (put_query x u a) = put_query x u (link_state s q a)"
  by (simp add: link_state_def set_queue_put)

text \<open>What finishing leaves alone.\<close>

definition same_place :: "query \<Rightarrow> query \<Rightarrow> bool" where
  "same_place qu fu \<longleftrightarrow>
     q_state fu = q_state qu \<and> q_parent fu = q_parent qu \<and> q_children fu = q_children qu \<and>
     q_type fu = q_type qu \<and> q_kind fu = q_kind qu \<and> q_flags fu = q_flags qu \<and>
     q_nextserver fu = q_nextserver qu \<and> q_udpsent fu = q_udpsent qu \<and> q_pos fu = q_pos qu \<and>
     q_ptr fu = q_ptr qu \<and> q_status fu = q_status qu"

lemma sort_answer_Some: "\<exists>r. sort_answer sys a qu = Some r"
proof -
  have "\<exists>r. postsort_srv rnd i arr = Some r" for rnd i arr
    using postsort_srv_rearranges [of rnd i arr] by blast
  then show ?thesis by (simp add: sort_answer_def Let_def)
qed

lemma finish_answer_Some:
  assumes "qf_search (q_flags qu) \<Longrightarrow> q_owner qu = None"
  shows "\<exists>fu. finish_answer sys a qu = Some fu \<and> same_place qu fu \<and> q_id fu = - 1 \<and>
    (\<not> qf_search (q_flags qu) \<longrightarrow> q_owner fu = q_owner qu)"
proof -
  let ?b = "qf_search (q_flags qu) \<and> q_status qu \<noteq> s_nomemory"
  define o1 where "o1 = (if ?b then save_owner (q_search qu) (qu\<lparr>q_id := - 1\<rparr>) else Some (qu\<lparr>q_id := - 1\<rparr>))"
  obtain q2 where q2: "o1 = Some q2" "same_place qu q2" "q_id q2 = - 1"
    "\<not> qf_search (q_flags qu) \<longrightarrow> q_owner q2 = q_owner qu"
  proof (cases "?b \<and> qf_owner (q_flags qu)")
    case True
    then show ?thesis
      using assms that [of "qu\<lparr>q_id := - 1, q_owner := Some (q_search qu)\<rparr>"]
      by (simp add: o1_def save_owner_def same_place_def)
  next
    case False
    have "o1 = Some (qu\<lparr>q_id := - 1\<rparr>)" using False
      by (cases "qf_search (q_flags qu)"; cases "q_status qu = s_nomemory") (simp_all add: o1_def save_owner_def)
    then show ?thesis by (rule that) (simp_all add: same_place_def)
  qed
  obtain r where "sort_answer sys a q2 = Some r" using sort_answer_Some by blast
  moreover have "finish_answer sys a qu = o1 \<bind> (\<lambda>u. sort_answer sys a u \<bind>
      (\<lambda>rrs. Some (u\<lparr>q_rrs := rrs, q_ansexpires := q_expires u\<rparr>)))"
    unfolding finish_answer_def o1_def Let_def by simp
  ultimately have "finish_answer sys a qu = Some (q2\<lparr>q_rrs := r, q_ansexpires := q_expires q2\<rparr>)"
    by (simp add: q2(1))
  then show ?thesis using q2 by (simp add: same_place_def)
qed

text \<open>What happens to the queries that are not finished: some leave, the others stay as they are.\<close>

definition shrunk :: "nat set \<Rightarrow> ads \<Rightarrow> ads \<Rightarrow> bool" where
  "shrunk G a b \<longleftrightarrow>
     same_globals a b \<and> (\<forall>t \<in> {Tosend, Tcpw}. the_queue t b = filter (\<lambda>x. x \<notin> G) (the_queue t a)) \<and>
     (\<forall>t \<in> {Tosend, Tcpw}. \<forall>x \<in> set (the_queue t b). a_query b x = a_query a x) \<and>
     (\<forall>x \<in> set (a_output a). x \<in> set (a_output b) \<and> a_query b x = a_query a x)"

lemma shrunk_trans: "shrunk G a b \<Longrightarrow> shrunk H b c \<Longrightarrow> shrunk (G \<union> H) a c"
  unfolding shrunk_def using same_globals_trans by (auto intro: filter_cong)

lemma cancel_children_ok:
  assumes "consistent X Z a" "q \<in> X" "a_query a q = Some qu" "\<forall>c \<in> set (q_children qu). c \<notin> X"
  shows "\<exists>b. cancel_children q a = Some b \<and> consistent X Z b \<and> shrunk (set (q_children qu)) a b \<and>
    a_query b q = Some (qu\<lparr>q_children := []\<rparr>) \<and> a_childw b = filter (\<lambda>x. x \<notin> set (q_children qu)) (a_childw a) \<and>
    (\<forall>x. x \<noteq> q \<longrightarrow> x \<notin> set (q_children qu) \<longrightarrow> a_query b x = a_query a x)"
proof -
  obtain b where b: "cancel_list (q_children qu) a = Some b" "consistent X Z b" "kept a b (set (q_children qu))"
    "a_query b q = Some (qu\<lparr>q_children := []\<rparr>)"
    "\<forall>x. x \<noteq> q \<longrightarrow> x \<notin> set (q_children qu) \<longrightarrow> a_query b x = a_query a x"
    using cancel_list_children [OF assms] by blast
  have e: "a_query b x = a_query a x" if "x \<in> set (the_queue t b)" for t x
  proof -
    have "x \<notin> X" using wf_E(2) [OF b(2)] that unfolding queues_ok_def by blast
    moreover have "x \<notin> set (q_children qu)" using b(3) that by (auto simp: kept_def)
    moreover have "x \<noteq> q" using \<open>x \<notin> X\<close> assms(2) by auto
    ultimately show ?thesis using b(5) by blast
  qed
  have "x \<notin> set (q_children qu)" if x: "x \<in> set (a_output a)" for x
  proof
    assume c: "x \<in> set (q_children qu)"
    have "q \<notin> Z" using wf_E(2) [OF assms(1)] assms(2) by (auto simp: queues_ok_def)
    then obtain cu where "a_query a x = Some cu" "q_parent cu = Some q"
      using wf_E(5) [OF assms(1) _ assms(3)] c by (auto simp: family_ok_def)
    then show False using wf_E(3) [OF assms(1), of x Done] x by simp
  qed
  then have "x \<in> set (a_output b) \<and> a_query b x = a_query a x" if "x \<in> set (a_output a)" for x
    using that b(3) e [of x Done] the_queue_simps(4) [of b] by (simp add: kept_def)
  then have "shrunk (set (q_children qu)) a b"
    using b(3) e [of _ Tosend] e [of _ Tcpw] unfolding shrunk_def kept_def by blast
  moreover have "a_childw b = filter (\<lambda>x. x \<notin> set (q_children qu)) (a_childw a)"
    using b(3) by (simp add: kept_def) (metis the_queue_simps(3))
  ultimately show ?thesis using b assms(3) by (simp add: cancel_children_def)
qed

lemma cancel_children_leaf: "a_query a q = Some qu \<Longrightarrow> q_children qu = [] \<Longrightarrow> cancel_children q a = Some a"
  by (simp add: cancel_children_def cancel_list_Nil)

lemma query_done_top:
  assumes w: "consistent (insert q X) Z a" and q: "q \<notin> X" "a_query a q = Some qu" "q_parent qu = None"
    "q_state qu \<noteq> Done" and c: "\<forall>c \<in> set (q_children qu). c \<notin> insert q X"
  shows "\<exists>b. query_done sys q a = Some b \<and> consistent X Z b \<and> shrunk (set (q_children qu)) a b \<and>
    (\<forall>x \<in> Z. a_query b x = a_query a x) \<and>
    (\<exists>u. a_query b q = Some u \<and> q \<in> set (a_output b) \<and> q_status u = q_status qu)"
proof -
  obtain a1 where a1: "cancel_children q a = Some a1" "consistent (insert q X) Z a1"
    "shrunk (set (q_children qu)) a a1" "a_query a1 q = Some (qu\<lparr>q_children := []\<rparr>)"
    "\<forall>x. x \<noteq> q \<longrightarrow> x \<notin> set (q_children qu) \<longrightarrow> a_query a1 x = a_query a x"
    using cancel_children_ok [OF w _ q(2) c] by auto
  let ?q1 = "qu\<lparr>q_children := []\<rparr>"
  have qZ: "q \<notin> Z" using wf_E(2) [OF w] by (auto simp: queues_ok_def)
  have l: "local_ok a1 ?q1" using wf_E(4) [OF a1(2) qZ a1(4)] .
  obtain fu where fu: "finish_answer sys a1 ?q1 = Some fu" "same_place ?q1 fu" "q_id fu = - 1"
    using finish_answer_Some [of ?q1 sys a1] l q(4) by (auto simp: local_ok_def)
  let ?f = "fu\<lparr>q_state := Done\<rparr>" and ?c = "a1\<lparr>a_calls := a_calls a1 + 1\<rparr>"
  let ?b = "link_state Done q (put_query q ?f ?c)"
  have run: "query_done sys q a = Some ?b"
    using fu(2) q(3)
    by (subst query_done.simps)
      (simp add: a1(1,4) fu(1) same_place_def cancel_children_leaf put_calls change_query_def
        put_put link_state_def set_queue_put)
  have w1: "consistent (insert q X) Z (put_query q ?f ?c)"
    using a1(2,4) fu(2) l q(3)
    by (intro wf_put [where qu = ?q1]) (auto simp: same_place_def local_ok_def)
  have "consistent (insert q X - {q}) Z ?b"
    by (rule wf_link [OF w1]) (use fu(2,3) q(3) in \<open>auto simp: same_place_def\<close>)
  moreover have "insert q X - {q} = X" using q(1) by auto
  moreover have "shrunk (set (q_children qu)) a ?b"
    using a1(3) wf_floating [OF w, of q]
    by (auto simp: shrunk_def link_state_def same_globals_def)
  moreover have "a_query ?b x = a_query a x" if "x \<in> Z" for x
  proof -
    have "x \<notin> set (q_children qu)" using wf_E(5) [OF w qZ q(2)] that by (auto simp: family_ok_def)
    then show ?thesis using a1(5) that qZ by (auto simp: link_state_def)
  qed
  moreover have "\<exists>u. a_query ?b q = Some u \<and> q \<in> set (a_output ?b) \<and> q_status u = q_status qu"
    using fu(2) by (auto simp: link_state_def set_queue_def same_place_def)
  ultimately show ?thesis using run by auto
qed

lemma fail_with_ok:
  assumes "consistent X Z a" "q \<in> X" "a_query a q = Some qu" "\<forall>c \<in> set (q_children qu). c \<notin> X"
    and nd: "q_state qu \<noteq> Done"
  shows "\<exists>b. fail_with q st a = Some b \<and> consistent X Z b \<and> shrunk (set (q_children qu)) a b \<and>
    a_query b q = Some (qu\<lparr>q_children := [], q_rrs := [], q_status := st\<rparr>) \<and>
    a_childw b = filter (\<lambda>x. x \<notin> set (q_children qu)) (a_childw a) \<and>
    (\<forall>x. x \<noteq> q \<longrightarrow> x \<notin> set (q_children qu) \<longrightarrow> a_query b x = a_query a x)"
proof -
  obtain b where b: "cancel_children q a = Some b" "consistent X Z b" "shrunk (set (q_children qu)) a b"
    "a_query b q = Some (qu\<lparr>q_children := []\<rparr>)"
    "a_childw b = filter (\<lambda>x. x \<notin> set (q_children qu)) (a_childw a)"
    "\<forall>x. x \<noteq> q \<longrightarrow> x \<notin> set (q_children qu) \<longrightarrow> a_query b x = a_query a x"
    using cancel_children_ok [OF assms(1-4)] by blast
  let ?qu = "qu\<lparr>q_children := [], q_rrs := [], q_status := st\<rparr>" and ?b = "put_query q
    (qu\<lparr>q_children := [], q_rrs := [], q_status := st\<rparr>) b"
  have run: "fail_with q st a = Some ?b"
    using nd
    by (simp add: fail_with_def reset_preserved_def final_allocspace_def set_status_def change_query_def
        assms(3) b(1,4) put_put)
  have qZ: "q \<notin> Z" using wf_E(2) [OF assms(1)] assms(2) by (auto simp: queues_ok_def)
  have "local_ok b ?qu" using wf_E(4) [OF b(2) qZ b(4)] by (simp add: local_ok_def)
  then have "consistent X Z ?b"
    using wf_E(5) [OF b(2) qZ b(4)] by (intro wf_put [OF b(2) assms(2) b(4)]) (auto simp: family_ok_def)
  moreover have "shrunk (set (q_children qu)) a ?b"
    using b(3) wf_floating [OF b(2), of q] assms(2) by (auto simp: shrunk_def same_globals_def)
  ultimately show ?thesis using run b(5,6) by simp
qed

text \<open>The callback, up to the completion of the parent.\<close>

lemma leave_for_callback_ok:
  assumes w: "consistent (insert q X) Z a" and q: "q \<notin> X" "a_query a q = Some qu" "q_parent qu = Some p"
    and p: "p \<in> set (a_childw a)"
  shows "\<exists>b pu. leave_for_callback q p a = Some b \<and> consistent (insert p X) (insert q Z) b \<and>
    p \<notin> X \<and> p \<notin> Z \<and> p \<noteq> q \<and> shrunk {} a b \<and> a_query b q = Some qu \<and> a_query b p = Some pu \<and> q_parent pu = None \<and>
    q_state pu = Childw \<and> 0 \<le> q_id pu \<and> a_childw b = filter (\<lambda>x. x \<noteq> p) (a_childw a) \<and>
    (\<forall>c \<in> set (q_children pu). c \<noteq> q \<and> (c \<notin> X \<longrightarrow> c \<notin> insert p X)) \<and>
    (\<forall>x. x \<noteq> p \<longrightarrow> a_query b x = a_query a x)"
proof -
  have qZ: "q \<notin> Z" using wf_E(2) [OF w] by (auto simp: queues_ok_def)
  note f = wf_E(5) [OF w qZ q(2), unfolded family_ok_def]
  obtain pu where pu: "a_query a p = Some pu" "q \<in> set (q_children pu)" "q_parent pu = None" "p \<notin> Z"
    "q_children qu = []"
    using f q(3) by auto
  have pX: "p \<notin> insert q X" using wf_E(2) [OF w] p by (metis queues_ok_def the_queue_simps(3))
  have pq: "queue_ok a Childw pu" using wf_E(3) [OF w, of p Childw] p pu(1) by simp
  let ?a = "set_queue Childw (remove1 p (a_childw a)) a"
  have w1: "consistent (insert p (insert q X)) Z ?a" using wf_unlink(2) [OF w, of p Childw] p by simp
  obtain b where b: "leave_parent q qu ?a = Some b" "consistent (insert p (insert q X) - {q}) (insert q Z) b"
    "same_globals ?a b" "\<forall>s. the_queue s b = the_queue s ?a" "a_query b q = Some qu"
    "\<forall>x. q_parent qu \<noteq> Some x \<longrightarrow> a_query b x = a_query ?a x"
    "a_query b p = Some (pu\<lparr>q_children := remove1 q (q_children pu)\<rparr>)"
    using wf_leave_parent [OF w1, of q qu] q pu by (auto simp del: set_queue_simps(1))
  have run: "leave_for_callback q p a = Some b"
    using b(1) q(3) pu(1,2) p
    by (simp add: leave_for_callback_def leave_parent_def unlink_Some unlink_state_def set_queue_put)
  have d: "distinct (q_children pu)" "\<forall>c \<in> set (q_children pu). c \<noteq> p"
  proof -
    show "distinct (q_children pu)" using wf_E(4) [OF w pu(4,1)] by (simp add: local_ok_def)
    show "\<forall>c \<in> set (q_children pu). c \<noteq> p"
      using wf_E(5) [OF w pu(4,1)] pu(1,3) by (auto simp: family_ok_def)
  qed
  have "distinct (a_childw a)" using wf_E(2) [OF w] by (metis queues_ok_def the_queue_simps(3))
  then have cw: "a_childw b = filter (\<lambda>x. x \<noteq> p) (a_childw a)"
    using b(4) [rule_format, of Childw] by (simp add: distinct_remove1_removeAll removeAll_filter_not_eq filter_neq)
  have sh: "shrunk {} a b"
  proof -
    have "the_queue Tosend b = a_udpw a" "the_queue Tcpw b = a_tcpw a" "the_queue Done b = a_output a"
      using b(4) by simp_all
    moreover have "p \<notin> set (a_udpw a)" "p \<notin> set (a_tcpw a)" "p \<notin> set (a_output a)"
      using wf_one_queue [OF w, of p Childw Tosend] wf_one_queue [OF w, of p Childw Tcpw]
        wf_one_queue [OF w, of p Childw Done] p by auto
    ultimately show ?thesis
      using b(3,6) q(3) by (auto simp: shrunk_def same_globals_def)
  qed
  have "insert p (insert q X) - {q} = insert p X" using pX q(1) by auto
  then have w2: "consistent (insert p X) (insert q Z) b" using b(2) by simp
  have fr: "\<forall>x. x \<noteq> p \<longrightarrow> a_query b x = a_query a x" using b(6) q(3) by simp
  have kids: "\<forall>c \<in> set (remove1 q (q_children pu)). c \<noteq> q \<and> (c \<notin> X \<longrightarrow> c \<notin> insert p X)"
    using d by (auto simp: set_remove1_eq)
  let ?pu = "pu\<lparr>q_children := remove1 q (q_children pu)\<rparr>"
  have place: "q_parent ?pu = None" "q_state ?pu = Childw" "0 \<le> q_id ?pu" using pu(3) pq by simp_all
  have out: "p \<notin> X" "p \<noteq> q" using pX by simp_all
  show ?thesis
    by (intro exI [of _ b] exI [of _ ?pu] conjI run w2 sh b(5,7) pu(4) cw fr place out) (use kids in simp)
qed

lemma run_callback_ok:
  assumes w: "consistent {p} {q} a" and k: "q_kind cu = Some k" and p: "a_query a p = Some pu"
    "q_parent pu = None" "q_state pu = Childw" "0 \<le> q_id pu" "q \<notin> set (q_children pu)"
  shows "\<exists>r b. run_callback cu p a = Some r \<and> shrunk {} a b \<and>
    (\<forall>x. x \<noteq> p \<longrightarrow> a_query b x = a_query a x) \<and>
    ((r = Wait_more b \<and> consistent {} {q} b) \<or>
     (consistent {p} {q} b \<and> a_query b p \<noteq> None \<and>
      (\<forall>u. a_query b p = Some u \<longrightarrow> q_children u = q_children pu \<and> q_parent u = None \<and> q_state u = Childw) \<and>
      ((r = Parent_done b \<and> q_children pu = []) \<or> (\<exists>st. r = Parent_fail st b \<and> k = Child_ptr))))"
proof (cases k)
  case (Child_hostaddr slot)
  let ?h = "hostaddr_done slot cu pu"
  let ?a = "put_query p ?h a"
  have l: "local_ok a ?h"
    using wf_E(4) [OF w, of p pu] p wf_E(2) [OF w] by (auto simp: queues_ok_def local_ok_def hostaddr_done_def)
  have w1: "consistent {p} {q} ?a"
    using p(2) by (intro wf_put [OF w _ p(1) l]) (simp_all add: hostaddr_done_def)
  have sh: "shrunk {} a ?a"
    using wf_floating [OF w, of p] by (auto simp: shrunk_def same_globals_def)
  show ?thesis
  proof (cases "q_children pu = []")
    case True
    then show ?thesis using Child_hostaddr k p w1 sh
      by (intro exI [of _ "Parent_done ?a"] exI [of _ ?a])
        (simp add: run_callback_def Let_def, simp add: hostaddr_done_def)
  next
    case False
    have "consistent ({p} - {p}) {q} (link_state Childw p ?a)"
      by (rule wf_link [OF w1, where qu = ?h]) (use p False in \<open>simp_all add: hostaddr_done_def\<close>)
    moreover have "shrunk {} a (link_state Childw p ?a)"
      using sh by (simp add: shrunk_def same_globals_def link_state_def)
    ultimately show ?thesis using Child_hostaddr k p False
      by (intro exI [of _ "Wait_more (link_state Childw p ?a)"] exI [of _ "link_state Childw p ?a"])
        (simp add: run_callback_def Let_def link_state_def)
  qed
next
  case Child_ptr
  let ?st = "ptr_verdict cu pu"
  have sh: "shrunk {} a a" by (simp add: shrunk_def)
  consider "?st \<noteq> s_ok" | "?st = s_ok" "q_children pu = []" | "?st = s_ok" "q_children pu \<noteq> []" by blast
  then show ?thesis
  proof cases
    case 1
    then show ?thesis using Child_ptr k p w sh
      by (intro exI [of _ "Parent_fail ?st a"] exI [of _ a]) (simp add: run_callback_def)
  next
    case 2
    then show ?thesis using Child_ptr k p w sh
      by (intro exI [of _ "Parent_done a"] exI [of _ a]) (simp add: run_callback_def)
  next
    case 3
    have "consistent ({p} - {p}) {q} (link_state Childw p a)"
      by (rule wf_link [OF w _ p(1)]) (use p 3 in simp_all)
    moreover have "shrunk {} a (link_state Childw p a)"
      by (simp add: shrunk_def same_globals_def link_state_def)
    ultimately show ?thesis using Child_ptr k p 3
      by (intro exI [of _ "Wait_more (link_state Childw p a)"] exI [of _ "link_state Childw p a"])
        (simp add: run_callback_def link_state_def)
  qed
qed

text \<open>A parent that is not being worked on waits.\<close>

lemma wf_parent:
  assumes w: "consistent X {} a" and q: "a_query a q = Some qu" "q_parent qu = Some p" and X: "p \<notin> X"
  shows "p \<in> set (a_childw a)"
proof -
  obtain pu where pu: "a_query a p = Some pu" "q \<in> set (q_children pu)"
    using wf_E(5) [OF w _ q(1)] q(2) by (auto simp: family_ok_def)
  have "queue_ok a (q_state pu) pu" "p \<in> set (the_queue (q_state pu) a)"
    using wf_queued [OF w pu(1) X] by auto
  then show ?thesis using pu(2) by (cases "q_state pu") auto
qed

lemma wf_not_own_child:
  assumes w: "consistent X {} a" and q: "a_query a q = Some qu"
  shows "q \<notin> set (q_children qu)"
proof
  assume c: "q \<in> set (q_children qu)"
  then have "q_parent qu = Some q" using wf_E(5) [OF w _ q] q by (auto simp: family_ok_def)
  then have "q_children qu = []" using wf_E(5) [OF w _ q] by (auto simp: family_ok_def)
  then show False using c by simp
qed

text \<open>A child that waits has been where it is since a state with the same queues.\<close>

lemma child_was_there:
  assumes w: "consistent {p} {q} b" and sh: "shrunk {} a b" and p: "a_query b p = Some pu"
    and x: "x \<in> set (q_children pu)" "x \<noteq> p" and pq: "p \<noteq> q"
  shows "\<exists>u. a_query a x = Some u \<and> q_parent u = Some p"
proof -
  obtain u where u: "a_query b x = Some u" "q_parent u = Some p" "x \<noteq> q"
  proof -
    have "p \<notin> {q}" using pq by simp
    from wf_E(5) [OF w this p] show thesis using x(1) that by (auto simp: family_ok_def)
  qed
  have leaf: "q_children u = []" using wf_E(5) [OF w _ u(1)] u(2,3) by (simp add: family_ok_def)
  have "\<forall>y. a_query b y \<noteq> None \<longleftrightarrow> y \<in> {p} \<or> y \<in> {q} \<or> (\<exists>s. y \<in> set (the_queue s b))"
    using wf_E(2) [OF w] unfolding queues_ok_def by blast
  then have "a_query b x \<noteq> None \<longleftrightarrow> x \<in> {p} \<or> x \<in> {q} \<or> (\<exists>s. x \<in> set (the_queue s b))" by (rule spec)
  then have "\<exists>s. x \<in> set (the_queue s b)" using u(1,3) x(2) by simp
  then obtain s where s: "x \<in> set (the_queue s b)" by blast
  have "queue_ok b s u" by (rule wf_E(3) [OF w s u(1)])
  then have "s = Tosend \<or> s = Tcpw" using leaf u(2) by (cases s) auto
  then have "a_query b x = a_query a x" using sh s unfolding shrunk_def by blast
  then show ?thesis using u(1,2) by (intro exI [of _ u]) simp
qed

definition has_parent :: "ads \<Rightarrow> nat \<Rightarrow> bool" where
  "has_parent a x \<longleftrightarrow> (\<exists>u. a_query a x = Some u \<and> q_parent u \<noteq> None)"

lemma query_done_ok:
  assumes w: "consistent {q} {} a" and q: "a_query a q = Some qu" "q_state qu \<noteq> Done"
  shows "\<exists>b G. query_done sys q a = Some b \<and> consistent {} {} b \<and> shrunk G a b \<and>
    (q_children qu = [] \<and> (q_parent qu = None \<or> q_kind qu \<noteq> Some Child_ptr) \<longrightarrow> G = {}) \<and>
    (q_parent qu = None \<longrightarrow> (\<exists>u. a_query b q = Some u \<and> q \<in> set (a_output b) \<and> q_status u = q_status qu)) \<and>
    (\<forall>x \<in> G. has_parent a x)"
proof (cases "q_parent qu")
  case None
  have "\<forall>x \<in> set (q_children qu). has_parent a x"
    using wf_E(5) [OF w _ q(1)] by (fastforce simp: family_ok_def has_parent_def)
  moreover obtain b where "query_done sys q a = Some b" "consistent {} {} b" "shrunk (set (q_children qu)) a b"
    "\<exists>u. a_query b q = Some u \<and> q \<in> set (a_output b) \<and> q_status u = q_status qu"
    using query_done_top [OF w _ q(1) None q(2), of sys] wf_not_own_child [OF w q(1)] by auto
  ultimately show ?thesis by (intro exI [of _ b] exI [of _ "set (q_children qu)"]) auto
next
  case (Some p)
  note f = wf_E(5) [OF w _ q(1), unfolded family_ok_def, THEN conjunct2, rule_format, OF _ Some]
  have pw: "p \<in> set (a_childw a)" using wf_parent [OF w q(1) Some] f q(1) Some by fastforce
  have leaf: "q_children qu = []" and flags: "\<not> qf_search (q_flags qu)" "\<not> qf_owner (q_flags qu)"
    using f by auto
  obtain k where k: "q_kind qu = Some k" using f by auto
  obtain fu where fu: "finish_answer sys a qu = Some fu" "same_place qu fu"
    using finish_answer_Some [of qu sys a] flags by auto
  let ?a2 = "put_query q fu (a\<lparr>a_calls := Suc (a_calls a)\<rparr>)"
  have l: "local_ok a qu" using wf_E(4) [OF w _ q(1)] by simp
  have "local_ok (a\<lparr>a_calls := Suc (a_calls a)\<rparr>) fu"
    using l fu(2) flags by (simp add: local_ok_def same_place_def)
  then have w2: "consistent {q} {} ?a2"
    using w fu(2) q(1) flags by (intro wf_put [where qu = qu]) (simp_all add: same_place_def)
  obtain b pu where b: "leave_for_callback q p ?a2 = Some b" "consistent {p} {q} b" "p \<noteq> q" "shrunk {} ?a2 b"
    "a_query b q = Some fu" "a_query b p = Some pu" "q_parent pu = None" "q_state pu = Childw"
    "0 \<le> q_id pu" "\<forall>c \<in> set (q_children pu). c \<noteq> q" "\<forall>c \<in> set (q_children pu). c \<noteq> p"
    using leave_for_callback_ok [of q "{}" "{}" ?a2 fu p] w2 pw Some fu(2) by (auto simp: same_place_def)
  have fuk: "q_kind fu = Some k" using k fu(2) by (simp add: same_place_def)
  have nq: "q \<notin> set (q_children pu)" using b(10) by auto
  obtain r b1 where r: "run_callback fu p b = Some r" "shrunk {} b b1"
    "\<forall>x. x \<noteq> p \<longrightarrow> a_query b1 x = a_query b x"
    "(r = Wait_more b1 \<and> consistent {} {q} b1) \<or>
     (consistent {p} {q} b1 \<and> a_query b1 p \<noteq> None \<and>
      (\<forall>u. a_query b1 p = Some u \<longrightarrow> q_children u = q_children pu \<and> q_parent u = None \<and> q_state u = Childw) \<and>
      ((r = Parent_done b1 \<and> q_children pu = []) \<or> (\<exists>st. r = Parent_fail st b1 \<and> k = Child_ptr)))"
    using run_callback_ok [OF b(2) fuk b(6-9) nq] by blast
  have sh0: "shrunk {} a ?a2"
    using wf_floating [OF w, of q] by (auto simp: shrunk_def same_globals_def)
  then have sh: "shrunk {} a b1" using shrunk_trans [OF sh0 shrunk_trans [OF b(4) r(2)]] by simp
  obtain c G where c: "(case r of Wait_more x \<Rightarrow> Some x | Parent_done x \<Rightarrow> query_done sys p x
      | Parent_fail st x \<Rightarrow> do { y \<leftarrow> fail_with p st x; query_done sys p y }) = Some c"
    "consistent {} {q} c" "shrunk G b1 c" "a_query c q = Some fu" "k \<noteq> Child_ptr \<longrightarrow> G = {}"
    "\<forall>x \<in> G. has_parent a x"
    using r(4)
  proof (elim disjE conjE exE, goal_cases)
    case 1
    show ?case by (rule 1(1) [of b1 "{}"]) (use 1 r(3) b(3,5) in \<open>simp_all add: shrunk_def\<close>)
  next
    case 2
    then obtain u where u: "a_query b1 p = Some u" "q_parent u = None" "q_state u = Childw" "q_children u = []"
      by auto
    have w3: "consistent (insert p {}) {q} b1" using 2 by simp
    show ?case
      using query_done_top [OF w3 _ u(1,2), of sys] u r(3) b(3,5) 2(1) [of _ "{}"] 2(5) by auto
  next
    case (3 st)
    then obtain u where u: "a_query b1 p = Some u" "q_parent u = None" "q_state u = Childw"
      "q_children u = q_children pu"
      by auto
    obtain y where y: "fail_with p st b1 = Some y" "consistent {p} {q} y" "shrunk (set (q_children u)) b1 y"
      "a_query y p = Some (u\<lparr>q_children := [], q_rrs := [], q_status := st\<rparr>)"
      "\<forall>x. x \<noteq> p \<longrightarrow> x \<notin> set (q_children u) \<longrightarrow> a_query y x = a_query b1 x"
      using fail_with_ok [of "{p}" "{q}" b1 p u st] 3 u b(11) by auto
    have yq: "a_query y q = Some fu" using y(5) u(4) b(3,5,10) r(3) by metis
    have w3: "consistent (insert p {}) {q} y" using y(2) by simp
    obtain z where "query_done sys p y = Some z" "consistent {} {q} z" "shrunk {} y z" "a_query z q = Some fu"
      using query_done_top [OF w3 _ y(4), of sys] u yq by auto
    moreover have "has_parent a x" if "x \<in> set (q_children u)" for x
      using child_was_there [OF 3(2) sh u(1) that] that u(4) b(3,11) unfolding has_parent_def by fastforce
    ultimately show ?case
      using 3(1) [of z "set (q_children u)"] 3(5,6) y(1,3) shrunk_trans [OF y(3), of "{}" z] by simp
  qed
  have run: "query_done sys q a = Some (free_query q c)"
    using Some leaf fu(2)
    by (subst query_done.simps)
      (simp add: cancel_children_leaf q(1) fu(1) same_place_def put_calls b(1) r(1) c(1,4))
  have "consistent {} {} (free_query q c)" using wf_free [OF c(2)] by simp
  moreover have "shrunk G a (free_query q c)"
    using shrunk_trans [OF sh c(3)] wf_floating [OF c(2), of q] by (auto simp: shrunk_def same_globals_def)
  ultimately show ?thesis using run c(5,6) k Some by auto
qed

lemma query_fail_ok:
  assumes w: "consistent {q} {} a" and q: "a_query a q = Some qu" "q_state qu \<noteq> Done"
  shows "\<exists>b G. query_fail sys q st a = Some b \<and> consistent {} {} b \<and> shrunk G a b \<and>
    (q_children qu = [] \<and> (q_parent qu = None \<or> q_kind qu \<noteq> Some Child_ptr) \<longrightarrow> G = {}) \<and>
    (q_parent qu = None \<longrightarrow> (\<exists>u. a_query b q = Some u \<and> q \<in> set (a_output b) \<and> q_status u = st)) \<and>
    (\<forall>x \<in> G. has_parent a x)"
proof -
  obtain a1 where a1: "fail_with q st a = Some a1" "consistent {q} {} a1" "shrunk (set (q_children qu)) a a1"
    "a_query a1 q = Some (qu\<lparr>q_children := [], q_rrs := [], q_status := st\<rparr>)"
    "\<forall>x. x \<noteq> q \<longrightarrow> x \<notin> set (q_children qu) \<longrightarrow> a_query a1 x = a_query a x"
    using fail_with_ok [OF w _ q(1) _ q(2), of st] wf_not_own_child [OF w q(1)] by auto
  have kids: "\<forall>x \<in> set (q_children qu). has_parent a x"
    using wf_E(5) [OF w _ q(1)] by (fastforce simp: family_ok_def has_parent_def)
  obtain b G where b: "query_done sys q a1 = Some b" "consistent {} {} b" "shrunk G a1 b"
    "q_parent qu = None \<or> q_kind qu \<noteq> Some Child_ptr \<longrightarrow> G = {}"
    "q_parent qu = None \<longrightarrow> (\<exists>u. a_query b q = Some u \<and> q \<in> set (a_output b) \<and> q_status u = st)"
    "\<forall>x \<in> G. has_parent a1 x"
  proof -
    have "\<exists>b G. query_done sys q a1 = Some b \<and> consistent {} {} b \<and> shrunk G a1 b \<and>
        (q_parent qu = None \<or> q_kind qu \<noteq> Some Child_ptr \<longrightarrow> G = {}) \<and>
        (q_parent qu = None \<longrightarrow> (\<exists>u. a_query b q = Some u \<and> q \<in> set (a_output b) \<and> q_status u = st)) \<and>
        (\<forall>x \<in> G. has_parent a1 x)"
      using query_done_ok [OF a1(2,4), of sys] q(2) by simp
    then show ?thesis by (elim exE conjE) (rule that)
  qed
  have "query_fail sys q st a = Some b" using a1(1) b(1) by (simp add: query_fail_def)
  moreover have "shrunk (set (q_children qu) \<union> G) a b" using shrunk_trans [OF a1(3) b(3)] .
  moreover have "has_parent a x" if "x \<in> G" for x
    using b(6) that a1(4,5) q(1) kids unfolding has_parent_def by (cases "x = q \<or> x \<in> set (q_children qu)") fastforce+
  ultimately show ?thesis using b(2,4,5) kids
    by (intro exI [of _ b] exI [of _ "set (q_children qu) \<union> G"]) auto
qed

subsection \<open>The TCP connection\<close>

lemma consistent_change:
  assumes w: "consistent X Z a"
    and same: "a_query b = a_query a" "\<And>s. the_queue s b = the_queue s a" "a_fresh b = a_fresh a"
      "a_servers b = a_servers a" "a_searchlist b = a_searchlist a"
    and g: "global_ok b"
    and r: "\<And>q qu. q \<in> set (a_tcpw a) \<Longrightarrow> a_query a q = Some qu \<Longrightarrow>
      q_retries qu \<le> nservers a + (if a_tcpstate b \<in> {Server_ok, Broken} then 1 else 0)"
  shows "consistent X Z b"
proof (rule consistent_I)
  show "queues_ok X Z b" using wf_E(2) [OF w] same by (simp add: queues_ok_def)
  fix q qu
  show "q \<in> set (the_queue s b) \<Longrightarrow> a_query b q = Some qu \<Longrightarrow> queue_ok b s qu" for s
    using wf_E(3) [OF w, of q s qu] r [of q qu] same by (cases s) simp_all
  show "q \<notin> Z \<Longrightarrow> a_query b q = Some qu \<Longrightarrow> local_ok b qu"
    using wf_E(4) [OF w, of q qu] same by (simp add: local_ok_def)
  show "q \<notin> Z \<Longrightarrow> a_query b q = Some qu \<Longrightarrow> family_ok Z b q qu"
    using wf_E(5) [OF w, of q qu] same by (simp add: family_ok_def)
qed (rule g)

text \<open>The records may only change their count of retries.\<close>

definition retried :: "ads \<Rightarrow> ads \<Rightarrow> bool" where
  "retried a b \<longleftrightarrow>
     a_servers b = a_servers a \<and> (\<forall>s. the_queue s b = the_queue s a) \<and> a_fresh b = a_fresh a \<and>
     a_searchlist b = a_searchlist a \<and>
     (\<forall>q qu. a_query a q = Some qu \<longrightarrow> (\<exists>n. a_query b q = Some (qu\<lparr>q_retries := n\<rparr>)))"

lemma same_retries: "\<exists>n. u = u\<lparr>q_retries := n\<rparr>"
  by (rule exI [of _ "q_retries u"]) simp

lemma retried_refl [simp]: "retried a a"
  by (simp add: retried_def same_retries)

lemma retried_trans:
  assumes "retried a b" "retried b c"
  shows "retried a c"
proof -
  have "\<exists>n. a_query c q = Some (qu\<lparr>q_retries := n\<rparr>)" if "a_query a q = Some qu" for q qu
  proof -
    obtain m where "a_query b q = Some (qu\<lparr>q_retries := m\<rparr>)" using assms(1) \<open>a_query a q = Some qu\<close> unfolding retried_def by blast
    then obtain k where "a_query c q = Some (qu\<lparr>q_retries := m\<rparr>\<lparr>q_retries := k\<rparr>)"
      using assms(2) unfolding retried_def by blast
    then show ?thesis by auto
  qed
  then show ?thesis using assms unfolding retried_def by simp
qed

text \<open>Counting retries keeps everything but the bound of the queue.\<close>

lemma consistent_retries:
  assumes w: "consistent X Z a" and g: "global_ok b"
    and r1: "\<And>q. q \<notin> set (a_tcpw a) \<Longrightarrow> a_query b q = a_query a q"
    and r2: "\<And>q qu. q \<in> set (a_tcpw a) \<Longrightarrow> a_query a q = Some qu \<Longrightarrow>
      \<exists>n. a_query b q = Some (qu\<lparr>q_retries := n\<rparr>) \<and>
        n \<le> nservers a + (if a_tcpstate b \<in> {Server_ok, Broken} then 1 else 0)"
    and b: "\<And>s. the_queue s b = the_queue s a" "a_fresh b = a_fresh a" "a_servers b = a_servers a"
      "a_searchlist b = a_searchlist a"
  shows "consistent X Z b" "retried a b"
proof -
  have up: "\<exists>n. a_query b x = Some (u\<lparr>q_retries := n\<rparr>)" if "a_query a x = Some u" for x u
  proof (cases "x \<in> set (a_tcpw a)")
    case True
    then show ?thesis using r2 that by blast
  next
    case False
    then show ?thesis using r1 that by (intro exI [of _ "q_retries u"]) simp
  qed
  have down: "\<exists>v. a_query a x = Some v \<and> (\<exists>n. u = v\<lparr>q_retries := n\<rparr>)" if bx: "a_query b x = Some u" for x u
  proof (cases "a_query a x")
    case None
    then have "x \<notin> set (a_tcpw a)" using wf_get [OF w, of x Tcpw] by auto
    then show ?thesis using r1 None bx by simp
  next
    case (Some v)
    then obtain n where "u = v\<lparr>q_retries := n\<rparr>" using up [OF Some] bx by auto
    then show ?thesis using Some by blast
  qed
  have dom: "a_query b x \<noteq> None \<longleftrightarrow> a_query a x \<noteq> None" for x
    using up [of x] down [of x] by (cases "a_query a x"; cases "a_query b x") auto
  show "retried a b" using up b by (simp add: retried_def)
  show "consistent X Z b"
  proof (rule consistent_I)
    show "queues_ok X Z b" using wf_E(2) [OF w] b dom by (simp add: queues_ok_def)
    fix x u
    show "queue_ok b s u" if x: "x \<in> set (the_queue s b)" "a_query b x = Some u" for s
    proof -
      obtain v n where v: "a_query a x = Some v" "u = v\<lparr>q_retries := n\<rparr>" using down x(2) by blast
      have qo: "queue_ok a s v" using wf_E(3) [OF w, of x s v] x(1) v(1) b(1) by simp
      show ?thesis
      proof (cases "s = Tcpw")
        case True
        then have "x \<in> set (a_tcpw a)" using x(1) b(1) by simp
        from r2 [OF this v(1)] obtain k where k: "u = v\<lparr>q_retries := k\<rparr>"
          "k \<le> nservers a + (if a_tcpstate b \<in> {Server_ok, Broken} then 1 else 0)"
          using x(2) by auto
        show ?thesis using k(2) qo True b(3) unfolding k(1) by simp
      next
        case False
        then have "x \<notin> set (a_tcpw a)" using wf_one_queue [OF w, of x s Tcpw] x(1) b(1) by auto
        then have "u = v" using r1 v(1) x(2) by simp
        then show ?thesis using qo False by (cases s) simp_all
      qed
    qed
    show "x \<notin> Z \<Longrightarrow> a_query b x = Some u \<Longrightarrow> local_ok b u"
      using wf_E(4) [OF w, of x] down [of x u] b by (auto simp: local_ok_def)
    show "family_ok Z b x u" if xZ: "x \<notin> Z" and bx: "a_query b x = Some u"
    proof -
      obtain v n where v: "a_query a x = Some v" "u = v\<lparr>q_retries := n\<rparr>" using down [OF bx] by blast
      have f: "family_ok Z a x v" using wf_E(5) [OF w xZ v(1)] .
      have up': "\<exists>cu'. a_query b c = Some cu' \<and> q_parent cu' = q_parent cu \<and> q_children cu' = q_children cu"
        if "a_query a c = Some cu" for c cu
        using up [OF that] by auto
      have "c \<notin> Z \<and> (\<exists>cu. a_query b c = Some cu \<and> q_parent cu = Some x)" if "c \<in> set (q_children u)" for c
      proof -
        have "c \<in> set (q_children v)" using that v by simp
        then obtain cu where "c \<notin> Z" "a_query a c = Some cu" "q_parent cu = Some x"
          using f by (auto simp: family_ok_def)
        then show ?thesis using up' by metis
      qed
      moreover have "p \<notin> Z \<and> (\<exists>pu. a_query b p = Some pu \<and> x \<in> set (q_children pu) \<and> q_parent pu = None)"
        if "q_parent u = Some p" for p
      proof -
        have "q_parent v = Some p" using that v by simp
        then obtain pu where "p \<notin> Z" "a_query a p = Some pu" "x \<in> set (q_children pu)" "q_parent pu = None"
          using f by (auto simp: family_ok_def)
        then show ?thesis using up' by metis
      qed
      ultimately show ?thesis using f v unfolding family_ok_def by auto
    qed
  qed (rule g)
qed

end
