(* ===== verification/AdnsTcp.thy ===== *)
theory AdnsTcp
  imports AdnsInv
begin

text \<open>
  Sending keeps the query machine consistent: the TCP connection, UDP datagrams, search lists and
  submission.
\<close>

text \<open>No query that waits for TCP checks an address for its parent.\<close>

definition no_ptr :: "ads \<Rightarrow> bool" where
  "no_ptr a \<longleftrightarrow> (\<forall>q \<in> set (a_tcpw a). \<forall>qu. a_query a q = Some qu \<longrightarrow> q_kind qu \<noteq> Some Child_ptr)"

lemma no_ptr_retried:
  assumes "no_ptr a" "retried a b" "consistent X Z a" shows "no_ptr b"
  unfolding no_ptr_def
proof (intro ballI allI impI)
  fix q u assume q: "q \<in> set (a_tcpw b)" "a_query b q = Some u"
  have qa: "q \<in> set (a_tcpw a)" using q(1) assms(2) unfolding retried_def by (metis the_queue_simps(2))
  then obtain v where v: "a_query a q = Some v" using wf_get [OF assms(3), of q Tcpw] by auto
  then have "q_kind u = q_kind v" using assms(2) q(2) unfolding retried_def by fastforce
  then show "q_kind u \<noteq> Some Child_ptr" using assms(1) qa v by (simp add: no_ptr_def)
qed

lemma tcp_broken_ok:
  assumes w: "consistent X Z a" and s: "a_tcpstate a = Connecting \<or> a_tcpstate a = Server_ok"
  shows "\<exists>b. tcp_broken a = Some b \<and> consistent X Z b \<and> a_tcpstate b = Broken \<and> retried a b"
proof -
  let ?a1 = "if a_tcpstate a = Connecting then retry_all (a_tcpw a) a else a"
  let ?b = "(tcp_close ?a1)\<lparr>a_tcpstate := Broken, a_tcpserver := (a_tcpserver a + 1) mod nservers a\<rparr>"
  have run: "tcp_broken a = Some ?b" using s by (simp add: tcp_broken_def Let_def)
  have st: "a_servers ?b = a_servers a" "a_fresh ?b = a_fresh a" "a_searchlist ?b = a_searchlist a"
    "the_queue t ?b = the_queue t a" "a_tcpstate ?b = Broken" for t
    by (simp_all add: tcp_close_def retry_all_def)
  have g: "global_ok ?b"
    using wf_E(1) [OF w] by (auto simp: global_ok_def tcp_close_def retry_all_def)
  have q: "a_query ?b = (if a_tcpstate a = Connecting then a_query (retry_all (a_tcpw a) a) else a_query a)"
    by (simp add: tcp_close_def)
  have "\<exists>n. a_query ?b x = Some (qu\<lparr>q_retries := n\<rparr>) \<and>
      n \<le> nservers a + (if a_tcpstate ?b \<in> {Server_ok, Broken} then 1 else 0)"
    if x: "x \<in> set (a_tcpw a)" "a_query a x = Some qu" for x qu
  proof (cases "a_tcpstate a = Connecting")
    case True
    then show ?thesis using wf_E(3) [OF w, of x Tcpw qu] x
      by (intro exI [of _ "Suc (q_retries qu)"]) (simp add: retry_all_def tcp_close_def)
  next
    case False
    then show ?thesis using wf_E(3) [OF w, of x Tcpw qu] x s
      by (intro exI [of _ "q_retries qu"]) (simp add: tcp_close_def)
  qed
  then have "consistent X Z ?b" "retried a ?b"
    using consistent_retries [OF w g _ _ st(4,2,1,3)] q by (auto simp: retry_all_def)
  then show ?thesis using run st(5) by auto
qed

text \<open>What follows the sending of one query over the connection: the connection stands or is broken.\<close>

lemma querysend_tcp_ok:
  assumes w: "consistent X Z a" and q: "q \<in> set (a_tcpw a)" "a_query a q = Some qu"
    and r: "a_tcpstate a = Server_ok \<Longrightarrow> q_retries qu \<le> nservers a"
  shows "\<exists>b. querysend_tcp sys q a = Some b \<and> consistent X Z b \<and> retried a b \<and>
    (\<forall>x. x \<noteq> q \<longrightarrow> a_query b x = a_query a x) \<and>
    (if a_tcpstate a = Server_ok then a_tcpstate b \<in> {Server_ok, Broken} else b = a)"
proof (cases "a_tcpstate a = Server_ok")
  case False
  then show ?thesis using w by (simp add: querysend_tcp_def)
next
  case True
  let ?qu = "qu\<lparr>q_retries := q_retries qu + 1\<rparr>"
  have st: "q_state qu = Tcpw" using wf_E(3) [OF w, of q Tcpw qu] q by simp
  have key: "consistent X Z c \<and> retried a c"
    if c: "a_query c = (a_query a)(q \<mapsto> ?qu)" "\<And>s. the_queue s c = the_queue s a" "a_fresh c = a_fresh a"
      "a_servers c = a_servers a" "a_searchlist c = a_searchlist a" "a_tcpstate c = Server_ok" "global_ok c" for c
  proof -
    have "\<exists>n. a_query c x = Some (u\<lparr>q_retries := n\<rparr>) \<and>
        n \<le> nservers a + (if a_tcpstate c \<in> {Server_ok, Broken} then 1 else 0)"
      if x: "x \<in> set (a_tcpw a)" "a_query a x = Some u" for x u
    proof (cases "x = q")
      case True
      then show ?thesis using c r [OF \<open>a_tcpstate a = Server_ok\<close>] q x by auto
    next
      case False
      then show ?thesis using c(1) x wf_E(3) [OF w, of x Tcpw u] c(6) True
        by (intro exI [of _ "q_retries u"]) simp
    qed
    note r2 = this
    have r1: "a_query c x = a_query a x" if "x \<notin> set (a_tcpw a)" for x using that c(1) q(1) by auto
    show ?thesis
      by (intro conjI; rule consistent_retries [OF w c(7)], erule r1, erule (1) r2) (rule c)+
  qed
  have g: "global_ok a" by (rule wf_E(1) [OF w])
  let ?a1 = "(put_query q ?qu a)\<lparr>a_tcptimeout := (0, 0)\<rparr>"
  have g1: "global_ok (?a1\<lparr>a_calls := n, a_tcpsend := s, a_wire := v\<rparr>)"
    "global_ok (?a1\<lparr>a_calls := n, a_tcpsend := s\<rparr>)" "global_ok (?a1\<lparr>a_tcpsend := s\<rparr>)"
    "global_ok (?a1\<lparr>a_calls := n\<rparr>)" for n s v
    using g True by (simp_all add: global_ok_def)
  consider (buffer) "a_tcpsend a \<noteq> []" | (error) "a_tcpsend a = []" "s_writev sys (a_calls a) = Write_error"
    | (again) "a_tcpsend a = []" "s_writev sys (a_calls a) = Write_again"
    | (wrote) n where "a_tcpsend a = []" "s_writev sys (a_calls a) = Wrote n"
    by (cases "s_writev sys (a_calls a)") auto
  then show ?thesis
  proof cases
    case buffer
    then show ?thesis
      using True q st key [of "?a1\<lparr>a_tcpsend := a_tcpsend a @ tcp_rest 0 (q_dgram qu)\<rparr>"] g1
      by (simp add: querysend_tcp_def Let_def)
  next
    case error
    have k: "consistent X Z (call_done ?a1) \<and> retried a (call_done ?a1)"
      using g1(4) True by (intro key) (simp_all add: call_done_def)
    have "a_tcpstate (call_done ?a1) = Server_ok" using True by (simp add: call_done_def)
    then obtain b where b: "tcp_broken (call_done ?a1) = Some b" "consistent X Z b" "a_tcpstate b = Broken"
      "retried (call_done ?a1) b"
      using tcp_broken_ok k by blast
    have "\<forall>x. x \<noteq> q \<longrightarrow> a_query b x = a_query a x"
      using b(1) True by (auto simp: tcp_broken_def call_done_def tcp_close_def)
    then show ?thesis
      using True q st error b k retried_trans [of a "call_done ?a1" b] by (simp add: querysend_tcp_def)
  next
    case again
    then show ?thesis
      using True q st key [of "(call_done ?a1)\<lparr>a_tcpsend := tcp_rest 0 (q_dgram qu)\<rparr>"] g1
      by (simp add: querysend_tcp_def call_done_def)
  next
    case (wrote n)
    let ?wr = "min n (2 + length (q_dgram qu))"
    show ?thesis
      using wrote True q st key [of "(call_done ?a1)\<lparr>a_tcpsend := tcp_rest ?wr (q_dgram qu),
        a_wire := a_wire a @ take ?wr (put_w (length (q_dgram qu)) @ q_dgram qu)\<rparr>"] g1
      by (simp add: querysend_tcp_def call_done_def Let_def)
  qed
qed

lemma send_all_ok:
  assumes "consistent X Z a" "set qs \<subseteq> set (a_tcpw a)" "distinct qs"
    and "\<And>q qu. a_tcpstate a = Server_ok \<Longrightarrow> q \<in> set qs \<Longrightarrow> a_query a q = Some qu \<Longrightarrow> q_retries qu \<le> nservers a"
    and "a_tcpstate a \<in> {Server_ok, Broken}"
  shows "\<exists>b. send_all sys qs a = Some b \<and> consistent X Z b \<and> retried a b \<and> a_tcpstate b \<in> {Server_ok, Broken}"
  using assms
proof (induction qs arbitrary: a)
  case (Cons q qs)
  show ?case
  proof (cases "a_tcpstate a = Server_ok")
    case True
    have qt: "q \<in> set (a_tcpw a)" using Cons.prems(2) by simp
    obtain qu where qu: "a_query a q = Some qu" using wf_get [OF Cons.prems(1), of q Tcpw] qt by auto
    have st: "q_state qu = Tcpw" using wf_E(3) [OF Cons.prems(1), of q Tcpw qu] qt qu by simp
    obtain b where b: "querysend_tcp sys q a = Some b" "consistent X Z b" "retried a b"
      "\<forall>x. x \<noteq> q \<longrightarrow> a_query b x = a_query a x" "a_tcpstate b \<in> {Server_ok, Broken}"
      using querysend_tcp_ok [OF Cons.prems(1) qt qu, of sys] Cons.prems(4) [OF True _ qu] True by auto
    have "a_tcpw b = a_tcpw a" "a_servers b = a_servers a"
      using b(3) unfolding retried_def by (metis the_queue_simps(2), simp)
    moreover have "q_retries u \<le> nservers b" if "x \<in> set qs" "a_query b x = Some u" for x u
      using that b(4) Cons.prems(3,4) True calculation by (metis distinct.simps(2) list.set_intros(2))
    ultimately obtain c where "send_all sys qs b = Some c" "consistent X Z c" "retried b c"
      "a_tcpstate c \<in> {Server_ok, Broken}"
      using Cons.IH [OF b(2)] Cons.prems(2,3) b(5) by auto
    then show ?thesis using True qu st b(1,3) retried_trans by auto
  next
    case False
    then show ?thesis using Cons.prems by simp
  qed
qed simp

lemma tcp_connected_ok:
  assumes w: "consistent X Z a" and s: "a_tcpstate a = Connecting"
  shows "\<exists>b. tcp_connected sys a = Some b \<and> consistent X Z b \<and> retried a b \<and> a_tcpstate b \<in> {Server_ok, Broken}"
proof -
  let ?a = "a\<lparr>a_tcpstate := Server_ok\<rparr>"
  have r: "q_retries qu \<le> nservers a" if "q \<in> set (a_tcpw a)" "a_query a q = Some qu" for q qu
    using wf_E(3) [OF w, of q Tcpw qu] that s by simp
  have "global_ok ?a" using wf_E(1) [OF w] s by (simp add: global_ok_def)
  then have w1: "consistent X Z ?a" by (intro consistent_change [OF w]) (auto dest: r)
  have "distinct (a_tcpw a)" using wf_E(2) [OF w] unfolding queues_ok_def by (metis the_queue_simps(2))
  then obtain b where "send_all sys (a_tcpw a) ?a = Some b" "consistent X Z b" "retried ?a b"
    "a_tcpstate b \<in> {Server_ok, Broken}"
    using send_all_ok [OF w1, of "a_tcpw a" sys] r by auto
  then show ?thesis by (auto simp: tcp_connected_def retried_def)
qed

subsection \<open>A broken connection\<close>

lemma shrunk_no_ptr: "shrunk G a b \<Longrightarrow> no_ptr a \<Longrightarrow> no_ptr b"
  by (fastforce simp: shrunk_def no_ptr_def)

lemma query_fail_keeps:
  assumes "consistent {q} {} a" "a_query a q = Some qu" "q_state qu \<noteq> Done"
  shows "\<exists>b. query_fail sys q st a = Some b \<and> consistent {} {} b \<and> (no_ptr a \<longrightarrow> no_ptr b) \<and> (\<exists>G. shrunk G a b)"
  using query_fail_ok [OF assms, of sys st] shrunk_no_ptr by metis

lemma query_done_keeps:
  assumes "consistent {q} {} a" "a_query a q = Some qu" "q_state qu \<noteq> Done"
  shows "\<exists>b. query_done sys q a = Some b \<and> consistent {} {} b \<and> (no_ptr a \<longrightarrow> no_ptr b) \<and> (\<exists>G. shrunk G a b)"
  using query_done_ok [OF assms, of sys] shrunk_no_ptr by metis

text \<open>The queries that were tried too often fail; when none of them checks an address the loop never
  meets a query that has been freed.\<close>

lemma fail_broken_ok:
  assumes "consistent {} {} a" "no_ptr a" "set qs \<subseteq> set (a_tcpw a)" "distinct qs"
  shows "\<exists>b. fail_broken sys qs a = Some b \<and> consistent {} {} b \<and> no_ptr b \<and> same_globals a b \<and>
    set (a_tcpw b) \<subseteq> set (a_tcpw a) \<and>
    (\<forall>x \<in> set (a_tcpw b). a_query b x = a_query a x \<and>
       (x \<in> set qs \<longrightarrow> (\<forall>u. a_query b x = Some u \<longrightarrow> q_retries u \<le> nservers a)))"
  using assms
proof (induction qs arbitrary: a)
  case Nil
  then show ?case by (simp add: fail_broken.simps)
next
  case (Cons q qs)
  have qt: "q \<in> set (a_tcpw a)" using Cons.prems(3) by simp
  obtain qu where qu: "a_query a q = Some qu" using wf_get [OF Cons.prems(1), of q Tcpw] qt by auto
  have qo: "q_state qu = Tcpw" "q_children qu = []" using wf_E(3) [OF Cons.prems(1), of q Tcpw qu] qt qu by simp_all
  have kind: "q_kind qu \<noteq> Some Child_ptr" using Cons.prems(2) qt qu by (simp add: no_ptr_def)
  have sub: "set qs \<subseteq> set (a_tcpw a)" "distinct qs" "q \<notin> set qs" using Cons.prems(3,4) by auto
  show ?case
  proof (cases "q_retries qu > nservers a")
    case False
    obtain b where "fail_broken sys qs a = Some b" "consistent {} {} b" "no_ptr b" "same_globals a b"
      "set (a_tcpw b) \<subseteq> set (a_tcpw a)"
      "\<forall>x \<in> set (a_tcpw b). a_query b x = a_query a x \<and>
         (x \<in> set qs \<longrightarrow> (\<forall>u. a_query b x = Some u \<longrightarrow> q_retries u \<le> nservers a))"
      using Cons.IH [OF Cons.prems(1,2) sub(1,2)] by blast
    then show ?thesis using False qu qo by (subst fail_broken.simps) auto
  next
    case True
    let ?c = "set_queue Tcpw (remove1 q (a_tcpw a)) a"
    have c: "unlink_state Tcpw q a = Some ?c" "consistent {q} {} ?c"
      using wf_unlink [OF Cons.prems(1), of q Tcpw] qt by simp_all
    obtain b G where b: "query_fail sys q s_allservfail ?c = Some b" "consistent {} {} b" "shrunk G ?c b" "G = {}"
      using query_fail_ok [OF c(2), of qu sys s_allservfail] qu qo kind by auto
    have d: "distinct (a_tcpw a)" using wf_E(2) [OF Cons.prems(1)] unfolding queues_ok_def by (metis the_queue_simps(2))
    have tb: "a_tcpw b = remove1 q (a_tcpw a)"
      using b(3,4) set_queue_simps(1) [of Tcpw Tcpw] by (simp add: shrunk_def)
    have fr: "a_query b x = a_query a x" if "x \<in> set (a_tcpw b)" for x
      using b(3) that unfolding shrunk_def by fastforce
    have np: "no_ptr b"
      using Cons.prems(2) fr tb d unfolding no_ptr_def by (metis notin_set_remove1)
    have sg: "same_globals a b" using b(3) by (simp add: shrunk_def same_globals_def)
    have in_b: "set qs \<subseteq> set (a_tcpw b)" using sub tb d by (auto simp: set_remove1_eq)
    then have rest: "take 1 qs @ filter (\<lambda>x. x \<in> set (a_tcpw b)) (drop 1 qs) = qs"
      by (metis append_take_drop_id filter_True in_set_dropD subsetD)
    obtain e where e: "fail_broken sys qs b = Some e" "consistent {} {} e" "no_ptr e" "same_globals b e"
      "set (a_tcpw e) \<subseteq> set (a_tcpw b)"
      "\<forall>x \<in> set (a_tcpw e). a_query e x = a_query b x \<and>
         (x \<in> set qs \<longrightarrow> (\<forall>u. a_query e x = Some u \<longrightarrow> q_retries u \<le> nservers b))"
      using Cons.IH [OF b(2) np in_b sub(2)] by blast
    have "q \<notin> set (a_tcpw e)" using e(5) tb d by (auto simp: set_remove1_eq)
    moreover have "nservers b = nservers a" using sg by (simp add: same_globals_def)
    moreover have "set (a_tcpw e) \<subseteq> set (a_tcpw a)" using e(5) tb set_remove1_subset by fastforce
    ultimately have "fail_broken sys (q # qs) a = Some e \<and> set (a_tcpw e) \<subseteq> set (a_tcpw a) \<and>
      (\<forall>x \<in> set (a_tcpw e). a_query e x = a_query a x \<and>
         (x \<in> set (q # qs) \<longrightarrow> (\<forall>u. a_query e x = Some u \<longrightarrow> q_retries u \<le> nservers a)))"
      using e fr qu qo True c(1) b(1) rest by (subst fail_broken.simps) (auto simp: subsetD)
    then show ?thesis using e(2,3) same_globals_trans [OF sg e(4)] by blast
  qed
qed

lemma tcp_broken_events_ok:
  assumes w: "consistent {} {} a" "no_ptr a" and s: "a_tcpstate a = Broken"
  shows "\<exists>b. tcp_broken_events sys a = Some b \<and> consistent {} {} b \<and> no_ptr b \<and>
    a_tcpstate b = Disconnected \<and> set (a_tcpw b) \<subseteq> set (a_tcpw a) \<and> a_servers b = a_servers a \<and>
    (\<forall>x \<in> set (a_tcpw b). a_query b x = a_query a x)"
proof -
  have "distinct (a_tcpw a)" using wf_E(2) [OF w(1)] unfolding queues_ok_def by (metis the_queue_simps(2))
  then obtain c where c: "fail_broken sys (a_tcpw a) a = Some c" "consistent {} {} c" "no_ptr c"
    "same_globals a c" "set (a_tcpw c) \<subseteq> set (a_tcpw a)"
    "\<forall>x \<in> set (a_tcpw c). a_query c x = a_query a x \<and>
       (x \<in> set (a_tcpw a) \<longrightarrow> (\<forall>u. a_query c x = Some u \<longrightarrow> q_retries u \<le> nservers a))"
    using fail_broken_ok [OF w, of "a_tcpw a" sys] by auto
  let ?b = "c\<lparr>a_tcpstate := Disconnected\<rparr>"
  have g: "global_ok ?b" using wf_E(1) [OF c(2)] c(4) s by (simp add: global_ok_def same_globals_def)
  have "nservers c = nservers a" using c(4) by (simp add: same_globals_def)
  then have "consistent {} {} ?b"
    using c(5,6) by (intro consistent_change [OF c(2) _ _ _ _ _ g]) auto
  moreover have "no_ptr ?b" using c(3) by (simp add: no_ptr_def)
  moreover have "a_servers ?b = a_servers a" using c(4) by (simp add: same_globals_def)
  ultimately show ?thesis using s c(1,5,6) by (simp add: tcp_broken_events_def)
qed

lemma timevaladd_pos: "0 < fst now \<Longrightarrow> fst (timevaladd now ms) \<noteq> 0"
  by (simp add: timevaladd_def Let_def)

lemma tcp_tries_ok:
  assumes now: "0 < fst now" and "consistent {} {} a" "no_ptr a"
  shows "\<exists>b. tcp_tries sys now k a = Some b \<and> consistent {} {} b \<and> no_ptr b"
  using assms(2,3)
proof (induction k arbitrary: a)
  case (Suc k)
  show ?case
  proof (cases "a_tcpstate a = Disconnected")
    case False
    then show ?thesis using Suc.prems by simp
  next
    case True
    have g: "global_ok a" using wf_E(1) [OF Suc.prems(1)] .
    then have bufs: "a_tcpsend a = []" "a_tcprecv a = []" "a_tcpskip a = 0" using True by (simp_all add: global_ok_def)
    let ?a1 = "(call_done a)\<lparr>a_tcpstate := Connecting\<rparr>"
    have r: "q_retries qu \<le> nservers a" if "q \<in> set (a_tcpw a)" "a_query a q = Some qu" for q qu
      using wf_E(3) [OF Suc.prems(1), of q Tcpw qu] that True by simp
    have g1: "global_ok ?a1" using g True by (simp add: global_ok_def call_done_def)
    have w1: "consistent {} {} ?a1"
      by (rule consistent_change [OF Suc.prems(1) _ _ _ _ _ g1]) (auto simp: call_done_def dest: r)
    have n1: "no_ptr ?a1" using Suc.prems(2) by (simp add: no_ptr_def call_done_def)
    show ?thesis
    proof (cases "s_connect sys (a_calls a)")
      case Connected
      obtain b where "tcp_connected sys ?a1 = Some b" "consistent {} {} b" "retried ?a1 b"
        using tcp_connected_ok [OF w1, of sys] by auto
      then show ?thesis using Connected True bufs no_ptr_retried [OF n1 _ w1] by simp
    next
      case In_progress
      let ?b = "?a1\<lparr>a_tcptimeout := timevaladd now TCPCONNMS\<rparr>"
      have "global_ok ?b" using g1 timevaladd_pos [OF now, of TCPCONNMS] by (simp add: global_ok_def)
      then have "consistent {} {} ?b"
        by (intro consistent_change [OF w1]) (auto simp: call_done_def dest: r)
      moreover have "no_ptr ?b" using n1 by (simp add: no_ptr_def)
      ultimately show ?thesis using In_progress True bufs by simp
    next
      case Refused
      obtain a2 where a2: "tcp_broken ?a1 = Some a2" "consistent {} {} a2" "a_tcpstate a2 = Broken" "retried ?a1 a2"
        using tcp_broken_ok [OF w1] by auto
      obtain a3 where a3: "tcp_broken_events sys a2 = Some a3" "consistent {} {} a3" "no_ptr a3"
        using tcp_broken_events_ok [OF a2(2) no_ptr_retried [OF n1 a2(4) w1] a2(3), of sys] by auto
      then show ?thesis using Suc.IH [OF a3(2,3)] Refused True bufs a2(1) by simp
    next
      case No_socket
      then show ?thesis using True bufs Suc.prems by (simp add: call_done_def no_ptr_def)
    qed
  qed
qed simp

subsection \<open>Sending\<close>

definition sent_state :: "timeval \<Rightarrow> nat \<Rightarrow> query \<Rightarrow> ads \<Rightarrow> ads" where
  "sent_state now q qu a =
     link_state Tosend q (put_query q (sent_udp a now qu)
       ((call_done a)\<lparr>a_sent := a_sent a @ [(q_nextserver qu, q_dgram qu)]\<rparr>))"

text \<open>A datagram of at most \<open>DNS_MAXUDP\<close> bytes is not too long for UDP.\<close>

definition no_msgsize :: "system \<Rightarrow> bool" where
  "no_msgsize sys \<longleftrightarrow> (\<forall>n. s_sendto sys n \<noteq> Send_msgsize)"

definition for_udp :: "query \<Rightarrow> bool" where
  "for_udp qu \<longleftrightarrow> \<not> qf_usevc (q_flags qu) \<and> length (q_dgram qu) \<le> DNS_MAXUDP"

lemma query_send_udp:
  assumes w: "consistent (insert q X) Z a" and q: "q \<notin> X" "a_query a q = Some qu"
    and s: "q_state qu = Tosend" "q_children qu = []" "0 \<le> q_id qu" "for_udp qu"
    and r: "q_retries qu < UDPMAXRETRIES" and sys: "no_msgsize sys"
  shows "query_send sys now q a = Some (sent_state now q qu a)" "consistent X Z (sent_state now q qu a)"
proof -
  let ?u = "sent_udp a now qu" and ?c = "(call_done a)\<lparr>a_sent := a_sent a @ [(q_nextserver qu, q_dgram qu)]\<rparr>"
  show "query_send sys now q a = Some (sent_state now q qu a)"
    using q s r sys
    by (simp add: query_send_def for_udp_def no_msgsize_def sent_state_def link_state_def Let_def)
  have qZ: "q \<notin> Z" using wf_E(2) [OF w] by (auto simp: queues_ok_def)
  have l: "local_ok a qu" using wf_E(4) [OF w qZ q(2)] .
  have g: "0 < nservers a" "nservers a \<le> 5" using wf_E(1) [OF w] by (simp_all add: global_ok_def MAXSERVERS_def)
  have w1: "consistent (insert q X) Z ?c"
    by (rule consistent_change [OF w]) (use wf_E(1) [OF w] wf_E(3) [OF w, of _ Tcpw] in
      \<open>auto simp: call_done_def global_ok_def\<close>)
  have n: "q_nextserver qu < nservers a" using l by (simp add: local_ok_def)
  have bits: "bit (q_udpsent ?u) i \<longleftrightarrow> bit (q_udpsent qu) i \<or> i = q_nextserver qu" for i
    using n g by (auto simp: sent_udp_def bit_simps)
  have "local_ok ?c ?u"
    using l n g bits by (simp add: local_ok_def) (simp add: sent_udp_def call_done_def)
  then have w2: "consistent (insert q X) Z (put_query q ?u ?c)"
    using wf_E(5) [OF w qZ q(2)]
    by (intro wf_put [OF w1 _ _]) (auto simp: sent_udp_def call_done_def family_ok_def q)
  have "q_udpsent ?u \<noteq> 0" using bits [of "q_nextserver qu"] by auto
  then have "queue_ok (put_query q ?u ?c) Tosend ?u"
    using s r by (simp add: sent_udp_def for_udp_def)
  then have "consistent (insert q X - {q}) Z (link_state Tosend q (put_query q ?u ?c))"
    by (intro wf_link [OF w2]) simp_all
  moreover have "insert q X - {q} = X" using q(1) by auto
  ultimately show "consistent X Z (sent_state now q qu a)" by (simp add: sent_state_def)
qed

lemma query_usetcp_ok:
  assumes w: "consistent {q} {} a" "no_ptr a" and q: "a_query a q = Some qu"
    and s: "q_state qu \<noteq> Done" "q_children qu = []" "0 \<le> q_id qu" "q_retries qu = 0" "q_kind qu \<noteq> Some Child_ptr"
    and now: "0 < fst now"
  shows "\<exists>b. query_usetcp sys now q a = Some b \<and> consistent {} {} b \<and> no_ptr b"
proof -
  let ?u = "qu\<lparr>q_state := Tcpw, q_timeout := timevaladd now TCPWAITMS\<rparr>"
  let ?b = "link_state Tcpw q (put_query q ?u a)"
  have l: "local_ok a ?u" using wf_E(4) [OF w(1) _ q] s(1) by (simp add: local_ok_def)
  have w1: "consistent {q} {} (put_query q ?u a)"
    using wf_E(5) [OF w(1) _ q] by (intro wf_put [OF w(1) _ q l]) (auto simp: family_ok_def)
  have "consistent ({q} - {q}) {} ?b" by (rule wf_link [OF w1, of q ?u]) (use s in simp_all)
  then have w2: "consistent {} {} ?b" by simp
  have np: "no_ptr ?b" using w(2) s(5) by (auto simp: no_ptr_def link_state_def set_queue_def)
  have qb: "q \<in> set (a_tcpw ?b)" "a_query ?b q = Some ?u" by (simp_all add: link_state_def set_queue_def)
  obtain c where c: "querysend_tcp sys q ?b = Some c" "consistent {} {} c" "retried ?b c"
    using querysend_tcp_ok [OF w2 qb, of sys] s(4) by auto
  obtain d where "tcp_tryconnect sys now c = Some d" "consistent {} {} d" "no_ptr d"
    using tcp_tries_ok [OF now c(2) no_ptr_retried [OF np c(3) w2], of sys] by (auto simp: tcp_tryconnect_def)
  then show ?thesis using q c(1) by (simp add: query_usetcp_def change_query_def)
qed

text \<open>A query that may be sent: over UDP, or over TCP for the first time.\<close>

definition sendable :: "ads \<Rightarrow> query \<Rightarrow> bool" where
  "sendable a qu \<longleftrightarrow>
     for_udp qu \<or> (q_retries qu = 0 \<and> no_ptr a \<and> q_kind qu \<noteq> Some Child_ptr)"

lemma query_send_ok:
  assumes w: "consistent {q} {} a" and q: "a_query a q = Some qu"
    and s: "q_state qu = Tosend" "q_children qu = []" "0 \<le> q_id qu" "sendable a qu"
    and sys: "no_msgsize sys" and now: "0 < fst now"
  shows "\<exists>b. query_send sys now q a = Some b \<and> consistent {} {} b \<and> (no_ptr a \<longrightarrow> no_ptr b) \<and>
    (for_udp qu \<longrightarrow> (if q_retries qu < UDPMAXRETRIES then b = sent_state now q qu a
                     else query_fail sys q s_timeout a = Some b \<and> (\<exists>G. shrunk G a b)))"
proof (cases "for_udp qu")
  case False
  then obtain b where "query_usetcp sys now q a = Some b" "consistent {} {} b" "no_ptr b"
    using query_usetcp_ok [OF w _ q _ s(2,3) _ _ now] s(1,4) by (auto simp: sendable_def)
  then show ?thesis using False q s(1) by (auto simp: query_send_def for_udp_def)
next
  case True
  show ?thesis
  proof (cases "q_retries qu < UDPMAXRETRIES")
    case r: True
    have "no_ptr a \<longrightarrow> no_ptr (sent_state now q qu a)"
      using wf_floating [OF w, of q] by (auto simp: no_ptr_def sent_state_def link_state_def set_queue_def call_done_def)
    then show ?thesis using query_send_udp [of q "{}" "{}" a qu sys now] w q s True r sys by simp
  next
    case r: False
    obtain b G where "query_fail sys q s_timeout a = Some b" "consistent {} {} b" "shrunk G a b"
      using query_fail_ok [OF w q, of sys s_timeout] s(1) by auto
    then show ?thesis using True r q s(1) shrunk_no_ptr by (auto simp: query_send_def for_udp_def)
  qed
qed

lemma wf_retries:
  "consistent X Z a \<Longrightarrow> q \<in> set (a_tcpw a) \<Longrightarrow> a_query a q = Some qu \<Longrightarrow>
   q_retries qu \<le> nservers a + (if a_tcpstate a \<in> {Server_ok, Broken} then 1 else 0)"
  using wf_E(3) [of X Z a q Tcpw qu] by simp

lemma consistent_take_id [simp]: "consistent X Z (take_id a) = consistent X Z a"
proof -
  have c: "consistent X Z (c\<lparr>a_nextid := m\<rparr>)" if w: "consistent X Z c" for c m
    by (rule consistent_change [OF w])
      (use wf_retries [OF w] wf_E(1) [OF w] in \<open>simp_all add: global_ok_def\<close>)
  show ?thesis using c [of a] c [of "take_id a" "a_nextid a"] by (auto simp: take_id_def)
qed

lemma take_id_simps [simp]:
  "a_query (take_id a) = a_query a" "no_ptr (take_id a) = no_ptr a" "a_searchlist (take_id a) = a_searchlist a"
  "the_queue s (take_id a) = the_queue s a" "a_servers (take_id a) = a_servers a" "a_tcpw (take_id a) = a_tcpw a"
  "local_ok (take_id a) = local_ok a" "a_nextid (take_id a) = a_nextid a + 1"
  by (simp_all add: take_id_def no_ptr_def local_ok_def fun_eq_iff)

lemma no_ptr_put: "q \<notin> set (a_tcpw a) \<Longrightarrow> no_ptr (put_query q u a) = no_ptr a"
  by (auto simp: no_ptr_def)

lemma query_submit_ok:
  assumes w: "consistent {q} {} a" and q: "a_query a q = Some qu"
    and s: "q_state qu = Tosend" "q_children qu = []" "sendable a (qu\<lparr>q_dgram := dgram\<rparr>)"
    and sys: "no_msgsize sys" and now: "0 < fst now"
  shows "\<exists>b. query_submit sys now q dgram ident a = Some b \<and> consistent {} {} b \<and> (no_ptr a \<longrightarrow> no_ptr b)"
proof -
  let ?u = "qu\<lparr>q_dgram := dgram, q_id := int ident\<rparr>"
  have l: "local_ok a ?u" using wf_E(4) [OF w _ q] by (simp add: local_ok_def)
  have w1: "consistent {q} {} (put_query q ?u a)"
    using wf_E(5) [OF w _ q] by (intro wf_put [OF w _ q l]) (auto simp: family_ok_def)
  have np: "no_ptr (put_query q ?u a) = no_ptr a" using wf_floating [OF w, of q] by (simp add: no_ptr_put)
  then have "sendable (put_query q ?u a) ?u" using s(3) by (simp add: sendable_def for_udp_def)
  then obtain b where "query_send sys now q (put_query q ?u a) = Some b" "consistent {} {} b"
    "no_ptr (put_query q ?u a) \<longrightarrow> no_ptr b"
    using query_send_ok [OF w1 _ _ _ _ _ sys now, of ?u] s by auto
  then show ?thesis using q np by (simp add: query_submit_def change_query_def)
qed

text \<open>A query that may be given another name.\<close>

definition nameable :: "ads \<Rightarrow> query \<Rightarrow> bool" where
  "nameable a qu \<longleftrightarrow>
     q_state qu = Tosend \<and> q_children qu = [] \<and>
     (qf_usevc (q_flags qu) \<longrightarrow> q_retries qu = 0 \<and> no_ptr a \<and> q_kind qu \<noteq> Some Child_ptr)"

lemma nameable_sendable:
  "nameable a qu \<Longrightarrow> length dgram \<le> DNS_MAXUDP \<Longrightarrow> sendable a (qu\<lparr>q_dgram := dgram\<rparr>)"
  by (auto simp: nameable_def sendable_def for_udp_def)

lemma make_datagram_length: "make_datagram n qu owner = Inr dgram \<Longrightarrow> length dgram \<le> DNS_MAXUDP"
  unfolding make_datagram_def using mkquery_fits by blast

definition names_left :: "string list \<Rightarrow> query \<Rightarrow> nat" where
  "names_left sl qu = (length sl - q_pos qu) + (if q_doneabs qu > 0 then 0 else 1)"

lemma search_entry_left:
  assumes "search_entry sl qu = Some (e, qu1)"
  shows "q_doneabs qu > 0 \<or> q_doneabs qu1 \<ge> 0" "names_left sl qu1 < names_left sl qu"
    "qu1 = qu\<lparr>q_pos := q_pos qu1, q_doneabs := q_doneabs qu1\<rparr>" "q_pos qu \<le> length sl \<Longrightarrow> q_pos qu1 \<le> length sl"
  using assms by (auto simp: search_entry_def names_left_def split: if_splits)

lemma search_next_ok:
  assumes "consistent {q} {} a" "a_query a q = Some qu" "nameable a qu"
    and sys: "no_msgsize sys" and now: "0 < fst now"
  shows "\<exists>b. search_next sys now q a = Some b \<and> consistent {} {} b \<and> (no_ptr a \<longrightarrow> no_ptr b)"
  using assms(1-3)
proof (induction "names_left (a_searchlist a) qu" arbitrary: a qu rule: less_induct)
  case less
  note w = less.prems(1) and q = less.prems(2)
  have l: "local_ok a qu" using wf_E(4) [OF w _ q] by simp
  have f: "q_parent qu \<noteq> None \<Longrightarrow> \<not> qf_search (q_flags qu) \<and> \<not> qf_owner (q_flags qu)"
    using wf_E(5) [OF w _ q] by (auto simp: family_ok_def)
  have nq: "q \<notin> set (a_tcpw a)" using wf_floating [OF w] by simp
  show ?case
  proof (cases "search_entry (a_searchlist a) qu")
    case None
    let ?u = "qu\<lparr>q_search := take (q_origlen qu) (q_search qu)\<rparr>"
    have "local_ok a ?u" using l by (simp add: local_ok_def)
    then have w1: "consistent {q} {} (put_query q ?u a)" using f by (intro wf_put [OF w _ q]) auto
    have "q_state ?u \<noteq> Done" using less.prems(3) by (simp add: nameable_def)
    then obtain b where "query_fail sys q s_nxdomain (put_query q ?u a) = Some b" "consistent {} {} b"
      "no_ptr (put_query q ?u a) \<longrightarrow> no_ptr b"
      using query_fail_keeps [OF w1, of ?u sys s_nxdomain] by auto
    then show ?thesis using None q no_ptr_put [OF nq] by (subst search_next.simps) simp
  next
    case (Some r)
    then obtain entry qu1 where e: "search_entry (a_searchlist a) qu = Some (entry, qu1)" by (cases r) auto
    note left = search_entry_left [OF e]
    let ?u = "qu1\<lparr>q_search := search_name qu entry, q_dgram := []\<rparr>"
    let ?a = "take_id (put_query q ?u a)"
    have lu: "local_ok a ?u" using l left(4) by (subst left(3)) (simp add: local_ok_def)
    have same: "q_state ?u = q_state qu" "q_children ?u = q_children qu" "q_flags ?u = q_flags qu"
      "q_retries ?u = q_retries qu" "q_kind ?u = q_kind qu" "q_parent ?u = q_parent qu" "q_type ?u = q_type qu"
      by (subst left(3), simp)+
    have w1: "consistent {q} {} ?a"
      using f same by (simp del: query.update_convs) (intro wf_put [OF w _ q lu], simp_all add: f)
    have np: "no_ptr ?a = no_ptr a" using nq by (simp add: no_ptr_put)
    have nm: "nameable ?a ?u" using less.prems(3) same np by (simp add: nameable_def)
    have qa: "a_query ?a q = Some ?u" by simp
    show ?thesis
    proof (cases "make_datagram (a_nextid a) ?u (q_search ?u)")
      case (Inl st)
      show ?thesis
      proof (cases "st = s_querydomaintoolong \<and> qf_search (q_flags ?u)")
        case True
        have "names_left (a_searchlist ?a) ?u < names_left (a_searchlist a) qu"
          using left(2) by (simp add: names_left_def)
        then obtain b where "search_next sys now q ?a = Some b" "consistent {} {} b" "no_ptr ?a \<longrightarrow> no_ptr b"
          using less.hyps [OF _ w1 qa nm] by blast
        then show ?thesis using q e Inl True np by (subst search_next.simps) (simp add: Let_def)
      next
        case False
        have "q_state ?u \<noteq> Done" using nm by (simp add: nameable_def)
        from query_fail_keeps [OF w1 qa this] obtain b where
          "query_fail sys q st ?a = Some b" "consistent {} {} b" "no_ptr ?a \<longrightarrow> no_ptr b"
          by blast
        then show ?thesis using q e Inl False np by (subst search_next.simps) (auto simp: Let_def)
      qed
    next
      case (Inr dgram)
      obtain b where "query_submit sys now q dgram (next_id (a_nextid a)) ?a = Some b" "consistent {} {} b"
        "no_ptr ?a \<longrightarrow> no_ptr b"
        using query_submit_ok [OF w1 qa _ _ nameable_sendable [OF nm make_datagram_length [OF Inr]] sys now,
          of "next_id (a_nextid a)"] nm
        unfolding nameable_def by blast
      then show ?thesis using q e Inr np by (subst search_next.simps) (simp add: Let_def)
    qed
  qed
qed

subsection \<open>Submitting\<close>

lemma query_simple_ok:
  assumes w: "consistent {q} {} a" and q: "a_query a q = Some qu" and nm: "nameable a qu"
    and sys: "no_msgsize sys" and now: "0 < fst now"
  shows "\<exists>b. query_simple sys now q owner a = Some b \<and> consistent {} {} b \<and> (no_ptr a \<longrightarrow> no_ptr b)"
proof -
  have w1: "consistent {q} {} (take_id a)" and q1: "a_query (take_id a) q = Some qu"
    and nm1: "nameable (take_id a) qu"
    using w q nm by (simp_all add: nameable_def)
  show ?thesis
  proof (cases "make_datagram (a_nextid a) qu owner")
    case (Inl st)
    have "q_state qu \<noteq> Done" using nm by (simp add: nameable_def)
    then show ?thesis
      using query_fail_keeps [OF w1 q1, of sys st] search_next_ok [OF w1 q1 nm1 sys now] Inl q
      by (auto simp: query_simple_def)
  next
    case (Inr dgram)
    have "q_state qu = Tosend" "q_children qu = []" using nm by (simp_all add: nameable_def)
    from query_submit_ok [OF w1 q1 this nameable_sendable [OF nm1 make_datagram_length [OF Inr]] sys now]
    show ?thesis using Inr q by (simp add: query_simple_def)
  qed
qed

lemma search_next_simple:
  "search_next sys now q a = do {
     qu \<leftarrow> a_query a q;
     (case search_entry (a_searchlist a) qu of
        None \<Rightarrow>
          query_fail sys q s_nxdomain
            (put_query q (qu\<lparr>q_search := take (q_origlen qu) (q_search qu)\<rparr>) a)
      | Some (entry, qu1) \<Rightarrow>
          query_simple sys now q (search_name qu entry)
            (put_query q (qu1\<lparr>q_search := search_name qu entry, q_dgram := []\<rparr>) a)) }"
  by (subst search_next.simps)
    (cases "a_query a q"; simp add: query_simple_def Let_def split: option.split prod.split sum.split)

lemma consistent_alloc:
  assumes w: "consistent X Z a" and u: "local_ok a u" "q_children u = []" "q_parent u = None"
  defines "b \<equiv> (put_query (a_fresh a) u a)\<lparr>a_fresh := a_fresh a + 1\<rparr>"
  shows "consistent (insert (a_fresh a) X) Z b"
proof -
  let ?q = "a_fresh a"
  note Q = wf_E(2) [OF w, unfolded queues_ok_def]
  have new: "a_query a ?q = None" using Q by (metis less_irrefl)
  then have n: "?q \<notin> X" "?q \<notin> Z" "\<And>s. ?q \<notin> set (the_queue s a)" using Q by metis+
  have old: "x < ?q" if "a_query a x = Some v" for x v using Q that by blast
  show ?thesis
  proof (rule consistent_I)
    show "global_ok b" using wf_E(1) [OF w] by (simp add: b_def global_ok_def)
    have "x < ?q + 1" if "a_query b x \<noteq> None" for x using old [of x] that by (auto simp: b_def less_Suc_eq split: if_splits)
    then show "queues_ok (insert ?q X) Z b"
      using Q n unfolding queues_ok_def by (auto simp: b_def)
    fix x v
    show "queue_ok b s v" if "x \<in> set (the_queue s b)" "a_query b x = Some v" for s
    proof -
      have "queue_ok a s v" using that n(3) wf_E(3) [OF w, of x s v] by (auto simp: b_def split: if_splits)
      then show ?thesis by (cases s) (simp_all add: b_def)
    qed
    show "local_ok b v" if "x \<notin> Z" "a_query b x = Some v"
      using that u(1) wf_E(4) [OF w, of x v] by (auto simp: b_def local_ok_def split: if_splits)
    show "family_ok Z b x v" if xZ: "x \<notin> Z" and bx: "a_query b x = Some v"
    proof (cases "x = ?q")
      case True
      then show ?thesis using bx u by (simp add: b_def family_ok_def)
    next
      case False
      then have ax: "a_query a x = Some v" using bx by (simp add: b_def)
      have "a_query b y = Some z" if "a_query a y = Some z" for y z
        using that new by (auto simp: b_def)
      then show ?thesis using wf_E(5) [OF w xZ ax] unfolding family_ok_def by blast
    qed
  qed
qed

lemma save_owner_place:
  "save_owner owner qu = Some u \<Longrightarrow> u = qu\<lparr>q_owner := q_owner u\<rparr> \<and> (\<not> qf_owner (q_flags qu) \<longrightarrow> u = qu)"
  by (auto simp: save_owner_def split: if_splits)

lemma submit_query_ok:
  assumes w: "consistent {q} {} a" and q: "a_query a q = Some qu" and s: "nameable a (qu\<lparr>q_flags := flags\<rparr>)"
    and fresh: "q_parent qu = None" "q_owner qu = None" "q_pos qu = 0"
    and sys: "no_msgsize sys" and now: "0 < fst now"
  shows "\<exists>b. submit_query sys now q owner flags a = Some b \<and> consistent {} {} b \<and> (no_ptr a \<longrightarrow> no_ptr b)"
proof -
  have nD: "q_state qu \<noteq> Done" using s by (simp add: nameable_def)
  have l: "local_ok a qu" using wf_E(4) [OF w _ q] by simp
  have nq: "q \<notin> set (a_tcpw a)" using wf_floating [OF w] by simp
  have put: "consistent {q} {} (put_query q u a) \<and> no_ptr (put_query q u a) = no_ptr a"
    if "local_ok a u" "q_children u = q_children qu" "q_parent u = q_parent qu" "q_kind u = q_kind qu"
      "q_type u = q_type qu" for u
    using wf_put [OF w _ q that(1)] that fresh(1) nq by (simp add: no_ptr_put)
  show ?thesis
  proof (cases "owner = [] \<or> length owner > DNS_MAXDOMAIN + 1")
    case True
    then show ?thesis using query_fail_keeps [OF w q nD] by (auto simp: submit_query_def)
  next
    case False
    define flags1 where "flags1 = (if absolute_dot owner then flags\<lparr>qf_search := False\<rparr> else flags)"
    define name where "name = (if absolute_dot owner then butlast owner else owner)"
    have f1: "qf_usevc flags1 = qf_usevc flags" by (simp add: flags1_def)
    let ?u = "qu\<lparr>q_flags := flags1\<rparr>"
    let ?a = "put_query q ?u a"
    show ?thesis
    proof (cases "qf_search flags1")
      case True
      let ?v = "?u\<lparr>q_search := name, q_origlen := length name,
        q_doneabs := (if count_dots owner \<ge> a_searchndots a then - 1 else 0)\<rparr>"
      have v: "local_ok a ?v" using l fresh by (simp add: local_ok_def)
      have w2: "consistent {q} {} (put_query q ?v a)" "no_ptr (put_query q ?v a) = no_ptr a"
        using put [OF v] by simp_all
      have "nameable (put_query q ?v a) ?v" using s f1 w2(2) by (simp add: nameable_def)
      then obtain b where "search_next sys now q (put_query q ?v a) = Some b" "consistent {} {} b"
        "no_ptr a \<longrightarrow> no_ptr b"
        using search_next_ok [OF w2(1) _ _ sys now, of ?v] w2(2) by auto
      then show ?thesis
        using False True q unfolding submit_query_def flags1_def [symmetric] name_def [symmetric] Let_def
        by (simp add: change_query_def put_put)
    next
      case noS: False
      obtain v where v: "save_owner name ?u = Some v" using fresh that by (cases "qf_owner flags1") (auto simp: save_owner_def)
      have v': "v = ?u\<lparr>q_owner := q_owner v\<rparr>" using save_owner_place [OF v] by simp
      have lv: "local_ok a v" using l noS by (subst v') (simp add: local_ok_def)
      have same: "q_children v = q_children qu" "q_parent v = q_parent qu" "q_kind v = q_kind qu"
        "q_type v = q_type qu" "q_state v = q_state qu" "q_flags v = flags1" "q_retries v = q_retries qu"
        by (subst v', simp)+
      have w2: "consistent {q} {} (put_query q v a)" "no_ptr (put_query q v a) = no_ptr a"
        using put [OF lv] same by simp_all
      have "nameable (put_query q v a) v" using s f1 w2(2) same by (simp add: nameable_def)
      then obtain b where "query_simple sys now q name (put_query q v a) = Some b" "consistent {} {} b"
        "no_ptr a \<longrightarrow> no_ptr b"
        using query_simple_ok [OF w2(1) _ _ sys now, of v] w2(2) by auto
      then show ?thesis
        using False noS q v unfolding submit_query_def flags1_def [symmetric] name_def [symmetric] Let_def
        by (simp add: change_query_def put_put)
    qed
  qed
qed

lemma submit_new_ok:
  assumes w: "consistent {} {} a" and tcp: "qf_usevc flags \<Longrightarrow> no_ptr a"
    and sys: "no_msgsize sys" and now: "0 < fst now"
  shows "\<exists>r. submit_new sys now owner type flags a = Some r \<and>
    (\<forall>q b. r = Inr (q, b) \<longrightarrow> q = a_fresh a \<and> consistent {} {} b \<and> (no_ptr a \<longrightarrow> no_ptr b))"
proof (cases "findtype type")
  case None
  then show ?thesis by (simp add: submit_new_def)
next
  case (Some ti)
  let ?u = "query_alloc type flags now" and ?q = "a_fresh a"
  let ?a = "(put_query ?q ?u a)\<lparr>a_fresh := ?q + 1\<rparr>"
  have "0 < nservers a" using wf_E(1) [OF w] by (simp add: global_ok_def)
  then have l: "local_ok a ?u" by (simp add: local_ok_def query_alloc_def)
  have w1: "consistent {?q} {} ?a" using consistent_alloc [OF w l] by (simp add: query_alloc_def)
  have "a_query a ?q = None" using wf_E(2) [OF w] unfolding queues_ok_def by (metis less_irrefl)
  then have "?q \<notin> set (a_tcpw a)" using wf_get [OF w, of ?q Tcpw] by auto
  then have np: "no_ptr ?a = no_ptr a" using no_ptr_put by (simp add: no_ptr_def)
  have "nameable ?a (?u\<lparr>q_flags := flags\<rparr>)"
    using tcp np by (simp add: nameable_def query_alloc_def)
  then obtain b where "submit_query sys now ?q owner flags ?a = Some b" "consistent {} {} b" "no_ptr ?a \<longrightarrow> no_ptr b"
    using submit_query_ok [OF w1 _ _ _ _ _ sys now, of ?u flags owner] by (auto simp: query_alloc_def)
  then show ?thesis using Some np by (simp add: submit_new_def Let_def)
qed

subsection \<open>The order of a search\<close>

text \<open>The names of a searching query, in order: the entries of the search list, and the name as it
  is before or after them.\<close>

definition search_order :: "string list \<Rightarrow> query \<Rightarrow> string option list" where
  "search_order sl qu =
     (if q_doneabs qu < 0 then [None] else []) @ map Some (drop (q_pos qu) sl) @
     (if q_doneabs qu = 0 then [None] else [])"

function search_entries :: "string list \<Rightarrow> query \<Rightarrow> string option list" where
  "search_entries sl qu =
     (case search_entry sl qu of None \<Rightarrow> [] | Some (e, qu1) \<Rightarrow> e # search_entries sl qu1)"
  by pat_completeness auto

termination
  by (relation "measure (\<lambda>(sl, qu). names_left sl qu)") (auto dest: search_entry_left(2))

declare search_entries.simps [simp del]

lemma search_entries_order: "search_entries sl qu = search_order sl qu"
proof (induction sl qu rule: search_entries.induct)
  case (1 sl qu)
  show ?case
  proof (cases "search_entry sl qu")
    case None
    then show ?thesis
      by (subst search_entries.simps) (auto simp: search_entry_def search_order_def split: if_splits)
  next
    case (Some r)
    then obtain e qu1 where e: "search_entry sl qu = Some (e, qu1)" by (cases r) auto
    have "search_order sl qu = e # search_order sl qu1"
      using e
      by (auto simp: search_entry_def search_order_def not_le Cons_nth_drop_Suc [symmetric] split: if_splits)
    then show ?thesis using 1 e by (subst search_entries.simps) simp
  qed
qed

end
