(* ===== verification/AdnsReply.thy ===== *)
theory AdnsReply
  imports AdnsQuery
begin

text \<open>
  The replies of name servers: src/adns/reply.c. A datagram is matched with a query that waits for
  it, its answer section is read once to count what it has and follow an alias, and once more to
  parse it; the query is finished, sent again, or left waiting for child queries.

  Messages to the log have no counterpart, but the texts they quote are computed, and may loop.
  Writing a record behind the block that the first reading reserved is \<open>None\<close>.
\<close>

subsection \<open>The answer section, first reading\<close>

datatype 'a scanned = Scan_fail adns_status | Scan_trunc | Scan_ok 'a

definition q_update_expires :: "nat \<Rightarrow> timeval \<Rightarrow> query \<Rightarrow> query" where
  "q_update_expires ttl now qu =
     (let mx = fst now + int ttl in if q_expires qu < mx then qu else qu\<lparr>q_expires := mx\<rparr>)"

text \<open>Whether a domain that is refused is refused at its first label: the text is still empty
  then, which the code takes for a truncation.\<close>

definition first_label_bad :: "string \<Rightarrow> bool \<Rightarrow> nat \<Rightarrow> nat \<Rightarrow> bool" where
  "first_label_bad d quoteok cbyte mx \<longleftrightarrow>
     (case findlabel_next d (findlabel_start mx cbyte) of
        Some (Inr (Label len start, _)) \<Rightarrow>
          len \<noteq> 0 \<and> \<not> quoteok \<and> \<not> host_label (label_at d len start)
      | _ \<Rightarrow> True)"

definition take_cname ::
    "string \<Rightarrow> timeval \<Rightarrow> rrinfo \<Rightarrow> query \<Rightarrow> (unit scanned \<times> query) option" where
  "take_cname d now r qu =
     (let quoteok = (\<not> qf_quotefail_cname (q_flags qu));
          start = rr_rdstart r; mx = rr_rdstart r + rr_rdlen r in
      case parse_domain d quoteok start mx of
        None \<Rightarrow> None
      | Some (Inl st) \<Rightarrow>
          Some (if first_label_bad d quoteok start mx then Scan_trunc else Scan_fail st, qu)
      | Some (Inr (None, _)) \<Rightarrow> Some (Scan_trunc, qu)
      | Some (Inr (Some t, _)) \<Rightarrow>
          Some (Scan_ok (),
            q_update_expires (rr_ttl r) now (qu\<lparr>q_cname := Some (d, start), q_cnametext := Some t\<rparr>)))"

definition wanted_rr :: "query \<Rightarrow> rrinfo \<Rightarrow> bool" where
  "wanted_rr qu r \<longleftrightarrow>
     rr_class r = DNS_CLASS_IN \<and> rr_matched r \<and> rr_type r = rrt_typemask (q_type qu)"

definition cname_rr :: "query \<Rightarrow> rrinfo \<Rightarrow> bool" where
  "cname_rr qu r \<longleftrightarrow>
     rr_class r = DNS_CLASS_IN \<and> rr_matched r \<and> rr_type r = r_cname \<and>
     rrt_typemask (q_type qu) \<noteq> r_cname"

text \<open>The result of the reading has the offset behind the section, the number of records of the
  wanted type, and whether an alias was found here.\<close>

fun answer_scan ::
    "nat \<Rightarrow> string \<Rightarrow> timeval \<Rightarrow> nat \<Rightarrow> nat \<Rightarrow> bool \<Rightarrow> query \<Rightarrow>
     ((nat \<times> nat \<times> bool) scanned \<times> query) option" where
  "answer_scan 0 d now cbyte wanted here qu = Some (Scan_ok (cbyte, wanted, here), qu)"
| "answer_scan (Suc n) d now cbyte wanted here qu =
     (case findrr d cbyte True (q_dgram qu) (q_cname qu) of
        None \<Rightarrow> None
      | Some (Inl st) \<Rightarrow> Some (Scan_fail st, qu)
      | Some (Inr None) \<Rightarrow> Some (Scan_trunc, qu)
      | Some (Inr (Some r)) \<Rightarrow>
          if cname_rr qu r then
            (if qf_cname_forbid (q_flags qu) then Some (Scan_fail s_prohibitedcname, qu)
             else if q_cname qu \<noteq> None then
               map_option (\<lambda>t. (Scan_fail s_prohibitedcname, qu)) (diag_domain d (rr_rdstart r))
             else if wanted \<noteq> 0 then
               do { t \<leftarrow> diag_domain d (rr_rdstart r);
                    answer_scan n d now (rr_end r) wanted here qu }
             else
               (case take_cname d now r qu of
                  None \<Rightarrow> None
                | Some (Scan_fail st, qu1) \<Rightarrow> Some (Scan_fail st, qu1)
                | Some (Scan_trunc, qu1) \<Rightarrow> Some (Scan_trunc, qu1)
                | Some (Scan_ok (), qu1) \<Rightarrow> answer_scan n d now (rr_end r) wanted True qu1))
          else if wanted_rr qu r then answer_scan n d now (rr_end r) (wanted + 1) here qu
          else answer_scan n d now (rr_end r) wanted here qu)"

subsection \<open>The authority section\<close>

fun auth_scan ::
    "nat \<Rightarrow> string \<Rightarrow> nat \<Rightarrow> bool \<Rightarrow> (nat option \<times> bool) scanned option" where
  "auth_scan 0 d cbyte ns = Some (Scan_ok (None, ns))"
| "auth_scan (Suc n) d cbyte ns =
     (case findrr d cbyte False [] None of
        None \<Rightarrow> None
      | Some (Inl st) \<Rightarrow> Some (Scan_fail st)
      | Some (Inr None) \<Rightarrow> Some Scan_trunc
      | Some (Inr (Some r)) \<Rightarrow>
          if rr_class r \<noteq> DNS_CLASS_IN then auth_scan n d (rr_end r) ns
          else if rr_type r = r_soa_raw then Some (Scan_ok (Some (rr_ttl r), ns))
          else auth_scan n d (rr_end r) (ns \<or> rr_type r = r_ns_raw))"

subsection \<open>The answer section, second reading\<close>

fun submit_children :: "system \<Rightarrow> timeval \<Rightarrow> nat \<Rightarrow> child list \<Rightarrow> ads \<Rightarrow> ads option" where
  "submit_children sys now q [] a = Some a"
| "submit_children sys now q (c # cs) a = do {
     a1 \<leftarrow> internal_submit sys now q c a;
     submit_children sys now q cs a1 }"

record sections =
  se_nsstart :: nat
  se_nscount :: nat
  se_arcount :: nat

definition query_parseinfo :: "system \<Rightarrow> string \<Rightarrow> timeval \<Rightarrow> sections \<Rightarrow> ads \<Rightarrow> query \<Rightarrow> parseinfo" where
  "query_parseinfo sys d now se a qu =
     \<lparr>pai_dgram = d, pai_nsstart = se_nsstart se, pai_nscount = se_nscount se,
      pai_arcount = se_arcount se, pai_now = fst now, pai_flags = q_flags qu,
      pai_typekey = ti_key (q_typei qu), pai_query = q_dgram qu, pai_sortlist = a_sortlist a,
      pai_slot = length (q_rrs qu), pai_avail = s_avail sys (a_calls a)\<rparr>"

definition query_pstate :: "ads \<Rightarrow> query \<Rightarrow> pstate" where
  "query_pstate a qu =
     \<lparr>ps_expires = q_expires qu, ps_nextid = a_nextid a, ps_children = [], ps_ptr = q_ptr qu\<rparr>"

text \<open>What a parse did to the library: the child queries are on their way.\<close>

definition parsed :: "system \<Rightarrow> timeval \<Rightarrow> nat \<Rightarrow> query \<Rightarrow> rr list \<Rightarrow> pstate \<Rightarrow> ads \<Rightarrow> ads option" where
  "parsed sys now q qu rrs ps a =
     submit_children sys now q (ps_children ps)
       ((put_query q (qu\<lparr>q_expires := ps_expires ps, q_ptr := ps_ptr ps, q_rrs := rrs\<rparr>) a)
          \<lparr>a_nextid := ps_nextid ps\<rparr>)"

fun parse_answers ::
    "system \<Rightarrow> timeval \<Rightarrow> nat \<Rightarrow> string \<Rightarrow> sections \<Rightarrow> nat \<Rightarrow> nat \<Rightarrow> nat \<Rightarrow> ads \<Rightarrow>
     (adns_status option \<times> ads) option" where
  "parse_answers sys now q d se wanted 0 cbyte a = Some (None, a)"
| "parse_answers sys now q d se wanted (Suc n) cbyte a = do {
     qu \<leftarrow> a_query a q;
     (case findrr d cbyte True (q_dgram qu) (q_cname qu) of
        Some (Inr (Some r)) \<Rightarrow>
          if \<not> wanted_rr qu r then parse_answers sys now q d se wanted n (rr_end r) a
          else if length (q_rrs qu) \<ge> wanted then None
          else
            let qu1 = q_update_expires (rr_ttl r) now qu in
            (case ti_parse (q_typei qu1) (query_parseinfo sys d now se a qu1) (query_pstate a qu1)
                    (rr_rdstart r) (rr_rdstart r + rr_rdlen r) of
               None \<Rightarrow> None
             | Some (Inl (st, ps)) \<Rightarrow>
                 map_option (\<lambda>a1. (Some st, a1)) (parsed sys now q qu1 (q_rrs qu1) ps a)
             | Some (Inr (rr, ps)) \<Rightarrow> do {
                 a1 \<leftarrow> parsed sys now q qu1 (q_rrs qu1 @ [rr]) ps a;
                 parse_answers sys now q d se wanted n (rr_end r) a1 })
      | _ \<Rightarrow> None) }"

subsection \<open>What becomes of the query\<close>

text \<open>\<open>x_restartquery\<close> and \<open>x_truncated\<close>.\<close>

definition restart_query :: "system \<Rightarrow> timeval \<Rightarrow> nat \<Rightarrow> ads \<Rightarrow> ads option" where
  "restart_query sys now q a = do {
     qu \<leftarrow> a_query a q;
     a1 \<leftarrow> (case q_cname qu of
              None \<Rightarrow> Some a
            | Some (cd, cb) \<Rightarrow> do {
                dgram \<leftarrow> mkquery_frdgram (s_avail sys (a_calls a) (a_nextid a)) (a_nextid a) cd cb (q_type qu);
                Some (take_id (put_query q
                  (qu\<lparr>q_dgram := dgram, q_id := int (next_id (a_nextid a))\<rparr>) a)) });
     a2 \<leftarrow> change_query q (\<lambda>u. u\<lparr>q_state := (if q_state u = Tcpw then Tosend else q_state u),
                                 q_retries := 0\<rparr>) a1;
     a3 \<leftarrow> reset_preserved q a2;
     query_send sys now q a3 }"

definition reply_truncated :: "system \<Rightarrow> timeval \<Rightarrow> nat \<Rightarrow> bool \<Rightarrow> ads \<Rightarrow> ads option" where
  "reply_truncated sys now q tc a =
     (if \<not> tc then query_fail sys q s_invalidresponse a
      else do {
        a1 \<leftarrow> change_query q (\<lambda>u. u\<lparr>q_flags := (q_flags u)\<lparr>qf_usevc := True\<rparr>\<rparr>) a;
        restart_query sys now q a1 })"

text \<open>No record of the wanted type.\<close>

definition reply_nothing ::
    "system \<Rightarrow> timeval \<Rightarrow> nat \<Rightarrow> string \<Rightarrow> bool \<Rightarrow> bool \<Rightarrow> bool \<Rightarrow> nat \<Rightarrow> nat \<Rightarrow> bool \<Rightarrow> ads \<Rightarrow> ads option" where
  "reply_nothing sys now q d nx tc ra nscount nsstart here a =
     (case auth_scan nscount d nsstart False of
        None \<Rightarrow> None
      | Some (Scan_fail st) \<Rightarrow> query_fail sys q st a
      | Some Scan_trunc \<Rightarrow> reply_truncated sys now q tc a
      | Some (Scan_ok (soa, ns)) \<Rightarrow>
          let ttl = (case soa of None \<Rightarrow> 0 | Some t \<Rightarrow> t) in
          if nx then do {
            a1 \<leftarrow> change_query q (q_update_expires ttl now) a;
            qu \<leftarrow> a_query a1 q;
            if qf_search (q_flags qu) \<and> q_cname qu = None then search_next sys now q a1
            else query_fail sys q s_nxdomain a1 }
          else if soa \<noteq> None \<or> \<not> ns then do {
            a1 \<leftarrow> change_query q (q_update_expires ttl now) a;
            query_fail sys q s_nodata a1 }
          else if here then restart_query sys now q a
          else if \<not> ra then query_fail sys q s_norecurse a
          else query_fail sys q s_invalidresponse a)"

text \<open>Some records of the wanted type.\<close>

definition reply_records ::
    "system \<Rightarrow> timeval \<Rightarrow> nat \<Rightarrow> string \<Rightarrow> sections \<Rightarrow> nat \<Rightarrow> nat \<Rightarrow> nat \<Rightarrow> ads \<Rightarrow> ads option" where
  "reply_records sys now q d se wanted ancount anstart a = do {
     (failed, a1) \<leftarrow> parse_answers sys now q d se wanted ancount anstart a;
     (case failed of
        Some st \<Rightarrow> query_fail sys q st a1
      | None \<Rightarrow> do {
          qu \<leftarrow> a_query a1 q;
          if length (q_rrs qu) \<noteq> wanted then None
          else if q_children qu \<noteq> [] then
            change_query q (\<lambda>u. u\<lparr>q_state := Childw\<rparr>) (link_state Childw q a1)
          else query_done sys q a1 }) }"

definition reply_answer ::
    "system \<Rightarrow> timeval \<Rightarrow> nat \<Rightarrow> string \<Rightarrow> bool \<Rightarrow> ads \<Rightarrow> ads option" where
  "reply_answer sys now q d nx a = do {
     let ancount = get_w d 6;
     let nscount = get_w d 8;
     let arcount = get_w d 10;
     let tc = bit (get_b d 2) 1;
     let ra = bit (get_b d 3) 7;
     qu \<leftarrow> a_query a q;
     let anstart = length (q_dgram qu);
     (res, qu1) \<leftarrow> answer_scan ancount d now anstart 0 False qu;
     let a1 = put_query q qu1 a;
     (case res of
        Scan_fail st \<Rightarrow> query_fail sys q st a1
      | Scan_trunc \<Rightarrow> reply_truncated sys now q tc a1
      | Scan_ok (cbyte, wanted, here) \<Rightarrow>
          if tc then reply_truncated sys now q tc a1
          else if wanted = 0 then reply_nothing sys now q d nx tc ra nscount cbyte here a1
          else reply_records sys now q d
                 \<lparr>se_nsstart = cbyte, se_nscount = nscount, se_arcount = arcount\<rparr>
                 wanted ancount anstart a1) }"

definition reply_rcode :: "system \<Rightarrow> timeval \<Rightarrow> nat \<Rightarrow> string \<Rightarrow> ads \<Rightarrow> ads option" where
  "reply_rcode sys now q d a =
     (let rcode = get_b d 3 mod 16 in
      if rcode = 0 \<or> rcode = 3 then reply_answer sys now q d (rcode = 3) a
      else query_fail sys q
        (if rcode = 1 then s_rcodeformaterror else if rcode = 2 then s_rcodeservfail
         else if rcode = 4 then s_rcodenotimplemented else if rcode = 5 then s_rcoderefused
         else s_rcodeunknown) a)"

subsection \<open>Which query\<close>

definition dgram_answers :: "string \<Rightarrow> query \<Rightarrow> bool" where
  "dgram_answers d qu \<longleftrightarrow>
     q_id qu = int (get_w d 0) \<and> length (q_dgram qu) \<le> length d \<and>
     drop DNS_HDRSIZE (q_dgram qu) =
       take (length (q_dgram qu) - DNS_HDRSIZE) (drop DNS_HDRSIZE d)"

fun find_query :: "bool \<Rightarrow> nat \<Rightarrow> string \<Rightarrow> ads \<Rightarrow> nat list \<Rightarrow> nat option option" where
  "find_query viatcp serv d a [] = Some None"
| "find_query viatcp serv d a (q # qs) = do {
     qu \<leftarrow> a_query a q;
     if \<not> dgram_answers d qu then find_query viatcp serv d a qs
     else if viatcp then (if q_state qu = Tcpw then Some (Some q) else None)
     else if q_state qu \<noteq> Tosend then None
     else if \<not> bit (q_udpsent qu) serv then find_query viatcp serv d a qs
     else Some (Some q) }"

definition is_reply :: "string \<Rightarrow> bool" where
  "is_reply d \<longleftrightarrow>
     DNS_HDRSIZE \<le> length d \<and> bit (get_b d 2) 7 \<and> get_b d 2 div 8 mod 16 = 0"

definition procdgram ::
    "system \<Rightarrow> string \<Rightarrow> nat \<Rightarrow> bool \<Rightarrow> timeval \<Rightarrow> ads \<Rightarrow> ads option" where
  "procdgram sys d serv viatcp now a =
     (if \<not> is_reply d then Some a
      else do {
        m \<leftarrow> (if get_w d 4 = 1
             then find_query viatcp serv d a (if viatcp then a_tcpw a else a_udpw a)
             else Some None);
        (case m of
           None \<Rightarrow> Some a
         | Some q \<Rightarrow> do {
             a1 \<leftarrow> unlink_state (if viatcp then Tcpw else Tosend) q a;
             reply_rcode sys now q d a1 }) })"

end
