(* ===== verification/AdnsEvent.thy ===== *)
theory AdnsEvent
  imports AdnsReply
begin

text \<open>
  The events of adns: src/adns/event.c from the timeouts on. A call of the library works through
  the queries whose time is over, the state of the TCP connection, and what the sockets have to
  say. What a socket answers is a list: the results of the successive calls of \<open>read\<close>,
  \<open>recvfrom\<close> or \<open>write\<close>, and \<open>EAGAIN\<close> when the list is empty.
\<close>

subsection \<open>The time until the next event\<close>

text \<open>\<open>None\<close> is a caller that has no bound yet.\<close>

definition inter_immed :: "timeval option \<Rightarrow> timeval option" where
  "inter_immed tv = Some (0, 0)"

definition inter_maxto :: "timeval \<Rightarrow> timeval option \<Rightarrow> timeval option" where
  "inter_maxto mx tv =
     (case tv of None \<Rightarrow> Some mx | Some t \<Rightarrow> Some (if timer_gt t mx then mx else t))"

definition time_until :: "timeval \<Rightarrow> timeval \<Rightarrow> timeval" where
  "time_until now t =
     (let s = fst t - (fst now + 2); u = snd t - (snd now - 2000000); q = u div 1000000 in
      if s + q < 0 then (0, 0) else (s + q, u - q * 1000000))"

definition inter_maxtoabs :: "timeval \<Rightarrow> timeval \<Rightarrow> timeval option \<Rightarrow> timeval option" where
  "inter_maxtoabs now t tv = inter_maxto (time_until now t) tv"

text \<open>\<open>timeouts_queue\<close> and \<open>tcp_events\<close> with \<open>act\<close> 0 only look. The boolean is set when they
  return at once with no time to wait.\<close>

fun first_queue :: "timeval \<Rightarrow> ads \<Rightarrow> nat list \<Rightarrow> timeval option \<Rightarrow> timeval option option" where
  "first_queue now a [] tv = Some tv"
| "first_queue now a (q # qs) tv = do {
     qu \<leftarrow> a_query a q;
     if \<not> timer_gt now (q_timeout qu) then first_queue now a qs (inter_maxtoabs now (q_timeout qu) tv)
     else Some (inter_immed tv) }"

text \<open>The idle timer of an open connection is started even by a look.\<close>

definition start_idle :: "timeval \<Rightarrow> ads \<Rightarrow> ads option" where
  "start_idle now a =
     (if fst (a_tcptimeout a) \<noteq> 0 then Some a
      else if snd (a_tcptimeout a) \<noteq> 0 then None
      else Some (a\<lparr>a_tcptimeout := timevaladd now TCPIDLEMS\<rparr>))"

definition first_tcp :: "timeval \<Rightarrow> ads \<Rightarrow> timeval option \<Rightarrow> (timeval option \<times> ads) option" where
  "first_tcp now a tv =
     (case a_tcpstate a of
        Broken \<Rightarrow> Some (inter_immed tv, a)
      | Disconnected \<Rightarrow> Some (if a_tcpw a = [] then tv else inter_immed tv, a)
      | Server_ok \<Rightarrow>
          if a_tcpw a \<noteq> [] then Some (tv, a)
          else map_option (\<lambda>a1. (inter_maxtoabs now (a_tcptimeout a1) tv, a1)) (start_idle now a)
      | Connecting \<Rightarrow> Some (inter_maxtoabs now (a_tcptimeout a) tv, a))"

definition adns_firsttimeout :: "timeval \<Rightarrow> ads \<Rightarrow> timeval option \<Rightarrow> (timeval option \<times> ads) option" where
  "adns_firsttimeout now a tv = do {
     tv1 \<leftarrow> first_queue now a (a_udpw a) tv;
     tv2 \<leftarrow> first_queue now a (a_tcpw a) tv1;
     first_tcp now a tv2 }"

subsection \<open>Timeouts\<close>

text \<open>After a query was taken out the loop goes back to the head of the queue.\<close>

partial_function (option) timeouts_queue ::
    "system \<Rightarrow> timeval \<Rightarrow> qstate \<Rightarrow> nat list \<Rightarrow> ads \<Rightarrow> ads option" where
  "timeouts_queue sys now s qs a =
     (case qs of
        [] \<Rightarrow> Some a
      | q # rest \<Rightarrow> do {
          qu \<leftarrow> a_query a q;
          if \<not> timer_gt now (q_timeout qu) then timeouts_queue sys now s rest a
          else do {
            a1 \<leftarrow> unlink_state s q a;
            a2 \<leftarrow> (if q_state qu \<noteq> Tosend then query_fail sys q s_timeout a1
                  else query_send sys now q a1);
            timeouts_queue sys now s (the_queue s a2) a2 } })"

partial_function (option) tcp_events :: "system \<Rightarrow> timeval \<Rightarrow> ads \<Rightarrow> ads option" where
  "tcp_events sys now a =
     (if a_tcpstate a = Broken \<or> a_tcpstate a = Disconnected then do {
        a1 \<leftarrow> (if a_tcpstate a = Broken then tcp_broken_events sys a else Some a);
        if a_tcpw a1 = [] then Some a1
        else do { a2 \<leftarrow> tcp_tryconnect sys now a1; tcp_events sys now a2 } }
      else if a_tcpstate a = Server_ok \<and> a_tcpw a \<noteq> [] then Some a
      else do {
        a1 \<leftarrow> (if a_tcpstate a = Server_ok then start_idle now a else Some a);
        if \<not> timer_gt now (a_tcptimeout a1) then Some a1
        else if a_tcpstate a1 = Connecting then do { a2 \<leftarrow> tcp_broken a1; tcp_events sys now a2 }
        else Some ((tcp_close a1)\<lparr>a_tcpstate := Disconnected\<rparr>) })"

definition adns_processtimeouts :: "system \<Rightarrow> timeval \<Rightarrow> ads \<Rightarrow> ads option" where
  "adns_processtimeouts sys now a = do {
     a1 \<leftarrow> timeouts_queue sys now Tosend (a_udpw a) a;
     a2 \<leftarrow> timeouts_queue sys now Tcpw (a_tcpw a1) a1;
     tcp_events sys now a2 }"

subsection \<open>Sockets\<close>

text \<open>\<open>Io_resource\<close> is an error of \<open>errno_resources\<close>, which is returned to the caller; a read of
  no bytes is the end of the stream.\<close>

datatype io = Io_data string | Io_again | Io_intr | Io_resource | Io_error
datatype io_result = Io_ok | Io_errno

text \<open>One turn of the loop over the stream: a complete datagram is processed; else the rest is
  moved to the front of the buffer, and what there is room for is read.\<close>

definition tcp_frame :: "ads \<Rightarrow> string option" where
  "tcp_frame a =
     (let r = drop (a_tcpskip a) (a_tcprecv a) in
      if 2 \<le> length r \<and> 2 + get_w r 0 \<le> length r then Some (take (get_w r 0) (drop 2 r)) else None)"

definition tcp_want :: "ads \<Rightarrow> nat" where
  "tcp_want a =
     (let r = drop (a_tcpskip a) (a_tcprecv a) in if 2 \<le> length r then 2 + get_w r 0 else 2)"

definition tcp_compact :: "ads \<Rightarrow> ads" where
  "tcp_compact a =
     a\<lparr>a_tcprecv := drop (a_tcpskip a) (a_tcprecv a), a_tcpskip := 0,
       a_tcpavail := max (a_tcpavail a) (tcp_want a)\<rparr>"

definition more_io :: "string \<Rightarrow> io list \<Rightarrow> io list" where
  "more_io s ios = (if s = [] then ios else Io_data s # ios)"

partial_function (option) tcp_readable ::
    "system \<Rightarrow> timeval \<Rightarrow> io list \<Rightarrow> ads \<Rightarrow> (io_result \<times> ads) option" where
  "tcp_readable sys now ios a =
     (if a_tcpstate a \<noteq> Server_ok then Some (Io_ok, a)
      else case tcp_frame a of
        Some d \<Rightarrow> do {
          a1 \<leftarrow> procdgram sys d (a_tcpserver a) True now
                 (a\<lparr>a_tcpskip := a_tcpskip a + 2 + length d\<rparr>);
          tcp_readable sys now ios a1 }
      | None \<Rightarrow>
          let a1 = tcp_compact a; room = a_tcpavail a1 - length (a_tcprecv a1) in
          if room = 0 then tcp_readable sys now ios a1
          else
            (case ios of
               [] \<Rightarrow> Some (Io_ok, a1)
             | Io_data s # ios' \<Rightarrow>
                 if s = [] then do { a2 \<leftarrow> tcp_broken a1; tcp_readable sys now ios' a2 }
                 else tcp_readable sys now (more_io (drop room s) ios')
                        (a1\<lparr>a_tcprecv := a_tcprecv a1 @ take room s\<rparr>)
             | Io_again # ios' \<Rightarrow> Some (Io_ok, a1)
             | Io_intr # ios' \<Rightarrow> tcp_readable sys now ios' a1
             | Io_resource # ios' \<Rightarrow> Some (Io_errno, a1)
             | Io_error # ios' \<Rightarrow> do { a2 \<leftarrow> tcp_broken a1; tcp_readable sys now ios' a2 }))"

text \<open>A received datagram: the length of its address, the family and the port as the code tests
  them, and the address.\<close>

record udp_dgram =
  ud_addrlen_ok :: bool
  ud_inet :: bool
  ud_port :: nat
  ud_addr :: "32 word"
  ud_data :: string

datatype udp_io = Udp_dgram udp_dgram | Udp_again | Udp_intr | Udp_resource | Udp_error

definition DNS_PORT :: nat where "DNS_PORT = 53"

fun server_index :: "32 word list \<Rightarrow> 32 word \<Rightarrow> nat" where
  "server_index [] w = 0"
| "server_index (s # ss) w = (if s = w then 0 else 1 + server_index ss w)"

definition udp_server :: "ads \<Rightarrow> udp_dgram \<Rightarrow> nat option" where
  "udp_server a u =
     (let serv = server_index (a_servers a) (ud_addr u) in
      if ud_addrlen_ok u \<and> ud_inet u \<and> ud_port u = DNS_PORT \<and> serv < nservers a
      then Some serv else None)"

fun udp_readable :: "system \<Rightarrow> timeval \<Rightarrow> udp_io list \<Rightarrow> ads \<Rightarrow> (io_result \<times> ads) option" where
  "udp_readable sys now [] a = Some (Io_ok, a)"
| "udp_readable sys now (Udp_again # us) a = Some (Io_ok, a)"
| "udp_readable sys now (Udp_intr # us) a = udp_readable sys now us a"
| "udp_readable sys now (Udp_resource # us) a = Some (Io_errno, a)"
| "udp_readable sys now (Udp_error # us) a = Some (Io_ok, a)"
| "udp_readable sys now (Udp_dgram u # us) a =
     (case udp_server a u of
        None \<Rightarrow> udp_readable sys now us a
      | Some serv \<Rightarrow> do {
          a1 \<leftarrow> procdgram sys (take DNS_MAXUDP (ud_data u)) serv False now a;
          udp_readable sys now us a1 })"

datatype fd = Fd_udp | Fd_tcp

definition adns_processreadable ::
    "system \<Rightarrow> timeval \<Rightarrow> fd \<Rightarrow> io list \<Rightarrow> udp_io list \<Rightarrow> ads \<Rightarrow> (io_result \<times> ads) option" where
  "adns_processreadable sys now fd ios us a =
     (if a_tcpstate a = Server_ok \<and> fd = Fd_tcp then
        (if a_tcpskip a \<noteq> 0 then None else tcp_readable sys now ios a)
      else if fd = Fd_udp then udp_readable sys now us a
      else Some (Io_ok, a))"

text \<open>A connection that can be written to is tried with a read: nothing to read means that it
  stands.\<close>

fun tcp_connect_poll :: "system \<Rightarrow> io list \<Rightarrow> ads \<Rightarrow> (io_result \<times> ads) option" where
  "tcp_connect_poll sys [] a = map_option (Pair Io_ok) (tcp_connected sys a)"
| "tcp_connect_poll sys (Io_again # ios) a = map_option (Pair Io_ok) (tcp_connected sys a)"
| "tcp_connect_poll sys (Io_data s # ios) a =
     map_option (Pair Io_ok) (if s = [] then tcp_connected sys a else tcp_broken a)"
| "tcp_connect_poll sys (Io_intr # ios) a = tcp_connect_poll sys ios a"
| "tcp_connect_poll sys (Io_resource # ios) a = Some (Io_errno, a)"
| "tcp_connect_poll sys (Io_error # ios) a = map_option (Pair Io_ok) (tcp_broken a)"

text \<open>Here \<open>Wr n\<close> is the number of bytes that \<open>write\<close> took.\<close>

datatype wr = Wr nat | Wr_again | Wr_intr | Wr_resource | Wr_error

fun tcp_flush :: "wr list \<Rightarrow> ads \<Rightarrow> (io_result \<times> ads) option" where
  "tcp_flush [] a = Some (Io_ok, a)"
| "tcp_flush (w # ws) a =
     (if a_tcpsend a = [] then Some (Io_ok, a)
      else case w of
        Wr n \<Rightarrow>
          tcp_flush ws (a\<lparr>a_tcpsend := drop n (a_tcpsend a), a_wire := a_wire a @ take n (a_tcpsend a)\<rparr>)
      | Wr_again \<Rightarrow> Some (Io_ok, a)
      | Wr_intr \<Rightarrow> tcp_flush ws a
      | Wr_resource \<Rightarrow> Some (Io_errno, a)
      | Wr_error \<Rightarrow> map_option (Pair Io_ok) (tcp_broken a))"

definition adns_processwriteable ::
    "system \<Rightarrow> fd \<Rightarrow> io list \<Rightarrow> wr list \<Rightarrow> ads \<Rightarrow> (io_result \<times> ads) option" where
  "adns_processwriteable sys fd ios ws a =
     (if fd \<noteq> Fd_tcp then Some (Io_ok, a)
      else if a_tcpstate a = Connecting then
        (if a_tcprecv a \<noteq> [] \<or> a_tcpskip a \<noteq> 0 then None
         else tcp_connect_poll sys ios (a\<lparr>a_tcpavail := max (a_tcpavail a) 1\<rparr>))
      else if a_tcpstate a = Server_ok then tcp_flush ws a
      else Some (Io_ok, a))"

definition adns_processexceptional :: "fd \<Rightarrow> ads \<Rightarrow> (io_result \<times> ads) option" where
  "adns_processexceptional fd a =
     (if fd = Fd_tcp \<and> (a_tcpstate a = Connecting \<or> a_tcpstate a = Server_ok)
      then map_option (Pair Io_ok) (tcp_broken a)
      else Some (Io_ok, a))"

subsection \<open>A round of events\<close>

text \<open>The descriptors to poll: input, output and urgent data wanted.\<close>

record pollfd =
  pf_fd :: fd
  pf_in :: bool
  pf_out :: bool
  pf_pri :: bool

definition pollfds :: "ads \<Rightarrow> pollfd list" where
  "pollfds a =
     \<lparr>pf_fd = Fd_udp, pf_in = True, pf_out = False, pf_pri = False\<rparr> #
     (case a_tcpstate a of
        Disconnected \<Rightarrow> []
      | Broken \<Rightarrow> []
      | Connecting \<Rightarrow> [\<lparr>pf_fd = Fd_tcp, pf_in = False, pf_out = True, pf_pri = False\<rparr>]
      | Server_ok \<Rightarrow> [\<lparr>pf_fd = Fd_tcp, pf_in = True, pf_out = (a_tcpsend a \<noteq> []), pf_pri = True\<rparr>])"

text \<open>What the sockets answer in a round; a connection that is made anew in a round has the
  descriptor of the old one.\<close>

record inputs =
  in_reads :: "io list"
  in_polls :: "io list"
  in_dgrams :: "udp_io list"
  in_writes :: "wr list"

text \<open>\<open>fail_queue\<close> is \<open>while (queue.head) adns__query_fail(queue.head, ...)\<close>, which does not take
  the query out of the queue.\<close>

partial_function (option) fail_queue :: "system \<Rightarrow> qstate \<Rightarrow> ads \<Rightarrow> ads option" where
  "fail_queue sys s a =
     (case the_queue s a of
        [] \<Rightarrow> Some a
      | q # rest \<Rightarrow> do { a1 \<leftarrow> query_fail sys q s_systemfail a; fail_queue sys s a1 })"

definition adns_globalsystemfailure :: "system \<Rightarrow> ads \<Rightarrow> ads option" where
  "adns_globalsystemfailure sys a = do {
     a1 \<leftarrow> fail_queue sys Tosend a;
     a2 \<leftarrow> fail_queue sys Tcpw a1;
     if a_tcpstate a2 = Connecting \<or> a_tcpstate a2 = Server_ok then tcp_broken a2 else Some a2 }"

text \<open>\<open>fd_event\<close>: an error of the handler is a failure of the system unless the caller wants it.\<close>

definition fd_event :: "system \<Rightarrow> bool \<Rightarrow> bool \<Rightarrow> (ads \<Rightarrow> (io_result \<times> ads) option) \<Rightarrow> ads \<Rightarrow> ads option" where
  "fd_event sys wants_error ready handler a =
     (if \<not> ready then Some a
      else do {
        (r, a1) \<leftarrow> handler a;
        if r = Io_errno \<and> \<not> wants_error then adns_globalsystemfailure sys a1 else Some a1 })"

fun fdevents :: "system \<Rightarrow> timeval \<Rightarrow> bool \<Rightarrow> inputs \<Rightarrow> pollfd list \<Rightarrow> ads \<Rightarrow> ads option" where
  "fdevents sys now we inp [] a = Some a"
| "fdevents sys now we inp (p # ps) a = do {
     a1 \<leftarrow> fd_event sys we (pf_in p)
            (adns_processreadable sys now (pf_fd p) (in_reads inp) (in_dgrams inp)) a;
     a2 \<leftarrow> fd_event sys we (pf_out p)
            (adns_processwriteable sys (pf_fd p) (in_polls inp) (in_writes inp)) a1;
     a3 \<leftarrow> fd_event sys we (pf_pri p) (adns_processexceptional (pf_fd p)) a2;
     fdevents sys now we inp ps a3 }"

definition adns_processany :: "system \<Rightarrow> timeval \<Rightarrow> inputs \<Rightarrow> ads \<Rightarrow> ads option" where
  "adns_processany sys now inp a = do {
     a1 \<leftarrow> adns_processtimeouts sys now a;
     fdevents sys now True inp (map (\<lambda>p. p\<lparr>pf_pri := False\<rparr>) (pollfds a1)) a1 }"

definition adns_beforeselect :: "timeval \<Rightarrow> timeval option \<Rightarrow> ads \<Rightarrow> (timeval option \<times> pollfd list \<times> ads) option" where
  "adns_beforeselect now tv a = do {
     (tv1, a1) \<leftarrow> (if tv \<noteq> Some (0, 0) then adns_firsttimeout now a tv else Some (tv, a));
     Some (tv1, pollfds a1, a1) }"

text \<open>After \<open>select\<close> every descriptor is asked, if it is in the sets that \<open>select\<close> left.\<close>

definition adns_afterselect :: "system \<Rightarrow> timeval \<Rightarrow> (fd \<Rightarrow> pollfd) \<Rightarrow> inputs \<Rightarrow> ads \<Rightarrow> ads option" where
  "adns_afterselect sys now ready inp a = do {
     a1 \<leftarrow> adns_processtimeouts sys now a;
     fdevents sys now False inp (map (\<lambda>p. ready (pf_fd p)) (pollfds a1)) a1 }"

subsection \<open>Submitting\<close>

text \<open>\<open>adns_submit\<close> ends with a round of events, unless the name is refused at once or the library
  was asked not to.\<close>

definition adns_submit ::
    "system \<Rightarrow> timeval \<Rightarrow> inputs option \<Rightarrow> string \<Rightarrow> nat \<Rightarrow> queryflags \<Rightarrow> ads \<Rightarrow>
     (submit_error + nat \<times> ads) option" where
  "adns_submit sys now autosys owner type flags a = do {
     r \<leftarrow> submit_new sys now owner type flags a;
     (case (r, autosys) of
        (Inr (q, a1), Some inp) \<Rightarrow>
          if owner = [] \<or> length owner > DNS_MAXDOMAIN + 1 then Some r
          else map_option (\<lambda>a2. Inr (q, a2)) (adns_processany sys now inp a1)
      | _ \<Rightarrow> Some r) }"

text \<open>The name of an address under a zone: the text of its bytes, last one first.\<close>

definition reverse_name :: "32 word \<Rightarrow> string \<Rightarrow> string" where
  "reverse_name w zone =
     (let n = unat w in
      dec (n mod 256) @ ''.'' @ dec (n div 2 ^ 8 mod 256) @ ''.'' @ dec (n div 2 ^ 16 mod 256)
        @ ''.'' @ dec (n div 2 ^ 24) @ ''.'' @ zone)"

definition adns_submit_reverse_any ::
    "system \<Rightarrow> timeval \<Rightarrow> inputs option \<Rightarrow> 32 word \<Rightarrow> string \<Rightarrow> nat \<Rightarrow> queryflags \<Rightarrow> ads \<Rightarrow> (submit_error + nat \<times> ads) option" where
  "adns_submit_reverse_any sys now autosys addr zone type flags a =
     adns_submit sys now autosys (reverse_name addr zone) type (flags\<lparr>qf_search := False\<rparr>) a"

definition adns_submit_reverse ::
    "system \<Rightarrow> timeval \<Rightarrow> inputs option \<Rightarrow> 32 word \<Rightarrow> nat \<Rightarrow> queryflags \<Rightarrow> ads \<Rightarrow> (submit_error + nat \<times> ads) option" where
  "adns_submit_reverse sys now autosys addr type flags a =
     (if type \<noteq> r_ptr \<and> type \<noteq> r_ptr_raw then Some (Inl EINVAL)
      else adns_submit_reverse_any sys now autosys addr ''in-addr.arpa'' type flags a)"

subsection \<open>The answers\<close>

datatype check_result = Answer nat query | EAGAIN | ESRCH | EINTR

definition take_answer :: "nat \<Rightarrow> ads \<Rightarrow> (check_result \<times> ads) option" where
  "take_answer q a = do {
     qu \<leftarrow> a_query a q;
     l \<leftarrow> unlink q (a_output a);
     Some (Answer q qu, free_query q (a\<lparr>a_output := l\<rparr>)) }"

definition internal_check :: "nat option \<Rightarrow> ads \<Rightarrow> (check_result \<times> ads) option" where
  "internal_check qo a =
     (case qo of
        None \<Rightarrow>
          (case a_output a of
             q # rest \<Rightarrow> take_answer q a
           | [] \<Rightarrow> Some (if a_udpw a \<noteq> [] \<or> a_tcpw a \<noteq> [] then EAGAIN else ESRCH, a))
      | Some q \<Rightarrow> do {
          qu \<leftarrow> a_query a q;
          if q_id qu \<ge> 0 then Some (EAGAIN, a) else take_answer q a })"

definition adns_check ::
    "system \<Rightarrow> timeval \<Rightarrow> inputs option \<Rightarrow> nat option \<Rightarrow> ads \<Rightarrow> (check_result \<times> ads) option" where
  "adns_check sys now autosys qo a = do {
     a1 \<leftarrow> (case autosys of None \<Rightarrow> Some a | Some inp \<Rightarrow> adns_processany sys now inp a);
     internal_check qo a1 }"

datatype select_result = Select_intr | Select_error | Select_ready timeval "fd \<Rightarrow> pollfd" inputs

text \<open>\<open>adns_wait\<close> over the rounds of \<open>select\<close>: each has the time before it and its result. When
  the rounds are used up the call still waits, \<open>EAGAIN\<close>.\<close>

fun adns_wait ::
    "system \<Rightarrow> bool \<Rightarrow> nat option \<Rightarrow> (timeval \<times> select_result) list \<Rightarrow> ads \<Rightarrow> (check_result \<times> ads) option" where
  "adns_wait sys eintr qo [] a = internal_check qo a"
| "adns_wait sys eintr qo ((now, sel) # rounds) a = do {
     (r, a1) \<leftarrow> internal_check qo a;
     if r \<noteq> EAGAIN then Some (r, a1)
     else do {
       (tv, ps, a2) \<leftarrow> adns_beforeselect now None a1;
       if tv = None then None
       else
         (case sel of
            Select_intr \<Rightarrow>
              if eintr then Some (EINTR, a2) else adns_wait sys eintr qo rounds a2
          | Select_error \<Rightarrow> do {
              a3 \<leftarrow> adns_globalsystemfailure sys a2;
              adns_wait sys eintr qo rounds a3 }
          | Select_ready now1 ready inp \<Rightarrow> do {
              a3 \<leftarrow> adns_afterselect sys now1 ready inp a2;
              adns_wait sys eintr qo rounds a3 }) } }"

end
