(* ===== verification/AdnsRounds.thy ===== *)
theory AdnsRounds
  imports AdnsTcp AdnsEvent "HOL-Library.Sublist"
begin

text \<open>
  The timeouts of adns: the loops over the queues end, keep the machine consistent, and leave no
  query whose time is over; a query that is never answered is given up.
\<close>

subsection \<open>Whose time is over\<close>

definition expired :: "timeval \<Rightarrow> ads \<Rightarrow> nat \<Rightarrow> bool" where
  "expired now a q \<longleftrightarrow>
     (case a_query a q of None \<Rightarrow> False | Some qu \<Rightarrow> timer_gt now (q_timeout qu))"

definition expired_count :: "timeval \<Rightarrow> qstate \<Rightarrow> ads \<Rightarrow> nat" where
  "expired_count now s a = length (filter (expired now a) (the_queue s a))"

lemma not_gt_later: "\<not> timer_gt now (timevaladd now ms)"
  by (simp add: timer_gt_def timevaladd_def Let_def)

lemma expired_same: "a_query b q = a_query a q \<Longrightarrow> expired now b q = expired now a q"
  by (simp add: expired_def)

lemma filter_remove1_less:
  "q \<in> set l \<Longrightarrow> P q \<Longrightarrow> length (filter P (remove1 q l)) < length (filter P l)"
  by (induction l) auto

lemma filter_sub_le: "length (filter P (filter Q l)) \<le> length (filter P l)"
  by (induction l) auto

text \<open>A query that fails takes others along, but changes none of those that stay.\<close>

lemma shrunk_queues:
  "shrunk G a b \<Longrightarrow> s = Tosend \<or> s = Tcpw \<Longrightarrow>
   the_queue s b = filter (\<lambda>x. x \<notin> G) (the_queue s a)"
  "shrunk G a b \<Longrightarrow> s = Tosend \<or> s = Tcpw \<Longrightarrow> x \<in> set (the_queue s b) \<Longrightarrow> a_query b x = a_query a x"
  unfolding shrunk_def by blast+

lemma shrunk_count:
  assumes "shrunk G a b" "s = Tosend \<or> s = Tcpw"
  shows "expired_count now s b \<le> expired_count now s a"
proof -
  have "filter (expired now b) (the_queue s b) = filter (expired now a) (the_queue s b)"
    by (intro filter_cong refl expired_same shrunk_queues(2) [OF assms]) simp_all
  then show ?thesis
    using filter_sub_le [of "expired now a" "\<lambda>x. x \<notin> G" "the_queue s a"]
    by (simp only: expired_count_def shrunk_queues(1) [OF assms])
qed

lemma expired_set_queue [simp]: "expired now (set_queue s l a) = expired now a"
  by (simp add: expired_def fun_eq_iff)

lemma unlink_count:
  assumes "q \<in> set (the_queue s a)" "expired now a q"
  shows "expired_count now s (set_queue s (remove1 q (the_queue s a)) a) < expired_count now s a"
  using filter_remove1_less [of q "the_queue s a" "expired now a"] assms
  by (simp add: expired_count_def)

text \<open>Sending over UDP starts a new wait.\<close>

lemma sent_count:
  assumes "q \<notin> set (a_udpw a)"
  shows "expired_count now Tosend (sent_state now q qu a) = expired_count now Tosend a"
proof -
  let ?b = "sent_state now q qu a"
  have b: "a_query ?b = (a_query a)(q \<mapsto> sent_udp a now qu)" "a_udpw ?b = a_udpw a @ [q]"
    by (simp_all add: sent_state_def link_state_def call_done_def fun_eq_iff sent_udp_def)
  have "\<not> expired now ?b q" by (simp add: expired_def b(1) sent_udp_def not_gt_later)
  moreover have "filter (expired now ?b) (a_udpw a) = filter (expired now a) (a_udpw a)"
    using assms b(1) by (intro filter_cong) (auto simp: expired_def)
  ultimately show ?thesis by (simp add: expired_count_def b(2))
qed

subsection \<open>One query\<close>

definition time_out :: "system \<Rightarrow> timeval \<Rightarrow> qstate \<Rightarrow> nat \<Rightarrow> ads \<Rightarrow> ads option" where
  "time_out sys now s q a = do {
     qu \<leftarrow> a_query a q;
     a1 \<leftarrow> unlink_state s q a;
     (if q_state qu \<noteq> Tosend then query_fail sys q s_timeout a1 else query_send sys now q a1) }"

lemma time_out_ok:
  assumes w: "consistent {} {} a" and s: "s = Tosend \<or> s = Tcpw" and q: "q \<in> set (the_queue s a)"
    and e: "expired now a q" and sys: "no_msgsize sys" and now: "0 < fst now"
  shows "\<exists>b. time_out sys now s q a = Some b \<and> consistent {} {} b \<and> (no_ptr a \<longrightarrow> no_ptr b) \<and>
    expired_count now s b < expired_count now s a \<and>
    (s = Tcpw \<longrightarrow> expired_count now Tosend b \<le> expired_count now Tosend a)"
proof -
  obtain qu where qu: "a_query a q = Some qu" using wf_get [OF w, of q s] q by auto
  let ?c = "set_queue s (remove1 q (the_queue s a)) a"
  have c: "unlink_state s q a = Some ?c" "consistent {q} {} ?c" using wf_unlink [OF w q] by simp_all
  have qo: "queue_ok a s qu" using wf_E(3) [OF w q qu] .
  have st: "q_state qu = s" using qo s by auto
  have qc: "a_query ?c q = Some qu" using qu by simp
  have np: "no_ptr a \<longrightarrow> no_ptr ?c" using s set_remove1_subset by (fastforce simp: no_ptr_def)
  have less: "expired_count now s ?c < expired_count now s a" using unlink_count [OF q e] .
  have other: "s = Tcpw \<longrightarrow> expired_count now Tosend ?c = expired_count now Tosend a"
    by (simp add: expired_count_def)
  show ?thesis
  proof (cases "s = Tosend")
    case False
    have sd: "q_state qu \<noteq> Done" using st s by auto
    obtain b G where b: "query_fail sys q s_timeout ?c = Some b" "consistent {} {} b"
      "no_ptr ?c \<longrightarrow> no_ptr b" "shrunk G ?c b"
      using query_fail_keeps [OF c(2) qc, of sys s_timeout] sd by blast
    have "expired_count now t b \<le> expired_count now t ?c" if "t = Tosend \<or> t = Tcpw" for t
      using shrunk_count that b(4) by blast
    then show ?thesis
      using b np less other False s st qu c(1) by (fastforce simp: time_out_def intro: le_less_trans)
  next
    case True
    have u: "for_udp qu" "q_children qu = []" "0 \<le> q_id qu" using qo True by (simp_all add: for_udp_def)
    have sq: "q_state qu = Tosend" using st True by simp
    have se: "sendable ?c qu" using u(1) by (simp add: sendable_def)
    obtain b where b: "query_send sys now q ?c = Some b" "consistent {} {} b" "no_ptr ?c \<longrightarrow> no_ptr b"
      "b = sent_state now q qu ?c \<or> (\<exists>G. shrunk G ?c b)"
      using query_send_ok [OF c(2) qc sq u(2,3) se sys now] u(1) by (cases "q_retries qu < UDPMAXRETRIES") auto
    have nq: "q \<notin> set (a_udpw ?c)" using wf_floating [OF c(2), of q] by simp
    have "expired_count now Tosend b \<le> expired_count now Tosend ?c"
      using b(4) sent_count [OF nq, of now qu] shrunk_count by fastforce
    then show ?thesis using b np less True st qu c(1) by (auto simp: time_out_def)
  qed
qed

subsection \<open>The loop over a queue\<close>

lemma timeouts_queue_step:
  "timeouts_queue sys now s (q # rest) a =
     (case a_query a q of
        None \<Rightarrow> None
      | Some qu \<Rightarrow>
          if \<not> timer_gt now (q_timeout qu) then timeouts_queue sys now s rest a
          else do { a2 \<leftarrow> time_out sys now s q a; timeouts_queue sys now s (the_queue s a2) a2 })"
  by (subst timeouts_queue.simps) (auto simp: time_out_def split: option.splits bind_splits)

lemma timeouts_queue_ok:
  assumes "consistent {} {} a" "no_ptr a" and s: "s = Tosend \<or> s = Tcpw"
    and "the_queue s a = pre @ qs" "\<forall>x \<in> set pre. \<not> expired now a x"
    and sys: "no_msgsize sys" and now: "0 < fst now"
  shows "\<exists>b. timeouts_queue sys now s qs a = Some b \<and> consistent {} {} b \<and> no_ptr b \<and>
    expired_count now s b = 0 \<and>
    (s = Tcpw \<longrightarrow> expired_count now Tosend b \<le> expired_count now Tosend a)"
  using assms(1,2,4,5)
proof (induction "expired_count now s a" arbitrary: a pre qs rule: less_induct)
  case (less a pre qs)
  show ?case
    using less.prems(3,4)
  proof (induction qs arbitrary: pre)
    case Nil
    then show ?case
      using less.prems(1,2) by (subst timeouts_queue.simps) (auto simp: expired_count_def filter_empty_conv)
  next
    case (Cons q qs)
    have q: "q \<in> set (the_queue s a)" using Cons.prems(1) by simp
    obtain qu where qu: "a_query a q = Some qu" using wf_get [OF less.prems(1), of q s] q by auto
    show ?case
    proof (cases "timer_gt now (q_timeout qu)")
      case False
      then have "\<not> expired now a q" using qu by (simp add: expired_def)
      then show ?thesis
        using Cons.IH [of "pre @ [q]"] Cons.prems False qu by (simp add: timeouts_queue_step)
    next
      case True
      then have e: "expired now a q" using qu by (simp add: expired_def)
      obtain c where c: "time_out sys now s q a = Some c" "consistent {} {} c" "no_ptr c"
        "expired_count now s c < expired_count now s a"
        "s = Tcpw \<longrightarrow> expired_count now Tosend c \<le> expired_count now Tosend a"
        using time_out_ok [OF less.prems(1) s q e sys now] less.prems(2) by blast
      obtain b where "timeouts_queue sys now s (the_queue s c) c = Some b" "consistent {} {} b" "no_ptr b"
        "expired_count now s b = 0" "s = Tcpw \<longrightarrow> expired_count now Tosend b \<le> expired_count now Tosend c"
        using less.hyps [OF c(4,2,3), of "[]" "the_queue s c"] by auto
      then show ?thesis using c(1,5) qu True by (auto simp: timeouts_queue_step)
    qed
  qed
qed

subsection \<open>The connection\<close>

text \<open>How often the queries that wait for TCP may still be tried.\<close>

definition tries_left :: "ads \<Rightarrow> nat" where
  "tries_left a =
     (\<Sum>q \<in> set (a_tcpw a).
        case a_query a q of None \<Rightarrow> 0 | Some qu \<Rightarrow> nservers a + 1 - q_retries qu)"

lemma tries_left_same:
  "a_query b = a_query a \<Longrightarrow> a_tcpw b = a_tcpw a \<Longrightarrow> a_servers b = a_servers a \<Longrightarrow>
   tries_left b = tries_left a"
  by (simp only: tries_left_def)

definition more_tried :: "ads \<Rightarrow> ads \<Rightarrow> bool" where
  "more_tried a b \<longleftrightarrow>
     nservers b = nservers a \<and> a_tcpw b = a_tcpw a \<and>
     (\<forall>q. rel_option (\<lambda>u v. q_retries u \<le> q_retries v) (a_query a q) (a_query b q))"

lemma rel_option_le_refl [simp]: "rel_option (\<lambda>u v. q_retries u \<le> q_retries v) x x"
  by (cases x) simp_all

lemma more_tried_refl [simp]: "more_tried a a"
  by (simp add: more_tried_def)

lemma more_tried_trans:
  assumes "more_tried a b" "more_tried b c" shows "more_tried a c"
proof -
  have "rel_option (\<lambda>u v. q_retries u \<le> q_retries v) (a_query a q) (a_query c q)" for q
  proof -
    have "rel_option (\<lambda>u v. q_retries u \<le> q_retries v) (a_query a q) (a_query b q)"
      "rel_option (\<lambda>u v. q_retries u \<le> q_retries v) (a_query b q) (a_query c q)"
      using assms by (simp_all add: more_tried_def)
    then show ?thesis by (cases "a_query a q"; cases "a_query b q"; cases "a_query c q") auto
  qed
  then show ?thesis using assms by (simp add: more_tried_def)
qed

lemma more_tried_left:
  assumes m: "more_tried a b"
  shows "tries_left b \<le> tries_left a"
    "q \<in> set (a_tcpw a) \<Longrightarrow> a_query a q = Some u \<Longrightarrow> a_query b q = Some v \<Longrightarrow>
     q_retries u \<le> nservers a \<Longrightarrow> q_retries u < q_retries v \<Longrightarrow> tries_left b < tries_left a"
proof -
  let ?f = "\<lambda>c q. case a_query c q of None \<Rightarrow> 0 | Some qu \<Rightarrow> nservers a + 1 - q_retries qu"
  have s: "a_tcpw b = a_tcpw a" "nservers b = nservers a"
    and r: "rel_option (\<lambda>u v. q_retries u \<le> q_retries v) (a_query a x) (a_query b x)" for x
    using m by (simp_all add: more_tried_def)
  have le: "?f b x \<le> ?f a x" for x
    using r [of x] by (cases "a_query a x"; cases "a_query b x") auto
  have e: "tries_left c = (\<Sum>x \<in> set (a_tcpw a). ?f c x)" if "c = a \<or> c = b" for c
    using that by (elim disjE) (simp_all only: tries_left_def s)
  show "tries_left b \<le> tries_left a" using le by (simp add: e sum_mono del: One_nat_def)
  assume q: "q \<in> set (a_tcpw a)" "a_query a q = Some u" "a_query b q = Some v"
    "q_retries u \<le> nservers a" "q_retries u < q_retries v"
  then have "?f b q < ?f a q" by simp
  then show "tries_left b < tries_left a"
    using q(1) le by (simp only: e simp_thms) (intro sum_strict_mono_ex1, auto)
qed

lemma tries_left_fewer:
  assumes "set (a_tcpw b) \<subseteq> set (a_tcpw a)" "a_servers b = a_servers a"
    "\<forall>x \<in> set (a_tcpw b). a_query b x = a_query a x"
  shows "tries_left b \<le> tries_left a"
proof -
  have "tries_left b = (\<Sum>q \<in> set (a_tcpw b). case a_query a q of None \<Rightarrow> 0 | Some qu \<Rightarrow> nservers a + 1 - q_retries qu)"
    unfolding tries_left_def using assms(2,3) by (intro sum.cong) (auto split: option.split)
  also have "\<dots> \<le> tries_left a" unfolding tries_left_def using assms(1) by (intro sum_mono2) auto
  finally show ?thesis .
qed

lemma tcp_broken_tried:
  assumes "tcp_broken a = Some b"
  shows "more_tried a b"
    "a_tcpstate a = Connecting \<Longrightarrow> q \<in> set (a_tcpw a) \<Longrightarrow> a_query a q = Some u \<Longrightarrow>
     a_query b q = Some (u\<lparr>q_retries := q_retries u + 1\<rparr>)"
proof -
  show "more_tried a b"
    using assms
    by (auto simp: tcp_broken_def tcp_close_def retry_all_def more_tried_def Let_def option.rel_map
        option.rel_refl split: if_splits)
  show "a_tcpstate a = Connecting \<Longrightarrow> q \<in> set (a_tcpw a) \<Longrightarrow> a_query a q = Some u \<Longrightarrow>
     a_query b q = Some (u\<lparr>q_retries := q_retries u + 1\<rparr>)"
    using assms by (auto simp: tcp_broken_def tcp_close_def retry_all_def)
qed

text \<open>One more try of a query of the queue.\<close>

definition tried_once :: "nat \<Rightarrow> ads \<Rightarrow> ads \<Rightarrow> bool" where
  "tried_once q a b \<longleftrightarrow>
     nservers b = nservers a \<and> a_tcpw b = a_tcpw a \<and>
     a_query b = (a_query a)(q := map_option (\<lambda>u. u\<lparr>q_retries := q_retries u + 1\<rparr>) (a_query a q))"

lemma tried_once_more: "tried_once q a b \<Longrightarrow> more_tried a b"
  by (auto simp: tried_once_def more_tried_def option.rel_map intro: option.rel_refl)

lemma querysend_tcp_tried:
  assumes "querysend_tcp sys q a = Some b" "a_tcpstate a = Server_ok"
  shows "tried_once q a b"
proof -
  obtain qu where qu: "a_query a q = Some qu" using assms by (auto simp: querysend_tcp_def split: bind_splits)
  show ?thesis
    using assms qu
    by (cases "s_writev sys (a_calls a)")
      (auto simp: querysend_tcp_def tried_once_def Let_def call_done_def put_query_def tcp_broken_def
        tcp_close_def split: if_splits)
qed

lemma send_all_tried: "send_all sys qs a = Some b \<Longrightarrow> more_tried a b"
proof (induction qs arbitrary: a)
  case (Cons q qs)
  show ?case
  proof (cases "a_tcpstate a = Server_ok")
    case True
    then obtain c where c: "querysend_tcp sys q a = Some c" "send_all sys qs c = Some b"
      using Cons.prems by (auto split: bind_splits if_splits)
    then show ?thesis
      using Cons.IH more_tried_trans tried_once_more [OF querysend_tcp_tried [OF c(1) True]] by blast
  next
    case False
    then show ?thesis using Cons.prems by simp
  qed
qed simp

lemma tcp_connected_tried:
  assumes w: "consistent X Z a" and s: "a_tcpstate a = Connecting" and run: "tcp_connected sys a = Some b"
  shows "more_tried a b" "a_tcpstate b = Broken \<Longrightarrow> tries_left b < tries_left a"
proof -
  let ?a = "a\<lparr>a_tcpstate := Server_ok\<rparr>"
  have m: "more_tried ?a b" using run by (auto simp: tcp_connected_def dest: send_all_tried)
  then show "more_tried a b" by (simp add: more_tried_def)
  assume br: "a_tcpstate b = Broken"
  show "tries_left b < tries_left a"
  proof (cases "a_tcpw a")
    case Nil
    then show ?thesis using run br by (auto simp: tcp_connected_def)
  next
    case (Cons q qs)
    then obtain qu where qu: "a_query a q = Some qu" using wf_get [OF w, of q Tcpw] by auto
    have le: "q_retries qu \<le> nservers a" using wf_retries [OF w _ qu] Cons s by simp
    obtain c where c: "querysend_tcp sys q ?a = Some c" "send_all sys qs c = Some b"
      using run Cons by (auto simp: tcp_connected_def split: bind_splits if_splits)
    have t: "tried_once q ?a c" using querysend_tcp_tried [OF c(1)] by simp
    have "tries_left c < tries_left ?a"
      by (rule more_tried_left(2) [OF tried_once_more [OF t], of q qu "qu\<lparr>q_retries := q_retries qu + 1\<rparr>"])
        (use t qu le Cons in \<open>simp_all add: tried_once_def\<close>)
    moreover have "tries_left ?a = tries_left a" by (rule tries_left_same) simp_all
    ultimately show ?thesis using more_tried_left(1) [OF send_all_tried [OF c(2)]] by simp
  qed
qed

subsection \<open>The events of the connection\<close>

text \<open>Sockets can be had.\<close>

definition has_sockets :: "system \<Rightarrow> bool" where
  "has_sockets sys \<longleftrightarrow> (\<forall>n. s_connect sys n \<noteq> No_socket)"

text \<open>What an attempt to connect leaves: the connection stands or will be waited for, or the queries
  may be tried less often than before.\<close>

definition tcp_settled :: "timeval \<Rightarrow> ads \<Rightarrow> bool" where
  "tcp_settled now b \<longleftrightarrow>
     a_tcpstate b = Server_ok \<or> (a_tcpstate b = Connecting \<and> \<not> timer_gt now (a_tcptimeout b))"

lemma tcp_broken_less:
  assumes w: "consistent X Z a" and run: "tcp_broken a = Some b"
    and s: "a_tcpstate a = Connecting" "a_tcpw a \<noteq> []"
  shows "tries_left b < tries_left a"
proof -
  obtain q where q: "q \<in> set (a_tcpw a)" using s(2) by (cases "a_tcpw a") auto
  then obtain qu where qu: "a_query a q = Some qu" using wf_get [OF w, of q Tcpw] by auto
  have le: "q_retries qu \<le> nservers a" using wf_retries [OF w q qu] s(1) by simp
  show ?thesis
    using more_tried_left(2) [OF tcp_broken_tried(1) [OF run] q qu tcp_broken_tried(2) [OF run s(1) q qu] le]
    by simp
qed

lemma tcp_tries_settle:
  assumes now: "0 < fst now" and sys: "has_sockets sys" and "consistent {} {} a" "no_ptr a"
    and "a_tcpstate a = Disconnected"
  shows "\<exists>b. tcp_tries sys now k a = Some b \<and> consistent {} {} b \<and> no_ptr b \<and>
    (tcp_settled now b \<or>
     a_tcpstate b \<in> {Disconnected, Broken} \<and> tries_left b \<le> tries_left a \<and>
       (0 < k \<longrightarrow> a_tcpw a \<noteq> [] \<longrightarrow> tries_left b < tries_left a))"
  using assms(3-5)
proof (induction k arbitrary: a)
  case (Suc k)
  note w = Suc.prems(1) and np = Suc.prems(2) and D = Suc.prems(3)
  obtain b where b: "tcp_tries sys now (Suc k) a = Some b" "consistent {} {} b" "no_ptr b"
    using tcp_tries_ok [OF now w np] by blast
  have g: "global_ok a" using wf_E(1) [OF w] .
  then have bufs: "a_tcpsend a = []" "a_tcprecv a = []" "a_tcpskip a = 0" using D by (simp_all add: global_ok_def)
  let ?a1 = "(call_done a)\<lparr>a_tcpstate := Connecting\<rparr>"
  have g1: "global_ok ?a1" using g D by (simp add: global_ok_def call_done_def)
  have w1: "consistent {} {} ?a1"
    by (rule consistent_change [OF w _ _ _ _ _ g1]) (use wf_retries [OF w] D in \<open>auto simp: call_done_def\<close>)
  have n1: "no_ptr ?a1" using np by (simp add: no_ptr_def call_done_def)
  have l1: "tries_left ?a1 = tries_left a" "a_tcpw ?a1 = a_tcpw a" "a_tcpstate ?a1 = Connecting"
    by (rule tries_left_same) (simp_all add: call_done_def)
  have b': "(case s_connect sys (a_calls a) of
           No_socket \<Rightarrow> Some (call_done a)
         | Connected \<Rightarrow> tcp_connected sys ?a1
         | In_progress \<Rightarrow> Some (?a1\<lparr>a_tcptimeout := timevaladd now TCPCONNMS\<rparr>)
         | Refused \<Rightarrow> do { a2 \<leftarrow> tcp_broken ?a1; a3 \<leftarrow> tcp_broken_events sys a2; tcp_tries sys now k a3 }) = Some b"
    using b(1) D bufs by (simp add: Let_def)
  have "tcp_settled now b \<or>
     a_tcpstate b \<in> {Disconnected, Broken} \<and> tries_left b \<le> tries_left a \<and>
       (0 < Suc k \<longrightarrow> a_tcpw a \<noteq> [] \<longrightarrow> tries_left b < tries_left a)"
  proof (cases "s_connect sys (a_calls a)")
    case Connected
    then have run: "tcp_connected sys ?a1 = Some b" using b' by simp
    have "a_tcpstate b \<in> {Server_ok, Broken}" using tcp_connected_ok [OF w1 l1(3), of sys] run by auto
    moreover have "a_tcpstate b = Broken \<Longrightarrow> tries_left b < tries_left a"
      using tcp_connected_tried(2) [OF w1 l1(3) run] by (simp add: l1(1))
    ultimately show ?thesis unfolding tcp_settled_def by fastforce
  next
    case In_progress
    then have "b = ?a1\<lparr>a_tcptimeout := timevaladd now TCPCONNMS\<rparr>" using b' by simp
    then show ?thesis by (simp add: tcp_settled_def not_gt_later)
  next
    case Refused
    obtain a2 where a2: "tcp_broken ?a1 = Some a2" "consistent {} {} a2" "a_tcpstate a2 = Broken" "retried ?a1 a2"
      using tcp_broken_ok [OF w1] l1(3) by blast
    obtain a3 where a3: "tcp_broken_events sys a2 = Some a3" "consistent {} {} a3" "no_ptr a3"
      "a_tcpstate a3 = Disconnected" "set (a_tcpw a3) \<subseteq> set (a_tcpw a2)" "a_servers a3 = a_servers a2"
      "\<forall>x \<in> set (a_tcpw a3). a_query a3 x = a_query a2 x"
      using tcp_broken_events_ok [OF a2(2) no_ptr_retried [OF n1 a2(4) w1] a2(3), of sys] by blast
    have run: "tcp_tries sys now k a3 = Some b" using b' Refused a2(1) a3(1) by simp
    have le: "tries_left a3 \<le> tries_left a2" "tries_left a2 \<le> tries_left a"
      using tries_left_fewer [OF a3(5-7)] more_tried_left(1) [OF tcp_broken_tried(1) [OF a2(1)]] l1(1) by simp_all
    have less: "a_tcpw a \<noteq> [] \<Longrightarrow> tries_left a2 < tries_left a"
      using tcp_broken_less [OF w1 a2(1) l1(3)] l1(1,2) by simp
    have "tcp_settled now b \<or> a_tcpstate b \<in> {Disconnected, Broken} \<and> tries_left b \<le> tries_left a3"
      using Suc.IH [OF a3(2-4)] run by auto
    then show ?thesis using le less by (elim disjE) (simp_all, linarith)
  next
    case No_socket
    then show ?thesis using sys by (simp add: has_sockets_def)
  qed
  then show ?case using b by blast
qed simp

lemma tcp_events_broken:
  assumes "a_tcpstate a = Broken" "tcp_broken_events sys a = Some c" "a_tcpstate c = Disconnected"
  shows "tcp_events sys now a = tcp_events sys now c"
  using assms by (subst (1 2) tcp_events.simps) simp

text \<open>A connection that is waited for or stands.\<close>

lemma tcp_events_settled:
  assumes w: "consistent {} {} a" "no_ptr a" and s: "tcp_settled now a" and now: "0 < fst now"
  shows "\<exists>b. tcp_events sys now a = Some b \<and> consistent {} {} b \<and> no_ptr b"
proof -
  have g: "global_ok a" using wf_E(1) [OF w(1)] .
  have ch: "consistent {} {} c \<and> no_ptr c"
    if "a_query c = a_query a" "\<And>s. the_queue s c = the_queue s a" "a_fresh c = a_fresh a"
      "a_servers c = a_servers a" "a_searchlist c = a_searchlist a" "global_ok c"
      "a_tcpstate c = a_tcpstate a \<or> a_tcpw a = []" for c
  proof
    show "consistent {} {} c"
      using wf_retries [OF w(1)] that(7) by (intro consistent_change [OF w(1) that(1-6)]) auto
    show "no_ptr c" using w(2) that(1) that(2) [of Tcpw] by (simp add: no_ptr_def)
  qed
  show ?thesis
  proof (cases "a_tcpstate a = Server_ok \<and> a_tcpw a = []")
    case True
    let ?c = "if fst (a_tcptimeout a) \<noteq> 0 then a else a\<lparr>a_tcptimeout := timevaladd now TCPIDLEMS\<rparr>"
    have "start_idle now a = Some ?c" using g by (simp add: start_idle_def global_ok_def)
    then obtain c where c: "start_idle now a = Some c" "c = ?c" by blast
    have gc: "global_ok c" using c(2) g timevaladd_pos [OF now] by (auto simp: global_ok_def)
    have same: "a_query c = a_query a" "the_queue s c = the_queue s a" "a_fresh c = a_fresh a"
      "a_servers c = a_servers a" "a_searchlist c = a_searchlist a" "a_tcpstate c = a_tcpstate a" for s
      using c(2) by auto
    let ?d = "(tcp_close c)\<lparr>a_tcpstate := Disconnected\<rparr>"
    have "global_ok ?d" using gc by (simp add: global_ok_def tcp_close_def)
    then have "consistent {} {} ?d \<and> no_ptr ?d"
      using same True by (intro ch) (simp_all add: tcp_close_def)
    moreover have "consistent {} {} c \<and> no_ptr c" using same gc by (intro ch) simp_all
    moreover have "tcp_events sys now a = (if timer_gt now (a_tcptimeout c) then Some ?d else Some c)"
      using True c(1) same(6) by (subst tcp_events.simps) simp
    ultimately show ?thesis by (cases "timer_gt now (a_tcptimeout c)") simp_all
  next
    case False
    then show ?thesis using w s by (subst tcp_events.simps) (auto simp: tcp_settled_def)
  qed
qed

lemma tcp_events_disconnected:
  assumes "consistent {} {} a" "no_ptr a" "a_tcpstate a \<in> {Disconnected, Broken}"
    and sys: "has_sockets sys" and now: "0 < fst now"
  shows "\<exists>b. tcp_events sys now a = Some b \<and> consistent {} {} b \<and> no_ptr b"
  using assms(1-3)
proof (induction "tries_left a" arbitrary: a rule: less_induct)
  case less
  have dis: "\<exists>b. tcp_events sys now c = Some b \<and> consistent {} {} b \<and> no_ptr b"
    if c: "consistent {} {} c" "no_ptr c" "a_tcpstate c = Disconnected" "tries_left c \<le> tries_left a" for c
  proof (cases "a_tcpw c = []")
    case True
    then show ?thesis using c by (subst tcp_events.simps) simp
  next
    case False
    have n: "0 < nservers c" using wf_E(1) [OF c(1)] by (simp add: global_ok_def)
    obtain d where d: "tcp_tryconnect sys now c = Some d" "consistent {} {} d" "no_ptr d"
      "tcp_settled now d \<or> a_tcpstate d \<in> {Disconnected, Broken} \<and> tries_left d < tries_left c"
      using tcp_tries_settle [OF now sys c(1-3), of "nservers c"] n False unfolding tcp_tryconnect_def by blast
    have step: "tcp_events sys now c = tcp_events sys now d"
      using c(3) False d(1) by (subst tcp_events.simps) simp
    show ?thesis
      using d(4)
    proof
      assume "tcp_settled now d"
      then show ?thesis using tcp_events_settled [OF d(2,3) _ now] step by simp
    next
      assume "a_tcpstate d \<in> {Disconnected, Broken} \<and> tries_left d < tries_left c"
      then show ?thesis using less.hyps [OF _ d(2,3)] c(4) step by simp
    qed
  qed
  show ?case
  proof (cases "a_tcpstate a = Disconnected")
    case True
    then show ?thesis using dis less.prems by blast
  next
    case False
    then have br: "a_tcpstate a = Broken" using less.prems by simp
    obtain c where c: "tcp_broken_events sys a = Some c" "consistent {} {} c" "no_ptr c"
      "a_tcpstate c = Disconnected" "set (a_tcpw c) \<subseteq> set (a_tcpw a)" "a_servers c = a_servers a"
      "\<forall>x \<in> set (a_tcpw c). a_query c x = a_query a x"
      using tcp_broken_events_ok [OF less.prems(1,2) br, of sys] by blast
    then show ?thesis
      using dis [OF c(2-4) tries_left_fewer [OF c(5-7)]] tcp_events_broken [OF br c(1,4)] by simp
  qed
qed

lemma tcp_events_ok:
  assumes w: "consistent {} {} a" "no_ptr a" and sys: "has_sockets sys" and now: "0 < fst now"
  shows "\<exists>b. tcp_events sys now a = Some b \<and> consistent {} {} b \<and> no_ptr b"
proof (cases "tcp_settled now a \<or> a_tcpstate a \<in> {Disconnected, Broken}")
  case True
  then show ?thesis using tcp_events_settled [OF w _ now] tcp_events_disconnected [OF w _ sys now] by blast
next
  case False
  then have c: "a_tcpstate a = Connecting" "timer_gt now (a_tcptimeout a)"
    by (cases "a_tcpstate a"; simp add: tcp_settled_def)+
  obtain b where b: "tcp_broken a = Some b" "consistent {} {} b" "a_tcpstate b = Broken" "retried a b"
    using tcp_broken_ok [OF w(1)] c(1) by blast
  have "tcp_events sys now a = tcp_events sys now b" using c b(1) by (subst tcp_events.simps) simp
  then show ?thesis
    using tcp_events_disconnected [OF b(2) no_ptr_retried [OF w(2) b(4) w(1)] _ sys now] b(3) by simp
qed

lemma adns_processtimeouts_ok:
  assumes w: "consistent {} {} a" "no_ptr a" and sys: "no_msgsize sys" "has_sockets sys" and now: "0 < fst now"
  shows "\<exists>b. adns_processtimeouts sys now a = Some b \<and> consistent {} {} b \<and> no_ptr b"
proof -
  obtain c where c: "timeouts_queue sys now Tosend (a_udpw a) a = Some c" "consistent {} {} c" "no_ptr c"
    using timeouts_queue_ok [OF w, of Tosend "[]" "a_udpw a" now sys] sys now by auto
  obtain d where d: "timeouts_queue sys now Tcpw (a_tcpw c) c = Some d" "consistent {} {} d" "no_ptr d"
    using timeouts_queue_ok [OF c(2,3), of Tcpw "[]" "a_tcpw c" now sys] sys now by auto
  show ?thesis using tcp_events_ok [OF d(2,3) sys(2) now] c(1) d(1) by (simp add: adns_processtimeouts_def)
qed

subsection \<open>A query nobody answers\<close>

text \<open>The library is called at these times, and no datagram comes in.\<close>

fun wake_ups :: "system \<Rightarrow> timeval list \<Rightarrow> ads \<Rightarrow> ads option" where
  "wake_ups sys [] a = Some a"
| "wake_ups sys (now # nows) a = do { b \<leftarrow> adns_processtimeouts sys now a; wake_ups sys nows b }"

fun spaced :: "timeval \<Rightarrow> timeval list \<Rightarrow> bool" where
  "spaced t [] = True"
| "spaced t (now # nows) = (0 < fst now \<and> timer_gt now t \<and> spaced (timevaladd now UDPRETRYMS) nows)"

definition lonely :: "nat \<Rightarrow> ads \<Rightarrow> bool" where
  "lonely q a \<longleftrightarrow> a_udpw a = [q] \<and> a_tcpw a = [] \<and> a_tcpstate a = Disconnected"

lemma idle_timeouts:
  assumes "a_tcpw a = []" "a_tcpstate a = Disconnected"
  shows "timeouts_queue sys now Tcpw (a_tcpw a) a = Some a" "tcp_events sys now a = Some a"
proof -
  show "timeouts_queue sys now Tcpw (a_tcpw a) a = Some a"
    using assms by (subst timeouts_queue.simps) simp
  show "tcp_events sys now a = Some a" using assms by (subst tcp_events.simps) simp
qed

lemma lonely_round:
  assumes w: "consistent {} {} a" and l: "lonely q a" and q: "a_query a q = Some qu" "timer_gt now (q_timeout qu)"
    and sys: "no_msgsize sys" and r: "q_retries qu < UDPMAXRETRIES"
  defines "b \<equiv> sent_state now q qu (set_queue Tosend [] a)"
  shows "adns_processtimeouts sys now a = Some b" "consistent {} {} b" "lonely q b"
    "a_query b q = Some (sent_udp a now qu)" "a_sent b = a_sent a @ [(q_nextserver qu, q_dgram qu)]"
    "a_servers b = a_servers a"
proof -
  have ql: "q \<in> set (the_queue Tosend a)" using l by (simp add: lonely_def)
  let ?c = "set_queue Tosend [] a"
  have c: "unlink_state Tosend q a = Some ?c" "consistent {q} {} ?c"
    using wf_unlink [OF w ql] l by (simp_all add: lonely_def)
  have qo: "queue_ok a Tosend qu" by (rule wf_E(3) [OF w ql q(1)])
  have st: "q_state qu = Tosend" and u: "for_udp qu" "q_children qu = []" "0 \<le> q_id qu"
    using qo by (simp_all add: for_udp_def)
  have qc: "a_query ?c q = Some qu" using q by simp
  note s = query_send_udp [where now = now, OF c(2) _ qc st u(2,3,1) r sys, folded b_def]
  have t: "time_out sys now Tosend q a = Some b" using q(1) c(1) st s(1) by (simp add: time_out_def)
  show b: "consistent {} {} b" using s(2) by simp
  have su: "sent_udp ?c now qu = sent_udp a now qu" by (simp add: sent_udp_def)
  show qb: "a_query b q = Some (sent_udp a now qu)"
    by (simp add: b_def sent_state_def link_state_def call_done_def su)
  show lb: "lonely q b" using l by (simp add: lonely_def b_def sent_state_def link_state_def call_done_def)
  show "a_sent b = a_sent a @ [(q_nextserver qu, q_dgram qu)]" "a_servers b = a_servers a"
    by (simp_all add: b_def sent_state_def link_state_def call_done_def)
  have ng: "\<not> timer_gt now (q_timeout (sent_udp a now qu))" by (simp add: sent_udp_def not_gt_later)
  have "timeouts_queue sys now Tosend (a_udpw a) a = timeouts_queue sys now Tosend [q] b"
    using l lb t q by (simp add: lonely_def timeouts_queue_step)
  also have "\<dots> = Some b"
    using qb ng by (simp add: timeouts_queue_step) (subst timeouts_queue.simps, simp)
  finally show "adns_processtimeouts sys now a = Some b"
    using lb idle_timeouts by (simp add: adns_processtimeouts_def lonely_def)
qed

lemma lonely_end:
  assumes w: "consistent {} {} a" and l: "lonely q a" and q: "a_query a q = Some qu" "timer_gt now (q_timeout qu)"
    and p: "q_parent qu = None" and r: "q_retries qu = UDPMAXRETRIES"
  shows "\<exists>b u c. adns_processtimeouts sys now a = Some b \<and> a_sent b = a_sent a \<and>
    internal_check (Some q) b = Some (Answer q u, c) \<and> q_status u = s_timeout \<and> consistent {} {} b"
proof -
  have ql: "q \<in> set (the_queue Tosend a)" using l by (simp add: lonely_def)
  let ?c = "set_queue Tosend [] a"
  have c: "unlink_state Tosend q a = Some ?c" "consistent {q} {} ?c"
    using wf_unlink [OF w ql] l by (simp_all add: lonely_def)
  have qo: "queue_ok a Tosend qu" by (rule wf_E(3) [OF w ql q(1)])
  have st: "q_state qu = Tosend" and u: "for_udp qu" using qo by (simp_all add: for_udp_def)
  have qc: "a_query ?c q = Some qu" using q by simp
  have sd: "q_state qu \<noteq> Done" using st by simp
  obtain b G v where b: "query_fail sys q s_timeout ?c = Some b" "consistent {} {} b" "shrunk G ?c b"
    "a_query b q = Some v" "q \<in> set (a_output b)" "q_status v = s_timeout"
    using query_fail_ok [OF c(2) qc sd, of sys s_timeout] p by blast
  have sg: "same_globals ?c b" using b(3) by (simp add: shrunk_def)
  have qs: "a_udpw b = []" "a_tcpw b = []"
    using shrunk_queues(1) [OF b(3), of Tosend] shrunk_queues(1) [OF b(3), of Tcpw] l by (simp_all add: lonely_def)
  have ts: "a_tcpstate b = Disconnected" "a_sent b = a_sent a" using sg l by (simp_all add: same_globals_def lonely_def)
  have t: "time_out sys now Tosend q a = Some b"
    using q(1) c(1) st b(1) r u qc by (simp add: time_out_def query_send_def for_udp_def)
  have "timeouts_queue sys now Tosend (a_udpw a) a = timeouts_queue sys now Tosend [] b"
    using l qs t q by (simp add: lonely_def timeouts_queue_step)
  also have "\<dots> = Some b" by (subst timeouts_queue.simps) simp
  finally have run: "adns_processtimeouts sys now a = Some b"
    using qs ts idle_timeouts by (simp add: adns_processtimeouts_def)
  have "queue_ok b Done v" by (rule wf_E(3) [OF b(2) _ b(4)]) (simp add: b(5))
  then have "q_id v = - 1" by simp
  then have "internal_check (Some q) b = Some (Answer q v, free_query q (b\<lparr>a_output := remove1 q (a_output b)\<rparr>))"
    using b(4,5) by (simp add: internal_check_def take_answer_def unlink_def)
  then show ?thesis using run ts b(2,6) by blast
qed

lemma unanswered_query_fails:
  assumes "consistent {} {} a" "lonely q a" "a_query a q = Some qu" "q_parent qu = None"
    and "no_msgsize sys" "spaced (q_timeout qu) nows" "length nows = Suc (UDPMAXRETRIES - q_retries qu)"
  shows "\<exists>b u c. wake_ups sys nows a = Some b \<and>
    a_sent b = a_sent a @ map (\<lambda>i. ((q_nextserver qu + i) mod nservers a, q_dgram qu))
      [0..<UDPMAXRETRIES - q_retries qu] \<and>
    internal_check (Some q) b = Some (Answer q u, c) \<and> q_status u = s_timeout \<and> consistent {} {} b"
  using assms
proof (induction nows arbitrary: a qu)
  case (Cons now nows)
  note w = Cons.prems(1) and l = Cons.prems(2) and q = Cons.prems(3)
  have gt: "timer_gt now (q_timeout qu)" and sp: "spaced (timevaladd now UDPRETRYMS) nows" using Cons.prems(6) by simp_all
  have ql: "q \<in> set (the_queue Tosend a)" using l by (simp add: lonely_def)
  have ns: "q_nextserver qu < nservers a" using wf_E(4) [OF w _ q] by (simp add: local_ok_def)
  have "queue_ok a Tosend qu" by (rule wf_E(3) [OF w ql q])
  then have le: "q_retries qu \<le> UDPMAXRETRIES" by simp
  show ?case
  proof (cases "q_retries qu = UDPMAXRETRIES")
    case True
    then show ?thesis using lonely_end [OF w l q gt Cons.prems(4) True, of sys] Cons.prems(7) by auto
  next
    case False
    then have r: "q_retries qu < UDPMAXRETRIES" using le by simp
    define b where "b = sent_state now q qu (set_queue Tosend [] a)"
    note b = lonely_round [OF w l q gt Cons.prems(5) r, folded b_def]
    let ?u = "sent_udp a now qu"
    have u: "q_parent ?u = None" "q_timeout ?u = timevaladd now UDPRETRYMS" "q_retries ?u = Suc (q_retries qu)"
      "q_nextserver ?u = (q_nextserver qu + 1) mod nservers a" "q_dgram ?u = q_dgram qu"
      using Cons.prems(4) by (simp_all add: sent_udp_def)
    have sp': "spaced (q_timeout ?u) nows" using sp u(2) by simp
    have len: "length nows = Suc (UDPMAXRETRIES - q_retries ?u)" using Cons.prems(7) r u(3) by simp
    obtain c v d where c: "wake_ups sys nows b = Some c"
      "a_sent c = a_sent b @ map (\<lambda>i. ((q_nextserver ?u + i) mod nservers b, q_dgram ?u)) [0..<UDPMAXRETRIES - q_retries ?u]"
      "internal_check (Some q) c = Some (Answer q v, d)" "q_status v = s_timeout" "consistent {} {} c"
      using Cons.IH [OF b(2,3,4) u(1) Cons.prems(5) sp' len] by blast
    let ?f = "\<lambda>i. ((q_nextserver qu + i) mod nservers a, q_dgram qu)"
    have "[0..<UDPMAXRETRIES - q_retries qu] = 0 # map Suc [0..<UDPMAXRETRIES - q_retries ?u]"
      using r u(3) by (simp add: map_Suc_upt upt_conv_Cons Suc_diff_Suc del: upt_Suc)
    moreover have "((q_nextserver ?u + i) mod nservers b, q_dgram ?u) = ?f (Suc i)" for i
      using b(6) by (simp add: u(4,5) mod_add_left_eq)
    ultimately have "map ?f [0..<UDPMAXRETRIES - q_retries qu] =
        (q_nextserver qu, q_dgram qu) # map (\<lambda>i. ((q_nextserver ?u + i) mod nservers b, q_dgram ?u)) [0..<UDPMAXRETRIES - q_retries ?u]"
      using ns by (simp add: comp_def)
    then show ?thesis using b(1,5) c by simp
  qed
qed simp

subsection \<open>Among other queries\<close>

text \<open>No query goes over TCP, and the library goes on: consistent, with the same servers, and only more
  datagrams sent.\<close>

definition udp_only :: "ads \<Rightarrow> bool" where
  "udp_only a \<longleftrightarrow> a_tcpw a = [] \<and> a_tcpstate a = Disconnected"

definition went_on :: "ads \<Rightarrow> ads \<Rightarrow> bool" where
  "went_on a b \<longleftrightarrow> consistent {} {} b \<and> udp_only b \<and> a_servers b = a_servers a \<and> prefix (a_sent a) (a_sent b)"

text \<open>Where a query waits or is done it stays, as it is.\<close>

definition stays :: "nat \<Rightarrow> ads \<Rightarrow> ads \<Rightarrow> bool" where
  "stays q a b \<longleftrightarrow>
     a_query b q = a_query a q \<and> (q \<in> set (a_udpw a) \<longrightarrow> q \<in> set (a_udpw b)) \<and>
     (q \<in> set (a_output a) \<longrightarrow> q \<in> set (a_output b))"

lemma went_on_trans: "went_on a b \<Longrightarrow> went_on b c \<Longrightarrow> went_on a c"
  by (auto simp: went_on_def)

lemma stays_trans: "stays q a b \<Longrightarrow> stays q b c \<Longrightarrow> stays q a c"
  by (simp add: stays_def)

lemma sent_state_fields:
  "a_query (sent_state now q qu c) = (a_query c)(q \<mapsto> sent_udp c now qu)"
  "a_udpw (sent_state now q qu c) = a_udpw c @ [q]" "a_tcpw (sent_state now q qu c) = a_tcpw c"
  "a_output (sent_state now q qu c) = a_output c" "a_tcpstate (sent_state now q qu c) = a_tcpstate c"
  "a_servers (sent_state now q qu c) = a_servers c"
  "a_sent (sent_state now q qu c) = a_sent c @ [(q_nextserver qu, q_dgram qu)]"
  by (simp_all add: sent_state_def link_state_def call_done_def fun_eq_iff sent_udp_def)

lemma sent_udp_servers: "a_servers b = a_servers a \<Longrightarrow> sent_udp b now qu = sent_udp a now qu"
  by (simp add: sent_udp_def)

text \<open>The time of one query over UDP is over: it is sent again, or it fails.\<close>

lemma time_out_sends:
  assumes w: "consistent {} {} a" and u: "udp_only a" and q: "q \<in> set (a_udpw a)" "a_query a q = Some qu"
    and r: "q_retries qu < UDPMAXRETRIES" and sys: "no_msgsize sys"
  shows "time_out sys now Tosend q a = Some (sent_state now q qu (set_queue Tosend (remove1 q (a_udpw a)) a))"
    "went_on a (sent_state now q qu (set_queue Tosend (remove1 q (a_udpw a)) a))"
proof -
  have ql: "q \<in> set (the_queue Tosend a)" using q by simp
  let ?c = "set_queue Tosend (remove1 q (a_udpw a)) a"
  have c: "unlink_state Tosend q a = Some ?c" "consistent {q} {} ?c" using wf_unlink [OF w ql] by simp_all
  have qo: "queue_ok a Tosend qu" by (rule wf_E(3) [OF w ql q(2)])
  have st: "q_state qu = Tosend" and v: "for_udp qu" "q_children qu = []" "0 \<le> q_id qu"
    using qo by (simp_all add: for_udp_def)
  have qc: "a_query ?c q = Some qu" using q by simp
  note s = query_send_udp [where now = now, OF c(2) _ qc st v(2,3,1) r sys]
  show "time_out sys now Tosend q a = Some (sent_state now q qu ?c)"
    using q(2) c(1) st s(1) by (simp add: time_out_def)
  show "went_on a (sent_state now q qu ?c)"
    using s(2) u by (simp add: went_on_def udp_only_def sent_state_fields)
qed

lemma time_out_fails:
  assumes w: "consistent {} {} a" and u: "udp_only a" and q: "q \<in> set (a_udpw a)" "a_query a q = Some qu"
    and r: "\<not> q_retries qu < UDPMAXRETRIES"
  shows "\<exists>b G. time_out sys now Tosend q a = Some b \<and> went_on a b \<and> a_sent b = a_sent a \<and>
    shrunk G (set_queue Tosend (remove1 q (a_udpw a)) a) b \<and> (\<forall>x \<in> G. has_parent a x) \<and>
    (q_parent qu = None \<longrightarrow> q \<in> set (a_output b) \<and> (\<exists>v. a_query b q = Some v \<and> q_status v = s_timeout))"
proof -
  have ql: "q \<in> set (the_queue Tosend a)" using q by simp
  let ?c = "set_queue Tosend (remove1 q (a_udpw a)) a"
  have c: "unlink_state Tosend q a = Some ?c" "consistent {q} {} ?c" using wf_unlink [OF w ql] by simp_all
  have qo: "queue_ok a Tosend qu" by (rule wf_E(3) [OF w ql q(2)])
  have st: "q_state qu = Tosend" and v: "for_udp qu" using qo by (simp_all add: for_udp_def)
  have qc: "a_query ?c q = Some qu" using q by simp
  have sd: "q_state qu \<noteq> Done" using st by simp
  obtain b G where b: "query_fail sys q s_timeout ?c = Some b" "consistent {} {} b" "shrunk G ?c b"
    "q_parent qu = None \<longrightarrow> (\<exists>v. a_query b q = Some v \<and> q \<in> set (a_output b) \<and> q_status v = s_timeout)"
    "\<forall>x \<in> G. has_parent ?c x"
    using query_fail_ok [OF c(2) qc sd, of sys s_timeout] by (elim exE conjE) (rule that)
  have t: "time_out sys now Tosend q a = Some b"
    using q(2) c(1) st b(1) r v qc by (simp add: time_out_def query_send_def for_udp_def)
  have sg: "same_globals ?c b" using b(3) by (simp add: shrunk_def)
  have "a_tcpw b = []" using shrunk_queues(1) [OF b(3), of Tcpw] u by (simp add: udp_only_def)
  then have "went_on a b" "a_sent b = a_sent a"
    using sg u b(2) by (simp_all add: went_on_def udp_only_def same_globals_def)
  moreover have "\<forall>x \<in> G. has_parent a x" using b(5) by (simp add: has_parent_def)
  ultimately show ?thesis using t b(3,4) by (intro exI [of _ b] exI [of _ G]) auto
qed

lemma time_out_other:
  assumes w: "consistent {} {} a" and u: "udp_only a" and x: "x \<in> set (a_udpw a)" "x \<noteq> q"
    and q: "a_query a q = Some qu" "q_parent qu = None" "q \<in> set (a_udpw a) \<or> q \<in> set (a_output a)"
    and sys: "no_msgsize sys" and run: "time_out sys now Tosend x a = Some b"
  shows "went_on a b \<and> stays q a b"
proof -
  obtain xu where xu: "a_query a x = Some xu" using wf_get [OF w, of x Tosend] x(1) by auto
  let ?c = "set_queue Tosend (remove1 x (a_udpw a)) a"
  show ?thesis
  proof (cases "q_retries xu < UDPMAXRETRIES")
    case True
    note t = time_out_sends [OF w u x(1) xu True sys, of now]
    then have "b = sent_state now x xu ?c" using run by simp
    then show ?thesis using t(2) x(2) by (auto simp: stays_def sent_state_fields)
  next
    case False
    obtain G where b: "went_on a b" "shrunk G ?c b" "\<forall>y \<in> G. has_parent a y"
      using time_out_fails [OF w u x(1) xu False, of sys now] run by auto
    have "q \<notin> G" using b(3) q(1,2) by (auto simp: has_parent_def)
    then have m: "q \<in> set (a_udpw a) \<longrightarrow> q \<in> set (a_udpw b) \<and> a_query b q = a_query a q"
      using shrunk_queues [OF b(2), of Tosend] x(2) by simp
    have "q \<in> set (a_output a) \<longrightarrow> q \<in> set (a_output b) \<and> a_query b q = a_query a q"
      using b(2) unfolding shrunk_def by simp
    then show ?thesis using b(1) m q(3) by (auto simp: stays_def)
  qed
qed

text \<open>The loop, for a query whose time is not over, or that is done.\<close>

definition at_rest :: "timeval \<Rightarrow> nat \<Rightarrow> ads \<Rightarrow> bool" where
  "at_rest now q a \<longleftrightarrow>
     (\<exists>qu. a_query a q = Some qu \<and> q_parent qu = None) \<and>
     (q \<in> set (a_output a) \<or> q \<in> set (a_udpw a) \<and> \<not> expired now a q)"

lemma at_rest_stays: "at_rest now q a \<Longrightarrow> stays q a b \<Longrightarrow> at_rest now q b"
  using expired_same [of b q a now] by (auto simp: at_rest_def stays_def)

lemma timeouts_others:
  assumes "consistent {} {} a" "udp_only a" "at_rest now q a"
    and "a_udpw a = pre @ qs" "\<forall>x \<in> set pre. \<not> expired now a x"
    and sys: "no_msgsize sys" and now: "0 < fst now"
  shows "\<exists>b. timeouts_queue sys now Tosend qs a = Some b \<and> went_on a b \<and> stays q a b"
  using assms(1-5)
proof (induction "expired_count now Tosend a" arbitrary: a pre qs rule: less_induct)
  case (less a pre qs)
  note w = less.prems(1) and u = less.prems(2) and rest = less.prems(3)
  show ?case
    using less.prems(4,5)
  proof (induction qs arbitrary: pre)
    case Nil
    then show ?case using w u by (subst timeouts_queue.simps) (simp add: went_on_def stays_def)
  next
    case (Cons x qs)
    have x: "x \<in> set (a_udpw a)" "x \<in> set (the_queue Tosend a)" using Cons.prems(1) by simp_all
    obtain xu where xu: "a_query a x = Some xu" using wf_get [OF w, of x Tosend] x by auto
    show ?case
    proof (cases "timer_gt now (q_timeout xu)")
      case False
      then have "\<not> expired now a x" using xu by (simp add: expired_def)
      then show ?thesis using Cons.IH [of "pre @ [x]"] Cons.prems False xu by (simp add: timeouts_queue_step)
    next
      case True
      then have e: "expired now a x" using xu by (simp add: expired_def)
      have "q \<notin> set (a_output a) \<or> x \<noteq> q" using wf_one_queue [OF w, of x Done Tosend] x(1) by auto
      then have xq: "x \<noteq> q" using rest e by (auto simp: at_rest_def)
      obtain c where c: "time_out sys now Tosend x a = Some c" "consistent {} {} c"
        "expired_count now Tosend c < expired_count now Tosend a"
        using time_out_ok [OF w _ x(2) e sys now] by blast
      obtain qu where qu: "a_query a q = Some qu" "q_parent qu = None" "q \<in> set (a_udpw a) \<or> q \<in> set (a_output a)"
        using rest by (auto simp: at_rest_def)
      have t: "went_on a c" "stays q a c" using time_out_other [OF w u x(1) xq qu sys c(1)] by simp_all
      obtain b where "timeouts_queue sys now Tosend (a_udpw c) c = Some b" "went_on c b" "stays q c b"
        using less.hyps [OF c(3,2) _ at_rest_stays [OF rest t(2)], of "[]" "a_udpw c"] t(1) by (auto simp: went_on_def)
      then show ?thesis
        using c(1) t xu True went_on_trans [OF t(1)] stays_trans [OF t(2)] by (auto simp: timeouts_queue_step)
    qed
  qed
qed

text \<open>The loop, for a query whose time is over.\<close>

definition moved_on :: "timeval \<Rightarrow> nat \<Rightarrow> query \<Rightarrow> ads \<Rightarrow> ads \<Rightarrow> bool" where
  "moved_on now q qu a b \<longleftrightarrow>
     (if q_retries qu < UDPMAXRETRIES then
        q \<in> set (a_udpw b) \<and> a_query b q = Some (sent_udp a now qu) \<and>
        (\<exists>s. a_sent b = a_sent a @ s \<and> (q_nextserver qu, q_dgram qu) \<in> set s)
      else q \<in> set (a_output b) \<and> (\<exists>v. a_query b q = Some v \<and> q_parent v = None \<and> q_status v = s_timeout))"

lemma moved_on_stays: "moved_on now q qu a b \<Longrightarrow> went_on b c \<Longrightarrow> stays q b c \<Longrightarrow> moved_on now q qu a c"
  by (fastforce simp: moved_on_def went_on_def stays_def prefix_def split: if_splits)

lemma moved_on_from:
  "moved_on now q qu b c \<Longrightarrow> went_on a b \<Longrightarrow> moved_on now q qu a c"
  using sent_udp_servers [of b a now qu] by (auto simp: moved_on_def went_on_def prefix_def split: if_splits)

lemma time_out_moves:
  assumes w: "consistent {} {} a" and u: "udp_only a" and q: "q \<in> set (a_udpw a)" "a_query a q = Some qu"
    and p: "q_parent qu = None" and sys: "no_msgsize sys" and run: "time_out sys now Tosend q a = Some b"
  shows "went_on a b" "moved_on now q qu a b" "at_rest now q b"
proof -
  have "went_on a b \<and> moved_on now q qu a b \<and> at_rest now q b"
  proof (cases "q_retries qu < UDPMAXRETRIES")
    case True
    let ?c = "set_queue Tosend (remove1 q (a_udpw a)) a"
    note t = time_out_sends [OF w u q True sys, of now]
    have b: "b = sent_state now q qu ?c" using t(1) run by simp
    have su: "sent_udp ?c now qu = sent_udp a now qu" by (rule sent_udp_servers) simp
    have s: "q_parent (sent_udp a now qu) = None" "\<not> timer_gt now (q_timeout (sent_udp a now qu))"
      using p by (simp_all add: sent_udp_def not_gt_later)
    show ?thesis
      using t(2) True s by (simp add: b moved_on_def at_rest_def expired_def sent_state_fields su)
  next
    case False
    obtain v where b: "went_on a b" "q \<in> set (a_output b)" "a_query b q = Some v" "q_status v = s_timeout"
      using time_out_fails [OF w u q False, of sys now] run p by auto
    have "queue_ok b Done v" using b(1,2) wf_E(3) [of "{}" "{}" b q Done v] b(3) by (simp add: went_on_def)
    then show ?thesis using b False by (auto simp: moved_on_def at_rest_def)
  qed
  then show "went_on a b" "moved_on now q qu a b" "at_rest now q b" by simp_all
qed

lemma timeouts_self:
  assumes "consistent {} {} a" "udp_only a" "q \<in> set (a_udpw a)" "a_query a q = Some qu"
    and p: "q_parent qu = None" and gt: "timer_gt now (q_timeout qu)"
    and "a_udpw a = pre @ qs" "\<forall>x \<in> set pre. \<not> expired now a x"
    and sys: "no_msgsize sys" and now: "0 < fst now"
  shows "\<exists>b. timeouts_queue sys now Tosend qs a = Some b \<and> went_on a b \<and> moved_on now q qu a b"
  using assms(1-4,7,8)
proof (induction "expired_count now Tosend a" arbitrary: a pre qs rule: less_induct)
  case (less a pre qs)
  note w = less.prems(1) and u = less.prems(2) and q = less.prems(3,4)
  have eq: "expired now a q" using q gt by (simp add: expired_def)
  show ?case
    using less.prems(5,6)
  proof (induction qs arbitrary: pre)
    case Nil
    then show ?case using q(1) eq by auto
  next
    case (Cons x qs)
    have x: "x \<in> set (a_udpw a)" "x \<in> set (the_queue Tosend a)" using Cons.prems(1) by simp_all
    obtain xu where xu: "a_query a x = Some xu" using wf_get [OF w, of x Tosend] x by auto
    show ?case
    proof (cases "timer_gt now (q_timeout xu)")
      case False
      then have "\<not> expired now a x" using xu by (simp add: expired_def)
      then show ?thesis using Cons.IH [of "pre @ [x]"] Cons.prems False xu by (simp add: timeouts_queue_step)
    next
      case True
      then have e: "expired now a x" using xu by (simp add: expired_def)
      obtain c where c: "time_out sys now Tosend x a = Some c" "consistent {} {} c"
        "expired_count now Tosend c < expired_count now Tosend a"
        using time_out_ok [OF w _ x(2) e sys now] by blast
      have step: "timeouts_queue sys now Tosend (x # qs) a = timeouts_queue sys now Tosend (a_udpw c) c"
        using c(1) xu True by (simp add: timeouts_queue_step)
      show ?thesis
      proof (cases "x = q")
        case True
        note t = time_out_moves [OF w u q p sys c(1) [unfolded True]]
        obtain b where "timeouts_queue sys now Tosend (a_udpw c) c = Some b" "went_on c b" "stays q c b"
          using timeouts_others [OF c(2) _ t(3), of "[]" "a_udpw c" sys] t(1) sys now by (auto simp: went_on_def)
        then show ?thesis using step went_on_trans [OF t(1)] moved_on_stays [OF t(2)] by auto
      next
        case False
        have t: "went_on a c" "stays q a c" using time_out_other [OF w u x(1) False q(2) p _ sys c(1)] q(1) by simp_all
        obtain b where "timeouts_queue sys now Tosend (a_udpw c) c = Some b" "went_on c b" "moved_on now q qu c b"
          using less.hyps [OF c(3,2), of "[]" "a_udpw c"] t q by (auto simp: went_on_def stays_def)
        then show ?thesis using step went_on_trans [OF t(1)] moved_on_from [OF _ t(1)] by auto
      qed
    qed
  qed
qed

lemma udp_round:
  assumes "consistent {} {} a" "udp_only a" "q \<in> set (a_udpw a)" "a_query a q = Some qu"
    and "q_parent qu = None" "timer_gt now (q_timeout qu)" "no_msgsize sys" "0 < fst now"
  shows "\<exists>b. adns_processtimeouts sys now a = Some b \<and> went_on a b \<and> moved_on now q qu a b"
proof -
  obtain b where b: "timeouts_queue sys now Tosend (a_udpw a) a = Some b" "went_on a b" "moved_on now q qu a b"
    using timeouts_self [OF assms(1-6), of "[]" "a_udpw a" sys] assms(7,8) by auto
  then have "adns_processtimeouts sys now a = Some b"
    using idle_timeouts [of b sys now] by (simp add: adns_processtimeouts_def went_on_def udp_only_def)
  then show ?thesis using b by blast
qed

lemma unanswered_among_others:
  assumes "consistent {} {} a" "udp_only a" "q \<in> set (a_udpw a)" "a_query a q = Some qu" "q_parent qu = None"
    and "no_msgsize sys" "spaced (q_timeout qu) nows" "length nows = Suc (UDPMAXRETRIES - q_retries qu)"
  shows "\<exists>b sent u c. wake_ups sys nows a = Some b \<and> a_sent b = a_sent a @ sent \<and>
    subseq (map (\<lambda>i. ((q_nextserver qu + i) mod nservers a, q_dgram qu)) [0..<UDPMAXRETRIES - q_retries qu]) sent \<and>
    internal_check (Some q) b = Some (Answer q u, c) \<and> q_status u = s_timeout \<and> consistent {} {} b"
  using assms
proof (induction nows arbitrary: a qu)
  case (Cons now nows)
  note w = Cons.prems(1) and u = Cons.prems(2) and q = Cons.prems(3,4) and p = Cons.prems(5) and sys = Cons.prems(6)
  have gt: "timer_gt now (q_timeout qu)" "0 < fst now" and sp: "spaced (timevaladd now UDPRETRYMS) nows"
    using Cons.prems(7) by simp_all
  obtain b where b: "adns_processtimeouts sys now a = Some b" "went_on a b" "moved_on now q qu a b"
    using udp_round [OF w u q p gt(1) sys gt(2)] by blast
  have wb: "consistent {} {} b" "udp_only b" "a_servers b = a_servers a" using b(2) by (simp_all add: went_on_def)
  have ns: "q_nextserver qu < nservers a" using wf_E(4) [OF w _ q(2)] by (simp add: local_ok_def)
  show ?case
  proof (cases "q_retries qu < UDPMAXRETRIES")
    case False
    then have n: "nows = []" using Cons.prems(8) by simp
    obtain v t where v: "q \<in> set (a_output b)" "a_query b q = Some v" "q_status v = s_timeout" "a_sent b = a_sent a @ t"
      using b(2,3) False by (auto simp: moved_on_def went_on_def prefix_def)
    have "queue_ok b Done v" by (rule wf_E(3) [OF wb(1) _ v(2)]) (simp add: v(1))
    then have "q_id v = - 1" by simp
    then have "internal_check (Some q) b = Some (Answer q v, free_query q (b\<lparr>a_output := remove1 q (a_output b)\<rparr>))"
      using v(1,2) by (simp add: internal_check_def take_answer_def unlink_def)
    then show ?thesis using n b(1) v(3,4) wb(1) False by auto
  next
    case True
    let ?u = "sent_udp a now qu"
    have u': "q_parent ?u = None" "q_timeout ?u = timevaladd now UDPRETRYMS" "q_retries ?u = Suc (q_retries qu)"
      "q_nextserver ?u = (q_nextserver qu + 1) mod nservers a" "q_dgram ?u = q_dgram qu"
      using p by (simp_all add: sent_udp_def)
    obtain s t where m: "q \<in> set (a_udpw b)" "a_query b q = Some ?u"
      "a_sent b = a_sent a @ s @ (q_nextserver qu, q_dgram qu) # t"
      using b(3) True by (auto simp: moved_on_def dest: split_list)
    have sp': "spaced (q_timeout ?u) nows" using sp u'(2) by simp
    have len: "length nows = Suc (UDPMAXRETRIES - q_retries ?u)" using Cons.prems(8) True u'(3) by simp
    let ?rest = "map (\<lambda>i. ((q_nextserver ?u + i) mod nservers b, q_dgram ?u)) [0..<UDPMAXRETRIES - q_retries ?u]"
    obtain c sent v d where c: "wake_ups sys nows b = Some c" "a_sent c = a_sent b @ sent" "subseq ?rest sent"
      "internal_check (Some q) c = Some (Answer q v, d)" "q_status v = s_timeout" "consistent {} {} c"
      using Cons.IH [OF wb(1,2) m(1,2) u'(1) sys sp' len] by blast
    let ?f = "\<lambda>i. ((q_nextserver qu + i) mod nservers a, q_dgram qu)"
    have "[0..<UDPMAXRETRIES - q_retries qu] = 0 # map Suc [0..<UDPMAXRETRIES - q_retries ?u]"
      using True u'(3) by (simp add: map_Suc_upt upt_conv_Cons Suc_diff_Suc del: upt_Suc)
    moreover have "((q_nextserver ?u + i) mod nservers b, q_dgram ?u) = ?f (Suc i)" for i
      using wb(3) by (simp add: u'(4,5) mod_add_left_eq)
    ultimately have e: "map ?f [0..<UDPMAXRETRIES - q_retries qu] = (q_nextserver qu, q_dgram qu) # ?rest"
      using ns by (simp add: comp_def)
    have "subseq ?rest (t @ sent)" using c(3) by (rule list_emb_append2)
    then have "subseq ((q_nextserver qu, q_dgram qu) # ?rest) (s @ (q_nextserver qu, q_dgram qu) # t @ sent)"
      by (intro list_emb_append2) simp
    then show ?thesis using b(1) c(1,2,4-6) m(3) unfolding e by auto
  qed
qed simp

end
