(* ===== verification/AdnsContract.thy ===== *)
theory AdnsContract
  imports AdnsRounds
begin

text \<open>
  What the query machine of adns promises: submitting, cancelling and the passing of time keep it
  consistent and return; a query is tried a fixed number of times; only a name server that was
  asked can answer; and the cases in which the machine does not return.
\<close>

subsection \<open>A small library\<close>

text \<open>A library with one server and no queries, as the witnesses use it.\<close>

definition library :: ads where
  "library =
     \<lparr>a_query = Map.empty, a_fresh = 0, a_udpw = [], a_tcpw = [], a_childw = [], a_output = [],
      a_nextid = 7, a_servers = [1], a_searchlist = [''b''], a_searchndots = 1, a_sortlist = [],
      a_tcpstate = Disconnected, a_tcpserver = 0, a_tcpsend = [], a_tcprecv = [], a_tcpavail = 0,
      a_tcpskip = 0, a_tcptimeout = (0, 0), a_calls = 0, a_sent = [], a_wire = []\<rparr>"

definition sending :: system where
  "sending =
     \<lparr>s_sendto = (\<lambda>_. Sent), s_writev = (\<lambda>_. Wrote 100), s_connect = (\<lambda>_. In_progress),
      s_random = (\<lambda>_ _. 0), s_avail = (\<lambda>_ _. 0)\<rparr>"

lemma library_queue [simp]: "the_queue s library = []"
  by (cases s) (simp_all add: library_def)

lemma library_consistent [simp]: "consistent {} {} library"
  by (rule consistent_I)
    (simp_all add: queues_ok_def global_ok_def sortlist_ok_def, simp_all add: library_def MAXSERVERS_def)

lemma library_no_ptr [simp]: "no_ptr library"
  by (simp add: no_ptr_def library_def)

lemma sending_simps [simp]: "no_msgsize sending" "has_sockets sending"
  by (simp_all add: no_msgsize_def has_sockets_def sending_def)

text \<open>The library with one query over UDP.\<close>

definition asking :: query where
  "asking = (query_alloc r_addr qf_none (1, 0))
     \<lparr>q_dgram := replicate 12 CHR 0x00, q_id := 7, q_udpsent := 1, q_timeout := (3, 0), q_retries := 1\<rparr>"

definition waiting :: ads where
  "waiting = library\<lparr>a_query := [0 \<mapsto> asking], a_fresh := 1, a_udpw := [0]\<rparr>"

lemma waiting_queue: "the_queue s waiting = (if s = Tosend then [0] else [])"
  by (cases s) (simp_all add: waiting_def library_def)

lemma waiting_consistent [simp]: "consistent {} {} waiting"
proof (rule consistent_I)
  show "global_ok waiting" by (simp add: global_ok_def sortlist_ok_def waiting_def library_def MAXSERVERS_def)
  show "queues_ok {} {} waiting" by (simp add: queues_ok_def waiting_queue) (simp add: waiting_def library_def)
  fix q qu assume q: "a_query waiting q = Some qu"
  then have qu: "q = 0" "qu = asking" by (auto simp: waiting_def split: if_splits)
  show "local_ok waiting qu" "family_ok {} waiting q qu"
    by (auto simp: qu local_ok_def family_ok_def asking_def query_alloc_def waiting_def library_def bit_1_iff)
  show "queue_ok waiting s qu" if "q \<in> set (the_queue s waiting)" for s
    using that by (cases s)
      (simp_all add: waiting_queue qu asking_def query_alloc_def qf_none_def UDPMAXRETRIES_def DNS_MAXUDP_def)
qed

lemma asking_simps [simp]:
  "a_query waiting 0 = Some asking" "q_parent asking = None" "q_children asking = []"
  "q_state asking = Tosend" "q_timeout asking = (3, 0)" "q_retries asking = 1" "q_nextserver asking = 0"
  by (simp_all add: waiting_def asking_def query_alloc_def)

lemma waiting_lonely [simp]: "lonely 0 waiting"
  by (simp add: lonely_def waiting_def library_def)

lemma wf_live:
  "consistent X Z a \<Longrightarrow> a_query a q \<noteq> None \<longleftrightarrow> q \<in> X \<or> q \<in> Z \<or> (\<exists>s. q \<in> set (the_queue s a))"
  by (simp add: consistent_def queues_ok_def)

subsection \<open>Submitting, cancelling and waiting\<close>

text \<open>C6: Processing the timeouts returns and keeps the library consistent: the two loops over the queues start
  again at the head after each query, the loop over the events of the connection after each attempt to
  connect, and each turn uses up a query or a try. This is so as long as sockets can be had (without one
  the loop over the events goes round for ever), no query that waits for TCP checks the address of a name
  (its failure frees queries that the loop of \<open>tcp_broken_events\<close> still holds), and no datagram is
  refused as too long.\<close>

theorem timeouts_return:
  assumes "consistent {} {} a" "no_ptr a" "no_msgsize sys" "has_sockets sys" "0 < fst now"
  shows "\<exists>b. adns_processtimeouts sys now a = Some b \<and> consistent {} {} b \<and> no_ptr b"
  by (rule adns_processtimeouts_ok [OF assms])

theorem timeouts_return_witness:
  "\<exists>b. adns_processtimeouts sending (9, 0) waiting = Some b \<and> consistent {} {} b \<and> no_ptr b"
  by (rule timeouts_return) (simp_all add: no_ptr_def, simp add: waiting_def library_def)

text \<open>C16: A query that is being worked on can fail at any time: its children are cancelled, its parent
  goes on, fails or is done, the store of queries stays well-formed, the queries that wait to be
  sent are unchanged or gone, and a query of the user is in the output with the error.\<close>

theorem query_fail_keeps_wf:
  assumes "consistent {q} {} a" "a_query a q = Some qu" "q_state qu \<noteq> Done"
  shows "\<exists>b G. query_fail sys q st a = Some b \<and> consistent {} {} b \<and> shrunk G a b \<and>
    (q_parent qu = None \<longrightarrow> (\<exists>u. a_query b q = Some u \<and> q \<in> set (a_output b) \<and> q_status u = st))"
proof -
  obtain b G where "query_fail sys q st a = Some b" "consistent {} {} b" "shrunk G a b"
    "q_parent qu = None \<longrightarrow> (\<exists>u. a_query b q = Some u \<and> q \<in> set (a_output b) \<and> q_status u = st)"
    using query_fail_ok [OF assms, of sys st] by (elim exE conjE) (rule that)
  then show ?thesis by (intro exI conjI) simp_all
qed

lemma waiting_taken: "consistent {0} {} (set_queue Tosend [] waiting)"
  using wf_unlink(2) [OF waiting_consistent, of 0 Tosend] by (simp add: waiting_queue)

theorem query_fail_keeps_wf_witness:
  "\<exists>b G. query_fail sending 0 s_timeout (set_queue Tosend [] waiting) = Some b \<and> consistent {} {} b \<and>
    shrunk G (set_queue Tosend [] waiting) b \<and>
    (q_parent asking = None \<longrightarrow> (\<exists>u. a_query b 0 = Some u \<and> 0 \<in> set (a_output b) \<and> q_status u = s_timeout))"
  by (rule query_fail_keeps_wf [OF waiting_taken])
    simp_all

text \<open>C5: A query over UDP that nobody answers is sent again whenever its time is over, to the servers in
  turn, until it was sent 15 times; then it ends with a timeout, which the user gets. Any other queries,
  with their children, may wait in the library and be sent or end in between, as long as none of them
  goes over TCP; when there is no other over UDP nothing else is sent.\<close>

theorem unanswered_times_out:
  assumes "consistent {} {} a" "udp_only a" "q \<in> set (a_udpw a)" "a_query a q = Some qu" "q_parent qu = None"
    and "no_msgsize sys" "spaced (q_timeout qu) nows" "length nows = Suc (UDPMAXRETRIES - q_retries qu)"
  shows "\<exists>b sent u c. wake_ups sys nows a = Some b \<and> a_sent b = a_sent a @ sent \<and>
    subseq (map (\<lambda>i. ((q_nextserver qu + i) mod nservers a, q_dgram qu)) [0..<UDPMAXRETRIES - q_retries qu]) sent \<and>
    (a_udpw a = [q] \<longrightarrow>
      sent = map (\<lambda>i. ((q_nextserver qu + i) mod nservers a, q_dgram qu)) [0..<UDPMAXRETRIES - q_retries qu]) \<and>
    internal_check (Some q) b = Some (Answer q u, c) \<and> q_status u = s_timeout \<and> consistent {} {} b"
proof (cases "a_udpw a = [q]")
  case True
  then have "lonely q a" using assms(2) by (simp add: lonely_def udp_only_def)
  from unanswered_query_fails [OF assms(1) this assms(4-8)] show ?thesis by (elim exE) (intro exI conjI, auto)
next
  case False
  from unanswered_among_others [OF assms] show ?thesis by (elim exE) (intro exI conjI, auto simp: False)
qed

theorem unanswered_times_out_witness:
  "\<exists>b u c. wake_ups sending (map (\<lambda>i. (int (4 + 3 * i), 0)) [0..<15]) waiting = Some b \<and>
    a_sent b = a_sent waiting @ map (\<lambda>i. ((q_nextserver asking + i) mod nservers waiting, q_dgram asking))
      [0..<UDPMAXRETRIES - q_retries asking] \<and>
    internal_check (Some 0) b = Some (Answer 0 u, c) \<and> q_status u = s_timeout \<and> consistent {} {} b"
proof -
  have "udp_only waiting" "a_udpw waiting = [0]" using waiting_queue [of Tosend] by (simp_all add: udp_only_def waiting_def library_def)
  moreover have "spaced (q_timeout asking) (map (\<lambda>i. (int (4 + 3 * i), 0)) [0..<15])"
    by (simp add: upt_rec timer_gt_def timevaladd_def UDPRETRYMS_def)
  moreover have "length (map (\<lambda>i. (int (4 + 3 * i), 0::int)) [0..<15]) = Suc (UDPMAXRETRIES - q_retries asking)"
    by (simp add: UDPMAXRETRIES_def)
  ultimately show ?thesis
    using unanswered_times_out [of waiting 0 asking sending "map (\<lambda>i. (int (4 + 3 * i), 0)) [0..<15]"] by auto
qed

lemma adns_cancel_ok:
  assumes w: "consistent {} {} a" and q: "a_query a q = Some qu" "q_parent qu = None"
  shows "\<exists>b. adns_cancel q a = Some b \<and> consistent {} {} b \<and> same_globals a b \<and>
    (\<forall>x. a_query b x = (if x = q \<or> x \<in> set (q_children qu) then None else a_query a x))"
proof -
  let ?s = "q_state qu"
  have ql: "q \<in> set (the_queue ?s a)" using wf_queued(1) [OF w q(1)] by simp
  let ?c = "set_queue ?s (remove1 q (the_queue ?s a)) a"
  have c: "unlink_state ?s q a = Some ?c" "consistent {q} {} ?c" using wf_unlink [OF w ql] by simp_all
  have qc: "a_query ?c q = Some qu" using q(1) by simp
  have out: "\<forall>x \<in> set (q_children qu). x \<notin> {q}" using wf_not_own_child [OF c(2) qc] by auto
  obtain b where b: "cancel_list (q_children qu) ?c = Some b" "consistent {q} {} b"
    "kept ?c b (set (q_children qu))" "a_query b q = Some (qu\<lparr>q_children := []\<rparr>)"
    "\<forall>x. x \<noteq> q \<longrightarrow> x \<notin> set (q_children qu) \<longrightarrow> a_query b x = a_query ?c x"
    using cancel_list_children [OF c(2) insertI1 qc out] by (elim exE conjE) (rule that, simp_all)
  let ?qu = "qu\<lparr>q_children := []\<rparr>"
  have p: "q_parent ?qu = None" "q_children ?qu = []" using q(2) by simp_all
  have lp: "leave_parent q ?qu b = Some b" using p by (simp add: leave_parent_def)
  have "consistent ({q} - {q}) (insert q {}) b"
    using wf_leave_parent [OF b(2) _ b(4)] p lp by auto
  then have f: "consistent {} {} (free_query q b)" using wf_free [of "{}" q "{}" b] by simp
  have run: "adns_cancel q a = Some (free_query q b)"
    unfolding adns_cancel_def
    by (subst cancel_list.simps) (simp add: q leave_parent_def c(1) b(1) cancel_list_Nil)
  have gone: "a_query b x = None" if x: "x \<in> set (q_children qu)" for x
  proof -
    have "x \<noteq> q" using out x by auto
    moreover have "\<forall>s. x \<notin> set (the_queue s b)" using b(3) x by (simp add: kept_def)
    ultimately show ?thesis using wf_live [OF b(2), of x] by simp
  qed
  have "same_globals a (free_query q b)" using b(3) by (simp add: kept_def same_globals_def)
  moreover have "a_query (free_query q b) x = (if x = q \<or> x \<in> set (q_children qu) then None else a_query a x)" for x
    using gone b(5) by simp
  ultimately show ?thesis using run f by blast
qed

text \<open>Cancelling a query frees it and its children and changes no other query.\<close>

theorem cancel_frees:
  assumes "consistent {} {} a" "a_query a q = Some qu" "q_parent qu = None"
  shows "\<exists>b. adns_cancel q a = Some b \<and> consistent {} {} b \<and> same_globals a b \<and>
    (\<forall>x. a_query b x = (if x = q \<or> x \<in> set (q_children qu) then None else a_query a x))"
  by (rule adns_cancel_ok [OF assms])

theorem cancel_frees_witness:
  "\<exists>b. adns_cancel 0 waiting = Some b \<and> consistent {} {} b \<and> same_globals waiting b \<and>
    (\<forall>x. a_query b x = (if x = 0 \<or> x \<in> set (q_children asking) then None else a_query waiting x))"
  by (rule cancel_frees) simp_all

subsection \<open>Answers\<close>

lemma wf_child_waits:
  assumes w: "consistent {} {} a" and q: "q \<in> set (a_childw a)"
  shows "a_udpw a \<noteq> [] \<or> a_tcpw a \<noteq> []"
proof -
  obtain qu where qu: "a_query a q = Some qu" using wf_get [OF w, of q Childw] q by auto
  have "queue_ok a Childw qu" by (rule wf_E(3) [OF w _ qu]) (simp add: q)
  then obtain c where c: "c \<in> set (q_children qu)" by (cases "q_children qu") auto
  then obtain cu where cu: "a_query a c = Some cu" "q_parent cu = Some q"
    using wf_E(5) [OF w _ qu] by (auto simp: family_ok_def)
  have leaf: "q_children cu = []" using wf_E(5) [OF w _ cu(1)] cu(2) by (simp add: family_ok_def)
  have "queue_ok a (q_state cu) cu" "c \<in> set (the_queue (q_state cu) a)"
    using wf_queued [OF w cu(1)] by blast+
  then show ?thesis using leaf cu(2) by (cases "q_state cu") auto
qed

lemma taken_consistent:
  assumes w: "consistent {} {} a" and q: "q \<in> set (a_output a)"
  shows "\<exists>u. a_query a q = Some u \<and>
    take_answer q a = Some (Answer q u, free_query q (a\<lparr>a_output := remove1 q (a_output a)\<rparr>)) \<and>
    consistent {} {} (free_query q (a\<lparr>a_output := remove1 q (a_output a)\<rparr>))"
proof -
  obtain u where u: "a_query a q = Some u" using wf_get [OF w, of q Done] q by auto
  let ?c = "a\<lparr>a_output := remove1 q (a_output a)\<rparr>"
  have e: "set_queue Done (remove1 q (the_queue Done a)) a = ?c" by (simp add: set_queue_def)
  have c: "consistent {q} {} ?c" using wf_unlink(2) [OF w, of q Done] q unfolding e by simp
  have "queue_ok a Done u" by (rule wf_E(3) [OF w _ u]) (simp add: q)
  then have p: "q_parent u = None" "q_children u = []" by simp_all
  have "consistent ({q} - {q}) (insert q {}) ?c"
    using wf_leave_parent [OF c insertI1, of u] u p by (auto simp: leave_parent_def)
  then have "consistent {} {} (free_query q ?c)" using wf_free [of "{}" q "{}" ?c] by simp
  then show ?thesis using u q by (simp add: take_answer_def unlink_def)
qed

text \<open>C26: Asking for any answer takes the first of the output; with none there the library says that there
  is nothing to wait for exactly when it has no query at all, so a user who waits has something
  that can time out.\<close>

theorem check_any_answer:
  assumes "consistent {} {} a"
  shows "\<exists>r b. internal_check None a = Some (r, b) \<and> consistent {} {} b \<and>
    (r = ESRCH \<longleftrightarrow> (\<forall>q. a_query a q = None)) \<and>
    (r = EAGAIN \<longleftrightarrow> a_output a = [] \<and> (a_udpw a \<noteq> [] \<or> a_tcpw a \<noteq> [])) \<and>
    (\<forall>q u. r = Answer q u \<longrightarrow> q = hd (a_output a) \<and> a_query a q = Some u \<and> a_query b q = None)"
proof (cases "a_output a")
  case Nil
  have live: "a_query a q \<noteq> None \<longleftrightarrow> q \<in> set (a_udpw a) \<or> q \<in> set (a_tcpw a) \<or> q \<in> set (a_childw a)" for q
  proof -
    have "a_query a q \<noteq> None \<longleftrightarrow> (\<exists>s. q \<in> set (the_queue s a))" using wf_live [OF assms] by simp
    also have "\<dots> \<longleftrightarrow> q \<in> set (a_udpw a) \<or> q \<in> set (a_tcpw a) \<or> q \<in> set (a_childw a)"
      using Nil by (metis list.set(1) empty_iff qstate.exhaust the_queue_simps)
    finally show ?thesis .
  qed
  have "(\<forall>q. a_query a q = None) \<longleftrightarrow> a_udpw a = [] \<and> a_tcpw a = []"
  proof
    assume "\<forall>q. a_query a q = None"
    then show "a_udpw a = [] \<and> a_tcpw a = []"
      using live [of "hd (a_udpw a)"] live [of "hd (a_tcpw a)"] by (cases "a_udpw a"; cases "a_tcpw a") simp_all
  next
    assume e: "a_udpw a = [] \<and> a_tcpw a = []"
    then have "\<not> (q \<in> set (a_childw a))" for q using wf_child_waits [OF assms, of q] by auto
    then show "\<forall>q. a_query a q = None" using e live by (metis list.set(1) empty_iff)
  qed
  then show ?thesis using Nil assms by (simp add: internal_check_def)
next
  case (Cons q rest)
  obtain u where u: "a_query a q = Some u"
    "take_answer q a = Some (Answer q u, free_query q (a\<lparr>a_output := remove1 q (a_output a)\<rparr>))"
    "consistent {} {} (free_query q (a\<lparr>a_output := remove1 q (a_output a)\<rparr>))"
    using taken_consistent [OF assms, of q] Cons by auto
  then show ?thesis using Cons by (fastforce simp: internal_check_def)
qed

theorem check_any_answer_witness:
  "\<exists>r b. internal_check None waiting = Some (r, b) \<and> consistent {} {} b \<and>
    (r = ESRCH \<longleftrightarrow> (\<forall>q. a_query waiting q = None)) \<and>
    (r = EAGAIN \<longleftrightarrow> a_output waiting = [] \<and> (a_udpw waiting \<noteq> [] \<or> a_tcpw waiting \<noteq> [])) \<and>
    (\<forall>q u. r = Answer q u \<longrightarrow> q = hd (a_output waiting) \<and> a_query waiting q = Some u \<and> a_query b q = None)"
  by (rule check_any_answer) simp

subsection \<open>Who may answer\<close>

text \<open>A datagram that is let in: a reply with one question, to a query that waits, has its
  identifier and question, and went to this server.\<close>

definition answers_query :: "string \<Rightarrow> nat \<Rightarrow> bool \<Rightarrow> ads \<Rightarrow> nat \<Rightarrow> bool" where
  "answers_query d serv viatcp a q \<longleftrightarrow>
     (\<exists>qu. a_query a q = Some qu \<and> q \<in> set (if viatcp then a_tcpw a else a_udpw a) \<and>
       q_id qu = int (get_w d 0) \<and> length (q_dgram qu) \<le> length d \<and>
       drop DNS_HDRSIZE (q_dgram qu) = take (length (q_dgram qu) - DNS_HDRSIZE) (drop DNS_HDRSIZE d) \<and>
       (viatcp \<or> bit (q_udpsent qu) serv))"

lemma find_query_match:
  "find_query viatcp serv d a qs = Some (Some q) \<Longrightarrow>
   \<exists>qu. q \<in> set qs \<and> a_query a q = Some qu \<and> dgram_answers d qu \<and> (viatcp \<or> bit (q_udpsent qu) serv)"
  by (induction qs) (auto split: bind_splits if_splits)

lemma find_query_none:
  assumes "consistent X Z a" "\<not> (\<exists>q. answers_query d serv viatcp a q)"
    and "set qs \<subseteq> set (if viatcp then a_tcpw a else a_udpw a)"
  shows "find_query viatcp serv d a qs = Some None"
  using assms(3)
proof (induction qs)
  case (Cons q qs)
  let ?s = "if viatcp then Tcpw else Tosend"
  have q: "q \<in> set (the_queue ?s a)" using Cons.prems by (cases viatcp) simp_all
  then obtain qu where qu: "a_query a q = Some qu" using wf_get [OF assms(1), of q ?s] by auto
  have st: "q_state qu = ?s" using wf_E(3) [OF assms(1) q qu] by (cases viatcp) simp_all
  have "\<not> (dgram_answers d qu \<and> (viatcp \<or> bit (q_udpsent qu) serv))"
    using assms(2) q qu unfolding answers_query_def dgram_answers_def by (cases viatcp) auto
  then show ?case using Cons qu st by (cases viatcp) auto
qed simp

lemma procdgram_ignores:
  assumes "consistent X Z a" "is_reply d \<Longrightarrow> get_w d 4 = 1 \<Longrightarrow> \<not> (\<exists>q. answers_query d serv viatcp a q)"
  shows "procdgram sys d serv viatcp now a = Some a"
  using find_query_none [OF assms(1,2), of "if viatcp then a_tcpw a else a_udpw a"]
  by (cases "is_reply d \<and> get_w d 4 = 1") (auto simp: procdgram_def)

text \<open>A received datagram that changes anything comes from port 53 of a server of the library.\<close>

definition let_in :: "ads \<Rightarrow> udp_dgram \<Rightarrow> bool" where
  "let_in a u \<longleftrightarrow>
     (\<exists>serv q. serv < nservers a \<and> a_servers a ! serv = ud_addr u \<and> ud_port u = DNS_PORT \<and>
       is_reply (take DNS_MAXUDP (ud_data u)) \<and> answers_query (take DNS_MAXUDP (ud_data u)) serv False a q)"

lemma server_index_nth: "server_index ss w < length ss \<Longrightarrow> ss ! server_index ss w = w"
  by (induction ss) (auto split: if_splits)

text \<open>C17: A datagram that is not a reply, does not come from port 53 of a known server, or does not have the
  identifier and the question of a query that was sent to this server changes nothing.\<close>

theorem udp_readable_ignores:
  assumes "consistent {} {} a" "\<forall>u. Udp_dgram u \<in> set us \<longrightarrow> \<not> let_in a u"
  shows "\<exists>r. udp_readable sys now us a = Some (r, a)"
  using assms(2)
proof (induction us)
  case (Cons i us)
  show ?case
  proof (cases i)
    case (Udp_dgram u)
    have no: "\<not> let_in a u" using Cons.prems Udp_dgram by simp
    show ?thesis
    proof (cases "udp_server a u")
      case None
      then show ?thesis using Cons Udp_dgram by simp
    next
      case (Some serv)
      then have "serv < nservers a" "a_servers a ! serv = ud_addr u" "ud_port u = DNS_PORT"
        using server_index_nth [of "a_servers a" "ud_addr u"] by (auto simp: udp_server_def Let_def split: if_splits)
      then have "procdgram sys (take DNS_MAXUDP (ud_data u)) serv False now a = Some a"
        using no unfolding let_in_def by (intro procdgram_ignores [OF assms(1)]) blast
      then show ?thesis using Cons Udp_dgram Some by simp
    qed
  qed (use Cons in auto)
qed simp

text \<open>The server fails: header only, identifier 7, one question, response code 2.\<close>

definition failure_reply :: string where
  "failure_reply = [CHR 0x00, CHR 0x07, CHR 0x80, CHR 0x02, CHR 0x00, CHR 0x01] @ replicate 6 CHR 0x00"

lemma failure_reply_fields:
  "get_w failure_reply 0 = 7" "get_w failure_reply 4 = 1" "get_b failure_reply 3 = 2"
  "length failure_reply = 12" "is_reply failure_reply"
  by code_simp+

lemma failure_reply_run:
  "procdgram sending failure_reply 0 False (2, 0) waiting =
   query_fail sending 0 s_rcodeservfail (set_queue Tosend [] waiting)"
proof -
  have a: "dgram_answers failure_reply asking"
    by (simp add: dgram_answers_def failure_reply_fields asking_def DNS_HDRSIZE_def)
  have "bit (q_udpsent asking) 0" by (simp add: asking_def)
  then have "find_query False 0 failure_reply waiting (a_udpw waiting) = Some (Some 0)"
    using a waiting_queue [of Tosend] by simp
  then show ?thesis
    using waiting_queue [of Tosend]
    by (simp add: procdgram_def failure_reply_fields unlink_state_def unlink_def reply_rcode_def Let_def)
qed

theorem udp_readable_ignores_witness:
  "\<exists>r. udp_readable sending (2, 0)
     [Udp_dgram \<lparr>ud_addrlen_ok = True, ud_inet = True, ud_port = 53, ud_addr = 1,
        ud_data = failure_reply [1 := CHR 0x08]\<rparr>, Udp_again] waiting = Some (r, waiting)"
proof (rule udp_readable_ignores)
  have f: "get_w (failure_reply [Suc 0 := CHR 0x08]) 0 = 8" by code_simp
  have t: "take DNS_MAXUDP (failure_reply [1 := CHR 0x08]) = failure_reply [1 := CHR 0x08]"
    by (simp add: failure_reply_fields DNS_MAXUDP_def)
  have "q_id asking = 7" by (simp add: asking_def)
  then have "\<not> answers_query (failure_reply [1 := CHR 0x08]) serv False waiting q" for serv q
    using waiting_queue [of Tosend] by (auto simp: answers_query_def f)
  then show "\<forall>u. Udp_dgram u \<in> set [Udp_dgram \<lparr>ud_addrlen_ok = True, ud_inet = True, ud_port = 53, ud_addr = 1,
        ud_data = failure_reply [1 := CHR 0x08]\<rparr>, Udp_again] \<longrightarrow> \<not> let_in waiting u"
    using t by (simp add: let_in_def)
qed simp

text \<open>The answer that is asked for is let in: the query ends with the error of the server.\<close>

theorem failure_is_reported:
  "\<exists>b u c. procdgram sending failure_reply 0 False (2, 0) waiting = Some b \<and>
    internal_check (Some 0) b = Some (Answer 0 u, c) \<and> q_status u = s_rcodeservfail"
proof -
  obtain b where b: "query_fail sending 0 s_rcodeservfail (set_queue Tosend [] waiting) = Some b"
    "consistent {} {} b" "\<exists>u. a_query b 0 = Some u \<and> 0 \<in> set (a_output b) \<and> q_status u = s_rcodeservfail"
    using query_fail_ok [OF waiting_taken, of asking sending s_rcodeservfail] by auto
  then obtain u where u: "a_query b 0 = Some u" "0 \<in> set (a_output b)" "q_status u = s_rcodeservfail" by auto
  have "queue_ok b Done u" by (rule wf_E(3) [OF b(2) _ u(1)]) (simp add: u(2))
  then have "q_id u = - 1" by simp
  then show ?thesis
    using b(1) u by (simp add: failure_reply_run internal_check_def take_answer_def unlink_def)
qed

subsection \<open>The stream to a server\<close>

text \<open>What was written to the connection and what still waits in the buffer.\<close>

definition tcp_stream :: "ads \<Rightarrow> string" where
  "tcp_stream a = a_wire a @ a_tcpsend a"

definition dgram_of :: "ads \<Rightarrow> nat \<Rightarrow> string" where
  "dgram_of a q = (case a_query a q of None \<Rightarrow> [] | Some qu \<Rightarrow> q_dgram qu)"

definition tcp_framed :: "string \<Rightarrow> string" where
  "tcp_framed d = put_w (length d) @ d"

text \<open>A datagram with its length, and what goes out when the system takes just one of the two bytes.\<close>

definition split_framed :: "string \<Rightarrow> string" where
  "split_framed d = [put_w (length d) ! 0, put_w (length d) ! 0] @ d"

lemma put_w_length [simp]: "length (put_w n) = 2"
  by (simp add: put_w_def)

lemma tcp_rest_stream:
  assumes "wr \<le> 2 + length d"
  shows "take wr (put_w (length d) @ d) @ tcp_rest wr d = (if wr = 1 then split_framed d else tcp_framed d)"
proof -
  consider "wr = 0" | "wr = 1" | "2 \<le> wr" by linarith
  then show ?thesis
    by cases (simp_all add: tcp_rest_def tcp_framed_def split_framed_def Let_def, simp add: put_w_def)
qed

lemma tcp_rest_more [simp]: "wr < 2 \<Longrightarrow> tcp_rest wr d \<noteq> []"
  by (simp add: tcp_rest_def Let_def put_w_def)

lemma querysend_tcp_stream:
  assumes run: "querysend_tcp sys q a = Some b" and s: "a_tcpstate a = Server_ok" "a_tcpstate b = Server_ok"
  defines "one_byte \<equiv> a_tcpsend a = [] \<and> s_writev sys (a_calls a) = Wrote 1"
  shows "tcp_stream b = tcp_stream a @ (if one_byte then split_framed (dgram_of a q) else tcp_framed (dgram_of a q))"
    "dgram_of b = dgram_of a" "a_tcpsend a \<noteq> [] \<or> one_byte \<Longrightarrow> a_tcpsend b \<noteq> []"
    "a_tcpsend a = [] \<Longrightarrow> a_calls b = a_calls a + 1"
proof -
  obtain qu where qu: "a_query a q = Some qu" "q_state qu = Tcpw"
    using run s by (auto simp: querysend_tcp_def split: bind_splits if_splits)
  have d: "dgram_of a q = q_dgram qu" using qu(1) by (simp add: dgram_of_def)
  have z: "tcp_rest 0 (q_dgram qu) = tcp_framed (q_dgram qu)" by (simp add: tcp_rest_def tcp_framed_def Let_def)
  have dg: "dgram_of c = dgram_of a" if "a_query c = (a_query a)(q \<mapsto> qu\<lparr>q_retries := n\<rparr>)" for c n
    using qu(1) that by (simp add: dgram_of_def fun_eq_iff)
  show "tcp_stream b = tcp_stream a @ (if one_byte then split_framed (dgram_of a q) else tcp_framed (dgram_of a q))"
  proof (cases "a_tcpsend a = []")
    case True
    show ?thesis
    proof (cases "s_writev sys (a_calls a)")
      case (Wrote n)
      have "min n (2 + length (q_dgram qu)) = 1 \<longleftrightarrow> n = 1" by linarith
      then show ?thesis
        using run s qu d True Wrote tcp_rest_stream [of "min n (2 + length (q_dgram qu))" "q_dgram qu"]
        by (auto simp: querysend_tcp_def tcp_stream_def Let_def call_done_def one_byte_def)
    qed (use run s qu d True z in \<open>auto simp: querysend_tcp_def tcp_stream_def Let_def call_done_def one_byte_def
          tcp_broken_def split: if_splits\<close>)
  next
    case False
    then show ?thesis using run s qu d z by (auto simp: querysend_tcp_def tcp_stream_def Let_def one_byte_def)
  qed
  show "dgram_of b = dgram_of a"
    using run s qu by (cases "s_writev sys (a_calls a)"; cases "a_tcpsend a = []")
      (auto simp: querysend_tcp_def Let_def call_done_def put_query_def tcp_broken_def tcp_close_def
         intro!: dg split: if_splits)
  show "a_tcpsend b \<noteq> []" if "a_tcpsend a \<noteq> [] \<or> one_byte"
  proof (cases "a_tcpsend a = []")
    case True
    then have "s_writev sys (a_calls a) = Wrote 1" using that by (simp add: one_byte_def)
    then show ?thesis using True run s qu by (auto simp: querysend_tcp_def Let_def)
  next
    case False
    then show ?thesis using run s qu by (auto simp: querysend_tcp_def Let_def)
  qed
  show "a_calls b = a_calls a + 1" if "a_tcpsend a = []"
    using that run s qu by (cases "s_writev sys (a_calls a)")
      (auto simp: querysend_tcp_def Let_def call_done_def tcp_broken_def tcp_close_def put_query_def split: if_splits)
qed

lemma send_all_stays: "send_all sys qs a = Some b \<Longrightarrow> a_tcpstate a = Broken \<Longrightarrow> b = a"
  by (cases qs) auto

lemma send_all_head:
  assumes "send_all sys (q # qs) a = Some b" "a_tcpstate a = Server_ok" "a_tcpstate b = Server_ok"
  shows "\<exists>c. querysend_tcp sys q a = Some c \<and> send_all sys qs c = Some b \<and> a_tcpstate c = Server_ok"
proof -
  obtain c where c: "querysend_tcp sys q a = Some c" "send_all sys qs c = Some b"
    using assms by (auto split: bind_splits if_splits)
  have "a_tcpstate c = Server_ok \<or> a_tcpstate c = Broken"
    using c(1) assms(2) by (cases "s_writev sys (a_calls a)")
      (auto simp: querysend_tcp_def Let_def call_done_def tcp_broken_def tcp_close_def split: bind_splits if_splits)
  then show ?thesis using c send_all_stays [OF c(2)] assms(3) by auto
qed

text \<open>Once the buffer has something it is only appended to.\<close>

lemma send_all_queued:
  assumes "send_all sys qs a = Some b" "a_tcpstate a = Server_ok" "a_tcpstate b = Server_ok" "a_tcpsend a \<noteq> []"
  shows "tcp_stream b = tcp_stream a @ concat (map (\<lambda>q. tcp_framed (dgram_of a q)) qs)"
  using assms
proof (induction qs arbitrary: a)
  case (Cons q qs)
  obtain c where c: "querysend_tcp sys q a = Some c" "send_all sys qs c = Some b" "a_tcpstate c = Server_ok"
    using send_all_head [OF Cons.prems(1-3)] by blast
  note q = querysend_tcp_stream [OF c(1) Cons.prems(2) c(3)]
  show ?case using Cons.IH [OF c(2,3) Cons.prems(3)] q Cons.prems(4) by simp
qed simp

text \<open>C29: When the connection stands, the queries that wait go out in order, each with its length before it,
  however much the system takes at a time, with one exception: when it takes just one byte of a query,
  that query goes out with the first byte of its length twice, and all the others still as they should.\<close>

theorem send_all_stream:
  assumes "send_all sys qs a = Some b" "a_tcpstate a = Server_ok" "a_tcpstate b = Server_ok"
  shows "tcp_stream b = tcp_stream a @ concat (map (\<lambda>q. tcp_framed (dgram_of a q)) qs) \<or>
    (\<exists>pre q post. qs = pre @ q # post \<and> a_tcpsend a = [] \<and> s_writev sys (a_calls a + length pre) = Wrote 1 \<and>
       tcp_stream b = tcp_stream a @ concat (map (\<lambda>q. tcp_framed (dgram_of a q)) pre) @
         split_framed (dgram_of a q) @ concat (map (\<lambda>q. tcp_framed (dgram_of a q)) post))"
  using assms
proof (induction qs arbitrary: a)
  case (Cons q qs)
  obtain c where c: "querysend_tcp sys q a = Some c" "send_all sys qs c = Some b" "a_tcpstate c = Server_ok"
    using send_all_head [OF Cons.prems] by blast
  note q = querysend_tcp_stream [OF c(1) Cons.prems(2) c(3)]
  show ?case
  proof (cases "a_tcpsend c = []")
    case False
    note t = send_all_queued [OF c(2,3) Cons.prems(3) False]
    show ?thesis
    proof (cases "a_tcpsend a = [] \<and> s_writev sys (a_calls a) = Wrote 1")
      case True
      then show ?thesis using q(1,2) t by (intro disjI2 exI [of _ "[]"] exI [of _ q] exI [of _ qs]) simp
    next
      case False
      then show ?thesis using q(1,2) t by auto
    qed
  next
    case True
    then have e: "a_tcpsend a = []" "s_writev sys (a_calls a) \<noteq> Wrote 1" using q(3) by auto
    then have h: "tcp_stream c = tcp_stream a @ tcp_framed (dgram_of a q)" "a_calls c = a_calls a + 1"
      "dgram_of c = dgram_of a" using q(1,2,4) by simp_all
    show ?thesis
      using Cons.IH [OF c(2,3) Cons.prems(3)]
    proof (elim disjE exE conjE)
      fix pre r post
      assume r: "qs = pre @ r # post" "s_writev sys (a_calls c + length pre) = Wrote 1"
        "tcp_stream b = tcp_stream c @ concat (map (\<lambda>q. tcp_framed (dgram_of c q)) pre) @
           split_framed (dgram_of c r) @ concat (map (\<lambda>q. tcp_framed (dgram_of c q)) post)"
      then show ?thesis using h e
        by (intro disjI2 exI [of _ "q # pre"] exI [of _ r] exI [of _ post]) simp
    qed (use h in simp)
  qed
qed simp

text \<open>The library with a query over an open connection.\<close>

definition connected :: ads where
  "connected = library\<lparr>a_query := [0 \<mapsto> asking\<lparr>q_state := Tcpw, q_retries := 0\<rparr>], a_fresh := 1,
     a_tcpw := [0], a_tcpstate := Server_ok\<rparr>"

lemma connected_sends:
  "querysend_tcp (sending\<lparr>s_writev := \<lambda>_. Wrote n\<rparr>) 0 connected =
   Some ((put_query 0 (asking\<lparr>q_state := Tcpw, q_retries := 1\<rparr>) connected)
     \<lparr>a_calls := 1, a_tcpsend := tcp_rest (min n 14) (q_dgram asking),
      a_wire := take (min n 14) (tcp_framed (q_dgram asking))\<rparr>)"
  by (simp add: querysend_tcp_def connected_def library_def sending_def call_done_def put_query_def
      tcp_framed_def Let_def) (simp add: asking_def)

theorem send_all_stream_witness:
  "\<exists>b. send_all sending [0] connected = Some b \<and>
    tcp_stream b = tcp_stream connected @ concat (map (\<lambda>q. tcp_framed (dgram_of connected q)) [0])"
proof -
  have e: "sending\<lparr>s_writev := \<lambda>_. Wrote 100\<rparr> = sending" by (simp add: sending_def)
  have c: "a_tcpstate connected = Server_ok" "a_query connected 0 = Some (asking\<lparr>q_state := Tcpw, q_retries := 0\<rparr>)"
    by (simp_all add: connected_def)
  obtain b where b: "send_all sending [0] connected = Some b" "a_tcpstate b = Server_ok"
    using connected_sends [of 100] c unfolding e by simp
  have "s_writev sending n \<noteq> Wrote 1" for n by (simp add: sending_def)
  then show ?thesis using send_all_stream [OF b(1) c(1) b(2)] b(1) by blast
qed

text \<open>When the system takes just one byte of a query, the first byte of its length is sent twice and the
  second one never.\<close>

theorem split_length_corrupts:
  assumes "querysend_tcp sys q a = Some b" "a_tcpstate a = Server_ok" "a_tcpsend a = []"
    and "a_query a q = Some qu" "s_writev sys (a_calls a) = Wrote 1"
  shows "tcp_stream b = a_wire a @ [put_w (length (q_dgram qu)) ! 0, put_w (length (q_dgram qu)) ! 0] @ q_dgram qu"
  using assms by (auto simp: querysend_tcp_def tcp_stream_def tcp_rest_def put_w_def call_done_def Let_def split: if_splits)

lemma chr_zero: "chr 0 = CHR 0x00"
  by code_simp

theorem split_length_corrupts_witness:
  "\<exists>b. querysend_tcp (sending\<lparr>s_writev := \<lambda>_. Wrote 1\<rparr>) 0 connected = Some b \<and>
    tcp_stream b = [NUL, NUL] @ replicate 12 NUL"
proof -
  obtain b where b: "querysend_tcp (sending\<lparr>s_writev := \<lambda>_. Wrote 1\<rparr>) 0 connected = Some b"
    using connected_sends [of 1] by blast
  have c: "a_tcpstate connected = Server_ok" "a_tcpsend connected = []" "a_wire connected = []"
    "a_query connected 0 = Some (asking\<lparr>q_state := Tcpw, q_retries := 0\<rparr>)"
    by (simp_all add: connected_def library_def)
  have d: "q_dgram asking = replicate 12 NUL" by (simp add: asking_def NUL_def)
  show ?thesis
    using split_length_corrupts [OF b c(1,2,4)] b c(3) by (auto simp: d put_w_def NUL_def chr_zero)
qed

subsection \<open>What does not return\<close>

text \<open>\<open>query_fail\<close> of a query of the user that is still in its queue leaves it there, with its answer made.\<close>

lemma query_fail_in_queue:
  assumes w: "consistent {} {} a" and q: "q \<in> set (a_udpw a)" "a_query a q = Some qu" and p: "q_parent qu = None"
  shows "\<exists>b u. query_fail sys q st a = Some b \<and> a_udpw b = a_udpw a \<and> a_query b q = Some u \<and> final_allocspace u"
proof -
  have qo: "queue_ok a Tosend qu" by (rule wf_E(3) [OF w _ q(2)]) (simp add: q(1))
  then have st: "q_state qu = Tosend" "q_children qu = []" by simp_all
  let ?u = "qu\<lparr>q_rrs := [], q_status := st\<rparr>"
  have f: "fail_with q st a = Some (put_query q ?u a)"
    using q st by (simp add: fail_with_def reset_preserved_def final_allocspace_def cancel_children_leaf
        change_query_def set_status_def put_put)
  have "local_ok a qu" using wf_E(4) [OF w _ q(2)] by simp
  then obtain fu where fu: "finish_answer sys (put_query q ?u a) ?u = Some fu" "same_place ?u fu"
    using finish_answer_Some [of ?u sys "put_query q ?u a"] st by (auto simp: local_ok_def)
  let ?a2 = "(put_query q fu (put_query q ?u a))\<lparr>a_calls := a_calls a + 1\<rparr>"
  let ?b = "put_query q (fu\<lparr>q_state := Done\<rparr>) (link_state Done q ?a2)"
  have "query_done sys q (put_query q ?u a) = Some ?b"
    using fu p st by (subst query_done.simps)
      (simp add: cancel_children_leaf same_place_def change_query_def link_state_def)
  then have "query_fail sys q st a = Some ?b" by (simp add: query_fail_def f)
  moreover have "a_udpw ?b = a_udpw a" "a_query ?b q = Some (fu\<lparr>q_state := Done\<rparr>)" by (simp_all add: link_state_def)
  ultimately show ?thesis by (intro exI [of _ ?b] exI [of _ "fu\<lparr>q_state := Done\<rparr>"]) (simp add: final_allocspace_def)
qed

text \<open>C40: An error of the system while a query of the user is the first that waits over UDP aborts the program:
  nothing takes the query out of the queue, so the loop, when it has failed it and put it into the
  output, finds it at the head again, and the second failure does not get past the assertion that
  the query has no final answer yet.\<close>

theorem globalsystemfailure_aborts:
  assumes "consistent {} {} a" "a_udpw a = q # rest" "a_query a q = Some qu" "q_parent qu = None"
  shows "\<exists>b u. query_fail sys q s_systemfail a = Some b \<and> a_udpw b = q # rest \<and>
    a_query b q = Some u \<and> final_allocspace u \<and> reset_preserved q b = None \<and>
    adns_globalsystemfailure sys a = None"
proof -
  obtain b u where b: "query_fail sys q s_systemfail a = Some b" "a_udpw b = q # rest" "a_query b q = Some u" "final_allocspace u"
    using query_fail_in_queue [OF assms(1) _ assms(3,4), of sys s_systemfail] assms(2) by auto
  have r: "reset_preserved q b = None" using b(3,4) by (simp add: reset_preserved_def)
  have "fail_queue sys Tosend b = None"
    using b(2) r by (subst fail_queue.simps) (simp add: query_fail_def fail_with_def)
  then have "fail_queue sys Tosend a = None"
    using assms(2) b(1) by (subst fail_queue.simps) simp
  then show ?thesis using b r by (simp add: adns_globalsystemfailure_def)
qed

theorem globalsystemfailure_aborts_witness:
  "\<exists>b. query_fail sending 0 s_systemfail waiting = Some b \<and> reset_preserved 0 b = None \<and>
    adns_globalsystemfailure sending waiting = None"
proof -
  have "a_udpw waiting = [0]" using waiting_queue [of Tosend] by simp
  from globalsystemfailure_aborts [OF waiting_consistent this, of asking sending] show ?thesis by auto
qed

text \<open>With no socket to be had the loop over the events of the connection goes round for ever.\<close>

lemma tcp_tries_no_socket:
  assumes "\<forall>n. s_connect sys n = No_socket" "a_tcpstate a = Disconnected"
    "tcp_tries sys now (Suc k) a = Some b"
  shows "b = call_done a"
  using assms by (auto split: if_splits)

text \<open>When no socket can be had while a query waits for TCP, processing the events of the connection
  never returns.\<close>

theorem tcp_events_stuck:
  assumes "\<forall>n. s_connect sys n = No_socket" "a_tcpstate a = Disconnected" "a_tcpw a \<noteq> []" "0 < nservers a"
  shows "tcp_events sys now a = None"
proof -
  let ?P = "\<lambda>sys a. (\<forall>n. s_connect sys n = No_socket) \<and> a_tcpstate a = Disconnected \<and> a_tcpw a \<noteq> [] \<and> 0 < nservers a"
  have "\<not> ?P sys a" if "tcp_events sys now a = Some b" for b
    using that
  proof (rule tcp_events.raw_induct [where P = "\<lambda>sys now a b. \<not> ?P sys a", rotated], goal_cases)
    case (1 f sys now a b)
    show ?case
    proof
      assume p: "?P sys a"
      then obtain c where c: "tcp_tryconnect sys now a = Some c" "f sys now c = Some b"
        using 1(2) by (auto split: bind_splits)
      have "c = call_done a"
        using c(1) p tcp_tries_no_socket [of sys a now "nservers a - 1" c] by (simp add: tcp_tryconnect_def)
      then show False using 1(1) [OF c(2)] p by (simp add: call_done_def)
    qed
  qed
  then show ?thesis using assms by (cases "tcp_events sys now a") auto
qed

theorem tcp_events_stuck_witness:
  "tcp_events (sending\<lparr>s_connect := \<lambda>_. No_socket\<rparr>) (9, 0) (connected\<lparr>a_tcpstate := Disconnected\<rparr>) = None"
  by (rule tcp_events_stuck) (simp_all add: connected_def library_def)

text \<open>A searching query that was sent over TCP cannot be given its next name: it is still in the state
  of waiting for TCP, and the assertion at the start of sending fails.\<close>

theorem search_next_over_tcp:
  assumes "a_query a q = Some qu" "q_state qu = Tcpw" "search_entry (a_searchlist a) qu = Some (entry, qu1)"
    "make_datagram (a_nextid a) (qu1\<lparr>q_search := search_name qu entry, q_dgram := []\<rparr>) (search_name qu entry) = Inr dgram"
  shows "search_next sys now q a = None"
proof -
  have "q_state qu1 = Tcpw" using assms(2,3) by (auto simp: search_entry_def split: if_splits)
  then show ?thesis
    using assms by (subst search_next.simps)
      (simp add: query_submit_def change_query_def query_send_def take_id_def Let_def)
qed

definition searching :: query where
  "searching = asking\<lparr>q_state := Tcpw, q_search := ''a'', q_origlen := 1,
     q_flags := qf_none\<lparr>qf_search := True, qf_usevc := True\<rparr>\<rparr>"

lemma mkquery_ab: "\<exists>dg. mkquery n False False ''a.b'' r_addr = Inr dg"
  by (simp add: mkquery_def mkquery_labels.simps qdparselabel_def qdpl_normal_def BACKSLASH_def
      ctype_alpha_def is_digit_def is_lower_def is_upper_def dns_sizes)

lemma addr_row: "\<not> ti_srv (case findtype r_addr of None \<Rightarrow> typeinfo_unknown | Some ti \<Rightarrow> ti)"
  by (simp add: findtype_find typeinfos_def plain_type_def rrtypes bit_iff_odd)

theorem search_next_over_tcp_witness:
  "search_next sending (2, 0) 0 (library\<lparr>a_query := [0 \<mapsto> searching]\<rparr>) = None"
proof -
  let ?a = "library\<lparr>a_query := [0 \<mapsto> searching]\<rparr>" and ?q1 = "searching\<lparr>q_pos := 1\<rparr>"
  have e: "search_entry (a_searchlist ?a) searching = Some (Some ''b'', ?q1)"
    by (simp add: search_entry_def library_def searching_def) (simp add: asking_def query_alloc_def)
  obtain dgram where d: "make_datagram (a_nextid ?a) (?q1\<lparr>q_search := search_name searching (Some ''b''), q_dgram := []\<rparr>)
      (search_name searching (Some ''b'')) = Inr dgram"
    using mkquery_ab [of 7]
    by (auto simp: make_datagram_def library_def searching_def asking_def query_alloc_def search_name_def
        q_typei_def addr_row qf_none_def)
  show ?thesis
    by (rule search_next_over_tcp [OF _ _ e d]) (simp_all add: searching_def)
qed

subsection \<open>Search lists\<close>

text \<open>The names that a searching query tries are the entries of the search list in order, with the name
  as it is before them or after them, as the number of its dots says.\<close>

theorem search_follows_order: "search_entries sl qu = search_order sl qu"
  by (rule search_entries_order)

subsection \<open>Aliases\<close>

text \<open>An answer with an address of the target, the alias, and an address of the target again: the
  first reading counts one record, for the target is not known when it meets the first.\<close>

definition alias_question :: string where
  "alias_question = [CHR 0x01, CHR ''a'', CHR 0x00, CHR 0x00, CHR 0x01, CHR 0x00, CHR 0x01]"

definition alias_address :: string where
  "alias_address = [CHR 0x00, CHR 0x01, CHR 0x00, CHR 0x01] @ replicate 4 CHR 0x00 @
     [CHR 0x00, CHR 0x04, CHR 0x7F, CHR 0x00, CHR 0x00, CHR 0x01]"

definition alias_reply :: string where
  "alias_reply =
     [CHR 0x00, CHR 0x07, CHR 0x80, CHR 0x80, CHR 0x00, CHR 0x01, CHR 0x00, CHR 0x03] @
     replicate 4 CHR 0x00 @ alias_question @
     [CHR 0x01, CHR ''t'', CHR 0x00] @ alias_address @
     [CHR 0xC0, CHR 0x0C, CHR 0x00, CHR 0x05, CHR 0x00, CHR 0x01] @ replicate 4 CHR 0x00 @
     [CHR 0x00, CHR 0x02, CHR 0xC0, CHR 0x13] @
     [CHR 0xC0, CHR 0x13] @ alias_address"

definition alias_query :: query where
  "alias_query = asking\<lparr>q_dgram := replicate 12 CHR 0x00 @ alias_question\<rparr>"

definition scan_count :: "((nat \<times> nat \<times> bool) scanned \<times> query) option \<Rightarrow> nat option" where
  "scan_count r = (case r of Some (Scan_ok (_, n, _), _) \<Rightarrow> Some n | _ \<Rightarrow> None)"

lemma alias_bytes:
  "length alias_reply = 66"
  "get_b alias_reply 0 = 0" "get_b alias_reply (Suc 0) = 7" "get_b alias_reply 2 = 128"
  "get_b alias_reply 3 = 128" "get_b alias_reply 4 = 0" "get_b alias_reply 5 = 1"
  "get_b alias_reply 6 = 0" "get_b alias_reply 7 = 3" "get_b alias_reply 8 = 0"
  "get_b alias_reply 9 = 0" "get_b alias_reply 10 = 0" "get_b alias_reply 11 = 0"
  "get_b alias_reply 12 = 1" "get_b alias_reply 13 = 97" "get_b alias_reply 14 = 0"
  "get_b alias_reply 15 = 0" "get_b alias_reply 16 = 1" "get_b alias_reply 17 = 0"
  "get_b alias_reply 18 = 1" "get_b alias_reply 19 = 1" "get_b alias_reply 20 = 116"
  "get_b alias_reply 21 = 0" "get_b alias_reply 22 = 0" "get_b alias_reply 23 = 1"
  "get_b alias_reply 24 = 0" "get_b alias_reply 25 = 1" "get_b alias_reply 26 = 0"
  "get_b alias_reply 27 = 0" "get_b alias_reply 28 = 0" "get_b alias_reply 29 = 0"
  "get_b alias_reply 30 = 0" "get_b alias_reply 31 = 4" "get_b alias_reply 32 = 127"
  "get_b alias_reply 33 = 0" "get_b alias_reply 34 = 0" "get_b alias_reply 35 = 1"
  "get_b alias_reply 36 = 192" "get_b alias_reply 37 = 12" "get_b alias_reply 38 = 0"
  "get_b alias_reply 39 = 5" "get_b alias_reply 40 = 0" "get_b alias_reply 41 = 1"
  "get_b alias_reply 42 = 0" "get_b alias_reply 43 = 0" "get_b alias_reply 44 = 0"
  "get_b alias_reply 45 = 0" "get_b alias_reply 46 = 0" "get_b alias_reply 47 = 2"
  "get_b alias_reply 48 = 192" "get_b alias_reply 49 = 19" "get_b alias_reply 50 = 192"
  "get_b alias_reply 51 = 19" "get_b alias_reply 52 = 0" "get_b alias_reply 53 = 1"
  "get_b alias_reply 54 = 0" "get_b alias_reply 55 = 1" "get_b alias_reply 56 = 0"
  "get_b alias_reply 57 = 0" "get_b alias_reply 58 = 0" "get_b alias_reply 59 = 0"
  "get_b alias_reply 60 = 0" "get_b alias_reply 61 = 4" "get_b alias_reply 62 = 127"
  "get_b alias_reply 63 = 0" "get_b alias_reply 64 = 0" "get_b alias_reply 65 = 1"
  by (simp_all add: alias_reply_def alias_question_def alias_address_def get_b_def nth_append)

lemma alias_question_bytes:
  "length (q_dgram alias_query) = 19" "get_b (q_dgram alias_query) 12 = 1" "get_b (q_dgram alias_query) 13 = 97"
  "get_b (q_dgram alias_query) 14 = 0"
  by (simp_all add: alias_query_def alias_question_def get_b_def nth_append)

lemma alias_labels:
  "label_at alias_reply (Suc 0) 20 = ''t''" "label_at (q_dgram alias_query) (Suc 0) 13 = ''a''"
  "label_at alias_reply (Suc 0) 13 = ''a''" "label_at d 0 i = []"
  "same_label ''a'' ''a''" "same_label ''t'' ''t''" "\<not> same_label ''t'' ''a''" "\<not> same_label ''a'' ''t''" "same_label [] []"
  "append_quoted1035 [] ''t'' = ''t''"
  by (simp_all add: label_at_def alias_reply_def alias_question_def alias_query_def) (code_simp+)

lemmas alias_steps = alias_labels
  alias_bytes alias_question_bytes findlabel_seek.simps [of alias_reply]
  findlabel_seek.simps [of "q_dgram alias_query"] match_owner.simps [of alias_reply]
  parse_domain_more.simps [of alias_reply] findlabel_next_def findlabel_start_def set_dmend_def
  findrr_def findrr_anychk_def parse_domain_def domain_end_def get_w_def get_l_def Let_def
  DNS_HDRSIZE_def DNS_MAXDOMAIN_def

lemma alias_rrs:
  "findrr alias_reply 19 True (q_dgram alias_query) None = Some (Inr (Some
     \<lparr>rr_type = 1, rr_class = 1, rr_ttl = 0, rr_rdlen = 4, rr_rdstart = 32, rr_end = 36, rr_matched = False\<rparr>))"
  "findrr alias_reply 36 True (q_dgram alias_query) None = Some (Inr (Some
     \<lparr>rr_type = 5, rr_class = 1, rr_ttl = 0, rr_rdlen = 2, rr_rdstart = 48, rr_end = 50, rr_matched = True\<rparr>))"
  "findrr alias_reply 50 True (q_dgram alias_query) (Some (alias_reply, 48)) = Some (Inr (Some
     \<lparr>rr_type = 1, rr_class = 1, rr_ttl = 0, rr_rdlen = 4, rr_rdstart = 62, rr_end = 66, rr_matched = True\<rparr>))"
  "findrr alias_reply 19 True (q_dgram alias_query) (Some (alias_reply, 48)) = Some (Inr (Some
     \<lparr>rr_type = 1, rr_class = 1, rr_ttl = 0, rr_rdlen = 4, rr_rdstart = 32, rr_end = 36, rr_matched = True\<rparr>))"
  "findrr alias_reply 36 True (q_dgram alias_query) (Some (alias_reply, 48)) = Some (Inr (Some
     \<lparr>rr_type = 5, rr_class = 1, rr_ttl = 0, rr_rdlen = 2, rr_rdstart = 48, rr_end = 50, rr_matched = False\<rparr>))"
  by (simp_all add: alias_steps)

lemma alias_parse: "\<exists>g. parse_domain alias_reply True 48 50 = Some (Inr (Some ''t'', g))"
  by (simp add: alias_steps)

definition alias_named :: query where
  "alias_named = q_update_expires 0 (2, 0)
     (alias_query\<lparr>q_cname := Some (alias_reply, 48), q_cnametext := Some ''t''\<rparr>)"

lemma alias_query_simps:
  "q_cname alias_query = None" "q_flags alias_query = qf_none" "q_type alias_query = r_addr" "q_id alias_query = 7"
  "q_state alias_query = Tosend" "q_udpsent alias_query = 1" "q_rrs alias_query = []"
  "q_cname alias_named = Some (alias_reply, 48)" "q_type alias_named = r_addr" "q_rrs alias_named = []"
  "q_dgram alias_named = q_dgram alias_query"
  by (simp_all add: alias_query_def alias_named_def asking_def query_alloc_def q_update_expires_def Let_def)

lemma alias_scan:
  "answer_scan 3 alias_reply (2, 0) 19 0 False alias_query = Some (Scan_ok (66, 1, True), alias_named)"
proof -
  obtain g where p: "parse_domain alias_reply True 48 50 = Some (Inr (Some ''t'', g))" using alias_parse by blast
  show ?thesis
    by (simp add: numeral_3_eq_3 alias_rrs alias_query_simps cname_rr_def wanted_rr_def rrtypes DNS_CLASS_IN_def
        qf_none_def take_cname_def p flip: alias_named_def split: unit.split)
qed

definition alias_asking :: ads where
  "alias_asking = waiting\<lparr>a_query := [0 \<mapsto> alias_query]\<rparr>"

lemma q_update_expires_simps [simp]:
  "q_type (q_update_expires t n qu) = q_type qu" "q_rrs (q_update_expires t n qu) = q_rrs qu"
  "q_cname (q_update_expires t n qu) = q_cname qu" "q_dgram (q_update_expires t n qu) = q_dgram qu"
  by (simp_all add: q_update_expires_def Let_def)

lemma addr_parse:
  "q_type qu = r_addr \<Longrightarrow> ti_parse (q_typei qu) pai ps 32 36 = Some (Inr (RR_addr (get_addr (pai_dgram pai) 32), ps))"
  by (simp add: q_typei_def findtype_find typeinfos_def plain_type_def rrtypes bit_iff_odd keeping_def at_state_def
      pa_addr_def)

lemma alias_parse_stops:
  assumes "a_query a 0 = Some alias_named"
  shows "parse_answers sending (2, 0) 0 alias_reply se 1 3 19 a = None"
  using assms
  by (simp add: numeral_3_eq_3 alias_rrs alias_query_simps wanted_rr_def rrtypes DNS_CLASS_IN_def Let_def
        addr_parse parsed_def query_pstate_def)

text \<open>In an answer the records of the target may come before the alias. The first reading does not count
  them, the second one does: the records are written beyond the block that was reserved.\<close>

theorem alias_overrun:
  "answer_scan 3 alias_reply (2, 0) 19 0 False alias_query = Some (Scan_ok (66, 1, True), alias_named) \<and>
   procdgram sending alias_reply 0 False (2, 0) alias_asking = None"
proof
  show scan: "answer_scan 3 alias_reply (2, 0) 19 0 False alias_query = Some (Scan_ok (66, 1, True), alias_named)"
    by (rule alias_scan)
  let ?a = "set_queue Tosend [] alias_asking"
  have r: "is_reply alias_reply"
    by (simp add: is_reply_def alias_bytes DNS_HDRSIZE_def bit_iff_odd)
  have m: "dgram_answers alias_reply alias_query"
    by (simp add: dgram_answers_def alias_bytes alias_question_bytes alias_query_simps get_w_def DNS_HDRSIZE_def)
      (simp add: alias_query_def alias_reply_def alias_question_def)
  have q: "a_query alias_asking 0 = Some alias_query" "a_udpw alias_asking = [0]"
    using waiting_queue [of Tosend] by (simp_all add: alias_asking_def)
  have f: "find_query False 0 alias_reply alias_asking (a_udpw alias_asking) = Some (Some 0)"
    using m q by (simp add: alias_query_simps)
  have u: "unlink_state Tosend 0 alias_asking = Some ?a" by (simp add: unlink_state_def unlink_def q)
  have "parse_answers sending (2, 0) 0 alias_reply se 1 3 19 (put_query 0 alias_named ?a) = None" for se
    by (rule alias_parse_stops) simp
  then have "reply_answer sending (2, 0) 0 alias_reply False ?a = None"
    using scan q
    by (simp add: reply_answer_def alias_bytes alias_question_bytes get_w_def reply_records_def bit_iff_odd)
  then show "procdgram sending alias_reply 0 False (2, 0) alias_asking = None"
    using r f u by (simp add: procdgram_def alias_bytes get_w_def reply_rcode_def)
qed

end
