(* ===== verification/AdnsChildren.thy ===== *)
theory AdnsChildren
  imports AdnsTcp
begin

text \<open>
  The child queries that the parsers of records ask for: they are short, go over UDP and do not
  search, and a query for addresses has none.
\<close>

subsection \<open>The length of a query made from a datagram\<close>

lemma name_size_append [simp]: "name_size (ks @ ls) = name_size ks + name_size ls"
  by (simp add: name_size_def)

lemma seek_namelen: "findlabel_seek d f = Some (Inr (r, g)) \<Longrightarrow> fl_namelen g = fl_namelen f"
proof -
  have "\<forall>r g. x = Inr (r, g) \<longrightarrow> fl_namelen g = fl_namelen f" if "findlabel_seek d f = Some x" for x
    using that
    by (rule findlabel_seek.raw_induct [where P = "\<lambda>d f x. \<forall>r g. x = Inr (r, g) \<longrightarrow> fl_namelen g = fl_namelen f", rotated])
      (auto simp: Let_def split: if_splits)
  then show "findlabel_seek d f = Some (Inr (r, g)) \<Longrightarrow> fl_namelen g = fl_namelen f" by blast
qed

lemma findlabel_next_namelen:
  assumes "findlabel_next d f = Some (Inr (Label len start, g))" "len \<noteq> 0"
  shows "fl_namelen g = (if fl_namelen f \<noteq> 0 then fl_namelen f + 1 else 0) + len" "fl_namelen g \<le> DNS_MAXDOMAIN"
    "length (label_at d len start) \<le> len"
  using assms by (auto simp: findlabel_next_def Let_def label_at_def dest: seek_namelen
      split: option.splits sum.splits prod.splits if_splits)

lemma frdgram_labels_bound:
  assumes "frdgram_labels d f acc = Some ls" "fl_namelen f \<le> DNS_MAXDOMAIN"
  shows "name_size ls \<le> name_size acc + (if fl_namelen f = 0 then DNS_MAXDOMAIN + 1 else DNS_MAXDOMAIN - fl_namelen f)"
proof -
  let ?P = "\<lambda>d f acc ls. fl_namelen f \<le> DNS_MAXDOMAIN \<longrightarrow>
    name_size ls \<le> name_size acc + (if fl_namelen f = 0 then DNS_MAXDOMAIN + 1 else DNS_MAXDOMAIN - fl_namelen f)"
  have "?P d f acc ls"
    using assms(1)
  proof (rule frdgram_labels.raw_induct [where P = ?P, rotated], goal_cases)
    case (1 self d f acc ls)
    obtain len start g where l: "findlabel_next d f = Some (Inr (Label len start, g))"
      "(if len = 0 then Some acc else self d g (acc @ [label_at d len start])) = Some ls"
      using 1(2) by (auto split: option.splits sum.splits prod.splits label.splits)
    show ?case
    proof (cases "len = 0")
      case True
      then show ?thesis using l(2) by simp
    next
      case False
      note n = findlabel_next_namelen [OF l(1) False]
      have "name_size ls \<le> name_size (acc @ [label_at d len start]) +
          (if fl_namelen g = 0 then DNS_MAXDOMAIN + 1 else DNS_MAXDOMAIN - fl_namelen g)"
        using 1(1) [of d g "acc @ [label_at d len start]" ls] l(2) False n(2) by simp
      then show ?thesis using n False by (auto split: if_splits)
    qed
  qed
  then show ?thesis using assms(2) by blast
qed

lemma mkquery_frdgram_length:
  assumes "mkquery_frdgram av n d begin type = Some dg" shows "length dg \<le> 273"
proof -
  obtain ls where ls: "frdgram_labels d (findlabel_start (length d) begin) [] = Some ls"
    "dg = mkquery_header (next_id n) @ enc_name ls @ mkquery_footer type"
    using assms by (auto simp: mkquery_frdgram_def Let_def split: option.splits if_splits)
  have "name_size ls \<le> 256"
    using frdgram_labels_bound [OF ls(1)] by (simp add: findlabel_start_def DNS_MAXDOMAIN_def)
  then show ?thesis by (simp add: ls(2) length_enc_name DNS_HDRSIZE_def)
qed

subsection \<open>What a parser asks for\<close>

definition child_ok :: "child \<Rightarrow> bool" where
  "child_ok c \<longleftrightarrow> length (ch_dgram c) \<le> DNS_MAXUDP \<and> \<not> qf_usevc (ch_flags c) \<and>
     \<not> qf_search (ch_flags c) \<and> \<not> qf_owner (ch_flags c)"

definition grown :: "pstate \<Rightarrow> pstate \<Rightarrow> bool" where
  "grown ps ps' \<longleftrightarrow> (\<exists>cs. ps_children ps' = ps_children ps @ cs \<and> list_all child_ok cs)"

text \<open>The state that a parse leaves, in its result or in its error.\<close>

definition leaves :: "('a \<Rightarrow> pstate) \<Rightarrow> pstate \<Rightarrow> 'a parse_step \<Rightarrow> bool" where
  "leaves f ps r \<longleftrightarrow>
     (\<forall>y. r = Some y \<longrightarrow> grown ps (case y of Inl e \<Rightarrow> snd e | Inr x \<Rightarrow> f x))"

lemma grown_refl [simp]: "grown ps ps"
  by (simp add: grown_def)

lemma grown_trans: "grown a b \<Longrightarrow> grown b c \<Longrightarrow> grown a c"
  by (auto simp: grown_def)

lemma submit_child_grown:
  assumes "submit_child pai ps dmstart flags kind = Some ps'" "\<not> qf_usevc flags" "\<not> qf_search flags" "\<not> qf_owner flags"
  shows "grown ps ps'"
proof -
  obtain dg where dg: "mkquery_frdgram (pai_avail pai (ps_nextid ps)) (ps_nextid ps) (pai_dgram pai) dmstart r_addr = Some dg"
    "ps_children ps' = ps_children ps @
       [\<lparr>ch_dgram = dg, ch_id = next_id (ps_nextid ps), ch_flags = flags, ch_kind = kind\<rparr>]"
    using assms(1) by (auto simp: submit_child_def)
  have "length dg \<le> DNS_MAXUDP" using mkquery_frdgram_length [OF dg(1)] by (simp add: DNS_MAXUDP_def)
  then show ?thesis using dg(2) assms(2-4) by (simp add: grown_def child_ok_def)
qed

lemma leaves_simps [simp]:
  "leaves f ps None" "leaves f ps (Some (Inl (st, p))) \<longleftrightarrow> grown ps p" "leaves f ps (Some (Inr x)) \<longleftrightarrow> grown ps (f x)"
  by (simp_all add: leaves_def)

lemma leaves_bind:
  assumes "leaves f ps r" "\<And>x. grown ps (f x) \<Longrightarrow> leaves g ps (k x)"
  shows "leaves g ps (rbind r k)"
proof (cases r)
  case (Some y)
  then show ?thesis
  proof (cases y)
    case (Inr x)
    then have "grown ps (f x)" using assms(1) Some by simp
    then show ?thesis using assms(2) Some Inr by simp
  qed (use assms(1) Some in \<open>auto simp: leaves_def\<close>)
qed simp

lemma at_state_simps [simp]:
  "at_state ps None = None" "at_state ps (Some (Inl e)) = Some (Inl (e, ps))" "at_state ps (Some (Inr x)) = Some (Inr x)"
  by (simp_all add: at_state_def)

lemma leaves_at_state: "(\<And>x. leaves g ps (k x)) \<Longrightarrow> leaves g ps (rbind (at_state ps r) k)"
  by (cases r; cases "the r") simp_all

lemma leaves_keeping:
  assumes "\<And>x p. f pai ps cbyte mx = Some (Inr (x, p)) \<Longrightarrow> p = ps"
  shows "leaves snd ps (keeping f pai ps cbyte mx)"
  using assms by (cases "f pai ps cbyte mx"; cases "the (f pai ps cbyte mx)") (auto simp: keeping_def)

lemma grown_update_expires [simp]: "grown ps (update_expires t n p) \<longleftrightarrow> grown ps p"
  by (simp add: grown_def update_expires_def Let_def)

lemma findaddrs_leaves:
  "grown ps p \<Longrightarrow> leaves (snd \<circ> snd) ps (findaddrs_loop n pai p cbyte dmstart found)"
proof (induction n arbitrary: p cbyte found)
  case (Suc n)
  consider (none) "findrr_anychk (pai_dgram pai) cbyte (Some (pai_dgram pai, dmstart)) = None"
    | (err) e where "findrr_anychk (pai_dgram pai) cbyte (Some (pai_dgram pai, dmstart)) = Some (Inl e)"
    | (trunc) "findrr_anychk (pai_dgram pai) cbyte (Some (pai_dgram pai, dmstart)) = Some (Inr None)"
    | (rr) x where "findrr_anychk (pai_dgram pai) cbyte (Some (pai_dgram pai, dmstart)) = Some (Inr (Some x))"
    by (metis not_None_eq sum.exhaust)
  then show ?case
    by cases (use Suc in \<open>simp_all add: Let_def\<close>)
qed simp

lemma pap_findaddrs_leaves:
  "grown ps p \<Longrightarrow> leaves (snd \<circ> snd) ps (pap_findaddrs pai p ha cbyte cnt dmstart)"
  unfolding pap_findaddrs_def
  by (rule leaves_bind [where f = "snd \<circ> snd"]) (auto intro: findaddrs_leaves)

lemma child_flags_simps [simp]:
  "\<not> qf_usevc (child_flags pai)" "\<not> qf_search (child_flags pai)" "\<not> qf_owner (child_flags pai)"
  "\<not> qf_usevc qf_none" "\<not> qf_search qf_none" "\<not> qf_owner qf_none"
  by (simp_all add: child_flags_def qf_none_def)

lemma pap_hostaddr_leaves: "leaves (snd \<circ> snd) ps (pap_hostaddr pai ps dmstart mx)"
  unfolding pap_hostaddr_def
proof (intro leaves_at_state, clarsimp simp: Let_def)
  fix host cend
  let ?ha = "\<lparr>ha_host = host, ha_astatus = s_ok, ha_naddrs = - 1, ha_addrs = []\<rparr>"
  let ?ask = "\<lambda>ha2 ps2. case submit_child pai ps2 dmstart (child_flags pai) (Child_hostaddr (pai_slot pai)) of
                   None \<Rightarrow> None | Some ps3 \<Rightarrow> Some (Inr (ha2, cend, ps3))"
  have ask: "leaves (snd \<circ> snd) ps (?ask h p)" if "grown ps p" for h p
    using that submit_child_grown [of pai p dmstart "child_flags pai" "Child_hostaddr (pai_slot pai)"]
    by (auto split: option.split intro: grown_trans)
  show "leaves (snd \<circ> snd) ps (rbind (pap_findaddrs pai ps ?ha (pai_nsstart pai) (pai_nscount pai) dmstart)
     (\<lambda>(ha1, c1, ps1).
         if ha_naddrs ha1 \<noteq> - 1 then Some (Inr (ha1, cend, ps1))
         else rbind (pap_findaddrs pai ps1 ha1 c1 (pai_arcount pai) dmstart) (\<lambda>(ha2, c2, ps2).
           if ha_naddrs ha2 \<noteq> - 1 then Some (Inr (ha2, cend, ps2)) else ?ask ha2 ps2)))"
  proof (rule leaves_bind [where f = "snd \<circ> snd"], rule pap_findaddrs_leaves, simp, clarsimp)
    fix ha1 :: hostaddr and c1 ps1 assume g: "grown ps ps1" "ha_naddrs ha1 = - 1"
    show "leaves (snd \<circ> snd) ps (rbind (pap_findaddrs pai ps1 ha1 c1 (pai_arcount pai) dmstart) (\<lambda>(ha2, c2, ps2).
           if ha_naddrs ha2 \<noteq> - 1 then Some (Inr (ha2, cend, ps2)) else ?ask ha2 ps2))"
      by (rule leaves_bind [where f = "snd \<circ> snd", OF pap_findaddrs_leaves [OF g(1)]]) (auto intro: ask)
  qed
qed

lemma hostaddr_leaves:
  "leaves snd ps (pa_hostaddr pai ps cbyte mx)" "leaves snd ps (pa_mx pai ps cbyte mx)" "leaves snd ps (pa_srvha pai ps cbyte mx)"
  unfolding pa_hostaddr_def pa_mx_def pa_srvha_def
  by (auto intro!: leaves_bind [where f = "snd \<circ> snd", OF pap_hostaddr_leaves])

lemma pa_ptr_leaves: "leaves snd ps (pa_ptr pai ps cbyte mx)"
proof -
  have h: "grown ps p"
    if "submit_child pai (ps\<lparr>ps_ptr := Some a\<rparr>) cbyte (qf_none\<lparr>qf_quoteok_query := True\<rparr>) Child_ptr = Some p" for a p
  proof -
    have "grown (ps\<lparr>ps_ptr := Some a\<rparr>) p" using that by (rule submit_child_grown) (simp_all add: qf_none_def)
    then show ?thesis by (simp add: grown_def)
  qed
  show ?thesis
    unfolding pa_ptr_def by (intro leaves_at_state) (auto simp: Let_def dest: h split: option.split)
qed

lemma plain_parsers:
  "pa_inaddr pai ps c m = Some (Inr (x, p)) \<Longrightarrow> p = ps" "pa_addr pai ps c m = Some (Inr (x, p)) \<Longrightarrow> p = ps"
  "pa_dom_raw pai ps c m = Some (Inr (x, p)) \<Longrightarrow> p = ps" "pa_host_raw pai ps c m = Some (Inr (x, p)) \<Longrightarrow> p = ps"
  "pa_soa pai ps c m = Some (Inr (x, p)) \<Longrightarrow> p = ps" "pa_hinfo pai ps c m = Some (Inr (x, p)) \<Longrightarrow> p = ps"
  "pa_mx_raw pai ps c m = Some (Inr (x, p)) \<Longrightarrow> p = ps" "pa_txt pai ps c m = Some (Inr (x, p)) \<Longrightarrow> p = ps"
  "pa_rp pai ps c m = Some (Inr (x, p)) \<Longrightarrow> p = ps" "pa_srvraw pai ps c m = Some (Inr (x, p)) \<Longrightarrow> p = ps"
  "pa_opaque pai ps c m = Some (Inr (x, p)) \<Longrightarrow> p = ps"
  by (auto simp: pa_inaddr_def pa_addr_def pa_dom_raw_def pa_host_raw_def pa_dom_def pa_soa_def pa_hinfo_def
      pa_mx_raw_def pa_txt_def pa_rp_def pa_srvraw_def pa_opaque_def rbind_def Let_def
      split: option.splits sum.splits if_splits prod.splits)

lemma findtype_parse:
  assumes "findtype t = Some ti"
  shows "leaves snd ps (ti_parse ti pai ps c m)"
    "t = r_addr \<Longrightarrow> ti_parse ti pai ps c m = keeping pa_addr pai ps c m"
proof -
  have ti: "ti \<in> set typeinfos \<or> ti = typeinfo_unknown"
    using assms by (auto simp: findtype_find find_Some_iff split: if_splits)
  show "leaves snd ps (ti_parse ti pai ps c m)"
    using ti by (auto simp: typeinfos_def plain_type_def typeinfo_unknown_def
        intro!: leaves_keeping hostaddr_leaves pa_ptr_leaves dest: plain_parsers)
  show "t = r_addr \<Longrightarrow> ti_parse ti pai ps c m = keeping pa_addr pai ps c m"
    using assms by (auto simp: findtype_find typeinfos_def plain_type_def rrtypes bit_iff_odd)
qed

end
