(* ===== verification/AdnsKeep.thy ===== *)
theory AdnsKeep
  imports AdnsContract AdnsChildren
begin

text \<open>
  Whatever the name servers answer: a call of the library that returns keeps it consistent. The
  lemmas with the suffix \<open>_part\<close> say so of one operation; they need nothing about the kinds of
  queries that wait for TCP, while those of \<open>AdnsTcp\<close> also show that the operation returns.
\<close>

definition keeps :: "ads option \<Rightarrow> bool" where
  "keeps r \<longleftrightarrow> (\<forall>b. r = Some b \<longrightarrow> consistent {} {} b)"

lemma keeps_simps [simp]: "keeps None" "keeps (Some b) \<longleftrightarrow> consistent {} {} b"
  by (simp_all add: keeps_def)

lemma keeps_bind: "(\<And>x. m = Some x \<Longrightarrow> keeps (f x)) \<Longrightarrow> keeps (m \<bind> f)"
  by (cases m) simp_all

lemma keeps_D: "keeps r \<Longrightarrow> r = Some b \<Longrightarrow> consistent {} {} b"
  by (simp add: keeps_def)

lemma query_fail_part:
  "consistent {q} {} a \<Longrightarrow> a_query a q = Some qu \<Longrightarrow> q_state qu \<noteq> Done \<Longrightarrow> keeps (query_fail sys q st a)"
  using query_fail_keeps [of q a qu sys st] by auto

lemma query_done_part:
  "consistent {q} {} a \<Longrightarrow> a_query a q = Some qu \<Longrightarrow> q_state qu \<noteq> Done \<Longrightarrow> keeps (query_done sys q a)"
  using query_done_keeps [of q a qu sys] by auto

subsection \<open>The connection\<close>

lemma fail_broken_part:
  assumes "consistent {} {} a" "fail_broken sys qs a = Some b"
  shows "consistent {} {} b \<and> same_globals a b \<and> set (a_tcpw b) \<subseteq> set (a_tcpw a) \<and>
    (\<forall>x \<in> set qs. x \<in> set (a_tcpw b) \<longrightarrow> (\<forall>u. a_query b x = Some u \<longrightarrow> q_retries u \<le> nservers a)) \<and>
    (\<forall>x \<in> set (a_tcpw b). a_query b x = a_query a x)"
  using assms
proof (induction sys qs a rule: fail_broken.induct)
  case (1 sys qs a)
  show ?case
  proof (cases qs)
    case Nil
    then show ?thesis using 1(3,4) by (simp add: fail_broken.simps)
  next
    case (Cons q rest)
    obtain qu where qu: "a_query a q = Some qu" "q_state qu = Tcpw"
      using 1(4) Cons by (subst (asm) fail_broken.simps) (auto split: option.splits if_splits)
    show ?thesis
    proof (cases "q_retries qu > nservers a")
      case False
      then have run: "fail_broken sys rest a = Some b"
        using 1(4) Cons qu by (subst (asm) fail_broken.simps) simp
      note ih = 1(2) [OF Cons qu(1) _ False 1(3) run]
      show ?thesis
      proof (intro conjI ballI impI allI)
        fix x u assume x: "x \<in> set qs" "x \<in> set (a_tcpw b)" "a_query b x = Some u"
        show "q_retries u \<le> nservers a"
        proof (cases "x = q")
          case True
          then show ?thesis using ih qu x False by simp
        next
          case False
          then show ?thesis using ih qu(2) x Cons by auto
        qed
      qed (use ih qu(2) in auto)
    next
      case True
      obtain c where c: "unlink_state Tcpw q a = Some c"
        using 1(4) Cons qu True by (subst (asm) fail_broken.simps) (auto split: option.splits)
      obtain a1 where a1: "query_fail sys q s_allservfail c = Some a1"
        "fail_broken sys (take 1 rest @ filter (\<lambda>x. x \<in> set (a_tcpw a1)) (drop 1 rest)) a1 = Some b"
        using 1(4) Cons qu True c by (subst (asm) fail_broken.simps) (auto split: option.splits)
      have qt: "q \<in> set (a_tcpw a)" using c by (auto simp: unlink_state_def unlink_def split: if_splits)
      have c2: "c = set_queue Tcpw (remove1 q (a_tcpw a)) a" "consistent {q} {} c"
        using wf_unlink [OF 1(3), of q Tcpw] qt c by simp_all
      have qc: "a_query c q = Some qu" using qu c2(1) by simp
      have sd: "q_state qu \<noteq> Done" using qu by simp
      obtain G where w1: "consistent {} {} a1" "shrunk G c a1"
        using query_fail_keeps [OF c2(2) qc sd, of sys s_allservfail] a1(1) by auto
      note ih = 1(1) [OF Cons qu(1) _ True c a1(1) w1(1) a1(2)]
      have sg: "same_globals a a1" using w1(2) c2(1) by (simp add: shrunk_def same_globals_def)
      have tw: "a_tcpw a1 = filter (\<lambda>x. x \<notin> G) (remove1 q (a_tcpw a))"
        using shrunk_queues(1) [OF w1(2), of Tcpw] c2(1) by simp
      have same: "a_query a1 x = a_query a x" if "x \<in> set (a_tcpw a1)" for x
        using shrunk_queues(2) [OF w1(2), of Tcpw x] that c2(1) by simp
      have d: "distinct (a_tcpw a)" using wf_E(2) [OF 1(3)] unfolding queues_ok_def by (metis the_queue_simps(2))
      then have sub: "set (a_tcpw a1) \<subseteq> set (a_tcpw a) - {q}" by (auto simp: tw set_remove1_eq)
      have ih': "consistent {} {} b" "same_globals a1 b" "set (a_tcpw b) \<subseteq> set (a_tcpw a1)"
        "\<forall>x \<in> set (take 1 rest @ filter (\<lambda>x. x \<in> set (a_tcpw a1)) (drop 1 rest)). x \<in> set (a_tcpw b) \<longrightarrow>
           (\<forall>u. a_query b x = Some u \<longrightarrow> q_retries u \<le> nservers a1)"
        "\<forall>x \<in> set (a_tcpw b). a_query b x = a_query a1 x"
        using ih qu(2) by blast+
      have ns: "nservers a1 = nservers a" using sg by (simp add: same_globals_def)
      have r: "q_retries u \<le> nservers a"
        if x: "x \<in> set qs" "x \<in> set (a_tcpw b)" "a_query b x = Some u" for x u
      proof -
        have xn: "x \<noteq> q" "x \<in> set (a_tcpw a1)" using x(2) ih'(3) sub by auto
        then have "x \<in> set rest" using x(1) Cons by simp
        then have "x \<in> set (take 1 rest) \<or> x \<in> set (drop 1 rest)" by (metis Un_iff append_take_drop_id set_append)
        then show ?thesis using ih'(4) x xn(2) ns by auto
      qed
      have e: "same_globals a b" "set (a_tcpw b) \<subseteq> set (a_tcpw a)"
        "\<forall>x \<in> set (a_tcpw b). a_query b x = a_query a x"
        using same_globals_trans [OF sg ih'(2)] ih'(3,5) sub same by auto
      show ?thesis using ih'(1) e r by blast
    qed
  qed
qed

lemma tcp_broken_events_part:
  assumes w: "consistent {} {} a" and run: "tcp_broken_events sys a = Some b"
  shows "consistent {} {} b" "a_tcpstate b = Disconnected"
proof -
  have s: "a_tcpstate a = Broken" using run by (simp add: tcp_broken_events_def split: if_splits)
  obtain c where c: "fail_broken sys (a_tcpw a) a = Some c" "b = c\<lparr>a_tcpstate := Disconnected\<rparr>"
    using run s by (auto simp: tcp_broken_events_def)
  note f = fail_broken_part [OF w c(1)]
  have g: "global_ok (c\<lparr>a_tcpstate := Disconnected\<rparr>)"
    using f wf_E(1) [of "{}" "{}" c] s by (simp add: global_ok_def same_globals_def)
  have ns: "nservers c = nservers a" using f by (simp add: same_globals_def)
  have r: "q_retries u \<le> nservers c" if "x \<in> set (a_tcpw c)" "a_query c x = Some u" for x u
    using f that ns by (metis subsetD)
  have w1: "consistent {} {} c" using f by simp
  have "consistent {} {} (c\<lparr>a_tcpstate := Disconnected\<rparr>)"
    by (rule consistent_change [OF w1 _ _ _ _ _ g]) (simp_all add: r)
  then show "consistent {} {} b" "a_tcpstate b = Disconnected" by (simp_all add: c(2))
qed

lemma tcp_tries_part:
  "consistent {} {} a \<Longrightarrow> 0 < fst now \<Longrightarrow> keeps (tcp_tries sys now k a)"
proof (induction k arbitrary: a)
  case (Suc k)
  note w = Suc.prems(1)
  show ?case
  proof (cases "a_tcpstate a = Disconnected")
    case False
    then show ?thesis using w by simp
  next
    case True
    let ?a1 = "(call_done a)\<lparr>a_tcpstate := Connecting\<rparr>"
    have g1: "global_ok ?a1" using wf_E(1) [OF w] True by (simp add: global_ok_def call_done_def)
    have w1: "consistent {} {} ?a1"
      by (rule consistent_change [OF w _ _ _ _ _ g1]) (use wf_retries [OF w] True in \<open>auto simp: call_done_def\<close>)
    have s1: "a_tcpstate ?a1 = Connecting" by simp
    have conn: "keeps (tcp_connected sys ?a1)" using tcp_connected_ok [OF w1 s1, of sys] by auto
    let ?b = "?a1\<lparr>a_tcptimeout := timevaladd now TCPCONNMS\<rparr>"
    have "global_ok ?b" using g1 timevaladd_pos [OF Suc.prems(2), of TCPCONNMS] by (simp add: global_ok_def)
    then have prog: "consistent {} {} ?b"
      by (intro consistent_change [OF w1]) (use wf_retries [OF w1] in auto)
    have "keeps (do { a2 \<leftarrow> tcp_broken ?a1; a3 \<leftarrow> tcp_broken_events sys a2; tcp_tries sys now k a3 })"
    proof (intro keeps_bind)
      fix a2 a3 assume r: "tcp_broken ?a1 = Some a2" "tcp_broken_events sys a2 = Some a3"
      have "consistent {} {} a2" using tcp_broken_ok [OF w1] s1 r(1) by auto
      then show "keeps (tcp_tries sys now k a3)" using tcp_broken_events_part(1) r(2) Suc by blast
    qed
    then show ?thesis using True conn prog w
      by (cases "s_connect sys (a_calls a)") (simp_all add: Let_def call_done_def)
  qed
qed simp

subsection \<open>Sending\<close>

lemma query_usetcp_part:
  assumes w: "consistent {q} {} a" and q: "a_query a q = Some qu"
    and s: "q_state qu \<noteq> Done" "q_children qu = []" "0 \<le> q_id qu" "q_retries qu = 0"
    and now: "0 < fst now"
  shows "keeps (query_usetcp sys now q a)"
proof -
  let ?u = "qu\<lparr>q_state := Tcpw, q_timeout := timevaladd now TCPWAITMS\<rparr>"
  let ?b = "link_state Tcpw q (put_query q ?u a)"
  have l: "local_ok a ?u" using wf_E(4) [OF w(1) _ q] s(1) by (simp add: local_ok_def)
  have w1: "consistent {q} {} (put_query q ?u a)"
    using wf_E(5) [OF w(1) _ q] by (intro wf_put [OF w(1) _ q l]) (auto simp: family_ok_def)
  have "consistent ({q} - {q}) {} ?b" by (rule wf_link [OF w1, of q ?u]) (use s in simp_all)
  then have w2: "consistent {} {} ?b" by simp
  have qb: "q \<in> set (a_tcpw ?b)" "a_query ?b q = Some ?u" by (simp_all add: link_state_def set_queue_def)
  obtain c where c: "querysend_tcp sys q ?b = Some c" "consistent {} {} c"
    using querysend_tcp_ok [OF w2 qb, of sys] s(4) by auto
  then show ?thesis
    using tcp_tries_part [OF c(2) now, of sys] q
    by (simp add: query_usetcp_def change_query_def tcp_tryconnect_def)
qed

lemma query_send_part:
  assumes w: "consistent {q} {} a" and q: "a_query a q = Some qu"
    and s: "q_children qu = []" "0 \<le> q_id qu" "q_state qu = Tosend \<Longrightarrow> for_udp qu \<or> q_retries qu = 0"
    and sys: "no_msgsize sys" and now: "0 < fst now"
  shows "keeps (query_send sys now q a)"
proof (cases "q_state qu = Tosend")
  case False
  then show ?thesis using q by (simp add: query_send_def)
next
  case True
  show ?thesis
  proof (cases "for_udp qu")
    case u: True
    have "sendable a qu" using u by (simp add: sendable_def)
    then show ?thesis using query_send_ok [OF w q True s(1,2) _ sys now] by auto
  next
    case False
    then have "query_send sys now q a = query_usetcp sys now q a"
      using q True by (auto simp: query_send_def for_udp_def)
    then show ?thesis using query_usetcp_part [OF w q _ s(1,2) _ now] s(3) True False by simp
  qed
qed

subsection \<open>Child queries\<close>

lemma wf_adopt:
  assumes w: "consistent X {} a" and q: "a_query a q = Some u" and p: "a_query a p = Some pu" and ne: "q \<noteq> p"
    and u: "q_parent u = None" "q_children u = []" "q_kind u \<noteq> None" "q_type u = r_addr"
      "\<not> qf_search (q_flags u)" "\<not> qf_owner (q_flags u)" "q_state u \<noteq> Done"
    and pu: "q_parent pu = None" "p \<in> X"
  shows "consistent X {} (put_query p (pu\<lparr>q_children := q_children pu @ [q]\<rparr>) (put_query q (u\<lparr>q_parent := Some p\<rparr>) a))"
    (is "consistent X {} ?b")
proof (rule consistent_I)
  have qb: "a_query ?b = (a_query a)(q \<mapsto> u\<lparr>q_parent := Some p\<rparr>, p \<mapsto> pu\<lparr>q_children := q_children pu @ [q]\<rparr>)"
    by simp
  have fam: "family_ok {} a x v" if "a_query a x = Some v" for x v using wf_E(5) [OF w _ that] by simp
  have child: "\<exists>v. a_query a c = Some v \<and> q_parent v = Some x" if "a_query a x = Some v" "c \<in> set (q_children v)" for x v c
    using fam [OF that(1)] that(2) by (auto simp: family_ok_def)
  have nq: "q \<notin> set (q_children v)" if "a_query a x = Some v" for x v using child [OF that, of q] q u(1) by auto
  have np: "p \<notin> set (q_children v)" if "a_query a x = Some v" for x v using child [OF that, of p] p pu(1) by auto
  show "global_ok ?b" using wf_E(1) [OF w] by (simp add: global_ok_def)
  show "queues_ok X {} ?b" using wf_E(2) [OF w] q p unfolding queues_ok_def by auto
  fix x v
  show "queue_ok ?b s v" if h: "x \<in> set (the_queue s ?b)" "a_query ?b x = Some v" for s
  proof -
    have xs: "x \<in> set (the_queue s a)" using h(1) by simp
    have xp: "x \<noteq> p" using wf_floating(1) [OF w, of p s] pu(2) xs by auto
    show ?thesis
    proof (cases "x = q")
      case True
      have "queue_ok a s u" using wf_E(3) [OF w xs] q True by simp
      then show ?thesis using h(2) True xp u(7) by (cases s) auto
    next
      case False
      have "queue_ok a s v" using wf_E(3) [OF w xs] h(2) False xp by simp
      then show ?thesis by (cases s) simp_all
    qed
  qed
  show "local_ok ?b v" if h: "x \<notin> {}" "a_query ?b x = Some v"
  proof -
    have l: "local_ok a v'" if "a_query a y = Some v'" for y v' using wf_E(4) [OF w _ that] by simp
    show ?thesis
      using h l [OF q] l [OF p] l [of x v] nq [OF p] u(7)
      by (auto simp: local_ok_def split: if_splits)
  qed
  show "family_ok {} ?b x v" if h: "x \<notin> {}" "a_query ?b x = Some v"
  proof -
    consider (p) "x = p" | (q) "x = q" | (o) "x \<noteq> p" "x \<noteq> q" by blast
    then show ?thesis
    proof cases
      case p': p
      then have v: "v = pu\<lparr>q_children := q_children pu @ [q]\<rparr>" using h(2) by simp
      have "\<exists>cu. a_query ?b c = Some cu \<and> q_parent cu = Some p" if c: "c \<in> set (q_children pu)" for c
        using child [OF p c] c nq [OF p] np [OF p] by (metis (no_types, lifting) fun_upd_other qb)
      then show ?thesis using v p' pu(1) ne by (auto simp: family_ok_def)
    next
      case q': q
      then have v: "v = u\<lparr>q_parent := Some p\<rparr>" using h(2) ne by simp
      show ?thesis using v q' u pu(1) ne by (auto simp: family_ok_def)
    next
      case o
      then have v: "a_query a x = Some v" using h(2) by simp
      have 1: "\<exists>cu. a_query ?b c = Some cu \<and> q_parent cu = Some x" if c: "c \<in> set (q_children v)" for c
        using child [OF v c] c nq [OF v] np [OF v] by (metis (no_types, lifting) fun_upd_other qb)
      have 2: "q_children v = [] \<and> q_kind v \<noteq> None \<and> q_type v = r_addr \<and> \<not> qf_search (q_flags v) \<and>
          \<not> qf_owner (q_flags v) \<and> (\<exists>pu. a_query ?b p' = Some pu \<and> x \<in> set (q_children pu) \<and> q_parent pu = None)"
        if p': "q_parent v = Some p'" for p'
      proof -
        obtain w where w: "a_query a p' = Some w" "x \<in> set (q_children w)" "q_parent w = None"
          using fam [OF v] p' by (auto simp: family_ok_def)
        have "p' \<noteq> q" using w q u(2) by auto
        then have "\<exists>pu. a_query ?b p' = Some pu \<and> x \<in> set (q_children pu) \<and> q_parent pu = None"
          using w p pu(1) by (cases "p' = p") auto
        then show ?thesis using fam [OF v] p' by (auto simp: family_ok_def)
      qed
      show ?thesis using 1 2 unfolding family_ok_def by blast
    qed
  qed
qed

lemma internal_submit_ok:
  assumes w: "consistent {p} {} a" and p: "a_query a p = Some pu" "q_parent pu = None"
    and c: "child_ok c" and sys: "no_msgsize sys"
  shows "\<exists>b. internal_submit sys now p c a = Some b \<and> consistent {p} {} b \<and>
    a_query b p = Some (pu\<lparr>q_children := q_children pu @ [a_fresh a]\<rparr>)"
proof -
  let ?q = "a_fresh a"
  let ?cu = "(query_alloc r_addr (ch_flags c) now)\<lparr>q_kind := Some (ch_kind c)\<rparr>"
  let ?a1 = "(put_query ?q ?cu a)\<lparr>a_fresh := ?q + 1\<rparr>"
  have ne: "?q \<noteq> p" using wf_E(2) [OF w] p(1) unfolding queues_ok_def by (metis less_irrefl option.distinct(1))
  have "0 < nservers a" using wf_E(1) [OF w] by (simp add: global_ok_def)
  then have l: "local_ok a ?cu" by (simp add: local_ok_def query_alloc_def)
  have w1: "consistent (insert ?q {p}) {} ?a1" using consistent_alloc [OF w l] by (simp add: query_alloc_def)
  let ?u = "?cu\<lparr>q_dgram := ch_dgram c, q_id := int (ch_id c)\<rparr>"
  let ?a2 = "put_query ?q ?u ?a1"
  have q1: "a_query ?a1 ?q = Some ?cu" by simp
  have "local_ok ?a1 ?cu" using wf_E(4) [OF w1 _ q1] by simp
  then have lu: "local_ok ?a1 ?u" by (simp add: local_ok_def)
  have w2: "consistent (insert ?q {p}) {} ?a2"
    by (rule wf_put [OF w1 _ q1 lu]) (simp_all add: query_alloc_def)
  have q2: "a_query ?a2 ?q = Some ?u" by simp
  have u: "q_state ?u = Tosend" "q_children ?u = []" "0 \<le> q_id ?u" "for_udp ?u" "q_retries ?u < UDPMAXRETRIES"
    using c by (simp_all add: query_alloc_def for_udp_def child_ok_def UDPMAXRETRIES_def)
  have npX: "?q \<notin> {p}" using ne by simp
  note s = query_send_udp [where now = now, OF w2 npX q2 u(1-5) sys]
  let ?a3 = "sent_state now ?q ?u ?a2" and ?v = "sent_udp ?a2 now ?u"
  have q3: "a_query ?a3 ?q = Some ?v" "a_query ?a3 p = Some pu"
    using ne p by (simp_all add: sent_state_def link_state_def call_done_def)
  have v: "q_parent ?v = None" "q_children ?v = []" "q_kind ?v \<noteq> None" "q_type ?v = r_addr"
    "\<not> qf_search (q_flags ?v)" "\<not> qf_owner (q_flags ?v)" "q_state ?v \<noteq> Done"
    using c by (simp_all add: sent_udp_def query_alloc_def child_ok_def)
  have w4: "consistent {p} {} (put_query p (pu\<lparr>q_children := q_children pu @ [?q]\<rparr>)
      (put_query ?q (?v\<lparr>q_parent := Some p\<rparr>) ?a3))"
    by (rule wf_adopt [OF s(2) q3 ne v p(2)]) simp
  have sub: "query_submit sys now ?q (ch_dgram c) (ch_id c) ?a1 = Some ?a3"
    using s(1) by (simp add: query_submit_def change_query_def)
  have "internal_submit sys now p c a = Some (put_query p (pu\<lparr>q_children := q_children pu @ [?q]\<rparr>)
      (put_query ?q (?v\<lparr>q_parent := Some p\<rparr>) ?a3))"
    using sub q3 ne by (simp add: internal_submit_def change_query_def Let_def)
  then show ?thesis using w4 by simp
qed

lemma submit_children_ok:
  assumes "consistent {p} {} a" "a_query a p = Some pu" "q_parent pu = None" "list_all child_ok cs"
    and sys: "no_msgsize sys"
  shows "\<exists>b ks. submit_children sys now p cs a = Some b \<and> consistent {p} {} b \<and>
    a_query b p = Some (pu\<lparr>q_children := q_children pu @ ks\<rparr>)"
  using assms(1-4)
proof (induction cs arbitrary: a pu)
  case Nil
  then show ?case by (intro exI [of _ a] exI [of _ "[]"]) simp
next
  case (Cons c cs)
  have c: "child_ok c" "list_all child_ok cs" using Cons.prems(4) by simp_all
  let ?pu = "pu\<lparr>q_children := q_children pu @ [a_fresh a]\<rparr>"
  obtain b where b: "internal_submit sys now p c a = Some b" "consistent {p} {} b" "a_query b p = Some ?pu"
    using internal_submit_ok [OF Cons.prems(1-3) c(1) sys, of now] by blast
  have "q_parent ?pu = None" using Cons.prems(3) by simp
  then obtain d ks where "submit_children sys now p cs b = Some d" "consistent {p} {} d"
    "a_query d p = Some (?pu\<lparr>q_children := q_children ?pu @ ks\<rparr>)"
    using Cons.IH [OF b(2,3) _ c(2)] by blast
  then show ?case using b(1) by (intro exI [of _ d] exI [of _ "a_fresh a # ks"]) simp
qed

subsection \<open>Answers\<close>

text \<open>What a reply does not change of the query it is for.\<close>

definition same_work :: "query \<Rightarrow> query \<Rightarrow> bool" where
  "same_work u v \<longleftrightarrow>
     q_state v = q_state u \<and> q_parent v = q_parent u \<and> q_type v = q_type u \<and> q_flags v = q_flags u \<and>
     q_id v = q_id u \<and> q_retries v = q_retries u \<and> q_kind v = q_kind u \<and> q_owner v = q_owner u \<and>
     q_nextserver v = q_nextserver u \<and> q_udpsent v = q_udpsent u \<and> q_pos v = q_pos u"

lemma same_work_refl [simp]: "same_work u u"
  by (simp add: same_work_def)

lemma same_work_trans: "same_work u v \<Longrightarrow> same_work v w \<Longrightarrow> same_work u w"
  by (simp add: same_work_def)

text \<open>A change of the query that is worked on, in the fields no check looks at.\<close>

lemma wf_work:
  assumes w: "consistent {q} {} a" and q: "a_query a q = Some u" and v: "same_work u v" "q_children v = q_children u"
  shows "consistent {q} {} (put_query q v a)"
proof (rule wf_put [OF w _ q])
  show "local_ok a v" using wf_E(4) [OF w _ q] v by (simp add: local_ok_def same_work_def)
qed (use v wf_E(5) [OF w _ q] in \<open>auto simp: same_work_def family_ok_def\<close>)

lemma consistent_nextid:
  assumes w: "consistent X Z a"
  shows "consistent X Z (a\<lparr>a_nextid := n\<rparr>)"
  by (rule consistent_change [OF w]) (use wf_retries [OF w] wf_E(1) [OF w] in \<open>simp_all add: global_ok_def\<close>)

lemma q_update_expires_work [simp]:
  "same_work u (q_update_expires t n u)" "q_children (q_update_expires t n u) = q_children u"
  "q_typei (q_update_expires t n u) = q_typei u" "q_rrs (q_update_expires t n u) = q_rrs u"
  by (simp_all add: q_update_expires_def same_work_def q_typei_def Let_def)

lemma q_typei_parse:
  "leaves snd ps (ti_parse (q_typei qu) pai ps c m)"
  "q_type qu = r_addr \<Longrightarrow> ti_parse (q_typei qu) pai ps c m = keeping pa_addr pai ps c m"
proof -
  have f: "findtype (q_type qu) = Some (q_typei qu) \<or> (findtype (q_type qu) = None \<and> q_typei qu = typeinfo_unknown)"
    by (simp add: q_typei_def split: option.split)
  have n: "findtype r_addr \<noteq> None"
    by (simp add: findtype_find typeinfos_def plain_type_def rrtypes bit_iff_odd)
  have o: "leaves snd ps (ti_parse typeinfo_unknown pai ps c m)"
    by (auto simp: typeinfo_unknown_def intro!: leaves_keeping dest: plain_parsers)
  show "leaves snd ps (ti_parse (q_typei qu) pai ps c m)" using f o findtype_parse(1) by metis
  show "q_type qu = r_addr \<Longrightarrow> ti_parse (q_typei qu) pai ps c m = keeping pa_addr pai ps c m"
    using f n findtype_parse(2) by metis
qed

lemma parsed_ok:
  assumes w: "consistent {q} {} a" and q: "a_query a q = Some qu" and u: "same_work qu u" "q_children u = q_children qu"
    and ps: "list_all child_ok (ps_children ps)" "q_parent qu \<noteq> None \<Longrightarrow> ps_children ps = []"
    and sys: "no_msgsize sys"
  shows "\<exists>b v. parsed sys now q u rrs ps a = Some b \<and> consistent {q} {} b \<and> a_query b q = Some v \<and> same_work qu v"
proof -
  let ?u = "u\<lparr>q_expires := ps_expires ps, q_ptr := ps_ptr ps, q_rrs := rrs\<rparr>"
  let ?a = "(put_query q ?u a)\<lparr>a_nextid := ps_nextid ps\<rparr>"
  have su: "same_work qu ?u" using u by (simp add: same_work_def)
  have w1: "consistent {q} {} ?a"
    using wf_work [OF w q su] u(2) by (intro consistent_nextid) simp
  have qa: "a_query ?a q = Some ?u" by simp
  show ?thesis
  proof (cases "q_parent qu")
    case None
    then have "q_parent ?u = None" using u(1) by (simp add: same_work_def)
    then obtain b ks where "submit_children sys now q (ps_children ps) ?a = Some b" "consistent {q} {} b"
      "a_query b q = Some (?u\<lparr>q_children := q_children ?u @ ks\<rparr>)"
      using submit_children_ok [OF w1 qa _ ps(1) sys, of now] by blast
    moreover have "same_work qu (?u\<lparr>q_children := q_children ?u @ ks\<rparr>)" using su by (simp add: same_work_def)
    ultimately show ?thesis by (simp add: parsed_def)
  next
    case (Some p)
    then have "ps_children ps = []" using ps(2) by simp
    then show ?thesis using w1 su by (simp add: parsed_def)
  qed
qed

lemma parse_answers_part:
  assumes "consistent {q} {} a" "a_query a q = Some qu" "no_msgsize sys"
    and "parse_answers sys now q d se wanted n cbyte a = Some (f, b)"
  shows "consistent {q} {} b \<and> (\<exists>v. a_query b q = Some v \<and> same_work qu v)"
  using assms
proof (induction n arbitrary: a qu cbyte)
  case (Suc n)
  note w = Suc.prems(1) and q = Suc.prems(2) and sys = Suc.prems(3)
  obtain r where r: "findrr d cbyte True (q_dgram qu) (q_cname qu) = Some (Inr (Some r))"
    using Suc.prems(4) q by (auto split: option.splits sum.splits)
  show ?case
  proof (cases "wanted_rr qu r")
    case False
    then show ?thesis using Suc.prems q r Suc.IH [OF w q sys] by simp
  next
    case True
    let ?u = "q_update_expires (rr_ttl r) now qu"
    let ?pai = "query_parseinfo sys d now se a ?u" and ?ps = "query_pstate a ?u"
    have room: "length (q_rrs qu) < wanted" using Suc.prems(4) q r True by (auto split: if_splits)
    have fam: "q_parent qu \<noteq> None \<Longrightarrow> q_type ?u = r_addr"
      using wf_E(5) [OF w _ q] by (auto simp: family_ok_def q_update_expires_def Let_def)
    have kids: "list_all child_ok (ps_children ps) \<and> (q_parent qu \<noteq> None \<longrightarrow> ps_children ps = [])"
      if "ti_parse (q_typei ?u) ?pai ?ps c m = Some (Inl (st, ps)) \<or>
          ti_parse (q_typei ?u) ?pai ?ps c m = Some (Inr (rr, ps))" for c m st rr ps
    proof
      have "grown ?ps ps" using q_typei_parse(1) [of ?ps ?u ?pai c m] that by (auto simp: leaves_def)
      then show "list_all child_ok (ps_children ps)" by (auto simp: grown_def query_pstate_def)
      show "q_parent qu \<noteq> None \<longrightarrow> ps_children ps = []"
      proof
        assume "q_parent qu \<noteq> None"
        then have "keeping pa_addr ?pai ?ps c m = Some (Inl (st, ps)) \<or> keeping pa_addr ?pai ?ps c m = Some (Inr (rr, ps))"
          using that q_typei_parse(2) [OF fam] by metis
        then have "ps = ?ps" by (auto simp: keeping_def pa_addr_def split: if_splits)
        then show "ps_children ps = []" by (simp add: query_pstate_def)
      qed
    qed
    have ok: "\<exists>b v. parsed sys now q ?u rrs ps a = Some b \<and> consistent {q} {} b \<and> a_query b q = Some v \<and> same_work qu v"
      if "list_all child_ok (ps_children ps) \<and> (q_parent qu \<noteq> None \<longrightarrow> ps_children ps = [])" for rrs ps
      using parsed_ok [OF w q, of ?u ps sys now rrs] that sys by auto
    show ?thesis
    proof (cases "ti_parse (q_typei ?u) ?pai ?ps (rr_rdstart r) (rr_rdstart r + rr_rdlen r)")
      case None
      then show ?thesis using Suc.prems(4) q r True room by (simp add: Let_def)
    next
      case (Some y)
      show ?thesis
      proof (cases y)
        case (Inl e)
        obtain st ps where e: "e = (st, ps)" by (cases e)
        then show ?thesis using Suc.prems(4) q r True room Some Inl ok [OF kids, of _ _ st ps undefined "q_rrs ?u"]
          by (auto simp: Let_def)
      next
        case (Inr x)
        obtain rr ps where x: "x = (rr, ps)" by (cases x)
        obtain c v where c: "parsed sys now q ?u (q_rrs ?u @ [rr]) ps a = Some c" "consistent {q} {} c"
          "a_query c q = Some v" "same_work qu v"
          using ok [OF kids] Some Inr x by blast
        have "parse_answers sys now q d se wanted n (rr_end r) c = Some (f, b)"
          using Suc.prems(4) q r True room Some Inr x c(1) by (simp add: Let_def)
        then show ?thesis using Suc.IH [OF c(2,3) sys] c(4) same_work_trans by blast
      qed
    qed
  qed
qed simp

subsection \<open>Sending again\<close>

text \<open>A query in no queue that may be given a datagram, and one that was taken out of its queue
  because a datagram answers it.\<close>

definition workable :: "nat \<Rightarrow> query \<Rightarrow> ads \<Rightarrow> bool" where
  "workable q u a \<longleftrightarrow>
     consistent {q} {} a \<and> a_query a q = Some u \<and> (q_state u = Tosend \<or> q_state u = Tcpw) \<and>
     q_children u = [] \<and> (q_state u = Tosend \<longrightarrow> \<not> qf_usevc (q_flags u) \<or> q_retries u = 0)"

definition answered :: "nat \<Rightarrow> query \<Rightarrow> ads \<Rightarrow> bool" where
  "answered q u a \<longleftrightarrow> workable q u a \<and> 0 \<le> q_id u"

lemma workable_D:
  assumes "workable q u a"
  shows "consistent {q} {} a" "a_query a q = Some u" "q_state u \<noteq> Done" "q_children u = []"
    "q_state u = Tosend \<Longrightarrow> \<not> qf_usevc (q_flags u) \<or> q_retries u = 0"
  using assms by (auto simp: workable_def)

lemma answered_D:
  assumes "answered q u a"
  shows "consistent {q} {} a" "a_query a q = Some u" "q_state u \<noteq> Done" "q_children u = []" "0 \<le> q_id u"
    "workable q u a"
  using assms by (auto simp: answered_def workable_def)

lemma workable_put:
  assumes w: "workable q u a" and v: "same_work u v" "q_children v = q_children u"
  shows "workable q v (put_query q v a)"
  using wf_work [OF workable_D(1,2) [OF w] v] w v by (simp add: workable_def same_work_def)

lemma answered_put:
  "answered q u a \<Longrightarrow> same_work u v \<Longrightarrow> q_children v = q_children u \<Longrightarrow> answered q v (put_query q v a)"
  using workable_put [of q u a v] by (simp add: answered_def same_work_def)

lemma query_submit_part:
  assumes w: "consistent {q} {} a" and q: "a_query a q = Some qu"
    and s: "q_children qu = []" "q_state qu = Tosend \<Longrightarrow> \<not> qf_usevc (q_flags qu) \<or> q_retries qu = 0" "length dgram \<le> DNS_MAXUDP"
    and sys: "no_msgsize sys" and now: "0 < fst now"
  shows "keeps (query_submit sys now q dgram ident a)"
proof -
  let ?u = "qu\<lparr>q_dgram := dgram, q_id := int ident\<rparr>"
  have l: "local_ok a ?u" using wf_E(4) [OF w _ q] by (simp add: local_ok_def)
  have w1: "consistent {q} {} (put_query q ?u a)"
    using wf_E(5) [OF w _ q] by (intro wf_put [OF w _ q l]) (auto simp: family_ok_def)
  have "keeps (query_send sys now q (put_query q ?u a))"
    by (rule query_send_part [OF w1 _ _ _ _ sys now, of ?u]) (use s in \<open>auto simp: for_udp_def\<close>)
  then show ?thesis using q by (simp add: query_submit_def change_query_def)
qed

lemma search_next_part:
  assumes "workable q qu a" and sys: "no_msgsize sys" and now: "0 < fst now"
  shows "keeps (search_next sys now q a)"
  using assms(1)
proof (induction "names_left (a_searchlist a) qu" arbitrary: a qu rule: less_induct)
  case less
  note D = workable_D [OF less.prems]
  have l: "local_ok a qu" using wf_E(4) [OF D(1) _ D(2)] by simp
  have f: "q_parent qu \<noteq> None \<Longrightarrow> \<not> qf_search (q_flags qu) \<and> \<not> qf_owner (q_flags qu)"
    using wf_E(5) [OF D(1) _ D(2)] by (auto simp: family_ok_def)
  show ?case
  proof (cases "search_entry (a_searchlist a) qu")
    case None
    let ?u = "qu\<lparr>q_search := take (q_origlen qu) (q_search qu)\<rparr>"
    have "workable q ?u (put_query q ?u a)" by (rule workable_put [OF less.prems]) (simp_all add: same_work_def)
    then have "keeps (query_fail sys q s_nxdomain (put_query q ?u a))"
      using query_fail_part workable_D(1-3) by metis
    then show ?thesis using None D(2) by (subst search_next.simps) simp
  next
    case (Some r)
    then obtain entry qu1 where e: "search_entry (a_searchlist a) qu = Some (entry, qu1)" by (cases r) auto
    note left = search_entry_left [OF e]
    let ?u = "qu1\<lparr>q_search := search_name qu entry, q_dgram := []\<rparr>"
    let ?a = "take_id (put_query q ?u a)"
    have lu: "local_ok a ?u" using l left(4) by (subst left(3)) (simp add: local_ok_def)
    have same: "q_state ?u = q_state qu" "q_children ?u = q_children qu" "q_flags ?u = q_flags qu"
      "q_retries ?u = q_retries qu" "q_kind ?u = q_kind qu" "q_parent ?u = q_parent qu" "q_type ?u = q_type qu"
      by (subst left(3), simp)+
    have w1: "consistent {q} {} ?a"
      using f same by (simp del: query.update_convs) (intro wf_put [OF D(1) _ D(2) lu], simp_all add: f)
    have qa: "a_query ?a q = Some ?u" by simp
    have an: "workable q ?u ?a" using less.prems same w1 by (simp add: workable_def)
    show ?thesis
    proof (cases "make_datagram (a_nextid a) ?u (q_search ?u)")
      case (Inl st)
      have "keeps (query_fail sys q st ?a)"
        using query_fail_part [OF w1 qa] D(3) same(1) by simp
      moreover have "keeps (search_next sys now q ?a)"
        using less.hyps [OF _ an] left(2) by (simp add: names_left_def)
      ultimately show ?thesis using e Inl D(2) by (subst search_next.simps) (simp add: Let_def)
    next
      case (Inr dgram)
      have "keeps (query_submit sys now q dgram (next_id (a_nextid a)) ?a)"
        using workable_D(4,5) [OF an] by (intro query_submit_part [OF w1 qa _ _ make_datagram_length [OF Inr] sys now])
      then show ?thesis using e Inr D(2) by (subst search_next.simps) (simp add: Let_def)
    qed
  qed
qed

lemma reset_preserved_leaf:
  "a_query a q = Some u \<Longrightarrow> q_children u = [] \<Longrightarrow> q_state u \<noteq> Done \<Longrightarrow>
   reset_preserved q a = Some (put_query q (u\<lparr>q_rrs := []\<rparr>) a)"
  by (simp add: reset_preserved_def final_allocspace_def cancel_children_leaf change_query_def)

lemma restart_query_part:
  assumes w: "consistent {q} {} a" and q: "a_query a q = Some qu"
    and s: "q_state qu = Tosend \<or> q_state qu = Tcpw" "q_children qu = []" "0 \<le> q_id qu"
    and sys: "no_msgsize sys" and now: "0 < fst now"
  shows "keeps (restart_query sys now q a)"
proof -
  have go: "keeps (do {
      a2 \<leftarrow> change_query q (\<lambda>u. u\<lparr>q_state := (if q_state u = Tcpw then Tosend else q_state u), q_retries := 0\<rparr>) c;
      a3 \<leftarrow> reset_preserved q a2;
      query_send sys now q a3 })"
    if c: "consistent {q} {} c" and v: "a_query c q = Some v" "q_state v = Tosend \<or> q_state v = Tcpw"
      "q_children v = []" "0 \<le> q_id v" for c v
  proof -
    let ?v = "v\<lparr>q_state := Tosend, q_retries := 0, q_rrs := []\<rparr>"
    have l: "local_ok c ?v" using wf_E(4) [OF c _ v(1)] v(2) by (auto simp: local_ok_def)
    have w1: "consistent {q} {} (put_query q ?v c)"
      using wf_E(5) [OF c _ v(1)] by (intro wf_put [OF c _ v(1) l]) (auto simp: family_ok_def)
    have "keeps (query_send sys now q (put_query q ?v c))"
      by (rule query_send_part [OF w1 _ _ _ _ sys now, of ?v]) (use v in simp_all)
    moreover have "(if q_state v = Tcpw then Tosend else q_state v) = Tosend" using v by auto
    ultimately show ?thesis using v by (simp add: change_query_def reset_preserved_leaf put_put)
  qed
  show ?thesis
  proof (cases "q_cname qu")
    case None
    then show ?thesis using go [OF w q s] q by (simp add: restart_query_def)
  next
    case (Some x)
    obtain cd cb where x: "x = (cd, cb)" by (cases x)
    show ?thesis
    proof (cases "mkquery_frdgram (s_avail sys (a_calls a) (a_nextid a)) (a_nextid a) cd cb (q_type qu)")
      case None
      then show ?thesis using q Some x by (simp add: restart_query_def)
    next
      case d: (Some dgram)
      let ?u = "qu\<lparr>q_dgram := dgram, q_id := int (next_id (a_nextid a))\<rparr>"
      have l: "local_ok a ?u" using wf_E(4) [OF w _ q] by (simp add: local_ok_def)
      have "consistent {q} {} (put_query q ?u a)"
        using wf_E(5) [OF w _ q] by (intro wf_put [OF w _ q l]) (auto simp: family_ok_def)
      then have "consistent {q} {} (take_id (put_query q ?u a))" by simp
      from go [OF this, of ?u] show ?thesis using q s Some x d by (simp add: restart_query_def)
    qed
  qed
qed

subsection \<open>Replies\<close>

lemma answer_scan_work:
  "answer_scan n d now c m h qu = Some (r, v) \<Longrightarrow> same_work qu v \<and> q_children v = q_children qu"
proof (induction n d now c m h qu rule: answer_scan.induct)
  case (2 n d now c m h qu)
  have tk: "same_work qu u \<and> q_children u = q_children qu" if "take_cname d now x qu = Some (y, u)" for x y u
  proof -
    have "same_work qu (q_update_expires t now (qu\<lparr>q_cname := e, q_cnametext := f\<rparr>))" for t e f
      by (rule same_work_trans [OF _ q_update_expires_work(1)]) (simp add: same_work_def)
    then show ?thesis using that by (auto simp: take_cname_def Let_def split: option.splits sum.splits if_splits)
  qed
  obtain e where e: "findrr d c True (q_dgram qu) (q_cname qu) = Some e"
    using "2.prems" by (auto split: option.splits)
  show ?case
  proof (cases e)
    case (Inl st)
    then show ?thesis using "2.prems" e by simp
  next
    case (Inr y)
    show ?thesis
    proof (cases y)
      case None
      then show ?thesis using "2.prems" e Inr by simp
    next
      case (Some x)
      note run = "2.prems" [unfolded answer_scan.simps e Inr Some sum.case option.case]
      note ih = "2.IH" [OF e Inr Some]
      consider (c) "cname_rr qu x" "\<not> qf_cname_forbid (q_flags qu)" "q_cname qu = None"
        | (n) "\<not> cname_rr qu x" | (o) "cname_rr qu x" "qf_cname_forbid (q_flags qu) \<or> q_cname qu \<noteq> None"
        by blast
      then show ?thesis
      proof cases
        case o
        then show ?thesis using run by (auto split: if_splits)
      next
        case n
        then show ?thesis using run ih by (simp split: if_split_asm)
      next
        case c
        show ?thesis
        proof (cases "m = 0")
          case False
          then show ?thesis using run c ih(1) by (auto split: bind_splits)
        next
          case True
          obtain y u where y: "take_cname d now x qu = Some (y, u)"
            using run c True by (auto split: option.splits)
          show ?thesis
          proof (cases y)
            case (Scan_ok z)
            have "answer_scan n d now (rr_end x) m True u = Some (r, v)" using run c True y Scan_ok
              by (simp split: unit.splits)
            then show ?thesis using ih(2) c True y Scan_ok tk [OF y] same_work_trans by force
          qed (use run c True y tk [OF y] in simp_all)
        qed
      qed
    qed
  qed
qed simp

lemma reply_truncated_part:
  assumes w: "answered q u a" and sys: "no_msgsize sys" and now: "0 < fst now"
  shows "keeps (reply_truncated sys now q tc a)"
proof (cases tc)
  case False
  then show ?thesis using query_fail_part [OF answered_D(1-3) [OF w]] by (simp add: reply_truncated_def)
next
  case True
  note D = answered_D [OF w]
  let ?u = "u\<lparr>q_flags := (q_flags u)\<lparr>qf_usevc := True\<rparr>\<rparr>"
  have l: "local_ok a ?u" using wf_E(4) [OF D(1) _ D(2)] by (simp add: local_ok_def)
  have w1: "consistent {q} {} (put_query q ?u a)"
    using wf_E(5) [OF D(1) _ D(2)] by (intro wf_put [OF D(1) _ D(2) l]) (auto simp: family_ok_def)
  have "keeps (restart_query sys now q (put_query q ?u a))"
    by (rule restart_query_part [OF w1 _ _ _ _ sys now, of ?u]) (use w in \<open>simp_all add: answered_def workable_def\<close>)
  then show ?thesis using True D(2) by (simp add: reply_truncated_def change_query_def)
qed

lemma reply_nothing_part:
  assumes w: "answered q u a" and sys: "no_msgsize sys" and now: "0 < fst now"
  shows "keeps (reply_nothing sys now q d nx tc ra nscount nsstart here a)"
proof -
  note fail = query_fail_part [OF answered_D(1-3) [OF w]]
  have w1: "answered q (q_update_expires t now u) (put_query q (q_update_expires t now u) a)" for t
    by (rule answered_put [OF w]) simp_all
  note fail1 = query_fail_part [OF answered_D(1-3) [OF w1]] and next1 = search_next_part [OF answered_D(6) [OF w1] sys now]
  have restart: "keeps (restart_query sys now q a)"
    by (rule restart_query_part [OF answered_D(1,2) [OF w] _ answered_D(4,5) [OF w] sys now]) (use w in \<open>simp add: answered_def workable_def\<close>)
  show ?thesis
  proof (cases "auth_scan nscount d nsstart False")
    case (Some r)
    then show ?thesis
      using fail fail1 next1 restart reply_truncated_part [OF w sys now] answered_D(2) [OF w]
      by (cases r) (simp_all add: reply_nothing_def change_query_def Let_def split: prod.splits)
  qed (simp add: reply_nothing_def)
qed

lemma reply_records_part:
  assumes w: "answered q u a" and sys: "no_msgsize sys"
  shows "keeps (reply_records sys now q d se wanted n cbyte a)"
proof -
  have "keeps (case f of Some st \<Rightarrow> query_fail sys q st b
      | None \<Rightarrow> do {
          qu \<leftarrow> a_query b q;
          if length (q_rrs qu) \<noteq> wanted then None
          else if q_children qu \<noteq> [] then
            change_query q (\<lambda>u. u\<lparr>q_state := Childw\<rparr>) (link_state Childw q b)
          else query_done sys q b })"
    if run: "parse_answers sys now q d se wanted n cbyte a = Some (f, b)" for f b
  proof -
    obtain v where v: "consistent {q} {} b" "a_query b q = Some v" "same_work u v"
      using parse_answers_part [OF answered_D(1,2) [OF w] sys run] by blast
    have sd: "q_state v \<noteq> Done" "0 \<le> q_id v" using v(3) answered_D(3,5) [OF w] by (simp_all add: same_work_def)
    let ?v = "v\<lparr>q_state := Childw\<rparr>"
    have l: "local_ok b ?v" using wf_E(4) [OF v(1) _ v(2)] sd by (simp add: local_ok_def)
    have w1: "consistent {q} {} (put_query q ?v b)"
      using wf_E(5) [OF v(1) _ v(2)] by (intro wf_put [OF v(1) _ v(2) l]) (auto simp: family_ok_def)
    have "consistent ({q} - {q}) {} (link_state Childw q (put_query q ?v b))" if "q_children v \<noteq> []"
      by (rule wf_link [OF w1, of q ?v]) (use that sd in simp_all)
    then have link: "consistent {} {} (put_query q ?v (link_state Childw q b))" if "q_children v \<noteq> []"
      using that by (simp add: link_put)
    have qb: "a_query (link_state Childw q b) q = Some v" using v(2) by (simp add: link_state_def)
    show ?thesis
      using query_fail_part [OF v(1,2) sd(1)] query_done_part [OF v(1,2) sd(1)] link v(2) qb
      by (cases f) (simp_all add: change_query_def)
  qed
  then show ?thesis unfolding reply_records_def by (intro keeps_bind) auto
qed

lemma reply_rcode_part:
  assumes w: "answered q u a" and sys: "no_msgsize sys" and now: "0 < fst now"
  shows "keeps (reply_rcode sys now q d a)"
proof -
  have ans: "keeps (reply_answer sys now q d nx a)" for nx
  proof (cases "answer_scan (get_w d 6) d now (length (q_dgram u)) 0 False u")
    case None
    then show ?thesis using answered_D(2) [OF w] by (simp add: reply_answer_def Let_def)
  next
    case (Some x)
    obtain r v where x: "x = (r, v)" by (cases x)
    have w1: "answered q v (put_query q v a)"
      using answer_scan_work [OF Some [unfolded x]] by (intro answered_put [OF w]) simp_all
    note parts = query_fail_part [OF answered_D(1-3) [OF w1]] reply_truncated_part [OF w1 sys now]
      reply_nothing_part [OF w1 sys now] reply_records_part [OF w1 sys]
    show ?thesis
    proof (cases r)
      case (Scan_ok y)
      then show ?thesis using Some x parts answered_D(2) [OF w]
        by (cases y) (simp add: reply_answer_def Let_def)
    qed (use Some x parts answered_D(2) [OF w] in \<open>simp_all add: reply_answer_def Let_def\<close>)
  qed
  then show ?thesis
    using query_fail_part [OF answered_D(1-3) [OF w]] by (simp add: reply_rcode_def Let_def)
qed

lemma procdgram_part:
  assumes w: "consistent {} {} a" and sys: "no_msgsize sys" and now: "0 < fst now"
  shows "keeps (procdgram sys d serv viatcp now a)"
proof -
  let ?s = "if viatcp then Tcpw else Tosend"
  have "keeps (do { a1 \<leftarrow> unlink_state ?s q a; reply_rcode sys now q d a1 })"
    if m: "find_query viatcp serv d a (if viatcp then a_tcpw a else a_udpw a) = Some (Some q)" for q
  proof -
    obtain qu where qu: "q \<in> set (the_queue ?s a)" "a_query a q = Some qu"
      using find_query_match [OF m] by (cases viatcp) auto
    note o = wf_E(3) [OF w qu]
    have "answered q qu (set_queue ?s (remove1 q (the_queue ?s a)) a)"
      using wf_unlink(2) [OF w qu(1)] qu(2) o by (cases viatcp) (simp_all add: answered_def workable_def)
    then show ?thesis using wf_unlink(1) [OF w qu(1)] reply_rcode_part [OF _ sys now] by simp
  qed
  then show ?thesis
    using w unfolding procdgram_def
    by (cases "is_reply d") (auto intro!: keeps_bind split: option.split)
qed

subsection \<open>Timeouts\<close>

lemma unlink_state_in: "unlink_state s q a = Some b \<Longrightarrow> q \<in> set (the_queue s a)"
  by (auto simp: unlink_state_def unlink_def split: if_splits)

lemma timeouts_queue_part:
  assumes sys: "no_msgsize sys" and now: "0 < fst now" and s: "s = Tosend \<or> s = Tcpw"
    and w: "consistent {} {} a" and run: "timeouts_queue sys now s qs a = Some b"
  shows "consistent {} {} b"
proof -
  let ?P = "\<lambda>sys now s qs a b. no_msgsize sys \<longrightarrow> 0 < fst now \<longrightarrow> s = Tosend \<or> s = Tcpw \<longrightarrow>
    consistent {} {} a \<longrightarrow> consistent {} {} b"
  have "?P sys now s qs a b"
    using run
  proof (rule timeouts_queue.raw_induct [where P = ?P, rotated], goal_cases)
    case (1 self sys now s qs a b)
    show ?case
    proof (intro impI)
      assume h: "no_msgsize sys" "0 < fst now" "s = Tosend \<or> s = Tcpw" and w: "consistent {} {} a"
      show "consistent {} {} b"
      proof (cases qs)
        case Nil
        then show ?thesis using 1(2) w by simp
      next
        case (Cons q rest)
        then obtain qu where qu: "a_query a q = Some qu" using 1(2) by (auto split: bind_splits)
        show ?thesis
        proof (cases "timer_gt now (q_timeout qu)")
          case False
          then show ?thesis using 1(1) [of sys now s rest a b] 1(2) Cons qu h w by simp
        next
          case True
          obtain a1 a2 where a1: "unlink_state s q a = Some a1" and
            a2: "(if q_state qu \<noteq> Tosend then query_fail sys q s_timeout a1 else query_send sys now q a1) = Some a2" and
            go: "self sys now s (the_queue s a2) a2 = Some b"
            using 1(2) Cons qu True by (auto split: bind_splits)
          have q: "q \<in> set (the_queue s a)" using unlink_state_in [OF a1] .
          have w1: "consistent {q} {} a1" "a_query a1 q = Some qu" using wf_unlink [OF w q] a1 qu by auto
          have o: "queue_ok a s qu" using wf_E(3) [OF w q qu] .
          have "consistent {} {} a2"
          proof (cases "q_state qu = Tosend")
            case True
            then have "for_udp qu \<and> q_children qu = [] \<and> 0 \<le> q_id qu" using o h(3) by (auto simp: for_udp_def)
            then have "keeps (query_send sys now q a1)" using query_send_part [OF w1 _ _ _ h(1,2)] by blast
            then show ?thesis using a2 True keeps_D by simp
          next
            case False
            then have "q_state qu \<noteq> Done" using o h(3) by auto
            then show ?thesis using keeps_D [OF query_fail_part [OF w1]] a2 False by simp
          qed
          then show ?thesis using 1(1) [OF go] h by blast
        qed
      qed
    qed
  qed
  then show ?thesis using sys now s w by blast
qed

text \<open>A change of the connection while nothing waits for it, or that leaves its state.\<close>

lemma consistent_tcp:
  assumes w: "consistent {} {} a"
    and same: "a_query b = a_query a" "\<And>s. the_queue s b = the_queue s a" "a_fresh b = a_fresh a"
      "a_servers b = a_servers a" "a_searchlist b = a_searchlist a"
    and g: "global_ok b" and t: "a_tcpstate b = a_tcpstate a \<or> a_tcpw a = []"
  shows "consistent {} {} b"
  using wf_retries [OF w] t by (intro consistent_change [OF w same g]) auto

lemma start_idle_part:
  assumes w: "consistent {} {} a" and run: "start_idle now a = Some b" and now: "0 < fst now"
  shows "consistent {} {} b" "a_tcpstate b = a_tcpstate a" "a_tcpw b = a_tcpw a"
proof -
  have b: "b = a \<or> b = a\<lparr>a_tcptimeout := timevaladd now TCPIDLEMS\<rparr>"
    using run by (auto simp: start_idle_def split: if_splits)
  have "global_ok b" using b wf_E(1) [OF w] timevaladd_pos [OF now] by (auto simp: global_ok_def)
  then show "consistent {} {} b" using b by (intro consistent_tcp [OF w]) auto
qed (use run in \<open>auto simp: start_idle_def split: if_splits\<close>)

lemma tcp_events_part:
  assumes now: "0 < fst now" and w: "consistent {} {} a" and run: "tcp_events sys now a = Some b"
  shows "consistent {} {} b"
proof -
  let ?P = "\<lambda>sys now a b. 0 < fst now \<longrightarrow> consistent {} {} a \<longrightarrow> consistent {} {} b"
  have "?P sys now a b"
    using run
  proof (rule tcp_events.raw_induct [where P = ?P, rotated], goal_cases)
    case (1 self sys now a b)
    show ?case
    proof (intro impI)
      assume now: "0 < fst now" and w: "consistent {} {} a"
      note ih = 1(1) [rule_format, OF _ now]
      show "consistent {} {} b"
      proof (cases "a_tcpstate a = Broken \<or> a_tcpstate a = Disconnected")
        case True
        obtain a1 where a1: "(if a_tcpstate a = Broken then tcp_broken_events sys a else Some a) = Some a1"
          "(if a_tcpw a1 = [] then Some a1 else do { a2 \<leftarrow> tcp_tryconnect sys now a1; self sys now a2 }) = Some b"
          using 1(2) True by (auto split: bind_splits)
        have w1: "consistent {} {} a1" using a1(1) w tcp_broken_events_part(1) [OF w] by (cases "a_tcpstate a = Broken") auto
        show ?thesis
        proof (cases "a_tcpw a1 = []")
          case True
          then show ?thesis using a1(2) w1 by simp
        next
          case False
          then obtain a2 where "tcp_tries sys now (nservers a1) a1 = Some a2" "self sys now a2 = Some b"
            using a1(2) by (auto simp: tcp_tryconnect_def split: bind_splits)
          then show ?thesis using ih keeps_D [OF tcp_tries_part [OF w1 now]] by blast
        qed
      next
        case False
        show ?thesis
        proof (cases "a_tcpstate a = Server_ok \<and> a_tcpw a \<noteq> []")
          case True
          then show ?thesis using 1(2) w by simp
        next
          case go: False
          obtain a1 where a1: "(if a_tcpstate a = Server_ok then start_idle now a else Some a) = Some a1"
            "(if \<not> timer_gt now (a_tcptimeout a1) then Some a1
              else if a_tcpstate a1 = Connecting then do { a2 \<leftarrow> tcp_broken a1; self sys now a2 }
              else Some ((tcp_close a1)\<lparr>a_tcpstate := Disconnected\<rparr>)) = Some b"
            using 1(2) False go by (auto split: bind_splits)
          have w1: "consistent {} {} a1 \<and> a_tcpstate a1 = a_tcpstate a \<and> a_tcpw a1 = a_tcpw a"
            using a1(1) w start_idle_part [OF w _ now] by (cases "a_tcpstate a = Server_ok") auto
          have closed: "consistent {} {} ((tcp_close a1)\<lparr>a_tcpstate := Disconnected\<rparr>)" if "a_tcpstate a1 \<noteq> Connecting"
          proof -
            have "a_tcpw a1 = []" using that w1 go False by (cases "a_tcpstate a") auto
            moreover have "global_ok ((tcp_close a1)\<lparr>a_tcpstate := Disconnected\<rparr>)"
              using wf_E(1) [of "{}" "{}" a1] w1 by (simp add: global_ok_def tcp_close_def)
            ultimately show ?thesis using w1 by - (rule consistent_tcp [where a = a1], simp_all add: tcp_close_def)
          qed
          have "consistent {} {} b" if "tcp_broken a1 = Some a2" "self sys now a2 = Some b" "a_tcpstate a1 = Connecting" for a2
            using tcp_broken_ok [of "{}" "{}" a1] w1 that ih by auto
          then show ?thesis using a1(2) w1 closed
            by (cases "timer_gt now (a_tcptimeout a1)"; cases "a_tcpstate a1 = Connecting"; cases "tcp_broken a1") simp_all
        qed
      qed
    qed
  qed
  then show ?thesis using now w by blast
qed

lemma adns_processtimeouts_part:
  assumes "consistent {} {} a" "no_msgsize sys" "0 < fst now"
  shows "keeps (adns_processtimeouts sys now a)"
  unfolding adns_processtimeouts_def
proof (intro keeps_bind)
  fix a1 a2 assume r: "timeouts_queue sys now Tosend (a_udpw a) a = Some a1"
    "timeouts_queue sys now Tcpw (a_tcpw a1) a1 = Some a2"
  have "consistent {} {} a1" using timeouts_queue_part [OF assms(2,3) _ assms(1) r(1)] by simp
  then have "consistent {} {} a2" using timeouts_queue_part [OF assms(2,3) _ _ r(2)] by simp
  then show "keeps (tcp_events sys now a2)" using tcp_events_part [OF assms(3)] by (auto simp: keeps_def)
qed

subsection \<open>Sockets\<close>

text \<open>The handlers also give a result.\<close>

definition keeps_io :: "(io_result \<times> ads) option \<Rightarrow> bool" where
  "keeps_io r \<longleftrightarrow> (\<forall>x b. r = Some (x, b) \<longrightarrow> consistent {} {} b)"

lemma keeps_io_simps [simp]:
  "keeps_io None" "keeps_io (Some (x, b)) \<longleftrightarrow> consistent {} {} b" "keeps_io (map_option (Pair x) r) = keeps r"
  by (auto simp: keeps_io_def keeps_def)

lemma keeps_io_bind: "(\<And>x. m = Some x \<Longrightarrow> keeps_io (f x)) \<Longrightarrow> keeps_io (m \<bind> f)"
  by (cases m) simp_all

lemma tcp_broken_part: "consistent {} {} a \<Longrightarrow> keeps (tcp_broken a)"
  using tcp_broken_ok [of "{}" "{}" a] by (cases "a_tcpstate a") (auto simp: keeps_def tcp_broken_def)

lemma tcp_connected_part: "consistent {} {} a \<Longrightarrow> a_tcpstate a = Connecting \<Longrightarrow> keeps (tcp_connected sys a)"
  using tcp_connected_ok [of "{}" "{}" a sys] by auto

lemma tcp_compact_part:
  assumes w: "consistent {} {} a" shows "consistent {} {} (tcp_compact a)"
proof -
  have "global_ok (tcp_compact a)" using wf_E(1) [OF w] by (auto simp: global_ok_def tcp_compact_def)
  then show ?thesis by (intro consistent_tcp [OF w]) (simp_all add: tcp_compact_def the_queue_def split: qstate.split)
qed

lemma tcp_readable_part:
  assumes sys: "no_msgsize sys" and now: "0 < fst now" and w: "consistent {} {} a"
  shows "keeps_io (tcp_readable sys now ios a)"
proof -
  let ?P = "\<lambda>sys now ios a r. no_msgsize sys \<longrightarrow> 0 < fst now \<longrightarrow> consistent {} {} a \<longrightarrow> consistent {} {} (snd r)"
  have "?P sys now ios a r" if "tcp_readable sys now ios a = Some r" for r
    using that
  proof (rule tcp_readable.raw_induct [where P = ?P, rotated], goal_cases)
    case (1 self sys now ios a r)
    show ?case
    proof (intro impI)
      assume h: "no_msgsize sys" "0 < fst now" and w: "consistent {} {} a"
      have ih: "consistent {} {} (snd r)" if "self sys now js c = Some r" "consistent {} {} c" for js c
        using 1(1) [OF that(1)] that(2) h by blast
      show "consistent {} {} (snd r)"
      proof (cases "a_tcpstate a = Server_ok")
        case False
        then show ?thesis using 1(2) w by auto
      next
        case ok: True
        show ?thesis
        proof (cases "tcp_frame a")
          case (Some d)
          let ?a = "a\<lparr>a_tcpskip := a_tcpskip a + 2 + length d\<rparr>"
          have "length d + 2 + a_tcpskip a \<le> length (a_tcprecv a)"
            using Some by (auto simp: tcp_frame_def Let_def split: if_splits)
          then have "global_ok ?a" using wf_E(1) [OF w] ok by (simp add: global_ok_def)
          then have wa: "consistent {} {} ?a" by (intro consistent_tcp [OF w]) simp_all
          obtain a1 where a1: "procdgram sys d (a_tcpserver a) True now ?a = Some a1" "self sys now ios a1 = Some r"
            using 1(2) ok Some by (auto split: bind_splits)
          then show ?thesis using ih keeps_D [OF procdgram_part [OF wa h]] by blast
        next
          case None
          let ?a1 = "tcp_compact a"
          let ?room = "a_tcpavail ?a1 - length (a_tcprecv ?a1)"
          have w1: "consistent {} {} ?a1" using tcp_compact_part [OF w] .
          have s1: "a_tcpstate ?a1 = Server_ok" using ok by (simp add: tcp_compact_def)
          have rd: "consistent {} {} (?a1\<lparr>a_tcprecv := a_tcprecv ?a1 @ s\<rparr>)" for s
          proof -
            have "global_ok (?a1\<lparr>a_tcprecv := a_tcprecv ?a1 @ s\<rparr>)"
              using wf_E(1) [OF w1] s1 by (simp add: global_ok_def)
            then show ?thesis by (intro consistent_tcp [OF w1]) simp_all
          qed
          have br: "consistent {} {} (snd r)" if "do { a2 \<leftarrow> tcp_broken ?a1; self sys now js a2 } = Some r" for js
            using that ih keeps_D [OF tcp_broken_part [OF w1]] by (auto split: bind_splits)
          show ?thesis
          proof (cases "?room = 0")
            case True
            then show ?thesis using 1(2) ok None ih [OF _ w1] by (simp add: Let_def)
          next
            case room: False
            show ?thesis
            proof (cases ios)
              case Nil
              then show ?thesis using 1(2) ok None room w1 by (auto simp: Let_def)
            next
              case (Cons i js)
              then show ?thesis
                using 1(2) ok None room w1 br [of js] ih [OF _ w1, of js] ih [OF _ rd]
                by (cases i) (auto simp: Let_def split: if_splits)
            qed
          qed
        qed
      qed
    qed
  qed
  then show ?thesis using sys now w by (fastforce simp: keeps_io_def)
qed

lemma udp_readable_part:
  assumes sys: "no_msgsize sys" and now: "0 < fst now"
  shows "consistent {} {} a \<Longrightarrow> keeps_io (udp_readable sys now us a)"
proof (induction us arbitrary: a)
  case (Cons u us)
  have "keeps_io (do { a1 \<leftarrow> procdgram sys d serv False now a; udp_readable sys now us a1 })" for d serv
    using Cons.IH keeps_D [OF procdgram_part [OF Cons.prems sys now]] by (intro keeps_io_bind) blast
  then show ?case using Cons by (cases u) (simp_all split: option.split)
qed simp

lemma tcp_connect_poll_part:
  "consistent {} {} a \<Longrightarrow> a_tcpstate a = Connecting \<Longrightarrow> keeps_io (tcp_connect_poll sys ios a)"
proof (induction ios)
  case (Cons i ios)
  then show ?case by (cases i) (simp_all add: tcp_connected_part tcp_broken_part)
qed (simp add: tcp_connected_part)

lemma tcp_flush_part:
  "consistent {} {} a \<Longrightarrow> a_tcpstate a = Server_ok \<Longrightarrow> keeps_io (tcp_flush ws a)"
proof (induction ws arbitrary: a)
  case (Cons x ws)
  let ?b = "\<lambda>n. a\<lparr>a_tcpsend := drop n (a_tcpsend a), a_wire := a_wire a @ take n (a_tcpsend a)\<rparr>"
  have "consistent {} {} (?b n)" for n
  proof -
    have "global_ok (?b n)" using wf_E(1) [OF Cons.prems(1)] Cons.prems(2) by (simp add: global_ok_def)
    then show ?thesis by (intro consistent_tcp [OF Cons.prems(1)]) simp_all
  qed
  then show ?case using Cons by (cases x) (simp_all add: tcp_broken_part)
qed simp

lemma processreadable_part:
  assumes "no_msgsize sys" "0 < fst now" "consistent {} {} a"
  shows "keeps_io (adns_processreadable sys now fd ios us a)"
  using tcp_readable_part [OF assms] udp_readable_part [OF assms] assms(3) by (simp add: adns_processreadable_def)

lemma processwriteable_part:
  assumes w: "consistent {} {} a" shows "keeps_io (adns_processwriteable sys fd ios ws a)"
proof -
  have "consistent {} {} (a\<lparr>a_tcpavail := n\<rparr>)" for n
  proof -
    have "global_ok (a\<lparr>a_tcpavail := n\<rparr>)" using wf_E(1) [OF w] by (simp add: global_ok_def)
    then show ?thesis by (intro consistent_tcp [OF w]) simp_all
  qed
  then show ?thesis using tcp_connect_poll_part tcp_flush_part w by (simp add: adns_processwriteable_def)
qed

lemma processexceptional_part: "consistent {} {} a \<Longrightarrow> keeps_io (adns_processexceptional fd a)"
  by (simp add: adns_processexceptional_def tcp_broken_part)

lemma fd_event_part:
  "consistent {} {} a \<Longrightarrow> (\<And>c. consistent {} {} c \<Longrightarrow> keeps_io (h c)) \<Longrightarrow> keeps (fd_event sys True ready h a)"
  by (cases "h a") (auto simp: fd_event_def keeps_io_def)

lemma fdevents_part:
  assumes "no_msgsize sys" "0 < fst now"
  shows "consistent {} {} a \<Longrightarrow> keeps (fdevents sys now True inp ps a)"
proof (induction ps arbitrary: a)
  case (Cons p ps)
  have h: "keeps (fd_event sys True r (adns_processreadable sys now f x y) c)"
    "keeps (fd_event sys True r (adns_processwriteable sys f x z) c)"
    "keeps (fd_event sys True r (adns_processexceptional f) c)" if "consistent {} {} c" for r f x y z c
    using that by (auto intro!: fd_event_part processreadable_part processwriteable_part processexceptional_part assms)
  show ?case
    unfolding fdevents.simps
    using Cons.IH keeps_D [OF h(1) [OF Cons.prems]] keeps_D [OF h(2)] keeps_D [OF h(3)]
    by (intro keeps_bind) blast
qed simp

lemma adns_processany_part:
  assumes "consistent {} {} a" "no_msgsize sys" "0 < fst now"
  shows "keeps (adns_processany sys now inp a)"
  unfolding adns_processany_def
  using fdevents_part [OF assms(2,3)] keeps_D [OF adns_processtimeouts_part [OF assms]] by (intro keeps_bind) blast

subsection \<open>Submitting\<close>

lemma query_simple_part:
  assumes w: "workable q u a" and sys: "no_msgsize sys" and now: "0 < fst now"
  shows "keeps (query_simple sys now q owner a)"
proof -
  have w1: "workable q u (take_id a)" using w by (simp add: workable_def)
  show ?thesis
  proof (cases "make_datagram (a_nextid a) u owner")
    case (Inl st)
    then show ?thesis
      using workable_D(2) [OF w] query_fail_part [OF workable_D(1-3) [OF w1]] search_next_part [OF w1 sys now]
      by (simp add: query_simple_def)
  next
    case (Inr dgram)
    then show ?thesis
      using workable_D(2) [OF w] query_submit_part [OF workable_D(1,2,4,5) [OF w1] make_datagram_length [OF Inr] sys now]
      by (simp add: query_simple_def)
  qed
qed

text \<open>A query that was just allocated.\<close>

lemma submit_query_part:
  assumes w: "workable q u a" and u: "q_retries u = 0" "q_parent u = None" "q_owner u = None"
    and sys: "no_msgsize sys" and now: "0 < fst now"
  shows "keeps (submit_query sys now q owner flags a)"
proof (cases "owner = [] \<or> length owner > DNS_MAXDOMAIN + 1")
  case True
  then show ?thesis using query_fail_part [OF workable_D(1-3) [OF w]] by (auto simp: submit_query_def)
next
  case False
  define flags1 where "flags1 = (if absolute_dot owner then flags\<lparr>qf_search := False\<rparr> else flags)"
  define name where "name = (if absolute_dot owner then butlast owner else owner)"
  note D = workable_D [OF w]
  have l: "local_ok a u" using wf_E(4) [OF D(1) _ D(2)] by simp
  have put: "workable q v (put_query q v a)"
    if "local_ok a v" "q_children v = q_children u" "q_parent v = q_parent u" "q_kind v = q_kind u"
      "q_type v = q_type u" "q_state v = q_state u" "q_retries v = 0" for v
    using wf_put [OF D(1) _ D(2) that(1)] that u w by (simp add: workable_def)
  show ?thesis
  proof (cases "qf_search flags1")
    case True
    let ?v = "u\<lparr>q_flags := flags1, q_search := name, q_origlen := length name,
      q_doneabs := (if count_dots owner \<ge> a_searchndots a then - 1 else 0)\<rparr>"
    have "local_ok a ?v" using l u by (simp add: local_ok_def)
    then have "keeps (search_next sys now q (put_query q ?v a))"
      using u by (intro search_next_part [OF put sys now]) simp_all
    then show ?thesis
      using False True D(2) unfolding submit_query_def flags1_def [symmetric] name_def [symmetric] Let_def
      by (simp add: change_query_def put_put)
  next
    case noS: False
    have "keeps (query_simple sys now q name (put_query q v a))"
      if v: "save_owner name (u\<lparr>q_flags := flags1\<rparr>) = Some v" for v
    proof -
      have v': "v = u\<lparr>q_flags := flags1, q_owner := q_owner v\<rparr>" using save_owner_place [OF v] by simp
      have lv: "local_ok a v" using l noS by (subst v') (simp add: local_ok_def)
      have "q_children v = q_children u" "q_parent v = q_parent u" "q_kind v = q_kind u"
        "q_type v = q_type u" "q_state v = q_state u" "q_retries v = 0"
        by (subst v', simp add: u)+
      then show ?thesis using query_simple_part [OF put sys now] lv by blast
    qed
    then show ?thesis
      using False noS D(2) unfolding submit_query_def flags1_def [symmetric] name_def [symmetric] Let_def
      by (auto simp: change_query_def put_put intro!: keeps_bind)
  qed
qed

lemma submit_new_part:
  assumes w: "consistent {} {} a" and sys: "no_msgsize sys" and now: "0 < fst now"
    and run: "submit_new sys now owner type flags a = Some (Inr (q, b))"
  shows "consistent {} {} b"
proof -
  let ?u = "query_alloc type flags now" and ?q = "a_fresh a"
  let ?a = "(put_query ?q ?u a)\<lparr>a_fresh := ?q + 1\<rparr>"
  have "0 < nservers a" using wf_E(1) [OF w] by (simp add: global_ok_def)
  then have l: "local_ok a ?u" by (simp add: local_ok_def query_alloc_def)
  have "consistent {?q} {} ?a" using consistent_alloc [OF w l] by (simp add: query_alloc_def)
  then have "workable ?q ?u ?a" by (simp add: workable_def query_alloc_def)
  then have k: "keeps (submit_query sys now ?q owner flags ?a)"
    by (rule submit_query_part [OF _ _ _ _ sys now]) (simp_all add: query_alloc_def)
  have "submit_query sys now ?q owner flags ?a = Some b"
    using run by (auto simp: submit_new_def Let_def split: option.splits)
  then show ?thesis using keeps_D [OF k] by simp
qed

subsection \<open>The calls of a user\<close>

text \<open>What a user who owns the handles of his queries may call, and what the calls leave when they
  return. Every call may work through the events first.\<close>

inductive library_call :: "system \<Rightarrow> ads \<Rightarrow> ads \<Rightarrow> bool" for sys where
  submits: "0 < fst now \<Longrightarrow> adns_submit sys now autosys owner type flags a = Some (Inr (q, b)) \<Longrightarrow>
    library_call sys a b"
| checks: "0 < fst now \<Longrightarrow> adns_check sys now autosys qo a = Some (r, b) \<Longrightarrow> library_call sys a b"
| cancels: "a_query a q = Some qu \<Longrightarrow> q_parent qu = None \<Longrightarrow> adns_cancel q a = Some b \<Longrightarrow>
    library_call sys a b"
| processes: "0 < fst now \<Longrightarrow> adns_processany sys now inp a = Some b \<Longrightarrow> library_call sys a b"

lemma internal_check_part:
  assumes w: "consistent {} {} a" and run: "internal_check qo a = Some (r, b)"
  shows "consistent {} {} b"
proof -
  have take: "consistent {} {} c" if "take_answer q a = Some (r, c)" for q c
  proof -
    have "unlink q (a_output a) \<noteq> None" using that by (auto simp: take_answer_def split: bind_splits)
    then have "q \<in> set (a_output a)" by (auto simp: unlink_def split: if_splits)
    then show ?thesis using taken_consistent [OF w] that by fastforce
  qed
  show ?thesis
    using run w take unfolding internal_check_def
    by (auto split: option.splits list.splits if_splits bind_splits)
qed

lemma call_keeps_consistent:
  assumes "library_call sys a b" "consistent {} {} a" and sys: "no_msgsize sys"
  shows "consistent {} {} b"
  using assms(1,2)
proof cases
  case (submits now autosys owner type flags q)
  obtain c where c: "submit_new sys now owner type flags a = Some (Inr (q, c))"
    "b = c \<or> (\<exists>inp. adns_processany sys now inp c = Some b)"
    using submits(2)
    by (auto simp: adns_submit_def split: bind_splits sum.splits option.splits prod.splits if_splits)
  have "consistent {} {} c" using submit_new_part [OF assms(2) sys submits(1) c(1)] .
  then show ?thesis using c(2) keeps_D [OF adns_processany_part [OF _ sys submits(1)]] by blast
next
  case (checks now autosys qo r)
  obtain c where c: "(case autosys of None \<Rightarrow> Some a | Some inp \<Rightarrow> adns_processany sys now inp a) = Some c"
    "internal_check qo c = Some (r, b)"
    using checks(2) by (auto simp: adns_check_def split: bind_splits)
  have "consistent {} {} c"
    using c(1) assms(2) keeps_D [OF adns_processany_part [OF assms(2) sys checks(1)]] by (auto split: option.splits)
  then show ?thesis using internal_check_part c(2) by blast
next
  case (cancels q qu)
  then show ?thesis using adns_cancel_ok [OF assms(2) cancels(1,2)] by auto
next
  case (processes now inp)
  then show ?thesis using keeps_D [OF adns_processany_part [OF assms(2) sys]] by blast
qed

text \<open>Whatever the user calls and whatever the name servers and sockets answer, as long as the calls
  return: all the checks of the library's own consistency hold in every state that can be reached.\<close>

theorem calls_keep_consistent:
  assumes "(library_call sys)\<^sup>*\<^sup>* a b" "consistent {} {} a" "no_msgsize sys"
  shows "consistent {} {} b"
  using assms(1,2) by (induction) (auto dest: call_keeps_consistent [OF _ _ assms(3)])

theorem calls_keep_consistent_witness:
  "\<exists>b. (library_call sending)\<^sup>*\<^sup>* waiting b \<and> b \<noteq> waiting \<and> consistent {} {} b"
proof -
  obtain b where b: "adns_cancel 0 waiting = Some b" "\<forall>x. a_query b x = (if x = 0 \<or> x \<in> set (q_children asking) then None else a_query waiting x)"
    using adns_cancel_ok [of waiting 0 asking] by auto
  have "library_call sending waiting b" by (rule cancels [of waiting 0 asking]) (simp_all add: b(1))
  then have r: "(library_call sending)\<^sup>*\<^sup>* waiting b" by blast
  moreover have "a_query b 0 \<noteq> a_query waiting 0" using b(2) by simp
  then have "b \<noteq> waiting" by metis
  ultimately show ?thesis using calls_keep_consistent [OF r] by auto
qed

text \<open>C7: Submitting a query, with or without the round of events that follows: an unknown type is refused;
  any other submission gives the next handle and, when it returns, leaves the library consistent. It
  always returns when the library makes no round of events of its own (\<open>adns_if_noautosys\<close>) and, for a
  query over TCP from the start, when none that waits for TCP checks the address of a name; the round
  may work through a reply on which the library stops or loops. No datagram of the library is refused
  as too long.\<close>

theorem submit_keeps_consistent:
  assumes "consistent {} {} a" "no_msgsize sys" "0 < fst now"
  shows "if findtype type = None then adns_submit sys now autosys owner type flags a = Some (Inl ENOSYS)
    else (\<forall>e. adns_submit sys now autosys owner type flags a \<noteq> Some (Inl e)) \<and>
      (\<forall>q b. adns_submit sys now autosys owner type flags a = Some (Inr (q, b)) \<longrightarrow>
         q = a_fresh a \<and> consistent {} {} b) \<and>
      (autosys = None \<longrightarrow> (qf_usevc flags \<longrightarrow> no_ptr a) \<longrightarrow>
         adns_submit sys now autosys owner type flags a \<noteq> None)"
proof (cases "findtype type")
  case None
  then show ?thesis by (simp add: adns_submit_def submit_new_def)
next
  case (Some ti)
  have new: "\<exists>b. r = Inr (a_fresh a, b)" if "submit_new sys now owner type flags a = Some r" for r
    using that Some by (auto simp: submit_new_def Let_def split: bind_splits option.splits)
  have h: "q = a_fresh a" if "adns_submit sys now autosys owner type flags a = Some (Inr (q, b))" for q b
    using that new by (fastforce simp: adns_submit_def split: bind_splits sum.splits option.splits prod.splits if_splits)
  have e: "adns_submit sys now autosys owner type flags a \<noteq> Some (Inl e)" for e
    using new by (fastforce simp: adns_submit_def split: bind_splits sum.splits option.splits prod.splits if_splits)
  have c: "consistent {} {} b" if "adns_submit sys now autosys owner type flags a = Some (Inr (q, b))" for q b
    using call_keeps_consistent [OF submits [OF assms(3) that] assms(1,2)] .
  have t: "adns_submit sys now None owner type flags a \<noteq> None" if "qf_usevc flags \<longrightarrow> no_ptr a"
    using submit_new_ok [of a flags sys now owner type] assms that new by (fastforce simp: adns_submit_def)
  show ?thesis using Some h e c t by simp
qed

theorem submit_keeps_consistent_witness:
  "\<exists>b. adns_submit sending (1, 0) None ''www.example.org'' r_addr qf_none library = Some (Inr (a_fresh library, b)) \<and>
    consistent {} {} b"
proof -
  have f: "findtype r_addr \<noteq> None" by (simp add: findtype_find typeinfos_def plain_type_def rrtypes bit_iff_odd)
  have p: "(0::int) < fst (1, 0::int)" by simp
  note s = submit_keeps_consistent [OF library_consistent sending_simps(1) p, of r_addr None "''www.example.org''" qf_none]
  obtain r where "adns_submit sending (1, 0) None ''www.example.org'' r_addr qf_none library = Some r"
    using s f by auto
  then show ?thesis using s f by (cases r) auto
qed

end
