(* ===== verification/AdnsSetup.thy ===== *)
theory AdnsSetup
  imports AdnsKeep
begin

text \<open>
  The beginning and the end of a library of adns: src/adns/setup.c. Its configuration comes from
  files, from the environment, or from the caller. Files, variables and the results of the system
  calls are given; \<open>inet_aton\<close> is a parameter, and its addresses are in the order of the host.
  Allocations succeed, and messages to the log have no counterpart.
\<close>

subsection \<open>What the system has\<close>

text \<open>A file that cannot be opened, with its error number, or its contents and the error of the read
  behind them.\<close>

datatype cfile = Not_opened nat | Opened string "nat option"

record host =
  ho_file :: "string \<Rightarrow> cfile"
  ho_env :: "string \<Rightarrow> string option"
  ho_aton :: "string \<Rightarrow> 32 word option"
  ho_proto :: bool
  ho_socket :: nat
  ho_getfl :: nat
  ho_setfl :: nat

text \<open>Error numbers as they are on Linux; 0 is no error.\<close>

definition E_NOENT :: nat where "E_NOENT = 2"
definition E_INVAL :: nat where "E_INVAL = 22"
definition E_MFILE :: nat where "E_MFILE = 24"
definition E_NOPROTOOPT :: nat where "E_NOPROTOOPT = 92"

definition if_noenv :: "32 word" where "if_noenv = 0x0001"
definition if_debug :: "32 word" where "if_debug = 0x0008"
definition if_checkc_entex :: "32 word" where "if_checkc_entex = 0x0100"
definition if_checkc_freq :: "32 word" where "if_checkc_freq = 0x0300"

text \<open>The library, its flags and the first error of its configuration.\<close>

record libsetup =
  su_ads :: ads
  su_iflags :: "32 word"
  su_errno :: nat

definition saveerr :: "nat \<Rightarrow> libsetup \<Rightarrow> libsetup" where
  "saveerr en st = (if su_errno st = 0 then st\<lparr>su_errno := en\<rparr> else st)"

definition configparseerr :: "libsetup \<Rightarrow> libsetup" where
  "configparseerr st = saveerr E_INVAL st"

definition upd_ads :: "(ads \<Rightarrow> ads) \<Rightarrow> libsetup \<Rightarrow> libsetup" where
  "upd_ads f st = st\<lparr>su_ads := f (su_ads st)\<rparr>"

definition addserver :: "32 word \<Rightarrow> ads \<Rightarrow> ads" where
  "addserver w a =
     (if w \<in> set (a_servers a) then a
      else if nservers a \<ge> MAXSERVERS then a
      else a\<lparr>a_servers := a_servers a @ [w]\<rparr>)"

subsection \<open>Words\<close>

definition ctype_whitespace :: "char \<Rightarrow> bool" where
  "ctype_whitespace c \<longleftrightarrow> c = CHR '' '' \<or> c = NL \<or> c = TAB"

text \<open>The next word, the text that begins with it, and the text behind it.\<close>

definition nextword :: "string \<Rightarrow> (string \<times> string \<times> string) option" where
  "nextword buf =
     (let p = dropWhile ctype_whitespace buf in
      if p = [] then None
      else Some (takeWhile (\<lambda>c. \<not> ctype_whitespace c) p, p, dropWhile (\<lambda>c. \<not> ctype_whitespace c) p))"

lemma nextword_shorter:
  assumes "nextword buf = Some (w, p, r)" shows "length r < length buf"
proof -
  let ?p = "dropWhile ctype_whitespace buf"
  have p: "?p \<noteq> []" "r = dropWhile (\<lambda>c. \<not> ctype_whitespace c) ?p"
    using assms by (auto simp add: nextword_def Let_def simp del: dropWhile_eq_Nil_conv split: if_splits)
  obtain c s where cs: "?p = c # s" using p(1) by (cases ?p) auto
  have "\<not> ctype_whitespace c" using cs by (metis dropWhile_eq_Cons_conv)
  then have "length r \<le> length s" using p(2) cs by (simp add: length_dropWhile_le)
  moreover have "length ?p \<le> length buf" by (rule length_dropWhile_le)
  ultimately show ?thesis using cs by simp
qed

text \<open>All words of a text, each with the text that begins with it.\<close>

function words_at :: "string \<Rightarrow> (string \<times> string) list" where
  "words_at buf = (case nextword buf of None \<Rightarrow> [] | Some (w, p, r) \<Rightarrow> (w, p) # words_at r)"
  by pat_completeness auto

termination
  by (relation "measure length") (auto dest: nextword_shorter)

declare words_at.simps [simp del]

text \<open>\<open>strtoul\<close> in base 10, for an \<open>unsigned long\<close> of 64 bits: the value, and the text behind the
  number.\<close>

definition strtoul10 :: "string \<Rightarrow> nat \<times> string" where
  "strtoul10 s =
     (let t = dropWhile is_space s;
          neg = (t \<noteq> [] \<and> hd t = CHR ''-'');
          u = (if t \<noteq> [] \<and> (hd t = CHR ''-'' \<or> hd t = CHR ''+'') then tl t else t);
          ds = takeWhile is_digit u;
          v = dec_val ds
      in if ds = [] then (0, s)
         else (if v \<ge> 2 ^ 64 then 2 ^ 64 - 1 else if neg then (2 ^ 64 - v) mod 2 ^ 64 else v,
               dropWhile is_digit u))"

subsection \<open>Directives\<close>

definition ccf_nameserver :: "host \<Rightarrow> string \<Rightarrow> libsetup \<Rightarrow> libsetup" where
  "ccf_nameserver h buf st =
     (case ho_aton h buf of None \<Rightarrow> configparseerr st | Some w \<Rightarrow> upd_ads (addserver w) st)"

definition ccf_search :: "string \<Rightarrow> libsetup \<Rightarrow> libsetup" where
  "ccf_search buf st = upd_ads (\<lambda>a. a\<lparr>a_searchlist := map fst (words_at buf)\<rparr>) st"

text \<open>The mask of an entry: written as an address, as a number of bits, or by the class of the
  network. In the first test \<open>!\<close> applies to the address alone.\<close>

definition class_mask :: "32 word \<Rightarrow> 32 word option" where
  "class_mask b =
     (if (if b = 0 then 1 else 0) AND (0x80000000 :: 32 word) \<noteq> 0 then Some 0xff000000
      else if b AND 0xc0000000 = 0x80000000 then Some 0xffff0000
      else if b AND 0xf0000000 = 0xe0000000 then Some 0xff000000
      else None)"

definition sort_mask :: "host \<Rightarrow> 32 word \<Rightarrow> string option \<Rightarrow> 32 word option" where
  "sort_mask h b slash =
     (case slash of
        None \<Rightarrow> class_mask b
      | Some s \<Rightarrow>
          if CHR ''.'' \<in> set s then
            (case ho_aton h s of
               None \<Rightarrow> None
             | Some m \<Rightarrow> if b AND NOT m \<noteq> 0 then None else Some m)
          else
            (let (initial, ep) = strtoul10 s in
             if ep \<noteq> [] \<or> initial > 32 then None
             else Some (ucast (push_bit (32 - initial) (0xffffffff :: 64 word)))))"

definition SORTBUF :: nat where "SORTBUF = 200"

definition sort_entry :: "host \<Rightarrow> string \<Rightarrow> (32 word \<times> 32 word) option" where
  "sort_entry h word =
     (if length word \<ge> SORTBUF then None
      else
        let addr = takeWhile (\<lambda>c. c \<noteq> CHR ''/'') word;
            rest = dropWhile (\<lambda>c. c \<noteq> CHR ''/'') word in
        case ho_aton h addr of
          None \<Rightarrow> None
        | Some b \<Rightarrow> map_option (Pair b) (sort_mask h b (if rest = [] then None else Some (tl rest))))"

fun sort_entries :: "host \<Rightarrow> string list \<Rightarrow> libsetup \<Rightarrow> libsetup" where
  "sort_entries h [] st = st"
| "sort_entries h (w # ws) st =
     (if length (a_sortlist (su_ads st)) \<ge> MAXSORTLIST then st
      else
        case sort_entry h w of
          None \<Rightarrow> sort_entries h ws (configparseerr st)
        | Some e \<Rightarrow> sort_entries h ws (upd_ads (\<lambda>a. a\<lparr>a_sortlist := a_sortlist a @ [e]\<rparr>) st))"

definition ccf_sortlist :: "host \<Rightarrow> string \<Rightarrow> libsetup \<Rightarrow> libsetup" where
  "ccf_sortlist h buf st =
     sort_entries h (map fst (words_at buf)) (upd_ads (\<lambda>a. a\<lparr>a_sortlist := []\<rparr>) st)"

text \<open>One option. The values of \<open>adns_checkc\<close> are compared with all the rest of the text, and
  \<open>none\<close> does what \<open>entex\<close> does.\<close>

definition INT_MAX_nat :: nat where "INT_MAX_nat = 2147483647"

definition one_option :: "string \<times> string \<Rightarrow> libsetup \<Rightarrow> libsetup" where
  "one_option wp st =
     (let (word, p) = wp; l = length word in
      if word = ''debug'' then st\<lparr>su_iflags := su_iflags st OR if_debug\<rparr>
      else if take 6 word = ''ndots:'' then
        (let (v, ep) = strtoul10 (drop 6 p) in
         if l = 6 \<or> ep \<noteq> drop l p \<or> v > INT_MAX_nat then configparseerr st
         else upd_ads (\<lambda>a. a\<lparr>a_searchndots := v\<rparr>) st)
      else if take 12 word = ''adns_checkc:'' then
        (if drop 12 p = ''none'' then
           st\<lparr>su_iflags := su_iflags st AND NOT if_checkc_freq OR if_checkc_entex\<rparr>
         else if drop 12 p = ''entex'' then
           st\<lparr>su_iflags := su_iflags st AND NOT if_checkc_freq OR if_checkc_entex\<rparr>
         else if drop 12 p = ''freq'' then st\<lparr>su_iflags := su_iflags st OR if_checkc_freq\<rparr>
         else configparseerr st)
      else st)"

definition ccf_options :: "string \<Rightarrow> libsetup \<Rightarrow> libsetup" where
  "ccf_options buf st = fold one_option (words_at buf) st"

definition ccf_clearnss :: "libsetup \<Rightarrow> libsetup" where
  "ccf_clearnss st = upd_ads (\<lambda>a. a\<lparr>a_servers := []\<rparr>) st"

definition ccf_include :: "(string \<Rightarrow> libsetup \<Rightarrow> libsetup) \<Rightarrow> string \<Rightarrow> libsetup \<Rightarrow> libsetup" where
  "ccf_include readconf buf st = (if buf = [] then configparseerr st else readconf buf st)"

definition ccf_lookup :: "string \<Rightarrow> libsetup \<Rightarrow> libsetup" where
  "ccf_lookup buf st = (if buf = [] then configparseerr st else st)"

definition directive :: "host \<Rightarrow> (string \<Rightarrow> libsetup \<Rightarrow> libsetup) \<Rightarrow> string \<Rightarrow> string \<Rightarrow> libsetup \<Rightarrow> libsetup" where
  "directive h readconf name args st =
     (if name = ''nameserver'' then ccf_nameserver h args st
      else if name = ''domain'' \<or> name = ''search'' then ccf_search args st
      else if name = ''sortlist'' then ccf_sortlist h args st
      else if name = ''options'' then ccf_options args st
      else if name = ''clearnameservers'' then ccf_clearnss st
      else if name = ''include'' then ccf_include readconf args st
      else if name = ''lookup'' then ccf_lookup args st
      else st)"

subsection \<open>Lines\<close>

datatype gl = Gl_end | Gl_error nat | Gl_bad | Gl_line string

definition LINEBUF :: nat where "LINEBUF = 2000"

definition skip_line :: "string \<Rightarrow> string" where
  "skip_line s = drop 1 (dropWhile (\<lambda>c. c \<noteq> NL) s)"

fun gl_scan :: "nat option \<Rightarrow> string \<Rightarrow> string \<Rightarrow> gl \<times> string" where
  "gl_scan err acc s =
     (if length acc = LINEBUF - 1 then (Gl_bad, skip_line s)
      else case s of
        [] \<Rightarrow> ((case err of Some e \<Rightarrow> Gl_error e | None \<Rightarrow> if acc = [] then Gl_end else Gl_line acc), [])
      | c # s' \<Rightarrow>
          if c = NUL then (Gl_bad, skip_line s')
          else if c = NL then (Gl_line acc, s')
          else gl_scan err (acc @ [c]) s')"

declare gl_scan.simps [simp del]

definition gl_file :: "nat option \<Rightarrow> string \<Rightarrow> gl \<times> string" where
  "gl_file err s = gl_scan err [] s"

text \<open>\<open>;\<close> also separates lines of a text.\<close>

definition text_sep :: "char \<Rightarrow> bool" where
  "text_sep c \<longleftrightarrow> c = CHR '';'' \<or> c = NL"

definition gl_text :: "string \<Rightarrow> gl \<times> string" where
  "gl_text cp =
     (if cp = [] then (Gl_end, [])
      else
        let cp1 = (if text_sep (hd cp) then tl cp else cp);
            line = takeWhile (\<lambda>c. \<not> text_sep c) cp1;
            rest = dropWhile (\<lambda>c. \<not> text_sep c) cp1 in
        (if length line \<ge> LINEBUF then Gl_bad else Gl_line line, rest))"

lemma skip_line_le: "length (skip_line s) \<le> length s"
  using length_dropWhile_le [of "\<lambda>c. c \<noteq> NL" s] by (simp add: skip_line_def)

lemma gl_scan_shorter:
  "gl_scan err acc s = (r, t) \<Longrightarrow>
   length t \<le> length s \<and> (length acc < LINEBUF - 1 \<longrightarrow> r \<noteq> Gl_end \<longrightarrow> (\<forall>e. r \<noteq> Gl_error e) \<longrightarrow> length t < length s \<or> acc \<noteq> [])"
proof (induction s arbitrary: acc)
  case Nil
  then show ?case by (subst (asm) gl_scan.simps) (auto simp: skip_line_def split: if_splits option.splits)
next
  case (Cons c s)
  show ?case
  proof (cases "length acc = LINEBUF - 1")
    case True
    then show ?thesis using Cons.prems skip_line_le [of "c # s"] by (subst (asm) gl_scan.simps) auto
  next
    case False
    then show ?thesis using Cons.prems Cons.IH [of "acc @ [c]"] skip_line_le [of s]
      by (subst (asm) gl_scan.simps) (auto split: if_splits)
  qed
qed

lemma gl_file_shorter:
  "gl_file err s = (r, t) \<Longrightarrow> r \<noteq> Gl_end \<Longrightarrow> (\<forall>e. r \<noteq> Gl_error e) \<Longrightarrow> length t < length s"
  using gl_scan_shorter [of err "[]" s r t] by (auto simp: gl_file_def LINEBUF_def)

lemma gl_text_shorter: "gl_text s = (r, t) \<Longrightarrow> r \<noteq> Gl_end \<Longrightarrow> length t < length s"
proof (cases s)
  case (Cons c s')
  assume "gl_text s = (r, t)" "r \<noteq> Gl_end"
  then have "t = dropWhile (\<lambda>c. \<not> text_sep c) s'"
    using Cons by (auto simp: gl_text_def Let_def)
  then show ?thesis using Cons length_dropWhile_le [of "\<lambda>c. \<not> text_sep c" s'] by simp
qed (simp add: gl_text_def)

text \<open>The lines that the loop of \<open>readconfiggeneric\<close> gets.\<close>

function file_lines :: "nat option \<Rightarrow> string \<Rightarrow> gl list" where
  "file_lines err s =
     (case gl_file err s of
        (Gl_end, t) \<Rightarrow> []
      | (Gl_error e, t) \<Rightarrow> [Gl_error e]
      | (Gl_bad, t) \<Rightarrow> Gl_bad # file_lines err t
      | (Gl_line l, t) \<Rightarrow> Gl_line l # file_lines err t)"
  by pat_completeness auto

termination
  by (relation "measure (length \<circ> snd)") (auto dest: gl_file_shorter [OF sym])

function text_lines :: "string \<Rightarrow> gl list" where
  "text_lines s =
     (case gl_text s of
        (Gl_end, t) \<Rightarrow> []
      | (Gl_error e, t) \<Rightarrow> [Gl_error e]
      | (Gl_bad, t) \<Rightarrow> Gl_bad # text_lines t
      | (Gl_line l, t) \<Rightarrow> Gl_line l # text_lines t)"
  by pat_completeness auto

termination
  by (relation "measure length") (auto dest: gl_text_shorter [OF sym])

declare file_lines.simps [simp del] text_lines.simps [simp del]

definition strip_end :: "string \<Rightarrow> string" where
  "strip_end s = rev (dropWhile ctype_whitespace (rev s))"

definition config_line :: "host \<Rightarrow> (string \<Rightarrow> libsetup \<Rightarrow> libsetup) \<Rightarrow> string \<Rightarrow> libsetup \<Rightarrow> libsetup" where
  "config_line h readconf line st =
     (let p = dropWhile ctype_whitespace (strip_end line) in
      if p = [] \<or> hd p = CHR ''#'' \<or> hd p = CHR '';'' then st
      else
        directive h readconf (takeWhile (\<lambda>c. \<not> ctype_whitespace c) p)
          (dropWhile ctype_whitespace (dropWhile (\<lambda>c. \<not> ctype_whitespace c) p)) st)"

fun config_step :: "host \<Rightarrow> (string \<Rightarrow> libsetup \<Rightarrow> libsetup) \<Rightarrow> gl \<Rightarrow> libsetup \<Rightarrow> libsetup" where
  "config_step h readconf Gl_end st = st"
| "config_step h readconf (Gl_error e) st = saveerr e st"
| "config_step h readconf Gl_bad st = saveerr E_INVAL st"
| "config_step h readconf (Gl_line l) st = config_line h readconf l st"

definition readconfiggeneric :: "host \<Rightarrow> (string \<Rightarrow> libsetup \<Rightarrow> libsetup) \<Rightarrow> gl list \<Rightarrow> libsetup \<Rightarrow> libsetup" where
  "readconfiggeneric h readconf ls st = fold (config_step h readconf) ls st"

subsection \<open>Files\<close>

text \<open>A file stays open while it is read, so a chain of files that include each other ends when the
  process has no more descriptors; \<open>fds\<close> is how many it has.\<close>

primrec readconfig :: "host \<Rightarrow> nat \<Rightarrow> string \<Rightarrow> libsetup \<Rightarrow> libsetup" where
  "readconfig h 0 = (\<lambda>name st. saveerr E_MFILE st)"
| "readconfig h (Suc fds) = (\<lambda>name st.
     (case ho_file h name of
        Not_opened e \<Rightarrow> if e = E_NOENT then st else saveerr e st
      | Opened s err \<Rightarrow> readconfiggeneric h (readconfig h fds) (file_lines err s) st))"

definition readconfigtext :: "host \<Rightarrow> nat \<Rightarrow> string \<Rightarrow> libsetup \<Rightarrow> libsetup" where
  "readconfigtext h fds s st = readconfiggeneric h (readconfig h fds) (text_lines s) st"

definition readconfigenv :: "host \<Rightarrow> nat \<Rightarrow> string \<Rightarrow> libsetup \<Rightarrow> libsetup" where
  "readconfigenv h fds var st =
     (if su_iflags st AND if_noenv \<noteq> 0 then st
      else case ho_env h var of None \<Rightarrow> st | Some name \<Rightarrow> readconfig h fds name st)"

definition readconfigenvtext :: "host \<Rightarrow> nat \<Rightarrow> string \<Rightarrow> libsetup \<Rightarrow> libsetup" where
  "readconfigenvtext h fds var st =
     (if su_iflags st AND if_noenv \<noteq> 0 then st
      else case ho_env h var of None \<Rightarrow> st | Some s \<Rightarrow> readconfigtext h fds s st)"

text \<open>These two look into the environment whatever the flags are.\<close>

definition env_options :: "host \<Rightarrow> string \<Rightarrow> libsetup \<Rightarrow> libsetup" where
  "env_options h var st = (case ho_env h var of None \<Rightarrow> st | Some s \<Rightarrow> ccf_options s st)"

definition env_search :: "host \<Rightarrow> string \<Rightarrow> libsetup \<Rightarrow> libsetup" where
  "env_search h var st = (case ho_env h var of None \<Rightarrow> st | Some s \<Rightarrow> ccf_search s st)"

subsection \<open>A new library\<close>

definition init_begin :: "32 word \<Rightarrow> libsetup" where
  "init_begin iflags =
     \<lparr>su_ads =
        \<lparr>a_query = Map.empty, a_fresh = 0, a_udpw = [], a_tcpw = [], a_childw = [], a_output = [],
         a_nextid = 0x311f, a_servers = [], a_searchlist = [], a_searchndots = 1, a_sortlist = [],
         a_tcpstate = Disconnected, a_tcpserver = 0, a_tcpsend = [], a_tcprecv = [], a_tcpavail = 0,
         a_tcpskip = 0, a_tcptimeout = (0, 0), a_calls = 0, a_sent = [], a_wire = []\<rparr>,
      su_iflags = iflags, su_errno = 0\<rparr>"

definition INADDR_LOOPBACK :: "32 word" where "INADDR_LOOPBACK = 0x7f000001"

definition adns_setnonblock :: "host \<Rightarrow> nat" where
  "adns_setnonblock h = (if ho_getfl h \<noteq> 0 then ho_getfl h else ho_setfl h)"

definition init_finish :: "host \<Rightarrow> libsetup \<Rightarrow> nat + libsetup" where
  "init_finish h st =
     (let st1 = (if a_servers (su_ads st) = [] then upd_ads (addserver INADDR_LOOPBACK) st else st) in
      if \<not> ho_proto h then Inl E_NOPROTOOPT
      else if ho_socket h \<noteq> 0 then Inl (ho_socket h)
      else if adns_setnonblock h \<noteq> 0 then Inl (adns_setnonblock h)
      else Inr st1)"

definition config_files :: "host \<Rightarrow> nat \<Rightarrow> libsetup \<Rightarrow> libsetup" where
  "config_files h fds st =
     (let options = env_options h ''ADNS_RES_OPTIONS'' \<circ> env_options h ''RES_OPTIONS'' in
      (env_search h ''ADNS_LOCALDOMAIN'' \<circ> env_search h ''LOCALDOMAIN'' \<circ> options
       \<circ> readconfigenvtext h fds ''ADNS_RES_CONF_TEXT'' \<circ> readconfigenvtext h fds ''RES_CONF_TEXT''
       \<circ> readconfigenv h fds ''ADNS_RES_CONF'' \<circ> readconfigenv h fds ''RES_CONF''
       \<circ> readconfig h fds ''/etc/resolv-adns.conf'' \<circ> readconfig h fds ''/etc/resolv.conf''
       \<circ> options) st)"

definition init_files :: "host \<Rightarrow> nat \<Rightarrow> 32 word \<Rightarrow> nat + libsetup" where
  "init_files h fds iflags =
     (let st = config_files h fds (init_begin iflags) in
      if su_errno st \<noteq> 0 \<and> su_errno st \<noteq> E_INVAL then Inl (su_errno st) else init_finish h st)"

definition adns_init :: "host \<Rightarrow> nat \<Rightarrow> 32 word \<Rightarrow> nat + libsetup" where
  "adns_init h fds iflags = init_files h fds iflags"

definition init_strcfg :: "host \<Rightarrow> nat \<Rightarrow> 32 word \<Rightarrow> string \<Rightarrow> nat + libsetup" where
  "init_strcfg h fds iflags configtext =
     (let st = readconfigtext h fds configtext (init_begin iflags) in
      if su_errno st \<noteq> 0 then Inl (su_errno st) else init_finish h st)"

definition adns_init_logfn :: "host \<Rightarrow> nat \<Rightarrow> 32 word \<Rightarrow> string option \<Rightarrow> nat + libsetup" where
  "adns_init_logfn h fds iflags configtext =
     (case configtext of None \<Rightarrow> init_files h fds iflags | Some s \<Rightarrow> init_strcfg h fds iflags s)"

subsection \<open>The end\<close>

text \<open>The head of the first queue that has one.\<close>

fun first_head :: "nat list list \<Rightarrow> nat option" where
  "first_head [] = None"
| "first_head (l # ls) = (case l of [] \<Rightarrow> first_head ls | q # qs \<Rightarrow> Some q)"

partial_function (option) adns_finish :: "ads \<Rightarrow> ads option" where
  "adns_finish a =
     (case first_head [a_udpw a, a_tcpw a, a_childw a, a_output a] of
        None \<Rightarrow> Some a
      | Some q \<Rightarrow> do { a1 \<leftarrow> adns_cancel q a; adns_finish a1 })"

subsection \<open>All queries\<close>

definition adns_forallqueries_begin :: "ads \<Rightarrow> nat option" where
  "adns_forallqueries_begin a = first_head [a_udpw a, a_tcpw a, a_childw a, a_output a]"

fun next_in :: "nat list \<Rightarrow> nat \<Rightarrow> nat option" where
  "next_in [] q = None"
| "next_in (x # xs) q = (if x = q then (case xs of [] \<Rightarrow> None | y # ys \<Rightarrow> Some y) else next_in xs q)"

definition is_tail :: "nat list \<Rightarrow> nat \<Rightarrow> bool" where
  "is_tail l q \<longleftrightarrow> l \<noteq> [] \<and> last l = q"

text \<open>The link \<open>next\<close> of a query is that of the queue it is in.\<close>

definition link_next :: "ads \<Rightarrow> nat \<Rightarrow> nat option" where
  "link_next a q =
     (if q \<in> set (a_udpw a) then next_in (a_udpw a) q
      else if q \<in> set (a_tcpw a) then next_in (a_tcpw a) q
      else if q \<in> set (a_childw a) then next_in (a_childw a) q
      else next_in (a_output a) q)"

definition forall_step :: "ads \<Rightarrow> nat \<Rightarrow> nat option" where
  "forall_step a q =
     (case link_next a q of
        Some r \<Rightarrow> Some r
      | None \<Rightarrow>
          if is_tail (a_udpw a) q then first_head [a_tcpw a, a_childw a, a_output a]
          else if is_tail (a_tcpw a) q then first_head [a_childw a, a_output a]
          else if is_tail (a_childw a) q then first_head [a_output a]
          else None)"

text \<open>The query that is handed out, and where the next call begins; \<open>None\<close> when there is no more.\<close>

partial_function (option) adns_forallqueries_next :: "ads \<Rightarrow> nat option \<Rightarrow> (nat \<times> nat option) option option" where
  "adns_forallqueries_next a nqu =
     (case nqu of
        None \<Rightarrow> Some None
      | Some q \<Rightarrow> do {
          qu \<leftarrow> a_query a q;
          if q_parent qu = None then Some (Some (q, forall_step a q))
          else adns_forallqueries_next a (forall_step a q) })"

subsection \<open>Whatever the configuration is\<close>

text \<open>What a configuration may do to a new library.\<close>

definition new_ads :: "32 word list \<Rightarrow> string list \<Rightarrow> nat \<Rightarrow> (32 word \<times> 32 word) list \<Rightarrow> ads" where
  "new_ads sv sl nd so =
     (su_ads (init_begin 0))\<lparr>a_servers := sv, a_searchlist := sl, a_searchndots := nd, a_sortlist := so\<rparr>"

definition fresh_ads :: "ads \<Rightarrow> bool" where
  "fresh_ads a \<longleftrightarrow>
     (\<exists>sv sl nd so. a = new_ads sv sl nd so \<and> distinct sv \<and> length sv \<le> MAXSERVERS \<and> length so \<le> MAXSORTLIST)"

definition fresh_library :: "libsetup \<Rightarrow> bool" where
  "fresh_library st \<longleftrightarrow> fresh_ads (su_ads st)"

lemma new_ads_update [simp]:
  "(new_ads sv sl nd so)\<lparr>a_servers := x\<rparr> = new_ads x sl nd so"
  "(new_ads sv sl nd so)\<lparr>a_searchlist := y\<rparr> = new_ads sv y nd so"
  "(new_ads sv sl nd so)\<lparr>a_searchndots := n\<rparr> = new_ads sv sl n so"
  "(new_ads sv sl nd so)\<lparr>a_sortlist := z\<rparr> = new_ads sv sl nd z"
  "a_servers (new_ads sv sl nd so) = sv" "a_sortlist (new_ads sv sl nd so) = so"
  "a_searchlist (new_ads sv sl nd so) = sl" "a_searchndots (new_ads sv sl nd so) = nd"
  by (simp_all add: new_ads_def)

lemma fresh_adsI [intro]:
  "distinct sv \<Longrightarrow> length sv \<le> MAXSERVERS \<Longrightarrow> length so \<le> MAXSORTLIST \<Longrightarrow> fresh_ads (new_ads sv sl nd so)"
  unfolding fresh_ads_def by blast

lemma fresh_begin [simp]: "fresh_library (init_begin iflags)"
  unfolding fresh_library_def fresh_ads_def
  by (intro exI [of _ "[]"] exI [of _ 1]) (simp add: new_ads_def init_begin_def)

lemma fresh_saveerr [simp]: "fresh_library (saveerr e st) = fresh_library st"
  by (simp add: saveerr_def fresh_library_def)

lemma fresh_parseerr [simp]: "fresh_library (configparseerr st) = fresh_library st"
  by (simp add: configparseerr_def)

lemma fresh_flags [simp]: "fresh_library (st\<lparr>su_iflags := x\<rparr>) = fresh_library st"
  by (simp add: fresh_library_def)

lemma fresh_upd:
  assumes "fresh_library st"
    and "\<And>sv sl nd so. distinct sv \<Longrightarrow> length sv \<le> MAXSERVERS \<Longrightarrow> length so \<le> MAXSORTLIST \<Longrightarrow>
      su_ads st = new_ads sv sl nd so \<Longrightarrow> fresh_ads (f (new_ads sv sl nd so))"
  shows "fresh_library (upd_ads f st)"
  using assms by (fastforce simp: fresh_library_def fresh_ads_def upd_ads_def)

lemma fresh_addserver: "fresh_library st \<Longrightarrow> fresh_library (upd_ads (addserver w) st)"
  by (rule fresh_upd) (auto simp: addserver_def)

lemma fresh_sort_entries: "fresh_library st \<Longrightarrow> fresh_library (sort_entries h ws st)"
proof (induction h ws st rule: sort_entries.induct)
  case (2 h w ws st)
  have "fresh_library (upd_ads (\<lambda>a. a\<lparr>a_sortlist := a_sortlist a @ [e]\<rparr>) st)"
    if "\<not> length (a_sortlist (su_ads st)) \<ge> MAXSORTLIST" for e
    by (rule fresh_upd [OF 2(3)]) (use that in auto)
  then show ?case using 2 by (simp split: option.split)
qed simp

lemma fresh_option: "fresh_library st \<Longrightarrow> fresh_library (one_option wp st)"
proof -
  assume w: "fresh_library st"
  have "fresh_library (upd_ads (\<lambda>a. a\<lparr>a_searchndots := n\<rparr>) st)" for n by (rule fresh_upd [OF w]) auto
  then show ?thesis using w by (simp add: one_option_def Let_def split: prod.split)
qed

lemma fresh_options: "fresh_library st \<Longrightarrow> fresh_library (ccf_options buf st)"
proof -
  have "fresh_library st \<Longrightarrow> fresh_library (fold one_option ws st)" for ws
    by (induction ws arbitrary: st) (simp_all add: fresh_option)
  then show "fresh_library st \<Longrightarrow> fresh_library (ccf_options buf st)" by (simp add: ccf_options_def)
qed

lemma fresh_search: "fresh_library st \<Longrightarrow> fresh_library (ccf_search buf st)"
  unfolding ccf_search_def by (rule fresh_upd) auto

lemma fresh_directive:
  assumes w: "fresh_library st" and rc: "\<And>n s. fresh_library s \<Longrightarrow> fresh_library (readconf n s)"
  shows "fresh_library (directive h readconf name args st)"
proof -
  have "fresh_library (upd_ads (\<lambda>a. a\<lparr>a_sortlist := []\<rparr>) st)" "fresh_library (upd_ads (\<lambda>a. a\<lparr>a_servers := []\<rparr>) st)"
    by (rule fresh_upd [OF w]; auto)+
  then show ?thesis
    using w rc fresh_addserver fresh_search fresh_options fresh_sort_entries
    by (simp add: directive_def ccf_nameserver_def ccf_sortlist_def ccf_clearnss_def ccf_include_def ccf_lookup_def
        split: option.split)
qed

lemma fresh_generic:
  assumes w: "fresh_library st" and rc: "\<And>n s. fresh_library s \<Longrightarrow> fresh_library (readconf n s)"
  shows "fresh_library (readconfiggeneric h readconf ls st)"
proof -
  have "fresh_library (config_step h readconf l s)" if "fresh_library s" for l s
    using that fresh_directive [OF that rc] by (cases l) (simp_all add: config_line_def Let_def)
  then show ?thesis using w by (induction ls arbitrary: st) (simp_all add: readconfiggeneric_def)
qed

lemma fresh_readconfig: "fresh_library st \<Longrightarrow> fresh_library (readconfig h fds name st)"
proof (induction fds arbitrary: name st)
  case (Suc fds)
  then show ?case using fresh_generic [OF Suc.prems, of "readconfig h fds"] by (simp split: cfile.split)
qed simp

lemma fresh_config_files: "fresh_library st \<Longrightarrow> fresh_library (config_files h fds st)"
proof -
  have 1: "fresh_library st \<Longrightarrow> fresh_library (env_options h v st)" for v st
    by (simp add: env_options_def fresh_options split: option.split)
  have 2: "fresh_library st \<Longrightarrow> fresh_library (env_search h v st)" for v st
    by (simp add: env_search_def fresh_search split: option.split)
  have 3: "fresh_library st \<Longrightarrow> fresh_library (readconfigenv h fds v st)" for v st
    by (simp add: readconfigenv_def fresh_readconfig split: option.split)
  have 4: "fresh_library st \<Longrightarrow> fresh_library (readconfigenvtext h fds v st)" for v st
    by (simp add: readconfigenvtext_def readconfigtext_def fresh_generic fresh_readconfig split: option.split)
  show "fresh_library st \<Longrightarrow> fresh_library (config_files h fds st)"
    unfolding config_files_def Let_def comp_def by (intro 1 2 3 4 fresh_readconfig)
qed

lemma new_ads_consistent:
  assumes "sv \<noteq> []" "length sv \<le> MAXSERVERS" "sortlist_ok so" shows "consistent {} {} (new_ads sv sl nd so)"
proof (rule consistent_I)
  have e: "the_queue s (new_ads sv sl nd so) = []" "a_query (new_ads sv sl nd so) = Map.empty" for s
    by (cases s; simp add: new_ads_def init_begin_def)+
  show "global_ok (new_ads sv sl nd so)" using assms by (simp add: global_ok_def new_ads_def init_begin_def)
  show "queues_ok {} {} (new_ads sv sl nd so)" by (simp add: queues_ok_def e)
qed (simp_all add: new_ads_def init_begin_def the_queue_def split: qstate.splits)

lemma init_logfn_fresh:
  assumes "adns_init_logfn h fds iflags cfg = Inr st"
  shows "fresh_library st" "a_servers (su_ads st) \<noteq> []"
    "sortlist_ok (a_sortlist (su_ads st)) \<Longrightarrow> consistent {} {} (su_ads st)"
proof -
  obtain s0 where s0: "fresh_library s0" "init_finish h s0 = Inr st"
  proof (cases cfg)
    case None
    then show thesis using assms that fresh_config_files [OF fresh_begin]
      by (auto simp: adns_init_logfn_def init_files_def Let_def split: if_splits)
  next
    case (Some t)
    have "fresh_library (readconfigtext h fds t (init_begin iflags))"
      by (simp add: readconfigtext_def fresh_generic fresh_readconfig)
    then show thesis using Some assms that
      by (auto simp: adns_init_logfn_def init_strcfg_def Let_def split: if_splits)
  qed
  have st: "st = (if a_servers (su_ads s0) = [] then upd_ads (addserver INADDR_LOOPBACK) s0 else s0)"
    using s0(2) by (auto simp: init_finish_def Let_def split: if_splits)
  show f: "fresh_library st" using st s0(1) fresh_addserver by simp
  show n: "a_servers (su_ads st) \<noteq> []" using st by (auto simp: upd_ads_def addserver_def MAXSERVERS_def)
  assume "sortlist_ok (a_sortlist (su_ads st))"
  then show "consistent {} {} (su_ads st)" using f n new_ads_consistent by (auto simp: fresh_library_def fresh_ads_def)
qed

text \<open>C4: From the call that makes a library, with any files, environment and flags that give a sort list of
  networks (no address with a bit outside its mask), through all the calls of a user and whatever name
  servers and sockets answer, but for a datagram refused as too long: as long as the calls return, every
  check of the library's own consistency holds.\<close>

theorem library_stays_consistent:
  assumes "adns_init_logfn h fds iflags cfg = Inr st" "sortlist_ok (a_sortlist (su_ads st))"
    and "(library_call sys)\<^sup>*\<^sup>* (su_ads st) b" "no_msgsize sys"
  shows "consistent {} {} b"
  using calls_keep_consistent [OF assms(3) init_logfn_fresh(3) [OF assms(1,2)] assms(4)] .

text \<open>A system with no files and an empty environment.\<close>

definition bare_host :: host where
  "bare_host =
     \<lparr>ho_file = (\<lambda>_. Not_opened E_NOENT), ho_env = (\<lambda>_. None), ho_aton = (\<lambda>_. None), ho_proto = True,
      ho_socket = 0, ho_getfl = 0, ho_setfl = 0\<rparr>"

lemma bare_host_simps [simp]:
  "ho_file bare_host n = Not_opened E_NOENT" "ho_env bare_host v = None" "ho_aton bare_host t = None"
  "ho_proto bare_host" "ho_socket bare_host = 0" "adns_setnonblock bare_host = 0"
  by (simp_all add: bare_host_def adns_setnonblock_def)

lemma bare_config: "config_files bare_host (Suc n) st = st"
proof -
  have "env_options bare_host v = id" "env_search bare_host v = id" "readconfigenv bare_host (Suc n) v = id"
    "readconfigenvtext bare_host (Suc n) v = id" "readconfig bare_host (Suc n) v = id" for v
    by (simp_all add: fun_eq_iff env_options_def env_search_def readconfigenv_def readconfigenvtext_def)
  then show ?thesis by (simp only: config_files_def Let_def comp_id id_comp id_apply)
qed

lemma bare_init:
  "adns_init_logfn bare_host 1 0 None = Inr (upd_ads (addserver INADDR_LOOPBACK) (init_begin 0))"
proof -
  have "config_files bare_host 1 (init_begin 0) = init_begin 0" using bare_config [of 0] by simp
  moreover have "su_errno (init_begin 0) = 0" "a_servers (su_ads (init_begin 0)) = []" by (simp_all add: init_begin_def)
  ultimately show ?thesis by (simp add: adns_init_logfn_def init_files_def init_finish_def)
qed

theorem library_stays_consistent_witness:
  "\<exists>b. adns_submit sending (1, 0) None ''www.example.org'' r_addr qf_none
         (su_ads (upd_ads (addserver INADDR_LOOPBACK) (init_begin 0))) = Some (Inr (0, b)) \<and> consistent {} {} b"
proof -
  let ?a = "su_ads (upd_ads (addserver INADDR_LOOPBACK) (init_begin 0))"
  have so: "sortlist_ok (a_sortlist ?a)" by (simp add: sortlist_ok_def init_begin_def upd_ads_def addserver_def)
  have w: "consistent {} {} ?a" by (rule init_logfn_fresh(3) [OF bare_init so])
  obtain r where r: "submit_new sending (1, 0) ''www.example.org'' r_addr qf_none ?a = Some r"
    using submit_new_ok [OF w, of qf_none sending "(1, 0)" "''www.example.org''" r_addr] by (auto simp: qf_none_def)
  have "findtype r_addr \<noteq> None" by (simp add: findtype_find typeinfos_def plain_type_def rrtypes bit_iff_odd)
  then obtain b where b: "r = Inr (a_fresh ?a, b)" using r by (auto simp: submit_new_def Let_def)
  have f: "a_fresh ?a = 0" by (simp add: upd_ads_def init_begin_def addserver_def)
  have s: "adns_submit sending (1, 0) None ''www.example.org'' r_addr qf_none ?a = Some (Inr (0, b))"
    using r b f by (simp add: adns_submit_def)
  then have "library_call sending ?a b" by (rule submits [rotated]) simp
  then have "consistent {} {} b"
    by (intro library_stays_consistent [OF bare_init so _ sending_simps(1)]) blast
  then show ?thesis using s by blast
qed

subsection \<open>Lines of files and texts\<close>

definition short_line :: "string \<Rightarrow> bool" where
  "short_line l \<longleftrightarrow> length l < LINEBUF - 1 \<and> NL \<notin> set l \<and> NUL \<notin> set l"

lemma gl_scan_line:
  "length (acc @ l) < LINEBUF - 1 \<Longrightarrow> NL \<notin> set l \<Longrightarrow> NUL \<notin> set l \<Longrightarrow> gl_scan err acc (l @ NL # r) = (Gl_line (acc @ l), r)"
proof (induction l arbitrary: acc)
  case Nil
  then show ?case by (subst gl_scan.simps) (simp add: NL_def NUL_def)
next
  case (Cons c l)
  then show ?case by (subst gl_scan.simps) auto
qed

lemma file_lines_lines:
  "list_all short_line ls \<Longrightarrow> file_lines None (concat (map (\<lambda>l. l @ [NL]) ls)) = map Gl_line ls"
proof (induction ls)
  case Nil
  show ?case by (simp add: file_lines.simps gl_file_def gl_scan.simps LINEBUF_def)
next
  case (Cons l ls)
  then show ?case
    using gl_scan_line [of "[]" l None "concat (map (\<lambda>l. l @ [NL]) ls)"]
    by (subst file_lines.simps) (simp add: gl_file_def short_line_def)
qed

lemma gl_text_line:
  assumes "short_line l" "CHR '';'' \<notin> set l" "r = [] \<or> text_sep (hd r)"
  shows "gl_text (NL # l @ r) = (Gl_line l, r)" "l \<noteq> [] \<Longrightarrow> gl_text (l @ r) = (Gl_line l, r)"
proof -
  have n: "\<forall>c \<in> set l. \<not> text_sep c" using assms(1,2) by (auto simp: short_line_def text_sep_def)
  have e: "takeWhile (\<lambda>c. \<not> text_sep c) (l @ r) = l" "dropWhile (\<lambda>c. \<not> text_sep c) (l @ r) = r"
    using n assms(3) by (cases r; simp add: takeWhile_append2 dropWhile_append2)+
  have len: "length l < LINEBUF" using assms(1) by (simp add: short_line_def LINEBUF_def)
  show "gl_text (NL # l @ r) = (Gl_line l, r)"
    using e len by (simp add: gl_text_def text_sep_def [of NL] Let_def)
  show "l \<noteq> [] \<Longrightarrow> gl_text (l @ r) = (Gl_line l, r)"
    using e len n by (cases l) (simp_all add: gl_text_def Let_def)
qed

lemma text_lines_rest:
  "list_all (\<lambda>l. short_line l \<and> CHR '';'' \<notin> set l) ls \<Longrightarrow>
   text_lines (concat (map (\<lambda>l. NL # l) ls)) = map Gl_line ls"
proof (induction ls)
  case Nil
  show ?case by (simp add: text_lines.simps gl_text_def)
next
  case (Cons l ls)
  have "concat (map (\<lambda>l. NL # l) ls) = [] \<or> text_sep (hd (concat (map (\<lambda>l. NL # l) ls)))"
    by (cases ls) (simp_all add: text_sep_def)
  then show ?case using Cons gl_text_line(1) [of l] by (subst text_lines.simps) simp
qed

lemma lines_shift: "concat (map (\<lambda>l. l @ [c]) (l # ls)) = l @ concat (map (\<lambda>l. c # l) (ls @ [[]]))"
proof (induction ls arbitrary: l)
  case (Cons k ls)
  then show ?case using Cons [of k] by simp
qed simp

lemma blank_line [simp]: "config_line h rc [] st = st"
  by (simp add: config_line_def strip_end_def)

text \<open>C15: A configuration whose lines are shorter than the buffer and have no semicolon means the same in a
  file and in a variable of the environment, or as the text that a caller supplies.\<close>

theorem config_text_like_file:
  assumes "list_all (\<lambda>l. short_line l \<and> CHR '';'' \<notin> set l) ls" "config = concat (map (\<lambda>l. l @ [NL]) ls)"
  shows "readconfigtext h fds config st =
    readconfiggeneric h (readconfig h fds) (file_lines None config) st"
proof (cases ls)
  case Nil
  then show ?thesis using assms(2)
    by (simp add: readconfigtext_def text_lines.simps gl_text_def file_lines.simps gl_file_def gl_scan.simps LINEBUF_def)
next
  case (Cons l ks)
  have short: "list_all short_line ls" using assms(1) by (simp add: list_all_iff)
  have f: "file_lines None config = Gl_line l # map Gl_line ks"
    using file_lines_lines [OF short] assms(2) Cons by simp
  let ?r = "concat (map (\<lambda>l. NL # l) (ks @ [[]]))"
  have c: "config = l @ ?r" using assms(2) Cons lines_shift [of NL l ks] by simp
  have r: "text_lines ?r = map Gl_line ks @ [Gl_line []]"
    using text_lines_rest [of "ks @ [[]]"] assms(1) Cons by (simp add: short_line_def LINEBUF_def)
  have h: "text_sep (hd ?r)" "?r \<noteq> []" by (cases ks; simp add: text_sep_def)+
  have "text_lines config = (if l = [] then [] else [Gl_line l]) @ map Gl_line ks @ [Gl_line []]"
  proof (cases "l = []")
    case True
    then show ?thesis using r c by simp
  next
    case False
    have "gl_text config = (Gl_line l, ?r)" using gl_text_line(2) [of l ?r] assms(1) Cons h False c by simp
    then show ?thesis using r False by (subst text_lines.simps) simp
  qed
  then show ?thesis using f by (auto simp: readconfigtext_def readconfiggeneric_def)
qed

theorem config_text_like_file_witness:
  "readconfigtext bare_host 3 (''search a'' @ [NL] @ ''options ndots:2'' @ [NL]) (init_begin 0) =
   readconfiggeneric bare_host (readconfig bare_host 3)
     (file_lines None (''search a'' @ [NL] @ ''options ndots:2'' @ [NL])) (init_begin 0)"
  by (rule config_text_like_file [of "[''search a'', ''options ndots:2'']"])
    (simp_all add: short_line_def LINEBUF_def NL_def NUL_def)

subsection \<open>Masks and options\<close>

lemma and_top: "(n :: nat) AND push_bit k (mask j) = n div 2 ^ k mod 2 ^ j * 2 ^ k"
proof -
  have "n AND push_bit k (mask j) = push_bit k (take_bit j (drop_bit k n))"
    by (rule bit_eqI) (auto simp: bit_simps)
  then show ?thesis by (simp add: push_bit_eq_mult take_bit_eq_mod drop_bit_eq_div)
qed

lemma class_bits:
  "(b :: 32 word) AND 0xc0000000 = 0x80000000 \<longleftrightarrow> unat b div 2 ^ 30 = 2"
  "b AND 0xf0000000 = 0xe0000000 \<longleftrightarrow> unat b div 2 ^ 28 = 14"
proof -
  have n: "unat b < 2 ^ 32" using unsigned_less [of b] by simp
  have a: "unat (b AND 0xc0000000) = unat b div 2 ^ 30 mod 4 * 2 ^ 30"
    "unat (b AND 0xf0000000) = unat b div 2 ^ 28 mod 16 * 2 ^ 28"
    using and_top [of "unat b" 30 2] and_top [of "unat b" 28 4]
    by (simp_all add: unsigned_and_eq push_bit_eq_mult mask_eq_exp_minus_1)
  have m: "unat b div 2 ^ 30 mod 4 = unat b div 2 ^ 30" "unat b div 2 ^ 28 mod 16 = unat b div 2 ^ 28" using n by simp_all
  show "b AND 0xc0000000 = 0x80000000 \<longleftrightarrow> unat b div 2 ^ 30 = 2"
    "b AND 0xf0000000 = 0xe0000000 \<longleftrightarrow> unat b div 2 ^ 28 = 14"
    by (simp_all only: word_unat_eq_iff a m) simp_all
qed

text \<open>Without a mask only two ranges of networks are taken by the sort list: class B, and multicast
  addresses, which get the mask of class A. Networks of class A and C are refused.\<close>

theorem class_mask_classes:
  "class_mask b =
     (if 0x80000000 \<le> b \<and> b < 0xc0000000 then Some 0xffff0000
      else if 0xe0000000 \<le> b \<and> b < 0xf0000000 then Some 0xff000000 else None)"
proof -
  have z: "(if b = 0 then 1 else 0) AND (0x80000000 :: 32 word) = 0" by simp
  have "unat b div 2 ^ 30 = 2 \<longleftrightarrow> 0x80000000 \<le> b \<and> b < 0xc0000000"
    "unat b div 2 ^ 28 = 14 \<longleftrightarrow> 0xe0000000 \<le> b \<and> b < 0xf0000000"
    by (simp_all add: word_le_nat_alt word_less_nat_alt) linarith+
  then show ?thesis unfolding class_mask_def z class_bits by simp
qed

text \<open>Asking for no checks of consistency asks for some; and an option that is not the last one is not
  understood.\<close>

lemma words_at_word: "w \<noteq> [] \<Longrightarrow> \<forall>c \<in> set w. \<not> ctype_whitespace c \<Longrightarrow> words_at w = [(w, w)]"
proof -
  assume w: "w \<noteq> []" "\<forall>c \<in> set w. \<not> ctype_whitespace c"
  have "dropWhile ctype_whitespace w = w" using w by (cases w) simp_all
  moreover have "takeWhile (\<lambda>c. \<not> ctype_whitespace c) w = w" "dropWhile (\<lambda>c. \<not> ctype_whitespace c) w = []"
    using w(2) by (simp_all add: takeWhile_eq_all_conv)
  ultimately have "nextword w = Some (w, w, [])" using w(1) by (simp add: nextword_def)
  then show ?thesis by (simp add: words_at.simps) (simp add: words_at.simps nextword_def)
qed

theorem checkc_none_checks:
  "su_iflags (ccf_options ''adns_checkc:none'' st) = su_iflags st AND NOT if_checkc_freq OR if_checkc_entex"
  by (simp add: ccf_options_def words_at_word ctype_whitespace_def NL_def TAB_def one_option_def Let_def)

subsection \<open>Files that include themselves\<close>

text \<open>C38: A configuration file that includes itself is opened until the process has no more descriptors, and
  then no library is made.\<close>

theorem include_itself_fails:
  assumes "ho_file h ''/etc/resolv.conf'' = Opened (''include /etc/resolv.conf'' @ [NL]) None" "\<forall>v. ho_env h v = None"
    and "ho_file h ''/etc/resolv-adns.conf'' = Not_opened E_NOENT"
  shows "adns_init h fds iflags = Inl E_MFILE"
proof -
  let ?f = "''/etc/resolv.conf''"
  have l: "file_lines None (''include /etc/resolv.conf'' @ [NL]) = [Gl_line (''include /etc/resolv.conf'')]"
    using file_lines_lines [of "[''include /etc/resolv.conf'']"] by (simp add: short_line_def LINEBUF_def NL_def NUL_def)
  have c: "config_line h rc ''include /etc/resolv.conf'' st = rc ?f st" for rc st
    by (simp add: config_line_def strip_end_def ctype_whitespace_def NL_def TAB_def directive_def ccf_include_def)
  have r: "su_errno st = 0 \<Longrightarrow> su_errno (readconfig h n ?f st) = E_MFILE" for n st
    by (induction n) (simp_all add: saveerr_def assms(1) l [simplified] readconfiggeneric_def c)
  have a: "su_errno (readconfig h fds ''/etc/resolv-adns.conf'' st) = su_errno st" if "su_errno st \<noteq> 0" for st
    using that assms(3) by (cases fds) (simp_all add: saveerr_def)
  have e: "env_options h v = id" "env_search h v = id" "readconfigenv h fds v = id" "readconfigenvtext h fds v = id" for v
    using assms(2) by (simp_all add: fun_eq_iff env_options_def env_search_def readconfigenv_def readconfigenvtext_def)
  have "su_errno (config_files h fds (init_begin iflags)) = E_MFILE"
    using a [of "readconfig h fds ?f (init_begin iflags)"] r [of "init_begin iflags" fds]
    by (simp add: config_files_def e) (simp add: init_begin_def E_MFILE_def)
  then show ?thesis by (simp add: adns_init_def init_files_def E_MFILE_def E_INVAL_def Let_def)
qed

theorem include_itself_fails_witness:
  "adns_init (bare_host\<lparr>ho_file := (\<lambda>n. if n = ''/etc/resolv.conf''
     then Opened (''include /etc/resolv.conf'' @ [NL]) None else Not_opened E_NOENT)\<rparr>) 1021 0 = Inl E_MFILE"
  by (rule include_itself_fails) (simp_all add: bare_host_def)

subsection \<open>What a configuration file says\<close>

definition conf_word :: "string \<Rightarrow> bool" where
  "conf_word w \<longleftrightarrow> w \<noteq> [] \<and> (\<forall>c \<in> set w. \<not> ctype_whitespace c \<and> c \<noteq> NUL)"

datatype setting = Set_server string | Set_search "string list" | Set_ndots nat | Set_comment string

fun setting_words :: "setting \<Rightarrow> string list" where
  "setting_words (Set_server t) = [''nameserver'', t]"
| "setting_words (Set_search ws) = ''search'' # ws"
| "setting_words (Set_ndots n) = [''options'', ''ndots:'' @ dec n]"
| "setting_words (Set_comment t) = [''#'', t]"

definition setting_line :: "setting \<Rightarrow> string" where
  "setting_line s = tl (concat (map (\<lambda>w. CHR '' '' # w) (setting_words s)))"

fun setting_ok :: "setting \<Rightarrow> bool" where
  "setting_ok (Set_server t) = conf_word t"
| "setting_ok (Set_search ws) = list_all conf_word ws"
| "setting_ok (Set_ndots n) = (n \<le> INT_MAX_nat)"
| "setting_ok (Set_comment t) = True"

fun setting_effect :: "host \<Rightarrow> setting \<Rightarrow> libsetup \<Rightarrow> libsetup" where
  "setting_effect h (Set_server t) st =
     (case ho_aton h t of None \<Rightarrow> configparseerr st | Some w \<Rightarrow> upd_ads (addserver w) st)"
| "setting_effect h (Set_search ws) st = upd_ads (\<lambda>a. a\<lparr>a_searchlist := ws\<rparr>) st"
| "setting_effect h (Set_ndots n) st = upd_ads (\<lambda>a. a\<lparr>a_searchndots := n\<rparr>) st"
| "setting_effect h (Set_comment t) st = st"

lemma strip_end_last: "l \<noteq> [] \<Longrightarrow> \<not> ctype_whitespace (last l) \<Longrightarrow> strip_end l = l"
  by (cases l rule: rev_cases) (simp_all add: strip_end_def)

lemma space_white [simp]: "ctype_whitespace (CHR '' '')"
  by (simp add: ctype_whitespace_def)

lemma word_split:
  assumes "\<forall>c \<in> set w. \<not> ctype_whitespace c" "r = [] \<or> ctype_whitespace (hd r)"
  shows "takeWhile (\<lambda>c. \<not> ctype_whitespace c) (w @ r) = w" "dropWhile (\<lambda>c. \<not> ctype_whitespace c) (w @ r) = r"
  using assms by (cases r; simp add: takeWhile_append2 dropWhile_append2)+

lemma words_at_joined:
  "list_all conf_word ws \<Longrightarrow> map fst (words_at (concat (map (\<lambda>w. CHR '' '' # w) ws))) = ws"
proof (induction ws)
  case Nil
  show ?case by (simp add: words_at.simps nextword_def)
next
  case (Cons w ws)
  let ?r = "concat (map (\<lambda>w. CHR '' '' # w) ws)"
  have w: "w \<noteq> []" "\<forall>c \<in> set w. \<not> ctype_whitespace c" using Cons.prems by (simp_all add: conf_word_def)
  have r: "?r = [] \<or> ctype_whitespace (hd ?r)" by (cases ws) simp_all
  have "dropWhile ctype_whitespace (CHR '' '' # w @ ?r) = w @ ?r" using w by (cases w) simp_all
  then have "nextword (CHR '' '' # w @ ?r) = Some (w, w @ ?r, ?r)"
    using word_split [OF w(2) r] w(1) by (simp add: nextword_def)
  then show ?case using Cons by (subst words_at.simps) simp
qed

text \<open>A line of words: the first is the directive.\<close>

lemma config_line_words:
  assumes d: "d \<noteq> []" "\<forall>c \<in> set d. \<not> ctype_whitespace c" "hd d \<noteq> CHR ''#''" "hd d \<noteq> CHR '';''" and ws: "list_all conf_word ws"
  shows "config_line h rc (d @ concat (map (\<lambda>w. CHR '' '' # w) ws)) st =
    directive h rc d (tl (concat (map (\<lambda>w. CHR '' '' # w) ws))) st"
proof -
  let ?r = "concat (map (\<lambda>w. CHR '' '' # w) ws)"
  have "\<not> ctype_whitespace (last (d @ ?r))"
  proof (cases ws rule: rev_cases)
    case Nil
    then show ?thesis using d by simp
  next
    case (snoc vs v)
    then show ?thesis using ws by (auto simp: conf_word_def)
  qed
  then have s: "strip_end (d @ ?r) = d @ ?r" using d(1) by (intro strip_end_last) simp_all
  have p: "dropWhile ctype_whitespace (d @ ?r) = d @ ?r" using d(1,2) by (cases d) simp_all
  have r: "?r = [] \<or> ctype_whitespace (hd ?r)" by (cases ws) simp_all
  have a: "dropWhile ctype_whitespace ?r = tl ?r"
  proof (cases ws)
    case (Cons v vs)
    then have "v \<noteq> []" "\<not> ctype_whitespace (hd v)" using ws by (auto simp: conf_word_def)
    then show ?thesis using Cons by (cases v) simp_all
  qed simp
  show ?thesis using d by (simp add: config_line_def Let_def s p word_split [OF d(2) r] a)
qed

lemma words_at_tl: "words_at (tl (concat (map (\<lambda>w. CHR '' '' # w) ws))) = words_at (concat (map (\<lambda>w. CHR '' '' # w) ws))"
  by (cases ws) (simp_all add: words_at.simps nextword_def)

lemma strtoul10_dec: "n < 2 ^ 64 \<Longrightarrow> strtoul10 (dec n) = (n, [])"
proof -
  assume n: "n < 2 ^ 64"
  obtain c t where d: "dec n = c # t" using dec_nonempty [of n] by (cases "dec n") auto
  have c: "is_digit c" using dec_all_digits [of n] d by simp
  then have "\<not> is_space c" "c \<noteq> CHR ''-''" "c \<noteq> CHR ''+''" by (auto simp: is_digit_def is_space_def)
  then have h: "dropWhile is_space (dec n) = dec n" "hd (dec n) \<noteq> CHR ''-''" "hd (dec n) \<noteq> CHR ''+''"
    using d by simp_all
  have tw: "takeWhile is_digit (dec n) = dec n" "dropWhile is_digit (dec n) = []"
    using dec_all_digits [of n] by (simp_all add: takeWhile_eq_all_conv)
  show ?thesis using n by (simp add: strtoul10_def Let_def h tw dec_nonempty)
qed

lemma dec_conf_word: "conf_word (''ndots:'' @ dec n)"
proof -
  have "\<not> ctype_whitespace c \<and> c \<noteq> NUL" if "c \<in> set (dec n)" for c
  proof -
    have "is_digit c" using dec_all_digits [of n] that by blast
    then show ?thesis by (auto simp: is_digit_def ctype_whitespace_def NL_def TAB_def NUL_def)
  qed
  then show ?thesis by (auto simp: conf_word_def ctype_whitespace_def NL_def TAB_def NUL_def)
qed

lemma setting_read:
  assumes "setting_ok s"
  shows "config_line h rc (setting_line s) st = setting_effect h s st"
proof (cases s)
  case (Set_comment t)
  have "\<exists>x. strip_end (CHR ''#'' # y) = CHR ''#'' # x" for y
  proof -
    have "dropWhile ctype_whitespace (rev y @ [CHR ''#'']) = dropWhile ctype_whitespace (rev y) @ [CHR ''#'']"
      by (induction "rev y") (auto simp: dropWhile_append ctype_whitespace_def NL_def TAB_def)
    then show ?thesis by (simp add: strip_end_def)
  qed
  then obtain x where "strip_end (CHR ''#'' # CHR '' '' # t) = CHR ''#'' # x" by blast
  then show ?thesis using Set_comment
    by (simp add: setting_line_def config_line_def Let_def) (simp add: ctype_whitespace_def NL_def TAB_def)
next
  case (Set_server t)
  then show ?thesis
    using assms config_line_words [of "''nameserver''" "[t]" h rc st]
    by (simp add: setting_line_def directive_def ccf_nameserver_def ctype_whitespace_def NL_def TAB_def)
next
  case (Set_search ws)
  then show ?thesis
    using assms config_line_words [of "''search''" ws h rc st] words_at_joined [of ws]
    by (simp add: setting_line_def directive_def ccf_search_def words_at_tl ctype_whitespace_def NL_def TAB_def)
next
  case (Set_ndots n)
  let ?w = "''ndots:'' @ dec n"
  have n: "n \<le> INT_MAX_nat" using assms Set_ndots by simp
  then have v: "strtoul10 (dec n) = (n, [])" by (intro strtoul10_dec) (simp add: INT_MAX_nat_def)
  have w: "words_at ?w = [(?w, ?w)]" using dec_conf_word [of n] by (intro words_at_word) (simp_all add: conf_word_def)
  have "ccf_options ?w st = upd_ads (\<lambda>a. a\<lparr>a_searchndots := n\<rparr>) st"
    using n v dec_nonempty [of n] by (simp add: ccf_options_def w [simplified] one_option_def Let_def)
  then show ?thesis
    using Set_ndots config_line_words [of "''options''" "[?w]" h rc st] dec_conf_word [of n]
    by (simp add: setting_line_def directive_def ctype_whitespace_def NL_def TAB_def)
qed

text \<open>C14: A configuration file of name servers, search lists, numbers of dots and comments does what its lines
  say, in their order; a name server that is no address is skipped, and one that is named twice or
  beyond the fifth has no effect.\<close>

theorem config_file_settings:
  assumes "list_all setting_ok ss" "list_all (short_line \<circ> setting_line) ss"
  shows "readconfiggeneric h rc (file_lines None (concat (map (\<lambda>s. setting_line s @ [NL]) ss))) st =
    fold (setting_effect h) ss st"
proof -
  have l: "file_lines None (concat (map (\<lambda>s. setting_line s @ [NL]) ss)) = map (Gl_line \<circ> setting_line) ss"
    using file_lines_lines [of "map setting_line ss"] assms(2) by (simp add: list_all_iff comp_def)
  have "fold (config_step h rc) (map (Gl_line \<circ> setting_line) ss) st = fold (setting_effect h) ss st"
    using assms(1) by (induction ss arbitrary: st) (simp_all add: setting_read)
  then show ?thesis by (simp add: l readconfiggeneric_def)
qed

theorem config_file_settings_witness:
  "readconfiggeneric (bare_host\<lparr>ho_aton := \<lambda>_. Some 7\<rparr>) (\<lambda>_. id)
     (file_lines None (concat (map (\<lambda>s. setting_line s @ [NL])
        [Set_comment ''local'', Set_search [''a'', ''b''], Set_server ''0.0.0.7'']))) (init_begin 0) =
   upd_ads (addserver 7) (upd_ads (\<lambda>a. a\<lparr>a_searchlist := [''a'', ''b'']\<rparr>) (init_begin 0))"
  by (subst config_file_settings)
    (simp_all add: conf_word_def setting_line_def short_line_def LINEBUF_def ctype_whitespace_def NL_def NUL_def TAB_def)

text \<open>A sort list may name an address with the length of its network, and then the address is kept as it is:
  only a mask of the form of an address is compared with it. Such a library fails its checks from the
  start.\<close>

definition net_mask :: "nat \<Rightarrow> 32 word" where
  "net_mask n = ucast (push_bit (32 - n) (0xffffffff :: 64 word))"

lemma digits_plain: "\<forall>c \<in> set (dec n). \<not> ctype_whitespace c \<and> c \<noteq> NUL \<and> c \<noteq> CHR ''.'' \<and> c \<noteq> CHR '';'' \<and> c \<noteq> CHR ''/''"
proof
  fix c assume "c \<in> set (dec n)"
  then have "is_digit c" using dec_all_digits [of n] by blast
  then show "\<not> ctype_whitespace c \<and> c \<noteq> NUL \<and> c \<noteq> CHR ''.'' \<and> c \<noteq> CHR '';'' \<and> c \<noteq> CHR ''/''"
    by (auto simp: is_digit_def ctype_whitespace_def NL_def TAB_def NUL_def)
qed

lemma dec_two_digits: "n \<le> 32 \<Longrightarrow> length (dec n) \<le> 2"
  by (subst dec.simps, subst dec.simps) auto

lemma before_slash:
  "CHR ''/'' \<notin> set t \<Longrightarrow> takeWhile (\<lambda>c. c \<noteq> CHR ''/'') (t @ ''/'' @ r) = t"
  "CHR ''/'' \<notin> set t \<Longrightarrow> dropWhile (\<lambda>c. c \<noteq> CHR ''/'') (t @ ''/'' @ r) = ''/'' @ r"
  by (induction t) auto

lemma sort_entry_net:
  assumes "ho_aton h t = Some b" "CHR ''/'' \<notin> set t" "length t < 100" "n \<le> 32"
  shows "sort_entry h (t @ ''/'' @ dec n) = Some (b, net_mask n)"
proof -
  have d: "CHR ''.'' \<notin> set (dec n)" "strtoul10 (dec n) = (n, [])" using digits_plain [of n] strtoul10_dec [of n] assms(4) by auto
  show ?thesis
    using assms dec_two_digits [OF assms(4)] d before_slash [OF assms(2), of "dec n"]
    by (simp add: sort_entry_def sort_mask_def SORTBUF_def Let_def net_mask_def)
qed

theorem sortlist_host_bits:
  assumes t: "ho_aton h t = Some b" "conf_word t" "CHR ''/'' \<notin> set t" "CHR '';'' \<notin> set t" "length t < 100"
    and n: "n \<le> 32" "b AND NOT (net_mask n) \<noteq> 0"
    and h: "ho_proto h" "ho_socket h = 0" "adns_setnonblock h = 0"
  shows "\<exists>st. adns_init_logfn h fds iflags (Some (''sortlist '' @ t @ ''/'' @ dec n)) = Inr st \<and>
    a_sortlist (su_ads st) = [(b, net_mask n)] \<and> \<not> global_ok (su_ads st)"
proof -
  define w where "w = t @ ''/'' @ dec n"
  define l where "l = ''sortlist'' @ concat (map (\<lambda>w. CHR '' '' # w) [w])"
  have cw: "conf_word w" using t(2) digits_plain [of n] by (auto simp: w_def conf_word_def ctype_whitespace_def NL_def TAB_def NUL_def)
  have "length w < 110" using dec_two_digits [OF n(1)] t(5) by (simp add: w_def)
  moreover have "CHR '';'' \<notin> set w" using t(4) digits_plain [of n] by (auto simp: w_def)
  moreover have "NL \<notin> set w" "NUL \<notin> set w" using cw by (auto simp: conf_word_def ctype_whitespace_def)
  ultimately have short: "short_line l" "CHR '';'' \<notin> set l"
    by (auto simp: l_def short_line_def LINEBUF_def NL_def NUL_def)
  have "l \<noteq> []" by (simp add: l_def)
  then have "gl_text l = (Gl_line l, [])" using gl_text_line(2) [OF short, of "[]"] by simp
  then have lines: "text_lines l = [Gl_line l]"
    by (subst text_lines.simps) (simp add: text_lines.simps [of "[]"] gl_text_def)
  have ws: "words_at w = [(w, w)]" using cw by (intro words_at_word) (simp_all add: conf_word_def)
  have cl: "config_line h rc l st = directive h rc ''sortlist'' w st" for rc st
    using config_line_words [of "''sortlist''" "[w]" h rc st] cw
    by (simp add: l_def ctype_whitespace_def NL_def TAB_def)
  have se: "sort_entry h w = Some (b, net_mask n)" using sort_entry_net [OF t(1,3,5) n(1)] by (simp add: w_def)
  have rd: "readconfigtext h fds l (init_begin iflags) =
      upd_ads (\<lambda>a. a\<lparr>a_sortlist := [(b, net_mask n)]\<rparr>) (init_begin iflags)"
    by (simp add: readconfigtext_def readconfiggeneric_def lines cl directive_def ccf_sortlist_def ws se
        upd_ads_def init_begin_def MAXSORTLIST_def)
  have e: "''sortlist '' @ t @ ''/'' @ dec n = l" by (simp add: l_def w_def)
  have "adns_init_logfn h fds iflags (Some l) =
      Inr (upd_ads (addserver INADDR_LOOPBACK) (upd_ads (\<lambda>a. a\<lparr>a_sortlist := [(b, net_mask n)]\<rparr>) (init_begin iflags)))"
    using h by (simp add: adns_init_logfn_def init_strcfg_def init_finish_def Let_def rd) (simp add: upd_ads_def init_begin_def)
  then show ?thesis
    unfolding e using n(2)
    by (simp add: upd_ads_def init_begin_def addserver_def global_ok_def sortlist_ok_def)
qed

theorem sortlist_host_bits_witness:
  "\<exists>st. adns_init_logfn (bare_host\<lparr>ho_aton := \<lambda>t. if t = ''10.1.2.3'' then Some 0x0A010203 else None\<rparr>) 5 0
      (Some (''sortlist '' @ ''10.1.2.3'' @ ''/'' @ dec 8)) = Inr st \<and>
    a_sortlist (su_ads st) = [(0x0A010203, net_mask 8)] \<and> \<not> global_ok (su_ads st)"
  by (rule sortlist_host_bits)
    (simp_all add: conf_word_def ctype_whitespace_def NL_def TAB_def NUL_def net_mask_def bare_host_def adns_setnonblock_def)

subsection \<open>The end of a library\<close>

lemma first_head_None: "first_head ls = None \<longleftrightarrow> (\<forall>l \<in> set ls. l = [])"
  by (induction ls) (auto split: list.splits)

lemma first_head_Some: "first_head ls = Some q \<Longrightarrow> \<exists>l \<in> set ls. q \<in> set l"
  by (induction ls) (auto split: list.splits)

lemma no_family:
  assumes w: "consistent {} {} a" and c: "a_childw a = []" and q: "a_query a q = Some qu"
  shows "q_parent qu = None"
proof (rule ccontr)
  assume "q_parent qu \<noteq> None"
  then obtain p pu where p: "a_query a p = Some pu" "q \<in> set (q_children pu)"
    using wf_E(5) [OF w _ q] by (auto simp: family_ok_def)
  have "p \<in> set (the_queue (q_state pu) a)" "queue_ok a (q_state pu) pu" using wf_queued [OF w p(1)] by simp_all
  then show False using p(2) c by (cases "q_state pu") auto
qed

lemma cancel_keeps_childless:
  assumes w: "consistent {} {} a" and c: "a_childw a = []" and b: "consistent {} {} b"
    and q: "\<And>x. a_query b x \<noteq> None \<Longrightarrow> a_query b x = a_query a x"
  shows "a_childw b = []"
proof (rule ccontr)
  assume "a_childw b \<noteq> []"
  then obtain x where x: "x \<in> set (a_childw b)" by (cases "a_childw b") auto
  then obtain u where u: "a_query b x = Some u" using wf_get [OF b, of x Childw] by auto
  have "queue_ok b Childw u" by (rule wf_E(3) [OF b _ u]) (simp add: x)
  then have s: "q_state u = Childw" by simp
  have "a_query a x = Some u" using q [of x] u by simp
  then have "x \<in> set (the_queue Childw a)" using wf_queued(1) [OF w] s by fastforce
  then show False using c by simp
qed

text \<open>C28: Closing the library returns and leaves no query, when none of them waits for child queries.\<close>

theorem adns_finish_frees:
  assumes "consistent {} {} a" "a_childw a = []"
  shows "\<exists>b. adns_finish a = Some b \<and> (\<forall>q. a_query b q = None)"
  using assms
proof (induction "card {q. a_query a q \<noteq> None}" arbitrary: a rule: less_induct)
  case less
  note w = less.prems(1)
  show ?case
  proof (cases "first_head [a_udpw a, a_tcpw a, a_childw a, a_output a]")
    case None
    then have "the_queue s a = []" for s by (cases s) (simp_all split: list.splits)
    then have "a_query a q = None" for q using wf_live [OF w, of q] by simp
    then show ?thesis using None by (subst adns_finish.simps) simp
  next
    case (Some q)
    have "\<exists>s. q \<in> set (the_queue s a)" using first_head_Some [OF Some] by (auto intro: exI [of _ Tosend] exI [of _ Tcpw] exI [of _ Childw] exI [of _ Done])
    then obtain qu where qu: "a_query a q = Some qu" using wf_get [OF w] by blast
    obtain b where b: "adns_cancel q a = Some b" "consistent {} {} b"
      "\<forall>x. a_query b x = (if x = q \<or> x \<in> set (q_children qu) then None else a_query a x)"
      using adns_cancel_ok [OF w qu no_family [OF w less.prems(2) qu]] by blast
    have "\<forall>x. a_query a x \<noteq> None \<longrightarrow> x < a_fresh a" using wf_E(2) [OF w] unfolding queues_ok_def by blast
    then have "{x. a_query a x \<noteq> None} \<subseteq> {..<a_fresh a}" by blast
    then have fin: "finite {x. a_query a x \<noteq> None}" using finite_subset by blast
    have "{x. a_query b x \<noteq> None} \<subset> {x. a_query a x \<noteq> None}" using b(3) qu by auto
    then have "card {x. a_query b x \<noteq> None} < card {x. a_query a x \<noteq> None}" by (rule psubset_card_mono [OF fin])
    moreover have "a_query b x = a_query a x" if "a_query b x \<noteq> None" for x using b(3) that by (auto split: if_splits)
    then have "a_childw b = []" by (rule cancel_keeps_childless [OF w less.prems(2) b(2)])
    ultimately obtain c where "adns_finish b = Some c" "\<forall>q. a_query c q = None" using less.hyps b(2) by blast
    then show ?thesis using Some b(1) by (subst adns_finish.simps) simp
  qed
qed

theorem adns_finish_frees_witness: "\<exists>b. adns_finish waiting = Some b \<and> (\<forall>q. a_query b q = None)"
  by (rule adns_finish_frees) (simp_all, simp add: waiting_def library_def)

text \<open>Otherwise it cancels a child on its own, and the checks of consistency fail: a query waits for
  children and has none.\<close>

theorem cancel_only_child:
  assumes w: "consistent {} {} a" and q: "a_query a q = Some qu" "q_parent qu = Some p"
    and p: "a_query a p = Some pu" "q_children pu = [q]" "p \<in> set (a_childw a)"
    and run: "adns_cancel q a = Some b"
  shows "\<not> consistent {} {} b"
proof
  assume wb: "consistent {} {} b"
  have qp: "q \<noteq> p" using q p wf_E(5) [OF w _ q(1)] by (auto simp: family_ok_def)
  have leaf: "q_children qu = []" using wf_E(5) [OF w _ q(1)] q(2) by (auto simp: family_ok_def)
  let ?a1 = "put_query p (pu\<lparr>q_children := []\<rparr>) a"
  obtain l where l: "unlink q (the_queue (q_state qu) ?a1) = Some l"
    "b = free_query q (set_queue (q_state qu) l ?a1)"
    using run q p qp leaf unfolding adns_cancel_def
    by (subst (asm) cancel_list.simps)
      (auto simp: leave_parent_def unlink_def unlink_state_def cancel_list_Nil split: bind_splits if_splits)
  have pq: "a_query b p = Some (pu\<lparr>q_children := []\<rparr>)" using l(2) qp by simp
  have "p \<in> set (the_queue Childw b)"
    using l p(3) qp by (auto simp: unlink_def in_set_remove1 split: if_splits)
  then have "queue_ok b Childw (pu\<lparr>q_children := []\<rparr>)" using wf_E(3) [OF wb _ pq] by blast
  then show False by simp
qed

subsection \<open>Going through all queries\<close>

definition all_queues :: "ads \<Rightarrow> nat list" where
  "all_queues a = a_udpw a @ a_tcpw a @ a_childw a @ a_output a"

definition top_query :: "ads \<Rightarrow> nat \<Rightarrow> bool" where
  "top_query a q \<longleftrightarrow> (\<exists>qu. a_query a q = Some qu \<and> q_parent qu = None)"

text \<open>A user who calls until there is no more.\<close>

fun forall_run :: "nat \<Rightarrow> ads \<Rightarrow> nat option \<Rightarrow> nat list option" where
  "forall_run 0 a nqu = Some []"
| "forall_run (Suc n) a nqu =
     (case adns_forallqueries_next a nqu of
        None \<Rightarrow> None
      | Some None \<Rightarrow> Some []
      | Some (Some (q, nqu1)) \<Rightarrow> map_option ((#) q) (forall_run n a nqu1))"

lemma next_in_append:
  "distinct (l @ r) \<Longrightarrow> q \<in> set l \<Longrightarrow>
   next_in (l @ r) q = (case next_in l q of Some x \<Rightarrow> Some x | None \<Rightarrow> first_head [r])"
  "q \<notin> set l \<Longrightarrow> next_in (l @ r) q = next_in r q"
proof -
  show "distinct (l @ r) \<Longrightarrow> q \<in> set l \<Longrightarrow>
    next_in (l @ r) q = (case next_in l q of Some x \<Rightarrow> Some x | None \<Rightarrow> first_head [r])"
  proof (induction l)
    case (Cons x l)
    show ?case
    proof (cases "x = q")
      case True
      then show ?thesis by (cases l; cases r) simp_all
    next
      case False
      then show ?thesis using Cons by simp
    qed
  qed simp
  show "q \<notin> set l \<Longrightarrow> next_in (l @ r) q = next_in r q" by (induction l) simp_all
qed

lemma next_in_None: "distinct l \<Longrightarrow> q \<in> set l \<Longrightarrow> next_in l q = None \<longleftrightarrow> last l = q"
proof (induction l)
  case (Cons x l)
  show ?case
  proof (cases "x = q")
    case True
    then show ?thesis using Cons.prems by (cases l) (simp_all, metis last_in_set list.distinct(1))
  next
    case False
    then show ?thesis using Cons by (cases l) simp_all
  qed
qed simp

lemma first_head_concat: "first_head ls = first_head [concat ls]"
proof (induction ls)
  case (Cons l ls)
  then show ?case by (cases l) simp_all
qed simp

lemma all_queues_distinct:
  assumes w: "consistent {} {} a" shows "distinct (all_queues a)"
proof -
  have d: "distinct (the_queue s a)" for s using wf_E(2) [OF w] by (simp add: queues_ok_def)
  have n: "set (the_queue s a) \<inter> set (the_queue t a) = {}" if "s \<noteq> t" for s t using wf_one_queue [OF w, of _ s t] that by auto
  show ?thesis using d [of Tosend] d [of Tcpw] d [of Childw] d [of Done]
      n [of Tosend Tcpw] n [of Tosend Childw] n [of Tosend Done] n [of Tcpw Childw] n [of Tcpw Done] n [of Childw Done]
    by (auto simp: all_queues_def)
qed

lemma forall_step_next:
  assumes w: "consistent {} {} a" and q: "q \<in> set (all_queues a)"
  shows "forall_step a q = next_in (all_queues a) q"
proof -
  note d = all_queues_distinct [OF w, unfolded all_queues_def]
  have h: "first_head [a_tcpw a, a_childw a, a_output a] = first_head [a_tcpw a @ a_childw a @ a_output a]"
    "first_head [a_childw a, a_output a] = first_head [a_childw a @ a_output a]"
    using first_head_concat [of "[a_tcpw a, a_childw a, a_output a]"] first_head_concat [of "[a_childw a, a_output a]"] by simp_all
  have t: "is_tail l q \<longleftrightarrow> q \<in> set l \<and> last l = q" for l by (auto simp: is_tail_def)
  consider (u) "q \<in> set (a_udpw a)" | (t) "q \<notin> set (a_udpw a)" "q \<in> set (a_tcpw a)"
    | (c) "q \<notin> set (a_udpw a)" "q \<notin> set (a_tcpw a)" "q \<in> set (a_childw a)"
    | (o) "q \<notin> set (a_udpw a)" "q \<notin> set (a_tcpw a)" "q \<notin> set (a_childw a)"
    by blast
  then show ?thesis
  proof cases
    case u
    have "distinct (a_udpw a @ (a_tcpw a @ a_childw a @ a_output a))" using d by simp
    note e = next_in_append(1) [OF this u]
    show ?thesis using next_in_None [of "a_udpw a" q] d u
      by (auto simp: forall_step_def link_next_def all_queues_def e h t simp del: first_head.simps split: option.split)
  next
    case t': t
    have "distinct (a_tcpw a @ (a_childw a @ a_output a))" using d by simp
    note e = next_in_append(1) [OF this t'(2)]
    show ?thesis using next_in_None [of "a_tcpw a" q] d t'
      by (auto simp: forall_step_def link_next_def all_queues_def e h t next_in_append(2) simp del: first_head.simps split: option.split)
  next
    case c
    have "distinct (a_childw a @ a_output a)" using d by simp
    note e = next_in_append(1) [OF this c(3)]
    show ?thesis using next_in_None [of "a_childw a" q] d c
      by (auto simp: forall_step_def link_next_def all_queues_def e h t next_in_append(2) simp del: first_head.simps split: option.split)
  next
    case o
    then show ?thesis
      by (auto simp: forall_step_def link_next_def all_queues_def t next_in_append(2) split: option.split)
  qed
qed

lemma next_in_split: "distinct (l @ q # r) \<Longrightarrow> next_in (l @ q # r) q = first_head [r]"
  by (subst next_in_append(2)) (auto split: list.split)

lemma forall_next_skips:
  assumes w: "consistent {} {} a" and e: "all_queues a = l @ r"
  shows "adns_forallqueries_next a (first_head [r]) =
    Some (case dropWhile (\<lambda>q. \<not> top_query a q) r of [] \<Rightarrow> None | q # r' \<Rightarrow> Some (q, first_head [r']))"
  using e
proof (induction r arbitrary: l)
  case Nil
  show ?case by (subst adns_forallqueries_next.simps) simp
next
  case (Cons q r)
  have "q \<in> set (all_queues a)" using Cons.prems by simp
  then have q: "\<exists>s. q \<in> set (the_queue s a)"
    by (auto simp: all_queues_def intro: exI [of _ Tosend] exI [of _ Tcpw] exI [of _ Childw] exI [of _ Done])
  then obtain qu where qu: "a_query a q = Some qu" using wf_get [OF w] by blast
  have st: "forall_step a q = first_head [r]"
    using forall_step_next [OF w \<open>q \<in> set (all_queues a)\<close>] next_in_split [of l q r] all_queues_distinct [OF w] Cons.prems by simp
  show ?case
  proof (cases "q_parent qu = None")
    case True
    then show ?thesis using qu st by (subst adns_forallqueries_next.simps) (simp add: top_query_def)
  next
    case False
    have "adns_forallqueries_next a (first_head [q # r]) = adns_forallqueries_next a (first_head [r])"
    proof -
      have h: "first_head [q # r] = Some q" by simp
      obtain y where "q_parent qu = Some y" using False by blast
      then show ?thesis using qu st
        by (subst adns_forallqueries_next.simps) (simp add: h del: first_head.simps)
    qed
    then show ?thesis using Cons.IH [of "l @ [q]"] Cons.prems qu False by (simp add: top_query_def)
  qed
qed

lemma forall_run_rest:
  assumes w: "consistent {} {} a" and e: "all_queues a = l @ r" and n: "length r < n"
  shows "forall_run n a (first_head [r]) = Some (filter (top_query a) r)"
  using e n
proof (induction n arbitrary: l r)
  case (Suc n)
  let ?d = "dropWhile (\<lambda>q. \<not> top_query a q) r"
  have f: "filter (top_query a) r = filter (top_query a) ?d"
    by (induction r) simp_all
  show ?case
  proof (cases ?d)
    case Nil
    have "adns_forallqueries_next a (first_head [r]) = Some None" "filter (top_query a) r = []"
      using forall_next_skips [OF w Suc.prems(1)] f unfolding Nil by simp_all
    then show ?thesis by (simp del: first_head.simps)
  next
    case (Cons q r')
    let ?t = "takeWhile (\<lambda>q. \<not> top_query a q) r"
    have r: "?t @ q # r' = r" using takeWhile_dropWhile_id [of "\<lambda>q. \<not> top_query a q" r] unfolding Cons .
    then have "all_queues a = (l @ ?t @ [q]) @ r'" using Suc.prems(1) by simp
    moreover have "length r = length ?t + Suc (length r')" using arg_cong [OF r, of length] by simp
    then have "length r' < n" using Suc.prems(2) by linarith
    ultimately have ih: "forall_run n a (first_head [r']) = Some (filter (top_query a) r')" by (rule Suc.IH)
    have t: "top_query a q" using Cons by (metis dropWhile_eq_Cons_conv)
    have "adns_forallqueries_next a (first_head [r]) = Some (Some (q, first_head [r']))"
      "filter (top_query a) r = q # filter (top_query a) r'"
      using forall_next_skips [OF w Suc.prems(1)] f t unfolding Cons by simp_all
    then show ?thesis using ih by (simp del: first_head.simps)
  qed
qed simp

text \<open>C27: The calls that go through all queries hand out each query of the user once, in the order of the
  queues, and no child query.\<close>

theorem forallqueries_in_order:
  assumes "consistent {} {} a" "length (all_queues a) < n"
  shows "forall_run n a (adns_forallqueries_begin a) = Some (filter (top_query a) (all_queues a))"
  using forall_run_rest [OF assms(1), of "[]" "all_queues a" n] assms(2)
    first_head_concat [of "[a_udpw a, a_tcpw a, a_childw a, a_output a]"]
  by (simp add: adns_forallqueries_begin_def all_queues_def)

theorem forallqueries_in_order_witness: "forall_run 5 waiting (adns_forallqueries_begin waiting) = Some [0]"
proof -
  have "all_queues waiting = [0]" by (simp add: all_queues_def waiting_def library_def)
  then show ?thesis using forallqueries_in_order [of waiting 5] by (simp add: top_query_def)
qed

end
