(* ===== verification/UserOutput.thy ===== *)
theory UserOutput
  imports Html Connection
begin

text \<open>
  What becomes of the pages: src/src/io/user_output.cxx and the four ways to use it in
  default_user_output.cxx, save_user_output.cxx, mirror_user_output.cxx and stats_user_output.cxx,
  and the names of the files of src/src/fetch/save_specific_buffer.cxx.
\<close>

subsection \<open>Files\<close>

text \<open>A file system without links: a name is the list of its components from the root. Rights and
  full disks have no counterpart.\<close>

datatype node = Dir | File string

record disk =
  dk_fs :: "string list \<Rightarrow> node option"
  dk_cwd :: "string list"

text \<open>Each component is looked up in a directory that exists.\<close>

fun walk :: "(string list \<Rightarrow> node option) \<Rightarrow> string list \<Rightarrow> string list \<Rightarrow> string list option" where
  "walk fs cur [] = Some cur"
| "walk fs cur (c # cs) =
     (if fs cur \<noteq> Some Dir then None
      else if c = [] \<or> c = ''.'' then walk fs cur cs
      else if c = ''..'' then walk fs (butlast cur) cs
      else walk fs (cur @ [c]) cs)"

definition resolve_path :: "disk \<Rightarrow> string \<Rightarrow> string list option" where
  "resolve_path k p =
     (if p = [] then None
      else walk (dk_fs k) (if hd p = CHR ''/'' then [] else dk_cwd k) (segs p))"

definition stat_ok :: "disk \<Rightarrow> string \<Rightarrow> bool" where
  "stat_ok k p \<longleftrightarrow> (case resolve_path k p of None \<Rightarrow> False | Some q \<Rightarrow> dk_fs k q \<noteq> None)"

definition set_node :: "string list \<Rightarrow> node \<Rightarrow> disk \<Rightarrow> disk" where
  "set_node q n k = k\<lparr>dk_fs := (dk_fs k)(q \<mapsto> n)\<rparr>"

definition mkdir :: "string \<Rightarrow> disk \<Rightarrow> disk" where
  "mkdir p k =
     (case resolve_path k (rev (dropWhile (\<lambda>c. c = CHR ''/'') (rev p))) of
        None \<Rightarrow> k
      | Some q \<Rightarrow> if dk_fs k q = None then set_node q Dir k else k)"

text \<open>An open file is its name from the root.\<close>

definition creat :: "string \<Rightarrow> disk \<Rightarrow> (string list \<times> disk) option" where
  "creat p k =
     (case resolve_path k p of
        None \<Rightarrow> None
      | Some q \<Rightarrow> if dk_fs k q = Some Dir then None else Some (q, set_node q (File []) k))"

definition append_file :: "string list \<Rightarrow> string \<Rightarrow> disk \<Rightarrow> disk" where
  "append_file q s k =
     (case dk_fs k q of Some (File t) \<Rightarrow> set_node q (File (t @ s)) k | _ \<Rightarrow> k)"

subsection \<open>Saving pages in numbered files\<close>

definition filesPerDir :: nat where "filesPerDir = 2000"
definition saveDir :: string where "saveDir = ''save/''"
definition indexFile :: string where "indexFile = ''index.html''"
definition nbDir :: nat where "nbDir = 1000"

text \<open>\<open>sv_end\<close> is the index of the last character of the name, \<open>sv_index\<close> the open index file.\<close>

record saver =
  sv_nbdir :: int
  sv_nbfile :: nat
  sv_name :: string
  sv_end :: nat
  sv_index :: "string list option"

definition add_slash :: "string \<Rightarrow> string" where
  "add_slash d = (if d \<noteq> [] \<and> last d \<noteq> CHR ''/'' then d @ ''/'' else d)"

definition save_initUserOutput :: "disk \<Rightarrow> saver \<times> disk" where
  "save_initUserOutput k =
     (\<lparr>sv_nbdir = - 1, sv_nbfile = filesPerDir, sv_name = add_slash saveDir @ ''d00000/f00000'',
       sv_end = length (add_slash saveDir) + 12, sv_index = None\<rparr>, mkdir saveDir k)"

text \<open>The digits of a number, from its last one backwards.\<close>

fun put_digits :: "string \<Rightarrow> nat \<Rightarrow> nat \<Rightarrow> string" where
  "put_digits s p n = (if n = 0 then s else put_digits (s[p := digit_chr (n mod 10)]) (p - 1) (n div 10))"

declare put_digits.simps [simp del]

definition pad_left :: "char \<Rightarrow> nat \<Rightarrow> string \<Rightarrow> string" where
  "pad_left c n s = replicate (n - length s) c @ s"

definition index_line :: "nat \<Rightarrow> url \<Rightarrow> string" where
  "index_line n u = pad_left (CHR '' '') 4 (dec n) @ '' '' @ fst (writeUrl u) @ [NL]"

text \<open>\<open>None\<close> is a call of \<open>exit\<close>, or a line that does not fit its buffer.\<close>

definition next_file :: "saver \<Rightarrow> disk \<Rightarrow> (saver \<times> disk) option" where
  "next_file v k =
     (if sv_nbfile v + 1 < filesPerDir then
        Some (v\<lparr>sv_nbfile := sv_nbfile v + 1, sv_name := put_digits (sv_name v) (sv_end v) (sv_nbfile v + 1)\<rparr>, k)
      else
        let e = sv_end v; nd = sv_nbdir v + 1; name = put_digits (sv_name v) (e - 7) (nat nd) in
        case creat (take (e - 5) name @ ''index'') (mkdir (take (e - 6) name) k) of
          None \<Rightarrow> None
        | Some (ix, k1) \<Rightarrow>
            Some (\<lparr>sv_nbdir = nd, sv_nbfile = 0, sv_name = take (e - 5) name @ ''f00000'',
                   sv_end = e, sv_index = Some ix\<rparr>, k1))"

definition save_loaded :: "url \<Rightarrow> string \<Rightarrow> saver \<times> disk \<Rightarrow> (saver \<times> disk) option" where
  "save_loaded u page vk =
     do {
       (v, k) \<leftarrow> next_file (fst vk) (snd vk);
       (q, k1) \<leftarrow> creat (sv_name v) k;
       let line = index_line (sv_nbfile v) u;
       (if length line > maxUrlSize + 30 then None
        else Some (v,
          append_file q page
            (case sv_index v of None \<Rightarrow> k1 | Some ix \<Rightarrow> append_file ix line k1))) }"

subsection \<open>A mirror of the sites\<close>

definition mirror_initUserOutput :: "disk \<Rightarrow> string \<times> disk" where
  "mirror_initUserOutput k = (add_slash saveDir @ ''d00000/'', mkdir saveDir k)"

text \<open>The last digits of a number, written from the last one backwards.\<close>

fun low_digits :: "nat \<Rightarrow> nat \<Rightarrow> string" where
  "low_digits 0 d = []"
| "low_digits (Suc i) d = low_digits i (d div 10) @ [digit_chr (d mod 10)]"

definition mirror_name :: "string \<Rightarrow> url \<Rightarrow> string" where
  "mirror_name base u =
     take (length base - 6) base @ low_digits 5 (hostHashCode u mod nbDir) @ ''/'' @ host_str u
       @ (if u_port u = 80 then [] else port_str u) @ file_str u"

text \<open>The longest part before a slash that exists, found backwards; \<open>None\<close> reads before the name.\<close>

fun scan_back :: "disk \<Rightarrow> string \<Rightarrow> nat \<Rightarrow> nat option" where
  "scan_back k name 0 = None"
| "scan_back k name (Suc i) =
     (if name ! i = CHR ''/'' \<and> stat_ok k (take i name) then Some i else scan_back k name i)"

definition make_dirs :: "string \<Rightarrow> nat \<Rightarrow> disk \<Rightarrow> disk" where
  "make_dirs name i k =
     fold (\<lambda>j. mkdir (take j name)) (filter (\<lambda>j. name ! j = CHR ''/'') [i + 1 ..< length name]) k"

definition mirror_loaded :: "url \<Rightarrow> string \<Rightarrow> string \<times> disk \<Rightarrow> (string \<times> disk) option" where
  "mirror_loaded u page bk =
     (let (base, k) = bk;
          name = mirror_name base u;
          name1 = (if last name = CHR ''/'' then name @ indexFile else name) in
      if length name1 \<ge> length saveDir + maxUrlSize + 50 then None
      else do {
        i \<leftarrow> scan_back k name (length name);
        let k1 = make_dirs name i k;
        Some (base,
          (case creat name1 k1 of None \<Rightarrow> k1 | Some (q, k2) \<Rightarrow> append_file q page k2)) })"

subsection \<open>Statistics\<close>

text \<open>The numbers are \<open>double\<close>s in the code, exact for the counts a run can reach.\<close>

definition nb :: nat where "nb = 25"
definition taille :: nat where "taille = 4096"
definition larg :: nat where "larg = 40"

record page_stats =
  ps_tabs :: "nat list"
  ps_maxs :: nat
  ps_tabb :: "nat list"
  ps_maxb :: nat
  ps_totalpages :: nat
  ps_totalbytes :: nat

definition stats_initUserOutput :: page_stats where
  "stats_initUserOutput =
     \<lparr>ps_tabs = replicate nb 0, ps_maxs = 0, ps_tabb = replicate nb 0, ps_maxb = 0,
      ps_totalpages = 1, ps_totalbytes = 0\<rparr>"

definition stats_loaded :: "string \<Rightarrow> page_stats \<Rightarrow> page_stats" where
  "stats_loaded page s =
     (let l = length page; t = (if l div taille \<ge> nb then nb - 1 else l div taille);
          a = ps_tabs s ! t + 1; b = ps_tabb s ! t + l in
      \<lparr>ps_tabs = (ps_tabs s)[t := a], ps_maxs = max a (ps_maxs s),
       ps_tabb = (ps_tabb s)[t := b], ps_maxb = max b (ps_maxb s),
       ps_totalpages = ps_totalpages s + 1, ps_totalbytes = ps_totalbytes s + l\<rparr>)"

definition dessine_row :: "nat \<Rightarrow> nat \<Rightarrow> string" where
  "dessine_row mx v = ''|'' @ replicate (v * larg div (mx + 1)) (CHR ''*'') @ [NL]"

definition dessine :: "nat list \<Rightarrow> nat \<Rightarrow> string" where
  "dessine tab mx = concat (map (dessine_row mx) (take nb tab))"

text \<open>\<open>None\<close>: \<open>(int) totalbytes\<close> is undefined.\<close>

definition stats_outputStats :: "page_stats \<Rightarrow> string option" where
  "stats_outputStats s =
     (if ps_totalbytes s \<ge> 2 ^ 31 then None
      else Some (
        ''Stats for '' @ print_int (s32 (int (ps_totalpages s))) @ '' pages.'' @ [NL]
          @ ''Mean size of a page : ''
          @ print_int (s32 (int (ps_totalbytes s) div int (ps_totalpages s))) @ [NL, NL]
          @ ''Proportion of pages per size (one row is '' @ print_int (int taille)
          @ '' bytes, max size is '' @ print_int (int (taille * nb)) @ '' bytes) :'' @ [NL, NL]
          @ dessine (ps_tabs s) (ps_maxs s)
          @ [NL, NL] @ ''bytes transfered by size :'' @ [NL, NL]
          @ dessine (ps_tabb s) (ps_maxb s)))"

subsection \<open>The choice\<close>

datatype output_mode = OM_DEFAULT | OM_SAVE | OM_MIRROR | OM_STATS

text \<open>The state of the output, by its mode, and what is printed when \<open>fetchInfo\<close> is set.\<close>

datatype output_state = Out_default | Out_save saver | Out_mirror string | Out_stats page_stats

definition initUserOutput :: "output_mode \<Rightarrow> disk \<Rightarrow> output_state \<times> disk" where
  "initUserOutput m k =
     (case m of
        OM_DEFAULT \<Rightarrow> (Out_default, k)
      | OM_SAVE \<Rightarrow> (case save_initUserOutput k of (v, k1) \<Rightarrow> (Out_save v, k1))
      | OM_MIRROR \<Rightarrow> (case mirror_initUserOutput k of (b, k1) \<Rightarrow> (Out_mirror b, k1))
      | OM_STATS \<Rightarrow> (Out_stats stats_initUserOutput, k))"

definition url_print :: "url \<Rightarrow> string" where
  "url_print u = ''http://'' @ host_str u @ '':'' @ dec (unat (u_port u)) @ file_str u @ [NL]"

definition user_loaded :: "url \<Rightarrow> string \<Rightarrow> output_state \<times> disk \<Rightarrow> (output_state \<times> disk) option" where
  "user_loaded u page ok =
     (case ok of
        (Out_default, k) \<Rightarrow> Some (Out_default, k)
      | (Out_save v, k) \<Rightarrow> map_option (\<lambda>(v1, k1). (Out_save v1, k1)) (save_loaded u page (v, k))
      | (Out_mirror b, k) \<Rightarrow> map_option (\<lambda>(b1, k1). (Out_mirror b1, k1)) (mirror_loaded u page (b, k))
      | (Out_stats s, k) \<Rightarrow> Some (Out_stats (stats_loaded page s), k))"

definition red_msg :: "string \<Rightarrow> string" where
  "red_msg m = [CHR 0x1B] @ ''[0;31m'' @ m @ [CHR 0x1B] @ ''[0m''"

definition green_msg :: "string \<Rightarrow> string" where
  "green_msg m = [CHR 0x1B] @ ''[0;32m'' @ m @ [CHR 0x1B] @ ''[0m''"

definition loaded_info :: "bool \<Rightarrow> url \<Rightarrow> string" where
  "loaded_info fetchInfo u = (if fetchInfo then ''['' @ green_msg ''Success'' @ ''] '' @ url_print u else [])"

definition errorMsg :: "string list" where
  "errorMsg =
     [''Success'', ''No DNS'', ''No Connect'', ''Robots'', ''Timeout'', ''Bad Type'', ''Too Big'',
      ''Err 30X'', ''Err 40X'', ''Unknow'', ''Site Dup'', ''<fast>Robots'', ''<fast>No Connect'',
      ''<fast>No DNS'', ''Too Deep'', ''URL Dup'', ''Out Site'']"

definition failure_info :: "bool \<Rightarrow> url \<Rightarrow> FetchError \<Rightarrow> string" where
  "failure_info fetchInfo u e =
     (if fetchInfo then ''['' @ red_msg (errorMsg ! fetch_code e) @ ''] '' @ url_print u else [])"

definition outputStats :: "output_state \<Rightarrow> string option" where
  "outputStats s = (case s of Out_stats t \<Rightarrow> stats_outputStats t | _ \<Rightarrow> Some ''Nothing to declare'')"

text \<open>The pages that the crawler hands out, one after the other.\<close>

fun user_pages :: "(url \<times> string) list \<Rightarrow> output_state \<times> disk \<Rightarrow> (output_state \<times> disk) option" where
  "user_pages [] s = Some s"
| "user_pages ((u, page) # ps) s = do { s1 \<leftarrow> user_loaded u page s; user_pages ps s1 }"

subsection \<open>The files of interesting pages\<close>

definition specDir :: string where "specDir = ''specific/''"

text \<open>\<open>%5i\<close>, and the blanks that are made zeros.\<close>

fun blanks_zero :: "string \<Rightarrow> string" where
  "blanks_zero [] = []"
| "blanks_zero (c # s) = (if c = CHR '' '' then CHR ''0'' # blanks_zero s else c # s)"

definition zero_at :: "nat \<Rightarrow> string \<Rightarrow> string" where
  "zero_at i s = take i s @ blanks_zero (drop i s)"

definition getSpecName :: "string \<Rightarrow> nat \<Rightarrow> nat \<Rightarrow> string \<Rightarrow> string option" where
  "getSpecName dir nbdir nbfile ext =
     (let s = ''d'' @ pad_left (CHR '' '') 5 (dec nbdir) @ ''/f'' @ pad_left (CHR '' '') 5 (dec nbfile) @ ext in
      if length s \<ge> 20 then None else Some (dir @ zero_at 8 (zero_at 1 s)))"

definition getIndexName :: "string \<Rightarrow> nat \<Rightarrow> string" where
  "getIndexName dir nbdir = dir @ zero_at 1 (''d'' @ pad_left (CHR '' '') 5 (dec nbdir) @ ''/index'')"

record spec_saver =
  sp_nbdir :: int
  sp_nbfile :: nat
  sp_dir :: string
  sp_index :: "string list option"

definition initSpecific :: "disk \<Rightarrow> spec_saver \<times> disk" where
  "initSpecific k =
     (\<lparr>sp_nbdir = - 1, sp_nbfile = filesPerDir, sp_dir = add_slash specDir, sp_index = None\<rparr>, mkdir specDir k)"

text \<open>The result has the numbers of the page and its open file; \<open>None\<close> is a call of \<open>exit\<close>, or a name or
  a line that does not fit its buffer.\<close>

definition newSpec :: "url \<Rightarrow> string \<Rightarrow> spec_saver \<times> disk \<Rightarrow> ((int \<times> nat \<times> string list) \<times> spec_saver \<times> disk) option" where
  "newSpec here ext vk =
     (let (v, k) = vk in do {
        (v1, k1) \<leftarrow>
          (if sp_nbfile v + 1 < filesPerDir then Some (v\<lparr>sp_nbfile := sp_nbfile v + 1\<rparr>, k)
           else
             let nd = sp_nbdir v + 1; name = getIndexName (sp_dir v) (nat nd) in
             case creat name (mkdir (take (length (sp_dir v) + 6) name) k) of
               None \<Rightarrow> None
             | Some (ix, k1) \<Rightarrow> Some (v\<lparr>sp_nbdir := nd, sp_nbfile := 0, sp_index := Some ix\<rparr>, k1));
        let line = pad_left (CHR '' '') 4 (dec (sp_nbfile v1)) @ ''  '' @ fst (writeUrl here) @ [NL];
        (if length line > maxUrlSize + 30 then None
         else do {
           let k2 = (case sp_index v1 of None \<Rightarrow> k1 | Some ix \<Rightarrow> append_file ix line k1);
           name \<leftarrow> getSpecName (sp_dir v1) (nat (sp_nbdir v1)) (sp_nbfile v1) ext;
           (q, k3) \<leftarrow> creat name k2;
           Some ((sp_nbdir v1, sp_nbfile v1, q), v1, k3) }) })"

text \<open>\<open>getContent\<close> over the results of \<open>read\<close>: bytes, or an error, after which the position goes back.
  \<open>None\<close> is a read before the array, or a loop that does not end.\<close>

datatype read_result = Rd string | Rd_error

fun getContent_loop :: "nat \<Rightarrow> string \<Rightarrow> read_result list \<Rightarrow> string option" where
  "getContent_loop mx content [] = None"
| "getContent_loop mx content (Rd s # rs) =
     (let t = take (mx - 1 - length content) s in
      if t = [] then Some content else getContent_loop mx (content @ t) rs)"
| "getContent_loop mx content (Rd_error # rs) =
     (if content = [] then None else getContent_loop mx (butlast content) rs)"


subsection \<open>Pages in numbered files\<close>

lemma low_digits_length [simp]: "length (low_digits i n) = i"
  by (induction i arbitrary: n) simp_all

lemma low_digits_zero: "low_digits i 0 = replicate i (CHR ''0'')"
proof (induction i)
  case (Suc i)
  have "digit_chr 0 = CHR ''0''" by (simp add: digit_chr_def chr_def char_of_def bit_iff_odd)
  then show ?case using Suc by (simp add: replicate_append_same)
qed simp

lemma replicate_five: "replicate 5 x = [x, x, x, x, x]"
  by (simp add: eval_nat_numeral)

lemma low_digits_inject:
  "low_digits i m = low_digits i n \<Longrightarrow> m < 10 ^ i \<Longrightarrow> n < 10 ^ i \<Longrightarrow> m = n"
proof (induction i arbitrary: m n)
  case (Suc i)
  have "digit_val (digit_chr (m mod 10)) = digit_val (digit_chr (n mod 10))" using Suc.prems by simp
  then have "m mod 10 = n mod 10" by simp
  moreover have "m div 10 = n div 10"
    using Suc.prems by (intro Suc.IH) (simp_all add: less_mult_imp_div_less)
  ultimately show ?case by (metis div_mult_mod_eq)
qed simp

lemma low_digits_plain: "CHR ''/'' \<notin> set (low_digits i n)"
proof -
  have n: "\<not> is_digit CHR ''/''" by (simp add: is_digit_def)
  have d: "digit_chr (m mod 10) \<noteq> CHR ''/''" for m
    using n is_digit_digit_chr [of "m mod 10"] by (metis mod_less_divisor zero_less_numeral)
  show ?thesis by (induction i arbitrary: n) (use d in \<open>auto simp: eq_commute\<close>)
qed

lemma put_digits_low:
  "m \<le> n \<Longrightarrow> n < 10 ^ i \<Longrightarrow>
    put_digits (pre @ low_digits i m @ post) (length pre + i - 1) n = pre @ low_digits i n @ post"
proof (induction i arbitrary: m n post)
  case 0
  then show ?case by (subst put_digits.simps) simp
next
  case (Suc i)
  show ?case
  proof (cases "n = 0")
    case True
    then show ?thesis using Suc.prems by (subst put_digits.simps) simp
  next
    case False
    have "put_digits (pre @ low_digits (Suc i) m @ post) (length pre + Suc i - 1) n
        = put_digits (pre @ low_digits i (m div 10) @ digit_chr (n mod 10) # post) (length pre + i - 1) (n div 10)"
      using False by (subst put_digits.simps) (simp add: list_update_append)
    also have "\<dots> = pre @ low_digits i (n div 10) @ digit_chr (n mod 10) # post"
      using Suc.prems by (intro Suc.IH) (simp_all add: div_le_mono less_mult_imp_div_less)
    finally show ?thesis by simp
  qed
qed


text \<open>Where the page of a number is, and the index of a directory.\<close>

definition dir_name :: "nat \<Rightarrow> string" where
  "dir_name d = ''d'' @ low_digits 5 d"

definition file_name :: "nat \<Rightarrow> string" where
  "file_name i = ''f'' @ low_digits 5 i"

definition save_path :: "string list \<Rightarrow> nat \<Rightarrow> string list" where
  "save_path c i = c @ [''save'', dir_name (i div filesPerDir), file_name (i mod filesPerDir)]"

definition index_path :: "string list \<Rightarrow> nat \<Rightarrow> string list" where
  "index_path c d = c @ [''save'', dir_name d, ''index'']"

definition index_text :: "(url \<times> string) list \<Rightarrow> nat \<Rightarrow> string" where
  "index_text ps d =
     concat (map (\<lambda>i. index_line (i mod filesPerDir) (fst (ps ! i)))
       (filter (\<lambda>i. i div filesPerDir = d) [0..<length ps]))"

lemma names_plain [simp]: "CHR ''/'' \<notin> set (dir_name d)" "CHR ''/'' \<notin> set (file_name d)"
  using low_digits_plain by (auto simp: dir_name_def file_name_def)

lemma names_ordinary [simp]:
  "dir_name d \<noteq> []" "dir_name d \<noteq> ''.''" "dir_name d \<noteq> ''..''"
  "file_name d \<noteq> []" "file_name d \<noteq> ''.''" "file_name d \<noteq> ''..''" "file_name d \<noteq> ''index''" "''index'' \<noteq> file_name d"
  "[] \<noteq> file_name d" "''.'' \<noteq> file_name d" "''..'' \<noteq> file_name d"
  by (auto simp: dir_name_def file_name_def)

lemma names_inject:
  "dir_name m = dir_name n \<Longrightarrow> m < 100000 \<Longrightarrow> n < 100000 \<Longrightarrow> m = n"
  "file_name m = file_name n \<Longrightarrow> m < 100000 \<Longrightarrow> n < 100000 \<Longrightarrow> m = n"
  using low_digits_inject [of 5 m n] by (simp_all add: dir_name_def file_name_def)

lemma save_path_inject:
  assumes "save_path c i = save_path c j" "i < 100000 * filesPerDir" "j < 100000 * filesPerDir"
  shows "i = j"
proof -
  have "i div filesPerDir = j div filesPerDir"
    using assms by (intro names_inject(1)) (simp_all add: save_path_def filesPerDir_def less_mult_imp_div_less)
  moreover have "i mod filesPerDir = j mod filesPerDir"
    using assms(1) by (intro names_inject(2)) (simp_all add: save_path_def filesPerDir_def less_trans [OF mod_less_divisor])
  ultimately show ?thesis by (metis div_mult_mod_eq)
qed

lemma index_text_snoc:
  "index_text (ps @ [(u, page)]) d =
     index_text ps d @ (if length ps div filesPerDir = d then index_line (length ps mod filesPerDir) u else [])"
proof -
  have "concat (map (\<lambda>i. index_line (i mod filesPerDir) (fst ((ps @ [(u, page)]) ! i)))
          (filter (\<lambda>i. i div filesPerDir = d) [0..<length ps]))
      = concat (map (\<lambda>i. index_line (i mod filesPerDir) (fst (ps ! i)))
          (filter (\<lambda>i. i div filesPerDir = d) [0..<length ps]))"
    by (intro arg_cong [where f = concat] map_cong) (auto simp: nth_append)
  then show ?thesis by (simp add: index_text_def)
qed

lemma resolve_under_save:
  assumes "CHR ''/'' \<notin> set a" "CHR ''/'' \<notin> set b" "a \<noteq> []" "a \<noteq> ''.''" "a \<noteq> ''..''" "b \<noteq> []" "b \<noteq> ''.''" "b \<noteq> ''..''"
    "dk_fs k (dk_cwd k) = Some Dir" "dk_fs k (dk_cwd k @ [''save'']) = Some Dir"
  shows "resolve_path k (''save/'' @ a) = Some (dk_cwd k @ [''save'', a])"
    "dk_fs k (dk_cwd k @ [''save'', a]) = Some Dir \<Longrightarrow>
      resolve_path k (''save/'' @ a @ ''/'' @ b) = Some (dk_cwd k @ [''save'', a, b])"
proof -
  have s: "segs (''save/'' @ x) = ''save'' # segs x" for x
    using segs_split [of "''save''" x] by simp
  have t: "segs (a @ ''/'' @ b) = [a, b]" using assms segs_split [of a b] by (simp add: segs_slashfree)
  show "resolve_path k (''save/'' @ a) = Some (dk_cwd k @ [''save'', a])"
    using s [of a] assms by (simp add: resolve_path_def segs_slashfree)
  show "resolve_path k (''save/'' @ a @ ''/'' @ b) = Some (dk_cwd k @ [''save'', a, b])"
    if "dk_fs k (dk_cwd k @ [''save'', a]) = Some Dir"
    using s [of "a @ ''/'' @ b"] t assms that by (simp add: resolve_path_def)
qed


text \<open>The state after the pages \<open>ps\<close>: the saver knows the number of the last one.\<close>

definition saver_at :: "string list \<Rightarrow> nat \<Rightarrow> saver" where
  "saver_at c n =
     (if n = 0 then \<lparr>sv_nbdir = - 1, sv_nbfile = filesPerDir, sv_name = ''save/d00000/f00000'', sv_end = 17, sv_index = None\<rparr>
      else \<lparr>sv_nbdir = int ((n - 1) div filesPerDir), sv_nbfile = (n - 1) mod filesPerDir,
            sv_name = ''save/'' @ dir_name ((n - 1) div filesPerDir) @ ''/'' @ file_name ((n - 1) mod filesPerDir),
            sv_end = 17, sv_index = Some (index_path c ((n - 1) div filesPerDir))\<rparr>)"

definition saved :: "string list \<Rightarrow> (url \<times> string) list \<Rightarrow> (string list \<Rightarrow> node option) \<Rightarrow> bool" where
  "saved c ps fs \<longleftrightarrow>
     fs c = Some Dir \<and> fs (c @ [''save'']) = Some Dir \<and>
     (\<forall>d < 100000. fs (c @ [''save'', dir_name d]) = (if d * filesPerDir < length ps then Some Dir else None)) \<and>
     (\<forall>d < 100000. fs (index_path c d) =
        (if d * filesPerDir < length ps then Some (File (index_text ps d)) else None)) \<and>
     (\<forall>i < 100000 * filesPerDir. fs (save_path c i) =
        (if i < length ps then Some (File (snd (ps ! i))) else None))"

lemma saved_step:
  assumes s: "saved c ps fs" and n: "length ps < 100000 * filesPerDir"
  shows "saved c (ps @ [(u, page)])
    (fs(c @ [''save'', dir_name (length ps div filesPerDir)] \<mapsto> Dir,
        index_path c (length ps div filesPerDir) \<mapsto> File (index_text (ps @ [(u, page)]) (length ps div filesPerDir)),
        save_path c (length ps) \<mapsto> File page))" (is "saved c ?ps ?fs")
proof -
  let ?n = "length ps" and ?d = "length ps div filesPerDir"
  have F: "0 < filesPerDir" by (simp add: filesPerDir_def)
  have d: "?d < 100000" using n F by (simp add: less_mult_imp_div_less)
  have b: "d * filesPerDir < Suc ?n \<longleftrightarrow> d \<le> ?d" for d
    using F by (simp add: less_Suc_eq_le less_eq_div_iff_mult_less_eq)
  have b1: "d * filesPerDir < ?n \<Longrightarrow> d \<le> ?d" for d
    using b [of d] by simp
  have b2: "d < ?d \<Longrightarrow> d * filesPerDir < ?n" for d
    using F b [of "Suc d"] by (simp add: filesPerDir_def)
  have "fs c = Some Dir" "fs (c @ [''save'']) = Some Dir" using s by (simp_all add: saved_def)
  moreover have "?fs (c @ [''save'', dir_name e]) = (if e * filesPerDir < length ?ps then Some Dir else None)" if "e < 100000" for e
    using s that d b [of e] b1 [of e] b2 [of e] names_inject(1) [of e ?d]
    by (cases "e = ?d") (auto simp: saved_def save_path_def index_path_def)
  moreover have "?fs (index_path c e) = (if e * filesPerDir < length ?ps then Some (File (index_text ?ps e)) else None)"
    if "e < 100000" for e
    using s that d b [of e] b1 [of e] b2 [of e] names_inject(1) [of e ?d]
    by (cases "e = ?d") (auto simp: saved_def save_path_def index_path_def index_text_snoc)
  moreover have "?fs (save_path c i) = (if i < length ?ps then Some (File (snd (?ps ! i))) else None)"
    if "i < 100000 * filesPerDir" for i
  proof (cases "i = ?n")
    case False
    then have "save_path c i \<noteq> save_path c ?n" using save_path_inject that n by blast
    then have "?fs (save_path c i) = fs (save_path c i)" by (auto simp: save_path_def index_path_def)
    then show ?thesis using s that False by (simp add: saved_def nth_append)
  qed simp
  ultimately show ?thesis by (simp add: saved_def [of c ?ps] save_path_def index_path_def)
qed


lemma segs_save [simp]: "segs ''save/'' = [''save'', []]"
  by simp

lemma dec_short: "n < 10000 \<Longrightarrow> length (dec n) \<le> 4"
  using dec_length_le [of 4 n] by simp

lemma index_line_length: "n < filesPerDir \<Longrightarrow> length (index_line n u) = length (fst (writeUrl u)) + 6"
  using dec_short [of n] by (simp add: index_line_def pad_left_def filesPerDir_def del: dec.simps)

lemma index_text_new:
  assumes "length ps mod filesPerDir = 0" shows "index_text ps (length ps div filesPerDir) = []"
proof -
  have "i div filesPerDir \<noteq> length ps div filesPerDir" if i: "i < length ps" for i
  proof
    assume e: "i div filesPerDir = length ps div filesPerDir"
    have "length ps = length ps div filesPerDir * filesPerDir" using assms by (simp add: mod_0_imp_dvd)
    also have "\<dots> \<le> i" using e [symmetric] by simp
    finally show False using i by simp
  qed
  then show ?thesis by (auto simp: index_text_def filter_empty_conv)
qed

lemma no_trailing: "s \<noteq> [] \<Longrightarrow> \<not> P (last s) \<Longrightarrow> rev (dropWhile P (rev s)) = s"
  by (cases s rule: rev_cases) simp_all

lemma mkdir_resolved:
  assumes "p \<noteq> []" "last p \<noteq> CHR ''/''" "resolve_path k p = Some q"
  shows "mkdir p k = (if dk_fs k q = None then set_node q Dir k else k)"
  using assms no_trailing [of p "\<lambda>c. c = CHR ''/''"] by (simp add: mkdir_def)

lemma mkdir_under_save:
  assumes "saved (dk_cwd k) ps (dk_fs k)" "d < 100000"
  shows "dk_fs (mkdir (''save/'' @ dir_name d) k) = (dk_fs k)(dk_cwd k @ [''save'', dir_name d] \<mapsto> Dir)"
    "dk_cwd (mkdir (''save/'' @ dir_name d) k) = dk_cwd k"
proof -
  have "last (dir_name d) \<noteq> CHR ''/''" using names_plain(1) [of d] names_ordinary(1) [of d] by (metis last_in_set)
  then have l: "last (''save/'' @ dir_name d) \<noteq> CHR ''/''" using names_ordinary(1) [of d] by simp
  have "resolve_path k (''save/'' @ dir_name d) = Some (dk_cwd k @ [''save'', dir_name d])"
    using assms by (intro resolve_under_save(1) [of _ "''x''"]) (simp_all add: saved_def)
  from mkdir_resolved [OF _ l this] show "dk_fs (mkdir (''save/'' @ dir_name d) k) = (dk_fs k)(dk_cwd k @ [''save'', dir_name d] \<mapsto> Dir)"
    "dk_cwd (mkdir (''save/'' @ dir_name d) k) = dk_cwd k"
    using assms by (auto simp: saved_def set_node_def fun_upd_idem)
qed


lemma valid_line:
  assumes "isValid u" "n < filesPerDir" shows "length (index_line n u) \<le> maxUrlSize + 30"
  using assms port_str_length [of u]
  by (auto simp: index_line_length writeUrl_def isValid_def host_str_def file_str_def Let_def split: option.splits)

lemma creat_under_save:
  assumes "dk_fs k (dk_cwd k) = Some Dir" "dk_fs k (dk_cwd k @ [''save'']) = Some Dir"
    "dk_fs k (dk_cwd k @ [''save'', dir_name d]) = Some Dir"
    "dk_fs k (dk_cwd k @ [''save'', dir_name d, b]) \<noteq> Some Dir" "b = ''index'' \<or> b = file_name i"
  shows "creat (''save/'' @ dir_name d @ ''/'' @ b) k =
    Some (dk_cwd k @ [''save'', dir_name d, b], set_node (dk_cwd k @ [''save'', dir_name d, b]) (File []) k)"
proof -
  have "resolve_path k (''save/'' @ dir_name d @ ''/'' @ b) = Some (dk_cwd k @ [''save'', dir_name d, b])"
    using assms(1-3,5) by (intro resolve_under_save(2)) auto
  then show ?thesis using assms(4) by (simp add: creat_def)
qed

lemma append_file_at:
  "dk_fs k q = Some (File t) \<Longrightarrow> append_file q s k = set_node q (File (t @ s)) k"
  by (simp add: append_file_def)

lemma set_node_sel [simp]:
  "dk_fs (set_node q n k) = (dk_fs k)(q \<mapsto> n)" "dk_cwd (set_node q n k) = dk_cwd k"
  by (simp_all add: set_node_def)

text \<open>The directory that the next page goes to.\<close>

lemma save_same_dir:
  assumes "0 < n mod filesPerDir" "n < 100000 * filesPerDir"
  shows "sv_nbfile (saver_at c n) + 1 < filesPerDir"
    "(saver_at c n)\<lparr>sv_nbfile := sv_nbfile (saver_at c n) + 1,
       sv_name := put_digits (sv_name (saver_at c n)) (sv_end (saver_at c n)) (sv_nbfile (saver_at c n) + 1)\<rparr>
     = saver_at c (Suc n)"
proof -
  obtain m where n: "n = Suc m" using assms by (cases n) auto
  have m: "Suc (m mod filesPerDir) = n mod filesPerDir" "m div filesPerDir = n div filesPerDir"
    using assms n by (auto simp: mod_Suc div_Suc)
  have f: "n mod filesPerDir < filesPerDir" by (simp add: filesPerDir_def)
  show "sv_nbfile (saver_at c n) + 1 < filesPerDir" using n m f by (simp add: saver_at_def)
  have "put_digits ((''save/'' @ dir_name (n div filesPerDir) @ ''/f'') @ low_digits 5 (m mod filesPerDir) @ [])
      (length (''save/'' @ dir_name (n div filesPerDir) @ ''/f'') + 5 - 1) (n mod filesPerDir)
    = (''save/'' @ dir_name (n div filesPerDir) @ ''/f'') @ low_digits 5 (n mod filesPerDir) @ []"
    using m f by (intro put_digits_low) (simp_all add: filesPerDir_def)
  then have "put_digits (''save/'' @ dir_name (n div filesPerDir) @ ''/'' @ file_name (m mod filesPerDir)) 17 (n mod filesPerDir)
      = ''save/'' @ dir_name (n div filesPerDir) @ ''/'' @ file_name (n mod filesPerDir)"
    by (simp add: file_name_def dir_name_def)
  then show "(saver_at c n)\<lparr>sv_nbfile := sv_nbfile (saver_at c n) + 1,
       sv_name := put_digits (sv_name (saver_at c n)) (sv_end (saver_at c n)) (sv_nbfile (saver_at c n) + 1)\<rparr>
     = saver_at c (Suc n)"
    using n m by (simp add: saver_at_def)
qed

lemma save_new_dir:
  assumes "n mod filesPerDir = 0" "n < 100000 * filesPerDir" "v = saver_at c n"
    "name = put_digits (sv_name v) (sv_end v - 7) (nat (sv_nbdir v + 1))"
  shows "\<not> sv_nbfile v + 1 < filesPerDir" "sv_nbdir v + 1 = int (n div filesPerDir)" "sv_end v = 17"
    "take 11 name = ''save/'' @ dir_name (n div filesPerDir)"
    "take 12 name = ''save/'' @ dir_name (n div filesPerDir) @ ''/''"
proof -
  let ?d = "n div filesPerDir"
  have F: "0 < filesPerDir" by (simp add: filesPerDir_def)
  show 1: "\<not> sv_nbfile v + 1 < filesPerDir"
    using assms(1,3) F by (cases n) (auto simp: saver_at_def mod_Suc split: if_splits)
  show 2: "sv_nbdir v + 1 = int ?d"
    using assms(1,3) F by (cases n) (auto simp: saver_at_def div_Suc split: if_splits)
  show 3: "sv_end v = 17" using assms(3) by (simp add: saver_at_def)
  obtain m r where m: "sv_name v = ''save/d'' @ low_digits 5 m @ ''/'' @ r" "m \<le> ?d"
  proof (cases n)
    case 0
    have z: "low_digits 5 0 = ''00000''"
      unfolding low_digits_zero by (simp add: replicate_five)
    show ?thesis using that [of 0 "''f00000''"] 0 assms(3) z by (simp add: saver_at_def)
  next
    case (Suc m)
    show ?thesis using that [of "m div filesPerDir" "file_name (m mod filesPerDir)"] Suc assms(3)
      by (simp add: saver_at_def dir_name_def div_le_mono)
  qed
  have d: "?d < 10 ^ 5" using assms(2) F by (simp add: less_mult_imp_div_less)
  have "name = ''save/d'' @ low_digits 5 ?d @ ''/'' @ r"
    using put_digits_low [OF m(2) d, of "''save/d''" "''/'' @ r"] m(1) assms(4) 2 3 by simp
  then show "take 11 name = ''save/'' @ dir_name ?d" "take 12 name = ''save/'' @ dir_name ?d @ ''/''"
    by (simp_all add: dir_name_def)
qed


lemma save_prepared:
  assumes s: "saved (dk_cwd k) ps (dk_fs k)" and n: "length ps < 100000 * filesPerDir"
    and d: "d = length ps div filesPerDir" and v: "v = saver_at (dk_cwd k) (length ps)"
  obtains k1 where "dk_cwd k1 = dk_cwd k"
    "dk_fs k1 = (dk_fs k)(dk_cwd k @ [''save'', dir_name d] \<mapsto> Dir, index_path (dk_cwd k) d \<mapsto> File (index_text ps d))"
    "next_file v k = Some (saver_at (dk_cwd k) (Suc (length ps)), k1)"
proof (cases "length ps mod filesPerDir = 0")
  case False
  have d1: "d < 100000" using n d by (simp add: less_mult_imp_div_less)
  have l: "d * filesPerDir < length ps" using False d by (metis div_mult_mod_eq less_add_same_cancel1 neq0_conv)
  have f: "(dk_fs k)(dk_cwd k @ [''save'', dir_name d] \<mapsto> Dir, index_path (dk_cwd k) d \<mapsto> File (index_text ps d)) = dk_fs k"
    using s l d1 by (simp add: saved_def fun_upd_idem)
  show ?thesis
    using that [of k] False n v f save_same_dir [of "length ps" "dk_cwd k"] by (simp add: next_file_def)
next
  case True
  have F: "0 < filesPerDir" by (simp add: filesPerDir_def)
  have d1: "d < 100000" using n d by (simp add: less_mult_imp_div_less)
  have l: "\<not> d * filesPerDir < length ps" using True d by (metis div_mult_mod_eq add.right_neutral less_irrefl)
  note new = save_new_dir [OF True n v refl, folded d]
  let ?k = "mkdir (''save/'' @ dir_name d) k"
  have k: "dk_fs ?k = (dk_fs k)(dk_cwd k @ [''save'', dir_name d] \<mapsto> Dir)" "dk_cwd ?k = dk_cwd k"
    by (rule mkdir_under_save [OF s d1])+
  have c: "creat (''save/'' @ dir_name d @ ''/'' @ ''index'') ?k =
      Some (dk_cwd ?k @ [''save'', dir_name d, ''index''], set_node (dk_cwd ?k @ [''save'', dir_name d, ''index'']) (File []) ?k)"
    using s k l d1 by (intro creat_under_save) (simp_all add: saved_def index_path_def)
  have z: "low_digits 5 0 = ''00000''" unfolding low_digits_zero by (simp add: replicate_five)
  show ?thesis
    using that [of "set_node (dk_cwd ?k @ [''save'', dir_name d, ''index'']) (File []) ?k"] new c k True d z
      index_text_new [OF True]
    by (simp add: next_file_def Let_def saver_at_def index_path_def file_name_def)
qed

lemma save_loaded_step:
  assumes s: "saved (dk_cwd k) ps (dk_fs k)" and n: "length ps < 100000 * filesPerDir" and u: "isValid u"
  obtains k1 where "save_loaded u page (saver_at (dk_cwd k) (length ps), k) = Some (saver_at (dk_cwd k) (Suc (length ps)), k1)"
    "dk_cwd k1 = dk_cwd k" "saved (dk_cwd k) (ps @ [(u, page)]) (dk_fs k1)"
proof -
  let ?n = "length ps" and ?d = "length ps div filesPerDir" and ?c = "dk_cwd k"
  let ?v = "saver_at ?c (Suc ?n)" and ?q = "save_path ?c ?n" and ?ix = "index_path ?c ?d"
  let ?line = "index_line (?n mod filesPerDir) u"
  have F: "0 < filesPerDir" by (simp add: filesPerDir_def)
  have d1: "?d < 100000" using n by (simp add: less_mult_imp_div_less)
  obtain k1 where k1: "dk_cwd k1 = ?c"
    "dk_fs k1 = (dk_fs k)(?c @ [''save'', dir_name ?d] \<mapsto> Dir, ?ix \<mapsto> File (index_text ps ?d))"
    "next_file (saver_at ?c ?n) k = Some (?v, k1)"
    using save_prepared [OF s n refl refl] by metis
  let ?k2 = "set_node ?q (File []) k1"
  have ne: "?q \<noteq> ?ix" "?ix \<noteq> ?q" by (auto simp: save_path_def index_path_def)
  have v: "sv_name ?v = ''save/'' @ dir_name ?d @ ''/'' @ file_name (?n mod filesPerDir)" "sv_nbfile ?v = ?n mod filesPerDir"
    "sv_index ?v = Some ?ix"
    by (simp_all add: saver_at_def)
  have "dk_fs k ?q \<noteq> Some Dir" using s n by (simp add: saved_def)
  then have "creat (''save/'' @ dir_name ?d @ ''/'' @ file_name (?n mod filesPerDir)) k1 =
      Some (dk_cwd k1 @ [''save'', dir_name ?d, file_name (?n mod filesPerDir)],
        set_node (dk_cwd k1 @ [''save'', dir_name ?d, file_name (?n mod filesPerDir)]) (File []) k1)"
    using s k1 ne by (intro creat_under_save) (auto simp: saved_def save_path_def index_path_def)
  then have c: "creat (sv_name ?v) k1 = Some (?q, ?k2)" by (simp add: v k1(1) save_path_def)
  let ?k3 = "append_file ?q page (append_file ?ix ?line ?k2)"
  have a: "append_file ?ix ?line ?k2 = set_node ?ix (File (index_text ps ?d @ ?line)) ?k2"
    using k1 ne by (intro append_file_at) simp
  have "?k3 = set_node ?q (File ([] @ page)) (append_file ?ix ?line ?k2)"
    unfolding a using ne by (intro append_file_at) simp
  then have fs: "dk_fs ?k3 = (dk_fs k)(?c @ [''save'', dir_name ?d] \<mapsto> Dir,
      ?ix \<mapsto> File (index_text (ps @ [(u, page)]) ?d), ?q \<mapsto> File page)" "dk_cwd ?k3 = ?c"
    using k1 ne by (simp_all add: a index_text_snoc fun_upd_twist)
  have "length ?line \<le> maxUrlSize + 30" using u F by (intro valid_line) simp_all
  then have "save_loaded u page (saver_at ?c ?n, k) = Some (?v, ?k3)"
    using k1(3) by (simp add: save_loaded_def v(2,3) c del: append.simps)
  then show ?thesis using that fs saved_step [OF s n, of u page] by simp
qed


lemma save_pages:
  "saved c ps (dk_fs k) \<Longrightarrow> dk_cwd k = c \<Longrightarrow> length (ps @ qs) \<le> 100000 * filesPerDir \<Longrightarrow>
    \<forall>(u, page) \<in> set qs. isValid u \<Longrightarrow>
    \<exists>k1. user_pages qs (Out_save (saver_at c (length ps)), k) = Some (Out_save (saver_at c (length (ps @ qs))), k1) \<and>
      saved c (ps @ qs) (dk_fs k1)"
proof (induction qs arbitrary: ps k)
  case (Cons q qs)
  obtain u page where q: "q = (u, page)" by (cases q) auto
  have n: "length ps < 100000 * filesPerDir" using Cons.prems by simp
  obtain k1 where k1: "save_loaded u page (saver_at (dk_cwd k) (length ps), k) = Some (saver_at (dk_cwd k) (Suc (length ps)), k1)"
    "dk_cwd k1 = dk_cwd k" "saved (dk_cwd k) (ps @ [(u, page)]) (dk_fs k1)"
    using save_loaded_step [of k ps u page] Cons.prems n q by auto
  have "user_loaded u page (Out_save (saver_at c (length ps)), k) = Some (Out_save (saver_at c (length (ps @ [(u, page)]))), k1)"
    using k1 Cons.prems by (simp add: user_loaded_def)
  then show ?case using Cons.IH [of "ps @ [(u, page)]" k1] k1 Cons.prems q by auto
qed simp

text \<open>A run starts in a directory where \<open>save\<close> does not exist yet.\<close>

definition fresh_disk :: "disk \<Rightarrow> bool" where
  "fresh_disk k \<longleftrightarrow> dk_fs k (dk_cwd k) = Some Dir \<and> (\<forall>q. dk_fs k (dk_cwd k @ ''save'' # q) = None)"

lemma mkdir_saveDir:
  assumes "dk_fs k (dk_cwd k) = Some Dir"
  shows "mkdir saveDir k = (if dk_fs k (dk_cwd k @ [''save'']) = None then set_node (dk_cwd k @ [''save'']) Dir k else k)"
proof -
  have "resolve_path k ''save'' = Some (dk_cwd k @ [''save''])" using assms by (simp add: resolve_path_def)
  then show ?thesis by (simp add: mkdir_def saveDir_def)
qed

lemma save_init:
  assumes "fresh_disk k"
  obtains k1 where "initUserOutput OM_SAVE k = (Out_save (saver_at (dk_cwd k) 0), k1)" "dk_cwd k1 = dk_cwd k"
    "saved (dk_cwd k) [] (dk_fs k1)"
proof
  show "initUserOutput OM_SAVE k = (Out_save (saver_at (dk_cwd k) 0), set_node (dk_cwd k @ [''save'']) Dir k)"
    using assms mkdir_saveDir [of k]
    by (simp add: initUserOutput_def save_initUserOutput_def saver_at_def fresh_disk_def add_slash_def saveDir_def)
  show "saved (dk_cwd k) [] (dk_fs (set_node (dk_cwd k @ [''save'']) Dir k))"
    using assms by (auto simp: saved_def fresh_disk_def index_path_def save_path_def)
qed simp

text \<open>C8: With \<open>OM_SAVE\<close>, every page of a run, in its order, is in a file of its own that holds exactly the
  page: page \<open>i\<close> is \<open>save/dDDDDD/fFFFFF\<close>, with \<open>i div 2000\<close> and \<open>i mod 2000\<close> in five digits, and
  \<open>save/dDDDDD/index\<close> lists the numbers and urls of the pages of the directory. No page takes the place of
  another one, up to 100000 directories.\<close>

theorem save_keeps_every_page:
  assumes "fresh_disk k" "length ps \<le> 100000 * filesPerDir" "\<forall>(u, page) \<in> set ps. isValid u"
  shows "\<exists>v k1. user_pages ps (initUserOutput OM_SAVE k) = Some (Out_save v, k1) \<and>
    (\<forall>i < length ps. dk_fs k1 (save_path (dk_cwd k) i) = Some (File (snd (ps ! i)))) \<and>
    (\<forall>d. d * filesPerDir < length ps \<longrightarrow> dk_fs k1 (index_path (dk_cwd k) d) = Some (File (index_text ps d)))"
proof -
  obtain k0 where k0: "initUserOutput OM_SAVE k = (Out_save (saver_at (dk_cwd k) 0), k0)" "dk_cwd k0 = dk_cwd k"
    "saved (dk_cwd k) [] (dk_fs k0)" using save_init [OF assms(1)] .
  obtain k1 where k1: "user_pages ps (Out_save (saver_at (dk_cwd k) 0), k0) = Some (Out_save (saver_at (dk_cwd k) (length ps)), k1)"
    "saved (dk_cwd k) ps (dk_fs k1)" using save_pages [OF k0(3,2), of ps] assms by auto
  have "d < 100000" if "d * filesPerDir < length ps" for d
    using that assms(2) by (simp add: filesPerDir_def)
  then show ?thesis using k0 k1 assms(2) by (auto simp: saved_def)
qed

theorem save_keeps_every_page_witness:
  "\<exists>k1 :: disk. dk_fs k1 (save_path [] 1) = Some (File ''two'') \<and> index_path [] 0 = [''save'', dir_name 0, ''index'']"
proof -
  let ?k = "\<lparr>dk_fs = [[] \<mapsto> Dir], dk_cwd = []\<rparr>"
  let ?u = "(url_init 3)\<lparr>u_host := Some ''h'', u_file := Some ''/''\<rparr>"
  let ?ps = "[(?u, ''one''), (?u, ''two'')]"
  have "fresh_disk ?k" by (simp add: fresh_disk_def)
  moreover have "isValid ?u" by (simp_all add: isValid_def url_init_def size_defs)
  ultimately obtain k1 :: disk where "\<forall>i < length ?ps. dk_fs k1 (save_path (dk_cwd ?k) i) = Some (File (snd (?ps ! i)))"
    using save_keeps_every_page [of ?k ?ps] by (auto simp: filesPerDir_def simp del: user_pages.simps)
  from this [rule_format, of 1] show ?thesis by (auto simp: index_path_def)
qed


subsection \<open>The mirror\<close>

definition ordinary :: "string \<Rightarrow> bool" where
  "ordinary w \<longleftrightarrow> w \<noteq> [] \<and> w \<noteq> ''.'' \<and> w \<noteq> ''..'' \<and> CHR ''/'' \<notin> set w"

lemma walk_append: "walk fs cur (as @ bs) = (case walk fs cur as of None \<Rightarrow> None | Some q \<Rightarrow> walk fs q bs)"
  by (induction as arbitrary: cur) auto


text \<open>The names of the path of a page, from \<open>saveDir\<close> on.\<close>

definition site_name :: "url \<Rightarrow> string" where
  "site_name u = host_str u @ (if u_port u = 80 then [] else port_str u)"

definition site_dir :: "url \<Rightarrow> string" where
  "site_dir u = dir_name (hostHashCode u mod nbDir)"

lemma mirror_name_eq: "mirror_name (add_slash saveDir @ ''d00000/'') u = ''save/'' @ site_dir u @ ''/'' @ site_name u @ file_str u"
  by (simp add: mirror_name_def add_slash_def saveDir_def site_dir_def site_name_def dir_name_def)








text \<open>The scan stops at the last part that exists.\<close>

lemma scan_back_some:
  "j < n \<Longrightarrow> s ! j = CHR ''/'' \<Longrightarrow> stat_ok k (take j s) \<Longrightarrow>
    \<exists>i. scan_back k s n = Some i \<and> j \<le> i \<and> i < n \<and> s ! i = CHR ''/'' \<and> stat_ok k (take i s)"
proof (induction n)
  case (Suc n)
  then show ?case by (cases "j = n") (auto simp: less_Suc_eq)
qed simp












lemma take_prefix: "s = x @ y \<Longrightarrow> length x = m \<Longrightarrow> take m s = x"
  by simp

lemma next_slash:
  assumes "s = p @ w @ CHR ''/'' # t" "CHR ''/'' \<notin> set w" "a = length p" "b = length p + length w"
  shows "filter (\<lambda>j. s ! j = CHR ''/'') [a ..< length s] = b # filter (\<lambda>j. s ! j = CHR ''/'') [Suc b ..< length s]"
proof -
  have "[a ..< length s] = [a ..< b] @ [b ..< length s]"
    using assms(1,3,4) upt_add_eq_append [of a b "length s - b"] by (simp add: add.assoc del: upt_Suc)
  moreover have "[b ..< length s] = b # [Suc b ..< length s]" using assms(1,4) by (intro upt_conv_Cons) simp
  ultimately have "[a ..< length s] = [a ..< b] @ b # [Suc b ..< length s]" by simp
  moreover have "filter (\<lambda>j. s ! j = CHR ''/'') [a ..< b] = []"
    using assms by (auto simp: filter_empty_conv nth_append nth_Cons' in_set_conv_nth)
  moreover have "s ! b = CHR ''/''" using assms by (simp add: nth_append)
  ultimately show ?thesis by simp
qed

lemma no_slash:
  assumes "s = p @ w" "CHR ''/'' \<notin> set w" "a = length p"
  shows "filter (\<lambda>j. s ! j = CHR ''/'') [a ..< length s] = []"
  using assms by (auto simp: filter_empty_conv nth_append in_set_conv_nth)

text \<open>The name of a file that climbs out: the parts of the mirror's directory, then three times up.\<close>

definition climbing :: "string \<Rightarrow> string \<Rightarrow> string \<Rightarrow> string" where
  "climbing d s w = ''save/'' @ d @ ''/'' @ s @ ''/../../../'' @ w"

lemma segs_ordinary: "ordinary a \<Longrightarrow> segs a = [a]" "ordinary a \<Longrightarrow> segs (a @ CHR ''/'' # t) = a # segs t"
  "segs (''save/'' @ t) = ''save'' # segs t"
  using segs_split segs_slashfree segs_split [of "''save''" t] by (simp_all add: ordinary_def)

lemma climbing_scan:
  assumes k: "dk_fs k (dk_cwd k) = Some Dir" "dk_fs k (dk_cwd k @ [''save'']) = Some Dir"
      "\<forall>q. dk_fs k (dk_cwd k @ ''save'' # d # q) = None"
    and d: "length d = 6" "ordinary d"
  shows "scan_back k (climbing d s w) (length (climbing d s w)) = Some 4"
proof -
  define name where "name = climbing d s w"
  note n = name_def [unfolded climbing_def]
  define p where "p = ''save/''"
  define r where "r = s @ ''/../../../'' @ w"
  have p: "length p = 5" by (simp add: p_def)
  have "i = 4" if "i < length name" "name ! i = CHR ''/''" "stat_ok k (take i name)" "4 \<le> i" for i
  proof (rule ccontr)
    assume "i \<noteq> 4"
    have nd: "name = p @ d @ CHR ''/'' # r" using n by (simp add: p_def r_def)
    have "name ! j \<noteq> CHR ''/''" if "5 \<le> j" "j < 11" for j
    proof -
      have "j - 5 < length d" using that d by simp
      then have "name ! j = d ! (j - 5)" "j - 5 < length d" using that nd p by (simp_all add: nth_append)
      then show ?thesis using d(2) by (metis ordinary_def nth_mem)
    qed
    then have i: "11 \<le> i" using that \<open>i \<noteq> 4\<close> by (metis Suc_leI eval_nat_numeral(3) le_neq_implies_less not_le)
    have "segs (take i name) = ''save'' # d # (if i = 11 then [] else segs (take (i - 12) r))"
    proof -
      have "take i name = ''save'' @ CHR ''/'' # d @ (if i = 11 then [] else CHR ''/'' # take (i - 12) r)"
        using nd i d p by (simp add: take_Cons') (simp add: p_def)
      then show ?thesis using segs_ordinary(1,2) [OF d(2)] segs_ordinary(3) d by (simp add: ordinary_def)
    qed
    moreover have "take i name \<noteq> []" "hd (take i name) = CHR ''s''" using n i by (auto simp: hd_take)
    ultimately have "resolve_path k (take i name) =
        (if i = 11 then Some (dk_cwd k @ [''save'', d]) else None)"
      using k d segs_nonempty [of "take (i - 12) r"]
      by (auto simp: resolve_path_def ordinary_def neq_Nil_conv)
    then show False using that k(3) [rule_format, of "[]"] by (auto simp: stat_ok_def split: if_splits)
  qed
  moreover have "4 < length name" "name ! 4 = CHR ''/''" "take 4 name = ''save''" by (simp_all add: n)
  moreover have "stat_ok k ''save''" using k by (simp add: stat_ok_def resolve_path_def)
  ultimately show ?thesis using scan_back_some [of 4 "length name" name k] by (auto simp: name_def [symmetric])
qed

lemma climbing_slashes:
  assumes d: "length d = 6" "ordinary d" and s: "ordinary s" and w: "ordinary w"
  shows "filter (\<lambda>j. climbing d s w ! j = CHR ''/'') [5 ..< length (climbing d s w)] =
      [11, 12 + length s, 15 + length s, 18 + length s, 21 + length s]"
proof -
  define name where "name = climbing d s w"
  note n = name_def [unfolded climbing_def]
  define p where "p = ''save/''"
  define r where "r = s @ ''/../../../'' @ w"
  have p: "length p = 5" by (simp add: p_def)
  let ?l = "length s"
  have p1: "filter (\<lambda>j. name ! j = CHR ''/'') [5 ..< length name] =
      11 # filter (\<lambda>j. name ! j = CHR ''/'') [12 ..< length name]"
    using next_slash [of name p d r 5 11] d by (simp add: n p_def r_def ordinary_def del: upt_Suc)
  have p2: "filter (\<lambda>j. name ! j = CHR ''/'') [12 ..< length name] =
      (12 + ?l) # filter (\<lambda>j. name ! j = CHR ''/'') [13 + ?l ..< length name]"
    using next_slash [of name "p @ d @ ''/''" s "''../../../'' @ w" 12 "12 + ?l"] s d by (simp add: n p_def ordinary_def del: upt_Suc)
  have p3: "filter (\<lambda>j. name ! j = CHR ''/'') [13 + ?l ..< length name] =
      (15 + ?l) # filter (\<lambda>j. name ! j = CHR ''/'') [16 + ?l ..< length name]"
    using next_slash [of name "p @ d @ ''/'' @ s @ ''/''" "''..''" "''../../'' @ w" "13 + ?l" "15 + ?l"] d by (simp add: n p_def del: upt_Suc)
  have p4: "filter (\<lambda>j. name ! j = CHR ''/'') [16 + ?l ..< length name] =
      (18 + ?l) # filter (\<lambda>j. name ! j = CHR ''/'') [19 + ?l ..< length name]"
    using next_slash [of name "p @ d @ ''/'' @ s @ ''/../''" "''..''" "''../'' @ w" "16 + ?l" "18 + ?l"] d by (simp add: n p_def del: upt_Suc)
  have p5: "filter (\<lambda>j. name ! j = CHR ''/'') [19 + ?l ..< length name] = [21 + ?l]"
    using next_slash [of name "p @ d @ ''/'' @ s @ ''/../../''" "''..''" w "19 + ?l" "21 + ?l"]
      no_slash [of name "p @ d @ ''/'' @ s @ ''/../../../''" w "22 + ?l"] d w by (simp add: n p_def ordinary_def del: upt_Suc)
  show ?thesis unfolding name_def [symmetric] by (simp only: p1 p2 p3 p4 p5)
qed

lemma climbing_made:
  assumes k: "dk_fs k (dk_cwd k) = Some Dir" "dk_fs k (dk_cwd k @ [''save'']) = Some Dir"
      "\<forall>q. dk_fs k (dk_cwd k @ ''save'' # d # q) = None"
    and d: "length d = 6" "ordinary d" and s: "ordinary s" and w: "ordinary w"
  defines "k1 \<equiv> set_node (dk_cwd k @ [''save'', d, s]) Dir (set_node (dk_cwd k @ [''save'', d]) Dir k)"
  shows "make_dirs (climbing d s w) 4 k = k1" "resolve_path k1 (climbing d s w) = Some (dk_cwd k @ [w])"
proof -
  let ?c = "dk_cwd k" and ?l = "length s" and ?t = "dk_cwd k @ [w]"
  define name where "name = climbing d s w"
  note n = name_def [unfolded climbing_def]
  note ps = climbing_slashes [OF d s w, folded name_def] and sg = segs_ordinary(2)
    and sv = segs_ordinary(3) and ws = segs_ordinary(1) [OF w] segs_ordinary(1) [OF s] segs_ordinary(1) [OF d(2)]
  have ts: "take 11 name = ''save/'' @ d" "take (12 + ?l) name = ''save/'' @ d @ ''/'' @ s"
    "take (15 + ?l) name = ''save/'' @ d @ ''/'' @ s @ ''/..''"
    "take (18 + ?l) name = ''save/'' @ d @ ''/'' @ s @ ''/../..''"
    "take (21 + ?l) name = ''save/'' @ d @ ''/'' @ s @ ''/../../..''"
    using d take_prefix [of name "''save/'' @ d" "''/'' @ s @ ''/../../../'' @ w" 11]
      take_prefix [of name "''save/'' @ d @ ''/'' @ s" "''/../../../'' @ w" "12 + ?l"]
      take_prefix [of name "''save/'' @ d @ ''/'' @ s @ ''/..''" "''/../../'' @ w" "15 + ?l"]
      take_prefix [of name "''save/'' @ d @ ''/'' @ s @ ''/../..''" "''/../'' @ w" "18 + ?l"]
      take_prefix [of name "''save/'' @ d @ ''/'' @ s @ ''/../../..''" "''/'' @ w" "21 + ?l"]
    by (simp_all add: n)
  have l: "last d \<noteq> CHR ''/''" "last s \<noteq> CHR ''/''" "d \<noteq> []" "s \<noteq> []"
    using d s by (auto simp: ordinary_def dest: last_in_set)
  have o: "d \<noteq> ''.''" "d \<noteq> ''..''" "s \<noteq> ''.''" "s \<noteq> ''..''" "w \<noteq> []" "w \<noteq> ''.''" "w \<noteq> ''..''"
    using d s w by (auto simp: ordinary_def)
  have r1: "resolve_path k (''save/'' @ d) = Some (?c @ [''save'', d])"
    using k ws o l by (simp add: resolve_path_def sv del: append.simps)
  have r2: "resolve_path (set_node (?c @ [''save'', d]) Dir k) (''save/'' @ d @ ''/'' @ s) = Some (?c @ [''save'', d, s])"
    using k ws o l sg [OF d(2), of s] by (simp add: resolve_path_def)
  have r3: "resolve_path k1 (''save/'' @ d @ ''/'' @ s @ ''/..'') = Some (?c @ [''save'', d])"
    "resolve_path k1 (''save/'' @ d @ ''/'' @ s @ ''/../..'') = Some (?c @ [''save''])"
    "resolve_path k1 (''save/'' @ d @ ''/'' @ s @ ''/../../..'') = Some ?c"
    "resolve_path k1 name = Some ?t"
    using k ws o l sg [OF d(2)] sg [OF s] by (simp_all add: k1_def resolve_path_def n butlast_append)
  show "make_dirs (climbing d s w) 4 k = k1" unfolding name_def [symmetric]
    using k(1,2) k(3) [rule_format, of "[]"] k(3) [rule_format, of "[s]"] r1 r2 r3 l
    by (simp add: k1_def make_dirs_def ps ts mkdir_resolved)
  show "resolve_path k1 (climbing d s w) = Some ?t" using r3(4) by (simp add: name_def)
qed

text \<open>The mirror does not keep to its directory: the file \<open>/../../../w\<close>, which \<open>fileNormalize\<close> makes of
  \<open>/%2e%2e/%2e%2e/%2e%2e/w\<close>, is written beside \<open>saveDir\<close>, over what is there.\<close>

theorem mirror_escapes:
  assumes k: "dk_fs k (dk_cwd k) = Some Dir" "dk_fs k (dk_cwd k @ [''save'']) = Some Dir"
      "\<forall>q. dk_fs k (dk_cwd k @ ''save'' # site_dir u # q) = None" "dk_fs k (dk_cwd k @ [w]) \<noteq> Some Dir"
    and u: "isValid u" "ordinary (site_name u)" "ordinary w" "file_str u = ''/../../../'' @ w"
    and b: "b = add_slash saveDir @ ''d00000/''"
  shows "\<exists>k1. user_loaded u page (Out_mirror b, k) = Some (Out_mirror b, k1) \<and>
    dk_fs k1 (dk_cwd k @ [w]) = Some (File page)"
proof -
  let ?d = "site_dir u" and ?s = "site_name u" and ?c = "dk_cwd k" and ?t = "dk_cwd k @ [w]"
  let ?k1 = "set_node (dk_cwd k @ [''save'', ?d, ?s]) Dir (set_node (dk_cwd k @ [''save'', ?d]) Dir k)"
  define name where "name = climbing ?d ?s w"
  note n = name_def [unfolded climbing_def]
  have nm: "mirror_name b u = name" using u(4) by (simp add: n b mirror_name_eq)
  have d: "length ?d = 6" "ordinary ?d" by (simp_all add: site_dir_def ordinary_def) (simp add: dir_name_def)
  note scan = climbing_scan [OF k(1-3) d, of ?s w, folded name_def]
    and made = climbing_made [OF k(1-3) d u(2,3), folded name_def]
  have ne: "?t \<noteq> ?c @ [''save'', ?d]" "?t \<noteq> ?c @ [''save'', ?d, ?s]" by auto
  have c: "creat name ?k1 = Some (?t, set_node ?t (File []) ?k1)"
    using k(4) ne by (simp add: creat_def made(2))
  have a: "append_file ?t page (set_node ?t (File []) ?k1) = set_node ?t (File page) (set_node ?t (File []) ?k1)"
    using append_file_at [of "set_node ?t (File []) ?k1" ?t "[]"] by simp
  have lw: "last name \<noteq> CHR ''/''" using u(3) n by (auto simp: ordinary_def dest: last_in_set)
  have "length name \<le> length (host_str u) + length (file_str u) + 18"
    using port_str_length [of u] d by (simp add: n u(4) site_name_def)
  then have fits: "\<not> length saveDir + maxUrlSize + 50 \<le> length name"
    using u(1) by (auto simp: isValid_def saveDir_def host_str_def file_str_def split: option.splits)
  have "mirror_loaded u page (b, k) = Some (b, set_node ?t (File page) (set_node ?t (File []) ?k1))"
    unfolding mirror_loaded_def Let_def prod.case nm
    using fits scan lw made(1) by (simp add: c a)
  then show ?thesis by (simp add: user_loaded_def)
qed

theorem mirror_escapes_witness:
  "fileNormalize ''/%2e%2e/%2e%2e/%2e%2e/x'' = Normal ''/../../../x'' \<and>
   (\<exists>k1 :: disk. dk_fs k1 [''home'', ''x''] = Some (File ''page''))"
proof
  show "fileNormalize ''/%2e%2e/%2e%2e/%2e%2e/x'' = Normal ''/../../../x''"
    by (simp add: fileNormalize_def file_norm.simps(2) at_nul_def hexToInt_def is_digit_def is_graph_def
      chr_def Let_def char_of_def bit_iff_odd)
  let ?k = "\<lparr>dk_fs = [[''home''] \<mapsto> Dir, [''home'', ''save''] \<mapsto> Dir, [''home'', ''x''] \<mapsto> File ''mine''], dk_cwd = [''home'']\<rparr>"
  let ?u = "(url_init 3)\<lparr>u_host := Some ''h'', u_file := Some ''/../../../x'', u_port := 80\<rparr>"
  have "isValid ?u" "site_name ?u = ''h''" by (simp_all add: isValid_def url_init_def size_defs site_name_def host_str_def)
  then show "\<exists>k1 :: disk. dk_fs k1 [''home'', ''x''] = Some (File ''page'')"
    using mirror_escapes [of ?k ?u "''x''" "add_slash saveDir @ ''d00000/''" "''page''"]
    by (auto simp: ordinary_def file_str_def)
qed

subsection \<open>Statistics of the pages\<close>

definition stats_after :: "string list \<Rightarrow> page_stats" where
  "stats_after ps = fold stats_loaded ps stats_initUserOutput"

definition bin :: "string \<Rightarrow> nat" where
  "bin page = min (length page div taille) (nb - 1)"

definition pages_of :: "string list \<Rightarrow> nat \<Rightarrow> nat" where
  "pages_of ps t = length (filter (\<lambda>p. bin p = t) ps)"

definition bytes_of :: "string list \<Rightarrow> nat \<Rightarrow> nat" where
  "bytes_of ps t = sum_list (map length (filter (\<lambda>p. bin p = t) ps))"

lemma bin_eq: "(if length p div taille \<ge> nb then nb - 1 else length p div taille) = bin p" "bin p < nb"
  by (simp_all add: bin_def nb_def)

text \<open>An entry that grows, and the maximum that follows it.\<close>

lemma running_max:
  fixes xs :: "nat list"
  assumes "t < length xs" "xs ! t \<le> a" "m \<in> set xs" "\<forall>x \<in> set xs. x \<le> m"
  shows "max a m \<in> set (xs[t := a])" "\<forall>x \<in> set (xs[t := a]). x \<le> max a m"
proof -
  obtain i where i: "i < length xs" "xs ! i = m" using assms(3) by (auto simp: in_set_conv_nth)
  show "max a m \<in> set (xs[t := a])"
  proof (cases "m \<le> a")
    case True
    then show ?thesis using assms(1) by (simp add: max_def set_update_memI)
  next
    case False
    then have "i \<noteq> t" using i assms(2) by auto
    then have "xs[t := a] ! i = m" "i < length (xs[t := a])" using i by simp_all
    then show ?thesis using False by (metis max.absorb4 not_le nth_mem)
  qed
  show "\<forall>x \<in> set (xs[t := a]). x \<le> max a m"
    using assms(4) set_update_subset_insert [of xs t a] by fastforce
qed

lemma stats_snoc: "stats_after (ps @ [p]) = stats_loaded p (stats_after ps)"
  by (simp add: stats_after_def)

lemma stats_tables:
  "ps_tabs (stats_after ps) = map (pages_of ps) [0..<nb] \<and> ps_tabb (stats_after ps) = map (bytes_of ps) [0..<nb] \<and>
   ps_totalpages (stats_after ps) = length ps + 1 \<and> ps_totalbytes (stats_after ps) = sum_list (map length ps)"
proof (induction ps rule: rev_induct)
  case Nil
  show ?case by (simp add: stats_after_def stats_initUserOutput_def pages_of_def bytes_of_def map_replicate_const)
next
  case (snoc p ps)
  show ?case using snoc.IH bin_eq [of p]
    by (auto simp: stats_snoc stats_loaded_def Let_def pages_of_def bytes_of_def nth_list_update intro!: nth_equalityI)
qed

lemma stats_maxima:
  "(ps_maxs (stats_after ps) \<in> set (ps_tabs (stats_after ps)) \<and> (\<forall>x \<in> set (ps_tabs (stats_after ps)). x \<le> ps_maxs (stats_after ps))) \<and>
   (ps_maxb (stats_after ps) \<in> set (ps_tabb (stats_after ps)) \<and> (\<forall>x \<in> set (ps_tabb (stats_after ps)). x \<le> ps_maxb (stats_after ps)))"
proof (induction ps rule: rev_induct)
  case Nil
  show ?case by (simp add: stats_after_def stats_initUserOutput_def nb_def)
next
  case (snoc p ps)
  have b: "bin p < length (ps_tabs (stats_after ps))" "bin p < length (ps_tabb (stats_after ps))"
    using stats_tables [of ps] bin_eq(2) [of p] by simp_all
  show ?case
    using running_max [OF b(1), of "ps_tabs (stats_after ps) ! bin p + 1" "ps_maxs (stats_after ps)"]
      running_max [OF b(2), of "ps_tabb (stats_after ps) ! bin p + length p" "ps_maxb (stats_after ps)"] snoc.IH
    by (simp add: stats_snoc stats_loaded_def Let_def bin_eq(1))
qed

definition bars :: "(nat \<Rightarrow> nat) \<Rightarrow> string" where
  "bars v =
     concat (map (\<lambda>t. ''|'' @ replicate (v t * larg div (Max (v ` {..<nb}) + 1)) (CHR ''*'') @ [NL]) [0..<nb])"

lemma dessine_bars:
  assumes "tab = map v [0..<nb]" "m \<in> set tab" "\<forall>x \<in> set tab. x \<le> m"
  shows "dessine tab m = bars v"
proof -
  have "Max (v ` {..<nb}) = m" using assms by (intro Max_eqI) auto
  then show ?thesis using assms(1) by (simp add: dessine_def bars_def dessine_row_def comp_def)
qed

lemma stats_pages: "user_pages ps (Out_stats s, k) = Some (Out_stats (fold stats_loaded (map snd ps) s), k)"
  by (induction ps arbitrary: s) (auto simp: user_loaded_def)

text \<open>With \<open>OM_STATS\<close>, the report after a run has, for each of its 25 sizes, a bar for the pages of that size
  and one for their bytes, in proportion to the largest and always shorter than 40 stars; the number of
  pages that it names is one more than there were.\<close>

theorem stats_report:
  assumes "sum_list (map (length \<circ> snd) ps) < 2 ^ 31" "length ps + 1 < 2 ^ 31"
  shows "\<exists>s. user_pages ps (initUserOutput OM_STATS k) = Some (Out_stats s, k) \<and>
    outputStats (Out_stats s) = Some (
      ''Stats for '' @ dec (length ps + 1) @ '' pages.'' @ [NL]
        @ ''Mean size of a page : '' @ dec (sum_list (map (length \<circ> snd) ps) div (length ps + 1)) @ [NL, NL]
        @ ''Proportion of pages per size (one row is 4096 bytes, max size is 102400 bytes) :'' @ [NL, NL]
        @ bars (pages_of (map snd ps)) @ [NL, NL] @ ''bytes transfered by size :'' @ [NL, NL]
        @ bars (bytes_of (map snd ps))) \<and>
    (\<forall>t < nb. pages_of (map snd ps) t * larg div (Max (pages_of (map snd ps) ` {..<nb}) + 1) < larg \<and>
      bytes_of (map snd ps) t * larg div (Max (bytes_of (map snd ps) ` {..<nb}) + 1) < larg)"
proof -
  let ?ps = "map snd ps" and ?s = "stats_after (map snd ps)"
  have u: "user_pages ps (initUserOutput OM_STATS k) = Some (Out_stats ?s, k)"
    by (simp add: initUserOutput_def stats_pages stats_after_def)
  note t = stats_tables [of ?ps] and m = stats_maxima [of ?ps]
  have d: "dessine (ps_tabs ?s) (ps_maxs ?s) = bars (pages_of ?ps)" "dessine (ps_tabb ?s) (ps_maxb ?s) = bars (bytes_of ?ps)"
    using t m by (intro dessine_bars; simp)+
  have short: "v t * larg div (Max (v ` {..<nb}) + 1) < larg" if "t < nb" for v :: "nat \<Rightarrow> nat" and t
  proof -
    have "v t < Max (v ` {..<nb}) + 1" using that by (simp add: less_Suc_eq_le)
    then have "v t * larg < larg * (Max (v ` {..<nb}) + 1)" by (simp add: larg_def)
    then show ?thesis by (simp add: less_mult_imp_div_less)
  qed
  have s32: "s32 (int n) = int n" if "n < 2 ^ 31" for n
    using that by (intro s32_id) simp_all
  have pr: "print_int (s32 (int n)) = dec n" if "n < 2 ^ 31" for n
    using s32 [OF that] by (simp add: print_int_def)
  have total: "sum_list (map length ?ps) < 2 ^ 31" using assms(1) by (simp add: comp_def)
  have mean: "sum_list (map length ?ps) div (length ps + 1) < 2 ^ 31"
    using total by (rule le_less_trans [OF div_le_dividend])
  have "print_int (s32 (int (sum_list (map length ?ps)) div int (length ps + 1)))
      = dec (sum_list (map length ?ps) div (length ps + 1))"
    using pr [OF mean] by (simp only: zdiv_int)
  moreover have lits: "print_int (int taille) = ''4096''" "print_int (int (taille * nb)) = ''102400''"
    by (simp_all add: print_int_def taille_def nb_def dec.simps digit_chr_def chr_def char_of_def bit_iff_odd)
  ultimately have "outputStats (Out_stats ?s) = Some (
      ''Stats for '' @ dec (length ps + 1) @ '' pages.'' @ [NL]
        @ ''Mean size of a page : '' @ dec (sum_list (map (length \<circ> snd) ps) div (length ps + 1)) @ [NL, NL]
        @ ''Proportion of pages per size (one row is 4096 bytes, max size is 102400 bytes) :'' @ [NL, NL]
        @ bars (pages_of ?ps) @ [NL, NL] @ ''bytes transfered by size :'' @ [NL, NL] @ bars (bytes_of ?ps))"
    using t total pr [OF assms(2)] unfolding outputStats_def output_state.case stats_outputStats_def d
    by (simp add: not_le comp_def)
  then show ?thesis using u short by blast
qed

theorem stats_report_witness:
  "\<exists>s. user_pages [] (initUserOutput OM_STATS \<lparr>dk_fs = [[] \<mapsto> Dir], dk_cwd = []\<rparr>) =
     Some (Out_stats s, \<lparr>dk_fs = [[] \<mapsto> Dir], dk_cwd = []\<rparr>) \<and> outputStats (Out_stats s) \<noteq> None"
  using stats_report [of "[]" "\<lparr>dk_fs = [[] \<mapsto> Dir], dk_cwd = []\<rparr>"] by auto

subsection \<open>Reading a page back\<close>

text \<open>\<open>getContent\<close> gives the whole page whatever the sizes of its reads are, when it fits. An error moves the
  position back by one, so the last byte is overwritten by the next read.\<close>

lemma getContent_more:
  "list_all (\<lambda>s. s \<noteq> []) ss \<Longrightarrow> length content + length (concat ss) < mx \<Longrightarrow>
   getContent_loop mx content (map Rd ss @ [Rd []]) = Some (content @ concat ss)"
proof (induction ss arbitrary: content)
  case (Cons s ss)
  then have "take (mx - Suc (length content)) s = s" by simp
  then show ?case using Cons by simp
qed simp

theorem getContent_whole:
  assumes "list_all (\<lambda>s. s \<noteq> []) ss" "length (concat ss) < mx"
  shows "getContent_loop mx [] (map Rd ss @ [Rd []]) = Some (concat ss)"
    "getContent_loop mx [] (map Rd ss @ [Rd_error, Rd []]) = (if ss = [] then None else Some (butlast (concat ss)))"
proof -
  show "getContent_loop mx [] (map Rd ss @ [Rd []]) = Some (concat ss)"
    using getContent_more [of ss "[]" mx] assms by simp
  have "getContent_loop mx content (map Rd ss @ [Rd_error, Rd []]) =
      (if content @ concat ss = [] then None else Some (butlast (content @ concat ss)))"
    if "list_all (\<lambda>s. s \<noteq> []) ss" "length content + length (concat ss) < mx" for content
    using that
  proof (induction ss arbitrary: content)
    case (Cons s ss)
    then have "take (mx - Suc (length content)) s = s" by simp
    then show ?case using Cons by simp
  qed simp
  from this [of "[]"] show "getContent_loop mx [] (map Rd ss @ [Rd_error, Rd []]) =
      (if ss = [] then None else Some (butlast (concat ss)))"
    using assms by (cases ss) auto
qed

end
