(* ===== verification/AdnsPoll.thy ===== *)
theory AdnsPoll
  imports AdnsEvent
begin

text \<open>
  The library around \<open>poll\<close> instead of \<open>select\<close>, src/adns/poll.c, and the call that submits and
  waits, the end of src/adns/query.c.
\<close>

subsection \<open>Times\<close>

text \<open>\<open>poll\<close> wants milliseconds: rounded up, -1 for no bound. The assertion keeps the sum within
  an \<open>int\<close>.\<close>

definition INT_MAX :: int where "INT_MAX = 2147483647"

definition ms_timeval :: "int \<Rightarrow> timeval option" where
  "ms_timeval ms = (if ms = - 1 then None else Some (ms div 1000, ms mod 1000 * 1000))"

definition timeval_ms :: "timeval option \<Rightarrow> int option" where
  "timeval_ms tv =
     (case tv of
        None \<Rightarrow> Some (- 1)
      | Some t \<Rightarrow>
          let ms = (snd t + 999) div 1000 in
          if fst t < (INT_MAX - ms) div 1000 then Some (ms + fst t * 1000) else None)"

subsection \<open>Before and after \<open>poll\<close>\<close>

text \<open>The caller gives the time it wants to wait, if it asks for one, and how many descriptors it has
  room for; when the room is too small the number needed is returned.\<close>

datatype poll_fds = Fds "pollfd list" | ERANGE nat

definition adns_beforepoll ::
    "timeval \<Rightarrow> int option \<Rightarrow> nat \<Rightarrow> ads \<Rightarrow> (poll_fds \<times> int option \<times> ads) option" where
  "adns_beforepoll now timeout space a = do {
     (t, a1) \<leftarrow>
       (case timeout of
          None \<Rightarrow> Some (None, a)
        | Some ms \<Rightarrow> do {
            (tv, a1) \<leftarrow> adns_firsttimeout now a (ms_timeval ms);
            ms1 \<leftarrow> timeval_ms tv;
            Some (Some ms1, a1) });
     let fds = pollfds a1;
     Some (if space < length fds then ERANGE (length fds) else Fds fds, t, a1) }"

definition adns_afterpoll :: "system \<Rightarrow> timeval \<Rightarrow> pollfd list \<Rightarrow> inputs \<Rightarrow> ads \<Rightarrow> ads option" where
  "adns_afterpoll sys now fds inp a = do {
     a1 \<leftarrow> adns_processtimeouts sys now a;
     fdevents sys now False inp fds a1 }"

datatype poll_result = Poll_intr | Poll_error | Poll_ready timeval "fd \<Rightarrow> pollfd" inputs

text \<open>The descriptors that come back are those that were given, with the events that happened.\<close>

fun adns_wait_poll ::
    "system \<Rightarrow> bool \<Rightarrow> nat option \<Rightarrow> (timeval \<times> poll_result) list \<Rightarrow> ads \<Rightarrow> (check_result \<times> ads) option" where
  "adns_wait_poll sys eintr qo [] a = internal_check qo a"
| "adns_wait_poll sys eintr qo ((now, pr) # rounds) a = do {
     (r, a1) \<leftarrow> internal_check qo a;
     if r \<noteq> EAGAIN then Some (r, a1)
     else do {
       (fds, tv, a2) \<leftarrow> adns_beforepoll now (Some (- 1)) 2 a1;
       (case pr of
          Poll_intr \<Rightarrow> if eintr then Some (EINTR, a2) else adns_wait_poll sys eintr qo rounds a2
        | Poll_error \<Rightarrow> do {
            a3 \<leftarrow> adns_globalsystemfailure sys a2;
            adns_wait_poll sys eintr qo rounds a3 }
        | Poll_ready now1 ready inp \<Rightarrow> do {
            a3 \<leftarrow> adns_afterpoll sys now1
                    (case fds of Fds l \<Rightarrow> map (\<lambda>p. (ready (pf_fd p))\<lparr>pf_fd := pf_fd p\<rparr>) l | ERANGE n \<Rightarrow> [])
                    inp a2;
            adns_wait_poll sys eintr qo rounds a3 }) } }"

subsection \<open>Submitting and waiting\<close>

text \<open>The answer, or the error number and a library without the query.\<close>

datatype sync_result = Sync_answer query | Sync_refused submit_error | Sync_failed check_result

definition adns_synchronous ::
    "system \<Rightarrow> timeval \<Rightarrow> inputs option \<Rightarrow> bool \<Rightarrow> (timeval \<times> select_result) list \<Rightarrow>
     string \<Rightarrow> nat \<Rightarrow> queryflags \<Rightarrow> ads \<Rightarrow> (sync_result \<times> ads) option" where
  "adns_synchronous sys now autosys eintr rounds owner type flags a = do {
     r \<leftarrow> adns_submit sys now autosys owner type flags a;
     (case r of
        Inl e \<Rightarrow> Some (Sync_refused e, a)
      | Inr (q, a1) \<Rightarrow> do {
          (c, a2) \<leftarrow> adns_wait sys eintr (Some q) rounds a1;
          (case c of
             Answer _ qu \<Rightarrow> Some (Sync_answer qu, a2)
           | e \<Rightarrow> do { a3 \<leftarrow> adns_cancel q a2; Some (Sync_failed e, a3) }) }) }"

subsection \<open>Properties\<close>

text \<open>The time in milliseconds is never shorter than the one asked for, and less than a millisecond
  longer.\<close>

lemma timeval_ms_bounds:
  assumes "timeval_ms (Some t) = Some ms"
  shows "fst t * 1000000 + snd t \<le> ms * 1000" "ms * 1000 < fst t * 1000000 + snd t + 1000"
proof -
  have "ms = (snd t + 999) div 1000 + fst t * 1000"
    using assms by (auto simp: timeval_ms_def Let_def split: if_splits)
  then show "fst t * 1000000 + snd t \<le> ms * 1000" "ms * 1000 < fst t * 1000000 + snd t + 1000"
    by linarith+
qed

lemma ms_timeval_ms:
  assumes "0 \<le> ms" "ms < INT_MAX - 999"
  shows "timeval_ms (ms_timeval ms) = Some ms"
proof -
  have r: "(ms mod 1000 * 1000 + 999) div 1000 = ms mod 1000" by linarith
  have "(k + 1) * 1000 \<le> INT_MAX - r" if "k * 1000 + r = ms" for k r
    using that assms by (simp add: algebra_simps)
  then have "(ms div 1000 + 1) * 1000 \<le> INT_MAX - ms mod 1000" by simp
  then have "(ms div 1000 + 1) * 1000 div 1000 \<le> (INT_MAX - ms mod 1000) div 1000"
    by (intro zdiv_mono1) simp_all
  then have "ms div 1000 < (INT_MAX - ms mod 1000) div 1000" by simp
  then show ?thesis using assms by (simp add: ms_timeval_def timeval_ms_def r Let_def)
qed

end
