(* ===== verification/Spec2Isabelle.thy ===== *)
theory Spec2Isabelle
  imports CText Config AdnsSetup UserOutput AdnsPoll
begin

text \<open>
  Larbin is a web crawler of one process and one thread: the urls to visit wait in queues in
  memory and on disk, a sequencer moves them to the sites they belong to, sites ask the resolver
  for their address and the server for its robots.txt, and fixed numbers of connections fetch the
  pages, whose links come back to the queues. The resolver library adns is part of the tree.

  Theories, from the bottom:
    \<^item> \<open>Larbin_Prelude\<close>: C strings, characters, decimal numbers; \<open>Larbin_Types\<close>: the limits of
      \<open>types.h\<close>, the errors of a fetch, the switches of \<open>global\<close>.
    \<^item> \<open>CText\<close> (\<open>utils/text.cxx\<close>), \<open>Fifos\<close> (\<open>fifo.h\<close>, \<open>sync_fifo.h\<close>, \<open>constant_fifo.h\<close>, the
      class \<open>Interval\<close>), \<open>Buffers\<close> (\<open>string.cxx\<close>, \<open>vector.h\<close>), \<open>Connection\<close> (\<open>connection.cxx\<close>).
    \<^item> \<open>Punycode\<close> (\<open>punycode.cxx\<close>), \<open>Url\<close> (\<open>url.cxx\<close>), \<open>SeenTable\<close> (\<open>hash_table.cxx\<close>,
      \<open>hash_duplicate.cxx\<close>), \<open>PersFifo\<close> (\<open>persistent_fifo.cxx\<close>).
    \<^item> \<open>Site\<close>: the state of the process and the operations of named sites and addresses, the
      sequencer, \<open>fetchDns\<close>, \<open>fetchOpen\<close>, \<open>check\<close>, \<open>manageUrl\<close>. \<open>Accounting\<close>: the invariant of
      its counters and queues. \<open>Pool\<close>: the same operations seen from the connections, a refinement
      of an abstract machine that takes, starts and gives back connections.
    \<^item> \<open>Robots\<close> and \<open>Html\<close> (\<open>file.cxx\<close>): the parsers of robots.txt and of pages. \<open>Pages\<close>: what a
      page may do to the rest of the state. \<open>Pipe\<close> (\<open>fetch_pipe.cxx\<close>, \<open>output.cxx\<close>): the open
      connections, and the whole crawler as a step relation. \<open>Input\<close> (\<open>input.cxx\<close>): the port on which
      clients submit urls. \<open>Histogram\<close> (\<open>histogram.cxx\<close>). \<open>Control\<close> (\<open>main.cxx\<close>, \<open>level.cxx\<close>,
      \<open>limit_time.cxx\<close>, \<open>limit_page.cxx\<close>): the turns of the main loop.
      \<open>UserOutput\<close> (\<open>user_output.cxx\<close>, \<open>save_user_output.cxx\<close>, \<open>mirror_user_output.cxx\<close>,
      \<open>stats_user_output.cxx\<close>, \<open>save_specific_buffer.cxx\<close>): where the pages go, over a model of the disk.
      \<open>Config\<close> (\<open>global.cxx\<close>): arguments, the configuration file, the state in which the loop begins.
    \<^item> \<open>AdnsTypes\<close>, \<open>AdnsMsg\<close>, \<open>AdnsMkquery\<close>, \<open>AdnsRR\<close>: tables and sorting of adns, its datagrams,
      queries, and record types (\<open>general.c\<close>, \<open>parse.c\<close>, \<open>transmit.c\<close>, \<open>types.c\<close>).
    \<^item> The query machine of adns: \<open>AdnsQuery\<close> (\<open>query.c\<close>, and what sends, of \<open>transmit.c\<close> and
      \<open>event.c\<close>) has the queries, their queues and families and what moves them; \<open>AdnsReply\<close>
      (\<open>reply.c\<close>) what a datagram does to them; \<open>AdnsEvent\<close> (\<open>event.c\<close>) timeouts, sockets, rounds of
      events and the calls of the user; \<open>AdnsPoll\<close> (\<open>poll.c\<close>). \<open>AdnsInv\<close> has the checks of
      \<open>check.c\<close> as an invariant and that finishing and cancelling keep it, \<open>AdnsTcp\<close> that sending
      and submitting do, \<open>AdnsRounds\<close> that the loops over timeouts end; \<open>AdnsContract\<close> states what
      the machine promises, and where it does not return. \<open>AdnsChildren\<close> has what the parsers of
      records ask for, and \<open>AdnsKeep\<close> that no sequence of calls and answers breaks the checks.
      \<open>AdnsSetup\<close> (\<open>setup.c\<close>) makes a library from its configuration, closes it, and goes through
      its queries.

  Conventions. A function keeps the name of the source, with the class in front where a name
  is used twice (\<open>ns_\<close>, \<open>ip_\<close>, \<open>pf_\<close>). A result \<open>None\<close> is a failed assertion, a store outside an array
  or a call that does not return, as the text at the head of each theory says; a C function that reports
  an error returns that error. Counters that the source cannot let grow far are \<open>nat\<close> or \<open>int\<close>;
  hash codes, ports and sizes that wrap are words. What the system, the resolver and the network
  answer are arguments or fields of the state, so a theorem holds for every behaviour of theirs.

  Locales: \<open>bounded_fifo\<close> is the contract of a queue, met by the three queues in memory and by the
  queue on disk; \<open>seen_table\<close> that of a table of hash codes, met by the tables of urls and of
  pages; \<open>bsearch_table\<close> that of a sorted table, met by the three tables of adns.

  Results. The queues are first-in first-out, the one on disk across files and partial reads. The
  counters agree with the queues in every reachable state, and the free connections are
  the idle ones. What is sent to a server is its request; a silent server is reported. The encoder of host
  names is inverted by the decoder of its standard; urls are printed and read back. File names are
  resolved as paths. A page or a robots.txt is understood however it is cut into pieces, and its
  links and rules are found. Pages that are saved are in the files that the index names. Datagrams of
  adns are read back as what was asked, as far as they fit their buffer. Its query machine, set up with a
  sort list of networks, stays consistent whatever it is sent, gives up a query that nobody answers over UDP
  after a fixed number of tries, and lets in only answers of a server that was asked. That its calls
  return is shown under conditions that each theorem names (sockets can be had, no query that waits for
  TCP checks the address of a name, no datagram is refused as too long); the cases outside them in which
  a call does not return or aborts have theorems of their own. Where the code does not do
  what it means to, a theorem says what it does.

  Not modelled: threads and signals, the web server and the statistics (they do not influence the
  crawl), and how adns gathers an answer into one block of memory.
\<close>

end
